(* ===== verification/Transactional_Store.thy ===== *)
theory Transactional_Store
  imports Prelude
begin

text \<open>
  \<^verbatim>\<open>packages/dreamux-utils/src/transactional-store.ts\<close>: one file, one committed value
  in memory, one queue of changes.

  A store is its slot (\<open>None\<close> before the first successful load) and the file (\<open>None\<close> when
  it does not exist).  The owner's loader and encoder are parameters, as in the source's
  options.  Whether a write or an unlink succeeds is an input of each operation.  A
  change returns \<open>None\<close> where the source returns the very reference it was given.
  Operations queued on one store run one after another; an operation's failure is its
  caller's and does not stop the next one.
\<close>

record ('a, 'f) tstore =
  slot :: "'a option"
  disk :: "'f option"

datatype 'e store_error =
    Not_Loaded
  | Load_Error 'e
  | Change_Error 'e
  | Write_Error
  | Already_Exists
  | After_Error 'e

definition fresh_store :: "'f option \<Rightarrow> ('a, 'f) tstore" where
  "fresh_store f = \<lparr>slot = None, disk = f\<rparr>"

definition store_load ::
  "('f option \<Rightarrow> 'e + 'a) \<Rightarrow> ('a, 'f) tstore \<Rightarrow> ('e store_error + 'a) \<times> ('a, 'f) tstore" where
  "store_load ld st =
     (case slot st of
        Some v \<Rightarrow> (Inr v, st)
      | None \<Rightarrow> (case ld (disk st) of
            Inl e \<Rightarrow> (Inl (Load_Error e), st)
          | Inr v \<Rightarrow> (Inr v, st\<lparr>slot := Some v\<rparr>)))"

definition store_current :: "('a, 'f) tstore \<Rightarrow> 'e store_error + 'a" where
  "store_current st = (case slot st of None \<Rightarrow> Inl Not_Loaded | Some v \<Rightarrow> Inr v)"

definition store_update ::
  "('f option \<Rightarrow> 'e + 'a) \<Rightarrow> ('a \<Rightarrow> 'f) \<Rightarrow> ('a \<Rightarrow> 'e + 'a option) \<Rightarrow> bool \<Rightarrow>
   ('a \<Rightarrow> 'a \<Rightarrow> 'e option) \<Rightarrow> ('a, 'f) tstore \<Rightarrow> ('e store_error + 'a) \<times> ('a, 'f) tstore" where
  "store_update ld enc change write_ok after_commit st =
     (case store_load ld st of
        (Inl e, st1) \<Rightarrow> (Inl e, st1)
      | (Inr previous, st1) \<Rightarrow>
         (case change previous of
            Inl e \<Rightarrow> (Inl (Change_Error e), st1)
          | Inr None \<Rightarrow> (Inr previous, st1)
          | Inr (Some next) \<Rightarrow>
             (if \<not> write_ok then (Inl Write_Error, st1)
              else
                let st2 = st1\<lparr>disk := Some (enc next), slot := Some next\<rparr> in
                (case after_commit next previous of
                   Some e \<Rightarrow> (Inl (After_Error e), st2)
                 | None \<Rightarrow> (Inr next, st2)))))"

definition store_create ::
  "('a \<Rightarrow> 'f) \<Rightarrow> 'a \<Rightarrow> bool \<Rightarrow> bool \<Rightarrow> ('a \<Rightarrow> 'e option) \<Rightarrow> ('a, 'f) tstore \<Rightarrow>
   ('e store_error + 'a) \<times> ('a, 'f) tstore" where
  "store_create enc v replace write_ok after_commit st =
     (if \<not> write_ok then (Inl Write_Error, st)
      else if \<not> replace \<and> disk st \<noteq> None then (Inl Already_Exists, st)
      else
        let st2 = st\<lparr>disk := Some (enc v), slot := Some v\<rparr> in
        (case after_commit v of
           Some e \<Rightarrow> (Inl (After_Error e), st2)
         | None \<Rightarrow> (Inr v, st2)))"

definition store_remove ::
  "('f option \<Rightarrow> 'e + 'a) \<Rightarrow> 'a \<Rightarrow> bool \<Rightarrow> ('a, 'f) tstore \<Rightarrow>
   ('e store_error + 'a) \<times> ('a, 'f) tstore" where
  "store_remove ld next unlink_ok st =
     (case store_load ld st of
        (Inl e, st1) \<Rightarrow> (Inl e, st1)
      | (Inr _, st1) \<Rightarrow>
         (if \<not> unlink_ok then (Inl Write_Error, st1)
          else (Inr next, st1\<lparr>disk := None, slot := Some next\<rparr>)))"

text \<open>The queue: \<^verbatim>\<open>enqueue\<close> chains every operation on the settlement of the one before.\<close>

datatype ('a, 'e) store_op =
    Op_Load
  | Op_Update "'a \<Rightarrow> 'e + 'a option" bool "'a \<Rightarrow> 'a \<Rightarrow> 'e option"
  | Op_Create 'a bool bool "'a \<Rightarrow> 'e option"
  | Op_Remove 'a bool

fun run_op ::
  "('f option \<Rightarrow> 'e + 'a) \<Rightarrow> ('a \<Rightarrow> 'f) \<Rightarrow> ('a, 'e) store_op \<Rightarrow> ('a, 'f) tstore \<Rightarrow>
   ('e store_error + 'a) \<times> ('a, 'f) tstore" where
  "run_op ld enc Op_Load st = store_load ld st"
| "run_op ld enc (Op_Update c w a) st = store_update ld enc c w a st"
| "run_op ld enc (Op_Create v r w a) st = store_create enc v r w a st"
| "run_op ld enc (Op_Remove v u) st = store_remove ld v u st"

fun run_queue ::
  "('f option \<Rightarrow> 'e + 'a) \<Rightarrow> ('a \<Rightarrow> 'f) \<Rightarrow> ('a, 'e) store_op list \<Rightarrow> ('a, 'f) tstore \<Rightarrow>
   ('e store_error + 'a) list \<times> ('a, 'f) tstore" where
  "run_queue ld enc [] st = ([], st)"
| "run_queue ld enc (q # qs) st =
     (let (r, st1) = run_op ld enc q st; (rs, st2) = run_queue ld enc qs st1
      in (r # rs, st2))"

subsection \<open>Memory is what a reload gives\<close>

text \<open>
  A reader only sees a value that is also on disk: if the slot holds a value, loading the
  file would give that value again.
\<close>

definition store_ok :: "('f option \<Rightarrow> 'e + 'a) \<Rightarrow> ('a \<Rightarrow> bool) \<Rightarrow> ('a, 'f) tstore \<Rightarrow> bool" where
  "store_ok ld valid st \<longleftrightarrow>
     (case slot st of None \<Rightarrow> True | Some v \<Rightarrow> ld (disk st) = Inr v \<and> valid v)"

lemma store_ok_fresh [simp]: "store_ok ld valid (fresh_store f)"
  by (simp add: store_ok_def fresh_store_def)

definition op_ok ::
  "('f option \<Rightarrow> 'e + 'a) \<Rightarrow> ('a \<Rightarrow> bool) \<Rightarrow> ('a, 'e) store_op \<Rightarrow> bool" where
  "op_ok ld valid q = (case q of
       Op_Load \<Rightarrow> True
     | Op_Update c _ _ \<Rightarrow> \<forall>v w. valid v \<longrightarrow> c v = Inr (Some w) \<longrightarrow> valid w
     | Op_Create v _ _ _ \<Rightarrow> valid v
     | Op_Remove v _ \<Rightarrow> ld None = Inr v)"

text \<open>
  The contract of an owner: what it encodes loads back, and what loads is valid.  The
  operations an owner queues keep its values valid, and a removal commits what a missing
  file loads as.
\<close>

locale durable_owner =
  fixes ld :: "'f option \<Rightarrow> 'e + 'a"
    and enc :: "'a \<Rightarrow> 'f"
    and valid :: "'a \<Rightarrow> bool"
  assumes load_enc: "valid v \<Longrightarrow> ld (Some (enc v)) = Inr v"
    and load_valid: "ld f = Inr v \<Longrightarrow> valid v"
begin

lemma load_ok: "store_ok ld valid st \<Longrightarrow> store_ok ld valid (snd (store_load ld st))"
  by (auto simp: store_ok_def store_load_def load_valid split: option.splits sum.splits)

lemma load_Inr:
  "store_ok ld valid st \<Longrightarrow> store_load ld st = (Inr v, st1) \<Longrightarrow>
   valid v \<and> slot st1 = Some v \<and> ld (disk st1) = Inr v \<and> disk st1 = disk st"
  by (auto simp: store_ok_def store_load_def load_valid split: option.splits sum.splits)

lemma load_Inl: "store_load ld st = (Inl e, st1) \<Longrightarrow> st1 = st"
  by (auto simp: store_load_def split: option.splits sum.splits)

lemma update_ok:
  assumes "store_ok ld valid st"
    and "\<And>v w. valid v \<Longrightarrow> c v = Inr (Some w) \<Longrightarrow> valid w"
  shows "store_ok ld valid (snd (store_update ld enc c w a st))"
proof (cases "store_load ld st")
  case (Pair r st1)
  show ?thesis
  proof (cases r)
    case (Inl e)
    with Pair load_Inl [of st e st1] assms(1) show ?thesis
      by (simp add: store_update_def)
  next
    case (Inr v)
    with Pair load_Inr [OF assms(1)] have
      "valid v" "slot st1 = Some v" "ld (disk st1) = Inr v" by auto
    with Pair Inr assms(2) [of v] show ?thesis
      by (auto simp: store_update_def store_ok_def Let_def load_enc
          split: sum.splits option.splits)
  qed
qed

lemma create_ok:
  "store_ok ld valid st \<Longrightarrow> valid v \<Longrightarrow>
   store_ok ld valid (snd (store_create enc v r w a st))"
  by (auto simp: store_create_def store_ok_def Let_def load_enc split: option.splits)

lemma remove_ok:
  assumes "store_ok ld valid st" "ld None = Inr v"
  shows "store_ok ld valid (snd (store_remove ld v u st))"
proof (cases "store_load ld st")
  case (Pair r st1)
  with load_ok [OF assms(1)] have "store_ok ld valid st1" by simp
  with Pair assms(2) show ?thesis
    by (auto simp: store_remove_def store_ok_def load_valid split: sum.splits option.splits)
qed

lemma run_op_ok:
  "store_ok ld valid st \<Longrightarrow> op_ok ld valid q \<Longrightarrow> store_ok ld valid (snd (run_op ld enc q st))"
  by (cases q) (auto simp: op_ok_def load_ok intro!: update_ok create_ok remove_ok)

lemma run_queue_ok:
  assumes "store_ok ld valid st" "\<forall>q \<in> set qs. op_ok ld valid q"
  shows "store_ok ld valid (snd (run_queue ld enc qs st))"
  using assms
proof (induction qs arbitrary: st)
  case Nil
  then show ?case by simp
next
  case (Cons q qs)
  from Cons.prems have "store_ok ld valid (snd (run_op ld enc q st))"
    by (simp add: run_op_ok)
  from Cons.IH [OF this] Cons.prems show ?case
    by (auto simp: Let_def split_def)
qed

text \<open>A process restart loses the slot; the value comes back from the file.\<close>

lemma reload_same:
  assumes "store_ok ld valid st" "slot st = Some v"
  shows "store_load ld (fresh_store (disk st)) =
           ((Inr v :: 'e store_error + 'a), \<lparr>slot = Some v, disk = disk st\<rparr>)"
  using assms by (simp add: store_ok_def store_load_def fresh_store_def)

end

subsection \<open>A failed or unchanged update writes nothing\<close>

lemma store_update_error_same:
  "store_update ld enc c w a st = (Inl e, st') \<Longrightarrow> (\<forall>x. e \<noteq> After_Error x) \<Longrightarrow>
   disk st' = disk st"
  by (auto simp: store_update_def store_load_def Let_def
      split: sum.splits option.splits if_splits)

lemma store_update_unchanged:
  assumes "store_load ld st = (Inr v, st1)" "c v = Inr None"
  shows "store_update ld enc c w a st = (Inr v, st1)"
  using assms by (simp add: store_update_def)

lemma store_update_commits:
  assumes "store_load ld st = (Inr v, st1)" "c v = Inr (Some n)" "a n v = None"
  shows "store_update ld enc c True a st =
           (Inr n, st1\<lparr>disk := Some (enc n), slot := Some n\<rparr>)"
  using assms by (simp add: store_update_def)

lemma run_queue_append:
  "run_queue ld enc (ps @ qs) st =
     (let (rs, st1) = run_queue ld enc ps st; (rs', st2) = run_queue ld enc qs st1
      in (rs @ rs', st2))"
  by (induction ps arbitrary: st) (auto simp: Let_def split: prod.splits)

end
