(* ===== verification/Js_Value.thy ===== *)
theory Js_Value
  imports Prelude
begin

text \<open>
  The values \<^verbatim>\<open>JSON.parse\<close> yields and the type tests the sources apply to an
  \<open>unknown\<close>: \<^verbatim>\<open>typeof\<close>, \<^verbatim>\<open>Array.isArray\<close>, \<^verbatim>\<open>isPlainObject\<close>, reading a property.
  An object is the list of its own enumerable properties with distinct names, in
  insertion order.  A number is a rational, so \<^verbatim>\<open>Number.isFinite\<close> holds of every
  number here: the overflow of a literal to \<open>Infinity\<close> is outside the model.
  \<open>Undef\<close> is JavaScript's \<^verbatim>\<open>undefined\<close>, which is what reading an absent property gives.
\<close>

datatype js =
    Undef
  | Null
  | Bool bool
  | Num rat
  | Str string
  | Arr "js list"
  | Obj "(string \<times> js) list"

definition jget :: "(string \<times> js) list \<Rightarrow> string \<Rightarrow> js" where
  "jget ob k = (case map_of ob k of None \<Rightarrow> Undef | Some v \<Rightarrow> v)"

lemma jget_Nil [simp]: "jget [] k = Undef"
  by (simp add: jget_def)

lemma jget_Cons [simp]: "jget ((k', v) # ob) k = (if k = k' then v else jget ob k)"
  by (simp add: jget_def)

definition is_integer :: "rat \<Rightarrow> bool" where
  "is_integer r \<longleftrightarrow> of_int \<lfloor>r\<rfloor> = r"

lemma is_integer_of_int [simp]: "is_integer (of_int i)"
  by (simp add: is_integer_def)

lemma is_integer_of_nat [simp]: "is_integer (of_nat n)"
  using is_integer_of_int [of "int n"] by simp

text \<open>\<^verbatim>\<open>describeType\<close>: the type's name in messages.\<close>

definition describe_type :: "js \<Rightarrow> string" where
  "describe_type v = (case v of
       Undef \<Rightarrow> ''undefined'' | Null \<Rightarrow> ''null'' | Bool _ \<Rightarrow> ''boolean'' | Num _ \<Rightarrow> ''number''
     | Str _ \<Rightarrow> ''string'' | Arr _ \<Rightarrow> ''array'' | Obj _ \<Rightarrow> ''object'')"

text \<open>\<^verbatim>\<open>isPlainObject\<close>.\<close>

definition is_plain_object :: "js \<Rightarrow> bool" where
  "is_plain_object v = (case v of Obj _ \<Rightarrow> True | _ \<Rightarrow> False)"

text \<open>
  What a read of a JSON file finds when the file exists: no access, text that is not JSON,
  or the parsed value.
\<close>

datatype json_file = Jf_Unreadable | Jf_Malformed | Jf_Value js

end
