(* ===== verification/Feishu_Access.thy ===== *)
theory Feishu_Access
  imports Transactional_Store Js_Value
begin

text \<open>
  The Feishu access gate and the store of its state:
  \<^verbatim>\<open>packages/channel/feishu-channel/src/access/\<close> (\<^verbatim>\<open>state.ts\<close>, \<^verbatim>\<open>gate.ts\<close>,
  \<^verbatim>\<open>index.ts\<close>).

  The state's policies and lists have the types the loader really guarantees: any string
  for a policy, any JSON values in a list.  The pending pairings are the object's
  properties in insertion order.  \<^verbatim>\<open>Date.now()\<close> and the sequence of random tokens are
  arguments.  Contexts attached to drops and log lines are left out.
\<close>

subsection \<open>State\<close>

definition MAX_PENDING :: nat where "MAX_PENDING = 10"

definition PAIRING_TTL_MS :: ms where "PAIRING_TTL_MS = 60 * 60 * 1000"

datatype pairing_kind = Kind_Dm | Kind_Group

record pending_entry =
  pe_sender :: string
  pe_chat :: string
  pe_created :: ms
  pe_expires :: ms
  pe_prompt :: "string option"

type_synonym pending_map = "(string \<times> pending_entry) list"

record access_state =
  ac_dm_policy :: string
  ac_group_policy :: string
  ac_allow_chats :: "js list"
  ac_require_mention :: bool
  ac_allow_users :: "js list"
  ac_pending :: pending_map

definition default_access_state :: access_state where
  "default_access_state =
     \<lparr>ac_dm_policy = ''pairing'', ac_group_policy = ''follow-user'', ac_allow_chats = [],
      ac_require_mention = True, ac_allow_users = [], ac_pending = []\<rparr>"

subsection \<open>Gate\<close>

function unique_token_from :: "(nat \<Rightarrow> string) \<Rightarrow> string set \<Rightarrow> nat \<Rightarrow> string" where
  "unique_token_from gen existing i =
     (if gen i \<in> existing \<and> i < 1000 then unique_token_from gen existing (Suc i) else gen i)"
  by pat_completeness auto
termination
  by (relation "measure (\<lambda>(_, _, i). 1000 - i)") auto

declare unique_token_from.simps [simp del]

text \<open>\<^verbatim>\<open>generateUniquePairingToken\<close>: \<open>gen k\<close> is the k-th random token drawn.\<close>

definition generate_unique_pairing_token :: "(nat \<Rightarrow> string) \<Rightarrow> pending_map \<Rightarrow> string" where
  "generate_unique_pairing_token gen pend = unique_token_from gen (fst ` set pend) 0"

record gate_inbound =
  gi_chat_type :: string
  gi_sender :: string
  gi_chat :: string
  gi_is_bot :: bool
  gi_trusted_bot :: bool
  gi_mentioned :: bool

datatype drop_reason =
    Dm_Disabled
  | Dm_Not_On_Allowlist
  | Dm_Pairing_Slot_Cap
  | Group_Policy_Block
  | Group_Bot_Not_Mentioned
  | Group_Not_On_Allowlist
  | Group_User_Not_On_Allowlist
  | Group_Pairing_Stranger_Not_Mentioned
  | Bot_Untrusted
  | Unsupported_Chat_Type
  | Internal

record pair_action =
  pa_kind :: pairing_kind
  pa_token :: string
  pa_resend :: bool
  pa_ttl :: ms
  pa_prompt :: "string option"

datatype gate_action =
    Deliver
  | Drop drop_reason
  | Pair pair_action

datatype log_level = Log_Debug | Log_Info | Log_Warn | Log_Error

record gate_result =
  gr_action :: gate_action
  gr_next :: access_state
  gr_logs :: "(log_level \<times> string) list"

definition live :: "ms \<Rightarrow> string \<times> pending_entry \<Rightarrow> bool" where
  "live now e \<longleftrightarrow> pe_expires (snd e) > now"

text \<open>
  \<^verbatim>\<open>pruneExpiredPending\<close>: \<open>None\<close> when nothing was removed, which is where the source
  returns the reference it was given.
\<close>

definition prune_expired_pending :: "access_state \<Rightarrow> ms \<Rightarrow> access_state option" where
  "prune_expired_pending s now =
     (if \<forall>e \<in> set (ac_pending s). live now e then None
      else Some (s\<lparr>ac_pending := filter (live now) (ac_pending s)\<rparr>))"

definition pruned :: "access_state \<Rightarrow> ms \<Rightarrow> access_state" where
  "pruned s now = (case prune_expired_pending s now of None \<Rightarrow> s | Some t \<Rightarrow> t)"

definition find_existing_pending_by_key ::
  "pending_map \<Rightarrow> string \<Rightarrow> ms \<Rightarrow> (string \<times> pending_entry) option" where
  "find_existing_pending_by_key pend sender now =
     find (\<lambda>e. live now e \<and> pe_sender (snd e) = sender) pend"

definition count_active_pending :: "pending_map \<Rightarrow> ms \<Rightarrow> nat" where
  "count_active_pending pend now = length (filter (live now) pend)"

definition dm_pair_path :: "(nat \<Rightarrow> string) \<Rightarrow> access_state \<Rightarrow> gate_inbound \<Rightarrow> ms \<Rightarrow> gate_result" where
  "dm_pair_path gen s i now =
     (case find_existing_pending_by_key (ac_pending s) (gi_sender i) now of
        Some (token, entry) \<Rightarrow>
          \<lparr>gr_action = Pair \<lparr>pa_kind = Kind_Dm, pa_token = token, pa_resend = True,
                             pa_ttl = PAIRING_TTL_MS, pa_prompt = pe_prompt entry\<rparr>,
           gr_next = s\<lparr>ac_pending := AList.update token
              (entry\<lparr>pe_expires := now + PAIRING_TTL_MS\<rparr>) (ac_pending s)\<rparr>,
           gr_logs = [(Log_Info, ''dm pairing: existing prompt'')]\<rparr>
      | None \<Rightarrow>
          if count_active_pending (ac_pending s) now \<ge> MAX_PENDING then
            \<lparr>gr_action = Drop Dm_Pairing_Slot_Cap, gr_next = s,
             gr_logs = [(Log_Warn, ''dm pairing: slot cap reached'')]\<rparr>
          else
            (let token = generate_unique_pairing_token gen (ac_pending s) in
             \<lparr>gr_action = Pair \<lparr>pa_kind = Kind_Dm, pa_token = token, pa_resend = False,
                                pa_ttl = PAIRING_TTL_MS, pa_prompt = None\<rparr>,
              gr_next = s\<lparr>ac_pending := AList.update token
                 \<lparr>pe_sender = gi_sender i, pe_chat = gi_chat i, pe_created = now,
                  pe_expires = now + PAIRING_TTL_MS, pe_prompt = None\<rparr> (ac_pending s)\<rparr>,
              gr_logs = [(Log_Info, ''dm pairing: new slot'')]\<rparr>))"

definition gate_p2p :: "(nat \<Rightarrow> string) \<Rightarrow> access_state \<Rightarrow> gate_inbound \<Rightarrow> ms \<Rightarrow> gate_result" where
  "gate_p2p gen s i now =
     (let finish = (\<lambda>a. \<lparr>gr_action = a, gr_next = s, gr_logs = []\<rparr>) in
      if gi_is_bot i then finish (Drop Bot_Untrusted)
      else if ac_dm_policy s = ''disabled'' then finish (Drop Dm_Disabled)
      else if ac_dm_policy s = ''all'' then finish Deliver
      else if ac_dm_policy s = ''allowlist'' then
        (if Str (gi_sender i) \<in> set (ac_allow_users s) then finish Deliver
         else finish (Drop Dm_Not_On_Allowlist))
      else if ac_dm_policy s = ''pairing'' then
        (if Str (gi_sender i) \<in> set (ac_allow_users s) then finish Deliver
         else dm_pair_path gen s i now)
      else finish (Drop Internal))"

definition gate_group :: "(nat \<Rightarrow> string) \<Rightarrow> access_state \<Rightarrow> gate_inbound \<Rightarrow> ms \<Rightarrow> gate_result" where
  "gate_group gen s i now =
     (let finish = (\<lambda>a. \<lparr>gr_action = a, gr_next = s, gr_logs = []\<rparr>);
          policy = ac_group_policy s;
          chat_trusted = (Str (gi_chat i) \<in> set (ac_allow_chats s)) in
      if gi_is_bot i then
        (if \<not> gi_trusted_bot i then finish (Drop Bot_Untrusted)
         else if \<not> gi_mentioned i then finish (Drop Group_Bot_Not_Mentioned)
         else finish Deliver)
      else if ac_require_mention s \<and> \<not> gi_mentioned i then finish (Drop Group_Bot_Not_Mentioned)
      else if policy = ''block'' then finish (Drop Group_Policy_Block)
      else if policy \<noteq> ''allowlist'' \<and> policy \<noteq> ''follow-user'' then finish (Drop Internal)
      else if policy = ''allowlist'' \<and> \<not> chat_trusted then finish (Drop Group_Not_On_Allowlist)
      else if chat_trusted then finish Deliver
      else if ac_dm_policy s = ''disabled'' then finish (Drop Dm_Disabled)
      else if ac_dm_policy s = ''all'' then finish Deliver
      else if ac_dm_policy s = ''allowlist'' then
        (if Str (gi_sender i) \<in> set (ac_allow_users s) then finish Deliver
         else finish (Drop Group_User_Not_On_Allowlist))
      else if ac_dm_policy s = ''pairing'' then
        (if Str (gi_sender i) \<in> set (ac_allow_users s) then finish Deliver
         else if \<not> gi_mentioned i then finish (Drop Group_Pairing_Stranger_Not_Mentioned)
         else dm_pair_path gen s i now)
      else finish (Drop Internal))"

definition dreamux_feishu_gate ::
  "(nat \<Rightarrow> string) \<Rightarrow> access_state \<Rightarrow> gate_inbound \<Rightarrow> ms \<Rightarrow> gate_result" where
  "dreamux_feishu_gate gen s i now =
     (let working = pruned s now in
      if gi_chat_type i = ''p2p'' then gate_p2p gen working i now
      else if gi_chat_type i = ''group'' then gate_group gen working i now
      else \<lparr>gr_action = Drop Unsupported_Chat_Type, gr_next = working, gr_logs = []\<rparr>)"

subsection \<open>The changes \<^verbatim>\<open>FeishuAccess\<close> commits\<close>

datatype access_error = Acc_Read | Acc_Parse | Acc_Shape

text \<open>
  \<^verbatim>\<open>gate\<close> commits the pruned state of a deliver or a drop; a pairing commits nothing
  until its message was sent.
\<close>

definition gate_change ::
  "(nat \<Rightarrow> string) \<Rightarrow> gate_inbound \<Rightarrow> ms \<Rightarrow> access_state \<Rightarrow> access_error + access_state option" where
  "gate_change gen i now s =
     (case gr_action (dreamux_feishu_gate gen s i now) of
        Pair _ \<Rightarrow> Inr None
      | _ \<Rightarrow> Inr (prune_expired_pending s now))"

text \<open>\<^verbatim>\<open>decide\<close>: the gate's answer against the held state, nothing committed.\<close>

definition decide_action :: "(nat \<Rightarrow> string) \<Rightarrow> access_state \<Rightarrow> gate_inbound \<Rightarrow> ms \<Rightarrow> gate_action" where
  "decide_action gen s i now = gr_action (dreamux_feishu_gate gen s i now)"

definition or_else :: "'a option \<Rightarrow> 'a option \<Rightarrow> 'a option" where
  "or_else a b = (case a of None \<Rightarrow> b | Some x \<Rightarrow> Some x)"

definition refresh_pairing_change ::
  "pair_action \<Rightarrow> ms \<Rightarrow> access_state \<Rightarrow> access_error + access_state option" where
  "refresh_pairing_change a now s =
     (case map_of (ac_pending s) (pa_token a) of
        None \<Rightarrow> Inr None
      | Some existing \<Rightarrow> Inr (Some (s\<lparr>ac_pending := AList.update (pa_token a)
           (existing\<lparr>pe_expires := now + PAIRING_TTL_MS,
                     pe_prompt := or_else (pe_prompt existing) (pa_prompt a)\<rparr>)
           (ac_pending s)\<rparr>)))"

definition record_pairing_prompt_change ::
  "gate_inbound \<Rightarrow> pair_action \<Rightarrow> string option \<Rightarrow> ms \<Rightarrow> access_state \<Rightarrow>
   access_error + access_state option" where
  "record_pairing_prompt_change i a message_id now s =
     (if pa_kind a = Kind_Dm \<and> Str (gi_sender i) \<in> set (ac_allow_users s) then Inr None
      else if pa_kind a = Kind_Group \<and> Str (gi_chat i) \<in> set (ac_allow_chats s) then Inr None
      else
        (case find (\<lambda>e. pe_sender (snd e) = gi_sender i) (ac_pending (pruned s now)) of
           Some (token, existing) \<Rightarrow>
             if \<not> pa_resend a then Inr (prune_expired_pending s now)
             else Inr (Some ((pruned s now)\<lparr>ac_pending := AList.update token
                    (existing\<lparr>pe_expires := now + PAIRING_TTL_MS,
                              pe_prompt := or_else (pe_prompt existing) message_id\<rparr>)
                    (ac_pending (pruned s now))\<rparr>))
         | None \<Rightarrow> Inr (Some ((pruned s now)\<lparr>ac_pending := AList.update (pa_token a)
                    \<lparr>pe_sender = gi_sender i, pe_chat = gi_chat i, pe_created = now,
                     pe_expires = now + PAIRING_TTL_MS, pe_prompt = message_id\<rparr>
                    (ac_pending (pruned s now))\<rparr>))))"

definition hex_char :: "char \<Rightarrow> bool" where
  "hex_char c \<longleftrightarrow> c \<in> set ''0123456789abcdefABCDEF''"

definition pairing_token_ok :: "string \<Rightarrow> bool" where
  "pairing_token_ok t \<longleftrightarrow> length t = 6 \<and> (\<forall>c \<in> set t. hex_char c)"

record approval_details =
  ad_duplicate :: bool
  ad_ttl_left :: ms
  ad_sender :: string
  ad_chat :: string

datatype approval_result =
    Approval_Bad_Token
  | Approval_Not_Found string
  | Approval_Ok approval_details
  | Approval_Write_Failed string

text \<open>
  The update inside \<^verbatim>\<open>approvePairingByToken\<close>: the state it commits and the answer it
  leaves behind.
\<close>

definition approve_step :: "string \<Rightarrow> ms \<Rightarrow> access_state \<Rightarrow> access_state option \<times> approval_result"
where
  "approve_step lower_token now s =
     (case map_of (ac_pending s) lower_token of
        None \<Rightarrow> (None, Approval_Not_Found lower_token)
      | Some entry \<Rightarrow>
         if pe_expires entry \<le> now then (None, Approval_Not_Found lower_token)
         else
           (let duplicate = (Str (pe_sender entry) \<in> set (ac_allow_users s)) in
            (Some (s\<lparr>ac_allow_users := (if duplicate then ac_allow_users s
                                        else ac_allow_users s @ [Str (pe_sender entry)]),
                     ac_pending := AList.delete lower_token (ac_pending s)\<rparr>),
             Approval_Ok \<lparr>ad_duplicate = duplicate,
                          ad_ttl_left = max 0 (pe_expires entry - now),
                          ad_sender = pe_sender entry, ad_chat = pe_chat entry\<rparr>)))"

definition approve_change ::
  "string \<Rightarrow> ms \<Rightarrow> access_state \<Rightarrow> access_error + access_state option" where
  "approve_change lower_token now s = Inr (fst (approve_step lower_token now s))"

definition is_trusted_dispatcher_user :: "access_state \<Rightarrow> string \<Rightarrow> bool" where
  "is_trusted_dispatcher_user s open_id \<longleftrightarrow> Str open_id \<in> set (ac_allow_users s)"

subsection \<open>Reading \<^verbatim>\<open>access.json\<close>\<close>

text \<open>\<^verbatim>\<open>Object.entries\<close>: an array's entries are its elements under their indices.\<close>

definition entries_of :: "js \<Rightarrow> (string \<times> js) list" where
  "entries_of v = (case v of
       Obj kv \<Rightarrow> kv
     | Arr xs \<Rightarrow> zip (map show_nat [0..<length xs]) xs
     | _ \<Rightarrow> [])"

definition read_pending_entry :: "js \<Rightarrow> pending_entry option" where
  "read_pending_entry x =
     (case x of
        Obj e \<Rightarrow>
          (case (jget e ''sender_id'', jget e ''chat_id'', jget e ''expires_at'',
                 jget e ''created_at'') of
             (Str sender, Str chat, Num ex, Num cr) \<Rightarrow>
               Some \<lparr>pe_sender = sender, pe_chat = chat, pe_created = cr, pe_expires = ex,
                     pe_prompt = (case jget e ''prompt_message_id'' of Str m \<Rightarrow> Some m | _ \<Rightarrow> None)\<rparr>
           | _ \<Rightarrow> None)
      | _ \<Rightarrow> None)"

fun read_pending :: "(string \<times> js) list \<Rightarrow> access_error + pending_map" where
  "read_pending [] = Inr []"
| "read_pending ((k, v) # kvs) =
     (case read_pending_entry v of
        None \<Rightarrow> Inl Acc_Shape
      | Some e \<Rightarrow> bind_res (read_pending kvs) (\<lambda>rest. Inr ((k, e) # rest)))"

text \<open>\<^verbatim>\<open>isV3Shape\<close> and the field-by-field reconstruction after it.\<close>

definition parse_access :: "js \<Rightarrow> access_error + access_state" where
  "parse_access x =
     (case x of
        Obj ob \<Rightarrow>
          (case (jget ob ''version'', jget ob ''dm_policy'', jget ob ''group'',
                 jget ob ''allow_users'', jget ob ''pending'') of
             (Num v, Str dm, Obj g, Arr users, pend) \<Rightarrow>
               (if v \<noteq> 3 then Inl Acc_Shape
                else (case (jget g ''policy'', jget g ''allow_chats'', jget g ''require_mention'') of
                   (Str pol, Arr chats, Bool req) \<Rightarrow>
                     (case pend of
                        Obj _ \<Rightarrow> bind_res (read_pending (entries_of pend)) (\<lambda>ps.
                          Inr \<lparr>ac_dm_policy = dm, ac_group_policy = pol, ac_allow_chats = chats,
                               ac_require_mention = req, ac_allow_users = users,
                               ac_pending = ps\<rparr>)
                      | Arr _ \<Rightarrow> bind_res (read_pending (entries_of pend)) (\<lambda>ps.
                          Inr \<lparr>ac_dm_policy = dm, ac_group_policy = pol, ac_allow_chats = chats,
                               ac_require_mention = req, ac_allow_users = users,
                               ac_pending = ps\<rparr>)
                      | _ \<Rightarrow> Inl Acc_Shape)
                 | _ \<Rightarrow> Inl Acc_Shape))
           | _ \<Rightarrow> Inl Acc_Shape)
      | _ \<Rightarrow> Inl Acc_Shape)"

definition read_access :: "json_file option \<Rightarrow> access_error + access_state" where
  "read_access f =
     (case f of
        None \<Rightarrow> Inr default_access_state
      | Some Jf_Unreadable \<Rightarrow> Inl Acc_Read
      | Some Jf_Malformed \<Rightarrow> Inl Acc_Parse
      | Some (Jf_Value v) \<Rightarrow> parse_access v)"

text \<open>What \<^verbatim>\<open>JSON.stringify\<close> writes; an undefined property is left out.\<close>

definition encode_pending_entry :: "pending_entry \<Rightarrow> js" where
  "encode_pending_entry e = Obj
     ([(''sender_id'', Str (pe_sender e)), (''chat_id'', Str (pe_chat e)),
       (''created_at'', Num (pe_created e)), (''expires_at'', Num (pe_expires e))] @
      (case pe_prompt e of None \<Rightarrow> [] | Some m \<Rightarrow> [(''prompt_message_id'', Str m)]))"

definition encode_access :: "access_state \<Rightarrow> json_file" where
  "encode_access s = Jf_Value (Obj
     [(''version'', Num 3), (''dm_policy'', Str (ac_dm_policy s)),
      (''group'', Obj [(''policy'', Str (ac_group_policy s)),
                       (''allow_chats'', Arr (ac_allow_chats s)),
                       (''require_mention'', Bool (ac_require_mention s))]),
      (''allow_users'', Arr (ac_allow_users s)),
      (''pending'', Obj (map (\<lambda>(k, e). (k, encode_pending_entry e)) (ac_pending s)))])"

lemma read_encode_entry [simp]: "read_pending_entry (encode_pending_entry e) = Some e"
  by (cases "pe_prompt e") (simp_all add: read_pending_entry_def encode_pending_entry_def)

lemma read_encode_pending [simp]:
  "read_pending (map (\<lambda>(k, e). (k, encode_pending_entry e)) ps) = Inr ps"
  by (induction ps) auto

lemma read_encode_access: "read_access (Some (encode_access s)) = Inr s"
  by (simp add: read_access_def encode_access_def parse_access_def entries_of_def)

interpretation access_owner: durable_owner read_access encode_access "\<lambda>_. True"
  by unfold_locales (simp_all add: read_encode_access)

text \<open>
  \<^verbatim>\<open>approvePairingByToken\<close> on the store: a failed load or write is the operator's
  ``write failed'' answer.
\<close>

definition approve_pairing_by_token ::
  "string \<Rightarrow> ms \<Rightarrow> bool \<Rightarrow> (access_state, json_file) tstore \<Rightarrow>
   approval_result \<times> (access_state, json_file) tstore" where
  "approve_pairing_by_token token now write_ok st =
     (if \<not> pairing_token_ok token then (Approval_Bad_Token, st)
      else
        (let lower = map to_lower token in
         (case store_update read_access encode_access (approve_change lower now) write_ok
                 (\<lambda>_ _. None) st of
            (Inl _, st') \<Rightarrow> (Approval_Write_Failed lower, st')
          | (Inr _, st') \<Rightarrow>
              (case store_load read_access st of
                 (Inr s, _) \<Rightarrow> (snd (approve_step lower now s), st')
               | (Inl _, _) \<Rightarrow> (Approval_Write_Failed lower, st')))))"

end
