(* ===== verification/Feishu_Access_Props.thy ===== *)
theory Feishu_Access_Props
  imports Feishu_Access
begin

text \<open>
  What the access gate promises: exactly which messages it delivers, that only an
  operator's approval of a recorded pairing ever trusts a new user, that a pairing leads to
  a delivered message, the invariant of the pending pairings and their cap.
\<close>

subsection \<open>Who is admitted\<close>

definition user_admitted :: "access_state \<Rightarrow> string \<Rightarrow> bool" where
  "user_admitted s u \<longleftrightarrow>
     ac_dm_policy s = ''all'' \<or>
     ac_dm_policy s \<in> {''allowlist'', ''pairing''} \<and> Str u \<in> set (ac_allow_users s)"

definition chat_admitted :: "access_state \<Rightarrow> string \<Rightarrow> bool" where
  "chat_admitted s c \<longleftrightarrow>
     ac_group_policy s \<in> {''allowlist'', ''follow-user''} \<and> Str c \<in> set (ac_allow_chats s)"

definition admitted :: "access_state \<Rightarrow> gate_inbound \<Rightarrow> bool" where
  "admitted s i \<longleftrightarrow>
     (if gi_chat_type i = ''p2p'' then \<not> gi_is_bot i \<and> user_admitted s (gi_sender i)
      else if gi_chat_type i = ''group'' then
        (if gi_is_bot i then gi_trusted_bot i \<and> gi_mentioned i
         else (ac_require_mention s \<longrightarrow> gi_mentioned i) \<and>
              (chat_admitted s (gi_chat i) \<or>
               ac_group_policy s = ''follow-user'' \<and> user_admitted s (gi_sender i)))
      else False)"

lemma pruned_simps [simp]:
  "ac_dm_policy (pruned s now) = ac_dm_policy s"
  "ac_group_policy (pruned s now) = ac_group_policy s"
  "ac_allow_chats (pruned s now) = ac_allow_chats s"
  "ac_require_mention (pruned s now) = ac_require_mention s"
  "ac_allow_users (pruned s now) = ac_allow_users s"
  by (simp_all add: pruned_def prune_expired_pending_def)

lemma pruned_pending [simp]: "ac_pending (pruned s now) = filter (live now) (ac_pending s)"
  by (simp add: pruned_def prune_expired_pending_def)

lemma dm_pair_path_not_Deliver [simp]: "gr_action (dm_pair_path gen s i now) \<noteq> Deliver"
  by (simp add: dm_pair_path_def Let_def split: option.splits)

lemma deliver_admitted: "gr_action (dreamux_feishu_gate gen s i now) = Deliver \<longleftrightarrow> admitted s i"
  by (simp add: dreamux_feishu_gate_def gate_p2p_def gate_group_def admitted_def
      user_admitted_def chat_admitted_def Let_def)

text \<open>
  C4. The gate delivers a message exactly when the admission matrix admits it: in a direct
  chat a person the direct-message policy admits; in a group a trusted, mentioned bot, or
  a person in a trusted chat or (under follow-user) one the direct-message policy admits,
  who mentions the bot where a mention is required.  Any other policy, chat type or sender
  is never delivered.
\<close>

theorem gate_deliver_iff:
  "gr_action (dreamux_feishu_gate gen s i now) = Deliver \<longleftrightarrow> admitted s i"
  by (rule deliver_admitted)

subsection \<open>Histories of committed changes\<close>

datatype access_op =
    A_Gate "nat \<Rightarrow> string" gate_inbound ms
  | A_Refresh pair_action ms
  | A_Record gate_inbound pair_action "string option" ms
  | A_Approve string ms

fun access_change :: "access_op \<Rightarrow> access_state \<Rightarrow> access_error + access_state option" where
  "access_change (A_Gate gen i now) s = gate_change gen i now s"
| "access_change (A_Refresh a now) s = refresh_pairing_change a now s"
| "access_change (A_Record i a m now) s = record_pairing_prompt_change i a m now s"
| "access_change (A_Approve t now) s = approve_change t now s"

definition access_step :: "access_op \<Rightarrow> access_state \<Rightarrow> access_state" where
  "access_step q s = (case access_change q s of Inr (Some t) \<Rightarrow> t | _ \<Rightarrow> s)"

definition run_access :: "access_op list \<Rightarrow> access_state \<Rightarrow> access_state" where
  "run_access qs s = fold access_step qs s"

lemma run_access_simps [simp]:
  "run_access [] s = s"
  "run_access (qs @ [q]) s = access_step q (run_access qs s)"
  by (simp_all add: run_access_def)

lemma set_filter_pending: "e \<in> set (filter p xs) \<Longrightarrow> e \<in> set xs"
  by simp

text \<open>What each change does to the trusted users and to the pending rows.\<close>

lemma step_users:
  assumes "Str u \<in> set (ac_allow_users (access_step q s))"
  shows "Str u \<in> set (ac_allow_users s) \<or>
         (\<exists>t now e. q = A_Approve t now \<and> map_of (ac_pending s) t = Some e \<and>
            now < pe_expires e \<and> pe_sender e = u)"
proof (cases q)
  case (A_Approve t now)
  with assms show ?thesis
    by (auto simp: access_step_def approve_change_def approve_step_def Let_def
        split: option.splits if_splits)
qed (use assms in \<open>auto simp: access_step_def gate_change_def refresh_pairing_change_def
      record_pairing_prompt_change_def prune_expired_pending_def
      split: option.splits if_splits gate_action.splits\<close>)

lemma set_update_sub: "set (AList.update k v al) \<subseteq> insert (k, v) (set al)"
  by (induction al) auto

lemma step_pending:
  assumes "(t, e) \<in> set (ac_pending (access_step q s))"
  shows "(\<exists>e0. (t, e0) \<in> set (ac_pending s) \<and> pe_sender e0 = pe_sender e) \<or>
         (\<exists>i a m now. q = A_Record i a m now \<and> gi_sender i = pe_sender e \<and> pa_token a = t)"
proof (cases q)
  case (A_Gate gen i now)
  with assms show ?thesis
    by (auto simp: access_step_def gate_change_def prune_expired_pending_def
        split: option.splits if_splits gate_action.splits)
next
  case (A_Refresh a now)
  show ?thesis
  proof (cases "map_of (ac_pending s) (pa_token a)")
    case None
    with A_Refresh assms show ?thesis
      by (auto simp: access_step_def refresh_pairing_change_def)
  next
    case (Some x)
    then have "(pa_token a, x) \<in> set (ac_pending s)" by (rule map_of_SomeD)
    with Some A_Refresh assms show ?thesis
      by (auto simp: access_step_def refresh_pairing_change_def
          dest!: set_update_sub [THEN subsetD])
  qed
next
  case (A_Approve k now)
  with assms show ?thesis
    by (auto simp: access_step_def approve_change_def approve_step_def Let_def
        simp: AList.delete_eq split: option.splits if_splits)
next
  case (A_Record i a m now)
  show ?thesis
  proof (cases "find (\<lambda>e. pe_sender (snd e) = gi_sender i) (ac_pending (pruned s now))")
    case None
    with A_Record assms show ?thesis
      by (auto simp: access_step_def record_pairing_prompt_change_def
          dest!: set_update_sub [THEN subsetD] split: if_splits)
  next
    case (Some p)
    then obtain k x where p: "p = (k, x)" by (cases p)
    from find_Some_in [OF Some] p have "(k, x) \<in> set (ac_pending s)" by simp
    with Some p A_Record assms show ?thesis
      by (auto simp: access_step_def record_pairing_prompt_change_def prune_expired_pending_def
          dest!: set_update_sub [THEN subsetD] split: if_splits)
  qed
qed

lemma pending_history:
  assumes "ac_pending s = []" "(t, e) \<in> set (ac_pending (run_access qs s))"
  shows "\<exists>before i a m now after. qs = before @ [A_Record i a m now] @ after \<and>
           gi_sender i = pe_sender e \<and> pa_token a = t"
  using assms(2)
proof (induction qs arbitrary: e rule: rev_induct)
  case Nil
  with assms(1) show ?case by simp
next
  case (snoc q qs)
  from snoc.prems have "(t, e) \<in> set (ac_pending (access_step q (run_access qs s)))" by simp
  from step_pending [OF this] show ?case
  proof
    assume "\<exists>e0. (t, e0) \<in> set (ac_pending (run_access qs s)) \<and> pe_sender e0 = pe_sender e"
    then obtain e0 where "(t, e0) \<in> set (ac_pending (run_access qs s))"
      and same: "pe_sender e0 = pe_sender e" by blast
    from snoc.IH [OF this(1)] obtain b i a m n af where
      "qs = b @ [A_Record i a m n] @ af" "gi_sender i = pe_sender e0" "pa_token a = t" by blast
    then have "qs @ [q] = b @ [A_Record i a m n] @ (af @ [q]) \<and>
        gi_sender i = pe_sender e \<and> pa_token a = t"
      by (simp add: same)
    then show ?case by blast
  next
    assume "\<exists>i a m now. q = A_Record i a m now \<and> gi_sender i = pe_sender e \<and> pa_token a = t"
    then obtain i a m now where "q = A_Record i a m now" "gi_sender i = pe_sender e"
      "pa_token a = t" by blast
    then have "qs @ [q] = qs @ [A_Record i a m now] @ [] \<and> gi_sender i = pe_sender e \<and>
        pa_token a = t" by simp
    then show ?case by blast
  qed
qed

lemma trusted_history:
  assumes "ac_pending s = []"
  shows "Str u \<in> set (ac_allow_users (run_access qs s)) \<Longrightarrow> Str u \<notin> set (ac_allow_users s) \<Longrightarrow>
    \<exists>before i a m t1 between token t2 after.
      qs = before @ [A_Record i a m t1] @ between @ [A_Approve token t2] @ after \<and>
      gi_sender i = u \<and> pa_token a = token"
proof (induction qs rule: rev_induct)
  case Nil
  then show ?case by simp
next
  case (snoc q qs)
  from snoc.prems(1) have "Str u \<in> set (ac_allow_users (access_step q (run_access qs s)))"
    by simp
  from step_users [OF this] show ?case
  proof
    assume "Str u \<in> set (ac_allow_users (run_access qs s))"
    from snoc.IH [OF this snoc.prems(2)] obtain b i a m t1 bt k t2 af where
      "qs = b @ [A_Record i a m t1] @ bt @ [A_Approve k t2] @ af"
      and who: "gi_sender i = u \<and> pa_token a = k" by blast
    then have "qs @ [q] = b @ [A_Record i a m t1] @ bt @ [A_Approve k t2] @ (af @ [q])" by simp
    with who show ?case by blast
  next
    assume "\<exists>t now e. q = A_Approve t now \<and> map_of (ac_pending (run_access qs s)) t = Some e \<and>
        now < pe_expires e \<and> pe_sender e = u"
    then obtain t now e where q: "q = A_Approve t now"
      and e: "map_of (ac_pending (run_access qs s)) t = Some e" and u: "pe_sender e = u" by blast
    from pending_history [OF assms map_of_SomeD [OF e]] obtain b i a m n af where
      h: "qs = b @ [A_Record i a m n] @ af" and "gi_sender i = pe_sender e" "pa_token a = t"
      by blast
    moreover from h q have
      "qs @ [q] = b @ [A_Record i a m n] @ af @ [A_Approve t now] @ []" by simp
    ultimately show ?case using u by blast
  qed
qed

text \<open>
  C5. Nobody becomes a trusted user except through pairing: starting with no pending
  pairing, a user trusted after any sequence of gate decisions, refreshes, recorded
  prompts and approvals was trusted at the start, or was first recorded as the requester
  of a pairing and then approved by an operator holding a token.
\<close>

theorem trusted_only_by_approval:
  assumes "ac_pending s = []"
    and "is_trusted_dispatcher_user (run_access qs s) u"
    and "\<not> is_trusted_dispatcher_user s u"
  shows "\<exists>before i a m t1 between token t2 after.
           qs = before @ [A_Record i a m t1] @ between @ [A_Approve token t2] @ after \<and>
           gi_sender i = u \<and> pa_token a = token"
  using trusted_history [OF assms(1), of u qs] assms(2,3)
  by (simp add: is_trusted_dispatcher_user_def)

definition sample_inbound :: gate_inbound where
  "sample_inbound = \<lparr>gi_chat_type = ''p2p'', gi_sender = ''ou_1'', gi_chat = ''oc_1'',
     gi_is_bot = False, gi_trusted_bot = False, gi_mentioned = False\<rparr>"

definition sample_pair :: pair_action where
  "sample_pair = \<lparr>pa_kind = Kind_Dm, pa_token = ''abc123'', pa_resend = False,
     pa_ttl = PAIRING_TTL_MS, pa_prompt = None\<rparr>"

lemma sample_history:
  "is_trusted_dispatcher_user
     (run_access [A_Record sample_inbound sample_pair None 0, A_Approve ''abc123'' 1]
        default_access_state) ''ou_1''"
  by (simp add: run_access_def access_step_def record_pairing_prompt_change_def
      approve_change_def approve_step_def default_access_state_def sample_inbound_def
      sample_pair_def is_trusted_dispatcher_user_def PAIRING_TTL_MS_def Let_def)

lemma trusted_only_by_approval_witness:
  "\<exists>before i a m t1 between token t2 after.
     [A_Record sample_inbound sample_pair None 0, A_Approve ''abc123'' 1] =
       before @ [A_Record i a m t1] @ between @ [A_Approve token t2] @ after \<and>
     gi_sender i = ''ou_1'' \<and> pa_token a = token"
  by (rule trusted_only_by_approval [OF _ sample_history])
    (simp_all add: default_access_state_def is_trusted_dispatcher_user_def)

subsection \<open>The pending pairings\<close>

text \<open>One row per token and one row per requester.\<close>

definition pending_inv :: "pending_map \<Rightarrow> bool" where
  "pending_inv ps \<longleftrightarrow>
     distinct (map fst ps) \<and> distinct (map (\<lambda>e. pe_sender (snd e)) ps)"

lemma pending_inv_filter [inv_intros]: "pending_inv ps \<Longrightarrow> pending_inv (filter p ps)"
  by (simp add: pending_inv_def distinct_map_filter)

lemma map_sender_update:
  assumes "(k, x) \<in> set ps" "distinct (map fst ps)" "pe_sender v = pe_sender x"
  shows "map (\<lambda>e. pe_sender (snd e)) (AList.update k v ps) = map (\<lambda>e. pe_sender (snd e)) ps"
  using assms by (induction ps) (auto simp: image_iff)

lemma pending_inv_update_same:
  assumes "(k, x) \<in> set ps" "pending_inv ps" "pe_sender v = pe_sender x"
  shows "pending_inv (AList.update k v ps)"
  using assms map_sender_update [of k x ps v]
  by (simp add: pending_inv_def distinct_keys_update)

lemma senders_update_subset:
  "(\<lambda>e. pe_sender (snd e)) ` set (AList.update k v ps) \<subseteq>
   insert (pe_sender v) ((\<lambda>e. pe_sender (snd e)) ` set ps)"
  by (induction ps) auto

lemma pending_inv_update_fresh:
  assumes "pending_inv ps" "pe_sender v \<notin> (\<lambda>e. pe_sender (snd e)) ` set ps"
  shows "pending_inv (AList.update k v ps)"
proof -
  have "distinct (map (\<lambda>e. pe_sender (snd e)) (AList.update k v ps))"
    using assms unfolding pending_inv_def
  proof (induction ps)
    case (Cons p ps)
    then show ?case using senders_update_subset [of k v ps] by auto
  qed simp
  with assms(1) show ?thesis by (simp add: pending_inv_def distinct_keys_update)
qed

lemma access_step_pending_inv:
  assumes "pending_inv (ac_pending s)"
  shows "pending_inv (ac_pending (access_step q s))"
proof (cases q)
  case (A_Gate gen i now)
  with assms show ?thesis
    by (auto simp: access_step_def gate_change_def prune_expired_pending_def pending_inv_filter
        split: option.splits if_splits gate_action.splits)
next
  case (A_Approve k now)
  with assms show ?thesis
    by (auto simp: access_step_def approve_change_def approve_step_def Let_def
        AList.delete_eq pending_inv_filter split: option.splits)
next
  case (A_Refresh a now)
  with assms show ?thesis
    by (auto simp: access_step_def refresh_pairing_change_def
        intro!: pending_inv_update_same dest: map_of_SomeD split: option.splits)
next
  case (A_Record i a m now)
  let ?ps = "ac_pending (pruned s now)"
  have inv: "pending_inv ?ps" using assms by (simp add: pending_inv_filter)
  show ?thesis
  proof (cases "find (\<lambda>e. pe_sender (snd e) = gi_sender i) ?ps")
    case None
    then have "gi_sender i \<notin> (\<lambda>e. pe_sender (snd e)) ` set ?ps"
      by (fastforce simp: find_None_iff)
    with inv have "pending_inv (AList.update (pa_token a)
        \<lparr>pe_sender = gi_sender i, pe_chat = gi_chat i, pe_created = now,
         pe_expires = now + PAIRING_TTL_MS, pe_prompt = m\<rparr> ?ps)"
      by (intro pending_inv_update_fresh) simp_all
    with A_Record None assms show ?thesis
      by (simp add: access_step_def record_pairing_prompt_change_def)
  next
    case (Some p)
    then obtain k x where p: "p = (k, x)" by (cases p)
    with find_Some_in [OF Some] have "(k, x) \<in> set ?ps" by simp
    from pending_inv_update_same [OF this inv, of "x\<lparr>pe_expires := now + PAIRING_TTL_MS,
        pe_prompt := or_else (pe_prompt x) m\<rparr>"]
    have u: "pending_inv (AList.update k (x\<lparr>pe_expires := now + PAIRING_TTL_MS,
        pe_prompt := or_else (pe_prompt x) m\<rparr>) ?ps)" by simp
    from A_Record Some p assms show ?thesis
      by (auto simp: access_step_def record_pairing_prompt_change_def prune_expired_pending_def
          pending_inv_filter u [simplified] split: option.splits if_splits)
  qed
qed

text \<open>
  Whatever sequence of changes is committed, a pairing token names one pending pairing
  and a requester has at most one, so an approval trusts exactly one person.
\<close>

theorem pending_invariant:
  assumes "pending_inv (ac_pending s)"
  shows "pending_inv (ac_pending (run_access qs s))"
  using assms by (induction qs rule: rev_induct) (simp_all add: access_step_pending_inv)

lemma pending_invariant_witness:
  "pending_inv (ac_pending (run_access
     [A_Record sample_inbound sample_pair None 0, A_Approve ''abc123'' 1] default_access_state))"
  by (rule pending_invariant) (simp add: pending_inv_def default_access_state_def)

subsection \<open>From a stranger's message to a delivered one\<close>

lemma decide_Pair:
  assumes "decide_action gen s i t0 = Pair a"
  shows "ac_dm_policy s = ''pairing'' \<and> \<not> gi_is_bot i \<and> Str (gi_sender i) \<notin> set (ac_allow_users s) \<and>
         gr_action (dm_pair_path gen (pruned s t0) i t0) = Pair a"
  using assms
  by (simp add: decide_action_def dreamux_feishu_gate_def gate_p2p_def gate_group_def Let_def
      split: if_splits)

lemma filter_live_twice: "filter (live t) (filter (live t) ps) = filter (live t) ps"
  by simp

lemma dm_pair_Pair:
  assumes "gr_action (dm_pair_path gen (pruned s t0) i t0) = Pair a"
  shows "pa_kind a = Kind_Dm \<and>
    (if pa_resend a then \<exists>e. (pa_token a, e) \<in> set (ac_pending s) \<and> live t0 (pa_token a, e) \<and>
         pe_sender e = gi_sender i
     else (\<forall>e \<in> set (ac_pending s). live t0 e \<longrightarrow> pe_sender (snd e) \<noteq> gi_sender i) \<and>
          count_active_pending (ac_pending s) t0 < MAX_PENDING)"
proof (cases "find_existing_pending_by_key (ac_pending (pruned s t0)) (gi_sender i) t0")
  case None
  then have "\<forall>e \<in> set (ac_pending s). live t0 e \<longrightarrow> pe_sender (snd e) \<noteq> gi_sender i"
    by (auto simp: find_existing_pending_by_key_def find_None_iff)
  with None assms show ?thesis
    by (auto simp: dm_pair_path_def Let_def count_active_pending_def split: if_splits)
next
  case (Some p)
  with find_Some_in [OF Some [unfolded find_existing_pending_by_key_def]] assms show ?thesis
    by (cases p) (auto simp: dm_pair_path_def)
qed

lemma live_mono: "live t1 e \<Longrightarrow> t0 \<le> t1 \<Longrightarrow> live t0 e"
  by (simp add: live_def)

lemma record_after_new_pair:
  assumes "decide_action gen s i t0 = Pair a" "\<not> pa_resend a" "t0 \<le> t1"
  shows "record_pairing_prompt_change i a m t1 s =
    Inr (Some ((pruned s t1)\<lparr>ac_pending := AList.update (pa_token a)
      \<lparr>pe_sender = gi_sender i, pe_chat = gi_chat i, pe_created = t1,
       pe_expires = t1 + PAIRING_TTL_MS, pe_prompt = m\<rparr> (ac_pending (pruned s t1))\<rparr>))"
proof -
  note d = decide_Pair [OF assms(1)]
  from dm_pair_Pair [of gen s t0 i a] d assms(2)
  have k: "pa_kind a = Kind_Dm"
    and n: "\<forall>e \<in> set (ac_pending s). live t0 e \<longrightarrow> pe_sender (snd e) \<noteq> gi_sender i" by auto
  from n have "find (\<lambda>e. pe_sender (snd e) = gi_sender i) (ac_pending (pruned s t1)) = None"
    by (auto simp: find_None_iff dest: live_mono [OF _ assms(3)])
  with k d show ?thesis by (simp add: record_pairing_prompt_change_def)
qed

text \<open>
  C6. The pairing flow works: when the gate asks a stranger's direct message to pair, the
  prompt is recorded, and an operator types that token (in either letter case) within the
  hour, then the approval succeeds for that very sender and the gate delivers the sender's
  direct messages from then on.
\<close>

theorem pairing_round_trip:
  assumes "gi_chat_type i = ''p2p''"
    and "decide_action gen s i t0 = Pair a" "\<not> pa_resend a"
    and "t0 \<le> t1"
    and "record_pairing_prompt_change i a m t1 s = Inr (Some s1)"
    and "pairing_token_ok typed" "map to_lower typed = pa_token a"
    and "t2 < t1 + PAIRING_TTL_MS"
  shows "\<exists>s2 d f2.
    approve_pairing_by_token typed t2 True \<lparr>slot = Some s1, disk = f\<rparr> =
      (Approval_Ok d, \<lparr>slot = Some s2, disk = f2\<rparr>) \<and>
    ad_sender d = gi_sender i \<and> ad_chat d = gi_chat i \<and>
    gr_action (dreamux_feishu_gate gen' s2 i t3) = Deliver"
proof -
  let ?e = "\<lparr>pe_sender = gi_sender i, pe_chat = gi_chat i, pe_created = t1,
       pe_expires = t1 + PAIRING_TTL_MS, pe_prompt = m\<rparr>"
  note d = decide_Pair [OF assms(2)]
  have s1: "s1 = (pruned s t1)\<lparr>ac_pending :=
      AList.update (pa_token a) ?e (ac_pending (pruned s t1))\<rparr>"
    using record_after_new_pair [OF assms(2-4), of m] assms(5) by simp
  then have at: "map_of (ac_pending s1) (pa_token a) = Some ?e"
    by (simp add: AList.update_conv')
  have users: "ac_allow_users s1 = ac_allow_users s" "ac_dm_policy s1 = ''pairing''"
    using s1 d by simp_all
  let ?s2 = "s1\<lparr>ac_allow_users := ac_allow_users s1 @ [Str (gi_sender i)],
      ac_pending := AList.delete (pa_token a) (ac_pending s1)\<rparr>"
  have step: "\<exists>dd. approve_step (pa_token a) t2 s1 = (Some ?s2, Approval_Ok dd) \<and>
      ad_sender dd = gi_sender i \<and> ad_chat dd = gi_chat i"
    using at users d assms(8) by (simp add: approve_step_def Let_def)
  then obtain dd where st: "approve_step (pa_token a) t2 s1 = (Some ?s2, Approval_Ok dd)"
    and dd: "ad_sender dd = gi_sender i" "ad_chat dd = gi_chat i" by blast
  have "approve_pairing_by_token typed t2 True \<lparr>slot = Some s1, disk = f\<rparr> =
      (Approval_Ok dd, \<lparr>slot = Some ?s2, disk = Some (encode_access ?s2)\<rparr>)"
    using assms(6,7) st
    by (simp add: approve_pairing_by_token_def store_update_def store_load_def
        approve_change_def Let_def)
  moreover have "gr_action (dreamux_feishu_gate gen' ?s2 i t3) = Deliver"
    using d users assms(1) by (simp add: deliver_admitted admitted_def user_admitted_def)
  ultimately show ?thesis using dd by blast
qed

definition sample_gen :: "nat \<Rightarrow> string" where
  "sample_gen n = ''abc123''"

definition pairing_state :: access_state where
  "pairing_state = default_access_state\<lparr>ac_pending := [(''abc123'',
     \<lparr>pe_sender = ''ou_1'', pe_chat = ''oc_1'', pe_created = 0, pe_expires = PAIRING_TTL_MS,
      pe_prompt = None\<rparr>)]\<rparr>"

lemma sample_decides: "decide_action sample_gen default_access_state sample_inbound 0 =
    Pair sample_pair"
  by (simp add: decide_action_def dreamux_feishu_gate_def gate_p2p_def dm_pair_path_def
      pruned_def prune_expired_pending_def default_access_state_def sample_inbound_def
      find_existing_pending_by_key_def count_active_pending_def MAX_PENDING_def Let_def
      generate_unique_pairing_token_def unique_token_from.simps sample_gen_def sample_pair_def)

lemma pairing_round_trip_witness:
  "\<exists>s2 d f2. approve_pairing_by_token ''ABC123'' 60000 True
      \<lparr>slot = Some pairing_state, disk = None\<rparr> =
      (Approval_Ok d, \<lparr>slot = Some s2, disk = f2\<rparr>) \<and>
    ad_sender d = gi_sender sample_inbound \<and> ad_chat d = gi_chat sample_inbound \<and>
    gr_action (dreamux_feishu_gate sample_gen s2 sample_inbound 70000) = Deliver"
  by (rule pairing_round_trip [OF _ sample_decides, of 0 None])
    (simp_all add: sample_inbound_def sample_pair_def record_pairing_prompt_change_def
      default_access_state_def pairing_state_def pruned_def prune_expired_pending_def
      pairing_token_ok_def hex_char_def to_lower_def PAIRING_TTL_MS_def)

subsection \<open>The cap on pending pairings\<close>

lemma count_update_le:
  "count_active_pending (AList.update k v ps) t \<le> Suc (count_active_pending ps t)"
  by (induction ps) (auto simp: count_active_pending_def)

lemma count_mono: "t0 \<le> t1 \<Longrightarrow> count_active_pending ps t1 \<le> count_active_pending ps t0"
  by (induction ps) (auto simp: count_active_pending_def dest: live_mono)

lemma count_pruned [simp]:
  "count_active_pending (filter (live t) ps) t = count_active_pending ps t"
  by (simp add: count_active_pending_def)

text \<open>
  When a first pairing prompt is recorded against the state its message was decided on,
  the live pending pairings stay within the cap.
\<close>

theorem pending_cap_kept:
  assumes "decide_action gen s i t0 = Pair a" "\<not> pa_resend a" "t0 \<le> t1"
    and "record_pairing_prompt_change i a m t1 s = Inr (Some s1)"
  shows "count_active_pending (ac_pending s1) t1 \<le> MAX_PENDING"
proof -
  have "count_active_pending (ac_pending s) t0 < MAX_PENDING"
    using dm_pair_Pair [of gen s t0 i a] decide_Pair [OF assms(1)] assms(2) by auto
  with count_mono [OF assms(3), of "ac_pending s"]
  have "Suc (count_active_pending (ac_pending s) t1) \<le> MAX_PENDING" by simp
  moreover have "count_active_pending (ac_pending s1) t1 \<le>
      Suc (count_active_pending (ac_pending s) t1)"
    using record_after_new_pair [OF assms(1-3), of m] assms(4)
      count_update_le [of "pa_token a" _ "filter (live t1) (ac_pending s)" t1]
    by auto
  ultimately show ?thesis by simp
qed

lemma pending_cap_kept_witness:
  "count_active_pending (ac_pending pairing_state) 0 \<le> MAX_PENDING"
  by (rule pending_cap_kept [OF sample_decides, of 0 None])
    (simp_all add: sample_inbound_def sample_pair_def record_pairing_prompt_change_def
      default_access_state_def pairing_state_def pruned_def prune_expired_pending_def)

text \<open>
  The cap is checked when a message is decided and not again when its prompt is recorded, so
  two decisions taken before either prompt was sent can pass it together.
\<close>

definition nine_pending :: access_state where
  "nine_pending = default_access_state\<lparr>ac_pending :=
     map (\<lambda>k. ([k], \<lparr>pe_sender = [k], pe_chat = ''oc'', pe_created = 0,
       pe_expires = PAIRING_TTL_MS, pe_prompt = None\<rparr>)) ''abcdefghi''\<rparr>"

lemma unique_first_draw:
  "gen 0 \<notin> fst ` set pend \<Longrightarrow> generate_unique_pairing_token gen pend = gen 0"
  by (simp add: generate_unique_pairing_token_def unique_token_from.simps)

lemma nine_live: "pruned nine_pending 0 = nine_pending"
  by (simp add: pruned_def prune_expired_pending_def nine_pending_def live_def
      PAIRING_TTL_MS_def)

lemma nine_stranger:
  assumes "length u > 1" "length tok = 6"
  shows "decide_action (\<lambda>_. tok) nine_pending (sample_inbound\<lparr>gi_sender := u\<rparr>) 0 =
           Pair (sample_pair\<lparr>pa_token := tok\<rparr>)"
proof -
  have "\<forall>e \<in> set (ac_pending nine_pending). length (fst e) = 1 \<and> length (pe_sender (snd e)) = 1"
    by (simp add: nine_pending_def)
  note len = bspec [OF this]
  have t: "tok \<notin> fst ` set (ac_pending nine_pending)"
    using assms(2) by (auto dest: len)
  have "find_existing_pending_by_key (ac_pending nine_pending) u 0 = None"
    using assms(1) by (auto simp: find_existing_pending_by_key_def find_None_iff dest: len)
  moreover have "count_active_pending (ac_pending nine_pending) 0 = 9"
    by (simp add: count_active_pending_def nine_pending_def live_def PAIRING_TTL_MS_def)
  moreover have "ac_dm_policy nine_pending = ''pairing''" "ac_allow_users nine_pending = []"
    by (simp_all add: nine_pending_def default_access_state_def)
  ultimately show ?thesis
    using unique_first_draw [of "\<lambda>_. tok", OF t]
    by (simp add: decide_action_def dreamux_feishu_gate_def nine_live gate_p2p_def
        dm_pair_path_def Let_def sample_inbound_def sample_pair_def MAX_PENDING_def)
qed

lemma pending_cap_interleaved:
  "decide_action (\<lambda>_. ''aaaaaa'') nine_pending (sample_inbound\<lparr>gi_sender := ''ou_1''\<rparr>) 0 =
     Pair (sample_pair\<lparr>pa_token := ''aaaaaa''\<rparr>) \<and>
   decide_action (\<lambda>_. ''bbbbbb'') nine_pending (sample_inbound\<lparr>gi_sender := ''ou_2''\<rparr>) 0 =
     Pair (sample_pair\<lparr>pa_token := ''bbbbbb''\<rparr>) \<and>
   count_active_pending (ac_pending (run_access
     [A_Record (sample_inbound\<lparr>gi_sender := ''ou_1''\<rparr>) (sample_pair\<lparr>pa_token := ''aaaaaa''\<rparr>) None 0,
      A_Record (sample_inbound\<lparr>gi_sender := ''ou_2''\<rparr>) (sample_pair\<lparr>pa_token := ''bbbbbb''\<rparr>) None 0]
     nine_pending)) 0 = 11"
proof -
  have "count_active_pending (ac_pending (run_access
     [A_Record (sample_inbound\<lparr>gi_sender := ''ou_1''\<rparr>) (sample_pair\<lparr>pa_token := ''aaaaaa''\<rparr>) None 0,
      A_Record (sample_inbound\<lparr>gi_sender := ''ou_2''\<rparr>) (sample_pair\<lparr>pa_token := ''bbbbbb''\<rparr>) None 0]
     nine_pending)) 0 = 11"
    by (simp add: run_access_def access_step_def record_pairing_prompt_change_def
        sample_inbound_def sample_pair_def nine_pending_def default_access_state_def
        live_def PAIRING_TTL_MS_def count_active_pending_def)
  then show ?thesis by (simp add: nine_stranger)
qed

end
