(* ===== verification/Peer_Bots.thy ===== *)
theory Peer_Bots
  imports Feishu_Access
begin

text \<open>
  The peer bots of a chat: \<^verbatim>\<open>packages/channel/feishu-channel/src/chat-bots-store.ts\<close>, which bots were seen and
  which were introduced, and \<^verbatim>\<open>introduce.ts\<close>, the command that introduces them, with the mention helpers
  of \<^verbatim>\<open>channel/feishu-transport/src/parse/mentions.ts\<close>.

  A chat's record and its names are objects, that is association lists.  A change answers \<open>None\<close> where the
  code returns the reference it was given.  White space is that of the Latin-1 range.
\<close>

subsection \<open>The state\<close>

definition MAX_SEEN_EVENT_IDS :: nat where "MAX_SEEN_EVENT_IDS = 200"

record bots_entry =
  be_known :: "string list"
  be_trusted :: "string list"
  be_names :: "(string \<times> string) list"
  be_needs :: bool
  be_generation :: rat
  be_seen :: "string list"

type_synonym bots_state = "(string \<times> bots_entry) list"

record peer_bot =
  pb_id :: string
  pb_name :: "string option"

definition empty_bots_entry :: bots_entry where
  "empty_bots_entry =
     \<lparr> be_known = [], be_trusted = [], be_names = [], be_needs = False, be_generation = 0, be_seen = [] \<rparr>"

definition bots_entry_of :: "bots_state \<Rightarrow> string \<Rightarrow> bots_entry" where
  "bots_entry_of s chat = (case map_of s chat of None \<Rightarrow> empty_bots_entry | Some e \<Rightarrow> e)"

definition peer_bots_from :: "bots_entry \<Rightarrow> string list \<Rightarrow> peer_bot list" where
  "peer_bots_from e ids =
     map (\<lambda>i. \<lparr> pb_id = i, pb_name = (case map_of (be_names e) i of
                  Some n \<Rightarrow> if n \<noteq> [] then Some n else None | None \<Rightarrow> None) \<rparr>) ids"

definition with_name :: "peer_bot \<Rightarrow> bots_entry \<Rightarrow> bots_entry" where
  "with_name b e =
     (case pb_name b of
        None \<Rightarrow> e
      | Some n \<Rightarrow>
          if n = [] \<or> map_of (be_names e) (pb_id b) = Some n then e
          else e\<lparr>be_names := AList.update (pb_id b) n (be_names e)\<rparr>)"

definition with_known_id :: "string \<Rightarrow> bots_entry \<Rightarrow> bots_entry" where
  "with_known_id i e = (if i \<in> set (be_known e) then e else e\<lparr>be_known := be_known e @ [i]\<rparr>)"

definition with_trusted_id :: "string \<Rightarrow> bots_entry \<Rightarrow> bots_entry" where
  "with_trusted_id i e = (if i \<in> set (be_trusted e) then e else e\<lparr>be_trusted := be_trusted e @ [i]\<rparr>)"

definition with_baseline :: "bots_entry \<Rightarrow> bots_entry" where
  "with_baseline e = e\<lparr>be_needs := True, be_generation := be_generation e + 1\<rparr>"

definition with_entry :: "string \<Rightarrow> bots_entry \<Rightarrow> bots_state \<Rightarrow> bots_state" where
  "with_entry chat e s = AList.update chat e s"

subsection \<open>The changes\<close>

definition observe_change :: "string \<Rightarrow> peer_bot \<Rightarrow> bots_state \<Rightarrow> bots_state option" where
  "observe_change chat b s =
     (let e = bots_entry_of s chat; next = with_known_id (pb_id b) (with_name b e)
      in if next = e then None else Some (with_entry chat next s))"

text \<open>One bot of an introduction; the second part holds the ids that were added.\<close>

definition introduce_one :: "peer_bot \<Rightarrow> bots_entry \<times> string list \<Rightarrow> bots_entry \<times> string list" where
  "introduce_one b x =
     (case x of (e, added) \<Rightarrow>
        if pb_id b = [] then (e, added)
        else
          let known = with_known_id (pb_id b) (with_name b e)
          in (with_trusted_id (pb_id b) known, if pb_id b \<in> set (be_trusted known) then added else added @ [pb_id b]))"

definition trust_change :: "string \<Rightarrow> peer_bot list \<Rightarrow> bots_state \<Rightarrow> bots_state option \<times> string list" where
  "trust_change chat bots s =
     (let e = bots_entry_of s chat in
      case fold introduce_one bots (e, []) of
        (e', added) \<Rightarrow>
          (if e' = e then None else Some (with_entry chat (if added = [] then e' else with_baseline e') s), added))"

record pending_baseline =
  pn_needs :: bool
  pn_generation :: rat
  pn_trusted :: "peer_bot list"

definition pending_baseline_of :: "string \<Rightarrow> bots_state \<Rightarrow> pending_baseline" where
  "pending_baseline_of chat s =
     (case map_of s chat of
        None \<Rightarrow> \<lparr> pn_needs = False, pn_generation = 0, pn_trusted = [] \<rparr>
      | Some e \<Rightarrow> \<lparr> pn_needs = be_needs e, pn_generation = be_generation e, pn_trusted = peer_bots_from e (be_trusted e) \<rparr>)"

definition clear_change :: "string \<Rightarrow> rat \<Rightarrow> bots_state \<Rightarrow> bots_state option" where
  "clear_change chat g s =
     (case map_of s chat of
        None \<Rightarrow> None
      | Some e \<Rightarrow>
          if \<not> be_needs e then None
          else if be_generation e \<noteq> g then None
          else Some (with_entry chat (e\<lparr>be_needs := False\<rparr>) s))"

definition list_chat_bots :: "string \<Rightarrow> bots_state \<Rightarrow> peer_bot list \<times> peer_bot list" where
  "list_chat_bots chat s =
     (case map_of s chat of
        None \<Rightarrow> ([], [])
      | Some e \<Rightarrow> (peer_bots_from e (be_known e), peer_bots_from e (be_trusted e)))"

definition trusted_bot_ids :: "string \<Rightarrow> bots_state \<Rightarrow> string set" where
  "trusted_bot_ids chat s = (case map_of s chat of None \<Rightarrow> {} | Some e \<Rightarrow> set (be_trusted e))"

definition bot_added_change :: "string \<Rightarrow> string \<Rightarrow> bots_state \<Rightarrow> bots_state option \<times> bool" where
  "bot_added_change chat event s =
     (let e = bots_entry_of s chat in
      if event \<noteq> [] \<and> event \<in> set (be_seen e) then (None, False)
      else
        let seen = (if event = [] then be_seen e else be_seen e @ [event]) in
        (Some (with_entry chat (with_baseline (e\<lparr>be_seen :=
           (if event \<noteq> [] \<and> length seen > MAX_SEEN_EVENT_IDS then drop (length seen - MAX_SEEN_EVENT_IDS) seen
            else seen)\<rparr>)) s), True))"

subsection \<open>Reading and writing the file\<close>

text \<open>\<^verbatim>\<open>[...new Set(xs)]\<close> keeps the first of equal values.\<close>

definition first_ones :: "string list \<Rightarrow> string list" where
  "first_ones xs = rev (remdups (rev xs))"

definition string_array :: "js \<Rightarrow> string list" where
  "string_array v =
     (case v of
        Arr xs \<Rightarrow> first_ones (concat (map (\<lambda>x. case x of Str t \<Rightarrow> [t] | _ \<Rightarrow> []) xs))
      | _ \<Rightarrow> [])"

definition read_names :: "js \<Rightarrow> (string \<times> string) list" where
  "read_names v =
     (case v of
        Obj kv \<Rightarrow> concat (map (\<lambda>(k, x). case x of Str t \<Rightarrow> [(k, t)] | _ \<Rightarrow> []) kv)
      | _ \<Rightarrow> [])"

definition normalize_entry :: "js \<Rightarrow> bots_entry" where
  "normalize_entry v =
     (case v of
        Obj ob \<Rightarrow>
          \<lparr> be_known = string_array (jget ob ''known''), be_trusted = string_array (jget ob ''trusted''),
            be_names = read_names (jget ob ''names''), be_needs = (jget ob ''needsBaseline'' = Bool True),
            be_generation = (case jget ob ''baselineGeneration'' of Num g \<Rightarrow> g | _ \<Rightarrow> 0),
            be_seen = string_array (jget ob ''seenEventIds'') \<rparr>
      | _ \<Rightarrow> empty_bots_entry)"

definition normalize_chat_bots :: "js \<Rightarrow> bots_state" where
  "normalize_chat_bots v =
     (case v of
        Obj ob \<Rightarrow> (case jget ob ''chats'' of Obj kv \<Rightarrow> map (\<lambda>(k, x). (k, normalize_entry x)) kv | _ \<Rightarrow> [])
      | _ \<Rightarrow> [])"

text \<open>\<^verbatim>\<open>loadChatBots\<close> never fails: whatever cannot be read is an empty store.\<close>

definition load_chat_bots :: "json_file option \<Rightarrow> unit + bots_state" where
  "load_chat_bots f =
     (case f of Some (Jf_Value v) \<Rightarrow> Inr (normalize_chat_bots v) | _ \<Rightarrow> Inr [])"

definition encode_bots_entry :: "bots_entry \<Rightarrow> js" where
  "encode_bots_entry e = Obj
     [(''known'', Arr (map Str (be_known e))), (''trusted'', Arr (map Str (be_trusted e))),
      (''names'', Obj (map (\<lambda>(k, n). (k, Str n)) (be_names e))), (''needsBaseline'', Bool (be_needs e)),
      (''baselineGeneration'', Num (be_generation e)), (''seenEventIds'', Arr (map Str (be_seen e)))]"

definition encode_chat_bots :: "bots_state \<Rightarrow> json_file" where
  "encode_chat_bots s = Jf_Value (Obj
     [(''version'', Num 1), (''chats'', Obj (map (\<lambda>(k, e). (k, encode_bots_entry e)) s))])"

subsection \<open>What is written is what is read\<close>

definition bots_entry_ok :: "bots_entry \<Rightarrow> bool" where
  "bots_entry_ok e \<longleftrightarrow> distinct (be_known e) \<and> distinct (be_trusted e) \<and> distinct (be_seen e)"

definition bots_ok :: "bots_state \<Rightarrow> bool" where
  "bots_ok s \<longleftrightarrow> (\<forall>e \<in> snd ` set s. bots_entry_ok e)"

lemma first_ones_distinct [simp]: "distinct (first_ones xs)" "distinct xs \<Longrightarrow> first_ones xs = xs"
  by (simp_all add: first_ones_def distinct_remdups_id)

lemma string_array_distinct [simp]: "distinct (string_array v)"
  by (cases v) (simp_all add: string_array_def)

lemma string_array_encode [simp]:
  assumes "distinct xs"
  shows "string_array (Arr (map Str xs)) = xs"
proof -
  have "concat (map (\<lambda>x. case x of Str t \<Rightarrow> [t] | _ \<Rightarrow> []) (map Str xs)) = xs"
    by (induction xs) simp_all
  then show ?thesis using assms by (simp add: string_array_def)
qed

lemma read_names_encode [simp]: "read_names (Obj (map (\<lambda>(k, n). (k, Str n)) ns)) = ns"
  by (induction ns) (auto simp: read_names_def)

lemma normalize_encode_entry:
  assumes "bots_entry_ok e"
  shows "normalize_entry (encode_bots_entry e) = e"
  using assms by (simp add: normalize_entry_def encode_bots_entry_def bots_entry_ok_def)

lemma normalize_entry_ok: "bots_entry_ok (normalize_entry v)"
  by (cases v) (simp_all add: normalize_entry_def bots_entry_ok_def empty_bots_entry_def)

interpretation peer_bots_owner: durable_owner load_chat_bots encode_chat_bots bots_ok
proof
  fix s assume ok: "bots_ok s"
  have "map (\<lambda>(k, x). (k, normalize_entry x)) (map (\<lambda>(k, e). (k, encode_bots_entry e)) s) = s"
    using ok by (induction s) (auto simp: bots_ok_def normalize_encode_entry)
  then show "load_chat_bots (Some (encode_chat_bots s)) = Inr s"
    by (simp add: load_chat_bots_def encode_chat_bots_def normalize_chat_bots_def)
next
  fix f s assume "load_chat_bots f = Inr s"
  then show "bots_ok s"
    by (auto simp: load_chat_bots_def normalize_chat_bots_def bots_ok_def normalize_entry_ok
        split: option.splits json_file.splits js.splits)
qed


subsection \<open>Mentions\<close>

record mention =
  mn_key :: string
  mn_open :: "string option"
  mn_union :: "string option"
  mn_name :: "string option"

definition is_bot_sender_type :: "string \<Rightarrow> bool" where
  "is_bot_sender_type t \<longleftrightarrow> t = ''bot'' \<or> t = ''app''"

definition is_bot_mentioned :: "mention list \<Rightarrow> string option \<Rightarrow> bool" where
  "is_bot_mentioned ms self \<longleftrightarrow>
     (case self of
        None \<Rightarrow> False
      | Some b \<Rightarrow> b \<noteq> [] \<and> list_ex (\<lambda>m. or_else (mn_open m) (mn_union m) = Some b) ms)"

subsection \<open>The command\<close>

datatype introduce_deny =
    Deny_Non_Group | Deny_Empty_Sender | Deny_Group_Blocked | Deny_Chat_Not_Allowlisted | Deny_Sender_Not_Followed

definition introduce_deny_reason :: "access_state \<Rightarrow> string \<Rightarrow> string \<Rightarrow> string \<Rightarrow> introduce_deny option" where
  "introduce_deny_reason a chat_type chat sender =
     (if chat_type \<noteq> ''group'' then Some Deny_Non_Group
      else if sender = [] then Some Deny_Empty_Sender
      else if ac_group_policy a = ''block'' then Some Deny_Group_Blocked
      else if ac_group_policy a = ''allowlist'' \<and> Str chat \<notin> set (ac_allow_chats a) then Some Deny_Chat_Not_Allowlisted
      else if Str sender \<notin> set (ac_allow_users a) then Some Deny_Sender_Not_Followed
      else None)"

definition can_run_introduce :: "access_state \<Rightarrow> string \<Rightarrow> string \<Rightarrow> string \<Rightarrow> bool" where
  "can_run_introduce a chat_type chat sender \<longleftrightarrow> introduce_deny_reason a chat_type chat sender = None"

definition trim_start :: "string \<Rightarrow> string" where
  "trim_start = dropWhile ws_char"

text \<open>Mention keys are stripped from the front, longer keys first; an empty key is none.\<close>

function strip_keys :: "string list \<Rightarrow> string \<Rightarrow> string" where
  "strip_keys keys remaining =
     (case find (\<lambda>k. k \<noteq> [] \<and> take (length k) remaining = k) keys of
        None \<Rightarrow> remaining
      | Some k \<Rightarrow> strip_keys keys (trim_start (drop (length k) remaining)))"
  by pat_completeness auto
termination
proof (relation "measure (\<lambda>(_, r). length r)", goal_cases)
  case (2 keys remaining k)
  then have k: "k \<noteq> []" "take (length k) remaining = k"
    by (auto dest: find_Some_in)
  have "length (trim_start (drop (length k) remaining)) \<le> length (drop (length k) remaining)"
    unfolding trim_start_def by (rule length_dropWhile_le)
  also have "\<dots> < length remaining" using k by (cases remaining) auto
  finally show ?case by simp
qed simp

declare strip_keys.simps [simp del]

text \<open>The content is what \<^verbatim>\<open>JSON.parse\<close> makes of it, \<open>None\<close> where it throws.\<close>

definition leading_text_after_mentions :: "string \<Rightarrow> js option \<Rightarrow> mention list \<Rightarrow> string option" where
  "leading_text_after_mentions message_type content ms =
     (if message_type \<noteq> ''text'' then None
      else
        (case content of
           None \<Rightarrow> None
         | Some v \<Rightarrow>
             let text = (case v of Obj ob \<Rightarrow> (case jget ob ''text'' of Str t \<Rightarrow> t | _ \<Rightarrow> '''') | _ \<Rightarrow> '''');
                 keys = sort_key (\<lambda>k. - int (length k)) (filter (\<lambda>k. k \<noteq> []) (map mn_key ms))
             in Some (strip_keys keys (trim_start text))))"

text \<open>A word at the front of a text, in any letter case, ended by white space or by the end.\<close>

definition starts_with_word :: "string \<Rightarrow> string \<Rightarrow> bool" where
  "starts_with_word w text \<longleftrightarrow>
     take (length w) (map to_lower text) = w \<and> (length text = length w \<or> (length text > length w \<and> ws_char (text ! length w)))"

definition detect_introduce :: "string \<Rightarrow> js option \<Rightarrow> mention list \<Rightarrow> bool" where
  "detect_introduce message_type content ms \<longleftrightarrow>
     (case leading_text_after_mentions message_type content ms of
        None \<Rightarrow> False
      | Some t \<Rightarrow> starts_with_word ''/introduce'' t)"

fun collect_peers :: "string option \<Rightarrow> string list \<Rightarrow> mention list \<Rightarrow> peer_bot list" where
  "collect_peers self seen [] = []"
| "collect_peers self seen (m # ms) =
     (let i = (case mn_open m of None \<Rightarrow> '''' | Some i \<Rightarrow> i) in
      if i = [] \<or> Some i = self \<or> i \<in> set seen then collect_peers self seen ms
      else \<lparr> pb_id = i, pb_name = mn_name m \<rparr> # collect_peers self (i # seen) ms)"

definition introduced_peers :: "mention list \<Rightarrow> string option \<Rightarrow> peer_bot list" where
  "introduced_peers ms self = collect_peers self [] ms"

lemma introduced_peers_mentioned:
  "b \<in> set (introduced_peers ms self) \<Longrightarrow> pb_id b \<noteq> [] \<and> Some (pb_id b) \<noteq> self \<and> (\<exists>m \<in> set ms. mn_open m = Some (pb_id b))"
proof -
  have "b \<in> set (collect_peers self seen ms) \<Longrightarrow>
      pb_id b \<noteq> [] \<and> Some (pb_id b) \<noteq> self \<and> (\<exists>m \<in> set ms. mn_open m = Some (pb_id b))" for seen
    by (induction ms arbitrary: seen) (auto simp: Let_def split: if_splits option.splits)
  then show "b \<in> set (introduced_peers ms self) \<Longrightarrow> ?thesis" by (simp add: introduced_peers_def)
qed

subsection \<open>What the changes keep\<close>

lemma entry_ok_of [intro]: "bots_ok s \<Longrightarrow> bots_entry_ok (bots_entry_of s chat)"
  by (auto simp: bots_entry_of_def bots_ok_def bots_entry_ok_def empty_bots_entry_def
      split: option.split dest!: map_of_SomeD)

lemma bots_ok_update:
  assumes "bots_ok s" "bots_entry_ok e"
  shows "bots_ok (with_entry chat e s)"
proof -
  have "set (AList.update chat e s) \<subseteq> insert (chat, e) (set s)" by (induction s) auto
  then show ?thesis using assms by (fastforce simp: bots_ok_def with_entry_def)
qed

lemma entry_ok_steps:
  "bots_entry_ok e \<Longrightarrow> bots_entry_ok (with_name b e)" "bots_entry_ok e \<Longrightarrow> bots_entry_ok (with_known_id i e)"
  "bots_entry_ok e \<Longrightarrow> bots_entry_ok (with_trusted_id i e)" "bots_entry_ok e \<Longrightarrow> bots_entry_ok (with_baseline e)"
  by (auto simp: bots_entry_ok_def with_name_def with_known_id_def with_trusted_id_def with_baseline_def split: option.split)

lemma with_name_fields [simp]:
  "be_known (with_name b e) = be_known e" "be_trusted (with_name b e) = be_trusted e" "be_needs (with_name b e) = be_needs e"
  "be_generation (with_name b e) = be_generation e" "be_seen (with_name b e) = be_seen e"
  by (simp_all add: with_name_def split: option.split)

lemma with_known_fields [simp]:
  "be_trusted (with_known_id i e) = be_trusted e" "be_needs (with_known_id i e) = be_needs e"
  "be_generation (with_known_id i e) = be_generation e"
  by (simp_all add: with_known_id_def)

lemma with_trusted_fields [simp]:
  "set (be_trusted (with_trusted_id i e)) = insert i (set (be_trusted e))" "be_needs (with_trusted_id i e) = be_needs e"
  "be_generation (with_trusted_id i e) = be_generation e"
  by (auto simp: with_trusted_id_def)

lemma with_baseline_fields [simp]:
  "be_trusted (with_baseline e) = be_trusted e" "be_needs (with_baseline e)"
  "be_generation (with_baseline e) = be_generation e + 1"
  by (simp_all add: with_baseline_def)

text \<open>What an introduction adds: exactly the named bots that have an id.\<close>

lemma introduce_fold:
  assumes "fold introduce_one bots (e, added) = (e', added')"
  shows "set (be_trusted e') = set (be_trusted e) \<union> {pb_id b | b. b \<in> set bots \<and> pb_id b \<noteq> []}"
    "be_needs e' = be_needs e" "be_generation e' = be_generation e" "bots_entry_ok e \<Longrightarrow> bots_entry_ok e'"
    "set added' = set added \<union> (set (be_trusted e') - set (be_trusted e))"
proof -
  have "set (be_trusted e') = set (be_trusted e) \<union> {pb_id b | b. b \<in> set bots \<and> pb_id b \<noteq> []} \<and>
      be_needs e' = be_needs e \<and> be_generation e' = be_generation e \<and> (bots_entry_ok e \<longrightarrow> bots_entry_ok e') \<and>
      set added' = set added \<union> (set (be_trusted e') - set (be_trusted e))"
    using assms
  proof (induction bots arbitrary: e added)
    case (Cons b bots)
    obtain e1 added1 where one: "introduce_one b (e, added) = (e1, added1)" by (cases "introduce_one b (e, added)")
    have e1: "set (be_trusted e1) = set (be_trusted e) \<union> (if pb_id b = [] then {} else {pb_id b})"
      "be_needs e1 = be_needs e" "be_generation e1 = be_generation e" "bots_entry_ok e \<Longrightarrow> bots_entry_ok e1"
      "set added1 = set added \<union> (set (be_trusted e1) - set (be_trusted e))"
      using one by (auto simp: introduce_one_def Let_def entry_ok_steps split: if_splits)
    show ?case using Cons.IH [of e1 added1] Cons.prems one e1 by auto
  qed simp
  then show "set (be_trusted e') = set (be_trusted e) \<union> {pb_id b | b. b \<in> set bots \<and> pb_id b \<noteq> []}"
    "be_needs e' = be_needs e" "be_generation e' = be_generation e" "bots_entry_ok e \<Longrightarrow> bots_entry_ok e'"
    "set added' = set added \<union> (set (be_trusted e') - set (be_trusted e))" by blast+
qed

end
