(* ===== verification/Feishu_Inbound.thy ===== *)
theory Feishu_Inbound
  imports Peer_Bots
begin

text \<open>
  \<^verbatim>\<open>packages/channel/feishu-channel/src/inbound/pipeline.ts\<close>, \<open>onMessage\<close> up to the acceptance of a message, with
  \<^verbatim>\<open>detectFeishuSlashCommand\<close> of \<^verbatim>\<open>feishu-slash-commands.ts\<close>: classification, the policy read, passive observation,
  \<^verbatim>\<open>/introduce\<close>, the gate and the pairing prompt, over the access store and the store of peer bots.

  Messages are handled at the same time.  A message is cut at its awaits: each phase is what it waits for, and
  one input runs one message on to its next await.  Whether a write or a send succeeds, the clock and the random
  tokens are part of the input.  A throw ends the message.  The texts of cards and log lines are left out, as is
  the parser of a command's arguments, which is a parameter.
\<close>

subsection \<open>Messages\<close>

record inbound_event =
  ie_chat_type :: string
  ie_chat :: string
  ie_sender :: string
  ie_sender_type :: string
  ie_sender_name :: string
  ie_message :: string
  ie_message_type :: string
  ie_content :: "js option"
  ie_mentions :: "mention list"
  ie_thread :: "string option"
  ie_root :: "string option"

datatype sender_kind = Human | Robot

datatype unclassified = Unsupported_Chat | Sender_Unknown

definition classify_inbound :: "inbound_event \<Rightarrow> unclassified + sender_kind" where
  "classify_inbound e =
     (if ie_chat_type e \<noteq> ''p2p'' \<and> ie_chat_type e \<noteq> ''group'' then Inl Unsupported_Chat
      else if ie_sender_type e = ''user'' \<and> ie_sender e \<noteq> [] then Inr Human
      else if is_bot_sender_type (ie_sender_type e) \<and> ie_sender e \<noteq> [] then Inr Robot
      else Inl Sender_Unknown)"

datatype slash_name = Sl_Bind | Sl_Dissolve | Sl_Help | Sl_Stop | Sl_Teams

definition slash_words :: "(string \<times> slash_name) list" where
  "slash_words = [(''/bind'', Sl_Bind), (''/dissolve'', Sl_Dissolve), (''/help'', Sl_Help), (''/stop'', Sl_Stop),
     (''/teams'', Sl_Teams)]"

definition detect_slash_command ::
  "(string \<Rightarrow> string list) \<Rightarrow> inbound_event \<Rightarrow> bool \<Rightarrow> sender_kind \<Rightarrow> (slash_name \<times> string list) option" where
  "detect_slash_command parser e mentioned kind =
     (if kind \<noteq> Human then None
      else if ie_chat_type e = ''group'' \<and> \<not> mentioned then None
      else
        (case leading_text_after_mentions (ie_message_type e) (ie_content e) (ie_mentions e) of
           None \<Rightarrow> None
         | Some t \<Rightarrow>
             (case find (\<lambda>x. starts_with_word (fst x) t) slash_words of
                None \<Rightarrow> None
              | Some (w, n) \<Rightarrow> Some (n, parser (drop (length w) t)))))"

datatype message_end =
    Me_Dropped drop_reason
  | Me_Unclassified unclassified
  | Me_Introduced
  | Me_Prompted
  | Me_Unprompted
  | Me_Failed
  | Me_Lost

text \<open>What a message waits for.\<close>

datatype message_phase =
    Mp_Policy sender_kind
  | Mp_Observe "introduce_deny option"
  | Mp_Introduce "peer_bot list"
  | Mp_Ack
  | Mp_Trusted sender_kind
  | Mp_Gate sender_kind gate_inbound
  | Mp_Refer pair_action
  | Mp_Refresh pair_action
  | Mp_Card gate_inbound pair_action
  | Mp_Record gate_inbound pair_action "string option"
  | Mp_Accepted "(slash_name \<times> string list) option"
  | Mp_Over message_end

text \<open>
  The session: its two stores, its bot's id, the messages.  \<open>bx_granted\<close> (an introduction and the policy that
  allowed it) and \<open>bx_admitted\<close> (a message, the policy and the question the gate answered) are ghosts.
\<close>

record inbox =
  bx_access :: "(access_state, json_file) tstore"
  bx_bots :: "(bots_state, json_file) tstore"
  bx_self :: "string option"
  bx_parser :: "string \<Rightarrow> string list"
  bx_messages :: "(inbound_event \<times> message_phase) list"
  bx_granted :: "(inbound_event \<times> access_state) list"
  bx_admitted :: "(nat \<times> access_state \<times> gate_inbound) list"

definition new_inbox :: "string option \<Rightarrow> (string \<Rightarrow> string list) \<Rightarrow> json_file option \<Rightarrow> json_file option \<Rightarrow> inbox" where
  "new_inbox self parser fa fb =
     \<lparr> bx_access = fresh_store fa, bx_bots = fresh_store fb, bx_self = self, bx_parser = parser, bx_messages = [],
       bx_granted = [], bx_admitted = [] \<rparr>"

definition message_at :: "inbox \<Rightarrow> nat \<Rightarrow> (inbound_event \<times> message_phase) option" where
  "message_at s i = (if i < length (bx_messages s) then Some (bx_messages s ! i) else None)"

definition put_message_phase :: "nat \<Rightarrow> message_phase \<Rightarrow> inbox \<Rightarrow> inbox" where
  "put_message_phase i p s =
     (case message_at s i of
        None \<Rightarrow> s
      | Some (e, _) \<Rightarrow> s\<lparr>bx_messages := (bx_messages s)[i := (e, p)]\<rparr>)"

subsection \<open>The steps of a message\<close>

text \<open>The question put to the gate.\<close>

definition gate_question :: "inbox \<Rightarrow> inbound_event \<Rightarrow> sender_kind \<Rightarrow> bool \<Rightarrow> gate_inbound" where
  "gate_question s e kind trusted =
     \<lparr> gi_chat_type = ie_chat_type e, gi_sender = ie_sender e, gi_chat = ie_chat e, gi_is_bot = (kind = Robot),
       gi_trusted_bot = (kind = Robot \<and> ie_chat_type e = ''group'' \<and> trusted),
       gi_mentioned = is_bot_mentioned (ie_mentions e) (bx_self s) \<rparr>"

text \<open>From the policy, past the observation, to the introduction or the gate.\<close>

definition after_observation :: "nat \<Rightarrow> inbound_event \<Rightarrow> sender_kind \<Rightarrow> introduce_deny option \<Rightarrow> inbox \<Rightarrow> inbox" where
  "after_observation i e kind deny s =
     (if detect_introduce (ie_message_type e) (ie_content e) (ie_mentions e) \<and> deny = None then
        (let peers = introduced_peers (ie_mentions e) (bx_self s) in
         put_message_phase i (if peers = [] then Mp_Over Me_Introduced else Mp_Introduce peers) s)
      else if ie_chat_type e = ''group'' then put_message_phase i (Mp_Trusted kind) s
      else put_message_phase i (Mp_Gate kind (gate_question s e kind False)) s)"

definition message_arrives :: "inbound_event \<Rightarrow> inbox \<Rightarrow> inbox" where
  "message_arrives e s =
     s\<lparr>bx_messages := bx_messages s @
        [(e, case classify_inbound e of Inl u \<Rightarrow> Mp_Over (Me_Unclassified u) | Inr k \<Rightarrow> Mp_Policy k)]\<rparr>"

definition policy_read :: "nat \<Rightarrow> inbox \<Rightarrow> inbox" where
  "policy_read i s =
     (case message_at s i of
        Some (e, Mp_Policy kind) \<Rightarrow>
          (case store_load read_access (bx_access s) of
             (Inl _, st) \<Rightarrow> put_message_phase i (Mp_Over Me_Failed) (s\<lparr>bx_access := st\<rparr>)
           | (Inr a, st) \<Rightarrow>
               (let deny = introduce_deny_reason a (ie_chat_type e) (ie_chat e) (ie_sender e);
                    s' = s\<lparr>bx_access := st, bx_granted := bx_granted s @ (if deny = None then [(e, a)] else [])\<rparr> in
                if ie_chat_type e = ''group'' \<and> kind = Robot \<and> Str (ie_chat e) \<in> set (ac_allow_chats a)
                then put_message_phase i (Mp_Observe deny) s'
                else after_observation i e kind deny s'))
      | _ \<Rightarrow> s)"

text \<open>A change of the peer bots; \<open>ok\<close> is the outcome of the write.\<close>

definition bots_update :: "(bots_state \<Rightarrow> bots_state option) \<Rightarrow> bool \<Rightarrow> inbox \<Rightarrow> bool \<times> inbox" where
  "bots_update change ok s =
     (case store_update load_chat_bots encode_chat_bots (\<lambda>v. Inr (change v)) ok (\<lambda>_ _. None) (bx_bots s) of
        (r, st) \<Rightarrow> (isl r, s\<lparr>bx_bots := st\<rparr>))"

definition bot_observed :: "nat \<Rightarrow> bool \<Rightarrow> inbox \<Rightarrow> inbox" where
  "bot_observed i ok s =
     (case message_at s i of
        Some (e, Mp_Observe deny) \<Rightarrow>
          (case bots_update (observe_change (ie_chat e)
                  \<lparr> pb_id = ie_sender e, pb_name = (if ie_sender_name e = [] then None else Some (ie_sender_name e)) \<rparr>) ok s of
             (failed, s') \<Rightarrow>
               if failed then put_message_phase i (Mp_Over Me_Failed) s' else after_observation i e Robot deny s')
      | _ \<Rightarrow> s)"

definition bots_introduced :: "nat \<Rightarrow> bool \<Rightarrow> inbox \<Rightarrow> inbox" where
  "bots_introduced i ok s =
     (case message_at s i of
        Some (e, Mp_Introduce peers) \<Rightarrow>
          (case bots_update (\<lambda>v. fst (trust_change (ie_chat e) peers v)) ok s of
             (failed, s') \<Rightarrow> put_message_phase i (if failed then Mp_Over Me_Failed else Mp_Ack) s')
      | _ \<Rightarrow> s)"

definition trusted_read :: "nat \<Rightarrow> inbox \<Rightarrow> inbox" where
  "trusted_read i s =
     (case message_at s i of
        Some (e, Mp_Trusted kind) \<Rightarrow>
          (case store_load load_chat_bots (bx_bots s) of
             (Inl _, st) \<Rightarrow> put_message_phase i (Mp_Over Me_Failed) (s\<lparr>bx_bots := st\<rparr>)
           | (Inr v, st) \<Rightarrow>
               put_message_phase i (Mp_Gate kind (gate_question s e kind (ie_sender e \<in> trusted_bot_ids (ie_chat e) v)))
                 (s\<lparr>bx_bots := st\<rparr>))
      | _ \<Rightarrow> s)"

text \<open>The gate's answer is against the committed state its change ran on.\<close>

definition gate_answers :: "nat \<Rightarrow> (nat \<Rightarrow> string) \<Rightarrow> ms \<Rightarrow> bool \<Rightarrow> inbox \<Rightarrow> inbox" where
  "gate_answers i gen now ok s =
     (case message_at s i of
        Some (e, Mp_Gate kind gi) \<Rightarrow>
          (case (store_load read_access (bx_access s),
                 store_update read_access encode_access (gate_change gen gi now) ok (\<lambda>_ _. None) (bx_access s)) of
             ((Inr a, _), (Inr _, st)) \<Rightarrow>
               (let s' = s\<lparr>bx_access := st\<rparr> in
                case decide_action gen a gi now of
                  Drop r \<Rightarrow> put_message_phase i (Mp_Over (Me_Dropped r)) s'
                | Pair p \<Rightarrow>
                    put_message_phase i (if pa_resend p \<and> pa_prompt p \<noteq> None then Mp_Refer p else Mp_Card gi p) s'
                | Deliver \<Rightarrow>
                    put_message_phase i (Mp_Accepted (detect_slash_command (bx_parser s) e (gi_mentioned gi) kind))
                      (s'\<lparr>bx_admitted := bx_admitted s @ [(i, a, gi)]\<rparr>))
           | (_, (_, st)) \<Rightarrow> put_message_phase i (Mp_Over Me_Failed) (s\<lparr>bx_access := st\<rparr>))
      | _ \<Rightarrow> s)"

text \<open>A send settles, with the id of the message it sent.\<close>

definition prompt_sent :: "nat \<Rightarrow> string option option \<Rightarrow> inbox \<Rightarrow> inbox" where
  "prompt_sent i sent s =
     (case message_at s i of
        Some (e, Mp_Refer p) \<Rightarrow> put_message_phase i (if sent = None then Mp_Over Me_Unprompted else Mp_Refresh p) s
      | Some (e, Mp_Card gi p) \<Rightarrow>
          put_message_phase i (case sent of None \<Rightarrow> Mp_Over Me_Unprompted | Some mid \<Rightarrow> Mp_Record gi p mid) s
      | Some (e, Mp_Ack) \<Rightarrow> put_message_phase i (Mp_Over Me_Introduced) s
      | _ \<Rightarrow> s)"

definition access_update :: "(access_state \<Rightarrow> access_error + access_state option) \<Rightarrow> bool \<Rightarrow> inbox \<Rightarrow> bool \<times> inbox" where
  "access_update change ok s =
     (case store_update read_access encode_access change ok (\<lambda>_ _. None) (bx_access s) of
        (r, st) \<Rightarrow> (isl r, s\<lparr>bx_access := st\<rparr>))"

definition pairing_written :: "nat \<Rightarrow> ms \<Rightarrow> bool \<Rightarrow> inbox \<Rightarrow> inbox" where
  "pairing_written i now ok s =
     (case message_at s i of
        Some (e, Mp_Refresh p) \<Rightarrow>
          (case access_update (refresh_pairing_change p now) ok s of
             (failed, s') \<Rightarrow> put_message_phase i (Mp_Over (if failed then Me_Failed else Me_Prompted)) s')
      | Some (e, Mp_Record gi p mid) \<Rightarrow>
          (case access_update (record_pairing_prompt_change gi p mid now) ok s of
             (failed, s') \<Rightarrow> put_message_phase i (Mp_Over (if failed then Me_Failed else Me_Prompted)) s')
      | _ \<Rightarrow> s)"

subsection \<open>Any interleaving\<close>

text \<open>The process ends and starts again: the stores are read anew, messages in flight are lost.\<close>

definition inbox_restarts :: "inbox \<Rightarrow> inbox" where
  "inbox_restarts s =
     s\<lparr>bx_access := fresh_store (disk (bx_access s)), bx_bots := fresh_store (disk (bx_bots s)),
       bx_messages := map (\<lambda>(e, p). (e, case p of Mp_Accepted c \<Rightarrow> Mp_Accepted c | Mp_Over x \<Rightarrow> Mp_Over x | _ \<Rightarrow> Mp_Over Me_Lost))
         (bx_messages s)\<rparr>"

text \<open>\<open>In_Cleared\<close> is the delivery's \<^verbatim>\<open>clearBaselineIfCurrent\<close>, \<open>In_Bot_Added\<close> the member event.\<close>

datatype inbox_input =
    In_Message inbound_event
  | In_Policy nat
  | In_Observed nat bool
  | In_Introduced nat bool
  | In_Trusted nat
  | In_Gate nat "nat \<Rightarrow> string" ms bool
  | In_Sent nat "string option option"
  | In_Written nat ms bool
  | In_Approve string ms bool
  | In_Bot_Added string string bool
  | In_Cleared string rat bool
  | In_Restart

fun inbox_do :: "inbox_input \<Rightarrow> inbox \<Rightarrow> inbox" where
  "inbox_do (In_Message e) s = message_arrives e s"
| "inbox_do (In_Policy i) s = policy_read i s"
| "inbox_do (In_Observed i ok) s = bot_observed i ok s"
| "inbox_do (In_Introduced i ok) s = bots_introduced i ok s"
| "inbox_do (In_Trusted i) s = trusted_read i s"
| "inbox_do (In_Gate i gen now ok) s = gate_answers i gen now ok s"
| "inbox_do (In_Sent i sent) s = prompt_sent i sent s"
| "inbox_do (In_Written i now ok) s = pairing_written i now ok s"
| "inbox_do (In_Approve token now ok) s =
     s\<lparr>bx_access := snd (approve_pairing_by_token token now ok (bx_access s))\<rparr>"
| "inbox_do (In_Bot_Added chat ev ok) s = snd (bots_update (\<lambda>v. fst (bot_added_change chat ev v)) ok s)"
| "inbox_do (In_Cleared chat g ok) s = snd (bots_update (clear_change chat g) ok s)"
| "inbox_do In_Restart s = inbox_restarts s"

definition inbox_run :: "inbox_input list \<Rightarrow> inbox \<Rightarrow> inbox" where
  "inbox_run qs s = fold inbox_do qs s"

end
