(* ===== verification/Feishu_Target.thy ===== *)
theory Feishu_Target
  imports Prelude
begin

text \<open>
  \<^verbatim>\<open>packages/channel/feishu-channel/src/routing/target.ts\<close>: where a Feishu message
  sits, the key a binding row is stored under, and the one-level fallback of a topic to
  its group.
\<close>

datatype target_kind = P2P | Group | Topic

record feishu_target =
  tg_kind :: target_kind
  tg_chat :: string
  tg_thread :: "string option"

definition chat_target :: "string \<Rightarrow> string \<Rightarrow> feishu_target" where
  "chat_target chat raw_type =
     \<lparr>tg_kind = (if raw_type = ''p2p'' then P2P else Group), tg_chat = chat, tg_thread = None\<rparr>"

definition topic_target :: "string \<Rightarrow> string \<Rightarrow> feishu_target" where
  "topic_target chat thread = \<lparr>tg_kind = Topic, tg_chat = chat, tg_thread = Some thread\<rparr>"

record message_place =
  pl_chat :: string
  pl_chat_type :: "string option"
  pl_thread :: "string option"

definition message_target :: "message_place \<Rightarrow> feishu_target" where
  "message_target p =
     (let chat_type = (case pl_chat_type p of None \<Rightarrow> ''group'' | Some t \<Rightarrow> t) in
      case pl_thread p of
        Some th \<Rightarrow> (if chat_type \<noteq> ''p2p'' \<and> th \<noteq> [] then topic_target (pl_chat p) th
                    else chat_target (pl_chat p) chat_type)
      | None \<Rightarrow> chat_target (pl_chat p) chat_type)"

definition containing_chat :: "feishu_target \<Rightarrow> feishu_target" where
  "containing_chat t =
     (if tg_kind t = Topic then chat_target (tg_chat t) ''group'' else t)"

fun kind_name :: "target_kind \<Rightarrow> string" where
  "kind_name P2P = ''p2p''"
| "kind_name Group = ''group''"
| "kind_name Topic = ''topic''"

definition nul :: char where "nul = CHR 0x00"

definition thread_or_empty :: "feishu_target \<Rightarrow> string" where
  "thread_or_empty t = (case tg_thread t of None \<Rightarrow> [] | Some th \<Rightarrow> th)"

definition target_key :: "feishu_target \<Rightarrow> string" where
  "target_key t =
     (if tg_kind t = Topic
      then ''topic'' @ [nul] @ tg_chat t @ [nul] @ thread_or_empty t
      else kind_name (tg_kind t) @ [nul] @ tg_chat t)"

definition resolution_chain :: "feishu_target \<Rightarrow> feishu_target list" where
  "resolution_chain t = (if tg_kind t = Topic then [t, containing_chat t] else [t])"

definition same_target :: "feishu_target \<Rightarrow> feishu_target \<Rightarrow> bool" where
  "same_target l r \<longleftrightarrow> target_key l = target_key r"

definition describe_target :: "feishu_target \<Rightarrow> string" where
  "describe_target t =
     (if tg_kind t = Topic then tg_chat t @ ''#'' @ thread_or_empty t else tg_chat t)"

definition is_bindable_target :: "feishu_target \<Rightarrow> bool" where
  "is_bindable_target t \<longleftrightarrow> tg_kind t \<noteq> P2P"

lemma kind_of_key:
  assumes "target_key l = target_key r"
  shows "tg_kind l = tg_kind r"
  using assms
  by (cases "tg_kind l"; cases "tg_kind r") (auto simp: target_key_def nul_def)

lemma append_nul_inj:
  assumes "xs @ nul # ys = us @ nul # vs" "nul \<notin> set xs" "nul \<notin> set us"
  shows "xs = us \<and> ys = vs"
  using assms
proof (induction xs arbitrary: us)
  case Nil
  then show ?case by (cases us) auto
next
  case (Cons x xs)
  then show ?case by (cases us) auto
qed

lemma key_of_group [simp]:
  "target_key (chat_target c ''group'') = ''group'' @ [nul] @ c"
  by (simp add: target_key_def chat_target_def)

lemma containing_chat_kind: "tg_kind (containing_chat t) \<noteq> Topic"
  by (simp add: containing_chat_def chat_target_def)

lemma key_containing_chat:
  assumes "tg_kind t = Topic"
  shows "target_key (containing_chat t) = ''group'' @ [nul] @ tg_chat t"
  using assms by (simp add: containing_chat_def)

lemma group_key_iff:
  "target_key t = ''group'' @ [nul] @ c \<longleftrightarrow> tg_kind t = Group \<and> tg_chat t = c"
  by (cases "tg_kind t") (auto simp: target_key_def nul_def)

lemma target_key_inj:
  assumes "nul \<notin> set (tg_chat l)" "nul \<notin> set (tg_chat r)"
  shows "target_key l = target_key r \<longleftrightarrow>
    tg_kind l = tg_kind r \<and> tg_chat l = tg_chat r \<and>
    (tg_kind l = Topic \<longrightarrow> thread_or_empty l = thread_or_empty r)" (is "?L \<longleftrightarrow> ?R")
proof
  assume ?L
  from kind_of_key [OF this] have k: "tg_kind l = tg_kind r" .
  show ?R
  proof (cases "tg_kind l = Topic")
    case True
    with \<open>?L\<close> k have "tg_chat l @ nul # thread_or_empty l = tg_chat r @ nul # thread_or_empty r"
      by (simp add: target_key_def)
    from append_nul_inj [OF this assms] k show ?thesis by simp
  next
    case False
    with \<open>?L\<close> k show ?thesis by (simp add: target_key_def)
  qed
next
  assume ?R
  then show ?L by (auto simp: target_key_def)
qed

text \<open>
  Within chat ids free of the separator (Feishu's are), two targets have the same
  binding key exactly when they are the same place: same kind, same chat, and for topics
  the same thread.  A group's key is therefore never a topic's key.
\<close>

theorem same_target_iff:
  assumes "nul \<notin> set (tg_chat l)" "nul \<notin> set (tg_chat r)"
  shows "same_target l r \<longleftrightarrow>
    tg_kind l = tg_kind r \<and> tg_chat l = tg_chat r \<and>
    (tg_kind l = Topic \<longrightarrow> thread_or_empty l = thread_or_empty r)"
  using target_key_inj [OF assms] by (simp add: same_target_def)

lemma same_target_iff_witness:
  "\<not> same_target (topic_target ''oc_1'' ''omt_1'') (chat_target ''oc_1'' ''group'')
   \<and> nul \<notin> set ''oc_1''"
proof -
  have h: "nul \<notin> set (tg_chat (topic_target ''oc_1'' ''omt_1''))"
    "nul \<notin> set (tg_chat (chat_target ''oc_1'' ''group''))"
    by (simp_all add: topic_target_def chat_target_def nul_def)
  show ?thesis
    using same_target_iff [OF h] h by (simp add: topic_target_def chat_target_def)
qed

end
