(* ===== verification/Feishu_Routing.thy ===== *)
theory Feishu_Routing
  imports Feishu_Target Transactional_Store Js_Value
begin

text \<open>
  The routing document of a Feishu session and every operation of \<^verbatim>\<open>FeishuRouting\<close>
  (\<^verbatim>\<open>packages/channel/feishu-channel/src/routing/\<close>: \<^verbatim>\<open>document.ts\<close>,
  \<^verbatim>\<open>store.ts\<close>, \<^verbatim>\<open>index.ts\<close>, \<^verbatim>\<open>naming.ts\<close>).

  Each mutator maps the committed document to an error, or to its answer together with
  the changed document (\<open>None\<close> when it reports that nothing changed).  \<^verbatim>\<open>Date.now()\<close> is
  an argument.  The SHA-256 hex digest of \<^verbatim>\<open>node:crypto\<close> is a parameter \<open>sha\<close>.
\<close>

subsection \<open>The document\<close>

record target_record =
  tr_kind :: target_kind
  tr_chat :: string
  tr_thread :: "string option"

record binding_record =
  b_target :: target_record
  b_display :: "string option"
  b_team :: string
  b_space :: "string option"
  b_root :: "string option"
  b_created :: ms
  b_updated :: ms

record space_repo_policy =
  rp_path :: string
  rp_base_ref :: "string option"

record space_record =
  sp_id :: string
  sp_name :: string
  sp_container :: string
  sp_display :: "string option"
  sp_runtime :: string
  sp_identity :: "string option"
  sp_repo :: "space_repo_policy option"
  sp_created :: ms
  sp_updated :: ms

record doc_subscription =
  sub_token :: string
  sub_type :: string
  sub_team :: "string option"
  sub_created :: ms

record routing_document =
  rd_dispatcher :: string
  rd_channel :: string
  rd_bindings :: "binding_record list"
  rd_spaces :: "space_record list"
  rd_subscriptions :: "doc_subscription list"
  rd_updated :: ms

definition empty_routing_document :: "string \<Rightarrow> string \<Rightarrow> ms \<Rightarrow> routing_document" where
  "empty_routing_document disp chan now =
     \<lparr>rd_dispatcher = disp, rd_channel = chan, rd_bindings = [], rd_spaces = [],
      rd_subscriptions = [], rd_updated = now\<rparr>"

definition to_record :: "feishu_target \<Rightarrow> target_record" where
  "to_record t = \<lparr>tr_kind = tg_kind t, tr_chat = tg_chat t, tr_thread = tg_thread t\<rparr>"

definition from_record :: "target_record \<Rightarrow> feishu_target" where
  "from_record r = \<lparr>tg_kind = tr_kind r, tg_chat = tr_chat r, tg_thread = tr_thread r\<rparr>"

lemma from_to_record [simp]: "from_record (to_record t) = t"
  by (simp add: from_record_def to_record_def)

lemma to_from_record [simp]: "to_record (from_record r) = r"
  by (simp add: from_record_def to_record_def)

definition row_key :: "binding_record \<Rightarrow> string" where
  "row_key row = target_key (from_record (b_target row))"

subsection \<open>Names the channel chooses\<close>

definition space_id_of :: "(string \<Rightarrow> string) \<Rightarrow> string \<Rightarrow> string \<Rightarrow> string \<Rightarrow> string" where
  "space_id_of sha disp chan container =
     take 12 (sha (disp @ [nul] @ chan @ [nul] @ container))"

definition non_blank :: "string option \<Rightarrow> string option" where
  "non_blank v = (case v of None \<Rightarrow> None
     | Some s \<Rightarrow> (let t = trim s in if t = [] then None else Some t))"

definition slug_char :: "char \<Rightarrow> bool" where
  "slug_char c \<longleftrightarrow> c \<in> set ''ABCDEFGHIJKLMNOPQRSTUVWXYZabcdefghijklmnopqrstuvwxyz0123456789._-''"

definition alnum_char :: "char \<Rightarrow> bool" where
  "alnum_char c \<longleftrightarrow> c \<in> set ''ABCDEFGHIJKLMNOPQRSTUVWXYZabcdefghijklmnopqrstuvwxyz0123456789''"

text \<open>\<^verbatim>\<open>replace(/[^A-Za-z0-9._-]+/g, '-')\<close>: each maximal run of other characters becomes one dash.\<close>

fun dash_runs :: "(char \<Rightarrow> bool) \<Rightarrow> bool \<Rightarrow> string \<Rightarrow> string" where
  "dash_runs ok in_run [] = []"
| "dash_runs ok in_run (c # cs) =
     (if ok c then c # dash_runs ok False cs
      else if in_run then dash_runs ok True cs
      else CHR ''-'' # dash_runs ok True cs)"

definition strip_ends :: "(char \<Rightarrow> bool) \<Rightarrow> string \<Rightarrow> string" where
  "strip_ends bad s = rev (dropWhile bad (rev (dropWhile bad s)))"

definition slug_for :: "string option \<Rightarrow> string" where
  "slug_for v = (case v of None \<Rightarrow> ''target''
     | Some s \<Rightarrow>
        (let slug = take 32 (strip_ends (\<lambda>c. \<not> alnum_char c) (dash_runs slug_char False s))
         in if slug = [] then ''target'' else slug))"

definition team_name_prefix :: "string option \<Rightarrow> string" where
  "team_name_prefix display = ''space-'' @ slug_for (non_blank display)"

definition target_intent :: "string option \<Rightarrow> string \<Rightarrow> string" where
  "target_intent display fallback =
     (case non_blank display of
        Some title \<Rightarrow> ''Collaboration target: '' @ title
      | None \<Rightarrow> ''Collaboration target '' @ drop (length fallback - 12) fallback)"

subsection \<open>Resolution\<close>

datatype routing_plan =
    Plan_Bound string feishu_target
  | Plan_Provision space_record
  | Plan_Dispatcher_No_Binding
  | Plan_Dispatcher_Not_Bindable

definition find_binding :: "binding_record list \<Rightarrow> feishu_target \<Rightarrow> binding_record option" where
  "find_binding rows t = find (\<lambda>row. row_key row = target_key t) rows"

fun bound_plan_chain ::
  "binding_record list \<Rightarrow> feishu_target list \<Rightarrow> (string \<times> feishu_target) option" where
  "bound_plan_chain rows [] = None"
| "bound_plan_chain rows (c # cs) =
     (case find_binding rows c of
        Some b \<Rightarrow> Some (b_team b, c)
      | None \<Rightarrow> bound_plan_chain rows cs)"

definition bound_plan ::
  "binding_record list \<Rightarrow> feishu_target \<Rightarrow> (string \<times> feishu_target) option" where
  "bound_plan rows t = bound_plan_chain rows (resolution_chain t)"

definition space_for_container :: "routing_document \<Rightarrow> string \<Rightarrow> space_record option" where
  "space_for_container d chat = find (\<lambda>row. sp_container row = chat) (rd_spaces d)"

definition plan :: "routing_document \<Rightarrow> feishu_target \<Rightarrow> bool \<Rightarrow> routing_plan" where
  "plan d t can_provision =
     (case bound_plan (rd_bindings d) t of
        Some (team, matched) \<Rightarrow> Plan_Bound team matched
      | None \<Rightarrow>
         if \<not> is_bindable_target t then Plan_Dispatcher_Not_Bindable
         else if \<not> can_provision \<or> tg_kind t \<noteq> Topic then Plan_Dispatcher_No_Binding
         else (case space_for_container d (tg_chat t) of
                 None \<Rightarrow> Plan_Dispatcher_No_Binding
               | Some space \<Rightarrow> Plan_Provision space))"

definition binding_for :: "routing_document \<Rightarrow> feishu_target \<Rightarrow> binding_record option" where
  "binding_for d t = find_binding (rd_bindings d) t"

definition topic_bindings_for ::
  "routing_document \<Rightarrow> string \<Rightarrow> string option \<Rightarrow> binding_record list" where
  "topic_bindings_for d container team =
     filter (\<lambda>row. tr_kind (b_target row) = Topic \<and> tr_chat (b_target row) = container \<and>
                    Some (b_team row) = team) (rd_bindings d)"

definition space_by_name :: "routing_document \<Rightarrow> string \<Rightarrow> space_record option" where
  "space_by_name d name = find (\<lambda>row. sp_name row = name) (rd_spaces d)"

subsection \<open>Bindings\<close>

datatype routing_error =
    Err_Space_Chat
  | Err_Owned_By_Other
  | Err_Only_Dispatcher
  | Err_Space_Name_Taken string
  | Err_Whole_Chat_Bound string
  | Err_Dir
  | Err_Read
  | Err_Parse
  | Err_Incompatible string

record bind_input =
  bi_target :: feishu_target
  bi_team :: string
  bi_display :: "string option"
  bi_space :: "string option"
  bi_root :: "string option"
  bi_require_owner :: "string option"

record bind_answer =
  ba_previous :: "string option"
  ba_previous_serving :: "string option"
  ba_root :: "string option"

definition owner_mismatch :: "string option \<Rightarrow> string \<Rightarrow> bool" where
  "owner_mismatch require_owner team =
     (case require_owner of None \<Rightarrow> False | Some ow \<Rightarrow> team \<noteq> ow)"

definition bind_mut ::
  "bind_input \<Rightarrow> ms \<Rightarrow> routing_document \<Rightarrow> routing_error + routing_document option \<times> bind_answer"
where
  "bind_mut i now d =
     (let key = target_key (bi_target i);
          serving = map_option fst (bound_plan (rd_bindings d) (bi_target i)) in
      if tg_kind (bi_target i) = Group \<and>
         (\<exists>row \<in> set (rd_spaces d). sp_container row = tg_chat (bi_target i))
      then Inl Err_Space_Chat
      else (case find (\<lambda>row. row_key row = key) (rd_bindings d) of
          Some existing \<Rightarrow>
            if owner_mismatch (bi_require_owner i) (b_team existing)
            then Inl Err_Owned_By_Other
            else
              (let new_root = (case bi_root i of None \<Rightarrow> b_root existing | Some r \<Rightarrow> Some r);
                   ans = \<lparr>ba_previous = Some (b_team existing),
                          ba_previous_serving = serving, ba_root = new_root\<rparr> in
               if b_team existing = bi_team i \<and> b_display existing = bi_display i \<and>
                  b_space existing = bi_space i \<and> b_root existing = new_root
               then Inr (None, ans)
               else Inr (Some (d\<lparr>rd_bindings :=
                       update_first (\<lambda>row. row_key row = key)
                         (\<lambda>row. row\<lparr>b_team := bi_team i, b_display := bi_display i,
                                    b_space := bi_space i, b_root := new_root,
                                    b_updated := now\<rparr>)
                         (rd_bindings d)\<rparr>), ans))
        | None \<Rightarrow>
            Inr (Some (d\<lparr>rd_bindings := rd_bindings d @
                   [\<lparr>b_target = to_record (bi_target i), b_display = bi_display i,
                     b_team = bi_team i, b_space = bi_space i, b_root = bi_root i,
                     b_created = now, b_updated = now\<rparr>]\<rparr>),
                 \<lparr>ba_previous = None, ba_previous_serving = serving, ba_root = bi_root i\<rparr>)))"

definition fill_root_mut ::
  "feishu_target \<Rightarrow> string \<Rightarrow> routing_document \<Rightarrow> routing_error + routing_document option \<times> unit"
where
  "fill_root_mut t msg_root d =
     (case find (\<lambda>row. row_key row = target_key t) (rd_bindings d) of
        None \<Rightarrow> Inr (None, ())
      | Some row \<Rightarrow>
          if b_root row \<noteq> None then Inr (None, ())
          else Inr (Some (d\<lparr>rd_bindings :=
                 update_first (\<lambda>row. row_key row = target_key t)
                   (\<lambda>row. row\<lparr>b_root := Some msg_root\<rparr>) (rd_bindings d)\<rparr>), ()))"

text \<open>
  \<^verbatim>\<open>fillTopicRoot\<close> looks at the last commit first: a target that is not a topic, has no
  row or already has a root is left without a commit.
\<close>

definition fill_wanted :: "feishu_target \<Rightarrow> routing_document \<Rightarrow> bool" where
  "fill_wanted t d \<longleftrightarrow> tg_kind t = Topic \<and>
     (case binding_for d t of None \<Rightarrow> False | Some row \<Rightarrow> b_root row = None)"

record removed_route =
  rr_target :: feishu_target
  rr_display :: "string option"
  rr_root :: "string option"

definition route_of_row :: "binding_record \<Rightarrow> removed_route" where
  "route_of_row row =
     \<lparr>rr_target = from_record (b_target row), rr_display = b_display row, rr_root = b_root row\<rparr>"

text \<open>The scan of \<^verbatim>\<open>unbind\<close>: the rows kept, and the last row of the target.\<close>

fun unbind_scan ::
  "string \<Rightarrow> string option \<Rightarrow> binding_record list \<Rightarrow>
   routing_error + binding_record list \<times> binding_record option" where
  "unbind_scan key require_owner [] = Inr ([], None)"
| "unbind_scan key require_owner (row # rows) =
     (if row_key row \<noteq> key then
        bind_res (unbind_scan key require_owner rows) (\<lambda>(kept, rem). Inr (row # kept, rem))
      else if owner_mismatch require_owner (b_team row) then Inl Err_Only_Dispatcher
      else
        bind_res (unbind_scan key require_owner rows)
          (\<lambda>(kept, rem). Inr (kept, Some (case rem of None \<Rightarrow> row | Some later \<Rightarrow> later))))"

record unbind_answer =
  ua_route :: removed_route
  ua_team :: string
  ua_next_serving :: "string option"

definition unbind_mut ::
  "feishu_target \<Rightarrow> string option \<Rightarrow> routing_document \<Rightarrow>
   routing_error + routing_document option \<times> unbind_answer option" where
  "unbind_mut t require_owner d =
     bind_res (unbind_scan (target_key t) require_owner (rd_bindings d))
       (\<lambda>(kept, rem). case rem of
            None \<Rightarrow> Inr (None, None)
          | Some row \<Rightarrow>
              Inr (Some (d\<lparr>rd_bindings := kept\<rparr>),
                   Some \<lparr>ua_route = route_of_row row, ua_team = b_team row,
                         ua_next_serving = map_option fst (bound_plan kept t)\<rparr>))"

definition forget_team_mut ::
  "string \<Rightarrow> routing_document \<Rightarrow>
   routing_error + routing_document option \<times> (removed_route list \<times> doc_subscription list)" where
  "forget_team_mut team d =
     (let kept = filter (\<lambda>row. b_team row \<noteq> team) (rd_bindings d);
          removed = map route_of_row (filter (\<lambda>row. b_team row = team) (rd_bindings d));
          kept_subs = filter (\<lambda>row. sub_team row \<noteq> Some team) (rd_subscriptions d);
          subs = filter (\<lambda>row. sub_team row = Some team) (rd_subscriptions d);
          changed = (length kept \<noteq> length (rd_bindings d) \<or>
                     length kept_subs \<noteq> length (rd_subscriptions d)) in
      if \<not> changed then Inr (None, (removed, subs))
      else Inr (Some (d\<lparr>rd_bindings := kept, rd_subscriptions := kept_subs\<rparr>), (removed, subs)))"

record binding_view =
  bv_kind :: target_kind
  bv_chat :: string
  bv_thread :: "string option"
  bv_display :: "string option"
  bv_team :: string
  bv_space_name :: "string option"
  bv_created :: ms
  bv_updated :: ms

text \<open>The source's map of spaces by id keeps the last row of an id.\<close>

definition list_bindings :: "routing_document \<Rightarrow> binding_view list" where
  "list_bindings d =
     map (\<lambda>row. \<lparr>bv_kind = tr_kind (b_target row), bv_chat = tr_chat (b_target row),
                 bv_thread = tr_thread (b_target row), bv_display = b_display row,
                 bv_team = b_team row,
                 bv_space_name = (case b_space row of None \<Rightarrow> None
                    | Some sid \<Rightarrow> map_option sp_name
                        (find (\<lambda>sp. sp_id sp = sid) (rev (rd_spaces d)))),
                 bv_created = b_created row, bv_updated = b_updated row\<rparr>)
       (rd_bindings d)"

subsection \<open>Document subscriptions\<close>

definition subscribe_mut ::
  "string \<Rightarrow> string \<Rightarrow> string option \<Rightarrow> ms \<Rightarrow> routing_document \<Rightarrow>
   routing_error + routing_document option \<times> bool" where
  "subscribe_mut token ftype team now d =
     (case find (\<lambda>r. sub_token r = token \<and> sub_team r = team) (rd_subscriptions d) of
        Some _ \<Rightarrow> Inr (None, True)
      | None \<Rightarrow> Inr (Some (d\<lparr>rd_subscriptions := rd_subscriptions d @
            [\<lparr>sub_token = token, sub_type = ftype, sub_team = team, sub_created = now\<rparr>]\<rparr>), False))"

definition unsubscribe_mut ::
  "string \<Rightarrow> string option \<Rightarrow> routing_document \<Rightarrow> routing_error + routing_document option \<times> bool"
where
  "unsubscribe_mut token team d =
     (let kept = filter (\<lambda>r. sub_token r \<noteq> token \<or> sub_team r \<noteq> team) (rd_subscriptions d) in
      if length kept = length (rd_subscriptions d) then Inr (None, False)
      else Inr (Some (d\<lparr>rd_subscriptions := kept\<rparr>), True))"

definition subscribers_for :: "routing_document \<Rightarrow> string \<Rightarrow> doc_subscription list" where
  "subscribers_for d token = filter (\<lambda>r. sub_token r = token) (rd_subscriptions d)"

record subscription_view =
  sv_token :: string
  sv_type :: string
  sv_created :: ms

definition list_subscriptions :: "routing_document \<Rightarrow> string option \<Rightarrow> subscription_view list" where
  "list_subscriptions d team =
     map (\<lambda>r. \<lparr>sv_token = sub_token r, sv_type = sub_type r, sv_created = sub_created r\<rparr>)
       (filter (\<lambda>r. sub_team r = team) (rd_subscriptions d))"

subsection \<open>Collaboration Spaces\<close>

record bind_space_input =
  bs_name :: string
  bs_container :: string
  bs_display :: "string option"
  bs_runtime :: string
  bs_identity :: "string option"
  bs_repo :: "space_repo_policy option"

definition bind_space_mut ::
  "(string \<Rightarrow> string) \<Rightarrow> string \<Rightarrow> string \<Rightarrow> bind_space_input \<Rightarrow> ms \<Rightarrow> routing_document \<Rightarrow>
   routing_error + routing_document option \<times> space_record" where
  "bind_space_mut sha disp chan i now d =
     (let sid = space_id_of sha disp chan (bs_container i) in
      case find (\<lambda>row. sp_name row = bs_name i \<and> sp_id row \<noteq> sid) (rd_spaces d) of
        Some _ \<Rightarrow> Inl (Err_Space_Name_Taken (bs_name i))
      | None \<Rightarrow>
      (case find (\<lambda>row. tr_kind (b_target row) = Group \<and>
                        tr_chat (b_target row) = bs_container i) (rd_bindings d) of
         Some whole \<Rightarrow> Inl (Err_Whole_Chat_Bound (b_team whole))
       | None \<Rightarrow>
       (case find (\<lambda>row. sp_id row = sid) (rd_spaces d) of
          None \<Rightarrow>
            (let created = \<lparr>sp_id = sid, sp_name = bs_name i, sp_container = bs_container i,
                            sp_display = bs_display i, sp_runtime = bs_runtime i,
                            sp_identity = bs_identity i, sp_repo = bs_repo i,
                            sp_created = now, sp_updated = now\<rparr> in
             Inr (Some (d\<lparr>rd_spaces := rd_spaces d @ [created]\<rparr>), created))
        | Some existing \<Rightarrow>
            (let upd = (\<lambda>row. row\<lparr>sp_name := bs_name i, sp_display := bs_display i,
                              sp_runtime := bs_runtime i, sp_identity := bs_identity i,
                              sp_repo := bs_repo i, sp_updated := now\<rparr>) in
             Inr (Some (d\<lparr>rd_spaces := update_first (\<lambda>row. sp_id row = sid) upd (rd_spaces d)\<rparr>),
                  upd existing)))))"

definition unbind_space_mut ::
  "string \<Rightarrow> routing_document \<Rightarrow> routing_error + routing_document option \<times> space_record option"
where
  "unbind_space_mut name d =
     (let kept = filter (\<lambda>row. sp_name row \<noteq> name) (rd_spaces d);
          removed = filter (\<lambda>row. sp_name row = name) (rd_spaces d) in
      if length kept = length (rd_spaces d) then Inr (None, None)
      else Inr (Some (d\<lparr>rd_spaces := kept\<rparr>), Some (last removed)))"

subsection \<open>The operations as changes of the store\<close>

datatype routing_op =
    R_Bind bind_input
  | R_Fill feishu_target string
  | R_Unbind feishu_target "string option"
  | R_Forget string
  | R_Subscribe string string "string option"
  | R_Unsubscribe string "string option"
  | R_Bind_Space bind_space_input
  | R_Unbind_Space string

definition doc_part ::
  "routing_error + routing_document option \<times> 'r \<Rightarrow> routing_error + routing_document option" where
  "doc_part r = (case r of Inl e \<Rightarrow> Inl e | Inr (d, _) \<Rightarrow> Inr d)"

fun routing_mut ::
  "(string \<Rightarrow> string) \<Rightarrow> string \<Rightarrow> string \<Rightarrow> routing_op \<Rightarrow> ms \<Rightarrow> routing_document \<Rightarrow>
   routing_error + routing_document option" where
  "routing_mut sha disp chan (R_Bind i) now d = doc_part (bind_mut i now d)"
| "routing_mut sha disp chan (R_Fill t r) now d =
     (if tg_kind t \<noteq> Topic then Inr None else doc_part (fill_root_mut t r d))"
| "routing_mut sha disp chan (R_Unbind t ow) now d = doc_part (unbind_mut t ow d)"
| "routing_mut sha disp chan (R_Forget team) now d = doc_part (forget_team_mut team d)"
| "routing_mut sha disp chan (R_Subscribe k ty team) now d =
     doc_part (subscribe_mut k ty team now d)"
| "routing_mut sha disp chan (R_Unsubscribe k team) now d = doc_part (unsubscribe_mut k team d)"
| "routing_mut sha disp chan (R_Bind_Space i) now d =
     doc_part (bind_space_mut sha disp chan i now d)"
| "routing_mut sha disp chan (R_Unbind_Space name) now d = doc_part (unbind_space_mut name d)"

text \<open>
  \<^verbatim>\<open>updateRoutingDocument\<close>: the mutator runs on a copy; when it reports a change, the
  directory is checked, the time is stamped and the copy becomes the next value.
\<close>

definition update_routing_document ::
  "(routing_document \<Rightarrow> routing_error + routing_document option) \<Rightarrow> bool \<Rightarrow> ms \<Rightarrow>
   routing_document \<Rightarrow> routing_error + routing_document option" where
  "update_routing_document m dir_ok stamp d =
     (case m d of
        Inl e \<Rightarrow> Inl e
      | Inr None \<Rightarrow> Inr None
      | Inr (Some d') \<Rightarrow>
          if dir_ok then Inr (Some (d'\<lparr>rd_updated := stamp\<rparr>)) else Inl Err_Dir)"

definition routing_change ::
  "(string \<Rightarrow> string) \<Rightarrow> string \<Rightarrow> string \<Rightarrow> routing_op \<Rightarrow> ms \<Rightarrow> bool \<Rightarrow> ms \<Rightarrow>
   routing_document \<Rightarrow> routing_error + routing_document option" where
  "routing_change sha disp chan q now dir_ok stamp =
     update_routing_document (routing_mut sha disp chan q now) dir_ok stamp"

subsection \<open>Loading the file\<close>

text \<open>
  The loader casts the parsed value to the document's type and checks only some fields;
  those have the type \<open>js\<close> here, the others their declared type.
\<close>

record raw_binding =
  rb_target :: target_record
  rb_display :: "string option"
  rb_team :: js
  rb_space :: "string option"
  rb_root :: js
  rb_created :: ms
  rb_updated :: ms

datatype raw_section = Sec_Absent | Sec_Not_Array | Sec_Rows "doc_subscription list"

record raw_document =
  rw_version :: js
  rw_channel :: js
  rw_bindings :: "raw_binding list option"
  rw_spaces :: "space_record list option"
  rw_subscriptions :: raw_section
  rw_updated :: js

datatype routing_file =
    Rf_Unreadable
  | Rf_Bad_Json
  | Rf_Not_Object
  | Rf_Document raw_document

definition validated_binding :: "raw_binding \<Rightarrow> routing_error + binding_record" where
  "validated_binding r =
     (case rb_team r of
        Str team \<Rightarrow>
          (case rb_root r of
             Undef \<Rightarrow> Inr \<lparr>b_target = rb_target r, b_display = rb_display r, b_team = team,
               b_space = rb_space r, b_root = None, b_created = rb_created r,
               b_updated = rb_updated r\<rparr>
           | Null \<Rightarrow> Inr \<lparr>b_target = rb_target r, b_display = rb_display r, b_team = team,
               b_space = rb_space r, b_root = None, b_created = rb_created r,
               b_updated = rb_updated r\<rparr>
           | Str m \<Rightarrow> Inr \<lparr>b_target = rb_target r, b_display = rb_display r, b_team = team,
               b_space = rb_space r, b_root = Some m, b_created = rb_created r,
               b_updated = rb_updated r\<rparr>
           | _ \<Rightarrow> Inl (Err_Incompatible ''a binding row is malformed''))
      | _ \<Rightarrow> Inl (Err_Incompatible ''a binding row is malformed''))"

definition validated :: "string \<Rightarrow> string \<Rightarrow> ms \<Rightarrow> raw_document \<Rightarrow> routing_error + routing_document"
where
  "validated disp chan now r =
     (if rw_version r \<noteq> Num 1 then Inl (Err_Incompatible ''unsupported version'')
      else if rw_channel r \<noteq> Str chan
      then Inl (Err_Incompatible ''routing state belongs to channel'')
      else (case (rw_bindings r, rw_spaces r) of
          (Some bs, Some sps) \<Rightarrow>
            (if rw_subscriptions r = Sec_Not_Array
             then Inl (Err_Incompatible ''routing state is missing a section'')
             else bind_res (map_res validated_binding bs)
               (\<lambda>rows. Inr \<lparr>rd_dispatcher = disp, rd_channel = chan, rd_bindings = rows,
                  rd_spaces = sps,
                  rd_subscriptions =
                    (case rw_subscriptions r of Sec_Rows subs \<Rightarrow> subs | _ \<Rightarrow> []),
                  rd_updated = (case rw_updated r of Num u \<Rightarrow> u | _ \<Rightarrow> now)\<rparr>))
        | _ \<Rightarrow> Inl (Err_Incompatible ''routing state is missing a section'')))"

definition read_routing_document ::
  "string \<Rightarrow> string \<Rightarrow> ms \<Rightarrow> routing_file option \<Rightarrow> routing_error + routing_document" where
  "read_routing_document disp chan now f =
     (case f of
        None \<Rightarrow> Inr (empty_routing_document disp chan now)
      | Some Rf_Unreadable \<Rightarrow> Inl Err_Read
      | Some Rf_Bad_Json \<Rightarrow> Inl Err_Parse
      | Some Rf_Not_Object \<Rightarrow> Inl (Err_Incompatible ''routing state must be an object'')
      | Some (Rf_Document r) \<Rightarrow> validated disp chan now r)"

text \<open>What \<^verbatim>\<open>JSON.stringify\<close> writes of a document.\<close>

definition encode_binding :: "binding_record \<Rightarrow> raw_binding" where
  "encode_binding b =
     \<lparr>rb_target = b_target b, rb_display = b_display b, rb_team = Str (b_team b),
      rb_space = b_space b, rb_root = (case b_root b of None \<Rightarrow> Null | Some m \<Rightarrow> Str m),
      rb_created = b_created b, rb_updated = b_updated b\<rparr>"

definition encode_routing :: "routing_document \<Rightarrow> routing_file" where
  "encode_routing d = Rf_Document
     \<lparr>rw_version = Num 1, rw_channel = Str (rd_channel d),
      rw_bindings = Some (map encode_binding (rd_bindings d)),
      rw_spaces = Some (rd_spaces d), rw_subscriptions = Sec_Rows (rd_subscriptions d),
      rw_updated = Num (rd_updated d)\<rparr>"

lemma validated_encode_binding [simp]: "validated_binding (encode_binding b) = Inr b"
  by (simp add: validated_binding_def encode_binding_def split: option.splits)

lemma map_res_encode [simp]:
  "map_res validated_binding (map encode_binding rows) = Inr rows"
  by (induction rows) auto

lemma read_encode_routing:
  assumes "rd_dispatcher d = disp" "rd_channel d = chan"
  shows "read_routing_document disp chan now (Some (encode_routing d)) = Inr d"
  using assms by (simp add: read_routing_document_def encode_routing_def validated_def)

definition doc_of_session :: "string \<Rightarrow> string \<Rightarrow> routing_document \<Rightarrow> bool" where
  "doc_of_session disp chan d \<longleftrightarrow> rd_dispatcher d = disp \<and> rd_channel d = chan"

lemma read_routing_session:
  "read_routing_document disp chan now f = Inr d \<Longrightarrow> doc_of_session disp chan d"
  by (auto simp: read_routing_document_def validated_def doc_of_session_def
      empty_routing_document_def bind_res_Inr_iff
      split: option.splits routing_file.splits if_splits)

interpretation routing_owner: durable_owner
  "read_routing_document disp chan now" encode_routing "doc_of_session disp chan"
  for disp chan now
  by unfold_locales
    (auto simp: doc_of_session_def read_encode_routing dest: read_routing_session)

end
