(* ===== verification/Feishu_Delivery.thy ===== *)
theory Feishu_Delivery
  imports Feishu_Inbound Feishu_Routing
begin

text \<open>
  What follows the acceptance of a message: \<^verbatim>\<open>inbound/pipeline.ts\<close> \<open>deliverAcceptedMessage\<close> and
  \<open>buildSubmission\<close>, \<^verbatim>\<open>inbound/router.ts\<close>, \<^verbatim>\<open>inbound/target.ts\<close> \<open>project\<close>, \<^verbatim>\<open>feishu-provisioning.ts\<close>,
  \<^verbatim>\<open>session/submitter.ts\<close>, \<^verbatim>\<open>feishu-submit.ts\<close>, the commands of \<^verbatim>\<open>feishu-slash-commands.ts\<close> and
  \<open>bindChannel\<close>, \<open>forgetTeamRoutes\<close> of \<^verbatim>\<open>routing/operations.ts\<close>, over the inbox, the peer bots and the
  routing document.

  A delivery is cut at its awaits as the messages of the inbox are.  What Core answers, what the platform
  answers and how a write ends is part of the input.  Cards, log lines and the progress presentation are left out.
\<close>

subsection \<open>What Core answers\<close>

datatype reject_code = Team_Not_Found | Team_Closed

datatype receipt_status = Rs_Submitted | Rs_Duplicate | Rs_Stopped | Rs_Failed | Rs_Ambiguous

datatype core_answer = Ca_Receipt receipt_status "string option" | Ca_Thrown "string option"

datatype submit_outcome =
    So_Submitted "string option"
  | So_Duplicate
  | So_Stopped
  | So_Failed
  | So_Ambiguous
  | So_Rejected reject_code
  | So_Error
  | So_Unsubmitted

definition submit_outcome_of :: "receipt_status \<Rightarrow> string option \<Rightarrow> submit_outcome" where
  "submit_outcome_of st turn =
     (case st of
        Rs_Submitted \<Rightarrow> So_Submitted turn
      | Rs_Duplicate \<Rightarrow> So_Duplicate
      | Rs_Stopped \<Rightarrow> So_Stopped
      | Rs_Failed \<Rightarrow> So_Failed
      | Rs_Ambiguous \<Rightarrow> So_Ambiguous)"

definition submit_outcome_for :: "core_answer \<Rightarrow> submit_outcome" where
  "submit_outcome_for a =
     (case a of
        Ca_Receipt st turn \<Rightarrow> submit_outcome_of st turn
      | Ca_Thrown code \<Rightarrow>
          if code = Some ''TEAM_NOT_FOUND'' then So_Rejected Team_Not_Found
          else if code = Some ''TEAM_CLOSED'' then So_Rejected Team_Closed
          else So_Error)"

definition submission_proves_no_admission :: "submit_outcome \<Rightarrow> bool" where
  "submission_proves_no_admission o' \<longleftrightarrow>
     (case o' of So_Rejected _ \<Rightarrow> True | So_Failed \<Rightarrow> True | So_Stopped \<Rightarrow> True | _ \<Rightarrow> False)"

datatype report_kind = Rk_Submitted | Rk_Not_Admitted | Rk_Rejected | Rk_Ambiguous | Rk_Failed

definition describe_submit_outcome :: "submit_outcome \<Rightarrow> report_kind" where
  "describe_submit_outcome o' =
     (case o' of
        So_Submitted _ \<Rightarrow> Rk_Submitted
      | So_Duplicate \<Rightarrow> Rk_Not_Admitted
      | So_Stopped \<Rightarrow> Rk_Not_Admitted
      | So_Rejected _ \<Rightarrow> Rk_Rejected
      | So_Ambiguous \<Rightarrow> Rk_Ambiguous
      | So_Failed \<Rightarrow> Rk_Failed
      | _ \<Rightarrow> Rk_Failed)"

datatype removal_notice = Rn_Team_Closed | Rn_Route_Ended | Rn_Silent

definition rejected_delivery_notice :: "reject_code \<Rightarrow> removal_notice" where
  "rejected_delivery_notice code = (if code = Team_Closed then Rn_Route_Ended else Rn_Silent)"

subsection \<open>What is asked of Core\<close>

text \<open>The Team a topic is provisioned with.\<close>

record create_command =
  cc_request :: string
  cc_prefix :: string
  cc_intent :: string
  cc_runtime :: string
  cc_identity :: string
  cc_repo :: "space_repo_policy option"

definition new_line :: string where "new_line = [CHR 0x0A]"

definition join_lines :: "string list \<Rightarrow> string" where
  "join_lines ls = (case ls of [] \<Rightarrow> [] | l # rest \<Rightarrow> l @ concat (map (\<lambda>x. new_line @ x) rest))"

definition leader_guidance :: "string \<Rightarrow> string \<Rightarrow> string" where
  "leader_guidance chat msg = join_lines
     [''This Team was automatically created for a topic in the Feishu channel'' @ [CHR 0x27] @ ''s'',
      ''bound collaboration-space chat.'',
      ''chat_id: '' @ chat,
      ''message_id: '' @ msg @ '' (the message that initially triggered Team'',
      ''creation)'',
      ''When using the reply tool in this bound conversation, use the message_id'',
      ''visible in the current context. If no other message_id is visible, you'',
      ''MUST pass the initial message_id above. Never omit message_id.'']"

definition leader_identity :: "string option \<Rightarrow> string \<Rightarrow> string \<Rightarrow> string" where
  "leader_identity configured chat msg =
     (case configured of
        None \<Rightarrow> leader_guidance chat msg
      | Some c \<Rightarrow> c @ new_line @ new_line @ leader_guidance chat msg)"

definition create_command_of :: "space_record \<Rightarrow> feishu_target \<Rightarrow> string \<Rightarrow> create_command" where
  "create_command_of space t msg =
     \<lparr> cc_request = msg, cc_prefix = team_name_prefix (sp_display space),
       cc_intent = target_intent None (case tg_thread t of Some th \<Rightarrow> th | None \<Rightarrow> tg_chat t),
       cc_runtime = sp_runtime space, cc_identity = leader_identity (sp_identity space) (tg_chat t) msg,
       cc_repo = sp_repo space \<rparr>"

record team_facts =
  tf_name :: string
  tf_closed :: bool
  tf_leader :: string
  tf_runtime :: string
  tf_cwd :: string
  tf_leader_state :: bool

text \<open>Why a bind of a chat is refused before anything is written.\<close>

datatype bind_refusal = Br_Direct_Chat | Br_Closed | Br_No_Leader

definition bind_refused :: "team_facts \<Rightarrow> bind_refusal option" where
  "bind_refused t =
     (if tf_closed t then Some Br_Closed
      else if tf_name t = [] \<or> tf_leader t = [] \<or> tf_runtime t = [] \<or> tf_cwd t = [] \<or> \<not> tf_leader_state t
      then Some Br_No_Leader
      else None)"

datatype core_call = Cc_Status string | Cc_Dissolve string | Cc_Interrupt "string option" | Cc_List

datatype slash_reply = Sr_Text | Sr_Card | Sr_Silent

subsection \<open>A delivery and its session\<close>

datatype recipient = To_Dispatcher | To_Team string

text \<open>What the outcome of a submission means to the one who waits for it.\<close>

datatype errand = Er_Bound string | Er_Final | Er_Run

datatype delivery_end =
    De_Done submit_outcome
  | De_Closed submit_outcome
  | De_Replied slash_reply
  | De_Aborted
  | De_Failed
  | De_Lost

datatype handoff_phase =
    Dp_Target
  | Dp_Root bool
  | Dp_Core core_call
  | Dp_Bind_Chat string
  | Dp_Reply slash_reply
  | Dp_Enrich
  | Dp_Snapshot
  | Dp_Format "pending_baseline option"
  | Dp_Handed errand
  | Dp_Forget string reject_code
  | Dp_Create create_command
  | Dp_Bind_Topic string
  | Dp_Join nat
  | Dp_Notice submit_outcome
  | Dp_Clear rat submit_outcome
  | Dp_Over delivery_end

text \<open>
  \<open>dl_plan\<close>, \<open>dl_asked\<close> (to whom the message was handed, the routing document of that moment and what was
  answered) and \<open>dl_shown\<close> (the bots the message introduces) are ghosts.
\<close>

record handoff =
  dl_event :: inbound_event
  dl_command :: "(slash_name \<times> string list) option"
  dl_phase :: handoff_phase
  dl_target :: feishu_target
  dl_can :: bool
  dl_clear :: "rat option"
  dl_shown :: "peer_bot list"
  dl_plan :: "routing_plan option"
  dl_asked :: "(recipient \<times> routing_document option \<times> submit_outcome option) list"

record hub =
  hb_inbox :: inbox
  hb_routes :: "(routing_document, routing_file) tstore"
  hb_owner :: "string \<times> string"
  hb_sha :: "string \<Rightarrow> string"
  hb_live :: bool
  hb_runs :: "string \<Rightarrow> nat option"
  hb_jobs :: "nat \<Rightarrow> handoff option"

definition job_update :: "nat \<Rightarrow> (handoff \<Rightarrow> handoff) \<Rightarrow> hub \<Rightarrow> hub" where
  "job_update i f h =
     (case hb_jobs h i of None \<Rightarrow> h | Some d \<Rightarrow> h\<lparr>hb_jobs := (hb_jobs h)(i \<mapsto> f d)\<rparr>)"

definition job_phase :: "nat \<Rightarrow> handoff_phase \<Rightarrow> hub \<Rightarrow> hub" where
  "job_phase i p = job_update i (\<lambda>d. d\<lparr>dl_phase := p\<rparr>)"

text \<open>\<open>assertSessionActive\<close> ends a delivery of a closed session; its error is swallowed.\<close>

definition if_active :: "nat \<Rightarrow> (hub \<Rightarrow> hub) \<Rightarrow> hub \<Rightarrow> hub" where
  "if_active i f h = (if hb_live h then f h else job_phase i (Dp_Over De_Aborted) h)"

type_synonym commit_io = "ms \<times> bool \<times> ms \<times> bool"

definition routes_update :: "routing_op \<Rightarrow> commit_io \<Rightarrow> hub \<Rightarrow> bool \<times> hub" where
  "routes_update q io h =
     (case io of (now, dir_ok, stamp, ok) \<Rightarrow>
        (case store_update (read_routing_document (fst (hb_owner h)) (snd (hb_owner h)) now) encode_routing
                (routing_change (hb_sha h) (fst (hb_owner h)) (snd (hb_owner h)) q now dir_ok stamp) ok (\<lambda>_ _. None)
                (hb_routes h) of
           (r, st) \<Rightarrow> (isl r, h\<lparr>hb_routes := st\<rparr>)))"

text \<open>The routes as they are in memory; \<open>None\<close> where \<^verbatim>\<open>store.current\<close> throws.\<close>

definition routes_now :: "hub \<Rightarrow> routing_document option" where
  "routes_now h = slot (hb_routes h)"

subsection \<open>The end of a delivery\<close>

text \<open>What a delivery does with its outcome.\<close>

definition finish_delivery :: "nat \<Rightarrow> submit_outcome \<Rightarrow> hub \<Rightarrow> hub" where
  "finish_delivery i o' h =
     (case hb_jobs h i of
        None \<Rightarrow> h
      | Some d \<Rightarrow>
          if \<not> hb_live h then job_phase i (Dp_Over (De_Closed o')) h
          else
            (case (o', dl_clear d) of
               (So_Unsubmitted, _) \<Rightarrow> job_phase i (Dp_Notice o') h
             | (So_Rejected _, _) \<Rightarrow> job_phase i (Dp_Notice o') h
             | (So_Submitted _, Some g) \<Rightarrow> job_phase i (Dp_Clear g o') h
             | _ \<Rightarrow> job_phase i (Dp_Over (De_Done o')) h))"

text \<open>The run of a topic is over: its entry leaves the map, if it is still its own.\<close>

definition end_run :: "nat \<Rightarrow> hub \<Rightarrow> hub" where
  "end_run i h =
     (case hb_jobs h i of
        None \<Rightarrow> h
      | Some d \<Rightarrow>
          if hb_runs h (target_key (dl_target d)) = Some i
          then h\<lparr>hb_runs := (hb_runs h)(target_key (dl_target d) := None)\<rparr> else h)"

definition settle_errand :: "nat \<Rightarrow> errand \<Rightarrow> submit_outcome \<Rightarrow> hub \<Rightarrow> hub" where
  "settle_errand i er o' h =
     (case er of
        Er_Bound team \<Rightarrow>
          (case o' of
             So_Rejected code \<Rightarrow> job_phase i (Dp_Forget team code) h
           | _ \<Rightarrow> finish_delivery i o' h)
      | Er_Final \<Rightarrow> finish_delivery i o' h
      | Er_Run \<Rightarrow> finish_delivery i o' (end_run i h))"

text \<open>\<open>FeishuTeamSubmitter.submit\<close>: nothing is asked of Core once the session has ended.\<close>

definition hand_over :: "nat \<Rightarrow> recipient \<Rightarrow> errand \<Rightarrow> hub \<Rightarrow> hub" where
  "hand_over i r er h =
     (if \<not> hb_live h then settle_errand i er So_Error h
      else job_update i (\<lambda>d. d\<lparr>dl_phase := Dp_Handed er, dl_asked := dl_asked d @ [(r, routes_now h, None)]\<rparr>) h)"

text \<open>\<open>provisionForInbound\<close>: the first message of a topic runs, the others wait for it.\<close>

definition provision_for_inbound :: "nat \<Rightarrow> space_record \<Rightarrow> hub \<Rightarrow> hub" where
  "provision_for_inbound i space h =
     (case hb_jobs h i of
        None \<Rightarrow> h
      | Some d \<Rightarrow>
          (let key = target_key (dl_target d) in
           case hb_runs h key of
             Some r \<Rightarrow> job_phase i (Dp_Join r) h
           | None \<Rightarrow>
               job_phase i (Dp_Create (create_command_of space (dl_target d) (ie_message (dl_event d))))
                 (h\<lparr>hb_runs := (hb_runs h)(key \<mapsto> i)\<rparr>)))"

definition deliver_message :: "nat \<Rightarrow> hub \<Rightarrow> hub" where
  "deliver_message i h =
     (case (hb_jobs h i, routes_now h) of
        (Some d, Some doc) \<Rightarrow>
          (let p = plan doc (dl_target d) (dl_can d); h' = job_update i (\<lambda>d. d\<lparr>dl_plan := Some p\<rparr>) h in
           case p of
             Plan_Bound team _ \<Rightarrow> hand_over i (To_Team team) (Er_Bound team) h'
           | Plan_Provision space \<Rightarrow> provision_for_inbound i space h'
           | _ \<Rightarrow> hand_over i To_Dispatcher Er_Final h')
      | (_, None) \<Rightarrow> job_phase i (Dp_Over De_Failed) h
      | _ \<Rightarrow> h)"

subsection \<open>From acceptance to submission\<close>

definition delivery_starts :: "nat \<Rightarrow> hub \<Rightarrow> hub" where
  "delivery_starts i h =
     (case message_at (hb_inbox h) i of
        Some (e, Mp_Accepted c) \<Rightarrow>
          if hb_jobs h i \<noteq> None then h
          else
            h\<lparr>hb_jobs := (hb_jobs h)(i \<mapsto>
              \<lparr> dl_event = e, dl_command = c, dl_phase = (if hb_live h then Dp_Target else Dp_Over De_Aborted),
                dl_target = message_target \<lparr> pl_chat = ie_chat e, pl_chat_type = Some (ie_chat_type e), pl_thread = ie_thread e \<rparr>,
                dl_can = False, dl_clear = None, dl_shown = [], dl_plan = None, dl_asked = [] \<rparr>)\<rparr>
      | _ \<Rightarrow> h)"

text \<open>
  The projection answers with the chat's mode (\<open>None\<close> where it is unknown), or runs into its deadline.  Only a
  topic of a chat in the topic format may be provisioned.
\<close>

definition target_projected :: "nat \<Rightarrow> string option option \<Rightarrow> hub \<Rightarrow> hub" where
  "target_projected i mode h =
     (case hb_jobs h i of
        Some d \<Rightarrow>
          if dl_phase d \<noteq> Dp_Target then h
          else if_active i (\<lambda>h::hub.
            (case (mode, routes_now h) of
               (Some m, Some doc) \<Rightarrow>
                 job_update i (\<lambda>d. d\<lparr>dl_can := (tg_kind (dl_target d) = Topic \<and> m = Some ''topic''),
                   dl_phase := Dp_Root (fill_wanted (dl_target d) doc)\<rparr>) h
             | (Some m, None) \<Rightarrow>
                 job_update i (\<lambda>d. d\<lparr>dl_can := (tg_kind (dl_target d) = Topic \<and> m = Some ''topic''),
                   dl_phase := Dp_Root False\<rparr>) h
             | (None, _) \<Rightarrow> job_phase i (Dp_Over De_Failed) h)) h
      | None \<Rightarrow> h)"

subsection \<open>Slash commands\<close>

text \<open>A command with the plan of its conversation; what is left is an answer of Core, or the reply.\<close>

definition run_command :: "nat \<Rightarrow> slash_name \<Rightarrow> string list \<Rightarrow> routing_plan \<Rightarrow> hub \<Rightarrow> hub" where
  "run_command i n args p h =
     (case hb_jobs h i of
        None \<Rightarrow> h
      | Some d \<Rightarrow>
         (case n of
            Sl_Bind \<Rightarrow>
              (case args of
                 [] \<Rightarrow> job_phase i (Dp_Reply Sr_Text) h
               | team # _ \<Rightarrow>
                   if \<not> is_bindable_target (containing_chat (dl_target d)) then job_phase i (Dp_Reply Sr_Text) h
                   else job_phase i (Dp_Core (Cc_Status team)) h)
          | Sl_Dissolve \<Rightarrow>
              (case p of
                 Plan_Bound team _ \<Rightarrow> job_phase i (Dp_Core (Cc_Dissolve team)) h
               | _ \<Rightarrow> job_phase i (Dp_Reply Sr_Text) h)
          | Sl_Help \<Rightarrow> job_phase i (Dp_Reply Sr_Text) h
          | Sl_Stop \<Rightarrow>
              (case p of
                 Plan_Provision _ \<Rightarrow> job_phase i (Dp_Reply Sr_Text) h
               | Plan_Bound team _ \<Rightarrow> job_phase i (Dp_Core (Cc_Interrupt (Some team))) h
               | _ \<Rightarrow> job_phase i (Dp_Core (Cc_Interrupt None)) h)
          | Sl_Teams \<Rightarrow> job_phase i (Dp_Core Cc_List) h))"

text \<open>After the root of the topic was learned, or could not be: a command runs, a message is prepared.\<close>

definition root_learned :: "nat \<Rightarrow> commit_io \<Rightarrow> hub \<Rightarrow> hub" where
  "root_learned i io h =
     (case hb_jobs h i of
        Some d \<Rightarrow>
          (case dl_phase d of
             Dp_Root wanted \<Rightarrow>
               (let root = (case ie_root (dl_event d) of Some r \<Rightarrow> r | None \<Rightarrow> ie_message (dl_event d));
                    h1 = (if wanted then snd (routes_update (R_Fill (dl_target d) root) io h) else h) in
                if_active i (\<lambda>h.
                  (case dl_command d of
                     None \<Rightarrow> job_phase i Dp_Enrich h
                   | Some (n, args) \<Rightarrow>
                       (case routes_now h of
                          None \<Rightarrow> job_phase i (Dp_Over De_Failed) h
                        | Some doc \<Rightarrow> run_command i n args (plan doc (dl_target d) (dl_can d)) h))) h1)
           | _ \<Rightarrow> h)
      | None \<Rightarrow> h)"

text \<open>Core's answer to a command; \<open>None\<close> is an error, which becomes a text.\<close>

definition reply_with :: "nat \<Rightarrow> slash_reply \<Rightarrow> hub \<Rightarrow> hub" where
  "reply_with i r = if_active i (\<lambda>h. job_phase i (if r = Sr_Silent then Dp_Over (De_Replied r) else Dp_Reply r) h)"

definition core_replied :: "nat \<Rightarrow> team_facts option option \<Rightarrow> hub \<Rightarrow> hub" where
  "core_replied i ans h =
     (case hb_jobs h i of
        Some d \<Rightarrow>
          (case dl_phase d of
             Dp_Core (Cc_Status team) \<Rightarrow>
               (case ans of
                  Some (Some facts) \<Rightarrow>
                    if bind_refused facts = None then job_phase i (Dp_Bind_Chat team) h else reply_with i Sr_Text h
                | _ \<Rightarrow> reply_with i Sr_Text h)
           | Dp_Core (Cc_Dissolve _) \<Rightarrow> reply_with i (if ans = None then Sr_Text else Sr_Silent) h
           | Dp_Core (Cc_Interrupt _) \<Rightarrow> reply_with i Sr_Text h
           | Dp_Core Cc_List \<Rightarrow> reply_with i (if ans = None then Sr_Text else Sr_Card) h
           | _ \<Rightarrow> h)
      | None \<Rightarrow> h)"

definition bind_of :: "feishu_target \<Rightarrow> string \<Rightarrow> string option \<Rightarrow> string option \<Rightarrow> bind_input" where
  "bind_of t team space msg =
     \<lparr> bi_target = t, bi_team = team, bi_display = None, bi_space = space, bi_root = msg, bi_require_owner = None \<rparr>"

definition chat_bound :: "nat \<Rightarrow> commit_io \<Rightarrow> hub \<Rightarrow> hub" where
  "chat_bound i io h =
     (case hb_jobs h i of
        Some d \<Rightarrow>
          (case dl_phase d of
             Dp_Bind_Chat team \<Rightarrow>
               (case routes_update (R_Bind (bind_of (containing_chat (dl_target d)) team None None)) io h of
                  (failed, h') \<Rightarrow> reply_with i (if failed then Sr_Text else Sr_Silent) h')
           | _ \<Rightarrow> h)
      | None \<Rightarrow> h)"

text \<open>A reply or a notice was sent, or could not be.\<close>

definition reply_sent :: "nat \<Rightarrow> bool \<Rightarrow> hub \<Rightarrow> hub" where
  "reply_sent i ok h =
     (case hb_jobs h i of
        Some d \<Rightarrow>
          (case dl_phase d of
             Dp_Reply r \<Rightarrow> job_phase i (Dp_Over (if ok then De_Replied r else De_Failed)) h
           | Dp_Notice o' \<Rightarrow> job_phase i (Dp_Over (if ok then De_Done o' else De_Failed)) h
           | _ \<Rightarrow> h)
      | None \<Rightarrow> h)"

subsection \<open>The submission\<close>

text \<open>Sender name and parent message were looked up; \<open>False\<close> is an error.\<close>

definition message_enriched :: "nat \<Rightarrow> bool \<Rightarrow> hub \<Rightarrow> hub" where
  "message_enriched i ok h =
     (case hb_jobs h i of
        Some d \<Rightarrow>
          if dl_phase d \<noteq> Dp_Enrich then h
          else if_active i (job_phase i
            (if \<not> ok then Dp_Over De_Failed
             else if ie_chat_type (dl_event d) = ''group'' then Dp_Snapshot else Dp_Format None)) h
      | None \<Rightarrow> h)"

text \<open>The pending context of the chat is shown only while it is pending and names a bot.\<close>

definition baseline_read :: "nat \<Rightarrow> hub \<Rightarrow> hub" where
  "baseline_read i h =
     (case hb_jobs h i of
        Some d \<Rightarrow>
          if dl_phase d \<noteq> Dp_Snapshot then h
          else
            (case store_load load_chat_bots (bx_bots (hb_inbox h)) of
               (Inl _, st) \<Rightarrow> job_phase i (Dp_Over De_Failed) (h\<lparr>hb_inbox := (hb_inbox h)\<lparr>bx_bots := st\<rparr>\<rparr>)
             | (Inr v, st) \<Rightarrow>
                 (let b = pending_baseline_of (ie_chat (dl_event d)) v in
                  job_phase i (Dp_Format (if pn_needs b \<and> pn_trusted b \<noteq> [] then Some b else None))
                    (h\<lparr>hb_inbox := (hb_inbox h)\<lparr>bx_bots := st\<rparr>\<rparr>)))
      | None \<Rightarrow> h)"

text \<open>The body was built, with or without room for the bots (\<open>None\<close>: it could not be), and is handed over.\<close>

definition message_formatted :: "nat \<Rightarrow> bool option \<Rightarrow> hub \<Rightarrow> hub" where
  "message_formatted i rendered h =
     (case hb_jobs h i of
        Some d \<Rightarrow>
          (case dl_phase d of
             Dp_Format inject \<Rightarrow>
               if_active i (\<lambda>h.
                 (case rendered of
                    None \<Rightarrow> job_phase i (Dp_Over De_Failed) h
                  | Some shown \<Rightarrow>
                      (case inject of
                         Some b \<Rightarrow>
                           deliver_message i (job_update i (\<lambda>d. d\<lparr>dl_clear := (if shown then Some (pn_generation b) else None),
                             dl_shown := (if shown then pn_trusted b else []), dl_phase := Dp_Format None\<rparr>) h)
                       | None \<Rightarrow> deliver_message i h))) h
           | _ \<Rightarrow> h)
      | None \<Rightarrow> h)"

fun put_answer :: "submit_outcome \<Rightarrow> (recipient \<times> routing_document option \<times> submit_outcome option) list \<Rightarrow>
    (recipient \<times> routing_document option \<times> submit_outcome option) list" where
  "put_answer o' [] = []"
| "put_answer o' [(r, doc, _)] = [(r, doc, Some o')]"
| "put_answer o' (x # y # xs) = x # put_answer o' (y # xs)"

definition submission_answered :: "nat \<Rightarrow> core_answer \<Rightarrow> hub \<Rightarrow> hub" where
  "submission_answered i ans h =
     (case hb_jobs h i of
        Some d \<Rightarrow>
          (case dl_phase d of
             Dp_Handed er \<Rightarrow>
               settle_errand i er (submit_outcome_for ans)
                 (job_update i (\<lambda>d. d\<lparr>dl_asked := put_answer (submit_outcome_for ans) (dl_asked d)\<rparr>) h)
           | _ \<Rightarrow> h)
      | None \<Rightarrow> h)"

text \<open>\<open>forgetTeamRoutes\<close> never throws: a write that fails leaves the routes, and the fallback goes on.\<close>

definition routes_forgotten :: "nat \<Rightarrow> commit_io \<Rightarrow> hub \<Rightarrow> hub" where
  "routes_forgotten i io h =
     (case hb_jobs h i of
        Some d \<Rightarrow>
          (case dl_phase d of
             Dp_Forget team code \<Rightarrow> hand_over i To_Dispatcher Er_Final (snd (routes_update (R_Forget team) io h))
           | _ \<Rightarrow> h)
      | None \<Rightarrow> h)"

text \<open>\<open>team.create\<close> answered with the Team's name and whether it is closed, or failed.\<close>

definition run_fails :: "nat \<Rightarrow> hub \<Rightarrow> hub" where
  "run_fails i h = settle_errand i Er_Run So_Unsubmitted h"

definition team_created :: "nat \<Rightarrow> (string \<times> bool) option \<Rightarrow> hub \<Rightarrow> hub" where
  "team_created i ans h =
     (case hb_jobs h i of
        Some d \<Rightarrow>
          (case dl_phase d of
             Dp_Create c \<Rightarrow>
               (case ans of
                  Some (team, is_closed) \<Rightarrow> if is_closed \<or> team = [] then run_fails i h else job_phase i (Dp_Bind_Topic team) h
                | None \<Rightarrow> run_fails i h)
           | _ \<Rightarrow> h)
      | None \<Rightarrow> h)"

text \<open>The bind carries the space of the policy snapshot; the submission goes to the Team just bound.\<close>

definition topic_bound :: "nat \<Rightarrow> commit_io \<Rightarrow> hub \<Rightarrow> hub" where
  "topic_bound i io h =
     (case hb_jobs h i of
        Some d \<Rightarrow>
          (case (dl_phase d, dl_plan d) of
             (Dp_Bind_Topic team, Some (Plan_Provision space)) \<Rightarrow>
               (case routes_update (R_Bind (bind_of (dl_target d) team (Some (sp_id space)) (Some (ie_message (dl_event d))))) io h of
                  (failed, h') \<Rightarrow> if failed then run_fails i h' else hand_over i (To_Team team) Er_Run h')
           | _ \<Rightarrow> h)
      | None \<Rightarrow> h)"

text \<open>One that waited goes on when the run it waited for is over.\<close>

definition run_joined :: "nat \<Rightarrow> hub \<Rightarrow> hub" where
  "run_joined i h =
     (case hb_jobs h i of
        Some d \<Rightarrow>
          (case dl_phase d of
             Dp_Join r \<Rightarrow>
               if hb_runs h (target_key (dl_target d)) = Some r then h
               else
                 (case routes_now h of
                    None \<Rightarrow> job_phase i (Dp_Over De_Failed) h
                  | Some doc \<Rightarrow>
                      (case binding_for doc (dl_target d) of
                         None \<Rightarrow> finish_delivery i So_Unsubmitted h
                       | Some b \<Rightarrow> hand_over i (To_Team (b_team b)) Er_Final h))
           | _ \<Rightarrow> h)
      | None \<Rightarrow> h)"

definition baseline_cleared :: "nat \<Rightarrow> bool \<Rightarrow> hub \<Rightarrow> hub" where
  "baseline_cleared i ok h =
     (case hb_jobs h i of
        Some d \<Rightarrow>
          (case dl_phase d of
             Dp_Clear g o' \<Rightarrow>
               (case bots_update (clear_change (ie_chat (dl_event d)) g) ok (hb_inbox h) of
                  (failed, s) \<Rightarrow> job_phase i (Dp_Over (if failed then De_Failed else De_Done o')) (h\<lparr>hb_inbox := s\<rparr>))
           | _ \<Rightarrow> h)
      | None \<Rightarrow> h)"

subsection \<open>Any interleaving\<close>

text \<open>
  An input of the inbox that accepts a message starts its delivery in the same stretch.  \<open>Hb_Route\<close> is any
  other change of the routes: a tool of a Team or the Dispatcher, or the final event of a Team.
\<close>

datatype hub_input =
    Hb_Inbox inbox_input
  | Hb_Target nat "string option option"
  | Hb_Root nat commit_io
  | Hb_Core nat "team_facts option option"
  | Hb_Chat_Bound nat commit_io
  | Hb_Sent nat bool
  | Hb_Enriched nat bool
  | Hb_Baseline nat
  | Hb_Formatted nat "bool option"
  | Hb_Answered nat core_answer
  | Hb_Forgotten nat commit_io
  | Hb_Created nat "(string \<times> bool) option"
  | Hb_Topic_Bound nat commit_io
  | Hb_Joined nat
  | Hb_Cleared nat bool
  | Hb_Route routing_op commit_io
  | Hb_Closed
  | Hb_Restart ms

definition hub_restarts :: "ms \<Rightarrow> hub \<Rightarrow> hub" where
  "hub_restarts now h =
     h\<lparr>hb_inbox := inbox_restarts (hb_inbox h),
       hb_routes := snd (store_load (read_routing_document (fst (hb_owner h)) (snd (hb_owner h)) now)
         (fresh_store (disk (hb_routes h)))), hb_live := True,
       hb_runs := (\<lambda>_. None),
       hb_jobs := (\<lambda>i. map_option (\<lambda>d. case dl_phase d of Dp_Over _ \<Rightarrow> d | _ \<Rightarrow> d\<lparr>dl_phase := Dp_Over De_Lost\<rparr>) (hb_jobs h i))\<rparr>"

definition inbox_moves :: "inbox_input \<Rightarrow> hub \<Rightarrow> hub" where
  "inbox_moves q h =
     (case q of
        In_Cleared _ _ _ \<Rightarrow> h
      | In_Restart \<Rightarrow> h
      | In_Gate i _ _ _ \<Rightarrow> delivery_starts i (h\<lparr>hb_inbox := inbox_do q (hb_inbox h)\<rparr>)
      | _ \<Rightarrow> h\<lparr>hb_inbox := inbox_do q (hb_inbox h)\<rparr>)"

fun hub_do :: "hub_input \<Rightarrow> hub \<Rightarrow> hub" where
  "hub_do (Hb_Inbox q) h = inbox_moves q h"
| "hub_do (Hb_Target i mode) h = target_projected i mode h"
| "hub_do (Hb_Root i io) h = root_learned i io h"
| "hub_do (Hb_Core i ans) h = core_replied i ans h"
| "hub_do (Hb_Chat_Bound i io) h = chat_bound i io h"
| "hub_do (Hb_Sent i ok) h = reply_sent i ok h"
| "hub_do (Hb_Enriched i ok) h = message_enriched i ok h"
| "hub_do (Hb_Baseline i) h = baseline_read i h"
| "hub_do (Hb_Formatted i r) h = message_formatted i r h"
| "hub_do (Hb_Answered i ans) h = submission_answered i ans h"
| "hub_do (Hb_Forgotten i io) h = routes_forgotten i io h"
| "hub_do (Hb_Created i ans) h = team_created i ans h"
| "hub_do (Hb_Topic_Bound i io) h = topic_bound i io h"
| "hub_do (Hb_Joined i) h = run_joined i h"
| "hub_do (Hb_Cleared i ok) h = baseline_cleared i ok h"
| "hub_do (Hb_Route q io) h = snd (routes_update q io h)"
| "hub_do Hb_Closed h = h\<lparr>hb_live := False\<rparr>"
| "hub_do (Hb_Restart now) h = hub_restarts now h"

definition hub_run :: "hub_input list \<Rightarrow> hub \<Rightarrow> hub" where
  "hub_run qs h = fold hub_do qs h"

text \<open>A session opens over the files it finds; its routes are loaded before anything is admitted.\<close>

definition open_hub :: "string option \<Rightarrow> (string \<Rightarrow> string list) \<Rightarrow> json_file option \<Rightarrow> json_file option \<Rightarrow>
    string \<times> string \<Rightarrow> (string \<Rightarrow> string) \<Rightarrow> ms \<Rightarrow> routing_file option \<Rightarrow> hub" where
  "open_hub self parser fa fb owner sha now fr =
     \<lparr> hb_inbox = new_inbox self parser fa fb,
       hb_routes = snd (store_load (read_routing_document (fst owner) (snd owner) now) (fresh_store fr)),
       hb_owner = owner, hb_sha = sha, hb_live = True, hb_runs = (\<lambda>_. None), hb_jobs = (\<lambda>_. None) \<rparr>"

end
