(* ===== verification/Feishu_Inbound_Props.thy ===== *)
theory Feishu_Inbound_Props
  imports Feishu_Inbound
begin

text \<open>
  What the acceptance of messages keeps: nothing is accepted that the gate did not admit, a bot only after an
  introduction that the policy allowed; and what introductions, observations and clears do to the bots of a chat.
\<close>

subsection \<open>The peer bots on disk\<close>

definition bots_of :: "inbox \<Rightarrow> bots_state" where
  "bots_of s = projr (load_chat_bots (disk (bx_bots s)))"

lemma load_chat_bots_total: "load_chat_bots f = Inr (projr (load_chat_bots f))"
  by (auto simp: load_chat_bots_def split: option.split json_file.split)

lemma bots_of_ok [simp]: "bots_ok (bots_of s)"
  unfolding bots_of_def by (rule peer_bots_owner.load_valid [OF load_chat_bots_total])

definition bots_store_ok :: "inbox \<Rightarrow> bool" where
  "bots_store_ok s \<longleftrightarrow> store_ok load_chat_bots bots_ok (bx_bots s)"

lemma load_bots:
  assumes "bots_store_ok s"
  shows "store_load load_chat_bots (bx_bots s) = (Inr (bots_of s), (bx_bots s)\<lparr>slot := Some (bots_of s)\<rparr>)"
proof (cases "slot (bx_bots s)")
  case None
  obtain v where "load_chat_bots (disk (bx_bots s)) = Inr v" using load_chat_bots_total by blast
  then show ?thesis using None by (simp add: store_load_def bots_of_def)
next
  case (Some v)
  then have "load_chat_bots (disk (bx_bots s)) = Inr v" using assms by (simp add: bots_store_ok_def store_ok_def)
  then show ?thesis using Some by (simp add: store_load_def bots_of_def)
qed

text \<open>An update commits the change of what is on disk, or leaves the file as it is.\<close>

lemma bots_update_cases:
  assumes ok: "bots_store_ok s" and keep: "\<And>w. c (bots_of s) = Some w \<Longrightarrow> bots_ok w"
    and upd: "bots_update c wok s = (failed, s')"
  shows "bots_store_ok s'" "bots_of s' = bots_of s \<or> (wok \<and> c (bots_of s) = Some (bots_of s'))"
    "\<exists>st. s' = s\<lparr>bx_bots := st\<rparr>" "wok \<Longrightarrow> c (bots_of s) = Some w \<Longrightarrow> bots_of s' = w"
proof -
  let ?st = "(bx_bots s)\<lparr>slot := Some (bots_of s)\<rparr>"
  have same: "bots_of (s\<lparr>bx_bots := ?st\<rparr>) = bots_of s" "bots_store_ok (s\<lparr>bx_bots := ?st\<rparr>)"
    using load_chat_bots_total [of "disk (bx_bots s)"]
    by (simp_all add: bots_of_def bots_store_ok_def store_ok_def bots_of_ok [unfolded bots_of_def])
  have new: "bots_of (s\<lparr>bx_bots := ?st\<lparr>disk := Some (encode_chat_bots w), slot := Some w\<rparr>\<rparr>) = w"
    "bots_store_ok (s\<lparr>bx_bots := ?st\<lparr>disk := Some (encode_chat_bots w), slot := Some w\<rparr>\<rparr>)" if "bots_ok w" for w
    using peer_bots_owner.load_enc [OF that] that by (simp_all add: bots_of_def bots_store_ok_def store_ok_def)
  consider (none) "c (bots_of s) = None" | (failed) w where "c (bots_of s) = Some w" "\<not> wok"
    | (wrote) w where "c (bots_of s) = Some w" "wok" by (cases "c (bots_of s)") auto
  then have "bots_store_ok s' \<and> (bots_of s' = bots_of s \<or> (wok \<and> c (bots_of s) = Some (bots_of s'))) \<and>
      (\<exists>st. s' = s\<lparr>bx_bots := st\<rparr>) \<and> (\<forall>w. wok \<longrightarrow> c (bots_of s) = Some w \<longrightarrow> bots_of s' = w)"
  proof cases
    case none
    then have "s' = s\<lparr>bx_bots := ?st\<rparr>" using upd by (simp add: bots_update_def store_update_def load_bots [OF ok])
    then show ?thesis using same none by auto
  next
    case failed
    then have "s' = s\<lparr>bx_bots := ?st\<rparr>" using upd by (simp add: bots_update_def store_update_def load_bots [OF ok])
    then show ?thesis using same failed by auto
  next
    case wrote
    then have "s' = s\<lparr>bx_bots := ?st\<lparr>disk := Some (encode_chat_bots w), slot := Some w\<rparr>\<rparr>"
      using upd by (simp add: bots_update_def store_update_def load_bots [OF ok] Let_def)
    then show ?thesis using new [OF keep [OF wrote(1)]] wrote by auto
  qed
  then show "bots_store_ok s'" "bots_of s' = bots_of s \<or> (wok \<and> c (bots_of s) = Some (bots_of s'))"
    "\<exists>st. s' = s\<lparr>bx_bots := st\<rparr>" "wok \<Longrightarrow> c (bots_of s) = Some w \<Longrightarrow> bots_of s' = w" by blast+
qed

subsection \<open>What a change does to trust and to the pending context\<close>

lemma with_entry_of: "bots_entry_of (with_entry chat e s) c = (if c = chat then e else bots_entry_of s c)"
  by (simp add: bots_entry_of_def with_entry_def update_conv)

lemma trusted_of: "trusted_bot_ids chat s = set (be_trusted (bots_entry_of s chat))"
  by (simp add: trusted_bot_ids_def bots_entry_of_def empty_bots_entry_def split: option.split)

text \<open>A change of one chat; the others keep their entries.\<close>

lemma observe_entry:
  assumes "observe_change chat b s = Some w" "bots_ok s"
  shows "bots_ok w" "bots_entry_of w c = (if c = chat then with_known_id (pb_id b) (with_name b (bots_entry_of s chat))
    else bots_entry_of s c)"
proof -
  have w: "w = with_entry chat (with_known_id (pb_id b) (with_name b (bots_entry_of s chat))) s"
    using assms(1) by (auto simp: observe_change_def Let_def split: if_splits)
  have "bots_entry_ok (bots_entry_of s chat)" using assms(2) by blast
  then show "bots_ok w" unfolding w by (intro bots_ok_update [OF assms(2)] entry_ok_steps)
  show "bots_entry_of w c = (if c = chat then with_known_id (pb_id b) (with_name b (bots_entry_of s chat))
    else bots_entry_of s c)" by (simp add: w with_entry_of)
qed

lemma trust_entry:
  assumes w: "fst (trust_change chat bots s) = Some w" and ok: "bots_ok s"
  shows "bots_ok w" "c \<noteq> chat \<Longrightarrow> bots_entry_of w c = bots_entry_of s c"
    "set (be_trusted (bots_entry_of w chat)) =
       set (be_trusted (bots_entry_of s chat)) \<union> {pb_id b | b. b \<in> set bots \<and> pb_id b \<noteq> []}"
    "be_needs (bots_entry_of s chat) \<Longrightarrow> be_needs (bots_entry_of w chat)"
    "be_generation (bots_entry_of s chat) \<le> be_generation (bots_entry_of w chat)"
    "be_trusted (bots_entry_of w chat) \<noteq> [] \<Longrightarrow> set (be_trusted (bots_entry_of w chat)) \<noteq> set (be_trusted (bots_entry_of s chat))
       \<Longrightarrow> be_needs (bots_entry_of w chat)"
    "set (be_trusted (bots_entry_of w chat)) \<noteq> set (be_trusted (bots_entry_of s chat)) \<Longrightarrow>
       be_generation (bots_entry_of s chat) < be_generation (bots_entry_of w chat)"
proof -
  let ?e = "bots_entry_of s chat"
  obtain e' added where f: "fold introduce_one bots (?e, []) = (e', added)" by (cases "fold introduce_one bots (?e, [])")
  note fo = introduce_fold [OF f]
  have w': "w = with_entry chat (if added = [] then e' else with_baseline e') s"
    using w by (auto simp: trust_change_def f Let_def split: if_splits)
  have ok': "bots_entry_ok e'" using fo(4) ok by blast
  show "bots_ok w" unfolding w' by (rule bots_ok_update [OF ok]) (use ok' in \<open>simp add: entry_ok_steps\<close>)
  show "c \<noteq> chat \<Longrightarrow> bots_entry_of w c = bots_entry_of s c" by (simp add: w' with_entry_of)
  show "set (be_trusted (bots_entry_of w chat)) = set (be_trusted ?e) \<union> {pb_id b | b. b \<in> set bots \<and> pb_id b \<noteq> []}"
    using fo(1) by (simp add: w' with_entry_of)
  show "be_needs ?e \<Longrightarrow> be_needs (bots_entry_of w chat)" using fo(2) by (simp add: w' with_entry_of)
  show "be_generation ?e \<le> be_generation (bots_entry_of w chat)" using fo(3) by (simp add: w' with_entry_of)
  have "added \<noteq> []" if "set (be_trusted (bots_entry_of w chat)) \<noteq> set (be_trusted ?e)"
  proof
    assume none: "added = []"
    then have "set (be_trusted e') \<subseteq> set (be_trusted ?e)" using fo(5) by auto
    moreover have "set (be_trusted ?e) \<subseteq> set (be_trusted e')" using fo(1) by auto
    ultimately show False using that none by (auto simp: w' with_entry_of)
  qed
  then show "set (be_trusted (bots_entry_of w chat)) \<noteq> set (be_trusted ?e) \<Longrightarrow> be_needs (bots_entry_of w chat)"
    "set (be_trusted (bots_entry_of w chat)) \<noteq> set (be_trusted ?e) \<Longrightarrow> be_generation ?e < be_generation (bots_entry_of w chat)"
    unfolding w' with_entry_of using fo(3) by auto
qed

lemma bot_added_entry:
  assumes "fst (bot_added_change chat ev s) = Some w" "bots_ok s"
  shows "bots_ok w" "be_trusted (bots_entry_of w c) = be_trusted (bots_entry_of s c)"
    "be_needs (bots_entry_of s c) \<Longrightarrow> be_needs (bots_entry_of w c)"
    "be_generation (bots_entry_of s c) \<le> be_generation (bots_entry_of w c)"
proof -
  let ?e = "bots_entry_of s chat"
  have "\<not> (ev \<noteq> [] \<and> ev \<in> set (be_seen ?e))" using assms(1) by (auto simp: bot_added_change_def Let_def)
  moreover obtain seen where w: "w = with_entry chat (with_baseline (?e\<lparr>be_seen := seen\<rparr>)) s"
      "seen = (let xs = (if ev = [] then be_seen ?e else be_seen ?e @ [ev]) in
        if ev \<noteq> [] \<and> length xs > MAX_SEEN_EVENT_IDS then drop (length xs - MAX_SEEN_EVENT_IDS) xs else xs)"
    using assms(1) by (auto simp: bot_added_change_def Let_def split: if_splits)
  moreover have e: "bots_entry_ok ?e" using assms(2) by blast
  moreover have xs: "distinct (if ev = [] then be_seen ?e else be_seen ?e @ [ev])"
    using e calculation(1) by (auto simp: bots_entry_ok_def)
  ultimately have "distinct seen" unfolding Let_def by (simp only: distinct_drop simp_thms split: if_split)
  then have "bots_entry_ok (with_baseline (?e\<lparr>be_seen := seen\<rparr>))"
    using e by (simp add: bots_entry_ok_def with_baseline_def)
  then show "bots_ok w" unfolding w(1) by (rule bots_ok_update [OF assms(2)])
  show "be_trusted (bots_entry_of w c) = be_trusted (bots_entry_of s c)"
    "be_needs (bots_entry_of s c) \<Longrightarrow> be_needs (bots_entry_of w c)"
    "be_generation (bots_entry_of s c) \<le> be_generation (bots_entry_of w c)"
    by (simp_all add: w(1) with_entry_of)
qed

lemma clear_entry:
  assumes "clear_change chat g s = Some w" "bots_ok s"
  shows "bots_ok w" "be_trusted (bots_entry_of w c) = be_trusted (bots_entry_of s c)"
    "be_generation (bots_entry_of w c) = be_generation (bots_entry_of s c)"
    "be_needs (bots_entry_of s c) \<Longrightarrow> c \<noteq> chat \<or> g \<noteq> be_generation (bots_entry_of s c) \<Longrightarrow> be_needs (bots_entry_of w c)"
proof -
  obtain e where e: "map_of s chat = Some e" "be_generation e = g" "w = with_entry chat (e\<lparr>be_needs := False\<rparr>) s"
    using assms(1) by (auto simp: clear_change_def split: option.splits if_splits)
  have es: "bots_entry_of s chat = e" by (simp add: bots_entry_of_def e(1))
  have "bots_entry_ok e" using assms(2) es by blast
  then show "bots_ok w" unfolding e(3) by (intro bots_ok_update [OF assms(2)]) (simp add: bots_entry_ok_def)
  show "be_trusted (bots_entry_of w c) = be_trusted (bots_entry_of s c)"
    "be_generation (bots_entry_of w c) = be_generation (bots_entry_of s c)"
    "be_needs (bots_entry_of s c) \<Longrightarrow> c \<noteq> chat \<or> g \<noteq> be_generation (bots_entry_of s c) \<Longrightarrow> be_needs (bots_entry_of w c)"
    using es e(2) by (auto simp: e(3) with_entry_of)
qed


subsection \<open>The invariant\<close>

text \<open>Whom an allowed introduction in a chat has named.\<close>

definition introduced_in :: "inbox \<Rightarrow> string \<Rightarrow> string set" where
  "introduced_in s chat =
     {pb_id b | b e a. (e, a) \<in> set (bx_granted s) \<and> ie_chat e = chat \<and>
        can_run_introduce a (ie_chat_type e) chat (ie_sender e) \<and>
        detect_introduce (ie_message_type e) (ie_content e) (ie_mentions e) \<and>
        b \<in> set (introduced_peers (ie_mentions e) (bx_self s))}"

definition trust_source :: "bots_state \<Rightarrow> inbox \<Rightarrow> string \<Rightarrow> string set" where
  "trust_source v0 s chat = trusted_bot_ids chat v0 \<union> introduced_in s chat"

text \<open>The gate is asked about the message, and a trusted bot has a source of its trust.\<close>

definition question_ok :: "bots_state \<Rightarrow> inbox \<Rightarrow> inbound_event \<Rightarrow> sender_kind \<Rightarrow> gate_inbound \<Rightarrow> bool" where
  "question_ok v0 s e kind gi \<longleftrightarrow> classify_inbound e = Inr kind \<and>
     (\<exists>trusted. gi = gate_question s e kind trusted \<and>
        (gi_trusted_bot gi \<longrightarrow> ie_sender e \<in> trust_source v0 s (ie_chat e)))"

definition granted_to :: "inbox \<Rightarrow> inbound_event \<Rightarrow> bool" where
  "granted_to s e \<longleftrightarrow> (\<exists>a. (e, a) \<in> set (bx_granted s) \<and> can_run_introduce a (ie_chat_type e) (ie_chat e) (ie_sender e))"

definition message_phase_ok :: "bots_state \<Rightarrow> inbox \<Rightarrow> nat \<Rightarrow> inbound_event \<Rightarrow> message_phase \<Rightarrow> bool" where
  "message_phase_ok v0 s i e p \<longleftrightarrow>
     (case p of
        Mp_Policy kind \<Rightarrow> classify_inbound e = Inr kind
      | Mp_Observe deny \<Rightarrow> classify_inbound e = Inr Robot \<and> (deny = None \<longrightarrow> granted_to s e)
      | Mp_Introduce peers \<Rightarrow> granted_to s e \<and> peers = introduced_peers (ie_mentions e) (bx_self s) \<and>
          detect_introduce (ie_message_type e) (ie_content e) (ie_mentions e)
      | Mp_Trusted kind \<Rightarrow> classify_inbound e = Inr kind
      | Mp_Gate kind gi \<Rightarrow> question_ok v0 s e kind gi
      | Mp_Accepted c \<Rightarrow> (\<exists>kind a gi gen now. question_ok v0 s e kind gi \<and> (i, a, gi) \<in> set (bx_admitted s) \<and>
          decide_action gen a gi now = Deliver)
      | _ \<Rightarrow> True)"

definition inbox_ok :: "bots_state \<Rightarrow> inbox \<Rightarrow> bool" where
  "inbox_ok v0 s \<longleftrightarrow> bots_store_ok s \<and> (\<forall>chat. trusted_bot_ids chat (bots_of s) \<subseteq> trust_source v0 s chat) \<and>
     (\<forall>i e p. message_at s i = Some (e, p) \<longrightarrow> message_phase_ok v0 s i e p)"

lemma inbox_okD:
  assumes "inbox_ok v0 s"
  shows "bots_store_ok s" "x \<in> trusted_bot_ids chat (bots_of s) \<Longrightarrow> x \<in> trust_source v0 s chat"
    "message_at s i = Some (e, p) \<Longrightarrow> message_phase_ok v0 s i e p"
  using assms unfolding inbox_ok_def by blast+

text \<open>A step that only adds to what was granted and admitted keeps what the phases say.\<close>

definition grows :: "inbox \<Rightarrow> inbox \<Rightarrow> bool" where
  "grows s s' \<longleftrightarrow> bx_self s' = bx_self s \<and> set (bx_granted s) \<subseteq> set (bx_granted s') \<and> set (bx_admitted s) \<subseteq> set (bx_admitted s')"

lemma grows_keeps:
  assumes "grows s s'"
  shows "x \<in> trust_source v0 s chat \<Longrightarrow> x \<in> trust_source v0 s' chat" "granted_to s e \<Longrightarrow> granted_to s' e"
    "question_ok v0 s e kind gi \<Longrightarrow> question_ok v0 s' e kind gi" "message_phase_ok v0 s i e p \<Longrightarrow> message_phase_ok v0 s' i e p"
proof -
  show t: "x \<in> trust_source v0 s chat \<Longrightarrow> x \<in> trust_source v0 s' chat" for x chat
    using assms unfolding trust_source_def introduced_in_def grows_def by auto
  show g: "granted_to s e \<Longrightarrow> granted_to s' e" for e
    using assms unfolding granted_to_def grows_def by auto
  show q: "question_ok v0 s e kind gi \<Longrightarrow> question_ok v0 s' e kind gi" for e kind gi
    using assms t unfolding question_ok_def grows_def gate_question_def by auto
  show "message_phase_ok v0 s i e p \<Longrightarrow> message_phase_ok v0 s' i e p"
  proof (cases p)
    case (Mp_Accepted c)
    assume "message_phase_ok v0 s i e p"
    then obtain kind a gi gen now where "question_ok v0 s e kind gi" "(i, a, gi) \<in> set (bx_admitted s)"
      "decide_action gen a gi now = Deliver" unfolding message_phase_ok_def Mp_Accepted by auto
    moreover from this have "(i, a, gi) \<in> set (bx_admitted s')" using assms unfolding grows_def by blast
    moreover have "question_ok v0 s' e kind gi" using calculation(1) by (rule q)
    ultimately show ?thesis unfolding message_phase_ok_def Mp_Accepted message_phase.case by blast
  qed (use g q assms in \<open>auto simp: message_phase_ok_def grows_def\<close>)
qed

text \<open>One message moves, the stores as they may.\<close>

lemma set_phase_at:
  "message_at (put_message_phase i p s) j =
     (if j = i then map_option (\<lambda>(e, _). (e, p)) (message_at s i) else message_at s j)"
  by (auto simp: put_message_phase_def message_at_def split: option.splits prod.splits)

lemma set_phase_fields [simp]:
  "bx_access (put_message_phase i p s) = bx_access s" "bx_bots (put_message_phase i p s) = bx_bots s"
  "bx_self (put_message_phase i p s) = bx_self s" "bx_granted (put_message_phase i p s) = bx_granted s"
  "bx_admitted (put_message_phase i p s) = bx_admitted s" "bx_parser (put_message_phase i p s) = bx_parser s"
  "bots_of (put_message_phase i p s) = bots_of s" "bots_store_ok (put_message_phase i p s) = bots_store_ok s"
  by (auto simp: put_message_phase_def bots_of_def bots_store_ok_def split: option.splits)

lemma phase_moves:
  assumes ok: "inbox_ok v0 s" and t: "bx_messages t = bx_messages s" "grows s t" "bots_store_ok t"
    "\<And>chat x. x \<in> trusted_bot_ids chat (bots_of t) \<Longrightarrow> x \<in> trust_source v0 t chat"
    and p: "\<And>e q. message_at s i = Some (e, q) \<Longrightarrow> message_phase_ok v0 t i e p"
  shows "inbox_ok v0 (put_message_phase i p t)"
  unfolding inbox_ok_def
proof (intro conjI allI impI subsetI)
  have g: "grows t (put_message_phase i p t)" by (simp add: grows_def)
  show "bots_store_ok (put_message_phase i p t)" using t(3) by simp
  show "x \<in> trust_source v0 (put_message_phase i p t) chat" if "x \<in> trusted_bot_ids chat (bots_of (put_message_phase i p t))" for x chat
    using that t(4) grows_keeps(1) [OF g] by simp
  fix j e q assume at: "message_at (put_message_phase i p t) j = Some (e, q)"
  have same: "message_at t k = message_at s k" for k by (simp add: message_at_def t(1))
  show "message_phase_ok v0 (put_message_phase i p t) j e q"
  proof (cases "j = i")
    case True
    then obtain q0 where "message_at s i = Some (e, q0)" "q = p" using at by (auto simp: set_phase_at same)
    then show ?thesis using p True grows_keeps(4) [OF g] by blast
  next
    case False
    then have "message_phase_ok v0 s j e q" using at inbox_okD(3) [OF ok] by (simp add: set_phase_at same)
    then show ?thesis using grows_keeps(4) [OF t(2)] grows_keeps(4) [OF g] by blast
  qed
qed

lemma phase_moves_only:
  assumes ok: "inbox_ok v0 s" and p: "\<And>e q. message_at s i = Some (e, q) \<Longrightarrow> message_phase_ok v0 s i e p"
  shows "inbox_ok v0 (put_message_phase i p s)"
proof (rule phase_moves [OF ok])
  show "bx_messages s = bx_messages s" "grows s s" by (simp_all add: grows_def)
  show "bots_store_ok s" "\<And>chat x. x \<in> trusted_bot_ids chat (bots_of s) \<Longrightarrow> x \<in> trust_source v0 s chat"
    using inbox_okD [OF ok] by blast+
qed (use p in blast)


subsection \<open>The steps\<close>

text \<open>A message that ends, or waits for a send: nothing to show.\<close>

lemma ends_ok:
  assumes "inbox_ok v0 s" "\<And>e. message_phase_ok v0 s i e p"
  shows "inbox_ok v0 (put_message_phase i p s)"
  by (rule phase_moves_only [OF assms(1)]) (rule assms(2))

lemma inbox_ok_grows:
  assumes ok: "inbox_ok v0 s" and g: "grows s t"
    and same: "bots_of t = bots_of s" "bots_store_ok t = bots_store_ok s" "\<And>i. message_at t i = message_at s i"
  shows "inbox_ok v0 t"
  unfolding inbox_ok_def same
proof (intro conjI allI impI subsetI)
  show "bots_store_ok s" by (rule inbox_okD(1) [OF ok])
  show "x \<in> trust_source v0 t chat" if "x \<in> trusted_bot_ids chat (bots_of s)" for x chat
    by (rule grows_keeps(1) [OF g inbox_okD(2) [OF ok that]])
  show "message_phase_ok v0 t i e p" if "message_at s i = Some (e, p)" for i e p
    by (rule grows_keeps(4) [OF g inbox_okD(3) [OF ok that]])
qed

lemma access_change_ok:
  assumes "inbox_ok v0 s"
  shows "inbox_ok v0 (s\<lparr>bx_access := st\<rparr>)"
  by (rule inbox_ok_grows [OF assms]) (auto simp: grows_def bots_of_def bots_store_ok_def message_at_def)

lemma granted_mono:
  assumes "inbox_ok v0 s"
  shows "inbox_ok v0 (s\<lparr>bx_granted := bx_granted s @ xs\<rparr>)"
  by (rule inbox_ok_grows [OF assms]) (auto simp: grows_def bots_of_def bots_store_ok_def message_at_def)

lemma message_arrives_ok:
  assumes ok: "inbox_ok v0 s"
  shows "inbox_ok v0 (message_arrives e s)"
proof -
  let ?t = "message_arrives e s"
  have g: "grows s ?t" by (simp add: grows_def message_arrives_def)
  have same: "bots_of ?t = bots_of s" "bots_store_ok ?t = bots_store_ok s"
    by (simp_all add: bots_of_def bots_store_ok_def message_arrives_def)
  have at: "message_at ?t i = Some (f, p) \<Longrightarrow> message_at s i = Some (f, p) \<or>
      f = e \<and> p = (case classify_inbound e of Inl u \<Rightarrow> Mp_Over (Me_Unclassified u) | Inr k \<Rightarrow> Mp_Policy k)" for i f p
    by (auto simp: message_at_def message_arrives_def nth_append split: if_splits)
  have "message_phase_ok v0 ?t i f p" if "message_at ?t i = Some (f, p)" for i f p
    using at [OF that]
  proof
    assume "message_at s i = Some (f, p)"
    then show ?thesis using inbox_okD(3) [OF ok] grows_keeps(4) [OF g] by blast
  next
    assume "f = e \<and> p = (case classify_inbound e of Inl u \<Rightarrow> Mp_Over (Me_Unclassified u) | Inr k \<Rightarrow> Mp_Policy k)"
    then show ?thesis by (cases "classify_inbound e") (simp_all add: message_phase_ok_def)
  qed
  then show ?thesis
    using inbox_okD(1,2) [OF ok] grows_keeps(1) [OF g] unfolding inbox_ok_def same by blast
qed

text \<open>The stretch from the observation to the introduction or the gate.\<close>

lemma after_observation_ok:
  assumes ok: "inbox_ok v0 s" and at: "\<exists>q. message_at s i = Some (e, q)" and kind: "classify_inbound e = Inr kind"
    and deny: "deny = None \<Longrightarrow> granted_to s e"
  shows "inbox_ok v0 (after_observation i e kind deny s)"
proof -
  have eq: "f = e" if "message_at s i = Some (f, q)" for f q using at that by auto
  have "inbox_ok v0 (put_message_phase i p s)" if "message_phase_ok v0 s i e p" for p
    by (rule phase_moves_only [OF ok]) (use that eq in blast)
  moreover have "message_phase_ok v0 s i e (Mp_Gate kind (gate_question s e kind False))"
    using kind unfolding message_phase_ok_def question_ok_def by (auto simp: gate_question_def)
  moreover have "message_phase_ok v0 s i e (Mp_Trusted kind)" "message_phase_ok v0 s i e (Mp_Over Me_Introduced)"
    using kind by (simp_all add: message_phase_ok_def)
  moreover have "message_phase_ok v0 s i e (Mp_Introduce (introduced_peers (ie_mentions e) (bx_self s)))"
    if "detect_introduce (ie_message_type e) (ie_content e) (ie_mentions e)" "deny = None"
    using that deny by (simp add: message_phase_ok_def)
  ultimately show ?thesis by (auto simp: after_observation_def Let_def)
qed

lemma policy_read_ok:
  assumes ok: "inbox_ok v0 s"
  shows "inbox_ok v0 (policy_read i s)"
proof (cases "\<exists>e kind. message_at s i = Some (e, Mp_Policy kind)")
  case False
  then have "policy_read i s = s"
    by (cases "message_at s i"; cases "snd (the (message_at s i))") (auto simp: policy_read_def)
  then show ?thesis using ok by simp
next
  case True
  then obtain e kind where at: "message_at s i = Some (e, Mp_Policy kind)" by blast
  have kind: "classify_inbound e = Inr kind" using inbox_okD(3) [OF ok at] by (simp add: message_phase_ok_def)
  obtain r st where load: "store_load read_access (bx_access s) = ((r :: access_error store_error + access_state), st)"
    by (cases "store_load read_access (bx_access s) :: (access_error store_error + access_state) \<times> _")
  show ?thesis
  proof (cases r)
    case (Inl x)
    have "inbox_ok v0 (put_message_phase i (Mp_Over Me_Failed) (s\<lparr>bx_access := st\<rparr>))"
      by (rule ends_ok [OF access_change_ok [OF ok]]) (simp add: message_phase_ok_def)
    then show ?thesis using Inl load by (simp add: policy_read_def at)
  next
    case (Inr a)
    let ?deny = "introduce_deny_reason a (ie_chat_type e) (ie_chat e) (ie_sender e)"
    let ?t = "s\<lparr>bx_access := st, bx_granted := bx_granted s @ (if ?deny = None then [(e, a)] else [])\<rparr>"
    have t: "inbox_ok v0 ?t" using granted_mono [OF access_change_ok [OF ok]] by simp
    have at': "message_at ?t i = Some (e, Mp_Policy kind)" using at by (simp add: message_at_def split: if_splits)
    have deny: "granted_to ?t e" if "?deny = None"
      using that unfolding granted_to_def can_run_introduce_def by auto
    let ?watch = "ie_chat_type e = ''group'' \<and> kind = Robot \<and> Str (ie_chat e) \<in> set (ac_allow_chats a)"
    have past: "inbox_ok v0 (after_observation i e kind ?deny ?t)"
      by (rule after_observation_ok [OF t _ kind]) (use at' deny in blast)+
    have observes: "inbox_ok v0 (put_message_phase i (Mp_Observe ?deny) ?t)" if "kind = Robot"
      by (rule phase_moves_only [OF t]) (use at' deny kind that in \<open>auto simp: message_phase_ok_def\<close>)
    have eq: "policy_read i s =
        (if ?watch then put_message_phase i (Mp_Observe ?deny) ?t else after_observation i e kind ?deny ?t)"
      by (simp only: policy_read_def at load Inr Let_def option.case prod.case message_phase.case sum.case)
    show ?thesis
    proof (cases ?watch)
      case True
      then show ?thesis unfolding eq if_P [OF True] by (intro observes) blast
    next
      case False
      show ?thesis unfolding eq if_not_P [OF False] by (rule past)
    qed
  qed
qed

text \<open>A change of the bots that keeps trust.\<close>

lemma bots_step_ok:
  assumes ok: "inbox_ok v0 s" and upd: "bots_update c wok s = (failed, s')"
    and keep: "\<And>w. c (bots_of s) = Some w \<Longrightarrow> bots_ok w"
    and trust: "\<And>w chat x. c (bots_of s) = Some w \<Longrightarrow> x \<in> trusted_bot_ids chat w \<Longrightarrow>
      x \<in> trusted_bot_ids chat (bots_of s) \<or> x \<in> trust_source v0 s chat"
  shows "inbox_ok v0 s'"
proof -
  note u = bots_update_cases [OF inbox_okD(1) [OF ok] keep upd]
  obtain st where s': "s' = s\<lparr>bx_bots := st\<rparr>" using u(3) by blast
  have g: "grows s s'" by (simp add: grows_def s')
  have at: "message_at s' i = message_at s i" for i by (simp add: message_at_def s')
  have "x \<in> trust_source v0 s' chat" if "x \<in> trusted_bot_ids chat (bots_of s')" for x chat
  proof -
    have "x \<in> trusted_bot_ids chat (bots_of s) \<or> x \<in> trust_source v0 s chat"
      using u(2) trust [of "bots_of s'" x chat] that by auto
    then show ?thesis using inbox_okD(2) [OF ok] grows_keeps(1) [OF g] by blast
  qed
  then show ?thesis
    using u(1) inbox_okD(3) [OF ok] grows_keeps(4) [OF g] unfolding inbox_ok_def at by blast
qed


lemma bot_observed_ok:
  assumes ok: "inbox_ok v0 s"
  shows "inbox_ok v0 (bot_observed i wok s)"
proof (cases "\<exists>e deny. message_at s i = Some (e, Mp_Observe deny)")
  case False
  then have "bot_observed i wok s = s"
    by (cases "message_at s i"; cases "snd (the (message_at s i))") (auto simp: bot_observed_def)
  then show ?thesis using ok by simp
next
  case True
  then obtain e deny where at: "message_at s i = Some (e, Mp_Observe deny)" by blast
  let ?b = "\<lparr> pb_id = ie_sender e, pb_name = (if ie_sender_name e = [] then None else Some (ie_sender_name e)) \<rparr>"
  obtain failed s' where upd: "bots_update (observe_change (ie_chat e) ?b) wok s = (failed, s')"
    by (cases "bots_update (observe_change (ie_chat e) ?b) wok s")
  have ph: "classify_inbound e = Inr Robot" "deny = None \<Longrightarrow> granted_to s e"
    using inbox_okD(3) [OF ok at] by (simp_all add: message_phase_ok_def)
  have ok': "inbox_ok v0 s'"
  proof (rule bots_step_ok [OF ok upd])
    show "bots_ok w" if "observe_change (ie_chat e) ?b (bots_of s) = Some w" for w
      by (rule observe_entry(1) [OF that]) simp
    show "x \<in> trusted_bot_ids chat (bots_of s) \<or> x \<in> trust_source v0 s chat"
      if "observe_change (ie_chat e) ?b (bots_of s) = Some w" "x \<in> trusted_bot_ids chat w" for w chat x
      using that(2) observe_entry(2) [OF that(1), of chat] by (auto simp: trusted_of split: if_splits)
  qed
  obtain st where s': "s' = s\<lparr>bx_bots := st\<rparr>"
    using bots_update_cases(3) [OF inbox_okD(1) [OF ok] _ upd] observe_entry(1) by auto
  have at': "message_at s' i = Some (e, Mp_Observe deny)" using at by (simp add: message_at_def s' split: if_splits)
  have "grows s s'" by (simp add: grows_def s')
  then have "deny = None \<Longrightarrow> granted_to s' e" using ph(2) grows_keeps(2) by blast
  then have "inbox_ok v0 (after_observation i e Robot deny s')"
    using at' by (intro after_observation_ok [OF ok' _ ph(1)]) blast+
  moreover have "inbox_ok v0 (put_message_phase i (Mp_Over Me_Failed) s')"
    by (rule ends_ok [OF ok']) (simp add: message_phase_ok_def)
  ultimately show ?thesis by (simp add: bot_observed_def at upd)
qed

lemma bots_introduced_ok:
  assumes ok: "inbox_ok v0 s"
  shows "inbox_ok v0 (bots_introduced i wok s)"
proof (cases "\<exists>e peers. message_at s i = Some (e, Mp_Introduce peers)")
  case False
  then have "bots_introduced i wok s = s"
    by (cases "message_at s i"; cases "snd (the (message_at s i))") (auto simp: bots_introduced_def)
  then show ?thesis using ok by simp
next
  case True
  then obtain e peers where at: "message_at s i = Some (e, Mp_Introduce peers)" by blast
  let ?c = "\<lambda>v. fst (trust_change (ie_chat e) peers v)"
  obtain failed s' where upd: "bots_update ?c wok s = (failed, s')" by (cases "bots_update ?c wok s")
  have ph: "granted_to s e" "peers = introduced_peers (ie_mentions e) (bx_self s)"
    "detect_introduce (ie_message_type e) (ie_content e) (ie_mentions e)"
    using inbox_okD(3) [OF ok at] by (simp_all add: message_phase_ok_def)
  then have named: "pb_id b \<in> introduced_in s (ie_chat e)" if "b \<in> set peers" for b
    using that unfolding introduced_in_def granted_to_def by blast
  have ok': "inbox_ok v0 s'"
  proof (rule bots_step_ok [OF ok upd])
    show "bots_ok w" if "?c (bots_of s) = Some w" for w
      by (rule trust_entry(1) [OF that]) simp
    show "x \<in> trusted_bot_ids chat (bots_of s) \<or> x \<in> trust_source v0 s chat"
      if w: "?c (bots_of s) = Some w" and x: "x \<in> trusted_bot_ids chat w" for w chat x
    proof (cases "chat = ie_chat e")
      case True
      then have "x \<in> trusted_bot_ids chat (bots_of s) \<or> (\<exists>b \<in> set peers. x = pb_id b)"
        using x trust_entry(3) [OF w] by (auto simp: trusted_of)
      then show ?thesis using named True unfolding trust_source_def by blast
    next
      case False
      then show ?thesis using x trust_entry(2) [OF w] by (simp add: trusted_of)
    qed
  qed
  have "inbox_ok v0 (put_message_phase i (if failed then Mp_Over Me_Failed else Mp_Ack) s')"
    by (rule ends_ok [OF ok']) (simp add: message_phase_ok_def)
  then show ?thesis by (simp add: bots_introduced_def at upd)
qed

text \<open>Reading the peer bots changes nothing that a message rests on.\<close>

lemma inbox_ok_loaded:
  assumes ok: "inbox_ok v0 s"
  shows "inbox_ok v0 (s\<lparr>bx_bots := (bx_bots s)\<lparr>slot := Some (bots_of s)\<rparr>\<rparr>)"
proof -
  let ?t = "s\<lparr>bx_bots := (bx_bots s)\<lparr>slot := Some (bots_of s)\<rparr>\<rparr>"
  have store: "bots_of ?t = bots_of s" "bots_store_ok ?t"
    using load_chat_bots_total [of "disk (bx_bots s)"]
    by (simp_all add: bots_of_def bots_store_ok_def store_ok_def bots_of_ok [unfolded bots_of_def])
  show ?thesis
    by (rule inbox_ok_grows [OF ok]) (use store inbox_okD(1) [OF ok] in \<open>simp_all add: grows_def message_at_def\<close>)
qed

lemma trusted_read_ok:
  assumes ok: "inbox_ok v0 s"
  shows "inbox_ok v0 (trusted_read i s)"
proof (cases "\<exists>e kind. message_at s i = Some (e, Mp_Trusted kind)")
  case False
  then have "trusted_read i s = s"
    by (cases "message_at s i"; cases "snd (the (message_at s i))") (auto simp: trusted_read_def)
  then show ?thesis using ok by simp
next
  case True
  then obtain e kind where at: "message_at s i = Some (e, Mp_Trusted kind)" by blast
  let ?t = "s\<lparr>bx_bots := (bx_bots s)\<lparr>slot := Some (bots_of s)\<rparr>\<rparr>"
  let ?q = "gate_question s e kind (ie_sender e \<in> trusted_bot_ids (ie_chat e) (bots_of s))"
  have t: "inbox_ok v0 ?t" by (rule inbox_ok_loaded [OF ok])
  have kind: "classify_inbound e = Inr kind" using inbox_okD(3) [OF ok at] by (simp add: message_phase_ok_def)
  have "question_ok v0 s e kind ?q"
    unfolding question_ok_def using kind inbox_okD(2) [OF ok, of "ie_sender e" "ie_chat e"]
    by (auto simp: gate_question_def)
  then have "question_ok v0 ?t e kind ?q" by (rule grows_keeps(3) [rotated]) (simp add: grows_def)
  then have q: "message_phase_ok v0 ?t i e (Mp_Gate kind ?q)" by (simp add: message_phase_ok_def)
  have at': "message_at ?t i = Some (e, Mp_Trusted kind)" using at by (simp add: message_at_def split: if_splits)
  have "inbox_ok v0 (put_message_phase i (Mp_Gate kind ?q) ?t)"
    by (rule phase_moves_only [OF t]) (use at' q in auto)
  then show ?thesis by (simp add: trusted_read_def at load_bots [OF inbox_okD(1) [OF ok]])
qed

lemma gate_answers_ok:
  assumes ok: "inbox_ok v0 s"
  shows "inbox_ok v0 (gate_answers i gen now wok s)"
proof (cases "\<exists>e kind gi. message_at s i = Some (e, Mp_Gate kind gi)")
  case False
  then have "gate_answers i gen now wok s = s"
    by (cases "message_at s i"; cases "snd (the (message_at s i))") (auto simp: gate_answers_def)
  then show ?thesis using ok by simp
next
  case True
  then obtain e kind gi where at: "message_at s i = Some (e, Mp_Gate kind gi)" by blast
  have q: "question_ok v0 s e kind gi" using inbox_okD(3) [OF ok at] by (simp add: message_phase_ok_def)
  obtain r st1 where load: "store_load read_access (bx_access s) = ((r :: access_error store_error + access_state), st1)"
    by (cases "store_load read_access (bx_access s) :: (access_error store_error + access_state) \<times> _")
  obtain w st where upd: "store_update read_access encode_access (gate_change gen gi now) wok (\<lambda>_ _. None) (bx_access s) = (w, st)"
    by (cases "store_update read_access encode_access (gate_change gen gi now) wok (\<lambda>_ _. None) (bx_access s)")
  let ?t = "s\<lparr>bx_access := st\<rparr>"
  have t: "inbox_ok v0 ?t" by (rule access_change_ok [OF ok])
  have ended: "inbox_ok v0 (put_message_phase i p ?t)" if "\<And>e. message_phase_ok v0 ?t i e p" for p
    by (rule ends_ok [OF t that])
  have failed: "inbox_ok v0 (put_message_phase i (Mp_Over x) ?t)" "inbox_ok v0 (put_message_phase i (Mp_Refer p) ?t)"
    "inbox_ok v0 (put_message_phase i (Mp_Card gi p) ?t)" for x p
    by (rule ended, simp add: message_phase_ok_def)+
  have delivered: "inbox_ok v0 (put_message_phase i (Mp_Accepted c) (?t\<lparr>bx_admitted := bx_admitted s @ [(i, a, gi)]\<rparr>))"
    if "decide_action gen a gi now = Deliver" for a c
  proof -
    let ?u = "?t\<lparr>bx_admitted := bx_admitted s @ [(i, a, gi)]\<rparr>"
    have g: "grows s ?u" by (auto simp: grows_def)
    have u: "inbox_ok v0 ?u"
      by (rule inbox_ok_grows [OF ok g]) (simp_all add: bots_of_def bots_store_ok_def message_at_def)
    have at': "message_at ?u i = Some (e, Mp_Gate kind gi)" using at by (simp add: message_at_def split: if_splits)
    have "message_phase_ok v0 ?u i e (Mp_Accepted c)"
      unfolding message_phase_ok_def message_phase.case
      by (intro exI [of _ kind] exI [of _ a] exI [of _ gi] exI [of _ gen] exI [of _ now] conjI grows_keeps(3) [OF g q] that) simp
    then show ?thesis using at' by (intro phase_moves_only [OF u]) auto
  qed
  show ?thesis
  proof (cases r)
    case (Inl x)
    then show ?thesis using failed by (simp add: gate_answers_def at load upd)
  next
    case (Inr a)
    show ?thesis
    proof (cases w)
      case (Inl x)
      then show ?thesis using Inr failed by (simp add: gate_answers_def at load upd)
    next
      case w: (Inr b)
      show ?thesis
        using failed delivered [of a] by (cases "decide_action gen a gi now") (simp_all add: gate_answers_def at load upd Inr w Let_def)
    qed
  qed
qed


lemma prompt_sent_ok:
  assumes ok: "inbox_ok v0 s"
  shows "inbox_ok v0 (prompt_sent i sent s)"
proof -
  have ends: "inbox_ok v0 (put_message_phase i p s)" if "\<And>e. message_phase_ok v0 s i e p" for p
    by (rule ends_ok [OF ok that])
  have "inbox_ok v0 (put_message_phase i (Mp_Over x) s)" "inbox_ok v0 (put_message_phase i (Mp_Refresh p) s)"
    "inbox_ok v0 (put_message_phase i (Mp_Record gi p m) s)" for x p gi m
    by (rule ends, simp add: message_phase_ok_def)+
  then show ?thesis using ok
    by (auto simp: prompt_sent_def split: option.split message_phase.split prod.split)
qed

lemma pairing_written_ok:
  assumes ok: "inbox_ok v0 s"
  shows "inbox_ok v0 (pairing_written i now wok s)"
proof -
  have ends: "inbox_ok v0 (put_message_phase i (Mp_Over x) (s\<lparr>bx_access := st\<rparr>))" for x st
    by (rule ends_ok [OF access_change_ok [OF ok]]) (simp add: message_phase_ok_def)
  have upd: "access_update c wok s = (failed, s') \<Longrightarrow> \<exists>st. s' = s\<lparr>bx_access := st\<rparr>" for c failed s'
    by (auto simp: access_update_def split: prod.splits)
  have "inbox_ok v0 (put_message_phase i (Mp_Over x) s')" if "access_update c wok s = (failed, s')" for c failed s' x
    using upd [OF that] ends by blast
  then show ?thesis using ok
    by (auto simp: pairing_written_def split: option.split message_phase.split prod.split)
qed

lemma bots_event_ok:
  assumes ok: "inbox_ok v0 s"
  shows "inbox_ok v0 (snd (bots_update (\<lambda>v. fst (bot_added_change chat ev v)) wok s))"
    "inbox_ok v0 (snd (bots_update (clear_change chat g) wok s))"
proof -
  have "inbox_ok v0 s'" if "bots_update (\<lambda>v. fst (bot_added_change chat ev v)) wok s = (failed, s')" for failed s'
    by (rule bots_step_ok [OF ok that]) (use bot_added_entry in \<open>simp_all add: trusted_of\<close>)
  then show "inbox_ok v0 (snd (bots_update (\<lambda>v. fst (bot_added_change chat ev v)) wok s))"
    by (cases "bots_update (\<lambda>v. fst (bot_added_change chat ev v)) wok s") simp
  have "inbox_ok v0 s'" if "bots_update (clear_change chat g) wok s = (failed, s')" for failed s'
    by (rule bots_step_ok [OF ok that]) (use clear_entry in \<open>simp_all add: trusted_of\<close>)
  then show "inbox_ok v0 (snd (bots_update (clear_change chat g) wok s))"
    by (cases "bots_update (clear_change chat g) wok s") simp
qed

lemma inbox_restarts_ok:
  assumes ok: "inbox_ok v0 s"
  shows "inbox_ok v0 (inbox_restarts s)"
proof -
  let ?t = "inbox_restarts s"
  have g: "grows s ?t" by (simp add: grows_def inbox_restarts_def)
  have same: "bots_of ?t = bots_of s" "bots_store_ok ?t"
    by (simp_all add: bots_of_def bots_store_ok_def inbox_restarts_def fresh_store_def store_ok_def)
  have "message_phase_ok v0 ?t i e p" if at: "message_at ?t i = Some (e, p)" for i e p
  proof -
    obtain q where q: "message_at s i = Some (e, q)"
      "p = (case q of Mp_Accepted c \<Rightarrow> Mp_Accepted c | Mp_Over x \<Rightarrow> Mp_Over x | _ \<Rightarrow> Mp_Over Me_Lost)"
      using at by (auto simp: message_at_def inbox_restarts_def split: if_splits prod.splits)
    then show ?thesis using grows_keeps(4) [OF g inbox_okD(3) [OF ok q(1)]] by (cases q) (simp_all add: message_phase_ok_def)
  qed
  then show ?thesis
    using same inbox_okD(2) [OF ok] grows_keeps(1) [OF g] unfolding inbox_ok_def same by blast
qed

lemma inbox_do_ok:
  assumes "inbox_ok v0 s"
  shows "inbox_ok v0 (inbox_do q s)"
  using assms
  by (cases q)
    (simp_all add: message_arrives_ok policy_read_ok bot_observed_ok bots_introduced_ok trusted_read_ok gate_answers_ok
      prompt_sent_ok pairing_written_ok access_change_ok bots_event_ok inbox_restarts_ok)

lemma inbox_run_ok:
  assumes "inbox_ok v0 s"
  shows "inbox_ok v0 (inbox_run qs s)"
  using assms unfolding inbox_run_def by (induction qs arbitrary: s) (simp_all add: inbox_do_ok)

lemma new_inbox_ok: "inbox_ok (projr (load_chat_bots fb)) (new_inbox self parser fa fb)"
  by (auto simp: inbox_ok_def new_inbox_def bots_store_ok_def bots_of_def message_at_def trust_source_def fresh_store_def store_ok_def)

lemma inbox_do_self: "bx_self (inbox_do q s) = bx_self s"
proof -
  have upd: "bx_self (snd (bots_update c wok t)) = bx_self t" "bx_self (snd (access_update d wok t)) = bx_self t" for c d wok t
    by (simp_all add: bots_update_def access_update_def split: prod.split)
  have upd': "bots_update c wok t = (f, t') \<Longrightarrow> bx_self t' = bx_self t" "access_update d wok t = (f, t') \<Longrightarrow> bx_self t' = bx_self t"
    for c d wok t f t' using upd(1) [of c wok t] upd(2) [of d wok t] by simp_all
  have obs: "bx_self (after_observation i e kind deny t) = bx_self t" for i e kind deny t
    by (simp add: after_observation_def Let_def)
  show ?thesis
  proof (cases q)
    case (In_Policy i)
    then show ?thesis
      by (simp add: policy_read_def Let_def obs split: option.split prod.split message_phase.split sum.split)
  next
    case (In_Observed i wok)
    then show ?thesis
      by (auto simp: bot_observed_def obs split: option.split prod.split message_phase.split dest!: upd')
  next
    case (In_Introduced i wok)
    then show ?thesis
      by (auto simp: bots_introduced_def split: option.split prod.split message_phase.split dest!: upd')
  next
    case (In_Gate i gen now wok)
    then show ?thesis
      by (simp add: gate_answers_def Let_def split: option.split prod.split message_phase.split sum.split gate_action.split)
  next
    case (In_Written i now wok)
    then show ?thesis
      by (auto simp: pairing_written_def split: option.split prod.split message_phase.split dest!: upd')
  qed (simp_all add: message_arrives_def trusted_read_def prompt_sent_def inbox_restarts_def upd
      split: option.split prod.split message_phase.split sum.split)
qed

lemma inbox_run_self: "bx_self (inbox_run qs s) = bx_self s"
  unfolding inbox_run_def by (induction qs arbitrary: s) (simp_all add: inbox_do_self)

subsection \<open>Acceptance\<close>

text \<open>
  C37.  Nothing is interpreted that the gate did not admit, and no bot that nobody vouched for.  Over any
  interleaving of messages, introductions, pairings, approvals, member events, failed writes and restarts, a
  message that was accepted was asked to the gate with its own chat, sender and mention, and the gate delivered
  it against a committed policy; one from a bot came in a group, mentioned this bot, and its sender was trusted
  in the file the session began with or was mentioned in an \<^verbatim>\<open>/introduce\<close> in that chat by a sender whom the
  policy then in force allowed to introduce.
\<close>

theorem accepted_only_if_vouched:
  assumes "message_at (inbox_run qs (new_inbox self parser fa fb)) i = Some (e, Mp_Accepted c)"
  shows "\<exists>kind a gi gen now. classify_inbound e = Inr kind \<and>
    (i, a, gi) \<in> set (bx_admitted (inbox_run qs (new_inbox self parser fa fb))) \<and> decide_action gen a gi now = Deliver \<and>
    gi_chat gi = ie_chat e \<and> gi_chat_type gi = ie_chat_type e \<and> gi_sender gi = ie_sender e \<and>
    gi_mentioned gi = is_bot_mentioned (ie_mentions e) self \<and> gi_is_bot gi = (kind = Robot) \<and>
    (kind = Robot \<longrightarrow> ie_chat_type e = ''group'' \<and> gi_mentioned gi \<and>
       ie_sender e \<in> trusted_bot_ids (ie_chat e) (projr (load_chat_bots fb)) \<union>
         introduced_in (inbox_run qs (new_inbox self parser fa fb)) (ie_chat e))"
proof -
  let ?s = "inbox_run qs (new_inbox self parser fa fb)"
  have self: "bx_self ?s = self" by (simp add: inbox_run_self new_inbox_def)
  have "message_phase_ok (projr (load_chat_bots fb)) ?s i e (Mp_Accepted c)"
    by (rule inbox_okD(3) [OF inbox_run_ok [OF new_inbox_ok] assms])
  then obtain kind a gi gen now where q: "question_ok (projr (load_chat_bots fb)) ?s e kind gi"
    and adm: "(i, a, gi) \<in> set (bx_admitted ?s)" and del: "decide_action gen a gi now = Deliver"
    unfolding message_phase_ok_def message_phase.case by blast
  obtain trusted where gi: "gi = gate_question ?s e kind trusted"
    and src: "gi_trusted_bot gi \<Longrightarrow> ie_sender e \<in> trust_source (projr (load_chat_bots fb)) ?s (ie_chat e)"
    and kind: "classify_inbound e = Inr kind"
    using q unfolding question_ok_def by blast
  have f: "gi_chat gi = ie_chat e" "gi_chat_type gi = ie_chat_type e" "gi_sender gi = ie_sender e"
    "gi_mentioned gi = is_bot_mentioned (ie_mentions e) self" "gi_is_bot gi = (kind = Robot)"
    "gi_trusted_bot gi \<Longrightarrow> ie_chat_type e = ''group''"
    by (simp_all add: gi gate_question_def self)
  have "gi_trusted_bot gi \<and> gi_mentioned gi" if "kind = Robot"
    using del f(5) that
    by (auto simp: decide_action_def dreamux_feishu_gate_def gate_p2p_def gate_group_def Let_def split: if_splits)
  then show ?thesis using kind adm del f src unfolding trust_source_def by blast
qed


subsection \<open>The pending context\<close>

text \<open>What every input but a clear keeps of a chat: its generation and its trusted bots only grow, a pending context stays.\<close>

definition bots_grow :: "inbox \<Rightarrow> inbox \<Rightarrow> bool" where
  "bots_grow s s' \<longleftrightarrow> bots_store_ok s' \<and> (\<forall>chat.
     be_generation (bots_entry_of (bots_of s) chat) \<le> be_generation (bots_entry_of (bots_of s') chat) \<and>
     trusted_bot_ids chat (bots_of s) \<subseteq> trusted_bot_ids chat (bots_of s') \<and>
     (be_needs (bots_entry_of (bots_of s) chat) \<longrightarrow> be_needs (bots_entry_of (bots_of s') chat)))"

lemma bots_grow_same: "bots_store_ok s \<Longrightarrow> bx_bots s' = bx_bots s \<Longrightarrow> bots_grow s s'"
  by (simp add: bots_grow_def bots_of_def bots_store_ok_def)

lemma bots_grow_update:
  assumes ok: "bots_store_ok s" and upd: "bots_update c wok s = (failed, s')"
    and keep: "\<And>w. c (bots_of s) = Some w \<Longrightarrow> bots_ok w"
    and grow: "\<And>w chat. c (bots_of s) = Some w \<Longrightarrow>
      be_generation (bots_entry_of (bots_of s) chat) \<le> be_generation (bots_entry_of w chat) \<and>
      trusted_bot_ids chat (bots_of s) \<subseteq> trusted_bot_ids chat w \<and>
      (be_needs (bots_entry_of (bots_of s) chat) \<longrightarrow> be_needs (bots_entry_of w chat))"
  shows "bots_grow s s'"
proof -
  note u = bots_update_cases [OF ok keep upd]
  show ?thesis using u(1,2) grow [of "bots_of s'"] unfolding bots_grow_def by (metis order_refl)
qed

lemma bots_grow_phase [simp]: "bots_grow s (put_message_phase i p s') = bots_grow s s'"
  by (simp add: bots_grow_def)

lemma bots_grow_observation [simp]: "bots_grow s (after_observation i e kind deny s') = bots_grow s s'"
  by (simp add: after_observation_def Let_def)

lemma bots_grow_loaded:
  "bots_store_ok s \<Longrightarrow> bots_grow s (s\<lparr>bx_bots := (bx_bots s)\<lparr>slot := Some (bots_of s)\<rparr>\<rparr>)"
  using load_chat_bots_total [of "disk (bx_bots s)"]
  by (simp add: bots_grow_def bots_of_def bots_store_ok_def store_ok_def bots_of_ok [unfolded bots_of_def])

lemma bots_grow_do:
  assumes ok: "bots_store_ok s" and q: "\<And>c g wok. q \<noteq> In_Cleared c g wok"
  shows "bots_grow s (inbox_do q s)"
proof (cases q)
  case (In_Message e)
  then show ?thesis by (auto simp: message_arrives_def intro: bots_grow_same [OF ok])
next
  case (In_Policy i)
  have "bots_grow s s" "bots_grow s (s\<lparr>bx_access := st\<rparr>)" "bots_grow s (s\<lparr>bx_access := st, bx_granted := x\<rparr>)" for st x
    by (rule bots_grow_same [OF ok], simp)+
  then show ?thesis using In_Policy
    by (simp add: policy_read_def Let_def split: option.split prod.split message_phase.split sum.split)
next
  case (In_Observed i wok)
  have "bots_grow s s'" if "bots_update (observe_change chat' b) wok s = (failed, s')" for chat' b failed s'
  proof (rule bots_grow_update [OF ok that])
    fix w assume w: "observe_change chat' b (bots_of s) = Some w"
    show "bots_ok w" by (rule observe_entry(1) [OF w]) simp
    show "be_generation (bots_entry_of (bots_of s) chat) \<le> be_generation (bots_entry_of w chat) \<and>
      trusted_bot_ids chat (bots_of s) \<subseteq> trusted_bot_ids chat w \<and>
      (be_needs (bots_entry_of (bots_of s) chat) \<longrightarrow> be_needs (bots_entry_of w chat))" for chat
      using observe_entry(2) [OF w, of chat] by (auto simp: trusted_of)
  qed
  then show ?thesis using In_Observed bots_grow_same [OF ok refl]
    by (auto simp: bot_observed_def split: option.split prod.split message_phase.split)
next
  case (In_Introduced i wok)
  have "bots_grow s s'" if "bots_update (\<lambda>v. fst (trust_change chat' bs v)) wok s = (failed, s')" for chat' bs failed s'
  proof (rule bots_grow_update [OF ok that])
    fix w assume w: "fst (trust_change chat' bs (bots_of s)) = Some w"
    show "bots_ok w" by (rule trust_entry(1) [OF w]) simp
    show "be_generation (bots_entry_of (bots_of s) chat) \<le> be_generation (bots_entry_of w chat) \<and>
      trusted_bot_ids chat (bots_of s) \<subseteq> trusted_bot_ids chat w \<and>
      (be_needs (bots_entry_of (bots_of s) chat) \<longrightarrow> be_needs (bots_entry_of w chat))" for chat
      using trust_entry(2) [OF w, of chat] trust_entry(3,4,5) [OF w] by (cases "chat = chat'") (auto simp: trusted_of)
  qed
  then show ?thesis using In_Introduced bots_grow_same [OF ok refl]
    by (auto simp: bots_introduced_def split: option.split prod.split message_phase.split)
next
  case (In_Trusted i)
  then show ?thesis using bots_grow_loaded [OF ok] bots_grow_same [OF ok refl]
    by (simp add: trusted_read_def load_bots [OF ok] split: option.split prod.split message_phase.split)
next
  case (In_Gate i gen now wok)
  have "bots_grow s s" "bots_grow s (s\<lparr>bx_access := st\<rparr>)" "bots_grow s (s\<lparr>bx_access := st, bx_admitted := x\<rparr>)" for st x
    by (rule bots_grow_same [OF ok], simp)+
  then show ?thesis using In_Gate
    by (simp add: gate_answers_def Let_def split: option.split prod.split message_phase.split sum.split gate_action.split)
next
  case (In_Sent i sent)
  then show ?thesis using bots_grow_same [OF ok refl]
    by (simp add: prompt_sent_def split: option.split prod.split message_phase.split)
next
  case (In_Written i now wok)
  have "bots_grow s s'" if "access_update c wok s = (failed, s')" for c failed s'
    by (rule bots_grow_same [OF ok]) (use that in \<open>auto simp: access_update_def split: prod.splits\<close>)
  then show ?thesis using In_Written bots_grow_same [OF ok refl]
    by (auto simp: pairing_written_def split: option.split prod.split message_phase.split)
next
  case (In_Approve token now wok)
  then show ?thesis by (auto intro: bots_grow_same [OF ok])
next
  case (In_Bot_Added chat' ev wok)
  have "bots_grow s s'" if "bots_update (\<lambda>v. fst (bot_added_change chat' ev v)) wok s = (failed, s')" for failed s'
  proof (rule bots_grow_update [OF ok that])
    fix w assume w: "fst (bot_added_change chat' ev (bots_of s)) = Some w"
    show "bots_ok w" by (rule bot_added_entry(1) [OF w]) simp
    show "be_generation (bots_entry_of (bots_of s) chat) \<le> be_generation (bots_entry_of w chat) \<and>
      trusted_bot_ids chat (bots_of s) \<subseteq> trusted_bot_ids chat w \<and>
      (be_needs (bots_entry_of (bots_of s) chat) \<longrightarrow> be_needs (bots_entry_of w chat))" for chat
      using bot_added_entry(2,3,4) [OF w bots_of_ok, of chat] by (simp add: trusted_of)
  qed
  then show ?thesis using In_Bot_Added by (cases "bots_update (\<lambda>v. fst (bot_added_change chat' ev v)) wok s") simp
next
  case (In_Cleared chat' g' wok)
  then show ?thesis using q by blast
next
  case In_Restart
  then show ?thesis
    by (simp add: bots_grow_def bots_of_def bots_store_ok_def inbox_restarts_def fresh_store_def store_ok_def)
qed

text \<open>A clear keeps the other chats, and its own unless it names the very generation.\<close>

lemma bots_cleared:
  assumes ok: "bots_store_ok s" and upd: "bots_update (clear_change chat' g') wok s = (failed, s')"
  shows "bots_store_ok s'" "be_generation (bots_entry_of (bots_of s') c) = be_generation (bots_entry_of (bots_of s) c)"
    "trusted_bot_ids c (bots_of s') = trusted_bot_ids c (bots_of s)"
    "be_needs (bots_entry_of (bots_of s) c) \<Longrightarrow> c \<noteq> chat' \<or> g' \<noteq> be_generation (bots_entry_of (bots_of s) c) \<Longrightarrow>
       be_needs (bots_entry_of (bots_of s') c)"
    "failed \<Longrightarrow> bots_of s' = bots_of s"
proof -
  note u = bots_update_cases [OF ok _ upd]
  have keep: "\<And>w. clear_change chat' g' (bots_of s) = Some w \<Longrightarrow> bots_ok w" by (erule clear_entry(1)) (rule bots_of_ok)
  show "bots_store_ok s'" using u(1) keep by blast
  have "bots_of s' = bots_of s \<or> clear_change chat' g' (bots_of s) = Some (bots_of s')" using u(2) keep by blast
  then show "be_generation (bots_entry_of (bots_of s') c) = be_generation (bots_entry_of (bots_of s) c)"
    "trusted_bot_ids c (bots_of s') = trusted_bot_ids c (bots_of s)"
    "be_needs (bots_entry_of (bots_of s) c) \<Longrightarrow> c \<noteq> chat' \<or> g' \<noteq> be_generation (bots_entry_of (bots_of s) c) \<Longrightarrow>
       be_needs (bots_entry_of (bots_of s') c)"
    using clear_entry(2-4) [of chat' g' "bots_of s" "bots_of s'" c] by (auto simp: trusted_of)
  show "bots_of s' = bots_of s" if failed
  proof (cases wok)
    case True
    have "isl (Inr x :: access_error + bots_state) = False" for x by simp
    then have "\<not> failed" using upd True
      by (auto simp: bots_update_def store_update_def load_bots [OF ok] Let_def split: option.splits)
    then show ?thesis using that by blast
  next
    case False
    then show ?thesis using u(2) keep by blast
  qed
qed

text \<open>An introduction that names a bot not trusted yet changes the chat.\<close>

lemma introduce_changes:
  assumes "\<exists>b \<in> set bots. pb_id b \<notin> trusted_bot_ids chat s" "\<And>b. b \<in> set bots \<Longrightarrow> pb_id b \<noteq> []"
  shows "\<exists>w. fst (trust_change chat bots s) = Some w"
proof -
  let ?e = "bots_entry_of s chat"
  obtain e' added where f: "fold introduce_one bots (?e, []) = (e', added)" by (cases "fold introduce_one bots (?e, [])")
  have "e' \<noteq> ?e" using introduce_fold(1) [OF f] assms by (auto simp: trusted_of)
  then show ?thesis by (simp add: trust_change_def f Let_def)
qed

text \<open>An introduction that adds a bot leaves its chat with the context pending, under a new generation.\<close>

lemma introduction_commits:
  assumes ok: "inbox_ok v0 s" and at: "message_at s i = Some (e, Mp_Introduce peers)"
    and fresh: "\<exists>b \<in> set peers. pb_id b \<notin> trusted_bot_ids (ie_chat e) (bots_of s)"
    and s': "s' = inbox_do (In_Introduced i True) s"
  shows "bots_store_ok s'" "be_needs (bots_entry_of (bots_of s') (ie_chat e))"
    "be_generation (bots_entry_of (bots_of s) (ie_chat e)) < be_generation (bots_entry_of (bots_of s') (ie_chat e))"
    "pb_id ` set peers \<subseteq> trusted_bot_ids (ie_chat e) (bots_of s')"
proof -
  let ?c = "\<lambda>v. fst (trust_change (ie_chat e) peers v)"
  have peers: "pb_id b \<noteq> []" if "b \<in> set peers" for b
    using inbox_okD(3) [OF ok at] introduced_peers_mentioned that by (auto simp: message_phase_ok_def)
  obtain failed t where upd: "bots_update ?c True s = (failed, t)" by (cases "bots_update ?c True s")
  have bots: "bots_of s' = bots_of t" "bots_store_ok s' = bots_store_ok t" by (simp_all add: s' bots_introduced_def at upd)
  obtain w where w: "?c (bots_of s) = Some w" using introduce_changes [OF fresh] peers by blast
  note u = bots_update_cases [OF inbox_okD(1) [OF ok] _ upd]
  have t: "bots_of t = w" "bots_store_ok t"
    using u(4) [OF _ TrueI w] u(1) trust_entry(1) [OF _ bots_of_ok] by blast+
  show "bots_store_ok s'" using bots t by simp
  show trusted: "pb_id ` set peers \<subseteq> trusted_bot_ids (ie_chat e) (bots_of s')"
    unfolding trusted_of bots t(1) using trust_entry(3) [OF w bots_of_ok] peers by auto
  obtain b where b: "b \<in> set peers" "pb_id b \<notin> trusted_bot_ids (ie_chat e) (bots_of s)" using fresh by blast
  have changed: "pb_id b \<in> set (be_trusted (bots_entry_of w (ie_chat e)))"
    "pb_id b \<notin> set (be_trusted (bots_entry_of (bots_of s) (ie_chat e)))"
    using trusted b unfolding trusted_of bots t(1) by auto
  show "be_needs (bots_entry_of (bots_of s') (ie_chat e))" unfolding bots t(1)
    by (rule trust_entry(6) [OF w bots_of_ok]) (use changed in auto)
  show "be_generation (bots_entry_of (bots_of s) (ie_chat e)) < be_generation (bots_entry_of (bots_of s') (ie_chat e))"
    unfolding bots t(1) by (rule trust_entry(7) [OF w bots_of_ok]) (use changed in auto)
qed

subsection \<open>Concrete runs\<close>

definition demo_policy :: json_file where
  "demo_policy = encode_access (default_access_state\<lparr>ac_allow_users := [Str ''ann'']\<rparr>)"

definition demo_mention :: "string \<Rightarrow> string \<Rightarrow> mention" where
  "demo_mention key who = \<lparr> mn_key = key, mn_open = Some who, mn_union = None, mn_name = Some ''peer'' \<rparr>"

definition demo_introduce :: inbound_event where
  "demo_introduce =
     \<lparr> ie_chat_type = ''group'', ie_chat = ''oc'', ie_sender = ''ann'', ie_sender_type = ''user'', ie_sender_name = ''Ann'',
       ie_message = ''m0'', ie_message_type = ''text'', ie_content = Some (Obj [(''text'', Str '' @_1 /Introduce'')]),
       ie_mentions = [demo_mention ''@_1'' ''pal''], ie_thread = None, ie_root = None \<rparr>"

definition demo_bot_message :: inbound_event where
  "demo_bot_message =
     \<lparr> ie_chat_type = ''group'', ie_chat = ''oc'', ie_sender = ''pal'', ie_sender_type = ''app'', ie_sender_name = '''',
       ie_message = ''m1'', ie_message_type = ''text'', ie_content = Some (Obj [(''text'', Str ''@_1 hello'')]),
       ie_mentions = [demo_mention ''@_1'' ''me''], ie_thread = None, ie_root = None \<rparr>"

definition demo_inbox :: inbox where
  "demo_inbox = new_inbox (Some ''me'') (\<lambda>_. []) (Some demo_policy) None"

definition demo_inputs :: "inbox_input list" where
  "demo_inputs = [In_Message demo_introduce, In_Policy 0, In_Introduced 0 True, In_Sent 0 (Some None), In_Message demo_bot_message,
     In_Policy 1, In_Trusted 1, In_Gate 1 (\<lambda>_. ''abcdef'') 5 True]"

lemma demo_inbox_run:
  "message_at (inbox_run demo_inputs demo_inbox) 1 = Some (demo_bot_message, Mp_Accepted None)"
  by code_simp

theorem accepted_only_if_vouched_witness:
  "ie_sender demo_bot_message \<in> introduced_in (inbox_run demo_inputs demo_inbox) ''oc''"
proof -
  have none: "trusted_bot_ids ''oc'' (projr (load_chat_bots None)) = {}" by code_simp
  have kind: "classify_inbound demo_bot_message = Inr Robot" "ie_chat demo_bot_message = ''oc''" by code_simp+
  show ?thesis
    using accepted_only_if_vouched [OF demo_inbox_run [unfolded demo_inbox_def]] none kind unfolding demo_inbox_def by auto
qed

end
