(* ===== verification/Feishu_Routing_Props.thy ===== *)
theory Feishu_Routing_Props
  imports Feishu_Routing
begin

text \<open>
  The invariant of the routing document, its preservation by every operation, the
  abstract route table the document implements, and the properties of the routing
  component.
\<close>

subsection \<open>The invariant\<close>

text \<open>
  One row per target; a chat with a Collaboration Space has no whole-chat row; spaces
  have their derived ids, distinct ids and distinct names; one subscription row per
  document and recipient.
\<close>

definition space_exclusive :: "routing_document \<Rightarrow> bool" where
  "space_exclusive d \<longleftrightarrow>
     (\<forall>row \<in> set (rd_bindings d). \<forall>sp \<in> set (rd_spaces d).
        tr_kind (b_target row) = Group \<longrightarrow> tr_chat (b_target row) \<noteq> sp_container sp)"

definition sub_key :: "doc_subscription \<Rightarrow> string \<times> string option" where
  "sub_key r = (sub_token r, sub_team r)"

definition routing_inv :: "(string \<Rightarrow> string) \<Rightarrow> string \<Rightarrow> string \<Rightarrow> routing_document \<Rightarrow> bool" where
  "routing_inv sha disp chan d \<longleftrightarrow>
     distinct (map row_key (rd_bindings d)) \<and>
     space_exclusive d \<and>
     distinct (map sp_id (rd_spaces d)) \<and>
     distinct (map sp_name (rd_spaces d)) \<and>
     (\<forall>sp \<in> set (rd_spaces d). sp_id sp = space_id_of sha disp chan (sp_container sp)) \<and>
     distinct (map sub_key (rd_subscriptions d))"

lemma routing_inv_empty: "routing_inv sha disp chan (empty_routing_document d0 c0 now)"
  by (simp add: routing_inv_def space_exclusive_def empty_routing_document_def)

lemma doc_part_Inr: "doc_part r = Inr x \<longleftrightarrow> (\<exists>a. r = Inr (x, a))"
  by (cases r) (auto simp: doc_part_def)

lemma doc_part_simps [simp]:
  "doc_part (Inl e) = Inl e"
  "doc_part (Inr (d, a)) = Inr d"
  by (simp_all add: doc_part_def)

lemma row_key_upd [simp]:
  "row_key (r\<lparr>b_team := a, b_display := b, b_space := c, b_root := e, b_updated := u\<rparr>) = row_key r"
  "row_key (r\<lparr>b_root := e\<rparr>) = row_key r"
  by (simp_all add: row_key_def)

lemma inv_set_updated [simp]:
  "routing_inv sha disp chan (d\<lparr>rd_updated := u\<rparr>) = routing_inv sha disp chan d"
  by (simp add: routing_inv_def space_exclusive_def)

text \<open>Changing rows in place keeps the invariant when keys and targets stay.\<close>

lemma inv_update_rows:
  assumes "routing_inv sha disp chan d"
    and "\<And>r. b_target (f r) = b_target r"
  shows "routing_inv sha disp chan (d\<lparr>rd_bindings := update_first p f (rd_bindings d)\<rparr>)"
proof -
  have keys: "map row_key (update_first p f (rd_bindings d)) = map row_key (rd_bindings d)"
    by (rule map_update_first) (simp add: row_key_def assms(2))
  have "space_exclusive (d\<lparr>rd_bindings := update_first p f (rd_bindings d)\<rparr>)"
    using assms unfolding routing_inv_def space_exclusive_def
    by (auto dest!: set_update_first)
  with keys assms(1) show ?thesis
    by (simp add: routing_inv_def)
qed

lemma inv_filter_rows:
  "routing_inv sha disp chan d \<Longrightarrow>
   routing_inv sha disp chan (d\<lparr>rd_bindings := filter p (rd_bindings d)\<rparr>)"
  by (auto simp: routing_inv_def space_exclusive_def distinct_map_filter)

lemma inv_filter_subs:
  "routing_inv sha disp chan d \<Longrightarrow>
   routing_inv sha disp chan (d\<lparr>rd_subscriptions := filter p (rd_subscriptions d)\<rparr>)"
  by (auto simp: routing_inv_def space_exclusive_def distinct_map_filter)

lemma inv_filter_spaces:
  "routing_inv sha disp chan d \<Longrightarrow>
   routing_inv sha disp chan (d\<lparr>rd_spaces := filter p (rd_spaces d)\<rparr>)"
  by (auto simp: routing_inv_def space_exclusive_def distinct_map_filter)

lemma find_key_None:
  "find (\<lambda>row. row_key row = k) rows = None \<longleftrightarrow> k \<notin> row_key ` set rows"
  by (auto simp: find_None_iff)

lemma inv_append_row:
  assumes "routing_inv sha disp chan d"
    and "row_key row \<notin> row_key ` set (rd_bindings d)"
    and "tr_kind (b_target row) = Group \<Longrightarrow>
         \<forall>sp \<in> set (rd_spaces d). sp_container sp \<noteq> tr_chat (b_target row)"
  shows "routing_inv sha disp chan (d\<lparr>rd_bindings := rd_bindings d @ [row]\<rparr>)"
  using assms by (auto simp: routing_inv_def space_exclusive_def)

subsection \<open>Preservation, one lemma per operation\<close>

lemma bind_inv [inv_intros]:
  assumes "routing_inv sha disp chan d" "bind_mut i now d = Inr (Some d', a)"
  shows "routing_inv sha disp chan d'"
proof (cases "find (\<lambda>row. row_key row = target_key (bi_target i)) (rd_bindings d)")
  case None
  let ?row = "\<lparr>b_target = to_record (bi_target i), b_display = bi_display i,
               b_team = bi_team i, b_space = bi_space i, b_root = bi_root i,
               b_created = now, b_updated = now\<rparr>"
  from None assms(2) have d': "d' = d\<lparr>rd_bindings := rd_bindings d @ [?row]\<rparr>"
    and free: "\<not> (tg_kind (bi_target i) = Group \<and>
         (\<exists>row \<in> set (rd_spaces d). sp_container row = tg_chat (bi_target i)))"
    by (auto simp: bind_mut_def Let_def split: if_splits)
  show ?thesis unfolding d'
  proof (rule inv_append_row [OF assms(1)])
    show "row_key ?row \<notin> row_key ` set (rd_bindings d)"
      using None unfolding find_key_None by (simp add: row_key_def)
  qed (use free in \<open>auto simp: to_record_def\<close>)
next
  case (Some ex)
  with assms(2) show ?thesis
    by (auto simp: bind_mut_def Let_def split: if_splits intro!: inv_update_rows [OF assms(1)])
qed

lemma fill_inv [inv_intros]:
  "routing_inv sha disp chan d \<Longrightarrow> fill_root_mut t r d = Inr (Some d', a) \<Longrightarrow>
   routing_inv sha disp chan d'"
  by (auto simp: fill_root_mut_def split: option.splits if_splits intro!: inv_update_rows)

lemma unbind_scan_Inr:
  "unbind_scan key ow rows = Inr (kept, rem) \<Longrightarrow>
   kept = filter (\<lambda>row. row_key row \<noteq> key) rows \<and>
   (rem = None \<longleftrightarrow> (\<forall>row \<in> set rows. row_key row \<noteq> key)) \<and>
   (\<forall>row. rem = Some row \<longrightarrow> row \<in> set rows \<and> row_key row = key) \<and>
   (\<forall>row \<in> set rows. row_key row = key \<longrightarrow> \<not> owner_mismatch ow (b_team row))"
  by (induction rows arbitrary: kept rem)
    (auto simp: bind_res_Inr_iff split: if_splits option.splits)

lemma unbind_scan_Inl:
  "unbind_scan key ow rows = Inl e \<longleftrightarrow>
   e = Err_Only_Dispatcher \<and> (\<exists>row \<in> set rows. row_key row = key \<and> owner_mismatch ow (b_team row))"
  by (induction rows) (auto simp: bind_res_def split: sum.splits)

lemma unbind_inv [inv_intros]:
  assumes "routing_inv sha disp chan d" "unbind_mut t ow d = Inr (Some d', a)"
  shows "routing_inv sha disp chan d'"
proof -
  from assms(2) obtain kept rem where
    "unbind_scan (target_key t) ow (rd_bindings d) = Inr (kept, rem)"
    "d' = d\<lparr>rd_bindings := kept\<rparr>"
    by (auto simp: unbind_mut_def bind_res_Inr_iff split: option.splits)
  with unbind_scan_Inr [OF this(1)] inv_filter_rows [OF assms(1)] show ?thesis by simp
qed

lemma forget_inv [inv_intros]:
  assumes "routing_inv sha disp chan d" "forget_team_mut team d = Inr (Some d', a)"
  shows "routing_inv sha disp chan d'"
  using assms(2) inv_filter_subs [OF inv_filter_rows [OF assms(1)]]
  by (auto simp: forget_team_mut_def Let_def split: if_splits)

lemma subscribe_inv [inv_intros]:
  assumes "routing_inv sha disp chan d" "subscribe_mut k ty team now d = Inr (Some d', a)"
  shows "routing_inv sha disp chan d'"
  using assms
  by (auto simp: subscribe_mut_def routing_inv_def space_exclusive_def sub_key_def find_None_iff
      split: option.splits)

lemma unsubscribe_inv [inv_intros]:
  "routing_inv sha disp chan d \<Longrightarrow> unsubscribe_mut k team d = Inr (Some d', a) \<Longrightarrow>
   routing_inv sha disp chan d'"
  by (auto simp: unsubscribe_mut_def Let_def inv_filter_subs split: if_splits)

lemma unbind_space_inv [inv_intros]:
  "routing_inv sha disp chan d \<Longrightarrow> unbind_space_mut name d = Inr (Some d', a) \<Longrightarrow>
   routing_inv sha disp chan d'"
  by (auto simp: unbind_space_mut_def Let_def inv_filter_spaces split: if_splits)

lemma distinct_update_first_name:
  assumes "distinct (map g xs)"
    and "\<And>x. x \<in> set xs \<Longrightarrow> g x = n \<Longrightarrow> p x" and "distinct (map h xs)"
    and "\<And>x y. x \<in> set xs \<Longrightarrow> y \<in> set xs \<Longrightarrow> p x \<Longrightarrow> p y \<Longrightarrow> h x = h y"
    and "\<And>x. g (f x) = n"
  shows "distinct (map g (update_first p f xs))"
  using assms
proof (induction xs)
  case Nil
  then show ?case by simp
next
  case (Cons x xs)
  show ?case
  proof (cases "p x")
    case True
    with Cons.prems have "\<forall>y \<in> set xs. \<not> p y" by (auto simp: image_iff)
    with Cons.prems(2) have "n \<notin> g ` set xs" by auto
    with True Cons.prems(1,5) show ?thesis by simp
  next
    case False
    have IH: "distinct (map g (update_first p f xs))"
      by (rule Cons.IH) (use Cons.prems in auto)
    have "g x \<notin> g ` set (update_first p f xs)"
      using Cons.prems(1,2,5) False by (auto dest!: set_update_first)
    with IH False show ?thesis by simp
  qed
qed

lemma bind_space_inv [inv_intros]:
  assumes inv: "routing_inv sha disp chan d"
    and step: "bind_space_mut sha disp chan i now d = Inr (Some d', a)"
  shows "routing_inv sha disp chan d'"
proof -
  let ?sid = "space_id_of sha disp chan (bs_container i)"
  from step have noclash: "\<forall>row \<in> set (rd_spaces d). sp_name row = bs_name i \<longrightarrow> sp_id row = ?sid"
    and nogroup: "\<forall>row \<in> set (rd_bindings d). tr_kind (b_target row) = Group \<longrightarrow>
          tr_chat (b_target row) \<noteq> bs_container i"
    by (auto simp: bind_space_mut_def Let_def find_None_iff split: option.splits)
  show ?thesis
  proof (cases "find (\<lambda>row. sp_id row = ?sid) (rd_spaces d)")
    case None
    then have new: "?sid \<notin> sp_id ` set (rd_spaces d)"
      by (auto simp: find_None_iff)
    have name: "bs_name i \<notin> sp_name ` set (rd_spaces d)"
    proof
      assume "bs_name i \<in> sp_name ` set (rd_spaces d)"
      then obtain row where row: "row \<in> set (rd_spaces d)" "bs_name i = sp_name row"
        by (rule imageE) simp
      then have "?sid = sp_id row" using noclash by simp
      then have "?sid \<in> sp_id ` set (rd_spaces d)"
        using row(1) by (rule image_eqI)
      with new show False by contradiction
    qed
    from None step obtain sp where d': "d' = d\<lparr>rd_spaces := rd_spaces d @ [sp]\<rparr>"
      and sp: "sp_id sp = ?sid" "sp_name sp = bs_name i" "sp_container sp = bs_container i"
      by (auto simp: bind_space_mut_def Let_def split: option.splits)
    have "space_exclusive d'"
      using inv nogroup sp unfolding routing_inv_def space_exclusive_def d' by auto
    with inv new name sp show ?thesis
      unfolding d' routing_inv_def by simp
  next
    case (Some ex)
    let ?upd = "\<lambda>row. row\<lparr>sp_name := bs_name i, sp_display := bs_display i,
                  sp_runtime := bs_runtime i, sp_identity := bs_identity i,
                  sp_repo := bs_repo i, sp_updated := now\<rparr>"
    let ?sps = "update_first (\<lambda>row. sp_id row = ?sid) ?upd (rd_spaces d)"
    from Some step have d': "d' = d\<lparr>rd_spaces := ?sps\<rparr>"
      by (auto simp: bind_space_mut_def Let_def split: option.splits)
    have ids: "map sp_id ?sps = map sp_id (rd_spaces d)"
      by (rule map_update_first) simp
    have names: "distinct (map sp_name ?sps)"
      by (rule distinct_update_first_name [where n = "bs_name i" and h = sp_id])
        (use inv noclash in \<open>auto simp: routing_inv_def\<close>)
    show ?thesis
      using inv names ids unfolding d' routing_inv_def space_exclusive_def
      by (auto dest!: set_update_first)
  qed
qed

lemma routing_mut_inv:
  assumes "routing_inv sha disp chan d" "routing_mut sha disp chan q now d = Inr (Some d')"
  shows "routing_inv sha disp chan d'"
  using assms by (cases q) (auto simp: doc_part_Inr split: if_splits intro: inv_intros)

lemma routing_change_inv:
  assumes "routing_inv sha disp chan d"
    and "routing_change sha disp chan q now dir_ok stamp d = Inr (Some d')"
  shows "routing_inv sha disp chan d'"
  using assms
  by (auto simp: routing_change_def update_routing_document_def
      split: sum.splits option.splits if_splits intro: routing_mut_inv)

subsection \<open>Reachable documents\<close>

inductive routing_reachable ::
  "(string \<Rightarrow> string) \<Rightarrow> string \<Rightarrow> string \<Rightarrow> routing_document \<Rightarrow> bool" for sha disp chan where
  start: "routing_reachable sha disp chan (empty_routing_document disp chan now)"
| step: "routing_reachable sha disp chan d \<Longrightarrow>
         routing_change sha disp chan q now dir_ok stamp d = Inr (Some d') \<Longrightarrow>
         routing_reachable sha disp chan d'"

lemma reachable_routing_inv: "routing_reachable sha disp chan d \<Longrightarrow> routing_inv sha disp chan d"
proof (induction rule: routing_reachable.induct)
  case (start now)
  show ?case by (rule routing_inv_empty)
next
  case (step d q now dir_ok stamp d')
  then show ?case by (blast intro: routing_change_inv)
qed

subsection \<open>The document as a route table\<close>

text \<open>
  What the operations mean for routing is a map from binding keys to Teams.  The locale
  states that interface; a client proves its facts about routing from it alone.
\<close>

definition route_of :: "routing_document \<Rightarrow> string \<Rightarrow> string option" where
  "route_of d k = map_option b_team (find (\<lambda>row. row_key row = k) (rd_bindings d))"

locale route_table =
  fixes lookup :: "'d \<Rightarrow> string \<Rightarrow> string option"
    and bind_to :: "string \<Rightarrow> string \<Rightarrow> 'd \<Rightarrow> 'd \<Rightarrow> bool"
    and release :: "string \<Rightarrow> 'd \<Rightarrow> 'd \<Rightarrow> bool"
    and forget :: "string \<Rightarrow> 'd \<Rightarrow> 'd \<Rightarrow> bool"
  assumes lookup_bind: "bind_to k team d d' \<Longrightarrow> lookup d' = (lookup d)(k \<mapsto> team)"
    and lookup_release: "release k d d' \<Longrightarrow> lookup d' = (lookup d)(k := None)"
    and lookup_forget: "forget team d d' \<Longrightarrow>
       lookup d' = (\<lambda>k. if lookup d k = Some team then None else lookup d k)"
begin

text \<open>The first key of a chain that has a route decides.\<close>

fun serving :: "'d \<Rightarrow> string list \<Rightarrow> string option" where
  "serving d [] = None"
| "serving d (k # ks) = (case lookup d k of Some team \<Rightarrow> Some team | None \<Rightarrow> serving d ks)"

lemma serving_in: "serving d ks = Some team \<Longrightarrow> \<exists>k \<in> set ks. lookup d k = Some team"
  by (induction ks) (auto split: option.splits)

lemma serving_bind_head: "bind_to k team d d' \<Longrightarrow> serving d' (k # ks) = Some team"
  by (simp add: lookup_bind)

lemma serving_bind_other:
  "bind_to k team d d' \<Longrightarrow> k \<notin> set ks \<Longrightarrow> serving d' ks = serving d ks"
  by (induction ks) (auto simp: lookup_bind split: option.splits)

lemma serving_release_head: "release k d d' \<Longrightarrow> k \<notin> set ks \<Longrightarrow> serving d' (k # ks) = serving d ks"
proof -
  assume r: "release k d d'" and n: "k \<notin> set ks"
  have "serving d' ks = serving d ks"
    using n by (induction ks) (auto simp: lookup_release [OF r] split: option.splits)
  then show ?thesis by (simp add: lookup_release [OF r])
qed

lemma serving_forget: "forget team d d' \<Longrightarrow> serving d' ks \<noteq> Some team"
  by (auto simp: lookup_forget dest: serving_in split: if_splits)

end

definition keys_of_chain :: "feishu_target \<Rightarrow> string list" where
  "keys_of_chain t = map target_key (resolution_chain t)"

text \<open>What an effective bind, unbind and forget do: a change, or nothing to change.\<close>

definition bound_to :: "string \<Rightarrow> string \<Rightarrow> routing_document \<Rightarrow> routing_document \<Rightarrow> bool" where
  "bound_to k team d d' \<longleftrightarrow>
     (\<exists>i now ans r. target_key (bi_target i) = k \<and> bi_team i = team \<and>
        bind_mut i now d = Inr (r, ans) \<and> d' = (case r of None \<Rightarrow> d | Some x \<Rightarrow> x))"

definition released :: "string \<Rightarrow> routing_document \<Rightarrow> routing_document \<Rightarrow> bool" where
  "released k d d' \<longleftrightarrow>
     (\<exists>t ow ans r. target_key t = k \<and>
        unbind_mut t ow d = Inr (r, ans) \<and> d' = (case r of None \<Rightarrow> d | Some x \<Rightarrow> x))"

definition forgotten :: "string \<Rightarrow> routing_document \<Rightarrow> routing_document \<Rightarrow> bool" where
  "forgotten team d d' \<longleftrightarrow> distinct (map row_key (rd_bindings d)) \<and>
     (\<exists>ans r. forget_team_mut team d = Inr (r, ans) \<and> d' = (case r of None \<Rightarrow> d | Some x \<Rightarrow> x))"

lemma find_update_key:
  assumes "\<And>r. row_key (f r) = row_key r"
  shows "find (\<lambda>row. row_key row = k') (update_first (\<lambda>row. row_key row = k) f rows) =
    (if k' = k then map_option f (find (\<lambda>row. row_key row = k) rows)
     else find (\<lambda>row. row_key row = k') rows)"
  using assms by (induction rows) auto

lemma route_of_append:
  "route_of (d\<lparr>rd_bindings := rd_bindings d @ [row]\<rparr>) k =
     (case route_of d k of Some tm \<Rightarrow> Some tm
      | None \<Rightarrow> (if row_key row = k then Some (b_team row) else None))"
  by (auto simp: route_of_def find_append split: option.splits)

lemma route_of_bound: "bound_to k team d d' \<Longrightarrow> route_of d' = (route_of d)(k \<mapsto> team)"
proof
  fix k'
  assume "bound_to k team d d'"
  then obtain i now ans r where i: "target_key (bi_target i) = k" "bi_team i = team"
    and b: "bind_mut i now d = Inr (r, ans)" and d': "d' = (case r of None \<Rightarrow> d | Some x \<Rightarrow> x)"
    by (auto simp: bound_to_def)
  show "route_of d' k' = ((route_of d)(k \<mapsto> team)) k'"
  proof (cases "find (\<lambda>row. row_key row = k) (rd_bindings d)")
    case None
    with b i d' show ?thesis
      by (auto simp: bind_mut_def Let_def row_key_def [of "\<lparr>b_target = _, b_display = _,
            b_team = _, b_space = _, b_root = _, b_created = _, b_updated = _\<rparr>"]
          route_of_append split: if_splits option.splits) (simp_all add: route_of_def)
  next
    case (Some ex)
    with b i d' show ?thesis
      by (auto simp: bind_mut_def Let_def route_of_def find_update_key split: if_splits)
  qed
qed

lemma find_filter_key:
  "find (\<lambda>row. row_key row = k') (filter (\<lambda>row. row_key row \<noteq> k) rows) =
     (if k' = k then None else find (\<lambda>row. row_key row = k') rows)"
  by (induction rows) auto

lemma route_of_released: "released k d d' \<Longrightarrow> route_of d' = (route_of d)(k := None)"
proof
  fix k'
  assume "released k d d'"
  then obtain t ow ans r kept rem where t: "target_key t = k"
    and sc: "unbind_scan k ow (rd_bindings d) = Inr (kept, rem)"
    and d': "d' = (case r of None \<Rightarrow> d | Some x \<Rightarrow> x)"
    and r: "r = (case rem of None \<Rightarrow> None | Some row \<Rightarrow> Some (d\<lparr>rd_bindings := kept\<rparr>))"
    by (auto simp: released_def unbind_mut_def bind_res_Inr_iff split: option.splits)
  from unbind_scan_Inr [OF sc] have kept: "kept = filter (\<lambda>row. row_key row \<noteq> k) (rd_bindings d)"
    and none: "rem = None \<longleftrightarrow> (\<forall>row \<in> set (rd_bindings d). row_key row \<noteq> k)" by auto
  show "route_of d' k' = ((route_of d)(k := None)) k'"
  proof (cases rem)
    case None
    with none have "find (\<lambda>row. row_key row = k) (rd_bindings d) = None"
      by (simp add: find_None_iff)
    with None d' r show ?thesis by (simp add: route_of_def)
  next
    case (Some row)
    with d' r kept show ?thesis by (simp add: route_of_def find_filter_key)
  qed
qed

lemma find_filter_team:
  assumes "distinct (map row_key rows)"
  shows "find (\<lambda>row. row_key row = k) (filter (\<lambda>row. b_team row \<noteq> team) rows) =
    (case find (\<lambda>row. row_key row = k) rows of None \<Rightarrow> None
     | Some row \<Rightarrow> if b_team row = team then None else Some row)"
  using assms
proof (induction rows)
  case Nil
  show ?case by simp
next
  case (Cons a rows)
  have "find (\<lambda>row. row_key row = row_key a) (filter q rows) = None" for q
    using Cons.prems by (auto simp: find_None_iff image_iff)
  with Cons show ?case by (cases "row_key a = k") auto
qed

lemma route_of_forgotten:
  "forgotten team d d' \<Longrightarrow>
   route_of d' = (\<lambda>k. if route_of d k = Some team then None else route_of d k)"
proof
  fix k
  assume f: "forgotten team d d'"
  then have dist: "distinct (map row_key (rd_bindings d))" by (simp add: forgotten_def)
  from f have "rd_bindings d' = filter (\<lambda>row. b_team row \<noteq> team) (rd_bindings d)"
    by (auto simp: forgotten_def forget_team_mut_def Let_def filter_kept_iff split: if_splits)
  then show "route_of d' k = (if route_of d k = Some team then None else route_of d k)"
    by (simp add: route_of_def find_filter_team [OF dist] split: option.splits)
qed

interpretation routes: route_table route_of bound_to released forgotten
  by unfold_locales (rule route_of_bound route_of_released route_of_forgotten; assumption)+

lemma route_of_key:
  "route_of d (target_key c) = map_option b_team (find_binding (rd_bindings d) c)"
  by (simp add: route_of_def find_binding_def)

lemma bound_plan_serving:
  "map_option fst (bound_plan (rd_bindings d) t) = routes.serving d (keys_of_chain t)"
proof -
  have "map_option fst (bound_plan_chain (rd_bindings d) cs) =
        routes.serving d (map target_key cs)" for cs
    by (induction cs) (auto simp: route_of_key split: option.splits)
  then show ?thesis by (simp add: bound_plan_def keys_of_chain_def)
qed

lemma chain_keys:
  "keys_of_chain t = target_key t #
     (if tg_kind t = Topic then [''group'' @ [nul] @ tg_chat t] else [])"
  by (auto simp: keys_of_chain_def resolution_chain_def key_containing_chat)

subsection \<open>Properties\<close>

text \<open>
  C7. Every document the operations can reach from the empty one keeps the routing
  invariant: one row per target, no whole-chat row on a chat with a Collaboration Space
  and no Space on a chat with a whole-chat row, spaces with distinct ids and names, one
  subscription row per document and recipient.
\<close>

theorem routing_invariant:
  assumes "routing_reachable sha disp chan d"
  shows "routing_inv sha disp chan d"
  using assms by (rule reachable_routing_inv)

definition sample_sha :: "string \<Rightarrow> string" where
  "sample_sha s = s"

definition sample_space :: bind_space_input where
  "sample_space = \<lparr>bs_name = ''ops'', bs_container = ''oc_1'', bs_display = None,
     bs_runtime = ''codex'', bs_identity = None, bs_repo = None\<rparr>"

definition sample_doc :: routing_document where
  "sample_doc = (empty_routing_document ''d'' ''c'' 0)
     \<lparr>rd_spaces := [\<lparr>sp_id = take 12 ''d'' @ [nul] @ ''c'' @ [nul] @ ''oc_1'',
        sp_name = ''ops'', sp_container = ''oc_1'', sp_display = None, sp_runtime = ''codex'',
        sp_identity = None, sp_repo = None, sp_created = 1, sp_updated = 1\<rparr>],
      rd_updated := 2\<rparr>"

lemma sample_reachable: "routing_reachable sample_sha ''d'' ''c'' sample_doc"
proof -
  have "routing_change sample_sha ''d'' ''c'' (R_Bind_Space sample_space) 1 True 2
          (empty_routing_document ''d'' ''c'' 0) = Inr (Some sample_doc)"
    by (simp add: routing_change_def update_routing_document_def bind_space_mut_def Let_def
        empty_routing_document_def sample_space_def sample_doc_def sample_sha_def
        space_id_of_def nul_def)
  from routing_reachable.step [OF routing_reachable.start this] show ?thesis .
qed

lemma routing_invariant_witness:
  "routing_inv sample_sha ''d'' ''c'' sample_doc"
  by (rule routing_invariant [OF sample_reachable])

text \<open>
  What the invariant is for: in every reachable document, a topic of a chat that has
  a Collaboration Space, with no binding of its own, is provisioned a Team when it may be.
  No other row can answer for it.
\<close>

theorem space_topic_provisions:
  assumes "routing_reachable sha disp chan d"
    and "tg_kind t = Topic"
    and "space_for_container d (tg_chat t) = Some space"
    and "binding_for d t = None"
  shows "plan d t True = Plan_Provision space"
proof -
  have inv: "space_exclusive d"
    using reachable_routing_inv [OF assms(1)] by (simp add: routing_inv_def)
  have sp: "space \<in> set (rd_spaces d)" "sp_container space = tg_chat t"
    using assms(3) by (auto simp: space_for_container_def dest: find_Some_in)
  have "row_key row \<noteq> target_key (containing_chat t)" if "row \<in> set (rd_bindings d)" for row
    using inv sp that unfolding space_exclusive_def
    by (fastforce simp: key_containing_chat [OF assms(2)] row_key_def
        group_key_iff [simplified] from_record_def)
  then have "find_binding (rd_bindings d) (containing_chat t) = None"
    by (auto simp: find_binding_def find_None_iff)
  then have "bound_plan (rd_bindings d) t = None"
    using assms(2,4) by (simp add: bound_plan_def resolution_chain_def binding_for_def)
  with assms(2,3) show ?thesis by (simp add: plan_def is_bindable_target_def)
qed

lemma space_topic_provisions_witness:
  "plan sample_doc (topic_target ''oc_1'' ''omt_9'') True =
     Plan_Provision (hd (rd_spaces sample_doc))"
  by (rule space_topic_provisions [OF sample_reachable])
    (simp_all add: topic_target_def space_for_container_def sample_doc_def binding_for_def
      find_binding_def empty_routing_document_def)

text \<open>
  A committed bind takes effect for exactly its target: the target resolves to the
  Team afterwards, and every target whose own key and parent group are other keys resolves
  as before.
\<close>

theorem bind_then_plan:
  assumes "bind_mut i now d = Inr (Some d', ans)"
  shows "(\<exists>m. plan d' (bi_target i) cp = Plan_Bound (bi_team i) m) \<and>
         (target_key (bi_target i) \<notin> set (keys_of_chain t) \<longrightarrow>
          map_option fst (bound_plan (rd_bindings d') t) =
          map_option fst (bound_plan (rd_bindings d) t))"
proof -
  have b: "bound_to (target_key (bi_target i)) (bi_team i) d d'"
    using assms by (force simp: bound_to_def)
  have "map_option fst (bound_plan (rd_bindings d') (bi_target i)) = Some (bi_team i)"
    unfolding bound_plan_serving chain_keys by (rule routes.serving_bind_head [OF b])
  then have "\<exists>m. plan d' (bi_target i) cp = Plan_Bound (bi_team i) m"
    by (auto simp: plan_def)
  moreover have "target_key (bi_target i) \<notin> set (keys_of_chain t) \<Longrightarrow>
         map_option fst (bound_plan (rd_bindings d') t) =
         map_option fst (bound_plan (rd_bindings d) t)"
    unfolding bound_plan_serving by (rule routes.serving_bind_other [OF b])
  ultimately show ?thesis by blast
qed

definition sample_bind :: bind_input where
  "sample_bind = \<lparr>bi_target = topic_target ''oc_1'' ''omt_1'', bi_team = ''alpha'',
     bi_display = None, bi_space = None, bi_root = None, bi_require_owner = None\<rparr>"

lemma bind_then_plan_witness:
  "\<exists>d' ans. bind_mut sample_bind 5 sample_doc = Inr (Some d', ans) \<and>
     (\<exists>m. plan d' (topic_target ''oc_1'' ''omt_1'') False = Plan_Bound ''alpha'' m)"
proof -
  obtain d' ans where b: "bind_mut sample_bind 5 sample_doc = Inr (Some d', ans)"
    by (simp add: bind_mut_def sample_bind_def sample_doc_def topic_target_def
        empty_routing_document_def Let_def)
  from bind_then_plan [OF b] b show ?thesis by (auto simp: sample_bind_def)
qed

text \<open>
  Once a Team is forgotten, no conversation resolves to it and no document
  subscription names it, whether or not there was anything to remove; and forgetting it
  again changes nothing.
\<close>

theorem forget_team_complete:
  assumes "routing_reachable sha disp chan d"
    and "forget_team_mut team d = Inr (r, ans)"
    and "d' = (case r of None \<Rightarrow> d | Some x \<Rightarrow> x)"
  shows "map_option fst (bound_plan (rd_bindings d') t) \<noteq> Some team \<and>
         (\<forall>s \<in> set (rd_subscriptions d'). sub_team s \<noteq> Some team) \<and>
         forget_team_mut team d' = Inr (None, ([], []))"
proof -
  have "distinct (map row_key (rd_bindings d))"
    using reachable_routing_inv [OF assms(1)] by (simp add: routing_inv_def)
  with assms(2,3) have f: "forgotten team d d'"
    by (auto simp: forgotten_def)
  have rows: "rd_bindings d' = filter (\<lambda>row. b_team row \<noteq> team) (rd_bindings d)"
    and subs: "rd_subscriptions d' = filter (\<lambda>s. sub_team s \<noteq> Some team) (rd_subscriptions d)"
    using assms(2,3)
    by (auto simp: forget_team_mut_def Let_def filter_kept_iff split: if_splits)
  have "map_option fst (bound_plan (rd_bindings d') t) \<noteq> Some team"
    unfolding bound_plan_serving by (rule routes.serving_forget [OF f])
  moreover have "forget_team_mut team d' = Inr (None, ([], []))"
    by (simp add: forget_team_mut_def Let_def rows subs filter_empty_conv)
  ultimately show ?thesis by (simp add: subs)
qed

lemma forget_team_complete_witness:
  "map_option fst (bound_plan (rd_bindings sample_doc) (topic_target ''oc_1'' ''omt_1''))
     \<noteq> Some ''alpha''"
proof -
  have h: "forget_team_mut ''alpha'' sample_doc = Inr (None, ([], []))"
    by (simp add: forget_team_mut_def sample_doc_def empty_routing_document_def)
  from forget_team_complete [OF sample_reachable h, of sample_doc] show ?thesis by simp
qed

lemma filter_update_own:
  assumes "find p rows = Some ex" "b_team ex = me" "\<And>r. b_team (f r) = me"
  shows "filter (\<lambda>row. b_team row \<noteq> me) (update_first p f rows) =
         filter (\<lambda>row. b_team row \<noteq> me) rows"
  using assms by (induction rows) (auto split: if_splits)

text \<open>
  A Team acting for itself (\<open>requireOwner\<close> set to it) never takes or releases
  another Team's route: whatever bind or unbind it runs, every row of another Team is
  still in the document, and every new row is its own.
\<close>

theorem owner_keeps_others:
  assumes "routing_reachable sha disp chan d"
    and "q = R_Bind i \<and> bi_require_owner i = Some me \<and> bi_team i = me
         \<or> q = R_Unbind t (Some me)"
    and "routing_change sha disp chan q now dir_ok stamp d = Inr (Some d')"
  shows "filter (\<lambda>row. b_team row \<noteq> me) (rd_bindings d') =
         filter (\<lambda>row. b_team row \<noteq> me) (rd_bindings d)"
  using assms(2)
proof
  assume q: "q = R_Bind i \<and> bi_require_owner i = Some me \<and> bi_team i = me"
  then obtain d1 ans where b: "bind_mut i now d = Inr (Some d1, ans)"
    and d': "rd_bindings d' = rd_bindings d1"
    using assms(3) by (auto simp: routing_change_def update_routing_document_def doc_part_Inr
        split: sum.splits option.splits if_splits)
  show ?thesis
  proof (cases "find (\<lambda>row. row_key row = target_key (bi_target i)) (rd_bindings d)")
    case None
    with b q d' show ?thesis by (auto simp: bind_mut_def Let_def split: if_splits)
  next
    case (Some ex)
    with b q have "b_team ex = bi_team i"
      by (auto simp: bind_mut_def Let_def owner_mismatch_def split: if_splits)
    note keep = filter_update_own [OF Some this]
    from Some b q d' show ?thesis
      by (auto simp: bind_mut_def Let_def intro!: keep split: if_splits)
  qed
next
  assume q: "q = R_Unbind t (Some me)"
  then obtain d1 ans kept rem where
    b: "unbind_scan (target_key t) (Some me) (rd_bindings d) = Inr (kept, rem)"
    and d': "rd_bindings d' = kept"
    using assms(3) by (auto simp: routing_change_def update_routing_document_def doc_part_Inr
        unbind_mut_def bind_res_Inr_iff split: sum.splits option.splits if_splits)
  from unbind_scan_Inr [OF b] d' show ?thesis
    by (auto simp: owner_mismatch_def intro!: filter_cong)
qed

lemma owner_keeps_others_witness:
  "filter (\<lambda>row. b_team row \<noteq> ''alpha'')
     (rd_bindings (sample_doc\<lparr>rd_bindings := [\<lparr>b_target = \<lparr>tr_kind = Topic, tr_chat = ''oc_1'',
        tr_thread = Some ''omt_1''\<rparr>, b_display = None, b_team = ''alpha'', b_space = None,
        b_root = None, b_created = 5, b_updated = 5\<rparr>], rd_updated := 6\<rparr>)) =
   filter (\<lambda>row. b_team row \<noteq> ''alpha'') (rd_bindings sample_doc)"
  by (rule owner_keeps_others [OF sample_reachable,
        of "R_Bind (sample_bind\<lparr>bi_require_owner := Some ''alpha''\<rparr>)"
           "sample_bind\<lparr>bi_require_owner := Some ''alpha''\<rparr>" _ _ 5 True 6])
    (simp_all add: sample_bind_def routing_change_def update_routing_document_def bind_mut_def
      sample_doc_def topic_target_def empty_routing_document_def Let_def to_record_def)

text \<open>
  C8. The session's routing store is durable: after any queue of operations, failed
  ones, failed writes and refused directories included, the value in memory is the value a
  restart would read back from the file.
\<close>

theorem routing_store_durable:
  assumes "\<forall>q \<in> set qs. \<exists>op now dir_ok stamp w.
             q = Op_Update (routing_change sha disp chan op now dir_ok stamp) w (\<lambda>_ _. None)"
    and "run_queue (read_routing_document disp chan t0) encode_routing qs
           (fresh_store f) = (rs, st)"
    and "slot st = Some d"
  shows "store_load (read_routing_document disp chan t0) (fresh_store (disk st)) =
           (Inr d, \<lparr>slot = Some d, disk = disk st\<rparr>)"
proof -
  have keeps: "doc_of_session disp chan w"
    if "doc_of_session disp chan v" "routing_mut sha disp chan op now v = Inr (Some w)"
    for v w op now
    using that
    by (cases op) (auto simp: doc_part_Inr doc_of_session_def bind_mut_def Let_def
        fill_root_mut_def unbind_mut_def bind_res_Inr_iff forget_team_mut_def subscribe_mut_def
        unsubscribe_mut_def bind_space_mut_def unbind_space_mut_def
        split: if_splits option.splits)
  have "op_ok (read_routing_document disp chan t0) (doc_of_session disp chan) q"
    if "q \<in> set qs" for q
    using assms(1) that
    by (force simp: op_ok_def routing_change_def update_routing_document_def
        doc_of_session_def [of _ _ "_\<lparr>rd_updated := _\<rparr>"]
        doc_of_session_def [symmetric] dest: keeps
        split: sum.splits option.splits if_splits)
  with routing_owner.run_queue_ok [of disp chan t0 "fresh_store f" qs] assms(2)
  have "store_ok (read_routing_document disp chan t0) (doc_of_session disp chan) st"
    by simp
  with assms(3) show ?thesis by (rule routing_owner.reload_same [rotated])
qed

lemma routing_store_durable_witness:
  "store_load (read_routing_document ''d'' ''c'' 0)
     (fresh_store (Some (encode_routing sample_doc))) =
   (Inr sample_doc, \<lparr>slot = Some sample_doc, disk = Some (encode_routing sample_doc)\<rparr>)"
proof -
  let ?q = "Op_Update (routing_change sample_sha ''d'' ''c'' (R_Bind_Space sample_space) 1 True 2)
              True (\<lambda>_ _. None)"
  have c: "routing_change sample_sha ''d'' ''c'' (R_Bind_Space sample_space) 1 True 2
          (empty_routing_document ''d'' ''c'' 0) = Inr (Some sample_doc)"
    by (simp add: routing_change_def update_routing_document_def bind_space_mut_def Let_def
        empty_routing_document_def sample_space_def sample_doc_def sample_sha_def
        space_id_of_def nul_def)
  have l: "store_load (read_routing_document ''d'' ''c'' 0) (fresh_store None) =
      (Inr (empty_routing_document ''d'' ''c'' 0),
       (fresh_store None)\<lparr>slot := Some (empty_routing_document ''d'' ''c'' 0)\<rparr>)"
    by (simp add: store_load_def fresh_store_def read_routing_document_def)
  have u: "store_update (read_routing_document ''d'' ''c'' 0) encode_routing
      (routing_change sample_sha ''d'' ''c'' (R_Bind_Space sample_space) 1 True 2) True
      (\<lambda>_ _. None) (fresh_store None) =
      (Inr sample_doc, \<lparr>slot = Some sample_doc, disk = Some (encode_routing sample_doc)\<rparr>)"
    unfolding store_update_def l by (simp add: c)
  have r: "run_queue (read_routing_document ''d'' ''c'' 0) encode_routing [?q] (fresh_store None)
      = ([Inr sample_doc],
         \<lparr>slot = Some sample_doc, disk = Some (encode_routing sample_doc)\<rparr>)"
    by (simp add: u)
  show ?thesis
    using routing_store_durable [OF _ r, where d = sample_doc and sha = sample_sha] by auto
qed

end
