(* ===== verification/Feishu_Delivery_Props.thy ===== *)
theory Feishu_Delivery_Props
  imports Feishu_Delivery Feishu_Inbound_Props Feishu_Routing_Props
begin

text \<open>
  What deliveries keep: a message goes where the routes say at that moment, a second time only to the Dispatcher
  after a proven rejection; a topic has one provisioning run at a time; and the context of an introduction stays
  pending until a submitted message has carried it.
\<close>

subsection \<open>Jobs and routes\<close>

lemma job_update_fields [simp]:
  "hb_inbox (job_update i f h) = hb_inbox h" "hb_routes (job_update i f h) = hb_routes h"
  "hb_live (job_update i f h) = hb_live h" "hb_runs (job_update i f h) = hb_runs h"
  "hb_owner (job_update i f h) = hb_owner h" "hb_sha (job_update i f h) = hb_sha h"
  "routes_now (job_update i f h) = routes_now h"
  "hb_jobs (job_update i f h) j = (if j = i then map_option f (hb_jobs h i) else hb_jobs h j)"
  by (auto simp: job_update_def routes_now_def split: option.split)

lemma job_phase_fields [simp]:
  "hb_inbox (job_phase i p h) = hb_inbox h" "hb_routes (job_phase i p h) = hb_routes h"
  "hb_live (job_phase i p h) = hb_live h" "hb_runs (job_phase i p h) = hb_runs h"
  "routes_now (job_phase i p h) = routes_now h"
  "hb_jobs (job_phase i p h) j = (if j = i then map_option (dl_phase_update (\<lambda>_. p)) (hb_jobs h i) else hb_jobs h j)"
  by (simp_all add: job_phase_def)

lemma end_run_fields [simp]:
  "hb_inbox (end_run i h) = hb_inbox h" "hb_routes (end_run i h) = hb_routes h" "hb_live (end_run i h) = hb_live h"
  "hb_jobs (end_run i h) = hb_jobs h" "routes_now (end_run i h) = routes_now h"
  by (auto simp: end_run_def routes_now_def Let_def split: option.split)

lemma routes_update_fields [simp]:
  "hb_inbox (snd (routes_update q io h)) = hb_inbox h" "hb_live (snd (routes_update q io h)) = hb_live h"
  "hb_runs (snd (routes_update q io h)) = hb_runs h" "hb_jobs (snd (routes_update q io h)) = hb_jobs h"
  by (auto simp: routes_update_def split: prod.split)

text \<open>To which Team a document routes a conversation.\<close>

definition served :: "routing_document \<Rightarrow> feishu_target \<Rightarrow> string option" where
  "served doc t = map_option fst (bound_plan (rd_bindings doc) t)"

lemma served_exact: "binding_for doc t = Some b \<Longrightarrow> served doc t = Some (b_team b)"
  by (auto simp: served_def bound_plan_def resolution_chain_def binding_for_def)

text \<open>A bind that did not fail routes its conversation to its Team.\<close>

lemma bind_serves:
  assumes "routes_update (R_Bind b) io h = (False, h')"
  shows "\<exists>doc. routes_now h' = Some doc \<and> served doc (bi_target b) = Some (bi_team b)"
proof -
  obtain now dir_ok stamp ok where io: "io = (now, dir_ok, stamp, ok)" by (cases io)
  let ?ld = "read_routing_document (fst (hb_owner h)) (snd (hb_owner h)) now"
  obtain d st where ld: "store_load ?ld (hb_routes h) = (Inr d, st)" and st: "slot st = Some d"
    using assms by (auto simp: io routes_update_def store_update_def store_load_def split: prod.splits sum.splits option.splits)
  have same: "served (d'\<lparr>rd_updated := stamp\<rparr>) t = served d' t" for d' :: routing_document and t by (simp add: served_def)
  have serves: "served (case r of None \<Rightarrow> d | Some x \<Rightarrow> x) (bi_target b) = Some (bi_team b)"
    if "bind_mut b now d = Inr (r, ans)" for r ans
  proof -
    have "bound_to (target_key (bi_target b)) (bi_team b) d (case r of None \<Rightarrow> d | Some x \<Rightarrow> x)"
      using that unfolding bound_to_def by blast
    then show ?thesis unfolding served_def bound_plan_serving chain_keys by (rule routes.serving_bind_head)
  qed
  obtain r ans where m: "bind_mut b now d = Inr (r, ans)"
    using assms by (cases "bind_mut b now d")
      (auto simp: io routes_update_def store_update_def ld routing_change_def update_routing_document_def doc_part_def)
  show ?thesis
  proof (cases r)
    case None
    then have "hb_routes h' = st"
      using assms by (simp add: io routes_update_def store_update_def ld routing_change_def update_routing_document_def
          doc_part_def m) auto
    then show ?thesis using serves [OF m] st None by (simp add: routes_now_def)
  next
    case (Some d')
    have "dir_ok \<and> ok" using assms Some
      by (auto simp: io routes_update_def store_update_def ld routing_change_def update_routing_document_def
          doc_part_def m split: if_splits)
    then have "slot (hb_routes h') = Some (d'\<lparr>rd_updated := stamp\<rparr>)"
      using assms Some by (auto simp: io routes_update_def store_update_def ld routing_change_def update_routing_document_def
          doc_part_def m Let_def)
    then show ?thesis using serves [OF m] same Some by (simp add: routes_now_def)
  qed
qed

subsection \<open>Where a message was handed\<close>

text \<open>
  The shape of what was asked of Core for a message, by the plan it had: the Dispatcher once; or the Team of its
  conversation, and the Dispatcher after that Team's rejection; or a Team that served the topic, and nobody else.
\<close>

definition handed_properly :: "handoff \<Rightarrow> bool" where
  "handed_properly d \<longleftrightarrow>
     (case dl_plan d of
        None \<Rightarrow> dl_asked d = []
      | Some (Plan_Bound team m) \<Rightarrow>
          dl_asked d = [] \<or>
          (\<exists>doc a. served doc (dl_target d) = Some team \<and>
             (dl_asked d = [(To_Team team, Some doc, a)] \<or>
              (\<exists>code doc' a'. a = Some (So_Rejected code) \<and>
                 dl_asked d = [(To_Team team, Some doc, a), (To_Dispatcher, doc', a')])))
      | Some (Plan_Provision space) \<Rightarrow>
          dl_asked d = [] \<or>
          (\<exists>doc team a. served doc (dl_target d) = Some team \<and> dl_asked d = [(To_Team team, Some doc, a)])
      | Some p \<Rightarrow>
          dl_asked d = [] \<or>
          (\<exists>doc a. plan doc (dl_target d) (dl_can d) = p \<and> dl_asked d = [(To_Dispatcher, Some doc, a)]))"

definition provisioned :: "handoff \<Rightarrow> bool" where
  "provisioned d \<longleftrightarrow> (\<exists>s. dl_plan d = Some (Plan_Provision s))"

text \<open>What a delivery reports is what Core answered last, or an end without an answer.\<close>

definition reported :: "handoff \<Rightarrow> submit_outcome \<Rightarrow> bool" where
  "reported d o' \<longleftrightarrow> (o' = So_Unsubmitted \<and> dl_asked d = []) \<or> o' = So_Error \<or>
     (\<exists>xs r doc. dl_asked d = xs @ [(r, doc, Some o')])"

text \<open>Somebody has been asked and has not answered yet.\<close>

definition awaiting :: "errand \<Rightarrow> handoff \<Rightarrow> bool" where
  "awaiting er d \<longleftrightarrow> (\<exists>xs r doc. dl_asked d = xs @ [(r, doc, None)] \<and>
     (case er of
        Er_Run \<Rightarrow> provisioned d
      | Er_Bound team \<Rightarrow> xs = [] \<and> r = To_Team team \<and> (\<exists>m. dl_plan d = Some (Plan_Bound team m))
      | Er_Final \<Rightarrow> True))"

definition job_ok :: "handoff \<Rightarrow> bool" where
  "job_ok d \<longleftrightarrow> handed_properly d \<and>
     (case dl_phase d of
        Dp_Handed er \<Rightarrow> awaiting er d
      | Dp_Forget team code \<Rightarrow> (\<exists>m doc. dl_plan d = Some (Plan_Bound team m) \<and> dl_asked d = [(To_Team team, doc, Some (So_Rejected code))])
      | Dp_Create _ \<Rightarrow> provisioned d \<and> dl_asked d = []
      | Dp_Bind_Topic _ \<Rightarrow> provisioned d \<and> dl_asked d = []
      | Dp_Join _ \<Rightarrow> provisioned d \<and> dl_asked d = []
      | Dp_Notice o' \<Rightarrow> reported d o'
      | Dp_Clear g o' \<Rightarrow> reported d o' \<and> dl_clear d = Some g \<and> (\<exists>t. o' = So_Submitted t)
      | Dp_Over (De_Done o') \<Rightarrow> reported d o'
      | Dp_Over _ \<Rightarrow> True
      | _ \<Rightarrow> dl_plan d = None \<and> dl_asked d = [] \<and> dl_clear d = None)"

text \<open>A delivery that runs for its topic.\<close>

definition runs_topic :: "handoff \<Rightarrow> bool" where
  "runs_topic d \<longleftrightarrow> (case dl_phase d of Dp_Create _ \<Rightarrow> True | Dp_Bind_Topic _ \<Rightarrow> True | Dp_Handed Er_Run \<Rightarrow> True | _ \<Rightarrow> False)"

definition hub_ok :: "hub \<Rightarrow> bool" where
  "hub_ok h \<longleftrightarrow> (\<forall>i d. hb_jobs h i = Some d \<longrightarrow> job_ok d) \<and>
     (\<forall>k i. hb_runs h k = Some i \<longleftrightarrow> (\<exists>d. hb_jobs h i = Some d \<and> target_key (dl_target d) = k \<and> runs_topic d))"

lemma hub_okD:
  assumes "hub_ok h"
  shows "hb_jobs h i = Some d \<Longrightarrow> job_ok d" "hb_jobs h i = Some d \<Longrightarrow> runs_topic d \<Longrightarrow> hb_runs h (target_key (dl_target d)) = Some i"
    "hb_runs h k = Some i \<Longrightarrow> \<exists>d. hb_jobs h i = Some d \<and> target_key (dl_target d) = k \<and> runs_topic d"
  using assms unfolding hub_ok_def by blast+

text \<open>A step of one delivery, with what it does to the runs.\<close>

lemma hub_ok_move:
  assumes ok: "hub_ok h" and at: "hb_jobs h i = Some d"
    and jobs: "\<And>j. hb_jobs h' j = (if j = i then Some d' else hb_jobs h j)"
    and good: "job_ok d'" and same: "dl_target d' = dl_target d"
    and runs: "hb_runs h' = (if runs_topic d' then (hb_runs h)(target_key (dl_target d) \<mapsto> i)
      else if runs_topic d then (hb_runs h)(target_key (dl_target d) := None) else hb_runs h)"
    and free: "runs_topic d' \<Longrightarrow> \<not> runs_topic d \<Longrightarrow> hb_runs h (target_key (dl_target d)) = None"
  shows "hub_ok h'"
proof -
  note iff = ok [unfolded hub_ok_def, THEN conjunct2, rule_format]
  have "hb_runs h' k = Some j \<longleftrightarrow> (\<exists>d. hb_jobs h' j = Some d \<and> target_key (dl_target d) = k \<and> runs_topic d)" for k j
  proof (cases "j = i")
    case True
    then show ?thesis using iff [of k i] at runs jobs [of i] same by (auto split: if_splits)
  next
    case False
    then show ?thesis using iff [of k j] iff [of "target_key (dl_target d)" i] at runs jobs [of j] free
      by (auto split: if_splits)
  qed
  moreover have "hb_jobs h' j = Some e \<Longrightarrow> job_ok e" for j e
    using jobs good hub_okD(1) [OF ok] by (auto split: if_splits)
  ultimately show ?thesis unfolding hub_ok_def by blast
qed

lemma hub_ok_same:
  "hub_ok h \<Longrightarrow> hb_jobs h' = hb_jobs h \<Longrightarrow> hb_runs h' = hb_runs h \<Longrightarrow> hub_ok h'"
  by (simp add: hub_ok_def)

subsection \<open>The end of a delivery\<close>

lemma put_answer_last [simp]: "put_answer o' (xs @ [(r, doc, a)]) = xs @ [(r, doc, Some o')]"
proof (induction xs)
  case (Cons x xs)
  then show ?case by (cases "xs @ [(r, doc, a)]") simp_all
qed simp

lemma delivery_phase_fields [simp]:
  "handed_properly (d\<lparr>dl_phase := p\<rparr>) = handed_properly d" "reported (d\<lparr>dl_phase := p\<rparr>) o' = reported d o'"
  "provisioned (d\<lparr>dl_phase := p\<rparr>) = provisioned d" "awaiting er (d\<lparr>dl_phase := p\<rparr>) = awaiting er d"
  by (simp_all add: handed_properly_def reported_def provisioned_def awaiting_def
      cong: option.case_cong routing_plan.case_cong errand.case_cong)

lemma put_answer_keeps: "handed_properly d \<Longrightarrow> dl_asked d = xs @ [(r, doc, None)] \<Longrightarrow>
   handed_properly (d\<lparr>dl_asked := xs @ [(r, doc, Some o')]\<rparr>)"
  by (auto simp: handed_properly_def Cons_eq_append_conv append_eq_Cons_conv split: option.splits routing_plan.splits)

lemma finish_shape:
  assumes "hb_jobs h i = Some d" "handed_properly d" "reported d o'"
  shows "\<exists>p. finish_delivery i o' h = job_phase i p h \<and> job_ok (d\<lparr>dl_phase := p\<rparr>) \<and> \<not> runs_topic (d\<lparr>dl_phase := p\<rparr>)"
proof -
  have ok: "job_ok (d\<lparr>dl_phase := p\<rparr>) \<and> \<not> runs_topic (d\<lparr>dl_phase := p\<rparr>)"
    if "p = Dp_Over (De_Closed o') \<or> p = Dp_Notice o' \<or> p = Dp_Over (De_Done o') \<or>
      (\<exists>g t. p = Dp_Clear g o' \<and> dl_clear d = Some g \<and> o' = So_Submitted t)" for p
    using assms that by (auto simp: job_ok_def runs_topic_def)
  show ?thesis using ok assms(1) unfolding finish_delivery_def
    by (auto split: submit_outcome.split option.split)
qed

lemma settle_errand_ok:
  assumes ok: "hub_ok h" and at: "hb_jobs h i = Some d"
    and jobs: "\<And>j. hb_jobs h1 j = (if j = i then Some d1 else hb_jobs h j)" and runs: "hb_runs h1 = hb_runs h"
    and same: "dl_target d1 = dl_target d" and good: "handed_properly d1" "reported d1 o'"
    and run: "er = Er_Run \<longleftrightarrow> runs_topic d"
    and bound: "\<And>team code. er = Er_Bound team \<Longrightarrow> o' = So_Rejected code \<Longrightarrow>
      \<exists>m doc. dl_plan d1 = Some (Plan_Bound team m) \<and> dl_asked d1 = [(To_Team team, doc, Some (So_Rejected code))]"
  shows "hub_ok (settle_errand i er o' h1)"
proof -
  have at1: "hb_jobs h1 i = Some d1" by (simp add: jobs)
  let ?h2 = "if er = Er_Run then end_run i h1 else h1"
  have at2: "hb_jobs ?h2 i = Some d1" by (simp add: at1)
  obtain p where p: "finish_delivery i o' ?h2 = job_phase i p ?h2" "job_ok (d1\<lparr>dl_phase := p\<rparr>)" "\<not> runs_topic (d1\<lparr>dl_phase := p\<rparr>)"
    using finish_shape [OF at2 good] by blast
  obtain p' where p': "settle_errand i er o' h1 = job_phase i p' ?h2" "job_ok (d1\<lparr>dl_phase := p'\<rparr>)"
    "\<not> runs_topic (d1\<lparr>dl_phase := p'\<rparr>)"
  proof (cases "\<exists>team code. er = Er_Bound team \<and> o' = So_Rejected code")
    case True
    then obtain team code where er: "er = Er_Bound team" "o' = So_Rejected code" by blast
    show ?thesis
      by (rule that [of "Dp_Forget team code"]) (use bound [OF er] good er in \<open>auto simp: settle_errand_def job_ok_def runs_topic_def\<close>)
  next
    case False
    then have "settle_errand i er o' h1 = finish_delivery i o' ?h2"
      by (auto simp: settle_errand_def split: errand.split submit_outcome.split)
    then show ?thesis using that [of p] p by simp
  qed
  have "hb_runs ?h2 = (if runs_topic d then (hb_runs h)(target_key (dl_target d) := None) else hb_runs h)"
    using run runs same at1 hub_okD(2) [OF ok at] by (auto simp: end_run_def)
  then show ?thesis unfolding p'(1)
    by (intro hub_ok_move [OF ok at, where d' = "d1\<lparr>dl_phase := p'\<rparr>"]) (use p' at1 jobs same in simp_all)
qed

lemma reported_error [simp]: "reported d So_Error"
  by (simp add: reported_def)

text \<open>A hand-over by a delivery that has run for its topic exactly if it runs now.\<close>

lemma hand_over_ok:
  assumes ok: "hub_ok h" and at: "hb_jobs h i = Some d"
    and jobs: "\<And>j. hb_jobs h1 j = (if j = i then Some d1 else hb_jobs h j)" and runs: "hb_runs h1 = hb_runs h"
    and same: "dl_target d1 = dl_target d" and good: "handed_properly d1" and run: "er = Er_Run \<longleftrightarrow> runs_topic d"
    and next_ok: "job_ok (d1\<lparr>dl_phase := Dp_Handed er, dl_asked := dl_asked d1 @ [(r, routes_now h1, None)]\<rparr>)"
  shows "hub_ok (hand_over i r er h1)"
proof (cases "hb_live h1")
  case False
  then have "hand_over i r er h1 = settle_errand i er So_Error h1" by (simp add: hand_over_def)
  then show ?thesis using settle_errand_ok [OF ok at jobs runs same good reported_error run] by simp
next
  case True
  let ?d2 = "d1\<lparr>dl_phase := Dp_Handed er, dl_asked := dl_asked d1 @ [(r, routes_now h1, None)]\<rparr>"
  have "runs_topic ?d2 = runs_topic d" using run by (auto simp: runs_topic_def split: errand.split)
  moreover have "hb_runs h = (hb_runs h)(target_key (dl_target d) \<mapsto> i)" if "runs_topic d"
    using hub_okD(2) [OF ok at that] by auto
  ultimately show ?thesis
    by (intro hub_ok_move [OF ok at, where d' = ?d2])
      (use True next_ok same jobs runs in \<open>simp_all add: hand_over_def\<close>)
qed

subsection \<open>Every step keeps it\<close>

lemma not_running [simp]:
  "dl_phase d = Dp_Format x \<Longrightarrow> \<not> runs_topic d" "dl_phase d = Dp_Join r \<Longrightarrow> \<not> runs_topic d"
  "dl_phase d = Dp_Forget t c \<Longrightarrow> \<not> runs_topic d"
  by (simp_all add: runs_topic_def)

lemma is_running [simp]: "dl_phase d = Dp_Create c \<Longrightarrow> runs_topic d" "dl_phase d = Dp_Bind_Topic t \<Longrightarrow> runs_topic d"
  by (simp_all add: runs_topic_def)

lemma deliver_message_ok:
  assumes ok: "hub_ok h" and at: "hb_jobs h i = Some d" and idle: "\<not> runs_topic d"
    and jobs: "\<And>j. hb_jobs h1 j = (if j = i then Some d1 else hb_jobs h j)" and runs: "hb_runs h1 = hb_runs h"
    and same: "dl_target d1 = dl_target d" and fresh: "dl_plan d1 = None" "dl_asked d1 = []"
  shows "hub_ok (deliver_message i h1)"
proof (cases "routes_now h1")
  case None
  then show ?thesis
    by (intro hub_ok_move [OF ok at, where d' = "d1\<lparr>dl_phase := Dp_Over De_Failed\<rparr>"])
      (use idle jobs runs same fresh in \<open>simp_all add: deliver_message_def job_ok_def handed_properly_def runs_topic_def\<close>)
next
  case (Some doc)
  let ?p = "plan doc (dl_target d) (dl_can d1)"
  have at1: "hb_jobs h1 i = Some d1" by (simp add: jobs)
  have step: "deliver_message i h1 = (let h2 = job_update i (\<lambda>d. d\<lparr>dl_plan := Some ?p\<rparr>) h1 in case ?p of
      Plan_Bound team _ \<Rightarrow> hand_over i (To_Team team) (Er_Bound team) h2
    | Plan_Provision space \<Rightarrow> provision_for_inbound i space h2
    | _ \<Rightarrow> hand_over i To_Dispatcher Er_Final h2)"
    by (simp add: deliver_message_def at1 Some Let_def same)
  have hand: "hub_ok (hand_over i r er (job_update i (\<lambda>d. d\<lparr>dl_plan := Some q\<rparr>) h1))"
    if "er \<noteq> Er_Run" "job_ok (d1\<lparr>dl_plan := Some q, dl_phase := Dp_Handed er, dl_asked := [(r, Some doc, None)]\<rparr>)" for r er q
    by (rule hand_over_ok [OF ok at, where ?d1.0 = "d1\<lparr>dl_plan := Some q\<rparr>"])
      (use that idle runs same fresh Some jobs at1 in \<open>simp_all add: handed_properly_def split: routing_plan.split\<close>)
  show ?thesis
  proof (cases ?p)
    case (Plan_Bound team m)
    then have "served doc (dl_target d) = Some team"
      by (auto simp: plan_def served_def split: option.splits if_splits)
    then show ?thesis unfolding step Let_def using Plan_Bound same
      by (auto intro!: hand simp: job_ok_def handed_properly_def awaiting_def)
  next
    case (Plan_Provision space)
    show ?thesis
    proof (cases "hb_runs h (target_key (dl_target d))")
      case None
      let ?d3 = "d1\<lparr>dl_plan := Some (Plan_Provision space), dl_phase := Dp_Create (create_command_of space (dl_target d) (ie_message (dl_event d1)))\<rparr>"
      show ?thesis unfolding step Let_def using Plan_Provision
        by (auto simp: provision_for_inbound_def Let_def same at1 None runs fresh idle job_ok_def provisioned_def
            handed_properly_def jobs intro!: hub_ok_move [OF ok at, where d' = ?d3])
    next
      case (Some r)
      let ?d3 = "d1\<lparr>dl_plan := Some (Plan_Provision space), dl_phase := Dp_Join r\<rparr>"
      show ?thesis unfolding step Let_def using Plan_Provision
        by (auto simp: provision_for_inbound_def Let_def same at1 Some runs fresh idle job_ok_def provisioned_def
            handed_properly_def jobs intro!: hub_ok_move [OF ok at, where d' = ?d3])
    qed
  next
    case Plan_Dispatcher_No_Binding
    then show ?thesis unfolding step Let_def using same
      by (auto intro!: hand simp: job_ok_def handed_properly_def awaiting_def)
  next
    case Plan_Dispatcher_Not_Bindable
    then show ?thesis unfolding step Let_def using same
      by (auto intro!: hand simp: job_ok_def handed_properly_def awaiting_def)
  qed
qed

lemma quiet_phase:
  assumes ok: "hub_ok h" and at: "hb_jobs h i = Some d" and idle: "\<not> runs_topic d"
    and good: "job_ok (d\<lparr>dl_phase := p\<rparr>)" "\<not> runs_topic (d\<lparr>dl_phase := p\<rparr>)"
  shows "hub_ok (job_phase i p h)"
  by (rule hub_ok_move [OF ok at, where d' = "d\<lparr>dl_phase := p\<rparr>"]) (use idle good at in simp_all)

text \<open>Phases in which nothing was planned yet, and those in which a delivery is over without an outcome.\<close>

definition planless :: "handoff_phase \<Rightarrow> bool" where
  "planless p \<longleftrightarrow> (case p of
     Dp_Target \<Rightarrow> True | Dp_Root _ \<Rightarrow> True | Dp_Core _ \<Rightarrow> True | Dp_Bind_Chat _ \<Rightarrow> True | Dp_Reply _ \<Rightarrow> True
   | Dp_Enrich \<Rightarrow> True | Dp_Snapshot \<Rightarrow> True | Dp_Format _ \<Rightarrow> True
   | Dp_Over x \<Rightarrow> (case x of De_Done _ \<Rightarrow> False | _ \<Rightarrow> True) | _ \<Rightarrow> False)"

definition unplanned :: "handoff \<Rightarrow> bool" where
  "unplanned d \<longleftrightarrow> dl_plan d = None \<and> dl_asked d = [] \<and> dl_clear d = None \<and> \<not> runs_topic d"

lemma quiet_job:
  "planless p \<Longrightarrow> unplanned d \<Longrightarrow> job_ok (d\<lparr>dl_phase := p\<rparr>) \<and> unplanned (d\<lparr>dl_phase := p\<rparr>)"
  by (auto simp: planless_def unplanned_def job_ok_def handed_properly_def runs_topic_def
      split: handoff_phase.splits delivery_end.splits)

lemma unplanned_phase:
  assumes "hub_ok h" "hb_jobs h i = Some d"
  shows "dl_phase d = Dp_Target \<or> (\<exists>w. dl_phase d = Dp_Root w) \<or> (\<exists>c. dl_phase d = Dp_Core c) \<or> (\<exists>t. dl_phase d = Dp_Bind_Chat t) \<or>
    (\<exists>r. dl_phase d = Dp_Reply r) \<or> dl_phase d = Dp_Enrich \<or> dl_phase d = Dp_Snapshot \<or> (\<exists>b. dl_phase d = Dp_Format b)
    \<Longrightarrow> unplanned d"
  using hub_okD(1) [OF assms] by (auto simp: unplanned_def job_ok_def runs_topic_def)

text \<open>A step of a delivery nothing was planned for.\<close>

lemma hub_ok_quiet:
  assumes ok: "hub_ok h" and at: "hb_jobs h i = Some d" and un: "unplanned d" and p: "planless p"
  shows "hub_ok (job_phase i p h)"
  using quiet_phase [OF ok at _ _ _] quiet_job [OF p un] un unfolding unplanned_def by blast

lemma hub_ok_active:
  "hub_ok h \<Longrightarrow> hb_jobs h i = Some d \<Longrightarrow> unplanned d \<Longrightarrow> (hb_live h \<Longrightarrow> hub_ok (f h)) \<Longrightarrow> hub_ok (if_active i f h)"
  by (auto simp: if_active_def planless_def intro: hub_ok_quiet)

lemma hub_ok_routes: "hub_ok h \<Longrightarrow> hub_ok (snd (routes_update q io h))"
  by (rule hub_ok_same) simp_all

lemma hub_ok_inbox: "hub_ok h \<Longrightarrow> hub_ok (h\<lparr>hb_inbox := s\<rparr>)"
  by (rule hub_ok_same) simp_all

lemma target_projected_ok:
  assumes ok: "hub_ok h"
  shows "hub_ok (target_projected i mode h)"
proof (cases "\<exists>d. hb_jobs h i = Some d \<and> dl_phase d = Dp_Target")
  case True
  then obtain d where at: "hb_jobs h i = Some d" and ph: "dl_phase d = Dp_Target" by blast
  have un: "unplanned d" using unplanned_phase [OF ok at] ph by blast
  have move: "hub_ok (job_update i (\<lambda>d. d\<lparr>dl_can := c d, dl_phase := Dp_Root (w d)\<rparr>) h)" for c w
    by (rule hub_ok_move [OF ok at, where d' = "d\<lparr>dl_can := c d, dl_phase := Dp_Root (w d)\<rparr>"])
      (use un at in \<open>simp_all add: unplanned_def job_ok_def handed_properly_def runs_topic_def\<close>)
  show ?thesis
    unfolding target_projected_def using at ph
    by (auto intro!: hub_ok_active [OF ok at un] move hub_ok_quiet [OF ok at un] simp: planless_def split: option.split)
next
  case False
  then show ?thesis using ok by (auto simp: target_projected_def split: option.split)
qed

lemma run_command_ok:
  assumes "hub_ok h" "hb_jobs h i = Some d" "unplanned d"
  shows "hub_ok (run_command i n args p h)"
  unfolding run_command_def using assms(2)
  by (auto intro!: hub_ok_quiet [OF assms] simp: planless_def split: slash_name.split list.split routing_plan.split)

lemma root_learned_ok:
  assumes ok: "hub_ok h"
  shows "hub_ok (root_learned i io h)"
proof (cases "\<exists>d w. hb_jobs h i = Some d \<and> dl_phase d = Dp_Root w")
  case True
  then obtain d w where at: "hb_jobs h i = Some d" and ph: "dl_phase d = Dp_Root w" by blast
  have un: "unplanned d" using unplanned_phase [OF ok at] ph by blast
  have go: "hub_ok (if_active i (\<lambda>h. case dl_command d of None \<Rightarrow> job_phase i Dp_Enrich h
      | Some (n, args) \<Rightarrow> (case routes_now h of None \<Rightarrow> job_phase i (Dp_Over De_Failed) h
          | Some doc \<Rightarrow> run_command i n args (plan doc (dl_target d) (dl_can d)) h)) h1)"
    if ok1: "hub_ok h1" and at1: "hb_jobs h1 i = Some d" for h1
    by (auto intro!: hub_ok_active [OF ok1 at1 un] hub_ok_quiet [OF ok1 at1 un] run_command_ok [OF ok1 at1 un]
        simp: planless_def split: option.split)
  show ?thesis unfolding root_learned_def using at ph go [OF ok at] go [OF hub_ok_routes [OF ok]] by (auto simp: Let_def)
next
  case False
  then show ?thesis using ok by (auto simp: root_learned_def split: option.split handoff_phase.split)
qed

lemma reply_with_ok:
  "hub_ok h \<Longrightarrow> hb_jobs h i = Some d \<Longrightarrow> unplanned d \<Longrightarrow> hub_ok (reply_with i r h)"
  by (auto simp: reply_with_def planless_def intro!: hub_ok_active hub_ok_quiet)

lemma core_replied_ok:
  assumes ok: "hub_ok h"
  shows "hub_ok (core_replied i ans h)"
proof (cases "\<exists>d c. hb_jobs h i = Some d \<and> dl_phase d = Dp_Core c")
  case True
  then obtain d c where at: "hb_jobs h i = Some d" and ph: "dl_phase d = Dp_Core c" by blast
  have un: "unplanned d" using unplanned_phase [OF ok at] ph by blast
  show ?thesis unfolding core_replied_def using at ph
    by (auto intro!: reply_with_ok [OF ok at un] hub_ok_quiet [OF ok at un] simp: planless_def split: core_call.split option.split)
next
  case False
  then show ?thesis using ok by (auto simp: core_replied_def split: option.split handoff_phase.split)
qed

lemma chat_bound_ok:
  assumes ok: "hub_ok h"
  shows "hub_ok (chat_bound i io h)"
proof (cases "\<exists>d t. hb_jobs h i = Some d \<and> dl_phase d = Dp_Bind_Chat t")
  case True
  then obtain d t where at: "hb_jobs h i = Some d" and ph: "dl_phase d = Dp_Bind_Chat t" by blast
  have un: "unplanned d" using unplanned_phase [OF ok at] ph by blast
  let ?q = "R_Bind (bind_of (containing_chat (dl_target d)) t None None)"
  have "hub_ok (reply_with i r (snd (routes_update ?q io h)))" for r
    by (rule reply_with_ok [OF hub_ok_routes [OF ok] _ un]) (simp add: at)
  then show ?thesis using at ph by (cases "routes_update ?q io h") (simp add: chat_bound_def)
next
  case False
  then show ?thesis using ok by (auto simp: chat_bound_def split: option.split handoff_phase.split)
qed

lemma reply_sent_ok:
  assumes ok: "hub_ok h"
  shows "hub_ok (reply_sent i ok' h)"
proof (cases "\<exists>d. hb_jobs h i = Some d \<and> ((\<exists>r. dl_phase d = Dp_Reply r) \<or> (\<exists>x. dl_phase d = Dp_Notice x))")
  case True
  then obtain d where at: "hb_jobs h i = Some d" and ph: "(\<exists>r. dl_phase d = Dp_Reply r) \<or> (\<exists>x. dl_phase d = Dp_Notice x)" by blast
  have good: "job_ok d" by (rule hub_okD(1) [OF ok at])
  have idle: "\<not> runs_topic d" using ph by (auto simp: runs_topic_def)
  show ?thesis unfolding reply_sent_def using at ph good idle
    by (auto intro!: quiet_phase [OF ok at idle] simp: job_ok_def runs_topic_def)
next
  case False
  then show ?thesis using ok by (auto simp: reply_sent_def split: option.split handoff_phase.split)
qed

lemma message_enriched_ok:
  assumes ok: "hub_ok h"
  shows "hub_ok (message_enriched i ok' h)"
proof (cases "\<exists>d. hb_jobs h i = Some d \<and> dl_phase d = Dp_Enrich")
  case True
  then obtain d where at: "hb_jobs h i = Some d" and ph: "dl_phase d = Dp_Enrich" by blast
  have un: "unplanned d" using unplanned_phase [OF ok at] ph by blast
  show ?thesis unfolding message_enriched_def using at ph
    by (auto intro!: hub_ok_active [OF ok at un] hub_ok_quiet [OF ok at un] simp: planless_def)
next
  case False
  then show ?thesis using ok by (auto simp: message_enriched_def split: option.split)
qed

lemma baseline_read_ok:
  assumes ok: "hub_ok h"
  shows "hub_ok (baseline_read i h)"
proof (cases "\<exists>d. hb_jobs h i = Some d \<and> dl_phase d = Dp_Snapshot")
  case True
  then obtain d where at: "hb_jobs h i = Some d" and ph: "dl_phase d = Dp_Snapshot" by blast
  have un: "unplanned d" using unplanned_phase [OF ok at] ph by blast
  have "hub_ok (job_phase i p (h\<lparr>hb_inbox := s\<rparr>))" if "planless p" for p s
    by (rule hub_ok_quiet [OF hub_ok_inbox [OF ok] _ un that]) (simp add: at)
  then show ?thesis unfolding baseline_read_def using at ph
    by (auto simp: planless_def Let_def split: prod.split sum.split)
next
  case False
  then show ?thesis using ok by (auto simp: baseline_read_def split: option.split)
qed

lemma message_formatted_ok:
  assumes ok: "hub_ok h"
  shows "hub_ok (message_formatted i rendered h)"
proof (cases "\<exists>d b. hb_jobs h i = Some d \<and> dl_phase d = Dp_Format b")
  case True
  then obtain d b where at: "hb_jobs h i = Some d" and ph: "dl_phase d = Dp_Format b" by blast
  have un: "unplanned d" using unplanned_phase [OF ok at] ph by blast
  have "hub_ok (deliver_message i h)"
    by (rule deliver_message_ok [OF ok at, where ?d1.0 = d]) (use un at in \<open>simp_all add: unplanned_def\<close>)
  moreover have "hub_ok (deliver_message i (job_update i (\<lambda>d. d\<lparr>dl_clear := g, dl_shown := bs, dl_phase := Dp_Format None\<rparr>) h))" for g bs
    by (rule deliver_message_ok [OF ok at, where ?d1.0 = "d\<lparr>dl_clear := g, dl_shown := bs, dl_phase := Dp_Format None\<rparr>"])
      (use un at in \<open>simp_all add: unplanned_def\<close>)
  ultimately show ?thesis unfolding message_formatted_def using at ph
    by (auto intro!: hub_ok_active [OF ok at un] hub_ok_quiet [OF ok at un] simp: planless_def split: option.split)
next
  case False
  then show ?thesis using ok by (auto simp: message_formatted_def split: option.split handoff_phase.split)
qed

lemma submission_answered_ok:
  assumes ok: "hub_ok h"
  shows "hub_ok (submission_answered i ans h)"
proof (cases "\<exists>d er. hb_jobs h i = Some d \<and> dl_phase d = Dp_Handed er")
  case True
  then obtain d er where at: "hb_jobs h i = Some d" and ph: "dl_phase d = Dp_Handed er" by blast
  have good: "handed_properly d" "awaiting er d" using hub_okD(1) [OF ok at] ph by (simp_all add: job_ok_def)
  then obtain xs r doc where asked: "dl_asked d = xs @ [(r, doc, None)]" unfolding awaiting_def by blast
  let ?o = "submit_outcome_for ans"
  let ?d1 = "d\<lparr>dl_asked := xs @ [(r, doc, Some ?o)]\<rparr>"
  have "hub_ok (settle_errand i er ?o (job_update i (\<lambda>d. d\<lparr>dl_asked := put_answer ?o (dl_asked d)\<rparr>) h))"
  proof (rule settle_errand_ok [OF ok at, where ?d1.0 = ?d1])
    show "handed_properly ?d1" by (rule put_answer_keeps [OF good(1) asked])
    show "er = Er_Run \<longleftrightarrow> runs_topic d" using ph by (auto simp: runs_topic_def split: errand.split)
    show "\<exists>m doc. dl_plan ?d1 = Some (Plan_Bound team m) \<and> dl_asked ?d1 = [(To_Team team, doc, Some (So_Rejected code))]"
      if "er = Er_Bound team" "?o = So_Rejected code" for team code
      using good(2) asked that by (auto simp: awaiting_def)
  qed (use at asked in \<open>auto simp: reported_def\<close>)
  then show ?thesis by (simp add: submission_answered_def at ph)
next
  case False
  then show ?thesis using ok by (auto simp: submission_answered_def split: option.split handoff_phase.split)
qed

lemma routes_forgotten_ok:
  assumes ok: "hub_ok h"
  shows "hub_ok (routes_forgotten i io h)"
proof (cases "\<exists>d t c. hb_jobs h i = Some d \<and> dl_phase d = Dp_Forget t c")
  case True
  then obtain d t c where at: "hb_jobs h i = Some d" and ph: "dl_phase d = Dp_Forget t c" by blast
  have good: "job_ok d" by (rule hub_okD(1) [OF ok at])
  have "hub_ok (hand_over i To_Dispatcher Er_Final (snd (routes_update (R_Forget t) io h)))"
    by (rule hand_over_ok [OF ok at, where ?d1.0 = d])
      (use good ph at in \<open>auto simp: job_ok_def awaiting_def handed_properly_def\<close>)
  then show ?thesis by (simp add: routes_forgotten_def at ph)
next
  case False
  then show ?thesis using ok by (auto simp: routes_forgotten_def split: option.split handoff_phase.split)
qed

lemma run_fails_ok:
  assumes ok: "hub_ok h" and at: "hb_jobs h i = Some d" and run: "runs_topic d" and asked: "dl_asked d = []"
    and good: "handed_properly d"
  shows "hub_ok (run_fails i h)"
  unfolding run_fails_def
  by (rule settle_errand_ok [OF ok at, where ?d1.0 = d]) (use at run good asked in \<open>auto simp: reported_def\<close>)

lemma team_created_ok:
  assumes ok: "hub_ok h"
  shows "hub_ok (team_created i ans h)"
proof (cases "\<exists>d c. hb_jobs h i = Some d \<and> dl_phase d = Dp_Create c")
  case True
  then obtain d c where at: "hb_jobs h i = Some d" and ph: "dl_phase d = Dp_Create c" by blast
  have good: "provisioned d" "dl_asked d = []" "handed_properly d" and run: "runs_topic d"
    using hub_okD(1) [OF ok at] ph by (simp_all add: job_ok_def)
  have bind: "hub_ok (job_phase i (Dp_Bind_Topic team) h)" for team
    by (rule hub_ok_move [OF ok at, where d' = "d\<lparr>dl_phase := Dp_Bind_Topic team\<rparr>"])
      (use good run at hub_okD(2) [OF ok at run] in \<open>auto simp: job_ok_def\<close>)
  show ?thesis unfolding team_created_def using at ph bind run_fails_ok [OF ok at run good(2,3)]
    by (auto split: option.split)
next
  case False
  then show ?thesis using ok by (auto simp: team_created_def split: option.split handoff_phase.split)
qed

lemma topic_bound_ok:
  assumes ok: "hub_ok h"
  shows "hub_ok (topic_bound i io h)"
proof (cases "\<exists>d t. hb_jobs h i = Some d \<and> dl_phase d = Dp_Bind_Topic t")
  case True
  then obtain d t where at: "hb_jobs h i = Some d" and ph: "dl_phase d = Dp_Bind_Topic t" by blast
  have good: "provisioned d" "dl_asked d = []" "handed_properly d" and run: "runs_topic d"
    using hub_okD(1) [OF ok at] ph by (simp_all add: job_ok_def)
  obtain space where space: "dl_plan d = Some (Plan_Provision space)" using good(1) by (auto simp: provisioned_def)
  let ?b = "bind_of (dl_target d) t (Some (sp_id space)) (Some (ie_message (dl_event d)))"
  obtain failed h' where upd: "routes_update (R_Bind ?b) io h = (failed, h')" by (cases "routes_update (R_Bind ?b) io h")
  have h': "h' = snd (routes_update (R_Bind ?b) io h)" by (simp add: upd)
  have ok': "hub_ok h'" and at': "hb_jobs h' i = Some d" using hub_ok_routes [OF ok] at by (simp_all add: h')
  have "hub_ok (hand_over i (To_Team t) Er_Run h')" if fine: "\<not> failed"
  proof (rule hand_over_ok [OF ok' at', where ?d1.0 = d])
    obtain doc where "routes_now h' = Some doc" "served doc (dl_target d) = Some t"
      using bind_serves [of ?b io h h'] upd fine by (auto simp: bind_of_def)
    then show "job_ok (d\<lparr>dl_phase := Dp_Handed Er_Run, dl_asked := dl_asked d @ [(To_Team t, routes_now h', None)]\<rparr>)"
      using good space by (auto simp: job_ok_def awaiting_def handed_properly_def provisioned_def)
  qed (use at' run good in auto)
  then show ?thesis using run_fails_ok [OF ok' at' run good(2,3)] by (simp add: topic_bound_def at ph space upd)
next
  case False
  then show ?thesis using ok by (auto simp: topic_bound_def split: option.split handoff_phase.split)
qed

lemma run_joined_ok:
  assumes ok: "hub_ok h"
  shows "hub_ok (run_joined i h)"
proof (cases "\<exists>d r. hb_jobs h i = Some d \<and> dl_phase d = Dp_Join r")
  case True
  then obtain d r where at: "hb_jobs h i = Some d" and ph: "dl_phase d = Dp_Join r" by blast
  have good: "provisioned d" "dl_asked d = []" "handed_properly d" and idle: "\<not> runs_topic d"
    using hub_okD(1) [OF ok at] ph by (simp_all add: job_ok_def)
  have hand: "hub_ok (hand_over i (To_Team (b_team b)) Er_Final h)"
    if "routes_now h = Some doc" "binding_for doc (dl_target d) = Some b" for doc b
    by (rule hand_over_ok [OF ok at, where ?d1.0 = d])
      (use at good idle that served_exact [OF that(2)] in \<open>auto simp: job_ok_def awaiting_def handed_properly_def provisioned_def\<close>)
  have over: "hub_ok (job_phase i (Dp_Over De_Failed) h)"
    by (rule quiet_phase [OF ok at idle]) (use good in \<open>auto simp: job_ok_def runs_topic_def\<close>)
  obtain p where p: "finish_delivery i So_Unsubmitted h = job_phase i p h" "job_ok (d\<lparr>dl_phase := p\<rparr>)" "\<not> runs_topic (d\<lparr>dl_phase := p\<rparr>)"
    using finish_shape [OF at good(3)] good(2) by (auto simp: reported_def)
  show ?thesis unfolding run_joined_def using at ph ok hand over quiet_phase [OF ok at idle p(2,3)] p(1)
    by (auto split: option.split)
next
  case False
  then show ?thesis using ok by (auto simp: run_joined_def split: option.split handoff_phase.split)
qed

lemma baseline_cleared_ok:
  assumes ok: "hub_ok h"
  shows "hub_ok (baseline_cleared i wok h)"
proof (cases "\<exists>d g x. hb_jobs h i = Some d \<and> dl_phase d = Dp_Clear g x")
  case True
  then obtain d g x where at: "hb_jobs h i = Some d" and ph: "dl_phase d = Dp_Clear g x" by blast
  have good: "job_ok d" by (rule hub_okD(1) [OF ok at])
  have "hub_ok (job_phase i p (h\<lparr>hb_inbox := s\<rparr>))" if "p = Dp_Over De_Failed \<or> p = Dp_Over (De_Done x)" for p s
    by (rule quiet_phase [OF hub_ok_inbox [OF ok]]) (use at ph good that in \<open>auto simp: job_ok_def runs_topic_def\<close>)
  then show ?thesis unfolding baseline_cleared_def using at ph by (auto split: prod.split)
next
  case False
  then show ?thesis using ok by (auto simp: baseline_cleared_def split: option.split handoff_phase.split)
qed

lemma hub_restarts_ok: "hub_ok h \<Longrightarrow> hub_ok (hub_restarts now h)"
proof -
  assume ok: "hub_ok h"
  have "job_ok d" if at: "hb_jobs (hub_restarts now h) j = Some d" for j d
  proof -
    obtain d0 where d0: "hb_jobs h j = Some d0" and d: "d = (case dl_phase d0 of Dp_Over _ \<Rightarrow> d0 | _ \<Rightarrow> d0\<lparr>dl_phase := Dp_Over De_Lost\<rparr>)"
      using at by (auto simp: hub_restarts_def)
    show ?thesis using hub_okD(1) [OF ok d0] unfolding d
      by (cases "dl_phase d0") (auto simp: job_ok_def)
  qed
  moreover have "\<not> runs_topic d" if at: "hb_jobs (hub_restarts now h) j = Some d" for j d
  proof -
    obtain d0 where "d = (case dl_phase d0 of Dp_Over _ \<Rightarrow> d0 | _ \<Rightarrow> d0\<lparr>dl_phase := Dp_Over De_Lost\<rparr>)"
      using at by (auto simp: hub_restarts_def)
    then show ?thesis by (cases "dl_phase d0") (auto simp: runs_topic_def)
  qed
  moreover have "hb_runs (hub_restarts now h) k = None" for k by (simp add: hub_restarts_def)
  ultimately show ?thesis unfolding hub_ok_def by (metis option.distinct(1))
qed

lemma inbox_moves_ok:
  assumes ok: "hub_ok h"
  shows "hub_ok (inbox_moves q h)"
proof -
  have start: "hub_ok (delivery_starts i h1)" if ok1: "hub_ok h1" for i h1
  proof (cases "\<exists>e c. message_at (hb_inbox h1) i = Some (e, Mp_Accepted c) \<and> hb_jobs h1 i = None")
    case True
    have new: "hub_ok (h1\<lparr>hb_jobs := (hb_jobs h1)(i \<mapsto> d)\<rparr>)" if "hb_jobs h1 i = None" "job_ok d" "\<not> runs_topic d" for d
      using ok1 that unfolding hub_ok_def by (auto split: if_splits)
    show ?thesis using True
      by (auto simp: delivery_starts_def job_ok_def handed_properly_def runs_topic_def intro!: new)
  next
    case False
    then show ?thesis using ok1 by (auto simp: delivery_starts_def split: option.split prod.split message_phase.split)
  qed
  show ?thesis unfolding inbox_moves_def using ok hub_ok_inbox [OF ok] start [OF hub_ok_inbox [OF ok]]
    by (cases q) simp_all
qed

lemmas delivery_steps_ok = inbox_moves_ok target_projected_ok root_learned_ok core_replied_ok chat_bound_ok reply_sent_ok
  message_enriched_ok baseline_read_ok message_formatted_ok submission_answered_ok routes_forgotten_ok team_created_ok
  topic_bound_ok run_joined_ok baseline_cleared_ok hub_restarts_ok hub_ok_routes

lemma hub_do_ok: "hub_ok h \<Longrightarrow> hub_ok (hub_do q h)"
  by (cases q) (auto intro: delivery_steps_ok hub_ok_same)

lemma hub_run_ok: "hub_ok h \<Longrightarrow> hub_ok (hub_run qs h)"
  unfolding hub_run_def by (induction qs arbitrary: h) (simp_all add: hub_do_ok)

lemma open_hub_ok: "hub_ok (open_hub self parser fa fb owner sha now fr)"
  by (simp add: hub_ok_def open_hub_def)

subsection \<open>One recipient, and one run for a topic\<close>

lemma not_served: "bound_plan (rd_bindings doc) t = None \<longleftrightarrow> served doc t = None"
  by (simp add: served_def)

lemma dispatcher_unserved:
  "plan doc t c = Plan_Dispatcher_No_Binding \<or> plan doc t c = Plan_Dispatcher_Not_Bindable \<Longrightarrow> served doc t = None"
  by (auto simp: plan_def not_served [symmetric] split: option.splits if_splits)

text \<open>
  C38.  A message is handed to whom the routes name, and to a second one only when the first provably took
  nothing.  Over any interleaving of messages, deliveries, changes of the routes, failed writes, closes and
  restarts, Core is asked at most twice for a message.  Whenever a Team is asked, the routing document of that
  very moment routes the conversation to it; when the Dispatcher is asked first, it routes it to nobody.  The
  Dispatcher is asked second only after the Team the message was planned for answered that it does not exist
  or is closed.  A message a Team was to be provisioned for is handed to one Team or to nobody, never to the
  Dispatcher.
\<close>

theorem handed_where_routed:
  assumes "hb_jobs (hub_run qs (open_hub self parser fa fb owner sha now fr)) i = Some d"
  shows "length (dl_asked d) \<le> 2 \<and>
    (\<forall>team doc a. (To_Team team, doc, a) \<in> set (dl_asked d) \<longrightarrow>
       (\<exists>doc'. doc = Some doc' \<and> served doc' (dl_target d) = Some team)) \<and>
    (\<forall>doc a rest. dl_asked d = (To_Dispatcher, doc, a) # rest \<longrightarrow>
       (\<exists>doc'. doc = Some doc' \<and> served doc' (dl_target d) = None) \<and> rest = []) \<and>
    (length (dl_asked d) = 2 \<longrightarrow>
       (\<exists>team m doc code x. dl_plan d = Some (Plan_Bound team m) \<and>
          dl_asked d = [(To_Team team, doc, Some (So_Rejected code)), (To_Dispatcher, x)])) \<and>
    (\<forall>space. dl_plan d = Some (Plan_Provision space) \<longrightarrow>
       length (dl_asked d) \<le> 1 \<and> To_Dispatcher \<notin> fst ` set (dl_asked d))"
proof -
  have "job_ok d" by (rule hub_okD(1) [OF hub_run_ok [OF open_hub_ok] assms])
  then have shape: "handed_properly d" by (simp add: job_ok_def)
  show ?thesis
  proof (cases "dl_plan d")
    case None
    then show ?thesis using shape by (simp add: handed_properly_def)
  next
    case (Some p)
    show ?thesis
    proof (cases p)
      case (Plan_Bound team m)
      then show ?thesis using shape Some by (auto simp: handed_properly_def)
    next
      case (Plan_Provision space)
      then show ?thesis using shape Some by (auto simp: handed_properly_def)
    next
      case Plan_Dispatcher_No_Binding
      then show ?thesis using shape Some dispatcher_unserved [where t = "dl_target d" and c = "dl_can d"] by (auto simp: handed_properly_def)
    next
      case Plan_Dispatcher_Not_Bindable
      then show ?thesis using shape Some dispatcher_unserved [where t = "dl_target d" and c = "dl_can d"] by (auto simp: handed_properly_def)
    qed
  qed
qed

text \<open>
  C39.  A topic is provisioned once at a time.  In every reachable state no two deliveries create, bind or first
  reach a Team for one topic, and a message that waits for such a run either has it under way, for its own
  topic, or goes on at its next step: through the route the run installed, or to an end that reports that there
  is none.
\<close>

theorem one_run_per_topic:
  assumes "hb_jobs (hub_run qs (open_hub self parser fa fb owner sha now fr)) i = Some d"
  shows "let h = hub_run qs (open_hub self parser fa fb owner sha now fr) in
    (runs_topic d \<longrightarrow> (\<forall>j e. hb_jobs h j = Some e \<and> runs_topic e \<and> same_target (dl_target e) (dl_target d) \<longrightarrow> j = i)) \<and>
    (\<forall>r. dl_phase d = Dp_Join r \<longrightarrow>
       (\<exists>e. hb_jobs h r = Some e \<and> runs_topic e \<and> same_target (dl_target e) (dl_target d)) \<or>
       (\<exists>d'. hb_jobs (hub_do (Hb_Joined i) h) i = Some d' \<and>
          (dl_phase d' = Dp_Handed Er_Final \<or> (\<exists>o'. dl_phase d' = Dp_Notice o') \<or> (\<exists>x. dl_phase d' = Dp_Over x))))"
proof -
  let ?h = "hub_run qs (open_hub self parser fa fb owner sha now fr)"
  have ok: "hub_ok ?h" by (rule hub_run_ok [OF open_hub_ok])
  have one: "j = i" if "runs_topic d" "hb_jobs ?h j = Some e" "runs_topic e" "same_target (dl_target e) (dl_target d)" for j e
    using hub_okD(2) [OF ok assms that(1)] hub_okD(2) [OF ok that(2,3)] that(4) by (simp add: same_target_def)
  have joined: "(\<exists>e. hb_jobs ?h r = Some e \<and> runs_topic e \<and> same_target (dl_target e) (dl_target d)) \<or>
       (\<exists>d'. hb_jobs (hub_do (Hb_Joined i) ?h) i = Some d' \<and>
          (dl_phase d' = Dp_Handed Er_Final \<or> (\<exists>o'. dl_phase d' = Dp_Notice o') \<or> (\<exists>x. dl_phase d' = Dp_Over x)))"
    if ph: "dl_phase d = Dp_Join r" for r
  proof (cases "hb_runs ?h (target_key (dl_target d)) = Some r")
    case True
    then show ?thesis using hub_okD(3) [OF ok True] by (auto simp: same_target_def)
  next
    case False
    have fin: "\<exists>d'. hb_jobs (finish_delivery i o' ?h) i = Some d' \<and> ((\<exists>o'. dl_phase d' = Dp_Notice o') \<or> (\<exists>x. dl_phase d' = Dp_Over x))"
      if "o' = So_Unsubmitted \<or> o' = So_Error" for o'
      using that assms by (auto simp: finish_delivery_def)
    have hand: "\<exists>d'. hb_jobs (hand_over i x Er_Final ?h) i = Some d' \<and>
        (dl_phase d' = Dp_Handed Er_Final \<or> (\<exists>o'. dl_phase d' = Dp_Notice o') \<or> (\<exists>x. dl_phase d' = Dp_Over x))" for x
      using fin [of So_Error] assms by (auto simp: hand_over_def settle_errand_def)
    show ?thesis using False ph assms fin [of So_Unsubmitted] hand
      by (auto simp: run_joined_def split: option.split)
  qed
  show ?thesis using one joined unfolding Let_def by blast
qed

subsection \<open>The bots a message carries\<close>

text \<open>What a delivery read of the pending context of its chat: the generation and the bots.\<close>

definition snapshot :: "handoff \<Rightarrow> (rat \<times> peer_bot list) option" where
  "snapshot d =
     (case dl_phase d of
        Dp_Format (Some b) \<Rightarrow> Some (pn_generation b, pn_trusted b)
      | _ \<Rightarrow> (case dl_clear d of Some g \<Rightarrow> Some (g, dl_shown d) | None \<Rightarrow> None))"

definition carries :: "(string \<Rightarrow> rat \<Rightarrow> peer_bot list \<Rightarrow> bool) \<Rightarrow> handoff \<Rightarrow> bool" where
  "carries Q d \<longleftrightarrow> (case snapshot d of Some (g, bs) \<Rightarrow> Q (ie_chat (dl_event d)) g bs | None \<Rightarrow> True)"

definition all_carry :: "(string \<Rightarrow> rat \<Rightarrow> peer_bot list \<Rightarrow> bool) \<Rightarrow> hub \<Rightarrow> bool" where
  "all_carry Q h \<longleftrightarrow> (\<forall>i d. hb_jobs h i = Some d \<longrightarrow> carries Q d)"

definition plain_phase :: "handoff_phase \<Rightarrow> bool" where
  "plain_phase p \<longleftrightarrow> (\<forall>b. p \<noteq> Dp_Format (Some b))"

lemma plain_phase_simps [simp]:
  "plain_phase Dp_Target" "plain_phase (Dp_Root w)" "plain_phase (Dp_Core c)" "plain_phase (Dp_Bind_Chat t)" "plain_phase (Dp_Reply r)" "plain_phase Dp_Enrich"
  "plain_phase Dp_Snapshot" "plain_phase (Dp_Format None)" "plain_phase (Dp_Handed er)" "plain_phase (Dp_Forget t code)" "plain_phase (Dp_Create cc)"
  "plain_phase (Dp_Bind_Topic t)" "plain_phase (Dp_Join runner)" "plain_phase (Dp_Notice o')" "plain_phase (Dp_Clear g o')" "plain_phase (Dp_Over x)"
  by (simp_all add: plain_phase_def)

lemma snapshot_plain: "plain_phase (dl_phase d) \<Longrightarrow> snapshot d = (case dl_clear d of Some g \<Rightarrow> Some (g, dl_shown d) | None \<Rightarrow> None)"
  by (auto simp: snapshot_def plain_phase_def split: handoff_phase.split option.split)

text \<open>A snapshot in hand and nothing to clear yet, or no snapshot in hand.\<close>

definition unread :: "handoff \<Rightarrow> bool" where
  "unread d \<longleftrightarrow> (\<not> plain_phase (dl_phase d) \<longrightarrow> dl_clear d = None)"

lemma job_unread: "job_ok d \<Longrightarrow> unread d"
  by (auto simp: unread_def plain_phase_def job_ok_def)

lemma carries_move:
  assumes "carries Q d" "unread d" "dl_event d' = dl_event d" "dl_clear d' = dl_clear d" "dl_shown d' = dl_shown d"
    "plain_phase (dl_phase d')"
  shows "carries Q d'"
proof (cases "plain_phase (dl_phase d)")
  case True
  then show ?thesis using assms by (auto simp: carries_def snapshot_plain split: option.splits)
next
  case False
  then show ?thesis using assms by (simp add: carries_def snapshot_plain unread_def)
qed

text \<open>A hub whose deliveries carry what those of an earlier one did, or nothing.\<close>

definition same_cargo :: "hub \<Rightarrow> hub \<Rightarrow> bool" where
  "same_cargo h h' \<longleftrightarrow> (\<forall>i d'. hb_jobs h' i = Some d' \<longrightarrow>
     (\<exists>d. hb_jobs h i = Some d \<and> (d' = d \<or> dl_event d' = dl_event d \<and> dl_clear d' = dl_clear d \<and> dl_shown d' = dl_shown d \<and>
        plain_phase (dl_phase d'))) \<or>
     dl_clear d' = None \<and> plain_phase (dl_phase d'))"

lemma same_cargo_refl [simp]: "same_cargo h h"
  by (auto simp: same_cargo_def)

lemma same_cargo_jobs: "hb_jobs h' = hb_jobs h1 \<Longrightarrow> same_cargo h h1 \<Longrightarrow> same_cargo h h'"
  by (simp add: same_cargo_def)

lemma same_cargo_update:
  assumes "same_cargo h h1" "\<And>d. dl_event (f d) = dl_event d \<and> dl_clear (f d) = dl_clear d \<and> dl_shown (f d) = dl_shown d"
    "\<And>d. hb_jobs h1 i = Some d \<Longrightarrow> plain_phase (dl_phase (f d))"
  shows "same_cargo h (job_update i f h1)"
  unfolding same_cargo_def
proof (intro allI impI)
  fix j d' assume at: "hb_jobs (job_update i f h1) j = Some d'"
  show "(\<exists>d. hb_jobs h j = Some d \<and> (d' = d \<or> dl_event d' = dl_event d \<and> dl_clear d' = dl_clear d \<and> dl_shown d' = dl_shown d \<and>
        plain_phase (dl_phase d'))) \<or> dl_clear d' = None \<and> plain_phase (dl_phase d')"
  proof (cases "j = i")
    case True
    then obtain d1 where d1: "hb_jobs h1 i = Some d1" "d' = f d1" using at by auto
    have "plain_phase (dl_phase d')" using assms(3) [OF d1(1)] d1(2) by simp
    then show ?thesis using assms(1) [unfolded same_cargo_def, rule_format, OF d1(1)] assms(2) [of d1] d1(2) True by auto
  next
    case False
    then show ?thesis using at assms(1) by (simp add: same_cargo_def)
  qed
qed

lemma same_cargo_phase: "same_cargo h h1 \<Longrightarrow> plain_phase p \<Longrightarrow> same_cargo h (job_phase i p h1)"
  unfolding job_phase_def by (rule same_cargo_update) simp_all

lemma same_cargo_carry:
  assumes "same_cargo h h'" "all_carry Q h" "\<And>i d. hb_jobs h i = Some d \<Longrightarrow> unread d"
  shows "all_carry Q h'"
proof -
  have "carries Q d'" if at: "hb_jobs h' i = Some d'" for i d'
  proof -
    consider (old) d where "hb_jobs h i = Some d" "d' = d"
      | (moved) d where "hb_jobs h i = Some d" "dl_event d' = dl_event d" "dl_clear d' = dl_clear d" "dl_shown d' = dl_shown d" "plain_phase (dl_phase d')"
      | (new) "dl_clear d' = None" "plain_phase (dl_phase d')"
      using assms(1) [unfolded same_cargo_def, rule_format, OF at] by auto
    then show ?thesis
    proof cases
      case old
      then show ?thesis using assms(2) by (simp add: all_carry_def)
    next
      case moved
      then show ?thesis
        using assms(2) carries_move [of Q d d'] assms(3) by (simp add: all_carry_def)
    next
      case new
      then show ?thesis by (simp add: carries_def snapshot_plain)
    qed
  qed
  then show ?thesis unfolding all_carry_def by blast
qed

lemma same_cargo_finish: "same_cargo h h1 \<Longrightarrow> same_cargo h (finish_delivery i o' h1)"
  unfolding finish_delivery_def
  by (auto intro!: same_cargo_phase split: option.split submit_outcome.split)

lemma same_cargo_settle: "same_cargo h h1 \<Longrightarrow> same_cargo h (settle_errand i er o' h1)"
proof -
  assume "same_cargo h h1"
  moreover from this have "same_cargo h (end_run i h1)" by (rule same_cargo_jobs [rotated]) simp
  ultimately show ?thesis unfolding settle_errand_def
    by (auto intro!: same_cargo_phase same_cargo_finish split: errand.split submit_outcome.split)
qed

lemma same_cargo_hand: "same_cargo h h1 \<Longrightarrow> same_cargo h (hand_over i r er h1)"
  unfolding hand_over_def by (auto intro!: same_cargo_settle same_cargo_update)

lemma same_cargo_active: "same_cargo h h1 \<Longrightarrow> (\<And>h1. same_cargo h h1 \<Longrightarrow> same_cargo h (f h1)) \<Longrightarrow> same_cargo h (if_active i f h1)"
  unfolding if_active_def by (auto intro!: same_cargo_phase)

lemma same_cargo_reply: "same_cargo h h1 \<Longrightarrow> same_cargo h (reply_with i r h1)"
  unfolding reply_with_def by (auto intro!: same_cargo_active same_cargo_phase)

lemma same_cargo_routes: "same_cargo h h1 \<Longrightarrow> same_cargo h (snd (routes_update q io h1))"
  by (rule same_cargo_jobs) simp_all

lemma same_cargo_inbox: "same_cargo h h1 \<Longrightarrow> same_cargo h (h1\<lparr>hb_inbox := s\<rparr>)"
  by (rule same_cargo_jobs) simp_all

lemma same_cargo_provision: "same_cargo h h1 \<Longrightarrow> same_cargo h (provision_for_inbound i space h1)"
proof -
  assume c: "same_cargo h h1"
  have "same_cargo h (h1\<lparr>hb_runs := x\<rparr>)" for x by (rule same_cargo_jobs [OF _ c]) simp
  then show ?thesis unfolding provision_for_inbound_def Let_def using c
    by (auto intro!: same_cargo_phase split: option.split)
qed

lemmas same_cargo_intros = same_cargo_phase same_cargo_finish same_cargo_settle same_cargo_hand same_cargo_active
  same_cargo_reply same_cargo_routes same_cargo_inbox same_cargo_provision

lemma same_cargo_command: "same_cargo h h1 \<Longrightarrow> same_cargo h (run_command i n args p h1)"
  unfolding run_command_def by (auto intro!: same_cargo_phase split: option.split slash_name.split list.split routing_plan.split)

lemma same_cargo_steps:
  "same_cargo h (target_projected i mode h)" "same_cargo h (root_learned i io h)" "same_cargo h (core_replied i ans h)"
  "same_cargo h (chat_bound i io h)" "same_cargo h (reply_sent i ok h)" "same_cargo h (message_enriched i ok h)"
  "same_cargo h (submission_answered i receipt h)" "same_cargo h (routes_forgotten i io h)" "same_cargo h (team_created i tc h)"
  "same_cargo h (topic_bound i io h)" "same_cargo h (run_joined i h)" "same_cargo h (baseline_cleared i ok h)"
proof -
  show "same_cargo h (target_projected i mode h)" unfolding target_projected_def
    by (auto intro!: same_cargo_intros same_cargo_update split: option.split)
  show "same_cargo h (root_learned i io h)" unfolding root_learned_def Let_def
    by (auto intro!: same_cargo_intros same_cargo_command split: option.split handoff_phase.split)
  show "same_cargo h (core_replied i ans h)" unfolding core_replied_def
    by (auto intro!: same_cargo_intros split: option.split handoff_phase.split core_call.split)
  show "same_cargo h (reply_sent i ok h)" unfolding reply_sent_def
    by (auto intro!: same_cargo_intros split: option.split handoff_phase.split)
  show "same_cargo h (message_enriched i ok h)" unfolding message_enriched_def
    by (auto intro!: same_cargo_intros split: option.split)
  show "same_cargo h (submission_answered i receipt h)" unfolding submission_answered_def
    by (auto intro!: same_cargo_intros same_cargo_update split: option.split handoff_phase.split)
  show "same_cargo h (routes_forgotten i io h)" unfolding routes_forgotten_def
    by (auto intro!: same_cargo_intros split: option.split handoff_phase.split)
  show "same_cargo h (team_created i tc h)" unfolding team_created_def run_fails_def
    by (auto intro!: same_cargo_intros split: option.split handoff_phase.split)
  show "same_cargo h (run_joined i h)" unfolding run_joined_def
    by (auto intro!: same_cargo_intros split: option.split handoff_phase.split)
  show "same_cargo h (baseline_cleared i ok h)" unfolding baseline_cleared_def
    by (auto intro!: same_cargo_intros split: option.split handoff_phase.split prod.split)
  have "same_cargo h h'" if "routes_update q io h = (failed, h')" for q failed h'
    using same_cargo_routes [OF same_cargo_refl, of h q io] that by simp
  then show "same_cargo h (chat_bound i io h)" "same_cargo h (topic_bound i io h)"
    unfolding chat_bound_def topic_bound_def run_fails_def
    by (auto intro!: same_cargo_intros split: option.split handoff_phase.split prod.split routing_plan.split)
qed

lemma same_cargo_deliver:
  assumes c: "same_cargo h h1" and at: "\<And>d. hb_jobs h1 i = Some d \<Longrightarrow> plain_phase (dl_phase d)"
  shows "same_cargo h (deliver_message i h1)"
proof -
  have "same_cargo h (job_update i (\<lambda>d. d\<lparr>dl_plan := Some p\<rparr>) h1)" for p
    by (rule same_cargo_update [OF c]) (use at in simp_all)
  then show ?thesis unfolding deliver_message_def Let_def using c
    by (auto intro!: same_cargo_phase same_cargo_hand same_cargo_provision split: option.split routing_plan.split)
qed

text \<open>A step keeps what deliveries carry, where a snapshot of the moment may be carried.\<close>

definition snapshot_may :: "(string \<Rightarrow> rat \<Rightarrow> peer_bot list \<Rightarrow> bool) \<Rightarrow> hub \<Rightarrow> bool" where
  "snapshot_may Q h \<longleftrightarrow> (\<forall>c. let b = pending_baseline_of c (bots_of (hb_inbox h)) in Q c (pn_generation b) (pn_trusted b))"

lemma same_cargo_hub:
  assumes "same_cargo h h'" "all_carry Q h" "hub_ok h"
  shows "all_carry Q h'"
  by (rule same_cargo_carry [OF assms(1,2)]) (rule job_unread [OF hub_okD(1) [OF assms(3)]])

lemma all_carry_set:
  assumes "all_carry Q h" "carries Q d'" "\<And>j. hb_jobs h' j = (if j = i then Some d' else hb_jobs h j)"
  shows "all_carry Q h'"
  using assms unfolding all_carry_def by (auto split: if_splits)

lemma message_formatted_carries:
  assumes all: "all_carry Q h" and ok: "hub_ok h"
  shows "all_carry Q (message_formatted i rendered h)"
proof (cases "\<exists>d b. hb_jobs h i = Some d \<and> dl_phase d = Dp_Format b \<and> hb_live h")
  case True
  then obtain d b where at: "hb_jobs h i = Some d" and ph: "dl_phase d = Dp_Format b" and live: "hb_live h" by blast
  have unread: "unread e" if "hb_jobs h j = Some e" for j e by (rule job_unread [OF hub_okD(1) [OF ok that]])
  have over: "all_carry Q (job_phase i (Dp_Over De_Failed) h)"
    by (rule same_cargo_hub [OF _ all ok]) (simp add: same_cargo_phase)
  show ?thesis
  proof (cases "b = None \<or> rendered = None")
    case True
    have "all_carry Q (deliver_message i h)" if "b = None"
      by (rule same_cargo_hub [OF same_cargo_deliver all ok]) (use at ph that in simp_all)
    then show ?thesis using True over live by (auto simp: message_formatted_def at ph if_active_def split: option.split)
  next
    case False
    then obtain b' shown where b': "b = Some b'" "rendered = Some shown" by (cases b; cases rendered) auto
    let ?g = "if shown then Some (pn_generation b') else None" and ?bs = "if shown then pn_trusted b' else []"
    let ?d1 = "d\<lparr>dl_clear := ?g, dl_shown := ?bs, dl_phase := Dp_Format None\<rparr>"
      and ?h1 = "job_update i (\<lambda>d. d\<lparr>dl_clear := ?g, dl_shown := ?bs, dl_phase := Dp_Format None\<rparr>) h"
    have old: "carries Q d" using all at by (simp add: all_carry_def)
    have "carries Q ?d1" using old ph b' by (simp add: carries_def snapshot_def)
    then have all1: "all_carry Q ?h1" by (rule all_carry_set [OF all, where i = i]) (use at in simp)
    have "unread e" if "hb_jobs ?h1 j = Some e" for j e
      using that unread at by (auto simp: unread_def split: if_splits)
    then have "all_carry Q (deliver_message i ?h1)"
      by (rule same_cargo_carry [OF same_cargo_deliver all1, rotated 2]) (use at in simp_all)
    then show ?thesis by (simp add: message_formatted_def at ph if_active_def live b')
  qed
next
  case False
  have "all_carry Q (job_phase i (Dp_Over De_Aborted) h)"
    by (rule same_cargo_hub [OF _ all ok]) (simp add: same_cargo_phase)
  then show ?thesis using False all
    by (auto simp: message_formatted_def if_active_def split: option.split handoff_phase.split)
qed

lemma baseline_read_carries:
  assumes all: "all_carry Q h" and ok: "hub_ok h" and bots: "bots_store_ok (hb_inbox h)" and may: "snapshot_may Q h"
  shows "all_carry Q (baseline_read i h)"
proof (cases "\<exists>d. hb_jobs h i = Some d \<and> dl_phase d = Dp_Snapshot")
  case True
  then obtain d where at: "hb_jobs h i = Some d" and ph: "dl_phase d = Dp_Snapshot" by blast
  have clear: "dl_clear d = None" using hub_okD(1) [OF ok at] ph by (simp add: job_ok_def)
  let ?b = "pending_baseline_of (ie_chat (dl_event d)) (bots_of (hb_inbox h))"
  let ?p = "Dp_Format (if pn_needs ?b \<and> pn_trusted ?b \<noteq> [] then Some ?b else None)"
  have Q: "Q (ie_chat (dl_event d)) (pn_generation ?b) (pn_trusted ?b)" using may by (simp add: snapshot_may_def Let_def)
  obtain p where p: "p = ?p" by blast
  have step: "baseline_read i h = job_phase i p (h\<lparr>hb_inbox := (hb_inbox h)\<lparr>bx_bots :=
      (bx_bots (hb_inbox h))\<lparr>slot := Some (bots_of (hb_inbox h))\<rparr>\<rparr>\<rparr>)"
    by (simp add: baseline_read_def at ph load_bots [OF bots] Let_def p)
  have "carries Q (d\<lparr>dl_phase := p\<rparr>)" using Q clear by (simp add: carries_def snapshot_def p)
  then show ?thesis unfolding step
    by (rule all_carry_set [OF all, where i = i]) (simp add: at)
next
  case False
  then show ?thesis using all by (auto simp: baseline_read_def split: option.split)
qed

lemma same_cargo_moves: "same_cargo h (inbox_moves q h)"
proof -
  have "same_cargo h (delivery_starts i (h\<lparr>hb_inbox := s\<rparr>))" for i s
    by (auto simp: delivery_starts_def same_cargo_def split: option.split prod.split message_phase.split)
  then show ?thesis unfolding inbox_moves_def by (cases q) (simp_all add: same_cargo_inbox)
qed

lemma restarted_job:
  assumes "hb_jobs (hub_restarts now h) i = Some d'"
  shows "\<exists>d. hb_jobs h i = Some d \<and> (d' = d \<or> d' = d\<lparr>dl_phase := Dp_Over De_Lost\<rparr>)"
proof -
  obtain d where d: "hb_jobs h i = Some d" "d' = (case dl_phase d of Dp_Over _ \<Rightarrow> d | _ \<Rightarrow> d\<lparr>dl_phase := Dp_Over De_Lost\<rparr>)"
    using assms by (auto simp: hub_restarts_def)
  have "d' = d \<or> d' = d\<lparr>dl_phase := Dp_Over De_Lost\<rparr>" unfolding d(2) by (cases "dl_phase d") simp_all
  then show ?thesis using d(1) by blast
qed

lemma same_cargo_restart: "same_cargo h (hub_restarts now h)"
  unfolding same_cargo_def
proof (intro allI impI)
  fix i d' assume "hb_jobs (hub_restarts now h) i = Some d'"
  then obtain d where "hb_jobs h i = Some d" "d' = d \<or> d' = d\<lparr>dl_phase := Dp_Over De_Lost\<rparr>" by (blast dest: restarted_job)
  then show "(\<exists>d. hb_jobs h i = Some d \<and> (d' = d \<or> dl_event d' = dl_event d \<and> dl_clear d' = dl_clear d \<and>
      dl_shown d' = dl_shown d \<and> plain_phase (dl_phase d'))) \<or> dl_clear d' = None \<and> plain_phase (dl_phase d')" by auto
qed

lemma hub_do_carries:
  assumes all: "all_carry Q h" and ok: "hub_ok h" and bots: "bots_store_ok (hb_inbox h)" and may: "snapshot_may Q h"
  shows "all_carry Q (hub_do q h)"
proof -
  have closed: "same_cargo h (h\<lparr>hb_live := False\<rparr>)" by (rule same_cargo_jobs [OF _ same_cargo_refl]) simp
  consider (read) i where "q = Hb_Baseline i" | (format) i r where "q = Hb_Formatted i r" | (other) "same_cargo h (hub_do q h)"
    by (cases q) (simp_all add: same_cargo_steps same_cargo_moves same_cargo_restart same_cargo_routes closed)
  then show ?thesis
  proof cases
    case read
    then show ?thesis using baseline_read_carries [OF all ok bots may] by simp
  next
    case format
    then show ?thesis using message_formatted_carries [OF all ok] by simp
  next
    case other
    then show ?thesis by (rule same_cargo_hub [OF _ all ok])
  qed
qed

subsection \<open>What happens to the bots of a chat\<close>

lemma inbox_kept [simp]:
  "hb_inbox (finish_delivery i o' h) = hb_inbox h" "hb_inbox (settle_errand i er o' h) = hb_inbox h"
  "hb_inbox (hand_over i r er h) = hb_inbox h" "hb_inbox (provision_for_inbound i space h) = hb_inbox h"
  "hb_inbox (reply_with i sr h) = hb_inbox h" "hb_inbox (run_command i n args p h) = hb_inbox h"
proof -
  show f: "hb_inbox (finish_delivery i o' h) = hb_inbox h" for o' h
    by (auto simp: finish_delivery_def split: option.split submit_outcome.split)
  show s: "hb_inbox (settle_errand i er o' h) = hb_inbox h" for er o' h
    by (auto simp: settle_errand_def f split: errand.split submit_outcome.split)
  show "hb_inbox (hand_over i r er h) = hb_inbox h" by (simp add: hand_over_def s)
  show "hb_inbox (provision_for_inbound i space h) = hb_inbox h"
    by (auto simp: provision_for_inbound_def Let_def split: option.split)
  show "hb_inbox (reply_with i sr h) = hb_inbox h" by (simp add: reply_with_def if_active_def)
  show "hb_inbox (run_command i n args p h) = hb_inbox h"
    by (auto simp: run_command_def split: option.split slash_name.split list.split routing_plan.split)
qed

lemma inbox_kept_deliver [simp]: "hb_inbox (deliver_message i h) = hb_inbox h"
  by (auto simp: deliver_message_def Let_def split: option.split routing_plan.split)

lemma inbox_kept_steps [simp]:
  "hb_inbox (target_projected i mode h) = hb_inbox h" "hb_inbox (root_learned i io h) = hb_inbox h"
  "hb_inbox (core_replied i ans h) = hb_inbox h" "hb_inbox (chat_bound i io h) = hb_inbox h"
  "hb_inbox (reply_sent i ok h) = hb_inbox h" "hb_inbox (message_enriched i ok h) = hb_inbox h"
  "hb_inbox (message_formatted i rd h) = hb_inbox h" "hb_inbox (submission_answered i receipt h) = hb_inbox h"
  "hb_inbox (routes_forgotten i io h) = hb_inbox h" "hb_inbox (team_created i tc h) = hb_inbox h"
  "hb_inbox (topic_bound i io h) = hb_inbox h" "hb_inbox (run_joined i h) = hb_inbox h"
proof -
  have r: "hb_inbox h' = hb_inbox h" if "routes_update q io h = (failed, h')" for q failed h'
    using routes_update_fields(1) [of q io h] that by simp
  show "hb_inbox (target_projected i mode h) = hb_inbox h"
    by (auto simp: target_projected_def if_active_def split: option.split)
  show "hb_inbox (root_learned i io h) = hb_inbox h"
    by (auto simp: root_learned_def if_active_def Let_def split: option.split handoff_phase.split)
  show "hb_inbox (core_replied i ans h) = hb_inbox h"
    by (auto simp: core_replied_def split: option.split handoff_phase.split core_call.split)
  show "hb_inbox (chat_bound i io h) = hb_inbox h" "hb_inbox (topic_bound i io h) = hb_inbox h"
    by (auto simp: chat_bound_def topic_bound_def run_fails_def r split: option.split handoff_phase.split prod.split routing_plan.split)
  show "hb_inbox (reply_sent i ok h) = hb_inbox h"
    by (auto simp: reply_sent_def split: option.split handoff_phase.split)
  show "hb_inbox (message_enriched i ok h) = hb_inbox h"
    by (auto simp: message_enriched_def if_active_def split: option.split)
  show "hb_inbox (message_formatted i rd h) = hb_inbox h"
    by (auto simp: message_formatted_def if_active_def split: option.split handoff_phase.split)
  show "hb_inbox (submission_answered i receipt h) = hb_inbox h"
    by (auto simp: submission_answered_def split: option.split handoff_phase.split)
  show "hb_inbox (routes_forgotten i io h) = hb_inbox h"
    by (auto simp: routes_forgotten_def split: option.split handoff_phase.split)
  show "hb_inbox (team_created i tc h) = hb_inbox h"
    by (auto simp: team_created_def run_fails_def split: option.split handoff_phase.split)
  show "hb_inbox (run_joined i h) = hb_inbox h"
    by (auto simp: run_joined_def split: option.split handoff_phase.split)
qed

lemma hub_bots_grow:
  assumes ok: "bots_store_ok (hb_inbox h)" and q: "\<And>i wok. q \<noteq> Hb_Cleared i wok"
  shows "bots_grow (hb_inbox h) (hb_inbox (hub_do q h))"
proof -
  note refl = bots_grow_same [OF ok refl]
  have start: "hb_inbox (delivery_starts i h') = hb_inbox h'" for i h'
    by (auto simp: delivery_starts_def split: option.split prod.split message_phase.split)
  have moves: "bots_grow (hb_inbox h) (hb_inbox (inbox_moves p h))" for p
    using bots_grow_do [OF ok, of p] refl by (cases p) (simp_all add: inbox_moves_def start)
  have read: "bots_grow (hb_inbox h) (hb_inbox (baseline_read i h))" for i
    using refl bots_grow_loaded [OF ok]
    by (auto simp: baseline_read_def load_bots [OF ok] Let_def split: option.split)
  have restart: "bots_grow (hb_inbox h) (hb_inbox (hub_restarts now h))" for now
    using bots_grow_do [OF ok, of In_Restart] by (simp add: hub_restarts_def)
  show ?thesis
  proof (cases q)
    case (Hb_Cleared i wok)
    then show ?thesis using q by blast
  qed (simp_all add: moves read restart refl)
qed

text \<open>A clear by a delivery: only the pending mark of its chat changes, and only at its generation.\<close>

lemma hub_bots_cleared:
  assumes ok: "bots_store_ok (hb_inbox h)"
  shows "bots_store_ok (hb_inbox (hub_do (Hb_Cleared i wok) h))"
    "be_generation (bots_entry_of (bots_of (hb_inbox (hub_do (Hb_Cleared i wok) h))) c) =
       be_generation (bots_entry_of (bots_of (hb_inbox h)) c)"
    "trusted_bot_ids c (bots_of (hb_inbox (hub_do (Hb_Cleared i wok) h))) = trusted_bot_ids c (bots_of (hb_inbox h))"
    "be_needs (bots_entry_of (bots_of (hb_inbox h)) c) \<Longrightarrow>
       \<not> be_needs (bots_entry_of (bots_of (hb_inbox (hub_do (Hb_Cleared i wok) h))) c) \<Longrightarrow>
       \<exists>d o'. hb_jobs h i = Some d \<and> ie_chat (dl_event d) = c \<and>
         dl_phase d = Dp_Clear (be_generation (bots_entry_of (bots_of (hb_inbox h)) c)) o'"
proof -
  have "bots_store_ok (hb_inbox (hub_do (Hb_Cleared i wok) h)) \<and>
    be_generation (bots_entry_of (bots_of (hb_inbox (hub_do (Hb_Cleared i wok) h))) c) =
       be_generation (bots_entry_of (bots_of (hb_inbox h)) c) \<and>
    trusted_bot_ids c (bots_of (hb_inbox (hub_do (Hb_Cleared i wok) h))) = trusted_bot_ids c (bots_of (hb_inbox h)) \<and>
    (be_needs (bots_entry_of (bots_of (hb_inbox h)) c) \<longrightarrow>
       \<not> be_needs (bots_entry_of (bots_of (hb_inbox (hub_do (Hb_Cleared i wok) h))) c) \<longrightarrow>
       (\<exists>d o'. hb_jobs h i = Some d \<and> ie_chat (dl_event d) = c \<and>
         dl_phase d = Dp_Clear (be_generation (bots_entry_of (bots_of (hb_inbox h)) c)) o'))"
  proof (cases "\<exists>d g o'. hb_jobs h i = Some d \<and> dl_phase d = Dp_Clear g o'")
    case True
    then obtain d g o' where at: "hb_jobs h i = Some d" and ph: "dl_phase d = Dp_Clear g o'" by blast
    obtain failed s where upd: "bots_update (clear_change (ie_chat (dl_event d)) g) wok (hb_inbox h) = (failed, s)"
      by (cases "bots_update (clear_change (ie_chat (dl_event d)) g) wok (hb_inbox h)")
    have s: "hb_inbox (hub_do (Hb_Cleared i wok) h) = s" by (simp add: baseline_cleared_def at ph upd)
    show ?thesis unfolding s
      using bots_cleared(1) [OF ok upd] bots_cleared(2-4) [OF ok upd, of c] at ph by blast
  next
    case False
    then have "hub_do (Hb_Cleared i wok) h = h" by (auto simp: baseline_cleared_def split: option.split handoff_phase.split)
    then show ?thesis using ok by simp
  qed
  then show "bots_store_ok (hb_inbox (hub_do (Hb_Cleared i wok) h))"
    "be_generation (bots_entry_of (bots_of (hb_inbox (hub_do (Hb_Cleared i wok) h))) c) =
       be_generation (bots_entry_of (bots_of (hb_inbox h)) c)"
    "trusted_bot_ids c (bots_of (hb_inbox (hub_do (Hb_Cleared i wok) h))) = trusted_bot_ids c (bots_of (hb_inbox h))"
    "be_needs (bots_entry_of (bots_of (hb_inbox h)) c) \<Longrightarrow>
       \<not> be_needs (bots_entry_of (bots_of (hb_inbox (hub_do (Hb_Cleared i wok) h))) c) \<Longrightarrow>
       \<exists>d o'. hb_jobs h i = Some d \<and> ie_chat (dl_event d) = c \<and>
         dl_phase d = Dp_Clear (be_generation (bots_entry_of (bots_of (hb_inbox h)) c)) o'" by blast+
qed

subsection \<open>The context of an introduction arrives\<close>

text \<open>The bots of an introduction are among those shown by whoever read the context at this generation or later.\<close>

definition shows_since :: "string \<Rightarrow> rat \<Rightarrow> string set \<Rightarrow> string \<Rightarrow> rat \<Rightarrow> peer_bot list \<Rightarrow> bool" where
  "shows_since chat g ids c g' bs \<longleftrightarrow> (c = chat \<longrightarrow> g \<le> g' \<longrightarrow> ids \<subseteq> pb_id ` set bs)"

definition context_owed :: "string \<Rightarrow> rat \<Rightarrow> string set \<Rightarrow> hub \<Rightarrow> bool" where
  "context_owed chat g ids h \<longleftrightarrow> hub_ok h \<and> bots_store_ok (hb_inbox h) \<and> all_carry (shows_since chat g ids) h \<and>
     g \<le> be_generation (bots_entry_of (bots_of (hb_inbox h)) chat) \<and> ids \<subseteq> trusted_bot_ids chat (bots_of (hb_inbox h))"

lemma pending_trusted: "pb_id ` set (pn_trusted (pending_baseline_of c v)) = trusted_bot_ids c v"
  by (auto simp: pending_baseline_of_def trusted_bot_ids_def peer_bots_from_def image_iff split: option.split)

lemma pending_generation: "map_of v c \<noteq> None \<Longrightarrow> pn_generation (pending_baseline_of c v) = be_generation (bots_entry_of v c)"
  by (auto simp: pending_baseline_of_def bots_entry_of_def)

lemma context_owed_do:
  assumes "context_owed chat g ids h"
  shows "context_owed chat g ids (hub_do q h)"
proof -
  have ok: "hub_ok h" and bots: "bots_store_ok (hb_inbox h)" and all: "all_carry (shows_since chat g ids) h"
    and gen: "g \<le> be_generation (bots_entry_of (bots_of (hb_inbox h)) chat)"
    and ids: "ids \<subseteq> trusted_bot_ids chat (bots_of (hb_inbox h))"
    using assms by (simp_all add: context_owed_def)
  have "snapshot_may (shows_since chat g ids) h"
    using ids by (auto simp: snapshot_may_def shows_since_def pending_trusted Let_def)
  then have all': "all_carry (shows_since chat g ids) (hub_do q h)" by (rule hub_do_carries [OF all ok bots])
  show ?thesis
  proof (cases "\<exists>i wok. q = Hb_Cleared i wok")
    case True
    then show ?thesis using hub_bots_cleared(1) [OF bots] hub_bots_cleared(2,3) [OF bots, where c = chat] hub_do_ok [OF ok] all' gen ids
      unfolding context_owed_def by auto
  next
    case False
    then have "bots_grow (hb_inbox h) (hb_inbox (hub_do q h))" by (intro hub_bots_grow [OF bots]) blast
    then show ?thesis using hub_do_ok [OF ok] all' gen ids unfolding context_owed_def bots_grow_def by (meson order_trans)
  qed
qed

text \<open>The step that takes the pending mark away: the clear of a delivery that showed the bots and was submitted.\<close>

lemma context_cleared_by:
  assumes owed: "context_owed chat g ids h"
    and needs: "be_needs (bots_entry_of (bots_of (hb_inbox h)) chat)"
    and gone: "\<not> be_needs (bots_entry_of (bots_of (hb_inbox (hub_do q h))) chat)"
  shows "\<exists>i wok d g' turn r doc. q = Hb_Cleared i wok \<and> hb_jobs h i = Some d \<and> ie_chat (dl_event d) = chat \<and>
    dl_phase d = Dp_Clear g' (So_Submitted turn) \<and> ids \<subseteq> pb_id ` set (dl_shown d) \<and>
    (r, doc, Some (So_Submitted turn)) \<in> set (dl_asked d)"
proof -
  have ok: "hub_ok h" and bots: "bots_store_ok (hb_inbox h)" and all: "all_carry (shows_since chat g ids) h"
    and gen: "g \<le> be_generation (bots_entry_of (bots_of (hb_inbox h)) chat)"
    using owed by (simp_all add: context_owed_def)
  have "\<exists>i wok. q = Hb_Cleared i wok"
    using hub_bots_grow [OF bots, of q] needs gone unfolding bots_grow_def by blast
  then obtain i wok where q: "q = Hb_Cleared i wok" by blast
  obtain d o' where at: "hb_jobs h i = Some d" and chat: "ie_chat (dl_event d) = chat"
    and ph: "dl_phase d = Dp_Clear (be_generation (bots_entry_of (bots_of (hb_inbox h)) chat)) o'"
    using hub_bots_cleared(4) [OF bots needs gone [unfolded q]] by blast
  have good: "reported d o'" "dl_clear d = Some (be_generation (bots_entry_of (bots_of (hb_inbox h)) chat))"
      "\<exists>turn. o' = So_Submitted turn"
    using hub_okD(1) [OF ok at] ph by (simp_all add: job_ok_def)
  obtain turn where turn: "o' = So_Submitted turn" using good(3) by blast
  have "snapshot d = Some (be_generation (bots_entry_of (bots_of (hb_inbox h)) chat), dl_shown d)"
    using good(2) ph by (simp add: snapshot_def)
  moreover have "carries (shows_since chat g ids) d" using all at by (simp add: all_carry_def)
  ultimately have "ids \<subseteq> pb_id ` set (dl_shown d)" using gen chat by (simp add: carries_def shows_since_def)
  moreover obtain r doc where "(r, doc, Some (So_Submitted turn)) \<in> set (dl_asked d)"
    using good(1) unfolding reported_def turn by fastforce
  ultimately show ?thesis using q at chat ph turn by blast
qed

lemma all_carry_mono:
  "all_carry Q h \<Longrightarrow> (\<And>c g bs. Q c g bs \<Longrightarrow> Q' c g bs) \<Longrightarrow> all_carry Q' h"
  unfolding all_carry_def carries_def by (fastforce split: option.splits)

text \<open>Before an introduction: nothing read is newer than the file, and the inbox is sound.\<close>

definition read_before :: "hub \<Rightarrow> string \<Rightarrow> rat \<Rightarrow> peer_bot list \<Rightarrow> bool" where
  "read_before h c g bs \<longleftrightarrow> g \<le> be_generation (bots_entry_of (bots_of (hb_inbox h)) c)"

definition hub_sound :: "bots_state \<Rightarrow> hub \<Rightarrow> bool" where
  "hub_sound v0 h \<longleftrightarrow> hub_ok h \<and> inbox_ok v0 (hb_inbox h) \<and> all_carry (read_before h) h"

lemma hub_inbox_ok:
  assumes ok: "inbox_ok v0 (hb_inbox h)"
  shows "inbox_ok v0 (hb_inbox (hub_do q h))"
proof -
  have start: "hb_inbox (delivery_starts i h') = hb_inbox h'" for i h'
    by (auto simp: delivery_starts_def split: option.split prod.split message_phase.split)
  have moves: "inbox_ok v0 (hb_inbox (inbox_moves p h))" for p
    using inbox_do_ok [OF ok, of p] ok by (cases p) (simp_all add: inbox_moves_def start)
  have read: "inbox_ok v0 (hb_inbox (baseline_read i h))" for i
    using ok inbox_ok_loaded [OF ok]
    by (auto simp: baseline_read_def load_bots [OF inbox_okD(1) [OF ok]] Let_def split: option.split)
  have clear: "inbox_ok v0 (hb_inbox (baseline_cleared i wok h))" for i wok
  proof -
    have "inbox_ok v0 s" if "bots_update (clear_change c g) wok (hb_inbox h) = (failed, s)" for c g failed s
      using inbox_do_ok [OF ok, of "In_Cleared c g wok"] that by simp
    then show ?thesis using ok by (auto simp: baseline_cleared_def split: option.split handoff_phase.split prod.split)
  qed
  have restart: "inbox_ok v0 (hb_inbox (hub_restarts now h))" for now
    using inbox_do_ok [OF ok, of In_Restart] by (simp add: hub_restarts_def)
  show ?thesis by (cases q) (simp_all add: moves read clear restart ok)
qed

lemma hub_sound_do:
  assumes sound: "hub_sound v0 h"
  shows "hub_sound v0 (hub_do q h)"
proof -
  have ok: "hub_ok h" and inb: "inbox_ok v0 (hb_inbox h)" and all: "all_carry (read_before h) h"
    using sound by (simp_all add: hub_sound_def)
  have bots: "bots_store_ok (hb_inbox h)" by (rule inbox_okD(1) [OF inb])
  have "snapshot_may (read_before h) h"
    by (auto simp: snapshot_may_def read_before_def Let_def pending_baseline_of_def bots_entry_of_def empty_bots_entry_def
        split: option.split)
  then have all': "all_carry (read_before h) (hub_do q h)" by (rule hub_do_carries [OF all ok bots])
  have gen: "be_generation (bots_entry_of (bots_of (hb_inbox h)) c) \<le>
      be_generation (bots_entry_of (bots_of (hb_inbox (hub_do q h))) c)" for c
  proof (cases "\<exists>i wok. q = Hb_Cleared i wok")
    case True
    then show ?thesis using hub_bots_cleared(2) [OF bots, where c = c] by auto
  next
    case False
    then have "bots_grow (hb_inbox h) (hb_inbox (hub_do q h))" by (intro hub_bots_grow [OF bots]) blast
    then show ?thesis by (simp add: bots_grow_def)
  qed
  have "all_carry (read_before (hub_do q h)) (hub_do q h)"
    by (rule all_carry_mono [OF all']) (use gen in \<open>auto simp: read_before_def intro: order_trans\<close>)
  then show ?thesis using hub_do_ok [OF ok] hub_inbox_ok [OF inb] by (simp add: hub_sound_def)
qed

lemma hub_sound_run: "hub_sound v0 h \<Longrightarrow> hub_sound v0 (hub_run qs h)"
  unfolding hub_run_def by (induction qs arbitrary: h) (simp_all add: hub_sound_do)

lemma open_hub_sound: "hub_sound (projr (load_chat_bots fb)) (open_hub self parser fa fb owner sha now fr)"
  using open_hub_ok [of self parser fa fb owner sha now fr] new_inbox_ok [of fb self parser fa]
  by (simp add: hub_sound_def all_carry_def) (simp add: open_hub_def)

text \<open>From an introduction on.\<close>

lemma introduction_owes:
  assumes sound: "hub_sound v0 h" and at: "message_at (hb_inbox h) i = Some (e, Mp_Introduce peers)"
    and fresh: "\<exists>b \<in> set peers. pb_id b \<notin> trusted_bot_ids (ie_chat e) (bots_of (hb_inbox h))"
    and h': "h' = hub_do (Hb_Inbox (In_Introduced i True)) h"
  shows "context_owed (ie_chat e) (be_generation (bots_entry_of (bots_of (hb_inbox h')) (ie_chat e))) (pb_id ` set peers) h'"
    "be_needs (bots_entry_of (bots_of (hb_inbox h')) (ie_chat e))"
proof -
  have inb: "inbox_ok v0 (hb_inbox h)" using sound by (simp add: hub_sound_def)
  have s': "hb_inbox h' = inbox_do (In_Introduced i True) (hb_inbox h)" "hb_jobs h' = hb_jobs h"
    by (simp_all add: h' inbox_moves_def)
  note com = introduction_commits [OF inb at fresh s'(1)]
  have "all_carry (read_before h) h'" using sound by (simp add: hub_sound_def all_carry_def s'(2))
  then have "all_carry (shows_since (ie_chat e) (be_generation (bots_entry_of (bots_of (hb_inbox h')) (ie_chat e))) (pb_id ` set peers)) h'"
    by (rule all_carry_mono) (use com(3) in \<open>auto simp: read_before_def shows_since_def\<close>)
  moreover have "hub_ok h'" unfolding h' by (rule hub_do_ok) (use sound in \<open>simp add: hub_sound_def\<close>)
  ultimately show "context_owed (ie_chat e) (be_generation (bots_entry_of (bots_of (hb_inbox h')) (ie_chat e))) (pb_id ` set peers) h'"
    using com by (simp add: context_owed_def)
  show "be_needs (bots_entry_of (bots_of (hb_inbox h')) (ie_chat e))" by (rule com(2))
qed

lemma context_cleared_in_run:
  assumes "context_owed chat g ids h" "be_needs (bots_entry_of (bots_of (hb_inbox h)) chat)"
    "\<not> be_needs (bots_entry_of (bots_of (hb_inbox (hub_run qs h))) chat)"
  shows "\<exists>before j wok after d g' turn r doc. qs = before @ [Hb_Cleared j wok] @ after \<and>
    hb_jobs (hub_run before h) j = Some d \<and> ie_chat (dl_event d) = chat \<and> dl_phase d = Dp_Clear g' (So_Submitted turn) \<and>
    ids \<subseteq> pb_id ` set (dl_shown d) \<and> (r, doc, Some (So_Submitted turn)) \<in> set (dl_asked d)"
  using assms
proof (induction qs arbitrary: h)
  case Nil
  then show ?case by (simp add: hub_run_def)
next
  case (Cons q qs)
  show ?case
  proof (cases "be_needs (bots_entry_of (bots_of (hb_inbox (hub_do q h))) chat)")
    case True
    have "\<not> be_needs (bots_entry_of (bots_of (hb_inbox (hub_run qs (hub_do q h)))) chat)"
      using Cons.prems(3) by (simp add: hub_run_def)
    from Cons.IH [OF context_owed_do [OF Cons.prems(1)] True this] obtain before j wok after d g' turn r doc
      where found: "qs = before @ [Hb_Cleared j wok] @ after" "hb_jobs (hub_run before (hub_do q h)) j = Some d"
        "ie_chat (dl_event d) = chat" "dl_phase d = Dp_Clear g' (So_Submitted turn)" "ids \<subseteq> pb_id ` set (dl_shown d)"
        "(r, doc, Some (So_Submitted turn)) \<in> set (dl_asked d)" by blast
    have "q # qs = (q # before) @ [Hb_Cleared j wok] @ after" "hb_jobs (hub_run (q # before) h) j = Some d"
      using found(1,2) by (simp_all add: hub_run_def)
    then show ?thesis using found(3-6) by blast
  next
    case False
    obtain i wok d g' turn r doc where found: "q = Hb_Cleared i wok" "hb_jobs h i = Some d" "ie_chat (dl_event d) = chat"
        "dl_phase d = Dp_Clear g' (So_Submitted turn)" "ids \<subseteq> pb_id ` set (dl_shown d)"
        "(r, doc, Some (So_Submitted turn)) \<in> set (dl_asked d)"
      using context_cleared_by [OF Cons.prems(1,2) False] by blast
    have "q # qs = [] @ [Hb_Cleared i wok] @ qs" "hb_jobs (hub_run [] h) i = Some d"
      using found(1,2) by (simp_all add: hub_run_def)
    then show ?thesis using found(3-6) by blast
  qed
qed

text \<open>
  C40.  The bots of an introduction reach an agent.  When an introduction commits that adds a bot to the trusted
  ones of a chat, and at any later time, after whatever inputs in whatever order (other messages, deliveries
  that had read the context before, failed writes, closes, restarts), the chat no longer has its context
  pending, then one delivery took the mark away: of a message of that chat, whose text showed every bot the
  introduction named, and which Core answered as submitted.
\<close>

theorem introduced_context_delivered:
  assumes "message_at (hb_inbox (hub_run ps (open_hub self parser fa fb owner sha now fr))) i = Some (e, Mp_Introduce peers)"
    and "\<exists>b \<in> set peers. pb_id b \<notin> trusted_bot_ids (ie_chat e)
      (bots_of (hb_inbox (hub_run ps (open_hub self parser fa fb owner sha now fr))))"
    and "\<not> be_needs (bots_entry_of (bots_of (hb_inbox
      (hub_run (ps @ [Hb_Inbox (In_Introduced i True)] @ qs) (open_hub self parser fa fb owner sha now fr)))) (ie_chat e))"
  shows "\<exists>before j wok after d g turn r doc. qs = before @ [Hb_Cleared j wok] @ after \<and>
    hb_jobs (hub_run (ps @ [Hb_Inbox (In_Introduced i True)] @ before) (open_hub self parser fa fb owner sha now fr)) j = Some d \<and>
    ie_chat (dl_event d) = ie_chat e \<and> dl_phase d = Dp_Clear g (So_Submitted turn) \<and>
    pb_id ` set peers \<subseteq> pb_id ` set (dl_shown d) \<and> (r, doc, Some (So_Submitted turn)) \<in> set (dl_asked d)"
proof -
  let ?h = "hub_run ps (open_hub self parser fa fb owner sha now fr)"
  let ?t = "hub_do (Hb_Inbox (In_Introduced i True)) ?h"
  have run: "hub_run (ps @ [Hb_Inbox (In_Introduced i True)] @ rs) (open_hub self parser fa fb owner sha now fr) = hub_run rs ?t" for rs
    by (simp add: hub_run_def)
  note owes = introduction_owes [OF hub_sound_run [OF open_hub_sound] assms(1,2) refl]
  show ?thesis unfolding run
    by (rule context_cleared_in_run [OF owes assms(3) [unfolded run]])
qed

subsection \<open>Concrete runs\<close>

definition demo_hub :: hub where
  "demo_hub = open_hub (Some ''me'') (\<lambda>_. []) (Some demo_policy) None (''d'', ''c'') sample_sha 1 None"

definition demo_arrives :: "nat \<Rightarrow> inbound_event \<Rightarrow> hub_input list" where
  "demo_arrives i e = map Hb_Inbox [In_Message e, In_Policy i, In_Trusted i, In_Gate i (\<lambda>_. ''abcdef'') 5 True]"

definition demo_built :: "nat \<Rightarrow> bool \<Rightarrow> hub_input list" where
  "demo_built i shown = [Hb_Target i (Some (Some ''topic'')), Hb_Root i (2, True, 2, True), Hb_Enriched i True, Hb_Baseline i,
     Hb_Formatted i (Some shown)]"

definition demo_introduced :: "hub_input list" where
  "demo_introduced = [Hb_Inbox (In_Message demo_introduce), Hb_Inbox (In_Policy 0)]"

text \<open>A message bound for a Team that closed meanwhile.\<close>

definition demo_fallback :: "hub_input list" where
  "demo_fallback = demo_introduced @ [Hb_Inbox (In_Introduced 0 True),
       Hb_Route (R_Bind (bind_of (chat_target ''oc'' ''group'') ''alpha'' None None)) (3, True, 3, True)] @
     demo_arrives 1 demo_bot_message @ demo_built 1 False @
     [Hb_Answered 1 (Ca_Thrown (Some ''TEAM_CLOSED'')), Hb_Forgotten 1 (4, True, 4, True), Hb_Answered 1 (Ca_Receipt Rs_Submitted None)]"

lemma demo_fallback_run:
  "map_option (\<lambda>d. (length (dl_asked d), map fst (dl_asked d))) (hb_jobs (hub_run demo_fallback demo_hub) 1) =
     Some (2, [To_Team ''alpha'', To_Dispatcher])"
  by code_simp

theorem handed_where_routed_witness:
  "\<exists>d. hb_jobs (hub_run demo_fallback demo_hub) 1 = Some d \<and>
    (\<exists>team m doc code x. dl_plan d = Some (Plan_Bound team m) \<and>
       dl_asked d = [(To_Team team, doc, Some (So_Rejected code)), (To_Dispatcher, x)])"
proof -
  obtain d where d: "hb_jobs (hub_run demo_fallback demo_hub) 1 = Some d" "length (dl_asked d) = 2"
    using demo_fallback_run by auto
  then show ?thesis using handed_where_routed [OF d(1) [unfolded demo_hub_def]] by auto
qed

text \<open>Two messages of a new topic of a Space: the first runs, the second waits.\<close>

definition demo_space :: bind_space_input where
  "demo_space = sample_space\<lparr>bs_container := ''oc''\<rparr>"

definition demo_topic :: "hub_input list" where
  "demo_topic = demo_introduced @ [Hb_Inbox (In_Introduced 0 True), Hb_Route (R_Bind_Space demo_space) (3, True, 3, True)] @
     demo_arrives 1 (demo_bot_message\<lparr>ie_thread := Some ''omt''\<rparr>) @ demo_arrives 2 (demo_bot_message\<lparr>ie_thread := Some ''omt''\<rparr>) @
     demo_built 1 False @ demo_built 2 False"

lemma demo_topic_run:
  "map_option dl_phase (hb_jobs (hub_run demo_topic demo_hub) 2) = Some (Dp_Join 1)"
  "(case hb_jobs (hub_run (demo_topic @ [Hb_Joined 2]) demo_hub) 2 of Some d \<Rightarrow> dl_phase d = Dp_Join 1 | None \<Rightarrow> False)"
  by code_simp+

theorem one_run_per_topic_witness:
  "\<exists>d e. hb_jobs (hub_run demo_topic demo_hub) 2 = Some d \<and> hb_jobs (hub_run demo_topic demo_hub) 1 = Some e \<and> runs_topic e \<and>
     same_target (dl_target e) (dl_target d)"
proof -
  obtain d where d: "hb_jobs (hub_run demo_topic demo_hub) 2 = Some d" "dl_phase d = Dp_Join 1" using demo_topic_run(1) by auto
  have "\<not> (\<exists>d'. hb_jobs (hub_do (Hb_Joined 2) (hub_run demo_topic demo_hub)) 2 = Some d' \<and>
      (dl_phase d' = Dp_Handed Er_Final \<or> (\<exists>o'. dl_phase d' = Dp_Notice o') \<or> (\<exists>x. dl_phase d' = Dp_Over x)))"
    using demo_topic_run(2) by (auto simp: hub_run_def split: option.splits)
  then show ?thesis
    using one_run_per_topic [OF d(1) [unfolded demo_hub_def]] d unfolding Let_def demo_hub_def by blast
qed

text \<open>An introduction whose context a later message carries.\<close>

definition demo_later :: "hub_input list" where
  "demo_later = demo_arrives 1 demo_bot_message @ demo_built 1 True @ [Hb_Answered 1 (Ca_Receipt Rs_Submitted None), Hb_Cleared 1 True]"

theorem introduced_context_delivered_witness:
  "\<exists>before j wok after d. demo_later = before @ [Hb_Cleared j wok] @ after \<and>
     hb_jobs (hub_run (demo_introduced @ [Hb_Inbox (In_Introduced 0 True)] @ before) demo_hub) j = Some d \<and> ''pal'' \<in> pb_id ` set (dl_shown d)"
proof -
  let ?peers = "[\<lparr> pb_id = ''pal'', pb_name = Some ''peer'' \<rparr>]"
  have at: "message_at (hb_inbox (hub_run demo_introduced demo_hub)) 0 = Some (demo_introduce, Mp_Introduce ?peers)" by code_simp
  have "bots_of (hb_inbox (hub_run demo_introduced demo_hub)) = []" by code_simp
  then have fresh: "\<exists>b \<in> set ?peers. pb_id b \<notin> trusted_bot_ids (ie_chat demo_introduce) (bots_of (hb_inbox (hub_run demo_introduced demo_hub)))"
    by (simp add: trusted_bot_ids_def)
  have gone: "\<not> be_needs (bots_entry_of (bots_of (hb_inbox
      (hub_run (demo_introduced @ [Hb_Inbox (In_Introduced 0 True)] @ demo_later) demo_hub))) (ie_chat demo_introduce))" by code_simp
  obtain before j wok after d where "demo_later = before @ [Hb_Cleared j wok] @ after"
    "hb_jobs (hub_run (demo_introduced @ [Hb_Inbox (In_Introduced 0 True)] @ before) demo_hub) j = Some d"
    "pb_id ` set ?peers \<subseteq> pb_id ` set (dl_shown d)"
    using introduced_context_delivered [OF at [unfolded demo_hub_def] fresh [unfolded demo_hub_def] gone [unfolded demo_hub_def]]
    unfolding demo_hub_def by blast
  then show ?thesis by auto
qed

end
