(* ===== verification/Workflow_Journal.thy ===== *)
theory Workflow_Journal
  imports Js_Value
begin

text \<open>
  The durability journal of one workflow run:
  \<^verbatim>\<open>packages/dreamux/src/service/workflow-service/\<close> \<^verbatim>\<open>journal.ts\<close> and the record types of
  \<^verbatim>\<open>types.ts\<close>.

  The file is the list of its lines, a line being blank, not JSON, or a JSON value; an
  append that fails writes nothing.  Values are compared as JSON values, where the source
  compares their serialisations.  Operations run one after another on the journal's queue,
  so each is a function of its state; whether a write succeeds is an input.
\<close>

subsection \<open>Records\<close>

datatype terminal_status = St_Completed | St_Failed | St_Stopped

datatype agent_status = Ag_Queued | Ag_Running | Ag_Done terminal_status

datatype run_status = Run_Running | Run_Done terminal_status

datatype caller_kind = Caller_Dispatcher | Caller_Team_Leader

record workflow_agent =
  wa_index :: nat
  wa_name :: "string option"
  wa_label :: "string option"
  wa_phase :: "string option"
  wa_status :: agent_status
  wa_result :: js
  wa_error :: "string option"
  wa_created :: ms
  wa_settled :: "ms option"

record workflow_record =
  wr_run_id :: string
  wr_dispatcher :: string
  wr_team :: "string option"
  wr_caller :: caller_kind
  wr_script_hash :: string
  wr_status :: run_status
  wr_max :: int
  wr_phase :: "string option"
  wr_last_log :: "string option"
  wr_agents :: "workflow_agent list"
  wr_result :: js
  wr_error :: "string option"
  wr_created :: ms
  wr_updated :: ms
  wr_ended :: "ms option"

definition agent_active :: "workflow_agent \<Rightarrow> bool" where
  "agent_active a \<longleftrightarrow> wa_status a = Ag_Queued \<or> wa_status a = Ag_Running"

subsection \<open>Events\<close>

record terminal_event =
  te_status :: terminal_status
  te_result :: js
  te_error :: "string option"
  te_ended :: ms

record result_event =
  re_index :: nat
  re_status :: terminal_status
  re_result :: js
  re_error :: "string option"
  re_settled :: ms

datatype journal_event =
    Ev_Run workflow_record
  | Ev_Submit nat string ms
  | Ev_Phase string ms
  | Ev_Log string ms
  | Ev_Result result_event
  | Ev_End terminal_event

definition or_null :: "js \<Rightarrow> js" where
  "or_null v = (if v = Undef then Null else v)"

definition normalize_agent_result :: "result_event \<Rightarrow> result_event" where
  "normalize_agent_result e =
     e\<lparr>re_result := (if re_status e = St_Completed then or_null (re_result e) else Null)\<rparr>"

definition normalize_terminal :: "terminal_event \<Rightarrow> terminal_event" where
  "normalize_terminal e =
     e\<lparr>te_result := (if te_status e = St_Completed then or_null (te_result e) else Null)\<rparr>"

definition same_agent_result :: "result_event \<Rightarrow> result_event \<Rightarrow> bool" where
  "same_agent_result l r \<longleftrightarrow>
     re_index l = re_index r \<and> re_status l = re_status r \<and> re_settled l = re_settled r \<and>
     re_error l = re_error r \<and> re_result l = re_result r"

definition same_terminal :: "terminal_event \<Rightarrow> terminal_event \<Rightarrow> bool" where
  "same_terminal l r \<longleftrightarrow>
     te_status l = te_status r \<and> te_ended l = te_ended r \<and> te_error l = te_error r \<and>
     te_result l = te_result r"

definition agent_matches :: "workflow_agent \<Rightarrow> result_event \<Rightarrow> bool" where
  "agent_matches a e \<longleftrightarrow>
     wa_status a = Ag_Done (re_status e) \<and> wa_settled a = Some (re_settled e) \<and>
     wa_error a = re_error e \<and> wa_result a = re_result e"

subsection \<open>The file\<close>

datatype journal_line = Line_Blank | Line_Bad | Line_Val js

definition status_name :: "terminal_status \<Rightarrow> string" where
  "status_name s = (case s of St_Completed \<Rightarrow> ''completed'' | St_Failed \<Rightarrow> ''failed''
                            | St_Stopped \<Rightarrow> ''stopped'')"

definition str_or_null :: "string option \<Rightarrow> js" where
  "str_or_null x = (case x of None \<Rightarrow> Null | Some s \<Rightarrow> Str s)"

definition caller_name :: "caller_kind \<Rightarrow> string" where
  "caller_name c = (case c of Caller_Dispatcher \<Rightarrow> ''dispatcher'' | Caller_Team_Leader \<Rightarrow> ''team_leader'')"

fun event_row :: "journal_event \<Rightarrow> js" where
  "event_row (Ev_Run r) = Obj [(''kind'', Str ''run''), (''version'', Num 1),
     (''run_id'', Str (wr_run_id r)), (''script_hash'', Str (wr_script_hash r)),
     (''caller'', Obj [(''kind'', Str (caller_name (wr_caller r)))]),
     (''dispatcher_id'', Str (wr_dispatcher r)), (''team_id'', str_or_null (wr_team r)),
     (''created_at'', Num (wr_created r))]"
| "event_row (Ev_Submit i n t) = Obj [(''kind'', Str ''submit''), (''index'', Num (of_nat i)),
     (''name'', Str n), (''created_at'', Num t)]"
| "event_row (Ev_Phase m t) = Obj [(''kind'', Str ''phase''), (''message'', Str m), (''created_at'', Num t)]"
| "event_row (Ev_Log m t) = Obj [(''kind'', Str ''log''), (''message'', Str m), (''created_at'', Num t)]"
| "event_row (Ev_Result e) = Obj [(''kind'', Str ''result''), (''index'', Num (of_nat (re_index e))),
     (''status'', Str (status_name (re_status e))), (''result'', re_result e),
     (''error'', str_or_null (re_error e)), (''settled_at'', Num (re_settled e))]"
| "event_row (Ev_End e) = Obj [(''kind'', Str ''end''), (''status'', Str (status_name (te_status e))),
     (''result'', te_result e), (''error'', str_or_null (te_error e)), (''ended_at'', Num (te_ended e))]"

datatype journal_error =
    Jn_Exists | Jn_Io | Jn_Row | Jn_Status | Jn_Text | Jn_Number | Jn_Index
  | Jn_Multiple_Results nat | Jn_Multiple_Ends
  | Jn_Conflict_Result nat | Jn_Conflict_End
  | Jn_Unknown_Agent nat | Jn_Record_Conflict nat | Jn_Active_Agent nat

definition terminal_status_of :: "js \<Rightarrow> journal_error + terminal_status" where
  "terminal_status_of v =
     (if v = Str ''completed'' then Inr St_Completed
      else if v = Str ''failed'' then Inr St_Failed
      else if v = Str ''stopped'' then Inr St_Stopped
      else Inl Jn_Status)"

definition nullable_string :: "js \<Rightarrow> journal_error + string option" where
  "nullable_string v = (case v of Undef \<Rightarrow> Inr None | Null \<Rightarrow> Inr None | Str s \<Rightarrow> Inr (Some s)
     | _ \<Rightarrow> Inl Jn_Text)"

definition finite_number :: "js \<Rightarrow> journal_error + rat" where
  "finite_number v = (case v of Num n \<Rightarrow> Inr n | _ \<Rightarrow> Inl Jn_Number)"

definition non_negative_integer :: "js \<Rightarrow> journal_error + nat" where
  "non_negative_integer v =
     (case v of Num n \<Rightarrow> if is_integer n \<and> n \<ge> 0 then Inr (nat (floor n)) else Inl Jn_Index
      | _ \<Rightarrow> Inl Jn_Index)"

record journal_facts =
  jf_results :: "(nat \<times> result_event) list"
  jf_terminal :: "terminal_event option"

definition no_facts :: journal_facts where
  "no_facts = \<lparr>jf_results = [], jf_terminal = None\<rparr>"

definition parse_result_row :: "(string \<times> js) list \<Rightarrow> journal_error + result_event" where
  "parse_result_row ob =
     bind_res (non_negative_integer (jget ob ''index'')) (\<lambda>i.
     bind_res (terminal_status_of (jget ob ''status'')) (\<lambda>s.
     bind_res (nullable_string (jget ob ''error'')) (\<lambda>e.
     bind_res (finite_number (jget ob ''settled_at'')) (\<lambda>t.
       Inr (normalize_agent_result \<lparr>re_index = i, re_status = s,
         re_result = or_null (jget ob ''result''), re_error = e, re_settled = t\<rparr>)))))"

definition parse_end_row :: "(string \<times> js) list \<Rightarrow> journal_error + terminal_event" where
  "parse_end_row ob =
     bind_res (terminal_status_of (jget ob ''status'')) (\<lambda>s.
     bind_res (nullable_string (jget ob ''error'')) (\<lambda>e.
     bind_res (finite_number (jget ob ''ended_at'')) (\<lambda>t.
       Inr (normalize_terminal \<lparr>te_status = s, te_result = or_null (jget ob ''result''),
         te_error = e, te_ended = t\<rparr>))))"

fun parse_line :: "journal_line \<Rightarrow> journal_facts \<Rightarrow> journal_error + journal_facts" where
  "parse_line Line_Blank f = Inr f"
| "parse_line Line_Bad f = Inl Jn_Row"
| "parse_line (Line_Val (Obj ob)) f =
     (if jget ob ''kind'' = Str ''result'' then
        bind_res (parse_result_row ob) (\<lambda>e.
          if map_of (jf_results f) (re_index e) \<noteq> None then Inl (Jn_Multiple_Results (re_index e))
          else Inr (f\<lparr>jf_results := jf_results f @ [(re_index e, e)]\<rparr>))
      else if jget ob ''kind'' = Str ''end'' then
        bind_res (parse_end_row ob) (\<lambda>e.
          if jf_terminal f \<noteq> None then Inl Jn_Multiple_Ends
          else Inr (f\<lparr>jf_terminal := Some e\<rparr>))
      else Inr f)"
| "parse_line (Line_Val _) f = Inr f"

fun parse_lines :: "journal_line list \<Rightarrow> journal_facts \<Rightarrow> journal_error + journal_facts" where
  "parse_lines [] f = Inr f"
| "parse_lines (l # ls) f = bind_res (parse_line l f) (parse_lines ls)"

definition parse_journal_facts :: "journal_line list \<Rightarrow> journal_error + journal_facts" where
  "parse_journal_facts ls = parse_lines ls no_facts"

subsection \<open>Operations\<close>

record journal =
  jn_file :: "journal_line list option"
  jn_facts :: "journal_facts option"

definition journal_create :: "workflow_record \<Rightarrow> bool \<Rightarrow> journal \<Rightarrow> (journal_error + unit) \<times> journal" where
  "journal_create r write_ok j =
     (if \<not> write_ok then (Inl Jn_Io, j\<lparr>jn_facts := None\<rparr>)
      else if jn_file j \<noteq> None then (Inl Jn_Exists, j\<lparr>jn_facts := None\<rparr>)
      else (Inr (), j\<lparr>jn_file := Some [Line_Val (event_row (Ev_Run r))], jn_facts := Some no_facts\<rparr>))"

text \<open>\<^verbatim>\<open>appendFile\<close> creates a missing file.\<close>

definition append_row :: "journal_event \<Rightarrow> journal \<Rightarrow> journal" where
  "append_row e j =
     j\<lparr>jn_file := Some ((case jn_file j of None \<Rightarrow> [] | Some ls \<Rightarrow> ls) @ [Line_Val (event_row e)])\<rparr>"

definition journal_append :: "journal_event \<Rightarrow> bool \<Rightarrow> journal \<Rightarrow> (journal_error + unit) \<times> journal" where
  "journal_append e write_ok j = (if write_ok then (Inr (), append_row e j) else (Inl Jn_Io, j))"

definition load_facts :: "journal \<Rightarrow> (journal_error + journal_facts) \<times> journal" where
  "load_facts j =
     (case jn_facts j of
        Some f \<Rightarrow> (Inr f, j)
      | None \<Rightarrow>
         (case jn_file j of
            None \<Rightarrow> (Inl Jn_Io, j)
          | Some ls \<Rightarrow>
             (case parse_journal_facts ls of
                Inl e \<Rightarrow> (Inl e, j)
              | Inr f \<Rightarrow> (Inr f, j\<lparr>jn_facts := Some f\<rparr>))))"

definition journal_terminal :: "journal \<Rightarrow> (journal_error + terminal_event option) \<times> journal" where
  "journal_terminal j =
     (case load_facts j of (Inl e, j1) \<Rightarrow> (Inl e, j1) | (Inr f, j1) \<Rightarrow> (Inr (jf_terminal f), j1))"

definition result_events :: "journal \<Rightarrow> (journal_error + result_event list) \<times> journal" where
  "result_events j =
     (case load_facts j of (Inl e, j1) \<Rightarrow> (Inl e, j1)
      | (Inr f, j1) \<Rightarrow> (Inr (map snd (jf_results f)), j1))"

definition ensure_agent_result ::
  "result_event \<Rightarrow> bool \<Rightarrow> journal \<Rightarrow> (journal_error + result_event) \<times> journal" where
  "ensure_agent_result event write_ok j =
     (let expected = normalize_agent_result event in
      case load_facts j of
        (Inl e, j1) \<Rightarrow> (Inl e, j1)
      | (Inr f, j1) \<Rightarrow>
         (case map_of (jf_results f) (re_index expected) of
            Some existing \<Rightarrow>
              if \<not> same_agent_result existing expected
              then (Inl (Jn_Conflict_Result (re_index expected)), j1)
              else (Inr existing, j1)
          | None \<Rightarrow>
              if \<not> write_ok then (Inl Jn_Io, j1\<lparr>jn_facts := None\<rparr>)
              else (Inr expected, (append_row (Ev_Result expected) j1)\<lparr>jn_facts := Some
                     (f\<lparr>jf_results := jf_results f @ [(re_index expected, expected)]\<rparr>)\<rparr>)))"

definition ensure_terminal ::
  "terminal_event \<Rightarrow> bool \<Rightarrow> journal \<Rightarrow> (journal_error + terminal_event) \<times> journal" where
  "ensure_terminal event write_ok j =
     (let expected = normalize_terminal event in
      case load_facts j of
        (Inl e, j1) \<Rightarrow> (Inl e, j1)
      | (Inr f, j1) \<Rightarrow>
         (case jf_terminal f of
            None \<Rightarrow>
              if \<not> write_ok then (Inl Jn_Io, j1\<lparr>jn_facts := None\<rparr>)
              else (Inr expected, (append_row (Ev_End expected) j1)\<lparr>jn_facts := Some
                     (f\<lparr>jf_terminal := Some expected\<rparr>)\<rparr>)
          | Some existing \<Rightarrow>
              if \<not> same_terminal existing expected then (Inl Jn_Conflict_End, j1)
              else (Inr existing, j1)))"

subsection \<open>Recovery\<close>

definition settle_agent :: "result_event \<Rightarrow> workflow_agent \<Rightarrow> workflow_agent" where
  "settle_agent e a = a\<lparr>wa_status := Ag_Done (re_status e), wa_result := re_result e,
     wa_error := re_error e, wa_settled := Some (re_settled e)\<rparr>"

fun apply_results :: "result_event list \<Rightarrow> workflow_agent list \<Rightarrow> journal_error + workflow_agent list" where
  "apply_results [] ags = Inr ags"
| "apply_results (e # es) ags =
     (case find (\<lambda>a. wa_index a = re_index e) ags of
        None \<Rightarrow> Inl (Jn_Unknown_Agent (re_index e))
      | Some a \<Rightarrow>
          if \<not> agent_active a \<and> \<not> agent_matches a e then Inl (Jn_Record_Conflict (re_index e))
          else apply_results es (update_first (\<lambda>a. wa_index a = re_index e) (settle_agent e) ags))"

definition stop_reason :: string where
  "stop_reason = ''Dreamux stopped before the workflow reached a terminal result''"

text \<open>The loop over the agents of a run without a terminal event; \<open>ws\<close> says which writes succeed.\<close>

fun stop_agents ::
  "ms \<Rightarrow> bool list \<Rightarrow> workflow_agent list \<Rightarrow> journal \<Rightarrow> (journal_error + workflow_agent list) \<times> journal" where
  "stop_agents now ws [] j = (Inr [], j)"
| "stop_agents now ws (a # as) j =
     (if \<not> agent_active a then
        (case stop_agents now ws as j of (r, j1) \<Rightarrow> (bind_res r (\<lambda>bs. Inr (a # bs)), j1))
      else
        (case ensure_agent_result \<lparr>re_index = wa_index a, re_status = St_Stopped, re_result = Null,
                re_error = Some stop_reason, re_settled = now\<rparr> (ws = [] \<or> hd ws) j of
           (Inl e, j1) \<Rightarrow> (Inl e, j1)
         | (Inr ev, j1) \<Rightarrow>
             (case stop_agents now (tl ws) as j1 of
                (r, j2) \<Rightarrow> (bind_res r (\<lambda>bs. Inr (settle_agent ev a # bs)), j2))))"

definition recover ::
  "ms \<Rightarrow> bool list \<Rightarrow> bool \<Rightarrow> workflow_record \<Rightarrow> journal \<Rightarrow>
   (journal_error + bool \<times> workflow_record) \<times> journal" where
  "recover now ws end_ok r j =
     (case result_events j of
        (Inl e, j1) \<Rightarrow> (Inl e, j1)
      | (Inr es, j1) \<Rightarrow>
       (case apply_results es (wr_agents r) of
          Inl e \<Rightarrow> (Inl e, j1)
        | Inr ags \<Rightarrow>
         (case journal_terminal j1 of
            (Inl e, j2) \<Rightarrow> (Inl e, j2)
          | (Inr None, j2) \<Rightarrow>
             (case stop_agents now ws ags j2 of
                (Inl e, j3) \<Rightarrow> (Inl e, j3)
              | (Inr ags', j3) \<Rightarrow>
                 (case ensure_terminal \<lparr>te_status = St_Stopped, te_result = Null,
                         te_error = Some stop_reason, te_ended = now\<rparr> end_ok j3 of
                    (Inl e, j4) \<Rightarrow> (Inl e, j4)
                  | (Inr _, j4) \<Rightarrow>
                     (Inr (True, r\<lparr>wr_agents := ags', wr_status := Run_Done St_Stopped,
                            wr_result := Null, wr_error := Some stop_reason,
                            wr_ended := Some now, wr_updated := now\<rparr>), j4)))
          | (Inr (Some t), j2) \<Rightarrow>
             (case find agent_active ags of
                Some a \<Rightarrow> (Inl (Jn_Active_Agent (wa_index a)), j2)
              | None \<Rightarrow>
                 (Inr (False, r\<lparr>wr_agents := ags, wr_status := Run_Done (te_status t),
                        wr_result := te_result t, wr_error := te_error t,
                        wr_ended := Some (te_ended t), wr_updated := te_ended t\<rparr>), j2)))))"

end
