(* ===== verification/In_Flight.thy ===== *)
theory In_Flight
  imports Prelude
begin

text \<open>
  The coordination primitives under \<^verbatim>\<open>packages/dreamux/src/platform/\<close>
  (in-flight-work.ts, work-fence.ts, serial-queue.ts) and the workflow semaphore
  (service/workflow-service/semaphore.ts).

  A closure the source hands out (a leave, a release, a pending promise) is a handle: a
  number no earlier one has.  A closure's own flag is membership of its handle in a list of
  the state; a promise is resolved when its handle is in the list of resolved ones.
\<close>

subsection \<open>In-flight work\<close>

record in_flight =
  outstanding :: int
  active_leaves :: "nat list"
  idle_waiters :: "nat list"
  resolved_waiters :: "nat list"
  next_handle :: nat

definition new_in_flight :: in_flight where
  "new_in_flight = \<lparr>outstanding = 0, active_leaves = [], idle_waiters = [],
     resolved_waiters = [], next_handle = 0\<rparr>"

definition idle :: "in_flight \<Rightarrow> bool" where
  "idle w \<longleftrightarrow> outstanding w = 0"

definition enter_work :: "in_flight \<Rightarrow> nat \<times> in_flight" where
  "enter_work w = (next_handle w,
     w\<lparr>outstanding := outstanding w + 1, active_leaves := next_handle w # active_leaves w,
       next_handle := Suc (next_handle w)\<rparr>)"

text \<open>The leave an \<open>enter\<close> returned; leaving twice is a no-op.\<close>

definition leave_work :: "nat \<Rightarrow> in_flight \<Rightarrow> in_flight" where
  "leave_work h w =
     (if h \<notin> set (active_leaves w) then w
      else
        let n = outstanding w - 1;
            w1 = w\<lparr>active_leaves := removeAll h (active_leaves w), outstanding := n\<rparr> in
        if n = 0 then w1\<lparr>resolved_waiters := idle_waiters w @ resolved_waiters w,
                         idle_waiters := []\<rparr>
        else w1)"

definition drain_work :: "in_flight \<Rightarrow> nat \<times> in_flight" where
  "drain_work w =
     (if outstanding w = 0 then
        (next_handle w, w\<lparr>resolved_waiters := next_handle w # resolved_waiters w,
                          next_handle := Suc (next_handle w)\<rparr>)
      else
        (next_handle w, w\<lparr>idle_waiters := idle_waiters w @ [next_handle w],
                          next_handle := Suc (next_handle w)\<rparr>))"

subsection \<open>Work fence\<close>

record work_fence =
  fence_closed :: bool
  fence_work :: in_flight

definition new_fence :: work_fence where
  "new_fence = \<lparr>fence_closed = False, fence_work = new_in_flight\<rparr>"

datatype fence_error = Server_Shutting_Down

definition assert_open :: "work_fence \<Rightarrow> fence_error + unit" where
  "assert_open f = (if fence_closed f then Inl Server_Shutting_Down else Inr ())"

text \<open>\<^verbatim>\<open>admit\<close>: the task is counted in until it settles; its leave is the handle.\<close>

definition admit_work :: "work_fence \<Rightarrow> (fence_error + nat) \<times> work_fence" where
  "admit_work f =
     (case assert_open f of
        Inl e \<Rightarrow> (Inl e, f)
      | Inr _ \<Rightarrow> (case enter_work (fence_work f) of
                   (h, w) \<Rightarrow> (Inr h, f\<lparr>fence_work := w\<rparr>)))"

definition close_fence :: "work_fence \<Rightarrow> work_fence" where
  "close_fence f = f\<lparr>fence_closed := True\<rparr>"

definition drain_fence :: "work_fence \<Rightarrow> nat \<times> work_fence" where
  "drain_fence f = (case drain_work (fence_work f) of (h, w) \<Rightarrow> (h, f\<lparr>fence_work := w\<rparr>))"

definition settle_fence :: "nat \<Rightarrow> work_fence \<Rightarrow> work_fence" where
  "settle_fence h f = f\<lparr>fence_work := leave_work h (fence_work f)\<rparr>"

datatype fence_op = F_Admit | F_Settle nat | F_Close | F_Drain

fun fence_step :: "fence_op \<Rightarrow> work_fence \<Rightarrow> work_fence" where
  "fence_step F_Admit f = snd (admit_work f)"
| "fence_step (F_Settle h) f = settle_fence h f"
| "fence_step F_Close f = close_fence f"
| "fence_step F_Drain f = snd (drain_fence f)"

definition run_fence :: "fence_op list \<Rightarrow> work_fence \<Rightarrow> work_fence" where
  "run_fence qs f = fold fence_step qs f"

text \<open>
  The count is the number of leaves not yet called, a waiter only waits while something is
  in flight, and every handle was handed out.
\<close>

definition in_flight_inv :: "in_flight \<Rightarrow> bool" where
  "in_flight_inv w \<longleftrightarrow>
     outstanding w = int (length (active_leaves w)) \<and> distinct (active_leaves w) \<and>
     (idle_waiters w \<noteq> [] \<longrightarrow> outstanding w > 0) \<and>
     (\<forall>h \<in> set (active_leaves w @ idle_waiters w @ resolved_waiters w). h < next_handle w)"

lemma length_removeAll_distinct:
  "distinct xs \<Longrightarrow> h \<in> set xs \<Longrightarrow> Suc (length (removeAll h xs)) = length xs"
  by (simp add: distinct_remove1_removeAll [symmetric] length_remove1)
    (metis Suc_pred length_pos_if_in_set)

lemma new_in_flight_inv [simp]: "in_flight_inv new_in_flight"
  by (simp add: in_flight_inv_def new_in_flight_def)

lemma enter_inv [inv_intros]: "in_flight_inv w \<Longrightarrow> in_flight_inv (snd (enter_work w))"
  by (auto simp: in_flight_inv_def enter_work_def less_Suc_eq)

lemma leave_inv [inv_intros]: "in_flight_inv w \<Longrightarrow> in_flight_inv (leave_work h w)"
  using length_removeAll_distinct [of "active_leaves w" h]
  by (auto simp: in_flight_inv_def leave_work_def Let_def distinct_removeAll
      split: if_splits)

lemma drain_inv [inv_intros]: "in_flight_inv w \<Longrightarrow> in_flight_inv (snd (drain_work w))"
  by (auto simp: in_flight_inv_def drain_work_def less_Suc_eq)

text \<open>
  A scope that only shrinks once it is closed: closing admits nothing more, so what is
  idle stays idle.
\<close>

locale closing_scope =
  fixes step :: "'q \<Rightarrow> 's \<Rightarrow> 's" and closed :: "'s \<Rightarrow> bool" and busy :: "'s \<Rightarrow> nat"
  assumes closed_stays: "closed s \<Longrightarrow> closed (step q s)"
    and closed_shrinks: "closed s \<Longrightarrow> busy (step q s) \<le> busy s"
begin

lemma run_closed: "closed s \<Longrightarrow> closed (fold step qs s)"
  by (induction qs arbitrary: s) (simp_all add: closed_stays)

lemma run_shrinks: "closed s \<Longrightarrow> busy (fold step qs s) \<le> busy s"
proof (induction qs arbitrary: s)
  case (Cons q qs)
  from Cons.IH [OF closed_stays [OF Cons.prems], of q] closed_shrinks [OF Cons.prems, of q]
  show ?case by simp
qed simp

lemma quiet_forever: "closed s \<Longrightarrow> busy s = 0 \<Longrightarrow> busy (fold step qs s) = 0"
  using run_shrinks [of s qs] by simp

end

definition fence_busy :: "work_fence \<Rightarrow> nat" where
  "fence_busy f = length (active_leaves (fence_work f))"

interpretation fence: closing_scope fence_step fence_closed fence_busy
proof
  fix s :: work_fence and q
  assume c: "fence_closed s"
  show "fence_closed (fence_step q s)"
    using c by (cases q) (auto simp: admit_work_def assert_open_def settle_fence_def
        close_fence_def drain_fence_def split: prod.splits)
  show "fence_busy (fence_step q s) \<le> fence_busy s"
    using c by (cases q) (auto simp: fence_busy_def admit_work_def assert_open_def
        settle_fence_def close_fence_def drain_fence_def leave_work_def drain_work_def Let_def
        length_removeAll_less_eq)
qed

lemma fence_step_inv:
  "in_flight_inv (fence_work f) \<Longrightarrow> in_flight_inv (fence_work (fence_step q f))"
  by (cases q) (auto simp: admit_work_def settle_fence_def close_fence_def drain_fence_def
      leave_inv dest: enter_inv drain_inv split: sum.splits prod.splits)

lemma run_fence_inv:
  "in_flight_inv (fence_work f) \<Longrightarrow> in_flight_inv (fence_work (run_fence qs f))"
  unfolding run_fence_def
  by (induction qs arbitrary: f) (simp_all add: fence_step_inv)

text \<open>
  A drain asked for after the close is pending exactly while something is in flight.
\<close>

definition joins :: "nat \<Rightarrow> work_fence \<Rightarrow> bool" where
  "joins h f \<longleftrightarrow>
     fence_closed f \<and> in_flight_inv (fence_work f) \<and>
     (if h \<in> set (resolved_waiters (fence_work f)) then outstanding (fence_work f) = 0
      else h \<in> set (idle_waiters (fence_work f)))"

lemma joins_drain:
  assumes "fence_closed f" "in_flight_inv (fence_work f)" "drain_fence f = (h, f1)"
  shows "joins h f1"
  using assms drain_inv [OF assms(2)]
  by (auto simp: joins_def drain_fence_def drain_work_def in_flight_inv_def split: if_splits)

lemma joins_step:
  assumes "joins h f"
  shows "joins h (fence_step q f)"
proof -
  have c: "fence_closed f" and inv: "in_flight_inv (fence_work f)"
    using assms by (simp_all add: joins_def)
  show ?thesis
  proof (cases q)
    case F_Admit
    with c assms show ?thesis by (simp add: admit_work_def assert_open_def)
  next
    case (F_Settle k)
    with assms leave_inv [OF inv, of k] show ?thesis
      by (auto simp: joins_def settle_fence_def leave_work_def Let_def in_flight_inv_def
          split: if_splits)
  next
    case F_Close
    with c assms show ?thesis by (simp add: joins_def close_fence_def)
  next
    case F_Drain
    with assms drain_inv [OF inv] show ?thesis
      by (auto simp: joins_def drain_fence_def drain_work_def in_flight_inv_def
          split: if_splits)
  qed
qed

lemma joins_run: "joins h f \<Longrightarrow> joins h (run_fence qs f)"
  unfolding run_fence_def
  by (induction qs arbitrary: f) (simp_all add: joins_step)

lemma joins_resolved_iff:
  "joins h f \<Longrightarrow> h \<in> set (resolved_waiters (fence_work f)) \<longleftrightarrow> idle (fence_work f)"
  by (auto simp: joins_def idle_def in_flight_inv_def split: if_splits)

text \<open>
  C9. A stop joins its work: a drain asked for after the fence was closed is resolved in a
  later state exactly when everything admitted has settled, and once that is so no task
  ever runs behind the fence again.
\<close>

theorem fence_join:
  assumes "fence_closed (run_fence qs new_fence)"
    and "drain_fence (run_fence qs new_fence) = (h, f)"
  shows "(h \<in> set (resolved_waiters (fence_work (run_fence rs f))) \<longleftrightarrow>
            idle (fence_work (run_fence rs f))) \<and>
         (idle (fence_work (run_fence rs f)) \<longrightarrow>
            active_leaves (fence_work (run_fence ts (run_fence rs f))) = [])"
proof -
  have inv: "in_flight_inv (fence_work (run_fence qs new_fence))"
    by (rule run_fence_inv) (simp add: new_fence_def)
  note j = joins_run [OF joins_drain [OF assms(1) inv assms(2)], of rs]
  let ?g = "run_fence rs f"
  have "active_leaves (fence_work (run_fence ts ?g)) = []" if "idle (fence_work ?g)"
  proof -
    from that j have "fence_closed ?g" "fence_busy ?g = 0"
      by (auto simp: joins_def idle_def in_flight_inv_def fence_busy_def)
    then have "fence_busy (run_fence ts ?g) = 0"
      unfolding run_fence_def [of ts] by (rule fence.quiet_forever)
    then show ?thesis by (simp add: fence_busy_def)
  qed
  with joins_resolved_iff [OF j] show ?thesis by blast
qed

lemma fence_join_witness:
  "1 \<in> set (resolved_waiters (fence_work (run_fence [F_Settle 0]
     (snd (drain_fence (run_fence [F_Admit, F_Close] new_fence))))))"
proof -
  have c: "fence_closed (run_fence [F_Admit, F_Close] new_fence)"
    by (simp add: run_fence_def close_fence_def)
  have d: "drain_fence (run_fence [F_Admit, F_Close] new_fence) =
      (1, snd (drain_fence (run_fence [F_Admit, F_Close] new_fence)))"
    by (simp add: run_fence_def close_fence_def drain_fence_def drain_work_def admit_work_def
        assert_open_def enter_work_def new_fence_def new_in_flight_def)
  have "idle (fence_work (run_fence [F_Settle 0]
      (snd (drain_fence (run_fence [F_Admit, F_Close] new_fence)))))"
    by (simp add: run_fence_def close_fence_def drain_fence_def drain_work_def admit_work_def
        assert_open_def enter_work_def new_fence_def new_in_flight_def settle_fence_def
        leave_work_def idle_def)
  with fence_join [OF c d, of "[F_Settle 0]"] show ?thesis by blast
qed

subsection \<open>Workflow semaphore\<close>

record semaphore =
  sem_active :: int
  sem_closed :: bool
  sem_waiters :: "nat list"
  sem_next :: nat
  sem_holding :: "nat list"
  sem_granted :: "nat list"
  sem_rejected :: "nat list"

text \<open>
  A request is numbered when it is made; \<open>sem_holding\<close> lists the requests granted and not
  released, \<open>sem_granted\<close> all granted ones in the order of their grants.
\<close>

definition new_semaphore :: semaphore where
  "new_semaphore = \<lparr>sem_active = 0, sem_closed = False, sem_waiters = [], sem_next = 0,
     sem_holding = [], sem_granted = [], sem_rejected = []\<rparr>"

definition sem_is_full :: "int \<Rightarrow> semaphore \<Rightarrow> bool" where
  "sem_is_full limit s \<longleftrightarrow> sem_active s \<ge> limit"

definition sem_acquire :: "int \<Rightarrow> semaphore \<Rightarrow> nat \<times> semaphore" where
  "sem_acquire limit s =
     (let r = sem_next s; s1 = s\<lparr>sem_next := Suc r\<rparr> in
      (r, if sem_closed s then s1\<lparr>sem_rejected := r # sem_rejected s\<rparr>
          else if sem_active s < limit then
            s1\<lparr>sem_active := sem_active s + 1, sem_holding := r # sem_holding s,
               sem_granted := sem_granted s @ [r]\<rparr>
          else s1\<lparr>sem_waiters := sem_waiters s @ [r]\<rparr>))"

definition sem_close :: "semaphore \<Rightarrow> semaphore" where
  "sem_close s =
     (if sem_closed s then s
      else s\<lparr>sem_closed := True, sem_rejected := sem_waiters s @ sem_rejected s,
             sem_waiters := []\<rparr>)"

text \<open>The release a grant returned; \<^verbatim>\<open>shift\<close> happens before the closed check.\<close>

definition sem_release :: "nat \<Rightarrow> semaphore \<Rightarrow> semaphore" where
  "sem_release r s =
     (if r \<notin> set (sem_holding s) then s
      else
        let s1 = s\<lparr>sem_holding := removeAll r (sem_holding s)\<rparr> in
        (case sem_waiters s of
           [] \<Rightarrow> s1\<lparr>sem_active := sem_active s - 1\<rparr>
         | w # ws \<Rightarrow>
             if \<not> sem_closed s then
               s1\<lparr>sem_waiters := ws, sem_holding := w # removeAll r (sem_holding s),
                  sem_granted := sem_granted s @ [w]\<rparr>
             else s1\<lparr>sem_waiters := ws, sem_active := sem_active s - 1\<rparr>))"

datatype sem_op = S_Acquire | S_Release nat | S_Close

fun sem_step :: "int \<Rightarrow> sem_op \<Rightarrow> semaphore \<Rightarrow> semaphore" where
  "sem_step limit S_Acquire s = snd (sem_acquire limit s)"
| "sem_step limit (S_Release r) s = sem_release r s"
| "sem_step limit S_Close s = sem_close s"

definition run_sem :: "int \<Rightarrow> sem_op list \<Rightarrow> semaphore \<Rightarrow> semaphore" where
  "run_sem limit qs s = fold (sem_step limit) qs s"

text \<open>
  The count is the number of holders and within the limit; somebody waits only while every
  slot is held; until the close, the requests are granted in the order they were made.
\<close>

definition sem_inv :: "int \<Rightarrow> semaphore \<Rightarrow> bool" where
  "sem_inv limit s \<longleftrightarrow>
     sem_active s = int (length (sem_holding s)) \<and> sem_active s \<le> limit \<and>
     distinct (sem_holding s) \<and> set (sem_holding s) \<subseteq> set (sem_granted s) \<and>
     distinct (sem_granted s @ sem_waiters s) \<and>
     (\<forall>r \<in> set (sem_granted s @ sem_waiters s). r < sem_next s) \<and>
     (sem_waiters s \<noteq> [] \<longrightarrow> sem_active s = limit \<and> \<not> sem_closed s) \<and>
     (\<not> sem_closed s \<longrightarrow> sem_granted s @ sem_waiters s = [0..<sem_next s])"

lemma new_sem_inv [simp]: "0 \<le> limit \<Longrightarrow> sem_inv limit new_semaphore"
  by (simp add: sem_inv_def new_semaphore_def)

lemma sem_acquire_inv:
  "sem_inv limit s \<Longrightarrow> sem_inv limit (snd (sem_acquire limit s))"
  by (auto simp: sem_inv_def sem_acquire_def Let_def less_Suc_eq)

lemma sem_close_inv: "sem_inv limit s \<Longrightarrow> sem_inv limit (sem_close s)"
  by (auto simp: sem_inv_def sem_close_def)

lemma sem_release_inv:
  assumes "sem_inv limit s"
  shows "sem_inv limit (sem_release r s)"
proof (cases "r \<in> set (sem_holding s)")
  case True
  from assms have d: "distinct (sem_holding s)" by (simp add: sem_inv_def)
  note n = length_removeAll_distinct [OF d True]
  show ?thesis
  proof (cases "sem_waiters s")
    case Nil
    with True assms n show ?thesis
      by (auto simp: sem_inv_def sem_release_def distinct_removeAll)
  next
    case (Cons w ws)
    with assms have "\<not> sem_closed s" by (simp add: sem_inv_def)
    moreover from Cons assms have "w \<notin> set (sem_holding s)" by (auto simp: sem_inv_def)
    ultimately show ?thesis
      using Cons True assms n
      by (auto simp: sem_inv_def sem_release_def distinct_removeAll)
  qed
qed (use assms in \<open>simp add: sem_release_def\<close>)

lemma run_sem_inv: "sem_inv limit s \<Longrightarrow> sem_inv limit (run_sem limit qs s)"
  unfolding run_sem_def
proof (induction qs arbitrary: s)
  case (Cons q qs)
  have "sem_inv limit (sem_step limit q s)"
    using Cons.prems by (cases q) (simp_all add: sem_acquire_inv sem_release_inv sem_close_inv)
  from Cons.IH [OF this] show ?case by simp
qed simp

text \<open>
  The semaphore bounds a run's parallel agents and loses no wake-up: after any sequence
  of acquires, releases (repeated ones too) and closes, at most \<open>limit\<close> requests hold a
  slot, somebody waits only while all slots are held and the semaphore is open, and up to
  the close requests are granted strictly in the order they were made.
\<close>

theorem semaphore_fair_bound:
  assumes "0 \<le> limit" "s = run_sem limit qs new_semaphore"
  shows "int (length (sem_holding s)) \<le> limit \<and>
         (sem_waiters s \<noteq> [] \<longrightarrow> sem_is_full limit s \<and> \<not> sem_closed s) \<and>
         (\<not> sem_closed s \<longrightarrow> sem_granted s @ sem_waiters s = [0..<sem_next s])"
  using run_sem_inv [OF new_sem_inv [OF assms(1)], of qs]
  by (auto simp: assms(2) sem_inv_def sem_is_full_def)

lemma semaphore_fair_bound_witness:
  "let s = run_sem 1 [S_Acquire, S_Acquire, S_Release 0, S_Release 0] new_semaphore in
   sem_holding s = [1] \<and> sem_granted s @ sem_waiters s = [0..<sem_next s]"
proof -
  let ?s = "run_sem 1 [S_Acquire, S_Acquire, S_Release 0, S_Release 0] new_semaphore"
  have e: "?s = \<lparr>sem_active = 1, sem_closed = False, sem_waiters = [], sem_next = 2,
      sem_holding = [1], sem_granted = [0, 1], sem_rejected = []\<rparr>"
    by (simp add: run_sem_def sem_acquire_def sem_release_def new_semaphore_def)
  from semaphore_fair_bound [OF _ refl, of 1 "[S_Acquire, S_Acquire, S_Release 0, S_Release 0]"]
  show ?thesis by (simp add: e)
qed

subsection \<open>Keyed queue\<close>

text \<open>
  \<^verbatim>\<open>KeyedAsyncQueue\<close>: ticket \<open>t\<close> is the t-th call of \<^verbatim>\<open>run\<close>; it holds its key and the
  ticket whose gate it awaits.  A gate is resolved once its ticket and every one before it
  on the chain has finished.
\<close>

record keyed_queue =
  kq_tickets :: "(string \<times> nat option) list"
  kq_tail :: "string \<Rightarrow> nat option"
  kq_done :: "nat list"

definition new_keyed_queue :: keyed_queue where
  "new_keyed_queue = \<lparr>kq_tickets = [], kq_tail = Map.empty, kq_done = []\<rparr>"

definition kq_run :: "string \<Rightarrow> keyed_queue \<Rightarrow> keyed_queue" where
  "kq_run key s =
     s\<lparr>kq_tickets := kq_tickets s @ [(key, kq_tail s key)],
       kq_tail := (kq_tail s)(key := Some (length (kq_tickets s)))\<rparr>"

text \<open>A task runs from the moment its predecessor's gate is resolved until it settles.\<close>

definition kq_running :: "keyed_queue \<Rightarrow> nat \<Rightarrow> bool" where
  "kq_running s t \<longleftrightarrow>
     t < length (kq_tickets s) \<and> t \<notin> set (kq_done s) \<and>
     (case snd (kq_tickets s ! t) of None \<Rightarrow> True | Some p \<Rightarrow> p \<in> set (kq_done s))"

definition kq_finish :: "nat \<Rightarrow> keyed_queue \<Rightarrow> keyed_queue" where
  "kq_finish t s =
     (let key = fst (kq_tickets s ! t) in
      s\<lparr>kq_done := t # kq_done s,
        kq_tail := (if kq_tail s key = Some t then (kq_tail s)(key := None) else kq_tail s)\<rparr>)"

inductive kq_reachable :: "keyed_queue \<Rightarrow> bool" where
  kq_init: "kq_reachable new_keyed_queue"
| kq_call: "kq_reachable s \<Longrightarrow> kq_reachable (kq_run key s)"
| kq_settle: "kq_reachable s \<Longrightarrow> kq_running s t \<Longrightarrow> kq_reachable (kq_finish t s)"

inductive_cases kq_reachableE: "kq_reachable s"

definition open_tickets :: "string \<Rightarrow> keyed_queue \<Rightarrow> nat list" where
  "open_tickets key s =
     filter (\<lambda>t. fst (kq_tickets s ! t) = key \<and> t \<notin> set (kq_done s))
       [0..<length (kq_tickets s)]"

definition kq_open :: "keyed_queue \<Rightarrow> string \<Rightarrow> nat \<Rightarrow> bool" where
  "kq_open s k u \<longleftrightarrow> u < length (kq_tickets s) \<and> fst (kq_tickets s ! u) = k \<and> u \<notin> set (kq_done s)"

text \<open>
  The tail of a key is its last open ticket; a ticket's predecessor is an earlier ticket of
  its key past every open one; a key's tickets finish in order.
\<close>

definition kq_tails_ok :: "keyed_queue \<Rightarrow> bool" where
  "kq_tails_ok s \<longleftrightarrow>
     (\<forall>k. case kq_tail s k of
            None \<Rightarrow> \<forall>u. \<not> kq_open s k u
          | Some t \<Rightarrow> kq_open s k t \<and> (\<forall>u. kq_open s k u \<longrightarrow> u \<le> t))"

definition kq_waits_ok :: "keyed_queue \<Rightarrow> bool" where
  "kq_waits_ok s \<longleftrightarrow>
     (\<forall>t < length (kq_tickets s). \<forall>u < t. kq_open s (fst (kq_tickets s ! t)) u \<longrightarrow>
        (\<exists>p. snd (kq_tickets s ! t) = Some p \<and> u \<le> p))"

definition kq_prev_ok :: "keyed_queue \<Rightarrow> bool" where
  "kq_prev_ok s \<longleftrightarrow>
     (\<forall>t < length (kq_tickets s). \<forall>p. snd (kq_tickets s ! t) = Some p \<longrightarrow>
        p < t \<and> fst (kq_tickets s ! p) = fst (kq_tickets s ! t))"

definition kq_done_ok :: "keyed_queue \<Rightarrow> bool" where
  "kq_done_ok s \<longleftrightarrow>
     (\<forall>t \<in> set (kq_done s). t < length (kq_tickets s) \<and>
        (\<forall>u < t. fst (kq_tickets s ! u) = fst (kq_tickets s ! t) \<longrightarrow> u \<in> set (kq_done s)))"

definition kq_inv :: "keyed_queue \<Rightarrow> bool" where
  "kq_inv s \<longleftrightarrow> kq_tails_ok s \<and> kq_waits_ok s \<and> kq_prev_ok s \<and> kq_done_ok s"

lemma kq_tail_None:
  assumes "kq_inv s" "kq_tail s k = None" shows "\<not> kq_open s k u"
proof -
  have "case kq_tail s k of None \<Rightarrow> \<forall>u. \<not> kq_open s k u
          | Some t \<Rightarrow> kq_open s k t \<and> (\<forall>u. kq_open s k u \<longrightarrow> u \<le> t)"
    using assms(1) unfolding kq_inv_def kq_tails_ok_def by blast
  with assms(2) show ?thesis by simp
qed

lemma kq_tail_Some:
  assumes "kq_inv s" "kq_tail s k = Some t" shows "kq_open s k t \<and> (kq_open s k u \<longrightarrow> u \<le> t)"
proof -
  have "case kq_tail s k of None \<Rightarrow> \<forall>u. \<not> kq_open s k u
          | Some t \<Rightarrow> kq_open s k t \<and> (\<forall>u. kq_open s k u \<longrightarrow> u \<le> t)"
    using assms(1) unfolding kq_inv_def kq_tails_ok_def by blast
  with assms(2) show ?thesis by simp
qed

lemma kq_prev_ge:
  "kq_inv s \<Longrightarrow> t < length (kq_tickets s) \<Longrightarrow> u < t \<Longrightarrow> kq_open s (fst (kq_tickets s ! t)) u \<Longrightarrow>
   \<exists>p. snd (kq_tickets s ! t) = Some p \<and> u \<le> p"
  by (simp add: kq_inv_def kq_waits_ok_def)

lemma kq_prev_lt:
  "kq_inv s \<Longrightarrow> t < length (kq_tickets s) \<Longrightarrow> snd (kq_tickets s ! t) = Some p \<Longrightarrow>
   p < t \<and> fst (kq_tickets s ! p) = fst (kq_tickets s ! t)"
  by (simp add: kq_inv_def kq_prev_ok_def)

lemma kq_done_prefix:
  "kq_inv s \<Longrightarrow> t \<in> set (kq_done s) \<Longrightarrow> t < length (kq_tickets s) \<and>
   (u < t \<longrightarrow> fst (kq_tickets s ! u) = fst (kq_tickets s ! t) \<longrightarrow> u \<in> set (kq_done s))"
  by (simp add: kq_inv_def kq_done_ok_def)

lemma kq_running_iff:
  assumes "kq_inv s" "t < length (kq_tickets s)"
  shows "kq_running s t \<longleftrightarrow> kq_open s (fst (kq_tickets s ! t)) t \<and>
           (\<forall>u. kq_open s (fst (kq_tickets s ! t)) u \<longrightarrow> t \<le> u)"
    (is "_ \<longleftrightarrow> kq_open s ?k t \<and> _")
proof
  assume r: "kq_running s t"
  have "t \<le> u" if "kq_open s ?k u" for u
  proof (rule ccontr)
    assume "\<not> t \<le> u"
    then have "u < t" by simp
    from kq_prev_ge [OF assms(1,2) this that] obtain p where
      p: "snd (kq_tickets s ! t) = Some p" "u \<le> p" by blast
    with r have "p \<in> set (kq_done s)" by (simp add: kq_running_def)
    with kq_done_prefix [OF assms(1) this, of u] kq_prev_lt [OF assms p(1)] p(2) that
    show False by (auto simp: kq_open_def le_less)
  qed
  with r show "kq_open s ?k t \<and> (\<forall>u. kq_open s ?k u \<longrightarrow> t \<le> u)"
    by (simp add: kq_running_def kq_open_def)
next
  assume a: "kq_open s ?k t \<and> (\<forall>u. kq_open s ?k u \<longrightarrow> t \<le> u)"
  have "p \<in> set (kq_done s)" if "snd (kq_tickets s ! t) = Some p" for p
  proof -
    from kq_prev_lt [OF assms that] have p: "p < t" "fst (kq_tickets s ! p) = ?k" by simp_all
    then have "\<not> kq_open s ?k p" using a by (meson not_le)
    with p assms(2) show ?thesis by (simp add: kq_open_def)
  qed
  with a show "kq_running s t" by (auto simp: kq_running_def kq_open_def split: option.splits)
qed

lemma kq_inv_run:
  assumes "kq_inv s"
  shows "kq_inv (kq_run key s)"
proof -
  let ?n = "length (kq_tickets s)" and ?s = "kq_run key s"
  have dn: "\<forall>t \<in> set (kq_done s). t < ?n" using kq_done_prefix [OF assms] by blast
  have o: "kq_open ?s k u \<longleftrightarrow> kq_open s k u \<or> k = key \<and> u = ?n" for k u
    using dn by (auto simp: kq_open_def kq_run_def nth_append less_Suc_eq)
  have old: "t < ?n \<Longrightarrow> kq_tickets ?s ! t = kq_tickets s ! t" for t
    by (simp add: kq_run_def nth_append)
  have new: "kq_tickets ?s ! ?n = (key, kq_tail s key)" by (simp add: kq_run_def)
  have len: "length (kq_tickets ?s) = Suc ?n" by (simp add: kq_run_def)
  have bound: "kq_open s k u \<Longrightarrow> u < ?n" for k u by (simp add: kq_open_def)
  have "kq_tails_ok ?s"
    unfolding kq_tails_ok_def
  proof
    fix k
    show "case kq_tail ?s k of None \<Rightarrow> \<forall>u. \<not> kq_open ?s k u
          | Some t \<Rightarrow> kq_open ?s k t \<and> (\<forall>u. kq_open ?s k u \<longrightarrow> u \<le> t)"
    proof (cases "k = key")
      case True
      then have "kq_tail ?s k = Some ?n" by (simp add: kq_run_def)
      with True o bound show ?thesis by (auto intro: less_imp_le)
    next
      case False
      then have "kq_tail ?s k = kq_tail s k" by (simp add: kq_run_def)
      with False o kq_tail_None [OF assms, of k] kq_tail_Some [OF assms, of k] show ?thesis
        by (auto split: option.splits)
    qed
  qed
  moreover have "kq_waits_ok ?s"
    unfolding kq_waits_ok_def len
  proof (intro allI impI)
    fix t u
    assume that: "t < Suc ?n" "u < t" "kq_open ?s (fst (kq_tickets ?s ! t)) u"
    show "\<exists>p. snd (kq_tickets ?s ! t) = Some p \<and> u \<le> p"
    proof (cases "t = ?n")
      case True
      with that new o have u: "kq_open s key u" by auto
      with kq_tail_None [OF assms, of key u] kq_tail_Some [OF assms, of key _ u] True new
      show ?thesis by (cases "kq_tail s key") auto
    next
      case False
      with that(1) have t: "t < ?n" by simp
      with that o old have "kq_open s (fst (kq_tickets s ! t)) u" by simp
      with kq_prev_ge [OF assms t that(2)] old [OF t] show ?thesis by simp
    qed
  qed
  moreover have "kq_prev_ok ?s"
    unfolding kq_prev_ok_def len
  proof (intro allI impI)
    fix t p
    assume that: "t < Suc ?n" "snd (kq_tickets ?s ! t) = Some p"
    show "p < t \<and> fst (kq_tickets ?s ! p) = fst (kq_tickets ?s ! t)"
    proof (cases "t = ?n")
      case True
      with that new kq_tail_Some [OF assms, of key p] have "kq_open s key p" by auto
      then have "p < ?n" "fst (kq_tickets s ! p) = key" by (simp_all add: kq_open_def)
      with True new old [of p] show ?thesis by simp
    next
      case False
      with that(1) have t: "t < ?n" by simp
      with that(2) old have "snd (kq_tickets s ! t) = Some p" by simp
      from kq_prev_lt [OF assms t this] t old [of t] old [of p] show ?thesis by simp
    qed
  qed
  moreover have "kq_done_ok ?s"
    unfolding kq_done_ok_def len
  proof (intro ballI conjI allI impI)
    fix t u
    assume t: "t \<in> set (kq_done ?s)"
    then have td: "t \<in> set (kq_done s)" by (simp add: kq_run_def)
    with dn show "t < Suc ?n" by auto
    assume u: "u < t" "fst (kq_tickets ?s ! u) = fst (kq_tickets ?s ! t)"
    from td dn u(1) have "t < ?n" "u < ?n" by auto
    with u(2) old have "fst (kq_tickets s ! u) = fst (kq_tickets s ! t)" by simp
    with kq_done_prefix [OF assms td, of u] u(1) show "u \<in> set (kq_done ?s)"
      by (simp add: kq_run_def)
  qed
  ultimately show ?thesis by (simp add: kq_inv_def)
qed

lemma kq_inv_finish:
  assumes "kq_inv s" "kq_running s t"
  shows "kq_inv (kq_finish t s)"
proof -
  let ?s = "kq_finish t s" and ?k = "fst (kq_tickets s ! t)"
  have t: "t < length (kq_tickets s)" using assms(2) by (simp add: kq_running_def)
  have first: "kq_open s ?k t" "kq_open s ?k u \<Longrightarrow> t \<le> u" for u
    using assms kq_running_iff [OF assms(1) t] by blast+
  have o: "kq_open ?s k u \<longleftrightarrow> kq_open s k u \<and> u \<noteq> t" for k u
    by (auto simp: kq_open_def kq_finish_def Let_def)
  have tk: "kq_tickets ?s = kq_tickets s" by (simp add: kq_finish_def Let_def)
  have "kq_tails_ok ?s"
    unfolding kq_tails_ok_def
  proof
    fix k
    show "case kq_tail ?s k of None \<Rightarrow> \<forall>u. \<not> kq_open ?s k u
          | Some t \<Rightarrow> kq_open ?s k t \<and> (\<forall>u. kq_open ?s k u \<longrightarrow> u \<le> t)"
    proof (cases "kq_tail s k = Some t")
      case True
      with kq_tail_Some [OF assms(1), of k t] have "kq_open s k t" by blast
      then have k: "k = ?k" by (simp add: kq_open_def)
      with True have "kq_tail ?s k = None" by (simp add: kq_finish_def Let_def)
      moreover have "\<not> kq_open ?s k u" for u
        using kq_tail_Some [OF assms(1) True, of u] first(2) [of u] k o [of k u]
        by (meson le_antisym)
      ultimately show ?thesis by simp
    next
      case False
      then have "kq_tail ?s k = kq_tail s k" by (auto simp: kq_finish_def Let_def)
      with False o kq_tail_None [OF assms(1), of k] kq_tail_Some [OF assms(1), of k]
      show ?thesis by (auto split: option.splits)
    qed
  qed
  moreover have "kq_waits_ok ?s"
    unfolding kq_waits_ok_def tk using kq_prev_ge [OF assms(1)] o by blast
  moreover have "kq_prev_ok ?s"
    unfolding kq_prev_ok_def tk using kq_prev_lt [OF assms(1)] by blast
  moreover have "kq_done_ok ?s"
    unfolding kq_done_ok_def tk
  proof (intro ballI conjI allI impI)
    fix v u
    assume "v \<in> set (kq_done ?s)"
    then have v: "v = t \<or> v \<in> set (kq_done s)" by (simp add: kq_finish_def Let_def)
    then show "v < length (kq_tickets s)" using t kq_done_prefix [OF assms(1)] by blast
    assume u: "u < v" "fst (kq_tickets s ! u) = fst (kq_tickets s ! v)"
    have "u \<in> set (kq_done s)"
    proof (cases "v = t")
      case True
      with u first(2) [of u] t show ?thesis by (auto simp: kq_open_def)
    next
      case False
      with v u kq_done_prefix [OF assms(1), of v u] show ?thesis by simp
    qed
    then show "u \<in> set (kq_done ?s)" by (simp add: kq_finish_def Let_def)
  qed
  ultimately show ?thesis by (simp add: kq_inv_def)
qed

lemma kq_reachable_inv: "kq_reachable s \<Longrightarrow> kq_inv s"
  by (induction rule: kq_reachable.induct)
    (simp_all add: kq_inv_run kq_inv_finish, simp add: kq_inv_def kq_tails_ok_def kq_waits_ok_def kq_prev_ok_def kq_done_ok_def
      new_keyed_queue_def kq_open_def)

lemma set_open_tickets: "u \<in> set (open_tickets k s) \<longleftrightarrow> kq_open s k u"
  by (auto simp: open_tickets_def kq_open_def)

lemma sorted_hd_iff:
  "sorted xs \<Longrightarrow> distinct xs \<Longrightarrow> (\<exists>ys. xs = x # ys) \<longleftrightarrow> x \<in> set xs \<and> (\<forall>y \<in> set xs. x \<le> (y::nat))"
  by (cases xs) force+

text \<open>
  Work queued under one key runs one task at a time in the order it was queued: in
  every reachable state a task runs exactly when it is the oldest unsettled one of its key
  (so whenever one is waiting, one is running), and a key with nothing unsettled is gone
  from the map.
\<close>

theorem keyed_queue_serial:
  assumes "kq_reachable s" "t < length (kq_tickets s)"
  shows "(kq_running s t \<longleftrightarrow> (\<exists>ts. open_tickets (fst (kq_tickets s ! t)) s = t # ts)) \<and>
         (kq_tail s key = None \<longleftrightarrow> open_tickets key s = [])"
proof -
  note inv = kq_reachable_inv [OF assms(1)]
  have "sorted (open_tickets k s)" "distinct (open_tickets k s)" for k
    unfolding open_tickets_def by (intro sorted_wrt_filter distinct_filter, simp)+
  then have "kq_running s t \<longleftrightarrow> (\<exists>ts. open_tickets (fst (kq_tickets s ! t)) s = t # ts)"
    unfolding kq_running_iff [OF inv assms(2)]
    by (simp add: sorted_hd_iff set_open_tickets Ball_def)
  moreover have "kq_tail s key = None \<longleftrightarrow> (\<forall>u. \<not> kq_open s key u)"
    using kq_tail_None [OF inv, of key] kq_tail_Some [OF inv, of key]
    by (cases "kq_tail s key") auto
  then have "kq_tail s key = None \<longleftrightarrow> set (open_tickets key s) = {}"
    unfolding set_eq_iff by (simp add: set_open_tickets del: set_empty)
  ultimately show ?thesis by simp
qed

lemma keyed_queue_serial_witness:
  "\<not> kq_running (kq_run ''a'' (kq_run ''a'' new_keyed_queue)) 1"
proof -
  let ?s = "kq_run ''a'' (kq_run ''a'' new_keyed_queue)"
  have "kq_reachable ?s" by (intro kq_reachable.intros)
  from keyed_queue_serial [OF this, of 1 "''a''"] show ?thesis
    by (simp add: open_tickets_def kq_run_def new_keyed_queue_def upt_rec)
qed

end
