(* ===== verification/Workflow_Run.thy ===== *)
theory Workflow_Run
  imports Workflow_Journal In_Flight
begin

text \<open>
  One live workflow run: \<^verbatim>\<open>packages/dreamux/src/service/workflow-service/run.ts\<close>, with the
  runner protocol's option reader (\<^verbatim>\<open>protocol.ts\<close>) and the limits (\<^verbatim>\<open>limits.ts\<close>).

  A step is what runs between two suspension points of the source: the arrival of a runner
  message, the synchronous part of a handler, one durable write with its outcome
  (\<^verbatim>\<open>None\<close>, or the message of the failure), the settlement of a promise an agent task
  awaits, one stage of \<^verbatim>\<open>finalize\<close>.  Agent tasks, the message handler and the finaliser
  interleave freely.  Where each agent task and the finaliser stand is a program counter.
  The agent's record inside the run's draft is the entry with its index, which the source
  shares by reference.  A store write clones the draft and publishes it in one step.
  Runner messages arrive decoded, \<^verbatim>\<open>None\<close> for a malformed one; the runner numbers its agents
  from 0.  JSON parsing of structured output is the parameter \<open>jp\<close>.
\<close>

definition MAX_AGENTS :: nat where "MAX_AGENTS = 1000"

datatype emit_kind = Emit_Phase | Emit_Log

datatype child_message =
    M_Agent_Start nat string "(string \<times> js) list"
  | M_Emit emit_kind string
  | M_Run_Completed js
  | M_Run_Failed string

datatype parent_message =
    P_Run_Start
  | P_Agent_Result nat js
  | P_Agent_Error nat string
  | P_Abort

definition is_run_result :: "child_message \<Rightarrow> bool" where
  "is_run_result m = (case m of M_Run_Completed _ \<Rightarrow> True | M_Run_Failed _ \<Rightarrow> True | _ \<Rightarrow> False)"

subsection \<open>Options of one agent call\<close>

record agent_options =
  ao_label :: "string option"
  ao_phase :: "string option"
  ao_type :: "string option"
  ao_intent :: "string option"
  ao_identity :: "string option"
  ao_schema :: "js option"

definition string_option :: "(string \<times> js) list \<Rightarrow> string \<Rightarrow> string + string option" where
  "string_option ob key =
     (case jget ob key of
        Undef \<Rightarrow> Inr None
      | Str s \<Rightarrow> Inr (Some s)
      | _ \<Rightarrow> Inl (''workflow agent option '' @ key @ '' must be a string''))"

definition normalize_agent_options :: "(string \<times> js) list \<Rightarrow> string + agent_options" where
  "normalize_agent_options ob =
     bind_res (string_option ob ''label'') (\<lambda>l.
     bind_res (string_option ob ''phase'') (\<lambda>p.
     bind_res (string_option ob ''agentType'') (\<lambda>t.
     bind_res (string_option ob ''intent'') (\<lambda>i.
     bind_res (string_option ob ''identity'') (\<lambda>d.
       (if jget ob ''schema'' = Undef then
          Inr \<lparr>ao_label = l, ao_phase = p, ao_type = t, ao_intent = i, ao_identity = d,
               ao_schema = None\<rparr>
        else if is_plain_object (jget ob ''schema'') then
          Inr \<lparr>ao_label = l, ao_phase = p, ao_type = t, ao_intent = i, ao_identity = d,
               ao_schema = Some (jget ob ''schema'')\<rparr>
        else Inl ''workflow agent option schema must be an object''))))))"

subsection \<open>State\<close>

datatype call_pc =
    Pc_Registering
  | Pc_Lost
  | Pc_Acquire nat
  | Pc_Running_Write
  | Pc_Materializing
  | Pc_Submit_Journal ms
  | Pc_Submit_Store
  | Pc_Submitting
  | Pc_Turn
  | Pc_Result_Journal "string option"
  | Pc_Result_Store "string option"
  | Pc_Result_Send "string option"
  | Pc_Finished

record agent_call =
  cl_options :: agent_options
  cl_handle :: "string option"
  cl_candidate :: "result_event option"
  cl_completed :: bool
  cl_slot :: "nat option"
  cl_pc :: call_pc

record terminal_intent =
  ti_status :: terminal_status
  ti_result :: js
  ti_error :: "string option"

datatype final_pc =
    Fin_None
  | Fin_Stop_Runner
  | Fin_Close bool
  | Fin_Drain bool
  | Fin_Loop bool
  | Fin_Result_Journal bool nat
  | Fin_Result_Store bool nat
  | Fin_Journal
  | Fin_Store
  | Fin_Deliver
  | Fin_Settled

record workflow_run =
  rs_draft :: workflow_record
  rs_store :: workflow_record
  rs_journal :: journal
  rs_calls :: "(nat \<times> agent_call) list"
  rs_sem :: semaphore
  rs_intent :: "terminal_intent option"
  rs_seen :: bool
  rs_tail :: "child_message list"
  rs_handling :: "(child_message \<times> ms) option"
  rs_candidate :: "workflow_record option"
  rs_recipient :: bool
  rs_final :: final_pc
  rs_unlocked :: "string list"
  rs_sent :: "parent_message list"
  rs_delivered :: "terminal_status list"

text \<open>The run after \<^verbatim>\<open>initialize\<close>: journal and record created.\<close>

definition initialized_run :: "workflow_record \<Rightarrow> workflow_run" where
  "initialized_run r =
     \<lparr>rs_draft = r, rs_store = r,
      rs_journal = snd (journal_create r True \<lparr>jn_file = None, jn_facts = None\<rparr>),
      rs_calls = [], rs_sem = new_semaphore, rs_intent = None, rs_seen = False, rs_tail = [],
      rs_handling = None, rs_candidate = None, rs_recipient = True, rs_final = Fin_None,
      rs_unlocked = [], rs_sent = [], rs_delivered = []\<rparr>"

definition call_of :: "workflow_run \<Rightarrow> nat \<Rightarrow> agent_call option" where
  "call_of s i = map_of (rs_calls s) i"

definition upd_call ::
  "nat \<Rightarrow> (agent_call \<Rightarrow> agent_call) \<Rightarrow> (nat \<times> agent_call) list \<Rightarrow> (nat \<times> agent_call) list" where
  "upd_call i f cs = map (\<lambda>(k, c). (k, if k = i then f c else c)) cs"

definition upd_agent ::
  "nat \<Rightarrow> (workflow_agent \<Rightarrow> workflow_agent) \<Rightarrow> workflow_agent list \<Rightarrow> workflow_agent list" where
  "upd_agent i f as = map (\<lambda>a. if wa_index a = i then f a else a) as"

definition set_call :: "nat \<Rightarrow> (agent_call \<Rightarrow> agent_call) \<Rightarrow> workflow_run \<Rightarrow> workflow_run" where
  "set_call i f s = s\<lparr>rs_calls := upd_call i f (rs_calls s)\<rparr>"

definition set_pc :: "nat \<Rightarrow> call_pc \<Rightarrow> workflow_run \<Rightarrow> workflow_run" where
  "set_pc i p = set_call i (\<lambda>c. c\<lparr>cl_pc := p\<rparr>)"

definition set_agent ::
  "nat \<Rightarrow> (workflow_agent \<Rightarrow> workflow_agent) \<Rightarrow> workflow_run \<Rightarrow> workflow_run" where
  "set_agent i f s = s\<lparr>rs_draft := (rs_draft s)\<lparr>wr_agents :=
     upd_agent i f (wr_agents (rs_draft s))\<rparr>\<rparr>"

definition touch :: "ms \<Rightarrow> workflow_run \<Rightarrow> workflow_run" where
  "touch now s = s\<lparr>rs_draft := (rs_draft s)\<lparr>wr_updated := now\<rparr>\<rparr>"

definition send_message :: "parent_message \<Rightarrow> workflow_run \<Rightarrow> workflow_run" where
  "send_message m s = s\<lparr>rs_sent := rs_sent s @ [m]\<rparr>"

definition write_store :: "workflow_run \<Rightarrow> workflow_run" where
  "write_store s = s\<lparr>rs_store := rs_draft s\<rparr>"

subsection \<open>Terminal intent\<close>

definition close_on_intent :: "terminal_status \<Rightarrow> workflow_run \<Rightarrow> workflow_run" where
  "close_on_intent st s =
     s\<lparr>rs_sem := sem_close (rs_sem s),
       rs_recipient := (if st = St_Stopped then False else rs_recipient s)\<rparr>"

definition reserve_stop :: "workflow_run \<Rightarrow> workflow_run" where
  "reserve_stop s =
     (if rs_intent s \<noteq> None then s
      else send_message P_Abort (close_on_intent St_Stopped
             (s\<lparr>rs_intent := Some \<lparr>ti_status = St_Stopped, ti_result = Null, ti_error = None\<rparr>\<rparr>)))"

definition ensure_terminal_task :: "workflow_run \<Rightarrow> workflow_run" where
  "ensure_terminal_task s =
     (if rs_final s = Fin_None then s\<lparr>rs_final := Fin_Stop_Runner\<rparr> else s)"

definition request_terminal ::
  "terminal_status \<Rightarrow> js \<Rightarrow> string option \<Rightarrow> workflow_run \<Rightarrow> workflow_run" where
  "request_terminal st result err s =
     ensure_terminal_task
       (if rs_intent s = None then
          close_on_intent st
            (s\<lparr>rs_intent := Some \<lparr>ti_status = st, ti_result = result, ti_error = err\<rparr>\<rparr>)
        else s)"

definition fail_run :: "string \<Rightarrow> workflow_run \<Rightarrow> workflow_run" where
  "fail_run msg = request_terminal St_Failed Null (Some msg)"

text \<open>\<^verbatim>\<open>stop\<close>: the reservation and the shared finalize task.\<close>

definition stop_run :: "workflow_run \<Rightarrow> workflow_run" where
  "stop_run s = ensure_terminal_task (reserve_stop s)"

definition runner_exited :: "string \<Rightarrow> workflow_run \<Rightarrow> workflow_run" where
  "runner_exited msg s =
     (if \<not> rs_seen s \<and> rs_intent s = None then fail_run msg s else s)"

definition runner_error :: "string \<Rightarrow> workflow_run \<Rightarrow> workflow_run" where
  "runner_error msg s = (if rs_intent s = None then fail_run msg s else s)"

subsection \<open>Runner messages\<close>

definition receive_message :: "child_message option \<Rightarrow> workflow_run \<Rightarrow> workflow_run" where
  "receive_message m s =
     (case m of
        None \<Rightarrow> s
      | Some msg \<Rightarrow>
          if rs_seen s \<or> rs_intent s \<noteq> None then s
          else s\<lparr>rs_seen := (rs_seen s \<or> is_run_result msg), rs_tail := rs_tail s @ [msg]\<rparr>)"

text \<open>
  A message to the runner about an agent that will not run; a failed send rejects the
  handler, whose rejection becomes a failed run.
\<close>

definition send_agent_error :: "nat \<Rightarrow> string \<Rightarrow> string option \<Rightarrow> workflow_run \<Rightarrow> workflow_run" where
  "send_agent_error i err send s =
     (if rs_intent s \<noteq> None then s
      else (case send of
              None \<Rightarrow> send_message (P_Agent_Error i err) s
            | Some msg \<Rightarrow> fail_run msg s))"

definition new_agent :: "nat \<Rightarrow> agent_options \<Rightarrow> string option \<Rightarrow> ms \<Rightarrow> workflow_agent" where
  "new_agent i opts phase now =
     \<lparr>wa_index = i, wa_name = None, wa_label = ao_label opts,
      wa_phase = (case ao_phase opts of None \<Rightarrow> phase | Some p \<Rightarrow> Some p),
      wa_status = Ag_Queued, wa_result = Null, wa_error = None, wa_created = now,
      wa_settled = None\<rparr>"

definition new_call :: "agent_options \<Rightarrow> agent_call" where
  "new_call opts = \<lparr>cl_options = opts, cl_handle = None, cl_candidate = None,
     cl_completed = False, cl_slot = None, cl_pc = Pc_Registering\<rparr>"

definition handle_agent_start ::
  "nat \<Rightarrow> string \<Rightarrow> (string \<times> js) list \<Rightarrow> ms \<Rightarrow> string option \<Rightarrow> workflow_run \<Rightarrow> workflow_run" where
  "handle_agent_start i prompt ob now send s =
     (if rs_intent s \<noteq> None then send_agent_error i ''workflow is no longer running'' send s
      else if call_of s i \<noteq> None then
        send_agent_error i ''duplicate workflow agent index'' send s
      else if length (rs_calls s) \<ge> MAX_AGENTS then
        send_agent_error i
          (''workflow agent lifecycle limit of '' @ show_nat MAX_AGENTS @ '' exceeded'') send s
      else (case normalize_agent_options ob of
          Inl e \<Rightarrow> send_agent_error i e send s
        | Inr opts \<Rightarrow>
            s\<lparr>rs_calls := rs_calls s @ [(i, new_call opts)],
              rs_draft := (rs_draft s)\<lparr>wr_agents := wr_agents (rs_draft s) @
                  [new_agent i opts (wr_phase (rs_draft s)) now], wr_updated := now\<rparr>,
              rs_handling := Some (M_Agent_Start i prompt ob, now)\<rparr>))"

definition handle_emit :: "emit_kind \<Rightarrow> string \<Rightarrow> ms \<Rightarrow> workflow_run \<Rightarrow> workflow_run" where
  "handle_emit k m now s =
     (if rs_intent s \<noteq> None then s
      else s\<lparr>rs_draft := (case k of
                 Emit_Phase \<Rightarrow> (rs_draft s)\<lparr>wr_phase := Some m, wr_updated := now\<rparr>
               | Emit_Log \<Rightarrow> (rs_draft s)\<lparr>wr_last_log := Some m, wr_updated := now\<rparr>),
             rs_handling := Some (M_Emit k m, now)\<rparr>)"

text \<open>\<^verbatim>\<open>handleRunnerMessage\<close> up to its durable write; \<open>send\<close> is the outcome of a send it makes.\<close>

definition handle_message :: "ms \<Rightarrow> string option \<Rightarrow> workflow_run \<Rightarrow> workflow_run" where
  "handle_message now send s =
     (if rs_handling s \<noteq> None then s
      else (case rs_tail s of
        [] \<Rightarrow> s
      | m # ms \<Rightarrow>
         (let s1 = s\<lparr>rs_tail := ms\<rparr> in
          (case m of
             M_Agent_Start i prompt ob \<Rightarrow> handle_agent_start i prompt ob now send s1
           | M_Emit k t \<Rightarrow> handle_emit k t now s1
           | M_Run_Completed r \<Rightarrow>
               if rs_intent s1 \<noteq> None then s1
               else request_terminal St_Completed (or_null r) None s1
           | M_Run_Failed e \<Rightarrow>
               if rs_intent s1 \<noteq> None then s1
               else request_terminal St_Failed Null (Some e) s1))))"

text \<open>The start of \<^verbatim>\<open>executeAgent\<close>: its request for a slot.\<close>

definition launch_agent :: "nat \<Rightarrow> workflow_run \<Rightarrow> workflow_run" where
  "launch_agent i s =
     (case sem_acquire (wr_max (rs_draft s)) (rs_sem s) of
        (r, sem) \<Rightarrow> set_pc i (Pc_Acquire r) (s\<lparr>rs_sem := sem\<rparr>))"

text \<open>The durable write of the handler in progress.\<close>

definition handler_write :: "string option \<Rightarrow> string option \<Rightarrow> workflow_run \<Rightarrow> workflow_run" where
  "handler_write jw sw s =
     (case rs_handling s of
        Some (M_Agent_Start i _ _, _) \<Rightarrow>
          (let s1 = s\<lparr>rs_handling := None\<rparr> in
           (case sw of
              None \<Rightarrow> launch_agent i (write_store s1)
            | Some msg \<Rightarrow> fail_run msg (set_pc i Pc_Lost s1)))
      | Some (M_Emit k m, t) \<Rightarrow>
          (let s1 = s\<lparr>rs_handling := None\<rparr>;
               ev = (case k of Emit_Phase \<Rightarrow> Ev_Phase m t | Emit_Log \<Rightarrow> Ev_Log m t) in
           (case journal_append ev (jw = None) (rs_journal s1) of
              (Inl _, j) \<Rightarrow> fail_run (the jw) (s1\<lparr>rs_journal := j\<rparr>)
            | (Inr _, j) \<Rightarrow>
                (let s2 = s1\<lparr>rs_journal := j\<rparr> in
                 (case sw of None \<Rightarrow> write_store s2 | Some msg \<Rightarrow> fail_run msg s2))))
      | _ \<Rightarrow> s)"

subsection \<open>Settling an agent\<close>

text \<open>The \<^verbatim>\<open>finally\<close> of the agent task.\<close>

definition finish_task :: "nat \<Rightarrow> workflow_run \<Rightarrow> workflow_run" where
  "finish_task i s =
     (case call_of s i of
        None \<Rightarrow> s
      | Some c \<Rightarrow> set_call i (\<lambda>c. c\<lparr>cl_pc := Pc_Finished, cl_slot := None\<rparr>)
          (case cl_slot c of
             None \<Rightarrow> s
           | Some r \<Rightarrow> s\<lparr>rs_sem := sem_release r (rs_sem s)\<rparr>))"

definition candidate_of ::
  "workflow_run \<Rightarrow> nat \<Rightarrow> agent_call \<Rightarrow> terminal_status \<Rightarrow> js \<Rightarrow> string option \<Rightarrow> ms \<Rightarrow> result_event" where
  "candidate_of s i c st result err now =
     (case cl_candidate c of
        Some e \<Rightarrow> e
      | None \<Rightarrow> \<lparr>re_index = i, re_status = st,
                re_result = (if st = St_Completed then result else Null), re_error = err,
                re_settled = (case find (\<lambda>a. wa_index a = i) (wr_agents (rs_draft s)) of
                    Some a \<Rightarrow> (case wa_settled a of None \<Rightarrow> now | Some t \<Rightarrow> t) | None \<Rightarrow> now)\<rparr>)"

text \<open>\<^verbatim>\<open>completeAgent\<close> up to its durable write.\<close>

definition complete_begin ::
  "nat \<Rightarrow> terminal_status \<Rightarrow> js \<Rightarrow> string option \<Rightarrow> ms \<Rightarrow> workflow_run \<Rightarrow> workflow_run" where
  "complete_begin i st result err now s =
     (case call_of s i of
        None \<Rightarrow> s
      | Some c \<Rightarrow>
          (let e = candidate_of s i c st result err now in
           touch (re_settled e) (set_agent i (settle_agent e)
             (set_call i (\<lambda>c. c\<lparr>cl_candidate := Some e\<rparr>) s))))"

definition complete_task ::
  "nat \<Rightarrow> terminal_status \<Rightarrow> js \<Rightarrow> string option \<Rightarrow> string option \<Rightarrow> ms \<Rightarrow> workflow_run \<Rightarrow> workflow_run"
where
  "complete_task i st result err runner_err now s =
     set_pc i (Pc_Result_Journal runner_err) (complete_begin i st result err now s)"

text \<open>The journal row of a settled agent, then the record; the failure message of either.\<close>

definition write_result ::
  "nat \<Rightarrow> string option \<Rightarrow> workflow_run \<Rightarrow> string option \<times> workflow_run" where
  "write_result i w s =
     (case call_of s i of
        None \<Rightarrow> (None, s)
      | Some c \<Rightarrow> (case cl_candidate c of
          None \<Rightarrow> (None, s)
        | Some e \<Rightarrow> (case ensure_agent_result e (w = None) (rs_journal s) of
              (Inr _, j) \<Rightarrow> (None, s\<lparr>rs_journal := j\<rparr>)
            | (Inl _, j) \<Rightarrow>
                (Some (case w of Some m \<Rightarrow> m | None \<Rightarrow> ''workflow journal conflict''),
                 s\<lparr>rs_journal := j\<rparr>))))"

subsection \<open>The agent task\<close>

text \<open>
  The outcome of a submission; the flag says the error is the runtime's
  \<^verbatim>\<open>outputSchema\<close> is unsupported.
\<close>

datatype admission =
    Adm_Submitted
  | Adm_Duplicate
  | Adm_Stopped
  | Adm_Skipped
  | Adm_Failed string bool
  | Adm_Ambiguous string bool

datatype turn_outcome = Out_Completed "string option" | Out_Failed string | Out_Stopped

text \<open>The \<^verbatim>\<open>catch\<close> of the task for an error of the agent's own work.\<close>

definition task_failed :: "nat \<Rightarrow> string \<Rightarrow> bool \<Rightarrow> ms \<Rightarrow> workflow_run \<Rightarrow> workflow_run" where
  "task_failed i msg unsupported now s =
     (let stopped = (rs_intent s \<noteq> None) in
      complete_task i (if stopped then St_Stopped else St_Failed) Null
        (if stopped then None else Some msg)
        (if \<not> stopped \<and> unsupported then Some msg else None) now s)"

definition slot_step :: "nat \<Rightarrow> ms \<Rightarrow> workflow_run \<Rightarrow> workflow_run" where
  "slot_step i now s =
     (case call_of s i of
        Some c \<Rightarrow>
          (case cl_pc c of
             Pc_Acquire r \<Rightarrow>
               if r \<in> set (sem_holding (rs_sem s)) then
                 (let s1 = set_call i (\<lambda>c. c\<lparr>cl_slot := Some r\<rparr>) s in
                  if rs_intent s1 \<noteq> None then complete_task i St_Stopped Null None None now s1
                  else set_pc i Pc_Running_Write (touch now
                    (set_agent i (\<lambda>a. a\<lparr>wa_status := Ag_Running,
                        wa_phase := (case ao_phase (cl_options c) of
                            None \<Rightarrow> wr_phase (rs_draft s1) | Some p \<Rightarrow> Some p)\<rparr>) s1)))
               else if r \<in> set (sem_rejected (rs_sem s)) then
                 task_failed i ''workflow terminal'' False now s
               else s
           | _ \<Rightarrow> s)
      | None \<Rightarrow> s)"

definition running_write :: "nat \<Rightarrow> string option \<Rightarrow> ms \<Rightarrow> workflow_run \<Rightarrow> workflow_run" where
  "running_write i w now s =
     (case call_of s i of
        Some c \<Rightarrow>
          if cl_pc c \<noteq> Pc_Running_Write then s
          else (case w of
                  Some msg \<Rightarrow> finish_task i (fail_run msg s)
                | None \<Rightarrow>
                    (let s1 = write_store s in
                     if rs_intent s1 \<noteq> None then complete_task i St_Stopped Null None None now s1
                     else set_pc i Pc_Materializing s1))
      | None \<Rightarrow> s)"

text \<open>\<^verbatim>\<open>createLocked\<close> settled: the handle's name, or an error.\<close>

definition materialized :: "nat \<Rightarrow> (string \<times> bool) + string \<Rightarrow> ms \<Rightarrow> workflow_run \<Rightarrow> workflow_run" where
  "materialized i r now s =
     (case call_of s i of
        Some c \<Rightarrow>
          if cl_pc c \<noteq> Pc_Materializing then s
          else (case r of
                  Inl (msg, unsupported) \<Rightarrow> task_failed i msg unsupported now s
                | Inr name \<Rightarrow>
                    set_call i (\<lambda>c. c\<lparr>cl_handle := Some name, cl_pc := Pc_Submit_Journal now\<rparr>)
                      (touch now (set_agent i (\<lambda>a. a\<lparr>wa_name := Some name\<rparr>) s)))
      | None \<Rightarrow> s)"

definition submit_journal :: "nat \<Rightarrow> string option \<Rightarrow> workflow_run \<Rightarrow> workflow_run" where
  "submit_journal i w s =
     (case call_of s i of
        Some c \<Rightarrow>
          (case cl_pc c of
             Pc_Submit_Journal submitted \<Rightarrow>
               (case journal_append (Ev_Submit i (the (cl_handle c)) submitted) (w = None)
                       (rs_journal s) of
                  (Inr _, j) \<Rightarrow> set_pc i Pc_Submit_Store (s\<lparr>rs_journal := j\<rparr>)
                | (Inl _, j) \<Rightarrow> finish_task i (fail_run (the w) (s\<lparr>rs_journal := j\<rparr>)))
           | _ \<Rightarrow> s)
      | None \<Rightarrow> s)"

definition submit_store :: "nat \<Rightarrow> string option \<Rightarrow> ms \<Rightarrow> workflow_run \<Rightarrow> workflow_run" where
  "submit_store i w now s =
     (case call_of s i of
        Some c \<Rightarrow>
          if cl_pc c \<noteq> Pc_Submit_Store then s
          else (case w of
                  Some msg \<Rightarrow> finish_task i (fail_run msg s)
                | None \<Rightarrow>
                    (let s1 = write_store s in
                     if rs_intent s1 \<noteq> None then complete_task i St_Stopped Null None None now s1
                     else set_pc i Pc_Submitting s1))
      | None \<Rightarrow> s)"

definition admission_step :: "nat \<Rightarrow> admission \<Rightarrow> ms \<Rightarrow> workflow_run \<Rightarrow> workflow_run" where
  "admission_step i adm now s =
     (case call_of s i of
        Some c \<Rightarrow>
          if cl_pc c \<noteq> Pc_Submitting then s
          else (case adm of
                  Adm_Submitted \<Rightarrow> set_pc i Pc_Turn s
                | Adm_Stopped \<Rightarrow> complete_task i St_Stopped Null None None now s
                | Adm_Skipped \<Rightarrow> complete_task i St_Stopped Null None None now s
                | Adm_Duplicate \<Rightarrow> complete_task i St_Failed Null
                    (Some ''workflow agent submission duplicate'') None now s
                | Adm_Failed m u \<Rightarrow>
                    complete_task i St_Failed Null (Some m) (if u then Some m else None) now s
                | Adm_Ambiguous m u \<Rightarrow>
                    complete_task i St_Failed Null (Some m) (if u then Some m else None) now s)
      | None \<Rightarrow> s)"

definition text_value :: "string option \<Rightarrow> js" where
  "text_value t = (case t of None \<Rightarrow> Null | Some x \<Rightarrow> Str x)"

definition empty_output :: string where
  "empty_output = ''runtime reported successful structured output that was empty''"

definition bad_output :: string where
  "bad_output = ''runtime reported successful structured output that was not valid JSON''"

text \<open>The value and the error of a completed turn, parsed when the call has a schema.\<close>

definition turn_value :: "(string \<Rightarrow> js option) \<Rightarrow> bool \<Rightarrow> string option \<Rightarrow> js \<times> string option" where
  "turn_value jp schema text =
     (if \<not> schema then (text_value text, None)
      else (case text of
              None \<Rightarrow> (Null, Some empty_output)
            | Some t \<Rightarrow> (case jp t of Some v \<Rightarrow> (v, None) | None \<Rightarrow> (Null, Some bad_output))))"

definition outcome_step ::
  "(string \<Rightarrow> js option) \<Rightarrow> nat \<Rightarrow> turn_outcome \<Rightarrow> ms \<Rightarrow> workflow_run \<Rightarrow> workflow_run" where
  "outcome_step jp i out now s =
     (case call_of s i of
        Some c \<Rightarrow>
          if cl_pc c \<noteq> Pc_Turn then s
          else (case out of
                  Out_Failed m \<Rightarrow> complete_task i St_Failed Null (Some m) None now s
                | Out_Stopped \<Rightarrow> complete_task i St_Stopped Null None None now s
                | Out_Completed text \<Rightarrow>
                    (case turn_value jp (ao_schema (cl_options c) \<noteq> None) text of
                       (v, err) \<Rightarrow> complete_task i
                         (if err = None then St_Completed else St_Failed) v err err now s))
      | None \<Rightarrow> s)"

definition result_journal :: "nat \<Rightarrow> string option \<Rightarrow> workflow_run \<Rightarrow> workflow_run" where
  "result_journal i w s =
     (case call_of s i of
        Some c \<Rightarrow>
          (case cl_pc c of
             Pc_Result_Journal re \<Rightarrow>
               (case write_result i w s of
                  (None, s1) \<Rightarrow> set_pc i (Pc_Result_Store re) s1
                | (Some msg, s1) \<Rightarrow> finish_task i (fail_run msg s1))
           | _ \<Rightarrow> s)
      | None \<Rightarrow> s)"

definition result_store :: "nat \<Rightarrow> string option \<Rightarrow> workflow_run \<Rightarrow> workflow_run" where
  "result_store i w s =
     (case call_of s i of
        Some c \<Rightarrow>
          (case cl_pc c of
             Pc_Result_Store re \<Rightarrow>
               (case w of
                  Some msg \<Rightarrow> finish_task i (fail_run msg s)
                | None \<Rightarrow>
                    (let s1 = set_call i (\<lambda>c. c\<lparr>cl_completed := True\<rparr>) (write_store s) in
                     if rs_intent s1 \<noteq> None then finish_task i s1
                     else set_pc i (Pc_Result_Send re) s1))
           | _ \<Rightarrow> s)
      | None \<Rightarrow> s)"

text \<open>A failed send of a settled result is dropped: the call is completed by then.\<close>

definition result_send :: "nat \<Rightarrow> string option \<Rightarrow> workflow_run \<Rightarrow> workflow_run" where
  "result_send i w s =
     (case call_of s i of
        Some c \<Rightarrow>
          (case cl_pc c of
             Pc_Result_Send re \<Rightarrow>
               finish_task i (case w of
                   Some _ \<Rightarrow> s
                 | None \<Rightarrow> send_message (case re of
                       Some m \<Rightarrow> P_Agent_Error i m
                     | None \<Rightarrow> P_Agent_Result i (case cl_candidate c of
                           Some e \<Rightarrow> re_result e | None \<Rightarrow> Null)) s)
           | _ \<Rightarrow> s)
      | None \<Rightarrow> s)"

subsection \<open>Finalize\<close>

definition requested :: "workflow_run \<Rightarrow> terminal_intent" where
  "requested s = (case rs_intent s of
       Some t \<Rightarrow> t | None \<Rightarrow> \<lparr>ti_status = St_Stopped, ti_result = Null, ti_error = None\<rparr>)"

definition fin_stop_runner :: "bool \<Rightarrow> workflow_run \<Rightarrow> workflow_run" where
  "fin_stop_runner stopped_ok s =
     (if rs_final s = Fin_Stop_Runner then s\<lparr>rs_final := Fin_Close stopped_ok\<rparr> else s)"

text \<open>Closing the materialised teammates, once no materialisation is in flight.\<close>

definition fin_close :: "bool \<Rightarrow> workflow_run \<Rightarrow> workflow_run" where
  "fin_close closed_ok s =
     (case rs_final s of
        Fin_Close runner_ok \<Rightarrow>
          if \<exists>(i, c) \<in> set (rs_calls s). cl_pc c = Pc_Materializing then s
          else s\<lparr>rs_final := (if closed_ok then Fin_Drain runner_ok else Fin_None)\<rparr>
      | _ \<Rightarrow> s)"

definition task_over :: "agent_call \<Rightarrow> bool" where
  "task_over c \<longleftrightarrow> cl_pc c = Pc_Finished \<or> cl_pc c = Pc_Lost"

definition fin_drain :: "workflow_run \<Rightarrow> workflow_run" where
  "fin_drain s =
     (case rs_final s of
        Fin_Drain runner_ok \<Rightarrow>
          if rs_handling s = None \<and> (\<forall>m \<in> set (rs_tail s). is_run_result m) \<and>
             (\<forall>(i, c) \<in> set (rs_calls s). task_over c)
          then s\<lparr>rs_final := Fin_Loop runner_ok\<rparr> else s
      | _ \<Rightarrow> s)"

text \<open>The loop over the unsettled calls, then the memoised terminal record.\<close>

definition fin_next :: "ms \<Rightarrow> workflow_run \<Rightarrow> workflow_run" where
  "fin_next now s =
     (case rs_final s of
        Fin_Loop runner_ok \<Rightarrow>
          (case find (\<lambda>(i, c). \<not> cl_completed c) (rs_calls s) of
             Some (i, c) \<Rightarrow>
               (complete_begin i St_Stopped Null (ti_error (requested s)) now s)
                 \<lparr>rs_final := Fin_Result_Journal runner_ok i\<rparr>
           | None \<Rightarrow>
               if \<not> runner_ok then s\<lparr>rs_final := Fin_None\<rparr>
               else s\<lparr>rs_candidate := (case rs_candidate s of
                        Some r \<Rightarrow> Some r
                      | None \<Rightarrow> Some ((rs_draft s)\<lparr>wr_status := Run_Done (ti_status (requested s)),
                          wr_result := (if ti_status (requested s) = St_Completed
                                        then ti_result (requested s) else Null),
                          wr_error := ti_error (requested s), wr_ended := Some now,
                          wr_updated := now\<rparr>)),
                      rs_final := Fin_Journal\<rparr>)
      | _ \<Rightarrow> s)"

definition fin_result_journal :: "string option \<Rightarrow> workflow_run \<Rightarrow> workflow_run" where
  "fin_result_journal w s =
     (case rs_final s of
        Fin_Result_Journal runner_ok i \<Rightarrow>
          (case write_result i w s of
             (None, s1) \<Rightarrow> s1\<lparr>rs_final := Fin_Result_Store runner_ok i\<rparr>
           | (Some _, s1) \<Rightarrow> s1\<lparr>rs_final := Fin_None\<rparr>)
      | _ \<Rightarrow> s)"

definition fin_result_store :: "string option \<Rightarrow> workflow_run \<Rightarrow> workflow_run" where
  "fin_result_store w s =
     (case rs_final s of
        Fin_Result_Store runner_ok i \<Rightarrow>
          (case w of
             None \<Rightarrow> (set_call i (\<lambda>c. c\<lparr>cl_completed := True\<rparr>) (write_store s))
                       \<lparr>rs_final := Fin_Loop runner_ok\<rparr>
           | Some _ \<Rightarrow> s\<lparr>rs_final := Fin_None\<rparr>)
      | _ \<Rightarrow> s)"

definition terminal_of :: "workflow_record \<Rightarrow> terminal_event" where
  "terminal_of r = \<lparr>te_status = (case wr_status r of Run_Done st \<Rightarrow> st | Run_Running \<Rightarrow> St_Stopped),
     te_result = wr_result r, te_error = wr_error r,
     te_ended = (case wr_ended r of Some t \<Rightarrow> t | None \<Rightarrow> 0)\<rparr>"

definition fin_journal :: "string option \<Rightarrow> workflow_run \<Rightarrow> workflow_run" where
  "fin_journal w s =
     (case (rs_final s, rs_candidate s) of
        (Fin_Journal, Some r) \<Rightarrow>
          (case ensure_terminal (terminal_of r) (w = None) (rs_journal s) of
             (Inr _, j) \<Rightarrow> s\<lparr>rs_journal := j, rs_final := Fin_Store\<rparr>
           | (Inl _, j) \<Rightarrow> s\<lparr>rs_journal := j, rs_final := Fin_None\<rparr>)
      | _ \<Rightarrow> s)"

definition fin_store :: "string option \<Rightarrow> workflow_run \<Rightarrow> workflow_run" where
  "fin_store w s =
     (case (rs_final s, rs_candidate s) of
        (Fin_Store, Some r) \<Rightarrow>
          (case w of
             Some _ \<Rightarrow> s\<lparr>rs_final := Fin_None\<rparr>
           | None \<Rightarrow>
               s\<lparr>rs_store := r, rs_draft := r,
                 rs_unlocked := rs_unlocked s @
                   filter (\<lambda>h. h \<notin> set (rs_unlocked s))
                     (List.map_filter (\<lambda>(i, c). cl_handle c) (rs_calls s)),
                 rs_final := (if rs_recipient s then Fin_Deliver else Fin_Settled)\<rparr>)
      | _ \<Rightarrow> s)"

definition fin_deliver :: "bool \<Rightarrow> workflow_run \<Rightarrow> workflow_run" where
  "fin_deliver delivered_ok s =
     (case (rs_final s, rs_candidate s) of
        (Fin_Deliver, Some r) \<Rightarrow>
          if delivered_ok then
            s\<lparr>rs_delivered := rs_delivered s @ [te_status (terminal_of r)],
              rs_recipient := False, rs_final := Fin_Settled\<rparr>
          else s\<lparr>rs_final := Fin_None\<rparr>
      | _ \<Rightarrow> s)"

subsection \<open>Steps\<close>

datatype wf_step =
    W_Receive "child_message option"
  | W_Handle ms "string option"
  | W_Handler_Write "string option" "string option"
  | W_Slot nat ms
  | W_Running_Write nat "string option" ms
  | W_Materialized nat "(string \<times> bool) + string" ms
  | W_Submit_Journal nat "string option"
  | W_Submit_Store nat "string option" ms
  | W_Admission nat admission ms
  | W_Outcome nat turn_outcome ms
  | W_Result_Journal nat "string option"
  | W_Result_Store nat "string option"
  | W_Result_Send nat "string option"
  | W_Request_Stop
  | W_Stop
  | W_Exit string
  | W_Error string
  | W_Fin_Stop_Runner bool
  | W_Fin_Close bool
  | W_Fin_Drain
  | W_Fin_Next ms
  | W_Fin_Result_Journal "string option"
  | W_Fin_Result_Store "string option"
  | W_Fin_Journal "string option"
  | W_Fin_Store "string option"
  | W_Fin_Deliver bool

fun do_step :: "(string \<Rightarrow> js option) \<Rightarrow> wf_step \<Rightarrow> workflow_run \<Rightarrow> workflow_run" where
  "do_step jp (W_Receive m) s = receive_message m s"
| "do_step jp (W_Handle now send) s = handle_message now send s"
| "do_step jp (W_Handler_Write jw sw) s = handler_write jw sw s"
| "do_step jp (W_Slot i now) s = slot_step i now s"
| "do_step jp (W_Running_Write i w now) s = running_write i w now s"
| "do_step jp (W_Materialized i r now) s = materialized i r now s"
| "do_step jp (W_Submit_Journal i w) s = submit_journal i w s"
| "do_step jp (W_Submit_Store i w now) s = submit_store i w now s"
| "do_step jp (W_Admission i a now) s = admission_step i a now s"
| "do_step jp (W_Outcome i out now) s = outcome_step jp i out now s"
| "do_step jp (W_Result_Journal i w) s = result_journal i w s"
| "do_step jp (W_Result_Store i w) s = result_store i w s"
| "do_step jp (W_Result_Send i w) s = result_send i w s"
| "do_step jp W_Request_Stop s = reserve_stop s"
| "do_step jp W_Stop s = stop_run s"
| "do_step jp (W_Exit m) s = runner_exited m s"
| "do_step jp (W_Error m) s = runner_error m s"
| "do_step jp (W_Fin_Stop_Runner b) s = fin_stop_runner b s"
| "do_step jp (W_Fin_Close b) s = fin_close b s"
| "do_step jp W_Fin_Drain s = fin_drain s"
| "do_step jp (W_Fin_Next now) s = fin_next now s"
| "do_step jp (W_Fin_Result_Journal w) s = fin_result_journal w s"
| "do_step jp (W_Fin_Result_Store w) s = fin_result_store w s"
| "do_step jp (W_Fin_Journal w) s = fin_journal w s"
| "do_step jp (W_Fin_Store w) s = fin_store w s"
| "do_step jp (W_Fin_Deliver b) s = fin_deliver b s"

definition run_workflow ::
  "(string \<Rightarrow> js option) \<Rightarrow> wf_step list \<Rightarrow> workflow_run \<Rightarrow> workflow_run" where
  "run_workflow jp qs s = fold (do_step jp) qs s"

end
