(* ===== verification/Workflow_Journal_Props.thy ===== *)
theory Workflow_Journal_Props
  imports Workflow_Journal
begin

text \<open>
  The journal as the durable truth of a run: what its cache holds is what the file says,
  a settled result never changes, and recovery settles a run completely, repeatably, and
  from every point at which an earlier recovery may have broken off.
\<close>

subsection \<open>Reading the file back\<close>

lemma parse_lines_append:
  "parse_lines (ls @ ms) f = bind_res (parse_lines ls f) (parse_lines ms)"
  by (induction ls arbitrary: f) (auto simp: bind_res_def split: sum.splits)

lemma terminal_status_name [simp]: "terminal_status_of (Str (status_name s)) = Inr s"
  by (cases s) (simp_all add: terminal_status_of_def status_name_def)

lemma nullable_string_name [simp]: "nullable_string (str_or_null x) = Inr x"
  by (cases x) (simp_all add: nullable_string_def str_or_null_def)

lemma index_of_nat [simp]: "non_negative_integer (Num (of_nat n)) = Inr n"
  by (simp add: non_negative_integer_def)

lemma or_null_idem [simp]: "or_null (or_null v) = or_null v"
  by (simp add: or_null_def)

lemma normalize_result_fields [simp]:
  "re_index (normalize_agent_result e) = re_index e"
  "re_status (normalize_agent_result e) = re_status e"
  "re_error (normalize_agent_result e) = re_error e"
  "re_settled (normalize_agent_result e) = re_settled e"
  by (simp_all add: normalize_agent_result_def)

lemma normalize_result_idem:
  "normalize_agent_result \<lparr>re_index = re_index e, re_status = re_status e,
     re_result = or_null (re_result (normalize_agent_result e)), re_error = re_error e,
     re_settled = re_settled e\<rparr> = normalize_agent_result e"
  by (cases e) (simp add: normalize_agent_result_def or_null_def)

lemma normalize_terminal_fields [simp]:
  "te_status (normalize_terminal e) = te_status e"
  "te_error (normalize_terminal e) = te_error e"
  "te_ended (normalize_terminal e) = te_ended e"
  by (simp_all add: normalize_terminal_def)

lemma normalize_terminal_idem:
  "normalize_terminal \<lparr>te_status = te_status e,
     te_result = or_null (te_result (normalize_terminal e)), te_error = te_error e,
     te_ended = te_ended e\<rparr> = normalize_terminal e"
  by (cases e) (simp add: normalize_terminal_def or_null_def)

lemma parse_written_result:
  "parse_line (Line_Val (event_row (Ev_Result (normalize_agent_result e)))) f =
     (if map_of (jf_results f) (re_index e) \<noteq> None then Inl (Jn_Multiple_Results (re_index e))
      else Inr (f\<lparr>jf_results := jf_results f @ [(re_index e, normalize_agent_result e)]\<rparr>))"
  by (simp add: parse_result_row_def finite_number_def normalize_result_idem)

lemma parse_written_end:
  "parse_line (Line_Val (event_row (Ev_End (normalize_terminal e)))) f =
     (if jf_terminal f \<noteq> None then Inl Jn_Multiple_Ends
      else Inr (f\<lparr>jf_terminal := Some (normalize_terminal e)\<rparr>))"
  by (simp add: parse_end_row_def finite_number_def normalize_terminal_idem)

fun plain_event :: "journal_event \<Rightarrow> bool" where
  "plain_event (Ev_Result _) = False"
| "plain_event (Ev_End _) = False"
| "plain_event _ = True"

lemma parse_written_plain:
  "plain_event e \<Longrightarrow> parse_line (Line_Val (event_row e)) f = Inr f"
  by (cases e) simp_all

text \<open>The journal's file parses to \<open>f\<close>, and a cached copy of the facts is \<open>f\<close>.\<close>

definition reads :: "journal \<Rightarrow> journal_facts \<Rightarrow> bool" where
  "reads j f \<longleftrightarrow>
     (\<exists>ls. jn_file j = Some ls \<and> parse_journal_facts ls = Inr f) \<and>
     (jn_facts j = None \<or> jn_facts j = Some f)"

lemma load_reads:
  assumes "reads j f"
  shows "load_facts j = (Inr f, j\<lparr>jn_facts := Some f\<rparr>)" "reads (j\<lparr>jn_facts := Some f\<rparr>) f"
  using assms by (auto simp: reads_def load_facts_def)

lemma reads_forget: "reads j f \<Longrightarrow> reads (j\<lparr>jn_facts := None\<rparr>) f"
  by (simp add: reads_def)

lemma parse_facts_append:
  "parse_journal_facts (ls @ [l]) = bind_res (parse_journal_facts ls) (parse_line l)"
  by (simp add: parse_journal_facts_def parse_lines_append bind_res_def split: sum.splits)

lemma reads_append_plain:
  "reads j f \<Longrightarrow> plain_event e \<Longrightarrow> reads (append_row e j) f"
  by (auto simp: reads_def append_row_def parse_facts_append parse_written_plain
      simp del: event_row.simps)

lemma reads_append_result:
  "reads j f \<Longrightarrow> map_of (jf_results f) (re_index e) = None \<Longrightarrow>
   reads ((append_row (Ev_Result (normalize_agent_result e)) j)\<lparr>jn_facts := Some
      (f\<lparr>jf_results := jf_results f @ [(re_index e, normalize_agent_result e)]\<rparr>)\<rparr>)
    (f\<lparr>jf_results := jf_results f @ [(re_index e, normalize_agent_result e)]\<rparr>)"
  by (auto simp: reads_def append_row_def parse_facts_append parse_written_result
      simp del: event_row.simps)

lemma reads_append_end:
  "reads j f \<Longrightarrow> jf_terminal f = None \<Longrightarrow>
   reads ((append_row (Ev_End (normalize_terminal e)) j)\<lparr>jn_facts := Some
      (f\<lparr>jf_terminal := Some (normalize_terminal e)\<rparr>)\<rparr>)
    (f\<lparr>jf_terminal := Some (normalize_terminal e)\<rparr>)"
  by (auto simp: reads_def append_row_def parse_facts_append parse_written_end
      simp del: event_row.simps)

definition add_result :: "result_event \<Rightarrow> journal_facts \<Rightarrow> journal_facts" where
  "add_result e f = f\<lparr>jf_results := jf_results f @ [(re_index e, normalize_agent_result e)]\<rparr>"

text \<open>The two conditional writes, on every branch.\<close>

lemma ensure_result_new:
  assumes "reads j f" "map_of (jf_results f) (re_index e) = None"
  shows "\<exists>j1. ensure_agent_result e w j =
           ((if w then Inr (normalize_agent_result e) else Inl Jn_Io), j1) \<and>
           reads j1 (if w then add_result e f else f)"
  using load_reads [OF assms(1)] assms(2)
    reads_append_result [OF load_reads(2) [OF assms(1)] assms(2)] reads_forget [OF assms(1)]
  by (auto simp: ensure_agent_result_def Let_def add_result_def)

lemma ensure_result_old:
  assumes "reads j f" "map_of (jf_results f) (re_index e) = Some x"
  shows "\<exists>j1. ensure_agent_result e w j =
           ((if same_agent_result x (normalize_agent_result e) then Inr x
             else Inl (Jn_Conflict_Result (re_index e))), j1) \<and> reads j1 f"
  using load_reads [OF assms(1)] assms(2)
  by (auto simp: ensure_agent_result_def Let_def)

lemma ensure_end_new:
  assumes "reads j f" "jf_terminal f = None"
  shows "\<exists>j1. ensure_terminal e w j =
           ((if w then Inr (normalize_terminal e) else Inl Jn_Io), j1) \<and>
           reads j1 (if w then f\<lparr>jf_terminal := Some (normalize_terminal e)\<rparr> else f)"
  using load_reads [OF assms(1)] assms(2)
    reads_append_end [OF load_reads(2) [OF assms(1)] assms(2)] reads_forget [OF assms(1)]
  by (auto simp: ensure_terminal_def Let_def)

lemma ensure_end_old:
  assumes "reads j f" "jf_terminal f = Some x"
  shows "\<exists>j1. ensure_terminal e w j =
           ((if same_terminal x (normalize_terminal e) then Inr x else Inl Jn_Conflict_End), j1) \<and>
           reads j1 f"
  using load_reads [OF assms(1)] assms(2)
  by (auto simp: ensure_terminal_def Let_def)

subsection \<open>Histories of journal operations\<close>

datatype journal_op =
    J_Append journal_event bool
  | J_Result result_event bool
  | J_End terminal_event bool
  | J_Read

definition journal_step :: "journal_op \<Rightarrow> journal \<Rightarrow> journal" where
  "journal_step q j = (case q of
       J_Append e w \<Rightarrow> snd (journal_append e w j)
     | J_Result e w \<Rightarrow> snd (ensure_agent_result e w j)
     | J_End e w \<Rightarrow> snd (ensure_terminal e w j)
     | J_Read \<Rightarrow> snd (result_events j))"

definition run_journal :: "journal_op list \<Rightarrow> journal \<Rightarrow> journal" where
  "run_journal qs j = fold journal_step qs j"

text \<open>The typed \<^verbatim>\<open>append\<close> takes neither a result nor an end.\<close>

definition typed_op :: "journal_op \<Rightarrow> bool" where
  "typed_op q = (case q of J_Append e _ \<Rightarrow> plain_event e | _ \<Rightarrow> True)"

text \<open>What a later state's facts keep of an earlier one's.\<close>

definition extends :: "journal_facts \<Rightarrow> journal_facts \<Rightarrow> bool" where
  "extends f g \<longleftrightarrow>
     (\<forall>i e. map_of (jf_results f) i = Some e \<longrightarrow> map_of (jf_results g) i = Some e) \<and>
     (\<forall>t. jf_terminal f = Some t \<longrightarrow> jf_terminal g = Some t)"

lemma extends_refl [simp]: "extends f f"
  by (simp add: extends_def)

lemma extends_trans: "extends f g \<Longrightarrow> extends g h \<Longrightarrow> extends f h"
  by (auto simp: extends_def)

lemma extends_add_result:
  "map_of (jf_results f) (re_index e) = None \<Longrightarrow> extends f (add_result e f)"
  by (auto simp: extends_def add_result_def map_add_Some_iff)

lemma journal_step_reads:
  assumes "reads j f" "typed_op q"
  shows "\<exists>g. reads (journal_step q j) g \<and> extends f g"
proof (cases q)
  case (J_Append e w)
  with assms reads_append_plain [of j f e] show ?thesis
    by (cases w) (auto simp: journal_step_def journal_append_def typed_op_def intro: exI [of _ f])
next
  case (J_Result e w)
  show ?thesis
  proof (cases "map_of (jf_results f) (re_index e)")
    case None
    from ensure_result_new [OF assms(1) None, of w] extends_add_result [OF None] J_Result
    show ?thesis by (auto simp: journal_step_def split: if_splits)
  next
    case (Some x)
    from ensure_result_old [OF assms(1) Some, of w] J_Result show ?thesis
      by (auto simp: journal_step_def intro!: exI [of _ f])
  qed
next
  case (J_End e w)
  show ?thesis
  proof (cases "jf_terminal f")
    case None
    then have "extends f (f\<lparr>jf_terminal := Some (normalize_terminal e)\<rparr>)"
      by (simp add: extends_def)
    with ensure_end_new [OF assms(1) None, of e w] J_End show ?thesis
      by (auto simp: journal_step_def split: if_splits)
  next
    case (Some x)
    from ensure_end_old [OF assms(1) Some, of e w] J_End show ?thesis
      by (auto simp: journal_step_def intro!: exI [of _ f])
  qed
next
  case J_Read
  with load_reads [OF assms(1)] show ?thesis
    by (auto simp: journal_step_def result_events_def intro!: exI [of _ f])
qed

lemma run_journal_reads:
  "reads j f \<Longrightarrow> \<forall>q \<in> set qs. typed_op q \<Longrightarrow> \<exists>g. reads (run_journal qs j) g \<and> extends f g"
  unfolding run_journal_def
proof (induction qs arbitrary: j f)
  case (Cons q qs)
  from journal_step_reads [of j f q] Cons.prems obtain g where
    g: "reads (journal_step q j) g" "extends f g" by auto
  from Cons.IH [OF g(1)] Cons.prems obtain h where
    "reads (fold journal_step qs (journal_step q j)) h" "extends g h" by auto
  with g(2) show ?case by (auto dest: extends_trans)
qed auto

lemma create_reads:
  "journal_create r True \<lparr>jn_file = None, jn_facts = None\<rparr> = (Inr (), j) \<Longrightarrow> reads j no_facts"
  by (auto simp: journal_create_def reads_def parse_journal_facts_def)

text \<open>
  A run's journal is its durable memory: after any operations on a created journal,
  failed writes included, the file still parses, to exactly the facts the journal answers
  from, and every agent result and terminal event recorded at some moment is recorded
  unchanged ever after.
\<close>

theorem journal_permanent:
  assumes "journal_create r True \<lparr>jn_file = None, jn_facts = None\<rparr> = (Inr (), j)"
    and "\<forall>q \<in> set (qs @ rs). typed_op q"
  shows "\<exists>ls f lt g.
    jn_file (run_journal qs j) = Some ls \<and> parse_journal_facts ls = Inr f \<and>
    fst (load_facts (run_journal qs j)) = Inr f \<and>
    jn_file (run_journal rs (run_journal qs j)) = Some lt \<and> parse_journal_facts lt = Inr g \<and>
    extends f g"
proof -
  from run_journal_reads [OF create_reads [OF assms(1)], of qs] assms(2) obtain f where
    f: "reads (run_journal qs j) f" by auto
  from run_journal_reads [OF f, of rs] assms(2) obtain g where
    "reads (run_journal rs (run_journal qs j)) g" "extends f g" by auto
  with f load_reads(1) [OF f] show ?thesis
    by (auto simp: reads_def)
qed

definition sample_run :: workflow_record where
  "sample_run = \<lparr>wr_run_id = ''r1'', wr_dispatcher = ''d'', wr_team = None,
     wr_caller = Caller_Dispatcher, wr_script_hash = ''h'', wr_status = Run_Running, wr_max = 4,
     wr_phase = None, wr_last_log = None,
     wr_agents = [\<lparr>wa_index = 0, wa_name = None, wa_label = None, wa_phase = None,
       wa_status = Ag_Running, wa_result = Null, wa_error = None, wa_created = 1,
       wa_settled = None\<rparr>],
     wr_result = Null, wr_error = None, wr_created = 0, wr_updated = 1, wr_ended = None\<rparr>"

definition sample_result :: result_event where
  "sample_result = \<lparr>re_index = 0, re_status = St_Completed, re_result = Num 7, re_error = None,
     re_settled = 2\<rparr>"

lemma journal_permanent_witness:
  "\<exists>lt g. jn_file (run_journal [J_End \<lparr>te_status = St_Failed, te_result = Null,
       te_error = Some ''x'', te_ended = 3\<rparr> True]
     (run_journal [J_Result sample_result True]
       (snd (journal_create sample_run True \<lparr>jn_file = None, jn_facts = None\<rparr>)))) = Some lt \<and>
     parse_journal_facts lt = Inr g"
  using journal_permanent [of sample_run
      "snd (journal_create sample_run True \<lparr>jn_file = None, jn_facts = None\<rparr>)"
      "[J_Result sample_result True]"
      "[J_End \<lparr>te_status = St_Failed, te_result = Null, te_error = Some ''x'', te_ended = 3\<rparr> True]"]
  by (auto simp: journal_create_def typed_op_def)

subsection \<open>Recovery\<close>

definition facts_wf :: "journal_facts \<Rightarrow> bool" where
  "facts_wf f \<longleftrightarrow> distinct (map fst (jf_results f)) \<and> (\<forall>(i, e) \<in> set (jf_results f). re_index e = i)"

lemma parse_line_wf: "parse_line l f = Inr g \<Longrightarrow> facts_wf f \<Longrightarrow> facts_wf g"
  by (cases "(l, f)" rule: parse_line.cases)
    (auto simp: facts_wf_def bind_res_Inr_iff map_of_eq_None_iff split: if_splits)

lemma parse_lines_wf: "parse_lines ls f = Inr g \<Longrightarrow> facts_wf f \<Longrightarrow> facts_wf g"
  by (induction ls arbitrary: f) (auto simp: bind_res_Inr_iff dest: parse_line_wf)

lemma reads_wf: "reads j f \<Longrightarrow> facts_wf f"
  by (auto simp: reads_def parse_journal_facts_def facts_wf_def no_facts_def
      dest!: parse_lines_wf)

definition settled_by :: "journal_facts \<Rightarrow> workflow_agent \<Rightarrow> workflow_agent" where
  "settled_by f a = (case map_of (jf_results f) (wa_index a) of
       None \<Rightarrow> a | Some e \<Rightarrow> settle_agent e a)"

definition consistent :: "workflow_record \<Rightarrow> journal_facts \<Rightarrow> bool" where
  "consistent r f \<longleftrightarrow>
     distinct (map wa_index (wr_agents r)) \<and>
     (\<forall>i e. map_of (jf_results f) i = Some e \<longrightarrow>
        (\<exists>a \<in> set (wr_agents r). wa_index a = i \<and> (agent_active a \<or> agent_matches a e))) \<and>
     (jf_terminal f \<noteq> None \<longrightarrow>
        (\<forall>a \<in> set (wr_agents r). agent_active a \<longrightarrow> map_of (jf_results f) (wa_index a) \<noteq> None))"

lemma wa_index_settle [simp]: "wa_index (settle_agent e a) = wa_index a"
  by (simp add: settle_agent_def)

lemma settle_not_active [simp]: "\<not> agent_active (settle_agent e a)"
  by (simp add: settle_agent_def agent_active_def)

lemma wa_index_settled [simp]: "wa_index (settled_by f a) = wa_index a"
  by (simp add: settled_by_def split: option.splits)

lemma update_first_unique:
  assumes "distinct (map k xs)"
  shows "update_first (\<lambda>a. k a = i) f xs = map (\<lambda>a. if k a = i then f a else a) xs"
  using assms
proof (induction xs)
  case (Cons x xs)
  then have "k x = i \<Longrightarrow> map (\<lambda>a. if k a = i then f a else a) xs = xs"
    by (intro map_idI) (auto simp: image_iff)
  with Cons show ?case by auto
qed simp

definition settle_by :: "result_event list \<Rightarrow> workflow_agent \<Rightarrow> workflow_agent" where
  "settle_by es a = (case find (\<lambda>e. re_index e = wa_index a) es of
       None \<Rightarrow> a | Some e \<Rightarrow> settle_agent e a)"

lemma apply_results_ok:
  assumes "distinct (map re_index es)" "distinct (map wa_index ags)"
    and "\<forall>e \<in> set es. \<exists>a \<in> set ags. wa_index a = re_index e \<and> (agent_active a \<or> agent_matches a e)"
  shows "apply_results es ags = Inr (map (settle_by es) ags)"
  using assms
proof (induction es arbitrary: ags)
  case Nil
  have "settle_by [] = (\<lambda>a. a)" by (rule ext) (simp add: settle_by_def)
  then show ?case by simp
next
  case (Cons e es)
  from Cons.prems(3) obtain a where a: "a \<in> set ags" "wa_index a = re_index e"
    "agent_active a \<or> agent_matches a e" by auto
  have fa: "find (\<lambda>x. wa_index x = re_index e) ags = Some a"
    using find_distinct_key [OF Cons.prems(2) a(1)] a(2) by simp
  let ?ags = "map (\<lambda>x. if wa_index x = re_index e then settle_agent e x else x) ags"
  have idx: "map wa_index ?ags = map wa_index ags" by simp
  have "\<forall>e' \<in> set es. \<exists>x \<in> set ?ags. wa_index x = re_index e' \<and>
      (agent_active x \<or> agent_matches x e')"
  proof
    fix e' assume e': "e' \<in> set es"
    with Cons.prems(1) have ne: "re_index e' \<noteq> re_index e" by (auto simp: image_iff)
    from e' Cons.prems(3) obtain x where x: "x \<in> set ags" "wa_index x = re_index e'"
      "agent_active x \<or> agent_matches x e'" by auto
    with ne have "x \<in> set ?ags" by (force simp: image_iff)
    with x show "\<exists>x \<in> set ?ags. wa_index x = re_index e' \<and>
      (agent_active x \<or> agent_matches x e')" by blast
  qed
  moreover have "distinct (map wa_index ?ags)" using Cons.prems(2) unfolding idx .
  ultimately have ih: "apply_results es ?ags = Inr (map (settle_by es) ?ags)"
    using Cons.prems(1) by (intro Cons.IH) simp_all
  have none: "find (\<lambda>x. re_index x = re_index e) es = None"
    using Cons.prems(1) by (auto simp: find_None_iff image_iff)
  have "map (settle_by es) ?ags = map (settle_by (e # es)) ags"
    using none by (auto simp: settle_by_def)
  with ih fa a(3) show ?case
    by (simp add: update_first_unique [OF Cons.prems(2)])
qed

lemma find_map_of_keys:
  "\<forall>e \<in> set xs. re_index (snd e) = fst e \<Longrightarrow>
   find (\<lambda>e. re_index e = i) (map snd xs) = map_of xs i"
  by (induction xs) auto

lemma find_map_of:
  "facts_wf f \<Longrightarrow> find (\<lambda>e. re_index e = i) (map snd (jf_results f)) = map_of (jf_results f) i"
  by (rule find_map_of_keys) (auto simp: facts_wf_def)

lemma apply_results_facts:
  assumes "facts_wf f" "consistent r f"
  shows "apply_results (map snd (jf_results f)) (wr_agents r) =
           Inr (map (settled_by f) (wr_agents r))"
proof -
  have keys: "map re_index (map snd (jf_results f)) = map fst (jf_results f)"
    using assms(1) by (auto simp: facts_wf_def)
  have "\<exists>a \<in> set (wr_agents r). wa_index a = re_index e \<and> (agent_active a \<or> agent_matches a e)"
    if "e \<in> set (map snd (jf_results f))" for e
  proof -
    from that obtain i where ie: "(i, e) \<in> set (jf_results f)" by auto
    with assms(1) have "map_of (jf_results f) i = Some e" "re_index e = i"
      by (auto simp: facts_wf_def)
    with assms(2) show ?thesis unfolding consistent_def by blast
  qed
  moreover have "distinct (map wa_index (wr_agents r))"
    using assms(2) by (simp add: consistent_def)
  moreover have "distinct (map re_index (map snd (jf_results f)))"
    using assms(1) unfolding keys by (simp add: facts_wf_def)
  ultimately have "apply_results (map snd (jf_results f)) (wr_agents r) =
      Inr (map (settle_by (map snd (jf_results f))) (wr_agents r))"
    by (intro apply_results_ok) auto
  moreover have "settle_by (map snd (jf_results f)) = settled_by f"
    by (simp add: fun_eq_iff settle_by_def settled_by_def find_map_of [OF assms(1)])
  ultimately show ?thesis by simp
qed

definition stop_event :: "ms \<Rightarrow> workflow_agent \<Rightarrow> result_event" where
  "stop_event now a = \<lparr>re_index = wa_index a, re_status = St_Stopped, re_result = Null,
     re_error = Some stop_reason, re_settled = now\<rparr>"

lemma stop_event_simps [simp]:
  "re_index (stop_event now a) = wa_index a"
  "normalize_agent_result (stop_event now a) = stop_event now a"
  by (simp_all add: stop_event_def normalize_agent_result_def)

text \<open>Facts \<open>g\<close> are \<open>f\<close> with stop events of some active agents added.\<close>

definition stops_added :: "ms \<Rightarrow> workflow_agent list \<Rightarrow> journal_facts \<Rightarrow> journal_facts \<Rightarrow> bool" where
  "stops_added now ags f g \<longleftrightarrow>
     jf_terminal g = jf_terminal f \<and> extends f g \<and>
     (\<forall>i e. map_of (jf_results g) i = Some e \<longrightarrow>
        map_of (jf_results f) i = Some e \<or>
        (\<exists>a \<in> set ags. agent_active a \<and> wa_index a = i \<and> e = stop_event now a))"

lemma stops_added_refl [simp]: "stops_added now ags f f"
  by (simp add: stops_added_def)

lemma stops_added_trans:
  "stops_added now as f g \<Longrightarrow> stops_added now bs g h \<Longrightarrow> set as \<subseteq> set cs \<Longrightarrow> set bs \<subseteq> set cs \<Longrightarrow>
   stops_added now cs f h"
  unfolding stops_added_def
  by (intro conjI allI impI) (simp, blast intro: extends_trans, blast)

lemma stops_added_one:
  "agent_active a \<Longrightarrow> map_of (jf_results f) (wa_index a) = None \<Longrightarrow>
   stops_added now [a] f (add_result (stop_event now a) f)"
  using extends_add_result [of f "stop_event now a"]
  by (auto simp: stops_added_def add_result_def map_add_Some_iff split: if_splits)

lemma stop_agents_spec:
  assumes "reads j f" "distinct (map wa_index ags)"
    and "\<forall>a \<in> set ags. agent_active a \<longrightarrow> map_of (jf_results f) (wa_index a) = None"
    and "stop_agents now ws ags j = (r, j1)"
  shows "\<exists>g. reads j1 g \<and> stops_added now ags f g \<and>
     (case r of
        Inl e \<Rightarrow> e = Jn_Io \<and> ws \<noteq> []
      | Inr bs \<Rightarrow>
          bs = map (\<lambda>a. if agent_active a then settle_agent (stop_event now a) a else a) ags \<and>
          (\<forall>a \<in> set ags. agent_active a \<longrightarrow>
             map_of (jf_results g) (wa_index a) = Some (stop_event now a)))"
  using assms
proof (induction ags arbitrary: j f ws r j1)
  case Nil
  then show ?case by auto
next
  case (Cons a ags)
  show ?case
  proof (cases "agent_active a")
    case False
    with Cons.prems(4) obtain r2 where r2: "stop_agents now ws ags j = (r2, j1)"
      and r: "r = bind_res r2 (\<lambda>bs. Inr (a # bs))"
      by (auto split: prod.splits)
    from Cons.IH [OF Cons.prems(1) _ _ r2] Cons.prems(2,3) obtain g where
      "reads j1 g" and s: "stops_added now ags f g" and
      c: "case r2 of Inl e \<Rightarrow> e = Jn_Io \<and> ws \<noteq> []
        | Inr bs \<Rightarrow> bs = map (\<lambda>a. if agent_active a then settle_agent (stop_event now a) a else a) ags \<and>
          (\<forall>a \<in> set ags. agent_active a \<longrightarrow>
             map_of (jf_results g) (wa_index a) = Some (stop_event now a))" by auto
    moreover have "stops_added now (a # ags) f g"
      using stops_added_trans [OF stops_added_refl [of now "[]"] s, of "a # ags"] by auto
    ultimately show ?thesis
      using False r by (intro exI [of _ g]) (auto split: sum.splits)
  next
    case True
    let ?w = "ws = [] \<or> hd ws"
    from True Cons.prems(3) have none: "map_of (jf_results f) (wa_index a) = None" by simp
    from ensure_result_new [OF Cons.prems(1), of "stop_event now a" ?w] none obtain j2 where
      e: "ensure_agent_result (stop_event now a) ?w j =
            ((if ?w then Inr (stop_event now a) else Inl Jn_Io), j2)" and
      rd: "reads j2 (if ?w then add_result (stop_event now a) f else f)" by auto
    show ?thesis
    proof (cases ?w)
      case False
      with e True Cons.prems(4) have "r = Inl Jn_Io" "j1 = j2" by (auto simp: stop_event_def)
      with rd False show ?thesis by (intro exI [of _ f]) auto
    next
      case w: True
      let ?f = "add_result (stop_event now a) f"
      obtain r2 where r2: "stop_agents now (tl ws) ags j2 = (r2, j1)"
        and r: "r = bind_res r2 (\<lambda>bs. Inr (settle_agent (stop_event now a) a # bs))"
        using e True w Cons.prems(4) by (auto simp: stop_event_def split: prod.splits)
      have rd2: "reads j2 ?f" using rd w by simp
      have "\<forall>b \<in> set ags. agent_active b \<longrightarrow> map_of (jf_results ?f) (wa_index b) = None"
        using Cons.prems(2,3) by (auto simp: add_result_def map_add_def image_iff)
      from Cons.IH [OF rd2 _ this r2] Cons.prems(2) obtain g where
        g: "reads j1 g" and s: "stops_added now ags ?f g" and
        c: "case r2 of Inl e \<Rightarrow> e = Jn_Io \<and> tl ws \<noteq> []
          | Inr bs \<Rightarrow> bs = map (\<lambda>a. if agent_active a then settle_agent (stop_event now a) a else a) ags \<and>
            (\<forall>a \<in> set ags. agent_active a \<longrightarrow>
               map_of (jf_results g) (wa_index a) = Some (stop_event now a))" by auto
      have "stops_added now (a # ags) f g"
        using stops_added_trans [OF stops_added_one [OF True none] s, of "a # ags"] by auto
      moreover have "map_of (jf_results ?f) (wa_index a) = Some (stop_event now a)"
        using none by (simp add: add_result_def map_add_def)
      then have "map_of (jf_results g) (wa_index a) = Some (stop_event now a)"
        using s by (simp add: stops_added_def extends_def)
      ultimately show ?thesis
        using g c True r by (intro exI [of _ g]) (auto split: sum.splits)
    qed
  qed
qed

text \<open>What recovery leaves: the record settled by facts that hold a terminal event.\<close>

definition recovered :: "workflow_record \<Rightarrow> journal_facts \<Rightarrow> terminal_event \<Rightarrow> workflow_record" where
  "recovered r g t = r\<lparr>wr_agents := map (settled_by g) (wr_agents r),
     wr_status := Run_Done (te_status t), wr_result := te_result t, wr_error := te_error t,
     wr_ended := Some (te_ended t), wr_updated := te_ended t\<rparr>"

lemma find_active_None: "find agent_active ags = None \<longleftrightarrow> (\<forall>a \<in> set ags. \<not> agent_active a)"
  by (auto simp: find_None_iff)

lemma recover_terminal:
  assumes "reads j f" "consistent r f" "jf_terminal f = Some t"
  shows "\<exists>j1. recover now ws w r j = (Inr (False, recovered r f t), j1) \<and> reads j1 f"
proof -
  note l = load_reads [OF assms(1)]
  have "\<forall>a \<in> set (map (settled_by f) (wr_agents r)). \<not> agent_active a"
    using assms(2,3) by (auto simp: consistent_def settled_by_def split: option.splits)
  then have "find agent_active (map (settled_by f) (wr_agents r)) = None"
    unfolding find_active_None .
  with l load_reads [OF l(2)] apply_results_facts [OF reads_wf [OF assms(1)] assms(2)] assms(3)
  show ?thesis
    by (simp add: recover_def result_events_def journal_terminal_def recovered_def)
qed

lemma consistent_stops:
  assumes "consistent r f" "stops_added now (map (settled_by f) (wr_agents r)) f g"
  shows "consistent r g \<or> jf_terminal g \<noteq> None"
    and "jf_terminal g = None \<Longrightarrow> consistent r g"
proof -
  have "\<exists>a \<in> set (wr_agents r). wa_index a = i \<and> (agent_active a \<or> agent_matches a e)"
    if "map_of (jf_results g) i = Some e" for i e
  proof -
    from assms(2) that consider "map_of (jf_results f) i = Some e"
      | b where "b \<in> set (map (settled_by f) (wr_agents r))" "agent_active b" "wa_index b = i"
      unfolding stops_added_def by blast
    then show ?thesis
    proof cases
      case 1
      with assms(1) show ?thesis by (simp add: consistent_def)
    next
      case 2
      then show ?thesis by (auto simp: settled_by_def split: option.splits)
    qed
  qed
  with assms(1) show "jf_terminal g = None \<Longrightarrow> consistent r g" by (simp add: consistent_def)
  then show "consistent r g \<or> jf_terminal g \<noteq> None" by blast
qed

definition stop_end :: "ms \<Rightarrow> terminal_event" where
  "stop_end now = \<lparr>te_status = St_Stopped, te_result = Null, te_error = Some stop_reason,
     te_ended = now\<rparr>"

lemma normalize_stop_end [simp]: "normalize_terminal (stop_end now) = stop_end now"
  by (simp add: stop_end_def normalize_terminal_def)

lemma settled_by_stops:
  assumes "distinct (map wa_index ags)"
    and "stops_added now (map (settled_by f) ags) f g"
    and "\<forall>a \<in> set (map (settled_by f) ags). agent_active a \<longrightarrow>
           map_of (jf_results g) (wa_index a) = Some (stop_event now a)"
    and "a \<in> set ags"
  shows "(if agent_active (settled_by f a) then settle_agent (stop_event now (settled_by f a)) (settled_by f a)
          else settled_by f a) = settled_by g a"
proof (cases "map_of (jf_results f) (wa_index a)")
  case None
  then have sf: "settled_by f a = a" by (simp add: settled_by_def)
  show ?thesis
  proof (cases "agent_active a")
    case True
    have "a \<in> set (map (settled_by f) ags)" using assms(4) sf by force
    with True assms(3) have "map_of (jf_results g) (wa_index a) = Some (stop_event now a)" by blast
    with True show ?thesis unfolding sf by (simp add: settled_by_def)
  next
    case False
    have "map_of (jf_results g) (wa_index a) = None"
    proof (rule ccontr)
      assume "map_of (jf_results g) (wa_index a) \<noteq> None"
      with None assms(2) obtain b where b: "b \<in> set ags" "agent_active (settled_by f b)"
        "wa_index b = wa_index a"
        unfolding stops_added_def by fastforce
      with assms(1,4) have "b = a" by (simp add: distinct_map inj_on_def)
      with b False sf show False by simp
    qed
    with False show ?thesis unfolding sf by (simp add: settled_by_def)
  qed
next
  case (Some e)
  with assms(2) have "map_of (jf_results g) (wa_index a) = Some e"
    by (simp add: stops_added_def extends_def)
  with Some show ?thesis by (simp add: settled_by_def)
qed

lemma recover_open:
  assumes "reads j f" "consistent r f" "jf_terminal f = None"
    and "recover now ws w r j = (res, j1)"
  shows "\<exists>g. reads j1 g \<and> consistent r g \<and> extends f g \<and>
     (case res of
        Inl e \<Rightarrow> e = Jn_Io \<and> \<not> (ws = [] \<and> w)
      | Inr (b, r1) \<Rightarrow> b \<and> jf_terminal g = Some (stop_end now) \<and>
          r1 = recovered r g (stop_end now))"
proof -
  let ?ags = "map (settled_by f) (wr_agents r)"
  note l = load_reads [OF assms(1)]
  have d: "distinct (map wa_index (wr_agents r))" using assms(2) by (simp add: consistent_def)
  have d': "distinct (map wa_index ?ags)" using d by (simp add: comp_def)
  have act: "\<forall>a \<in> set ?ags. agent_active a \<longrightarrow> map_of (jf_results f) (wa_index a) = None"
    by (auto simp: settled_by_def split: option.splits)
  let ?j = "j\<lparr>jn_facts := Some f\<rparr>"
  obtain s j2 where st: "stop_agents now ws ?ags ?j = (s, j2)" by fastforce
  from stop_agents_spec [OF l(2) d' act st] obtain g where
    g: "reads j2 g" and sa: "stops_added now ?ags f g" and
    c: "case s of Inl e \<Rightarrow> e = Jn_Io \<and> ws \<noteq> []
      | Inr bs \<Rightarrow> bs = map (\<lambda>a. if agent_active a then settle_agent (stop_event now a) a else a) ?ags \<and>
        (\<forall>a \<in> set ?ags. agent_active a \<longrightarrow> map_of (jf_results g) (wa_index a) = Some (stop_event now a))"
    by blast
  from sa assms(3) have tg: "jf_terminal g = None" and ex: "extends f g"
    by (simp_all add: stops_added_def)
  note cg = consistent_stops(2) [OF assms(2) sa tg]
  have rec: "recover now ws w r j =
     (case stop_agents now ws ?ags ?j of
        (Inl e, j3) \<Rightarrow> (Inl e, j3)
      | (Inr ags', j3) \<Rightarrow>
         (case ensure_terminal (stop_end now) w j3 of
            (Inl e, j4) \<Rightarrow> (Inl e, j4)
          | (Inr _, j4) \<Rightarrow>
             (Inr (True, r\<lparr>wr_agents := ags', wr_status := Run_Done St_Stopped,
                    wr_result := Null, wr_error := Some stop_reason,
                    wr_ended := Some now, wr_updated := now\<rparr>), j4)))"
    using l load_reads [OF l(2)] apply_results_facts [OF reads_wf [OF assms(1)] assms(2)] assms(3)
    unfolding recover_def result_events_def journal_terminal_def stop_end_def [symmetric]
    by simp
  show ?thesis
  proof (cases s)
    case (Inl e)
    with rec st assms(4) c have "res = Inl Jn_Io" "j1 = j2" "ws \<noteq> []" by auto
    with g cg ex show ?thesis by auto
  next
    case (Inr bs)
    with c have bs: "bs = map (\<lambda>a. if agent_active a then settle_agent (stop_event now a) a else a) ?ags"
      and stops: "\<forall>a \<in> set ?ags. agent_active a \<longrightarrow>
        map_of (jf_results g) (wa_index a) = Some (stop_event now a)" by auto
    have bs': "bs = map (settled_by g) (wr_agents r)"
      using settled_by_stops [OF d sa stops] bs by simp
    from ensure_end_new [OF g tg, of "stop_end now" w, unfolded normalize_stop_end] obtain j3 where
      e: "ensure_terminal (stop_end now) w j2 =
        ((if w then Inr (stop_end now) else Inl Jn_Io), j3)"
      and rd: "reads j3 (if w then g\<lparr>jf_terminal := Some (stop_end now)\<rparr> else g)" by blast
    show ?thesis
    proof (cases w)
      case False
      with rec st Inr e assms(4) have "res = Inl Jn_Io" "j1 = j3" by auto
      with False rd cg ex show ?thesis by auto
    next
      case True
      let ?g = "g\<lparr>jf_terminal := Some (stop_end now)\<rparr>"
      have "\<forall>a \<in> set (wr_agents r). agent_active a \<longrightarrow> map_of (jf_results g) (wa_index a) \<noteq> None"
      proof (intro ballI impI)
        fix a assume a: "a \<in> set (wr_agents r)" "agent_active a"
        show "map_of (jf_results g) (wa_index a) \<noteq> None"
        proof (cases "map_of (jf_results f) (wa_index a)")
          case None
          then have "a \<in> set ?ags" using a(1) by (force simp: settled_by_def)
          from bspec [OF stops this] a(2) show ?thesis by simp
        next
          case (Some e)
          with ex show ?thesis by (auto simp: extends_def)
        qed
      qed
      with cg have "consistent r ?g" by (simp add: consistent_def)
      moreover have "settled_by ?g = settled_by g" by (rule ext) (simp add: settled_by_def)
      then have "res = Inr (True, recovered r ?g (stop_end now))"
        using rec st Inr e True assms(4) bs' by (simp add: recovered_def stop_end_def)
      moreover have "j1 = j3" using rec st Inr e True assms(4) by simp
      moreover have "extends f ?g" using ex tg assms(3) by (simp add: extends_def)
      ultimately show ?thesis using rd True by (intro exI [of _ ?g]) auto
    qed
  qed
qed

lemma recover_completes:
  assumes "reads j f" "consistent r f" "recover now [] True r j = (res, j1)"
  shows "\<exists>b h t. res = Inr (b, recovered r h t) \<and> reads j1 h \<and> consistent r h \<and> extends f h \<and>
      jf_terminal h = Some t \<and> (jf_terminal f \<noteq> None \<longrightarrow> \<not> b \<and> h = f)"
proof (cases "jf_terminal f")
  case None
  from recover_open [OF assms(1,2) None assms(3)] None show ?thesis
    by (cases res) auto
next
  case (Some t)
  from recover_terminal [OF assms(1,2) Some, of now "[]" True] assms(2,3) Some show ?thesis
    by auto
qed

lemma recovered_settled:
  assumes "consistent r h" "jf_terminal h = Some t" "a \<in> set (wr_agents r)"
  shows "\<not> agent_active (settled_by h a)"
  using assms by (auto simp: consistent_def settled_by_def split: option.splits)

lemma recovered_matches:
  "map_of (jf_results f) (wa_index a) = Some e \<Longrightarrow> extends f h \<Longrightarrow> agent_matches (settled_by h a) e"
  by (auto simp: extends_def settled_by_def settle_agent_def agent_matches_def)

text \<open>
  C3. Recovery is complete and repeatable.  Take a run whose stored record agrees with its
  journal.  Whatever one recovery attempt does (some of its writes may fail), a later
  attempt whose writes succeed settles the run: its status is the journal's terminal
  event, no agent is left active, and every result the journal held before is one of the
  agents' results.  If the first attempt succeeded, the second returns the same record.
\<close>

theorem recover_repeatable:
  assumes "reads j f" "consistent r f"
    and "recover now ws w r j = (res, j1)"
    and "recover now2 [] True r j1 = (res2, j2)"
  shows "\<exists>b r2 g t.
    res2 = Inr (b, r2) \<and> reads j2 g \<and> jf_terminal g = Some t \<and>
    wr_status r2 = Run_Done (te_status t) \<and> wr_ended r2 = Some (te_ended t) \<and>
    map wa_index (wr_agents r2) = map wa_index (wr_agents r) \<and>
    (\<forall>a \<in> set (wr_agents r2). \<not> agent_active a \<and>
       (\<forall>e. map_of (jf_results f) (wa_index a) = Some e \<longrightarrow> agent_matches a e)) \<and>
    (\<forall>b1 r1. res = Inr (b1, r1) \<longrightarrow> r2 = r1 \<and> \<not> b)"
proof -
  have "\<exists>g. reads j1 g \<and> consistent r g \<and> extends f g \<and>
      (\<forall>b1 r1. res = Inr (b1, r1) \<longrightarrow> (\<exists>t. jf_terminal g = Some t \<and> r1 = recovered r g t))"
  proof (cases "jf_terminal f")
    case None
    from recover_open [OF assms(1,2) None assms(3)] show ?thesis
      by (cases res) auto
  next
    case (Some t)
    from recover_terminal [OF assms(1,2) Some, of now ws w] assms(2,3) Some show ?thesis
      by (auto intro!: exI [of _ f])
  qed
  then obtain g where g: "reads j1 g" "consistent r g" "extends f g"
    and same: "\<And>b1 r1. res = Inr (b1, r1) \<Longrightarrow>
      \<exists>t. jf_terminal g = Some t \<and> r1 = recovered r g t" by blast
  note recover_completes [OF g(1,2) assms(4)]
  then obtain b h t where h: "res2 = Inr (b, recovered r h t)" "reads j2 h" "consistent r h"
    "extends g h" "jf_terminal h = Some t" and hg: "jf_terminal g \<noteq> None \<Longrightarrow> \<not> b \<and> h = g" by blast
  note recovered_settled [OF h(3,5)]
  moreover have "agent_matches (settled_by h a) e"
    if "map_of (jf_results f) (wa_index a) = Some e" for a e
    using recovered_matches [OF that extends_trans [OF g(3) h(4)]] .
  moreover have "recovered r h t = r1 \<and> \<not> b" if "res = Inr (b1, r1)" for b1 r1
    using same [OF that] hg h(5) by auto
  ultimately show ?thesis
    using h by (intro exI [of _ b] exI [of _ "recovered r h t"] exI [of _ h] exI [of _ t])
      (auto simp: recovered_def)
qed

lemma recover_repeatable_witness:
  "\<exists>b r2 t. fst (recover 9 [] True sample_run
       (snd (recover 5 [False] True sample_run
         \<lparr>jn_file = Some [Line_Val (event_row (Ev_Run sample_run))], jn_facts = None\<rparr>))) =
     Inr (b, r2) \<and> wr_status r2 = Run_Done t"
proof -
  let ?j = "\<lparr>jn_file = Some [Line_Val (event_row (Ev_Run sample_run))], jn_facts = None\<rparr>"
  have r: "reads ?j no_facts"
    by (simp add: reads_def parse_journal_facts_def)
  have c: "consistent sample_run no_facts"
    by (simp add: consistent_def sample_run_def no_facts_def)
  from recover_repeatable [OF r c, of 5 "[False]" True] show ?thesis
    by (metis fst_conv surj_pair snd_conv)
qed

end
