(* ===== verification/Workflow_Run_Props.thy ===== *)
theory Workflow_Run_Props
  imports Workflow_Run Workflow_Journal_Props
begin

text \<open>
  The live run against its durable state: at every step the record on disk and the journal
  agree, so that a crash at that step is one the recovery of the next start repairs; the
  terminal result is decided once; the limits hold.
\<close>

subsection \<open>What a step leaves alone\<close>

lemma close_on_intent_simps [simp]:
  "rs_calls (close_on_intent st s) = rs_calls s" "rs_draft (close_on_intent st s) = rs_draft s"
  "rs_store (close_on_intent st s) = rs_store s" "rs_journal (close_on_intent st s) = rs_journal s"
  "rs_handling (close_on_intent st s) = rs_handling s" "rs_intent (close_on_intent st s) = rs_intent s"
  "rs_final (close_on_intent st s) = rs_final s" "rs_candidate (close_on_intent st s) = rs_candidate s"
  "rs_tail (close_on_intent st s) = rs_tail s" "rs_delivered (close_on_intent st s) = rs_delivered s"
  "rs_sem (close_on_intent st s) = sem_close (rs_sem s)"
  by (simp_all add: close_on_intent_def)

lemma send_message_simps [simp]:
  "rs_calls (send_message m s) = rs_calls s" "rs_draft (send_message m s) = rs_draft s"
  "rs_store (send_message m s) = rs_store s" "rs_journal (send_message m s) = rs_journal s"
  "rs_handling (send_message m s) = rs_handling s" "rs_intent (send_message m s) = rs_intent s"
  "rs_final (send_message m s) = rs_final s" "rs_candidate (send_message m s) = rs_candidate s"
  "rs_tail (send_message m s) = rs_tail s" "rs_delivered (send_message m s) = rs_delivered s"
  "rs_sem (send_message m s) = rs_sem s" "rs_recipient (send_message m s) = rs_recipient s"
  by (simp_all add: send_message_def)

lemma ensure_task_simps [simp]:
  "rs_calls (ensure_terminal_task s) = rs_calls s" "rs_draft (ensure_terminal_task s) = rs_draft s"
  "rs_store (ensure_terminal_task s) = rs_store s" "rs_journal (ensure_terminal_task s) = rs_journal s"
  "rs_handling (ensure_terminal_task s) = rs_handling s"
  "rs_intent (ensure_terminal_task s) = rs_intent s"
  "rs_candidate (ensure_terminal_task s) = rs_candidate s"
  "rs_tail (ensure_terminal_task s) = rs_tail s"
  "rs_delivered (ensure_terminal_task s) = rs_delivered s"
  "rs_sem (ensure_terminal_task s) = rs_sem s" "rs_recipient (ensure_terminal_task s) = rs_recipient s"
  "rs_final (ensure_terminal_task s) =
     (if rs_final s = Fin_None then Fin_Stop_Runner else rs_final s)"
  by (simp_all add: ensure_terminal_task_def)

lemma reserve_stop_simps [simp]:
  "rs_calls (reserve_stop s) = rs_calls s" "rs_draft (reserve_stop s) = rs_draft s"
  "rs_store (reserve_stop s) = rs_store s" "rs_journal (reserve_stop s) = rs_journal s"
  "rs_handling (reserve_stop s) = rs_handling s" "rs_final (reserve_stop s) = rs_final s"
  "rs_candidate (reserve_stop s) = rs_candidate s" "rs_tail (reserve_stop s) = rs_tail s"
  "rs_delivered (reserve_stop s) = rs_delivered s" "rs_intent (reserve_stop s) \<noteq> None"
  "rs_intent s = Some t \<Longrightarrow> reserve_stop s = s"
  by (auto simp: reserve_stop_def)

lemma request_terminal_simps [simp]:
  "rs_calls (request_terminal st r e s) = rs_calls s"
  "rs_draft (request_terminal st r e s) = rs_draft s"
  "rs_store (request_terminal st r e s) = rs_store s"
  "rs_journal (request_terminal st r e s) = rs_journal s"
  "rs_handling (request_terminal st r e s) = rs_handling s"
  "rs_candidate (request_terminal st r e s) = rs_candidate s"
  "rs_tail (request_terminal st r e s) = rs_tail s"
  "rs_delivered (request_terminal st r e s) = rs_delivered s"
  "rs_intent (request_terminal st r e s) =
     (if rs_intent s = None then Some \<lparr>ti_status = st, ti_result = r, ti_error = e\<rparr> else rs_intent s)"
  "rs_final (request_terminal st r e s) =
     (if rs_final s = Fin_None then Fin_Stop_Runner else rs_final s)"
  by (simp_all add: request_terminal_def)

lemma fail_run_simps [simp]:
  "rs_calls (fail_run m s) = rs_calls s" "rs_draft (fail_run m s) = rs_draft s"
  "rs_store (fail_run m s) = rs_store s" "rs_journal (fail_run m s) = rs_journal s"
  "rs_handling (fail_run m s) = rs_handling s" "rs_candidate (fail_run m s) = rs_candidate s"
  "rs_tail (fail_run m s) = rs_tail s" "rs_delivered (fail_run m s) = rs_delivered s"
  "rs_intent (fail_run m s) \<noteq> None"
  "rs_final (fail_run m s) = (if rs_final s = Fin_None then Fin_Stop_Runner else rs_final s)"
  by (simp_all add: fail_run_def)

lemma set_call_simps [simp]:
  "rs_calls (set_call i f s) = upd_call i f (rs_calls s)" "rs_draft (set_call i f s) = rs_draft s"
  "rs_store (set_call i f s) = rs_store s" "rs_journal (set_call i f s) = rs_journal s"
  "rs_handling (set_call i f s) = rs_handling s" "rs_intent (set_call i f s) = rs_intent s"
  "rs_final (set_call i f s) = rs_final s" "rs_candidate (set_call i f s) = rs_candidate s"
  "rs_tail (set_call i f s) = rs_tail s" "rs_sem (set_call i f s) = rs_sem s"
  "rs_delivered (set_call i f s) = rs_delivered s"
  by (simp_all add: set_call_def)

lemma set_agent_simps [simp]:
  "rs_calls (set_agent i f s) = rs_calls s"
  "wr_agents (rs_draft (set_agent i f s)) = upd_agent i f (wr_agents (rs_draft s))"
  "rs_store (set_agent i f s) = rs_store s" "rs_journal (set_agent i f s) = rs_journal s"
  "rs_handling (set_agent i f s) = rs_handling s" "rs_intent (set_agent i f s) = rs_intent s"
  "rs_final (set_agent i f s) = rs_final s" "rs_candidate (set_agent i f s) = rs_candidate s"
  "rs_tail (set_agent i f s) = rs_tail s" "rs_sem (set_agent i f s) = rs_sem s"
  by (simp_all add: set_agent_def)

lemma touch_simps [simp]:
  "rs_calls (touch t s) = rs_calls s" "wr_agents (rs_draft (touch t s)) = wr_agents (rs_draft s)"
  "rs_store (touch t s) = rs_store s" "rs_journal (touch t s) = rs_journal s"
  "rs_handling (touch t s) = rs_handling s" "rs_intent (touch t s) = rs_intent s"
  "rs_final (touch t s) = rs_final s" "rs_candidate (touch t s) = rs_candidate s"
  "rs_tail (touch t s) = rs_tail s" "rs_sem (touch t s) = rs_sem s"
  by (simp_all add: touch_def)

lemma write_store_simps [simp]:
  "rs_calls (write_store s) = rs_calls s" "rs_draft (write_store s) = rs_draft s"
  "rs_store (write_store s) = rs_draft s" "rs_journal (write_store s) = rs_journal s"
  "rs_handling (write_store s) = rs_handling s" "rs_intent (write_store s) = rs_intent s"
  "rs_final (write_store s) = rs_final s" "rs_candidate (write_store s) = rs_candidate s"
  "rs_tail (write_store s) = rs_tail s" "rs_sem (write_store s) = rs_sem s"
  by (simp_all add: write_store_def)

lemma upd_call_absent: "map_of cs i = None \<Longrightarrow> upd_call i f cs = cs"
  by (induction cs) (auto simp: upd_call_def split: if_splits)

lemma upd_call_upd [simp]: "upd_call i f (upd_call i g cs) = upd_call i (\<lambda>c. f (g c)) cs"
  by (auto simp: upd_call_def)

lemma upd_agent_upd [simp]:
  "(\<And>a. wa_index (g a) = wa_index a) \<Longrightarrow> upd_agent i f (upd_agent i g as) = upd_agent i (\<lambda>a. f (g a)) as"
  by (auto simp: upd_agent_def)

lemma map_of_upd_call:
  "map_of (upd_call i f cs) k = (if k = i then map_option f (map_of cs k) else map_of cs k)"
  by (induction cs) (auto simp: upd_call_def)

lemma keys_upd_call [simp]: "map fst (upd_call i f cs) = map fst cs"
  by (auto simp: upd_call_def)

lemma map_index_upd: "(\<And>a. wa_index (h a) = wa_index a) \<Longrightarrow>
    map wa_index (upd_agent i h as) = map wa_index as"
  by (simp add: upd_agent_def)

lemma upd_agent_id: "(\<And>a. wa_index a = i \<Longrightarrow> f a = a) \<Longrightarrow> upd_agent i f as = as"
  by (auto simp: upd_agent_def intro: map_idI)

lemma finish_task_simps [simp]:
  "rs_calls (finish_task i s) = upd_call i (\<lambda>c. c\<lparr>cl_pc := Pc_Finished, cl_slot := None\<rparr>) (rs_calls s)"
  "rs_draft (finish_task i s) = rs_draft s"
  "rs_store (finish_task i s) = rs_store s" "rs_journal (finish_task i s) = rs_journal s"
  "rs_handling (finish_task i s) = rs_handling s" "rs_intent (finish_task i s) = rs_intent s"
  "rs_final (finish_task i s) = rs_final s" "rs_candidate (finish_task i s) = rs_candidate s"
  "rs_tail (finish_task i s) = rs_tail s"
  by (auto simp: finish_task_def call_of_def upd_call_absent split: option.splits)

subsection \<open>The invariant of agents, record and journal\<close>

definition has_result :: "journal_facts \<Rightarrow> nat \<Rightarrow> result_event \<Rightarrow> bool" where
  "has_result f i e \<longleftrightarrow> map_of (jf_results f) i = Some e"

definition stored :: "workflow_run \<Rightarrow> nat \<Rightarrow> bool" where
  "stored s i \<longleftrightarrow> i \<in> wa_index ` set (wr_agents (rs_store s))"

definition pc_ok :: "workflow_run \<Rightarrow> journal_facts \<Rightarrow> nat \<Rightarrow> agent_call \<Rightarrow> bool" where
  "pc_ok s f i c \<longleftrightarrow> (case cl_pc c of
       Pc_Registering \<Rightarrow> (\<exists>p ob t. rs_handling s = Some (M_Agent_Start i p ob, t)) \<and>
         cl_candidate c = None
     | Pc_Lost \<Rightarrow> True
     | Pc_Finished \<Rightarrow> stored s i
     | Pc_Result_Send _ \<Rightarrow> stored s i
     | Pc_Result_Journal _ \<Rightarrow> stored s i \<and> cl_candidate c \<noteq> None
     | Pc_Result_Store _ \<Rightarrow> stored s i \<and> (\<exists>e. cl_candidate c = Some e \<and> has_result f i e)
     | _ \<Rightarrow> stored s i \<and> cl_candidate c = None)"

definition call_ok :: "workflow_run \<Rightarrow> journal_facts \<Rightarrow> nat \<Rightarrow> agent_call \<Rightarrow> bool" where
  "call_ok s f i c \<longleftrightarrow>
     (\<forall>e. cl_candidate c = Some e \<longrightarrow> re_index e = i \<and> normalize_agent_result e = e) \<and>
     (cl_completed c \<longrightarrow> (\<exists>e. cl_candidate c = Some e \<and> has_result f i e)) \<and>
     (\<forall>e. has_result f i e \<longrightarrow> cl_candidate c = Some e \<and> (stored s i \<or> cl_pc c = Pc_Lost)) \<and>
     pc_ok s f i c"

definition reflects :: "agent_call \<Rightarrow> workflow_agent \<Rightarrow> bool" where
  "reflects c a \<longleftrightarrow> (case cl_candidate c of
       None \<Rightarrow> agent_active a | Some e \<Rightarrow> agent_matches a e)"

definition stored_ok :: "(nat \<times> agent_call) list \<Rightarrow> workflow_agent list \<Rightarrow> bool" where
  "stored_ok cs as \<longleftrightarrow> distinct (map wa_index as) \<and>
     (\<forall>a \<in> set as. \<exists>c. map_of cs (wa_index a) = Some c \<and> (agent_active a \<or> reflects c a))"

definition run_core :: "workflow_run \<Rightarrow> journal_facts \<Rightarrow> bool" where
  "run_core s f \<longleftrightarrow>
     reads (rs_journal s) f \<and>
     map wa_index (wr_agents (rs_draft s)) = map fst (rs_calls s) \<and>
     distinct (map fst (rs_calls s)) \<and>
     (\<forall>a \<in> set (wr_agents (rs_draft s)). \<forall>c. map_of (rs_calls s) (wa_index a) = Some c \<longrightarrow>
        reflects c a) \<and>
     (\<forall>i c. map_of (rs_calls s) i = Some c \<longrightarrow> call_ok s f i c) \<and>
     (\<forall>i e. has_result f i e \<longrightarrow> map_of (rs_calls s) i \<noteq> None) \<and>
     stored_ok (rs_calls s) (wr_agents (rs_store s))"

lemma run_coreD:
  assumes "run_core s f"
  shows "reads (rs_journal s) f"
    and "map wa_index (wr_agents (rs_draft s)) = map fst (rs_calls s)"
    and "distinct (map fst (rs_calls s))"
    and "a \<in> set (wr_agents (rs_draft s)) \<Longrightarrow> map_of (rs_calls s) (wa_index a) = Some c \<Longrightarrow>
      reflects c a"
    and "map_of (rs_calls s) i = Some c \<Longrightarrow> call_ok s f i c"
    and "has_result f i e \<Longrightarrow> map_of (rs_calls s) i \<noteq> None"
    and "stored_ok (rs_calls s) (wr_agents (rs_store s))"
  using assms unfolding run_core_def by blast+

text \<open>The core only looks at calls, agents, journal and the handler in progress.\<close>

lemma run_core_cong:
  assumes "run_core s f"
    and "rs_calls t = rs_calls s" "wr_agents (rs_draft t) = wr_agents (rs_draft s)"
    and "wr_agents (rs_store t) = wr_agents (rs_store s)" "reads (rs_journal t) f"
    and "rs_handling t = rs_handling s"
  shows "run_core t f"
proof -
  have "stored t = stored s" by (simp add: fun_eq_iff stored_def assms)
  moreover from this have "pc_ok t = pc_ok s"
    by (simp add: fun_eq_iff pc_ok_def assms cong: call_pc.case_cong)
  ultimately have ck: "call_ok t = call_ok s" by (simp add: fun_eq_iff call_ok_def)
  from assms(1,5) show ?thesis unfolding run_core_def assms(2-4) ck by blast
qed

definition later :: "agent_call \<Rightarrow> agent_call \<Rightarrow> bool" where
  "later c d \<longleftrightarrow> (\<forall>e. cl_candidate c = Some e \<longrightarrow> cl_candidate d = Some e)"

lemma stored_ok_draft:
  assumes "map wa_index as = map fst cs" "distinct (map fst cs)"
    and "\<And>a c. a \<in> set as \<Longrightarrow> map_of cs (wa_index a) = Some c \<Longrightarrow> reflects c a"
  shows "stored_ok cs as"
proof -
  have "\<exists>c. map_of cs (wa_index a) = Some c" if "a \<in> set as" for a
  proof -
    from that have "wa_index a \<in> set (map fst cs)" unfolding assms(1) [symmetric] by simp
    then have "map_of cs (wa_index a) \<noteq> None" by (simp add: map_of_eq_None_iff)
    then show ?thesis by blast
  qed
  with assms show ?thesis unfolding stored_ok_def by (metis (no_types))
qed

lemma stored_keep:
  assumes "run_core s f"
    and "map fst (rs_calls t) = map fst (rs_calls s)"
    and "map wa_index (wr_agents (rs_draft t)) = map fst (rs_calls t)"
    and "wr_agents (rs_store t) = wr_agents (rs_store s) \<or>
      wr_agents (rs_store t) = wr_agents (rs_draft t)"
    and "stored s k"
  shows "stored t k"
proof -
  from assms(5) run_coreD(7) [OF assms(1)] have "map_of (rs_calls s) k \<noteq> None"
    by (auto simp: stored_def stored_ok_def)
  then have "k \<in> set (map fst (rs_calls s))" by (simp add: map_of_eq_None_iff)
  then have "k \<in> set (map wa_index (wr_agents (rs_draft t)))" unfolding assms(2,3) .
  with assms(4,5) show ?thesis by (auto simp: stored_def)
qed

text \<open>One call changes, with its agent, possibly the stored record, possibly its journal row.\<close>

lemma run_core_update:
  assumes core: "run_core s f"
    and calls: "rs_calls t = upd_call i g (rs_calls s)"
    and agents: "wr_agents (rs_draft t) = upd_agent i h (wr_agents (rs_draft s))"
      "\<And>a. wa_index (h a) = wa_index a"
    and store: "wr_agents (rs_store t) = wr_agents (rs_store s) \<or>
      wr_agents (rs_store t) = wr_agents (rs_draft t)"
    and jrnl: "reads (rs_journal t) f'" "\<And>k e. k \<noteq> i \<Longrightarrow> has_result f' k e = has_result f k e"
      "\<And>e. has_result f' i e \<Longrightarrow> map_of (rs_calls s) i \<noteq> None"
    and hand: "rs_handling t = rs_handling s \<or>
      (\<forall>k c. k \<noteq> i \<longrightarrow> map_of (rs_calls s) k = Some c \<longrightarrow> cl_pc c \<noteq> Pc_Registering)"
    and this_call: "\<And>c. map_of (rs_calls s) i = Some c \<Longrightarrow>
      call_ok t f' i (g c) \<and> later c (g c)"
    and this_agent: "\<And>c a. map_of (rs_calls s) i = Some c \<Longrightarrow> reflects c a \<Longrightarrow> wa_index a = i \<Longrightarrow>
      reflects (g c) (h a)"
  shows "run_core t f'"
proof -
  note c = run_coreD [OF core]
  have idx: "map wa_index (wr_agents (rs_draft t)) = map fst (rs_calls t)"
    unfolding agents(1) map_index_upd [OF agents(2)] calls keys_upd_call by (rule c(2))
  have ref: "reflects d a" if "a \<in> set (wr_agents (rs_draft t))"
    "map_of (rs_calls t) (wa_index a) = Some d" for a d
  proof -
    from that(1) obtain b where b: "b \<in> set (wr_agents (rs_draft s))"
      "a = (if wa_index b = i then h b else b)" by (auto simp: agents(1) upd_agent_def)
    then have "wa_index a = wa_index b" by (simp add: agents(2))
    with that(2) b c(4) [OF b(1)] this_agent show ?thesis
      by (auto simp: calls map_of_upd_call split: if_splits)
  qed
  have keep: "stored t k" if "stored s k" for k
    by (rule stored_keep [OF core _ _ store that]) (simp_all add: calls idx)
  have ok: "call_ok t f' k d" if "map_of (rs_calls t) k = Some d" for k d
  proof (cases "k = i")
    case True
    with that this_call show ?thesis by (auto simp: calls map_of_upd_call)
  next
    case False
    with that have d: "map_of (rs_calls s) k = Some d" by (simp add: calls map_of_upd_call)
    from c(5) [OF this] have "call_ok s f k d" .
    moreover have "rs_handling t = rs_handling s \<or> cl_pc d \<noteq> Pc_Registering"
      using hand False d by blast
    ultimately show ?thesis
      using jrnl(2) [OF False] keep [of k]
      by (auto simp: call_ok_def pc_ok_def split: call_pc.splits)
  qed
  have "stored_ok (rs_calls t) (wr_agents (rs_store t))"
  proof (cases "wr_agents (rs_store t) = wr_agents (rs_draft t)")
    case True
    have "distinct (map fst (rs_calls t))" using c(3) by (simp add: calls)
    with stored_ok_draft [OF idx _ ref] True show ?thesis by simp
  next
    case False
    with store have st: "wr_agents (rs_store t) = wr_agents (rs_store s)" by blast
    have "\<exists>d. map_of (rs_calls t) (wa_index a) = Some d \<and> (agent_active a \<or> reflects d a)"
      if "a \<in> set (wr_agents (rs_store s))" for a
    proof -
      from c(7) that obtain b where b: "map_of (rs_calls s) (wa_index a) = Some b"
        "agent_active a \<or> reflects b a" by (auto simp: stored_ok_def)
      show ?thesis
      proof (cases "wa_index a = i")
        case True
        with b this_call have "later b (g b)" by auto
        with b(2) have "agent_active a \<or> reflects (g b) a"
          by (auto simp: later_def reflects_def split: option.splits)
        with True b(1) show ?thesis by (simp add: calls map_of_upd_call)
      next
        case False
        with b show ?thesis by (simp add: calls map_of_upd_call)
      qed
    qed
    with c(7) st show ?thesis by (simp add: stored_ok_def)
  qed
  moreover have "has_result f' k e \<Longrightarrow> map_of (rs_calls t) k \<noteq> None" for k e
    using jrnl(2,3) c(6) by (cases "k = i") (auto simp: calls map_of_upd_call)
  ultimately show ?thesis
    using jrnl(1) idx c(3) ref ok by (simp add: run_core_def calls)
qed

text \<open>A call moves on without settling anything.\<close>

lemma run_core_move:
  assumes core: "run_core s f"
    and calls: "rs_calls t = upd_call i g (rs_calls s)"
    and agents: "wr_agents (rs_draft t) = upd_agent i h (wr_agents (rs_draft s))"
      "\<And>a. wa_index (h a) = wa_index a"
    and store: "wr_agents (rs_store t) = wr_agents (rs_store s) \<or>
      wr_agents (rs_store t) = wr_agents (rs_draft t)"
    and jrnl: "reads (rs_journal t) f"
    and hand: "rs_handling t = rs_handling s \<or>
      (\<forall>k c. k \<noteq> i \<longrightarrow> map_of (rs_calls s) k = Some c \<longrightarrow> cl_pc c \<noteq> Pc_Registering)"
    and keeps: "\<And>c. cl_candidate (g c) = cl_candidate c" "\<And>c. cl_completed (g c) = cl_completed c"
    and pc: "\<And>c. map_of (rs_calls s) i = Some c \<Longrightarrow>
      pc_ok t f i (g c) \<and> (stored t i \<or> cl_pc (g c) = Pc_Lost)"
    and agent: "\<And>c a. map_of (rs_calls s) i = Some c \<Longrightarrow> reflects c a \<Longrightarrow> wa_index a = i \<Longrightarrow>
      reflects c (h a)"
  shows "run_core t f"
proof (rule run_core_update [OF core calls agents store jrnl _ _ hand])
  fix c assume c: "map_of (rs_calls s) i = Some c"
  from run_coreD(5) [OF core c] pc [OF c] show "call_ok t f i (g c) \<and> later c (g c)"
    by (auto simp: call_ok_def later_def keeps)
  fix a assume "reflects c a" "wa_index a = i"
  from agent [OF c this] show "reflects (g c) (h a)" by (simp add: reflects_def keeps)
qed (use run_coreD(6) [OF core] in auto)

lemma upd_agent_same [simp]: "upd_agent i (\<lambda>a. a) as = as"
  by (simp add: upd_agent_def)

text \<open>The synchronous half of settling an agent.\<close>

lemma candidate_ok:
  assumes "call_ok s f i c" "result \<noteq> Undef"
  shows "re_index (candidate_of s i c st result err now) = i \<and>
    normalize_agent_result (candidate_of s i c st result err now) = candidate_of s i c st result err now \<and>
    (\<forall>e. cl_candidate c = Some e \<longrightarrow> candidate_of s i c st result err now = e)"
proof (cases "cl_candidate c")
  case None
  with assms(2) show ?thesis
    by (auto simp: candidate_of_def normalize_agent_result_def or_null_def)
next
  case (Some e)
  with assms(1) show ?thesis by (simp add: candidate_of_def call_ok_def)
qed

lemma settle_reflects: "cl_candidate c = Some e \<Longrightarrow> reflects c (settle_agent e a)"
  by (simp add: reflects_def agent_matches_def settle_agent_def)

lemma complete_begin_core:
  assumes core: "run_core s f" and c: "map_of (rs_calls s) i = Some c"
    and pc: "pc_ok s f i c" "cl_pc c \<in> {Pc_Finished, Pc_Lost}" and r: "result \<noteq> Undef"
  shows "run_core (complete_begin i st result err now s) f"
proof -
  let ?e = "candidate_of s i c st result err now"
  let ?t = "complete_begin i st result err now s"
  note k = candidate_ok [OF run_coreD(5) [OF core c] r, of st err now]
  have t: "rs_calls ?t = upd_call i (\<lambda>c. c\<lparr>cl_candidate := Some ?e\<rparr>) (rs_calls s)"
    "wr_agents (rs_draft ?t) = upd_agent i (settle_agent ?e) (wr_agents (rs_draft s))"
    "rs_store ?t = rs_store s" "rs_journal ?t = rs_journal s" "rs_handling ?t = rs_handling s"
    using c by (simp_all add: complete_begin_def call_of_def Let_def)
  show ?thesis
  proof (rule run_core_update [OF core t(1,2)])
    fix d assume d: "map_of (rs_calls s) i = Some d"
    with c have dc: "d = c" by simp
    have "pc_ok ?t f i (c\<lparr>cl_candidate := Some ?e\<rparr>)"
      using pc by (auto simp: pc_ok_def stored_def t)
    with run_coreD(5) [OF core c] k
    show "call_ok ?t f i (d\<lparr>cl_candidate := Some ?e\<rparr>) \<and> later d (d\<lparr>cl_candidate := Some ?e\<rparr>)"
      by (auto simp: call_ok_def later_def dc stored_def t)
  qed (use run_coreD(1,6) [OF core] in \<open>auto simp: t settle_reflects\<close>)
qed

lemma complete_task_core:
  assumes core: "run_core s f" and c: "map_of (rs_calls s) i = Some c"
    and st: "stored s i" and r: "result \<noteq> Undef"
  shows "run_core (complete_task i status result err re now s) f"
proof -
  let ?e = "candidate_of s i c status result err now"
  let ?t = "complete_task i status result err re now s"
  note k = candidate_ok [OF run_coreD(5) [OF core c] r, of status err now]
  let ?g = "\<lambda>c. c\<lparr>cl_candidate := Some ?e, cl_pc := Pc_Result_Journal re\<rparr>"
  have t: "rs_calls ?t = upd_call i ?g (rs_calls s)"
    "wr_agents (rs_draft ?t) = upd_agent i (settle_agent ?e) (wr_agents (rs_draft s))"
    "rs_store ?t = rs_store s" "rs_journal ?t = rs_journal s" "rs_handling ?t = rs_handling s"
    using c by (simp_all add: complete_task_def complete_begin_def call_of_def Let_def set_pc_def)
  show ?thesis
  proof (rule run_core_update [OF core t(1,2)])
    fix d assume d: "map_of (rs_calls s) i = Some d"
    with c have dc: "d = c" by simp
    have "pc_ok ?t f i (?g c)" using st by (simp add: pc_ok_def stored_def t)
    with run_coreD(5) [OF core c] k st show "call_ok ?t f i (?g d) \<and> later d (?g d)"
      by (auto simp: call_ok_def later_def dc stored_def t)
  qed (use run_coreD(1,6) [OF core] in \<open>auto simp: t settle_reflects\<close>)
qed

text \<open>The journal row.\<close>

lemma write_result_core:
  assumes core: "run_core s f" and c: "map_of (rs_calls s) i = Some c" "cl_candidate c = Some e"
    and st: "stored s i \<or> cl_pc c = Pc_Lost"
    and w: "write_result i w s = (r, t)"
  shows "\<exists>f'. run_core t f' \<and> jf_terminal f' = jf_terminal f \<and> extends f f' \<and>
    (r = None \<longrightarrow> has_result f' i e) \<and>
    rs_calls t = rs_calls s \<and> rs_draft t = rs_draft s \<and> rs_store t = rs_store s \<and>
    rs_handling t = rs_handling s \<and> rs_intent t = rs_intent s \<and> rs_final t = rs_final s \<and>
    rs_candidate t = rs_candidate s \<and> rs_tail t = rs_tail s"
proof -
  note ok = run_coreD(5) [OF core c(1)]
  from ok c(2) have e: "re_index e = i" "normalize_agent_result e = e" by (simp_all add: call_ok_def)
  have t: "\<exists>j. ensure_agent_result e (w = None) (rs_journal s) = (r', j) \<and> t = s\<lparr>rs_journal := j\<rparr> \<and>
      (r = None \<longleftrightarrow> isl r' = False)" if "fst (ensure_agent_result e (w = None) (rs_journal s)) = r'" for r'
    using w c that by (cases "ensure_agent_result e (w = None) (rs_journal s)")
      (auto simp: write_result_def call_of_def split: sum.splits)
  show ?thesis
  proof (cases "map_of (jf_results f) i")
    case (Some x)
    with ok c(2) have x: "x = e" by (simp add: call_ok_def has_result_def)
    from ensure_result_old [OF run_coreD(1) [OF core], of e x "w = None"] Some e x obtain j where
      j: "ensure_agent_result e (w = None) (rs_journal s) = (Inr e, j)" "reads j f"
      by (auto simp: same_agent_result_def)
    with t [of "Inr e"] have tt: "t = s\<lparr>rs_journal := j\<rparr>" "r = None" by auto
    have "run_core t f" by (rule run_core_cong [OF core]) (simp_all add: tt j(2))
    with Some x tt show ?thesis by (auto simp: has_result_def)
  next
    case None
    from ensure_result_new [OF run_coreD(1) [OF core], of e "w = None"] None e obtain j where
      j: "ensure_agent_result e (w = None) (rs_journal s) =
            ((if w = None then Inr e else Inl Jn_Io), j)"
      "reads j (if w = None then add_result e f else f)" by auto
    let ?f = "if w = None then add_result e f else f"
    from t [OF refl] j(1) have tt: "t = s\<lparr>rs_journal := j\<rparr>" "r = None \<longleftrightarrow> w = None"
      by (auto split: if_splits)
    have has: "has_result ?f k x \<longleftrightarrow> has_result f k x \<or> w = None \<and> k = i \<and> x = e" for k x
      using None e by (auto simp: has_result_def add_result_def map_add_Some_iff)
    have "run_core t ?f"
    proof (rule run_core_update [OF core, where g = "\<lambda>c. c" and h = "\<lambda>a. a" and i = i])
      fix d assume "map_of (rs_calls s) i = Some d"
      with c have d: "d = c" by simp
      from ok has st e c(2) None show "call_ok t ?f i d \<and> later d d"
        unfolding d by (auto simp: call_ok_def pc_ok_def later_def tt stored_def has_result_def
            split: call_pc.splits)
    qed (use c(1) j(2) has in \<open>auto simp: tt upd_call_def\<close>)
    moreover have "extends f ?f" using extends_add_result [of f e] None e by simp
    ultimately show ?thesis using tt has [of i e] by (auto simp: add_result_def)
  qed
qed

lemma upd_call_same [simp]: "upd_call i (\<lambda>c. c) cs = cs"
  by (auto simp: upd_call_def)

text \<open>Publishing the draft.\<close>

lemma stored_write:
  assumes "run_core s f" "map_of (rs_calls s) i = Some c"
  shows "stored (write_store s) i"
proof -
  from assms(2) have "i \<in> set (map fst (rs_calls s))"
    by (metis fst_conv image_eqI map_of_SomeD set_map)
  then have "i \<in> set (map wa_index (wr_agents (rs_draft s)))"
    unfolding run_coreD(2) [OF assms(1)] .
  then show ?thesis by (simp add: stored_def)
qed

lemma run_core_write:
  assumes core: "run_core s f"
  shows "run_core (write_store s) f"
proof (rule run_core_move [OF core, where g = "\<lambda>c. c" and h = "\<lambda>a. a" and i = 0])
  fix c assume c: "map_of (rs_calls s) 0 = Some c"
  from run_coreD(5) [OF core c] stored_write [OF core c]
  show "pc_ok (write_store s) f 0 c \<and> (stored (write_store s) 0 \<or> cl_pc c = Pc_Lost)"
    by (auto simp: call_ok_def pc_ok_def split: call_pc.splits)
qed (use run_coreD(1) [OF core] in auto)

lemma pc_stored:
  "run_core s f \<Longrightarrow> map_of (rs_calls s) i = Some c \<Longrightarrow> cl_pc c \<noteq> Pc_Registering \<Longrightarrow>
   cl_pc c \<noteq> Pc_Lost \<Longrightarrow> stored s i"
  using run_coreD(5) [of s f i c]
  by (auto simp: call_ok_def pc_ok_def split: call_pc.splits)

lemma run_core_quiet:
  "run_core s f \<Longrightarrow> rs_calls t = rs_calls s \<Longrightarrow> wr_agents (rs_draft t) = wr_agents (rs_draft s) \<Longrightarrow>
   rs_store t = rs_store s \<Longrightarrow> rs_journal t = rs_journal s \<Longrightarrow> rs_handling t = rs_handling s \<Longrightarrow>
   run_core t f"
  by (rule run_core_cong [of s]) (simp_all add: run_coreD(1))

text \<open>A task that ends, and one that moves on.\<close>

lemma run_core_finish:
  assumes core: "run_core s f" and st: "stored s i"
  shows "run_core (finish_task i s) f"
proof (rule run_core_move [OF core, where i = i and h = "\<lambda>a. a"
      and g = "\<lambda>c. c\<lparr>cl_pc := Pc_Finished, cl_slot := None\<rparr>"])
  fix c assume "map_of (rs_calls s) i = Some c"
  show "pc_ok (finish_task i s) f i (c\<lparr>cl_pc := Pc_Finished, cl_slot := None\<rparr>) \<and>
      (stored (finish_task i s) i \<or> cl_pc (c\<lparr>cl_pc := Pc_Finished, cl_slot := None\<rparr>) = Pc_Lost)"
    using st by (simp add: pc_ok_def stored_def)
qed (use run_coreD(1) [OF core] in simp_all)

lemma run_core_fail_finish:
  "run_core s f \<Longrightarrow> stored s i \<Longrightarrow> run_core (finish_task i (fail_run m s)) f"
  by (rule run_core_finish) (simp_all add: run_core_quiet stored_def)

lemma run_core_pc:
  assumes core: "run_core s f" and st: "stored s i"
    and calls: "rs_calls t = upd_call i g (rs_calls s)"
    and same: "wr_agents (rs_draft t) = wr_agents (rs_draft s)" "rs_store t = rs_store s"
      "reads (rs_journal t) f" "rs_handling t = rs_handling s"
    and keeps: "\<And>c. cl_candidate (g c) = cl_candidate c" "\<And>c. cl_completed (g c) = cl_completed c"
    and pc: "\<And>c. map_of (rs_calls s) i = Some c \<Longrightarrow> pc_ok t f i (g c)"
  shows "run_core t f"
  by (rule run_core_move [OF core calls, where h = "\<lambda>a. a"])
    (use st same keeps pc in \<open>auto simp: stored_def\<close>)

subsection \<open>Stages of the end of a run\<close>

definition closing :: "workflow_run \<Rightarrow> bool" where
  "closing s \<longleftrightarrow> rs_intent s \<noteq> None \<and> rs_handling s = None \<and>
     (\<forall>m \<in> set (rs_tail s). is_run_result m) \<and>
     (\<forall>i c. map_of (rs_calls s) i = Some c \<longrightarrow> task_over c)"

definition early :: "final_pc \<Rightarrow> bool" where
  "early p \<longleftrightarrow> (case p of Fin_None \<Rightarrow> True | Fin_Stop_Runner \<Rightarrow> True | Fin_Close _ \<Rightarrow> True
     | Fin_Drain _ \<Rightarrow> True | _ \<Rightarrow> False)"

definition final_ok :: "workflow_run \<Rightarrow> journal_facts \<Rightarrow> bool" where
  "final_ok s f \<longleftrightarrow> (case rs_final s of
       Fin_Loop _ \<Rightarrow> closing s
     | Fin_Result_Journal _ i \<Rightarrow> closing s \<and>
         (\<exists>c. map_of (rs_calls s) i = Some c \<and> cl_candidate c \<noteq> None)
     | Fin_Result_Store _ i \<Rightarrow> closing s \<and>
         (\<exists>c e. map_of (rs_calls s) i = Some c \<and> cl_candidate c = Some e \<and> has_result f i e)
     | Fin_Journal \<Rightarrow> rs_candidate s \<noteq> None
     | Fin_Store \<Rightarrow> rs_candidate s \<noteq> None \<and> jf_terminal f \<noteq> None
     | Fin_Deliver \<Rightarrow> rs_candidate s = Some (rs_store s) \<and> jf_terminal f \<noteq> None
     | Fin_Settled \<Rightarrow> rs_candidate s = Some (rs_store s) \<and> jf_terminal f \<noteq> None
     | _ \<Rightarrow> True)"

definition stage_ok :: "workflow_run \<Rightarrow> journal_facts \<Rightarrow> bool" where
  "stage_ok s f \<longleftrightarrow>
     (rs_final s \<noteq> Fin_None \<longrightarrow> rs_intent s \<noteq> None) \<and>
     (rs_candidate s = None \<longrightarrow> jf_terminal f = None) \<and>
     (\<forall>r. rs_candidate s = Some r \<longrightarrow> closing s \<and>
        (\<forall>i c. map_of (rs_calls s) i = Some c \<longrightarrow> cl_completed c) \<and>
        wr_agents r = wr_agents (rs_draft s) \<and>
        (jf_terminal f = None \<or> jf_terminal f = Some (normalize_terminal (terminal_of r)))) \<and>
     final_ok s f"

definition wf_ok :: "workflow_run \<Rightarrow> bool" where
  "wf_ok s \<longleftrightarrow> (\<exists>f. run_core s f \<and> stage_ok s f)"

lemma stage_open:
  "stage_ok s f \<Longrightarrow> \<not> closing s \<Longrightarrow>
   rs_candidate s = None \<and> jf_terminal f = None \<and> early (rs_final s) \<and>
   (rs_final s \<noteq> Fin_None \<longrightarrow> rs_intent s \<noteq> None)"
  by (cases "rs_candidate s"; cases "rs_final s")
    (auto simp: stage_ok_def final_ok_def early_def)

lemma stage_early:
  "rs_candidate t = None \<Longrightarrow> jf_terminal f = None \<Longrightarrow> early (rs_final t) \<Longrightarrow>
   (rs_final t \<noteq> Fin_None \<Longrightarrow> rs_intent t \<noteq> None) \<Longrightarrow> stage_ok t f"
  by (auto simp: stage_ok_def final_ok_def early_def split: final_pc.splits)

text \<open>What a step of an agent task or of the handler may do to the end of the run.\<close>

definition advances :: "workflow_run \<Rightarrow> workflow_run \<Rightarrow> bool" where
  "advances s t \<longleftrightarrow> rs_candidate t = rs_candidate s \<and>
     (rs_intent s \<noteq> None \<longrightarrow> rs_intent t \<noteq> None) \<and>
     (rs_final t = rs_final s \<or>
      rs_intent t \<noteq> None \<and> rs_final s = Fin_None \<and> rs_final t = Fin_Stop_Runner)"

lemma advancesI [simp]:
  "advances s s"
  "advances s t \<Longrightarrow> advances s (fail_run m t)"
  "advances s t \<Longrightarrow> advances s (finish_task i t)"
  "advances s t \<Longrightarrow> advances s (write_store t)"
  "advances s t \<Longrightarrow> advances s (set_call i g t)"
  "advances s t \<Longrightarrow> advances s (set_agent i h t)"
  "advances s t \<Longrightarrow> advances s (touch n t)"
  "advances s t \<Longrightarrow> advances s (send_message p t)"
  by (auto simp: advances_def)

lemma advances_pc [simp]: "advances s t \<Longrightarrow> advances s (set_pc i p t)"
  by (simp add: set_pc_def)

lemma advances_complete [simp]:
  "advances s t \<Longrightarrow> advances s (complete_begin i st r e now t)"
  "advances s t \<Longrightarrow> advances s (complete_task i st r e re now t)"
  by (auto simp: complete_begin_def complete_task_def Let_def split: option.splits)

lemma wf_ok_open:
  assumes "stage_ok s f" "\<not> closing s" "run_core t f'" "advances s t"
    "jf_terminal f' = jf_terminal f"
  shows "wf_ok t"
proof -
  from stage_open [OF assms(1,2)] assms(4,5)
  have "stage_ok t f'" by (intro stage_early) (auto simp: advances_def early_def)
  with assms(3) show ?thesis by (auto simp: wf_ok_def)
qed

lemma open_not_closing:
  "map_of (rs_calls s) i = Some c \<Longrightarrow> \<not> task_over c \<Longrightarrow> \<not> closing s"
  by (auto simp: closing_def)

lemma handling_not_closing: "rs_handling s \<noteq> None \<Longrightarrow> \<not> closing s"
  by (auto simp: closing_def)

subsection \<open>Every step of an agent task\<close>

lemma task_complete_ok:
  assumes "run_core s f" "stage_ok s f" "\<not> closing s"
    and "run_core t f" "advances s t" "map_of (rs_calls t) i = Some c" "stored t i" "r \<noteq> Undef"
  shows "wf_ok (complete_task i st r e re now t)"
  by (rule wf_ok_open [OF assms(2,3) complete_task_core [OF assms(4,6-8)]])
    (simp_all add: assms(5))

lemma slot_step_ok:
  assumes "wf_ok s" shows "wf_ok (slot_step i now s)"
proof -
  from assms obtain f where core: "run_core s f" and stage: "stage_ok s f"
    by (auto simp: wf_ok_def)
  show ?thesis
  proof (cases "\<exists>c r. map_of (rs_calls s) i = Some c \<and> cl_pc c = Pc_Acquire r")
    case False
    then have "slot_step i now s = s"
      by (auto simp: slot_step_def call_of_def split: option.splits call_pc.splits)
    with assms show ?thesis by simp
  next
    case True
    then obtain c r where c: "map_of (rs_calls s) i = Some c" and pc: "cl_pc c = Pc_Acquire r"
      by blast
    have nc: "\<not> closing s" using open_not_closing [OF c] pc by (simp add: task_over_def)
    have st: "stored s i" using pc_stored [OF core c] pc by simp
    have cand: "cl_candidate c = None"
      using run_coreD(5) [OF core c] pc by (simp add: call_ok_def pc_ok_def)
    let ?s1 = "set_call i (\<lambda>c. c\<lparr>cl_slot := Some r\<rparr>) s"
    have core1: "run_core ?s1 f"
      by (rule run_core_pc [OF core st, where g = "\<lambda>c. c\<lparr>cl_slot := Some r\<rparr>"])
        (use run_coreD(1) [OF core] pc c st cand in \<open>auto simp: pc_ok_def stored_def\<close>)
    have c1: "map_of (rs_calls ?s1) i = Some (c\<lparr>cl_slot := Some r\<rparr>)"
      using c by (simp add: map_of_upd_call)
    have st1: "stored ?s1 i" using st by (simp add: stored_def)
    consider "r \<in> set (sem_holding (rs_sem s))" "rs_intent s \<noteq> None"
      | "r \<in> set (sem_holding (rs_sem s))" "rs_intent s = None"
      | "r \<notin> set (sem_holding (rs_sem s))" "r \<in> set (sem_rejected (rs_sem s))"
      | "r \<notin> set (sem_holding (rs_sem s))" "r \<notin> set (sem_rejected (rs_sem s))" by blast
    then show ?thesis
    proof cases
      case 1
      then have "slot_step i now s = complete_task i St_Stopped Null None None now ?s1"
        using c pc by (simp add: slot_step_def call_of_def Let_def)
      then show ?thesis
        using task_complete_ok [OF core stage nc core1 _ c1 st1] by simp
    next
      case 2
      let ?h = "\<lambda>a. a\<lparr>wa_status := Ag_Running, wa_phase := (case ao_phase (cl_options c) of
          None \<Rightarrow> wr_phase (rs_draft ?s1) | Some p \<Rightarrow> Some p)\<rparr>"
      let ?t = "set_pc i Pc_Running_Write (touch now (set_agent i ?h ?s1))"
      have t: "slot_step i now s = ?t"
        using 2 c pc by (simp add: slot_step_def call_of_def Let_def)
      have "run_core ?t f"
      proof (rule run_core_move [OF core1, where i = i and h = ?h
            and g = "\<lambda>c. c\<lparr>cl_pc := Pc_Running_Write\<rparr>"])
        fix d assume "map_of (rs_calls ?s1) i = Some d"
        with c1 have d: "d = c\<lparr>cl_slot := Some r\<rparr>" by simp
        show "pc_ok ?t f i (d\<lparr>cl_pc := Pc_Running_Write\<rparr>) \<and>
            (stored ?t i \<or> cl_pc (d\<lparr>cl_pc := Pc_Running_Write\<rparr>) = Pc_Lost)"
          using st cand by (simp add: d pc_ok_def stored_def set_pc_def)
        fix a assume "reflects d a"
        show "reflects d (?h a)" using cand by (simp add: d reflects_def agent_active_def)
      qed (use run_coreD(1) [OF core] in \<open>simp_all add: set_pc_def\<close>)
      with t wf_ok_open [OF stage nc] show ?thesis by simp
    next
      case 3
      then have t: "slot_step i now s = task_failed i ''workflow terminal'' False now s"
        using c pc by (simp add: slot_step_def call_of_def)
      show ?thesis
        using task_complete_ok [OF core stage nc core _ c st] by (simp add: t task_failed_def Let_def)
    next
      case 4
      then have "slot_step i now s = s" using c pc by (simp add: slot_step_def call_of_def)
      with assms show ?thesis by simp
    qed
  qed
qed

text \<open>A step that needs its call at a given place, outside the two places where a task is over.\<close>

lemma at_pc:
  assumes "wf_ok s" "map_of (rs_calls s) i = Some c"
    and "cl_pc c \<notin> {Pc_Registering, Pc_Lost, Pc_Finished}"
  obtains f where "run_core s f" "stage_ok s f" "\<not> closing s" "stored s i" "call_ok s f i c"
proof -
  from assms(1) obtain f where f: "run_core s f" "stage_ok s f" by (auto simp: wf_ok_def)
  have "\<not> closing s" using open_not_closing [OF assms(2)] assms(3) by (auto simp: task_over_def)
  moreover have "stored s i" using pc_stored [OF f(1) assms(2)] assms(3) by auto
  ultimately show ?thesis using that f run_coreD(5) [OF f(1) assms(2)] by blast
qed

lemma fail_finish_ok:
  assumes "run_core s f" "stage_ok s f" "\<not> closing s" "stored s i"
  shows "wf_ok (finish_task i (fail_run m s))"
  by (rule wf_ok_open [OF assms(2,3) run_core_fail_finish [OF assms(1,4)]]) simp_all

lemma written_ok:
  assumes "run_core s f" "stage_ok s f" "\<not> closing s" "map_of (rs_calls s) i = Some c"
    and "cl_candidate c = None" "p \<in> {Pc_Materializing, Pc_Submitting}"
  shows "wf_ok (if rs_intent (write_store s) \<noteq> None
      then complete_task i St_Stopped Null None None now (write_store s)
      else set_pc i p (write_store s))"
proof (cases "rs_intent s")
  case None
  let ?s = "write_store s"
  have "run_core (set_pc i p ?s) f"
    by (rule run_core_pc [OF run_core_write [OF assms(1)] stored_write [OF assms(1,4)],
          where g = "\<lambda>c. c\<lparr>cl_pc := p\<rparr>"])
      (use run_coreD(1) [OF assms(1)] assms(4-6) stored_write [OF assms(1,4)] in
        \<open>auto simp: set_pc_def pc_ok_def stored_def\<close>)
  then have "wf_ok (set_pc i p ?s)" by (rule wf_ok_open [OF assms(2,3)]) simp_all
  with None show ?thesis by simp
next
  case (Some t)
  with task_complete_ok [OF assms(1-3) run_core_write [OF assms(1)] _ _
      stored_write [OF assms(1,4)], of c] assms(4)
  show ?thesis by simp
qed

lemma running_write_ok:
  assumes "wf_ok s" shows "wf_ok (running_write i w now s)"
proof (cases "\<exists>c. map_of (rs_calls s) i = Some c \<and> cl_pc c = Pc_Running_Write")
  case False
  then have "running_write i w now s = s"
    by (auto simp: running_write_def call_of_def split: option.splits)
  with assms show ?thesis by simp
next
  case True
  then obtain c where c: "map_of (rs_calls s) i = Some c" "cl_pc c = Pc_Running_Write" by blast
  from at_pc [OF assms c(1)] c(2) obtain f where f: "run_core s f" "stage_ok s f" "\<not> closing s"
    "stored s i" "call_ok s f i c" by auto
  show ?thesis
  proof (cases w)
    case None
    have "cl_candidate c = None" using f(5) c(2) by (simp add: call_ok_def pc_ok_def)
    with written_ok [OF f(1-3) c(1) this, of Pc_Materializing now] None c show ?thesis
      by (simp add: running_write_def call_of_def Let_def)
  next
    case (Some m)
    with fail_finish_ok [OF f(1-4)] c show ?thesis by (simp add: running_write_def call_of_def)
  qed
qed

lemma submit_store_ok:
  assumes "wf_ok s" shows "wf_ok (submit_store i w now s)"
proof (cases "\<exists>c. map_of (rs_calls s) i = Some c \<and> cl_pc c = Pc_Submit_Store")
  case False
  then have "submit_store i w now s = s"
    by (auto simp: submit_store_def call_of_def split: option.splits)
  with assms show ?thesis by simp
next
  case True
  then obtain c where c: "map_of (rs_calls s) i = Some c" "cl_pc c = Pc_Submit_Store" by blast
  from at_pc [OF assms c(1)] c(2) obtain f where f: "run_core s f" "stage_ok s f" "\<not> closing s"
    "stored s i" "call_ok s f i c" by auto
  show ?thesis
  proof (cases w)
    case None
    have "cl_candidate c = None" using f(5) c(2) by (simp add: call_ok_def pc_ok_def)
    with written_ok [OF f(1-3) c(1) this, of Pc_Submitting now] None c show ?thesis
      by (simp add: submit_store_def call_of_def Let_def)
  next
    case (Some m)
    with fail_finish_ok [OF f(1-4)] c show ?thesis by (simp add: submit_store_def call_of_def)
  qed
qed

lemma materialized_ok:
  assumes "wf_ok s" shows "wf_ok (materialized i r now s)"
proof (cases "\<exists>c. map_of (rs_calls s) i = Some c \<and> cl_pc c = Pc_Materializing")
  case False
  then have "materialized i r now s = s"
    by (auto simp: materialized_def call_of_def split: option.splits)
  with assms show ?thesis by simp
next
  case True
  then obtain c where c: "map_of (rs_calls s) i = Some c" "cl_pc c = Pc_Materializing" by blast
  from at_pc [OF assms c(1)] c(2) obtain f where f: "run_core s f" "stage_ok s f" "\<not> closing s"
    "stored s i" "call_ok s f i c" by auto
  have cand: "cl_candidate c = None" using f(5) c(2) by (simp add: call_ok_def pc_ok_def)
  show ?thesis
  proof (cases r)
    case (Inl p)
    then show ?thesis
      using task_complete_ok [OF f(1-3) f(1) _ c(1) f(4)] c
      by (cases p) (simp add: materialized_def call_of_def task_failed_def Let_def)
  next
    case (Inr name)
    let ?g = "\<lambda>c. c\<lparr>cl_handle := Some name, cl_pc := Pc_Submit_Journal now\<rparr>"
    let ?t = "set_call i ?g (touch now (set_agent i (\<lambda>a. a\<lparr>wa_name := Some name\<rparr>) s))"
    have "run_core ?t f"
    proof (rule run_core_move [OF f(1), where i = i and g = ?g and h = "\<lambda>a. a\<lparr>wa_name := Some name\<rparr>"])
      fix d assume "map_of (rs_calls s) i = Some d"
      with c have d: "d = c" by simp
      show "pc_ok ?t f i (?g d) \<and> (stored ?t i \<or> cl_pc (?g d) = Pc_Lost)"
        using f(4) cand by (simp add: d pc_ok_def stored_def)
      fix a assume "reflects d a"
      then show "reflects d (a\<lparr>wa_name := Some name\<rparr>)"
        using cand by (simp add: d reflects_def agent_active_def)
    qed (use run_coreD(1) [OF f(1)] in simp_all)
    then have "wf_ok ?t" by (rule wf_ok_open [OF f(2,3)]) simp_all
    with Inr c show ?thesis by (simp add: materialized_def call_of_def)
  qed
qed

lemma submit_journal_ok:
  assumes "wf_ok s" shows "wf_ok (submit_journal i w s)"
proof (cases "\<exists>c t. map_of (rs_calls s) i = Some c \<and> cl_pc c = Pc_Submit_Journal t")
  case False
  then have "submit_journal i w s = s"
    by (auto simp: submit_journal_def call_of_def split: option.splits call_pc.splits)
  with assms show ?thesis by simp
next
  case True
  then obtain c t where c: "map_of (rs_calls s) i = Some c" "cl_pc c = Pc_Submit_Journal t" by blast
  from at_pc [OF assms c(1)] c(2) obtain f where f: "run_core s f" "stage_ok s f" "\<not> closing s"
    "stored s i" "call_ok s f i c" by auto
  have cand: "cl_candidate c = None" using f(5) c(2) by (simp add: call_ok_def pc_ok_def)
  show ?thesis
  proof (cases w)
    case None
    let ?j = "append_row (Ev_Submit i (the (cl_handle c)) t) (rs_journal s)"
    let ?t = "set_pc i Pc_Submit_Store (s\<lparr>rs_journal := ?j\<rparr>)"
    have "reads ?j f" by (rule reads_append_plain [OF run_coreD(1) [OF f(1)]]) simp
    then have "run_core ?t f"
      by (intro run_core_pc [OF f(1,4), where g = "\<lambda>c. c\<lparr>cl_pc := Pc_Submit_Store\<rparr>"])
        (use c f(4) cand in \<open>auto simp: set_pc_def pc_ok_def stored_def\<close>)
    then have "wf_ok ?t"
      by (rule wf_ok_open [OF f(2,3)]) (simp_all add: set_pc_def, simp add: advances_def)
    with None c show ?thesis by (simp add: submit_journal_def call_of_def journal_append_def)
  next
    case (Some m)
    have "s\<lparr>rs_journal := rs_journal s\<rparr> = s" by simp
    with fail_finish_ok [OF f(1-4)] c Some show ?thesis
      by (simp add: submit_journal_def call_of_def journal_append_def)
  qed
qed

lemma admission_step_ok:
  assumes "wf_ok s" shows "wf_ok (admission_step i adm now s)"
proof (cases "\<exists>c. map_of (rs_calls s) i = Some c \<and> cl_pc c = Pc_Submitting")
  case False
  then have "admission_step i adm now s = s"
    by (auto simp: admission_step_def call_of_def split: option.splits)
  with assms show ?thesis by simp
next
  case True
  then obtain c where c: "map_of (rs_calls s) i = Some c" "cl_pc c = Pc_Submitting" by blast
  from at_pc [OF assms c(1)] c(2) obtain f where f: "run_core s f" "stage_ok s f" "\<not> closing s"
    "stored s i" "call_ok s f i c" by auto
  have cand: "cl_candidate c = None" using f(5) c(2) by (simp add: call_ok_def pc_ok_def)
  have "run_core (set_pc i Pc_Turn s) f"
    by (rule run_core_pc [OF f(1,4), where g = "\<lambda>c. c\<lparr>cl_pc := Pc_Turn\<rparr>"])
      (use run_coreD(1) [OF f(1)] c f(4) cand in \<open>auto simp: set_pc_def pc_ok_def stored_def\<close>)
  then have "wf_ok (set_pc i Pc_Turn s)" by (rule wf_ok_open [OF f(2,3)]) simp_all
  with task_complete_ok [OF f(1-3) f(1) _ c(1) f(4)] c show ?thesis
    by (cases adm) (simp_all add: admission_step_def call_of_def)
qed

text \<open>\<^verbatim>\<open>JSON.parse\<close> never yields \<open>undefined\<close>.\<close>

definition json_parse_ok :: "(string \<Rightarrow> js option) \<Rightarrow> bool" where
  "json_parse_ok jp \<longleftrightarrow> (\<forall>t. jp t \<noteq> Some Undef)"

lemma turn_value_defined: "json_parse_ok jp \<Longrightarrow> fst (turn_value jp b t) \<noteq> Undef"
  by (auto simp: turn_value_def text_value_def json_parse_ok_def split: option.splits)

lemma outcome_step_ok:
  assumes "wf_ok s" "json_parse_ok jp" shows "wf_ok (outcome_step jp i out now s)"
proof (cases "\<exists>c. map_of (rs_calls s) i = Some c \<and> cl_pc c = Pc_Turn")
  case False
  then have "outcome_step jp i out now s = s"
    by (auto simp: outcome_step_def call_of_def split: option.splits)
  with assms show ?thesis by simp
next
  case True
  then obtain c where c: "map_of (rs_calls s) i = Some c" "cl_pc c = Pc_Turn" by blast
  from at_pc [OF assms(1) c(1)] c(2) obtain f where f: "run_core s f" "stage_ok s f" "\<not> closing s"
    "stored s i" "call_ok s f i c" by auto
  show ?thesis
  proof (cases out)
    case (Out_Completed ot)
    obtain v e where v: "turn_value jp (ao_schema (cl_options c) \<noteq> None) ot = (v, e)"
      by fastforce
    with turn_value_defined [OF assms(2), of "ao_schema (cl_options c) \<noteq> None" ot]
    have "v \<noteq> Undef" by simp
    with task_complete_ok [OF f(1-3) f(1) _ c(1) f(4)] c v Out_Completed show ?thesis
      by (simp add: outcome_step_def call_of_def)
  qed (use task_complete_ok [OF f(1-3) f(1) _ c(1) f(4)] c in
      \<open>simp_all add: outcome_step_def call_of_def\<close>)
qed

lemma result_journal_ok:
  assumes "wf_ok s" shows "wf_ok (result_journal i w s)"
proof (cases "\<exists>c re. map_of (rs_calls s) i = Some c \<and> cl_pc c = Pc_Result_Journal re")
  case False
  then have "result_journal i w s = s"
    by (auto simp: result_journal_def call_of_def split: option.splits call_pc.splits)
  with assms show ?thesis by simp
next
  case True
  then obtain c re where c: "map_of (rs_calls s) i = Some c" "cl_pc c = Pc_Result_Journal re" by blast
  from at_pc [OF assms c(1)] c(2) obtain f where f: "run_core s f" "stage_ok s f" "\<not> closing s"
    "stored s i" "call_ok s f i c" by auto
  from f(5) c(2) obtain e where e: "cl_candidate c = Some e"
    by (auto simp: call_ok_def pc_ok_def)
  obtain r t where w: "write_result i w s = (r, t)" by fastforce
  from write_result_core [OF f(1) c(1) e _ w] f(4) obtain f' where
    f': "run_core t f'" "jf_terminal f' = jf_terminal f" "r = None \<longrightarrow> has_result f' i e" and
    t: "rs_calls t = rs_calls s" "rs_draft t = rs_draft s" "rs_store t = rs_store s"
      "rs_handling t = rs_handling s" "rs_intent t = rs_intent s" "rs_final t = rs_final s"
      "rs_candidate t = rs_candidate s" by blast
  have adv: "advances s t" using t by (simp add: advances_def)
  have st: "stored t i" using f(4) t by (simp add: stored_def)
  show ?thesis
  proof (cases r)
    case None
    have "run_core (set_pc i (Pc_Result_Store re) t) f'"
      by (rule run_core_pc [OF f'(1) st, where g = "\<lambda>c. c\<lparr>cl_pc := Pc_Result_Store re\<rparr>"])
        (use run_coreD(1) [OF f'(1)] f'(3) None c e st t in
          \<open>auto simp: set_pc_def pc_ok_def stored_def\<close>)
    then have "wf_ok (set_pc i (Pc_Result_Store re) t)"
      by (rule wf_ok_open [OF f(2,3)]) (simp_all add: adv f'(2))
    with None w c show ?thesis by (simp add: result_journal_def call_of_def)
  next
    case (Some m)
    have "wf_ok (finish_task i (fail_run m t))"
      by (rule wf_ok_open [OF f(2,3) run_core_fail_finish [OF f'(1) st]]) (simp_all add: adv f'(2))
    with Some w c show ?thesis by (simp add: result_journal_def call_of_def)
  qed
qed

lemma call_ok_moves:
  assumes "call_ok s f i c" "cl_candidate d = cl_candidate c"
    and "cl_completed d \<Longrightarrow> cl_completed c \<or> (\<exists>e. cl_candidate c = Some e \<and> has_result f i e)"
    and "pc_ok t f i d" "stored t i \<or> cl_pc d = Pc_Lost"
  shows "call_ok t f i d"
  using assms(1,3-5) unfolding call_ok_def assms(2) by blast

lemma run_core_completed:
  assumes core: "run_core s f" and c: "map_of (rs_calls s) i = Some c"
    and e: "cl_candidate c = Some e" "has_result f i e"
  shows "run_core (set_call i (\<lambda>c. c\<lparr>cl_completed := True\<rparr>) (write_store s)) f"
proof -
  let ?g = "\<lambda>c. c\<lparr>cl_completed := True\<rparr>"
  let ?t = "set_call i ?g (write_store s)"
  note core1 = run_core_write [OF core]
  show ?thesis
  proof (rule run_core_update [OF core1, where i = i and g = ?g and h = "\<lambda>a. a"])
    fix d assume "map_of (rs_calls (write_store s)) i = Some d"
    with c have d: "d = c" by simp
    from run_coreD(5) [OF core1, of i c] c
    have ok: "call_ok (write_store s) f i c" by simp
    have "pc_ok ?t f i (?g c) = pc_ok (write_store s) f i c"
      by (simp add: pc_ok_def stored_def cong: call_pc.case_cong)
    with ok have pc: "pc_ok ?t f i (?g c)" unfolding call_ok_def by blast
    have st: "stored ?t i" using stored_write [OF core c] by (simp add: stored_def)
    have "call_ok ?t f i (?g c)"
      by (rule call_ok_moves [OF ok _ _ pc disjI1 [OF st]]) (simp, use e in blast)
    then show "call_ok ?t f i (?g d) \<and> later d (?g d)" by (simp add: d later_def)
  qed (use run_coreD(1) [OF core] c in \<open>auto simp: reflects_def\<close>)
qed

lemma result_store_ok:
  assumes "wf_ok s" shows "wf_ok (result_store i w s)"
proof (cases "\<exists>c re. map_of (rs_calls s) i = Some c \<and> cl_pc c = Pc_Result_Store re")
  case False
  then have "result_store i w s = s"
    by (auto simp: result_store_def call_of_def split: option.splits call_pc.splits)
  with assms show ?thesis by simp
next
  case True
  then obtain c re where c: "map_of (rs_calls s) i = Some c" "cl_pc c = Pc_Result_Store re" by blast
  from at_pc [OF assms c(1)] c(2) obtain f where f: "run_core s f" "stage_ok s f" "\<not> closing s"
    "stored s i" "call_ok s f i c" by auto
  from f(5) c(2) obtain e where e: "cl_candidate c = Some e" "has_result f i e"
    by (auto simp: call_ok_def pc_ok_def)
  let ?t = "set_call i (\<lambda>c. c\<lparr>cl_completed := True\<rparr>) (write_store s)"
  have core: "run_core ?t f" by (rule run_core_completed [OF f(1) c(1) e])
  have st: "stored ?t i" using stored_write [OF f(1) c(1)] by (simp add: stored_def)
  have "wf_ok (finish_task i ?t)"
    by (rule wf_ok_open [OF f(2,3) run_core_finish [OF core st]]) simp_all
  moreover have "run_core (set_pc i (Pc_Result_Send re) ?t) f"
    by (rule run_core_pc [OF core st, where g = "\<lambda>c. c\<lparr>cl_pc := Pc_Result_Send re\<rparr>"])
      (use run_coreD(1) [OF f(1)] st in \<open>auto simp: set_pc_def pc_ok_def stored_def\<close>)
  then have "wf_ok (set_pc i (Pc_Result_Send re) ?t)"
    by (rule wf_ok_open [OF f(2,3)]) simp_all
  ultimately show ?thesis
    using fail_finish_ok [OF f(1-4)] c
    by (cases w) (simp_all add: result_store_def call_of_def Let_def)
qed

lemma result_send_ok:
  assumes "wf_ok s" shows "wf_ok (result_send i w s)"
proof (cases "\<exists>c re. map_of (rs_calls s) i = Some c \<and> cl_pc c = Pc_Result_Send re")
  case False
  then have "result_send i w s = s"
    by (auto simp: result_send_def call_of_def split: option.splits call_pc.splits)
  with assms show ?thesis by simp
next
  case True
  then obtain c re where c: "map_of (rs_calls s) i = Some c" "cl_pc c = Pc_Result_Send re" by blast
  from at_pc [OF assms c(1)] c(2) obtain f where f: "run_core s f" "stage_ok s f" "\<not> closing s"
    "stored s i" "call_ok s f i c" by auto
  have "wf_ok (finish_task i (send_message m s))" for m
    by (rule wf_ok_open [OF f(2,3) run_core_finish])
      (use f(1,4) in \<open>simp_all add: run_core_quiet stored_def\<close>)
  moreover have "wf_ok (finish_task i s)"
    by (rule wf_ok_open [OF f(2,3) run_core_finish [OF f(1,4)]]) simp_all
  ultimately show ?thesis
    using c by (cases w) (simp_all add: result_send_def call_of_def)
qed

subsection \<open>Messages and intents\<close>

lemma closing_cong:
  "rs_intent t \<noteq> None \<Longrightarrow> rs_handling t = rs_handling s \<Longrightarrow> set (rs_tail t) \<subseteq> set (rs_tail s) \<Longrightarrow>
   rs_calls t = rs_calls s \<Longrightarrow> closing s \<Longrightarrow> closing t"
  by (auto simp: closing_def)

text \<open>Steps that touch neither calls nor durable state and only drop waiting messages.\<close>

lemma wf_ok_quiet:
  assumes "wf_ok s"
    and "rs_calls t = rs_calls s" "wr_agents (rs_draft t) = wr_agents (rs_draft s)"
    and "rs_store t = rs_store s" "rs_journal t = rs_journal s" "rs_handling t = rs_handling s"
    and "rs_candidate t = rs_candidate s"
    and "rs_intent s \<noteq> None \<Longrightarrow> rs_intent t \<noteq> None"
    and "rs_final t = rs_final s \<or>
      rs_intent t \<noteq> None \<and> rs_final s = Fin_None \<and> rs_final t = Fin_Stop_Runner"
    and "set (rs_tail t) \<subseteq> set (rs_tail s) \<or> \<not> closing s"
  shows "wf_ok t"
proof -
  from assms(1) obtain f where core: "run_core s f" and stage: "stage_ok s f"
    by (auto simp: wf_ok_def)
  have core': "run_core t f" by (rule run_core_quiet [OF core assms(2-6)])
  have "advances s t" using assms(7-9) by (simp add: advances_def)
  show ?thesis
  proof (cases "closing s")
    case False
    from wf_ok_open [OF stage False core' \<open>advances s t\<close>] show ?thesis by simp
  next
    case True
    then have i: "rs_intent s \<noteq> None" by (simp add: closing_def)
    with assms(8) have "rs_intent t \<noteq> None" by simp
    then have cl: "closing t"
      using closing_cong [of t s] True assms(2,6,10) by simp
    have "final_ok t f"
    proof (cases "rs_final t = rs_final s")
      case True
      have "final_ok s f" using stage by (simp add: stage_ok_def)
      with cl True assms(2,4,7) show ?thesis
        unfolding final_ok_def True by (simp split: final_pc.splits)
    next
      case False
      with assms(9) show ?thesis by (simp add: final_ok_def)
    qed
    with stage cl assms(2,3,7) \<open>rs_intent t \<noteq> None\<close> have "stage_ok t f"
      unfolding stage_ok_def by simp
    with core' show ?thesis by (auto simp: wf_ok_def)
  qed
qed

lemma receive_ok: "wf_ok s \<Longrightarrow> wf_ok (receive_message m s)"
  by (cases m) (auto simp: receive_message_def closing_def elim!: wf_ok_quiet)

lemma request_intent [simp]: "rs_intent (request_terminal st r e s) \<noteq> None"
  by simp

lemma intents_ok:
  assumes "wf_ok s"
  shows "wf_ok (reserve_stop s)" "wf_ok (stop_run s)" "wf_ok (runner_exited m s)"
    "wf_ok (runner_error m s)" "wf_ok (request_terminal st r e s)" "wf_ok (fail_run m s)"
proof -
  show "wf_ok (reserve_stop s)" by (rule wf_ok_quiet [OF assms]; simp)
  show "wf_ok (stop_run s)" unfolding stop_run_def by (rule wf_ok_quiet [OF assms]; simp)
  show rt: "wf_ok (request_terminal st r e s)" for st r e
    by (rule wf_ok_quiet [OF assms]; simp)
  then show f: "wf_ok (fail_run m s)" for m unfolding fail_run_def .
  show "wf_ok (runner_exited m s)" "wf_ok (runner_error m s)"
    using assms f by (simp_all add: runner_exited_def runner_error_def)
qed

lemma drop_head_ok: "wf_ok s \<Longrightarrow> rs_tail s = m # ms \<Longrightarrow> wf_ok (s\<lparr>rs_tail := ms\<rparr>)"
  by (rule wf_ok_quiet [of s]) auto

lemma send_error_ok: "wf_ok s \<Longrightarrow> wf_ok (send_agent_error i e send s)"
  by (cases send) (auto simp: send_agent_error_def intents_ok intro: wf_ok_quiet [of s])

lemma map_of_append_new:
  "map_of cs i = None \<Longrightarrow> map_of (cs @ [(i, c)]) k = (if k = i then Some c else map_of cs k)"
  by (auto simp: map_add_def split: option.splits)

lemma run_core_add:
  assumes core: "run_core s f" and new: "map_of (rs_calls s) i = None"
    and hand: "rs_handling s = None" "rs_handling t = Some (M_Agent_Start i prompt ob, now)"
    and calls: "rs_calls t = rs_calls s @ [(i, new_call opts)]"
    and agents: "wr_agents (rs_draft t) = wr_agents (rs_draft s) @ [new_agent i opts ph now]"
    and same: "rs_store t = rs_store s" "rs_journal t = rs_journal s"
  shows "run_core t f"
proof -
  note c = run_coreD [OF core]
  note mo = map_of_append_new [OF new, of "new_call opts", folded calls]
  have no: "\<not> has_result f i e" for e using c(6) [of i e] new by auto
  have st: "stored t k = stored s k" for k by (simp add: stored_def same)
  have "call_ok t f k d" if "map_of (rs_calls t) k = Some d" for k d
  proof (cases "k = i")
    case True
    with that mo have "d = new_call opts" by simp
    with True no hand(2) show ?thesis
      by (simp add: call_ok_def new_call_def pc_ok_def)
  next
    case False
    with that mo have d: "map_of (rs_calls s) k = Some d" by simp
    have ok: "call_ok s f k d" by (rule c(5) [OF d])
    then have pk: "pc_ok s f k d" unfolding call_ok_def by blast
    with hand(1) have "pc_ok t f k d"
      by (cases "cl_pc d") (auto simp: pc_ok_def st)
    with ok show ?thesis unfolding call_ok_def st by blast
  qed
  moreover have "reflects d a" if "a \<in> set (wr_agents (rs_draft t))"
    "map_of (rs_calls t) (wa_index a) = Some d" for a d
  proof -
    from that(1) consider "a \<in> set (wr_agents (rs_draft s))" | "a = new_agent i opts ph now"
      by (auto simp: agents)
    then show ?thesis
    proof cases
      case 1
      then have "wa_index a \<in> set (map fst (rs_calls s))" unfolding c(2) [symmetric] by simp
      with new have "wa_index a \<noteq> i" by (auto simp: map_of_eq_None_iff)
      with that(2) mo have "map_of (rs_calls s) (wa_index a) = Some d" by simp
      from c(4) [OF 1 this] show ?thesis .
    next
      case 2
      with that(2) mo have "d = new_call opts" by (simp add: new_agent_def)
      with 2 show ?thesis by (simp add: reflects_def new_call_def new_agent_def agent_active_def)
    qed
  qed
  moreover have "map wa_index (wr_agents (rs_draft t)) = map fst (rs_calls t)"
    using c(2) by (simp add: agents calls new_agent_def)
  moreover have "distinct (map fst (rs_calls t))"
    using c(3) new by (simp add: calls map_of_eq_None_iff)
  moreover have "stored_ok (rs_calls t) (wr_agents (rs_store t))"
    using c(7) new unfolding stored_ok_def same mo by force
  moreover have "map_of (rs_calls t) k \<noteq> None" if "has_result f k e" for k e
    using c(6) [OF that] mo by auto
  ultimately show ?thesis using c(1) unfolding run_core_def same by blast
qed

lemma handle_start_ok:
  assumes "wf_ok s" "rs_handling s = None"
  shows "wf_ok (handle_agent_start i prompt ob now send s)"
proof -
  note err = send_error_ok [OF assms(1)]
  have "wf_ok t" if "rs_intent s = None" "call_of s i = None"
    "t = s\<lparr>rs_calls := rs_calls s @ [(i, new_call opts)],
        rs_draft := (rs_draft s)\<lparr>wr_agents := wr_agents (rs_draft s) @
            [new_agent i opts (wr_phase (rs_draft s)) now], wr_updated := now\<rparr>,
        rs_handling := Some (M_Agent_Start i prompt ob, now)\<rparr>" for t opts
  proof -
    from assms(1) obtain f where f: "run_core s f" "stage_ok s f" by (auto simp: wf_ok_def)
    have "run_core t f"
      by (rule run_core_add [OF f(1) _ assms(2)]) (use that(2) in \<open>simp_all add: that(3) call_of_def\<close>)
    moreover have "\<not> closing s" using that(1) by (simp add: closing_def)
    ultimately show ?thesis
      using wf_ok_open [OF f(2)] by (simp add: that(3) advances_def)
  qed
  then show ?thesis
    using err by (auto simp: handle_agent_start_def split: sum.splits)
qed

lemma run_core_publish:
  assumes core: "run_core s f"
    and no: "\<And>i c. map_of (rs_calls s) i = Some c \<Longrightarrow> cl_pc c \<noteq> Pc_Registering"
    and calls: "rs_calls u = rs_calls s" "wr_agents (rs_draft u) = wr_agents (rs_draft s)"
    and store: "wr_agents (rs_store u) = wr_agents (rs_store s) \<or>
      wr_agents (rs_store u) = wr_agents (rs_draft u)"
    and jrnl: "reads (rs_journal u) f"
  shows "run_core u f"
proof (rule run_core_move [OF core, where i = 0 and g = "\<lambda>c. c" and h = "\<lambda>a. a"])
  fix c assume c0: "map_of (rs_calls s) 0 = Some c"
  have keep: "stored s 0 \<Longrightarrow> stored u 0"
    using stored_keep [OF core, of u 0] calls store run_coreD(2) [OF core] by simp
  from run_coreD(5) [OF core c0] have ok: "pc_ok s f 0 c" unfolding call_ok_def by blast
  with no [OF c0] keep show "pc_ok u f 0 c \<and> (stored u 0 \<or> cl_pc c = Pc_Lost)"
    by (cases "cl_pc c") (simp_all add: pc_ok_def)
qed (use calls store jrnl no in auto)

lemma no_registering:
  assumes "run_core s f" "\<forall>i p ob t. rs_handling s \<noteq> Some (M_Agent_Start i p ob, t)"
    and "map_of (rs_calls s) i = Some c"
  shows "cl_pc c \<noteq> Pc_Registering"
proof
  assume r: "cl_pc c = Pc_Registering"
  from run_coreD(5) [OF assms(1,3)] have "pc_ok s f i c" unfolding call_ok_def by blast
  with r assms(2) show False by (simp add: pc_ok_def)
qed

lemma handle_emit_ok: "wf_ok s \<Longrightarrow> rs_handling s = None \<Longrightarrow> wf_ok (handle_emit k m now s)"
proof -
  assume ok: "wf_ok s" and h: "rs_handling s = None"
  show ?thesis
  proof (cases "rs_intent s")
    case None
    from ok obtain f where f: "run_core s f" "stage_ok s f" by (auto simp: wf_ok_def)
    let ?t = "handle_emit k m now s"
    have t: "rs_calls ?t = rs_calls s" "wr_agents (rs_draft ?t) = wr_agents (rs_draft s)"
      "rs_store ?t = rs_store s" "rs_journal ?t = rs_journal s" "rs_handling ?t = Some (M_Emit k m, now)"
      "rs_candidate ?t = rs_candidate s" "rs_intent ?t = rs_intent s" "rs_final ?t = rs_final s"
      using None by (simp_all add: handle_emit_def split: emit_kind.splits)
    have "run_core ?t f"
      by (rule run_core_publish [OF f(1)])
        (use no_registering [OF f(1)] h run_coreD(1) [OF f(1)] in \<open>simp_all add: t\<close>)
    moreover have "\<not> closing s" using None by (simp add: closing_def)
    ultimately show ?thesis using wf_ok_open [OF f(2)] by (simp add: advances_def t)
  qed (use ok in \<open>simp add: handle_emit_def\<close>)
qed

lemma handle_message_ok:
  assumes "wf_ok s" shows "wf_ok (handle_message now send s)"
proof (cases "rs_handling s = None \<and> rs_tail s \<noteq> []")
  case False
  with assms show ?thesis by (auto simp: handle_message_def split: list.splits)
next
  case True
  then obtain m ms where m: "rs_tail s = m # ms" by (cases "rs_tail s") auto
  have ok: "wf_ok (s\<lparr>rs_tail := ms\<rparr>)" by (rule drop_head_ok [OF assms m])
  have h: "rs_handling (s\<lparr>rs_tail := ms\<rparr>) = None" using True by simp
  show ?thesis
    using handle_start_ok [OF ok h] handle_emit_ok [OF ok h] intents_ok [OF ok] ok True m
    by (cases m) (simp_all add: handle_message_def Let_def)
qed

text \<open>The handler in progress registers exactly the call it names.\<close>

definition hand_ok :: "workflow_run \<Rightarrow> bool" where
  "hand_ok s \<longleftrightarrow> (\<forall>i p ob t. rs_handling s = Some (M_Agent_Start i p ob, t) \<longrightarrow>
     (\<exists>c. map_of (rs_calls s) i = Some c \<and> cl_pc c = Pc_Registering))"

lemma handler_write_ok:
  assumes "wf_ok s" "hand_ok s" shows "wf_ok (handler_write jw sw s)"
proof (cases "rs_handling s")
  case None
  with assms show ?thesis by (simp add: handler_write_def)
next
  case (Some mt)
  obtain m t where mt: "mt = (m, t)" by fastforce
  from assms(1) obtain f where f: "run_core s f" "stage_ok s f" by (auto simp: wf_ok_def)
  have nc: "\<not> closing s" by (rule handling_not_closing) (simp add: Some)
  have others: "k \<noteq> i \<longrightarrow> map_of (rs_calls s) k = Some d \<longrightarrow> cl_pc d \<noteq> Pc_Registering"
    if "m = M_Agent_Start i p ob" for i p ob k d
  proof (intro impI notI)
    assume k: "k \<noteq> i" "map_of (rs_calls s) k = Some d" "cl_pc d = Pc_Registering"
    from run_coreD(5) [OF f(1) k(2)] have "pc_ok s f k d" unfolding call_ok_def by blast
    with k(1,3) Some mt that show False by (simp add: pc_ok_def)
  qed
  show ?thesis
  proof (cases m)
    case (M_Agent_Start i p ob)
    from assms(2) Some mt M_Agent_Start obtain c where
      c: "map_of (rs_calls s) i = Some c" "cl_pc c = Pc_Registering"
      unfolding hand_ok_def by blast
    from run_coreD(5) [OF f(1) c(1)] have "pc_ok s f i c" unfolding call_ok_def by blast
    with c(2) have cand: "cl_candidate c = None" by (simp add: pc_ok_def)
    let ?s1 = "s\<lparr>rs_handling := None\<rparr>"
    show ?thesis
    proof (cases sw)
      case None
      obtain r sem where a: "sem_acquire (wr_max (rs_draft s)) (rs_sem s) = (r, sem)" by fastforce
      let ?t = "set_pc i (Pc_Acquire r) (write_store ?s1\<lparr>rs_sem := sem\<rparr>)"
      have st: "stored ?t i" using stored_write [OF f(1) c(1)] by (simp add: stored_def set_pc_def)
      have "run_core ?t f"
        by (rule run_core_move [OF f(1), where i = i and g = "\<lambda>c. c\<lparr>cl_pc := Pc_Acquire r\<rparr>"
              and h = "\<lambda>a. a"])
          (use run_coreD(1) [OF f(1)] c cand st others [OF M_Agent_Start] in
            \<open>auto simp: set_pc_def pc_ok_def\<close>)
      then have "wf_ok ?t" by (rule wf_ok_open [OF f(2) nc]) (simp_all add: advances_def set_pc_def)
      with Some mt M_Agent_Start None a show ?thesis
        by (simp add: handler_write_def launch_agent_def Let_def)
    next
      case (Some e)
      let ?t = "fail_run e (set_pc i Pc_Lost ?s1)"
      have "run_core ?t f"
        by (rule run_core_move [OF f(1), where i = i and g = "\<lambda>c. c\<lparr>cl_pc := Pc_Lost\<rparr>"
              and h = "\<lambda>a. a"])
          (use run_coreD(1) [OF f(1)] others [OF M_Agent_Start] in
            \<open>auto simp: set_pc_def pc_ok_def\<close>)
      then have "wf_ok ?t" by (rule wf_ok_open [OF f(2) nc]) (simp_all add: advances_def set_pc_def)
      with \<open>rs_handling s = Some mt\<close> mt M_Agent_Start Some show ?thesis
        by (simp add: handler_write_def Let_def)
    qed
  next
    case (M_Emit k msg)
    let ?ev = "case k of Emit_Phase \<Rightarrow> Ev_Phase msg t | Emit_Log \<Rightarrow> Ev_Log msg t"
    have pe: "plain_event ?ev" by (cases k) simp_all
    have no: "cl_pc d \<noteq> Pc_Registering" if "map_of (rs_calls s) i = Some d" for i d
      by (rule no_registering [OF f(1) _ that]) (simp add: Some mt M_Emit)
    note core = run_core_publish [OF f(1) no]
    have "wf_ok u" if "run_core u f" "advances s u" for u
      by (rule wf_ok_open [OF f(2) nc that]) simp
    note fin = this [OF core]
    have "reads (append_row ?ev (rs_journal s)) f"
      by (rule reads_append_plain [OF run_coreD(1) [OF f(1)] pe])
    with Some mt M_Emit run_coreD(1) [OF f(1)] show ?thesis
      by (cases jw; cases sw)
        (auto simp: handler_write_def Let_def journal_append_def advances_def intro!: fin)
  qed (use Some mt assms(1) in \<open>simp_all add: handler_write_def\<close>)
qed

subsection \<open>The finaliser\<close>

lemma closing_final [simp]: "closing (s\<lparr>rs_final := p\<rparr>) = closing s"
  by (simp add: closing_def)

lemma wf_ok_final:
  assumes "run_core s f" "stage_ok s f" "p \<noteq> Fin_None \<Longrightarrow> rs_intent s \<noteq> None"
    and "final_ok (s\<lparr>rs_final := p\<rparr>) f"
  shows "wf_ok (s\<lparr>rs_final := p\<rparr>)"
proof -
  have "run_core (s\<lparr>rs_final := p\<rparr>) f" by (rule run_core_quiet [OF assms(1)]) simp_all
  moreover have "stage_ok (s\<lparr>rs_final := p\<rparr>) f"
    using assms(2-4) unfolding stage_ok_def by simp
  ultimately show ?thesis by (auto simp: wf_ok_def)
qed

lemma stage_intent: "stage_ok s f \<Longrightarrow> rs_final s \<noteq> Fin_None \<Longrightarrow> rs_intent s \<noteq> None"
  by (simp add: stage_ok_def)

lemma final_none [simp]: "final_ok (s\<lparr>rs_final := Fin_None\<rparr>) f"
  by (simp add: final_ok_def)

lemma fin_early_ok:
  assumes "wf_ok s"
  shows "wf_ok (fin_stop_runner b s)" "wf_ok (fin_close b s)" "wf_ok (fin_drain s)"
proof -
  from assms obtain f where f: "run_core s f" "stage_ok s f" by (auto simp: wf_ok_def)
  note go = wf_ok_final [OF f]
  note i = stage_intent [OF f(2)]
  show "wf_ok (fin_stop_runner b s)"
    using assms i by (auto simp: fin_stop_runner_def final_ok_def intro!: go)
  show "wf_ok (fin_close b s)"
    using assms i by (auto simp: fin_close_def final_ok_def split: final_pc.splits intro!: go)
  show "wf_ok (fin_drain s)"
  proof (cases "\<exists>r. rs_final s = Fin_Drain r \<and> rs_handling s = None \<and>
      (\<forall>m \<in> set (rs_tail s). is_run_result m) \<and> (\<forall>(i, c) \<in> set (rs_calls s). task_over c)")
    case True
    then obtain r where r: "rs_final s = Fin_Drain r" "rs_handling s = None"
      "\<forall>m \<in> set (rs_tail s). is_run_result m" "\<forall>(i, c) \<in> set (rs_calls s). task_over c" by blast
    with i have "closing s" by (auto simp: closing_def dest!: map_of_SomeD)
    with go [of "Fin_Loop r"] r i show ?thesis by (simp add: fin_drain_def final_ok_def)
  next
    case False
    then have "fin_drain s = s" by (auto simp: fin_drain_def split: final_pc.splits)
    with assms show ?thesis by simp
  qed
qed

lemma find_call:
  assumes "run_core s f" "find (\<lambda>(i, c). p c) (rs_calls s) = Some (i, c)"
  shows "map_of (rs_calls s) i = Some c" "p c"
  using find_Some_in [OF assms(2)] run_coreD(3) [OF assms(1)] by simp_all

lemma closing_complete: "closing (complete_begin i st r e now s) = closing s"
  by (auto simp: complete_begin_def closing_def map_of_upd_call Let_def call_of_def task_over_def
      split: option.splits)

lemma fin_next_ok:
  assumes "wf_ok s" shows "wf_ok (fin_next now s)"
proof (cases "\<exists>r. rs_final s = Fin_Loop r")
  case False
  then have "fin_next now s = s" by (auto simp: fin_next_def split: final_pc.splits)
  with assms show ?thesis by simp
next
  case True
  then obtain ro where ro: "rs_final s = Fin_Loop ro" by blast
  from assms obtain f where f: "run_core s f" "stage_ok s f" by (auto simp: wf_ok_def)
  have cl: "closing s" using f(2) ro by (simp add: stage_ok_def final_ok_def)
  have i: "rs_intent s \<noteq> None" using cl by (simp add: closing_def)
  show ?thesis
  proof (cases "find (\<lambda>(i, c). \<not> cl_completed c) (rs_calls s)")
    case (Some ic)
    obtain k c where ic: "ic = (k, c)" by fastforce
    note kc = find_call [OF f(1) Some [unfolded ic]]
    let ?t = "complete_begin k St_Stopped Null (ti_error (requested s)) now s"
    from run_coreD(5) [OF f(1) kc(1)] have pk: "pc_ok s f k c" unfolding call_ok_def by blast
    have pc: "cl_pc c \<in> {Pc_Finished, Pc_Lost}"
      using cl kc(1) by (auto simp: closing_def task_over_def)
    have core: "run_core ?t f" by (rule complete_begin_core [OF f(1) kc(1) pk pc]) simp
    have cn: "rs_candidate s = None"
    proof (rule ccontr)
      assume "rs_candidate s \<noteq> None"
      with f(2) kc(1) have "cl_completed c" unfolding stage_ok_def by blast
      with kc(2) show False by simp
    qed
    have ct: "closing ?t" using cl by (simp add: closing_complete)
    have t: "rs_candidate ?t = None" "rs_intent ?t \<noteq> None"
      "\<exists>d. map_of (rs_calls ?t) k = Some d \<and> cl_candidate d \<noteq> None"
      using cn i kc(1)
      by (simp_all add: complete_begin_def call_of_def Let_def map_of_upd_call)
    have "stage_ok (?t\<lparr>rs_final := Fin_Result_Journal ro k\<rparr>) f"
      using t ct f(2) cn by (simp add: stage_ok_def final_ok_def)
    moreover have "run_core (?t\<lparr>rs_final := Fin_Result_Journal ro k\<rparr>) f"
      by (rule run_core_quiet [OF core]) simp_all
    ultimately show ?thesis using Some ic ro by (auto simp: fin_next_def wf_ok_def)
  next
    case None
    then have all: "\<forall>i c. map_of (rs_calls s) i = Some c \<longrightarrow> cl_completed c"
      by (auto simp: find_None_iff dest: map_of_SomeD)
    show ?thesis
    proof (cases ro)
      case False
      with None ro wf_ok_final [OF f, of Fin_None] show ?thesis by (simp add: fin_next_def)
    next
      case True
      let ?t = "fin_next now s"
      have t: "rs_calls ?t = rs_calls s" "rs_draft ?t = rs_draft s" "rs_store ?t = rs_store s"
        "rs_journal ?t = rs_journal s" "rs_handling ?t = rs_handling s" "rs_intent ?t = rs_intent s"
        "rs_tail ?t = rs_tail s" "rs_final ?t = Fin_Journal"
        "rs_candidate s = Some r \<Longrightarrow> rs_candidate ?t = Some r"
        "rs_candidate s = None \<Longrightarrow> \<exists>r. rs_candidate ?t = Some r \<and> wr_agents r = wr_agents (rs_draft s)"
        for r
        using None ro True by (simp_all add: fin_next_def)
      have "closing ?t" using cl by (simp add: closing_def t)
      then have "stage_ok ?t f"
        using f(2) t(9,10) all i by (cases "rs_candidate s") (auto simp: stage_ok_def final_ok_def t(1-8))
      moreover have "run_core ?t f" by (rule run_core_quiet [OF f(1)]) (simp_all add: t)
      ultimately show ?thesis by (auto simp: wf_ok_def)
    qed
  qed
qed

lemma fin_result_journal_ok:
  assumes "wf_ok s" shows "wf_ok (fin_result_journal w s)"
proof (cases "\<exists>r i. rs_final s = Fin_Result_Journal r i")
  case False
  then have "fin_result_journal w s = s" by (auto simp: fin_result_journal_def split: final_pc.splits)
  with assms show ?thesis by simp
next
  case True
  then obtain ro i where ro: "rs_final s = Fin_Result_Journal ro i" by blast
  from assms obtain f where f: "run_core s f" "stage_ok s f" by (auto simp: wf_ok_def)
  from f(2) ro obtain c e where cl: "closing s" and c: "map_of (rs_calls s) i = Some c"
    and e: "cl_candidate c = Some e" by (auto simp: stage_ok_def final_ok_def)
  from run_coreD(5) [OF f(1) c] have "pc_ok s f i c" unfolding call_ok_def by blast
  moreover have "task_over c" using cl c by (simp add: closing_def)
  ultimately have st: "stored s i \<or> cl_pc c = Pc_Lost"
    by (auto simp: task_over_def pc_ok_def)
  obtain r t where w: "write_result i w s = (r, t)" by fastforce
  from write_result_core [OF f(1) c e st w] obtain f' where
    f': "run_core t f'" "jf_terminal f' = jf_terminal f" "r = None \<longrightarrow> has_result f' i e" and
    t: "rs_calls t = rs_calls s" "rs_draft t = rs_draft s" "rs_store t = rs_store s"
      "rs_handling t = rs_handling s" "rs_intent t = rs_intent s" "rs_final t = rs_final s"
      "rs_candidate t = rs_candidate s" "rs_tail t = rs_tail s" by blast
  have ct: "closing t" using cl by (simp add: closing_def t)
  have stg: "stage_ok t f'"
    using f(2) cl ct ro f'(2) c e by (auto simp: stage_ok_def final_ok_def t)
  have "wf_ok (t\<lparr>rs_final := Fin_None\<rparr>)" by (rule wf_ok_final [OF f'(1) stg]) simp_all
  moreover have "wf_ok (t\<lparr>rs_final := Fin_Result_Store ro i\<rparr>)" if "r = None"
    by (rule wf_ok_final [OF f'(1) stg])
      (use that f'(3) ct c e in \<open>auto simp: final_ok_def t closing_def\<close>)
  ultimately show ?thesis using ro w by (auto simp: fin_result_journal_def split: option.splits)
qed

lemma fin_result_store_ok:
  assumes "wf_ok s" shows "wf_ok (fin_result_store w s)"
proof (cases "\<exists>r i. rs_final s = Fin_Result_Store r i")
  case False
  then have "fin_result_store w s = s" by (auto simp: fin_result_store_def split: final_pc.splits)
  with assms show ?thesis by simp
next
  case True
  then obtain ro i where ro: "rs_final s = Fin_Result_Store ro i" by blast
  from assms obtain f where f: "run_core s f" "stage_ok s f" by (auto simp: wf_ok_def)
  from f(2) ro obtain c e where cl: "closing s" and c: "map_of (rs_calls s) i = Some c"
    and e: "cl_candidate c = Some e" "has_result f i e" by (auto simp: stage_ok_def final_ok_def)
  show ?thesis
  proof (cases w)
    case (Some m)
    with ro wf_ok_final [OF f, of Fin_None] show ?thesis by (simp add: fin_result_store_def)
  next
    case None
    let ?t = "set_call i (\<lambda>c. c\<lparr>cl_completed := True\<rparr>) (write_store s)"
    have core: "run_core ?t f" by (rule run_core_completed [OF f(1) c e])
    have "task_over d" if "map_of (rs_calls ?t) k = Some d" for k d
    proof -
      from that obtain d0 where "map_of (rs_calls s) k = Some d0" "cl_pc d = cl_pc d0"
        by (auto simp: map_of_upd_call split: if_splits)
      moreover from this(1) cl have "task_over d0" by (simp add: closing_def)
      ultimately show ?thesis by (simp add: task_over_def)
    qed
    with cl have ct: "closing ?t" unfolding closing_def by simp
    have "stage_ok (?t\<lparr>rs_final := Fin_Loop ro\<rparr>) f"
      using f(2) ct unfolding stage_ok_def final_ok_def
      by (auto simp: map_of_upd_call closing_def split: if_splits)
    moreover have "run_core (?t\<lparr>rs_final := Fin_Loop ro\<rparr>) f"
      by (rule run_core_quiet [OF core]) simp_all
    ultimately show ?thesis using None ro by (auto simp: fin_result_store_def wf_ok_def)
  qed
qed

lemma run_core_facts:
  assumes core: "run_core s f" and "jf_results g = jf_results f"
    and "rs_calls t = rs_calls s" "wr_agents (rs_draft t) = wr_agents (rs_draft s)"
    and "wr_agents (rs_store t) = wr_agents (rs_store s)" "rs_handling t = rs_handling s"
    and "reads (rs_journal t) g"
  shows "run_core t g"
proof -
  have h: "has_result g = has_result f" by (simp add: fun_eq_iff has_result_def assms(2))
  have "stored t = stored s" by (simp add: fun_eq_iff stored_def assms)
  moreover from this have "pc_ok t g = pc_ok s f"
    by (simp add: fun_eq_iff pc_ok_def assms(6) h cong: call_pc.case_cong)
  ultimately have ck: "call_ok t g = call_ok s f" by (simp add: fun_eq_iff call_ok_def h)
  from core assms(7) show ?thesis unfolding run_core_def assms(3-5) ck h by blast
qed

lemma fin_journal_ok:
  assumes "wf_ok s" shows "wf_ok (fin_journal w s)"
proof (cases "\<exists>r. rs_final s = Fin_Journal \<and> rs_candidate s = Some r")
  case False
  then have "fin_journal w s = s"
    by (auto simp: fin_journal_def split: final_pc.splits option.splits)
  with assms show ?thesis by simp
next
  case True
  then obtain r where r: "rs_final s = Fin_Journal" "rs_candidate s = Some r" by blast
  from assms obtain f where f: "run_core s f" "stage_ok s f" by (auto simp: wf_ok_def)
  let ?ev = "terminal_of r" and ?n = "normalize_terminal (terminal_of r)"
  have cl: "closing s" and i: "rs_intent s \<noteq> None"
    using f(2) r by (auto simp: stage_ok_def closing_def)
  have "\<exists>res j g. ensure_terminal ?ev (w = None) (rs_journal s) = (res, j) \<and> reads j g \<and>
      jf_results g = jf_results f \<and> (jf_terminal g = None \<or> jf_terminal g = Some ?n) \<and>
      (isl res \<or> jf_terminal g = Some ?n)"
  proof (cases "jf_terminal f")
    case None
    from ensure_end_new [OF run_coreD(1) [OF f(1)] None, of ?ev "w = None"] obtain j where
      j: "ensure_terminal ?ev (w = None) (rs_journal s) =
        ((if w = None then Inr ?n else Inl Jn_Io), j)"
      "reads j (if w = None then f\<lparr>jf_terminal := Some ?n\<rparr> else f)" by blast
    then show ?thesis
      using None by (intro exI [of _ "if w = None then Inr ?n else Inl Jn_Io"] exI [of _ j]
        exI [of _ "if w = None then f\<lparr>jf_terminal := Some ?n\<rparr> else f"]) simp
  next
    case (Some x)
    with f(2) r have x: "x = ?n" by (auto simp: stage_ok_def)
    from ensure_end_old [OF run_coreD(1) [OF f(1)] Some, of ?ev "w = None"] x obtain j where
      "ensure_terminal ?ev (w = None) (rs_journal s) = (Inr x, j)" "reads j f"
      by (auto simp: same_terminal_def)
    then show ?thesis using Some x by blast
  qed
  then obtain res j g where j: "ensure_terminal ?ev (w = None) (rs_journal s) = (res, j)"
    "reads j g" "jf_results g = jf_results f" "jf_terminal g = None \<or> jf_terminal g = Some ?n"
    "isl res \<or> jf_terminal g = Some ?n" by blast
  let ?t = "s\<lparr>rs_journal := j\<rparr>"
  have core: "run_core ?t g" by (rule run_core_facts [OF f(1) j(3)]) (simp_all add: j(2))
  have "closing ?t" using cl by (simp add: closing_def)
  then have stg: "stage_ok ?t g"
    using f(2) r j(4) i unfolding stage_ok_def final_ok_def by auto
  have "wf_ok (?t\<lparr>rs_final := Fin_None\<rparr>)" by (rule wf_ok_final [OF core stg]) simp_all
  moreover have "wf_ok (?t\<lparr>rs_final := Fin_Store\<rparr>)" if "\<not> isl res"
    by (rule wf_ok_final [OF core stg]) (use that j(5) r i in \<open>simp_all add: final_ok_def\<close>)
  ultimately show ?thesis using r j(1) by (cases res) (auto simp: fin_journal_def)
qed

lemma fin_store_ok:
  assumes "wf_ok s" shows "wf_ok (fin_store w s)"
proof (cases "\<exists>r. rs_final s = Fin_Store \<and> rs_candidate s = Some r")
  case False
  then have "fin_store w s = s"
    by (auto simp: fin_store_def split: final_pc.splits option.splits)
  with assms show ?thesis by simp
next
  case True
  then obtain r where r: "rs_final s = Fin_Store" "rs_candidate s = Some r" by blast
  from assms obtain f where f: "run_core s f" "stage_ok s f" by (auto simp: wf_ok_def)
  show ?thesis
  proof (cases w)
    case (Some m)
    with r wf_ok_final [OF f, of Fin_None] show ?thesis by (simp add: fin_store_def)
  next
    case None
    let ?t = "fin_store w s"
    have ag: "wr_agents r = wr_agents (rs_draft s)" and cl: "closing s"
      using f(2) r by (auto simp: stage_ok_def)
    have t: "rs_calls ?t = rs_calls s" "rs_draft ?t = r" "rs_store ?t = r"
      "rs_journal ?t = rs_journal s" "rs_handling ?t = rs_handling s" "rs_intent ?t = rs_intent s"
      "rs_candidate ?t = Some r" "rs_tail ?t = rs_tail s"
      "rs_final ?t = Fin_Deliver \<or> rs_final ?t = Fin_Settled"
      using r None by (simp_all add: fin_store_def)
    have "run_core ?t f"
      by (rule run_core_cong [OF run_core_write [OF f(1)]])
        (use run_coreD(1) [OF f(1)] ag in \<open>simp_all add: t\<close>)
    moreover have "closing ?t" using cl by (simp add: closing_def t)
    then have "stage_ok ?t f"
      using f(2) r t(9) unfolding stage_ok_def final_ok_def by (auto simp: t(1-8))
    ultimately show ?thesis by (auto simp: wf_ok_def)
  qed
qed

lemma fin_deliver_ok:
  assumes "wf_ok s" shows "wf_ok (fin_deliver b s)"
proof (cases "\<exists>r. rs_final s = Fin_Deliver \<and> rs_candidate s = Some r")
  case False
  then have "fin_deliver b s = s"
    by (auto simp: fin_deliver_def split: final_pc.splits option.splits)
  with assms show ?thesis by simp
next
  case True
  then obtain r where r: "rs_final s = Fin_Deliver" "rs_candidate s = Some r" by blast
  from assms obtain f where f: "run_core s f" "stage_ok s f" by (auto simp: wf_ok_def)
  let ?t = "s\<lparr>rs_delivered := rs_delivered s @ [te_status (terminal_of r)], rs_recipient := False\<rparr>"
  have core: "run_core ?t f" by (rule run_core_quiet [OF f(1)]) simp_all
  have "closing ?t = closing s" by (simp add: closing_def)
  then have stg: "stage_ok ?t f"
    using f(2) r unfolding stage_ok_def final_ok_def by auto
  have "wf_ok (?t\<lparr>rs_final := Fin_Settled\<rparr>)"
    by (rule wf_ok_final [OF core stg]) (use f(2) r in \<open>auto simp: stage_ok_def final_ok_def\<close>)
  with r wf_ok_final [OF f, of Fin_None] show ?thesis by (simp add: fin_deliver_def)
qed

subsection \<open>The registration in progress\<close>

text \<open>What one agent task changes: its own call.\<close>

definition frame :: "nat \<Rightarrow> workflow_run \<Rightarrow> workflow_run \<Rightarrow> bool" where
  "frame i s t \<longleftrightarrow> rs_handling t = rs_handling s \<and>
     (\<forall>k. k \<noteq> i \<longrightarrow> map_of (rs_calls t) k = map_of (rs_calls s) k)"

lemma frameI [simp]:
  "frame i s s"
  "frame i s t \<Longrightarrow> frame i s (fail_run m t)"
  "frame i s t \<Longrightarrow> frame i s (finish_task i t)"
  "frame i s t \<Longrightarrow> frame i s (write_store t)"
  "frame i s t \<Longrightarrow> frame i s (set_call i g t)"
  "frame i s t \<Longrightarrow> frame i s (set_pc i p t)"
  "frame i s t \<Longrightarrow> frame i s (set_agent i h t)"
  "frame i s t \<Longrightarrow> frame i s (touch n t)"
  "frame i s t \<Longrightarrow> frame i s (send_message pm t)"
  "frame i s t \<Longrightarrow> frame i s (t\<lparr>rs_journal := j\<rparr>)"
  by (auto simp: frame_def map_of_upd_call set_pc_def)

lemma frame_complete [simp]:
  "frame i s t \<Longrightarrow> frame i s (complete_begin i st r e now t)"
  "frame i s t \<Longrightarrow> frame i s (complete_task i st r e re now t)"
  "frame i s t \<Longrightarrow> frame i s (task_failed i m u now t)"
  by (auto simp: complete_begin_def complete_task_def task_failed_def Let_def split: option.splits)

lemma frame_write [simp]: "frame i s t \<Longrightarrow> frame i s (snd (write_result i w t))"
  by (auto simp: write_result_def split: option.splits sum.splits prod.splits)

lemma hand_ok_frame:
  assumes "hand_ok s" "frame i s t"
    and "t = s \<or> (\<exists>c. map_of (rs_calls s) i = Some c \<and> cl_pc c \<noteq> Pc_Registering)"
  shows "hand_ok t"
  using assms unfolding hand_ok_def frame_def by (metis option.inject)

lemma task_frames:
  "frame i s (slot_step i now s)" "frame i s (running_write i w now s)"
  "frame i s (materialized i mr now s)" "frame i s (submit_journal i w s)"
  "frame i s (submit_store i w now s)" "frame i s (admission_step i adm now s)"
  "frame i s (outcome_step jp i out now s)" "frame i s (result_store i w s)"
  "frame i s (result_send i w s)"
  by (auto simp: slot_step_def running_write_def materialized_def submit_journal_def
      submit_store_def admission_step_def outcome_step_def result_store_def
      result_send_def Let_def
      split: option.splits call_pc.splits sum.splits prod.splits admission.splits
        turn_outcome.splits)

lemma result_journal_frame: "frame i s (result_journal i w s)"
proof -
  obtain r t where w: "write_result i w s = (r, t)" by fastforce
  with frame_write [of i s s w] have "frame i s t" by simp
  with w show ?thesis by (auto simp: result_journal_def split: option.splits call_pc.splits)
qed

lemma task_moves:
  "slot_step i now s = s \<or> (\<exists>c. map_of (rs_calls s) i = Some c \<and> cl_pc c \<noteq> Pc_Registering)"
  "running_write i w now s = s \<or> (\<exists>c. map_of (rs_calls s) i = Some c \<and> cl_pc c \<noteq> Pc_Registering)"
  "materialized i mr now s = s \<or> (\<exists>c. map_of (rs_calls s) i = Some c \<and> cl_pc c \<noteq> Pc_Registering)"
  "submit_journal i w s = s \<or> (\<exists>c. map_of (rs_calls s) i = Some c \<and> cl_pc c \<noteq> Pc_Registering)"
  "submit_store i w now s = s \<or> (\<exists>c. map_of (rs_calls s) i = Some c \<and> cl_pc c \<noteq> Pc_Registering)"
  "admission_step i adm now s = s \<or> (\<exists>c. map_of (rs_calls s) i = Some c \<and> cl_pc c \<noteq> Pc_Registering)"
  "outcome_step jp i out now s = s \<or> (\<exists>c. map_of (rs_calls s) i = Some c \<and> cl_pc c \<noteq> Pc_Registering)"
  "result_journal i w s = s \<or> (\<exists>c. map_of (rs_calls s) i = Some c \<and> cl_pc c \<noteq> Pc_Registering)"
  "result_store i w s = s \<or> (\<exists>c. map_of (rs_calls s) i = Some c \<and> cl_pc c \<noteq> Pc_Registering)"
  "result_send i w s = s \<or> (\<exists>c. map_of (rs_calls s) i = Some c \<and> cl_pc c \<noteq> Pc_Registering)"
  by (cases "map_of (rs_calls s) i"; simp add: slot_step_def running_write_def materialized_def
      submit_journal_def submit_store_def admission_step_def outcome_step_def result_journal_def
      result_store_def result_send_def call_of_def; fastforce split: call_pc.splits)+

lemma hand_ok_cong:
  "hand_ok s \<Longrightarrow> rs_handling t = rs_handling s \<or> rs_handling t = None \<Longrightarrow>
   rs_calls t = rs_calls s \<Longrightarrow> hand_ok t"
  by (auto simp: hand_ok_def)

lemma hand_ok_task:
  "hand_ok s \<Longrightarrow> hand_ok (slot_step i now s)" "hand_ok s \<Longrightarrow> hand_ok (running_write i w now s)"
  "hand_ok s \<Longrightarrow> hand_ok (materialized i mr now s)" "hand_ok s \<Longrightarrow> hand_ok (submit_journal i w s)"
  "hand_ok s \<Longrightarrow> hand_ok (submit_store i w now s)" "hand_ok s \<Longrightarrow> hand_ok (admission_step i adm now s)"
  "hand_ok s \<Longrightarrow> hand_ok (outcome_step jp i out now s)" "hand_ok s \<Longrightarrow> hand_ok (result_journal i w s)"
  "hand_ok s \<Longrightarrow> hand_ok (result_store i w s)" "hand_ok s \<Longrightarrow> hand_ok (result_send i w s)"
  by (erule hand_ok_frame, rule task_frames result_journal_frame, rule task_moves)+

lemma hand_ok_intents:
  "hand_ok s \<Longrightarrow> hand_ok (reserve_stop s)" "hand_ok s \<Longrightarrow> hand_ok (stop_run s)"
  "hand_ok s \<Longrightarrow> hand_ok (request_terminal st r e s)" "hand_ok s \<Longrightarrow> hand_ok (fail_run m s)"
  "hand_ok s \<Longrightarrow> hand_ok (runner_exited m s)" "hand_ok s \<Longrightarrow> hand_ok (runner_error m s)"
  "hand_ok s \<Longrightarrow> hand_ok (receive_message msg s)"
  by (auto simp: hand_ok_def stop_run_def runner_exited_def runner_error_def receive_message_def
      split: option.splits)

lemma hand_ok_final:
  "hand_ok s \<Longrightarrow> hand_ok (fin_stop_runner b s)" "hand_ok s \<Longrightarrow> hand_ok (fin_close b s)"
  "hand_ok s \<Longrightarrow> hand_ok (fin_drain s)" "hand_ok s \<Longrightarrow> hand_ok (fin_journal w s)"
  "hand_ok s \<Longrightarrow> hand_ok (fin_store w s)" "hand_ok s \<Longrightarrow> hand_ok (fin_deliver b s)"
  by (auto simp: hand_ok_def fin_stop_runner_def fin_close_def fin_drain_def fin_journal_def
      fin_store_def fin_deliver_def split: final_pc.splits option.splits sum.splits prod.splits)

text \<open>Without a registration in progress the condition is empty.\<close>

lemma hand_ok_none: "rs_handling s = None \<Longrightarrow> hand_ok s"
  by (simp add: hand_ok_def)

lemma hand_ok_closing:
  assumes "wf_ok s" "hand_ok s"
  shows "hand_ok (fin_next now s)" "hand_ok (fin_result_journal w s)" "hand_ok (fin_result_store w s)"
proof -
  from assms(1) obtain f where f: "stage_ok s f" by (auto simp: wf_ok_def)
  have none: "rs_handling s = None"
    if "(\<exists>r. rs_final s = Fin_Loop r) \<or> (\<exists>r i. rs_final s = Fin_Result_Journal r i) \<or>
        (\<exists>r i. rs_final s = Fin_Result_Store r i)"
    using f that by (auto simp: stage_ok_def final_ok_def closing_def)
  have cb: "rs_handling (complete_begin i st r e n s) = rs_handling s" for i st r e n
    by (simp add: complete_begin_def Let_def split: option.splits)
  have wr: "rs_handling (snd (write_result i w s)) = rs_handling s" for i
    using frame_write [of i s s w] by (simp add: frame_def)
  show "hand_ok (fin_next now s)"
    using assms(2) none by (cases "rs_final s")
      (auto simp: fin_next_def cb intro!: hand_ok_none split: option.splits)
  show "hand_ok (fin_result_store w s)"
    using assms(2) none by (cases "rs_final s")
      (auto simp: fin_result_store_def intro!: hand_ok_none split: option.splits)
  show "hand_ok (fin_result_journal w s)"
  proof (cases "\<exists>r i. rs_final s = Fin_Result_Journal r i")
    case False
    with assms(2) show ?thesis by (auto simp: fin_result_journal_def split: final_pc.splits)
  next
    case True
    then obtain r i where ri: "rs_final s = Fin_Result_Journal r i" by blast
    obtain o1 t where w: "write_result i w s = (o1, t)" by fastforce
    with wr [of i] none ri have "rs_handling t = None" by auto
    with w ri show ?thesis
      by (auto simp: fin_result_journal_def intro!: hand_ok_none split: option.splits)
  qed
qed

lemma hand_ok_send_error: "hand_ok s \<Longrightarrow> hand_ok (send_agent_error i e send s)"
  by (auto simp: send_agent_error_def hand_ok_intents hand_ok_def split: option.splits)

lemma hand_ok_handle:
  assumes "hand_ok s" shows "hand_ok (handle_message now send s)"
proof (cases "rs_handling s = None \<and> rs_tail s \<noteq> []")
  case False
  with assms show ?thesis by (auto simp: handle_message_def split: list.splits)
next
  case True
  then obtain m ms where m: "rs_tail s = m # ms" by (cases "rs_tail s") auto
  let ?s = "s\<lparr>rs_tail := ms\<rparr>"
  have h: "hand_ok ?s" by (rule hand_ok_none) (simp add: True)
  have start: "hand_ok (handle_agent_start i p ob now send ?s)" for i p ob
  proof -
    have "hand_ok (?s\<lparr>rs_calls := rs_calls ?s @ [(i, new_call opts)], rs_draft := d,
        rs_handling := Some (M_Agent_Start i p ob, now)\<rparr>)" if "map_of (rs_calls s) i = None" for opts d
      using map_of_append_new [OF that] by (simp add: hand_ok_def new_call_def)
    then show ?thesis
      by (auto simp: handle_agent_start_def call_of_def hand_ok_send_error [OF h] split: sum.splits)
  qed
  have emit: "hand_ok (handle_emit k t now ?s)" for k t
    using h by (auto simp: handle_emit_def hand_ok_def)
  show ?thesis
    using start emit h True m
    by (cases m) (simp_all add: handle_message_def Let_def hand_ok_intents)
qed

lemma hand_ok_handler_write: "hand_ok s \<Longrightarrow> hand_ok (handler_write jw sw s)"
  by (auto simp: handler_write_def launch_agent_def Let_def set_pc_def
      intro!: hand_ok_none split: option.splits child_message.splits sum.splits prod.splits)

subsection \<open>Every reachable state\<close>

definition fresh_record :: "workflow_record \<Rightarrow> bool" where
  "fresh_record r \<longleftrightarrow> wr_agents r = []"

lemma initialized_ok: "fresh_record r \<Longrightarrow> wf_ok (initialized_run r) \<and> hand_ok (initialized_run r)"
  by (auto simp: wf_ok_def run_core_def stage_ok_def final_ok_def hand_ok_def initialized_run_def
      fresh_record_def journal_create_def stored_ok_def reads_def parse_journal_facts_def
      has_result_def no_facts_def intro!: exI [of _ no_facts])

lemma do_step_ok:
  assumes "wf_ok s" "hand_ok s" "json_parse_ok jp"
  shows "wf_ok (do_step jp q s) \<and> hand_ok (do_step jp q s)"
  using assms
  by (cases q) (simp_all add: receive_ok handle_message_ok handler_write_ok slot_step_ok
      running_write_ok materialized_ok submit_journal_ok submit_store_ok admission_step_ok
      outcome_step_ok result_journal_ok result_store_ok result_send_ok intents_ok fin_early_ok
      fin_next_ok fin_result_journal_ok fin_result_store_ok fin_journal_ok fin_store_ok
      fin_deliver_ok hand_ok_task hand_ok_intents hand_ok_final hand_ok_closing hand_ok_handle
      hand_ok_handler_write)

lemma run_workflow_ok:
  assumes "fresh_record r" "json_parse_ok jp"
  shows "wf_ok (run_workflow jp qs (initialized_run r))"
proof -
  have "wf_ok (run_workflow jp qs s) \<and> hand_ok (run_workflow jp qs s)"
    if "wf_ok s" "hand_ok s" for s
    using that unfolding run_workflow_def
    by (induction qs arbitrary: s) (simp_all add: do_step_ok assms(2))
  with initialized_ok [OF assms(1)] show ?thesis by blast
qed

subsection \<open>A crash at any step\<close>

definition nothing_lost :: "workflow_run \<Rightarrow> bool" where
  "nothing_lost s \<longleftrightarrow> (\<forall>(i, c) \<in> set (rs_calls s). cl_pc c \<noteq> Pc_Lost)"

lemma reachable_consistent:
  assumes core: "run_core s f" and stage: "stage_ok s f" and nl: "nothing_lost s"
  shows "consistent (rs_store s) f"
proof -
  note c = run_coreD [OF core]
  have so: "distinct (map wa_index (wr_agents (rs_store s)))"
    "\<And>a. a \<in> set (wr_agents (rs_store s)) \<Longrightarrow> \<exists>c. map_of (rs_calls s) (wa_index a) = Some c \<and>
      (agent_active a \<or> reflects c a)"
    using c(7) unfolding stored_ok_def by blast+
  have "\<exists>a \<in> set (wr_agents (rs_store s)). wa_index a = i \<and> (agent_active a \<or> agent_matches a e)"
    if e: "map_of (jf_results f) i = Some e" for i e
  proof -
    have h: "has_result f i e" using e by (simp add: has_result_def)
    from c(6) [OF h] obtain d where d: "map_of (rs_calls s) i = Some d" by blast
    from c(5) [OF d] h have dc: "cl_candidate d = Some e" "stored s i \<or> cl_pc d = Pc_Lost"
      unfolding call_ok_def by blast+
    from nl d have "cl_pc d \<noteq> Pc_Lost" by (auto simp: nothing_lost_def dest!: map_of_SomeD)
    with dc obtain a where a: "a \<in> set (wr_agents (rs_store s))" "wa_index a = i"
      by (auto simp: stored_def)
    from so(2) [OF a(1)] a(2) d dc(1) show ?thesis
      using a by (auto simp: reflects_def)
  qed
  moreover have "map_of (jf_results f) (wa_index a) \<noteq> None"
    if t: "jf_terminal f \<noteq> None" and a: "a \<in> set (wr_agents (rs_store s))" for a
  proof -
    from so(2) [OF a] obtain d where d: "map_of (rs_calls s) (wa_index a) = Some d" by blast
    from stage t obtain r where "rs_candidate s = Some r" by (auto simp: stage_ok_def)
    with stage d have "cl_completed d" unfolding stage_ok_def by blast
    with c(5) [OF d] show ?thesis unfolding call_ok_def has_result_def by blast
  qed
  ultimately show ?thesis using so(1) unfolding consistent_def by blast
qed

text \<open>
  C1. A crash at any moment of a run loses nothing and is repaired by the next start.
  After any interleaving of runner messages, agent tasks, durable writes (failing or not),
  stops and finaliser stages in which no agent's registration write failed, recovering the
  record on disk against the journal on disk succeeds: it settles the run, leaves no agent
  active, and keeps the result of every agent that had been completed.
\<close>

theorem crash_recovers:
  assumes "fresh_record r" "json_parse_ok jp"
    and "s = run_workflow jp qs (initialized_run r)" "nothing_lost s"
    and "recover now [] True (rs_store s) \<lparr>jn_file = jn_file (rs_journal s), jn_facts = None\<rparr> =
      (res, j)"
  shows "\<exists>b r2 st. res = Inr (b, r2) \<and> wr_status r2 = Run_Done st \<and>
    map wa_index (wr_agents r2) = map wa_index (wr_agents (rs_store s)) \<and>
    (\<forall>a \<in> set (wr_agents r2). \<not> agent_active a) \<and>
    (\<forall>i c. map_of (rs_calls s) i = Some c \<longrightarrow> cl_completed c \<longrightarrow>
       (\<exists>e. cl_candidate c = Some e \<and> (\<exists>a \<in> set (wr_agents r2). wa_index a = i \<and> agent_matches a e)))"
proof -
  from run_workflow_ok [OF assms(1,2), of qs] obtain f where
    core: "run_core s f" and stage: "stage_ok s f" by (auto simp: wf_ok_def assms(3))
  note cons = reachable_consistent [OF core stage assms(4)]
  have rd: "reads \<lparr>jn_file = jn_file (rs_journal s), jn_facts = None\<rparr> f"
    using run_coreD(1) [OF core] by (simp add: reads_def)
  from recover_completes [OF rd cons assms(5)] obtain b h t where
    h: "res = Inr (b, recovered (rs_store s) h t)" "consistent (rs_store s) h" "extends f h"
    "jf_terminal h = Some t" by blast
  have "\<exists>e. cl_candidate c = Some e \<and>
      (\<exists>a \<in> set (wr_agents (recovered (rs_store s) h t)). wa_index a = i \<and> agent_matches a e)"
    if i: "map_of (rs_calls s) i = Some c" "cl_completed c" for i c
  proof -
    from run_coreD(5) [OF core i(1)] i(2) obtain e where e: "cl_candidate c = Some e"
      "map_of (jf_results f) i = Some e" unfolding call_ok_def has_result_def by blast
    with cons obtain a where a: "a \<in> set (wr_agents (rs_store s))" "wa_index a = i"
      unfolding consistent_def by blast
    from recovered_matches [of f a e h] e(2) a(2) h(3)
    have "agent_matches (settled_by h a) e" by simp
    with a e(1) show ?thesis by (force simp: recovered_def)
  qed
  moreover have "\<forall>a \<in> set (wr_agents (recovered (rs_store s) h t)). \<not> agent_active a"
    using recovered_settled [OF h(2,4)] by (simp add: recovered_def)
  ultimately show ?thesis
    using h(1) by (intro exI [of _ b] exI [of _ "recovered (rs_store s) h t"]
      exI [of _ "te_status t"]) (simp add: recovered_def)
qed

definition new_run :: workflow_record where
  "new_run = sample_run\<lparr>wr_agents := []\<rparr>"

definition start_message :: child_message where
  "start_message = M_Agent_Start 0 ''p'' []"

lemma crash_recovers_witness:
  "\<exists>b r2 st. fst (recover 9 [] True (rs_store (run_workflow (\<lambda>_. None)
       [W_Receive (Some start_message), W_Handle 1 None, W_Handler_Write None None]
       (initialized_run new_run)))
     \<lparr>jn_file = jn_file (rs_journal (run_workflow (\<lambda>_. None)
       [W_Receive (Some start_message), W_Handle 1 None, W_Handler_Write None None]
       (initialized_run new_run))), jn_facts = None\<rparr>) = Inr (b, r2) \<and> wr_status r2 = Run_Done st"
proof -
  let ?qs = "[W_Receive (Some start_message), W_Handle 1 None, W_Handler_Write None None]"
  have nl: "nothing_lost (run_workflow (\<lambda>_. None) ?qs (initialized_run new_run))"
    by (simp add: nothing_lost_def run_workflow_def initialized_run_def receive_message_def
        handle_message_def handle_agent_start_def handler_write_def launch_agent_def
        start_message_def new_run_def sample_run_def normalize_agent_options_def
        string_option_def call_of_def MAX_AGENTS_def is_run_result_def sem_acquire_def
        new_semaphore_def set_pc_def set_call_def upd_call_def write_store_def new_call_def Let_def
        journal_create_def)
  have fr: "fresh_record new_run" by (simp add: fresh_record_def new_run_def)
  have jp: "json_parse_ok (\<lambda>_. None)" by (simp add: json_parse_ok_def)
  from crash_recovers [OF fr jp refl nl, of 9] show ?thesis
    by (metis fst_conv surj_pair)
qed

text \<open>
  The exception, which is real: when the write that registers an agent fails, the run
  fails, its finaliser still settles that agent, and its journal row goes to disk before
  any record that knows the agent.  A crash between those two writes leaves a journal the
  recovery of the next start refuses, for an agent unknown to the record.
\<close>

definition lost_steps :: "wf_step list" where
  "lost_steps = [W_Receive (Some start_message), W_Handle 1 None,
     W_Handler_Write None (Some ''ENOSPC''), W_Fin_Stop_Runner True, W_Fin_Close True, W_Fin_Drain,
     W_Fin_Next 2, W_Fin_Result_Journal None]"

theorem lost_registration_blocks_recovery:
  "fst (recover 9 [] True (rs_store (run_workflow (\<lambda>_. None) lost_steps (initialized_run new_run)))
     \<lparr>jn_file = jn_file (rs_journal (run_workflow (\<lambda>_. None) lost_steps (initialized_run new_run))),
      jn_facts = None\<rparr>) = Inl (Jn_Unknown_Agent 0)"
  by code_simp

subsection \<open>One terminal outcome\<close>

text \<open>
  The memoised terminal record has the reserved intent's status and error, the report goes
  out at most once, with that status, and never for a stop.
\<close>

definition reports :: "terminal_intent option \<Rightarrow> terminal_status set" where
  "reports t = (case t of None \<Rightarrow> {} | Some t \<Rightarrow> {ti_status t} - {St_Stopped})"

definition outcome_ok :: "workflow_run \<Rightarrow> bool" where
  "outcome_ok s \<longleftrightarrow>
     (rs_final s \<noteq> Fin_None \<longrightarrow> rs_intent s \<noteq> None) \<and>
     (\<forall>r. rs_candidate s = Some r \<longrightarrow> (\<exists>t. rs_intent s = Some t \<and>
        wr_status r = Run_Done (ti_status t) \<and> wr_error r = ti_error t \<and> wr_ended r \<noteq> None)) \<and>
     (rs_recipient s \<longrightarrow> rs_delivered s = []) \<and> length (rs_delivered s) \<le> 1 \<and>
     (rs_final s = Fin_Deliver \<longrightarrow> rs_recipient s) \<and>
     (\<forall>t. rs_intent s = Some t \<longrightarrow> ti_status t = St_Stopped \<longrightarrow> \<not> rs_recipient s) \<and>
     set (rs_delivered s) \<subseteq> reports (rs_intent s)"

text \<open>Steps that leave the outcome's fields alone, or only start the finaliser.\<close>

definition same_outcome :: "workflow_run \<Rightarrow> workflow_run \<Rightarrow> bool" where
  "same_outcome s t \<longleftrightarrow> rs_candidate t = rs_candidate s \<and> rs_delivered t = rs_delivered s \<and>
     (rs_intent t = rs_intent s \<and> rs_recipient t = rs_recipient s \<or>
      rs_intent s = None \<and> (\<exists>i. rs_intent t = Some i \<and>
        rs_recipient t = (if ti_status i = St_Stopped then False else rs_recipient s))) \<and>
     (rs_final t = rs_final s \<or>
      rs_intent t \<noteq> None \<and> rs_final s = Fin_None \<and> rs_final t = Fin_Stop_Runner)"

lemma outcome_same:
  assumes "outcome_ok s" "same_outcome s t" shows "outcome_ok t"
proof -
  have cd: "rs_candidate t = rs_candidate s" "rs_delivered t = rs_delivered s"
    and fin: "rs_final t = rs_final s \<or>
      rs_intent t \<noteq> None \<and> rs_final s = Fin_None \<and> rs_final t = Fin_Stop_Runner"
    using assms(2) unfolding same_outcome_def by blast+
  consider "rs_intent t = rs_intent s" "rs_recipient t = rs_recipient s"
    | i where "rs_intent s = None" "rs_intent t = Some i"
      "rs_recipient t = (if ti_status i = St_Stopped then False else rs_recipient s)"
    using assms(2) unfolding same_outcome_def by blast
  then show ?thesis
  proof cases
    case 1
    have "rs_final t = Fin_Deliver \<Longrightarrow> rs_final s = Fin_Deliver" using fin by auto
    moreover have "rs_final t \<noteq> Fin_None \<Longrightarrow> rs_intent s \<noteq> None"
      using fin 1 assms(1) by (auto simp: outcome_ok_def)
    ultimately show ?thesis using assms(1) unfolding outcome_ok_def cd 1 by blast
  next
    case 2
    then have "rs_final s = Fin_None" "rs_candidate s = None" "rs_delivered s = []"
      using assms(1) by (auto simp: outcome_ok_def reports_def)
    moreover from this fin have "rs_final t \<noteq> Fin_Deliver" by auto
    ultimately show ?thesis using 2 by (simp add: outcome_ok_def cd)
  qed
qed

lemma same_fail: "same_outcome s t \<Longrightarrow> same_outcome s (request_terminal st r e t)"
  by (cases "rs_intent t"; cases "rs_final t = Fin_None")
    (auto simp: same_outcome_def request_terminal_def ensure_terminal_task_def
      close_on_intent_def)

lemma same_intro [simp]:
  "same_outcome s s"
  "same_outcome s t \<Longrightarrow> same_outcome s (fail_run m t)"
  "same_outcome s t \<Longrightarrow> same_outcome s (write_store t)"
  "same_outcome s t \<Longrightarrow> same_outcome s (set_call i g t)"
  "same_outcome s t \<Longrightarrow> same_outcome s (set_pc i p t)"
  "same_outcome s t \<Longrightarrow> same_outcome s (set_agent i h t)"
  "same_outcome s t \<Longrightarrow> same_outcome s (touch n t)"
  "same_outcome s t \<Longrightarrow> same_outcome s (send_message pm t)"
  "same_outcome s t \<Longrightarrow> same_outcome s (t\<lparr>rs_journal := j\<rparr>)"
  "same_outcome s t \<Longrightarrow> same_outcome s (t\<lparr>rs_sem := sm\<rparr>)"
  "same_outcome s t \<Longrightarrow> same_outcome s (t\<lparr>rs_handling := hm\<rparr>)"
  "same_outcome s t \<Longrightarrow> same_outcome s (t\<lparr>rs_tail := tm\<rparr>)"
  "same_outcome s t \<Longrightarrow> same_outcome s (t\<lparr>rs_draft := d\<rparr>)"
  "same_outcome s t \<Longrightarrow> same_outcome s (t\<lparr>rs_seen := sn\<rparr>)"
  "same_outcome s t \<Longrightarrow> same_outcome s (t\<lparr>rs_calls := cs\<rparr>)"
  by (simp_all add: fail_run_def same_fail)
    (simp_all add: same_outcome_def write_store_def set_call_def set_pc_def set_agent_def touch_def
      send_message_def)

lemma same_more [simp]:
  "same_outcome s t \<Longrightarrow> same_outcome s (finish_task i t)"
  "same_outcome s t \<Longrightarrow> same_outcome s (complete_begin i st r e now t)"
  "same_outcome s t \<Longrightarrow> same_outcome s (complete_task i st r e re now t)"
  "same_outcome s t \<Longrightarrow> same_outcome s (task_failed i m u now t)"
  "same_outcome s t \<Longrightarrow> same_outcome s (snd (write_result i w t))"
  "same_outcome s t \<Longrightarrow> same_outcome s (send_agent_error i m sd t)"
  by (auto simp: finish_task_def complete_begin_def complete_task_def task_failed_def
      write_result_def send_agent_error_def Let_def split: option.splits sum.splits prod.splits)

lemma task_same:
  "same_outcome s (slot_step i now s)" "same_outcome s (running_write i w now s)"
  "same_outcome s (materialized i mr now s)" "same_outcome s (submit_journal i w s)"
  "same_outcome s (submit_store i w now s)" "same_outcome s (admission_step i adm now s)"
  "same_outcome s (outcome_step jp i out now s)" "same_outcome s (result_store i w s)"
  "same_outcome s (result_send i w s)"
  by (auto simp: slot_step_def running_write_def materialized_def submit_journal_def
      submit_store_def admission_step_def outcome_step_def result_store_def
      result_send_def Let_def
      split: option.splits call_pc.splits sum.splits prod.splits admission.splits
        turn_outcome.splits)

lemma result_journal_same: "same_outcome s (result_journal i w s)"
proof -
  obtain r t where w: "write_result i w s = (r, t)" by fastforce
  with same_more(5) [of s s i w] have "same_outcome s t" by simp
  with w show ?thesis by (auto simp: result_journal_def split: option.splits call_pc.splits)
qed

lemma start_same: "same_outcome s t \<Longrightarrow> same_outcome s (handle_agent_start i p ob now send t)"
  by (auto simp: handle_agent_start_def split: sum.splits)

lemma emit_same: "same_outcome s t \<Longrightarrow> same_outcome s (handle_emit k m now t)"
  by (auto simp: handle_emit_def)

lemma message_same:
  "same_outcome s (receive_message msg s)" "same_outcome s (handle_message now send s)"
  "same_outcome s (handler_write jw sw s)"
proof -
  show "same_outcome s (receive_message msg s)"
    by (simp add: receive_message_def split: option.splits)
  show "same_outcome s (handle_message now send s)"
    by (auto simp: handle_message_def Let_def start_same emit_same same_fail
        split: list.splits child_message.splits)
  show "same_outcome s (handler_write jw sw s)"
    by (auto simp: handler_write_def launch_agent_def Let_def
        split: option.splits child_message.splits sum.splits prod.splits)
qed

lemma intents_same:
  "same_outcome s (stop_run s)" "same_outcome s (reserve_stop s)"
  "same_outcome s (runner_exited m s)" "same_outcome s (runner_error m s)"
proof -
  show "same_outcome s (reserve_stop s)"
    by (simp add: same_outcome_def reserve_stop_def send_message_def close_on_intent_def)
  then show "same_outcome s (stop_run s)"
    by (cases "rs_intent s")
      (auto simp: stop_run_def same_outcome_def ensure_terminal_task_def reserve_stop_def
        send_message_def close_on_intent_def)
  show "same_outcome s (runner_exited m s)" "same_outcome s (runner_error m s)"
    by (simp_all add: runner_exited_def runner_error_def)
qed

lemma outcome_final:
  "outcome_ok s \<Longrightarrow> p \<noteq> Fin_Deliver \<Longrightarrow> (p \<noteq> Fin_None \<Longrightarrow> rs_final s \<noteq> Fin_None) \<Longrightarrow>
   outcome_ok (s\<lparr>rs_final := p\<rparr>)"
  by (simp add: outcome_ok_def)

lemma outcome_candidate:
  assumes "outcome_ok s" "rs_intent s = Some t" "wr_status r = Run_Done (ti_status t)"
    and "wr_error r = ti_error t" "wr_ended r \<noteq> None"
  shows "outcome_ok (s\<lparr>rs_candidate := Some r, rs_final := Fin_Journal\<rparr>)"
proof -
  have "\<exists>u. rs_intent s = Some u \<and> wr_status r = Run_Done (ti_status u) \<and> wr_error r = ti_error u \<and>
      wr_ended r \<noteq> None" using assms(2-5) by blast
  with assms(1,2) show ?thesis unfolding outcome_ok_def by simp
qed

lemma fin_outcome:
  assumes ok: "outcome_ok s"
  shows "outcome_ok (fin_stop_runner b s)" "outcome_ok (fin_close b s)" "outcome_ok (fin_drain s)"
    "outcome_ok (fin_next now s)" "outcome_ok (fin_result_journal w s)"
    "outcome_ok (fin_result_store w s)" "outcome_ok (fin_journal w s)" "outcome_ok (fin_store w s)"
    "outcome_ok (fin_deliver b s)"
proof -
  show "outcome_ok (fin_stop_runner b s)" "outcome_ok (fin_close b s)" "outcome_ok (fin_drain s)"
    using ok by (auto simp: fin_stop_runner_def fin_close_def fin_drain_def
        intro!: outcome_final split: final_pc.splits)
  show "outcome_ok (fin_next now s)"
  proof (cases "\<exists>r. rs_final s = Fin_Loop r")
    case False
    with ok show ?thesis by (auto simp: fin_next_def split: final_pc.splits)
  next
    case True
    then obtain ro where ro: "rs_final s = Fin_Loop ro" by blast
    have cb: "outcome_ok (complete_begin i st r e now s)"
      "rs_final (complete_begin i st r e now s) = rs_final s" for i st r e
      using outcome_same [OF ok same_more(2) [OF same_intro(1)]]
      by (simp_all add: complete_begin_def Let_def split: option.splits)
    show ?thesis
    proof (cases "find (\<lambda>(i, c). \<not> cl_completed c) (rs_calls s)")
      case (Some ic)
      with ro cb show ?thesis
        by (cases ic) (simp add: fin_next_def outcome_final)
    next
      case None
      from ok ro obtain t where t: "rs_intent s = Some t" by (auto simp: outcome_ok_def)
      show ?thesis
      proof (cases "ro \<and> rs_candidate s = None")
        case True
        let ?r = "(rs_draft s)\<lparr>wr_status := Run_Done (ti_status (requested s)),
          wr_result := (if ti_status (requested s) = St_Completed
                        then ti_result (requested s) else Null),
          wr_error := ti_error (requested s), wr_ended := Some now, wr_updated := now\<rparr>"
        have "fin_next now s = s\<lparr>rs_candidate := Some ?r, rs_final := Fin_Journal\<rparr>"
          using True None ro by (simp add: fin_next_def)
        moreover have "outcome_ok (s\<lparr>rs_candidate := Some ?r, rs_final := Fin_Journal\<rparr>)"
          by (rule outcome_candidate [OF ok t]) (simp_all add: requested_def t)
        ultimately show ?thesis by simp
      next
        case False
        then have "fin_next now s = s\<lparr>rs_final := if ro then Fin_Journal else Fin_None\<rparr>"
          using None ro by (auto simp: fin_next_def)
        with outcome_final [OF ok] ro show ?thesis by simp
      qed
    qed
  qed
  show "outcome_ok (fin_result_journal w s)"
  proof (cases "\<exists>r i. rs_final s = Fin_Result_Journal r i")
    case False
    with ok show ?thesis by (auto simp: fin_result_journal_def split: final_pc.splits)
  next
    case True
    then obtain ro i where ro: "rs_final s = Fin_Result_Journal ro i" by blast
    obtain r t where w: "write_result i w s = (r, t)" by fastforce
    with same_more(5) [of s s i w] have t: "same_outcome s t" by simp
    then have "rs_final t = rs_final s" using ro by (auto simp: same_outcome_def)
    with w ro outcome_same [OF ok t] show ?thesis
      by (auto simp: fin_result_journal_def intro!: outcome_final split: option.splits)
  qed
  show "outcome_ok (fin_result_store w s)"
  proof -
    have "outcome_ok (set_call i g (write_store s))" for i g
      by (rule outcome_same [OF ok]) simp
    with ok show ?thesis
      by (auto simp: fin_result_store_def intro!: outcome_final split: final_pc.splits option.splits)
  qed
  show "outcome_ok (fin_journal w s)"
  proof -
    have "outcome_ok (s\<lparr>rs_journal := j\<rparr>)" for j by (rule outcome_same [OF ok]) simp
    with ok show ?thesis
      by (auto simp: fin_journal_def intro!: outcome_final
          split: final_pc.splits option.splits prod.splits sum.splits)
  qed
  show "outcome_ok (fin_store w s)"
    using ok by (auto simp: fin_store_def outcome_ok_def split: final_pc.splits option.splits)
  show "outcome_ok (fin_deliver b s)"
    using ok by (auto simp: fin_deliver_def outcome_ok_def terminal_of_def reports_def
        split: final_pc.splits option.splits)
qed

lemma do_step_outcome: "outcome_ok s \<Longrightarrow> outcome_ok (do_step jp q s)"
  by (cases q) (simp_all add: fin_outcome outcome_same [OF _ message_same(1)]
      outcome_same [OF _ message_same(2)] outcome_same [OF _ message_same(3)]
      outcome_same [OF _ task_same(1)] outcome_same [OF _ task_same(2)]
      outcome_same [OF _ task_same(3)] outcome_same [OF _ task_same(4)]
      outcome_same [OF _ task_same(5)] outcome_same [OF _ task_same(6)]
      outcome_same [OF _ task_same(7)] outcome_same [OF _ task_same(8)]
      outcome_same [OF _ task_same(9)] outcome_same [OF _ result_journal_same]
      outcome_same [OF _ intents_same(1)] outcome_same [OF _ intents_same(2)]
      outcome_same [OF _ intents_same(3)] outcome_same [OF _ intents_same(4)])

lemma run_outcome: "outcome_ok (run_workflow jp qs (initialized_run r))"
proof -
  have "outcome_ok (run_workflow jp qs s)" if "outcome_ok s" for s
    using that unfolding run_workflow_def
    by (induction qs arbitrary: s) (simp_all add: do_step_outcome)
  moreover have "outcome_ok (initialized_run r)"
    by (simp add: outcome_ok_def initialized_run_def)
  ultimately show ?thesis by blast
qed


definition settled_steps :: "wf_step list" where
  "settled_steps = [W_Receive (Some (M_Run_Completed (Num 1))), W_Handle 1 None,
     W_Fin_Stop_Runner True, W_Fin_Close True, W_Fin_Drain, W_Fin_Next 2, W_Fin_Journal None,
     W_Fin_Store None, W_Fin_Deliver True]"


end
