(* ===== verification/Cron_Store.thy ===== *)
theory Cron_Store
  imports Js_Value Transactional_Store
begin

text \<open>
  \<^verbatim>\<open>packages/dreamux/src/service/scheduler\<close>: \<^verbatim>\<open>types.ts\<close>, \<^verbatim>\<open>cron-validation.ts\<close> and
  \<^verbatim>\<open>store.ts\<close>, the cron jobs of one owner and the file that holds them.

  The cron library and the platform's time zones are a parameter, \<open>cron_lib\<close>: whether a
  pattern parses in a time zone, whether a time zone is known, the next run strictly asked
  for after an instant, and the next two runs.  \<^verbatim>\<open>Date.now()\<close> and \<^verbatim>\<open>new Date()\<close> are an
  argument; the two readings inside one validation are the same instant.
\<close>

subsection \<open>Schedules\<close>

record cron_lib =
  cl_parses :: "string \<Rightarrow> string \<Rightarrow> bool"
  cl_zone :: "string \<Rightarrow> bool"
  cl_next :: "string \<Rightarrow> string \<Rightarrow> ms \<Rightarrow> ms option"
  cl_next_two :: "string \<Rightarrow> string \<Rightarrow> ms \<Rightarrow> ms list"

definition MIN_CRON_INTERVAL_MS :: ms where
  "MIN_CRON_INTERVAL_MS = 60000"

datatype cron_rule =
    Not_Five_Fields
  | Unknown_Zone string
  | Not_A_Pattern string
  | No_Future_Run
  | Interval_Too_Short

text \<open>\<^verbatim>\<open>split(/\s+/)\<close>.\<close>

function split_ws :: "string \<Rightarrow> string list" where
  "split_ws s =
     (case dropWhile (\<lambda>c. \<not> ws_char c) s of
        [] \<Rightarrow> [s]
      | c # cs \<Rightarrow> takeWhile (\<lambda>c. \<not> ws_char c) s # split_ws (dropWhile ws_char cs))"
  by auto
termination
proof (relation "measure length")
  fix s c cs assume "dropWhile (\<lambda>c. \<not> ws_char c) s = c # cs"
  then have "length cs < length s"
    by (metis length_dropWhile_le length_Cons less_eq_Suc_le)
  then show "(dropWhile ws_char cs, s) \<in> measure length"
    using le_less_trans [OF length_dropWhile_le] by simp
qed simp

declare split_ws.simps [simp del]

definition parse_cron :: "cron_lib \<Rightarrow> string \<Rightarrow> string \<Rightarrow> cron_rule option" where
  "parse_cron c pattern tz = (if cl_parses c pattern tz then None else Some (Not_A_Pattern pattern))"

definition assert_known_time_zone :: "cron_lib \<Rightarrow> string \<Rightarrow> cron_rule option" where
  "assert_known_time_zone c tz = (if cl_zone c tz then None else Some (Unknown_Zone tz))"

text \<open>\<open>None\<close> where the source returns, the broken rule where it calls \<^verbatim>\<open>fail\<close>.\<close>

definition validate_cron_schedule ::
  "cron_lib \<Rightarrow> ms \<Rightarrow> string \<Rightarrow> string \<Rightarrow> bool \<Rightarrow> cron_rule option" where
  "validate_cron_schedule c now cron tz recurring =
     (if length (split_ws (trim cron)) \<noteq> 5 then Some Not_Five_Fields
      else (case assert_known_time_zone c tz of
          Some e \<Rightarrow> Some e
        | None \<Rightarrow> (case parse_cron c cron tz of
              Some e \<Rightarrow> Some e
            | None \<Rightarrow>
                if cl_next c cron tz now = None then Some No_Future_Run
                else if \<not> recurring then None
                else (let runs = cl_next_two c cron tz now in
                      if length runs < 2 then None
                      else if runs ! 1 - runs ! 0 < MIN_CRON_INTERVAL_MS
                      then Some Interval_Too_Short
                      else None))))"

subsection \<open>Jobs\<close>

datatype cron_action = Prompt_Agent string

fun action_prompt :: "cron_action \<Rightarrow> string" where
  "action_prompt (Prompt_Agent p) = p"

record cron_job =
  cj_id :: string
  cj_title :: "string option"
  cj_cron :: string
  cj_tz :: string
  cj_recurring :: bool
  cj_action :: cron_action
  cj_enabled :: bool
  cj_created :: ms
  cj_updated :: ms
  cj_next :: "ms option"
  cj_last :: "ms option"

record cron_create_input =
  cc_title :: "string option"
  cc_cron :: string
  cc_tz :: string
  cc_recurring :: bool
  cc_action :: cron_action
  cc_next :: "ms option"

text \<open>A field the update leaves alone is \<open>None\<close>; a title of \<open>Some None\<close> clears it.\<close>

record cron_update_input =
  cu_title :: "string option option"
  cu_cron :: "string option"
  cu_tz :: "string option"
  cu_recurring :: "bool option"
  cu_action :: "cron_action option"
  cu_enabled :: "bool option"
  cu_next :: "ms option option"

text \<open>What a settlement writes: \<^verbatim>\<open>{ enabled?, nextRunAt }\<close>.\<close>

record cron_advance =
  ca_enabled :: "bool option"
  ca_next :: "ms option"

subsection \<open>Errors\<close>

datatype legacy_reason =
    Not_This_Version
  | Not_Json
  | No_Jobs_Array
  | Non_Object_Job
  | Bad_Field string
  | Non_Object_Action
  | Removed_Action
  | Unknown_Action string
  | Invalid_Job string cron_rule

datatype cron_error =
    Read_Failed
  | Legacy_State legacy_reason
  | Job_Not_Found string
  | Rule_Violation cron_rule
  | Empty_Prompt
  | Empty_Title

subsection \<open>Reading the file\<close>

definition required_string :: "(string \<times> js) list \<Rightarrow> string \<Rightarrow> cron_error + string" where
  "required_string ob key =
     (case jget ob key of
        Str s \<Rightarrow> if s = '''' then Inl (Legacy_State (Bad_Field key)) else Inr s
      | _ \<Rightarrow> Inl (Legacy_State (Bad_Field key)))"

definition optional_string :: "(string \<times> js) list \<Rightarrow> string \<Rightarrow> cron_error + string option" where
  "optional_string ob key =
     (case jget ob key of
        Undef \<Rightarrow> Inr None
      | Str s \<Rightarrow> if s = '''' then Inl (Legacy_State (Bad_Field key)) else Inr (Some s)
      | _ \<Rightarrow> Inl (Legacy_State (Bad_Field key)))"

definition required_boolean :: "(string \<times> js) list \<Rightarrow> string \<Rightarrow> cron_error + bool" where
  "required_boolean ob key =
     (case jget ob key of Bool b \<Rightarrow> Inr b | _ \<Rightarrow> Inl (Legacy_State (Bad_Field key)))"

definition required_number :: "(string \<times> js) list \<Rightarrow> string \<Rightarrow> cron_error + ms" where
  "required_number ob key =
     (case jget ob key of Num n \<Rightarrow> Inr n | _ \<Rightarrow> Inl (Legacy_State (Bad_Field key)))"

definition optional_number_or_null ::
  "(string \<times> js) list \<Rightarrow> string \<Rightarrow> cron_error + ms option" where
  "optional_number_or_null ob key =
     (case jget ob key of
        Undef \<Rightarrow> Inr None
      | Null \<Rightarrow> Inr None
      | Num n \<Rightarrow> Inr (Some n)
      | _ \<Rightarrow> Inl (Legacy_State (Bad_Field key)))"

definition parse_action :: "js \<Rightarrow> cron_error + cron_action" where
  "parse_action raw =
     (case raw of
        Obj ob \<Rightarrow>
          bind_res (required_string ob ''kind'') (\<lambda>kind.
            if kind = ''prompt-agent''
            then bind_res (required_string ob ''prompt'') (\<lambda>p. Inr (Prompt_Agent p))
            else if kind = ''spawn-teammate'' then Inl (Legacy_State Removed_Action)
            else Inl (Legacy_State (Unknown_Action kind)))
      | _ \<Rightarrow> Inl (Legacy_State Non_Object_Action))"

definition parse_cron_job :: "js \<Rightarrow> cron_error + cron_job" where
  "parse_cron_job raw =
     (case raw of
        Obj ob \<Rightarrow>
          bind_res (required_string ob ''id'') (\<lambda>id.
          bind_res (parse_action (jget ob ''action'')) (\<lambda>action.
          bind_res (optional_string ob ''title'') (\<lambda>title.
          bind_res (required_string ob ''cron'') (\<lambda>cron.
          bind_res (required_string ob ''tz'') (\<lambda>tz.
          bind_res (required_boolean ob ''recurring'') (\<lambda>recurring.
          bind_res (required_boolean ob ''enabled'') (\<lambda>enabled.
          bind_res (required_number ob ''created_at'') (\<lambda>created.
          bind_res (required_number ob ''updated_at'') (\<lambda>updated.
          bind_res (optional_number_or_null ob ''next_run_at'') (\<lambda>next_run.
          bind_res (optional_number_or_null ob ''last_fired_at'') (\<lambda>last_fired.
            Inr \<lparr>cj_id = id, cj_title = title, cj_cron = cron, cj_tz = tz,
                 cj_recurring = recurring, cj_action = action, cj_enabled = enabled,
                 cj_created = created, cj_updated = updated, cj_next = next_run,
                 cj_last = last_fired\<rparr>)))))))))))
      | _ \<Rightarrow> Inl (Legacy_State Non_Object_Job))"

definition parse_cron_job_file :: "(string \<times> js) list \<Rightarrow> cron_error + cron_job list" where
  "parse_cron_job_file ob =
     (case jget ob ''jobs'' of
        Arr xs \<Rightarrow> map_res parse_cron_job xs
      | _ \<Rightarrow> Inl (Legacy_State No_Jobs_Array))"

definition assert_valid_cron :: "cron_lib \<Rightarrow> ms \<Rightarrow> cron_job \<Rightarrow> cron_error option" where
  "assert_valid_cron c now j =
     map_option (\<lambda>e. Legacy_State (Invalid_Job (cj_id j) e))
       (validate_cron_schedule c now (cj_cron j) (cj_tz j) (cj_recurring j))"

fun assert_valid_jobs :: "cron_lib \<Rightarrow> ms \<Rightarrow> cron_job list \<Rightarrow> cron_error option" where
  "assert_valid_jobs c now [] = None"
| "assert_valid_jobs c now (j # js) =
     (case assert_valid_cron c now j of Some e \<Rightarrow> Some e | None \<Rightarrow> assert_valid_jobs c now js)"

text \<open>The store's value is the \<^verbatim>\<open>jobs\<close> array; \<^verbatim>\<open>version\<close> is the constant 1.\<close>

definition load_cron_jobs :: "cron_lib \<Rightarrow> ms \<Rightarrow> json_file option \<Rightarrow> cron_error + cron_job list" where
  "load_cron_jobs c now f =
     (case f of
        None \<Rightarrow> Inr []
      | Some Jf_Unreadable \<Rightarrow> Inl Read_Failed
      | Some Jf_Malformed \<Rightarrow> Inl (Legacy_State Not_Json)
      | Some (Jf_Value (Obj ob)) \<Rightarrow>
          (if jget ob ''version'' \<noteq> Num 1 then Inl (Legacy_State Not_This_Version)
           else bind_res (parse_cron_job_file ob) (\<lambda>jobs.
                  case assert_valid_jobs c now jobs of Some e \<Rightarrow> Inl e | None \<Rightarrow> Inr jobs))
      | Some (Jf_Value _) \<Rightarrow> Inl (Legacy_State Not_This_Version))"

definition num_or_null :: "ms option \<Rightarrow> js" where
  "num_or_null n = (case n of None \<Rightarrow> Null | Some x \<Rightarrow> Num x)"

definition encode_cron_job :: "cron_job \<Rightarrow> js" where
  "encode_cron_job j = Obj
     ([(''id'', Str (cj_id j))] @
      (case cj_title j of None \<Rightarrow> [] | Some t \<Rightarrow> [(''title'', Str t)]) @
      [(''cron'', Str (cj_cron j)), (''tz'', Str (cj_tz j)), (''recurring'', Bool (cj_recurring j)),
       (''action'', Obj [(''kind'', Str ''prompt-agent''),
                         (''prompt'', Str (action_prompt (cj_action j)))]),
       (''enabled'', Bool (cj_enabled j)), (''created_at'', Num (cj_created j)),
       (''updated_at'', Num (cj_updated j)), (''next_run_at'', num_or_null (cj_next j)),
       (''last_fired_at'', num_or_null (cj_last j))])"

definition encode_cron_jobs :: "cron_job list \<Rightarrow> json_file" where
  "encode_cron_jobs jobs = Jf_Value (Obj
     [(''version'', Num 1), (''jobs'', Arr (map encode_cron_job jobs))])"

subsection \<open>The changes the store commits\<close>

text \<open>
  Each is what the source passes to \<^verbatim>\<open>store.update\<close>: \<open>None\<close> where it returns the value it
  was given, an error where it throws.
\<close>

definition new_cron_job :: "string \<Rightarrow> ms \<Rightarrow> cron_create_input \<Rightarrow> cron_job" where
  "new_cron_job jid now i =
     \<lparr>cj_id = jid, cj_title = cc_title i, cj_cron = cc_cron i, cj_tz = cc_tz i,
      cj_recurring = cc_recurring i, cj_action = cc_action i, cj_enabled = True,
      cj_created = now, cj_updated = now, cj_next = cc_next i, cj_last = None\<rparr>"

definition create_change :: "cron_job \<Rightarrow> cron_job list \<Rightarrow> cron_error + cron_job list option" where
  "create_change j jobs = Inr (Some (jobs @ [j]))"

definition find_job :: "string \<Rightarrow> cron_job list \<Rightarrow> cron_job option" where
  "find_job jid jobs = find (\<lambda>j. cj_id j = jid) jobs"

definition set_job :: "string \<Rightarrow> cron_job \<Rightarrow> cron_job list \<Rightarrow> cron_job list" where
  "set_job jid next jobs = update_first (\<lambda>j. cj_id j = jid) (\<lambda>_. next) jobs"

definition given :: "'a option \<Rightarrow> 'a \<Rightarrow> 'a" where
  "given x old = (case x of None \<Rightarrow> old | Some v \<Rightarrow> v)"

definition apply_update :: "ms \<Rightarrow> cron_update_input \<Rightarrow> cron_job \<Rightarrow> cron_job" where
  "apply_update now i existing =
     existing\<lparr>cj_updated := now, cj_title := given (cu_title i) (cj_title existing),
       cj_cron := given (cu_cron i) (cj_cron existing), cj_tz := given (cu_tz i) (cj_tz existing),
       cj_recurring := given (cu_recurring i) (cj_recurring existing),
       cj_action := given (cu_action i) (cj_action existing),
       cj_enabled := given (cu_enabled i) (cj_enabled existing),
       cj_next := given (cu_next i) (cj_next existing)\<rparr>"

definition update_change ::
  "string \<Rightarrow> (cron_job \<Rightarrow> cron_error + cron_update_input) \<Rightarrow> ms \<Rightarrow> cron_job list \<Rightarrow>
   cron_error + cron_job list option" where
  "update_change jid derive now jobs =
     (case find_job jid jobs of
        None \<Rightarrow> Inl (Job_Not_Found jid)
      | Some existing \<Rightarrow>
          bind_res (derive existing) (\<lambda>i.
            Inr (Some (set_job jid (apply_update now i existing) jobs))))"

definition delete_change :: "string \<Rightarrow> cron_job list \<Rightarrow> cron_error + cron_job list option" where
  "delete_change jid jobs =
     (let rest = filter (\<lambda>j. cj_id j \<noteq> jid) jobs in
      if length rest = length jobs then Inr None else Inr (Some rest))"

definition apply_advance :: "cron_advance \<Rightarrow> cron_job \<Rightarrow> cron_job" where
  "apply_advance a j =
     j\<lparr>cj_next := ca_next a, cj_enabled := given (ca_enabled a) (cj_enabled j)\<rparr>"

definition set_fired_change ::
  "string \<Rightarrow> ms \<Rightarrow> (cron_job \<Rightarrow> cron_advance option) \<Rightarrow> cron_job list \<Rightarrow>
   cron_error + cron_job list option" where
  "set_fired_change jid fired_at advance jobs =
     (case find_job jid jobs of
        None \<Rightarrow> Inr None
      | Some existing \<Rightarrow>
          (let fired = existing\<lparr>cj_last := Some fired_at, cj_updated := fired_at\<rparr> in
           Inr (Some (set_job jid
             (case advance existing of None \<Rightarrow> fired | Some a \<Rightarrow> apply_advance a fired) jobs))))"

definition apply_missed_change ::
  "string \<Rightarrow> ms \<Rightarrow> (cron_job \<Rightarrow> cron_advance option) \<Rightarrow> cron_job list \<Rightarrow>
   cron_error + cron_job list option" where
  "apply_missed_change jid now advance jobs =
     (case find_job jid jobs of
        None \<Rightarrow> Inr None
      | Some existing \<Rightarrow>
          (case advance existing of
             None \<Rightarrow> Inr None
           | Some a \<Rightarrow>
               Inr (Some (set_job jid (apply_advance a (existing\<lparr>cj_updated := now\<rparr>)) jobs))))"

subsection \<open>What is written loads back\<close>

definition job_storable :: "cron_lib \<Rightarrow> ms \<Rightarrow> cron_job \<Rightarrow> bool" where
  "job_storable c now j \<longleftrightarrow>
     cj_id j \<noteq> '''' \<and> cj_title j \<noteq> Some '''' \<and> cj_cron j \<noteq> '''' \<and> cj_tz j \<noteq> '''' \<and>
     action_prompt (cj_action j) \<noteq> '''' \<and>
     validate_cron_schedule c now (cj_cron j) (cj_tz j) (cj_recurring j) = None"

definition jobs_storable :: "cron_lib \<Rightarrow> ms \<Rightarrow> cron_job list \<Rightarrow> bool" where
  "jobs_storable c now jobs \<longleftrightarrow> (\<forall>j \<in> set jobs. job_storable c now j)"

lemma parse_encode_job:
  assumes "job_storable c now j"
  shows "parse_cron_job (encode_cron_job j) = Inr j"
  using assms
  by (cases j; cases "cj_action j")
     (auto simp: job_storable_def parse_cron_job_def encode_cron_job_def required_string_def
       optional_string_def required_boolean_def required_number_def optional_number_or_null_def
       parse_action_def num_or_null_def split: option.splits)

lemma assert_valid_jobs_None:
  "assert_valid_jobs c now jobs = None \<longleftrightarrow>
   (\<forall>j \<in> set jobs. validate_cron_schedule c now (cj_cron j) (cj_tz j) (cj_recurring j) = None)"
  by (induction jobs) (auto simp: assert_valid_cron_def split: option.splits)

lemma load_encode_jobs:
  assumes "jobs_storable c now jobs"
  shows "load_cron_jobs c now (Some (encode_cron_jobs jobs)) = Inr jobs"
proof -
  have "map_res parse_cron_job (map encode_cron_job jobs) = Inr jobs"
    using assms by (induction jobs) (auto simp: jobs_storable_def parse_encode_job)
  moreover from assms have "assert_valid_jobs c now jobs = None"
    by (auto simp: assert_valid_jobs_None jobs_storable_def job_storable_def)
  ultimately show ?thesis
    by (simp add: load_cron_jobs_def encode_cron_jobs_def parse_cron_job_file_def)
qed

lemma required_string_Inr:
  "required_string ob k = Inr s \<longleftrightarrow> jget ob k = Str s \<and> s \<noteq> ''''"
  by (auto simp: required_string_def split: js.splits if_splits)

lemma optional_string_Inr: "optional_string ob k = Inr t \<Longrightarrow> t \<noteq> Some ''''"
  by (auto simp: optional_string_def split: js.splits if_splits)

lemma parse_action_Inr: "parse_action x = Inr a \<Longrightarrow> action_prompt a \<noteq> ''''"
  by (auto simp: parse_action_def bind_res_Inr_iff required_string_Inr split: js.splits if_splits)

lemma parse_job_fields:
  assumes "parse_cron_job x = Inr j"
  shows "cj_id j \<noteq> '''' \<and> cj_title j \<noteq> Some '''' \<and> cj_cron j \<noteq> '''' \<and> cj_tz j \<noteq> '''' \<and>
     action_prompt (cj_action j) \<noteq> ''''"
  using assms
  by (auto simp: parse_cron_job_def bind_res_Inr_iff required_string_Inr
      dest: optional_string_Inr parse_action_Inr split: js.splits)

lemma load_jobs_storable:
  assumes "load_cron_jobs c now f = Inr jobs"
  shows "jobs_storable c now jobs"
proof (cases f)
  case None
  with assms show ?thesis by (simp add: load_cron_jobs_def jobs_storable_def)
next
  case (Some v)
  with assms obtain ob where
    p: "parse_cron_job_file ob = Inr jobs" and a: "assert_valid_jobs c now jobs = None"
    by (auto simp: load_cron_jobs_def bind_res_Inr_iff
        split: json_file.splits js.splits if_splits option.splits)
  from p obtain xs where "map_res parse_cron_job xs = Inr jobs"
    by (auto simp: parse_cron_job_file_def split: js.splits)
  then have "\<forall>j \<in> set jobs. \<exists>x. parse_cron_job x = Inr j"
    by (blast dest: map_res_set)
  with a show ?thesis
    by (auto simp: jobs_storable_def job_storable_def assert_valid_jobs_None
        dest!: parse_job_fields)
qed

interpretation cron_owner: durable_owner "load_cron_jobs c now" encode_cron_jobs
  "jobs_storable c now" for c now
  by unfold_locales (erule load_encode_jobs load_jobs_storable)+

subsection \<open>Rows\<close>

lemma find_job_Some: "find_job k jobs = Some j \<Longrightarrow> j \<in> set jobs \<and> cj_id j = k"
  by (auto simp: find_job_def dest: find_Some_in)

lemma find_job_None: "find_job k jobs = None \<longleftrightarrow> k \<notin> cj_id ` set jobs"
  by (auto simp: find_job_def find_None_iff)

lemma find_job_distinct:
  "distinct (map cj_id jobs) \<Longrightarrow> j \<in> set jobs \<Longrightarrow> find_job (cj_id j) jobs = Some j"
  by (simp add: find_job_def find_distinct_key)

lemma find_set_job:
  "cj_id n = k \<Longrightarrow> find_job i (set_job k n jobs) =
     (if i = k then map_option (\<lambda>_. n) (find_job k jobs) else find_job i jobs)"
  by (induction jobs) (auto simp: find_job_def set_job_def)

lemma ids_set_job [simp]: "cj_id n = k \<Longrightarrow> map cj_id (set_job k n jobs) = map cj_id jobs"
  by (auto simp: set_job_def intro: map_update_first)

lemma in_set_job:
  "distinct (map cj_id jobs) \<Longrightarrow> j \<in> set (set_job k n jobs) \<Longrightarrow> cj_id n = k \<Longrightarrow>
   if cj_id j = k then j = n else j \<in> set jobs"
  by (induction jobs) (auto simp: set_job_def image_iff split: if_splits)

lemma set_job_subset: "j \<in> set (set_job k n jobs) \<Longrightarrow> j \<in> set jobs \<or> j = n"
  by (auto simp: set_job_def dest: set_update_first)

lemma apply_update_id [simp]: "cj_id (apply_update now i j) = cj_id j"
  by (simp add: apply_update_def)

lemma apply_advance_id [simp]: "cj_id (apply_advance a j) = cj_id j"
  by (simp add: apply_advance_def)

end
