(* ===== verification/Scheduler.thy ===== *)
theory Scheduler
  imports Cron_Store
begin

text \<open>
  \<^verbatim>\<open>packages/dreamux/src/service/scheduler/index.ts\<close>, the scheduler of one owner.

  A state is the committed jobs, the store's queue of updates with the value its head is
  writing, the armed timers, and the submissions in flight.  A step is one turn of the
  event loop: what the code does between two points where other code can run.  A timer's
  callback runs on to the submission, because the store answers a read from memory; a
  store update computes its value in one step and is committed, or fails, in a later one,
  and what its caller does next happens in the turn of the commit.  The clock is part of
  the state and moves in steps of its own.
\<close>

subsection \<open>Requests\<close>

record cron_create_request =
  rc_cron :: string
  rc_prompt :: string
  rc_title :: "string option"
  rc_recurring :: "bool option"
  rc_tz :: "string option"

record cron_update_request =
  ru_id :: string
  ru_cron :: "string option"
  ru_prompt :: "string option"
  ru_title :: "string option option"
  ru_recurring :: "bool option"
  ru_tz :: "string option"
  ru_enabled :: "bool option"

definition normalize_action :: "string \<Rightarrow> cron_error + cron_action" where
  "normalize_action prompt = (if prompt = '''' then Inl Empty_Prompt else Inr (Prompt_Agent prompt))"

definition validate_action :: "cron_action \<Rightarrow> cron_error option" where
  "validate_action a = (if action_prompt a = '''' then Some Empty_Prompt else None)"

definition assert_title :: "string option \<Rightarrow> cron_error option" where
  "assert_title t = (if t = Some '''' then Some Empty_Title else None)"

definition validate_cron :: "cron_lib \<Rightarrow> ms \<Rightarrow> string \<Rightarrow> string \<Rightarrow> bool \<Rightarrow> cron_error option" where
  "validate_cron c now pattern tz recurring =
     map_option Rule_Violation (validate_cron_schedule c now pattern tz recurring)"

text \<open>A check that passes goes on; a broken rule is the caller's mistake.\<close>

definition checked :: "cron_error option \<Rightarrow> (cron_error + 'a) \<Rightarrow> cron_error + 'a" where
  "checked e k = (case e of None \<Rightarrow> k | Some x \<Rightarrow> Inl x)"

definition next_run_after :: "cron_lib \<Rightarrow> string \<Rightarrow> string \<Rightarrow> ms \<Rightarrow> ms option" where
  "next_run_after c pattern tz after = cl_next c pattern tz after"

definition normalize_create ::
  "cron_lib \<Rightarrow> string \<Rightarrow> ms \<Rightarrow> cron_create_request \<Rightarrow> cron_error + cron_create_input" where
  "normalize_create c local_tz now r =
     (let tz = given (rc_tz r) local_tz; recurring = given (rc_recurring r) True in
      bind_res (normalize_action (rc_prompt r)) (\<lambda>action.
        checked (assert_title (rc_title r))
          (checked (validate_cron c now (rc_cron r) tz recurring)
            (checked (validate_action action)
              (Inr \<lparr>cc_title = rc_title r, cc_cron = rc_cron r, cc_tz = tz,
                    cc_recurring = recurring, cc_action = action,
                    cc_next = next_run_after c (rc_cron r) tz now\<rparr>)))))"

text \<open>\<^verbatim>\<open>normalizeUpdate\<close> and the derivation \<^verbatim>\<open>doUpdate\<close> hands the store.\<close>

definition normalize_update ::
  "cron_lib \<Rightarrow> ms \<Rightarrow> cron_update_request \<Rightarrow> cron_job \<Rightarrow> cron_error + cron_update_input" where
  "normalize_update c now r current =
     (let cron = given (ru_cron r) (cj_cron current); tz = given (ru_tz r) (cj_tz current);
          recurring = given (ru_recurring r) (cj_recurring current);
          action = (case ru_prompt r of Some p \<Rightarrow> Prompt_Agent p | None \<Rightarrow> cj_action current);
          enabled = given (ru_enabled r) (cj_enabled current) in
      checked (assert_title (case ru_title r of Some t \<Rightarrow> t | None \<Rightarrow> None))
        (checked (validate_cron c now cron tz recurring)
          (checked (validate_action action)
            (Inr \<lparr>cu_title = ru_title r, cu_cron = Some cron, cu_tz = Some tz,
                  cu_recurring = Some recurring, cu_action = Some action, cu_enabled = ru_enabled r,
                  cu_next = Some (if enabled then next_run_after c cron tz now else None)\<rparr>))))"


subsection \<open>What a passed occurrence turns a job into\<close>

definition advance_job :: "cron_lib \<Rightarrow> ms \<Rightarrow> cron_job \<Rightarrow> cron_advance" where
  "advance_job c now j =
     (if cj_recurring j
      then \<lparr>ca_enabled = None, ca_next = next_run_after c (cj_cron j) (cj_tz j) now\<rparr>
      else \<lparr>ca_enabled = Some False, ca_next = None\<rparr>)"

definition in_future :: "cron_job \<Rightarrow> ms \<Rightarrow> bool" where
  "in_future j now = (case cj_next j of None \<Rightarrow> False | Some t \<Rightarrow> now < t)"

definition missed_outcome :: "cron_lib \<Rightarrow> ms \<Rightarrow> cron_job \<Rightarrow> cron_advance option" where
  "missed_outcome c now current =
     (if \<not> cj_enabled current then None
      else if in_future current now then None
      else Some (advance_job c now current))"

definition reconcile_outcome :: "cron_lib \<Rightarrow> ms \<Rightarrow> cron_job \<Rightarrow> cron_advance option" where
  "reconcile_outcome c now current =
     (if \<not> cj_enabled current then None
      else if in_future current now then None
      else if \<not> cj_recurring current \<and> cj_next current \<noteq> None
      then Some (advance_job c now current)
      else Some \<lparr>ca_enabled = None,
                 ca_next = next_run_after c (cj_cron current) (cj_tz current) now\<rparr>)"

text \<open>
  The derivation of a fire: only the submitted occurrence of a job that is still enabled is
  consumed.
\<close>

definition fired_outcome :: "cron_lib \<Rightarrow> ms \<Rightarrow> cron_job \<Rightarrow> cron_job \<Rightarrow> cron_advance option" where
  "fired_outcome c now submitted current =
     (if \<not> cj_enabled current \<or> cj_next current \<noteq> cj_next submitted then None
      else Some (advance_job c now current))"

subsection \<open>State\<close>

text \<open>A submission: the job as it was read, the generation it was read in, its source id.\<close>

record fire =
  fi_job :: cron_job
  fi_gen :: nat
  fi_seq :: nat

datatype queued =
    Q_Create cron_job
  | Q_Update cron_update_request
  | Q_Delete string
  | Q_Fired fire ms
  | Q_Missed fire ms
  | Q_Reconcile string
  | Q_Remove

datatype reply =
    Reply_Job "cron_job option"
  | Reply_Deleted bool
  | Reply_Error cron_error
  | Reply_Write_Failed

record scheduler =
  sc_now :: ms
  sc_jobs :: "cron_job list"
  sc_queue :: "queued list"
  sc_writing :: "cron_job list option"
  sc_timers :: "string \<rightharpoonup> ms"
  sc_running :: bool
  sc_gen :: nat
  sc_starting :: "(string list \<times> cron_job list) option"
  sc_fires :: "fire list"
  sc_submitted :: "fire list"
  sc_replies :: "(queued \<times> reply) list"

definition new_scheduler :: "ms \<Rightarrow> cron_job list \<Rightarrow> scheduler" where
  "new_scheduler now jobs =
     \<lparr>sc_now = now, sc_jobs = jobs, sc_queue = [], sc_writing = None, sc_timers = Map.empty,
      sc_running = False, sc_gen = 0, sc_starting = None, sc_fires = [], sc_submitted = [],
      sc_replies = []\<rparr>"

definition clear_timer :: "string \<Rightarrow> scheduler \<Rightarrow> scheduler" where
  "clear_timer jid s = s\<lparr>sc_timers := (sc_timers s)(jid := None)\<rparr>"

definition arm_segment :: "string \<Rightarrow> ms \<Rightarrow> scheduler \<Rightarrow> scheduler" where
  "arm_segment jid due s =
     (if \<not> sc_running s then s else s\<lparr>sc_timers := (sc_timers s)(jid := Some due)\<rparr>)"

definition arm :: "cron_job \<Rightarrow> scheduler \<Rightarrow> scheduler" where
  "arm j s =
     (let s1 = clear_timer (cj_id j) s in
      if \<not> sc_running s1 \<or> \<not> cj_enabled j then s1
      else (case cj_next j of None \<Rightarrow> s1 | Some due \<Rightarrow> arm_segment (cj_id j) due s1))"

definition enqueue :: "queued \<Rightarrow> scheduler \<Rightarrow> scheduler" where
  "enqueue q s = s\<lparr>sc_queue := sc_queue s @ [q]\<rparr>"

definition answer :: "queued \<Rightarrow> reply \<Rightarrow> scheduler \<Rightarrow> scheduler" where
  "answer q r s = s\<lparr>sc_replies := sc_replies s @ [(q, r)]\<rparr>"

subsection \<open>A timer fires\<close>

text \<open>
  \<^verbatim>\<open>dispatchAdmitted\<close> and \<^verbatim>\<open>dispatch\<close> up to the submission.  A closed fence rejects; a job
  that is gone or disabled is left alone.
\<close>

definition dispatch :: "string \<Rightarrow> scheduler \<Rightarrow> scheduler" where
  "dispatch jid s =
     (case find_job jid (sc_jobs s) of
        None \<Rightarrow> s
      | Some j \<Rightarrow>
          if \<not> cj_enabled j then s
          else (let f = \<lparr>fi_job = j, fi_gen = sc_gen s, fi_seq = Suc (length (sc_submitted s))\<rparr> in
                s\<lparr>sc_fires := sc_fires s @ [f], sc_submitted := sc_submitted s @ [f]\<rparr>))"

definition timer_fires :: "string \<Rightarrow> bool \<Rightarrow> scheduler \<Rightarrow> scheduler" where
  "timer_fires jid fence_open s =
     (case sc_timers s jid of
        None \<Rightarrow> s
      | Some due \<Rightarrow>
          if sc_now s < due then arm_segment jid due s
          else (let s1 = clear_timer jid s in if fence_open then dispatch jid s1 else s1))"

subsection \<open>A submission is answered\<close>

datatype admission_result = Adm_Submitted | Adm_Ambiguous | Adm_Other | Adm_Threw

definition submission_settles :: "nat \<Rightarrow> admission_result \<Rightarrow> scheduler \<Rightarrow> scheduler" where
  "submission_settles n r s =
     (case find (\<lambda>f. fi_seq f = n) (sc_fires s) of
        None \<Rightarrow> s
      | Some f \<Rightarrow>
          (let s1 = s\<lparr>sc_fires := remove1 f (sc_fires s)\<rparr> in
           if r = Adm_Submitted \<or> r = Adm_Ambiguous then enqueue (Q_Fired f (sc_now s)) s1
           else if fi_gen f \<noteq> sc_gen s then s1
           else enqueue (Q_Missed f (sc_now s)) s1))"

subsection \<open>The store's queue\<close>

definition queued_change ::
  "cron_lib \<Rightarrow> ms \<Rightarrow> queued \<Rightarrow> cron_job list \<Rightarrow> cron_error + cron_job list option" where
  "queued_change c now q jobs =
     (case q of
        Q_Create j \<Rightarrow> create_change j jobs
      | Q_Update r \<Rightarrow> update_change (ru_id r) (normalize_update c now r) now jobs
      | Q_Delete jid \<Rightarrow> delete_change jid jobs
      | Q_Fired f t \<Rightarrow> set_fired_change (cj_id (fi_job f)) t (fired_outcome c t (fi_job f)) jobs
      | Q_Missed f t \<Rightarrow> apply_missed_change (cj_id (fi_job f)) now (missed_outcome c t) jobs
      | Q_Reconcile jid \<Rightarrow> apply_missed_change jid now (reconcile_outcome c now) jobs
      | Q_Remove \<Rightarrow> Inr (Some []))"

text \<open>The end of the loop of \<^verbatim>\<open>start\<close>: run, then arm what was reconciled.\<close>

definition start_finishes :: "cron_job list \<Rightarrow> scheduler \<Rightarrow> scheduler" where
  "start_finishes armable s = fold arm armable (s\<lparr>sc_running := True, sc_starting := None\<rparr>)"

definition reconciled :: "string \<Rightarrow> scheduler \<Rightarrow> scheduler" where
  "reconciled jid s =
     (case sc_starting s of
        Some (_ # ids, armable) \<Rightarrow>
          (let armable' = armable @ (case find_job jid (sc_jobs s) of None \<Rightarrow> [] | Some j \<Rightarrow> [j]) in
           (case ids of
              [] \<Rightarrow> start_finishes armable' s
            | k # _ \<Rightarrow> enqueue (Q_Reconcile k) (s\<lparr>sc_starting := Some (ids, armable')\<rparr>)))
      | _ \<Rightarrow> s)"

text \<open>
  What the caller of an update does in the turn that settles it; \<open>previous\<close> are the jobs the
  change saw.
\<close>

definition settle :: "cron_lib \<Rightarrow> queued \<Rightarrow> cron_job list \<Rightarrow> scheduler \<Rightarrow> scheduler" where
  "settle c q previous s =
     (case q of
        Q_Create j \<Rightarrow>
          (let s1 = answer q (Reply_Job (Some j)) s in if sc_running s1 then arm j s1 else s1)
      | Q_Update r \<Rightarrow>
          (case find_job (ru_id r) (sc_jobs s) of
             None \<Rightarrow> s
           | Some j \<Rightarrow>
               (let s1 = answer q (Reply_Job (Some j)) (clear_timer (cj_id j) s) in
                if sc_running s1 then arm j s1 else s1))
      | Q_Delete jid \<Rightarrow>
          answer q (Reply_Deleted (length (sc_jobs s) \<noteq> length previous)) s
      | Q_Fired f t \<Rightarrow>
          (case (find_job (cj_id (fi_job f)) previous, find_job (cj_id (fi_job f)) (sc_jobs s)) of
             (Some old, Some j) \<Rightarrow>
               if fired_outcome c t (fi_job f) old \<noteq> None \<and> fi_gen f = sc_gen s then arm j s else s
           | _ \<Rightarrow> s)
      | Q_Missed f t \<Rightarrow>
          (case find_job (cj_id (fi_job f)) (sc_jobs s) of None \<Rightarrow> s | Some j \<Rightarrow> arm j s)
      | Q_Reconcile jid \<Rightarrow> reconciled jid s
      | Q_Remove \<Rightarrow> s)"

text \<open>
  A failed update is its caller's: a fire that could not be recorded falls into the
  \<^verbatim>\<open>catch\<close> of \<^verbatim>\<open>dispatch\<close> and is settled as missed; a failed reconciliation ends the start.
\<close>

definition settle_failed :: "queued \<Rightarrow> reply \<Rightarrow> scheduler \<Rightarrow> scheduler" where
  "settle_failed q r s =
     (case q of
        Q_Fired f _ \<Rightarrow>
          if fi_gen f \<noteq> sc_gen s then s else enqueue (Q_Missed f (sc_now s)) s
      | Q_Reconcile _ \<Rightarrow> s\<lparr>sc_starting := None\<rparr>
      | Q_Missed _ _ \<Rightarrow> s
      | _ \<Rightarrow> answer q r s)"

text \<open>The head's turn: its change is computed; with nothing to write it settles at once.\<close>

definition begin_update :: "cron_lib \<Rightarrow> scheduler \<Rightarrow> scheduler" where
  "begin_update c s =
     (case (sc_writing s, sc_queue s) of
        (None, q # qs) \<Rightarrow>
          (case queued_change c (sc_now s) q (sc_jobs s) of
             Inl e \<Rightarrow> settle_failed q (Reply_Error e) (s\<lparr>sc_queue := qs\<rparr>)
           | Inr None \<Rightarrow> settle c q (sc_jobs s) (s\<lparr>sc_queue := qs\<rparr>)
           | Inr (Some next) \<Rightarrow> s\<lparr>sc_writing := Some next\<rparr>)
      | _ \<Rightarrow> s)"

definition write_settles :: "cron_lib \<Rightarrow> bool \<Rightarrow> scheduler \<Rightarrow> scheduler" where
  "write_settles c ok s =
     (case (sc_writing s, sc_queue s) of
        (Some next, q # qs) \<Rightarrow>
          (let s1 = s\<lparr>sc_writing := None, sc_queue := qs\<rparr> in
           if ok then settle c q (sc_jobs s) (s1\<lparr>sc_jobs := next\<rparr>)
           else settle_failed q Reply_Write_Failed s1)
      | _ \<Rightarrow> s)"

subsection \<open>Requests and the lifecycle\<close>

text \<open>
  The admitted verbs.  A create is normalised by the caller's turn; its id is the random
  one the source draws.
\<close>

definition create_job ::
  "cron_lib \<Rightarrow> string \<Rightarrow> string \<Rightarrow> cron_create_request \<Rightarrow> scheduler \<Rightarrow> cron_error + scheduler" where
  "create_job c local_tz jid r s =
     bind_res (normalize_create c local_tz (sc_now s) r) (\<lambda>i.
       Inr (enqueue (Q_Create (new_cron_job jid (sc_now s) i)) s))"

definition update_job :: "cron_update_request \<Rightarrow> scheduler \<Rightarrow> scheduler" where
  "update_job r s = enqueue (Q_Update r) s"

definition delete_job :: "string \<Rightarrow> scheduler \<Rightarrow> scheduler" where
  "delete_job jid s = enqueue (Q_Delete jid) (clear_timer jid s)"

definition start_scheduler :: "scheduler \<Rightarrow> scheduler" where
  "start_scheduler s =
     (if sc_running s \<or> sc_starting s \<noteq> None then s
      else (case map cj_id (sc_jobs s) of
          [] \<Rightarrow> start_finishes [] s
        | jid # ids \<Rightarrow>
            enqueue (Q_Reconcile jid) (s\<lparr>sc_starting := Some (jid # ids, [])\<rparr>)))"

definition stop_scheduler :: "scheduler \<Rightarrow> scheduler" where
  "stop_scheduler s = s\<lparr>sc_running := False, sc_gen := Suc (sc_gen s), sc_timers := Map.empty\<rparr>"

definition destroy_scheduler :: "scheduler \<Rightarrow> scheduler" where
  "destroy_scheduler s = enqueue Q_Remove (stop_scheduler s)"

datatype sched_step =
    S_Tick ms
  | S_Timer string bool
  | S_Settles nat admission_result
  | S_Begin
  | S_Write bool
  | S_Create string string cron_create_request
  | S_Update cron_update_request
  | S_Delete string
  | S_Start
  | S_Stop
  | S_Destroy

fun sched_do :: "cron_lib \<Rightarrow> sched_step \<Rightarrow> scheduler \<Rightarrow> scheduler" where
  "sched_do c (S_Tick t) s = s\<lparr>sc_now := t\<rparr>"
| "sched_do c (S_Timer jid fence_open) s = timer_fires jid fence_open s"
| "sched_do c (S_Settles n r) s = submission_settles n r s"
| "sched_do c S_Begin s = begin_update c s"
| "sched_do c (S_Write ok) s = write_settles c ok s"
| "sched_do c (S_Create tz jid r) s =
     (case create_job c tz jid r s of Inl _ \<Rightarrow> s | Inr s' \<Rightarrow> s')"
| "sched_do c (S_Update r) s = update_job r s"
| "sched_do c (S_Delete jid) s = delete_job jid s"
| "sched_do c S_Start s = start_scheduler s"
| "sched_do c S_Stop s = stop_scheduler s"
| "sched_do c S_Destroy s = destroy_scheduler s"

definition run_scheduler :: "cron_lib \<Rightarrow> sched_step list \<Rightarrow> scheduler \<Rightarrow> scheduler" where
  "run_scheduler c steps s = fold (sched_do c) steps s"

end
