(* ===== verification/Scheduler_Props.thy ===== *)
theory Scheduler_Props
  imports Scheduler
begin

text \<open>
  What the scheduler keeps: a file that always loads back, settlements that touch nothing an
  update changed, submissions only for due and enabled jobs of a running scheduler, no job
  without a timer in an orderly run and no occurrence submitted twice in a timely one; and
  the runs that show why those two conditions are there.
\<close>

subsection \<open>The file always loads back\<close>

text \<open>
  The contract of the cron library and the platform this rests on: a schedule that passes
  the rules keeps passing them, and the empty string names no time zone.
\<close>

definition timeless :: "cron_lib \<Rightarrow> bool" where
  "timeless c \<longleftrightarrow>
     (\<forall>cron tz r t t'. validate_cron_schedule c t cron tz r = None \<longrightarrow>
        validate_cron_schedule c t' cron tz r = None) \<and> \<not> cl_zone c ''''"

lemma split_ws_Nil: "split_ws '''' = ['''']"
  by (subst split_ws.simps) simp

lemma timeless_schedule:
  assumes "timeless c" "validate_cron_schedule c t cron tz r = None"
  shows "validate_cron_schedule c t' cron tz r = None \<and> cron \<noteq> '''' \<and> tz \<noteq> ''''"
proof -
  have "cron \<noteq> []"
    using assms(2) by (auto simp: validate_cron_schedule_def split_ws_Nil)
  moreover from assms(1) have "\<not> cl_zone c []"
    unfolding timeless_def by blast
  then have "tz \<noteq> []"
    using assms(2) by (auto simp: validate_cron_schedule_def assert_known_time_zone_def
        split: if_splits)
  moreover have "validate_cron_schedule c t' cron tz r = None"
    using assms unfolding timeless_def by blast
  ultimately show ?thesis by simp
qed

lemma checked_Inr: "checked e k = Inr v \<longleftrightarrow> e = None \<and> k = Inr v"
  by (auto simp: checked_def split: option.splits)

lemma normalize_create_fields:
  assumes "normalize_create c tz t r = Inr i"
  shows "action_prompt (cc_action i) \<noteq> [] \<and> cc_title i \<noteq> Some [] \<and>
    validate_cron_schedule c t (cc_cron i) (cc_tz i) (cc_recurring i) = None"
  using assms
  by (auto simp: normalize_create_def Let_def bind_res_Inr_iff checked_Inr
      validate_cron_def validate_action_def assert_title_def split: if_splits)

lemma normalize_create_storable:
  assumes "timeless c" "normalize_create c tz t r = Inr i" "jid \<noteq> []"
  shows "job_storable c now (new_cron_job jid t i)"
  using normalize_create_fields [OF assms(2)] assms(3)
    timeless_schedule [OF assms(1), of t "cc_cron i" "cc_tz i" "cc_recurring i" now]
  by (simp add: job_storable_def new_cron_job_def)

lemma normalize_update_fields:
  assumes "normalize_update c t r j = Inr i"
  shows "cu_cron i = Some (given (ru_cron r) (cj_cron j)) \<and>
    cu_tz i = Some (given (ru_tz r) (cj_tz j)) \<and>
    cu_recurring i = Some (given (ru_recurring r) (cj_recurring j)) \<and>
    cu_title i = ru_title r \<and> ru_title r \<noteq> Some (Some []) \<and>
    cu_action i = Some (case ru_prompt r of Some p \<Rightarrow> Prompt_Agent p | None \<Rightarrow> cj_action j) \<and>
    action_prompt (the (cu_action i)) \<noteq> [] \<and>
    cu_enabled i = ru_enabled r \<and>
    cu_next i = Some (if given (ru_enabled r) (cj_enabled j)
       then next_run_after c (the (cu_cron i)) (the (cu_tz i)) t else None) \<and>
    validate_cron_schedule c t (the (cu_cron i)) (the (cu_tz i)) (the (cu_recurring i)) = None"
  using assms
  by (auto simp: normalize_update_def Let_def checked_Inr validate_cron_def validate_action_def
      assert_title_def split: if_splits)

lemma normalize_update_storable:
  assumes "timeless c" "job_storable c now j" "normalize_update c t r j = Inr i"
  shows "job_storable c now (apply_update t' i j)"
  using normalize_update_fields [OF assms(3)] assms(2)
    timeless_schedule [OF assms(1), of t "the (cu_cron i)" "the (cu_tz i)"
      "the (cu_recurring i)" now]
  by (auto simp: job_storable_def apply_update_def given_def split: option.splits)

lemma advance_storable:
  "job_storable c now j \<Longrightarrow> job_storable c now (apply_advance a (j\<lparr>cj_updated := t\<rparr>))"
  "job_storable c now j \<Longrightarrow>
     job_storable c now (apply_advance a (j\<lparr>cj_last := l, cj_updated := t\<rparr>))"
  "job_storable c now j \<Longrightarrow> job_storable c now (j\<lparr>cj_last := l, cj_updated := t\<rparr>)"
  by (simp_all add: job_storable_def apply_advance_def)

text \<open>An update the scheduler queues: a created job is one it normalised.\<close>

definition normalised :: "cron_lib \<Rightarrow> queued \<Rightarrow> bool" where
  "normalised c q = (case q of
       Q_Create j \<Rightarrow> \<exists>tz t r i jid. normalize_create c tz t r = Inr i \<and> jid \<noteq> '''' \<and>
                       j = new_cron_job jid t i
     | _ \<Rightarrow> True)"

lemma queued_change_storable:
  assumes "timeless c" "normalised c q" "jobs_storable c now jobs"
    and "queued_change c t q jobs = Inr (Some jobs')"
  shows "jobs_storable c now jobs'"
proof -
  have set: "jobs_storable c now (set_job k n jobs)" if "job_storable c now n" for k n
    using assms(3) that by (auto simp: jobs_storable_def dest: set_job_subset)
  have old: "job_storable c now j" if "find_job k jobs = Some j" for k j
    using find_job_Some [OF that] assms(3) by (auto simp: jobs_storable_def)
  show ?thesis
  proof (cases q)
    case (Q_Create j)
    with assms show ?thesis
      by (auto simp: queued_change_def create_change_def jobs_storable_def normalised_def
          intro: normalize_create_storable)
  next
    case (Q_Update r)
    with assms(1,4) old show ?thesis
      by (auto simp: queued_change_def update_change_def bind_res_Inr_iff split: option.splits
          intro!: set normalize_update_storable)
  next
    case (Q_Delete k)
    with assms(3,4) show ?thesis
      by (auto simp: queued_change_def delete_change_def Let_def jobs_storable_def split: if_splits)
  next
    case (Q_Fired f t)
    with assms(4) old show ?thesis
      by (auto simp: queued_change_def set_fired_change_def Let_def split: option.splits
          intro!: set advance_storable)
  next
    case (Q_Missed f t)
    with assms(4) old show ?thesis
      by (auto simp: queued_change_def apply_missed_change_def split: option.splits
          intro!: set advance_storable)
  next
    case (Q_Reconcile k)
    with assms(4) old show ?thesis
      by (auto simp: queued_change_def apply_missed_change_def split: option.splits
          intro!: set advance_storable)
  next
    case Q_Remove
    with assms(4) show ?thesis by (simp add: queued_change_def jobs_storable_def)
  qed
qed

text \<open>
  The scheduler's updates as operations of the transactional store: all but \<open>Q_Remove\<close>
  replace the file, \<open>Q_Remove\<close> unlinks it.
\<close>

definition cron_op :: "cron_lib \<Rightarrow> ms \<Rightarrow> queued \<Rightarrow> bool \<Rightarrow> (cron_job list, cron_error) store_op" where
  "cron_op c t q ok =
     (if q = Q_Remove then Op_Remove [] ok
      else Op_Update (queued_change c t q) ok (\<lambda>_ _. None))"


text \<open>A library whose every pattern runs at each full minute, in one time zone.\<close>

definition each_minute :: cron_lib where
  "each_minute =
     \<lparr>cl_parses = (\<lambda>_ _. True), cl_zone = (\<lambda>tz. tz = ''UTC''),
      cl_next = (\<lambda>_ _ t. Some ((of_int \<lfloor>t / 60000\<rfloor> + 1) * 60000)),
      cl_next_two = (\<lambda>_ _ t. [(of_int \<lfloor>t / 60000\<rfloor> + 1) * 60000,
                               (of_int \<lfloor>t / 60000\<rfloor> + 2) * 60000])\<rparr>"

lemma each_minute_timeless: "timeless each_minute"
  by (simp add: timeless_def each_minute_def validate_cron_schedule_def parse_cron_def
      assert_known_time_zone_def MIN_CRON_INTERVAL_MS_def Let_def algebra_simps)

definition five_stars :: string where
  "five_stars = ''* * * * *''"

definition sample_create :: cron_create_request where
  "sample_create = \<lparr>rc_cron = five_stars, rc_prompt = ''report'', rc_title = None,
     rc_recurring = None, rc_tz = None\<rparr>"

definition sample_job :: cron_job where
  "sample_job = \<lparr>cj_id = ''job-1'', cj_title = None, cj_cron = five_stars, cj_tz = ''UTC'',
     cj_recurring = True, cj_action = Prompt_Agent ''report'', cj_enabled = True,
     cj_created = 1000, cj_updated = 1000, cj_next = Some 60000, cj_last = None\<rparr>"

lemma sample_job_created:
  "normalize_create each_minute ''UTC'' 1000 sample_create =
     Inr \<lparr>cc_title = None, cc_cron = five_stars, cc_tz = ''UTC'', cc_recurring = True,
          cc_action = Prompt_Agent ''report'', cc_next = Some 60000\<rparr>"
  by code_simp


subsection \<open>Settling an occurrence\<close>

text \<open>
  Settling a fire, as fired or as missed, rewrites only the job's own row and never a
  field an update owns: title, schedule, time zone, recurrence and prompt stay, and a paused
  job is not enabled again.  A fire is recorded as the last run whatever happened meanwhile;
  the occurrence it consumes is the submitted one, so a job paused or rescheduled since keeps
  its next run, and a one-shot whose own occurrence it was ends disabled.
\<close>

theorem settlement_keeps_edits:
  assumes "queued_change c now q jobs = Inr (Some jobs')"
    and "q = Q_Fired f t \<or> q = Q_Missed f t"
  shows "\<exists>old new. find_job (cj_id (fi_job f)) jobs = Some old \<and>
    cj_id new = cj_id old \<and> jobs' = set_job (cj_id (fi_job f)) new jobs \<and>
    cj_title new = cj_title old \<and> cj_cron new = cj_cron old \<and> cj_tz new = cj_tz old \<and>
    cj_recurring new = cj_recurring old \<and> cj_action new = cj_action old \<and>
    (cj_enabled new \<longrightarrow> cj_enabled old) \<and>
    cj_last new = (if q = Q_Fired f t then Some t else cj_last old) \<and>
    (if \<not> cj_enabled old \<or> (if q = Q_Fired f t then cj_next old \<noteq> cj_next (fi_job f)
                              else in_future old t)
     then cj_enabled new = cj_enabled old \<and> cj_next new = cj_next old
     else if cj_recurring old
     then cj_enabled new \<and> cj_next new = cl_next c (cj_cron old) (cj_tz old) t
     else \<not> cj_enabled new \<and> cj_next new = None)"
proof -
  from assms obtain old where old: "find_job (cj_id (fi_job f)) jobs = Some old"
    by (auto simp: queued_change_def set_fired_change_def apply_missed_change_def
        split: option.splits)
  from assms(2) show ?thesis
  proof
    assume q: "q = Q_Fired f t"
    let ?a = "fired_outcome c t (fi_job f) old"
    let ?base = "old\<lparr>cj_last := Some t, cj_updated := t\<rparr>"
    let ?new = "case ?a of None \<Rightarrow> ?base | Some a \<Rightarrow> apply_advance a ?base"
    from assms(1) q old have "jobs' = set_job (cj_id (fi_job f)) ?new jobs"
      by (simp add: queued_change_def set_fired_change_def Let_def)
    then show ?thesis
      using old q
      by (intro exI [of _ old] exI [of _ ?new])
        (simp add: fired_outcome_def apply_advance_def advance_job_def given_def
          next_run_after_def)
  next
    assume q: "q = Q_Missed f t"
    let ?new = "apply_advance (advance_job c t old) (old\<lparr>cj_updated := now\<rparr>)"
    from assms(1) q old have "jobs' = set_job (cj_id (fi_job f)) ?new jobs"
      "cj_enabled old" "\<not> in_future old t"
      by (auto simp: queued_change_def apply_missed_change_def missed_outcome_def
          split: option.splits if_splits)
    then show ?thesis
      using old q
      by (intro exI [of _ old] exI [of _ ?new])
        (simp add: apply_advance_def advance_job_def given_def next_run_after_def)
  qed
qed

definition sample_fire :: fire where
  "sample_fire = \<lparr>fi_job = sample_job, fi_gen = 0, fi_seq = 1\<rparr>"

definition fired_job :: cron_job where
  "fired_job = sample_job\<lparr>cj_updated := 60005, cj_next := Some 120000, cj_last := Some 60005\<rparr>"

lemma sample_settled:
  "queued_change each_minute 60007 (Q_Fired sample_fire 60005) [sample_job] =
     Inr (Some [fired_job])"
  by code_simp

lemma settlement_keeps_edits_witness:
  "\<exists>old new. find_job (cj_id (fi_job sample_fire)) [sample_job] = Some old \<and>
    cj_id new = cj_id old \<and> [fired_job] = set_job (cj_id (fi_job sample_fire)) new [sample_job] \<and>
    cj_title new = cj_title old \<and> cj_last new = Some 60005"
  using settlement_keeps_edits [OF sample_settled disjI1 [OF refl]] by auto

text \<open>
  Starting never replays what was missed while the scheduler was stopped: the
  reconciliation of a job leaves it disabled, or with no next run, or with one strictly in
  the future; a one-shot whose time has passed is disabled and never submitted.
\<close>

theorem reconcile_no_replay:
  assumes "\<And>p z t n. cl_next c p z t = Some n \<Longrightarrow> t < n"
    and "queued_change c now (Q_Reconcile jid) jobs = Inr r"
    and "find_job jid jobs = Some old"
  shows "\<exists>new. find_job jid (case r of None \<Rightarrow> jobs | Some jobs' \<Rightarrow> jobs') = Some new \<and>
    (cj_enabled new \<longrightarrow> cj_enabled old \<and> (case cj_next new of None \<Rightarrow> True | Some n \<Rightarrow> now < n)) \<and>
    (cj_enabled old \<and> \<not> cj_recurring old \<and> (\<exists>n. cj_next old = Some n \<and> n \<le> now) \<longrightarrow>
       \<not> cj_enabled new) \<and>
    (cj_enabled old \<and> in_future old now \<longrightarrow> new = old)"
proof (cases r)
  case None
  with assms(2,3) have "reconcile_outcome c now old = None"
    by (auto simp: queued_change_def apply_missed_change_def split: option.splits)
  with assms(3) None show ?thesis
    by (intro exI [of _ old])
      (auto simp: reconcile_outcome_def in_future_def split: if_splits option.splits)
next
  case (Some jobs')
  with assms(2,3) obtain a where a: "reconcile_outcome c now old = Some a"
    "jobs' = set_job jid (apply_advance a (old\<lparr>cj_updated := now\<rparr>)) jobs"
    by (auto simp: queued_change_def apply_missed_change_def split: option.splits)
  let ?new = "apply_advance a (old\<lparr>cj_updated := now\<rparr>)"
  have "find_job jid jobs' = Some ?new"
    using a(2) assms(3) find_job_Some [OF assms(3)] by (simp add: find_set_job)
  moreover have "cj_enabled ?new \<longrightarrow> (case cj_next ?new of None \<Rightarrow> True | Some n \<Rightarrow> now < n)"
    using a(1) assms(1)
    by (auto simp: reconcile_outcome_def advance_job_def next_run_after_def apply_advance_def
        given_def split: if_splits option.splits)
  moreover from a(1) have "cj_enabled old \<and> \<not> in_future old now \<and>
      (\<not> cj_recurring old \<and> (\<exists>n. cj_next old = Some n) \<longrightarrow> \<not> cj_enabled ?new)"
    by (auto simp: reconcile_outcome_def advance_job_def apply_advance_def given_def
        split: if_splits)
  ultimately show ?thesis
    using Some by (intro exI [of _ ?new]) auto
qed

lemma each_minute_later: "cl_next each_minute p z t = Some n \<Longrightarrow> t < n"
proof -
  assume "cl_next each_minute p z t = Some n"
  then have n: "n = (of_int \<lfloor>t / 60000\<rfloor> + 1) * 60000" by (simp add: each_minute_def)
  have "t / 60000 < of_int \<lfloor>t / 60000\<rfloor> + 1" by linarith
  with n show ?thesis by (simp add: field_simps)
qed

lemma sample_reconciled:
  "queued_change each_minute 200000 (Q_Reconcile ''job-1'') [sample_job] =
     Inr (Some [sample_job\<lparr>cj_updated := 200000, cj_next := Some 240000\<rparr>])"
  by code_simp

lemma reconcile_no_replay_witness:
  "\<exists>new. find_job ''job-1'' [sample_job\<lparr>cj_updated := 200000, cj_next := Some 240000\<rparr>] = Some new \<and>
    (case cj_next new of None \<Rightarrow> True | Some n \<Rightarrow> 200000 < n)"
proof -
  have "find_job ''job-1'' [sample_job] = Some sample_job"
    by (simp add: find_job_def sample_job_def)
  from reconcile_no_replay [OF each_minute_later sample_reconciled this]
  show ?thesis by (auto simp: find_job_def sample_job_def)
qed

subsection \<open>Steps and what they leave alone\<close>

lemma arm_eq:
  "arm j s = s\<lparr>sc_timers := (sc_timers s)(cj_id j :=
     (if sc_running s \<and> cj_enabled j then cj_next j else None))\<rparr>"
  by (cases "cj_next j") (simp_all add: arm_def Let_def clear_timer_def arm_segment_def)

lemma fold_arm_frame: "\<exists>T. fold arm js s = s\<lparr>sc_timers := T\<rparr>"
proof (induction js arbitrary: s)
  case Nil
  have "s = s\<lparr>sc_timers := sc_timers s\<rparr>" by simp
  then show ?case by (metis fold_simps(1))
next
  case (Cons j js)
  from Cons.IH [of "arm j s"] show ?case by (auto simp: arm_eq)
qed

definition same_core :: "scheduler \<Rightarrow> scheduler \<Rightarrow> bool" where
  "same_core s s' \<longleftrightarrow>
     sc_now s' = sc_now s \<and> sc_jobs s' = sc_jobs s \<and> sc_writing s' = sc_writing s \<and>
     sc_gen s' = sc_gen s \<and> sc_fires s' = sc_fires s \<and> sc_submitted s' = sc_submitted s"

lemma same_core_refl [simp]: "same_core s s"
  by (simp add: same_core_def)

lemma same_core_steps [simp]:
  "same_core s (arm j s') = same_core s s'" "same_core s (enqueue q s') = same_core s s'"
  "same_core s (answer q r s') = same_core s s'" "same_core s (clear_timer k s') = same_core s s'"
  by (simp_all add: same_core_def arm_eq enqueue_def answer_def clear_timer_def)

lemma same_core_start: "same_core s (start_finishes js s)"
  using fold_arm_frame [of js "s\<lparr>sc_running := True, sc_starting := None\<rparr>"]
  by (auto simp: start_finishes_def same_core_def)

lemma same_core_reconciled: "same_core s (reconciled k s)"
  using same_core_start [of s]
  by (auto simp: reconciled_def Let_def enqueue_def same_core_def split: option.splits list.splits)

lemma same_core_settle: "same_core s (settle c q prev s)"
  by (auto simp: settle_def Let_def same_core_reconciled split: queued.splits option.splits)

lemma same_core_failed: "same_core s (settle_failed q r s)"
  by (auto simp: settle_failed_def same_core_def enqueue_def answer_def split: queued.splits)

text \<open>While the scheduler is not running, nothing is armed.\<close>

definition quiet :: "scheduler \<Rightarrow> bool" where
  "quiet s \<longleftrightarrow> (\<not> sc_running s \<longrightarrow> sc_timers s = Map.empty)"

lemma quiet_steps [simp]:
  "quiet s \<Longrightarrow> quiet (arm j s)" "quiet s \<Longrightarrow> quiet (enqueue q s)"
  "quiet s \<Longrightarrow> quiet (answer q r s)" "quiet s \<Longrightarrow> quiet (clear_timer k s)"
  by (simp_all add: quiet_def arm_eq enqueue_def answer_def clear_timer_def)

lemma quiet_start: "quiet (start_finishes js s)"
  using fold_arm_frame [of js "s\<lparr>sc_running := True, sc_starting := None\<rparr>"]
  by (auto simp: start_finishes_def quiet_def)

lemma quiet_reconciled: "quiet s \<Longrightarrow> quiet (reconciled k s)"
  by (auto simp: reconciled_def Let_def quiet_start split: option.splits list.splits)
    (simp_all add: quiet_def enqueue_def)

lemma quiet_settle: "quiet s \<Longrightarrow> quiet (settle c q prev s)"
  by (auto simp: settle_def Let_def quiet_reconciled split: queued.splits option.splits)

lemma quiet_failed: "quiet s \<Longrightarrow> quiet (settle_failed q r s)"
  by (auto simp: settle_failed_def split: queued.splits) (simp_all add: quiet_def)

lemma quiet_upd [simp]:
  "quiet (s\<lparr>sc_now := t\<rparr>) = quiet s" "quiet (s\<lparr>sc_jobs := js\<rparr>) = quiet s"
  "quiet (s\<lparr>sc_queue := qs\<rparr>) = quiet s" "quiet (s\<lparr>sc_writing := w\<rparr>) = quiet s"
  "quiet (s\<lparr>sc_starting := a\<rparr>) = quiet s" "quiet (s\<lparr>sc_fires := fs\<rparr>) = quiet s"
  "quiet (s\<lparr>sc_submitted := fs\<rparr>) = quiet s"
  by (simp_all add: quiet_def)

lemma quiet_begin: "quiet s \<Longrightarrow> quiet (begin_update c s)"
  by (auto simp: begin_update_def quiet_settle quiet_failed
      split: option.splits list.splits sum.splits)

lemma quiet_write: "quiet s \<Longrightarrow> quiet (write_settles c ok s)"
  by (auto simp: write_settles_def Let_def quiet_settle quiet_failed
      split: option.splits list.splits)

lemma quiet_timer: "quiet s \<Longrightarrow> quiet (timer_fires k b s)"
  by (auto simp: timer_fires_def Let_def dispatch_def clear_timer_def arm_segment_def quiet_def
      split: option.splits)

lemma quiet_do: "quiet s \<Longrightarrow> quiet (sched_do c x s)"
proof (cases x)
  case (S_Settles n r)
  assume "quiet s"
  then show ?thesis
    unfolding S_Settles
    by (auto simp: submission_settles_def Let_def split: option.splits)
next
  case (S_Create tz jid r)
  assume "quiet s"
  then show ?thesis
    unfolding S_Create
    by (auto simp: create_job_def bind_res_Inr_iff split: sum.splits)
next
  case S_Start
  assume "quiet s"
  then show ?thesis
    unfolding S_Start
    by (auto simp: start_scheduler_def quiet_start split: list.splits)
next
  case S_Stop
  then show ?thesis by (simp add: stop_scheduler_def quiet_def)
next
  case S_Destroy
  then show ?thesis by (simp add: destroy_scheduler_def stop_scheduler_def quiet_def enqueue_def)
qed (auto simp: quiet_timer quiet_begin quiet_write update_job_def delete_job_def)

lemma quiet_run: "quiet s \<Longrightarrow> quiet (run_scheduler c xs s)"
  by (induction xs arbitrary: s) (simp_all add: run_scheduler_def quiet_do)

lemma run_scheduler_Cons [simp]:
  "run_scheduler c (x # xs) s = run_scheduler c xs (sched_do c x s)"
  by (simp add: run_scheduler_def)

lemma run_scheduler_Nil [simp]: "run_scheduler c [] s = s"
  by (simp add: run_scheduler_def)

subsection \<open>What is submitted\<close>

lemma same_core_submitted: "same_core s s' \<Longrightarrow> sc_submitted s' = sc_submitted s"
  by (simp add: same_core_def)

lemma submitted_only_timer:
  assumes "\<forall>k b. x \<noteq> S_Timer k b"
  shows "sc_submitted (sched_do c x s) = sc_submitted s"
proof (cases x)
  case S_Begin
  then show ?thesis
    by (auto simp: begin_update_def same_core_submitted [OF same_core_settle]
        same_core_submitted [OF same_core_failed] split: option.splits list.splits sum.splits)
next
  case (S_Write ok)
  then show ?thesis
    by (auto simp: write_settles_def Let_def same_core_submitted [OF same_core_settle]
        same_core_submitted [OF same_core_failed] split: option.splits list.splits)
next
  case S_Start
  then show ?thesis
    by (auto simp: start_scheduler_def same_core_submitted [OF same_core_start] enqueue_def
        split: list.splits)
next
  case (S_Settles n r)
  then show ?thesis
    by (auto simp: submission_settles_def Let_def enqueue_def split: option.splits)
next
  case (S_Create tz jid r)
  then show ?thesis
    by (auto simp: create_job_def bind_res_Inr_iff enqueue_def split: sum.splits)
qed (use assms in \<open>auto simp: update_job_def delete_job_def enqueue_def clear_timer_def
       stop_scheduler_def destroy_scheduler_def\<close>)

lemma timer_submitted:
  "sc_submitted (timer_fires k b s) = sc_submitted s \<or>
   (\<exists>j. sc_submitted (timer_fires k b s) = sc_submitted s @
      [\<lparr>fi_job = j, fi_gen = sc_gen s, fi_seq = Suc (length (sc_submitted s))\<rparr>])"
  by (auto simp: timer_fires_def Let_def dispatch_def clear_timer_def arm_segment_def
      split: option.splits)

text \<open>
  C13. In any run whatsoever the scheduler submits only when a timer it armed has come due
  while it is running and its owner's fence is open, and what it submits is the committed job
  as it stands at that moment, enabled, under a source number never used before.  So a
  stopped scheduler submits nothing until it is started again.
\<close>

theorem submission_sound:
  assumes "s = run_scheduler c xs (new_scheduler t jobs)"
    and "sc_submitted (sched_do c x s) \<noteq> sc_submitted s"
  shows "\<exists>jid due j. x = S_Timer jid True \<and> sc_running s \<and> sc_timers s jid = Some due \<and>
    due \<le> sc_now s \<and> find_job jid (sc_jobs s) = Some j \<and> cj_enabled j \<and>
    sc_submitted (sched_do c x s) = sc_submitted s @
      [\<lparr>fi_job = j, fi_gen = sc_gen s, fi_seq = Suc (length (sc_submitted s))\<rparr>] \<and>
    map fi_seq (sc_submitted (sched_do c x s)) = [1..<length (sc_submitted s) + 2]"
proof -
  have seqs: "map fi_seq (sc_submitted (run_scheduler c ys s0)) =
      [1..<Suc (length (sc_submitted (run_scheduler c ys s0)))]"
    if "map fi_seq (sc_submitted s0) = [1..<Suc (length (sc_submitted s0))]" for ys s0
    using that
  proof (induction ys arbitrary: s0)
    case (Cons y ys)
    have "map fi_seq (sc_submitted (sched_do c y s0)) =
        [1..<Suc (length (sc_submitted (sched_do c y s0)))]"
    proof (cases "\<exists>k b. y = S_Timer k b")
      case True
      then obtain k b where "y = S_Timer k b" by blast
      with timer_submitted [of k b s0] Cons.prems show ?thesis by auto
    next
      case False
      with Cons.prems show ?thesis by (simp add: submitted_only_timer)
    qed
    with Cons.IH show ?case by simp
  qed simp
  have q: "quiet s"
    unfolding assms(1) by (rule quiet_run) (simp add: quiet_def new_scheduler_def)
  from seqs [of "new_scheduler t jobs" xs] assms(1)
  have n: "map fi_seq (sc_submitted s) = [1..<Suc (length (sc_submitted s))]"
    by (simp add: new_scheduler_def)
  from assms(2) submitted_only_timer obtain k b where x: "x = S_Timer k b" by blast
  with assms(2) obtain due j where d: "sc_timers s k = Some due" "\<not> sc_now s < due" "b"
    "find_job k (sc_jobs s) = Some j" "cj_enabled j"
    by (auto simp: timer_fires_def Let_def dispatch_def clear_timer_def arm_segment_def
        split: option.splits if_splits)
  moreover from d(1) q have "sc_running s" by (auto simp: quiet_def)
  ultimately show ?thesis
    using x n
    by (intro exI [of _ k] exI [of _ due] exI [of _ j])
      (simp add: timer_fires_def Let_def dispatch_def clear_timer_def)
qed

definition due_run :: "sched_step list" where
  "due_run = [S_Start, S_Begin, S_Tick 60000]"

lemma due_run_submits:
  "sc_submitted (sched_do each_minute (S_Timer ''job-1'' True)
     (run_scheduler each_minute due_run (new_scheduler 2000 [sample_job]))) \<noteq>
   sc_submitted (run_scheduler each_minute due_run (new_scheduler 2000 [sample_job]))"
  by code_simp

lemma submission_sound_witness:
  "sc_running (run_scheduler each_minute due_run (new_scheduler 2000 [sample_job]))"
  using submission_sound [OF refl due_run_submits] by blast

subsection \<open>Orderly runs\<close>

text \<open>
  In an orderly run requests come while the scheduler is running, a new job's random id is
  unused, and the scheduler is not stopped.
\<close>

definition create_ids :: "queued list \<Rightarrow> string list" where
  "create_ids qs = concat (map (\<lambda>q. case q of Q_Create j \<Rightarrow> [cj_id j] | _ \<Rightarrow> []) qs)"

definition orderly_step :: "sched_step \<Rightarrow> scheduler \<Rightarrow> bool" where
  "orderly_step x s = (case x of
       S_Create _ jid _ \<Rightarrow> sc_running s \<and> jid \<notin> cj_id ` set (sc_jobs s) \<and>
                           jid \<notin> set (create_ids (sc_queue s))
     | S_Update _ \<Rightarrow> sc_running s
     | S_Delete _ \<Rightarrow> sc_running s
     | S_Stop \<Rightarrow> False
     | S_Destroy \<Rightarrow> False
     | _ \<Rightarrow> True)"

fun orderly_run :: "cron_lib \<Rightarrow> sched_step list \<Rightarrow> scheduler \<Rightarrow> bool" where
  "orderly_run c [] s = True"
| "orderly_run c (x # xs) s = (orderly_step x s \<and> orderly_run c xs (sched_do c x s))"

definition pending_fires :: "scheduler \<Rightarrow> fire set" where
  "pending_fires s =
     set (sc_fires s) \<union> {f. \<exists>t. Q_Fired f t \<in> set (sc_queue s) \<or> Q_Missed f t \<in> set (sc_queue s)}"

definition starting_ok :: "scheduler \<Rightarrow> bool" where
  "starting_ok s = (case sc_starting s of
       None \<Rightarrow> sc_queue s = []
     | Some (ids, arms) \<Rightarrow>
         length arms < length (sc_jobs s) \<and> arms = take (length arms) (sc_jobs s) \<and>
         ids = map cj_id (drop (length arms) (sc_jobs s)) \<and> sc_queue s = [Q_Reconcile (hd ids)])"

definition job_op :: "queued \<Rightarrow> bool" where
  "job_op q \<longleftrightarrow> (\<forall>k. q \<noteq> Q_Reconcile k) \<and> q \<noteq> Q_Remove"

definition orderly :: "cron_lib \<Rightarrow> scheduler \<Rightarrow> bool" where
  "orderly c s \<longleftrightarrow>
     distinct (map cj_id (sc_jobs s) @ create_ids (sc_queue s)) \<and>
     (\<forall>n. sc_writing s = Some n \<longrightarrow>
        (\<exists>q qs t. sc_queue s = q # qs \<and> queued_change c t q (sc_jobs s) = Inr (Some n))) \<and>
     (\<forall>f \<in> pending_fires s. fi_gen f = sc_gen s) \<and>
     (if sc_running s then sc_starting s = None \<and> (\<forall>q \<in> set (sc_queue s). job_op q)
      else sc_timers s = Map.empty \<and> sc_fires s = [] \<and> starting_ok s)"

text \<open>A timer that is set is the enabled job's next run.\<close>

definition in_sync :: "scheduler \<Rightarrow> bool" where
  "in_sync s \<longleftrightarrow>
     (\<forall>j \<in> set (sc_jobs s). cj_enabled j \<longrightarrow>
        sc_timers s (cj_id j) = None \<or> sc_timers s (cj_id j) = cj_next j)"

text \<open>A job that is due to run has a timer, a fire in hand, or is being deleted.\<close>

definition covered :: "scheduler \<Rightarrow> cron_job \<Rightarrow> bool" where
  "covered s j \<longleftrightarrow>
     (\<forall>d. cj_enabled j \<and> cj_next j = Some d \<longrightarrow>
        sc_timers s (cj_id j) = Some d \<or>
        (\<exists>f \<in> pending_fires s. cj_id (fi_job f) = cj_id j \<and> cj_next (fi_job f) = Some d) \<or>
        Q_Delete (cj_id j) \<in> set (sc_queue s))"

lemma create_ids_simps [simp]:
  "create_ids [] = []" "create_ids (qs @ rs) = create_ids qs @ create_ids rs"
  "create_ids (Q_Create j # qs) = cj_id j # create_ids qs"
  "create_ids (Q_Update r # qs) = create_ids qs" "create_ids (Q_Delete k # qs) = create_ids qs"
  "create_ids (Q_Fired f t # qs) = create_ids qs" "create_ids (Q_Missed f t # qs) = create_ids qs"
  "create_ids (Q_Reconcile k # qs) = create_ids qs" "create_ids (Q_Remove # qs) = create_ids qs"
  by (simp_all add: create_ids_def)

definition touched :: "queued \<Rightarrow> string" where
  "touched q = (case q of Q_Create j \<Rightarrow> cj_id j | Q_Update r \<Rightarrow> ru_id r | Q_Delete k \<Rightarrow> k
     | Q_Fired f t \<Rightarrow> cj_id (fi_job f) | Q_Missed f t \<Rightarrow> cj_id (fi_job f) | Q_Reconcile k \<Rightarrow> k
     | Q_Remove \<Rightarrow> [])"

definition after_change :: "cron_job list option \<Rightarrow> cron_job list \<Rightarrow> cron_job list" where
  "after_change r jobs = (case r of None \<Rightarrow> jobs | Some n \<Rightarrow> n)"

text \<open>What one settled update leaves of a row and of its timer.\<close>

definition row_settled :: "queued \<Rightarrow> cron_job list \<Rightarrow> scheduler \<Rightarrow> scheduler \<Rightarrow> cron_job \<Rightarrow> bool" where
  "row_settled q jobs s s' j \<longleftrightarrow>
     (cj_id j \<noteq> touched q \<and> j \<in> set jobs \<and> sc_timers s' (cj_id j) = sc_timers s (cj_id j)) \<or>
     (cj_id j = touched q \<and> sc_timers s' (cj_id j) = (if cj_enabled j then cj_next j else None)) \<or>
     (sc_timers s' (cj_id j) = sc_timers s (cj_id j) \<and>
      (\<exists>old \<in> set jobs. cj_id old = cj_id j \<and> cj_enabled old = cj_enabled j \<and>
         cj_next old = cj_next j) \<and>
      (\<exists>f t. q = Q_Fired f t \<and> (cj_enabled j \<longrightarrow> cj_next j \<noteq> cj_next (fi_job f))))"

lemma set_job_rows:
  assumes "distinct (map cj_id jobs)" "find_job k jobs = Some old" "cj_id n = k"
    and "j \<in> set (set_job k n jobs)"
  shows "if cj_id j = k then j = n else j \<in> set jobs"
  using in_set_job [OF assms(1,4,3)] .

lemma find_set_job_same:
  "find_job k jobs = Some old \<Longrightarrow> cj_id n = k \<Longrightarrow> find_job k (set_job k n jobs) = Some n"
  by (simp add: find_set_job)

lemma find_job_None_neq: "find_job k jobs = None \<Longrightarrow> j \<in> set jobs \<Longrightarrow> cj_id j \<noteq> k"
  by (auto simp: find_job_None image_iff)

lemma apply_missed_result:
  assumes "apply_missed_change k t adv jobs = Inr r"
  shows "after_change r jobs = jobs \<or>
    (\<exists>old n. find_job k jobs = Some old \<and> cj_id n = k \<and> after_change r jobs = set_job k n jobs)"
proof (cases "find_job k jobs")
  case (Some old)
  show ?thesis
  proof (cases "adv old")
    case None
    with assms Some show ?thesis by (simp add: apply_missed_change_def after_change_def)
  next
    case (Some a)
    with assms \<open>find_job k jobs = Some old\<close>
    have "after_change r jobs = set_job k (apply_advance a (old\<lparr>cj_updated := t\<rparr>)) jobs"
      by (auto simp: apply_missed_change_def after_change_def)
    moreover have "cj_id (apply_advance a (old\<lparr>cj_updated := t\<rparr>)) = k"
      using find_job_Some [OF \<open>find_job k jobs = Some old\<close>] by simp
    ultimately show ?thesis using \<open>find_job k jobs = Some old\<close> by blast
  qed
qed (use assms in \<open>simp add: apply_missed_change_def after_change_def\<close>)

lemma settle_create:
  assumes "queued_change c t (Q_Create j0) jobs = Inr r" "sc_running s"
    and "sc_jobs s = after_change r jobs" "distinct (cj_id j0 # map cj_id jobs)"
    and "j \<in> set (sc_jobs s)"
  shows "row_settled (Q_Create j0) jobs s (settle c (Q_Create j0) jobs s) j"
proof -
  from assms(1,3) have "sc_jobs s = jobs @ [j0]"
    by (auto simp: queued_change_def create_change_def after_change_def)
  with assms(4,5) consider "j = j0" | "j \<in> set jobs" "cj_id j \<noteq> cj_id j0"
    by (auto simp: image_iff)
  then show ?thesis
    using assms(2)
    by cases (simp_all add: settle_def Let_def row_settled_def touched_def arm_eq answer_def)
qed

lemma settle_update:
  assumes "queued_change c t (Q_Update u) jobs = Inr r" "sc_running s"
    and "sc_jobs s = after_change r jobs" "distinct (map cj_id jobs)" "j \<in> set (sc_jobs s)"
  shows "row_settled (Q_Update u) jobs s (settle c (Q_Update u) jobs s) j"
proof -
  from assms(1) obtain old i where o: "find_job (ru_id u) jobs = Some old"
    and r: "r = Some (set_job (ru_id u) (apply_update t i old) jobs)"
    by (auto simp: queued_change_def update_change_def bind_res_Inr_iff split: option.splits)
  let ?n = "apply_update t i old"
  from find_job_Some [OF o] have id: "cj_id ?n = ru_id u" by simp
  from r assms(3) have js: "sc_jobs s = set_job (ru_id u) ?n jobs" by (simp add: after_change_def)
  with find_set_job_same [OF o id] have "find_job (ru_id u) (sc_jobs s) = Some ?n" by simp
  then have "sc_timers (settle c (Q_Update u) jobs s) =
      (sc_timers s)(ru_id u := if cj_enabled ?n then cj_next ?n else None)"
    using assms(2) id by (simp add: settle_def Let_def arm_eq answer_def clear_timer_def)
  moreover from set_job_rows [OF assms(4) o id, of j] assms(5) js
  have "if cj_id j = ru_id u then j = ?n else j \<in> set jobs" by simp
  ultimately show ?thesis by (auto simp: row_settled_def touched_def split: if_splits)
qed

lemma settle_delete:
  assumes "queued_change c t (Q_Delete k) jobs = Inr r"
    and "sc_jobs s = after_change r jobs" "j \<in> set (sc_jobs s)"
  shows "row_settled (Q_Delete k) jobs s (settle c (Q_Delete k) jobs s) j"
  using assms
  by (auto simp: queued_change_def delete_change_def Let_def after_change_def settle_def
      row_settled_def touched_def answer_def filter_kept_iff filter_id_conv split: if_splits)

lemma settle_missed:
  assumes "queued_change c t (Q_Missed f u) jobs = Inr r" "sc_running s"
    and "sc_jobs s = after_change r jobs" "distinct (map cj_id jobs)" "j \<in> set (sc_jobs s)"
  shows "row_settled (Q_Missed f u) jobs s (settle c (Q_Missed f u) jobs s) j"
proof -
  let ?k = "cj_id (fi_job f)"
  consider "sc_jobs s = jobs"
    | old n where "find_job ?k jobs = Some old" "cj_id n = ?k" "sc_jobs s = set_job ?k n jobs"
    using apply_missed_result [of ?k t "missed_outcome c u" jobs r] assms(1,3)
    by (auto simp: queued_change_def)
  then have ids: "map cj_id (sc_jobs s) = map cj_id jobs"
    and other: "cj_id j \<noteq> ?k \<Longrightarrow> j \<in> set jobs"
    using assms(5) set_job_rows [OF assms(4), of ?k _ _ j] by (cases; auto)+
  show ?thesis
  proof (cases "find_job ?k (sc_jobs s)")
    case None
    with assms(5) have "cj_id j \<noteq> ?k" by (simp add: find_job_None_neq)
    with other None show ?thesis by (simp add: row_settled_def settle_def touched_def)
  next
    case (Some n)
    with find_job_Some [OF Some] assms(2) have
      t: "sc_timers (settle c (Q_Missed f u) jobs s) =
        (sc_timers s)(?k := if cj_enabled n then cj_next n else None)"
      by (simp add: settle_def arm_eq)
    have "n = j" if "cj_id j = ?k"
      using Some find_job_distinct [of "sc_jobs s" j] assms(4,5) ids that by simp
    with t other show ?thesis by (auto simp: row_settled_def touched_def)
  qed
qed

lemma settle_fired:
  assumes "queued_change c t (Q_Fired f u) jobs = Inr r" "sc_running s" "fi_gen f = sc_gen s"
    and "sc_jobs s = after_change r jobs" "distinct (map cj_id jobs)" "j \<in> set (sc_jobs s)"
  shows "row_settled (Q_Fired f u) jobs s (settle c (Q_Fired f u) jobs s) j"
proof (cases "find_job (cj_id (fi_job f)) jobs")
  case None
  with assms(1,4) have js: "sc_jobs s = jobs"
    by (auto simp: queued_change_def set_fired_change_def after_change_def)
  with None assms(6) have "cj_id j \<noteq> cj_id (fi_job f)" by (simp add: find_job_None_neq)
  with None js assms(6) show ?thesis by (simp add: row_settled_def touched_def settle_def)
next
  case (Some old)
  let ?k = "cj_id (fi_job f)"
  let ?b = "old\<lparr>cj_last := Some u, cj_updated := u\<rparr>"
  let ?n = "case fired_outcome c u (fi_job f) old of None \<Rightarrow> ?b | Some a \<Rightarrow> apply_advance a ?b"
  from find_job_Some [OF Some] have o: "old \<in> set jobs" "cj_id old = ?k" by auto
  then have id: "cj_id ?n = ?k" by (auto split: option.splits)
  from assms(1,4) Some have js: "sc_jobs s = set_job ?k ?n jobs"
    by (auto simp: queued_change_def set_fired_change_def Let_def after_change_def)
  with find_set_job_same [OF Some id] have f: "find_job ?k (sc_jobs s) = Some ?n" by simp
  have rows: "if cj_id j = ?k then j = ?n else j \<in> set jobs"
    using set_job_rows [OF assms(5) Some id] assms(6) js by simp
  show ?thesis
  proof (cases "fired_outcome c u (fi_job f) old")
    case None
    then have "\<not> cj_enabled old \<or> cj_next old \<noteq> cj_next (fi_job f)"
      by (auto simp: fired_outcome_def split: if_splits)
    with None rows Some f o show ?thesis
      by (auto simp: row_settled_def touched_def settle_def split: if_splits)
  next
    case (Some a)
    with f assms(2,3) \<open>find_job ?k jobs = Some old\<close> id have
      "sc_timers (settle c (Q_Fired f u) jobs s) =
        (sc_timers s)(?k := if cj_enabled ?n then cj_next ?n else None)"
      by (simp add: settle_def arm_eq)
    with rows show ?thesis by (auto simp: row_settled_def touched_def split: if_splits)
  qed
qed

lemma settle_job_frame:
  "job_op q \<Longrightarrow> sc_running (settle c q p s) = sc_running s \<and>
     sc_starting (settle c q p s) = sc_starting s \<and> sc_queue (settle c q p s) = sc_queue s"
  by (cases q) (auto simp: job_op_def settle_def Let_def arm_eq answer_def clear_timer_def
      split: option.splits)

lemma settle_rows:
  assumes "queued_change c t q jobs = Inr r" "job_op q" "sc_running s"
    and "sc_jobs s = after_change r jobs" "distinct (map cj_id jobs @ create_ids [q])"
    and "\<And>f u. q = Q_Fired f u \<Longrightarrow> fi_gen f = sc_gen s" "j \<in> set (sc_jobs s)"
  shows "row_settled q jobs s (settle c q jobs s) j"
proof (cases q)
  case (Q_Create j0)
  with assms(5) have "distinct (cj_id j0 # map cj_id jobs)" by auto
  from settle_create [OF _ assms(3,4) this assms(7)] assms(1) Q_Create show ?thesis by simp
next
  case (Q_Update u)
  from assms(5) have "distinct (map cj_id jobs)" by simp
  from settle_update [OF _ assms(3,4) this assms(7)] assms(1) Q_Update show ?thesis by simp
next
  case (Q_Delete k)
  from settle_delete [OF _ assms(4,7)] assms(1) Q_Delete show ?thesis by simp
next
  case (Q_Fired f u)
  from assms(5) have "distinct (map cj_id jobs)" by simp
  from settle_fired [OF _ assms(3) assms(6) [OF Q_Fired] assms(4) this assms(7)] assms(1) Q_Fired
  show ?thesis by simp
next
  case (Q_Missed f u)
  from assms(5) have "distinct (map cj_id jobs)" by simp
  from settle_missed [OF _ assms(3,4) this assms(7)] assms(1) Q_Missed show ?thesis by simp
qed (use assms(2) in \<open>simp_all add: job_op_def\<close>)

lemma change_same_ids:
  assumes "queued_change c t q jobs = Inr r" "\<forall>j. q \<noteq> Q_Create j" "\<forall>k. q \<noteq> Q_Delete k"
    and "q \<noteq> Q_Remove"
  shows "map cj_id (after_change r jobs) = map cj_id jobs"
proof (cases q)
  case (Q_Update u)
  with assms show ?thesis
    by (auto simp: queued_change_def update_change_def after_change_def bind_res_Inr_iff
        split: option.splits dest: find_job_Some)
next
  case (Q_Fired f u)
  with assms show ?thesis
    by (auto simp: queued_change_def set_fired_change_def Let_def after_change_def
        split: option.splits dest: find_job_Some)
next
  case (Q_Missed f u)
  with assms apply_missed_result [of _ t _ jobs r] show ?thesis
    by (fastforce simp: queued_change_def)
next
  case (Q_Reconcile k)
  with assms apply_missed_result [of _ t _ jobs r] show ?thesis
    by (fastforce simp: queued_change_def)
qed (use assms in auto)

lemma change_ids:
  assumes "queued_change c t q jobs = Inr r" "distinct (map cj_id jobs @ create_ids (q # qs))"
  shows "distinct (map cj_id (after_change r jobs) @ create_ids qs)"
proof (cases "\<exists>j. q = Q_Create j")
  case True
  with assms show ?thesis
    by (auto simp: queued_change_def create_change_def after_change_def simp del: distinct_append)
next
  case False
  have tail: "distinct (map cj_id jobs @ create_ids qs)"
    using assms(2) by (cases q) auto
  then have sub: "distinct (map cj_id (filter p jobs) @ create_ids qs)" for p
    by (auto simp: distinct_map_filter)
  consider k where "q = Q_Delete k" | "q = Q_Remove" | "\<forall>k. q \<noteq> Q_Delete k" "q \<noteq> Q_Remove"
    by blast
  then show ?thesis
  proof cases
    case 1
    have "after_change r jobs = filter (\<lambda>j. cj_id j \<noteq> k) jobs"
      using assms(1) 1
      by (auto simp: queued_change_def delete_change_def Let_def after_change_def
          filter_kept_iff split: if_splits)
    with sub [of "\<lambda>j. cj_id j \<noteq> k"] show ?thesis by simp
  next
    case 2
    with assms(1) tail show ?thesis by (auto simp: queued_change_def after_change_def)
  next
    case 3
    with change_same_ids [OF assms(1)] False tail show ?thesis by simp
  qed
qed

text \<open>The state a head update settles in.\<close>

definition popped :: "queued list \<Rightarrow> cron_job list \<Rightarrow> scheduler \<Rightarrow> scheduler" where
  "popped qs jobs s = s\<lparr>sc_writing := None, sc_queue := qs, sc_jobs := jobs\<rparr>"

lemma popped_simps [simp]:
  "sc_writing (popped qs js s) = None" "sc_queue (popped qs js s) = qs"
  "sc_jobs (popped qs js s) = js" "sc_timers (popped qs js s) = sc_timers s"
  "sc_running (popped qs js s) = sc_running s" "sc_gen (popped qs js s) = sc_gen s"
  "sc_starting (popped qs js s) = sc_starting s" "sc_fires (popped qs js s) = sc_fires s"
  "sc_submitted (popped qs js s) = sc_submitted s" "sc_now (popped qs js s) = sc_now s"
  by (simp_all add: popped_def)

lemma begin_cases:
  obtains "begin_update c s = s"
  | q qs e where "sc_writing s = None" "sc_queue s = q # qs"
      "queued_change c (sc_now s) q (sc_jobs s) = Inl e"
      "begin_update c s = settle_failed q (Reply_Error e) (popped qs (sc_jobs s) s)"
  | q qs where "sc_writing s = None" "sc_queue s = q # qs"
      "queued_change c (sc_now s) q (sc_jobs s) = Inr None"
      "begin_update c s = settle c q (sc_jobs s) (popped qs (sc_jobs s) s)"
  | q qs n where "sc_writing s = None" "sc_queue s = q # qs"
      "queued_change c (sc_now s) q (sc_jobs s) = Inr (Some n)"
      "begin_update c s = s\<lparr>sc_writing := Some n\<rparr>"
proof (cases "\<exists>q qs. sc_writing s = None \<and> sc_queue s = q # qs")
  case False
  then have "begin_update c s = s"
    by (auto simp: begin_update_def split: option.splits list.splits)
  then show ?thesis by (rule that(1))
next
  case True
  then obtain q qs where h: "sc_writing s = None" "sc_queue s = q # qs" by blast
  then have p: "s\<lparr>sc_queue := qs\<rparr> = popped qs (sc_jobs s) s" by (simp add: popped_def)
  show ?thesis
  proof (cases "queued_change c (sc_now s) q (sc_jobs s)")
    case (Inl e)
    with h p show ?thesis by (intro that(2)) (simp_all add: begin_update_def)
  next
    case (Inr r)
    show ?thesis
    proof (cases r)
      case None
      with Inr h p show ?thesis by (intro that(3)) (simp_all add: begin_update_def)
    next
      case (Some n)
      with Inr h p show ?thesis by (intro that(4)) (simp_all add: begin_update_def)
    qed
  qed
qed

lemma write_cases:
  obtains "write_settles c ok s = s"
  | q qs n where "sc_writing s = Some n" "sc_queue s = q # qs" "ok"
      "write_settles c ok s = settle c q (sc_jobs s) (popped qs n s)"
  | q qs n where "sc_writing s = Some n" "sc_queue s = q # qs" "\<not> ok"
      "write_settles c ok s = settle_failed q Reply_Write_Failed (popped qs (sc_jobs s) s)"
proof (cases "sc_writing s")
  case None
  then show ?thesis using that(1) by (simp add: write_settles_def)
next
  case (Some n)
  show ?thesis
  proof (cases "sc_queue s")
    case Nil
    with Some show ?thesis using that(1) by (simp add: write_settles_def)
  next
    case (Cons q qs)
    have "s\<lparr>sc_writing := None, sc_queue := qs\<rparr> = popped qs (sc_jobs s) s"
      by (simp add: popped_def)
    moreover have "s\<lparr>sc_writing := None, sc_queue := qs, sc_jobs := n\<rparr> = popped qs n s"
      by (simp add: popped_def)
    ultimately have
      "write_settles c ok s = (if ok then settle c q (sc_jobs s) (popped qs n s)
         else settle_failed q Reply_Write_Failed (popped qs (sc_jobs s) s))"
      using Some Cons by (simp add: write_settles_def Let_def)
    with that(2,3) Some Cons show ?thesis by (cases ok) simp_all
  qed
qed

end
