(* ===== verification/Scheduler_Runs.thy ===== *)
theory Scheduler_Runs
  imports Scheduler_Props
begin

text \<open>
  The invariants of orderly runs of the scheduler, and the runs that show what happens
  outside them.
\<close>

subsection \<open>Orderly runs stay orderly\<close>

lemma orderly_simps:
  assumes "orderly c s"
  shows "distinct (map cj_id (sc_jobs s) @ create_ids (sc_queue s))"
    and "f \<in> pending_fires s \<Longrightarrow> fi_gen f = sc_gen s"
    and "sc_running s \<Longrightarrow> sc_starting s = None"
    and "sc_running s \<Longrightarrow> q \<in> set (sc_queue s) \<Longrightarrow> job_op q"
    and "\<not> sc_running s \<Longrightarrow> sc_timers s = Map.empty"
    and "\<not> sc_running s \<Longrightarrow> sc_fires s = []"
    and "\<not> sc_running s \<Longrightarrow> starting_ok s"
  using assms by (auto simp: orderly_def)

lemma orderly_writing:
  "orderly c s \<Longrightarrow> sc_writing s = Some n \<Longrightarrow>
   \<exists>q qs t. sc_queue s = q # qs \<and> queued_change c t q (sc_jobs s) = Inr (Some n)"
  unfolding orderly_def by blast

lemma untouched_upd [simp]:
  "starting_ok (s\<lparr>sc_timers := T\<rparr>) = starting_ok s"
  "starting_ok (s\<lparr>sc_now := t\<rparr>) = starting_ok s"
  "starting_ok (s\<lparr>sc_writing := w\<rparr>) = starting_ok s"
  "pending_fires (s\<lparr>sc_timers := T\<rparr>) = pending_fires s"
  "pending_fires (s\<lparr>sc_now := t\<rparr>) = pending_fires s"
  "pending_fires (s\<lparr>sc_writing := w\<rparr>) = pending_fires s"
  by (simp_all add: starting_ok_def pending_fires_def split: option.split)

lemma pending_popped:
  "sc_queue s = q # qs \<Longrightarrow> pending_fires (popped qs js s) \<subseteq> pending_fires s"
  by (auto simp: pending_fires_def)

lemma pending_same:
  "sc_fires s' = sc_fires s \<Longrightarrow> sc_queue s' = sc_queue s \<Longrightarrow> pending_fires s' = pending_fires s"
  by (simp add: pending_fires_def)

lemma settle_running:
  assumes "job_op q"
  shows "sc_running (settle c q p s) = sc_running s" "sc_starting (settle c q p s) = sc_starting s"
    "sc_queue (settle c q p s) = sc_queue s" "sc_jobs (settle c q p s) = sc_jobs s"
    "sc_writing (settle c q p s) = sc_writing s" "sc_gen (settle c q p s) = sc_gen s"
    "sc_fires (settle c q p s) = sc_fires s" "sc_submitted (settle c q p s) = sc_submitted s"
    "sc_now (settle c q p s) = sc_now s"
    "pending_fires (settle c q p s) = pending_fires s"
  using settle_job_frame [OF assms, of c p s] same_core_settle [of s c q p]
  by (simp_all add: same_core_def pending_fires_def)

lemma orderly_settle:
  assumes "orderly c s" "sc_running s" "sc_queue s = q # qs"
    and "queued_change c t q (sc_jobs s) = Inr r"
  shows "orderly c (settle c q (sc_jobs s) (popped qs (after_change r (sc_jobs s)) s))"
proof -
  have j: "job_op q" using orderly_simps(4) [OF assms(1,2), of q] assms(3) by simp
  have "distinct (map cj_id (sc_jobs s) @ create_ids (q # qs))"
    using orderly_simps(1) [OF assms(1)] assms(3) by simp
  note ids = change_ids [OF assms(4) this]
  have gens: "\<forall>f \<in> pending_fires (popped qs (after_change r (sc_jobs s)) s). fi_gen f = sc_gen s"
    using pending_popped [OF assms(3)] orderly_simps(2) [OF assms(1)] by blast
  have "\<forall>p \<in> set qs. job_op p"
    using orderly_simps(4) [OF assms(1,2)] assms(3) by simp
  with ids gens orderly_simps(3) [OF assms(1,2)] assms(2) show ?thesis
    unfolding orderly_def settle_running [OF j] by simp
qed

lemma failed_running:
  assumes "job_op q"
  shows "sc_running (settle_failed q a s) = sc_running s"
    "sc_starting (settle_failed q a s) = sc_starting s"
    "sc_jobs (settle_failed q a s) = sc_jobs s" "sc_timers (settle_failed q a s) = sc_timers s"
    "sc_writing (settle_failed q a s) = sc_writing s" "sc_gen (settle_failed q a s) = sc_gen s"
    "sc_fires (settle_failed q a s) = sc_fires s" "sc_now (settle_failed q a s) = sc_now s"
    "sc_submitted (settle_failed q a s) = sc_submitted s"
    "sc_queue (settle_failed q a s) = sc_queue s \<or>
     (\<exists>f u. q = Q_Fired f u \<and> sc_queue (settle_failed q a s) = sc_queue s @ [Q_Missed f (sc_now s)])"
  using assms
  by (auto simp: settle_failed_def enqueue_def answer_def job_op_def split: queued.splits)

lemma orderly_failed:
  assumes "orderly c s" "sc_running s" "sc_queue s = q # qs"
  shows "orderly c (settle_failed q a (popped qs (sc_jobs s) s))" (is "orderly c ?s")
proof -
  have j: "job_op q" using orderly_simps(4) [OF assms(1,2), of q] assms(3) by simp
  have ops: "\<forall>p \<in> set qs. job_op p"
    using orderly_simps(4) [OF assms(1,2)] assms(3) by simp
  have ids: "distinct (map cj_id (sc_jobs s) @ create_ids qs)"
    using orderly_simps(1) [OF assms(1)] assms(3) by (cases q) auto
  have gens: "fi_gen f = sc_gen s" if "f \<in> pending_fires s" for f
    using orderly_simps(2) [OF assms(1) that] .
  have fi: "sc_fires ?s = sc_fires s" by (simp add: failed_running [OF j])
  from failed_running(10) [OF j, of a "popped qs (sc_jobs s) s"]
  consider "sc_queue ?s = qs"
    | f u where "q = Q_Fired f u" "sc_queue ?s = qs @ [Q_Missed f (sc_now s)]"
    by auto
  then have "distinct (map cj_id (sc_jobs s) @ create_ids (sc_queue ?s)) \<and>
      (\<forall>p \<in> set (sc_queue ?s). job_op p) \<and> (\<forall>f \<in> pending_fires ?s. fi_gen f = sc_gen s)"
  proof cases
    case 1
    with pending_popped [OF assms(3)] have "pending_fires ?s \<subseteq> pending_fires s"
      by (auto simp: pending_fires_def fi)
    with 1 ids ops gens show ?thesis by auto
  next
    case 2
    have "pending_fires ?s \<subseteq> pending_fires s"
      unfolding pending_fires_def fi 2(2) using 2(1) assms(3) by auto
    moreover have "job_op (Q_Missed f (sc_now s))" by (simp add: job_op_def)
    ultimately show ?thesis using 2 ids ops gens by auto
  qed
  then show ?thesis
    using assms(2) orderly_simps(3) [OF assms(1,2)]
    by (simp add: orderly_def failed_running(1-9) [OF j] del: distinct_append)
qed

text \<open>The loop of \<open>start\<close>, one reconciliation at a time.\<close>

lemma set_job_nth:
  assumes "distinct (map cj_id jobs)" "m < length jobs"
  shows "set_job (cj_id (jobs ! m)) n jobs = jobs[m := n]"
  using assms
proof (induction jobs arbitrary: m)
  case (Cons j jobs)
  show ?case
  proof (cases m)
    case 0
    then show ?thesis by (simp add: set_job_def)
  next
    case (Suc k)
    with Cons.prems have "cj_id j \<noteq> cj_id (jobs ! k)" by auto
    with Suc Cons.IH [of k] Cons.prems show ?thesis by (simp add: set_job_def)
  qed
qed simp

lemma fold_arm_timers:
  assumes "distinct (map cj_id js)" "sc_running s"
  shows "sc_timers (fold arm js s) k =
    (case find_job k js of
       Some j \<Rightarrow> if cj_enabled j then cj_next j else None
     | None \<Rightarrow> sc_timers s k)"
  using assms
proof (induction js arbitrary: s)
  case Nil
  then show ?case by (simp add: find_job_def)
next
  case (Cons j js)
  have "find_job (cj_id j) js = None"
    using Cons.prems(1) by (simp add: find_job_None)
  with Cons.IH [of "arm j s"] Cons.prems show ?case
    by (auto simp: arm_eq find_job_def split: option.splits)
qed

lemma finished_timers:
  assumes "distinct (map cj_id js)" "j \<in> set js"
  shows "sc_timers (start_finishes js s) (cj_id j) = (if cj_enabled j then cj_next j else None)"
  using fold_arm_timers [OF assms(1), of "s\<lparr>sc_running := True, sc_starting := None\<rparr>"]
    find_job_distinct [OF assms]
  by (simp add: start_finishes_def)

lemma finished_fields:
  "sc_running (start_finishes js s)" "sc_starting (start_finishes js s) = None"
  "sc_queue (start_finishes js s) = sc_queue s" "sc_jobs (start_finishes js s) = sc_jobs s"
  "sc_writing (start_finishes js s) = sc_writing s" "sc_gen (start_finishes js s) = sc_gen s"
  "sc_fires (start_finishes js s) = sc_fires s" "sc_now (start_finishes js s) = sc_now s"
  "sc_submitted (start_finishes js s) = sc_submitted s"
  using fold_arm_frame [of js "s\<lparr>sc_running := True, sc_starting := None\<rparr>"]
  by (auto simp: start_finishes_def)

lemma orderly_finishes:
  assumes "distinct (map cj_id (sc_jobs s))" "sc_queue s = []" "sc_writing s = None"
    and "sc_fires s = []"
  shows "orderly c (start_finishes js s)"
  using assms by (simp add: orderly_def finished_fields pending_fires_def)

text \<open>After the reconciliation of the next job: still starting, or running with every timer.\<close>

definition all_armed :: "scheduler \<Rightarrow> bool" where
  "all_armed s \<longleftrightarrow>
     (\<forall>j \<in> set (sc_jobs s). sc_timers s (cj_id j) = (if cj_enabled j then cj_next j else None))"

lemma reconcile_settles:
  assumes "orderly c s" "\<not> sc_running s" "sc_queue s = q # qs"
    and "queued_change c t q (sc_jobs s) = Inr r"
    and "s' = settle c q (sc_jobs s) (popped qs (after_change r (sc_jobs s)) s)"
  shows "orderly c s' \<and> (sc_running s' \<longrightarrow> all_armed s')"
proof -
  from orderly_simps(7) [OF assms(1,2)] assms(3) obtain ids arms where
    st: "sc_starting s = Some (ids, arms)" and m: "length arms < length (sc_jobs s)"
    and arms: "arms = take (length arms) (sc_jobs s)"
    and ids: "ids = map cj_id (drop (length arms) (sc_jobs s))" "q # qs = [Q_Reconcile (hd ids)]"
    by (auto simp: starting_ok_def split: option.splits)
  let ?m = "length arms" and ?old = "sc_jobs s"
  let ?k = "cj_id (?old ! ?m)" and ?new = "after_change r (sc_jobs s)"
  have d: "distinct (map cj_id ?old)" using orderly_simps(1) [OF assms(1)] by simp
  have drop: "drop ?m ?old = ?old ! ?m # drop (Suc ?m) ?old" using m by (rule Cons_nth_drop_Suc [symmetric])
  with ids have q: "q = Q_Reconcile ?k" "qs = []" by auto
  have fk: "find_job ?k ?old = Some (?old ! ?m)"
    using find_job_distinct [OF d, of "?old ! ?m"] m by simp
  have new: "\<exists>x. cj_id x = ?k \<and> ?new = ?old[?m := x]"
  proof -
    from apply_missed_result [of ?k t "reconcile_outcome c t" ?old r] assms(4) q
    consider "?new = ?old" | n where "cj_id n = ?k" "?new = set_job ?k n ?old"
      by (auto simp: queued_change_def)
    then show ?thesis
    proof cases
      case 1
      then show ?thesis by (intro exI [of _ "?old ! ?m"]) simp
    next
      case 2
      with set_job_nth [OF d m] show ?thesis by auto
    qed
  qed
  then obtain x where x: "cj_id x = ?k" "?new = ?old[?m := x]" by blast
  have mapids: "map cj_id ?new = map cj_id ?old"
    using x m by (simp add: map_update list_update_same_conv)
  have dn: "distinct (map cj_id ?new)" using d mapids by simp
  have fn: "find_job ?k ?new = Some x"
    using find_job_distinct [OF dn, of x] x m set_update_memI [of ?m ?old x] by simp
  have take: "arms @ [x] = take (Suc ?m) ?new"
    using arms x m by (simp add: take_Suc_conv_app_nth)
  have rest: "drop (Suc ?m) ?new = drop (Suc ?m) ?old" using x by simp
  have len: "length ?new = length ?old" using x by simp
  let ?p = "popped qs ?new s"
  have empties: "sc_timers s = Map.empty" "sc_fires s = []"
    using orderly_simps(5,6) [OF assms(1,2)] by simp_all
  show ?thesis
  proof (cases "drop (Suc ?m) ?old")
    case Nil
    with len have "arms @ [x] = ?new" using take m by simp
    with st ids drop Nil q fn have s': "s' = start_finishes ?new ?p"
      by (simp add: assms(5) settle_def reconciled_def Let_def)
    have "orderly c s'"
      unfolding s' by (rule orderly_finishes) (use dn q empties in simp_all)
    moreover have "all_armed s'"
      using finished_timers [OF dn] by (simp add: s' all_armed_def finished_fields)
    ultimately show ?thesis by simp
  next
    case (Cons y ys)
    with st ids drop q fn have s': "s' = enqueue (Q_Reconcile (cj_id y))
        (?p\<lparr>sc_starting := Some (map cj_id (y # ys), arms @ [x])\<rparr>)"
      by (simp add: assms(5) settle_def reconciled_def Let_def)
    have "Suc ?m < length ?new" using Cons len by (metis drop_all linorder_not_less list.distinct(1))
    then have "starting_ok s'"
      using take rest Cons q by (simp add: s' starting_ok_def enqueue_def)
    moreover have "pending_fires s' = {}"
      using q empties by (auto simp: s' pending_fires_def enqueue_def)
    ultimately show ?thesis
      using dn q empties assms(2) by (simp add: s' orderly_def enqueue_def)
  qed
qed

text \<open>Every head update, whichever step settles it.\<close>

lemma head_settles:
  assumes "orderly c s" "sc_queue s = q # qs" "queued_change c t q (sc_jobs s) = Inr r"
  shows "orderly c (settle c q (sc_jobs s) (popped qs (after_change r (sc_jobs s)) s))"
  using orderly_settle [OF assms(1) _ assms(2,3)] reconcile_settles [OF assms(1) _ assms(2,3) refl]
  by blast

lemma starting_head:
  "orderly c s \<Longrightarrow> \<not> sc_running s \<Longrightarrow> sc_queue s = q # qs \<Longrightarrow> qs = [] \<and> (\<exists>k. q = Q_Reconcile k)"
  by (drule (1) orderly_simps(7)) (auto simp: starting_ok_def split: option.splits)

lemma head_fails:
  assumes "orderly c s" "sc_queue s = q # qs"
  shows "orderly c (settle_failed q a (popped qs (sc_jobs s) s))"
proof (cases "sc_running s")
  case True
  with orderly_failed [OF assms(1) _ assms(2)] show ?thesis by simp
next
  case False
  from starting_head [OF assms(1) False assms(2)] obtain k where q: "qs = []" "q = Q_Reconcile k"
    by blast
  have "distinct (map cj_id (sc_jobs s))" using orderly_simps(1) [OF assms(1)] by simp
  with q False orderly_simps(5,6) [OF assms(1) False] show ?thesis
    by (simp add: settle_failed_def orderly_def starting_ok_def pending_fires_def)
qed

lemma reconcile_no_error: "queued_change c t (Q_Reconcile k) jobs \<noteq> Inl e"
  by (auto simp: queued_change_def apply_missed_change_def split: option.splits)

lemma orderly_begin: "orderly c s \<Longrightarrow> orderly c (begin_update c s)"
proof (cases rule: begin_cases [of c s])
  case (2 q qs e)
  assume "orderly c s"
  with head_fails [OF this 2(2)] 2 show ?thesis by simp
next
  case (3 q qs)
  assume "orderly c s"
  with head_settles [OF this 3(2,3)] 3 show ?thesis by (simp add: after_change_def)
next
  case (4 q qs n)
  assume o: "orderly c s"
  with 4 show ?thesis by (auto simp: orderly_def simp del: distinct_append)
qed simp

lemma orderly_write: "orderly c s \<Longrightarrow> orderly c (write_settles c ok s)"
proof (cases rule: write_cases [of c ok s])
  case (2 q qs n)
  assume o: "orderly c s"
  from orderly_writing [OF o 2(1)] 2(2) obtain t where
    "queued_change c t q (sc_jobs s) = Inr (Some n)" by auto
  from head_settles [OF o 2(2) this] 2 show ?thesis by (simp add: after_change_def)
next
  case (3 q qs n)
  assume "orderly c s"
  with head_fails [OF this 3(2)] 3 show ?thesis by simp
qed simp

lemma orderly_timer: "orderly c s \<Longrightarrow> orderly c (timer_fires k b s)"
proof (cases "sc_running s")
  case False
  assume "orderly c s"
  with False orderly_simps(5) [OF this False] show ?thesis by (simp add: timer_fires_def)
next
  case True
  assume o: "orderly c s"
  have "pending_fires (timer_fires k b s) \<subseteq> pending_fires s \<union>
      {f. fi_gen f = sc_gen s}"
    by (auto simp: timer_fires_def Let_def dispatch_def clear_timer_def arm_segment_def
        pending_fires_def split: option.splits if_splits)
  then have "\<forall>f \<in> pending_fires (timer_fires k b s). fi_gen f = sc_gen s"
    using orderly_simps(2) [OF o] by blast
  moreover have "sc_jobs (timer_fires k b s) = sc_jobs s \<and> sc_queue (timer_fires k b s) = sc_queue s \<and>
     sc_writing (timer_fires k b s) = sc_writing s \<and> sc_running (timer_fires k b s) = sc_running s \<and>
     sc_gen (timer_fires k b s) = sc_gen s \<and> sc_starting (timer_fires k b s) = sc_starting s"
    by (auto simp: timer_fires_def Let_def dispatch_def clear_timer_def arm_segment_def
        split: option.splits)
  ultimately show ?thesis
    using o True by (simp add: orderly_def)
qed

lemma settles_effect:
  assumes "find (\<lambda>f. fi_seq f = n) (sc_fires s) = Some f"
  obtains add where
    "submission_settles n r s =
       s\<lparr>sc_fires := remove1 f (sc_fires s), sc_queue := sc_queue s @ add\<rparr>"
    "add = [] \<and> fi_gen f \<noteq> sc_gen s \<or> add = [Q_Fired f (sc_now s)] \<or> add = [Q_Missed f (sc_now s)]"
proof (cases "r = Adm_Submitted \<or> r = Adm_Ambiguous")
  case True
  with assms that [of "[Q_Fired f (sc_now s)]"] show ?thesis
    by (auto simp: submission_settles_def Let_def enqueue_def)
next
  case False
  show ?thesis
  proof (cases "fi_gen f = sc_gen s")
    case True
    with False assms that [of "[Q_Missed f (sc_now s)]"] show ?thesis
      by (auto simp: submission_settles_def Let_def enqueue_def)
  next
    case stale: False
    with False assms that [of "[]"] show ?thesis
      by (auto simp: submission_settles_def Let_def)
  qed
qed

lemma orderly_settles: "orderly c s \<Longrightarrow> orderly c (submission_settles n r s)"
proof (cases "find (\<lambda>f. fi_seq f = n) (sc_fires s)")
  case None
  then show "orderly c s \<Longrightarrow> ?thesis" by (simp add: submission_settles_def)
next
  case (Some f)
  assume o: "orderly c s"
  have f: "f \<in> set (sc_fires s)" using find_Some_in [OF Some] by simp
  with o have run: "sc_running s" using orderly_simps(6) [OF o] by force
  let ?s = "submission_settles n r s"
  from Some obtain add where
    eq: "?s = s\<lparr>sc_fires := remove1 f (sc_fires s), sc_queue := sc_queue s @ add\<rparr>" and
    add: "add = [] \<and> fi_gen f \<noteq> sc_gen s \<or> add = [Q_Fired f (sc_now s)] \<or>
      add = [Q_Missed f (sc_now s)]"
    by (rule settles_effect)
  have "pending_fires ?s \<subseteq> pending_fires s"
    using add f set_remove1_subset [of f "sc_fires s"]
    by (auto simp: eq pending_fires_def)
  then have "\<forall>g \<in> pending_fires ?s. fi_gen g = sc_gen s"
    using orderly_simps(2) [OF o] by blast
  moreover have "\<forall>q \<in> set (sc_queue ?s). job_op q"
    using orderly_simps(4) [OF o run] add by (auto simp: eq job_op_def)
  moreover have "create_ids (sc_queue ?s) = create_ids (sc_queue s)"
    using add by (auto simp: eq)
  moreover have "\<exists>q qs t. sc_queue ?s = q # qs \<and> queued_change c t q (sc_jobs s) = Inr (Some m)"
    if "sc_writing s = Some m" for m
    using orderly_writing [OF o that] by (auto simp: eq)
  ultimately show ?thesis
    using orderly_simps(1,3) [OF o] run by (simp add: orderly_def eq del: distinct_append)
qed

lemma orderly_enqueue:
  assumes "orderly c s" "sc_running s" "job_op q" "\<forall>f t. q \<noteq> Q_Fired f t \<and> q \<noteq> Q_Missed f t"
    and "distinct (map cj_id (sc_jobs s) @ create_ids (sc_queue s @ [q]))"
  shows "orderly c (enqueue q s)"
proof -
  have "pending_fires (enqueue q s) = pending_fires s"
    using assms(4) by (auto simp: pending_fires_def enqueue_def)
  moreover have "\<exists>p qs t. sc_queue s @ [q] = p # qs \<and> queued_change c t p (sc_jobs s) = Inr (Some n)"
    if "sc_writing s = Some n" for n
    using orderly_writing [OF assms(1) that] by auto
  moreover have "\<forall>p \<in> set (sc_queue s @ [q]). job_op p"
    using orderly_simps(4) [OF assms(1,2)] assms(3) by auto
  moreover have "\<forall>f \<in> pending_fires s. fi_gen f = sc_gen s"
    using orderly_simps(2) [OF assms(1)] by blast
  ultimately show ?thesis
    using assms(2,5) orderly_simps(3) [OF assms(1,2)]
    by (simp add: orderly_def enqueue_def del: distinct_append)
qed

lemma orderly_create:
  assumes "orderly c s" "orderly_step (S_Create tz k r) s"
  shows "orderly c (sched_do c (S_Create tz k r) s)"
proof (cases "create_job c tz k r s")
  case (Inr s')
  then obtain i where s': "s' = enqueue (Q_Create (new_cron_job k (sc_now s) i)) s"
    by (auto simp: create_job_def bind_res_Inr_iff)
  have "orderly c s'"
    unfolding s'
    using assms orderly_simps(1) [OF assms(1)]
    by (intro orderly_enqueue) (auto simp: orderly_step_def job_op_def new_cron_job_def)
  with Inr show ?thesis by simp
qed (use assms in simp)

lemma orderly_clear: "orderly c s \<Longrightarrow> orderly c (clear_timer k s)"
  by (auto simp: orderly_def clear_timer_def)

lemma orderly_start: "orderly c s \<Longrightarrow> orderly c (start_scheduler s)"
proof (cases "sc_running s \<or> sc_starting s \<noteq> None")
  case False
  assume o: "orderly c s"
  from False have st: "sc_starting s = None" by (cases "sc_starting s") simp_all
  from False have run: "\<not> sc_running s" by simp
  from orderly_simps(7) [OF o run] st have q: "sc_queue s = []" by (simp add: starting_ok_def)
  have d: "distinct (map cj_id (sc_jobs s))" using orderly_simps(1) [OF o] by simp
  have w: "sc_writing s = None" using orderly_writing [OF o] q by fastforce
  have e: "sc_timers s = Map.empty" "sc_fires s = []" using orderly_simps(5,6) [OF o] False by auto
  show ?thesis
  proof (cases "sc_jobs s")
    case Nil
    with False d q w e show ?thesis
      by (simp add: start_scheduler_def orderly_finishes)
  next
    case (Cons j js)
    with False d q w e show ?thesis
      by (simp add: start_scheduler_def orderly_def enqueue_def pending_fires_def starting_ok_def)
  qed
qed (auto simp: start_scheduler_def)

lemma orderly_do:
  assumes "orderly c s" "orderly_step x s"
  shows "orderly c (sched_do c x s)"
proof (cases x)
  case (S_Tick t)
  with assms show ?thesis
    by (simp add: orderly_def)
next
  case (S_Create tz k r)
  with assms orderly_create show ?thesis by simp
next
  case (S_Update r)
  with assms orderly_simps(1) [OF assms(1)] show ?thesis
    by (auto simp: update_job_def orderly_step_def job_op_def intro!: orderly_enqueue)
next
  case (S_Delete k)
  with assms orderly_simps(1) [OF assms(1)] orderly_clear [OF assms(1), of k] show ?thesis
    by (auto simp: delete_job_def orderly_step_def job_op_def clear_timer_def
        intro!: orderly_enqueue)
qed (use assms in \<open>auto simp: orderly_timer orderly_settles orderly_begin orderly_write
       orderly_start orderly_step_def\<close>)

lemma orderly_new: "distinct (map cj_id jobs) \<Longrightarrow> orderly c (new_scheduler t jobs)"
  by (simp add: orderly_def new_scheduler_def pending_fires_def starting_ok_def)

subsection \<open>Timers agree with the jobs\<close>

lemma popped_rows:
  assumes "orderly c s" "sc_running s" "sc_queue s = q # qs"
    and "queued_change c t q (sc_jobs s) = Inr r"
    and "s' = settle c q (sc_jobs s) (popped qs (after_change r (sc_jobs s)) s)"
    and "j \<in> set (sc_jobs s')"
  shows "row_settled q (sc_jobs s) s s' j"
proof -
  let ?p = "popped qs (after_change r (sc_jobs s)) s"
  have op: "job_op q" using orderly_simps(4) [OF assms(1,2), of q] assms(3) by simp
  have d: "distinct (map cj_id (sc_jobs s) @ create_ids [q])"
    using orderly_simps(1) [OF assms(1)] assms(3) by (cases q) auto
  have g: "fi_gen f = sc_gen ?p" if "q = Q_Fired f u" for f u
    using orderly_simps(2) [OF assms(1), of f] assms(3) that by (auto simp: pending_fires_def)
  have "j \<in> set (sc_jobs ?p)" using assms(5,6) settle_running(4) [OF op] by simp
  from settle_rows [OF assms(4) op _ _ d g this] assms(2,5)
  show ?thesis by (simp add: row_settled_def)
qed

lemma row_settled_cases [consumes 1, case_names kept armed recorded]:
  assumes "row_settled q jobs s s' j"
  obtains "cj_id j \<noteq> touched q" "j \<in> set jobs" "sc_timers s' (cj_id j) = sc_timers s (cj_id j)"
  | "cj_id j = touched q" "sc_timers s' (cj_id j) = (if cj_enabled j then cj_next j else None)"
  | i f u where "i \<in> set jobs" "cj_id i = cj_id j" "cj_enabled i = cj_enabled j"
      "cj_next i = cj_next j" "sc_timers s' (cj_id j) = sc_timers s (cj_id j)"
      "q = Q_Fired f u" "cj_enabled j \<longrightarrow> cj_next j \<noteq> cj_next (fi_job f)"
  using assms unfolding row_settled_def by blast

lemma settle_sync:
  assumes "orderly c s" "sc_running s" "sc_queue s = q # qs"
    and "queued_change c t q (sc_jobs s) = Inr r" "in_sync s"
  shows "in_sync (settle c q (sc_jobs s) (popped qs (after_change r (sc_jobs s)) s))"
    (is "in_sync ?s")
  unfolding in_sync_def
proof (intro ballI impI)
  fix j assume j: "j \<in> set (sc_jobs ?s)" "cj_enabled j"
  have old: "sc_timers s (cj_id i) = None \<or> sc_timers s (cj_id i) = cj_next i"
    if "i \<in> set (sc_jobs s)" "cj_enabled i" for i
    using assms(5) that by (simp add: in_sync_def)
  from popped_rows [OF assms(1-4) refl j(1)] show "sc_timers ?s (cj_id j) = None \<or>
      sc_timers ?s (cj_id j) = cj_next j"
  proof (cases rule: row_settled_cases)
    case kept
    with old j(2) show ?thesis by simp
  next
    case armed
    with j(2) show ?thesis by simp
  next
    case (recorded i f u)
    with old [of i] j(2) show ?thesis by simp
  qed
qed

lemma sync_quiet: "sc_timers s = Map.empty \<Longrightarrow> in_sync s"
  by (simp add: in_sync_def)

lemma sync_armed: "all_armed s \<Longrightarrow> in_sync s"
  by (simp add: in_sync_def all_armed_def)

lemma head_sync:
  assumes "orderly c s" "sc_queue s = q # qs" "queued_change c t q (sc_jobs s) = Inr r" "in_sync s"
  shows "in_sync (settle c q (sc_jobs s) (popped qs (after_change r (sc_jobs s)) s))"
proof (cases "sc_running s")
  case True
  with settle_sync [OF assms(1) True assms(2-4)] show ?thesis by simp
next
  case False
  from reconcile_settles [OF assms(1) False assms(2,3) refl] show ?thesis
    by (metis orderly_simps(5) sync_armed sync_quiet)
qed

lemma head_failed_sync:
  assumes "orderly c s" "sc_queue s = q # qs" "in_sync s"
  shows "in_sync (settle_failed q a (popped qs (sc_jobs s) s))"
  using assms(3)
  by (auto simp: in_sync_def settle_failed_def enqueue_def answer_def split: queued.splits)

lemma sync_same:
  "sc_jobs s' = sc_jobs s \<Longrightarrow> sc_timers s' = sc_timers s \<Longrightarrow> in_sync s' = in_sync s"
  by (simp add: in_sync_def)

lemma sync_clear: "in_sync s \<Longrightarrow> in_sync (clear_timer k s)"
  by (auto simp: in_sync_def clear_timer_def)

lemma sync_timer: "in_sync s \<Longrightarrow> in_sync (timer_fires k b s)"
  by (auto simp: in_sync_def timer_fires_def Let_def dispatch_def clear_timer_def arm_segment_def
      split: option.splits)

lemma start_effect:
  assumes "orderly c s"
  shows "start_scheduler s = s \<or> all_armed (start_scheduler s) \<or>
    (\<not> sc_running s \<and> \<not> sc_running (start_scheduler s))"
  by (cases "sc_jobs s")
    (auto simp: start_scheduler_def all_armed_def finished_fields enqueue_def)

lemma sync_do:
  assumes "orderly c s" "orderly_step x s" "in_sync s"
  shows "in_sync (sched_do c x s)"
proof (cases x)
  case S_Begin
  show ?thesis
  proof (cases rule: begin_cases [of c s])
    case (2 q qs e)
    with head_failed_sync [OF assms(1) 2(2) assms(3)] S_Begin show ?thesis by simp
  next
    case (3 q qs)
    with head_sync [OF assms(1) 3(2,3) assms(3)] S_Begin show ?thesis by (simp add: after_change_def)
  next
    case (4 q qs n)
    with assms(3) S_Begin show ?thesis by (simp add: in_sync_def)
  qed (use assms(3) S_Begin in simp)
next
  case (S_Write ok)
  show ?thesis
  proof (cases rule: write_cases [of c ok s])
    case (2 q qs n)
    from orderly_writing [OF assms(1) 2(1)] 2(2) obtain t where
      "queued_change c t q (sc_jobs s) = Inr (Some n)" by auto
    from head_sync [OF assms(1) 2(2) this assms(3)] 2 S_Write
    show ?thesis by (simp add: after_change_def)
  next
    case (3 q qs n)
    with head_failed_sync [OF assms(1) 3(2) assms(3)] S_Write show ?thesis by simp
  qed (use assms(3) S_Write in simp)
next
  case (S_Settles n r)
  have "sc_jobs (submission_settles n r s) = sc_jobs s \<and>
      sc_timers (submission_settles n r s) = sc_timers s"
    by (auto simp: submission_settles_def Let_def enqueue_def split: option.splits)
  with sync_same [of "submission_settles n r s" s] assms(3) S_Settles show ?thesis by simp
next
  case S_Start
  from start_effect [OF assms(1)] have "in_sync (start_scheduler s)"
  proof (elim disjE)
    assume a: "\<not> sc_running s \<and> \<not> sc_running (start_scheduler s)"
    with orderly_simps(5) [OF orderly_start [OF assms(1)]] show ?thesis by (simp add: sync_quiet)
  qed (use assms(3) sync_armed in simp_all)
  with S_Start show ?thesis by simp
next
  case (S_Create tz k r)
  with assms(3) show ?thesis
    by (auto simp: create_job_def bind_res_Inr_iff enqueue_def in_sync_def split: sum.splits)
next
  case (S_Tick t)
  with assms(3) show ?thesis by (simp add: in_sync_def)
next
  case (S_Timer k b)
  with assms(3) sync_timer show ?thesis by simp
next
  case (S_Update r)
  with assms(3) show ?thesis by (simp add: update_job_def enqueue_def in_sync_def)
next
  case (S_Delete k)
  with sync_clear [OF assms(3), of k] show ?thesis
    by (simp add: delete_job_def enqueue_def in_sync_def)
qed (use assms(2) in \<open>simp_all add: orderly_step_def\<close>)

subsection \<open>No job is lost\<close>

definition all_covered :: "scheduler \<Rightarrow> bool" where
  "all_covered s \<longleftrightarrow> (sc_running s \<longrightarrow> (\<forall>j \<in> set (sc_jobs s). covered s j))"

lemma pending_keeps:
  "sc_queue s = q # qs \<Longrightarrow> f \<in> pending_fires s \<Longrightarrow>
   f \<in> pending_fires (popped qs js s) \<or> (\<exists>t. q = Q_Fired f t \<or> q = Q_Missed f t)"
  by (auto simp: pending_fires_def)

lemma covered_mono:
  assumes "covered s j" "sc_timers s' (cj_id j) = sc_timers s (cj_id j)"
    and "\<And>f. f \<in> pending_fires s \<Longrightarrow> cj_id (fi_job f) = cj_id j \<Longrightarrow> f \<in> pending_fires s'"
    and "Q_Delete (cj_id j) \<in> set (sc_queue s) \<Longrightarrow> Q_Delete (cj_id j) \<in> set (sc_queue s')"
  shows "covered s' j"
  using assms unfolding covered_def by metis

lemma covered_armed:
  "sc_timers s (cj_id j) = (if cj_enabled j then cj_next j else None) \<Longrightarrow> covered s j"
  by (simp add: covered_def)

lemma settle_covered:
  assumes "orderly c s" "sc_running s" "sc_queue s = q # qs"
    and "queued_change c t q (sc_jobs s) = Inr r" "all_covered s"
  shows "all_covered (settle c q (sc_jobs s) (popped qs (after_change r (sc_jobs s)) s))"
    (is "all_covered ?s")
  unfolding all_covered_def
proof (intro impI ballI)
  fix j assume j: "j \<in> set (sc_jobs ?s)"
  have op: "job_op q" using orderly_simps(4) [OF assms(1,2), of q] assms(3) by simp
  have old: "covered s i" if "i \<in> set (sc_jobs s)" for i
    using assms(2,5) that by (simp add: all_covered_def)
  have pend: "pending_fires ?s = pending_fires (popped qs (after_change r (sc_jobs s)) s)"
    by (rule settle_running(10) [OF op])
  have qs: "sc_queue ?s = qs" by (simp add: settle_running(3) [OF op])
  note keeps = pending_keeps [OF assms(3), of _ "after_change r (sc_jobs s)"]
  from popped_rows [OF assms(1-4) refl j] show "covered ?s j"
  proof (cases rule: row_settled_cases)
    case kept
    show ?thesis
    proof (rule covered_mono [OF old [OF kept(2)] kept(3)])
      fix f assume "f \<in> pending_fires s" "cj_id (fi_job f) = cj_id j"
      with keeps [of f] kept(1) show "f \<in> pending_fires ?s"
        unfolding pend by (auto simp: touched_def)
    next
      assume "Q_Delete (cj_id j) \<in> set (sc_queue s)"
      with assms(3) kept(1) show "Q_Delete (cj_id j) \<in> set (sc_queue ?s)"
        unfolding qs by (auto simp: touched_def)
    qed
  next
    case armed
    show ?thesis by (rule covered_armed [OF armed(2)])
  next
    case (recorded i f u)
    show ?thesis
      unfolding covered_def
    proof (intro allI impI)
      fix d assume d: "cj_enabled j \<and> cj_next j = Some d"
      with old [OF recorded(1)] recorded consider "sc_timers s (cj_id j) = Some d"
        | g where "g \<in> pending_fires s" "cj_id (fi_job g) = cj_id j" "cj_next (fi_job g) = Some d"
        | "Q_Delete (cj_id j) \<in> set (sc_queue s)"
        unfolding covered_def by metis
      then show "sc_timers ?s (cj_id j) = Some d \<or>
          (\<exists>f \<in> pending_fires ?s. cj_id (fi_job f) = cj_id j \<and> cj_next (fi_job f) = Some d) \<or>
          Q_Delete (cj_id j) \<in> set (sc_queue ?s)"
      proof cases
        case 1
        with recorded(5) show ?thesis by simp
      next
        case (2 g)
        with d recorded(6,7) have "\<forall>t. q \<noteq> Q_Fired g t \<and> q \<noteq> Q_Missed g t" by auto
        with keeps [OF 2(1)] 2 show ?thesis unfolding pend by blast
      next
        case 3
        with assms(3) recorded(6) show ?thesis unfolding qs by auto
      qed
    qed
  qed
qed

lemma head_covered:
  assumes "orderly c s" "sc_queue s = q # qs" "queued_change c t q (sc_jobs s) = Inr r"
    and "all_covered s"
  shows "all_covered (settle c q (sc_jobs s) (popped qs (after_change r (sc_jobs s)) s))"
proof (cases "sc_running s")
  case True
  with settle_covered [OF assms(1) True assms(2-4)] show ?thesis by simp
next
  case False
  from reconcile_settles [OF assms(1) False assms(2,3) refl] show ?thesis
    by (simp add: all_covered_def all_armed_def covered_armed)
qed

lemma change_error:
  "queued_change c t q jobs = Inl e \<Longrightarrow> \<exists>r. q = Q_Update r"
  by (cases q) (auto simp: queued_change_def create_change_def delete_change_def Let_def
      set_fired_change_def apply_missed_change_def split: option.splits if_splits)

lemma covered_same_timers:
  assumes "all_covered s" "sc_running s' = sc_running s" "sc_jobs s' = sc_jobs s"
    and "sc_timers s' = sc_timers s" "pending_fires s \<subseteq> pending_fires s'"
    and "\<And>k. Q_Delete k \<in> set (sc_queue s) \<Longrightarrow> Q_Delete k \<in> set (sc_queue s')"
  shows "all_covered s'"
proof -
  have "covered s' j" if "covered s j" for j
    using that assms(4,5,6) by (intro covered_mono [OF that]) auto
  with assms(1,2,3) show ?thesis by (simp add: all_covered_def)
qed

lemma begin_covered:
  assumes "orderly c s" "all_covered s"
  shows "all_covered (begin_update c s)"
proof (cases rule: begin_cases [of c s])
  case (2 q qs e)
  from change_error [OF 2(3)] obtain r where q: "q = Q_Update r" by blast
  have "all_covered (answer q (Reply_Error e) (popped qs (sc_jobs s) s))"
    by (rule covered_same_timers [OF assms(2)])
      (use 2(2) q in \<open>auto simp: answer_def pending_fires_def\<close>)
  with 2 q show ?thesis by (simp add: settle_failed_def)
next
  case (3 q qs)
  with head_covered [OF assms(1) 3(2,3) assms(2)] show ?thesis by (simp add: after_change_def)
next
  case (4 q qs n)
  have "all_covered (s\<lparr>sc_writing := Some n\<rparr>)"
    by (rule covered_same_timers [OF assms(2)]) simp_all
  with 4 show ?thesis by simp
qed (use assms in simp)

lemma write_covered:
  assumes "orderly c s" "all_covered s"
  shows "all_covered (write_settles c True s)"
proof (cases rule: write_cases [of c True s])
  case (2 q qs n)
  from orderly_writing [OF assms(1) 2(1)] 2(2) obtain t where
    "queued_change c t q (sc_jobs s) = Inr (Some n)" by auto
  from head_covered [OF assms(1) 2(2) this assms(2)] 2 show ?thesis by (simp add: after_change_def)
qed (use assms in simp_all)

lemma dispatch_covered:
  assumes "orderly c s" "all_covered s"
  shows "all_covered (timer_fires k True s)"
proof (cases "\<exists>due. sc_timers s k = Some due \<and> due \<le> sc_now s")
  case False
  have "arm_segment k due s = s" if "sc_timers s k = Some due" for due
  proof -
    from that have "(sc_timers s)(k := Some due) = sc_timers s" by (simp add: fun_upd_idem)
    then show ?thesis by (simp add: arm_segment_def)
  qed
  with False assms(2) show ?thesis
    by (auto simp: timer_fires_def split: option.splits)
next
  case True
  then have eq: "timer_fires k True s = dispatch k (clear_timer k s)"
    by (auto simp: timer_fires_def Let_def)
  have d: "distinct (map cj_id (sc_jobs s))" using orderly_simps(1) [OF assms(1)] by simp
  have base: "sc_jobs (dispatch k (clear_timer k s)) = sc_jobs s"
    "sc_queue (dispatch k (clear_timer k s)) = sc_queue s"
    "sc_running (dispatch k (clear_timer k s)) = sc_running s"
    "sc_timers (dispatch k (clear_timer k s)) = (sc_timers s)(k := None)"
    "pending_fires s \<subseteq> pending_fires (dispatch k (clear_timer k s))"
    by (auto simp: dispatch_def clear_timer_def Let_def pending_fires_def split: option.splits)
  have "covered (dispatch k (clear_timer k s)) j" if "covered s j" "j \<in> set (sc_jobs s)" for j
  proof (cases "cj_id j = k")
    case False
    with base show ?thesis by (intro covered_mono [OF that(1)]) auto
  next
    case True
    show ?thesis
      unfolding covered_def
    proof (intro allI impI)
      fix x assume x: "cj_enabled j \<and> cj_next j = Some x"
      let ?f = "\<lparr>fi_job = j, fi_gen = sc_gen s, fi_seq = Suc (length (sc_submitted s))\<rparr>"
      from find_job_distinct [OF d that(2)] True x
      have "?f \<in> pending_fires (dispatch k (clear_timer k s))"
        by (simp add: dispatch_def clear_timer_def Let_def pending_fires_def)
      with x show "sc_timers (dispatch k (clear_timer k s)) (cj_id j) = Some x \<or>
         (\<exists>f \<in> pending_fires (dispatch k (clear_timer k s)).
            cj_id (fi_job f) = cj_id j \<and> cj_next (fi_job f) = Some x) \<or>
         Q_Delete (cj_id j) \<in> set (sc_queue (dispatch k (clear_timer k s)))"
        by force
    qed
  qed
  with assms(2) base(1,3) show ?thesis unfolding eq all_covered_def by simp
qed

lemma settles_covered:
  assumes "orderly c s" "all_covered s"
  shows "all_covered (submission_settles n r s)"
proof (cases "find (\<lambda>f. fi_seq f = n) (sc_fires s)")
  case None
  with assms show ?thesis by (simp add: submission_settles_def)
next
  case (Some f)
  from find_Some_in [OF Some] have f: "f \<in> set (sc_fires s)" by simp
  then have "fi_gen f = sc_gen s"
    using orderly_simps(2) [OF assms(1)] by (simp add: pending_fires_def)
  with Some obtain add where
    eq: "submission_settles n r s =
      s\<lparr>sc_fires := remove1 f (sc_fires s), sc_queue := sc_queue s @ add\<rparr>" and
    add: "add = [Q_Fired f (sc_now s)] \<or> add = [Q_Missed f (sc_now s)]"
    by (metis settles_effect)
  have "pending_fires s \<subseteq> pending_fires (submission_settles n r s)"
  proof
    fix g assume g: "g \<in> pending_fires s"
    show "g \<in> pending_fires (submission_settles n r s)"
      using add g by (cases "g = f") (auto simp: eq pending_fires_def)
  qed
  moreover have "Q_Delete k \<in> set (sc_queue s @ add)" if "Q_Delete k \<in> set (sc_queue s)" for k
    using that by simp
  ultimately show ?thesis
    unfolding eq by (intro covered_same_timers [OF assms(2)]) simp_all
qed

lemma request_covered:
  assumes "all_covered s"
  shows "all_covered (enqueue q s)"
  by (rule covered_same_timers [OF assms]) (auto simp: enqueue_def pending_fires_def)

lemma delete_covered:
  assumes "all_covered s"
  shows "all_covered (delete_job k s)"
proof -
  have "covered (delete_job k s) j" if "covered s j" for j
  proof (cases "cj_id j = k")
    case True
    then show ?thesis by (simp add: covered_def delete_job_def enqueue_def)
  next
    case False
    then show ?thesis
      by (intro covered_mono [OF that])
        (auto simp: delete_job_def enqueue_def clear_timer_def pending_fires_def)
  qed
  with assms show ?thesis
    by (simp add: all_covered_def delete_job_def enqueue_def clear_timer_def)
qed

text \<open>A step in which no write fails and no due timer finds the owner's fence closed.\<close>

definition kind_step :: "sched_step \<Rightarrow> bool" where
  "kind_step x = (case x of S_Write ok \<Rightarrow> ok | S_Timer _ fence_open \<Rightarrow> fence_open | _ \<Rightarrow> True)"

lemma covered_do:
  assumes "orderly c s" "orderly_step x s" "kind_step x" "all_covered s"
  shows "all_covered (sched_do c x s)"
proof (cases x)
  case (S_Tick t)
  with covered_same_timers [OF assms(4), of "s\<lparr>sc_now := t\<rparr>"] show ?thesis by simp
next
  case (S_Create tz k r)
  with assms(4) request_covered show ?thesis
    by (auto simp: create_job_def bind_res_Inr_iff split: sum.splits)
next
  case S_Start
  from start_effect [OF assms(1)] have "all_covered (start_scheduler s)"
    using assms(4) by (auto simp: all_covered_def all_armed_def covered_armed)
  with S_Start show ?thesis by simp
qed (use assms in \<open>auto simp: kind_step_def orderly_step_def begin_covered write_covered
       dispatch_covered settles_covered update_job_def request_covered delete_covered\<close>)

lemma orderly_reach:
  assumes "orderly_run c xs s" "orderly c s" "in_sync s"
  shows "orderly c (run_scheduler c xs s) \<and> in_sync (run_scheduler c xs s)"
  using assms
proof (induction xs arbitrary: s)
  case (Cons x xs)
  then have "orderly c (sched_do c x s)" "in_sync (sched_do c x s)"
    by (simp_all add: orderly_do sync_do)
  with Cons show ?case by simp
qed simp

text \<open>
  C11. No scheduled job is ever lost: in an orderly run without failed writes, whatever
  requests, fires and settlements interleave, each enabled job with a next run has its timer
  set for exactly that run, or that very run has been submitted and is still to be settled,
  or the job is being deleted.
\<close>

theorem no_job_lost:
  assumes "distinct (map cj_id jobs)"
    and "orderly_run c xs (new_scheduler t jobs)" "\<forall>x \<in> set xs. kind_step x"
    and "s = run_scheduler c xs (new_scheduler t jobs)"
    and "sc_running s" "j \<in> set (sc_jobs s)" "cj_enabled j" "cj_next j = Some d"
  shows "sc_timers s (cj_id j) = Some d \<or>
    (\<exists>f \<in> pending_fires s. cj_id (fi_job f) = cj_id j \<and> cj_next (fi_job f) = Some d) \<or>
    Q_Delete (cj_id j) \<in> set (sc_queue s)"
proof -
  have "all_covered (run_scheduler c ys s0)"
    if "orderly c s0" "orderly_run c ys s0" "all_covered s0" "\<forall>x \<in> set ys. kind_step x" for ys s0
    using that
  proof (induction ys arbitrary: s0)
    case (Cons y ys)
    then have "orderly c (sched_do c y s0)" "all_covered (sched_do c y s0)"
      by (simp_all add: orderly_do covered_do)
    with Cons show ?case by simp
  qed simp
  from this [OF orderly_new [OF assms(1)] assms(2) _ assms(3)]
  have "all_covered s" by (simp add: assms(4) all_covered_def new_scheduler_def)
  with assms(5-8) show ?thesis unfolding all_covered_def covered_def by blast
qed

text \<open>Start, a request to update while the job's fire is being submitted, both recorded.\<close>

definition rename_request :: cron_update_request where
  "rename_request = \<lparr>ru_id = ''job-1'', ru_cron = None, ru_prompt = None,
     ru_title = Some (Some ''daily''), ru_recurring = None, ru_tz = None, ru_enabled = None\<rparr>"

definition working_run :: "sched_step list" where
  "working_run = [S_Start, S_Begin, S_Tick 60000, S_Timer ''job-1'' True, S_Update rename_request,
     S_Begin, S_Write True, S_Settles 1 Adm_Submitted, S_Begin, S_Write True]"

definition working_state :: scheduler where
  "working_state = run_scheduler each_minute working_run (new_scheduler 2000 [sample_job])"

lemma working_run_ok:
  "orderly_run each_minute working_run (new_scheduler 2000 [sample_job])"
  by code_simp

lemma working_state_job:
  "sc_running working_state \<and> map cj_id (sc_jobs working_state) = [''job-1''] \<and>
   map cj_enabled (sc_jobs working_state) = [True] \<and>
   map cj_next (sc_jobs working_state) = [Some 120000] \<and>
   map cj_last (sc_jobs working_state) = [Some 60000] \<and>
   sc_fires working_state = [] \<and> sc_queue working_state = []"
  by code_simp

lemma no_job_lost_witness:
  "sc_timers working_state ''job-1'' = Some 120000"
proof -
  from working_state_job obtain j where j: "j \<in> set (sc_jobs working_state)" "cj_id j = ''job-1''"
    "cj_enabled j" "cj_next j = Some 120000"
    by (cases "sc_jobs working_state") auto
  have "\<forall>x \<in> set working_run. kind_step x"
    by (simp add: working_run_def kind_step_def)
  from no_job_lost [OF _ working_run_ok this working_state_def _ j(1,3,4)] j(2) working_state_job
  show ?thesis by (simp add: pending_fires_def)
qed

subsection \<open>No occurrence is submitted twice\<close>

text \<open>
  A timely step: the clock does not go back, and no timer is set for an instant that has
  already passed, which is what a store update that takes too long would do.
\<close>

definition timely_step :: "cron_lib \<Rightarrow> sched_step \<Rightarrow> scheduler \<Rightarrow> bool" where
  "timely_step c x s =
     (let s' = sched_do c x s in
      sc_now s \<le> sc_now s' \<and>
      (\<forall>j \<in> set (sc_jobs s' @ map fi_job (sc_submitted s')).
         case sc_timers s' (cj_id j) of
           None \<Rightarrow> True
         | Some d \<Rightarrow> sc_timers s (cj_id j) = Some d \<or> sc_now s' < d))"

fun timely_run :: "cron_lib \<Rightarrow> sched_step list \<Rightarrow> scheduler \<Rightarrow> bool" where
  "timely_run c [] s = True"
| "timely_run c (x # xs) s = (timely_step c x s \<and> timely_run c xs (sched_do c x s))"

definition occurrence :: "fire \<Rightarrow> string \<times> ms option" where
  "occurrence f = (cj_id (fi_job f), cj_next (fi_job f))"

definition once :: "scheduler \<Rightarrow> bool" where
  "once s \<longleftrightarrow>
     distinct (map occurrence (sc_submitted s)) \<and>
     (\<forall>f \<in> set (sc_submitted s). \<exists>x. cj_next (fi_job f) = Some x \<and> x \<le> sc_now s \<and>
        (\<forall>d. sc_timers s (cj_id (fi_job f)) = Some d \<longrightarrow> x < d))"

lemma once_quiet_step:
  assumes "once s" "sc_submitted s' = sc_submitted s" "timely_step c x s" "s' = sched_do c x s"
  shows "once s'"
proof -
  have now: "sc_now s \<le> sc_now s'" and arms: "sc_timers s (cj_id (fi_job f)) = Some d \<or> sc_now s' < d"
    if "f \<in> set (sc_submitted s')" "sc_timers s' (cj_id (fi_job f)) = Some d" for f d
    using assms(3,4) that by (auto simp: timely_step_def Let_def split: option.splits)
  have le: "sc_now s \<le> sc_now s'" using assms(3,4) by (simp add: timely_step_def Let_def)
  have "\<exists>x. cj_next (fi_job f) = Some x \<and> x \<le> sc_now s' \<and>
        (\<forall>d. sc_timers s' (cj_id (fi_job f)) = Some d \<longrightarrow> x < d)"
    if f: "f \<in> set (sc_submitted s')" for f
  proof -
    from assms(1,2) f obtain x where x: "cj_next (fi_job f) = Some x" "x \<le> sc_now s"
      "\<forall>d. sc_timers s (cj_id (fi_job f)) = Some d \<longrightarrow> x < d"
      by (auto simp: once_def)
    have "x < d" if "sc_timers s' (cj_id (fi_job f)) = Some d" for d
      using arms [OF f that] x le by auto
    with x le show ?thesis by auto
  qed
  with assms(1,2) show ?thesis by (simp add: once_def)
qed

lemma timer_once:
  assumes "orderly c s" "in_sync s" "once s" "timely_step c (S_Timer k b) s"
  shows "once (timer_fires k b s)"
proof (cases "sc_submitted (timer_fires k b s) = sc_submitted s")
  case True
  with once_quiet_step [OF assms(3) True assms(4)] show ?thesis by simp
next
  case False
  then obtain due j where d: "sc_timers s k = Some due" "due \<le> sc_now s"
    and j: "find_job k (sc_jobs s) = Some j" "cj_enabled j" and b: b
    by (auto simp: timer_fires_def Let_def dispatch_def clear_timer_def arm_segment_def
        split: option.splits if_splits)
  from find_job_Some [OF j(1)] have jk: "j \<in> set (sc_jobs s)" "cj_id j = k" by auto
  with assms(2) j(2) d(1) have nx: "cj_next j = Some due"
    by (force simp: in_sync_def)
  let ?f = "\<lparr>fi_job = j, fi_gen = sc_gen s, fi_seq = Suc (length (sc_submitted s))\<rparr>"
  from d j b have eq: "sc_submitted (timer_fires k b s) = sc_submitted s @ [?f]"
    "sc_timers (timer_fires k b s) = (sc_timers s)(k := None)"
    "sc_now (timer_fires k b s) = sc_now s"
    by (simp_all add: timer_fires_def Let_def dispatch_def clear_timer_def)
  have "occurrence ?f \<noteq> occurrence g" if "g \<in> set (sc_submitted s)" for g
    using assms(3) that jk(2) nx d(1) by (force simp: once_def occurrence_def)
  then have "occurrence ?f \<notin> occurrence ` set (sc_submitted s)" by blast
  with assms(3) have "distinct (map occurrence (sc_submitted s @ [?f]))"
    by (simp add: once_def)
  moreover have "\<exists>x. cj_next (fi_job g) = Some x \<and> x \<le> sc_now s \<and>
      (\<forall>e. ((sc_timers s)(k := None)) (cj_id (fi_job g)) = Some e \<longrightarrow> x < e)"
    if "g \<in> set (sc_submitted s @ [?f])" for g
    using that assms(3) nx d(2) jk(2) by (auto simp: once_def)
  ultimately show ?thesis unfolding once_def eq by blast
qed

lemma once_do:
  assumes "orderly c s" "in_sync s" "once s" "timely_step c x s"
  shows "once (sched_do c x s)"
proof (cases "\<exists>k b. x = S_Timer k b")
  case True
  with assms timer_once show ?thesis by auto
next
  case False
  with submitted_only_timer have "sc_submitted (sched_do c x s) = sc_submitted s" by blast
  from once_quiet_step [OF assms(3) this assms(4) refl] show ?thesis .
qed


definition two_fires :: "sched_step list" where
  "two_fires = working_run @ [S_Tick 120000, S_Timer ''job-1'' True]"

lemma two_fires_ok:
  "orderly_run each_minute two_fires (new_scheduler 2000 [sample_job])"
  "timely_run each_minute two_fires (new_scheduler 2000 [sample_job])"
  by code_simp+


subsection \<open>What the conditions are for\<close>

text \<open>
  C14. An update that changes no schedule can make a job fire twice for one occurrence: its
  next run is computed before the occurrence and committed after it, so the timer is set
  again for the instant that has already been submitted.
\<close>

definition straddling_run :: "sched_step list" where
  "straddling_run = [S_Start, S_Begin, S_Tick 59990, S_Update rename_request, S_Begin,
     S_Tick 60000, S_Timer ''job-1'' True, S_Write True, S_Timer ''job-1'' True]"


text \<open>
  A job created while the scheduler is starting is left without a timer: when its write
  is still in the queue as the start reads the jobs, the new job is enabled and scheduled,
  the scheduler runs, and nothing will fire it before the next start.
\<close>

definition create_while_starting :: "sched_step list" where
  "create_while_starting = [S_Create ''UTC'' ''job-2'' sample_create, S_Begin, S_Start,
     S_Write True, S_Begin]"

theorem create_during_start_unarmed:
  "let s = run_scheduler each_minute create_while_starting (new_scheduler 2000 [sample_job]) in
   sc_running s \<and> sc_queue s = [] \<and> sc_fires s = [] \<and>
   map cj_id (sc_jobs s) = [''job-1'', ''job-2''] \<and> map cj_enabled (sc_jobs s) = [True, True] \<and>
   map cj_next (sc_jobs s) = [Some 60000, Some 60000] \<and>
   sc_timers s ''job-1'' = Some 60000 \<and> sc_timers s ''job-2'' = None"
  by code_simp

text \<open>
  A delete that fails disarms the job it did not delete: the timer is cleared before the
  write, and a failed write leaves the enabled job in the file with nothing to fire it.
\<close>

definition failed_delete :: "sched_step list" where
  "failed_delete = [S_Start, S_Begin, S_Delete ''job-1'', S_Begin, S_Write False]"

theorem failed_delete_unarmed:
  "let s = run_scheduler each_minute failed_delete (new_scheduler 2000 [sample_job]) in
   orderly_run each_minute failed_delete (new_scheduler 2000 [sample_job]) \<and>
   sc_running s \<and> sc_queue s = [] \<and> sc_fires s = [] \<and> sc_jobs s = [sample_job] \<and>
   sc_timers s ''job-1'' = None \<and>
   map snd (sc_replies s) = [Reply_Write_Failed]"
  by code_simp

end
