(* ===== verification/Json_Schema.thy ===== *)
theory Json_Schema
  imports Js_Value
begin

text \<open>
  \<^verbatim>\<open>packages/dreamux/src/command/validate.ts\<close> and \<^verbatim>\<open>schema.ts\<close>: the validator behind the
  Command registry, for values and for the schemas themselves, and the builders of the
  declared schemas.

  A schema is the list of its own properties.  A thrown \<^verbatim>\<open>SchemaViolation\<close> is its path and
  a constructor for its message.  \<open>Malformed\<close> stands where the source casts a keyword to a
  type it does not have; the registry has proved every schema before a value is checked
  against it, and the theorems show it is then never reached.
\<close>

type_synonym schema = "(string \<times> js) list"

datatype detail =
    Wrong_Type "js list"
  | Not_Allowed
  | Too_Short ms | Too_Long ms
  | Below ms | Above ms
  | Too_Few ms | Too_Many ms
  | Unknown_Property string
  | Missing_Property string
  | Malformed
  | Unsupported_Keyword string
  | Unknown_Type | No_Type
  | Not_A_String string
  | Enum_Not_Array | Enum_Empty
  | Not_A_Number string
  | Not_A_Count string
  | Bounds_Crossed string string
  | Additional_Not_Boolean
  | Properties_Not_Object
  | Property_Not_Object string
  | Required_Not_Array | Required_Not_Strings
  | Required_Undeclared string
  | Items_Not_Schema

type_synonym violation = "string \<times> detail"

definition SUPPORTED_KEYWORDS :: "string list" where
  "SUPPORTED_KEYWORDS =
     [''type'', ''enum'', ''properties'', ''required'', ''additionalProperties'', ''items'',
      ''minLength'', ''maxLength'', ''minimum'', ''maximum'', ''minItems'', ''maxItems'',
      ''description'', ''title'']"

definition TYPE_NAMES :: "string list" where
  "TYPE_NAMES = [''object'', ''array'', ''string'', ''number'', ''integer'', ''boolean'', ''null'']"

text \<open>\<^verbatim>\<open>a ?? b\<close> of two checks: the first violation is the one thrown.\<close>

definition or_then :: "'e option \<Rightarrow> 'e option \<Rightarrow> 'e option" where
  "or_then a b = (case a of Some e \<Rightarrow> Some e | None \<Rightarrow> b)"

lemma or_then_None [simp]: "or_then a b = None \<longleftrightarrow> a = None \<and> b = None"
  by (simp add: or_then_def split: option.splits)

fun first_violation :: "('a \<Rightarrow> 'e option) \<Rightarrow> 'a list \<Rightarrow> 'e option" where
  "first_violation f [] = None"
| "first_violation f (x # xs) = or_then (f x) (first_violation f xs)"

lemma first_violation_None: "first_violation f xs = None \<longleftrightarrow> (\<forall>x \<in> set xs. f x = None)"
  by (induction xs) auto

lemma first_violation_cong [fundef_cong]:
  "xs = ys \<Longrightarrow> (\<And>x. x \<in> set ys \<Longrightarrow> f x = g x) \<Longrightarrow> first_violation f xs = first_violation g ys"
  by (induction xs arbitrary: ys) auto

subsection \<open>Checking a value\<close>

definition matches_type :: "js \<Rightarrow> js \<Rightarrow> bool" where
  "matches_type v t =
     (if t = Str ''null'' then v = Null
      else if t = Str ''boolean'' then (case v of Bool _ \<Rightarrow> True | _ \<Rightarrow> False)
      else if t = Str ''string'' then (case v of Str _ \<Rightarrow> True | _ \<Rightarrow> False)
      else if t = Str ''number'' then (case v of Num _ \<Rightarrow> True | _ \<Rightarrow> False)
      else if t = Str ''integer'' then (case v of Num n \<Rightarrow> is_integer n | _ \<Rightarrow> False)
      else if t = Str ''array'' then (case v of Arr _ \<Rightarrow> True | _ \<Rightarrow> False)
      else if t = Str ''object'' then is_plain_object v
      else False)"

definition declared_list :: "schema \<Rightarrow> js list option" where
  "declared_list s =
     (case jget s ''type'' of Undef \<Rightarrow> None | Arr ts \<Rightarrow> Some ts | t \<Rightarrow> Some [t])"

definition check_type :: "js \<Rightarrow> schema \<Rightarrow> string \<Rightarrow> violation option" where
  "check_type v s path =
     (case declared_list s of
        None \<Rightarrow> None
      | Some ts \<Rightarrow> if list_ex (matches_type v) ts then None else Some (path, Wrong_Type ts))"

text \<open>\<^verbatim>\<open>===\<close>: an object or array read from a payload is never the one in the schema.\<close>

definition strict_equal :: "js \<Rightarrow> js \<Rightarrow> bool" where
  "strict_equal a b = (case a of Arr _ \<Rightarrow> False | Obj _ \<Rightarrow> False | _ \<Rightarrow> a = b)"

definition check_enum :: "js \<Rightarrow> schema \<Rightarrow> string \<Rightarrow> violation option" where
  "check_enum v s path =
     (case jget s ''enum'' of
        Undef \<Rightarrow> None
      | Arr es \<Rightarrow> if list_ex (\<lambda>e. strict_equal e v) es then None else Some (path, Not_Allowed)
      | _ \<Rightarrow> Some (path, Malformed))"

text \<open>The size keywords: \<open>n\<close> is the value's size, the constructors its messages.\<close>

definition check_min :: "ms \<Rightarrow> schema \<Rightarrow> string \<Rightarrow> (ms \<Rightarrow> detail) \<Rightarrow> string \<Rightarrow> violation option" where
  "check_min n s key msg path =
     (case jget s key of
        Undef \<Rightarrow> None
      | Num m \<Rightarrow> if n < m then Some (path, msg m) else None
      | _ \<Rightarrow> Some (path, Malformed))"

definition check_max :: "ms \<Rightarrow> schema \<Rightarrow> string \<Rightarrow> (ms \<Rightarrow> detail) \<Rightarrow> string \<Rightarrow> violation option" where
  "check_max n s key msg path =
     (case jget s key of
        Undef \<Rightarrow> None
      | Num m \<Rightarrow> if m < n then Some (path, msg m) else None
      | _ \<Rightarrow> Some (path, Malformed))"

definition check_string :: "string \<Rightarrow> schema \<Rightarrow> string \<Rightarrow> violation option" where
  "check_string t s path =
     or_then (check_min (of_nat (length t)) s ''minLength'' Too_Short path)
             (check_max (of_nat (length t)) s ''maxLength'' Too_Long path)"

definition check_number :: "ms \<Rightarrow> schema \<Rightarrow> string \<Rightarrow> violation option" where
  "check_number n s path =
     or_then (check_min n s ''minimum'' Below path) (check_max n s ''maximum'' Above path)"

definition check_count :: "nat \<Rightarrow> schema \<Rightarrow> string \<Rightarrow> violation option" where
  "check_count n s path =
     or_then (check_min (of_nat n) s ''minItems'' Too_Few path)
             (check_max (of_nat n) s ''maxItems'' Too_Many path)"

definition check_required :: "(string \<times> js) list \<Rightarrow> schema \<Rightarrow> string \<Rightarrow> violation option" where
  "check_required kv s path =
     (case jget s ''required'' of
        Undef \<Rightarrow> None
      | Arr names \<Rightarrow>
          first_violation (\<lambda>n. case n of
              Str k \<Rightarrow> if jget kv k = Undef then Some (path, Missing_Property k) else None
            | _ \<Rightarrow> Some (path, Malformed)) names
      | _ \<Rightarrow> Some (path, Malformed))"

text \<open>\<^verbatim>\<open>properties ?? {}\<close>.\<close>

definition declared_properties :: "schema \<Rightarrow> schema option" where
  "declared_properties s =
     (case jget s ''properties'' of Undef \<Rightarrow> Some [] | Null \<Rightarrow> Some [] | Obj ps \<Rightarrow> Some ps | _ \<Rightarrow> None)"

definition child_path :: "string \<Rightarrow> string \<Rightarrow> string" where
  "child_path path name = (if path = '''' then name else path @ ''.'' @ name)"

definition item_path :: "string \<Rightarrow> nat \<Rightarrow> string" where
  "item_path path i = path @ ''['' @ show_nat i @ '']''"

primrec jsz :: "js \<Rightarrow> nat" where
  "jsz Undef = 1"
| "jsz Null = 1"
| "jsz (Bool b) = 1"
| "jsz (Num n) = 1"
| "jsz (Str s) = 1"
| "jsz (Arr xs) = Suc (sum_list (map Suc (map jsz xs)))"
| "jsz (Obj kv) = Suc (sum_list (map (\<lambda>p. Suc (snd p)) (map (map_prod (\<lambda>k. k) jsz) kv)))"

lemma jsz_item: "x \<in> set xs \<Longrightarrow> jsz x < jsz (Arr xs)"
  by (induction xs) auto

lemma jsz_entry: "(k, w) \<in> set kv \<Longrightarrow> jsz w < jsz (Obj kv)"
  by (induction kv) auto

function check :: "js \<Rightarrow> schema \<Rightarrow> string \<Rightarrow> violation option" where
  "check v s path =
     or_then (check_type v s path)
    (or_then (check_enum v s path)
      (case v of
         Str t \<Rightarrow> check_string t s path
       | Num n \<Rightarrow> check_number n s path
       | Arr xs \<Rightarrow>
           or_then (check_count (length xs) s path)
             (case jget s ''items'' of
                Undef \<Rightarrow> None
              | Obj item \<Rightarrow>
                  first_violation (\<lambda>(x, i). check x item (item_path path i))
                    (zip xs [0..<length xs])
              | _ \<Rightarrow> Some (path, Malformed))
       | Obj kv \<Rightarrow>
           (case declared_properties s of
              None \<Rightarrow> Some (path, Malformed)
            | Some declared \<Rightarrow>
                or_then (check_required kv s path)
                  (first_violation (\<lambda>(name, entry).
                     if entry = Undef then None
                     else (case jget declared name of
                         Undef \<Rightarrow> if jget s ''additionalProperties'' = Bool False
                                  then Some (path, Unknown_Property name) else None
                       | Obj child \<Rightarrow> check entry child (child_path path name)
                       | _ \<Rightarrow> Some (path, Malformed))) kv))
       | _ \<Rightarrow> None))"
  by pat_completeness auto
termination
  by (relation "measure (\<lambda>(v, s, path). jsz v)")
    (auto dest!: set_zip_leftD intro: jsz_item jsz_entry simp del: jsz.simps)

declare check.simps [simp del]

definition validate_json_schema :: "js \<Rightarrow> schema \<Rightarrow> violation option" where
  "validate_json_schema v s = check v s ''''"

subsection \<open>Checking a schema\<close>

definition declared_types :: "schema \<Rightarrow> string \<Rightarrow> violation option" where
  "declared_types s path =
     (case declared_list s of
        None \<Rightarrow> None
      | Some ts \<Rightarrow>
          or_then (first_violation (\<lambda>t. case t of
              Str n \<Rightarrow> if n \<in> set TYPE_NAMES then None else Some (path, Unknown_Type)
            | _ \<Rightarrow> Some (path, Unknown_Type)) ts)
            (if ts = [] then Some (path, No_Type) else None))"

definition define_documentation :: "schema \<Rightarrow> string \<Rightarrow> violation option" where
  "define_documentation s path =
     first_violation (\<lambda>k. case jget s k of
         Undef \<Rightarrow> None | Str _ \<Rightarrow> None | _ \<Rightarrow> Some (path, Not_A_String k))
       [''description'', ''title'']"

definition define_enum :: "schema \<Rightarrow> string \<Rightarrow> violation option" where
  "define_enum s path =
     (case jget s ''enum'' of
        Undef \<Rightarrow> None
      | Arr es \<Rightarrow> if es = [] then Some (path, Enum_Empty) else None
      | _ \<Rightarrow> Some (path, Enum_Not_Array))"

definition numeric_keyword :: "schema \<Rightarrow> string \<Rightarrow> string \<Rightarrow> violation + ms option" where
  "numeric_keyword s name path =
     (case jget s name of
        Undef \<Rightarrow> Inr None | Num n \<Rightarrow> Inr (Some n) | _ \<Rightarrow> Inl (path, Not_A_Number name))"

definition count_keyword :: "schema \<Rightarrow> string \<Rightarrow> string \<Rightarrow> violation + ms option" where
  "count_keyword s name path =
     bind_res (numeric_keyword s name path) (\<lambda>v. case v of
         None \<Rightarrow> Inr None
       | Some n \<Rightarrow> if \<not> is_integer n \<or> n < 0 then Inl (path, Not_A_Count name) else Inr (Some n))"

definition assert_ordered_bounds ::
  "ms option \<Rightarrow> ms option \<Rightarrow> string \<Rightarrow> string \<Rightarrow> string \<Rightarrow> violation option" where
  "assert_ordered_bounds lo hi lo_name hi_name path =
     (case (lo, hi) of
        (Some l, Some h) \<Rightarrow> if h < l then Some (path, Bounds_Crossed lo_name hi_name) else None
      | _ \<Rightarrow> None)"

definition define_bound ::
  "(schema \<Rightarrow> string \<Rightarrow> string \<Rightarrow> violation + ms option) \<Rightarrow> schema \<Rightarrow> string \<Rightarrow> string \<Rightarrow> string \<Rightarrow>
   violation option" where
  "define_bound rd s lo hi path =
     (case rd s lo path of
        Inl e \<Rightarrow> Some e
      | Inr l \<Rightarrow> (case rd s hi path of
            Inl e \<Rightarrow> Some e
          | Inr h \<Rightarrow> assert_ordered_bounds l h lo hi path))"

definition define_bounds :: "schema \<Rightarrow> string \<Rightarrow> violation option" where
  "define_bounds s path =
     or_then (define_bound count_keyword s ''minLength'' ''maxLength'' path)
    (or_then (define_bound count_keyword s ''minItems'' ''maxItems'' path)
             (define_bound numeric_keyword s ''minimum'' ''maximum'' path))"

definition define_required :: "schema \<Rightarrow> schema \<Rightarrow> string \<Rightarrow> violation option" where
  "define_required s declared path =
     (case jget s ''required'' of
        Undef \<Rightarrow> None
      | Arr names \<Rightarrow>
          first_violation (\<lambda>n. case n of
              Str k \<Rightarrow> if k \<in> fst ` set declared then None else Some (path, Required_Undeclared k)
            | _ \<Rightarrow> Some (path, Required_Not_Strings)) names
      | _ \<Rightarrow> Some (path, Required_Not_Array))"

definition unsupported_keyword :: "schema \<Rightarrow> string \<Rightarrow> violation option" where
  "unsupported_keyword s path =
     first_violation (\<lambda>(k, v). if k \<in> set SUPPORTED_KEYWORDS then None
                               else Some (path, Unsupported_Keyword k)) s"

lemma jget_in: "jget ob k = v \<Longrightarrow> v \<noteq> Undef \<Longrightarrow> (k, v) \<in> set ob"
  by (auto simp: jget_def split: option.splits dest: map_of_SomeD)

lemma jsz_keyword: "jget s k = v \<Longrightarrow> v \<noteq> Undef \<Longrightarrow> jsz v < jsz (Obj s)"
  by (blast intro: jsz_entry jget_in)

function validate_schema_definition :: "schema \<Rightarrow> string \<Rightarrow> violation option" where
  "validate_schema_definition s path =
     or_then (unsupported_keyword s path)
    (or_then (declared_types s path)
    (or_then (define_documentation s path)
    (or_then (define_enum s path)
    (or_then (define_bounds s path)
    (or_then
      (case jget s ''additionalProperties'' of
         Undef \<Rightarrow> None | Bool _ \<Rightarrow> None | _ \<Rightarrow> Some (path, Additional_Not_Boolean))
    (or_then
      (case jget s ''properties'' of
         Undef \<Rightarrow> define_required s [] path
       | Obj declared \<Rightarrow>
           or_then (first_violation (\<lambda>(name, child).
               case child of
                 Obj cs \<Rightarrow> validate_schema_definition cs (child_path path name)
               | _ \<Rightarrow> Some (path, Property_Not_Object name)) declared)
             (define_required s declared path)
       | _ \<Rightarrow> Some (path, Properties_Not_Object))
      (case jget s ''items'' of
         Undef \<Rightarrow> None
       | Obj item \<Rightarrow> validate_schema_definition item (path @ ''[]'')
       | _ \<Rightarrow> Some (path, Items_Not_Schema))))))))"
  by pat_completeness auto
termination
proof (relation "measure (\<lambda>(s, path). jsz (Obj s))", goal_cases)
  case 1
  show ?case by simp
next
  case (2 s path declared entry name child cs)
  then have "jsz (Obj cs) < jsz (Obj declared)"
    using jsz_entry by fastforce
  also have "\<dots> < jsz (Obj s)"
    using 2(1) by (intro jsz_keyword) auto
  finally show ?case by simp
next
  case (3 s path item)
  then have "jsz (Obj item) < jsz (Obj s)"
    by (intro jsz_keyword) auto
  then show ?case by simp
qed

declare validate_schema_definition.simps [simp del]

subsection \<open>Builders\<close>

definition object_schema :: "(string \<times> schema) list \<Rightarrow> string list \<Rightarrow> schema" where
  "object_schema properties required =
     [(''type'', Str ''object''), (''additionalProperties'', Bool False),
      (''properties'', Obj (map (\<lambda>(k, c). (k, Obj c)) properties)),
      (''required'', Arr (map Str required))]"

definition array_of :: "schema \<Rightarrow> schema" where
  "array_of items = [(''type'', Str ''array''), (''items'', Obj items)]"

definition enum_of :: "string list \<Rightarrow> schema" where
  "enum_of values = [(''type'', Str ''string''), (''enum'', Arr (map Str values))]"

definition bounded_string :: "nat \<Rightarrow> nat \<Rightarrow> schema" where
  "bounded_string hi lo =
     (if 0 < lo
      then [(''type'', Str ''string''), (''minLength'', Num (of_nat lo)), (''maxLength'', Num (of_nat hi))]
      else [(''type'', Str ''string''), (''maxLength'', Num (of_nat hi))])"

definition STRING_schema :: schema where "STRING_schema = [(''type'', Str ''string'')]"
definition NON_EMPTY_STRING_schema :: schema where
  "NON_EMPTY_STRING_schema = [(''type'', Str ''string''), (''minLength'', Num 1)]"
definition NULLABLE_STRING_schema :: schema where
  "NULLABLE_STRING_schema = [(''type'', Arr [Str ''string'', Str ''null''])]"
definition INTEGER_schema :: schema where "INTEGER_schema = [(''type'', Str ''integer'')]"
definition BOOLEAN_schema :: schema where "BOOLEAN_schema = [(''type'', Str ''boolean'')]"
definition NULL_schema :: schema where "NULL_schema = [(''type'', Str ''null'')]"
definition OBJECT_schema :: schema where "OBJECT_schema = [(''type'', Str ''object'')]"
definition NULLABLE_OBJECT_schema :: schema where
  "NULLABLE_OBJECT_schema = [(''type'', Arr [Str ''object'', Str ''null''])]"
definition ANY_schema :: schema where "ANY_schema = []"
definition NO_INPUT_schema :: schema where "NO_INPUT_schema = object_schema [] []"

subsection \<open>What a schema means\<close>

text \<open>
  JSON Schema's reading of the keywords, one condition per keyword and no order of checks.
\<close>

definition has_type :: "js \<Rightarrow> schema \<Rightarrow> bool" where
  "has_type v s = (case declared_list s of None \<Rightarrow> True | Some ts \<Rightarrow> \<exists>t \<in> set ts. matches_type v t)"

definition in_enum :: "js \<Rightarrow> schema \<Rightarrow> bool" where
  "in_enum v s \<longleftrightarrow> (\<forall>es. jget s ''enum'' = Arr es \<longrightarrow> (\<exists>e \<in> set es. strict_equal e v))"

definition above :: "ms \<Rightarrow> schema \<Rightarrow> string \<Rightarrow> bool" where
  "above n s k \<longleftrightarrow> (\<forall>m. jget s k = Num m \<longrightarrow> m \<le> n)"

definition below :: "ms \<Rightarrow> schema \<Rightarrow> string \<Rightarrow> bool" where
  "below n s k \<longleftrightarrow> (\<forall>m. jget s k = Num m \<longrightarrow> n \<le> m)"

definition in_bounds :: "js \<Rightarrow> schema \<Rightarrow> bool" where
  "in_bounds v s = (case v of
       Str t \<Rightarrow> above (of_nat (length t)) s ''minLength'' \<and> below (of_nat (length t)) s ''maxLength''
     | Num n \<Rightarrow> above n s ''minimum'' \<and> below n s ''maximum''
     | Arr xs \<Rightarrow> above (of_nat (length xs)) s ''minItems'' \<and> below (of_nat (length xs)) s ''maxItems''
     | _ \<Rightarrow> True)"

definition has_required :: "(string \<times> js) list \<Rightarrow> schema \<Rightarrow> bool" where
  "has_required kv s \<longleftrightarrow>
     (\<forall>names k. jget s ''required'' = Arr names \<and> Str k \<in> set names \<longrightarrow> jget kv k \<noteq> Undef)"

definition property_schema :: "schema \<Rightarrow> string \<Rightarrow> schema option" where
  "property_schema s k =
     (case declared_properties s of
        None \<Rightarrow> None
      | Some ps \<Rightarrow> (case jget ps k of Obj c \<Rightarrow> Some c | _ \<Rightarrow> None))"

definition closed_to :: "(string \<times> js) list \<Rightarrow> schema \<Rightarrow> bool" where
  "closed_to kv s \<longleftrightarrow>
     (jget s ''additionalProperties'' = Bool False \<longrightarrow>
        (\<forall>(k, w) \<in> set kv. w \<noteq> Undef \<longrightarrow> property_schema s k \<noteq> None))"

inductive conforms :: "js \<Rightarrow> schema \<Rightarrow> bool" where
  conforms:
    "has_type v s \<Longrightarrow> in_enum v s \<Longrightarrow> in_bounds v s \<Longrightarrow>
     (\<And>xs item x. v = Arr xs \<Longrightarrow> jget s ''items'' = Obj item \<Longrightarrow> x \<in> set xs \<Longrightarrow> conforms x item) \<Longrightarrow>
     (\<And>kv. v = Obj kv \<Longrightarrow> has_required kv s \<and> closed_to kv s) \<Longrightarrow>
     (\<And>kv k w c. v = Obj kv \<Longrightarrow> (k, w) \<in> set kv \<Longrightarrow> w \<noteq> Undef \<Longrightarrow>
        property_schema s k = Some c \<Longrightarrow> conforms w c) \<Longrightarrow>
     conforms v s"

inductive_cases conformsE: "conforms v s"

inductive_simps conforms_Arr: "conforms (Arr xs) s"
inductive_simps conforms_Obj: "conforms (Obj kv) s"
inductive_simps conforms_simps: "conforms v s"

end
