(* ===== verification/Output_Schema_Codec.thy ===== *)
theory Output_Schema_Codec
  imports Json_Schema "HOL-Library.List_Lexorder" "HOL-Library.Char_ord"
begin

text \<open>
  \<^verbatim>\<open>packages/agent-runtime/codex/src/output-schema-codec.ts\<close>: the caller's output schema is
  compiled to the strict form Codex accepts, where every property is required and an
  optional one may be null, and a plan that restores the answer to the caller's schema.

  A thrown unsupported-feature error is its path and a constructor for its reason.  The
  order \<^verbatim>\<open>localeCompare\<close> puts on the canonical texts of enum values is the argument \<open>le\<close>.
\<close>

datatype codec_reason =
    Root_Not_Object | Optional_Accepts_Null | Description_Not_String
  | Additional_Not_False | Items_Tuple | Items_Missing
  | Bound_Not_Finite string | Minimum_Above_Maximum
  | Unsupported_Type string | Type_Not_One | Not_Nullable_Union
  | Enum_Not_Primitives | Enum_Entry_Not_Primitive | Enum_Not_Unique
  | Enum_On_Structure | Enum_Type_Mismatch string
  | Required_Not_Strings_Array | Required_Entry_Not_String
  | Required_Unknown string | Required_Duplicate string
  | Keyword_Unknown string | Not_A_Record
  | Expected_Array | Expected_Object | Invalid_Json string

type_synonym codec_error = "string \<times> codec_reason"

datatype restoration_plan =
    Plan_Value
  | Plan_Array bool restoration_plan
  | Plan_Object bool "(string \<times> bool \<times> restoration_plan) list"

record compiled =
  wireSchema :: schema
  compiled_plan :: restoration_plan
  acceptsNull :: bool

definition SUPPORTED_TYPES :: "string list" where
  "SUPPORTED_TYPES =
     [''object'', ''array'', ''string'', ''number'', ''integer'', ''boolean'', ''null'']"

definition COMMON_KEYWORDS :: "string list" where
  "COMMON_KEYWORDS = [''type'', ''description'', ''enum'']"
definition OBJECT_KEYWORDS :: "string list" where
  "OBJECT_KEYWORDS = COMMON_KEYWORDS @ [''properties'', ''required'', ''additionalProperties'']"
definition ARRAY_KEYWORDS :: "string list" where
  "ARRAY_KEYWORDS = COMMON_KEYWORDS @ [''items'']"
definition NUMERIC_KEYWORDS :: "string list" where
  "NUMERIC_KEYWORDS = COMMON_KEYWORDS @ [''minimum'', ''maximum'']"

subsection \<open>Paths\<close>

definition name_start :: "char \<Rightarrow> bool" where
  "name_start c \<longleftrightarrow> c \<in> set ''ABCDEFGHIJKLMNOPQRSTUVWXYZabcdefghijklmnopqrstuvwxyz_$''"

definition name_part :: "char \<Rightarrow> bool" where
  "name_part c \<longleftrightarrow> name_start c \<or> c \<in> set ''0123456789''"

text \<open>\<^verbatim>\<open>JSON.stringify\<close> of a string.\<close>

definition json_char :: "char \<Rightarrow> string" where
  "json_char c =
     (if c = CHR 0x22 then [CHR 0x5C, CHR 0x22]
      else if c = CHR 0x5C then [CHR 0x5C, CHR 0x5C]
      else if c = CHR 0x08 then [CHR 0x5C, CHR ''b'']
      else if c = CHR 0x09 then [CHR 0x5C, CHR ''t'']
      else if c = CHR 0x0A then [CHR 0x5C, CHR ''n'']
      else if c = CHR 0x0C then [CHR 0x5C, CHR ''f'']
      else if c = CHR 0x0D then [CHR 0x5C, CHR ''r'']
      else if of_char c < (32 :: nat)
      then [CHR 0x5C, CHR ''u'', CHR ''0'', CHR ''0'',
            ''01'' ! (of_char c div 16), ''0123456789abcdef'' ! (of_char c mod 16)]
      else [c])"

definition json_quote :: "string \<Rightarrow> string" where
  "json_quote s = [CHR 0x22] @ concat (map json_char s) @ [CHR 0x22]"

definition path_segment :: "string \<Rightarrow> string" where
  "path_segment name =
     (case name of
        [] \<Rightarrow> ''['' @ json_quote name @ '']''
      | c # cs \<Rightarrow> if name_start c \<and> list_all name_part cs then ''.'' @ name
                  else ''['' @ json_quote name @ '']'')"

definition schema_property_path :: "string \<Rightarrow> string \<Rightarrow> string" where
  "schema_property_path path name = path @ ''.properties'' @ path_segment name"

definition value_property_path :: "string \<Rightarrow> string \<Rightarrow> string" where
  "value_property_path path name = path @ path_segment name"

subsection \<open>Reading the keywords\<close>

definition schema_record :: "js \<Rightarrow> string \<Rightarrow> codec_error + schema" where
  "schema_record v path = (case v of Obj s \<Rightarrow> Inr s | _ \<Rightarrow> Inl (path, Not_A_Record))"

definition schema_type :: "js \<Rightarrow> string \<Rightarrow> codec_error + (string \<times> bool)" where
  "schema_type v path =
     (case v of
        Str t \<Rightarrow>
          if t \<notin> set SUPPORTED_TYPES then Inl (path, Unsupported_Type t)
          else Inr (t, t = ''null'')
      | Arr xs \<Rightarrow>
          if length xs \<noteq> 2 \<or> length (remdups xs) \<noteq> 2 \<or> Str ''null'' \<notin> set xs
          then Inl (path, Not_Nullable_Union)
          else (case find (\<lambda>x. x \<noteq> Str ''null'') xs of
              Some (Str t) \<Rightarrow>
                if t \<in> set SUPPORTED_TYPES then Inr (t, True) else Inl (path, Not_Nullable_Union)
            | _ \<Rightarrow> Inl (path, Not_Nullable_Union))
      | _ \<Rightarrow> Inl (path, Type_Not_One))"

definition primitive :: "js \<Rightarrow> bool" where
  "primitive v = (case v of Null \<Rightarrow> True | Str _ \<Rightarrow> True | Bool _ \<Rightarrow> True | Num _ \<Rightarrow> True | _ \<Rightarrow> False)"

text \<open>
  The canonical text of a primitive is its JSON text, and distinct primitives have distinct
  texts, so the uniqueness of the texts is that of the values.
\<close>

definition schema_enum :: "js \<Rightarrow> string \<Rightarrow> codec_error + js list option" where
  "schema_enum v path =
     (case v of
        Undef \<Rightarrow> Inr None
      | Arr xs \<Rightarrow>
          if xs = [] then Inl (path, Enum_Not_Primitives)
          else bind_res (map_res (\<lambda>(x, i).
                 if primitive x then Inr x
                 else Inl (item_path path i, Enum_Entry_Not_Primitive))
               (zip xs [0..<length xs]))
               (\<lambda>values. if distinct values then Inr (Some values) else Inl (path, Enum_Not_Unique))
      | _ \<Rightarrow> Inl (path, Enum_Not_Primitives))"

definition enum_value_ok :: "string \<Rightarrow> bool \<Rightarrow> js \<Rightarrow> bool" where
  "enum_value_ok ty nullable v =
     (v = Null \<and> nullable \<or>
      (if ty = ''null'' then v = Null
       else if ty = ''integer'' then (case v of Num n \<Rightarrow> is_integer n | _ \<Rightarrow> False)
       else (case v of
           Str _ \<Rightarrow> ty = ''string'' | Num _ \<Rightarrow> ty = ''number'' | Bool _ \<Rightarrow> ty = ''boolean''
         | Null \<Rightarrow> ty = ''object'' | _ \<Rightarrow> False)))"

definition validate_enum_types ::
  "js list \<Rightarrow> string \<Rightarrow> bool \<Rightarrow> string \<Rightarrow> codec_error option" where
  "validate_enum_types values ty nullable path =
     (if ty = ''object'' \<or> ty = ''array'' then Some (path, Enum_On_Structure)
      else first_violation (\<lambda>(v, i). if enum_value_ok ty nullable v then None
                                     else Some (item_path path i, Enum_Type_Mismatch ty))
             (zip values [0..<length values]))"

fun required_scan ::
  "schema \<Rightarrow> string \<Rightarrow> (js \<times> nat) list \<Rightarrow> string list \<Rightarrow> codec_error + string list" where
  "required_scan properties path [] required = Inr required"
| "required_scan properties path ((entry, i) # rest) required =
     (case entry of
        Str n \<Rightarrow>
          if n \<notin> fst ` set properties then Inl (item_path path i, Required_Unknown n)
          else if n \<in> set required then Inl (item_path path i, Required_Duplicate n)
          else required_scan properties path rest (required @ [n])
      | _ \<Rightarrow> Inl (item_path path i, Required_Entry_Not_String))"

definition required_properties :: "js \<Rightarrow> schema \<Rightarrow> string \<Rightarrow> codec_error + string list" where
  "required_properties v properties path =
     (case v of
        Undef \<Rightarrow> Inr []
      | Arr xs \<Rightarrow> required_scan properties path (zip xs [0..<length xs]) []
      | _ \<Rightarrow> Inl (path, Required_Not_Strings_Array))"

definition own_keys :: "(string \<times> js) list \<Rightarrow> string list" where
  "own_keys ob = remdups (map fst ob)"

definition reject_unknown_keywords :: "schema \<Rightarrow> string list \<Rightarrow> string \<Rightarrow> codec_error option" where
  "reject_unknown_keywords s allowed path =
     first_violation (\<lambda>k. if k \<in> set allowed then None
                          else Some (path @ ''.'' @ k, Keyword_Unknown k)) (own_keys s)"

fun insort_by :: "('a \<Rightarrow> 'a \<Rightarrow> bool) \<Rightarrow> 'a \<Rightarrow> 'a list \<Rightarrow> 'a list" where
  "insort_by le x [] = [x]"
| "insort_by le x (y # ys) = (if le x y then x # y # ys else y # insort_by le x ys)"

definition canonical_enum :: "(js \<Rightarrow> js \<Rightarrow> bool) \<Rightarrow> js list \<Rightarrow> js list" where
  "canonical_enum le values = foldr (insort_by le) values []"

subsection \<open>Compiling\<close>

text \<open>\<^verbatim>\<open>compileNumericBounds\<close>: the bounds it adds to the wire schema, in order.\<close>

definition numeric_bound :: "schema \<Rightarrow> string \<Rightarrow> string \<Rightarrow> codec_error + schema" where
  "numeric_bound s path keyword =
     (case jget s keyword of
        Undef \<Rightarrow> Inr []
      | Num n \<Rightarrow> Inr [(keyword, Num n)]
      | _ \<Rightarrow> Inl (path @ ''.'' @ keyword, Bound_Not_Finite keyword))"

definition compile_numeric_bounds :: "schema \<Rightarrow> string \<Rightarrow> schema \<Rightarrow> codec_error + schema" where
  "compile_numeric_bounds s path wire =
     bind_res (numeric_bound s path ''minimum'') (\<lambda>lo.
     bind_res (numeric_bound s path ''maximum'') (\<lambda>hi.
       case (lo, hi) of
         ([(_, Num l)], [(_, Num h)]) \<Rightarrow>
           if h < l then Inl (path, Minimum_Above_Maximum) else Inr (wire @ lo @ hi)
       | _ \<Rightarrow> Inr (wire @ lo @ hi)))"

text \<open>The part of \<^verbatim>\<open>compileSchema\<close> every type shares.\<close>

record schema_head =
  head_schema :: schema
  head_type :: string
  head_wire :: schema
  head_null :: bool

definition allowed_keywords :: "string \<Rightarrow> string list" where
  "allowed_keywords ty =
     (if ty = ''object'' then OBJECT_KEYWORDS
      else if ty = ''array'' then ARRAY_KEYWORDS
      else if ty = ''number'' \<or> ty = ''integer'' then NUMERIC_KEYWORDS
      else COMMON_KEYWORDS)"

definition wire_type :: "string \<Rightarrow> bool \<Rightarrow> bool \<Rightarrow> js" where
  "wire_type ty nullable optional =
     (if ty = ''null'' then Str ty
      else if optional \<or> nullable then Arr [Str ty, Str ''null''] else Str ty)"

definition wire_enum :: "(js \<Rightarrow> js \<Rightarrow> bool) \<Rightarrow> js list option \<Rightarrow> bool \<Rightarrow> schema" where
  "wire_enum le enum optional =
     (case enum of
        None \<Rightarrow> []
      | Some values \<Rightarrow>
          [(''enum'', Arr (canonical_enum le
              (if optional \<and> Null \<notin> set values then values @ [Null] else values)))])"

definition compile_head ::
  "(js \<Rightarrow> js \<Rightarrow> bool) \<Rightarrow> js \<Rightarrow> string \<Rightarrow> bool \<Rightarrow> codec_error + schema_head" where
  "compile_head le v path optional =
     bind_res (schema_record v path) (\<lambda>s.
     bind_res (schema_type (jget s ''type'') (path @ ''.type'')) (\<lambda>(ty, nullable).
     bind_res (schema_enum (jget s ''enum'') (path @ ''.enum'')) (\<lambda>enum.
       case (case enum of None \<Rightarrow> None
             | Some values \<Rightarrow> validate_enum_types values ty nullable (path @ ''.enum'')) of
         Some e \<Rightarrow> Inl e
       | None \<Rightarrow>
           let accepts = ty = ''null'' \<or>
                 (nullable \<and> (case enum of None \<Rightarrow> True | Some values \<Rightarrow> Null \<in> set values))
           in if optional \<and> accepts then Inl (path, Optional_Accepts_Null)
              else (case reject_unknown_keywords s (allowed_keywords ty) path of
                  Some e \<Rightarrow> Inl e
                | None \<Rightarrow>
                    bind_res (case jget s ''description'' of
                        Undef \<Rightarrow> Inr [] | Str d \<Rightarrow> Inr [(''description'', Str d)]
                      | _ \<Rightarrow> Inl (path @ ''.description'', Description_Not_String)) (\<lambda>description.
                    Inr \<lparr> head_schema = s, head_type = ty,
                          head_wire = [(''type'', wire_type ty nullable optional)] @ description
                                        @ wire_enum le enum optional,
                          head_null = accepts \<rparr>)))))"

definition compile_object ::
  "(js \<Rightarrow> string \<Rightarrow> bool \<Rightarrow> codec_error + compiled) \<Rightarrow>
   schema \<Rightarrow> string \<Rightarrow> schema \<Rightarrow> bool \<Rightarrow> codec_error + compiled" where
  "compile_object compile s path wire accepts =
     (if jget s ''additionalProperties'' \<noteq> Bool False
      then Inl (path @ ''.additionalProperties'', Additional_Not_False)
      else
        bind_res (schema_record (jget s ''properties'') (path @ ''.properties'')) (\<lambda>properties.
        bind_res (required_properties (jget s ''required'') properties (path @ ''.required''))
          (\<lambda>required.
        let names = sort (own_keys properties) in
        bind_res (map_res (\<lambda>name.
            let optional = name \<notin> set required in
            bind_res (compile (jget properties name) (schema_property_path path name) optional)
              (\<lambda>c. Inr ((name, Obj (wireSchema c)),
                        (name, optional \<and> \<not> acceptsNull c, compiled_plan c)))) names)
          (\<lambda>entries.
        Inr \<lparr> wireSchema = wire @
                [(''properties'', Obj (map fst entries)),
                 (''required'', Arr (map Str names)),
                 (''additionalProperties'', Bool False)],
              compiled_plan = Plan_Object accepts (map snd entries),
              acceptsNull = accepts \<rparr>))))"

definition compile_array ::
  "(js \<Rightarrow> string \<Rightarrow> bool \<Rightarrow> codec_error + compiled) \<Rightarrow>
   schema \<Rightarrow> string \<Rightarrow> schema \<Rightarrow> bool \<Rightarrow> codec_error + compiled" where
  "compile_array compile s path wire accepts =
     (case jget s ''items'' of
        Arr _ \<Rightarrow> Inl (path @ ''.items'', Items_Tuple)
      | Undef \<Rightarrow> Inl (path @ ''.items'', Items_Missing)
      | it \<Rightarrow> bind_res (compile it (path @ ''.items'') False) (\<lambda>items.
          Inr \<lparr> wireSchema = wire @ [(''items'', Obj (wireSchema items))],
                compiled_plan = Plan_Array accepts (compiled_plan items),
                acceptsNull = accepts \<rparr>))"

lemma compile_object_cong [fundef_cong]:
  assumes "s = s'" "path = path'" "wire = wire'" "accepts = accepts'"
    and "\<And>ps name p b. jget s' ''properties'' = Obj ps \<Longrightarrow> name \<in> fst ` set ps \<Longrightarrow>
           f (jget ps name) p b = g (jget ps name) p b"
  shows "compile_object f s path wire accepts = compile_object g s' path' wire' accepts'"
  using assms
  by (auto simp: compile_object_def schema_record_def own_keys_def Let_def split: js.split
      intro!: bind_res_cong map_res_cong)

lemma compile_array_cong [fundef_cong]:
  assumes "s = s'" "path = path'" "wire = wire'" "accepts = accepts'"
    and "\<And>p. jget s' ''items'' \<noteq> Undef \<Longrightarrow> f (jget s' ''items'') p False = g (jget s' ''items'') p False"
  shows "compile_array f s path wire accepts = compile_array g s' path' wire' accepts'"
  using assms by (auto simp: compile_array_def split: js.split)

lemma head_schema_value: "compile_head le v path optional = Inr h \<Longrightarrow> v = Obj (head_schema h)"
  by (auto simp: compile_head_def schema_record_def bind_res_Inr_iff Let_def
      split: js.splits option.splits if_splits prod.splits)

function compile_schema ::
  "(js \<Rightarrow> js \<Rightarrow> bool) \<Rightarrow> js \<Rightarrow> string \<Rightarrow> bool \<Rightarrow> codec_error + compiled" where
  "compile_schema le v path optional =
     bind_res (compile_head le v path optional) (\<lambda>h.
       if head_type h = ''object''
       then compile_object (\<lambda>w p b. compile_schema le w p b) (head_schema h) path (head_wire h) (head_null h)
       else if head_type h = ''array''
       then compile_array (\<lambda>w p b. compile_schema le w p b) (head_schema h) path (head_wire h) (head_null h)
       else
         bind_res (if head_type h = ''number'' \<or> head_type h = ''integer''
                   then compile_numeric_bounds (head_schema h) path (head_wire h)
                   else Inr (head_wire h)) (\<lambda>wire.
         Inr \<lparr> wireSchema = wire, compiled_plan = Plan_Value, acceptsNull = head_null h \<rparr>))"
  by pat_completeness auto
termination
proof (relation "measure (\<lambda>(le, v, path, optional). jsz v)", goal_cases)
  case 1
  show ?case by simp
next
  case (2 le v path optional h ps name p b)
  then have "jsz (jget ps name) < jsz (Obj ps) \<or> jget ps name = Undef"
    using jsz_entry jget_in by blast
  moreover have "jsz (Obj ps) < jsz v"
    unfolding head_schema_value [OF 2(1)] using 2(3) by (rule jsz_keyword) simp
  moreover have "1 \<le> jsz (Obj ps)" by simp
  ultimately show ?case by (auto simp del: jsz.simps(7))
next
  case (3 le v path optional h p)
  have "jsz (jget (head_schema h) ''items'') < jsz v"
    unfolding head_schema_value [OF 3(1)] using 3 by (intro jsz_keyword) auto
  then show ?case by simp
qed

declare compile_schema.simps [simp del]

subsection \<open>Restoring an answer\<close>

fun restore_entries ::
  "(js \<Rightarrow> restoration_plan \<Rightarrow> string \<Rightarrow> codec_error + js) \<Rightarrow> string \<Rightarrow> (string \<times> bool \<times> restoration_plan) list \<Rightarrow>
   (string \<times> js) list \<Rightarrow> codec_error + (string \<times> js) list" where
  "restore_entries f path [] kv = Inr kv"
| "restore_entries f path ((name, omit_null, p) # es) kv =
     (if name \<notin> fst ` set kv then restore_entries f path es kv
      else if omit_null \<and> jget kv name = Null
      then restore_entries f path es (filter (\<lambda>e. fst e \<noteq> name) kv)
      else bind_res (f (jget kv name) p (value_property_path path name)) (\<lambda>v.
        restore_entries f path es (AList.update name v kv)))"

lemma restore_entries_cong [fundef_cong]:
  "path = path' \<Longrightarrow> es = es' \<Longrightarrow> kv = kv' \<Longrightarrow>
   (\<And>n b p v q. (n, b, p) \<in> set es' \<Longrightarrow> f v p q = g v p q) \<Longrightarrow>
   restore_entries f path es kv = restore_entries g path' es' kv'"
proof -
  have "restore_entries f path es kv = restore_entries g path es kv"
    if "\<And>n b p v q. (n, b, p) \<in> set es \<Longrightarrow> f v p q = g v p q" for path es kv
    using that
  proof (induction es arbitrary: kv)
    case (Cons e es)
    obtain n b p where e: "e = (n, b, p)" by (cases e)
    have "f v p q = g v p q" for v q
      using Cons.prems [of n b p] e by simp
    moreover have "restore_entries f path es kv = restore_entries g path es kv" for kv
    proof (rule Cons.IH)
      fix n b p v q assume "(n, b, p) \<in> set es"
      then show "f v p q = g v p q" by (intro Cons.prems [of n b p]) simp
    qed
    ultimately show ?case by (simp add: e)
  qed simp
  then show "path = path' \<Longrightarrow> es = es' \<Longrightarrow> kv = kv' \<Longrightarrow>
      (\<And>n b p v q. (n, b, p) \<in> set es' \<Longrightarrow> f v p q = g v p q) \<Longrightarrow>
      restore_entries f path es kv = restore_entries g path' es' kv'" by blast
qed

lemma plan_in_size:
  "(n, b, p) \<in> set es \<Longrightarrow> size p < Suc (size_list (size_prod (\<lambda>x. 0) (size_prod (\<lambda>x. 0) size)) es)"
  by (induction es) (auto simp: less_Suc_eq_le)

function restore_value :: "js \<Rightarrow> restoration_plan \<Rightarrow> string \<Rightarrow> codec_error + js" where
  "restore_value v p path =
     (case p of
        Plan_Value \<Rightarrow> Inr v
      | Plan_Array accepts items \<Rightarrow>
          if v = Null \<and> accepts then Inr Null
          else (case v of
              Arr xs \<Rightarrow>
                bind_res (map_res (\<lambda>(x, i). restore_value x items (item_path path i))
                  (zip xs [0..<length xs])) (\<lambda>ys. Inr (Arr ys))
            | _ \<Rightarrow> Inl (path, Expected_Array))
      | Plan_Object accepts properties \<Rightarrow>
          if v = Null \<and> accepts then Inr Null
          else (case v of
              Obj kv \<Rightarrow>
                bind_res (restore_entries (\<lambda>w q path'. restore_value w q path') path properties kv)
                  (\<lambda>kv'. Inr (Obj kv'))
            | _ \<Rightarrow> Inl (path, Expected_Object)))"
  by pat_completeness auto
termination
  by (relation "measure (\<lambda>(v, p, path). size p)") (auto intro: plan_in_size)

declare restore_value.simps [simp del]

record codec =
  codec_wire :: schema
  codec_plan :: restoration_plan

definition compile_codex_output_schema ::
  "(js \<Rightarrow> js \<Rightarrow> bool) \<Rightarrow> js \<Rightarrow> codec_error + codec" where
  "compile_codex_output_schema le v =
     bind_res (schema_record v ''$'') (\<lambda>root.
     bind_res (schema_type (jget root ''type'') ''$.type'') (\<lambda>(ty, nullable).
       if ty \<noteq> ''object'' \<or> nullable then Inl (''$.type'', Root_Not_Object)
       else bind_res (compile_schema le v ''$'' False) (\<lambda>c.
         Inr \<lparr> codec_wire = wireSchema c, codec_plan = compiled_plan c \<rparr>)))"

text \<open>\<^verbatim>\<open>restore\<close>, with \<^verbatim>\<open>JSON.parse\<close> and \<^verbatim>\<open>JSON.stringify\<close> as arguments.\<close>

definition codec_restore ::
  "(string \<Rightarrow> string + js) \<Rightarrow> (js \<Rightarrow> string) \<Rightarrow> codec \<Rightarrow> string \<Rightarrow> codec_error + string" where
  "codec_restore parse stringify c t =
     (case parse t of
        Inl e \<Rightarrow> Inl (''$'', Invalid_Json e)
      | Inr v \<Rightarrow> bind_res (restore_value v (codec_plan c) ''$'') (\<lambda>r. Inr (stringify r)))"

end
