(* ===== verification/Codex_Turns.thy ===== *)
theory Codex_Turns
  imports Output_Schema_Codec
begin

text \<open>
  \<^verbatim>\<open>packages/agent-runtime/codex/src/turn-manager.ts\<close> and \<^verbatim>\<open>events.ts\<close>: the collector of
  turn notifications and the manager that binds each submission to the native turn Codex
  answers for it.

  The state is the manager's, its collector's, and the queue of decisions
  (\<^verbatim>\<open>decisionTail\<close>) with the one that is running.  Every function below is a stretch of the
  code without an \<^verbatim>\<open>await\<close>; the step relation interleaves them with the answers of the
  client.  A submission is a number; \<open>tm_settled\<close> is the log of the settlements that took
  effect, \<open>tm_late\<close> counts those that came second.  \<open>tm_since\<close> is a ghost: the
  terminals observed since the request in flight was sent.  Events record the calls to the
  activity stream and to the reasoning tracker; their time stamps are left out.
\<close>

subsection \<open>Turns\<close>

record thread_item =
  item_id :: string
  item_type :: string
  item_text :: js

record collected_turn =
  ct_items :: "thread_item list"
  ct_status :: string

datatype turn_error =
    Provider_Error string
  | No_Assistant_Text
  | Assistant_Text_Not_Found
  | Restore_Error codec_error

datatype terminal = Collected collected_turn | Terminal_Error turn_error

datatype completion = Completed "string option" | Failed turn_error

definition extract_assistant_text :: "collected_turn \<Rightarrow> string option" where
  "extract_assistant_text t =
     (case rev (filter (\<lambda>i. item_type i = ''agentMessage'') (ct_items t)) of
        [] \<Rightarrow> None
      | i # _ \<Rightarrow> (case item_text i of Str s \<Rightarrow> if s = '''' then None else Some s | _ \<Rightarrow> None))"

text \<open>The reverse scan of \<^verbatim>\<open>restoreCollectedTurn\<close> and its flag.\<close>

fun replace_first_text :: "string \<Rightarrow> string \<Rightarrow> thread_item list \<Rightarrow> bool \<times> thread_item list" where
  "replace_first_text t r [] = (False, [])"
| "replace_first_text t r (i # is) =
     (if item_type i = ''agentMessage'' \<and> item_text i = Str t
      then (True, i\<lparr>item_text := Str r\<rparr> # is)
      else (let (b, js) = replace_first_text t r is in (b, i # js)))"

definition restore_collected_turn ::
  "(string \<Rightarrow> codec_error + string) \<Rightarrow> collected_turn \<Rightarrow> turn_error + collected_turn" where
  "restore_collected_turn restore t =
     (case extract_assistant_text t of
        None \<Rightarrow> Inl No_Assistant_Text
      | Some s \<Rightarrow>
          (case restore s of
             Inl e \<Rightarrow> Inl (Restore_Error e)
           | Inr r \<Rightarrow>
               (case replace_first_text s r (rev (ct_items t)) of
                  (False, _) \<Rightarrow> Inl Assistant_Text_Not_Found
                | (True, is) \<Rightarrow> Inr (t\<lparr>ct_items := rev is\<rparr>))))"

definition completion_from_terminal ::
  "(string \<Rightarrow> codec_error + string) option \<Rightarrow> terminal \<Rightarrow> completion" where
  "completion_from_terminal codec terminal =
     (case terminal of
        Terminal_Error e \<Rightarrow> Failed e
      | Collected t \<Rightarrow>
          (case codec of
             None \<Rightarrow> Completed (extract_assistant_text t)
           | Some restore \<Rightarrow>
               (case restore_collected_turn restore t of
                  Inl e \<Rightarrow> Failed e
                | Inr t' \<Rightarrow> Completed (extract_assistant_text t'))))"

definition opt_get :: "js \<Rightarrow> string \<Rightarrow> js" where
  "opt_get v k = (case v of Obj ob \<Rightarrow> jget ob k | _ \<Rightarrow> Undef)"

definition token_count :: "js \<Rightarrow> ms option" where
  "token_count v = (case v of Num n \<Rightarrow> if 0 \<le> n then Some n else None | _ \<Rightarrow> None)"

subsection \<open>State\<close>

datatype settlement = Settled_Completion completion | Settled_Stopped | Settled_Failed turn_error

datatype turn_event =
    Ev_Interrupted string
  | Ev_Usage string ms ms "(ms \<times> ms) option"
  | Ev_Ended string "turn_error option"
  | Ev_Result completion
  | Ev_Item_Started thread_item
  | Ev_Item_Completed thread_item
  | Ev_Reasoning_Complete string thread_item
  | Ev_Reasoning_Delta string
  | Ev_Reasoning_Close_Turn string
  | Ev_Reasoning_Close

definition token_usage_activity :: "string \<Rightarrow> js \<Rightarrow> turn_event option" where
  "token_usage_activity turn_id usage =
     (case (token_count (opt_get (opt_get usage ''total'') ''inputTokens''),
            token_count (opt_get (opt_get usage ''total'') ''outputTokens'')) of
        (Some i, Some out) \<Rightarrow>
          Some (Ev_Usage turn_id i out
            (case (token_count (opt_get (opt_get usage ''last'') ''totalTokens''),
                   token_count (opt_get usage ''modelContextWindow'')) of
               (Some u, Some w) \<Rightarrow> if 0 < w then Some (u, w) else None
             | _ \<Rightarrow> None))
      | _ \<Rightarrow> None)"

datatype turn_admission =
    Adm_Stopped | Adm_Failed turn_error | Adm_Ambiguous turn_error | Adm_Submitted nat

datatype interrupt_result = Int_Idle | Int_Interrupted | Int_Rejected

record native_turn =
  members :: "nat list"
  completion :: "completion option"
  release_after :: "nat list option"

record collector =
  c_closed :: bool
  c_terminals :: "string list"
  c_items :: "(string \<times> thread_item list) list"

datatype decision = D_Submit nat | D_Interrupt nat

text \<open>The running decision: waiting for the effort, for \<^verbatim>\<open>turn/start\<close>, for \<^verbatim>\<open>turn/interrupt\<close>.\<close>

datatype running =
    Resting
  | Awaiting_Effort nat
  | Awaiting_Start nat nat nat
  | Awaiting_Interrupt nat

record turns =
  tm_stopped :: bool
  tm_collector :: "collector option"
  tm_native :: "(string \<times> native_turn) list"
  tm_failure :: "turn_error option"
  tm_inflight :: "nat list"
  tm_next_admission :: nat
  tm_usage :: js
  tm_queue :: "decision list"
  tm_running :: running
  tm_pending :: "nat list"
  tm_next_call :: nat
  tm_next_submission :: nat
  tm_settled :: "(nat \<times> settlement) list"
  tm_late :: nat
  tm_admitted :: "(nat \<times> turn_admission) list"
  tm_interrupts :: "(nat \<times> interrupt_result) list"
  tm_stops :: nat
  tm_stop_done :: bool
  tm_since :: "(string \<times> completion) list"
  tm_events :: "turn_event list"

definition turns_init :: turns where
  "turns_init = \<lparr> tm_stopped = False, tm_collector = None, tm_native = [], tm_failure = None,
     tm_inflight = [], tm_next_admission = 0, tm_usage = Null, tm_queue = [],
     tm_running = Resting, tm_pending = [], tm_next_call = 0, tm_next_submission = 0,
     tm_settled = [], tm_late = 0, tm_admitted = [], tm_interrupts = [], tm_stops = 0,
     tm_stop_done = False, tm_since = [], tm_events = [] \<rparr>"

definition emit :: "turn_event list \<Rightarrow> turns \<Rightarrow> turns" where
  "emit es st = st\<lparr>tm_events := tm_events st @ es\<rparr>"

definition settle_submission :: "settlement \<Rightarrow> nat \<Rightarrow> turns \<Rightarrow> turns" where
  "settle_submission s i st =
     (if i \<in> fst ` set (tm_settled st) then st\<lparr>tm_late := Suc (tm_late st)\<rparr>
      else st\<lparr>tm_settled := tm_settled st @ [(i, s)]\<rparr>)"

definition settle_members :: "settlement \<Rightarrow> nat list \<Rightarrow> turns \<Rightarrow> turns" where
  "settle_members s is st = fold (settle_submission s) is st"

definition set_native :: "string \<Rightarrow> native_turn \<Rightarrow> turns \<Rightarrow> turns" where
  "set_native k r st = st\<lparr>tm_native := AList.update k r (tm_native st)\<rparr>"

definition delete_native :: "string \<Rightarrow> turns \<Rightarrow> turns" where
  "delete_native k st = st\<lparr>tm_native := filter (\<lambda>e. fst e \<noteq> k) (tm_native st)\<rparr>"

definition native_or_new :: "string \<Rightarrow> turns \<Rightarrow> native_turn" where
  "native_or_new k st =
     (case map_of (tm_native st) k of
        Some r \<Rightarrow> r
      | None \<Rightarrow> \<lparr> members = [], completion = None, release_after = None \<rparr>)"

definition release_turn :: "string \<Rightarrow> turns \<Rightarrow> turns" where
  "release_turn k st = st\<lparr>tm_collector :=
     map_option (\<lambda>c. c\<lparr>c_items := filter (\<lambda>e. fst e \<noteq> k) (c_items c)\<rparr>) (tm_collector st)\<rparr>"

subsection \<open>Binding a submission\<close>

definition bind_submission :: "string \<Rightarrow> nat \<Rightarrow> turns \<Rightarrow> turns" where
  "bind_submission k i st =
     (case Option.bind (map_of (tm_native st) k) completion of
        Some c \<Rightarrow> settle_submission (Settled_Completion c) i st
      | None \<Rightarrow>
          if tm_stopped st then settle_submission Settled_Stopped i st
          else (case tm_failure st of
              Some e \<Rightarrow> settle_submission (Settled_Failed e) i st
            | None \<Rightarrow>
                let r = native_or_new k st
                in set_native k (r\<lparr>members := members r @ [i]\<rparr>) st))"

definition release_record_if_ready :: "string \<Rightarrow> turns \<Rightarrow> turns" where
  "release_record_if_ready k st =
     (case map_of (tm_native st) k of
        None \<Rightarrow> st
      | Some r \<Rightarrow>
          if completion r = None \<or> (case release_after r of None \<Rightarrow> False | Some as \<Rightarrow> as \<noteq> [])
          then st
          else release_turn k (delete_native k st))"

definition forget_admission :: "nat \<Rightarrow> string \<Rightarrow> turns \<Rightarrow> turns" where
  "forget_admission a k st =
     st\<lparr>tm_native := map (\<lambda>(j, r). (j, if j = k
           then r\<lparr>release_after := map_option (removeAll a) (release_after r)\<rparr> else r)) (tm_native st)\<rparr>"

definition release_completed_records :: "nat \<Rightarrow> turns \<Rightarrow> turns" where
  "release_completed_records a st =
     fold (\<lambda>k s. release_record_if_ready k (forget_admission a k s)) (map fst (tm_native st)) st"

definition end_admission :: "nat \<Rightarrow> turns \<Rightarrow> turns" where
  "end_admission a st =
     release_completed_records a (st\<lparr>tm_inflight := removeAll a (tm_inflight st)\<rparr>)"

subsection \<open>Terminals and failure\<close>

definition end_native_turn :: "string \<Rightarrow> turn_error option \<Rightarrow> turns \<Rightarrow> turns" where
  "end_native_turn status reason st = emit [Ev_Ended status reason] st"

definition terminal_interrupted :: "terminal \<Rightarrow> bool" where
  "terminal_interrupted t = (case t of Collected c \<Rightarrow> ct_status c = ''interrupted'' | _ \<Rightarrow> False)"

text \<open>The activity line of \<^verbatim>\<open>observeTerminal\<close>, which looks at no record.\<close>

definition show_terminal :: "string \<Rightarrow> terminal \<Rightarrow> turns \<Rightarrow> turns" where
  "show_terminal k t st =
     emit ([Ev_Reasoning_Close_Turn k]
           @ (if terminal_interrupted t then [Ev_Interrupted k] else [])
           @ (case token_usage_activity k (tm_usage st) of None \<Rightarrow> [] | Some u \<Rightarrow> [u])
           @ [case t of
                Terminal_Error e \<Rightarrow> Ev_Ended ''failed'' (Some e)
              | Collected _ \<Rightarrow>
                  Ev_Ended (if terminal_interrupted t then ''interrupted'' else ''completed'') None])
       (st\<lparr>tm_usage := Null\<rparr>)"

definition observe_terminal ::
  "(string \<Rightarrow> codec_error + string) option \<Rightarrow> string \<Rightarrow> terminal \<Rightarrow> turns \<Rightarrow> turns" where
  "observe_terminal codec k t st0 =
     (let st = show_terminal k t st0; r = native_or_new k st
      in if completion r \<noteq> None then st
         else
           let c = completion_from_terminal codec t;
               st1 = set_native k (r\<lparr>members := [], completion := Some c,
                                     release_after := Some (tm_inflight st)\<rparr>) st;
               st2 = (if terminal_interrupted t then st1 else emit [Ev_Result c] st1);
               st3 = settle_members (Settled_Completion c) (members r) st2
           in release_record_if_ready k (st3\<lparr>tm_since := tm_since st3 @ [(k, c)]\<rparr>))"

definition fail_record :: "turn_error \<Rightarrow> string \<Rightarrow> turns \<Rightarrow> turns" where
  "fail_record e k st =
     release_turn k (delete_native k
       (settle_members (Settled_Failed e) (members (native_or_new k st)) st))"

definition open_turns :: "turns \<Rightarrow> string list" where
  "open_turns st = map fst (filter (\<lambda>(k, r). completion r = None) (tm_native st))"

definition fail_protocol :: "turn_error \<Rightarrow> turns \<Rightarrow> turns" where
  "fail_protocol e st =
     (let st1 = emit [Ev_Reasoning_Close] st;
          failure = (case tm_failure st of None \<Rightarrow> e | Some f \<Rightarrow> f);
          st2 = st1\<lparr>tm_failure := Some failure\<rparr>;
          st3 = (if tm_failure st = None then end_native_turn ''failed'' (Some failure) st2 else st2)
      in fold (fail_record failure) (open_turns st3) st3)"

subsection \<open>The collector\<close>

datatype notification =
    N_Token_Usage js
  | N_Reasoning_Delta string
  | N_Item_Started string thread_item
  | N_Item_Completed string thread_item
  | N_Turn_Completed string "string option" "thread_item list option" string
  | N_Error bool "string option" "string option"

definition TERMINAL_TURN_ID_LIMIT :: nat where "TERMINAL_TURN_ID_LIMIT = 1024"

definition remember_terminal :: "string \<Rightarrow> string list \<Rightarrow> string list option" where
  "remember_terminal k terminals =
     (if k \<in> set terminals then None
      else Some (drop (Suc (length terminals) - TERMINAL_TURN_ID_LIMIT) (terminals @ [k])))"

definition close_collector :: "collector \<Rightarrow> collector" where
  "close_collector c = (if c_closed c then c else \<lparr> c_closed = True, c_terminals = [], c_items = [] \<rparr>)"

definition set_collector :: "collector \<Rightarrow> turns \<Rightarrow> turns" where
  "set_collector c st = st\<lparr>tm_collector := Some c\<rparr>"

definition report_terminal ::
  "(string \<Rightarrow> codec_error + string) option \<Rightarrow> string \<Rightarrow> terminal \<Rightarrow> collector \<Rightarrow> turns \<Rightarrow> turns" where
  "report_terminal codec k t c st =
     (case remember_terminal k (c_terminals c) of
        None \<Rightarrow> st
      | Some ts \<Rightarrow> observe_terminal codec k t (set_collector (c\<lparr>c_terminals := ts\<rparr>) st))"

definition on_notification ::
  "(string \<Rightarrow> codec_error + string) option \<Rightarrow> notification \<Rightarrow> turns \<Rightarrow> turns" where
  "on_notification codec n st =
     (case tm_collector st of
        None \<Rightarrow> st
      | Some c \<Rightarrow>
          if c_closed c then st
          else (case n of
              N_Token_Usage u \<Rightarrow> st\<lparr>tm_usage := u\<rparr>
            | N_Reasoning_Delta k \<Rightarrow>
                if k \<in> set (c_terminals c) then st else emit [Ev_Reasoning_Delta k] st
            | N_Item_Started k i \<Rightarrow>
                if k \<in> set (c_terminals c) then st else emit [Ev_Item_Started i] st
            | N_Item_Completed k i \<Rightarrow>
                if k \<in> set (c_terminals c) then st
                else emit [if item_type i = ''reasoning'' then Ev_Reasoning_Complete k i
                           else Ev_Item_Completed i]
                       (set_collector (c\<lparr>c_items := AList.update k
                          ((case map_of (c_items c) k of None \<Rightarrow> [] | Some b \<Rightarrow> b) @ [i])
                          (c_items c)\<rparr>) st)
            | N_Turn_Completed k err items status \<Rightarrow>
                report_terminal codec k
                  (case err of
                     Some m \<Rightarrow> Terminal_Error (Provider_Error (if m = '''' then ''codex turn failed'' else m))
                   | None \<Rightarrow> Collected
                       \<lparr> ct_items = (case map_of (c_items c) k of Some b \<Rightarrow> b
                           | None \<Rightarrow> (case items of Some is \<Rightarrow> is | None \<Rightarrow> [])),
                         ct_status = status \<rparr>) c st
            | N_Error will_retry turn_id message \<Rightarrow>
                if will_retry then st
                else let e = Provider_Error (case message of None \<Rightarrow> ''codex turn error'' | Some m \<Rightarrow> m)
                     in (case turn_id of
                           Some k \<Rightarrow> report_terminal codec k (Terminal_Error e) c st
                         | None \<Rightarrow>
                             let st' = fail_protocol e st
                             in st'\<lparr>tm_collector := map_option close_collector (tm_collector st')\<rparr>)))"

subsection \<open>Decisions\<close>

definition call_submit :: "turns \<Rightarrow> turns" where
  "call_submit st =
     st\<lparr>tm_queue := tm_queue st @ [D_Submit (tm_next_call st)],
        tm_pending := tm_pending st @ [tm_next_call st],
        tm_next_call := Suc (tm_next_call st)\<rparr>"

definition call_interrupt :: "turns \<Rightarrow> turns" where
  "call_interrupt st =
     st\<lparr>tm_queue := tm_queue st @ [D_Interrupt (tm_next_call st)],
        tm_next_call := Suc (tm_next_call st)\<rparr>"

definition answer_admission :: "nat \<Rightarrow> turn_admission \<Rightarrow> turns \<Rightarrow> turns" where
  "answer_admission call r st =
     st\<lparr>tm_running := Resting, tm_pending := removeAll call (tm_pending st),
        tm_admitted := tm_admitted st @ [(call, r)]\<rparr>"

definition answer_interrupt :: "nat \<Rightarrow> interrupt_result \<Rightarrow> turns \<Rightarrow> turns" where
  "answer_interrupt call r st =
     st\<lparr>tm_running := Resting, tm_interrupts := tm_interrupts st @ [(call, r)]\<rparr>"

text \<open>\<^verbatim>\<open>stopped\<close> and \<^verbatim>\<open>protocolFailure\<close>, checked before the effort and again after it.\<close>

definition refusal :: "turns \<Rightarrow> turn_admission option" where
  "refusal st =
     (if tm_stopped st then Some Adm_Stopped else map_option Adm_Failed (tm_failure st))"

definition ensure_collector :: "turns \<Rightarrow> turns" where
  "ensure_collector st =
     (case tm_collector st of
        Some _ \<Rightarrow> st
      | None \<Rightarrow> set_collector \<lparr> c_closed = False, c_terminals = [], c_items = [] \<rparr> st)"

definition run_decision :: "turns \<Rightarrow> turns" where
  "run_decision st0 =
     (case tm_queue st0 of
        [] \<Rightarrow> st0
      | d # ds \<Rightarrow>
          let st = st0\<lparr>tm_queue := ds\<rparr>
          in (case d of
                D_Submit call \<Rightarrow>
                  (case refusal st of
                     Some r \<Rightarrow> answer_admission call r st
                   | None \<Rightarrow> st\<lparr>tm_running := Awaiting_Effort call\<rparr>)
              | D_Interrupt call \<Rightarrow>
                  if tm_stopped st then answer_interrupt call Int_Idle st
                  else (case rev (open_turns st) of
                      [] \<Rightarrow> answer_interrupt call Int_Idle st
                    | k # _ \<Rightarrow> st\<lparr>tm_running := Awaiting_Interrupt call\<rparr>)))"

text \<open>\<^verbatim>\<open>effortFor\<close> settles.\<close>

definition effort_settles :: "nat \<Rightarrow> turn_error option \<Rightarrow> turns \<Rightarrow> turns" where
  "effort_settles call err st =
     (case err of
        Some e \<Rightarrow> answer_admission call (Adm_Failed e) st
      | None \<Rightarrow>
          (case refusal st of
             Some r \<Rightarrow> answer_admission call r st
           | None \<Rightarrow>
               let st1 = ensure_collector st
               in st1\<lparr>tm_running := Awaiting_Start call (tm_next_submission st1) (tm_next_admission st1),
                      tm_next_submission := Suc (tm_next_submission st1),
                      tm_inflight := tm_inflight st1 @ [tm_next_admission st1],
                      tm_next_admission := Suc (tm_next_admission st1),
                      tm_since := []\<rparr>))"

text \<open>\<^verbatim>\<open>turn/start\<close> settles: the turn's id, or an error.\<close>

definition start_settles :: "nat \<Rightarrow> nat \<Rightarrow> nat \<Rightarrow> turn_error + string \<Rightarrow> turns \<Rightarrow> turns" where
  "start_settles call i a response st =
     (case response of
        Inl e \<Rightarrow> answer_admission call (Adm_Ambiguous e) (end_admission a st)
      | Inr k \<Rightarrow>
          answer_admission call (Adm_Submitted i) (end_admission a (bind_submission k i st)))"

definition interrupt_settles :: "nat \<Rightarrow> bool \<Rightarrow> turns \<Rightarrow> turns" where
  "interrupt_settles call ok st = answer_interrupt call (if ok then Int_Interrupted else Int_Rejected) st"

subsection \<open>Stopping\<close>

definition call_stop :: "turns \<Rightarrow> turns" where
  "call_stop st =
     emit [Ev_Reasoning_Close]
       (st\<lparr>tm_stopped := True, tm_collector := None, tm_stops := Suc (tm_stops st)\<rparr>)"

text \<open>The rest of \<^verbatim>\<open>stop\<close>, once no admission is pending.\<close>

definition finish_stop :: "turns \<Rightarrow> turns" where
  "finish_stop st =
     (let st1 = end_native_turn ''interrupted'' None st;
          st2 = fold (\<lambda>k s. settle_members Settled_Stopped (members (native_or_new k s)) s)
                  (open_turns st1) st1
      in st2\<lparr>tm_native := filter (\<lambda>(k, r). completion r \<noteq> None) (tm_native st2),
             tm_stops := tm_stops st2 - 1, tm_stop_done := True\<rparr>)"

inductive turn_step ::
  "(string \<Rightarrow> codec_error + string) option \<Rightarrow> turns \<Rightarrow> turns \<Rightarrow> bool"
  for codec :: "(string \<Rightarrow> codec_error + string) option" where
  submit: "turn_step codec st (call_submit st)"
| interrupt: "turn_step codec st (call_interrupt st)"
| run: "tm_running st = Resting \<Longrightarrow> tm_queue st \<noteq> [] \<Longrightarrow> turn_step codec st (run_decision st)"
| effort: "tm_running st = Awaiting_Effort call \<Longrightarrow> turn_step codec st (effort_settles call err st)"
| start: "tm_running st = Awaiting_Start call i a \<Longrightarrow> turn_step codec st (start_settles call i a r st)"
| interrupted: "tm_running st = Awaiting_Interrupt call \<Longrightarrow> turn_step codec st (interrupt_settles call ok st)"
| notification: "turn_step codec st (on_notification codec n st)"
| stop: "turn_step codec st (call_stop st)"
| stopped: "0 < tm_stops st \<Longrightarrow> tm_pending st = [] \<Longrightarrow> turn_step codec st (finish_stop st)"

inductive turn_reach :: "(string \<Rightarrow> codec_error + string) option \<Rightarrow> turns \<Rightarrow> bool"
  for codec :: "(string \<Rightarrow> codec_error + string) option" where
  init: "turn_reach codec turns_init"
| step: "turn_reach codec st \<Longrightarrow> turn_step codec st st' \<Longrightarrow> turn_reach codec st'"

inductive_cases turn_stepE: "turn_step codec st st'"

end
