(* ===== verification/Codex_Turns_Props.thy ===== *)
theory Codex_Turns_Props
  imports Codex_Turns "HOL-Library.Multiset"
begin

text \<open>
  The invariant of the turn manager over every interleaving of calls, client answers and
  notifications, and what it says of a submission: it is settled once, by the terminal of
  the turn that answered it wherever that terminal was observed.
\<close>

subsection \<open>What the operations change\<close>

lemmas small_defs =
  emit_def set_native_def delete_native_def release_turn_def set_collector_def
  end_native_turn_def show_terminal_def

lemma settle_submission_fields [simp]:
  "tm_stopped (settle_submission s i st) = tm_stopped st"
  "tm_collector (settle_submission s i st) = tm_collector st"
  "tm_native (settle_submission s i st) = tm_native st"
  "tm_failure (settle_submission s i st) = tm_failure st"
  "tm_inflight (settle_submission s i st) = tm_inflight st"
  "tm_next_admission (settle_submission s i st) = tm_next_admission st"
  "tm_running (settle_submission s i st) = tm_running st"
  "tm_pending (settle_submission s i st) = tm_pending st"
  "tm_next_submission (settle_submission s i st) = tm_next_submission st"
  "tm_admitted (settle_submission s i st) = tm_admitted st"
  "tm_stop_done (settle_submission s i st) = tm_stop_done st"
  "tm_since (settle_submission s i st) = tm_since st"
  by (simp_all add: settle_submission_def)

lemma settle_members_eq:
  assumes "distinct is" "set is \<inter> fst ` set (tm_settled st) = {}"
  shows "settle_members s is st = st\<lparr>tm_settled := tm_settled st @ map (\<lambda>i. (i, s)) is\<rparr>"
  using assms
proof (induction "is" arbitrary: st)
  case (Cons i js)
  let ?st = "st\<lparr>tm_settled := tm_settled st @ [(i, s)]\<rparr>"
  have "settle_submission s i st = ?st" using Cons.prems(2) by (simp add: settle_submission_def)
  moreover have "settle_members s js ?st = ?st\<lparr>tm_settled := tm_settled ?st @ map (\<lambda>i. (i, s)) js\<rparr>"
    by (rule Cons.IH) (use Cons.prems in auto)
  ultimately show ?case by (simp add: settle_members_def)
qed (simp add: settle_members_def)

text \<open>Open records have nothing to release; completed ones wait for admissions in flight.\<close>

definition record_ok :: "nat list \<Rightarrow> native_turn \<Rightarrow> bool" where
  "record_ok fl r \<longleftrightarrow>
     (case completion r of
        None \<Rightarrow> release_after r = None
      | Some _ \<Rightarrow> members r = [] \<and> (\<exists>as. release_after r = Some as \<and> as \<noteq> [] \<and> set as \<subseteq> set fl))"

definition is_open :: "string \<times> native_turn \<Rightarrow> bool" where
  "is_open e \<longleftrightarrow> completion (snd e) = None"

lemma release_step:
  assumes d: "distinct (map fst (tm_native st))"
    and ok: "\<forall>e \<in> set (tm_native st). record_ok [a] (snd e)"
  shows "\<exists>c. release_record_if_ready k (forget_admission a k st) =
    st\<lparr>tm_native := filter (\<lambda>e. fst e = k \<longrightarrow> is_open e) (tm_native st), tm_collector := c\<rparr>"
proof (cases "map_of (tm_native st) k")
  case None
  let ?st = "forget_admission a k st"
  from None have k: "k \<notin> fst ` set (tm_native st)" by (simp add: map_of_eq_None_iff)
  then have "map (\<lambda>(j, r). (j, if j = k then r\<lparr>release_after := map_option (removeAll a) (release_after r)\<rparr> else r))
      (tm_native st) = tm_native st"
    by (intro map_idI) (force simp: image_iff)
  then have "?st = st" by (simp add: forget_admission_def)
  moreover have "filter (\<lambda>e. fst e = k \<longrightarrow> is_open e) (tm_native st) = tm_native st"
    using k by (auto simp: filter_id_conv)
  ultimately show ?thesis using None by (auto simp: release_record_if_ready_def intro: exI [of _ "tm_collector st"])
next
  case (Some r)
  then have mem: "(k, r) \<in> set (tm_native st)" by (rule map_of_SomeD)
  with ok have r: "record_ok [a] r" by auto
  have same: "r' = r" if "(k, r') \<in> set (tm_native st)" for r'
    using that Some d by (metis map_of_is_SomeI option.inject)
  show ?thesis
  proof (cases "completion r")
    case None
    with r have "release_after r = None" by (simp add: record_ok_def)
    then have "map (\<lambda>(j, q). (j, if j = k then q\<lparr>release_after := map_option (removeAll a) (release_after q)\<rparr> else q))
        (tm_native st) = tm_native st"
      using same by (intro map_idI) auto
    then have "forget_admission a k st = st" by (simp add: forget_admission_def)
    moreover have "filter (\<lambda>e. fst e = k \<longrightarrow> is_open e) (tm_native st) = tm_native st"
      using same None by (auto simp: filter_id_conv is_open_def)
    ultimately show ?thesis
      using Some None by (auto simp: release_record_if_ready_def intro: exI [of _ "tm_collector st"])
  next
    case (Some c)
    let ?f = "\<lambda>(j, q). (j, if j = k then q\<lparr>release_after := map_option (removeAll a) (release_after q)\<rparr> else q)"
    from Some r obtain as where as: "release_after r = Some as" "set as \<subseteq> {a}"
      by (auto simp: record_ok_def)
    have "map_of (map ?f (tm_native st)) k = Some (r\<lparr>release_after := Some []\<rparr>)"
    proof -
      have d': "distinct (map fst (map ?f (tm_native st)))"
        using d by (simp add: comp_def case_prod_beta)
      have "removeAll a as = []" using as(2) by (induction as) auto
      then have "?f (k, r) = (k, r\<lparr>release_after := Some []\<rparr>)" using as(1) by simp
      moreover have "?f (k, r) \<in> set (map ?f (tm_native st))"
        unfolding set_map using mem by (rule imageI)
      ultimately have "(k, r\<lparr>release_after := Some []\<rparr>) \<in> set (map ?f (tm_native st))"
        by (simp only:)
      with d' show ?thesis by (rule map_of_is_SomeI)
    qed
    then have "release_record_if_ready k (forget_admission a k st) =
        release_turn k (delete_native k (forget_admission a k st))"
      using Some by (simp add: release_record_if_ready_def forget_admission_def)
    moreover have "filter (\<lambda>e. fst e \<noteq> k) (map ?f (tm_native st)) =
        filter (\<lambda>e. fst e = k \<longrightarrow> is_open e) (tm_native st)"
    proof -
      have "filter (\<lambda>e. fst e \<noteq> k) (map ?f xs) = filter (\<lambda>e. fst e = k \<longrightarrow> is_open e) xs"
        if "\<And>r'. (k, r') \<in> set xs \<Longrightarrow> \<not> is_open (k, r')" for xs
        using that by (induction xs) auto
      then show ?thesis using same Some by (auto simp: is_open_def)
    qed
    ultimately show ?thesis
      by (auto simp: release_turn_def delete_native_def forget_admission_def intro!: exI)
  qed
qed

lemma end_admission_eq:
  assumes d: "distinct (map fst (tm_native st))"
    and ok: "\<forall>e \<in> set (tm_native st). record_ok [a] (snd e)"
  shows "\<exists>c. end_admission a st = st\<lparr>tm_inflight := removeAll a (tm_inflight st),
           tm_native := filter is_open (tm_native st), tm_collector := c\<rparr>"
proof -
  have "\<exists>c. fold (\<lambda>k s. release_record_if_ready k (forget_admission a k s)) ks s =
      s\<lparr>tm_native := filter (\<lambda>e. fst e \<in> set ks \<longrightarrow> is_open e) (tm_native s), tm_collector := c\<rparr>"
    if "distinct (map fst (tm_native s))" "\<forall>e \<in> set (tm_native s). record_ok [a] (snd e)" for ks s
    using that
  proof (induction ks arbitrary: s)
    case Nil
    show ?case by (auto intro: exI [of _ "tm_collector s"])
  next
    case (Cons k ks)
    from release_step [OF Cons.prems] obtain c where
      c: "release_record_if_ready k (forget_admission a k s) =
        s\<lparr>tm_native := filter (\<lambda>e. fst e = k \<longrightarrow> is_open e) (tm_native s), tm_collector := c\<rparr>"
        (is "_ = ?s") by blast
    have "distinct (map fst (tm_native ?s))" "\<forall>e \<in> set (tm_native ?s). record_ok [a] (snd e)"
      using Cons.prems by (auto simp: distinct_keys_filter)
    from Cons.IH [OF this] obtain c' where
      "fold (\<lambda>k s. release_record_if_ready k (forget_admission a k s)) ks ?s =
        ?s\<lparr>tm_native := filter (\<lambda>e. fst e \<in> set ks \<longrightarrow> is_open e) (tm_native ?s), tm_collector := c'\<rparr>"
      by blast
    moreover have "filter (\<lambda>e. fst e \<in> set ks \<longrightarrow> is_open e) (tm_native ?s) =
        filter (\<lambda>e. fst e \<in> set (k # ks) \<longrightarrow> is_open e) (tm_native s)"
      by (auto simp: filter_filter intro: filter_cong)
    ultimately show ?case by (auto simp: c intro!: exI [of _ c'])
  qed
  from this [of "st\<lparr>tm_inflight := removeAll a (tm_inflight st)\<rparr>" "map fst (tm_native st)"] d ok
  obtain c where "end_admission a st = st\<lparr>tm_inflight := removeAll a (tm_inflight st),
      tm_native := filter (\<lambda>e. fst e \<in> set (map fst (tm_native st)) \<longrightarrow> is_open e) (tm_native st),
      tm_collector := c\<rparr>"
    by (auto simp: end_admission_def release_completed_records_def)
  moreover have "filter (\<lambda>e. fst e \<in> set (map fst (tm_native st)) \<longrightarrow> is_open e) (tm_native st) =
      filter is_open (tm_native st)"
    by (intro filter_cong) auto
  ultimately show ?thesis by auto
qed


subsection \<open>The invariant\<close>

definition open_members :: "turns \<Rightarrow> nat list" where
  "open_members st = concat (map (\<lambda>e. members (snd e)) (filter is_open (tm_native st)))"

definition handed :: "turns \<Rightarrow> nat set" where
  "handed st = {i. \<exists>call. (call, Adm_Submitted i) \<in> set (tm_admitted st)}"

definition members_inv :: "turns \<Rightarrow> bool" where
  "members_inv st \<longleftrightarrow> distinct (map fst (tm_native st)) \<and>
     (\<forall>e \<in> set (tm_native st). record_ok (tm_inflight st) (snd e)) \<and>
     distinct (open_members st @ map fst (tm_settled st)) \<and> tm_late st = 0 \<and>
     handed st = set (open_members st) \<union> fst ` set (tm_settled st) \<and>
     (\<forall>i \<in> handed st. i < tm_next_submission st)"

definition closed_inv :: "turns \<Rightarrow> bool" where
  "closed_inv st \<longleftrightarrow> (tm_failure st \<noteq> None \<or> tm_stop_done st \<longrightarrow> open_members st = []) \<and>
     (tm_stop_done st \<longrightarrow> tm_stopped st)"

definition flight_inv :: "turns \<Rightarrow> bool" where
  "flight_inv st \<longleftrightarrow>
     (case tm_running st of
        Awaiting_Start call i a \<Rightarrow>
          tm_inflight st = [a] \<and> i < tm_next_submission st \<and> i \<notin> handed st \<and>
          (\<forall>k c. (k, c) \<in> set (tm_since st) \<longleftrightarrow>
             (\<exists>r. (k, r) \<in> set (tm_native st) \<and> completion r = Some c))
      | _ \<Rightarrow> tm_inflight st = [])"

definition turns_inv :: "turns \<Rightarrow> bool" where
  "turns_inv st \<longleftrightarrow> members_inv st \<and> closed_inv st \<and> flight_inv st"

lemma turns_inv_init: "turns_inv turns_init"
  by (simp add: turns_inv_def members_inv_def closed_inv_def flight_inv_def turns_init_def
      open_members_def handed_def)

text \<open>A change that leaves records, settlements and admissions alone keeps the invariant.\<close>

lemma turns_inv_same:
  assumes "turns_inv st"
    and "tm_native st' = tm_native st" "tm_settled st' = tm_settled st" "tm_late st' = tm_late st"
      "tm_admitted st' = tm_admitted st" "tm_inflight st' = tm_inflight st"
      "tm_next_submission st' = tm_next_submission st" "tm_failure st' = tm_failure st"
      "tm_stop_done st' = tm_stop_done st" "tm_stopped st \<longrightarrow> tm_stopped st'"
      "tm_since st' = tm_since st" "tm_running st' = tm_running st"
  shows "turns_inv st'"
proof -
  have o: "open_members st' = open_members st" "handed st' = handed st"
    by (simp_all only: open_members_def handed_def assms(2,5))
  have "members_inv st' = members_inv st"
    by (simp only: members_inv_def o assms(2-7))
  moreover have "flight_inv st' = flight_inv st"
    by (simp only: flight_inv_def o assms(2,6,7,11,12))
  moreover have "closed_inv st \<Longrightarrow> closed_inv st'"
    using assms(10) by (simp only: closed_inv_def o assms(8,9)) blast
  ultimately show ?thesis using assms(1) by (simp add: turns_inv_def)
qed

lemma show_terminal_fields [simp]:
  "tm_native (show_terminal k t st) = tm_native st" "tm_settled (show_terminal k t st) = tm_settled st"
  "tm_late (show_terminal k t st) = tm_late st" "tm_admitted (show_terminal k t st) = tm_admitted st"
  "tm_inflight (show_terminal k t st) = tm_inflight st"
  "tm_next_submission (show_terminal k t st) = tm_next_submission st"
  "tm_failure (show_terminal k t st) = tm_failure st" "tm_stop_done (show_terminal k t st) = tm_stop_done st"
  "tm_stopped (show_terminal k t st) = tm_stopped st" "tm_since (show_terminal k t st) = tm_since st"
  "tm_running (show_terminal k t st) = tm_running st"
  by (simp_all add: show_terminal_def emit_def)

text \<open>Replacing the record of one turn.\<close>

lemma native_or_new_mem:
  "k \<in> fst ` set (tm_native st) \<Longrightarrow> (k, native_or_new k st) \<in> set (tm_native st)"
  by (auto simp: native_or_new_def map_of_eq_None_iff dest: map_of_SomeD split: option.split)

lemma native_or_new_new:
  "k \<notin> fst ` set (tm_native st) \<Longrightarrow>
   native_or_new k st = \<lparr> members = [], completion = None, release_after = None \<rparr>"
  by (simp add: native_or_new_def map_of_eq_None_iff [THEN iffD2])

lemma native_or_new_unique:
  "distinct (map fst (tm_native st)) \<Longrightarrow> (k, r) \<in> set (tm_native st) \<Longrightarrow> native_or_new k st = r"
  by (simp add: native_or_new_def)

lemma open_after_update:
  assumes "distinct (map fst al)" "k \<in> fst ` set al \<or> members r0 = []"
    and "\<And>q. (k, q) \<in> set al \<Longrightarrow> q = r0" "completion r0 = None"
  shows "mset (concat (map (\<lambda>e. members (snd e)) (filter is_open (AList.update k r al)))) + mset (members r0) =
         mset (concat (map (\<lambda>e. members (snd e)) (filter is_open al))) +
         (if completion r = None then mset (members r) else {#})"
  using assms
proof (induction al)
  case Nil
  then show ?case by (simp add: is_open_def)
next
  case (Cons e al)
  obtain j q where e: "e = (j, q)" by (cases e)
  show ?case
  proof (cases "j = k")
    case True
    with Cons.prems e have "q = r0" by auto
    with True e Cons.prems(4) show ?thesis by (simp add: is_open_def)
  next
    case False
    with Cons.prems e have "k \<in> fst ` set al \<or> members r0 = []" "distinct (map fst al)" by auto
    with Cons.IH Cons.prems False e show ?thesis by (auto simp: add.assoc)
  qed
qed


text \<open>Every submission the manager keeps: members of open turns and the settled ones.\<close>

definition kept_submissions :: "turns \<Rightarrow> nat list" where
  "kept_submissions st = open_members st @ map fst (tm_settled st)"

lemma members_inv_alt:
  "members_inv st \<longleftrightarrow> distinct (map fst (tm_native st)) \<and>
     (\<forall>e \<in> set (tm_native st). record_ok (tm_inflight st) (snd e)) \<and>
     distinct (kept_submissions st) \<and> tm_late st = 0 \<and> handed st = set (kept_submissions st) \<and>
     (\<forall>i \<in> handed st. i < tm_next_submission st)"
  by (simp add: members_inv_def kept_submissions_def)

lemma open_members_turns:
  assumes "distinct (map fst (tm_native st))"
  shows "open_members st = concat (map (\<lambda>k. members (native_or_new k st)) (open_turns st))"
proof -
  have "open_turns st = map fst (filter is_open (tm_native st))"
    by (auto simp: open_turns_def is_open_def intro!: arg_cong [where f = "map fst"] filter_cong)
  moreover have "native_or_new (fst e) st = snd e" if "e \<in> set (filter is_open (tm_native st))" for e
    using assms that by (cases e) (auto intro: native_or_new_unique)
  ultimately have "map (\<lambda>k. members (native_or_new k st)) (open_turns st) =
      map (\<lambda>e. members (snd e)) (filter is_open (tm_native st))"
    by simp
  then show ?thesis by (simp add: open_members_def)
qed

lemma fold_settle_turns:
  assumes "distinct (concat (map (\<lambda>k. members (native_or_new k st)) ks))"
    and "set (concat (map (\<lambda>k. members (native_or_new k st)) ks)) \<inter> fst ` set (tm_settled st) = {}"
  shows "fold (\<lambda>k s. settle_members S (members (native_or_new k s)) s) ks st =
    st\<lparr>tm_settled := tm_settled st @
      map (\<lambda>i. (i, S)) (concat (map (\<lambda>k. members (native_or_new k st)) ks))\<rparr>"
  using assms
proof (induction ks arbitrary: st)
  case (Cons k ks)
  let ?ms = "members (native_or_new k st)"
  let ?st = "st\<lparr>tm_settled := tm_settled st @ map (\<lambda>i. (i, S)) ?ms\<rparr>"
  have one: "settle_members S ?ms st = ?st"
    by (rule settle_members_eq) (use Cons.prems in auto)
  have same: "native_or_new j ?st = native_or_new j st" for j by (simp add: native_or_new_def)
  have "fold (\<lambda>k s. settle_members S (members (native_or_new k s)) s) ks ?st =
      ?st\<lparr>tm_settled := tm_settled ?st @
        map (\<lambda>i. (i, S)) (concat (map (\<lambda>k. members (native_or_new k ?st)) ks))\<rparr>"
  proof (rule Cons.IH)
    show "distinct (concat (map (\<lambda>k. members (native_or_new k ?st)) ks))"
      using Cons.prems(1) by (simp add: same)
    have "fst ` set (tm_settled ?st) = fst ` set (tm_settled st) \<union> set ?ms"
      by (simp add: image_Un image_image)
    then show "set (concat (map (\<lambda>k. members (native_or_new k ?st)) ks)) \<inter> fst ` set (tm_settled ?st) = {}"
      unfolding same using Cons.prems by auto
  qed
  then show ?case by (simp add: one same)
qed simp

lemma fold_fail_turns:
  assumes "distinct ks" "distinct (concat (map (\<lambda>k. members (native_or_new k st)) ks))"
    and "set (concat (map (\<lambda>k. members (native_or_new k st)) ks)) \<inter> fst ` set (tm_settled st) = {}"
  shows "\<exists>c. fold (fail_record e) ks st =
    st\<lparr>tm_settled := tm_settled st @
         map (\<lambda>i. (i, Settled_Failed e)) (concat (map (\<lambda>k. members (native_or_new k st)) ks)),
       tm_native := filter (\<lambda>x. fst x \<notin> set ks) (tm_native st), tm_collector := c\<rparr>"
  using assms
proof (induction ks arbitrary: st)
  case Nil
  show ?case by (auto intro: exI [of _ "tm_collector st"])
next
  case (Cons k ks)
  let ?ms = "members (native_or_new k st)"
  let ?st = "fail_record e k st"
  have "settle_members (Settled_Failed e) ?ms st =
      st\<lparr>tm_settled := tm_settled st @ map (\<lambda>i. (i, Settled_Failed e)) ?ms\<rparr>"
    by (rule settle_members_eq) (use Cons.prems in auto)
  then have one: "?st = st\<lparr>tm_settled := tm_settled st @ map (\<lambda>i. (i, Settled_Failed e)) ?ms,
      tm_native := filter (\<lambda>x. fst x \<noteq> k) (tm_native st), tm_collector := tm_collector ?st\<rparr>"
    by (simp add: fail_record_def release_turn_def delete_native_def)
  have other: "map_of (filter (\<lambda>x. fst x \<noteq> k) xs) j = map_of xs j" if "j \<noteq> k" for j xs
    using that by (induction xs) auto
  have same: "native_or_new j ?st = native_or_new j st" if "j \<in> set ks" for j
  proof -
    from that Cons.prems(1) have "j \<noteq> k" by auto
    then show ?thesis by (subst one) (simp add: native_or_new_def other)
  qed
  have eq: "map (\<lambda>k. members (native_or_new k ?st)) ks = map (\<lambda>k. members (native_or_new k st)) ks"
    using same by simp
  have "\<exists>c. fold (fail_record e) ks ?st =
      ?st\<lparr>tm_settled := tm_settled ?st @
           map (\<lambda>i. (i, Settled_Failed e)) (concat (map (\<lambda>k. members (native_or_new k ?st)) ks)),
         tm_native := filter (\<lambda>x. fst x \<notin> set ks) (tm_native ?st), tm_collector := c\<rparr>"
  proof (rule Cons.IH)
    show "distinct ks" using Cons.prems(1) by simp
    show "distinct (concat (map (\<lambda>k. members (native_or_new k ?st)) ks))"
      unfolding eq using Cons.prems(2) by simp
    have "fst ` set (tm_settled ?st) = fst ` set (tm_settled st) \<union> set ?ms"
      by (subst one) (simp add: image_Un image_image)
    then show "set (concat (map (\<lambda>k. members (native_or_new k ?st)) ks)) \<inter> fst ` set (tm_settled ?st) = {}"
      unfolding eq using Cons.prems(2,3) by auto
  qed
  then obtain c where c: "fold (fail_record e) ks ?st =
      ?st\<lparr>tm_settled := tm_settled ?st @
           map (\<lambda>i. (i, Settled_Failed e)) (concat (map (\<lambda>k. members (native_or_new k st)) ks)),
         tm_native := filter (\<lambda>x. fst x \<notin> set ks) (tm_native ?st), tm_collector := c\<rparr>"
    unfolding eq by blast
  have "tm_settled ?st = tm_settled st @ map (\<lambda>i. (i, Settled_Failed e)) ?ms"
    "filter (\<lambda>x. fst x \<notin> set ks) (tm_native ?st) = filter (\<lambda>x. fst x \<notin> set (k # ks)) (tm_native st)"
    by (subst one, simp add: conj_commute)+
  moreover have upd: "?st\<lparr>tm_settled := X, tm_native := Y, tm_collector := c\<rparr> =
      st\<lparr>tm_settled := X, tm_native := Y, tm_collector := c\<rparr>" for X Y
    by (subst one) simp
  ultimately have "fold (fail_record e) ks ?st =
      st\<lparr>tm_settled := tm_settled st @
           map (\<lambda>i. (i, Settled_Failed e)) (concat (map (\<lambda>k. members (native_or_new k st)) (k # ks))),
         tm_native := filter (\<lambda>x. fst x \<notin> set (k # ks)) (tm_native st), tm_collector := c\<rparr>"
    unfolding c upd by simp
  then show ?case unfolding fold_simps by (rule exI)
qed


subsection \<open>Preservation\<close>

definition starting :: "running \<Rightarrow> bool" where
  "starting r = (case r of Awaiting_Start _ _ _ \<Rightarrow> True | _ \<Rightarrow> False)"

lemma flight_idle: "\<not> starting (tm_running st) \<Longrightarrow> flight_inv st \<longleftrightarrow> tm_inflight st = []"
  by (simp add: flight_inv_def starting_def split: running.splits)

lemma turns_inv_idle:
  assumes "turns_inv st"
    and "tm_native st' = tm_native st" "tm_settled st' = tm_settled st" "tm_late st' = tm_late st"
      "handed st' = handed st" "tm_inflight st' = tm_inflight st"
      "tm_next_submission st' = tm_next_submission st" "tm_failure st' = tm_failure st"
      "tm_stop_done st' = tm_stop_done st" "tm_stopped st' = tm_stopped st"
    and "\<not> starting (tm_running st)" "\<not> starting (tm_running st')"
  shows "turns_inv st'"
proof -
  have o: "open_members st' = open_members st" by (simp only: open_members_def assms(2))
  have "members_inv st' = members_inv st" by (simp only: members_inv_def o assms(2-7))
  moreover have "flight_inv st' = flight_inv st" by (simp only: flight_idle [OF assms(11)] flight_idle [OF assms(12)] assms(6))
  moreover have "closed_inv st' = closed_inv st" by (simp only: closed_inv_def o assms(8-10))
  ultimately show ?thesis using assms(1) by (simp add: turns_inv_def)
qed

lemma handed_answer:
  "handed (answer_admission call r st) = handed st \<union> (case r of Adm_Submitted i \<Rightarrow> {i} | _ \<Rightarrow> {})"
  by (auto simp: handed_def answer_admission_def split: turn_admission.splits)

lemma answer_admission_fields [simp]:
  "tm_native (answer_admission call r st) = tm_native st" "tm_settled (answer_admission call r st) = tm_settled st"
  "tm_late (answer_admission call r st) = tm_late st" "tm_inflight (answer_admission call r st) = tm_inflight st"
  "tm_next_submission (answer_admission call r st) = tm_next_submission st"
  "tm_failure (answer_admission call r st) = tm_failure st" "tm_stop_done (answer_admission call r st) = tm_stop_done st"
  "tm_stopped (answer_admission call r st) = tm_stopped st" "tm_running (answer_admission call r st) = Resting"
  by (simp_all add: answer_admission_def)

lemma turns_inv_refuse:
  assumes "turns_inv st" "\<not> starting (tm_running st)" "\<And>i. r \<noteq> Adm_Submitted i"
  shows "turns_inv (answer_admission call r st)"
  by (rule turns_inv_idle [OF assms(1)])
    (use assms in \<open>auto simp: handed_answer starting_def split: turn_admission.splits\<close>)

lemma refusal_not_submitted: "refusal st = Some r \<Longrightarrow> r \<noteq> Adm_Submitted i"
  by (auto simp: refusal_def split: if_splits)

lemma inv_run:
  assumes "turns_inv st" "tm_running st = Resting"
  shows "turns_inv (run_decision st)"
proof (cases "tm_queue st")
  case (Cons d ds)
  let ?st = "st\<lparr>tm_queue := ds\<rparr>"
  have i: "turns_inv ?st" by (rule turns_inv_same [OF assms(1)]) simp_all
  have r: "\<not> starting (tm_running ?st)" using assms(2) by (simp add: starting_def)
  have int: "turns_inv (answer_interrupt call q ?st)" for call q
    by (rule turns_inv_idle [OF i]) (use r in \<open>simp_all add: answer_interrupt_def handed_def starting_def\<close>)
  have wait: "turns_inv (?st\<lparr>tm_running := w\<rparr>)" if "\<not> starting w" for w
    by (rule turns_inv_idle [OF i]) (use r that in \<open>simp_all add: handed_def\<close>)
  show ?thesis
    using int wait turns_inv_refuse [OF i r refusal_not_submitted]
    by (auto simp: run_decision_def Cons Let_def starting_def split: decision.split option.split list.split)
qed (use assms in \<open>simp add: run_decision_def\<close>)

lemma record_idle: "record_ok [] r \<Longrightarrow> completion r = None \<and> release_after r = None"
  by (auto simp: record_ok_def split: option.splits)

lemma inv_effort:
  assumes i: "turns_inv st" and r: "tm_running st = Awaiting_Effort call"
  shows "turns_inv (effort_settles call err st)"
proof -
  have ns: "\<not> starting (tm_running st)" using r by (simp add: starting_def)
  with i have fl: "tm_inflight st = []" by (simp add: turns_inv_def flight_idle)
  show ?thesis
  proof (cases err)
    case (Some e)
    with turns_inv_refuse [OF i ns, of "Adm_Failed e" call] show ?thesis by (simp add: effort_settles_def)
  next
    case None
    show ?thesis
    proof (cases "refusal st")
      case (Some q)
      with turns_inv_refuse [OF i ns refusal_not_submitted [OF Some]] None show ?thesis
        by (simp add: effort_settles_def)
    next
      case ok: None
      let ?st = "effort_settles call err st"
      have f: "tm_native ?st = tm_native st" "tm_settled ?st = tm_settled st" "tm_late ?st = tm_late st"
        "tm_admitted ?st = tm_admitted st" "tm_inflight ?st = [tm_next_admission st]"
        "tm_next_submission ?st = Suc (tm_next_submission st)" "tm_failure ?st = tm_failure st"
        "tm_stop_done ?st = tm_stop_done st" "tm_stopped ?st = tm_stopped st" "tm_since ?st = []"
        "tm_running ?st = Awaiting_Start call (tm_next_submission st) (tm_next_admission st)"
        using fl by (simp_all add: effort_settles_def None ok ensure_collector_def set_collector_def Let_def
            split: option.split)
      have o: "kept_submissions ?st = kept_submissions st" "handed ?st = handed st" "open_members ?st = open_members st"
        by (simp_all only: kept_submissions_def open_members_def handed_def f)
      have rec: "\<forall>e \<in> set (tm_native st). completion (snd e) = None \<and> release_after (snd e) = None"
        using i fl record_idle by (simp add: turns_inv_def members_inv_def)
      have "members_inv ?st"
        using i rec unfolding turns_inv_def members_inv_alt o f
        by (auto simp: record_ok_def intro: less_SucI)
      moreover have "closed_inv ?st"
        using i unfolding turns_inv_def closed_inv_def o f by blast
      moreover have "flight_inv ?st"
      proof -
        have "tm_next_submission st \<notin> handed st" using i by (auto simp: turns_inv_def members_inv_alt)
        with rec show ?thesis by (auto simp: flight_inv_def f o)
      qed
      ultimately show ?thesis by (simp add: turns_inv_def)
    qed
  qed
qed

lemma inv_interrupt:
  assumes "turns_inv st" "tm_running st = Awaiting_Interrupt call"
  shows "turns_inv (interrupt_settles call ok st)"
  by (rule turns_inv_idle [OF assms(1)])
    (use assms(2) in \<open>simp_all add: interrupt_settles_def answer_interrupt_def handed_def starting_def\<close>)

text \<open>The end of an admission leaves the open turns and nothing else.\<close>

lemma inv_answer:
  assumes m: "distinct (map fst (tm_native st))" "\<forall>e \<in> set (tm_native st). record_ok [a] (snd e)"
      "distinct (kept_submissions st)" "tm_late st = 0" "tm_inflight st = [a]"
    and h: "handed st \<union> (case r of Adm_Submitted i \<Rightarrow> {i} | _ \<Rightarrow> {}) = set (kept_submissions st)"
      "\<forall>i \<in> set (kept_submissions st). i < tm_next_submission st"
    and c: "closed_inv st"
  shows "turns_inv (answer_admission call r (end_admission a st))"
proof -
  from end_admission_eq [OF m(1,2)] obtain c where
    e: "end_admission a st = st\<lparr>tm_inflight := removeAll a (tm_inflight st),
          tm_native := filter is_open (tm_native st), tm_collector := c\<rparr>" by blast
  let ?st = "answer_admission call r (end_admission a st)"
  have fl: "tm_inflight (end_admission a st) = []"
    unfolding e m(5) by simp
  have f: "tm_native ?st = filter is_open (tm_native st)" "tm_settled ?st = tm_settled st"
    "tm_late ?st = tm_late st" "tm_inflight ?st = []" "tm_next_submission ?st = tm_next_submission st"
    "tm_failure ?st = tm_failure st" "tm_stop_done ?st = tm_stop_done st" "tm_stopped ?st = tm_stopped st"
    "tm_running ?st = Resting"
    by (simp_all add: e) (simp add: m(5))
  have o: "open_members ?st = open_members st"
    by (simp add: open_members_def e)
  then have k: "kept_submissions ?st = kept_submissions st"
    by (simp add: kept_submissions_def e)
  have hd: "handed ?st = set (kept_submissions st)"
    unfolding handed_answer h(1) [symmetric] by (simp add: e handed_def)
  have rec: "\<forall>e \<in> set (filter is_open (tm_native st)). record_ok [] (snd e)"
    using m(2) by (auto simp: record_ok_def is_open_def split: option.splits)
  have "members_inv ?st"
    unfolding members_inv_alt k hd f using m(1,3,4) rec h(2) by (simp add: distinct_keys_filter)
  moreover have "closed_inv ?st" using c by (simp only: closed_inv_def o f)
  moreover have "flight_inv ?st" by (simp add: flight_inv_def fl)
  ultimately show ?thesis by (simp add: turns_inv_def)
qed


text \<open>What a late answer of \<^verbatim>\<open>turn/start\<close> does, by what became of the turn meanwhile.\<close>

lemma native_completion:
  assumes "distinct (map fst (tm_native st))"
  shows "Option.bind (map_of (tm_native st) k) completion = Some c \<longleftrightarrow>
           (\<exists>r. (k, r) \<in> set (tm_native st) \<and> completion r = Some c)"
  using assms by (auto simp: bind_eq_Some_conv dest: map_of_SomeD)

lemma bind_cases:
  assumes i: "turns_inv st" and r: "tm_running st = Awaiting_Start call i a"
  obtains (known) c where "(k, c) \<in> set (tm_since st)"
      "bind_submission k i st = st\<lparr>tm_settled := tm_settled st @ [(i, Settled_Completion c)]\<rparr>"
  | (stopped) "k \<notin> fst ` set (tm_since st)" "tm_stopped st"
      "bind_submission k i st = st\<lparr>tm_settled := tm_settled st @ [(i, Settled_Stopped)]\<rparr>"
  | (failed) e where "k \<notin> fst ` set (tm_since st)" "\<not> tm_stopped st" "tm_failure st = Some e"
      "bind_submission k i st = st\<lparr>tm_settled := tm_settled st @ [(i, Settled_Failed e)]\<rparr>"
  | (joined) "k \<notin> fst ` set (tm_since st)" "\<not> tm_stopped st" "tm_failure st = None"
      "completion (native_or_new k st) = None"
      "bind_submission k i st = set_native k
         ((native_or_new k st)\<lparr>members := members (native_or_new k st) @ [i]\<rparr>) st"
proof -
  from i r have f: "i \<notin> handed st"
    "\<And>k c. (k, c) \<in> set (tm_since st) \<longleftrightarrow> (\<exists>r. (k, r) \<in> set (tm_native st) \<and> completion r = Some c)"
    by (simp_all add: turns_inv_def flight_inv_def)
  from i have d: "distinct (map fst (tm_native st))" and h: "handed st = set (kept_submissions st)"
    by (simp_all add: turns_inv_def members_inv_alt)
  have fresh: "settle_submission s i st = st\<lparr>tm_settled := tm_settled st @ [(i, s)]\<rparr>" for s
    using f(1) unfolding h by (simp add: kept_submissions_def settle_submission_def)
  show thesis
  proof (cases "Option.bind (map_of (tm_native st) k) completion")
    case (Some c)
    with native_completion [OF d] f(2) known fresh show thesis by (simp add: bind_submission_def)
  next
    case None
    then have n: "k \<notin> fst ` set (tm_since st)" using f(2) native_completion [OF d, of k] by force
    have c: "completion (native_or_new k st) = None"
      using None by (auto simp: native_or_new_def split: option.split)
    show thesis
    proof (cases "tm_stopped st")
      case True
      show thesis by (rule stopped [OF n True]) (simp add: bind_submission_def None True fresh)
    next
      case False
      show thesis
      proof (cases "tm_failure st")
        case (Some e)
        show thesis by (rule failed [OF n False Some]) (simp add: bind_submission_def None False Some fresh)
      next
        case no: None
        show thesis by (rule joined [OF n False no c]) (simp add: bind_submission_def None False no Let_def)
      qed
    qed
  qed
qed

lemma open_after_set:
  assumes "distinct (map fst (tm_native st))" "completion (native_or_new k st) = None"
  shows "mset (open_members (set_native k r st)) + mset (members (native_or_new k st)) =
    mset (open_members st) + (if completion r = None then mset (members r) else {#})"
proof -
  have "k \<in> fst ` set (tm_native st) \<or> members (native_or_new k st) = []"
    by (cases "k \<in> fst ` set (tm_native st)") (simp_all add: native_or_new_new)
  moreover have "q = native_or_new k st" if "(k, q) \<in> set (tm_native st)" for q
    using native_or_new_unique [OF assms(1) that] by simp
  ultimately show ?thesis
    using open_after_update [of "tm_native st" k "native_or_new k st" r] assms
    by (simp add: open_members_def set_native_def)
qed

lemma inv_start:
  assumes i: "turns_inv st" and r: "tm_running st = Awaiting_Start call i a"
  shows "turns_inv (start_settles call i a q st)"
proof -
  from i r have fl: "tm_inflight st = [a]" and fresh: "i \<notin> handed st" "i < tm_next_submission st"
    by (simp_all add: turns_inv_def flight_inv_def)
  from i have m: "distinct (map fst (tm_native st))" "\<forall>e \<in> set (tm_native st). record_ok [a] (snd e)"
    "distinct (kept_submissions st)" "tm_late st = 0" "handed st = set (kept_submissions st)"
    "\<forall>j \<in> handed st. j < tm_next_submission st" and c: "closed_inv st"
    using fl by (auto simp: turns_inv_def members_inv_alt)
  show ?thesis
  proof (cases q)
    case (Inl e)
    with inv_answer [OF m(1-4) fl _ _ c, of "Adm_Ambiguous e" call] m(5,6) show ?thesis
      by (simp add: start_settles_def)
  next
    case (Inr k)
    let ?st = "bind_submission k i st"
    have settled: "turns_inv (answer_admission call (Adm_Submitted i) (end_admission a
        (st\<lparr>tm_settled := tm_settled st @ [(i, s)]\<rparr>)))" for s
    proof (rule inv_answer)
      let ?s = "st\<lparr>tm_settled := tm_settled st @ [(i, s)]\<rparr>"
      have o: "open_members ?s = open_members st" "handed ?s = handed st"
        by (simp_all add: open_members_def handed_def)
      have k: "kept_submissions ?s = kept_submissions st @ [i]"
        by (simp add: kept_submissions_def o)
      show "distinct (kept_submissions ?s)" unfolding k using m(3,5) fresh by simp
      show "handed ?s \<union> (case Adm_Submitted i of Adm_Submitted i \<Rightarrow> {i} | _ \<Rightarrow> {}) = set (kept_submissions ?s)"
        unfolding k o using m(5) by simp
      show "\<forall>j \<in> set (kept_submissions ?s). j < tm_next_submission ?s"
        unfolding k using m(5,6) fresh by simp
      show "closed_inv ?s" using c unfolding closed_inv_def o by simp
    qed (use m fl in simp_all)
    from i r show ?thesis
    proof (cases rule: bind_cases [of st call i a k])
      case joined
      let ?r = "native_or_new k st"
      let ?s = "set_native k (?r\<lparr>members := members ?r @ [i]\<rparr>) st"
      have f: "tm_settled ?s = tm_settled st" "tm_late ?s = tm_late st" "tm_admitted ?s = tm_admitted st"
        "tm_inflight ?s = tm_inflight st" "tm_next_submission ?s = tm_next_submission st"
        "tm_failure ?s = tm_failure st" "tm_stop_done ?s = tm_stop_done st" "tm_stopped ?s = tm_stopped st"
        "tm_native ?s = AList.update k (?r\<lparr>members := members ?r @ [i]\<rparr>) (tm_native st)"
        by (simp_all add: set_native_def)
      have "mset (open_members ?s) = mset (open_members st) + {#i#}"
        using open_after_set [OF m(1) joined(4), of "?r\<lparr>members := members ?r @ [i]\<rparr>"] joined(4) by simp
      then have km: "mset (kept_submissions ?s) = mset (i # kept_submissions st)"
        by (simp add: kept_submissions_def f(1))
      have ks: "set (kept_submissions ?s) = insert i (set (kept_submissions st))"
        using mset_eq_setD [OF km] by simp
      have hd: "handed ?s = handed st" by (simp add: handed_def f)
      have "release_after ?r = None"
      proof (cases "k \<in> fst ` set (tm_native st)")
        case True
        from native_or_new_mem [OF this] m(2) have "record_ok [a] ?r" by auto
        with joined(4) show ?thesis by (simp add: record_ok_def)
      qed (simp add: native_or_new_new)
      then have rec: "record_ok [a] (?r\<lparr>members := members ?r @ [i]\<rparr>)"
        using joined(4) by (simp add: record_ok_def)
      have "turns_inv (answer_admission call (Adm_Submitted i) (end_admission a ?s))"
      proof (rule inv_answer)
        show "distinct (map fst (tm_native ?s))" unfolding f by (rule distinct_keys_update [OF m(1)])
        show "\<forall>e \<in> set (tm_native ?s). record_ok [a] (snd e)"
          unfolding f set_update_distinct [OF m(1)] using rec m(2) by auto
        show "distinct (kept_submissions ?s)"
          using mset_eq_imp_distinct_iff [OF km] m(3,5) fresh by simp
        show "handed ?s \<union> (case Adm_Submitted i of Adm_Submitted i \<Rightarrow> {i} | _ \<Rightarrow> {}) = set (kept_submissions ?s)"
          unfolding ks hd using m(5) by simp
        show "\<forall>j \<in> set (kept_submissions ?s). j < tm_next_submission ?s"
          unfolding ks f using m(5,6) fresh by simp
        show "closed_inv ?s"
          using c joined(2,3) unfolding closed_inv_def f by simp
      qed (use m fl f in simp_all)
      then show ?thesis by (simp add: start_settles_def Inr joined(5))
    qed (simp_all add: start_settles_def Inr settled)
  qed
qed


lemma inv_show: "turns_inv st \<Longrightarrow> turns_inv (show_terminal k t st)"
  by (rule turns_inv_same) simp_all

lemma map_of_update: "map_of (AList.update k r al) k = Some r"
  by (induction al) auto

lemma open_delete_closed:
  assumes "\<And>q. (k, q) \<in> set al \<Longrightarrow> \<not> is_open (k, q)"
  shows "filter is_open (filter (\<lambda>e. fst e \<noteq> k) al) = filter is_open al"
  using assms by (induction al) auto

text \<open>The first terminal of a turn: its members settle, the record waits or goes.\<close>

lemma observe_new_terminal:
  fixes codec t
  assumes i: "turns_inv st" and n: "completion (native_or_new k st) = None"
  defines "r \<equiv> native_or_new k st" and "c \<equiv> completion_from_terminal codec t"
    and "st' \<equiv> observe_terminal codec k t st"
  shows "tm_settled st' = tm_settled st @ map (\<lambda>i. (i, Settled_Completion c)) (members r)"
    "tm_native st' = (if tm_inflight st = [] then filter (\<lambda>e. fst e \<noteq> k) (tm_native st)
       else AList.update k (r\<lparr>members := [], completion := Some c, release_after := Some (tm_inflight st)\<rparr>)
              (tm_native st))"
    "tm_late st' = tm_late st" "tm_admitted st' = tm_admitted st" "tm_inflight st' = tm_inflight st"
    "tm_next_submission st' = tm_next_submission st" "tm_failure st' = tm_failure st"
    "tm_stop_done st' = tm_stop_done st" "tm_stopped st' = tm_stopped st" "tm_running st' = tm_running st"
    "tm_since st' = tm_since st @ [(k, c)]"
    "mset (open_members st') + mset (members r) = mset (open_members st)"
proof -
  let ?rec = "r\<lparr>members := [], completion := Some c, release_after := Some (tm_inflight st)\<rparr>"
  let ?s = "show_terminal k t st"
  from i have d: "distinct (map fst (tm_native st))" and ks: "distinct (kept_submissions st)"
    by (simp_all add: turns_inv_def members_inv_alt)
  have r: "native_or_new k ?s = r" by (simp add: r_def native_or_new_def)
  have op: "mset (open_members (set_native k ?rec st)) + mset (members r) = mset (open_members st)"
    using open_after_set [OF d n, of ?rec] by (simp add: r_def)
  then have "mset (open_members (set_native k ?rec st) @ members r @ map fst (tm_settled st)) = mset (kept_submissions st)"
    by (simp add: kept_submissions_def)
  from mset_eq_imp_distinct_iff [OF this] ks
  have fresh: "distinct (members r)" "set (members r) \<inter> fst ` set (tm_settled st) = {}" by simp_all
  define s2 where "s2 = (if terminal_interrupted t then set_native k ?rec ?s else emit [Ev_Result c] (set_native k ?rec ?s))"
  have s2: "tm_settled s2 = tm_settled st" "tm_native s2 = AList.update k ?rec (tm_native st)"
    "tm_late s2 = tm_late st" "tm_admitted s2 = tm_admitted st" "tm_inflight s2 = tm_inflight st"
    "tm_next_submission s2 = tm_next_submission st" "tm_failure s2 = tm_failure st"
    "tm_stop_done s2 = tm_stop_done st" "tm_stopped s2 = tm_stopped st" "tm_running s2 = tm_running st"
    "tm_since s2 = tm_since st"
    by (simp_all add: s2_def set_native_def emit_def)
  have "settle_members (Settled_Completion c) (members r) s2 =
      s2\<lparr>tm_settled := tm_settled s2 @ map (\<lambda>i. (i, Settled_Completion c)) (members r)\<rparr>"
    by (rule settle_members_eq) (use fresh in \<open>simp_all add: s2(1)\<close>)
  then have st': "st' = release_record_if_ready k
      (s2\<lparr>tm_settled := tm_settled st @ map (\<lambda>i. (i, Settled_Completion c)) (members r),
          tm_since := tm_since st @ [(k, c)]\<rparr>)" (is "_ = release_record_if_ready k ?s3")
    using n by (simp add: st'_def observe_terminal_def Let_def r c_def [symmetric] s2_def [symmetric] s2(1,11)
        r_def [symmetric])
  have rel: "st' = (if tm_inflight st = [] then release_turn k (delete_native k ?s3) else ?s3)"
    unfolding st' by (simp add: release_record_if_ready_def s2 map_of_update)
  then show "tm_settled st' = tm_settled st @ map (\<lambda>i. (i, Settled_Completion c)) (members r)"
    "tm_late st' = tm_late st" "tm_admitted st' = tm_admitted st" "tm_inflight st' = tm_inflight st"
    "tm_next_submission st' = tm_next_submission st" "tm_failure st' = tm_failure st"
    "tm_stop_done st' = tm_stop_done st" "tm_stopped st' = tm_stopped st" "tm_running st' = tm_running st"
    "tm_since st' = tm_since st @ [(k, c)]"
    by (simp_all add: release_turn_def delete_native_def s2)
  have same: "filter (\<lambda>e. fst e \<noteq> k) (AList.update k q al) = filter (\<lambda>e. fst e \<noteq> k) al"
    for al and q :: native_turn
    by (induction al) auto
  show nat: "tm_native st' = (if tm_inflight st = [] then filter (\<lambda>e. fst e \<noteq> k) (tm_native st)
       else AList.update k ?rec (tm_native st))"
    using rel same by (simp add: release_turn_def delete_native_def s2)
  have "\<not> is_open (k, q)" if "(k, q) \<in> set (AList.update k ?rec (tm_native st))" for q
    using that unfolding set_update_distinct [OF d] by (auto simp: is_open_def)
  from open_delete_closed [of k "AList.update k ?rec (tm_native st)", OF this]
  have "filter is_open (tm_native st') = filter is_open (AList.update k ?rec (tm_native st))"
    unfolding nat same by (cases "tm_inflight st = []") (simp_all only: if_True if_False simp_thms)
  with op show "mset (open_members st') + mset (members r) = mset (open_members st)"
    by (simp add: open_members_def set_native_def)
qed

lemma inv_observe:
  assumes i: "turns_inv st"
  shows "turns_inv (observe_terminal codec k t st)"
proof (cases "completion (native_or_new k st)")
  case (Some c)
  have "native_or_new k (show_terminal k t st) = native_or_new k st" by (simp add: native_or_new_def)
  with Some inv_show [OF i] show ?thesis by (simp add: observe_terminal_def Let_def)
next
  case None
  let ?st = "observe_terminal codec k t st"
  note o = observe_new_terminal [OF i None, of codec t]
  from i have m: "distinct (map fst (tm_native st))" "\<forall>e \<in> set (tm_native st). record_ok (tm_inflight st) (snd e)"
    "distinct (kept_submissions st)" "tm_late st = 0" "handed st = set (kept_submissions st)"
    "\<forall>j \<in> handed st. j < tm_next_submission st" and c: "closed_inv st" and f: "flight_inv st"
    by (auto simp: turns_inv_def members_inv_alt)
  have hd: "handed ?st = handed st" by (simp add: handed_def o(4))
  have "mset (kept_submissions ?st) = mset (kept_submissions st)"
    using o(12) by (simp add: kept_submissions_def o(1) comp_def)
  with m(3) have k: "distinct (kept_submissions ?st)" "set (kept_submissions ?st) = set (kept_submissions st)"
    using mset_eq_imp_distinct_iff mset_eq_setD by blast+
  have "distinct (map fst (tm_native ?st))"
    unfolding o(2) using m(1) by (simp add: distinct_keys_filter distinct_keys_update)
  moreover have "\<forall>e \<in> set (tm_native ?st). record_ok (tm_inflight st) (snd e)"
    unfolding o(2) using m(2) by (auto simp: set_update_distinct [OF m(1)] record_ok_def)
  ultimately have "members_inv ?st"
    unfolding members_inv_alt k(2) hd using m k o by simp
  moreover have "closed_inv ?st"
    using c o(12) unfolding closed_inv_def o(7-9) by auto
  moreover have "flight_inv ?st"
  proof (cases "starting (tm_running st)")
    case False
    with f show ?thesis by (simp add: flight_idle o)
  next
    case True
    then obtain call j a where r: "tm_running st = Awaiting_Start call j a"
      by (auto simp: starting_def split: running.splits)
    with f have fl: "tm_inflight st = [a]" and s: "\<And>k c. (k, c) \<in> set (tm_since st) \<longleftrightarrow>
        (\<exists>r. (k, r) \<in> set (tm_native st) \<and> completion r = Some c)"
      and j: "j < tm_next_submission st" "j \<notin> handed st" by (simp_all add: flight_inv_def)
    let ?c = "completion_from_terminal codec t"
    have "(k', c') \<in> set (tm_since ?st) \<longleftrightarrow> (\<exists>r. (k', r) \<in> set (tm_native ?st) \<and> completion r = Some c')" for k' c'
    proof (cases "k' = k")
      case True
      have "completion r \<noteq> Some c'" if "(k, r) \<in> set (tm_native st)" for r
        using native_or_new_unique [OF m(1) that] None by simp
      with True s [of k c'] fl show ?thesis
        by (auto simp: o(2,11) set_update_distinct [OF m(1)])
    next
      case False
      with s [of k' c'] fl show ?thesis
        by (auto simp: o(2,11) set_update_distinct [OF m(1)])
    qed
    with j fl show ?thesis by (simp add: flight_inv_def o r hd)
  qed
  ultimately show ?thesis by (simp add: turns_inv_def)
qed


lemma open_turns_eq: "open_turns st = map fst (filter is_open (tm_native st))"
  by (auto simp: open_turns_def is_open_def intro!: arg_cong [where f = "map fst"] filter_cong)

lemma drop_open:
  assumes "distinct (map fst (tm_native st))"
  shows "filter (\<lambda>x. fst x \<notin> set (open_turns st)) (tm_native st) = filter (\<lambda>e. \<not> is_open e) (tm_native st)"
proof (rule filter_cong [OF refl])
  fix e assume e: "e \<in> set (tm_native st)"
  have "e' = e" if "e' \<in> set (tm_native st)" "fst e' = fst e" for e'
    using assms e that by (meson distinct_map inj_onD)
  with e show "(fst e \<notin> set (open_turns st)) = (\<not> is_open e)"
    unfolding open_turns_eq by auto
qed

text \<open>Settling every member of every open turn and dropping those turns.\<close>

lemma inv_close_all:
  assumes i: "turns_inv st"
    and s: "tm_settled st' = tm_settled st @ map (\<lambda>i. (i, S)) (open_members st)"
    and n: "tm_native st' = filter (\<lambda>e. \<not> is_open e) (tm_native st)"
    and f: "tm_late st' = tm_late st" "tm_admitted st' = tm_admitted st" "tm_inflight st' = tm_inflight st"
      "tm_next_submission st' = tm_next_submission st" "tm_running st' = tm_running st"
      "tm_since st' = tm_since st" "tm_stop_done st' \<longrightarrow> tm_stopped st'"
  shows "turns_inv st'" "open_members st' = []"
proof -
  from i have m: "distinct (map fst (tm_native st))" "\<forall>e \<in> set (tm_native st). record_ok (tm_inflight st) (snd e)"
    "distinct (kept_submissions st)" "tm_late st = 0" "handed st = set (kept_submissions st)"
    "\<forall>j \<in> handed st. j < tm_next_submission st" and fi: "flight_inv st"
    by (auto simp: turns_inv_def members_inv_alt)
  show o: "open_members st' = []" by (simp add: open_members_def n)
  have hd: "handed st' = handed st" by (simp add: handed_def f)
  have "mset (kept_submissions st') = mset (kept_submissions st)"
    by (simp add: kept_submissions_def o s comp_def)
  with m(3) have k: "distinct (kept_submissions st')" "set (kept_submissions st') = set (kept_submissions st)"
    using mset_eq_imp_distinct_iff mset_eq_setD by blast+
  have "members_inv st'"
    unfolding members_inv_alt k(2) hd n f using m k by (simp add: distinct_keys_filter)
  moreover have "closed_inv st'" using f(7) by (simp add: closed_inv_def o)
  moreover have "flight_inv st'"
  proof -
    have "(\<exists>r. (k, r) \<in> set (tm_native st') \<and> completion r = Some c) \<longleftrightarrow>
        (\<exists>r. (k, r) \<in> set (tm_native st) \<and> completion r = Some c)" for k c
      by (auto simp: n is_open_def)
    with fi show ?thesis by (simp add: flight_inv_def f hd split: running.splits)
  qed
  ultimately show "turns_inv st'" by (simp add: turns_inv_def)
qed

lemma open_fresh:
  assumes "turns_inv st"
  shows "distinct (open_turns st)"
    "distinct (concat (map (\<lambda>k. members (native_or_new k st)) (open_turns st)))"
    "set (concat (map (\<lambda>k. members (native_or_new k st)) (open_turns st))) \<inter> fst ` set (tm_settled st) = {}"
proof -
  from assms have d: "distinct (map fst (tm_native st))" and k: "distinct (kept_submissions st)"
    by (simp_all add: turns_inv_def members_inv_alt)
  show "distinct (open_turns st)" using d by (simp add: open_turns_eq distinct_keys_filter)
  show "distinct (concat (map (\<lambda>k. members (native_or_new k st)) (open_turns st)))"
    "set (concat (map (\<lambda>k. members (native_or_new k st)) (open_turns st))) \<inter> fst ` set (tm_settled st) = {}"
    using k unfolding open_members_turns [OF d, symmetric] kept_submissions_def by simp_all
qed

lemma inv_fail:
  assumes i: "turns_inv st"
  shows "turns_inv (fail_protocol e st)" "open_members (fail_protocol e st) = []"
    "tm_stop_done (fail_protocol e st) = tm_stop_done st" "tm_failure (fail_protocol e st) \<noteq> None"
proof -
  define f where "f = (case tm_failure st of None \<Rightarrow> e | Some g \<Rightarrow> g)"
  define s where "s = (let st1 = emit [Ev_Reasoning_Close] st; st2 = st1\<lparr>tm_failure := Some f\<rparr>
      in if tm_failure st = None then end_native_turn ''failed'' (Some f) st2 else st2)"
  have s: "tm_settled s = tm_settled st" "tm_native s = tm_native st" "tm_late s = tm_late st"
    "tm_admitted s = tm_admitted st" "tm_inflight s = tm_inflight st"
    "tm_next_submission s = tm_next_submission st" "tm_failure s = Some f"
    "tm_stop_done s = tm_stop_done st" "tm_stopped s = tm_stopped st" "tm_running s = tm_running st"
    "tm_since s = tm_since st"
    by (simp_all add: s_def Let_def emit_def end_native_turn_def)
  have o: "open_turns s = open_turns st" by (simp add: open_turns_def s)
  have nn: "native_or_new k s = native_or_new k st" for k by (simp add: native_or_new_def s)
  have eq: "fail_protocol e st = fold (fail_record f) (open_turns s) s"
    by (simp add: fail_protocol_def s_def f_def Let_def emit_def)
  from i have d: "distinct (map fst (tm_native st))" and sd: "tm_stop_done st \<longrightarrow> tm_stopped st"
    by (simp_all add: turns_inv_def members_inv_alt closed_inv_def)
  from fold_fail_turns [of "open_turns s" s f] open_fresh [OF i]
  obtain c where c: "fail_protocol e st = s\<lparr>tm_settled := tm_settled s @
         map (\<lambda>i. (i, Settled_Failed f)) (open_members st),
       tm_native := filter (\<lambda>e. \<not> is_open e) (tm_native st), tm_collector := c\<rparr>"
    unfolding eq o nn s(1) open_members_turns [OF d, symmetric] s(2) drop_open [OF d] by blast
  show "turns_inv (fail_protocol e st)" "open_members (fail_protocol e st) = []"
    by (rule inv_close_all [OF i, of _ "Settled_Failed f"]; use sd in \<open>simp add: c s\<close>)+
  show "tm_stop_done (fail_protocol e st) = tm_stop_done st" "tm_failure (fail_protocol e st) \<noteq> None"
    by (simp_all add: c s)
qed

lemma inv_stop:
  assumes i: "turns_inv st" and st: "tm_stopped st"
  shows "turns_inv (finish_stop st)"
proof -
  let ?s = "end_native_turn ''interrupted'' None st"
  have o: "open_turns ?s = open_turns st" by (simp add: open_turns_def end_native_turn_def emit_def)
  have nn: "native_or_new k ?s = native_or_new k st" for k
    by (simp add: native_or_new_def end_native_turn_def emit_def)
  from i have d: "distinct (map fst (tm_native st))" by (simp add: turns_inv_def members_inv_alt)
  have ts: "tm_settled ?s = tm_settled st" by (simp add: end_native_turn_def emit_def)
  from fold_settle_turns [of ?s "open_turns ?s" Settled_Stopped] open_fresh [OF i]
  have "fold (\<lambda>k s. settle_members Settled_Stopped (members (native_or_new k s)) s) (open_turns ?s) ?s =
      ?s\<lparr>tm_settled := tm_settled st @ map (\<lambda>i. (i, Settled_Stopped)) (open_members st)\<rparr>"
    unfolding o nn ts open_members_turns [OF d, symmetric] by blast
  then have f: "finish_stop st = ?s\<lparr>tm_settled := tm_settled st @ map (\<lambda>i. (i, Settled_Stopped)) (open_members st),
      tm_native := filter (\<lambda>(k, r). completion r \<noteq> None) (tm_native st),
      tm_stops := tm_stops st - 1, tm_stop_done := True\<rparr>"
    by (simp add: finish_stop_def Let_def end_native_turn_def emit_def)
  have "filter (\<lambda>(k, r). completion r \<noteq> None) (tm_native st) = filter (\<lambda>e. \<not> is_open e) (tm_native st)"
    by (rule filter_cong) (auto simp: is_open_def)
  then show ?thesis
    by (intro inv_close_all(1) [OF i, of _ Settled_Stopped]) (use st in \<open>simp_all add: f end_native_turn_def emit_def\<close>)
qed

lemma inv_notification:
  assumes i: "turns_inv st"
  shows "turns_inv (on_notification codec n st)"
proof (cases "tm_collector st")
  case (Some c)
  have col: "turns_inv (set_collector c' s)" if "turns_inv s" for c' s
    by (rule turns_inv_same [OF that]) (simp_all add: set_collector_def)
  have em: "turns_inv (emit es s)" if "turns_inv s" for es s
    by (rule turns_inv_same [OF that]) (simp_all add: emit_def)
  have us: "turns_inv (st\<lparr>tm_usage := u\<rparr>)" for u by (rule turns_inv_same [OF i]) simp_all
  have rep: "turns_inv (report_terminal codec k t c st)" for k t
    using i inv_observe [OF col [OF i]] by (simp add: report_terminal_def split: option.split)
  have cl: "turns_inv (s\<lparr>tm_collector := x\<rparr>)" if "turns_inv s" for s x
    by (rule turns_inv_same [OF that]) simp_all
  show ?thesis
    using i us em [OF i] em [OF col [OF i]] rep cl [OF inv_fail(1) [OF i]]
    by (auto simp: on_notification_def Some Let_def split: notification.split option.split)
qed (use i in \<open>simp add: on_notification_def\<close>)

text \<open>Nothing but \<^verbatim>\<open>stop\<close> touches the stop flag and the stops in progress.\<close>

definition stop_state :: "turns \<Rightarrow> bool \<times> nat" where
  "stop_state st = (tm_stopped st, tm_stops st)"

lemma stop_state_fold:
  "(\<And>x s. stop_state (f x s) = stop_state s) \<Longrightarrow> stop_state (fold f xs s) = stop_state s"
  by (induction xs arbitrary: s) simp_all

lemma stop_state_basic [simp]:
  "stop_state (emit es s) = stop_state s" "stop_state (set_native k r s) = stop_state s"
  "stop_state (delete_native k s) = stop_state s" "stop_state (release_turn k s) = stop_state s"
  "stop_state (settle_submission q i s) = stop_state s" "stop_state (set_collector c s) = stop_state s"
  "stop_state (settle_members q is s) = stop_state s" "stop_state (forget_admission a k s) = stop_state s"
  "stop_state (show_terminal k t s) = stop_state s" "stop_state (answer_admission call ar s) = stop_state s"
  "stop_state (answer_interrupt call ir s) = stop_state s" "stop_state (ensure_collector s) = stop_state s"
  "stop_state (release_record_if_ready k s) = stop_state s"
  "stop_state (fail_record e k s) = stop_state s"
proof -
  show 1: "stop_state (settle_submission q i s) = stop_state s" for q i s
    by (simp add: stop_state_def settle_submission_def)
  show 2: "stop_state (settle_members q is s) = stop_state s" for q "is" s
    unfolding settle_members_def by (rule stop_state_fold) (rule 1)
  show "stop_state (fail_record e k s) = stop_state s"
    using 2 by (simp add: fail_record_def stop_state_def release_turn_def delete_native_def)
qed (simp_all add: stop_state_def small_defs forget_admission_def answer_admission_def answer_interrupt_def
    ensure_collector_def release_record_if_ready_def split: option.split)

lemma stop_state_ops [simp]:
  "stop_state (bind_submission k i s) = stop_state s"
  "stop_state (end_admission a s) = stop_state s"
  "stop_state (observe_terminal codec k t s) = stop_state s"
  "stop_state (fail_protocol e s) = stop_state s"
proof -
  show "stop_state (bind_submission k i s) = stop_state s"
    by (simp add: bind_submission_def Let_def split: option.split)
  show "stop_state (end_admission a s) = stop_state s"
    unfolding end_admission_def release_completed_records_def
    by (subst stop_state_fold) (simp, simp add: stop_state_def)
  have since: "stop_state (s\<lparr>tm_since := x\<rparr>) = stop_state s" for s x by (simp add: stop_state_def)
  show "stop_state (observe_terminal codec k t s) = stop_state s"
    by (simp add: observe_terminal_def Let_def since)
  have fail: "stop_state (s\<lparr>tm_failure := x\<rparr>) = stop_state s" for s x by (simp add: stop_state_def)
  show "stop_state (fail_protocol e s) = stop_state s"
    by (simp add: fail_protocol_def Let_def stop_state_fold fail end_native_turn_def)
qed

lemma stop_state_steps:
  "stop_state (call_submit s) = stop_state s" "stop_state (call_interrupt s) = stop_state s"
  "stop_state (run_decision s) = stop_state s" "stop_state (effort_settles call err s) = stop_state s"
  "stop_state (start_settles call i a q s) = stop_state s"
  "stop_state (interrupt_settles call ok s) = stop_state s"
  "stop_state (on_notification codec n s) = stop_state s"
proof -
  have u: "stop_state (s\<lparr>tm_queue := x1\<rparr>) = stop_state s" "stop_state (s\<lparr>tm_running := x2\<rparr>) = stop_state s"
    "stop_state (s\<lparr>tm_usage := x3\<rparr>) = stop_state s" "stop_state (s\<lparr>tm_collector := x4\<rparr>) = stop_state s"
    for s x1 x2 x3 x4 by (simp_all add: stop_state_def)
  show "stop_state (call_submit s) = stop_state s" "stop_state (call_interrupt s) = stop_state s"
    by (simp_all add: stop_state_def call_submit_def call_interrupt_def)
  show "stop_state (run_decision s) = stop_state s"
    by (auto simp: run_decision_def Let_def u split: list.split decision.split option.split)
  have "stop_state (s\<lparr>tm_running := x2, tm_next_submission := a, tm_inflight := b, tm_next_admission := c,
      tm_since := d\<rparr>) = stop_state s" for s x2 a b c d by (simp add: stop_state_def)
  then show "stop_state (effort_settles call err s) = stop_state s"
    by (simp add: effort_settles_def Let_def split: option.split)
  show "stop_state (start_settles call i a q s) = stop_state s"
    by (simp add: start_settles_def split: sum.split)
  show "stop_state (interrupt_settles call ok s) = stop_state s" by (simp add: interrupt_settles_def)
  have "stop_state (report_terminal codec k t c s) = stop_state s" for k t c
    by (simp add: report_terminal_def split: option.split)
  then show "stop_state (on_notification codec n s) = stop_state s"
    by (auto simp: on_notification_def Let_def u split: option.split notification.split)
qed

lemma stops_stopped: "turn_reach codec st \<Longrightarrow> 0 < tm_stops st \<longrightarrow> tm_stopped st"
proof (induction rule: turn_reach.induct)
  case init
  show ?case by (simp add: turns_init_def)
next
  case (step st st')
  have same: "0 < tm_stops s \<longrightarrow> tm_stopped s" if "stop_state s = stop_state st" for s
    using that step.IH by (simp add: stop_state_def)
  from step.hyps(2) show ?case
  proof cases
    case stop
    then show ?thesis by (simp add: call_stop_def emit_def)
  next
    case stopped
    have "tm_stopped (finish_stop st) = tm_stopped st"
    proof -
      have "stop_state (fold (\<lambda>k s. settle_members Settled_Stopped (members (native_or_new k s)) s)
          ks s) = stop_state s" for ks s by (rule stop_state_fold) simp
      then show ?thesis by (simp add: finish_stop_def Let_def stop_state_def end_native_turn_def emit_def)
    qed
    with stopped step.IH show ?thesis by simp
  qed (use same stop_state_steps in auto)
qed

lemma reach_inv: "turn_reach codec st \<Longrightarrow> turns_inv st"
proof (induction rule: turn_reach.induct)
  case init
  show ?case by (rule turns_inv_init)
next
  case (step st st')
  from step.hyps(2) show ?case
  proof cases
    case submit
    then show ?thesis by (auto simp: call_submit_def intro: turns_inv_same [OF step.IH])
  next
    case interrupt
    then show ?thesis by (auto simp: call_interrupt_def intro: turns_inv_same [OF step.IH])
  next
    case stop
    then show ?thesis by (auto simp: call_stop_def emit_def intro: turns_inv_same [OF step.IH])
  next
    case stopped
    with stops_stopped [OF step.hyps(1)] inv_stop [OF step.IH] show ?thesis by simp
  qed (use step.IH inv_run inv_effort inv_start inv_interrupt inv_notification in auto)
qed

text \<open>
  C18. Every submission handed to a caller is settled at most once and never lost: over any
  interleaving of calls, answers of Codex and notifications it is either settled, exactly
  once, or a member of exactly one native turn whose terminal has not been seen; and once
  the protocol has failed or a stop has finished, every one of them is settled.
\<close>

theorem submissions_settle_once:
  assumes "turn_reach codec st"
  shows "distinct (open_members st @ map fst (tm_settled st)) \<and> tm_late st = 0 \<and>
    {i. \<exists>call. (call, Adm_Submitted i) \<in> set (tm_admitted st)} =
      set (open_members st) \<union> fst ` set (tm_settled st) \<and>
    (tm_failure st \<noteq> None \<or> tm_stop_done st \<longrightarrow> open_members st = [])"
  using reach_inv [OF assms]
  by (simp add: turns_inv_def members_inv_def closed_inv_def handed_def)

lemma since_unique:
  assumes "turns_inv st" "tm_running st = Awaiting_Start call i a"
    and "(k, c) \<in> set (tm_since st)" "(k, c') \<in> set (tm_since st)"
  shows "c = c'"
proof -
  from assms(1,2) have "distinct (map fst (tm_native st))"
    and s: "\<And>k c. (k, c) \<in> set (tm_since st) \<longleftrightarrow> (\<exists>r. (k, r) \<in> set (tm_native st) \<and> completion r = Some c)"
    by (simp_all add: turns_inv_def members_inv_def flight_inv_def)
  note u = native_or_new_unique [OF this(1)]
  from s assms(3,4) obtain r r' where r: "(k, r) \<in> set (tm_native st)" "completion r = Some c"
    "(k, r') \<in> set (tm_native st)" "completion r' = Some c'" by blast
  from u [OF r(1)] u [OF r(3)] r(2,4) show ?thesis by simp
qed

lemma start_result:
  assumes i: "turns_inv st" and r: "tm_running st = Awaiting_Start call i a"
  shows "tm_settled (start_settles call i a (Inr k) st) = tm_settled (bind_submission k i st)"
    "tm_native (start_settles call i a (Inr k) st) = filter is_open (tm_native (bind_submission k i st))"
proof -
  let ?b = "bind_submission k i st"
  from i r have fl: "tm_inflight st = [a]" and m: "distinct (map fst (tm_native st))"
    "\<forall>e \<in> set (tm_native st). record_ok [a] (snd e)"
    by (auto simp: turns_inv_def flight_inv_def members_inv_def)
  have "distinct (map fst (tm_native ?b)) \<and> (\<forall>e \<in> set (tm_native ?b). record_ok [a] (snd e))"
    using i r
  proof (cases rule: bind_cases [of st call i a k])
    case joined
    let ?r = "native_or_new k st"
    have "record_ok [a] ?r"
    proof (cases "k \<in> fst ` set (tm_native st)")
      case True
      from native_or_new_mem [OF this] m(2) show ?thesis by auto
    qed (simp add: native_or_new_new record_ok_def)
    then have "record_ok [a] (?r\<lparr>members := members ?r @ [i]\<rparr>)"
      using joined(4) by (simp add: record_ok_def)
    with m joined(5) show ?thesis
      by (simp add: set_native_def distinct_keys_update set_update_distinct)
  qed (use m in simp_all)
  then obtain c where "end_admission a ?b = ?b\<lparr>tm_inflight := removeAll a (tm_inflight ?b),
      tm_native := filter is_open (tm_native ?b), tm_collector := c\<rparr>"
    using end_admission_eq by blast
  then show "tm_settled (start_settles call i a (Inr k) st) = tm_settled ?b"
    "tm_native (start_settles call i a (Inr k) st) = filter is_open (tm_native ?b)"
    by (simp_all add: start_settles_def)
qed

text \<open>
  A late answer of \<^verbatim>\<open>turn/start\<close> is bound to what became of its turn: if the turn's
  terminal was seen while the request was in flight, the submission is settled by that
  completion, whatever has stopped or failed since; otherwise it is settled as stopped or
  with the protocol's failure, and joins the open turn when there is neither.
\<close>

theorem late_answer_bound:
  assumes "turn_reach codec st" and "tm_running st = Awaiting_Start call i a"
  shows "let st' = start_settles call i a (Inr k) st in
    (\<forall>c. (k, c) \<in> set (tm_since st) \<longrightarrow> (i, Settled_Completion c) \<in> set (tm_settled st')) \<and>
    (k \<notin> fst ` set (tm_since st) \<longrightarrow>
       (if tm_stopped st then (i, Settled_Stopped) \<in> set (tm_settled st')
        else case tm_failure st of
            Some e \<Rightarrow> (i, Settled_Failed e) \<in> set (tm_settled st')
          | None \<Rightarrow> \<exists>r. (k, r) \<in> set (tm_native st') \<and> completion r = None \<and> i \<in> set (members r)))"
proof -
  note i = reach_inv [OF assms(1)]
  note res = start_result [OF i assms(2), of k]
  note uniq = since_unique [OF i assms(2)]
  from i assms(2) show ?thesis
  proof (cases rule: bind_cases [of st call i a k])
    case (known c)
    from known(1) have "k \<in> fst ` set (tm_since st)" by force
    moreover have "(i, Settled_Completion c') \<in> set (tm_settled (start_settles call i a (Inr k) st))"
      if "(k, c') \<in> set (tm_since st)" for c'
      using uniq [OF known(1) that] known(2) by (simp add: res)
    ultimately show ?thesis by (simp add: Let_def)
  next
    case joined
    let ?r = "(native_or_new k st)\<lparr>members := members (native_or_new k st) @ [i]\<rparr>"
    have "distinct (map fst (tm_native st))" using i by (simp add: turns_inv_def members_inv_def)
    then have "(k, ?r) \<in> set (filter is_open (tm_native (bind_submission k i st)))"
      using joined(4) by (simp add: joined(5) set_native_def set_update_distinct is_open_def)
    with joined(1-4) have "\<exists>r. (k, r) \<in> set (tm_native (start_settles call i a (Inr k) st)) \<and>
        completion r = None \<and> i \<in> set (members r)"
      unfolding res by (intro exI [of _ ?r]) simp
    moreover have "(k, c) \<notin> set (tm_since st)" for c using joined(1) by force
    ultimately show ?thesis using joined(2,3) by (simp add: Let_def)
  next
    case stopped
    moreover have "(k, c) \<notin> set (tm_since st)" for c using stopped(1) by force
    ultimately show ?thesis by (simp add: Let_def res)
  next
    case (failed e)
    moreover have "(k, c) \<notin> set (tm_since st)" for c using failed(1) by force
    ultimately show ?thesis by (simp add: Let_def res)
  qed
qed


subsection \<open>The final message\<close>

lemma replace_first_text_rev:
  assumes "extract_assistant_text t = Some s"
  obtains xs i ys where "ct_items t = xs @ i # ys" "\<forall>y \<in> set ys. item_type y \<noteq> ''agentMessage''"
    "item_type i = ''agentMessage''" "item_text i = Str s"
    "replace_first_text s r (rev (ct_items t)) = (True, rev ys @ i\<lparr>item_text := Str r\<rparr> # rev xs)"
proof -
  let ?p = "\<lambda>i. item_type i = ''agentMessage''"
  from assms obtain i zs where f: "rev (filter ?p (ct_items t)) = i # zs" and s: "item_text i = Str s"
    by (auto simp: extract_assistant_text_def split: list.splits js.splits if_splits)
  then have "filter ?p (rev (ct_items t)) = i # zs" by (simp add: rev_filter)
  then obtain us vs where u: "rev (ct_items t) = us @ i # vs" "\<forall>u \<in> set us. \<not> ?p u" "?p i"
    by (auto simp: filter_eq_Cons_iff)
  then have "ct_items t = rev vs @ i # rev us"
    by (metis append.assoc append_Cons append_Nil rev.simps(2) rev_append rev_rev_ident)
  moreover have "replace_first_text s r (us @ i # vs) = (True, us @ i\<lparr>item_text := Str r\<rparr> # vs)"
    using u(2,3) s by (induction us) auto
  ultimately show thesis using u s by (intro that [of "rev vs" i "rev us"]) simp_all
qed

text \<open>
  With an output schema the completion is the restoration of the last assistant message, and
  the text found is always the one restored.
\<close>

lemma completion_restored:
  "completion_from_terminal (Some restore) (Collected t) =
     (case extract_assistant_text t of
        None \<Rightarrow> Failed No_Assistant_Text
      | Some s \<Rightarrow> (case restore s of
          Inl e \<Rightarrow> Failed (Restore_Error e)
        | Inr r \<Rightarrow> Completed (if r = '''' then None else Some r)))"
proof (cases "extract_assistant_text t")
  case None
  then show ?thesis by (simp add: completion_from_terminal_def restore_collected_turn_def)
next
  case (Some s)
  show ?thesis
  proof (cases "restore s")
    case (Inl e)
    with Some show ?thesis by (simp add: completion_from_terminal_def restore_collected_turn_def)
  next
    case (Inr r)
    obtain xs i ys where
      i: "ct_items t = xs @ i # ys" "\<forall>y \<in> set ys. item_type y \<noteq> ''agentMessage''"
        "item_type i = ''agentMessage''" and
      rep: "replace_first_text s r (rev (ct_items t)) = (True, rev ys @ i\<lparr>item_text := Str r\<rparr> # rev xs)"
      by (rule replace_first_text_rev [OF Some])
    have "filter (\<lambda>i. item_type i = ''agentMessage'') ys = []"
      using i(2) by (simp add: filter_empty_conv)
    then have ex: "extract_assistant_text (t\<lparr>ct_items := rev (rev ys @ i\<lparr>item_text := Str r\<rparr> # rev xs)\<rparr>) =
        (if r = '''' then None else Some r)"
      using i(3) by (simp add: extract_assistant_text_def)
    have "restore_collected_turn restore t = Inr (t\<lparr>ct_items := rev (rev ys @ i\<lparr>item_text := Str r\<rparr> # rev xs)\<rparr>)"
      unfolding restore_collected_turn_def Some option.case Inr sum.case rep prod.case bool.case ..
    then show ?thesis
      unfolding completion_from_terminal_def terminal.case option.case Some Inr
      by (simp only: sum.case ex)
  qed
qed

subsection \<open>A run\<close>

text \<open>
  A submission is sent; its turn completes before Codex answers the request; the manager is
  stopped; the answer arrives.
\<close>

definition asked :: turns where
  "asked = effort_settles 0 None (run_decision (call_submit turns_init))"

definition asked_then_stopped :: turns where
  "asked_then_stopped = call_stop (on_notification None
     (N_Turn_Completed ''t1'' None
        (Some [\<lparr> item_id = ''m'', item_type = ''agentMessage'', item_text = Str ''hi'' \<rparr>]) ''completed'')
     asked)"

lemma asked_then_stopped_reach: "turn_reach codec asked_then_stopped" if "codec = None"
proof -
  have 1: "turn_reach None (call_submit turns_init)"
    by (rule turn_reach.step [OF turn_reach.init turn_step.submit])
  have 2: "turn_reach None (run_decision (call_submit turns_init))"
    by (rule turn_reach.step [OF 1 turn_step.run]) (simp_all add: call_submit_def turns_init_def)
  have "tm_running (run_decision (call_submit turns_init)) = Awaiting_Effort 0" by code_simp
  then have 3: "turn_reach None asked"
    unfolding asked_def by (rule turn_reach.step [OF 2 turn_step.effort])
  show ?thesis
    unfolding that asked_then_stopped_def
    by (rule turn_reach.step [OF turn_reach.step [OF 3 turn_step.notification] turn_step.stop])
qed

theorem late_answer_bound_witness:
  "tm_running asked_then_stopped = Awaiting_Start 0 0 0 \<and>
   (''t1'', Completed (Some ''hi'')) \<in> set (tm_since asked_then_stopped) \<and>
   (0, Settled_Completion (Completed (Some ''hi''))) \<in>
     set (tm_settled (start_settles 0 0 0 (Inr ''t1'') asked_then_stopped))"
proof -
  have "tm_running asked_then_stopped = Awaiting_Start 0 0 0" by code_simp
  moreover have "(''t1'', Completed (Some ''hi'')) \<in> set (tm_since asked_then_stopped)" by code_simp
  ultimately show ?thesis
    using late_answer_bound [OF asked_then_stopped_reach [OF refl], of 0 0 0 "''t1''"] by (simp add: Let_def)
qed

theorem submissions_settle_once_witness:
  "distinct (open_members asked_then_stopped @ map fst (tm_settled asked_then_stopped)) \<and>
   tm_late asked_then_stopped = 0 \<and> tm_stopped asked_then_stopped"
proof -
  have "tm_stopped asked_then_stopped" by code_simp
  with submissions_settle_once [OF asked_then_stopped_reach [OF refl]] show ?thesis by blast
qed

end
