(* ===== verification/Json_Schema_Props.thy ===== *)
theory Json_Schema_Props
  imports Json_Schema
begin

text \<open>
  A proved schema is one whose keywords have the shapes the value check casts them to, so
  the check is exactly conformance; closed object schemas mean what their builder says.
\<close>

subsection \<open>Proved schemas\<close>

definition proved :: "schema \<Rightarrow> bool" where
  "proved s \<longleftrightarrow> (\<exists>path. validate_schema_definition s path = None)"

lemma vsd_parts:
  assumes "validate_schema_definition s path = None"
  shows "unsupported_keyword s path = None" "declared_types s path = None"
    "define_enum s path = None" "define_bounds s path = None"
    "jget s ''additionalProperties'' = Undef \<or> (\<exists>b. jget s ''additionalProperties'' = Bool b)"
    "jget s ''properties'' = Undef \<and> define_required s [] path = None \<or>
     (\<exists>ps. jget s ''properties'' = Obj ps \<and> define_required s ps path = None \<and>
        (\<forall>(k, c) \<in> set ps. \<exists>cs. c = Obj cs \<and>
           validate_schema_definition cs (child_path path k) = None))"
    "jget s ''items'' = Undef \<or>
     (\<exists>it. jget s ''items'' = Obj it \<and> validate_schema_definition it (path @ ''[]'') = None)"
  using assms
  by (subst (asm) validate_schema_definition.simps;
      auto simp: first_violation_None split: js.splits)+

lemma proved_items: "proved s \<Longrightarrow> jget s ''items'' = Undef \<or> (\<exists>it. jget s ''items'' = Obj it \<and> proved it)"
  unfolding proved_def by (blast dest: vsd_parts(7))

lemma define_required_None:
  assumes "define_required s ps path = None"
  shows "(jget s ''required'' = Undef \<or> (\<exists>names. jget s ''required'' = Arr names)) \<and>
      (\<forall>names n. jget s ''required'' = Arr names \<longrightarrow> n \<in> set names \<longrightarrow>
         (\<exists>k. n = Str k \<and> k \<in> fst ` set ps))"
proof (cases "jget s ''required''")
  case (Arr names)
  have "\<exists>k. n = Str k \<and> k \<in> fst ` set ps" if "n \<in> set names" for n
    using assms Arr that
    by (cases n) (force simp: define_required_def first_violation_None split: if_splits)+
  with Arr show ?thesis by simp
qed (use assms in \<open>simp_all add: define_required_def\<close>)

lemma proved_properties:
  assumes "proved s"
  obtains ps where "declared_properties s = Some ps" "\<forall>(k, c) \<in> set ps. \<exists>cs. c = Obj cs \<and> proved cs"
    "\<And>names n. jget s ''required'' = Arr names \<Longrightarrow> n \<in> set names \<Longrightarrow> \<exists>k. n = Str k \<and> k \<in> fst ` set ps"
    "jget s ''required'' = Undef \<or> (\<exists>names. jget s ''required'' = Arr names)"
proof -
  note req = define_required_None
  from assms obtain path where v: "validate_schema_definition s path = None"
    by (auto simp: proved_def)
  from vsd_parts(6) [OF v] show ?thesis
  proof (elim disjE conjE exE)
    assume "jget s ''properties'' = Undef" "define_required s [] path = None"
    with req [of s "[]" path] that [of "[]"] show ?thesis
      by (auto simp: declared_properties_def)
  next
    fix ps assume ps: "jget s ''properties'' = Obj ps" "define_required s ps path = None"
      "\<forall>(k, c) \<in> set ps. \<exists>cs. c = Obj cs \<and>
           validate_schema_definition cs (child_path path k) = None"
    then have "\<forall>(k, c) \<in> set ps. \<exists>cs. c = Obj cs \<and> proved cs"
      unfolding proved_def by fastforce
    with ps(1,2) req [of s ps path] that [of ps] show ?thesis
      by (simp add: declared_properties_def)
  qed
qed

lemma proved_property:
  assumes "proved s" "property_schema s k = Some c"
  shows "proved c"
proof -
  from assms(1) obtain ps where ps: "declared_properties s = Some ps"
    "\<forall>(k, c) \<in> set ps. \<exists>cs. c = Obj cs \<and> proved cs" by (rule proved_properties)
  from assms(2) ps(1) have "(k, Obj c) \<in> set ps"
    by (auto simp: property_schema_def split: js.splits intro: jget_in)
  with ps(2) show ?thesis by fastforce
qed

lemma proved_enum:
  "proved s \<Longrightarrow> jget s ''enum'' = Undef \<or> (\<exists>es. jget s ''enum'' = Arr es)"
  by (auto simp: proved_def define_enum_def dest!: vsd_parts(3) split: js.splits)

lemma numeric_keyword_Inr:
  "numeric_keyword s k path = Inr r \<Longrightarrow> jget s k = Undef \<or> (\<exists>n. jget s k = Num n)"
  by (auto simp: numeric_keyword_def split: js.splits)

lemma count_keyword_Inr:
  "count_keyword s k path = Inr r \<Longrightarrow> jget s k = Undef \<or> (\<exists>n. jget s k = Num n)"
  by (auto simp: count_keyword_def bind_res_Inr_iff dest: numeric_keyword_Inr)

lemma define_bound_None:
  assumes "define_bound rd s lo hi path = None"
    and "\<And>k r. rd s k path = Inr r \<Longrightarrow> jget s k = Undef \<or> (\<exists>n. jget s k = Num n)"
  shows "(jget s lo = Undef \<or> (\<exists>n. jget s lo = Num n)) \<and> (jget s hi = Undef \<or> (\<exists>n. jget s hi = Num n))"
  using assms by (auto simp: define_bound_def split: sum.splits)

lemma proved_bounds:
  assumes "proved s"
    and "k \<in> {''minLength'', ''maxLength'', ''minItems'', ''maxItems'', ''minimum'', ''maximum''}"
  shows "jget s k = Undef \<or> (\<exists>n. jget s k = Num n)"
proof -
  from assms(1) obtain path where "define_bounds s path = None"
    by (auto simp: proved_def dest: vsd_parts(4))
  then have
    "define_bound count_keyword s ''minLength'' ''maxLength'' path = None"
    "define_bound count_keyword s ''minItems'' ''maxItems'' path = None"
    "define_bound numeric_keyword s ''minimum'' ''maximum'' path = None"
    by (simp_all add: define_bounds_def)
  from this(1,2) [THEN define_bound_None, OF count_keyword_Inr]
    this(3) [THEN define_bound_None, OF numeric_keyword_Inr] assms(2)
  show ?thesis by auto
qed

subsection \<open>The check is conformance\<close>

lemma check_min_None:
  assumes "proved s" "k \<in> {''minLength'', ''minItems'', ''minimum''}"
  shows "check_min n s k msg path = None \<longleftrightarrow> above n s k"
proof -
  from assms have "jget s k = Undef \<or> (\<exists>n. jget s k = Num n)"
    by (intro proved_bounds) auto
  then show ?thesis
    by (elim disjE exE) (simp_all add: check_min_def above_def not_less)
qed

lemma check_max_None:
  assumes "proved s" "k \<in> {''maxLength'', ''maxItems'', ''maximum''}"
  shows "check_max n s k msg path = None \<longleftrightarrow> below n s k"
proof -
  from assms have "jget s k = Undef \<or> (\<exists>n. jget s k = Num n)"
    by (intro proved_bounds) auto
  then show ?thesis
    by (elim disjE exE) (simp_all add: check_max_def below_def not_less)
qed

lemma check_type_None: "check_type v s path = None \<longleftrightarrow> has_type v s"
  by (auto simp: check_type_def has_type_def list_ex_iff split: option.splits)

lemma check_enum_None: "proved s \<Longrightarrow> check_enum v s path = None \<longleftrightarrow> in_enum v s"
  by (drule proved_enum) (elim disjE exE; simp add: check_enum_def in_enum_def list_ex_iff)

lemma check_required_None:
  assumes "proved s"
  shows "check_required kv s path = None \<longleftrightarrow> has_required kv s"
proof -
  from assms obtain ps path' where d: "define_required s ps path' = None"
    by (auto simp: proved_def dest!: vsd_parts(6))
  note n = define_required_None [OF d, THEN conjunct2, rule_format]
  from define_required_None [OF d, THEN conjunct1] show ?thesis
  proof (elim disjE exE)
    fix names assume a: "jget s ''required'' = Arr names"
    have "(case m of Str k \<Rightarrow> if jget kv k = Undef then Some (path, Missing_Property k) else None
            | _ \<Rightarrow> Some (path, Malformed)) = None \<longleftrightarrow> (\<forall>k. m = Str k \<longrightarrow> jget kv k \<noteq> Undef)"
      if "m \<in> set names" for m
      using n [OF a that] by auto
    then have "check_required kv s path = None \<longleftrightarrow>
        (\<forall>m \<in> set names. \<forall>k. m = Str k \<longrightarrow> jget kv k \<noteq> Undef)"
      using a by (simp add: check_required_def first_violation_None)
    also have "\<dots> \<longleftrightarrow> has_required kv s"
      using a by (auto simp: has_required_def)
    finally show ?thesis .
  qed (simp add: check_required_def has_required_def)
qed

lemma property_schema_eq:
  "declared_properties s = Some ps \<Longrightarrow>
   property_schema s k = (case jget ps k of Obj c \<Rightarrow> Some c | _ \<Rightarrow> None)"
  by (simp add: property_schema_def)

lemma declared_child:
  assumes "declared_properties s = Some ps" "\<forall>(k, c) \<in> set ps. \<exists>cs. c = Obj cs \<and> proved cs"
  shows "jget ps k = Undef \<and> property_schema s k = None \<or>
    (\<exists>c. jget ps k = Obj c \<and> property_schema s k = Some c)"
proof (cases "jget ps k = Undef")
  case True
  with assms(1) show ?thesis by (simp add: property_schema_eq)
next
  case False
  from jget_in [OF refl False] assms(2) obtain c where "jget ps k = Obj c" by fastforce
  with assms(1) show ?thesis by (simp add: property_schema_eq)
qed

lemma ball_zip_index: "(\<forall>(x, i) \<in> set (zip xs [0..<length xs]). P x) \<longleftrightarrow> (\<forall>x \<in> set xs. P x)"
proof -
  have "set xs = fst ` set (zip xs [0..<length xs])"
    by (metis length_upt map_fst_zip minus_nat.diff_0 set_map)
  then show ?thesis by auto
qed

lemma check_conforms: "proved s \<Longrightarrow> check v s p = None \<longleftrightarrow> conforms v s"
proof (induction v s p rule: check.induct)
  case (1 v s p)
  note head = check_type_None check_enum_None [OF "1.prems"]
  show ?case
  proof (cases v)
    case (Str t)
    with "1.prems" show ?thesis
      by (subst check.simps, subst conforms_simps)
        (simp add: head check_string_def check_min_None check_max_None in_bounds_def)
  next
    case (Num n)
    with "1.prems" show ?thesis
      by (subst check.simps, subst conforms_simps)
        (simp add: head check_number_def check_min_None check_max_None in_bounds_def)
  next
    case (Arr xs)
    have count: "check_count (length xs) s p = None \<longleftrightarrow> in_bounds v s"
      using Arr "1.prems"
      by (simp add: check_count_def check_min_None check_max_None in_bounds_def)
    from proved_items [OF "1.prems"] consider "jget s ''items'' = Undef"
      | item where "jget s ''items'' = Obj item" "proved item" by blast
    then show ?thesis
    proof cases
      case 1
      then show ?thesis
        using Arr by (subst check.simps, subst conforms_simps) (simp add: head count)
    next
      case (2 item)
      have "first_violation (\<lambda>(x, i). check x item (item_path p i)) (zip xs [0..<length xs]) = None
        \<longleftrightarrow> (\<forall>x \<in> set xs. conforms x item)"
      proof -
        have "check x item (item_path p i) = None \<longleftrightarrow> conforms x item"
          if "(x, i) \<in> set (zip xs [0..<length xs])" for x i
          using "1.IH"(1) [OF Arr 2(1) that _ 2(2)] by simp
        then have "first_violation (\<lambda>(x, i). check x item (item_path p i))
            (zip xs [0..<length xs]) = None \<longleftrightarrow>
            (\<forall>(x, i) \<in> set (zip xs [0..<length xs]). conforms x item)"
          by (auto simp: first_violation_None)
        also have "\<dots> \<longleftrightarrow> (\<forall>x \<in> set xs. conforms x item)"
          by (rule ball_zip_index)
        finally show ?thesis .
      qed
      then show ?thesis
        using Arr 2(1) by (subst check.simps, subst conforms_simps) (simp add: head count Ball_def)
    qed
  next
    case (Obj kv)
    from "1.prems" obtain ps where ps: "declared_properties s = Some ps"
      "\<forall>(k, c) \<in> set ps. \<exists>cs. c = Obj cs \<and> proved cs" by (rule proved_properties)
    let ?f = "\<lambda>(k, w). if w = Undef then None
                   else (case jget ps k of
                       Undef \<Rightarrow> if jget s ''additionalProperties'' = Bool False
                                then Some (p, Unknown_Property k) else None
                     | Obj child \<Rightarrow> check w child (child_path p k)
                     | _ \<Rightarrow> Some (p, Malformed))"
    have entry: "?f (k, w) = None \<longleftrightarrow>
        (w \<noteq> Undef \<longrightarrow>
          (jget s ''additionalProperties'' = Bool False \<longrightarrow> property_schema s k \<noteq> None) \<and>
          (\<forall>c. property_schema s k = Some c \<longrightarrow> conforms w c))"
      if kw: "(k, w) \<in> set kv" for k w
    proof (cases "w = Undef")
      case False
      from declared_child [OF ps, of k] show ?thesis
      proof (elim disjE exE conjE)
        fix c assume c: "jget ps k = Obj c" "property_schema s k = Some c"
        from "1.IH"(2) [OF Obj ps(1) kw refl False c(1) proved_property [OF "1.prems" c(2)]] c False
        show ?thesis by simp
      qed (use False in simp)
    qed simp
    have "first_violation ?f kv = None \<longleftrightarrow> closed_to kv s \<and>
        (\<forall>k w c. (k, w) \<in> set kv \<longrightarrow> w \<noteq> Undef \<longrightarrow> property_schema s k = Some c \<longrightarrow> conforms w c)"
      using entry unfolding first_violation_None closed_to_def by fastforce
    moreover have "check (Obj kv) s p = or_then (check_type (Obj kv) s p)
        (or_then (check_enum (Obj kv) s p)
          (or_then (check_required kv s p) (first_violation ?f kv)))"
      by (subst check.simps) (simp add: ps(1))
    moreover have "in_bounds (Obj kv) s" by (simp add: in_bounds_def)
    ultimately show ?thesis
      unfolding Obj conforms_Obj
      by (simp only: or_then_None head check_required_None [OF "1.prems"]) blast
  qed (subst check.simps, subst conforms_simps, simp add: head in_bounds_def)+
qed



end
