(* ===== verification/Output_Schema_Codec_Props.thy ===== *)
theory Output_Schema_Codec_Props
  imports Output_Schema_Codec Json_Schema_Props
begin

text \<open>
  The compiled schema and the restoration plan against JSON Schema conformance: what the
  wire schema admits is restored to exactly the values the caller's schema admits.
\<close>

subsection \<open>Looking keywords up\<close>

lemma jget_append: "jget (a @ b) k = (if k \<in> fst ` set a then jget a k else jget b k)"
  by (induction a) (auto simp: jget_def map_add_def split: option.splits)

lemma jget_notin: "k \<notin> fst ` set a \<Longrightarrow> jget a k = Undef"
  by (simp add: jget_def map_of_eq_None_iff [THEN iffD2])

lemma unknown_keywords_None:
  "reject_unknown_keywords s allowed path = None \<longleftrightarrow> fst ` set s \<subseteq> set allowed"
  by (auto simp: reject_unknown_keywords_def first_violation_None own_keys_def)

lemma SUPPORTED_TYPES_cases:
  assumes "ty \<in> set SUPPORTED_TYPES"
  obtains "ty = ''object''" | "ty = ''array''" | "ty = ''string''" | "ty = ''number''"
    | "ty = ''integer''" | "ty = ''boolean''" | "ty = ''null''"
proof -
  from assms have "ty = ''object'' \<or> ty = ''array'' \<or> ty = ''string'' \<or> ty = ''number'' \<or>
      ty = ''integer'' \<or> ty = ''boolean'' \<or> ty = ''null''"
    unfolding SUPPORTED_TYPES_def by simp
  then show thesis by (elim disjE) (erule that)+
qed

subsection \<open>Types and enums\<close>

lemma matches_null [simp]: "matches_type w (Str ''null'') \<longleftrightarrow> w = Null"
  by (simp add: matches_type_def)

lemma two_distinct:
  assumes "length xs = 2" "length (remdups xs) = 2" "y \<in> set xs"
  obtains x where "x \<noteq> y" "set xs = {x, y}"
proof -
  from assms(1) obtain a b where "xs = [a, b]"
    by (auto simp: numeral_2_eq_2 length_Suc_conv)
  with assms(2,3) that [of a] that [of b] show thesis
    by (auto split: if_splits)
qed

lemma schema_type_Inr:
  assumes "schema_type (jget s ''type'') q = Inr (ty, nullable)"
  shows "ty \<in> set SUPPORTED_TYPES" "ty = ''null'' \<Longrightarrow> nullable"
    "has_type w s \<longleftrightarrow> matches_type w (Str ty) \<or> nullable \<and> w = Null"
proof -
  have "ty \<in> set SUPPORTED_TYPES \<and> (ty = ''null'' \<longrightarrow> nullable) \<and>
      (has_type w s \<longleftrightarrow> matches_type w (Str ty) \<or> nullable \<and> w = Null)"
  proof (cases "jget s ''type''")
    case (Str t)
    with assms show ?thesis
      by (auto simp: schema_type_def has_type_def declared_list_def split: if_splits)
  next
    case (Arr xs)
    with assms have len: "length xs = 2" "length (remdups xs) = 2" "Str ''null'' \<in> set xs"
      and f: "find (\<lambda>x. x \<noteq> Str ''null'') xs = Some (Str ty)" "ty \<in> set SUPPORTED_TYPES" nullable
      by (auto simp: schema_type_def split: if_splits option.splits js.splits)
    from len obtain x where x: "x \<noteq> Str ''null''" "set xs = {x, Str ''null''}"
      by (rule two_distinct)
    from f(1) [THEN find_Some_in] x have "set xs = {Str ty, Str ''null''}" by auto
    with f(2,3) Arr show ?thesis
      by (auto simp: has_type_def declared_list_def)
  qed (use assms in \<open>simp_all add: schema_type_def\<close>)
  then show "ty \<in> set SUPPORTED_TYPES" "ty = ''null'' \<Longrightarrow> nullable"
    "has_type w s \<longleftrightarrow> matches_type w (Str ty) \<or> nullable \<and> w = Null" by blast+
qed

lemma strict_equal_primitive: "primitive e \<Longrightarrow> strict_equal e w \<longleftrightarrow> e = w"
  by (cases e) (auto simp: strict_equal_def primitive_def)

definition enum_admits :: "js list option \<Rightarrow> js \<Rightarrow> bool" where
  "enum_admits enum w = (case enum of None \<Rightarrow> True | Some vs \<Rightarrow> w \<in> set vs)"

lemma in_enum_values:
  assumes "jget s ''enum'' = Arr vs" "list_all primitive vs"
  shows "in_enum w s \<longleftrightarrow> w \<in> set vs"
  using assms by (auto simp: in_enum_def list_all_iff strict_equal_primitive)

lemma schema_enum_Inr:
  assumes "schema_enum (jget s ''enum'') q = Inr enum"
  shows "in_enum w s \<longleftrightarrow> enum_admits enum w"
    "enum = Some vs \<Longrightarrow> vs \<noteq> [] \<and> list_all primitive vs"
proof -
  have vals: "vs = xs \<and> list_all primitive xs"
    if "map_res (\<lambda>(x, i). if primitive x then Inr x else Inl (e i)) (zip xs js) = Inr vs"
      "length js = length xs" for xs js vs and e :: "nat \<Rightarrow> codec_error"
    using that
    by (induction xs js arbitrary: vs rule: list_induct2')
      (auto simp: bind_res_Inr_iff split: if_splits)
  have "(in_enum w s \<longleftrightarrow> enum_admits enum w) \<and>
      (enum = Some vs \<longrightarrow> vs \<noteq> [] \<and> list_all primitive vs)"
  proof (cases "jget s ''enum''")
    case Undef
    with assms show ?thesis
      by (simp add: schema_enum_def in_enum_def enum_admits_def)
  next
    case (Arr xs)
    with assms obtain ys where y: "xs \<noteq> []" "enum = Some ys"
      and "map_res (\<lambda>(x, i). if primitive x then Inr x
             else Inl (item_path q i, Enum_Entry_Not_Primitive)) (zip xs [0..<length xs]) = Inr ys"
      by (auto simp: schema_enum_def bind_res_Inr_iff split: if_splits)
    from vals [OF this(3)] have "ys = xs" "list_all primitive xs" by simp_all
    with y Arr show ?thesis
      by (auto simp: in_enum_values enum_admits_def)
  qed (use assms in \<open>simp_all add: schema_enum_def\<close>)
  then show "in_enum w s \<longleftrightarrow> enum_admits enum w"
    "enum = Some vs \<Longrightarrow> vs \<noteq> [] \<and> list_all primitive vs" by blast+
qed

lemma set_canonical_enum [simp]: "set (canonical_enum le vs) = set vs"
proof -
  have "set (insort_by le x xs) = insert x (set xs)" for x xs
    by (induction xs) auto
  then show ?thesis
    by (induction vs) (auto simp: canonical_enum_def)
qed

lemma wire_enum_admits:
  assumes "jget W ''enum'' = jget (wire_enum le enum optional) ''enum''"
    and "\<And>vs. enum = Some vs \<Longrightarrow> list_all primitive vs"
  shows "in_enum w W \<longleftrightarrow> enum_admits enum w \<or> optional \<and> w = Null"
proof (cases enum)
  case None
  with assms(1) show ?thesis by (simp add: wire_enum_def in_enum_def enum_admits_def)
next
  case (Some vs)
  let ?ws = "if optional \<and> Null \<notin> set vs then vs @ [Null] else vs"
  have "list_all primitive (canonical_enum le ?ws)"
    using assms(2) [OF Some] by (auto simp: list_all_iff primitive_def)
  moreover have "jget W ''enum'' = Arr (canonical_enum le ?ws)"
    using assms(1) Some by (simp add: wire_enum_def)
  ultimately show ?thesis
    using Some by (auto simp: in_enum_values enum_admits_def)
qed

lemma wire_type_admits:
  assumes "jget W ''type'' = wire_type ty nullable optional" "ty = ''null'' \<Longrightarrow> nullable"
  shows "has_type w W \<longleftrightarrow> matches_type w (Str ty) \<or> (optional \<or> nullable) \<and> w = Null"
  using assms by (auto simp: has_type_def declared_list_def wire_type_def split: if_splits)

subsection \<open>The head of a schema\<close>

lemma enum_null:
  assumes "validate_enum_types vs ''null'' nullable q = None" "vs \<noteq> []"
  shows "Null \<in> set vs"
proof -
  from assms(2) obtain x xs where "vs = x # xs" by (cases vs) auto
  with assms(1) have "enum_value_ok ''null'' nullable x"
    by (auto simp: validate_enum_types_def first_violation_None upt_rec split: if_splits)
  then have "x = Null" by (auto simp: enum_value_ok_def)
  with \<open>vs = x # xs\<close> show ?thesis by simp
qed

lemma enum_structure:
  "validate_enum_types vs ty nullable q = None \<Longrightarrow> ty \<noteq> ''object'' \<and> ty \<noteq> ''array''"
  by (auto simp: validate_enum_types_def split: if_splits)

lemma compile_head_Inr:
  assumes "compile_head le v path optional = Inr h"
  obtains nullable enum ds where "v = Obj (head_schema h)"
    "schema_type (jget (head_schema h) ''type'') (path @ ''.type'') = Inr (head_type h, nullable)"
    "schema_enum (jget (head_schema h) ''enum'') (path @ ''.enum'') = Inr enum"
    "\<And>vs. enum = Some vs \<Longrightarrow>
       validate_enum_types vs (head_type h) nullable (path @ ''.enum'') = None"
    "head_null h \<longleftrightarrow> head_type h = ''null'' \<or> nullable \<and> enum_admits enum Null"
    "\<not> (optional \<and> head_null h)"
    "fst ` set (head_schema h) \<subseteq> set (allowed_keywords (head_type h))"
    "ds = [] \<or> (\<exists>d. ds = [(''description'', Str d)])"
    "head_wire h = [(''type'', wire_type (head_type h) nullable optional)] @ ds
                    @ wire_enum le enum optional"
proof -
  define s where "s = head_schema h"
  have s: "v = Obj s" using assms unfolding s_def by (rule head_schema_value)
  note def = compile_head_def [of le v path optional, unfolded s schema_record_def js.case]
  obtain ty nullable where t: "schema_type (jget s ''type'') (path @ ''.type'') = Inr (ty, nullable)"
    using assms by (cases "schema_type (jget s ''type'') (path @ ''.type'')") (auto simp: s def)
  obtain enum where e: "schema_enum (jget s ''enum'') (path @ ''.enum'') = Inr enum"
    using assms by (cases "schema_enum (jget s ''enum'') (path @ ''.enum'')") (auto simp: s def t)
  have n: "(case enum of None \<Rightarrow> None
      | Some vs \<Rightarrow> validate_enum_types vs ty nullable (path @ ''.enum'')) = None"
    using assms
    by (cases "case enum of None \<Rightarrow> None
      | Some vs \<Rightarrow> validate_enum_types vs ty nullable (path @ ''.enum'')") (auto simp: s def t e)
  let ?acc = "ty = ''null'' \<or> nullable \<and> enum_admits enum Null"
  have o: "\<not> (optional \<and> ?acc)"
    using assms by (auto simp: s def t e n enum_admits_def Let_def)
  have k: "reject_unknown_keywords s (allowed_keywords ty) path = None"
    using assms o by (cases "reject_unknown_keywords s (allowed_keywords ty) path")
      (auto simp: s def t e n enum_admits_def Let_def)
  define d where "d = (case jget s ''description'' of
        Undef \<Rightarrow> Inr [] | Str d \<Rightarrow> Inr [(''description'', Str d)]
      | _ \<Rightarrow> Inl (path @ ''.description'', Description_Not_String))"
  have h: "compile_head le (Obj s) path optional = bind_res d (\<lambda>description.
      Inr \<lparr> head_schema = s, head_type = ty,
            head_wire = [(''type'', wire_type ty nullable optional)] @ description
                          @ wire_enum le enum optional,
            head_null = ?acc \<rparr>)"
    using o by (auto simp: def t e n k Let_def d_def enum_admits_def)
  obtain ds where ds: "d = Inr ds" "ds = [] \<or> (\<exists>x. ds = [(''description'', Str x)])"
    using assms h s by (auto simp: bind_res_Inr_iff d_def split: js.splits)
  from assms s h ds(1) have hh: "h = \<lparr> head_schema = s, head_type = ty,
      head_wire = [(''type'', wire_type ty nullable optional)] @ ds @ wire_enum le enum optional,
      head_null = ?acc \<rparr>" by simp
  from hh have f: "head_schema h = s" "head_type h = ty" "head_null h = ?acc"
    "head_wire h = [(''type'', wire_type ty nullable optional)] @ ds @ wire_enum le enum optional"
    by simp_all
  from n have v: "\<And>vs. enum = Some vs \<Longrightarrow> validate_enum_types vs ty nullable (path @ ''.enum'') = None"
    by simp
  show thesis
    by (rule that [OF _ _ _ _ _ _ _ ds(2)])
      (use s t e v o k f in \<open>simp_all add: unknown_keywords_None\<close>)
qed


definition head_keys :: "string set" where
  "head_keys = {''type'', ''description'', ''enum''}"

lemma head_wire_other:
  assumes "compile_head le v path optional = Inr h" "k \<notin> head_keys"
  shows "jget (head_wire h @ x) k = jget x k"
proof -
  from assms(1) obtain nullable enum ds where
    d: "ds = [] \<or> (\<exists>d. ds = [(''description'', Str d)])" and
    w: "head_wire h = [(''type'', wire_type (head_type h) nullable optional)] @ ds @ wire_enum le enum optional"
    by (rule compile_head_Inr)
  have "k \<notin> fst ` set (head_wire h)"
    using d assms(2) unfolding w by (auto simp: wire_enum_def head_keys_def split: option.splits)
  then show ?thesis by (simp add: jget_append)
qed

lemma head_admits:
  assumes "compile_head le v path optional = Inr h" "fst ` set x \<inter> head_keys = {}"
  shows "has_type w (head_wire h @ x) \<and> in_enum w (head_wire h @ x) \<longleftrightarrow>
    has_type w (head_schema h) \<and> in_enum w (head_schema h) \<or> optional \<and> w = Null"
proof -
  from assms(1) obtain nullable enum ds where
    t: "schema_type (jget (head_schema h) ''type'') (path @ ''.type'') = Inr (head_type h, nullable)" and
    e: "schema_enum (jget (head_schema h) ''enum'') (path @ ''.enum'') = Inr enum" and
    d: "ds = [] \<or> (\<exists>d. ds = [(''description'', Str d)])" and
    w: "head_wire h = [(''type'', wire_type (head_type h) nullable optional)] @ ds @ wire_enum le enum optional"
    by (rule compile_head_Inr)
  let ?W = "head_wire h @ x"
  have "jget x ''enum'' = Undef"
    using assms(2) by (intro jget_notin) (auto simp: head_keys_def)
  then have "jget ?W ''enum'' = jget (wire_enum le enum optional) ''enum''"
    using d unfolding w by (cases enum) (auto simp: jget_append wire_enum_def)
  from wire_enum_admits [OF this] schema_enum_Inr(2) [OF e]
  have "in_enum w ?W \<longleftrightarrow> enum_admits enum w \<or> optional \<and> w = Null" by blast
  moreover have "has_type w ?W \<longleftrightarrow>
      matches_type w (Str (head_type h)) \<or> (optional \<or> nullable) \<and> w = Null"
    using schema_type_Inr(2) [OF t] unfolding w by (intro wire_type_admits) auto
  ultimately show ?thesis
    using schema_type_Inr(3) [OF t] schema_enum_Inr(1) [OF e] by blast
qed

lemma matches_Null: "ty \<in> set SUPPORTED_TYPES \<Longrightarrow> matches_type Null (Str ty) \<longleftrightarrow> ty = ''null''"
  by (erule SUPPORTED_TYPES_cases) (simp_all add: matches_type_def is_plain_object_def)

lemma head_null_iff:
  assumes "compile_head le v path optional = Inr h"
  shows "head_null h \<longleftrightarrow> has_type Null (head_schema h) \<and> in_enum Null (head_schema h)"
    "head_type h \<in> set SUPPORTED_TYPES" "\<not> (optional \<and> head_null h)"
    "fst ` set (head_schema h) \<subseteq> set (allowed_keywords (head_type h))"
    "head_type h = ''object'' \<or> head_type h = ''array'' \<Longrightarrow> in_enum w (head_schema h)"
    "has_type w (head_schema h) \<Longrightarrow> w \<noteq> Null \<Longrightarrow> matches_type w (Str (head_type h))"
proof -
  from assms obtain nullable enum where
    t: "schema_type (jget (head_schema h) ''type'') (path @ ''.type'') = Inr (head_type h, nullable)" and
    e: "schema_enum (jget (head_schema h) ''enum'') (path @ ''.enum'') = Inr enum" and
    v: "\<And>vs. enum = Some vs \<Longrightarrow>
       validate_enum_types vs (head_type h) nullable (path @ ''.enum'') = None" and
    n: "head_null h \<longleftrightarrow> head_type h = ''null'' \<or> nullable \<and> enum_admits enum Null" and
    o: "\<not> (optional \<and> head_null h)" and
    k: "fst ` set (head_schema h) \<subseteq> set (allowed_keywords (head_type h))"
    by (rule compile_head_Inr) (rule that; assumption)
  have "enum_admits enum Null" if "head_type h = ''null''"
  proof (cases enum)
    case (Some vs)
    from v [OF this] schema_enum_Inr(2) [OF e Some] show ?thesis
      unfolding that by (auto simp: Some enum_admits_def intro: enum_null)
  qed (simp add: enum_admits_def)
  then show "head_null h \<longleftrightarrow> has_type Null (head_schema h) \<and> in_enum Null (head_schema h)"
    using n schema_type_Inr [OF t] schema_enum_Inr(1) [OF e] matches_Null by blast
  show "head_type h \<in> set SUPPORTED_TYPES" by (rule schema_type_Inr(1) [OF t])
  show "\<not> (optional \<and> head_null h)" by (rule o)
  show "fst ` set (head_schema h) \<subseteq> set (allowed_keywords (head_type h))" by (rule k)
  show "in_enum w (head_schema h)" if "head_type h = ''object'' \<or> head_type h = ''array''"
    using v [THEN enum_structure] that schema_enum_Inr(1) [OF e]
    by (cases enum) (auto simp: enum_admits_def)
  show "matches_type w (Str (head_type h))" if "has_type w (head_schema h)" "w \<noteq> Null"
    using that schema_type_Inr(3) [OF t] by blast
qed

subsection \<open>Primitive schemas\<close>

lemma jget_keyword_Undef:
  "fst ` set s \<subseteq> set (allowed_keywords ty) \<Longrightarrow> k \<notin> set (allowed_keywords ty) \<Longrightarrow> jget s k = Undef"
  by (rule jget_notin) blast

lemmas keyword_defs =
  allowed_keywords_def COMMON_KEYWORDS_def OBJECT_KEYWORDS_def ARRAY_KEYWORDS_def NUMERIC_KEYWORDS_def

lemma numeric_bound_Inr:
  "numeric_bound s path k = Inr b \<Longrightarrow> (\<forall>j. jget b j = (if j = k then jget s k else Undef)) \<and> fst ` set b \<subseteq> {k}"
  by (auto simp: numeric_bound_def split: js.splits)

lemma compile_numeric_bounds_Inr:
  assumes "compile_numeric_bounds s path wire = Inr W"
  obtains lo hi where "W = wire @ lo @ hi"
    "numeric_bound s path ''minimum'' = Inr lo" "numeric_bound s path ''maximum'' = Inr hi"
proof -
  from assms obtain lo hi where b: "numeric_bound s path ''minimum'' = Inr lo"
    "numeric_bound s path ''maximum'' = Inr hi"
    unfolding compile_numeric_bounds_def bind_res_Inr_iff by blast
  from b(1) have "lo = [] \<or> (\<exists>n. lo = [(''minimum'', Num n)])"
    by (auto simp: numeric_bound_def split: js.splits)
  moreover from b(2) have "hi = [] \<or> (\<exists>n. hi = [(''maximum'', Num n)])"
    by (auto simp: numeric_bound_def split: js.splits)
  ultimately have "W = wire @ lo @ hi"
    using assms b by (auto simp: compile_numeric_bounds_def split: if_splits)
  with b that show thesis by blast
qed


definition size_keys :: "string set" where
  "size_keys = {''minLength'', ''maxLength'', ''minItems'', ''maxItems'', ''minimum'', ''maximum''}"

lemma in_bounds_cong:
  "(\<And>k. k \<in> size_keys \<Longrightarrow> jget W k = jget s k) \<Longrightarrow> in_bounds w W = in_bounds w s"
  by (simp add: in_bounds_def above_def below_def size_keys_def split: js.split)

lemma in_bounds_free: "(\<And>k. k \<in> size_keys \<Longrightarrow> jget s k = Undef) \<Longrightarrow> in_bounds w s"
  by (simp add: in_bounds_def above_def below_def size_keys_def split: js.split)

lemma structure_in_bounds:
  assumes "compile_head le v path optional = Inr h" "head_type h = ''object'' \<or> head_type h = ''array''"
  shows "in_bounds w (head_schema h)"
    and "fst ` set x \<inter> size_keys = {} \<Longrightarrow> in_bounds w (head_wire h @ x)"
proof -
  show "in_bounds w (head_schema h)"
    using assms(2) by (intro in_bounds_free jget_keyword_Undef [OF head_null_iff(4) [OF assms(1)]])
      (auto simp: size_keys_def keyword_defs)
  assume x: "fst ` set x \<inter> size_keys = {}"
  have "jget (head_wire h @ x) k = Undef" if "k \<in> size_keys" for k
  proof -
    have "k \<notin> head_keys" using that by (auto simp: size_keys_def head_keys_def)
    moreover have "jget x k = Undef" using that x by (intro jget_notin) auto
    ultimately show ?thesis by (simp add: head_wire_other [OF assms(1)])
  qed
  then show "in_bounds w (head_wire h @ x)" by (rule in_bounds_free)
qed

lemma conforms_plain:
  "(\<And>xs. w \<noteq> Arr xs) \<Longrightarrow> (\<And>kv. w \<noteq> Obj kv) \<Longrightarrow>
   conforms w s \<longleftrightarrow> has_type w s \<and> in_enum w s \<and> in_bounds w s"
  by (subst conforms_simps) blast

lemma matches_plain:
  "ty \<in> set SUPPORTED_TYPES \<Longrightarrow> ty \<noteq> ''object'' \<Longrightarrow> ty \<noteq> ''array'' \<Longrightarrow>
   \<not> matches_type (Arr xs) (Str ty) \<and> \<not> matches_type (Obj kv) (Str ty)"
  by (erule SUPPORTED_TYPES_cases) (simp_all add: matches_type_def)

lemma conforms_has_type: "conforms w s \<Longrightarrow> has_type w s \<and> in_enum w s"
  by (erule conformsE) blast

text \<open>A primitive schema's wire form admits what the schema admits, and null where optional.\<close>

lemma plain_wire:
  assumes h: "compile_head le v path optional = Inr h"
    and ty: "head_type h \<noteq> ''object''" "head_type h \<noteq> ''array''"
    and x: "fst ` set x \<inter> head_keys = {}"
    and b: "\<And>k. k \<in> size_keys \<Longrightarrow> jget x k = jget (head_schema h) k"
  shows "conforms w (head_wire h @ x) \<longleftrightarrow> conforms w (head_schema h) \<or> optional \<and> w = Null"
proof -
  note adm = head_admits [OF h x]
  have bounds: "in_bounds u (head_wire h @ x) = in_bounds u (head_schema h)" for u
  proof (rule in_bounds_cong)
    fix k assume k: "k \<in> size_keys"
    then have "k \<notin> head_keys" by (auto simp: size_keys_def head_keys_def)
    with b [OF k] show "jget (head_wire h @ x) k = jget (head_schema h) k"
      by (simp add: head_wire_other [OF h])
  qed
  have no: "\<not> has_type u (head_schema h)" if "(\<exists>xs. u = Arr xs) \<or> (\<exists>kv. u = Obj kv)" for u
    using that matches_plain [OF head_null_iff(2) [OF h] ty] head_null_iff(6) [OF h, of u] by blast
  show ?thesis
  proof (cases "(\<exists>xs. w = Arr xs) \<or> (\<exists>kv. w = Obj kv)")
    case True
    with no [OF True] adm [of w] show ?thesis
      by (metis conforms_has_type js.distinct)
  next
    case False
    then have p: "\<And>xs. w \<noteq> Arr xs" "\<And>kv. w \<noteq> Obj kv" by blast+
    have "in_bounds Null s" for s by (simp add: in_bounds_def)
    then show ?thesis
      using adm [of w] bounds [of w] unfolding conforms_plain [OF p] by blast
  qed
qed

subsection \<open>Values JSON.parse yields\<close>

primrec json :: "js \<Rightarrow> bool" where
  "json Undef = False"
| "json Null = True"
| "json (Bool b) = True"
| "json (Num n) = True"
| "json (Str s) = True"
| "json (Arr xs) = list_all (\<lambda>b. b) (map json xs)"
| "json (Obj kv) =
     (distinct (map fst kv) \<and> list_all (\<lambda>p. snd p) (map (map_prod (\<lambda>k. k) json) kv))"

lemma json_Arr [simp]: "json (Arr xs) \<longleftrightarrow> (\<forall>x \<in> set xs. json x)"
  by (simp add: list_all_iff)

lemma json_Obj [simp]: "json (Obj kv) \<longleftrightarrow> distinct (map fst kv) \<and> (\<forall>(k, w) \<in> set kv. json w)"
  by (auto simp: list_all_iff)

declare json.simps(6,7) [simp del]

text \<open>
  What a compilation must give: restoring takes every value of the wire schema to a value of
  the caller's schema, and reaches each of those.
\<close>

definition codec_sound :: "bool \<Rightarrow> schema \<Rightarrow> compiled \<Rightarrow> bool" where
  "codec_sound optional s c \<longleftrightarrow>
     (\<forall>w p. json w \<longrightarrow> conforms w (wireSchema c) \<longrightarrow> \<not> (optional \<and> w = Null) \<longrightarrow>
        (\<exists>r. restore_value w (compiled_plan c) p = Inr r \<and> json r \<and> conforms r s \<and> (r = Null \<longleftrightarrow> w = Null)))"

definition codec_complete :: "bool \<Rightarrow> schema \<Rightarrow> compiled \<Rightarrow> bool" where
  "codec_complete optional s c \<longleftrightarrow>
     (\<forall>r. json r \<longrightarrow> conforms r s \<longrightarrow>
        (\<exists>w. json w \<and> conforms w (wireSchema c) \<and> (w = Null \<longleftrightarrow> r = Null) \<and>
             (\<forall>p. restore_value w (compiled_plan c) p = Inr r)))"

lemma plain_codec:
  assumes "\<And>w. conforms w (wireSchema c) \<longleftrightarrow> conforms w s \<or> optional \<and> w = Null"
    and "compiled_plan c = Plan_Value"
  shows "codec_sound optional s c" "codec_complete optional s c"
  using assms by (auto simp: codec_sound_def codec_complete_def restore_value.simps)


subsection \<open>Arrays\<close>

lemma map_res_ex:
  "(\<forall>z \<in> set zs. \<exists>r. f z = Inr r \<and> Q r) \<Longrightarrow> \<exists>ys. map_res f zs = Inr ys \<and> (\<forall>y \<in> set ys. Q y)"
  by (induction zs) force+

lemma list_all2_ex: "(\<forall>r \<in> set ys. \<exists>w. P w r) \<Longrightarrow> \<exists>ws. list_all2 P ws ys"
  by (induction ys) (auto simp: list_all2_Cons2)

lemma map_res_indexed:
  assumes "list_all2 (\<lambda>w r. \<forall>p. f w p = Inr r) ws ys"
  shows "map_res (\<lambda>(x, i). f x (g i)) (zip ws [0..<length ws]) = Inr ys"
  using assms by (auto simp: map_res_Inr_iff list_all2_conv_all_nth)

lemma matches_array: "matches_type w (Str ''array'') \<longleftrightarrow> (\<exists>xs. w = Arr xs)"
  by (cases w) (simp_all add: matches_type_def)

lemma matches_object: "matches_type w (Str ''object'') \<longleftrightarrow> (\<exists>kv. w = Obj kv)"
  by (cases w) (simp_all add: matches_type_def is_plain_object_def)

lemma restore_array:
  "restore_value (Arr xs) (Plan_Array a p) path =
     bind_res (map_res (\<lambda>(x, i). restore_value x p (item_path path i)) (zip xs [0..<length xs]))
       (\<lambda>ys. Inr (Arr ys))"
  by (subst restore_value.simps) simp

lemma restore_null:
  "restore_value Null (Plan_Array True p) path = Inr Null"
  "restore_value Null (Plan_Object True es) path = Inr Null"
  by (simp_all add: restore_value.simps [of Null])

lemma array_wire:
  assumes h: "compile_head le v path optional = Inr h" and ty: "head_type h = ''array''"
    and W: "W = head_wire h @ [(''items'', Obj wi)]" and it: "jget (head_schema h) ''items'' = Obj it"
  shows "conforms w W \<longleftrightarrow> (optional \<or> head_null h) \<and> w = Null \<or>
      (\<exists>xs. w = Arr xs \<and> has_type w (head_schema h) \<and> (\<forall>x \<in> set xs. conforms x wi))" (is ?wire)
    and "conforms w (head_schema h) \<longleftrightarrow> head_null h \<and> w = Null \<or>
      (\<exists>xs. w = Arr xs \<and> has_type w (head_schema h) \<and> (\<forall>x \<in> set xs. conforms x it))" (is ?orig)
proof -
  have adm: "has_type u W \<and> in_enum u W \<longleftrightarrow>
      has_type u (head_schema h) \<and> in_enum u (head_schema h) \<or> optional \<and> u = Null" for u
    unfolding W by (rule head_admits [OF h]) (auto simp: head_keys_def)
  have bounds: "in_bounds u (head_schema h)" "in_bounds u W" for u
    using structure_in_bounds(1) [OF h] structure_in_bounds(2) [OF h, of "[(''items'', Obj wi)]"] ty
    unfolding W by (auto simp: size_keys_def)
  have items: "jget W ''items'' = Obj wi"
    unfolding W by (subst head_wire_other [OF h]) (auto simp: head_keys_def)
  have enum: "in_enum u (head_schema h)" for u
    using head_null_iff(5) [OF h] ty by blast
  have null: "head_null h \<longleftrightarrow> has_type Null (head_schema h)"
    using head_null_iff(1) [OF h] enum by blast
  have shape: "w = Null \<or> (\<exists>xs. w = Arr xs)" if "has_type w (head_schema h)"
    using head_null_iff(6) [OF h that] ty matches_array by auto
  have plain: "conforms Null s \<longleftrightarrow> has_type Null s \<and> in_enum Null s \<and> in_bounds Null s" for s
    by (rule conforms_plain) simp_all
  have arr: "conforms (Arr xs) W \<longleftrightarrow> has_type (Arr xs) (head_schema h) \<and> (\<forall>x \<in> set xs. conforms x wi)" for xs
    using adm [of "Arr xs"] bounds(2) [of "Arr xs"] enum [of "Arr xs"] unfolding conforms_Arr
    by (auto simp: items)
  have arr': "conforms (Arr xs) (head_schema h) \<longleftrightarrow>
      has_type (Arr xs) (head_schema h) \<and> (\<forall>x \<in> set xs. conforms x it)" for xs
    using bounds(1) [of "Arr xs"] enum [of "Arr xs"] unfolding conforms_Arr by (auto simp: it)
  show ?wire
  proof (cases "\<exists>xs. w = Arr xs")
    case True then show ?thesis using arr by auto
  next
    case False
    with shape adm [of w] have "has_type w W \<and> in_enum w W \<Longrightarrow> w = Null" by blast
    with False adm [of Null] bounds(2) [of Null] plain [of W] null enum [of Null] show ?thesis
      by (metis conforms_has_type)
  qed
  show ?orig
  proof (cases "\<exists>xs. w = Arr xs")
    case True then show ?thesis using arr' by auto
  next
    case False
    with shape have "has_type w (head_schema h) \<Longrightarrow> w = Null" by blast
    with False bounds(1) [of Null] plain [of "head_schema h"] null enum [of Null] show ?thesis
      by (metis conforms_has_type)
  qed
qed

lemma has_type_array: "has_type (Arr xs) s \<Longrightarrow> has_type (Arr ys) s"
proof -
  have "matches_type (Arr xs) t = matches_type (Arr ys) t" for t
    by (simp add: matches_type_def is_plain_object_def)
  then show "has_type (Arr xs) s \<Longrightarrow> has_type (Arr ys) s"
    by (simp add: has_type_def split: option.splits)
qed

lemma array_codec:
  assumes h: "compile_head le v path optional = Inr h" and ty: "head_type h = ''array''"
    and it: "jget (head_schema h) ''items'' = Obj it"
    and c: "wireSchema c = head_wire h @ [(''items'', Obj (wireSchema ci))]"
      "compiled_plan c = Plan_Array (head_null h) (compiled_plan ci)"
    and IH: "codec_sound False it ci" "codec_complete False it ci"
  shows "codec_sound optional (head_schema h) c" "codec_complete optional (head_schema h) c"
proof -
  note wire = array_wire(1) [OF h ty c(1) it] and orig = array_wire(2) [OF h ty c(1) it]
  show "codec_sound optional (head_schema h) c"
    unfolding codec_sound_def
  proof (intro allI impI)
    fix w p assume w: "json w" "conforms w (wireSchema c)" "\<not> (optional \<and> w = Null)"
    from w(2,3) consider "w = Null" "head_null h"
      | xs where "w = Arr xs" "has_type w (head_schema h)" "\<forall>x \<in> set xs. conforms x (wireSchema ci)"
      unfolding wire by blast
    then show "\<exists>r. restore_value w (compiled_plan c) p = Inr r \<and> json r \<and>
        conforms r (head_schema h) \<and> (r = Null) = (w = Null)"
    proof cases
      case 1
      then show ?thesis by (simp add: c(2) restore_null orig)
    next
      case (2 xs)
      let ?f = "\<lambda>(x, i). restore_value x (compiled_plan ci) (item_path p i)"
      have "\<forall>z \<in> set (zip xs [0..<length xs]). \<exists>r. ?f z = Inr r \<and> json r \<and> conforms r it"
        using IH(1) w(1) 2 by (fastforce simp: codec_sound_def dest: set_zip_leftD)
      from map_res_ex [OF this] obtain ys where ys:
        "map_res ?f (zip xs [0..<length xs]) = Inr ys" "\<forall>y \<in> set ys. json y \<and> conforms y it"
        by blast
      have "conforms (Arr ys) (head_schema h)"
        using ys(2) has_type_array [of xs _ ys] 2 unfolding orig by blast
      with ys show ?thesis by (simp add: c(2) 2(1) restore_array)
    qed
  qed
  show "codec_complete optional (head_schema h) c"
    unfolding codec_complete_def
  proof (intro allI impI)
    fix r assume r: "json r" "conforms r (head_schema h)"
    from r(2) consider "r = Null" "head_null h"
      | ys where "r = Arr ys" "has_type r (head_schema h)" "\<forall>y \<in> set ys. conforms y it"
      unfolding orig by blast
    then show "\<exists>w. json w \<and> conforms w (wireSchema c) \<and> (w = Null) = (r = Null) \<and>
        (\<forall>p. restore_value w (compiled_plan c) p = Inr r)"
    proof cases
      case 1
      then show ?thesis by (intro exI [of _ Null]) (simp add: c(2) restore_null wire)
    next
      case (2 ys)
      let ?P = "\<lambda>w y. json w \<and> conforms w (wireSchema ci) \<and>
          (\<forall>p. restore_value w (compiled_plan ci) p = Inr y)"
      have "\<forall>y \<in> set ys. \<exists>w. ?P w y"
        using IH(2) r(1) 2 by (auto simp: codec_complete_def)
      from list_all2_ex [OF this] obtain ws where ws: "list_all2 ?P ws ys" by blast
      then have all: "\<forall>w \<in> set ws. json w \<and> conforms w (wireSchema ci)"
        by (auto simp: list_all2_conv_all_nth in_set_conv_nth)
      have "list_all2 (\<lambda>w y. \<forall>p. restore_value w (compiled_plan ci) p = Inr y) ws ys"
        using ws by (rule list_all2_mono) blast
      note m = map_res_indexed [OF this]
      have "conforms (Arr ws) (wireSchema c)"
        using all has_type_array [of ys _ ws] 2 unfolding wire by blast
      with all m show ?thesis
        by (intro exI [of _ "Arr ws"]) (simp add: c(2) 2(1) restore_array)
    qed
  qed
qed


subsection \<open>Objects\<close>

definition kept ::
  "(string \<Rightarrow> bool) \<Rightarrow> (string \<Rightarrow> js \<Rightarrow> js) \<Rightarrow> string list \<Rightarrow> string \<times> js \<Rightarrow> (string \<times> js) list" where
  "kept om g ns = (\<lambda>(k, w). if k \<in> set ns then (if om k \<and> w = Null then [] else [(k, g k w)]) else [(k, w)])"

lemma concat_map_filter:
  "(\<And>x. x \<in> set xs \<Longrightarrow> if P x then f x = g x else g x = []) \<Longrightarrow>
   concat (map f (filter P xs)) = concat (map g xs)"
  by (induction xs) (auto split: if_splits)

lemma update_distinct_map:
  "distinct (map fst kv) \<Longrightarrow> n \<in> fst ` set kv \<Longrightarrow>
   AList.update n v kv = map (\<lambda>(k, w). (k, if k = n then v else w)) kv"
proof (induction kv)
  case (Cons e kv)
  then show ?case
    by (cases e) (auto simp: image_iff intro!: map_idI [symmetric])
qed simp

lemma jget_distinct: "distinct (map fst kv) \<Longrightarrow> (k, w) \<in> set kv \<Longrightarrow> jget kv k = w"
  by (simp add: jget_def)

lemma jget_Undef_iff:
  assumes "json (Obj kv)"
  shows "jget kv k = Undef \<longleftrightarrow> k \<notin> fst ` set kv"
proof (cases "map_of kv k")
  case None
  then have "k \<notin> fst ` set kv" by (simp add: map_of_eq_None_iff)
  with None show ?thesis by (simp add: jget_def)
next
  case (Some w)
  then have "(k, w) \<in> set kv" by (rule map_of_SomeD)
  with assms Some show ?thesis by (force simp: jget_def)
qed

lemma restore_entries_eq:
  assumes "distinct ns" "distinct (map fst kv)"
    and "\<And>k w. (k, w) \<in> set kv \<Longrightarrow> k \<in> set ns \<Longrightarrow> \<not> (om k \<and> w = Null) \<Longrightarrow>
           f w (pl k) (value_property_path path k) = Inr (g k w)"
  shows "restore_entries f path (map (\<lambda>n. (n, om n, pl n)) ns) kv = Inr (concat (map (kept om g ns) kv))"
  using assms
proof (induction ns arbitrary: kv)
  case Nil
  have "concat (map (kept om g []) kv) = kv"
    by (induction kv) (auto simp: kept_def)
  then show ?case by simp
next
  case (Cons n ns)
  note dk = Cons.prems(2)
  have n: "n \<notin> set ns" "distinct ns" using Cons.prems(1) by simp_all
  consider "n \<notin> fst ` set kv" | "n \<in> fst ` set kv" "om n" "jget kv n = Null"
    | "n \<in> fst ` set kv" "\<not> (om n \<and> jget kv n = Null)" by blast
  then show ?case
  proof cases
    case 1
    have "restore_entries f path (map (\<lambda>n. (n, om n, pl n)) ns) kv = Inr (concat (map (kept om g ns) kv))"
      by (rule Cons.IH [OF n(2) dk]) (use Cons.prems(3) in auto)
    moreover have "map (kept om g ns) kv = map (kept om g (n # ns)) kv"
      using 1 by (auto simp: kept_def image_iff)
    ultimately show ?thesis using 1 by simp
  next
    case 2
    let ?kv = "filter (\<lambda>e. fst e \<noteq> n) kv"
    have "restore_entries f path (map (\<lambda>n. (n, om n, pl n)) ns) ?kv = Inr (concat (map (kept om g ns) ?kv))"
      by (rule Cons.IH [OF n(2) distinct_keys_filter [OF dk]]) (use Cons.prems(3) in auto)
    moreover have "concat (map (kept om g ns) ?kv) = concat (map (kept om g (n # ns)) kv)"
    proof (rule concat_map_filter)
      fix e assume e: "e \<in> set kv"
      show "if fst e \<noteq> n then kept om g ns e = kept om g (n # ns) e else kept om g (n # ns) e = []"
        using 2 jget_distinct [OF dk, of "fst e" "snd e"] e by (cases e) (auto simp: kept_def)
    qed
    ultimately show ?thesis using 2 by simp
  next
    case 3
    let ?v = "g n (jget kv n)"
    let ?kv = "map (\<lambda>(k, w). (k, if k = n then ?v else w)) kv"
    from 3(1) obtain w where w: "(n, w) \<in> set kv" by auto
    have f: "f (jget kv n) (pl n) (value_property_path path n) = Inr ?v"
      using Cons.prems(3) [OF w] 3(2) jget_distinct [OF dk w] by simp
    have "map fst ?kv = map fst kv" by (auto simp: case_prod_beta)
    with dk have "distinct (map fst ?kv)" by (simp only:)
    then have "restore_entries f path (map (\<lambda>n. (n, om n, pl n)) ns) ?kv = Inr (concat (map (kept om g ns) ?kv))"
    proof (rule Cons.IH [OF n(2)])
      fix k u assume "(k, u) \<in> set ?kv" "k \<in> set ns" "\<not> (om k \<and> u = Null)"
      with n(1) show "f u (pl k) (value_property_path path k) = Inr (g k u)"
        by (intro Cons.prems(3)) (auto split: if_splits)
    qed
    moreover have "map (kept om g ns) ?kv = map (kept om g (n # ns)) kv"
    proof (simp only: map_map comp_def, rule map_cong [OF refl])
      fix e assume e: "e \<in> set kv"
      show "kept om g ns (case e of (k, w) \<Rightarrow> (k, if k = n then ?v else w)) = kept om g (n # ns) e"
        using 3(2) n(1) jget_distinct [OF dk, of "fst e" "snd e"] e by (cases e) (auto simp: kept_def)
    qed
    moreover have "restore_entries f path (map (\<lambda>n. (n, om n, pl n)) (n # ns)) kv =
        restore_entries f path (map (\<lambda>n. (n, om n, pl n)) ns) ?kv"
      using 3 by (simp only: list.map restore_entries.simps f bind_res_simps
          update_distinct_map [OF dk 3(1), symmetric] if_False not_True_eq_False simp_thms)
    ultimately show ?thesis by (simp only:)
  qed
qed

text \<open>An object schema that names its properties and is closed to others.\<close>

lemma conforms_object:
  assumes "json (Obj kv)" and "jget s ''additionalProperties'' = Bool False"
    and "\<And>k. property_schema s k = (if k \<in> N then Some (ch k) else None)"
    and "has_required kv s \<longleftrightarrow> (\<forall>n \<in> R. jget kv n \<noteq> Undef)"
    and "in_enum (Obj kv) s" "in_bounds (Obj kv) s"
  shows "conforms (Obj kv) s \<longleftrightarrow> has_type (Obj kv) s \<and> R \<subseteq> fst ` set kv \<and>
           (\<forall>(k, w) \<in> set kv. k \<in> N \<and> conforms w (ch k))"
proof -
  have u: "w \<noteq> Undef" if "(k, w) \<in> set kv" for k w
    using assms(1) that by auto
  have rq: "has_required kv s \<longleftrightarrow> R \<subseteq> fst ` set kv"
    unfolding assms(4) using jget_Undef_iff [OF assms(1)] by blast
  have cl: "closed_to kv s \<longleftrightarrow> (\<forall>(k, w) \<in> set kv. k \<in> N)"
  proof -
    have "property_schema s k \<noteq> None \<longleftrightarrow> k \<in> N" for k by (simp add: assms(3))
    then have "closed_to kv s \<longleftrightarrow> (\<forall>(k, w) \<in> set kv. w \<noteq> Undef \<longrightarrow> k \<in> N)"
      by (simp only: closed_to_def assms(2) simp_thms)
    also have "\<dots> \<longleftrightarrow> (\<forall>(k, w) \<in> set kv. k \<in> N)" using u by fast
    finally show ?thesis .
  qed
  have en: "(\<forall>k w. (k, w) \<in> set kv \<longrightarrow> w \<noteq> Undef \<longrightarrow>
        (\<forall>c. property_schema s k = Some c \<longrightarrow> conforms w c))
      \<longleftrightarrow> (\<forall>(k, w) \<in> set kv. k \<in> N \<longrightarrow> conforms w (ch k))"
  proof -
    have ps: "property_schema s k = Some c \<longleftrightarrow> k \<in> N \<and> c = ch k" for k c by (auto simp: assms(3))
    show ?thesis unfolding ps by (auto dest: u)
  qed
  show ?thesis
    unfolding conforms_Obj rq cl en using assms(5,6) by auto
qed


definition codec_ok :: "bool \<Rightarrow> schema \<Rightarrow> compiled \<Rightarrow> bool" where
  "codec_ok optional s c \<longleftrightarrow> codec_sound optional s c \<and> codec_complete optional s c \<and>
     (acceptsNull c \<longleftrightarrow> conforms Null s) \<and>
     (optional \<longrightarrow> conforms Null (wireSchema c) \<and> \<not> acceptsNull c)"

lemma codec_okI:
  assumes h: "compile_head le v path optional = Inr h"
    and "codec_sound optional (head_schema h) c" "codec_complete optional (head_schema h) c"
    and "wireSchema c = head_wire h @ x" "fst ` set x \<inter> head_keys = {}" "acceptsNull c = head_null h"
  shows "codec_ok optional (head_schema h) c"
proof -
  have null: "conforms Null s \<longleftrightarrow> has_type Null s \<and> in_enum Null s" for s
    using conforms_plain [of Null s] by (simp add: in_bounds_def)
  have "acceptsNull c \<longleftrightarrow> conforms Null (head_schema h)"
    unfolding null assms(6) by (rule head_null_iff(1) [OF h])
  moreover have "conforms Null (wireSchema c)" if optional
    using head_admits [OF h assms(5), of Null] that unfolding null assms(4) by blast
  moreover have "\<not> acceptsNull c" if optional
    using head_null_iff(3) [OF h] that assms(6) by blast
  ultimately show ?thesis
    using assms(2,3) unfolding codec_ok_def by blast
qed

text \<open>The children an object compiles, one per property in the order of the names.\<close>

definition wire_entries :: "(string \<Rightarrow> compiled) \<Rightarrow> string list \<Rightarrow> schema" where
  "wire_entries cn names = map (\<lambda>n. (n, Obj (wireSchema (cn n)))) names"

definition plan_entries ::
  "(string \<Rightarrow> compiled) \<Rightarrow> string list \<Rightarrow> string list \<Rightarrow> (string \<times> bool \<times> restoration_plan) list" where
  "plan_entries cn req names = map (\<lambda>n. (n, n \<notin> set req, compiled_plan (cn n))) names"

definition object_wire :: "(string \<Rightarrow> compiled) \<Rightarrow> string list \<Rightarrow> schema" where
  "object_wire cn names =
     [(''properties'', Obj (wire_entries cn names)), (''required'', Arr (map Str names)),
      (''additionalProperties'', Bool False)]"

lemma object_wire_keys:
  "fst ` set (object_wire cn names) \<inter> head_keys = {}"
  "fst ` set (object_wire cn names) \<inter> size_keys = {}"
  by (auto simp: object_wire_def head_keys_def size_keys_def)

lemma map_of_names: "map_of (map (\<lambda>n. (n, f n)) ns) k = (if k \<in> set ns then Some (f k) else None)"
  by (induction ns) auto

lemma has_type_object: "has_type (Obj kv) s \<Longrightarrow> has_type (Obj kv') s"
proof -
  have "matches_type (Obj kv) t = matches_type (Obj kv') t" for t
    by (simp add: matches_type_def is_plain_object_def)
  then show "has_type (Obj kv) s \<Longrightarrow> has_type (Obj kv') s"
    by (simp add: has_type_def split: option.splits)
qed

lemma object_wire_conforms:
  assumes h: "compile_head le v path optional = Inr h" and ty: "head_type h = ''object''"
    and W: "W = head_wire h @ object_wire cn names" and j: "json (Obj kv)"
  shows "conforms (Obj kv) W \<longleftrightarrow> has_type (Obj kv) (head_schema h) \<and> set names \<subseteq> fst ` set kv \<and>
      (\<forall>(k, w) \<in> set kv. k \<in> set names \<and> conforms w (wireSchema (cn k)))"
proof -
  have adm: "has_type (Obj kv) W \<and> in_enum (Obj kv) W \<longleftrightarrow> has_type (Obj kv) (head_schema h)"
    using head_admits [OF h object_wire_keys(1)] head_null_iff(5) [OF h] ty unfolding W by blast
  have look: "jget W k = jget (object_wire cn names) k" if "k \<notin> head_keys" for k
    unfolding W by (rule head_wire_other [OF h that])
  have props: "property_schema W k = (if k \<in> set names then Some (wireSchema (cn k)) else None)" for k
  proof -
    have "jget W ''properties'' = Obj (wire_entries cn names)"
      by (subst look) (simp_all add: head_keys_def object_wire_def)
    then show ?thesis
      by (simp add: property_schema_def declared_properties_def jget_def wire_entries_def map_of_names)
  qed
  have req: "has_required kv W \<longleftrightarrow> (\<forall>n \<in> set names. jget kv n \<noteq> Undef)"
  proof -
    have "jget W ''required'' = Arr (map Str names)"
      by (subst look) (simp_all add: head_keys_def object_wire_def)
    then show ?thesis by (auto simp: has_required_def)
  qed
  have closed: "jget W ''additionalProperties'' = Bool False"
    by (subst look) (simp_all add: head_keys_def object_wire_def)
  have bounds: "in_bounds (Obj kv) W"
    using structure_in_bounds(2) [OF h _ object_wire_keys(2)] ty unfolding W by blast
  show ?thesis
  proof (cases "in_enum (Obj kv) W")
    case True
    from conforms_object [OF j closed props req True bounds] adm True show ?thesis by blast
  next
    case False
    with adm conforms_has_type [of "Obj kv" W] show ?thesis by blast
  qed
qed


lemma object_orig_conforms:
  assumes h: "compile_head le v path optional = Inr h" and ty: "head_type h = ''object''"
    and closed: "jget (head_schema h) ''additionalProperties'' = Bool False"
    and props: "jget (head_schema h) ''properties'' = Obj ps" "\<And>n. n \<in> set names \<longleftrightarrow> n \<in> fst ` set ps"
      "\<forall>n \<in> set names. jget ps n = Obj (ch n)"
    and req: "\<And>kv. has_required kv (head_schema h) \<longleftrightarrow> (\<forall>n \<in> set req. jget kv n \<noteq> Undef)"
    and j: "json (Obj kv)"
  shows "conforms (Obj kv) (head_schema h) \<longleftrightarrow>
      has_type (Obj kv) (head_schema h) \<and> set req \<subseteq> fst ` set kv \<and>
      (\<forall>(k, w) \<in> set kv. k \<in> set names \<and> conforms w (ch k))"
proof (rule conforms_object [OF j closed _ req])
  fix k
  show "property_schema (head_schema h) k = (if k \<in> set names then Some (ch k) else None)"
  proof (cases "k \<in> set names")
    case True
    with props(3) [THEN bspec, OF True] show ?thesis
      by (simp add: property_schema_def declared_properties_def props(1))
  next
    case False
    with props(2) have "jget ps k = Undef" by (intro jget_notin) simp
    with False show ?thesis
      by (simp add: property_schema_def declared_properties_def props(1))
  qed
  show "in_enum (Obj kv) (head_schema h)" using head_null_iff(5) [OF h] ty by blast
  show "in_bounds (Obj kv) (head_schema h)" using structure_in_bounds(1) [OF h] ty by blast
qed

text \<open>Neither form of an object schema admits anything but objects and, where it may be, null.\<close>

lemma structure_values:
  assumes h: "compile_head le v path optional = Inr h" and ty: "head_type h = ''object''"
    and x: "fst ` set x \<inter> head_keys = {}"
  shows "conforms w (head_schema h) \<Longrightarrow> w = Null \<and> head_null h \<or> (\<exists>kv. w = Obj kv)"
    "conforms w (head_wire h @ x) \<Longrightarrow> w = Null \<and> (optional \<or> head_null h) \<or> (\<exists>kv. w = Obj kv)"
proof -
  have s: "w = Null \<and> head_null h \<or> (\<exists>kv. w = Obj kv)"
    if "has_type w (head_schema h)" "in_enum w (head_schema h)"
    using head_null_iff(1,6) [OF h] that ty matches_object by metis
  then show "conforms w (head_schema h) \<Longrightarrow> w = Null \<and> head_null h \<or> (\<exists>kv. w = Obj kv)"
    using conforms_has_type by blast
  show "conforms w (head_wire h @ x) \<Longrightarrow> w = Null \<and> (optional \<or> head_null h) \<or> (\<exists>kv. w = Obj kv)"
    using conforms_has_type head_admits [OF h x, of w] s by blast
qed

lemma restore_object:
  "restore_value (Obj kv) (Plan_Object a es) path =
     bind_res (restore_entries restore_value path es kv) (\<lambda>kv'. Inr (Obj kv'))"
  by (subst restore_value.simps) simp

lemma concat_map_keys:
  assumes "distinct (map fst kv)"
    and "\<And>e. e \<in> set kv \<Longrightarrow> f e = [] \<or> (\<exists>v. f e = [(fst e, v)])"
  shows "distinct (map fst (concat (map f kv)))"
    and "fst ` set (concat (map f kv)) \<subseteq> fst ` set kv"
proof -
  have "distinct (map fst (concat (map f kv))) \<and> fst ` set (concat (map f kv)) \<subseteq> fst ` set kv"
    using assms
  proof (induction kv)
    case (Cons e kv)
    define c where "c = concat (map f kv)"
    have ih: "distinct (map fst c) \<and> fst ` set c \<subseteq> fst ` set kv"
      unfolding c_def using Cons.prems by (intro Cons.IH) simp_all
    have fresh: "fst e \<notin> fst ` set kv" using Cons.prems(1) by simp
    from Cons.prems(2) [of e] have fe: "f e = [] \<or> (\<exists>v. f e = [(fst e, v)])" by simp
    have eq: "concat (map f (e # kv)) = f e @ c" by (simp add: c_def)
    show ?case unfolding eq using ih fresh fe by (fastforce simp: image_subset_iff)
  qed simp
  then show "distinct (map fst (concat (map f kv)))"
    and "fst ` set (concat (map f kv)) \<subseteq> fst ` set kv" by blast+
qed

lemma object_sound:
  assumes h: "compile_head le v path optional = Inr h" and ty: "head_type h = ''object''"
    and closed: "jget (head_schema h) ''additionalProperties'' = Bool False"
    and props: "jget (head_schema h) ''properties'' = Obj ps" "\<And>n. n \<in> set names \<longleftrightarrow> n \<in> fst ` set ps"
      "\<forall>n \<in> set names. jget ps n = Obj (ch n)"
    and req: "\<And>kv. has_required kv (head_schema h) \<longleftrightarrow> (\<forall>n \<in> set req. jget kv n \<noteq> Undef)"
    and names: "distinct names" "set req \<subseteq> set names"
    and c: "wireSchema c = head_wire h @ object_wire cn names"
      "compiled_plan c = Plan_Object (head_null h) (plan_entries cn req names)"
    and IH: "\<And>n. n \<in> set names \<Longrightarrow> codec_ok (n \<notin> set req) (ch n) (cn n)"
  shows "codec_sound optional (head_schema h) c"
  unfolding codec_sound_def
proof (intro allI impI)
  note orig = object_orig_conforms [OF h ty closed props req]
  fix w p assume w: "json w" "conforms w (wireSchema c)" "\<not> (optional \<and> w = Null)"
  from structure_values(2) [OF h ty object_wire_keys(1) w(2) [unfolded c(1)]] w(3)
  consider "w = Null" "head_null h" | kv where "w = Obj kv" by blast
  then show "\<exists>r. restore_value w (compiled_plan c) p = Inr r \<and> json r \<and>
      conforms r (head_schema h) \<and> (r = Null) = (w = Null)"
  proof cases
    case 1
    moreover from 1(2) head_null_iff(1) [OF h] conforms_plain [of Null "head_schema h"]
    have "conforms Null (head_schema h)" by (simp add: in_bounds_def)
    ultimately show ?thesis by (simp add: c(2) restore_null)
  next
    case (2 kv)
    from w(1) 2 have j: "json (Obj kv)" by simp
    from w(2) 2 have wire: "has_type (Obj kv) (head_schema h)" "set names \<subseteq> fst ` set kv"
      "\<And>k u. (k, u) \<in> set kv \<Longrightarrow> k \<in> set names \<and> conforms u (wireSchema (cn k))"
      using object_wire_conforms [OF h ty c(1) j] by auto
    let ?om = "\<lambda>k. k \<notin> set req"
    define g where "g k u = projr (restore_value u (compiled_plan (cn k)) (value_property_path p k))" for k u
    have g: "restore_value u (compiled_plan (cn k)) (value_property_path p k) = Inr (g k u) \<and>
        json (g k u) \<and> conforms (g k u) (ch k)"
      if ku: "(k, u) \<in> set kv" "\<not> (?om k \<and> u = Null)" for k u
    proof -
      from IH [of k] wire(3) [OF ku(1)] have "codec_sound (?om k) (ch k) (cn k)"
        by (simp add: codec_ok_def)
      moreover have "json u" using j ku(1) by auto
      ultimately obtain r where
        "restore_value u (compiled_plan (cn k)) (value_property_path p k) = Inr r" "json r" "conforms r (ch k)"
        using wire(3) [OF ku(1)] ku(2) unfolding codec_sound_def by blast
      then show ?thesis by (simp add: g_def)
    qed
    let ?kv = "concat (map (kept ?om g names) kv)"
    have "restore_entries restore_value p (plan_entries cn req names) kv = Inr ?kv"
      unfolding plan_entries_def using j g by (intro restore_entries_eq names(1)) auto
    then have res: "restore_value w (compiled_plan c) p = Inr (Obj ?kv)"
      by (simp add: c(2) 2 restore_object)
    have form: "kept ?om g names e = [] \<or> (\<exists>v. kept ?om g names e = [(fst e, v)])" if "e \<in> set kv" for e
      by (cases e) (auto simp: kept_def)
    have mem: "\<exists>u. (k, u) \<in> set kv \<and> \<not> (?om k \<and> u = Null) \<and> x = g k u" if "(k, x) \<in> set ?kv" for k x
      using that wire(3) by (auto simp: kept_def split: if_splits)
    have keys: "k \<in> fst ` set ?kv" if k: "k \<in> set req" for k
    proof -
      from k names(2) wire(2) obtain u where "(k, u) \<in> set kv" by fastforce
      moreover from this wire(3) k have "(k, g k u) \<in> set (kept ?om g names (k, u))"
        by (auto simp: kept_def)
      ultimately show ?thesis by force
    qed
    have jr: "json (Obj ?kv)"
      using j concat_map_keys(1) [OF _ form] mem g unfolding json_Obj by blast
    have "conforms (Obj ?kv) (head_schema h)"
      unfolding orig [OF jr]
      using has_type_object [OF wire(1)] keys mem g wire(3) by blast
    with res jr 2 show ?thesis by simp
  qed
qed


lemma object_complete:
  assumes h: "compile_head le v path optional = Inr h" and ty: "head_type h = ''object''"
    and closed: "jget (head_schema h) ''additionalProperties'' = Bool False"
    and props: "jget (head_schema h) ''properties'' = Obj ps" "\<And>n. n \<in> set names \<longleftrightarrow> n \<in> fst ` set ps"
      "\<forall>n \<in> set names. jget ps n = Obj (ch n)"
    and req: "\<And>kv. has_required kv (head_schema h) \<longleftrightarrow> (\<forall>n \<in> set req. jget kv n \<noteq> Undef)"
    and names: "distinct names"
    and c: "wireSchema c = head_wire h @ object_wire cn names"
      "compiled_plan c = Plan_Object (head_null h) (plan_entries cn req names)"
    and IH: "\<And>n. n \<in> set names \<Longrightarrow> codec_ok (n \<notin> set req) (ch n) (cn n)"
  shows "codec_complete optional (head_schema h) c"
  unfolding codec_complete_def
proof (intro allI impI)
  note orig = object_orig_conforms [OF h ty closed props req]
  fix r assume r: "json r" "conforms r (head_schema h)"
  from structure_values(1) [OF h ty object_wire_keys(1) r(2)]
  consider "r = Null" "head_null h" | kv where "r = Obj kv" by blast
  then show "\<exists>w. json w \<and> conforms w (wireSchema c) \<and> (w = Null) = (r = Null) \<and>
      (\<forall>p. restore_value w (compiled_plan c) p = Inr r)"
  proof cases
    case 1
    moreover from 1(2) head_null_iff(1) [OF h] have "has_type Null (head_schema h) \<and> in_enum Null (head_schema h)"
      by blast
    with head_admits [OF h object_wire_keys(1), of Null] have "conforms Null (wireSchema c)"
      using conforms_plain [of Null "wireSchema c"] unfolding c(1) by (simp add: in_bounds_def)
    ultimately show ?thesis by (intro exI [of _ Null]) (simp add: c(2) restore_null)
  next
    case (2 kv)
    from r(1) 2 have j: "json (Obj kv)" by simp
    from r(2) 2 have kv: "has_type (Obj kv) (head_schema h)" "set req \<subseteq> fst ` set kv"
      "\<And>k u. (k, u) \<in> set kv \<Longrightarrow> k \<in> set names \<and> conforms u (ch k)"
      using orig [OF j] by auto
    let ?om = "\<lambda>k. k \<notin> set req"
    have "\<forall>e \<in> set kv. \<exists>u. json u \<and> conforms u (wireSchema (cn (fst e))) \<and> (u = Null \<longleftrightarrow> snd e = Null) \<and>
        (\<forall>p. restore_value u (compiled_plan (cn (fst e))) p = Inr (snd e))"
    proof
      fix e assume e: "e \<in> set kv"
      from e have "json (snd e)" using j by (cases e) auto
      moreover have "codec_complete (?om (fst e)) (ch (fst e)) (cn (fst e))" "conforms (snd e) (ch (fst e))"
        using kv(3) [of "fst e" "snd e"] e IH [of "fst e"] by (simp_all add: codec_ok_def)
      ultimately show "\<exists>u. json u \<and> conforms u (wireSchema (cn (fst e))) \<and> (u = Null \<longleftrightarrow> snd e = Null) \<and>
          (\<forall>p. restore_value u (compiled_plan (cn (fst e))) p = Inr (snd e))"
        by (simp add: codec_complete_def)
    qed
    then obtain u where u: "\<And>e. e \<in> set kv \<Longrightarrow> json (u e) \<and> conforms (u e) (wireSchema (cn (fst e))) \<and>
        (u e = Null \<longleftrightarrow> snd e = Null) \<and> (\<forall>p. restore_value (u e) (compiled_plan (cn (fst e))) p = Inr (snd e))"
      by metis
    let ?pad = "filter (\<lambda>n. n \<notin> fst ` set kv) names"
    let ?kw = "map (\<lambda>e. (fst e, u e)) kv @ map (\<lambda>n. (n, Null)) ?pad"
    have "map fst ?kw = map fst kv @ ?pad" by (simp add: comp_def)
    then have "distinct (map fst ?kw)"
      using j names by (simp only: distinct_append json_Obj) auto
    then have jw: "json (Obj ?kw)" using u by auto
    have padded: "n \<in> set names \<and> ?om n" if "n \<in> set ?pad" for n
      using that kv(2) by auto
    have entries: "k \<in> set names \<and> conforms x (wireSchema (cn k))" if "(k, x) \<in> set ?kw" for k x
    proof -
      from that consider (real) y where "(k, y) \<in> set kv" "x = u (k, y)" | (pad) "x = Null" "k \<in> set ?pad"
        by auto
      then show ?thesis
      proof cases
        case real
        with u [OF real(1)] kv(3) [OF real(1)] show ?thesis by simp
      next
        case pad
        with padded [OF pad(2)] IH [of k] show ?thesis
          by (simp add: codec_ok_def)
      qed
    qed
    have "set names \<subseteq> fst ` set ?kw" by (auto simp: image_image image_Un)
    with has_type_object [OF kv(1)] entries have conf: "conforms (Obj ?kw) (wireSchema c)"
      unfolding object_wire_conforms [OF h ty c(1) jw] by blast
    have keep: "\<not> (?om k \<and> u (k, x) = Null)" if "(k, x) \<in> set kv" for k x
      using kv(3) [OF that] IH [of k] u [OF that] unfolding codec_ok_def by (metis snd_conv)
    define g where "g k x = snd (hd (filter (\<lambda>e. fst e = k) kv))" for k and x :: js
    have g: "g k y = x" if "(k, x) \<in> set kv" for k x y
    proof -
      have "filter (\<lambda>e. fst e = k) kv = [(k, x)]"
        using that j by (induction kv) (auto simp: filter_empty_conv image_iff)
      then show ?thesis by (simp add: g_def)
    qed
    have "restore_entries restore_value p (plan_entries cn req names) ?kw =
        Inr (concat (map (kept ?om g names) ?kw))" for p
      unfolding plan_entries_def
    proof (rule restore_entries_eq [OF names(1) \<open>distinct (map fst ?kw)\<close>])
      fix k w assume kw: "(k, w) \<in> set ?kw" "\<not> (?om k \<and> w = Null)"
      from kw(1) have "(\<exists>x. (k, x) \<in> set kv \<and> w = u (k, x)) \<or> w = Null \<and> k \<in> set ?pad" by auto
      with kw(2) padded [of k] obtain x where x: "(k, x) \<in> set kv" "w = u (k, x)" by blast
      with u [OF x(1)] g [OF x(1)]
      show "restore_value w (compiled_plan (cn k)) (value_property_path p k) = Inr (g k w)" by simp
    qed
    moreover have "concat (map (kept ?om g names) ?kw) = kv"
    proof -
      have "concat (map (kept ?om g names) (map (\<lambda>n. (n, Null)) ?pad)) = []"
        using padded by (auto simp: kept_def)
      moreover have "map (kept ?om g names) (map (\<lambda>e. (fst e, u e)) kv) = map (\<lambda>e. [e]) kv"
      proof -
        have "kept ?om g names (fst e, u e) = [e]" if "e \<in> set kv" for e
          using keep [of "fst e" "snd e"] g [of "fst e" "snd e" "u e"] kv(3) [of "fst e" "snd e"] that
          by (simp add: kept_def)
        then show ?thesis by simp
      qed
      ultimately show ?thesis by (simp del: map_map)
    qed
    ultimately have "restore_value (Obj ?kw) (compiled_plan c) p = Inr r" for p
      by (simp add: c(2) 2 restore_object del: map_append)
    with jw conf 2 show ?thesis by (intro exI [of _ "Obj ?kw"]) simp
  qed
qed


subsection \<open>Compilation\<close>

lemma required_scan_Inr:
  "required_scan ps q zs acc = Inr req \<Longrightarrow>
   set req = set acc \<union> {n. Str n \<in> fst ` set zs} \<and> (set acc \<subseteq> fst ` set ps \<longrightarrow> set req \<subseteq> fst ` set ps)"
  by (induction ps q zs acc rule: required_scan.induct) (auto split: js.splits if_splits)

lemma zip_index_set: "fst ` set (zip xs [0..<length xs]) = set xs"
  by (metis length_upt map_fst_zip minus_nat.diff_0 set_map)

lemma required_properties_Inr:
  assumes "required_properties (jget s ''required'') ps q = Inr req"
  shows "set req \<subseteq> fst ` set ps" "has_required kv s \<longleftrightarrow> (\<forall>n \<in> set req. jget kv n \<noteq> Undef)"
proof -
  have "set req \<subseteq> fst ` set ps \<and> (has_required kv s \<longleftrightarrow> (\<forall>n \<in> set req. jget kv n \<noteq> Undef))"
  proof (cases "jget s ''required''")
    case (Arr xs)
    with assms have "required_scan ps q (zip xs [0..<length xs]) [] = Inr req"
      by (simp add: required_properties_def)
    from required_scan_Inr [OF this] have "set req = {n. Str n \<in> set xs}"
      and sub: "set req \<subseteq> fst ` set ps"
      unfolding zip_index_set by auto
    with Arr have "has_required kv s \<longleftrightarrow> (\<forall>n \<in> set req. jget kv n \<noteq> Undef)"
      by (auto simp: has_required_def)
    with sub show ?thesis ..
  qed (use assms in \<open>simp_all add: required_properties_def has_required_def\<close>)
  then show "set req \<subseteq> fst ` set ps" "has_required kv s \<longleftrightarrow> (\<forall>n \<in> set req. jget kv n \<noteq> Undef)"
    by blast+
qed

lemma compile_object_Inr:
  assumes "compile_object f s path wire accepts = Inr c"
  obtains ps req names cn where
    "jget s ''additionalProperties'' = Bool False" "jget s ''properties'' = Obj ps"
    "required_properties (jget s ''required'') ps (path @ ''.required'') = Inr req"
    "names = sort (own_keys ps)"
    "\<forall>n \<in> set names. f (jget ps n) (schema_property_path path n) (n \<notin> set req) = Inr (cn n)"
    "wireSchema c = wire @ object_wire cn names"
    "compiled_plan c = Plan_Object accepts
       (map (\<lambda>n. (n, n \<notin> set req \<and> \<not> acceptsNull (cn n), compiled_plan (cn n))) names)"
    "acceptsNull c = accepts"
proof -
  from assms have closed: "jget s ''additionalProperties'' = Bool False"
    by (auto simp: compile_object_def split: if_splits)
  obtain ps where ps: "jget s ''properties'' = Obj ps"
    using assms closed by (cases "jget s ''properties''") (simp_all add: compile_object_def schema_record_def)
  obtain req where req: "required_properties (jget s ''required'') ps (path @ ''.required'') = Inr req"
    using assms closed ps by (auto simp: compile_object_def schema_record_def bind_res_Inr_iff)
  define names where "names = sort (own_keys ps)"
  let ?child = "\<lambda>n. f (jget ps n) (schema_property_path path n) (n \<notin> set req)"
  let ?entry = "\<lambda>n c. ((n, Obj (wireSchema c)), (n, n \<notin> set req \<and> \<not> acceptsNull c, compiled_plan c))"
  from assms obtain entries where
    e: "map_res (\<lambda>n. bind_res (?child n) (\<lambda>c. Inr (?entry n c))) names = Inr entries" and
    c: "wireSchema c = wire @ [(''properties'', Obj (map fst entries)), (''required'', Arr (map Str names)),
          (''additionalProperties'', Bool False)]"
      "compiled_plan c = Plan_Object accepts (map snd entries)" "acceptsNull c = accepts"
    by (auto simp: compile_object_def schema_record_def closed ps req bind_res_Inr_iff Let_def names_def)
  define cn where "cn n = projr (?child n)" for n
  have all: "\<forall>n \<in> set names. ?child n = Inr (cn n)"
  proof
    fix n assume "n \<in> set names"
    then obtain i where "i < length names" "n = names ! i" by (auto simp: in_set_conv_nth)
    with e show "?child n = Inr (cn n)"
      by (auto simp: map_res_Inr_iff list_all2_conv_all_nth bind_res_Inr_iff cn_def)
  qed
  have "map_res (\<lambda>n. bind_res (?child n) (\<lambda>c. Inr (?entry n c))) names = Inr (map (\<lambda>n. ?entry n (cn n)) names)"
    using all by (intro map_res_Inr) auto
  with e have "entries = map (\<lambda>n. ?entry n (cn n)) names" by simp
  with c have "wireSchema c = wire @ object_wire cn names"
    "compiled_plan c = Plan_Object accepts
       (map (\<lambda>n. (n, n \<notin> set req \<and> \<not> acceptsNull (cn n), compiled_plan (cn n))) names)"
    by (simp_all add: object_wire_def wire_entries_def comp_def)
  from that [OF closed ps req names_def all this c(3)] show thesis .
qed

lemma compile_array_Inr:
  assumes "compile_array f s path wire accepts = Inr c"
  obtains ci where "f (jget s ''items'') (path @ ''.items'') False = Inr ci"
    "jget s ''items'' \<noteq> Undef"
    "wireSchema c = wire @ [(''items'', Obj (wireSchema ci))]"
    "compiled_plan c = Plan_Array accepts (compiled_plan ci)" "acceptsNull c = accepts"
  using assms by (auto simp: compile_array_def bind_res_Inr_iff split: js.splits)

lemma compile_schema_head:
  assumes "compile_schema le v path optional = Inr c"
  obtains h where "compile_head le v path optional = Inr h" "v = Obj (head_schema h)"
proof -
  from assms obtain h where "compile_head le v path optional = Inr h"
    by (subst (asm) compile_schema.simps) (auto simp: bind_res_Inr_iff)
  with head_schema_value that show thesis by blast
qed

lemma numeric_bounds_lookup:
  assumes "numeric_bound s path ''minimum'' = Inr lo" "numeric_bound s path ''maximum'' = Inr hi"
  shows "jget (lo @ hi) k = (if k = ''minimum'' \<or> k = ''maximum'' then jget s k else Undef)"
proof -
  have lo: "jget lo k = (if k = ''minimum'' then jget s k else Undef)" "k \<in> fst ` set lo \<Longrightarrow> k = ''minimum''"
    using numeric_bound_Inr [OF assms(1)] by auto
  have hi: "jget hi k = (if k = ''maximum'' then jget s k else Undef)"
    using numeric_bound_Inr [OF assms(2)] by auto
  show ?thesis
  proof (cases "k \<in> fst ` set lo")
    case True
    with lo show ?thesis by (simp add: jget_append)
  next
    case False
    with jget_notin [OF False] lo hi show ?thesis by (auto simp: jget_append)
  qed
qed

lemma codec_correct:
  "compile_schema le v path optional = Inr c \<Longrightarrow> \<exists>s. v = Obj s \<and> codec_ok optional s c"
proof (induction v arbitrary: path optional c rule: measure_induct_rule [of jsz])
  case (less v)
  from less.prems obtain h where h: "compile_head le v path optional = Inr h"
    by (subst (asm) compile_schema.simps) (auto simp: bind_res_Inr_iff)
  note v = head_schema_value [OF h]
  note eq = compile_schema.simps [of le v path optional, unfolded h bind_res_simps]
  have kw: "jsz (jget (head_schema h) k) < jsz v" if "jget (head_schema h) k \<noteq> Undef" for k
    unfolding v using that by (intro jsz_keyword) auto
  consider (ob) "head_type h = ''object''" | (ar) "head_type h = ''array''"
    | (plain) "head_type h \<noteq> ''object''" "head_type h \<noteq> ''array''" by blast
  then have "codec_ok optional (head_schema h) c"
  proof cases
    case ob
    with less.prems eq have "compile_object (\<lambda>w p b. compile_schema le w p b) (head_schema h) path
        (head_wire h) (head_null h) = Inr c" by simp
    then obtain ps req names cn where o:
      "jget (head_schema h) ''additionalProperties'' = Bool False" "jget (head_schema h) ''properties'' = Obj ps"
      "required_properties (jget (head_schema h) ''required'') ps (path @ ''.required'') = Inr req"
      "names = sort (own_keys ps)"
      "\<forall>n \<in> set names. compile_schema le (jget ps n) (schema_property_path path n) (n \<notin> set req) = Inr (cn n)"
      "wireSchema c = head_wire h @ object_wire cn names"
      "compiled_plan c = Plan_Object (head_null h)
         (map (\<lambda>n. (n, n \<notin> set req \<and> \<not> acceptsNull (cn n), compiled_plan (cn n))) names)"
      "acceptsNull c = head_null h" by (rule compile_object_Inr)
    have names: "distinct names" "\<And>n. n \<in> set names \<longleftrightarrow> n \<in> fst ` set ps"
      by (simp_all add: o(4) own_keys_def)
    define ch where "ch n = (case jget ps n of Obj s \<Rightarrow> s | _ \<Rightarrow> [])" for n
    have child: "jget ps n = Obj (ch n) \<and> codec_ok (n \<notin> set req) (ch n) (cn n)" if n: "n \<in> set names" for n
    proof -
      from o(5) n have c: "compile_schema le (jget ps n) (schema_property_path path n) (n \<notin> set req) = Inr (cn n)"
        by blast
      have "jget ps n \<noteq> Undef" by (rule compile_schema_head [OF c]) simp
      then have "jsz (jget ps n) < jsz (Obj ps)" by (intro jsz_keyword) auto
      also have "\<dots> < jsz v" using kw [of "''properties''"] by (simp add: o(2))
      finally obtain s where "jget ps n = Obj s" "codec_ok (n \<notin> set req) s (cn n)"
        using less.IH [OF _ c] by blast
      then show ?thesis by (simp add: ch_def)
    qed
    have "n \<notin> set req \<and> \<not> acceptsNull (cn n) \<longleftrightarrow> n \<notin> set req" if "n \<in> set names" for n
      using child [OF that] by (auto simp: codec_ok_def)
    then have "compiled_plan c = Plan_Object (head_null h) (plan_entries cn req names)"
      by (simp add: o(7) plan_entries_def)
    note pl = this
    have req: "set req \<subseteq> set names" "\<And>kv. has_required kv (head_schema h) \<longleftrightarrow> (\<forall>n \<in> set req. jget kv n \<noteq> Undef)"
      using required_properties_Inr [OF o(3)] names(2) by auto
    have ch: "\<forall>n \<in> set names. jget ps n = Obj (ch n)" using child by blast
    have "codec_sound optional (head_schema h) c"
      by (rule object_sound [OF h ob o(1,2) names(2) ch req(2) names(1) req(1) o(6) pl]) (use child in auto)
    moreover have "codec_complete optional (head_schema h) c"
      by (rule object_complete [OF h ob o(1,2) names(2) ch req(2) names(1) o(6) pl]) (use child in auto)
    ultimately show ?thesis
      by (rule codec_okI [OF h _ _ o(6) object_wire_keys(1) o(8)])
  next
    case ar
    with less.prems eq have "compile_array (\<lambda>w p b. compile_schema le w p b) (head_schema h) path
        (head_wire h) (head_null h) = Inr c" by simp
    then obtain ci where a: "compile_schema le (jget (head_schema h) ''items'') (path @ ''.items'') False = Inr ci"
      "jget (head_schema h) ''items'' \<noteq> Undef"
      "wireSchema c = head_wire h @ [(''items'', Obj (wireSchema ci))]"
      "compiled_plan c = Plan_Array (head_null h) (compiled_plan ci)" "acceptsNull c = head_null h"
      by (rule compile_array_Inr)
    from less.IH [OF kw [OF a(2)] a(1)] obtain it where it: "jget (head_schema h) ''items'' = Obj it"
      "codec_sound False it ci" "codec_complete False it ci" by (auto simp: codec_ok_def)
    from array_codec [OF h ar it(1) a(3,4) it(2,3)] show ?thesis
      by (rule codec_okI [OF h _ _ a(3) _ a(5)]) (simp add: head_keys_def)
  next
    case plain
    define num where "num \<longleftrightarrow> head_type h = ''number'' \<or> head_type h = ''integer''"
    from less.prems eq plain obtain W where
      W: "(if num then compile_numeric_bounds (head_schema h) path (head_wire h) else Inr (head_wire h)) = Inr W"
      and c: "c = \<lparr> wireSchema = W, compiled_plan = Plan_Value, acceptsNull = head_null h \<rparr>"
      by (auto simp: bind_res_Inr_iff num_def)
    have "\<exists>x. W = head_wire h @ x \<and> fst ` set x \<inter> head_keys = {} \<and>
        (\<forall>k \<in> size_keys. jget x k = jget (head_schema h) k)"
    proof (cases num)
      case True
      with W obtain lo hi where b: "W = head_wire h @ lo @ hi"
        "numeric_bound (head_schema h) path ''minimum'' = Inr lo"
        "numeric_bound (head_schema h) path ''maximum'' = Inr hi"
        by (auto elim: compile_numeric_bounds_Inr)
      have "jget (lo @ hi) k = jget (head_schema h) k" if k: "k \<in> size_keys" for k
      proof (cases "k = ''minimum'' \<or> k = ''maximum''")
        case False
        with k have "jget (head_schema h) k = Undef"
          using \<open>num\<close> num_def
          by (intro jget_keyword_Undef [OF head_null_iff(4) [OF h]]) (auto simp: size_keys_def keyword_defs)
        with False show ?thesis by (simp add: numeric_bounds_lookup [OF b(2,3)])
      qed (simp add: numeric_bounds_lookup [OF b(2,3)])
      moreover have "fst ` set (lo @ hi) \<inter> head_keys = {}"
        using numeric_bound_Inr [OF b(2)] numeric_bound_Inr [OF b(3)] by (auto simp: head_keys_def)
      ultimately show ?thesis using b(1) by blast
    next
      case False
      have "jget (head_schema h) k = Undef" if "k \<in> size_keys" for k
        using that plain False num_def
        by (intro jget_keyword_Undef [OF head_null_iff(4) [OF h]]) (auto simp: size_keys_def keyword_defs)
      with False W show ?thesis by (intro exI [of _ "[]"]) simp
    qed
    then obtain x where x: "W = head_wire h @ x" "fst ` set x \<inter> head_keys = {}"
      "\<And>k. k \<in> size_keys \<Longrightarrow> jget x k = jget (head_schema h) k" by blast
    note pw = plain_wire [OF h plain x(2,3)]
    have "codec_sound optional (head_schema h) c" "codec_complete optional (head_schema h) c"
      by (rule plain_codec, simp_all add: c x(1) pw)+
    with x show ?thesis by (intro codec_okI [OF h]) (simp_all add: c)
  qed
  with v show ?case by blast
qed


lemma compile_codex_Inr:
  assumes "compile_codex_output_schema le (Obj s) = Inr c"
  obtains d where "compile_schema le (Obj s) ''$'' False = Inr d"
    "codec_wire c = wireSchema d" "codec_plan c = compiled_plan d" "codec_ok False s d"
proof -
  from assms obtain d where d: "compile_schema le (Obj s) ''$'' False = Inr d"
    "codec_wire c = wireSchema d" "codec_plan c = compiled_plan d"
    by (auto simp: compile_codex_output_schema_def bind_res_Inr_iff split: if_splits)
  with codec_correct [OF d(1)] that show thesis by blast
qed

text \<open>
  C16. Every answer the strict wire schema admits is restored, without an error, to a value
  of the schema the caller asked for: nulls put in for optional properties are dropped at
  every depth, a null the caller's own schema allows is kept, and bounds, enums, required
  and closed properties all hold of the result.
\<close>

theorem codec_restores_conforming:
  assumes "compile_codex_output_schema le (Obj s) = Inr c"
    and "json w" and "conforms w (codec_wire c)"
  shows "\<exists>r. restore_value w (codec_plan c) ''$'' = Inr r \<and> json r \<and> conforms r s"
proof -
  from assms(1) obtain d where d: "codec_wire c = wireSchema d" "codec_plan c = compiled_plan d"
    "codec_ok False s d" by (rule compile_codex_Inr)
  with assms(2,3) show ?thesis
    by (auto simp: codec_ok_def codec_sound_def)
qed

text \<open>
  C17. Nothing the caller's schema allows is lost by the strict form: every value of the
  caller's schema is the restoration of some answer the wire schema admits, with the same
  properties in the same order.
\<close>

theorem codec_round_trip:
  assumes "compile_codex_output_schema le (Obj s) = Inr c"
    and "json r" and "conforms r s"
  shows "\<exists>w. json w \<and> conforms w (codec_wire c) \<and> restore_value w (codec_plan c) ''$'' = Inr r"
proof -
  from assms(1) obtain d where d: "codec_wire c = wireSchema d" "codec_plan c = compiled_plan d"
    "codec_ok False s d" by (rule compile_codex_Inr)
  with assms(2,3) show ?thesis
    by (fastforce simp: codec_ok_def codec_complete_def)
qed


text \<open>A schema with a required bounded number, an optional string and an optional enum list.\<close>

definition ticket_schema :: schema where
  "ticket_schema =
     [(''type'', Str ''object''), (''additionalProperties'', Bool False), (''required'', Arr [Str ''no'']),
      (''properties'', Obj
        [(''no'', Obj [(''type'', Str ''integer''), (''minimum'', Num 1)]),
         (''note'', Obj [(''type'', Str ''string'')]),
         (''tags'', Obj [(''type'', Str ''array''),
            (''items'', Obj [(''type'', Arr [Str ''string'', Str ''null'']), (''enum'', Arr [Str ''a'', Null])])])])]"

definition ticket_codec :: codec where
  "ticket_codec = projr (compile_codex_output_schema (\<lambda>_ _. True) (Obj ticket_schema))"

lemma ticket_compiles: "compile_codex_output_schema (\<lambda>_ _. True) (Obj ticket_schema) = Inr ticket_codec"
  by code_simp

lemma ticket_proved: "proved ticket_schema" "proved (codec_wire ticket_codec)"
proof -
  have "validate_schema_definition ticket_schema '''' = None" by code_simp
  then show "proved ticket_schema" by (auto simp: proved_def)
  have "validate_schema_definition (codec_wire ticket_codec) '''' = None" by code_simp
  then show "proved (codec_wire ticket_codec)" by (auto simp: proved_def)
qed

theorem codec_restores_conforming_witness:
  "let w = Obj [(''tags'', Arr [Null, Str ''a'']), (''no'', Num 7), (''note'', Null)]
   in json w \<and> conforms w (codec_wire ticket_codec) \<and>
      conforms (Obj [(''tags'', Arr [Null, Str ''a'']), (''no'', Num 7)]) ticket_schema \<and>
      restore_value w (codec_plan ticket_codec) ''$'' =
        Inr (Obj [(''tags'', Arr [Null, Str ''a'']), (''no'', Num 7)])"
proof -
  let ?w = "Obj [(''tags'', Arr [Null, Str ''a'']), (''no'', Num 7), (''note'', Null)]"
  have "check ?w (codec_wire ticket_codec) '''' = None" by code_simp
  then have w: "conforms ?w (codec_wire ticket_codec)" by (simp add: check_conforms ticket_proved)
  have "restore_value ?w (codec_plan ticket_codec) ''$'' =
      Inr (Obj [(''tags'', Arr [Null, Str ''a'']), (''no'', Num 7)])" by code_simp
  with codec_restores_conforming [OF ticket_compiles _ w] w show ?thesis by simp
qed

theorem codec_round_trip_witness:
  "\<exists>w. json w \<and> conforms w (codec_wire ticket_codec) \<and>
       restore_value w (codec_plan ticket_codec) ''$'' = Inr (Obj [(''no'', Num 7)])"
proof -
  have "check (Obj [(''no'', Num 7)]) ticket_schema '''' = None" by code_simp
  then have "conforms (Obj [(''no'', Num 7)]) ticket_schema" by (simp add: check_conforms ticket_proved)
  from codec_round_trip [OF ticket_compiles _ this] show ?thesis by simp
qed

end
