(* ===== verification/Claude_Stream.thy ===== *)
theory Claude_Stream
  imports Js_Value
begin

text \<open>
  \<^verbatim>\<open>packages/agent-runtime/claude-code/src/stream.ts\<close> with the types of \<^verbatim>\<open>types.ts\<close>: the framing of a child's
  output into lines, the decoding of a line, the reduction of a turn to its outcome, and the messages written.

  \<^verbatim>\<open>JSON.parse\<close> and \<^verbatim>\<open>JSON.stringify\<close> are parameters: a parsed line is \<open>None\<close> where the text is not JSON.  The
  raw object of a line is kept where somebody reads it.
\<close>

subsection \<open>Lines\<close>

definition line_feed :: char where "line_feed = CHR 0x0A"

definition carriage_return :: char where "carriage_return = CHR 0x0D"

definition strip_return :: "string \<Rightarrow> string" where
  "strip_return line = (if line \<noteq> [] \<and> last line = carriage_return then butlast line else line)"

text \<open>The loop of \<^verbatim>\<open>LineBuffer.push\<close>: the complete lines that are not blank, and what is left.\<close>

definition emit_line :: "string \<Rightarrow> string list \<times> string \<Rightarrow> string list \<times> string" where
  "emit_line line p = (if line = [] then p else (line # fst p, snd p))"

function drain_lines :: "string \<Rightarrow> string list \<times> string" where
  "drain_lines buf =
     (case dropWhile (\<lambda>c. c \<noteq> line_feed) buf of
        [] \<Rightarrow> ([], buf)
      | _ # rest \<Rightarrow> emit_line (strip_return (takeWhile (\<lambda>c. c \<noteq> line_feed) buf)) (drain_lines rest))"
  by pat_completeness auto
termination
proof (relation "measure length", goal_cases)
  case (2 buf c rest)
  have "length (dropWhile (\<lambda>c. c \<noteq> line_feed) buf) \<le> length buf" by (rule length_dropWhile_le)
  then show ?case using 2 by simp
qed simp

declare drain_lines.simps [simp del]

definition push_chunk :: "string \<Rightarrow> string \<Rightarrow> string list \<times> string" where
  "push_chunk buf chunk = drain_lines (buf @ chunk)"

text \<open>\<^verbatim>\<open>flush\<close> gives what is left at the end of the stream.\<close>

definition flush_buffer :: "string \<Rightarrow> string option" where
  "flush_buffer buf = (let rest = trim buf in if rest = [] then None else Some rest)"

text \<open>A child's output arrives in chunks; the lines come out chunk by chunk.\<close>

fun push_chunks :: "string \<Rightarrow> string list \<Rightarrow> string list \<times> string" where
  "push_chunks buf [] = ([], buf)"
| "push_chunks buf (c # cs) =
     (let p = push_chunk buf c; q = push_chunks (snd p) cs in (fst p @ fst q, snd q))"

subsection \<open>Fields of an envelope\<close>

type_synonym js_object = "(string \<times> js) list"

definition str_of :: "js \<Rightarrow> string option" where
  "str_of v = (case v of Str t \<Rightarrow> Some t | _ \<Rightarrow> None)"

definition obj_of :: "js \<Rightarrow> js_object option" where
  "obj_of v = (case v of Obj ob \<Rightarrow> Some ob | _ \<Rightarrow> None)"

definition nullish :: "js \<Rightarrow> bool" where
  "nullish v \<longleftrightarrow> v = Undef \<or> v = Null"

text \<open>The text blocks of an assistant message.\<close>

definition text_block :: "js \<Rightarrow> string" where
  "text_block b =
     (case b of
        Obj ob \<Rightarrow> if jget ob ''type'' = Str ''text'' then (case jget ob ''text'' of Str t \<Rightarrow> t | _ \<Rightarrow> []) else []
      | _ \<Rightarrow> [])"

definition assistant_text :: "js \<Rightarrow> string" where
  "assistant_text message =
     (case message of
        Obj ob \<Rightarrow>
          (case jget ob ''content'' of
             Str t \<Rightarrow> t
           | Arr blocks \<Rightarrow> concat (map text_block blocks)
           | _ \<Rightarrow> [])
      | _ \<Rightarrow> [])"

definition sum_token_counts :: "js list \<Rightarrow> rat option" where
  "sum_token_counts vs =
     fold (\<lambda>v total. case (v, total) of (Num n, Some t) \<Rightarrow> if n < 0 then None else Some (t + n) | _ \<Rightarrow> None) vs (Some 0)"

definition or_zero :: "js \<Rightarrow> js" where
  "or_zero v = (if nullish v then Num 0 else v)"

record token_usage =
  tk_input :: rat
  tk_output :: rat

fun sum_models :: "js_object \<Rightarrow> rat \<Rightarrow> rat \<Rightarrow> token_usage option" where
  "sum_models [] i out = Some \<lparr> tk_input = i, tk_output = out \<rparr>"
| "sum_models ((k, m) # ms) i out =
     (case obj_of m of
        None \<Rightarrow> None
      | Some ob \<Rightarrow>
          (case (sum_token_counts [jget ob ''inputTokens'', or_zero (jget ob ''cacheReadInputTokens''),
                   or_zero (jget ob ''cacheCreationInputTokens'')],
                 sum_token_counts [jget ob ''outputTokens'']) of
             (Some a, Some b) \<Rightarrow> sum_models ms (i + a) (out + b)
           | _ \<Rightarrow> None))"

definition parse_model_usage :: "js \<Rightarrow> token_usage option" where
  "parse_model_usage v =
     (case obj_of v of
        None \<Rightarrow> None
      | Some ms \<Rightarrow> if ms = [] then None else sum_models ms 0 0)"

definition main_context_tokens :: "js_object \<Rightarrow> rat option" where
  "main_context_tokens raw =
     (case obj_of (jget raw ''message'') of
        None \<Rightarrow> None
      | Some msg \<Rightarrow>
          (case obj_of (jget msg ''usage'') of
             None \<Rightarrow> None
           | Some u \<Rightarrow> sum_token_counts [jget u ''input_tokens'', or_zero (jget u ''cache_read_input_tokens''),
               or_zero (jget u ''cache_creation_input_tokens'')]))"

subsection \<open>The decoded line\<close>

record result_envelope =
  re_subtype :: "string option"
  re_is_error :: bool
  re_reason :: "string option"
  re_text :: "string option"
  re_session :: "string option"
  re_user_message :: "string option"
  re_errors :: "string list"
  re_structured :: bool
  re_usage :: "token_usage option"

definition parse_result :: "(js \<Rightarrow> string) \<Rightarrow> js_object \<Rightarrow> result_envelope" where
  "parse_result stringify ob =
     (let subtype = str_of (jget ob ''subtype'');
          errors = (case jget ob ''errors'' of Arr es \<Rightarrow> concat (map (\<lambda>e. case e of Str t \<Rightarrow> [t] | _ \<Rightarrow> []) es) | _ \<Rightarrow> []);
          flagged = (jget ob ''is_error'' = Bool True);
          structured = (map_of ob ''structured_output'' \<noteq> None) in
      \<lparr> re_subtype = subtype,
        re_is_error = (case subtype of Some t \<Rightarrow> t \<noteq> ''success'' \<or> flagged | None \<Rightarrow> flagged \<or> errors \<noteq> []),
        re_reason = str_of (jget ob ''terminal_reason''),
        re_text = (if structured then Some (stringify (jget ob ''structured_output'')) else str_of (jget ob ''result'')),
        re_session = str_of (jget ob ''session_id''), re_user_message = str_of (jget ob ''user_message_uuid''),
        re_errors = errors, re_structured = structured, re_usage = parse_model_usage (jget ob ''modelUsage'') \<rparr>)"

datatype lifecycle_state = Ls_Queued | Ls_Started | Ls_Completed | Ls_Cancelled | Ls_Discarded | Ls_Refused

definition lifecycle_of :: "string \<Rightarrow> lifecycle_state option" where
  "lifecycle_of t = map_of [(''queued'', Ls_Queued), (''started'', Ls_Started), (''completed'', Ls_Completed),
     (''cancelled'', Ls_Cancelled), (''discarded'', Ls_Discarded), (''refused'', Ls_Refused)] t"

datatype parsed_line =
    Pl_Stream_Event js_object
  | Pl_Init "string option" "string option"
  | Pl_Assistant string "string option" js_object
  | Pl_User js_object
  | Pl_Compact js_object
  | Pl_Result "string option" result_envelope
  | Pl_Lifecycle "string option" "lifecycle_state option"
  | Pl_Control_Request "string option" "string option" js_object
  | Pl_Control_Response "string option" bool "js_object option" "string option"
  | Pl_Other "string option" "string option"
  | Pl_Parse_Error string

definition parse_command_lifecycle :: "js_object \<Rightarrow> parsed_line" where
  "parse_command_lifecycle ob =
     Pl_Lifecycle (str_of (jget ob ''command_uuid''))
       (case str_of (jget ob ''state'') of None \<Rightarrow> None | Some t \<Rightarrow> lifecycle_of t)"

definition parse_claude_line :: "(string \<Rightarrow> js option) \<Rightarrow> (js \<Rightarrow> string) \<Rightarrow> string \<Rightarrow> parsed_line" where
  "parse_claude_line parse stringify line =
     (case parse line of
        Some (Obj ob) \<Rightarrow>
          (let ty = str_of (jget ob ''type''); sub = str_of (jget ob ''subtype'') in
           if ty = Some ''system'' then
             (if sub = Some ''init'' then Pl_Init (str_of (jget ob ''session_id'')) (str_of (jget ob ''model''))
              else if sub = Some ''command_lifecycle'' then parse_command_lifecycle ob
              else if sub = Some ''compact_boundary'' then Pl_Compact ob
              else Pl_Other ty sub)
           else if ty = Some ''command_lifecycle'' then parse_command_lifecycle ob
           else if ty = Some ''assistant'' then
             Pl_Assistant (assistant_text (jget ob ''message'')) (str_of (jget ob ''session_id'')) ob
           else if ty = Some ''stream_event'' then Pl_Stream_Event ob
           else if ty = Some ''user'' then Pl_User ob
           else if ty = Some ''result'' then Pl_Result (str_of (jget ob ''uuid'')) (parse_result stringify ob)
           else if ty = Some ''control_request'' then
             (case jget ob ''request'' of
                Obj rq \<Rightarrow> Pl_Control_Request (str_of (jget ob ''request_id'')) (str_of (jget rq ''subtype'')) rq
              | _ \<Rightarrow> Pl_Control_Request (str_of (jget ob ''request_id'')) None [])
           else if ty = Some ''control_response'' then
             (case jget ob ''response'' of
                Obj rs \<Rightarrow> Pl_Control_Response (str_of (jget rs ''request_id'')) (jget rs ''subtype'' = Str ''success'')
                  (obj_of (jget rs ''response'')) (str_of (jget rs ''error''))
              | _ \<Rightarrow> Pl_Control_Response None False None None)
           else Pl_Other ty sub)
      | _ \<Rightarrow> Pl_Parse_Error line)"

subsection \<open>Messages written\<close>

definition build_user_message :: "string \<Rightarrow> string option \<Rightarrow> js" where
  "build_user_message text uuid = Obj (
     [(''type'', Str ''user''),
      (''message'', Obj [(''role'', Str ''user''),
         (''content'', Arr [Obj [(''type'', Str ''text''), (''text'', Str text)]])])] @
     (case uuid of None \<Rightarrow> [] | Some u \<Rightarrow> [(''uuid'', Str u)]))"

definition build_control_request :: "string \<Rightarrow> js_object \<Rightarrow> js" where
  "build_control_request rid rq = Obj [(''type'', Str ''control_request''), (''request_id'', Str rid), (''request'', Obj rq)]"

definition build_remote_control_enable :: "string \<Rightarrow> js" where
  "build_remote_control_enable rid = build_control_request rid [(''subtype'', Str ''remote_control''), (''enabled'', Bool True)]"

definition build_interrupt_request :: "string \<Rightarrow> string \<Rightarrow> js" where
  "build_interrupt_request rid reason = build_control_request rid [(''subtype'', Str ''interrupt''), (''reason'', Str reason)]"

definition build_control_success :: "string \<Rightarrow> js_object \<Rightarrow> js" where
  "build_control_success rid rs = Obj [(''type'', Str ''control_response''),
     (''response'', Obj [(''subtype'', Str ''success''), (''request_id'', Str rid), (''response'', Obj rs)])]"

definition build_can_use_tool_allow :: "string \<Rightarrow> js_object \<Rightarrow> js" where
  "build_can_use_tool_allow rid input =
     build_control_success rid [(''behavior'', Str ''allow''), (''updatedInput'', Obj input)]"

definition build_control_ack :: "string \<Rightarrow> js" where
  "build_control_ack rid = build_control_success rid []"

subsection \<open>A turn\<close>

record turn_aggregator =
  ta_text :: string
  ta_context :: "rat option"
  ta_result :: "result_envelope option"
  ta_session :: "string option"

definition new_aggregator :: turn_aggregator where
  "new_aggregator = \<lparr> ta_text = [], ta_context = None, ta_result = None, ta_session = None \<rparr>"

record claude_outcome =
  to_is_error :: bool
  to_reason :: "string option"
  to_text :: string
  to_session :: "string option"
  to_subtype :: "string option"
  to_errors :: "string list"
  to_structured :: bool
  to_usage :: "(token_usage \<times> rat option) option"

definition accept_line :: "parsed_line \<Rightarrow> turn_aggregator \<Rightarrow> turn_aggregator" where
  "accept_line l a =
     (case l of
        Pl_Init session _ \<Rightarrow> (if session = None then a else a\<lparr>ta_session := session\<rparr>)
      | Pl_Assistant text _ raw \<Rightarrow>
          (let b = (if text = [] then a else a\<lparr>ta_text := text\<rparr>) in
           if nullish (jget raw ''parent_tool_use_id'') then b\<lparr>ta_context := main_context_tokens raw\<rparr> else b)
      | Pl_Result _ r \<Rightarrow> a\<lparr>ta_result := Some r\<rparr>
      | _ \<Rightarrow> a)"

definition aggregator_outcome :: "turn_aggregator \<Rightarrow> claude_outcome option" where
  "aggregator_outcome a =
     (case ta_result a of
        None \<Rightarrow> None
      | Some r \<Rightarrow> Some
          \<lparr> to_is_error = re_is_error r, to_reason = re_reason r,
            to_text = (case re_text r of Some t \<Rightarrow> if t \<noteq> [] then t else ta_text a | None \<Rightarrow> ta_text a),
            to_session = (case re_session r of Some s \<Rightarrow> Some s | None \<Rightarrow> ta_session a), to_subtype = re_subtype r,
            to_errors = re_errors r, to_structured = re_structured r,
            to_usage = (case re_usage r of None \<Rightarrow> None | Some u \<Rightarrow> Some (u, ta_context a)) \<rparr>)"

definition discard_turn :: "turn_aggregator \<Rightarrow> turn_aggregator" where
  "discard_turn a = a\<lparr>ta_result := None, ta_text := [], ta_context := None\<rparr>"

definition take_outcome :: "turn_aggregator \<Rightarrow> claude_outcome option \<times> turn_aggregator" where
  "take_outcome a =
     (case aggregator_outcome a of None \<Rightarrow> (None, a) | Some o' \<Rightarrow> (Some o', discard_turn a))"

subsection \<open>Framing does not depend on the chunks\<close>

text \<open>The reference: one character at a time.\<close>

fun frame_chars :: "string \<Rightarrow> string \<Rightarrow> string list \<times> string" where
  "frame_chars cur [] = ([], cur)"
| "frame_chars cur (c # cs) =
     (if c = line_feed then emit_line (strip_return cur) (frame_chars [] cs) else frame_chars (cur @ [c]) cs)"

lemma frame_chars_no_feed: "line_feed \<notin> set cs \<Longrightarrow> frame_chars cur cs = ([], cur @ cs)"
  by (induction cs arbitrary: cur) auto

lemma frame_chars_feed:
  "line_feed \<notin> set cs \<Longrightarrow> frame_chars cur (cs @ line_feed # ds) = emit_line (strip_return (cur @ cs)) (frame_chars [] ds)"
  by (induction cs arbitrary: cur) auto

lemma drain_is_frame: "drain_lines buf = frame_chars [] buf"
proof (induction buf rule: drain_lines.induct)
  case (1 buf)
  show ?case
  proof (cases "dropWhile (\<lambda>c. c \<noteq> line_feed) buf")
    case Nil
    then have "line_feed \<notin> set buf" using dropWhile_eq_Nil_conv [of "\<lambda>c. c \<noteq> line_feed" buf] by blast
    then show ?thesis unfolding drain_lines.simps [of buf] Nil by (simp add: frame_chars_no_feed)
  next
    case (Cons c rest)
    have c: "c = line_feed" using hd_dropWhile [of "\<lambda>c. c \<noteq> line_feed" buf] Cons by simp
    let ?l = "takeWhile (\<lambda>c. c \<noteq> line_feed) buf"
    have buf: "?l @ line_feed # rest = buf" using takeWhile_dropWhile_id [of "\<lambda>c. c \<noteq> line_feed" buf] Cons c by simp
    have l: "line_feed \<notin> set ?l" using set_takeWhileD [of line_feed "\<lambda>c. c \<noteq> line_feed" buf] by blast
    have "frame_chars [] buf = emit_line (strip_return ?l) (frame_chars [] rest)"
      using frame_chars_feed [OF l, of "[]" rest] unfolding buf by simp
    then show ?thesis using 1 [OF Cons] Cons by (simp add: drain_lines.simps [of buf])
  qed
qed

lemma emit_line_parts [simp]:
  "snd (emit_line line p) = snd p" "fst (emit_line line p) = (if line = [] then fst p else line # fst p)"
  by (simp_all add: emit_line_def)

lemma frame_chars_append:
  "frame_chars cur (xs @ ys) =
     (fst (frame_chars cur xs) @ fst (frame_chars (snd (frame_chars cur xs)) ys), snd (frame_chars (snd (frame_chars cur xs)) ys))"
  by (induction xs arbitrary: cur) (simp_all add: prod_eq_iff)

lemma frame_left_no_feed: "line_feed \<notin> set cur \<Longrightarrow> line_feed \<notin> set (snd (frame_chars cur cs))"
  by (induction cs arbitrary: cur) simp_all

lemma frame_from_left:
  assumes "line_feed \<notin> set cur"
  shows "frame_chars [] (cur @ cs) = frame_chars cur cs"
  using assms by (simp add: frame_chars_append frame_chars_no_feed)

text \<open>
  The lines read from the child do not depend on how its output is cut into chunks.  Whatever the chunks,
  the lines handed on and the rest kept are those of their concatenation read one character at a time: the
  segments ended by a line feed, without a carriage return before it, blank ones left out.
\<close>

theorem framing_ignores_chunks:
  "push_chunks [] cs = frame_chars [] (concat cs)"
proof -
  have "push_chunks buf cs = frame_chars buf (concat cs)" if "line_feed \<notin> set buf" for buf
    using that
  proof (induction cs arbitrary: buf)
    case (Cons c cs)
    have step: "push_chunk buf c = frame_chars buf c"
      by (simp add: push_chunk_def drain_is_frame frame_from_left [OF Cons.prems])
    have "line_feed \<notin> set (snd (frame_chars buf c))" by (rule frame_left_no_feed [OF Cons.prems])
    then show ?case using Cons.IH by (simp add: step frame_chars_append Let_def)
  qed simp
  then show ?thesis by simp
qed

end
