(* ===== verification/Claude_Rpc.thy ===== *)
theory Claude_Rpc
  imports Claude_Stream "HOL-Library.AList" "HOL-Library.Multiset"
begin

text \<open>
  \<^verbatim>\<open>packages/agent-runtime/claude-code/src/rpc.ts\<close> and \<^verbatim>\<open>control-rpc.ts\<close>: the requests of one resident
  Claude child.  A request is registered under its uuid and written; its admission is decided by the write, its
  settlement by the result that answers it, by its own lifecycle, or by the end of the session.

  What the class does to its surroundings (lines written, promises settled, events handed on) is one log, in
  order.  Uuids, the outcome of a write and the passing of the idle deadline are inputs.  A callback that calls
  the class again is an input that follows.  A write that throws at once is one that fails; no uuid is submitted twice.
\<close>

subsection \<open>The state\<close>

datatype completion_error = Ce_Session | Ce_Turn string | Ce_No_Structured

datatype claude_completion = Cl_Failed completion_error | Cl_Completed "string option"

datatype request_admission = Qa_Submitted | Qa_Ambiguous | Qa_Failed

datatype request_settlement = Qs_Completion claude_completion | Qs_Failed | Qs_Stopped

datatype interrupt_answer = Ia_Answered bool | Ia_Failed

datatype claude_event =
    Ce_Stream parsed_line
  | Ce_Interrupted "string option" claude_outcome
  | Ce_Result "string option" claude_outcome

datatype rpc_out =
    Out_Write js
  | Out_Admit nat request_admission
  | Out_Settle nat request_settlement
  | Out_Event claude_event
  | Out_Turn_Result claude_completion
  | Out_Interrupt nat interrupt_answer
  | Out_Remote string
  | Out_Reap

text \<open>A request has its number and whether its admission is still open.\<close>

record pending_request =
  pr_number :: nat
  pr_admit :: bool

type_synonym requests = "(string \<times> pending_request) list"

record claude_rpc =
  cr_parse :: "string \<Rightarrow> js option"
  cr_stringify :: "js \<Rightarrow> string"
  cr_session :: "string option"
  cr_schema :: bool
  cr_writable :: bool
  cr_buffer :: string
  cr_turn :: turn_aggregator
  cr_requests :: requests
  cr_consumed :: "string list"
  cr_timer :: bool
  cr_closed :: bool
  cr_interrupting :: bool
  cr_interrupt :: "(string \<times> nat list) option"
  cr_remote :: "string option"
  cr_count :: nat
  cr_asks :: nat
  cr_out :: "rpc_out list"

definition new_rpc :: "(string \<Rightarrow> js option) \<Rightarrow> (js \<Rightarrow> string) \<Rightarrow> string option \<Rightarrow> bool \<Rightarrow> claude_rpc" where
  "new_rpc parse stringify session schema =
     \<lparr> cr_parse = parse, cr_stringify = stringify, cr_session = session, cr_schema = schema, cr_writable = True,
       cr_buffer = [], cr_turn = new_aggregator, cr_requests = [], cr_consumed = [], cr_timer = False, cr_closed = False,
       cr_interrupting = False, cr_interrupt = None, cr_remote = None, cr_count = 0, cr_asks = 0, cr_out = [] \<rparr>"

definition emit_out :: "rpc_out list \<Rightarrow> claude_rpc \<Rightarrow> claude_rpc" where
  "emit_out xs s = s\<lparr>cr_out := cr_out s @ xs\<rparr>"

definition clear_idle_if_empty :: "claude_rpc \<Rightarrow> claude_rpc" where
  "clear_idle_if_empty s = (if cr_requests s = [] then s\<lparr>cr_timer := False\<rparr> else s)"

definition arm_idle_timer :: "claude_rpc \<Rightarrow> claude_rpc" where
  "arm_idle_timer s = (if cr_requests s = [] then s else s\<lparr>cr_timer := True\<rparr>)"

text \<open>The requests of some uuids, taken out of the map in the order of the uuids.\<close>

fun take_requests :: "string list \<Rightarrow> requests \<Rightarrow> pending_request list \<times> requests" where
  "take_requests [] rs = ([], rs)"
| "take_requests (u # us) rs =
     (case map_of rs u of
        None \<Rightarrow> take_requests us rs
      | Some r \<Rightarrow> (r # fst (take_requests us (AList.delete u rs)), snd (take_requests us (AList.delete u rs))))"

text \<open>What the end of a request emits: the admission if it is open, then the settlement.\<close>

definition end_request :: "request_admission \<Rightarrow> request_settlement \<Rightarrow> pending_request \<Rightarrow> rpc_out list" where
  "end_request ad st r =
     (if pr_admit r then [Out_Admit (pr_number r) ad] else []) @ [Out_Settle (pr_number r) st]"

subsection \<open>Requests\<close>

definition submit_prompt :: "string \<Rightarrow> string \<Rightarrow> claude_rpc \<Rightarrow> claude_rpc" where
  "submit_prompt prompt uuid s =
     (let n = cr_count s; s' = s\<lparr>cr_count := n + 1\<rparr> in
      if cr_closed s \<or> \<not> cr_writable s then emit_out [Out_Admit n Qa_Failed] s'
      else
        emit_out [Out_Write (build_user_message prompt (Some uuid))]
          (arm_idle_timer (s'\<lparr>cr_requests := AList.update uuid \<lparr> pr_number = n, pr_admit = True \<rparr> (cr_requests s)\<rparr>)))"

definition accept_request :: "string \<Rightarrow> claude_rpc \<Rightarrow> claude_rpc" where
  "accept_request uuid s =
     (case map_of (cr_requests s) uuid of
        None \<Rightarrow> s
      | Some r \<Rightarrow>
          if pr_admit r
          then emit_out [Out_Admit (pr_number r) Qa_Submitted] (s\<lparr>cr_requests := AList.update uuid (r\<lparr>pr_admit := False\<rparr>) (cr_requests s)\<rparr>)
          else s)"

text \<open>Requests leave the map; the events between come before their settlements.\<close>

definition retire_requests ::
  "string list \<Rightarrow> request_admission \<Rightarrow> request_settlement \<Rightarrow> rpc_out list \<Rightarrow> claude_rpc \<Rightarrow> claude_rpc" where
  "retire_requests us ad st evs s =
     (case take_requests us (cr_requests s) of
        (gone, rest) \<Rightarrow> emit_out (evs @ concat (map (end_request ad st) gone)) (clear_idle_if_empty (s\<lparr>cr_requests := rest\<rparr>)))"

text \<open>The callback of a write names the request it was made for.\<close>

definition write_settled :: "string \<Rightarrow> nat \<Rightarrow> bool \<Rightarrow> claude_rpc \<Rightarrow> claude_rpc" where
  "write_settled uuid n ok s =
     (case map_of (cr_requests s) uuid of
        None \<Rightarrow> s
      | Some r \<Rightarrow>
          if pr_number r \<noteq> n \<or> \<not> pr_admit r then s
          else if ok then accept_request uuid s
          else retire_requests [uuid] Qa_Ambiguous Qs_Failed [] (s\<lparr>cr_consumed := removeAll uuid (cr_consumed s)\<rparr>))"

subsection \<open>Control requests\<close>

definition settle_interrupt :: "interrupt_answer \<Rightarrow> claude_rpc \<Rightarrow> claude_rpc" where
  "settle_interrupt ans s =
     (case cr_interrupt s of
        None \<Rightarrow> s
      | Some (_, asks) \<Rightarrow> emit_out (map (\<lambda>k. Out_Interrupt k ans) asks) (s\<lparr>cr_interrupt := None\<rparr>))"

definition interrupt_session :: "string \<Rightarrow> string \<Rightarrow> claude_rpc \<Rightarrow> claude_rpc" where
  "interrupt_session reason rid s =
     (let k = cr_asks s; s' = s\<lparr>cr_asks := k + 1\<rparr> in
      if cr_closed s then emit_out [Out_Interrupt k (Ia_Answered False)] s'
      else
        (case cr_interrupt s of
           Some (p, asks) \<Rightarrow> s'\<lparr>cr_interrupting := True, cr_interrupt := Some (p, asks @ [k])\<rparr>
         | None \<Rightarrow>
             emit_out [Out_Write (build_interrupt_request rid reason)]
               (s'\<lparr>cr_interrupting := True, cr_interrupt := Some (rid, [k])\<rparr>)))"

text \<open>A refusal reaches every caller that waits, and each takes back that it asked.\<close>

definition interrupt_refused :: "claude_rpc \<Rightarrow> claude_rpc" where
  "interrupt_refused s = (settle_interrupt Ia_Failed s)\<lparr>cr_interrupting := False\<rparr>"

definition interrupt_write_failed :: "string \<Rightarrow> claude_rpc \<Rightarrow> claude_rpc" where
  "interrupt_write_failed rid s =
     (case cr_interrupt s of
        Some (p, _) \<Rightarrow> if p = rid then interrupt_refused s else s
      | None \<Rightarrow> s)"

definition on_control_request :: "string option \<Rightarrow> string option \<Rightarrow> js_object \<Rightarrow> claude_rpc \<Rightarrow> claude_rpc" where
  "on_control_request rid subtype rq s =
     (case rid of
        None \<Rightarrow> s
      | Some r \<Rightarrow>
          if \<not> cr_writable s then s
          else emit_out [Out_Write
            (if subtype = Some ''can_use_tool''
             then build_can_use_tool_allow r (case jget rq ''input'' of Obj ob \<Rightarrow> ob | _ \<Rightarrow> [])
             else build_control_ack r)] s)"

definition remote_url :: "js_object \<Rightarrow> string option" where
  "remote_url ob = str_of (if nullish (jget ob ''session_url'') then jget ob ''connect_url'' else jget ob ''session_url'')"

definition on_control_response :: "string option \<Rightarrow> bool \<Rightarrow> js_object option \<Rightarrow> claude_rpc \<Rightarrow> claude_rpc" where
  "on_control_response rid ok response s =
     (case rid of
        None \<Rightarrow> s
      | Some r \<Rightarrow>
          if (case cr_interrupt s of Some (p, _) \<Rightarrow> p = r | None \<Rightarrow> False) then
            (if ok then settle_interrupt (Ia_Answered True) s else interrupt_refused s)
          else if cr_remote s \<noteq> Some r then s
          else
            (let s' = s\<lparr>cr_remote := None\<rparr> in
             case (ok, response) of
               (True, Some ob) \<Rightarrow> (case remote_url ob of Some url \<Rightarrow> emit_out [Out_Remote url] s' | None \<Rightarrow> s')
             | _ \<Rightarrow> s'))"

definition enable_remote_control :: "string \<Rightarrow> claude_rpc \<Rightarrow> claude_rpc" where
  "enable_remote_control rid s =
     (if cr_closed s \<or> \<not> cr_writable s then s
      else emit_out [Out_Write (build_remote_control_enable rid)] (s\<lparr>cr_remote := Some rid\<rparr>))"

subsection \<open>The end of the session\<close>

definition close_session :: "request_settlement \<Rightarrow> claude_rpc \<Rightarrow> claude_rpc" where
  "close_session st s =
     (let s1 = retire_requests (map fst (cr_requests s)) Qa_Ambiguous st [] (s\<lparr>cr_closed := True\<rparr>);
          s2 = s1\<lparr>cr_consumed := [], cr_turn := discard_turn (cr_turn s1)\<rparr> in
      if cr_interrupting s2
      then settle_interrupt (if st = Qs_Failed then Ia_Failed else Ia_Answered (st = Qs_Stopped)) (s2\<lparr>cr_interrupting := False\<rparr>)
      else s2)"

definition idle_deadline :: "claude_rpc \<Rightarrow> claude_rpc" where
  "idle_deadline s = (if cr_timer s then emit_out [Out_Reap] (close_session Qs_Failed s) else s)"

subsection \<open>Lines\<close>

fun join_errors :: "string list \<Rightarrow> string" where
  "join_errors [] = []"
| "join_errors [e] = e"
| "join_errors (e # f # es) = e @ ''; '' @ join_errors (f # es)"

definition turn_failure_message :: "claude_outcome \<Rightarrow> string" where
  "turn_failure_message o' =
     (let or_next = (\<lambda>a b. if a = [] then b else a); text_of = (\<lambda>x. case x of Some t \<Rightarrow> t | None \<Rightarrow> []) in
      or_next (join_errors (to_errors o'))
        (or_next (if to_subtype o' = Some ''success'' then to_text o' else [])
          (or_next (text_of (to_reason o')) (or_next (text_of (to_subtype o')) ''claude turn failed''))))"

definition completion_from_turn_outcome :: "claude_outcome \<Rightarrow> string option \<Rightarrow> bool \<Rightarrow> claude_completion" where
  "completion_from_turn_outcome o' expected schema =
     (if to_session o' \<noteq> None \<and> to_session o' \<noteq> Some [] \<and> to_session o' \<noteq> expected then Cl_Failed Ce_Session
      else if to_is_error o' then Cl_Failed (Ce_Turn (turn_failure_message o'))
      else if schema \<and> \<not> to_structured o' then Cl_Failed Ce_No_Structured
      else Cl_Completed (if to_text o' = [] then None else Some (to_text o')))"

definition is_interrupt_reason :: "string option \<Rightarrow> bool" where
  "is_interrupt_reason reason \<longleftrightarrow> reason = Some ''aborted_streaming'' \<or> reason = Some ''aborted_tools''"

definition add_once :: "string \<Rightarrow> string list \<Rightarrow> string list" where
  "add_once x xs = (if x \<in> set xs then xs else xs @ [x])"

definition on_lifecycle :: "string \<Rightarrow> lifecycle_state \<Rightarrow> claude_rpc \<Rightarrow> claude_rpc" where
  "on_lifecycle uuid st s =
     (let s1 = (if st = Ls_Started then s\<lparr>cr_consumed := add_once uuid (cr_consumed s)\<rparr> else s);
          s2 = accept_request uuid s1;
          s3 = (if st = Ls_Discarded \<or> st = Ls_Refused \<or> st = Ls_Cancelled \<and> uuid \<notin> set (cr_consumed s2)
                then retire_requests [uuid] Qa_Submitted Qs_Failed [] s2 else s2) in
      if st = Ls_Cancelled \<and> uuid \<in> set (cr_consumed s3) then s3\<lparr>cr_turn := discard_turn (cr_turn s3)\<rparr> else s3)"

definition on_result :: "string option \<Rightarrow> result_envelope \<Rightarrow> claude_rpc \<Rightarrow> claude_rpc" where
  "on_result uuid r s =
     (case take_outcome (accept_line (Pl_Result uuid r) (cr_turn s)) of
        (None, _) \<Rightarrow> s
      | (Some o', turn) \<Rightarrow>
          (let us = (case re_user_message r of None \<Rightarrow> cr_consumed s | Some u \<Rightarrow> add_once u (cr_consumed s));
               interrupted = is_interrupt_reason (re_reason r);
               s1 = s\<lparr>cr_turn := turn, cr_consumed := []\<rparr>;
               s2 = (if cr_interrupting s1 then settle_interrupt (Ia_Answered interrupted) (s1\<lparr>cr_interrupting := False\<rparr>) else s1);
               c = completion_from_turn_outcome o' (cr_session s) (cr_schema s) in
           if interrupted then retire_requests us Qa_Submitted Qs_Stopped [Out_Event (Ce_Interrupted uuid o')] s2
           else retire_requests us Qa_Submitted (Qs_Completion c) [Out_Event (Ce_Result uuid o'), Out_Turn_Result c] s2))"

definition on_line :: "parsed_line \<Rightarrow> claude_rpc \<Rightarrow> claude_rpc" where
  "on_line l s0 =
     (let s = arm_idle_timer s0 in
      case l of
        Pl_Init _ _ \<Rightarrow> s\<lparr>cr_turn := accept_line l (cr_turn s)\<rparr>
      | Pl_Assistant _ _ _ \<Rightarrow> emit_out [Out_Event (Ce_Stream l)] (s\<lparr>cr_turn := accept_line l (cr_turn s)\<rparr>)
      | Pl_User _ \<Rightarrow> emit_out [Out_Event (Ce_Stream l)] s
      | Pl_Compact _ \<Rightarrow> emit_out [Out_Event (Ce_Stream l)] s
      | Pl_Stream_Event _ \<Rightarrow> emit_out [Out_Event (Ce_Stream l)] s
      | Pl_Lifecycle (Some uuid) (Some st) \<Rightarrow> on_lifecycle uuid st s
      | Pl_Result uuid r \<Rightarrow> on_result uuid r s
      | Pl_Control_Request rid sub rq \<Rightarrow> on_control_request rid sub rq s
      | Pl_Control_Response rid ok response _ \<Rightarrow> on_control_response rid ok response s
      | _ \<Rightarrow> s)"

fun on_lines :: "string list \<Rightarrow> claude_rpc \<Rightarrow> claude_rpc" where
  "on_lines [] s = s"
| "on_lines (l # ls) s = (if cr_closed s then s else on_lines ls (on_line (parse_claude_line (cr_parse s) (cr_stringify s) l) s))"

definition on_stdout_chunk :: "string \<Rightarrow> claude_rpc \<Rightarrow> claude_rpc" where
  "on_stdout_chunk chunk s =
     (if cr_closed s then s
      else (case push_chunk (cr_buffer s) chunk of (ls, left) \<Rightarrow> on_lines ls (s\<lparr>cr_buffer := left\<rparr>)))"

subsection \<open>Any interleaving\<close>

datatype rpc_input =
    Ri_Submit string string
  | Ri_Written string nat bool
  | Ri_Chunk string
  | Ri_Interrupt string string
  | Ri_Interrupt_Unwritten string
  | Ri_Deadline
  | Ri_Remote string
  | Ri_Stdin_Ended
  | Ri_Stop
  | Ri_Fail

fun rpc_do :: "rpc_input \<Rightarrow> claude_rpc \<Rightarrow> claude_rpc" where
  "rpc_do (Ri_Submit prompt uuid) s = submit_prompt prompt uuid s"
| "rpc_do (Ri_Written uuid n ok) s = write_settled uuid n ok s"
| "rpc_do (Ri_Chunk chunk) s = on_stdout_chunk chunk s"
| "rpc_do (Ri_Interrupt reason rid) s = interrupt_session reason rid s"
| "rpc_do (Ri_Interrupt_Unwritten rid) s = interrupt_write_failed rid s"
| "rpc_do Ri_Deadline s = idle_deadline s"
| "rpc_do (Ri_Remote rid) s = enable_remote_control rid s"
| "rpc_do Ri_Stdin_Ended s = s\<lparr>cr_writable := False\<rparr>"
| "rpc_do Ri_Stop s = close_session Qs_Stopped s"
| "rpc_do Ri_Fail s = close_session Qs_Failed s"

definition rpc_run :: "rpc_input list \<Rightarrow> claude_rpc \<Rightarrow> claude_rpc" where
  "rpc_run qs s = fold rpc_do qs s"

end
