(* ===== verification/Claude_Rpc_Props.thy ===== *)
theory Claude_Rpc_Props
  imports Claude_Rpc
begin

text \<open>
  What holds of a resident Claude child over any interleaving of submissions, write callbacks, output, deadlines,
  interrupts and ends of the session: every request and every interrupt is answered exactly once.
\<close>

subsection \<open>What was said of one request, and of one interrupt\<close>

fun says_request :: "nat \<Rightarrow> rpc_out \<Rightarrow> bool" where
  "says_request n (Out_Admit m _) = (m = n)"
| "says_request n (Out_Settle m _) = (m = n)"
| "says_request n _ = False"

fun says_ask :: "nat \<Rightarrow> rpc_out \<Rightarrow> bool" where
  "says_ask k (Out_Interrupt j _) = (j = k)"
| "says_ask k _ = False"

definition request_log :: "nat \<Rightarrow> rpc_out list \<Rightarrow> rpc_out list" where
  "request_log n out = filter (says_request n) out"

definition ask_log :: "nat \<Rightarrow> rpc_out list \<Rightarrow> rpc_out list" where
  "ask_log k out = filter (says_ask k) out"

lemma logs_append [simp]:
  "request_log n (xs @ ys) = request_log n xs @ request_log n ys"
  "ask_log n (xs @ ys) = ask_log n xs @ ask_log n ys"
  by (simp_all add: request_log_def ask_log_def)

lemma logs_Nil [simp]: "request_log n [] = []" "ask_log n [] = []"
  by (simp_all add: request_log_def ask_log_def)

lemma request_log_Cons [simp]: "request_log n (x # xs) = (if says_request n x then x # request_log n xs else request_log n xs)"
  by (simp add: request_log_def)

lemma ask_log_Cons [simp]: "ask_log n (x # xs) = (if says_ask n x then x # ask_log n xs else ask_log n xs)"
  by (simp add: ask_log_def)

text \<open>How an ended request may look: refused, or admitted once and settled once.\<close>

definition fair_end :: "request_admission \<Rightarrow> request_settlement \<Rightarrow> bool" where
  "fair_end ad st \<longleftrightarrow> ad = Qa_Submitted \<or> ad = Qa_Ambiguous \<and> (st = Qs_Failed \<or> st = Qs_Stopped)"

definition ended_log :: "nat \<Rightarrow> rpc_out list \<Rightarrow> bool" where
  "ended_log n l \<longleftrightarrow> l = [Out_Admit n Qa_Failed] \<or> (\<exists>ad st. l = [Out_Admit n ad, Out_Settle n st] \<and> fair_end ad st)"

definition open_log :: "pending_request \<Rightarrow> rpc_out list" where
  "open_log r = (if pr_admit r then [] else [Out_Admit (pr_number r) Qa_Submitted])"

subsection \<open>The request table\<close>

definition numbers :: "requests \<Rightarrow> nat list" where
  "numbers rs = map (\<lambda>p. pr_number (snd p)) rs"

definition ledger_ok :: "requests \<Rightarrow> nat \<Rightarrow> rpc_out list \<Rightarrow> bool" where
  "ledger_ok rs cnt out \<longleftrightarrow>
     distinct (map fst rs) \<and> distinct (numbers rs) \<and> (\<forall>n \<in> set (numbers rs). n < cnt) \<and>
     (\<forall>u r. (u, r) \<in> set rs \<longrightarrow> request_log (pr_number r) out = open_log r) \<and>
     (\<forall>n. n < cnt \<and> n \<notin> set (numbers rs) \<longrightarrow> ended_log n (request_log n out)) \<and>
     (\<forall>n. cnt \<le> n \<longrightarrow> request_log n out = [])"

lemma member_numbers: "(u, r) \<in> set rs \<Longrightarrow> pr_number r \<in> set (numbers rs)"
  unfolding numbers_def by force

lemma ledger_open: "ledger_ok rs cnt out \<Longrightarrow> (u, r) \<in> set rs \<Longrightarrow> request_log (pr_number r) out = open_log r"
  unfolding ledger_ok_def by blast

lemma ledger_bound: "ledger_ok rs cnt out \<Longrightarrow> n \<in> set (numbers rs) \<Longrightarrow> n < cnt"
  unfolding ledger_ok_def by blast

lemma ledger_ended: "ledger_ok rs cnt out \<Longrightarrow> n < cnt \<Longrightarrow> n \<notin> set (numbers rs) \<Longrightarrow> ended_log n (request_log n out)"
  unfolding ledger_ok_def by blast

lemma ledger_fresh: "ledger_ok rs cnt out \<Longrightarrow> cnt \<le> n \<Longrightarrow> request_log n out = []"
  unfolding ledger_ok_def by blast

lemma ledger_distinct: "ledger_ok rs cnt out \<Longrightarrow> distinct (map fst rs) \<and> distinct (numbers rs)"
  unfolding ledger_ok_def by blast

lemma ledgerI:
  assumes "distinct (map fst rs)" "distinct (numbers rs)" "\<And>n. n \<in> set (numbers rs) \<Longrightarrow> n < cnt"
    and "\<And>u r. (u, r) \<in> set rs \<Longrightarrow> request_log (pr_number r) out = open_log r"
    and "\<And>n. n < cnt \<Longrightarrow> n \<notin> set (numbers rs) \<Longrightarrow> ended_log n (request_log n out)"
    and "\<And>n. cnt \<le> n \<Longrightarrow> request_log n out = []"
  shows "ledger_ok rs cnt out"
  unfolding ledger_ok_def using assms by blast

lemma ledger_quiet:
  assumes "ledger_ok rs cnt out" and "\<And>n. request_log n xs = []"
  shows "ledger_ok rs cnt (out @ xs)"
  using assms by (simp add: ledger_ok_def)

lemma delete_mset:
  assumes "distinct (map fst rs)" "map_of rs u = Some r"
  shows "mset rs = add_mset (u, r) (mset (AList.delete u rs))"
  using assms
proof (induction rs)
  case (Cons p rs)
  then show ?case
  proof (cases "fst p = u")
    case True
    then have "u \<notin> fst ` set rs" using Cons.prems(1) by auto
    then have "AList.delete u rs = rs" by (simp add: delete_id)
    then show ?thesis using Cons.prems True by (cases p) simp
  qed (cases p; simp)
qed simp

lemma update_present:
  assumes "distinct (map fst rs)" "map_of rs u = Some r"
  shows "mset (AList.update u v rs) = add_mset (u, v) (mset (AList.delete u rs))"
  using assms
proof (induction rs)
  case (Cons p rs)
  then show ?case
  proof (cases "fst p = u")
    case True
    then have "u \<notin> fst ` set rs" using Cons.prems(1) by auto
    then have "AList.delete u rs = rs" by (simp add: delete_id)
    then show ?thesis using True by (cases p) simp
  qed (cases p; simp)
qed simp

lemma update_absent: "u \<notin> fst ` set rs \<Longrightarrow> AList.update u v rs = rs @ [(u, v)]"
  by (induction rs) auto

lemma take_requests_mset:
  assumes "distinct (map fst rs)"
  shows "\<exists>es. map snd es = fst (take_requests us rs) \<and> mset rs = mset es + mset (snd (take_requests us rs)) \<and>
    (\<forall>u \<in> set us. u \<notin> fst ` set (snd (take_requests us rs)))"
  using assms
proof (induction us arbitrary: rs)
  case (Cons u us)
  show ?case
  proof (cases "map_of rs u")
    case None
    then have u: "u \<notin> fst ` set rs" by (simp add: map_of_eq_None_iff)
    from Cons.IH [OF Cons.prems] obtain es where
      es: "map snd es = fst (take_requests us rs)" "mset rs = mset es + mset (snd (take_requests us rs))"
        "\<forall>u \<in> set us. u \<notin> fst ` set (snd (take_requests us rs))" by blast
    have "set (snd (take_requests us rs)) \<subseteq> set rs" using es(2) by (metis set_mset_mset set_mset_union sup_ge2)
    then show ?thesis using None es u by (intro exI [of _ es]) auto
  next
    case (Some r)
    let ?rs = "AList.delete u rs"
    have "distinct (map fst ?rs)" using Cons.prems by (rule distinct_delete)
    from Cons.IH [OF this] obtain es where
      es: "map snd es = fst (take_requests us ?rs)" "mset ?rs = mset es + mset (snd (take_requests us ?rs))"
        "\<forall>u \<in> set us. u \<notin> fst ` set (snd (take_requests us ?rs))" by blast
    have "set (snd (take_requests us ?rs)) \<subseteq> set ?rs" using es(2) by (metis set_mset_mset set_mset_union sup_ge2)
    moreover have "u \<notin> fst ` set ?rs" by (rule delete_notin_dom)
    ultimately show ?thesis using Some es delete_mset [OF Cons.prems Some]
      by (intro exI [of _ "(u, r) # es"]) auto
  qed
qed simp

lemma log_of_ends:
  assumes "distinct (map pr_number gone)"
  shows "request_log n (concat (map (end_request ad st) gone)) =
    (case find (\<lambda>r. pr_number r = n) gone of None \<Rightarrow> [] | Some r \<Rightarrow> end_request ad st r)"
  using assms
proof (induction gone)
  case (Cons r gone)
  have none: "find (\<lambda>r'. pr_number r' = pr_number r) gone = None" using Cons.prems unfolding find_None_iff by (metis distinct.simps(2) image_eqI list.map(2) set_map)
  show ?case using Cons none by (cases "pr_number r = n") (auto simp: end_request_def)
qed simp

text \<open>Only which requests are in the table matters, not their order.\<close>

lemma ledger_mset:
  assumes "mset rs = mset rs'" "ledger_ok rs cnt out"
  shows "ledger_ok rs' cnt out"
proof -
  have set: "set rs' = set rs" using assms(1) by (metis set_mset_mset)
  have keys: "distinct (map fst rs') \<longleftrightarrow> distinct (map fst rs)"
    using assms(1) by (intro mset_eq_imp_distinct_iff) simp
  have nums: "distinct (numbers rs') \<longleftrightarrow> distinct (numbers rs)"
    using assms(1) unfolding numbers_def by (intro mset_eq_imp_distinct_iff) simp
  have "set (numbers rs') = set (numbers rs)" using set by (simp add: numbers_def)
  then show ?thesis using assms(2) set keys nums by (simp add: ledger_ok_def)
qed

lemma numbers_simps [simp]:
  "numbers [] = []" "numbers (p # rs) = pr_number (snd p) # numbers rs" "numbers (rs @ rs') = numbers rs @ numbers rs'"
  by (simp_all add: numbers_def)

lemma ledger_registers:
  assumes "ledger_ok rs cnt out" "u \<notin> fst ` set rs"
  shows "ledger_ok (rs @ [(u, \<lparr> pr_number = cnt, pr_admit = True \<rparr>)]) (cnt + 1) out"
proof -
  have "cnt \<notin> set (numbers rs)" using assms(1) by (auto simp: ledger_ok_def)
  then show ?thesis using assms by (auto simp: ledger_ok_def open_log_def less_Suc_eq)
qed

lemma ledger_refuses:
  assumes "ledger_ok rs cnt out"
  shows "ledger_ok rs (cnt + 1) (out @ [Out_Admit cnt Qa_Failed])"
proof -
  have n: "pr_number r < cnt" if "(u, r) \<in> set rs" for u r
    using assms member_numbers [OF that] by (simp add: ledger_ok_def)
  have "cnt \<notin> set (numbers rs)" using assms by (auto simp: ledger_ok_def)
  then show ?thesis using assms n by (auto simp: ledger_ok_def ended_log_def less_Suc_eq)
qed

lemma ledger_accepts:
  assumes ok: "ledger_ok ((u, r) # rs) cnt out" and r: "pr_admit r"
  shows "ledger_ok ((u, r\<lparr>pr_admit := False\<rparr>) # rs) cnt (out @ [Out_Admit (pr_number r) Qa_Submitted])"
proof (rule ledgerI)
  have num: "numbers ((u, r\<lparr>pr_admit := False\<rparr>) # rs) = numbers ((u, r) # rs)" by simp
  note dist = ledger_distinct [OF ok]
  have here: "pr_number r < cnt" by (rule ledger_bound [OF ok]) simp
  have mine: "request_log (pr_number r) out = []" using ledger_open [OF ok, of u r] r by (simp add: open_log_def)
  show "distinct (map fst ((u, r\<lparr>pr_admit := False\<rparr>) # rs))" using dist by simp
  show "distinct (numbers ((u, r\<lparr>pr_admit := False\<rparr>) # rs))" using dist unfolding num by blast
  show "n < cnt" if "n \<in> set (numbers ((u, r\<lparr>pr_admit := False\<rparr>) # rs))" for n
    using ledger_bound [OF ok] that unfolding num by blast
  show "request_log (pr_number q) (out @ [Out_Admit (pr_number r) Qa_Submitted]) = open_log q"
    if q: "(v, q) \<in> set ((u, r\<lparr>pr_admit := False\<rparr>) # rs)" for v q
  proof (cases "(v, q) \<in> set rs")
    case True
    then have "pr_number q \<noteq> pr_number r" using dist member_numbers by fastforce
    then show ?thesis using ledger_open [OF ok, of v q] True by simp
  next
    case False
    then have "q = r\<lparr>pr_admit := False\<rparr>" using q by simp
    then show ?thesis using mine by (simp add: open_log_def)
  qed
  show "ended_log n (request_log n (out @ [Out_Admit (pr_number r) Qa_Submitted]))"
    if n: "n < cnt" "n \<notin> set (numbers ((u, r\<lparr>pr_admit := False\<rparr>) # rs))" for n
    using ledger_ended [OF ok, of n] n by simp
  show "request_log n (out @ [Out_Admit (pr_number r) Qa_Submitted]) = []" if "cnt \<le> n" for n
    using ledger_fresh [OF ok that] here that by simp
qed

lemma ended_of_open: "fair_end ad st \<Longrightarrow> ended_log (pr_number r) (open_log r @ end_request ad st r)"
  by (auto simp: ended_log_def open_log_def end_request_def fair_end_def)

lemma ledger_retires:
  assumes ok: "ledger_ok (es @ rs) cnt out" and fair: "fair_end ad st"
  shows "ledger_ok rs cnt (out @ concat (map (end_request ad st) (map snd es)))"
proof -
  have dist: "distinct (numbers es @ numbers rs)" using ok by (simp add: ledger_ok_def)
  have gone: "distinct (map pr_number (map snd es))" using dist by (simp add: numbers_def comp_def)
  note ends = log_of_ends [OF gone, of _ ad st]
  have none: "request_log n (concat (map (end_request ad st) (map snd es))) = []" if n: "n \<notin> set (numbers es)" for n
  proof -
    have "find (\<lambda>r. pr_number r = n) (map snd es) = None" using n by (auto simp: find_None_iff numbers_def)
    then show ?thesis by (simp only: ends option.case)
  qed
  have some: "ended_log n (request_log n (out @ concat (map (end_request ad st) (map snd es))))" if n: "n \<in> set (numbers es)" for n
  proof -
    have "find (\<lambda>r. pr_number r = n) (map snd es) \<noteq> None" using n by (auto simp: find_None_iff numbers_def)
    then obtain r where r: "find (\<lambda>r. pr_number r = n) (map snd es) = Some r" by blast
    then have rn: "pr_number r = n" "r \<in> set (map snd es)" by (auto simp: find_Some_iff)
    then have "request_log n out = open_log r" using ok by (auto simp: ledger_ok_def)
    then have "request_log n (out @ concat (map (end_request ad st) (map snd es))) = open_log r @ end_request ad st r"
      by (simp only: logs_append ends r option.case)
    then show ?thesis using ended_of_open [OF fair, of r] rn by simp
  qed
  have rest: "n \<notin> set (numbers es)" if "n \<in> set (numbers rs)" for n using dist that by auto
  have old: "request_log (pr_number r) out = open_log r" "pr_number r \<in> set (numbers rs)" if m: "(u, r) \<in> set rs" for u r
    using ledger_open [OF ok, of u r] m member_numbers [OF m] by simp_all
  have "ended_log n (request_log n (out @ concat (map (end_request ad st) (map snd es))))"
    if n: "n < cnt" "n \<notin> set (numbers rs)" for n
  proof (cases "n \<in> set (numbers es)")
    case False
    then show ?thesis using ok n none [OF False] by (simp add: ledger_ok_def)
  qed (rule some)
  moreover have "request_log n (out @ concat (map (end_request ad st) (map snd es))) = []" if "cnt \<le> n" for n
  proof -
    have "n \<notin> set (numbers es)" using ledger_bound [OF ok, of n] that by auto
    then show ?thesis using ledger_fresh [OF ok that] none by simp
  qed
  moreover have "request_log (pr_number r) (out @ concat (map (end_request ad st) (map snd es))) = open_log r"
    if "(u, r) \<in> set rs" for u r
    using old [OF that] none [OF rest] by simp
  ultimately show ?thesis using ok unfolding ledger_ok_def by auto
qed

subsection \<open>The invariant\<close>

definition waiting :: "claude_rpc \<Rightarrow> nat list" where
  "waiting s = (case cr_interrupt s of None \<Rightarrow> [] | Some p \<Rightarrow> snd p)"

definition asks_ok :: "nat list \<Rightarrow> nat \<Rightarrow> rpc_out list \<Rightarrow> bool" where
  "asks_ok ks cnt out \<longleftrightarrow>
     distinct ks \<and> (\<forall>k \<in> set ks. k < cnt) \<and>
     (\<forall>k. if k < cnt \<and> k \<notin> set ks then \<exists>ans. ask_log k out = [Out_Interrupt k ans] else ask_log k out = [])"

definition completions_ok :: "rpc_out list \<Rightarrow> bool" where
  "completions_ok out \<longleftrightarrow>
     (\<forall>k < length out. \<forall>n c. out ! k = Out_Settle n (Qs_Completion c) \<longrightarrow> Out_Turn_Result c \<in> set (take k out))"

definition core_ok :: "claude_rpc \<Rightarrow> bool" where
  "core_ok s \<longleftrightarrow>
     ledger_ok (cr_requests s) (cr_count s) (cr_out s) \<and> (cr_timer s \<longleftrightarrow> cr_requests s \<noteq> []) \<and>
     asks_ok (waiting s) (cr_asks s) (cr_out s) \<and> completions_ok (cr_out s)"

definition rpc_ok :: "claude_rpc \<Rightarrow> bool" where
  "rpc_ok s \<longleftrightarrow>
     core_ok s \<and> (cr_closed s \<longrightarrow> cr_requests s = []) \<and>
     (cr_interrupt s \<noteq> None \<longrightarrow> cr_interrupting s \<and> \<not> cr_closed s)"

definition keys :: "claude_rpc \<Rightarrow> string set" where
  "keys s = fst ` set (cr_requests s)"

text \<open>What concerns no request, no interrupt and no settlement.\<close>

fun silent :: "rpc_out list \<Rightarrow> bool" where
  "silent [] = True"
| "silent (Out_Admit _ _ # _) = False"
| "silent (Out_Settle _ _ # _) = False"
| "silent (Out_Interrupt _ _ # _) = False"
| "silent (_ # xs) = silent xs"

lemma silent_logs: "silent xs \<Longrightarrow> request_log n xs = [] \<and> ask_log n xs = [] \<and> Out_Settle m st \<notin> set xs"
  by (induction xs rule: silent.induct) simp_all

lemma completions_append:
  assumes "completions_ok xs" and "\<And>n c. Out_Settle n (Qs_Completion c) \<in> set ys \<Longrightarrow> Out_Turn_Result c \<in> set xs"
  shows "completions_ok (xs @ ys)"
  unfolding completions_ok_def
proof (intro allI impI)
  fix k n c assume k: "k < length (xs @ ys)" and at: "(xs @ ys) ! k = Out_Settle n (Qs_Completion c)"
  show "Out_Turn_Result c \<in> set (take k (xs @ ys))"
  proof (cases "k < length xs")
    case True
    then show ?thesis using assms(1) at by (simp add: completions_ok_def nth_append)
  next
    case False
    then have "Out_Settle n (Qs_Completion c) \<in> set ys" using at k by (simp add: nth_append) (metis add_diff_inverse_nat nat_add_left_cancel_less nth_mem)
    then show ?thesis using assms(2) False by simp
  qed
qed

lemma asks_quiet: "asks_ok ks cnt out \<Longrightarrow> (\<And>k. ask_log k xs = []) \<Longrightarrow> asks_ok ks cnt (out @ xs)"
  by (simp add: asks_ok_def)

lemma asks_answered:
  assumes "asks_ok ks cnt out"
  shows "asks_ok [] cnt (out @ map (\<lambda>k. Out_Interrupt k ans) ks)"
proof -
  have log: "ask_log k (map (\<lambda>k. Out_Interrupt k ans) js) = (if k \<in> set js then [Out_Interrupt k ans] else [])"
    if "distinct js" for k js
    using that by (induction js) auto
  have ks: "distinct ks" "\<And>k. k \<in> set ks \<Longrightarrow> k < cnt" using assms by (auto simp: asks_ok_def)
  have "if k < cnt then \<exists>a. ask_log k (out @ map (\<lambda>k. Out_Interrupt k ans) ks) = [Out_Interrupt k a]
    else ask_log k (out @ map (\<lambda>k. Out_Interrupt k ans) ks) = []" for k
    using assms [unfolded asks_ok_def] log [OF ks(1), of k] ks(2) [of k]
    by (cases "k \<in> set ks") (auto split: if_splits dest: spec [of _ k])
  then show ?thesis unfolding asks_ok_def by (simp del: logs_append)
qed

lemma asks_joins: "asks_ok ks cnt out \<Longrightarrow> asks_ok (ks @ [cnt]) (cnt + 1) out"
  by (auto simp: asks_ok_def less_Suc_eq split: if_splits)

lemma asks_immediate: "asks_ok ks cnt out \<Longrightarrow> asks_ok ks (cnt + 1) (out @ [Out_Interrupt cnt ans])"
  by (auto simp: asks_ok_def less_Suc_eq split: if_splits)

subsection \<open>The steps\<close>

lemma emit_out_fields [simp]:
  "cr_requests (emit_out xs s) = cr_requests s" "cr_count (emit_out xs s) = cr_count s"
  "cr_timer (emit_out xs s) = cr_timer s" "cr_asks (emit_out xs s) = cr_asks s"
  "cr_interrupt (emit_out xs s) = cr_interrupt s" "cr_interrupting (emit_out xs s) = cr_interrupting s"
  "cr_closed (emit_out xs s) = cr_closed s" "cr_out (emit_out xs s) = cr_out s @ xs"
  "waiting (emit_out xs s) = waiting s"
  by (simp_all add: emit_out_def waiting_def)

lemma core_silent:
  assumes "core_ok s" "silent xs"
  shows "core_ok (emit_out xs s)"
  using assms silent_logs [OF assms(2)]
  by (auto simp: core_ok_def intro: ledger_quiet asks_quiet completions_append)

lemma rpc_silent: "rpc_ok s \<Longrightarrow> silent xs \<Longrightarrow> rpc_ok (emit_out xs s)"
  by (simp add: rpc_ok_def core_silent)

lemma ends_silent_of_asks [simp]: "ask_log k (concat (map (end_request ad st) rs)) = []"
  by (induction rs) (simp_all add: end_request_def)

lemma settled_of_ends: "Out_Settle n x \<in> set (concat (map (end_request ad st) rs)) \<Longrightarrow> x = st"
  by (auto simp: end_request_def split: if_splits)

lemma retire_fields [simp]:
  "cr_requests (retire_requests us ad st evs s) = snd (take_requests us (cr_requests s))"
  "cr_count (retire_requests us ad st evs s) = cr_count s" "cr_asks (retire_requests us ad st evs s) = cr_asks s"
  "cr_interrupt (retire_requests us ad st evs s) = cr_interrupt s"
  "cr_interrupting (retire_requests us ad st evs s) = cr_interrupting s"
  "cr_closed (retire_requests us ad st evs s) = cr_closed s"
  "waiting (retire_requests us ad st evs s) = waiting s"
  "cr_timer (retire_requests us ad st evs s) \<longleftrightarrow> cr_timer s \<and> snd (take_requests us (cr_requests s)) \<noteq> []"
  "cr_out (retire_requests us ad st evs s) =
     (cr_out s @ evs) @ concat (map (end_request ad st) (fst (take_requests us (cr_requests s))))"
  by (auto simp: retire_requests_def clear_idle_if_empty_def waiting_def split: prod.split)

lemma take_requests_subset:
  assumes "distinct (map fst rs)"
  shows "set (snd (take_requests us rs)) \<subseteq> set rs"
proof -
  obtain es where "mset rs = mset es + mset (snd (take_requests us rs))" using take_requests_mset [OF assms, of us] by blast
  then show ?thesis by (metis set_mset_mset set_mset_union sup_ge2)
qed

lemma core_retires:
  assumes ok: "core_ok s" and fair: "fair_end ad st" and evs: "silent evs"
    and told: "\<And>c. st = Qs_Completion c \<Longrightarrow> Out_Turn_Result c \<in> set evs"
  shows "core_ok (retire_requests us ad st evs s)"
proof -
  let ?t = "take_requests us (cr_requests s)"
  have led: "ledger_ok (cr_requests s) (cr_count s) (cr_out s)" using ok by (simp add: core_ok_def)
  have dist: "distinct (map fst (cr_requests s))" using ledger_distinct [OF led] by blast
  from take_requests_mset [OF dist, of us] obtain es where
    es: "map snd es = fst ?t" and ms: "mset (cr_requests s) = mset es + mset (snd ?t)" by blast
  have "ledger_ok (es @ snd ?t) (cr_count s) (cr_out s @ evs)"
    by (rule ledger_mset [of "cr_requests s"]) (use ms led silent_logs [OF evs] in \<open>auto intro: ledger_quiet\<close>)
  from ledger_retires [OF this fair] have "ledger_ok (snd ?t) (cr_count s) (cr_out (retire_requests us ad st evs s))"
    by (simp add: es)
  moreover have "completions_ok (cr_out (retire_requests us ad st evs s))"
    unfolding retire_fields
  proof (rule completions_append)
    show "completions_ok (cr_out s @ evs)"
      using ok silent_logs [OF evs] by (auto simp: core_ok_def intro: completions_append)
    show "Out_Turn_Result c \<in> set (cr_out s @ evs)"
      if "Out_Settle n (Qs_Completion c) \<in> set (concat (map (end_request ad st) (fst ?t)))" for n c
      using settled_of_ends [OF that] told by auto
  qed
  moreover have "asks_ok (waiting s) (cr_asks s) (cr_out (retire_requests us ad st evs s))"
    using ok silent_logs [OF evs] by (auto simp: core_ok_def intro!: asks_quiet)
  moreover have "cr_timer s" if "snd ?t \<noteq> []"
    using ok that take_requests_subset [OF dist, of us] by (auto simp: core_ok_def)
  ultimately show ?thesis by (auto simp: core_ok_def simp del: retire_fields(9))
qed

lemma rpc_retires:
  assumes ok: "rpc_ok s" and "fair_end ad st" "silent evs" "\<And>c. st = Qs_Completion c \<Longrightarrow> Out_Turn_Result c \<in> set evs"
  shows "rpc_ok (retire_requests us ad st evs s)" "keys (retire_requests us ad st evs s) \<subseteq> keys s"
proof -
  have core: "core_ok s" using ok by (simp add: rpc_ok_def)
  have dist: "distinct (map fst (cr_requests s))" using core ledger_distinct by (auto simp: core_ok_def)
  note sub = take_requests_subset [OF dist, of us]
  show "keys (retire_requests us ad st evs s) \<subseteq> keys s" using sub by (auto simp: keys_def)
  show "rpc_ok (retire_requests us ad st evs s)"
    using core_retires [OF core assms(2-4), of us] ok sub by (auto simp: rpc_ok_def)
qed

text \<open>The invariant reads nothing of the reduction of turns, the output buffer and the remote control.\<close>

lemma rpc_ok_ignores [simp]:
  "rpc_ok (s\<lparr>cr_turn := t\<rparr>) = rpc_ok s" "rpc_ok (s\<lparr>cr_consumed := us\<rparr>) = rpc_ok s"
  "rpc_ok (s\<lparr>cr_buffer := b\<rparr>) = rpc_ok s" "rpc_ok (s\<lparr>cr_remote := r\<rparr>) = rpc_ok s"
  "rpc_ok (s\<lparr>cr_writable := w\<rparr>) = rpc_ok s"
  by (simp_all add: rpc_ok_def core_ok_def waiting_def)

lemma keys_ignores [simp]:
  "keys (s\<lparr>cr_turn := t\<rparr>) = keys s" "keys (s\<lparr>cr_consumed := us\<rparr>) = keys s" "keys (s\<lparr>cr_buffer := b\<rparr>) = keys s"
  "keys (s\<lparr>cr_remote := r\<rparr>) = keys s" "keys (s\<lparr>cr_writable := w\<rparr>) = keys s" "keys (s\<lparr>cr_interrupting := i\<rparr>) = keys s"
  "keys (emit_out xs s) = keys s"
  by (simp_all add: keys_def)

lemma settled_interrupt:
  assumes "core_ok s"
  shows "core_ok (settle_interrupt ans s)" "cr_interrupt (settle_interrupt ans s) = None"
    "cr_requests (settle_interrupt ans s) = cr_requests s" "cr_closed (settle_interrupt ans s) = cr_closed s"
    "cr_interrupting (settle_interrupt ans s) = cr_interrupting s"
proof -
  have asks: "request_log n (map (\<lambda>k. Out_Interrupt k ans) ks) = []" for n ks by (induction ks) simp_all
  show "core_ok (settle_interrupt ans s)"
  proof (cases "cr_interrupt s")
    case (Some p)
    then have "asks_ok (snd p) (cr_asks s) (cr_out s)" using assms by (simp add: core_ok_def waiting_def)
    from asks_answered [OF this, of ans] show ?thesis
      using assms Some asks
      by (auto simp: settle_interrupt_def core_ok_def waiting_def split: prod.split intro: ledger_quiet completions_append)
  qed (use assms in \<open>simp add: settle_interrupt_def\<close>)
qed (simp_all add: settle_interrupt_def split: option.split prod.split)

lemma core_ignores [simp]: "core_ok (s\<lparr>cr_interrupting := i\<rparr>) = core_ok s" "core_ok (s\<lparr>cr_closed := c\<rparr>) = core_ok s"
  "core_ok (s\<lparr>cr_turn := t\<rparr>) = core_ok s" "core_ok (s\<lparr>cr_consumed := us\<rparr>) = core_ok s"
  by (simp_all add: core_ok_def waiting_def)

lemma rpc_settles_interrupt:
  assumes "rpc_ok s"
  shows "rpc_ok (settle_interrupt ans s)" "keys (settle_interrupt ans s) = keys s"
    and "rpc_ok ((settle_interrupt ans s)\<lparr>cr_interrupting := False\<rparr>)"
    and "rpc_ok (settle_interrupt ans (s\<lparr>cr_interrupting := False\<rparr>))"
    and "keys (settle_interrupt ans (s\<lparr>cr_interrupting := False\<rparr>)) = keys s"
proof -
  have core: "core_ok s" "core_ok (s\<lparr>cr_interrupting := False\<rparr>)" using assms by (simp_all add: rpc_ok_def)
  note st = settled_interrupt [OF core(1), of ans] settled_interrupt [OF core(2), of ans]
  show "rpc_ok (settle_interrupt ans s)" "keys (settle_interrupt ans s) = keys s"
    "rpc_ok ((settle_interrupt ans s)\<lparr>cr_interrupting := False\<rparr>)"
    "rpc_ok (settle_interrupt ans (s\<lparr>cr_interrupting := False\<rparr>))"
    "keys (settle_interrupt ans (s\<lparr>cr_interrupting := False\<rparr>)) = keys s"
    using assms st by (simp_all add: rpc_ok_def keys_def)
qed

lemma rpc_accepts:
  assumes ok: "rpc_ok s"
  shows "rpc_ok (accept_request uuid s)" "keys (accept_request uuid s) \<subseteq> keys s"
proof -
  have led: "ledger_ok (cr_requests s) (cr_count s) (cr_out s)" using ok by (simp add: rpc_ok_def core_ok_def)
  note dist = ledger_distinct [OF led, THEN conjunct1]
  have "rpc_ok (accept_request uuid s) \<and> keys (accept_request uuid s) \<subseteq> keys s"
  proof (cases "\<exists>r. map_of (cr_requests s) uuid = Some r \<and> pr_admit r")
    case True
    then obtain r where r: "map_of (cr_requests s) uuid = Some r" "pr_admit r" by blast
    let ?rs = "AList.update uuid (r\<lparr>pr_admit := False\<rparr>) (cr_requests s)"
    have "ledger_ok ((uuid, r) # AList.delete uuid (cr_requests s)) (cr_count s) (cr_out s)"
      by (rule ledger_mset [OF _ led]) (simp add: delete_mset [OF dist r(1)])
    from ledger_accepts [OF this r(2)]
    have "ledger_ok ?rs (cr_count s) (cr_out s @ [Out_Admit (pr_number r) Qa_Submitted])"
      by (rule ledger_mset [rotated]) (simp add: update_present [OF dist r(1)])
    moreover have "uuid \<in> fst ` set (cr_requests s)" using map_of_SomeD [OF r(1)] by force
    then have "fst ` set ?rs = fst ` set (cr_requests s)" by (simp add: dom_update insert_absorb)
    moreover have "cr_requests s \<noteq> []" "?rs \<noteq> []" using r(1) by auto
    moreover have "accept_request uuid s = emit_out [Out_Admit (pr_number r) Qa_Submitted] (s\<lparr>cr_requests := ?rs\<rparr>)"
      using r by (simp add: accept_request_def)
    ultimately show ?thesis using ok
      by (auto simp: rpc_ok_def core_ok_def keys_def waiting_def intro: asks_quiet completions_append)
  next
    case False
    then have "accept_request uuid s = s" by (auto simp: accept_request_def split: option.split)
    then show ?thesis using ok by simp
  qed
  then show "rpc_ok (accept_request uuid s)" "keys (accept_request uuid s) \<subseteq> keys s" by blast+
qed

text \<open>A step that registers no request.\<close>

definition keeps :: "(claude_rpc \<Rightarrow> claude_rpc) \<Rightarrow> bool" where
  "keeps f \<longleftrightarrow> (\<forall>s. rpc_ok s \<longrightarrow> rpc_ok (f s) \<and> keys (f s) \<subseteq> keys s)"

lemma keepsI: "(\<And>s. rpc_ok s \<Longrightarrow> rpc_ok (f s) \<and> keys (f s) \<subseteq> keys s) \<Longrightarrow> keeps f"
  by (simp add: keeps_def)

lemma keepsD: "keeps f \<Longrightarrow> rpc_ok s \<Longrightarrow> rpc_ok (f s) \<and> keys (f s) \<subseteq> keys s"
  by (simp add: keeps_def)

lemma keeps_then:
  assumes "keeps f" "rpc_ok s" "keys s \<subseteq> A"
  shows "rpc_ok (f s)" "keys (f s) \<subseteq> A"
  using keepsD [OF assms(1,2)] assms(3) by auto

lemma keeps_accept: "keeps (accept_request uuid)"
  using rpc_accepts by (intro keepsI) blast

lemma keeps_retire:
  assumes "fair_end ad st" "silent evs" "\<And>c. st = Qs_Completion c \<Longrightarrow> Out_Turn_Result c \<in> set evs"
  shows "keeps (retire_requests us ad st evs)"
  using rpc_retires [OF _ assms] by (intro keepsI) blast

lemma keeps_emit: "silent xs \<Longrightarrow> keeps (emit_out xs)"
  using rpc_silent by (intro keepsI) simp

lemma keeps_settle: "keeps (settle_interrupt ans)" "keeps interrupt_refused"
  using rpc_settles_interrupt by (auto intro!: keepsI simp: interrupt_refused_def)

lemma arm_is_armed: "rpc_ok s \<Longrightarrow> arm_idle_timer s = s"
  by (cases s) (simp add: rpc_ok_def core_ok_def arm_idle_timer_def)

lemma keeps_write_settled: "keeps (write_settled uuid n ok)"
proof (rule keepsI)
  fix s assume s: "rpc_ok s"
  have bad: "keeps (retire_requests [uuid] Qa_Ambiguous Qs_Failed [])" by (rule keeps_retire) (simp_all add: fair_end_def)
  show "rpc_ok (write_settled uuid n ok s) \<and> keys (write_settled uuid n ok s) \<subseteq> keys s"
    using s keepsD [OF keeps_accept, of s uuid] keepsD [OF bad, of "s\<lparr>cr_consumed := removeAll uuid (cr_consumed s)\<rparr>"]
    by (auto simp: write_settled_def split: option.split)
qed

lemma keeps_lifecycle: "keeps (on_lifecycle uuid st)"
proof (rule keepsI)
  fix s assume s: "rpc_ok s"
  have gone: "keeps (retire_requests [uuid] Qa_Submitted Qs_Failed [])" by (rule keeps_retire) (simp_all add: fair_end_def)
  define s1 where "s1 = (if st = Ls_Started then s\<lparr>cr_consumed := add_once uuid (cr_consumed s)\<rparr> else s)"
  have s1: "rpc_ok s1" "keys s1 \<subseteq> keys s" using s by (simp_all add: s1_def)
  define s2 where "s2 = accept_request uuid s1"
  have s2: "rpc_ok s2" "keys s2 \<subseteq> keys s" unfolding s2_def by (rule keeps_then [OF keeps_accept s1])+
  define s3 where "s3 = (if st = Ls_Discarded \<or> st = Ls_Refused \<or> st = Ls_Cancelled \<and> uuid \<notin> set (cr_consumed s2)
    then retire_requests [uuid] Qa_Submitted Qs_Failed [] s2 else s2)"
  have s3: "rpc_ok s3" "keys s3 \<subseteq> keys s"
    unfolding s3_def by (auto intro: keeps_then [OF gone s2] s2 dest: subsetD [OF keeps_then(2) [OF gone s2]] subsetD [OF s2(2)])
  have "on_lifecycle uuid st s = (if st = Ls_Cancelled \<and> uuid \<in> set (cr_consumed s3) then s3\<lparr>cr_turn := discard_turn (cr_turn s3)\<rparr> else s3)"
    by (simp add: on_lifecycle_def s1_def s2_def s3_def Let_def)
  then show "rpc_ok (on_lifecycle uuid st s) \<and> keys (on_lifecycle uuid st s) \<subseteq> keys s" using s3 by simp
qed

lemma keeps_result: "keeps (on_result uuid r)"
proof (rule keepsI)
  fix s assume s: "rpc_ok s"
  show "rpc_ok (on_result uuid r s) \<and> keys (on_result uuid r s) \<subseteq> keys s"
  proof (cases "fst (take_outcome (accept_line (Pl_Result uuid r) (cr_turn s)))")
    case None
    then show ?thesis using s by (auto simp: on_result_def split: prod.split)
  next
    case (Some o')
    obtain turn where t: "take_outcome (accept_line (Pl_Result uuid r) (cr_turn s)) = (Some o', turn)"
      using Some by (metis prod.collapse)
    define us where "us = (case re_user_message r of None \<Rightarrow> cr_consumed s | Some u \<Rightarrow> add_once u (cr_consumed s))"
    define i where "i = is_interrupt_reason (re_reason r)"
    define s1 where "s1 = s\<lparr>cr_turn := turn, cr_consumed := []\<rparr>"
    define s2 where "s2 = (if cr_interrupting s1 then settle_interrupt (Ia_Answered i) (s1\<lparr>cr_interrupting := False\<rparr>) else s1)"
    define c where "c = completion_from_turn_outcome o' (cr_session s) (cr_schema s)"
    have s1: "rpc_ok s1" "keys s1 = keys s" using s by (simp_all add: s1_def)
    have s2: "rpc_ok s2" "keys s2 \<subseteq> keys s" using s1 rpc_settles_interrupt [OF s1(1)] by (auto simp: s2_def)
    have stop: "keeps (retire_requests us Qa_Submitted Qs_Stopped [Out_Event (Ce_Interrupted uuid o')])"
      by (rule keeps_retire) (simp_all add: fair_end_def)
    have answered: "keeps (retire_requests us Qa_Submitted (Qs_Completion c) [Out_Event (Ce_Result uuid o'), Out_Turn_Result c])"
      by (rule keeps_retire) (simp_all add: fair_end_def)
    have "on_result uuid r s =
      (if i then retire_requests us Qa_Submitted Qs_Stopped [Out_Event (Ce_Interrupted uuid o')] s2
       else retire_requests us Qa_Submitted (Qs_Completion c) [Out_Event (Ce_Result uuid o'), Out_Turn_Result c] s2)"
      unfolding on_result_def t s2_def s1_def i_def us_def c_def Let_def by simp
    then show ?thesis using keeps_then [OF stop s2] keeps_then [OF answered s2] by simp
  qed
qed

lemma keeps_control_request: "keeps (on_control_request rid sub rq)"
  by (rule keepsI) (auto simp: on_control_request_def split: option.split intro!: rpc_silent)

lemma keeps_control_response: "keeps (on_control_response rid ok response)"
proof (rule keepsI)
  fix s assume s: "rpc_ok s"
  have remote: "rpc_ok (emit_out [Out_Remote url] (s\<lparr>cr_remote := None\<rparr>))" for url by (rule rpc_silent) (use s in simp_all)
  show "rpc_ok (on_control_response rid ok response s) \<and> keys (on_control_response rid ok response s) \<subseteq> keys s"
    using s remote keepsD [OF keeps_settle(1), of s "Ia_Answered True"] keepsD [OF keeps_settle(2), of s]
    by (auto simp: on_control_response_def Let_def split: option.split bool.split)
qed

lemma keeps_line: "keeps (on_line l)"
proof (rule keepsI)
  fix s assume s: "rpc_ok s"
  have event: "rpc_ok (emit_out [Out_Event e] s)" "rpc_ok (emit_out [Out_Event e] (s\<lparr>cr_turn := t\<rparr>))" for e t
    by (rule rpc_silent; use s in simp)+
  note keep = keepsD [OF keeps_lifecycle s] keepsD [OF keeps_result s] keepsD [OF keeps_control_request s]
    keepsD [OF keeps_control_response s]
  show "rpc_ok (on_line l s) \<and> keys (on_line l s) \<subseteq> keys s"
    using s keep event unfolding on_line_def arm_is_armed [OF s] Let_def
    by (cases l) (simp_all split: option.split)
qed

lemma keeps_lines: "rpc_ok s \<Longrightarrow> rpc_ok (on_lines ls s) \<and> keys (on_lines ls s) \<subseteq> keys s"
proof (induction ls s rule: on_lines.induct)
  case (2 l ls s)
  show ?case
  proof (cases "cr_closed s")
    case False
    have step: "rpc_ok (on_line (parse_claude_line (cr_parse s) (cr_stringify s) l) s)"
      "keys (on_line (parse_claude_line (cr_parse s) (cr_stringify s) l) s) \<subseteq> keys s"
      using keepsD [OF keeps_line 2(2)] by blast+
    show ?thesis using 2(1) [OF False step(1)] step(2) False by auto
  qed (use 2(2) in simp)
qed simp

lemma keeps_chunk: "keeps (on_stdout_chunk chunk)"
proof (rule keepsI)
  fix s assume s: "rpc_ok s"
  have b: "rpc_ok (s\<lparr>cr_buffer := b\<rparr>)" for b using s by simp
  show "rpc_ok (on_stdout_chunk chunk s) \<and> keys (on_stdout_chunk chunk s) \<subseteq> keys s"
    using s keeps_lines [OF b] by (auto simp: on_stdout_chunk_def split: prod.split)
qed

lemma outside_empty: "\<forall>u \<in> A. u \<notin> B \<Longrightarrow> B \<subseteq> A \<Longrightarrow> B = {}"
  by blast

lemma all_retired:
  assumes "distinct (map fst rs)"
  shows "snd (take_requests (map fst rs) rs) = []"
proof -
  let ?left = "snd (take_requests (map fst rs) rs)"
  have gone: "\<forall>u \<in> set (map fst rs). u \<notin> fst ` set ?left" using take_requests_mset [OF assms, of "map fst rs"] by (elim exE conjE)
  have "fst ` set ?left \<subseteq> set (map fst rs)" using image_mono [OF take_requests_subset [OF assms]] unfolding set_map .
  from outside_empty [OF gone this] have "fst ` set ?left = {}" .
  then show ?thesis by (metis image_is_empty set_empty)
qed

lemma keeps_close:
  assumes st: "st = Qs_Failed \<or> st = Qs_Stopped"
  shows "keeps (close_session st)"
proof (rule keepsI)
  fix s assume s: "rpc_ok s"
  define s1 where "s1 = retire_requests (map fst (cr_requests s)) Qa_Ambiguous st [] (s\<lparr>cr_closed := True\<rparr>)"
  define s2 where "s2 = s1\<lparr>cr_consumed := [], cr_turn := discard_turn (cr_turn s1)\<rparr>"
  have core: "core_ok s" using s by (simp add: rpc_ok_def)
  then have "distinct (map fst (cr_requests s))" using ledger_distinct by (auto simp: core_ok_def)
  from all_retired [OF this] have none: "cr_requests s2 = []" by (simp add: s2_def s1_def)
  have "core_ok s1" unfolding s1_def by (rule core_retires) (use core st in \<open>auto simp: fair_end_def\<close>)
  then have s2: "core_ok s2" "core_ok (s2\<lparr>cr_interrupting := False\<rparr>)" by (simp_all add: s2_def)
  have same: "cr_interrupt s2 = cr_interrupt s" "cr_interrupting s2 = cr_interrupting s" by (simp_all add: s2_def s1_def)
  have close: "close_session st s = (if cr_interrupting s2
      then settle_interrupt (if st = Qs_Failed then Ia_Failed else Ia_Answered (st = Qs_Stopped)) (s2\<lparr>cr_interrupting := False\<rparr>)
      else s2)"
    unfolding close_session_def s2_def s1_def Let_def by simp
  show "rpc_ok (close_session st s) \<and> keys (close_session st s) \<subseteq> keys s"
  proof (cases "cr_interrupting s2")
    case True
    note si = settled_interrupt [OF s2(2)]
    show ?thesis unfolding close using True none si by (simp add: rpc_ok_def keys_def)
  next
    case False
    then have "cr_interrupt s2 = None" using s same unfolding rpc_ok_def by metis
    then show ?thesis unfolding close using False none s2 by (simp add: rpc_ok_def keys_def)
  qed
qed

lemma keeps_deadline: "keeps idle_deadline"
proof (rule keepsI)
  fix s assume s: "rpc_ok s"
  have cl: "keeps (close_session Qs_Failed)" by (rule keeps_close) simp
  show "rpc_ok (idle_deadline s) \<and> keys (idle_deadline s) \<subseteq> keys s"
    using s keepsD [OF cl s] by (simp add: idle_deadline_def rpc_silent)
qed

lemma keeps_interrupt: "keeps (interrupt_session reason rid)"
proof (rule keepsI)
  fix s assume s: "rpc_ok s"
  have mute: "silent [Out_Write w]" for w by simp
  have asks: "asks_ok (waiting s) (cr_asks s) (cr_out s)" using s by (simp add: rpc_ok_def core_ok_def)
  show "rpc_ok (interrupt_session reason rid s) \<and> keys (interrupt_session reason rid s) \<subseteq> keys s"
  proof (cases "cr_closed s")
    case True
    then have "interrupt_session reason rid s = emit_out [Out_Interrupt (cr_asks s) (Ia_Answered False)] (s\<lparr>cr_asks := cr_asks s + 1\<rparr>)"
      by (simp add: interrupt_session_def Let_def)
    then show ?thesis using s asks_immediate [OF asks]
      by (auto simp: rpc_ok_def core_ok_def keys_def waiting_def intro: ledger_quiet completions_append)
  next
    case open': False
    show ?thesis
    proof (cases "cr_interrupt s")
      case None
      then have w: "waiting s = []" by (simp add: waiting_def)
      let ?s = "s\<lparr>cr_asks := cr_asks s + 1, cr_interrupting := True, cr_interrupt := Some (rid, [cr_asks s])\<rparr>"
      have "rpc_ok ?s" using s asks_joins [OF asks] open' w by (simp add: rpc_ok_def core_ok_def waiting_def)
      then show ?thesis using open' None rpc_silent [OF _ mute]
        by (simp add: interrupt_session_def keys_def Let_def)
    next
      case (Some p)
      then have w: "waiting s = snd p" by (simp add: waiting_def)
      let ?s = "s\<lparr>cr_asks := cr_asks s + 1, cr_interrupting := True, cr_interrupt := Some (fst p, snd p @ [cr_asks s])\<rparr>"
      have "rpc_ok ?s" using s asks_joins [OF asks] open' w by (simp add: rpc_ok_def core_ok_def waiting_def)
      then show ?thesis using open' Some by (cases p) (simp add: interrupt_session_def keys_def Let_def)
    qed
  qed
qed

lemma rpc_submits:
  assumes ok: "rpc_ok s" and new: "uuid \<notin> keys s"
  shows "rpc_ok (submit_prompt prompt uuid s)" "keys (submit_prompt prompt uuid s) \<subseteq> insert uuid (keys s)"
proof -
  have led: "ledger_ok (cr_requests s) (cr_count s) (cr_out s)" using ok by (simp add: rpc_ok_def core_ok_def)
  have "rpc_ok (submit_prompt prompt uuid s) \<and> keys (submit_prompt prompt uuid s) \<subseteq> insert uuid (keys s)"
  proof (cases "cr_closed s \<or> \<not> cr_writable s")
    case True
    then have "submit_prompt prompt uuid s = emit_out [Out_Admit (cr_count s) Qa_Failed] (s\<lparr>cr_count := cr_count s + 1\<rparr>)"
      by (simp add: submit_prompt_def Let_def)
    then show ?thesis using ok ledger_refuses [OF led]
      by (auto simp: rpc_ok_def core_ok_def keys_def waiting_def intro: asks_quiet completions_append)
  next
    case False
    let ?rs = "cr_requests s @ [(uuid, \<lparr> pr_number = cr_count s, pr_admit = True \<rparr>)]"
    let ?s = "s\<lparr>cr_count := cr_count s + 1, cr_requests := ?rs, cr_timer := True\<rparr>"
    have absent: "uuid \<notin> fst ` set (cr_requests s)" using new by (simp add: keys_def)
    have "submit_prompt prompt uuid s = emit_out [Out_Write (build_user_message prompt (Some uuid))] ?s"
      using False by (simp add: submit_prompt_def Let_def arm_idle_timer_def update_absent [OF absent])
    moreover have "rpc_ok ?s"
      using ok False ledger_registers [OF led absent] by (simp add: rpc_ok_def core_ok_def waiting_def)
    ultimately show ?thesis by (simp add: rpc_silent) (simp add: keys_def)
  qed
  then show "rpc_ok (submit_prompt prompt uuid s)" "keys (submit_prompt prompt uuid s) \<subseteq> insert uuid (keys s)" by blast+
qed

subsection \<open>Any run\<close>

fun submitted_by :: "rpc_input \<Rightarrow> string list" where
  "submitted_by (Ri_Submit _ uuid) = [uuid]"
| "submitted_by _ = []"

definition submitted_uuids :: "rpc_input list \<Rightarrow> string list" where
  "submitted_uuids qs = concat (map submitted_by qs)"

definition interrupts_asked :: "rpc_input list \<Rightarrow> nat" where
  "interrupts_asked qs = length (filter (\<lambda>q. case q of Ri_Interrupt _ _ \<Rightarrow> True | _ \<Rightarrow> False) qs)"

lemma submitted_Cons [simp]:
  "submitted_uuids [] = []" "submitted_uuids (q # qs) = submitted_by q @ submitted_uuids qs"
  by (simp_all add: submitted_uuids_def)

lemma input_kept:
  assumes "rpc_ok s" "set (submitted_by q) \<inter> keys s = {}"
  shows "rpc_ok (rpc_do q s) \<and> keys (rpc_do q s) \<subseteq> keys s \<union> set (submitted_by q)"
proof (cases q)
  case (Ri_Submit prompt uuid)
  then show ?thesis using assms rpc_submits [of s uuid prompt] by auto
next
  case (Ri_Interrupt_Unwritten rid)
  then show ?thesis using assms(1) keepsD [OF keeps_settle(2) assms(1)]
    by (auto simp: interrupt_write_failed_def split: option.split)
next
  case (Ri_Remote rid)
  have "rpc_ok (emit_out [Out_Write w] (s\<lparr>cr_remote := Some rid\<rparr>))" for w by (rule rpc_silent) (use assms(1) in simp_all)
  then show ?thesis using assms(1) Ri_Remote by (simp add: enable_remote_control_def)
next
  case Ri_Stop
  then show ?thesis using keepsD [OF keeps_close assms(1), of Qs_Stopped] by auto
next
  case Ri_Fail
  then show ?thesis using keepsD [OF keeps_close assms(1), of Qs_Failed] by auto
qed (use assms(1) keepsD [OF keeps_write_settled assms(1)] keepsD [OF keeps_chunk assms(1)]
  keepsD [OF keeps_interrupt assms(1)] keepsD [OF keeps_deadline assms(1)] in simp_all)

lemma rpc_run_Cons [simp]: "rpc_run [] s = s" "rpc_run (q # qs) s = rpc_run qs (rpc_do q s)"
  by (simp_all add: rpc_run_def)

lemma run_ok:
  assumes "rpc_ok s" "distinct (submitted_uuids qs)" "set (submitted_uuids qs) \<inter> keys s = {}"
  shows "rpc_ok (rpc_run qs s)"
  using assms
proof (induction qs arbitrary: s)
  case (Cons q qs)
  have q: "set (submitted_by q) \<inter> keys s = {}" using Cons.prems(3) by auto
  note step = input_kept [OF Cons.prems(1) q]
  have "set (submitted_uuids qs) \<inter> keys (rpc_do q s) = {}" using step Cons.prems(2,3) by auto
  then show ?case using Cons.IH [of "rpc_do q s"] step Cons.prems(2) by simp
qed simp

lemma new_rpc_ok: "rpc_ok (new_rpc parse stringify session schema)"
  by (simp add: new_rpc_def rpc_ok_def core_ok_def ledger_ok_def asks_ok_def completions_ok_def waiting_def)

text \<open>The numbers are those of the submissions and of the interrupts, in order.\<close>

lemma counts_kept [simp]:
  "cr_count (accept_request uuid s) = cr_count s" "cr_asks (accept_request uuid s) = cr_asks s"
  "cr_count (settle_interrupt ans s) = cr_count s" "cr_asks (settle_interrupt ans s) = cr_asks s"
  "cr_count (arm_idle_timer s) = cr_count s" "cr_asks (arm_idle_timer s) = cr_asks s"
  by (simp_all add: accept_request_def settle_interrupt_def arm_idle_timer_def split: option.split prod.split)

lemma counts_refused [simp]:
  "cr_count (interrupt_refused s) = cr_count s" "cr_asks (interrupt_refused s) = cr_asks s"
  by (simp_all add: interrupt_refused_def)

lemma counts_lifecycle [simp]:
  "cr_count (on_lifecycle uuid st s) = cr_count s" "cr_asks (on_lifecycle uuid st s) = cr_asks s"
  by (simp_all add: on_lifecycle_def Let_def)

lemma counts_result [simp]:
  "cr_count (on_result uuid r s) = cr_count s" "cr_asks (on_result uuid r s) = cr_asks s"
  by (simp_all add: on_result_def Let_def split: option.split prod.split)

lemma counts_control [simp]:
  "cr_count (on_control_request rid sub rq s) = cr_count s" "cr_asks (on_control_request rid sub rq s) = cr_asks s"
  "cr_count (on_control_response rid ok rs s) = cr_count s" "cr_asks (on_control_response rid ok rs s) = cr_asks s"
  by (simp_all add: on_control_request_def on_control_response_def Let_def split: option.split prod.split bool.split)

lemma counts_line [simp]: "cr_count (on_line l s) = cr_count s" "cr_asks (on_line l s) = cr_asks s"
  by (cases l; simp add: on_line_def Let_def split: option.split)+

lemma counts_lines [simp]: "cr_count (on_lines ls s) = cr_count s" "cr_asks (on_lines ls s) = cr_asks s"
  by (induction ls s rule: on_lines.induct) simp_all

lemma counts_close [simp]: "cr_count (close_session st s) = cr_count s" "cr_asks (close_session st s) = cr_asks s"
  by (simp_all add: close_session_def Let_def)

lemma counts_of_input:
  "cr_count (rpc_do q s) = cr_count s + length (submitted_by q)"
  "cr_asks (rpc_do q s) = cr_asks s + interrupts_asked [q]"
  by (cases q; simp add: interrupts_asked_def submit_prompt_def arm_idle_timer_def write_settled_def
      on_stdout_chunk_def interrupt_session_def interrupt_write_failed_def idle_deadline_def enable_remote_control_def Let_def
      split: option.split prod.split)+

lemma counts_of_run:
  "cr_count (rpc_run qs s) = cr_count s + length (submitted_uuids qs)"
  "cr_asks (rpc_run qs s) = cr_asks s + interrupts_asked qs"
  by (induction qs arbitrary: s) (simp_all add: counts_of_input interrupts_asked_def)

text \<open>
  C24.  Whatever the interleaving of submissions, write callbacks, output of the child, idle deadlines, interrupts
  and ends of the session: the submissions are numbered in order, and each is either open with the idle timer set
  and the session not ended, admitted at most once so far; or refused at once; or admitted exactly once and
  then settled exactly once, with a completion only if its admission was confirmed.  A completion is settled only
  after the host was told of that result of the turn.  An interrupt is answered exactly once, or still waits in a
  session that has not ended.
\<close>

theorem claude_requests_settle_once:
  assumes "distinct (submitted_uuids qs)" and "s = rpc_run qs (new_rpc parse stringify session schema)"
  shows "(\<forall>n < length (submitted_uuids qs).
       (\<exists>u r. (u, r) \<in> set (cr_requests s) \<and> pr_number r = n \<and> request_log n (cr_out s) = open_log r) \<and>
         cr_timer s \<and> \<not> cr_closed s \<or>
       ended_log n (request_log n (cr_out s)) \<and> n \<notin> set (numbers (cr_requests s))) \<and>
     (\<forall>n \<ge> length (submitted_uuids qs). request_log n (cr_out s) = []) \<and>
     completions_ok (cr_out s) \<and>
     (\<forall>k < interrupts_asked qs.
       if k \<in> set (waiting s) then ask_log k (cr_out s) = [] \<and> cr_interrupting s \<and> \<not> cr_closed s
       else \<exists>ans. ask_log k (cr_out s) = [Out_Interrupt k ans])"
proof -
  let ?s0 = "new_rpc parse stringify session schema"
  have empty: "keys ?s0 = {}" "cr_count ?s0 = 0" "cr_asks ?s0 = 0" by (simp_all add: keys_def new_rpc_def)
  have ok: "rpc_ok s" unfolding assms(2) by (rule run_ok [OF new_rpc_ok assms(1)]) (simp add: empty)
  then have core: "core_ok s" by (simp add: rpc_ok_def)
  have count: "cr_count s = length (submitted_uuids qs)" "cr_asks s = interrupts_asked qs"
    unfolding assms(2) counts_of_run by (simp_all add: empty)
  have led: "ledger_ok (cr_requests s) (length (submitted_uuids qs)) (cr_out s)" using core by (simp add: core_ok_def count)
  have "(\<exists>u r. (u, r) \<in> set (cr_requests s) \<and> pr_number r = n \<and> request_log n (cr_out s) = open_log r) \<and>
         cr_timer s \<and> \<not> cr_closed s \<or>
       ended_log n (request_log n (cr_out s)) \<and> n \<notin> set (numbers (cr_requests s))"
    if n: "n < length (submitted_uuids qs)" for n
  proof (cases "n \<in> set (numbers (cr_requests s))")
    case True
    then obtain u r where r: "(u, r) \<in> set (cr_requests s)" "pr_number r = n" by (auto simp: numbers_def)
    then have "cr_requests s \<noteq> []" by auto
    then show ?thesis using r ledger_open [OF led r(1)] core ok by (auto simp: core_ok_def rpc_ok_def)
  qed (use ledger_ended [OF led n] in blast)
  moreover have "request_log n (cr_out s) = []" if "length (submitted_uuids qs) \<le> n" for n by (rule ledger_fresh [OF led that])
  moreover have "completions_ok (cr_out s)" using core by (simp add: core_ok_def)
  moreover have "if k \<in> set (waiting s) then ask_log k (cr_out s) = [] \<and> cr_interrupting s \<and> \<not> cr_closed s
       else \<exists>ans. ask_log k (cr_out s) = [Out_Interrupt k ans]" if k: "k < interrupts_asked qs" for k
  proof (cases "k \<in> set (waiting s)")
    case True
    then have "cr_interrupt s \<noteq> None" by (cases "cr_interrupt s") (simp_all add: waiting_def)
    then have "cr_interrupting s \<and> \<not> cr_closed s" using ok unfolding rpc_ok_def by blast
    then show ?thesis using core True by (auto simp: core_ok_def asks_ok_def split: if_splits)
  next
    case False
    then show ?thesis using core k by (auto simp: core_ok_def asks_ok_def count split: if_splits)
  qed
  ultimately show ?thesis by blast
qed

text \<open>
  Three messages and an interrupt.  The first is confirmed by its lifecycle and answered by a result; the second
  is open when the child's output stops; its deadline fails it and the interrupt; the third is refused.
\<close>

definition sample_parse :: "string \<Rightarrow> js option" where
  "sample_parse = map_of
     [(''started'', Obj [(''type'', Str ''command_lifecycle''), (''command_uuid'', Str ''u1''), (''state'', Str ''started'')]),
      (''result'', Obj [(''type'', Str ''result''), (''subtype'', Str ''success''), (''result'', Str ''hi'')])]"

definition sample_inputs :: "rpc_input list" where
  "sample_inputs =
     [Ri_Submit ''a'' ''u1'', Ri_Chunk (''sta''), Ri_Chunk (''rted'' @ [CHR 0x0A]), Ri_Written ''u1'' 0 True,
      Ri_Submit ''b'' ''u2'', Ri_Chunk (''result'' @ [CHR 0x0A]), Ri_Interrupt ''stop'' ''r1'', Ri_Deadline, Ri_Submit ''c'' ''u3'']"

definition sample_end :: claude_rpc where
  "sample_end = rpc_run sample_inputs (new_rpc sample_parse (\<lambda>_. []) None False)"

theorem claude_requests_settle_once_witness:
  "distinct (submitted_uuids sample_inputs) \<and> cr_closed sample_end \<and> ended_log 0 (request_log 0 (cr_out sample_end)) \<and>
   ended_log 1 (request_log 1 (cr_out sample_end)) \<and> ended_log 2 (request_log 2 (cr_out sample_end)) \<and>
   completions_ok (cr_out sample_end) \<and> (\<exists>ans. ask_log 0 (cr_out sample_end) = [Out_Interrupt 0 ans]) \<and>
   request_log 0 (cr_out sample_end) =
     [Out_Admit 0 Qa_Submitted, Out_Settle 0 (Qs_Completion (Cl_Completed (Some ''hi'')))] \<and>
   request_log 1 (cr_out sample_end) = [Out_Admit 1 Qa_Ambiguous, Out_Settle 1 Qs_Failed]"
proof -
  have d: "distinct (submitted_uuids sample_inputs)" "length (submitted_uuids sample_inputs) = 3"
    "interrupts_asked sample_inputs = 1" by code_simp+
  have e: "cr_closed sample_end" "waiting sample_end = []" by code_simp+
  have logs: "request_log 0 (cr_out sample_end) =
      [Out_Admit 0 Qa_Submitted, Out_Settle 0 (Qs_Completion (Cl_Completed (Some ''hi'')))]"
    "request_log 1 (cr_out sample_end) = [Out_Admit 1 Qa_Ambiguous, Out_Settle 1 Qs_Failed]" by code_simp+
  note th = claude_requests_settle_once [OF d(1) sample_end_def]
  have n: "ended_log n (request_log n (cr_out sample_end))" if "n < 3" for n
    using th [THEN conjunct1] e(1) that unfolding d by blast
  have k: "\<exists>ans. ask_log 0 (cr_out sample_end) = [Out_Interrupt 0 ans]"
    using th [THEN conjunct2, THEN conjunct2, THEN conjunct2] unfolding d e by simp
  show ?thesis using d(1) e(1) logs n [of 0] n [of 1] n [of 2] k th [THEN conjunct2, THEN conjunct2, THEN conjunct1] by simp
qed

end
