(* ===== verification/Completion_Router.thy ===== *)
theory Completion_Router
  imports Prelude
begin

text \<open>
  \<^verbatim>\<open>packages/dreamux/src/service/completion-router/index.ts\<close>: the delivery of settled turns
  to the Agent that asked for them, folded on the provider's token, queued per recipient,
  with a deadline on every call and a bounded retry.

  A delivery is a row of \<open>cr_deliveries\<close> in the order of the requests; the promise a caller
  gets is the row's number.  \<open>cr_calls\<close> and \<open>cr_answers\<close> log the calls of \<^verbatim>\<open>submit\<close> and
  what came back within the deadline.  The deadline's clock is the choice of the step.
\<close>

datatype fact_status = Fact_Completed | Fact_Failed | Fact_Stopped

datatype fact_kind = Teammate_Fact string string | Workflow_Fact string

record completion_fact =
  fact_status :: fact_status
  fact_result :: "string option"
  fact_kind :: fact_kind

datatype delivery_result =
    Accepted
  | Unsupported string
  | Failed_Before_Admission string
  | Ambiguous string

text \<open>\<^verbatim>\<open>DeadlineResult\<close>.\<close>

datatype 'a deadline_result = Fulfilled 'a | Rejected string | Timed_Out

datatype delivery_phase =
    Queued
  | Preparing
  | Submitting nat
  | Delivered
  | Dropped

record delivery =
  d_recipient :: nat
  d_fact :: completion_fact
  d_phase :: delivery_phase

record router =
  cr_tokens :: "(nat \<times> nat) list"
  cr_deliveries :: "delivery list"
  cr_calls :: "nat list"
  cr_answers :: "(nat \<times> delivery_result deadline_result) list"

definition router_init :: router where
  "router_init = \<lparr> cr_tokens = [], cr_deliveries = [], cr_calls = [], cr_answers = [] \<rparr>"

definition MAX_DELIVERY_ATTEMPTS :: nat where "MAX_DELIVERY_ATTEMPTS = 3"

definition enqueue_delivery :: "nat \<Rightarrow> completion_fact \<Rightarrow> router \<Rightarrow> router" where
  "enqueue_delivery recipient news st =
     st\<lparr>cr_deliveries := cr_deliveries st @
          [\<lparr> d_recipient = recipient, d_fact = news, d_phase = Queued \<rparr>]\<rparr>"

text \<open>
  \<^verbatim>\<open>deliverRuntime\<close>, and \<^verbatim>\<open>deliver\<close> where the token is absent: the row whose promise is
  returned, none for a request dropped behind the fence.
\<close>

definition deliver_runtime ::
  "bool \<Rightarrow> nat \<Rightarrow> nat option \<Rightarrow> completion_fact \<Rightarrow> router \<Rightarrow> nat option \<times> router" where
  "deliver_runtime closing recipient token news st =
     (if closing then (None, st)
      else case token of
          None \<Rightarrow> (Some (length (cr_deliveries st)), enqueue_delivery recipient news st)
        | Some t \<Rightarrow>
            (case map_of (cr_tokens st) t of
               Some i \<Rightarrow> (Some i, st)
             | None \<Rightarrow>
                 (Some (length (cr_deliveries st)),
                  (enqueue_delivery recipient news st)
                    \<lparr>cr_tokens := cr_tokens st @ [(t, length (cr_deliveries st))]\<rparr>)))"

definition settled_phase :: "delivery_phase \<Rightarrow> bool" where
  "settled_phase p \<longleftrightarrow> p = Delivered \<or> p = Dropped"

text \<open>A delivery runs when the one before it on its recipient's tail has settled.\<close>

definition turn_of :: "nat \<Rightarrow> router \<Rightarrow> bool" where
  "turn_of i st \<longleftrightarrow> i < length (cr_deliveries st) \<and>
     list_all (\<lambda>d. d_recipient d = d_recipient (cr_deliveries st ! i) \<longrightarrow> settled_phase (d_phase d))
       (take i (cr_deliveries st))"

definition set_phase :: "nat \<Rightarrow> delivery_phase \<Rightarrow> router \<Rightarrow> router" where
  "set_phase i p st =
     st\<lparr>cr_deliveries := (cr_deliveries st)[i := (cr_deliveries st ! i)\<lparr>d_phase := p\<rparr>]\<rparr>"

definition call_submit_delivery :: "nat \<Rightarrow> nat \<Rightarrow> router \<Rightarrow> router" where
  "call_submit_delivery i attempt st =
     (set_phase i (Submitting attempt) st)\<lparr>cr_calls := cr_calls st @ [i]\<rparr>"

definition preparation_settles :: "nat \<Rightarrow> unit deadline_result \<Rightarrow> router \<Rightarrow> router" where
  "preparation_settles i r st =
     (case r of
        Fulfilled _ \<Rightarrow> call_submit_delivery i 1 st
      | _ \<Rightarrow> set_phase i Dropped st)"

text \<open>The loop of \<^verbatim>\<open>deliverPrepared\<close>: what follows the answer to one attempt.\<close>

definition submission_answers :: "nat \<Rightarrow> nat \<Rightarrow> delivery_result deadline_result \<Rightarrow> router \<Rightarrow> router" where
  "submission_answers i attempt r st0 =
     (let st = st0\<lparr>cr_answers := cr_answers st0 @ [(i, r)]\<rparr>
      in case r of
           Fulfilled Accepted \<Rightarrow> set_phase i Delivered st
         | Fulfilled (Failed_Before_Admission _) \<Rightarrow>
             if attempt < MAX_DELIVERY_ATTEMPTS then call_submit_delivery i (Suc attempt) st
             else set_phase i Dropped st
         | _ \<Rightarrow> set_phase i Dropped st)"

definition phase_of :: "nat \<Rightarrow> router \<Rightarrow> delivery_phase" where
  "phase_of i st = d_phase (cr_deliveries st ! i)"

text \<open>The steps of the deliveries themselves.\<close>

inductive delivery_step :: "router \<Rightarrow> router \<Rightarrow> bool" where
  start: "turn_of i st \<Longrightarrow> phase_of i st = Queued \<Longrightarrow> delivery_step st (set_phase i Preparing st)"
| prepared: "i < length (cr_deliveries st) \<Longrightarrow> phase_of i st = Preparing \<Longrightarrow>
    delivery_step st (preparation_settles i r st)"
| answered: "i < length (cr_deliveries st) \<Longrightarrow> phase_of i st = Submitting attempt \<Longrightarrow>
    delivery_step st (submission_answers i attempt q st)"

inductive router_step :: "router \<Rightarrow> router \<Rightarrow> bool" where
  request: "router_step st (snd (deliver_runtime closing recipient token news st))"
| delivery: "delivery_step st st' \<Longrightarrow> router_step st st'"

inductive router_reach :: "router \<Rightarrow> bool" where
  init: "router_reach router_init"
| step: "router_reach st \<Longrightarrow> router_step st st' \<Longrightarrow> router_reach st'"

inductive_cases delivery_stepE: "delivery_step st st'"
inductive_cases router_stepE: "router_step st st'"

subsection \<open>The invariant\<close>

definition running_phase :: "delivery_phase \<Rightarrow> bool" where
  "running_phase p \<longleftrightarrow> p \<noteq> Queued \<and> \<not> settled_phase p"

definition started :: "delivery_phase \<Rightarrow> bool" where
  "started p \<longleftrightarrow> p \<noteq> Queued"

text \<open>The calls and answers of one delivery agree with its phase.\<close>

definition log_ok :: "delivery_phase \<Rightarrow> nat \<Rightarrow> delivery_result deadline_result list \<Rightarrow> bool" where
  "log_ok p n as \<longleftrightarrow>
     (case p of
        Queued \<Rightarrow> n = 0 \<and> as = []
      | Preparing \<Rightarrow> n = 0 \<and> as = []
      | Submitting k \<Rightarrow> 0 < k \<and> k \<le> MAX_DELIVERY_ATTEMPTS \<and> n = k \<and> length as = k - 1 \<and>
          list_all (\<lambda>a. \<exists>e. a = Fulfilled (Failed_Before_Admission e)) as
      | Delivered \<Rightarrow> n \<le> MAX_DELIVERY_ATTEMPTS \<and> length as = n \<and> as \<noteq> [] \<and>
          last as = Fulfilled Accepted \<and>
          list_all (\<lambda>a. \<exists>e. a = Fulfilled (Failed_Before_Admission e)) (butlast as)
      | Dropped \<Rightarrow> n \<le> MAX_DELIVERY_ATTEMPTS \<and> length as = n \<and> Fulfilled Accepted \<notin> set as \<and>
          list_all (\<lambda>a. \<exists>e. a = Fulfilled (Failed_Before_Admission e)) (butlast as))"

definition answers_of :: "nat \<Rightarrow> router \<Rightarrow> delivery_result deadline_result list" where
  "answers_of i st = map snd (filter (\<lambda>e. fst e = i) (cr_answers st))"

definition calls_of :: "nat \<Rightarrow> router \<Rightarrow> nat" where
  "calls_of i st = length (filter (\<lambda>j. j = i) (cr_calls st))"

definition router_inv :: "router \<Rightarrow> bool" where
  "router_inv st \<longleftrightarrow>
     distinct (map fst (cr_tokens st)) \<and> distinct (map snd (cr_tokens st)) \<and>
     (\<forall>i \<in> snd ` set (cr_tokens st). i < length (cr_deliveries st)) \<and>
     (\<forall>i. length (cr_deliveries st) \<le> i \<longrightarrow> calls_of i st = 0 \<and> answers_of i st = []) \<and>
     (\<forall>i < length (cr_deliveries st). log_ok (phase_of i st) (calls_of i st) (answers_of i st)) \<and>
     (\<forall>i < length (cr_deliveries st). phase_of i st \<noteq> Queued \<longrightarrow> turn_of i st)"

lemma phase_set_phase:
  "i < length (cr_deliveries st) \<Longrightarrow>
   phase_of j (set_phase i p st) = (if j = i then p else phase_of j st)"
  by (simp add: phase_of_def set_phase_def nth_list_update)

lemma recipient_set_phase:
  "d_recipient (cr_deliveries (set_phase i p st) ! j) = d_recipient (cr_deliveries st ! j)"
  by (cases "i < length (cr_deliveries st)") (simp_all add: set_phase_def nth_list_update list_update_beyond)

lemma length_set_phase [simp]: "length (cr_deliveries (set_phase i p st)) = length (cr_deliveries st)"
  by (simp add: set_phase_def)

lemma turn_of_iff:
  "turn_of i st \<longleftrightarrow> i < length (cr_deliveries st) \<and>
     (\<forall>j < i. d_recipient (cr_deliveries st ! j) = d_recipient (cr_deliveries st ! i) \<longrightarrow>
        settled_phase (phase_of j st))"
  by (auto simp: turn_of_def list_all_length phase_of_def)

text \<open>A step of delivery \<open>i\<close> moves its phase on; a settled delivery never moves again.\<close>

lemma turn_of_set_phase:
  assumes "i < length (cr_deliveries st)" "turn_of j st" "\<not> settled_phase (phase_of i st)"
  shows "turn_of j (set_phase i p st)"
  using assms unfolding turn_of_iff recipient_set_phase by (auto simp: phase_set_phase)


lemma router_inv_init: "router_inv router_init"
  by (simp add: router_inv_def router_init_def calls_of_def answers_of_def)

lemma log_ok_fresh: "log_ok Queued 0 []" by (simp add: log_ok_def)

lemma enqueue_phase:
  "i < length (cr_deliveries st) \<Longrightarrow> phase_of i (enqueue_delivery r news st) = phase_of i st"
  "phase_of (length (cr_deliveries st)) (enqueue_delivery r news st) = Queued"
  by (simp_all add: phase_of_def enqueue_delivery_def nth_append)

lemma enqueue_turn: "turn_of i st \<Longrightarrow> turn_of i (enqueue_delivery r news st)"
  by (auto simp: turn_of_iff enqueue_phase) (simp_all add: enqueue_delivery_def nth_append phase_of_def)

lemma inv_enqueue:
  assumes i: "router_inv st"
    and t: "ts = cr_tokens st \<or> (\<exists>t. ts = cr_tokens st @ [(t, length (cr_deliveries st))] \<and> t \<notin> fst ` set (cr_tokens st))"
  shows "router_inv ((enqueue_delivery r news st)\<lparr>cr_tokens := ts\<rparr>)"
proof -
  let ?n = "length (cr_deliveries st)" and ?s = "enqueue_delivery r news st"
  let ?t = "?s\<lparr>cr_tokens := ts\<rparr>"
  have len: "length (cr_deliveries ?t) = Suc ?n" by (simp add: enqueue_delivery_def)
  have logs: "calls_of j ?t = calls_of j st" "answers_of j ?t = answers_of j st" for j
    by (simp_all add: calls_of_def answers_of_def enqueue_delivery_def)
  have ph: "phase_of j ?t = phase_of j ?s" for j by (simp add: phase_of_def)
  have tn: "turn_of j ?t = turn_of j ?s" for j by (simp add: turn_of_def)
  from i have o: "distinct (map fst (cr_tokens st))" "distinct (map snd (cr_tokens st))"
    "\<forall>i \<in> snd ` set (cr_tokens st). i < ?n"
    "\<And>i. ?n \<le> i \<Longrightarrow> calls_of i st = 0 \<and> answers_of i st = []"
    "\<And>i. i < ?n \<Longrightarrow> log_ok (phase_of i st) (calls_of i st) (answers_of i st)"
    "\<And>i. i < ?n \<Longrightarrow> phase_of i st \<noteq> Queued \<Longrightarrow> turn_of i st"
    by (auto simp: router_inv_def)
  have "distinct (map fst ts) \<and> distinct (map snd ts) \<and> (\<forall>i \<in> snd ` set ts. i < Suc ?n)"
    using t
  proof (elim disjE exE conjE)
    fix t assume t: "ts = cr_tokens st @ [(t, ?n)]" "t \<notin> fst ` set (cr_tokens st)"
    from o(3) have "?n \<notin> snd ` set (cr_tokens st)" by blast
    moreover have "i < Suc ?n" if "i \<in> snd ` set (cr_tokens st)" for i using o(3) that by (blast intro: less_SucI)
    ultimately show ?thesis using o(1,2) t by auto
  qed (use o(1-3) in \<open>auto intro: less_SucI\<close>)
  moreover have "log_ok (phase_of j ?t) (calls_of j ?t) (answers_of j ?t)" if "j < Suc ?n" for j
    using that o(4) [of ?n] o(5) [of j] log_ok_fresh
    by (cases "j = ?n") (simp_all add: ph logs enqueue_phase)
  moreover have "turn_of j ?t" if "j < Suc ?n" "phase_of j ?t \<noteq> Queued" for j
    using that o(6) [of j] by (cases "j = ?n") (simp_all add: ph tn enqueue_phase enqueue_turn)
  ultimately show ?thesis
    unfolding router_inv_def len using o(4) by (simp add: logs)
qed

lemma inv_request: "router_inv st \<Longrightarrow> router_inv (snd (deliver_runtime closing recipient token news st))"
  using inv_enqueue [of st "cr_tokens st" recipient news]
    inv_enqueue [of st "cr_tokens st @ [(the token, length (cr_deliveries st))]" recipient news]
  by (auto simp: deliver_runtime_def enqueue_delivery_def map_of_eq_None_iff split: option.splits)

text \<open>One delivery's phase and logs move; the others' do not.\<close>

lemma inv_move:
  assumes i: "router_inv st" and n: "i < length (cr_deliveries st)" and ns: "\<not> settled_phase (phase_of i st)"
    and t: "turn_of i st"
    and c: "cr_calls st' = cr_calls st @ replicate a i" and r: "cr_answers st' = cr_answers st @ map (Pair i) rs"
    and d: "cr_deliveries st' = cr_deliveries (set_phase i p st)" and k: "cr_tokens st' = cr_tokens st"
    and ok: "log_ok p (calls_of i st + a) (answers_of i st @ rs)"
  shows "router_inv st'"
proof -
  have len: "length (cr_deliveries st') = length (cr_deliveries st)" by (simp add: d)
  have ph: "phase_of j st' = (if j = i then p else phase_of j st)" for j
    using phase_set_phase [OF n] by (simp add: phase_of_def d)
  have tn: "turn_of j st' = turn_of j (set_phase i p st)" for j by (simp add: turn_of_def d)
  have logs: "calls_of j st' = (if j = i then calls_of i st + a else calls_of j st)"
    "answers_of j st' = (if j = i then answers_of i st @ rs else answers_of j st)" for j
    by (auto simp: calls_of_def answers_of_def c r filter_empty_conv comp_def)
  have "turn_of j st'" if "j < length (cr_deliveries st)" "phase_of j st' \<noteq> Queued" for j
    using that i t turn_of_set_phase [OF n _ ns] by (auto simp: tn ph router_inv_def split: if_splits)
  moreover have "log_ok (phase_of j st') (calls_of j st') (answers_of j st')"
    if "j < length (cr_deliveries st)" for j
    using that i ok by (auto simp: ph logs router_inv_def)
  ultimately show ?thesis
    using i n unfolding router_inv_def len k by (simp add: logs)
qed

lemma inv_log:
  "router_inv st \<Longrightarrow> i < length (cr_deliveries st) \<Longrightarrow> phase_of i st = p \<Longrightarrow>
   log_ok p (calls_of i st) (answers_of i st)"
  by (auto simp: router_inv_def)

lemma inv_turn:
  "router_inv st \<Longrightarrow> i < length (cr_deliveries st) \<Longrightarrow> phase_of i st = p \<Longrightarrow> p \<noteq> Queued \<Longrightarrow> turn_of i st"
  by (auto simp: router_inv_def)

lemma inv_delivery:
  assumes i: "router_inv st" and s: "delivery_step st st'"
  shows "router_inv st'"
  using s
proof cases
  case (start j)
  then have n: "j < length (cr_deliveries st)" by (simp add: turn_of_def)
  from inv_log [OF i n start(3)] start n show ?thesis
    by (intro inv_move [OF i n, of _ 0 "[]" Preparing]) (simp_all add: settled_phase_def log_ok_def set_phase_def)
next
  case (prepared j r)
  have l: "log_ok Preparing (calls_of j st) (answers_of j st)" by (rule inv_log [OF i prepared(2,3)])
  have t: "turn_of j st" by (rule inv_turn [OF i prepared(2,3)]) simp
  have gone: "router_inv (set_phase j Dropped st)"
    using prepared l t by (intro inv_move [OF i prepared(2), of _ 0 "[]" Dropped])
      (simp_all add: settled_phase_def log_ok_def set_phase_def)
  show ?thesis
  proof (cases r)
    case (Fulfilled u)
    with prepared l t show ?thesis
      by (intro inv_move [OF i prepared(2), of _ 1 "[]" "Submitting 1"])
        (simp_all add: settled_phase_def log_ok_def preparation_settles_def call_submit_delivery_def
          set_phase_def MAX_DELIVERY_ATTEMPTS_def)
  qed (use prepared(1) gone in \<open>simp_all add: preparation_settles_def\<close>)
next
  case (answered j k q)
  have l: "log_ok (Submitting k) (calls_of j st) (answers_of j st)" by (rule inv_log [OF i answered(2,3)])
  have t: "turn_of j st" by (rule inv_turn [OF i answered(2,3)]) simp
  have ns: "\<not> settled_phase (phase_of j st)" by (simp add: answered(3) settled_phase_def)
  note move = inv_move [OF i answered(2) ns t]
  consider (ok) "q = Fulfilled Accepted" | (again) e where "q = Fulfilled (Failed_Before_Admission e)"
      "k < MAX_DELIVERY_ATTEMPTS"
    | (drop) "q \<noteq> Fulfilled Accepted" "\<And>e. q = Fulfilled (Failed_Before_Admission e) \<Longrightarrow> \<not> k < MAX_DELIVERY_ATTEMPTS"
    by blast
  then show ?thesis
  proof cases
    case ok
    with answered(1) l show ?thesis
      by (intro move [of _ 0 "[q]" Delivered]) (simp_all add: submission_answers_def set_phase_def log_ok_def)
  next
    case (again e)
    with answered(1) l show ?thesis
      by (intro move [of _ 1 "[q]" "Submitting (Suc k)"])
        (simp_all add: submission_answers_def call_submit_delivery_def set_phase_def log_ok_def)
  next
    case drop
    then have "st' = set_phase j Dropped (st\<lparr>cr_answers := cr_answers st @ [(j, q)]\<rparr>)"
      using answered(1)
      by (cases q) (auto simp: submission_answers_def Let_def split: delivery_result.split)
    with drop(1) l show ?thesis
      by (intro move [of _ 0 "[q]" Dropped]) (auto simp: set_phase_def log_ok_def list_all_iff)
  qed
qed

lemma router_reach_inv: "router_reach st \<Longrightarrow> router_inv st"
proof (induction rule: router_reach.induct)
  case init
  show ?case by (rule router_inv_init)
next
  case (step st st')
  from step.hyps(2) step.IH show ?case by cases (auto intro: inv_request inv_delivery)
qed


text \<open>Two running deliveries have different recipients, and the earlier request goes first.\<close>

lemma one_running:
  assumes "router_inv st" "i < length (cr_deliveries st)" "j < length (cr_deliveries st)"
    and "phase_of i st \<noteq> Queued" "j < i"
    and "d_recipient (cr_deliveries st ! j) = d_recipient (cr_deliveries st ! i)"
  shows "settled_phase (phase_of j st)"
  using inv_turn [OF assms(1,2) refl assms(4)] assms(5,6) by (auto simp: turn_of_iff)

lemma log_bounds:
  assumes "log_ok p n as"
  shows "n \<le> MAX_DELIVERY_ATTEMPTS" "length (filter (\<lambda>a. a = Fulfilled Accepted) as) \<le> 1"
    "length as \<le> n" "\<forall>k. Suc k < length as \<longrightarrow> (\<exists>e. as ! k = Fulfilled (Failed_Before_Admission e))"
proof -
  have b: "length (filter (\<lambda>a. a = Fulfilled Accepted) as) \<le> 1 \<and>
      (\<forall>k. Suc k < length as \<longrightarrow> (\<exists>e. as ! k = Fulfilled (Failed_Before_Admission e)))"
    if l: "list_all (\<lambda>a. \<exists>e. a = Fulfilled (Failed_Before_Admission e)) (butlast as)"
  proof (cases as rule: rev_cases)
    case (snoc bs x)
    with l have all: "\<forall>y \<in> set bs. \<exists>e. y = Fulfilled (Failed_Before_Admission e)" by (simp add: list_all_iff)
    then have "filter (\<lambda>a. a = Fulfilled Accepted) bs = []" by (auto simp: filter_empty_conv)
    moreover have "\<exists>e. as ! k = Fulfilled (Failed_Before_Admission e)" if "Suc k < length as" for k
      using that all by (simp add: snoc nth_append)
    ultimately show ?thesis by (simp add: snoc)
  qed simp
  have pre: "list_all P (butlast as)" if "list_all P as" for P
    using that by (auto simp: list_all_iff dest: in_set_butlastD)
  show "n \<le> MAX_DELIVERY_ATTEMPTS" "length (filter (\<lambda>a. a = Fulfilled Accepted) as) \<le> 1"
    "length as \<le> n" "\<forall>k. Suc k < length as \<longrightarrow> (\<exists>e. as ! k = Fulfilled (Failed_Before_Admission e))"
    using assms b pre by (auto simp: log_ok_def split: delivery_phase.splits)
qed

subsection \<open>Properties\<close>


subsection \<open>Termination\<close>

definition phase_work :: "delivery_phase \<Rightarrow> nat" where
  "phase_work p =
     (case p of
        Queued \<Rightarrow> MAX_DELIVERY_ATTEMPTS + 2
      | Preparing \<Rightarrow> MAX_DELIVERY_ATTEMPTS + 1
      | Submitting k \<Rightarrow> Suc (MAX_DELIVERY_ATTEMPTS - k)
      | _ \<Rightarrow> 0)"

definition router_work :: "router \<Rightarrow> nat" where
  "router_work st = sum_list (map (phase_work \<circ> d_phase) (cr_deliveries st))"

lemma work_set_phase:
  assumes "i < length (cr_deliveries st)" "cr_deliveries st' = cr_deliveries (set_phase i p st)"
    and "phase_work p < phase_work (phase_of i st)"
  shows "router_work st' < router_work st"
proof -
  have "sum_list (xs[i := y]) < sum_list xs" if "i < length xs" "y < xs ! i" for xs :: "nat list" and y
    using that
  proof (induction xs arbitrary: i)
    case (Cons a xs)
    then show ?case by (cases i) auto
  qed simp
  from this [of "map (phase_work \<circ> d_phase) (cr_deliveries st)" "phase_work p"] assms
  show ?thesis by (simp add: router_work_def set_phase_def phase_of_def map_update)
qed

lemma delivery_step_work:
  assumes s: "delivery_step st st'"
  shows "router_work st' < router_work st"
  using s
proof cases
  case (start j)
  then show ?thesis
    by (intro work_set_phase [of j]) (auto simp: turn_of_def phase_work_def)
next
  case (prepared j r)
  have "cr_deliveries (call_submit_delivery j 1 st) = cr_deliveries (set_phase j (Submitting 1) st)"
    by (simp add: call_submit_delivery_def)
  with prepared show ?thesis
    by (cases r) (auto simp: preparation_settles_def phase_work_def MAX_DELIVERY_ATTEMPTS_def
        intro: work_set_phase [of j])
next
  case (answered j k q)
  have w: "router_work s < router_work st" if "cr_deliveries s = cr_deliveries (set_phase j p st)"
    "p = Delivered \<or> p = Dropped \<or> k < MAX_DELIVERY_ATTEMPTS \<and> p = Submitting (Suc k)" for s p
    by (rule work_set_phase [OF answered(2) that(1)]) (use that(2) answered(3) in \<open>auto simp: phase_work_def\<close>)
  have "\<exists>p. cr_deliveries st' = cr_deliveries (set_phase j p st) \<and>
      (p = Delivered \<or> p = Dropped \<or> k < MAX_DELIVERY_ATTEMPTS \<and> p = Submitting (Suc k))"
  proof -
    let ?s = "st\<lparr>cr_answers := cr_answers st @ [(j, q)]\<rparr>"
    have e: "cr_deliveries (set_phase j p ?s) = cr_deliveries (set_phase j p st)" for p
      by (simp add: set_phase_def)
    have "st' = set_phase j Delivered ?s \<or> st' = set_phase j Dropped ?s \<or>
        k < MAX_DELIVERY_ATTEMPTS \<and> st' = call_submit_delivery j (Suc k) ?s"
      using answered(1)
      by (auto simp: submission_answers_def Let_def split: deadline_result.splits delivery_result.splits if_splits)
    with e show ?thesis by (auto simp: call_submit_delivery_def)
  qed
  with w show ?thesis by blast
qed

lemma delivery_enabled:
  assumes "\<not> list_all (settled_phase \<circ> d_phase) (cr_deliveries st)"
  shows "\<exists>st'. delivery_step st st'"
proof -
  let ?P = "\<lambda>i. i < length (cr_deliveries st) \<and> \<not> settled_phase (phase_of i st)"
  from assms have "\<exists>i. ?P i" by (auto simp: list_all_length phase_of_def)
  then have l: "?P (LEAST i. ?P i)" by (rule LeastI_ex)
  define i where "i = (LEAST i. ?P i)"
  have i: "i < length (cr_deliveries st)" "\<not> settled_phase (phase_of i st)" using l by (simp_all add: i_def)
  have t: "turn_of i st"
    unfolding turn_of_iff
  proof (intro conjI allI impI i(1))
    fix j assume "j < i"
    then have "\<not> ?P j" unfolding i_def by (rule not_less_Least)
    with \<open>j < i\<close> i(1) show "settled_phase (phase_of j st)" by simp
  qed
  show ?thesis
  proof (cases "phase_of i st")
    case Queued
    with t show ?thesis by (blast intro: delivery_step.start)
  next
    case Preparing
    with i show ?thesis by (blast intro: delivery_step.prepared)
  next
    case (Submitting k)
    with i show ?thesis by (blast intro: delivery_step.answered)
  qed (use i in \<open>simp_all add: settled_phase_def\<close>)
qed

text \<open>
  C20. Every delivery ends. With the deadline answering for what does not come back, no run of
  the deliveries is longer than five steps for each one requested, and where no step is left
  every delivery has been accepted or dropped, so the promise of each caller settles.
\<close>

theorem deliveries_terminate:
  assumes "(delivery_step ^^ n) st st'"
  shows "n \<le> 5 * length (cr_deliveries st) \<and>
    ((\<exists>st''. delivery_step st' st'') \<or> list_all (settled_phase \<circ> d_phase) (cr_deliveries st'))"
proof -
  have "phase_work p \<le> 5" for p
    by (cases p) (simp_all add: phase_work_def MAX_DELIVERY_ATTEMPTS_def)
  then have "sum_list (map (phase_work \<circ> d_phase) ds) \<le> 5 * length ds" for ds
    by (induction ds) (simp_all add: add_mono)
  then have "router_work st \<le> 5 * length (cr_deliveries st)" by (simp add: router_work_def)
  moreover have "n + router_work st' \<le> router_work st"
    using assms
  proof (induction n arbitrary: st')
    case (Suc n)
    then obtain s where "(delivery_step ^^ n) st s" "delivery_step s st'" by auto
    with Suc.IH [of s] delivery_step_work [of s st'] show ?case by simp
  qed simp
  ultimately show ?thesis using delivery_enabled [of st'] by auto
qed

subsection \<open>A run\<close>

definition sample_fact :: completion_fact where
  "sample_fact = \<lparr> fact_status = Fact_Completed, fact_result = Some ''done'', fact_kind = Workflow_Fact ''w1'' \<rparr>"

definition one_request :: router where
  "one_request = snd (deliver_runtime False 7 (Some 1) sample_fact (snd (deliver_runtime False 7 (Some 1) sample_fact router_init)))"

definition retried :: router where
  "retried = submission_answers 0 2 (Fulfilled Accepted)
     (submission_answers 0 1 (Fulfilled (Failed_Before_Admission ''busy''))
       (preparation_settles 0 (Fulfilled ()) (set_phase 0 Preparing one_request)))"

lemma retried_run: "(delivery_step ^^ 4) one_request retried"
proof -
  have 1: "delivery_step one_request (set_phase 0 Preparing one_request)"
    by (rule delivery_step.start) code_simp+
  let ?p = "preparation_settles 0 (Fulfilled ()) (set_phase 0 Preparing one_request)"
  have 2: "delivery_step (set_phase 0 Preparing one_request) ?p"
    by (rule delivery_step.prepared) code_simp+
  let ?a = "submission_answers 0 1 (Fulfilled (Failed_Before_Admission ''busy'')) ?p"
  have 3: "delivery_step ?p ?a" by (rule delivery_step.answered) code_simp+
  have 4: "delivery_step ?a retried"
    unfolding retried_def by (rule delivery_step.answered) code_simp+
  from 1 2 3 4 show ?thesis by (auto simp: eval_nat_numeral relcompp.simps)
qed

theorem deliveries_terminate_witness:
  "(delivery_step ^^ 4) one_request retried \<and> 4 \<le> 5 * length (cr_deliveries one_request)"
  using deliveries_terminate [OF retried_run] retried_run by blast


end
