(* ===== verification/Agent_Admission.thy ===== *)
theory Agent_Admission
  imports Completion_Router
begin

text \<open>
  \<^verbatim>\<open>packages/dreamux/src/service/agent/admission.ts\<close> and \<^verbatim>\<open>submission.ts\<close>: the duplicate
  ledger of a Dispatcher, what an admission is answered with, and the envelope an admitted
  input is handed to a runtime in.

  A ledger key is the tuple itself (the code takes its JSON text, which is injective).  An
  operation is a number drawn when it is reserved.  \<open>al_log\<close> is a ghost: what ran and how it
  settled, in order.
\<close>

subsection \<open>Admissions and their readings\<close>

datatype entity_admission =
    Ea_Submitted nat
  | Ea_Duplicate
  | Ea_Stopped
  | Ea_Skipped
  | Ea_Failed string
  | Ea_Ambiguous string

datatype submission_result =
    Sr_Submitted
  | Sr_Duplicate
  | Sr_Stopped "string option"
  | Sr_Failed string
  | Sr_Ambiguous string

definition to_submission_result :: "entity_admission \<Rightarrow> submission_result" where
  "to_submission_result a =
     (case a of
        Ea_Submitted _ \<Rightarrow> Sr_Submitted
      | Ea_Duplicate \<Rightarrow> Sr_Duplicate
      | Ea_Stopped \<Rightarrow> Sr_Stopped None
      | Ea_Failed e \<Rightarrow> Sr_Failed e
      | Ea_Ambiguous e \<Rightarrow> Sr_Ambiguous e
      | Ea_Skipped \<Rightarrow> Sr_Stopped (Some ''turn skipped''))"

definition as_completion_delivery_result :: "entity_admission \<Rightarrow> delivery_result" where
  "as_completion_delivery_result a =
     (case a of
        Ea_Submitted _ \<Rightarrow> Accepted
      | Ea_Duplicate \<Rightarrow> Accepted
      | Ea_Stopped \<Rightarrow> Unsupported ''runtime stopped''
      | Ea_Failed e \<Rightarrow> Failed_Before_Admission e
      | Ea_Ambiguous e \<Rightarrow> Ambiguous e
      | Ea_Skipped \<Rightarrow> Failed_Before_Admission ''completion delivery unexpectedly skipped'')"

definition failed_admission_reason :: "entity_admission \<Rightarrow> string option" where
  "failed_admission_reason a =
     (case a of
        Ea_Submitted _ \<Rightarrow> None
      | Ea_Duplicate \<Rightarrow> None
      | Ea_Stopped \<Rightarrow> Some ''the agent runtime is not running''
      | Ea_Skipped \<Rightarrow> Some ''the agent runtime skipped this input''
      | Ea_Failed e \<Rightarrow> Some e
      | Ea_Ambiguous e \<Rightarrow> Some e)"

subsection \<open>The duplicate ledger\<close>

definition ADMISSION_SOURCE_WINDOW :: nat where "ADMISSION_SOURCE_WINDOW = 1024"

record ledger_entity =
  le_dispatcher :: string
  le_team :: "string option"
  le_agent :: string

type_synonym ledger_key = "ledger_entity \<times> string"

datatype ledger_event =
    Ran ledger_key nat
  | Settled ledger_key nat "string + entity_admission"

record ledger =
  al_committed :: "ledger_key set"
  al_order :: "ledger_key list"
  al_pending :: "(ledger_key \<times> nat) list"
  al_next :: nat
  al_log :: "ledger_event list"

definition ledger_init :: ledger where
  "ledger_init = \<lparr> al_committed = {}, al_order = [], al_pending = [], al_next = 0, al_log = [] \<rparr>"

text \<open>What \<^verbatim>\<open>admit\<close> answers: the operation without a reservation, a duplicate, the pending one
  of the same key, or a new one.\<close>

datatype ledger_answer =
    Bypass
  | Known_Duplicate
  | Joins nat
  | Reserved nat

definition admit :: "ledger_entity \<Rightarrow> string option \<Rightarrow> ledger \<Rightarrow> ledger_answer \<times> ledger" where
  "admit who source led =
     (case source of
        None \<Rightarrow> (Bypass, led)
      | Some s \<Rightarrow>
          if s = '''' then (Bypass, led)
          else if (who, s) \<in> al_committed led then (Known_Duplicate, led)
          else (case map_of (al_pending led) (who, s) of
              Some t \<Rightarrow> (Joins t, led)
            | None \<Rightarrow>
                let t = al_next led
                in (Reserved t,
                    led\<lparr>al_pending := al_pending led @ [((who, s), t)], al_next := Suc t,
                        al_log := al_log led @ [Ran (who, s) t]\<rparr>)))"

fun evict :: "ledger_key set \<Rightarrow> ledger_key list \<Rightarrow> ledger_key set \<times> ledger_key list" where
  "evict committed [] = (committed, [])"
| "evict committed (k # ks) =
     (if ADMISSION_SOURCE_WINDOW < length (k # ks) then evict (committed - {k}) ks
      else (committed, k # ks))"

definition commit_key :: "ledger_key \<Rightarrow> ledger \<Rightarrow> ledger" where
  "commit_key k led =
     (if k \<in> al_committed led then led
      else
        let (c, ks) = evict (insert k (al_committed led)) (al_order led @ [k])
        in led\<lparr>al_committed := c, al_order := ks\<rparr>)"

definition release_uncommitted :: "ledger_key \<Rightarrow> nat \<Rightarrow> ledger \<Rightarrow> ledger" where
  "release_uncommitted k t led =
     (if map_of (al_pending led) k = Some t
      then led\<lparr>al_pending := filter (\<lambda>e. fst e \<noteq> k) (al_pending led)\<rparr> else led)"

definition commits :: "string + entity_admission \<Rightarrow> bool" where
  "commits outcome =
     (case outcome of Inr (Ea_Submitted _) \<Rightarrow> True | Inr (Ea_Ambiguous _) \<Rightarrow> True | _ \<Rightarrow> False)"

text \<open>The reaction to the operation's promise: a rejection only releases.\<close>

definition settle_task :: "ledger_key \<Rightarrow> nat \<Rightarrow> string + entity_admission \<Rightarrow> ledger \<Rightarrow> ledger" where
  "settle_task k t outcome led0 =
     (let led = led0\<lparr>al_log := al_log led0 @ [Settled k t outcome]\<rparr>
      in release_uncommitted k t (if commits outcome then commit_key k led else led))"

inductive ledger_reach :: "ledger \<Rightarrow> bool" where
  start: "ledger_reach ledger_init"
| admit: "ledger_reach led \<Longrightarrow> ledger_reach (snd (admit who source led))"
| settle: "ledger_reach led \<Longrightarrow> (k, t) \<in> set (al_pending led) \<Longrightarrow>
    ledger_reach (settle_task k t outcome led)"

subsection \<open>The invariant\<close>

text \<open>The keys the log committed, in order, and the ones of them the window keeps.\<close>

fun committed_keys :: "ledger_event list \<Rightarrow> ledger_key list" where
  "committed_keys [] = []"
| "committed_keys (Ran k t # h) = committed_keys h"
| "committed_keys (Settled k t outcome # h) =
     (if commits outcome then k # committed_keys h else committed_keys h)"

definition window :: "'a list \<Rightarrow> 'a list" where
  "window ks = drop (length ks - ADMISSION_SOURCE_WINDOW) ks"

lemma committed_keys_append [simp]: "committed_keys (h @ h') = committed_keys h @ committed_keys h'"
  by (induction h rule: committed_keys.induct) auto

lemma evict_window: "evict c ks = (c - set (take (length ks - ADMISSION_SOURCE_WINDOW) ks), window ks)"
proof (induction ks arbitrary: c)
  case (Cons k ks)
  show ?case
  proof (cases "ADMISSION_SOURCE_WINDOW < length (k # ks)")
    case True
    then have "length (k # ks) - ADMISSION_SOURCE_WINDOW = Suc (length ks - ADMISSION_SOURCE_WINDOW)"
      by simp
    then show ?thesis using True Cons by (auto simp: window_def)
  next
    case False
    then show ?thesis by (simp add: window_def)
  qed
qed (simp add: window_def)

lemma window_snoc: "window (window ks @ [k]) = window (ks @ [k])"
proof (cases "length ks < ADMISSION_SOURCE_WINDOW")
  case False
  then have "Suc (length ks - ADMISSION_SOURCE_WINDOW) = Suc (length ks) - ADMISSION_SOURCE_WINDOW"
    by simp
  then show ?thesis using False by (simp add: window_def)
qed (simp add: window_def)

definition ran_settled :: "ledger_event list \<Rightarrow> ledger_key \<Rightarrow> nat \<Rightarrow> bool" where
  "ran_settled h k t \<longleftrightarrow> (Ran k t \<in> set h \<longrightarrow> (\<exists>outcome. Settled k t outcome \<in> set h))"

text \<open>What held when an operation ran.\<close>

definition ran_fresh :: "ledger_event list \<Rightarrow> bool" where
  "ran_fresh tr \<longleftrightarrow>
     (\<forall>h k t h'. tr = h @ Ran k t # h' \<longrightarrow>
        k \<notin> set (window (committed_keys h)) \<and> (\<forall>t'. ran_settled h k t'))"

definition ledger_inv :: "ledger \<Rightarrow> bool" where
  "ledger_inv led \<longleftrightarrow>
     al_order led = window (committed_keys (al_log led)) \<and>
     al_committed led = set (al_order led) \<and> distinct (al_order led) \<and>
     distinct (map fst (al_pending led)) \<and>
     fst ` set (al_pending led) \<inter> al_committed led = {} \<and>
     (\<forall>k t. (k, t) \<notin> set (al_pending led) \<longrightarrow> ran_settled (al_log led) k t) \<and>
     ran_fresh (al_log led)"


lemma snoc_split:
  "tr @ [x] = h @ y # h' \<longleftrightarrow>
     (h' = [] \<and> y = x \<and> tr = h) \<or> (\<exists>h''. h' = h'' @ [x] \<and> tr = h @ y # h'')"
  by (cases h' rule: rev_cases) auto

lemma ran_freshD:
  "ran_fresh tr \<Longrightarrow> tr = h @ Ran k t # h' \<Longrightarrow>
   k \<notin> set (window (committed_keys h)) \<and> (\<forall>t'. ran_settled h k t')"
  unfolding ran_fresh_def by blast

lemma ran_fresh_snoc_settled: "ran_fresh tr \<Longrightarrow> ran_fresh (tr @ [Settled k t outcome])"
  unfolding ran_fresh_def snoc_split by blast

lemma ran_fresh_snoc_ran:
  "ran_fresh tr \<Longrightarrow> k \<notin> set (window (committed_keys tr)) \<Longrightarrow> (\<And>t'. ran_settled tr k t') \<Longrightarrow>
   ran_fresh (tr @ [Ran k t])"
  unfolding ran_fresh_def snoc_split by blast

lemma ran_settled_mono: "ran_settled h k t \<Longrightarrow> ran_settled (h @ [Settled k' t' outcome]) k t"
  by (auto simp: ran_settled_def)

lemma window_insert:
  assumes "k \<notin> set (window ks)" and "distinct (window ks)"
  shows "distinct (window (ks @ [k])) \<and>
    insert k (set (window ks)) - set (take (length (window ks @ [k]) - ADMISSION_SOURCE_WINDOW) (window ks @ [k])) =
      set (window (ks @ [k]))"
proof -
  let ?w = "window ks @ [k]"
  let ?n = "length ?w - ADMISSION_SOURCE_WINDOW"
  have d: "distinct ?w" using assms by simp
  have w: "window (ks @ [k]) = drop ?n ?w" using window_snoc [of ks k] by (simp add: window_def)
  have "set (take ?n ?w) \<union> set (drop ?n ?w) = set ?w"
    by (metis append_take_drop_id set_append)
  moreover have "set (take ?n ?w) \<inter> set (drop ?n ?w) = {}"
    by (rule set_take_disj_set_drop_if_distinct [OF d order_refl])
  ultimately have "set ?w - set (take ?n ?w) = set (drop ?n ?w)" by blast
  moreover have "insert k (set (window ks)) = set ?w" by simp
  ultimately show ?thesis unfolding w using distinct_drop [OF d] by (simp only: conj_absorb simp_thms)
qed

lemma commit_inv:
  assumes "al_order led = window ks" "al_committed led = set (al_order led)" "distinct (al_order led)"
    "k \<notin> al_committed led"
  shows "al_order (commit_key k led) = window (ks @ [k])"
    "al_committed (commit_key k led) = set (al_order (commit_key k led))"
    "distinct (al_order (commit_key k led))"
proof -
  have w: "distinct (window (ks @ [k])) \<and>
    insert k (set (window ks)) - set (take (length (window ks @ [k]) - ADMISSION_SOURCE_WINDOW) (window ks @ [k])) =
      set (window (ks @ [k]))"
    by (rule window_insert) (use assms in simp_all)
  have c: "commit_key k led = led\<lparr>al_committed := insert k (set (window ks)) -
        set (take (length (window ks @ [k]) - ADMISSION_SOURCE_WINDOW) (window ks @ [k])),
      al_order := window (ks @ [k])\<rparr>"
    unfolding commit_key_def evict_window using assms by (simp only: window_snoc if_False prod.case Let_def)
  show "al_order (commit_key k led) = window (ks @ [k])"
    "al_committed (commit_key k led) = set (al_order (commit_key k led))"
    "distinct (al_order (commit_key k led))"
    unfolding c using w by simp_all
qed

lemma commit_other:
  "al_pending (commit_key k led) = al_pending led" "al_log (commit_key k led) = al_log led"
  "al_next (commit_key k led) = al_next led"
  by (simp_all add: commit_key_def split: prod.splits)

lemma inv_admit:
  assumes inv: "ledger_inv led"
  shows "ledger_inv (snd (admit who source led))"
proof -
  consider "snd (admit who source led) = led"
    | s where "source = Some s" "s \<noteq> ''''" "(who, s) \<notin> al_committed led" "map_of (al_pending led) (who, s) = None"
  proof (cases source)
    case (Some s)
    then show ?thesis
      using that by (cases "s = '''' \<or> (who, s) \<in> al_committed led"; cases "map_of (al_pending led) (who, s)")
        (auto simp: admit_def)
  qed (use that in \<open>simp add: admit_def\<close>)
  then show ?thesis
  proof cases
    case 2
    let ?k = "(who, s)" and ?t = "al_next led"
    have absent: "?k \<notin> fst ` set (al_pending led)" using 2(4) by (simp add: map_of_eq_None_iff)
    then have "\<And>t. (?k, t) \<notin> set (al_pending led)" by force
    then have old: "\<And>t. ran_settled (al_log led) ?k t" using inv unfolding ledger_inv_def by blast
    have w: "?k \<notin> set (window (committed_keys (al_log led)))"
      using inv 2(3) unfolding ledger_inv_def by simp
    have "ran_fresh (al_log led @ [Ran ?k ?t])"
      using ran_fresh_snoc_ran [OF _ w old] inv unfolding ledger_inv_def by blast
    moreover have "ran_settled (al_log led @ [Ran ?k ?t]) k t"
      if "(k, t) \<notin> set (al_pending led @ [(?k, ?t)])" for k t
    proof -
      have "(k, t) \<notin> set (al_pending led)" using that by simp
      then have "ran_settled (al_log led) k t" using inv unfolding ledger_inv_def by blast
      then show ?thesis using that by (auto simp: ran_settled_def)
    qed
    ultimately have "ledger_inv (led\<lparr>al_pending := al_pending led @ [(?k, ?t)], al_next := Suc ?t,
        al_log := al_log led @ [Ran ?k ?t]\<rparr>)"
      using inv absent 2(3) unfolding ledger_inv_def by auto
    then show ?thesis
      using inv 2 by (auto simp: admit_def Let_def)
  qed (use inv in simp)
qed

lemma inv_settle:
  assumes inv: "ledger_inv led" and pending: "(k, t) \<in> set (al_pending led)"
  shows "ledger_inv (settle_task k t outcome led)"
proof -
  let ?l = "led\<lparr>al_log := al_log led @ [Settled k t outcome]\<rparr>"
  let ?c = "if commits outcome then commit_key k ?l else ?l"
  have new: "k \<notin> al_committed led" using inv pending unfolding ledger_inv_def by force
  have t: "map_of (al_pending led) k = Some t" using inv pending unfolding ledger_inv_def by simp
  have c: "al_order ?c = window (committed_keys (al_log ?l))" "al_committed ?c = set (al_order ?c)"
      "distinct (al_order ?c)"
    using commit_inv [of ?l "committed_keys (al_log led)" k] inv new
    by (auto simp: ledger_inv_def)
  have same: "al_pending ?c = al_pending led" "al_log ?c = al_log ?l" by (simp_all add: commit_other)
  have sub: "al_committed ?c \<subseteq> insert k (al_committed led)"
    by (auto simp: commit_key_def evict_window)
  have over: "ran_settled (al_log ?l) k' t'" if "(k', t') \<notin> set (filter (\<lambda>e. fst e \<noteq> k) (al_pending led))" for k' t'
  proof (cases "(k', t') \<in> set (al_pending led)")
    case True
    then have "k' = k" using that by auto
    moreover have "t' = t" using True t calculation inv pending unfolding ledger_inv_def
      by (metis eq_key_imp_eq_value)
    ultimately show ?thesis by (auto simp: ran_settled_def)
  next
    case False
    then have "ran_settled (al_log led) k' t'" using inv unfolding ledger_inv_def by blast
    then show ?thesis by (auto simp: ran_settled_def)
  qed
  have eq: "settle_task k t outcome led = ?c\<lparr>al_pending := filter (\<lambda>e. fst e \<noteq> k) (al_pending led)\<rparr>"
    using t same by (simp add: settle_task_def Let_def release_uncommitted_def)
  have "fst ` set (filter (\<lambda>e. fst e \<noteq> k) (al_pending led)) \<inter> al_committed ?c = {}"
    using inv sub unfolding ledger_inv_def by fastforce
  moreover have "ran_fresh (al_log ?l)" using inv ran_fresh_snoc_settled unfolding ledger_inv_def by simp
  moreover have "distinct (map fst (filter (\<lambda>e. fst e \<noteq> k) (al_pending led)))"
    using inv distinct_map_filter unfolding ledger_inv_def by blast
  ultimately show ?thesis
    unfolding eq ledger_inv_def using c same over by simp
qed

lemma ledger_reach_inv: "ledger_reach led \<Longrightarrow> ledger_inv led"
proof (induction rule: ledger_reach.induct)
  case start
  show ?case by (simp add: ledger_inv_def ledger_init_def window_def ran_settled_def ran_fresh_def)
qed (simp_all add: inv_admit inv_settle)


text \<open>
  C25. An input is admitted once.  Whenever the ledger lets an operation run for an entity and a
  source id, every earlier operation of the same key has settled, and the key is not among the
  last 1024 that were admitted (submitted, or ambiguously so): a repeat runs again only after
  a failure that admitted nothing, or once the window has moved past it.
\<close>
theorem admitted_once:
  assumes "ledger_reach led" and "al_log led = h @ Ran k t # h'"
  shows "k \<notin> set (window (committed_keys h)) \<and>
    (\<forall>t'. Ran k t' \<in> set h \<longrightarrow> (\<exists>outcome. Settled k t' outcome \<in> set h)) \<and>
    card (al_committed led) \<le> ADMISSION_SOURCE_WINDOW"
proof -
  have inv: "ledger_inv led" by (rule ledger_reach_inv [OF assms(1)])
  have "length (al_order led) \<le> ADMISSION_SOURCE_WINDOW"
    using inv by (simp add: ledger_inv_def window_def)
  then have "card (al_committed led) \<le> ADMISSION_SOURCE_WINDOW"
    using inv card_length [of "al_order led"] by (simp add: ledger_inv_def)
  moreover have "ran_fresh (al_log led)" using inv by (simp add: ledger_inv_def)
  ultimately show ?thesis using ran_freshD [OF _ assms(2)] unfolding ran_settled_def by blast
qed

text \<open>A failed input that runs again under the same id.\<close>

definition retried_entity :: ledger_entity where
  "retried_entity = \<lparr> le_dispatcher = ''d'', le_team = None, le_agent = ''main'' \<rparr>"

definition retried_ledger :: ledger where
  "retried_ledger = snd (admit retried_entity (Some ''om_1'')
     (settle_task (retried_entity, ''om_1'') 0 (Inr (Ea_Failed ''offline''))
       (snd (admit retried_entity (Some ''om_1'') ledger_init))))"

theorem admitted_once_witness:
  "al_log retried_ledger =
     [Ran (retried_entity, ''om_1'') 0, Settled (retried_entity, ''om_1'') 0 (Inr (Ea_Failed ''offline''))] @
     Ran (retried_entity, ''om_1'') 1 # [] \<and>
   (retried_entity, ''om_1'') \<notin> set (window (committed_keys
     [Ran (retried_entity, ''om_1'') 0, Settled (retried_entity, ''om_1'') 0 (Inr (Ea_Failed ''offline''))]))"
proof -
  let ?l = "snd (admit retried_entity (Some ''om_1'') ledger_init)"
  have "ledger_reach ?l" by (rule ledger_reach.admit [OF ledger_reach.start])
  moreover have "((retried_entity, ''om_1''), 0) \<in> set (al_pending ?l)"
    by (simp add: admit_def ledger_init_def Let_def)
  ultimately have reach: "ledger_reach retried_ledger"
    unfolding retried_ledger_def by (rule ledger_reach.admit [OF ledger_reach.settle])
  have tr: "al_log retried_ledger =
     [Ran (retried_entity, ''om_1'') 0, Settled (retried_entity, ''om_1'') 0 (Inr (Ea_Failed ''offline''))] @
     Ran (retried_entity, ''om_1'') 1 # []"
    by (simp add: retried_ledger_def admit_def ledger_init_def Let_def settle_task_def commits_def
        release_uncommitted_def)
  show ?thesis using tr admitted_once [OF reach tr] by blast
qed

subsection \<open>The envelope\<close>

record teammate_input =
  si_source :: string
  si_attrs :: "(string \<times> string) list"
  si_text :: string
  si_reminder :: "string option"

definition ascii_letter :: "char \<Rightarrow> bool" where
  "ascii_letter c \<longleftrightarrow> c \<in> set ''ABCDEFGHIJKLMNOPQRSTUVWXYZabcdefghijklmnopqrstuvwxyz''"

definition is_safe_tag_name :: "string \<Rightarrow> bool" where
  "is_safe_tag_name s \<longleftrightarrow>
     (case s of
        [] \<Rightarrow> False
      | c # cs \<Rightarrow> (ascii_letter c \<or> c = CHR ''_'') \<and>
          list_all (\<lambda>x. ascii_letter x \<or> x \<in> set ''0123456789_.-'') cs)"

text \<open>\<^verbatim>\<open>replaceAll\<close> of one character.\<close>

definition replace_all :: "char \<Rightarrow> string \<Rightarrow> string \<Rightarrow> string" where
  "replace_all c w s = concat (map (\<lambda>x. if x = c then w else [x]) s)"

definition escape_attribute_value :: "string \<Rightarrow> string" where
  "escape_attribute_value v =
     replace_all (CHR 0x22) ''&quot;'' (replace_all (CHR ''>'') ''&gt;''
       (replace_all (CHR ''<'') ''&lt;'' (replace_all (CHR ''&'') ''&amp;'' v)))"

definition unsafe_name :: "string \<Rightarrow> string \<Rightarrow> string" where
  "unsafe_name name what = what @ '' '' @ name @ '' is not a safe tag name''"

fun start_attrs :: "(string \<times> string) list \<Rightarrow> string + string" where
  "start_attrs [] = Inr ''''"
| "start_attrs ((n, v) # as) =
     (if is_safe_tag_name n then
        bind_res (start_attrs as) (\<lambda>rest.
          Inr ('' '' @ n @ [CHR ''='', CHR 0x22] @ escape_attribute_value v @ [CHR 0x22] @ rest))
      else Inl (unsafe_name n ''submission attribute''))"

definition REMINDER_TAG :: string where "REMINDER_TAG = ''reminder''"

definition render_submission :: "teammate_input \<Rightarrow> string + string" where
  "render_submission i =
     (if \<not> is_safe_tag_name (si_source i) then Inl (unsafe_name (si_source i) ''submission source'')
      else
        bind_res (start_attrs (si_attrs i)) (\<lambda>as.
          let block = ''<'' @ si_source i @ as @ ''>'' @ si_text i @ ''</'' @ si_source i @ ''>''
          in case si_reminder i of
               None \<Rightarrow> Inr block
             | Some r \<Rightarrow>
                 if r = '''' then Inr block
                 else Inr (block @ [CHR 0x0A, CHR 0x0A] @ ''<'' @ REMINDER_TAG @ ''>'' @ r @
                   ''</'' @ REMINDER_TAG @ ''>'')))"


text \<open>A reader of the envelope's start tag.\<close>

fun unescape_value :: "string \<Rightarrow> string" where
  "unescape_value [] = []"
| "unescape_value (c # cs) =
     (if c \<noteq> CHR ''&'' then c # unescape_value cs
      else if take 4 cs = ''amp;'' then CHR ''&'' # unescape_value (drop 4 cs)
      else if take 3 cs = ''lt;'' then CHR ''<'' # unescape_value (drop 3 cs)
      else if take 3 cs = ''gt;'' then CHR ''>'' # unescape_value (drop 3 cs)
      else if take 5 cs = ''quot;'' then CHR 0x22 # unescape_value (drop 5 cs)
      else c # unescape_value cs)"

function read_attrs :: "string \<Rightarrow> ((string \<times> string) list \<times> string) option" where
  "read_attrs s =
     (case s of
        [] \<Rightarrow> None
      | c # cs \<Rightarrow>
          if c = CHR ''>'' then Some ([], cs)
          else
            let n = takeWhile (\<lambda>x. x \<noteq> CHR ''='') cs;
                r = drop (length n + 2) cs;
                v = takeWhile (\<lambda>x. x \<noteq> CHR 0x22) r
            in map_option (\<lambda>(as, body). ((n, unescape_value v) # as, body))
                 (read_attrs (drop (length v + 1) r)))"
  by pat_completeness auto
termination by (relation "measure length") auto

declare read_attrs.simps [simp del]

definition read_envelope :: "string \<Rightarrow> (string \<times> (string \<times> string) list \<times> string) option" where
  "read_envelope out =
     (let name = takeWhile (\<lambda>x. x \<noteq> CHR '' '' \<and> x \<noteq> CHR ''>'') (tl out)
      in map_option (\<lambda>(as, body). (name, as, body)) (read_attrs (drop (length name) (tl out))))"

definition escape_char :: "char \<Rightarrow> string" where
  "escape_char x =
     (if x = CHR ''&'' then ''&amp;'' else if x = CHR ''<'' then ''&lt;''
      else if x = CHR ''>'' then ''&gt;'' else if x = CHR 0x22 then ''&quot;'' else [x])"

lemma replace_all_concat: "replace_all c w (concat (map f s)) = concat (map (\<lambda>x. replace_all c w (f x)) s)"
  by (induction s) (simp_all add: replace_all_def)

lemma escape_by_char: "escape_attribute_value v = concat (map escape_char v)"
proof -
  have "escape_attribute_value v = concat (map (\<lambda>x. replace_all (CHR 0x22) ''&quot;''
      (replace_all (CHR ''>'') ''&gt;'' (replace_all (CHR ''<'') ''&lt;''
        (if x = CHR ''&'' then ''&amp;'' else [x])))) v)"
    unfolding escape_attribute_value_def
    by (simp only: replace_all_def [of "CHR ''&''"] replace_all_concat)
  also have "\<dots> = concat (map escape_char v)"
    by (rule arg_cong [of _ _ concat], rule map_cong) (simp_all add: replace_all_def escape_char_def)
  finally show ?thesis .
qed

lemma unescape_char: "unescape_value (escape_char x @ rest) = x # unescape_value rest"
  by (simp add: escape_char_def)

lemma unescape_escape: "unescape_value (escape_attribute_value v) = v"
  unfolding escape_by_char by (induction v) (simp_all add: unescape_char)

lemma escape_no_quote: "CHR 0x22 \<notin> set (escape_attribute_value v)"
  unfolding escape_by_char by (auto simp: escape_char_def split: if_splits)

lemma safe_name_chars:
  "is_safe_tag_name n \<Longrightarrow> c \<in> set n \<Longrightarrow> ascii_letter c \<or> c \<in> set ''0123456789_.-''"
proof (cases n)
  case (Cons d ds)
  assume safe: "is_safe_tag_name n" and c: "c \<in> set n"
  have tail: "\<forall>x \<in> set ds. ascii_letter x \<or> x \<in> set ''0123456789_.-''"
    using safe unfolding Cons is_safe_tag_name_def list_all_iff list.case by (rule conjunct2)
  have "ascii_letter d \<or> d = CHR ''_''"
    using safe unfolding Cons is_safe_tag_name_def list.case by (rule conjunct1)
  then have "ascii_letter d \<or> d \<in> set ''0123456789_.-''" by (elim disjE) simp_all
  moreover from c have "c = d \<or> c \<in> set ds" by (simp add: Cons)
  ultimately show ?thesis using tail by blast
qed simp

lemma safe_name_free:
  assumes "is_safe_tag_name n"
  shows "CHR ''='' \<notin> set n" "CHR '' '' \<notin> set n" "CHR ''>'' \<notin> set n"
  using safe_name_chars [OF assms, of "CHR ''=''"] safe_name_chars [OF assms, of "CHR '' ''"]
    safe_name_chars [OF assms, of "CHR ''>''"] by (auto simp: ascii_letter_def)

lemma takeWhile_stop: "x \<notin> set xs \<Longrightarrow> takeWhile (\<lambda>y. y \<noteq> x) (xs @ x # ys) = xs"
  by (induction xs) auto

lemma read_start_attrs: "start_attrs as = Inr s \<Longrightarrow> read_attrs (s @ CHR ''>'' # body) = Some (as, body)"
proof (induction as arbitrary: s)
  case Nil
  then show ?case by (simp add: read_attrs.simps)
next
  case (Cons a as)
  obtain n v where a: "a = (n, v)" by fastforce
  let ?q = "CHR 0x22" and ?e = "escape_attribute_value v"
  obtain r where safe: "is_safe_tag_name n" and r: "start_attrs as = Inr r"
    and s: "s = '' '' @ n @ [CHR ''='', ?q] @ ?e @ [?q] @ r"
    using Cons.prems a by (auto simp: bind_res_Inr_iff split: if_splits)
  have n: "takeWhile (\<lambda>x. x \<noteq> CHR ''='') (n @ CHR ''='' # ?q # ?e @ ?q # r @ CHR ''>'' # body) = n"
    by (rule takeWhile_stop [OF safe_name_free(1) [OF safe]])
  have v: "takeWhile (\<lambda>x. x \<noteq> ?q) (?e @ ?q # r @ CHR ''>'' # body) = ?e"
    by (rule takeWhile_stop [OF escape_no_quote])
  show ?case
    unfolding s a
    by (subst read_attrs.simps) (simp add: n v Cons.IH [OF r] unescape_escape Let_def numeral_3_eq_3)
qed

text \<open>
  C26. The envelope is unambiguous.  Whatever the attribute values hold (quotes, brackets,
  ampersands), a reader of the start tag gets back the source, every attribute and its exact
  value, and then the body byte for byte followed by the end tag and the reminder; a source or
  attribute name that could break the tag is refused instead.
\<close>
theorem envelope_round_trip:
  assumes "render_submission i = Inr out"
  shows "\<exists>reminder. read_envelope out =
      Some (si_source i, si_attrs i, si_text i @ ''</'' @ si_source i @ ''>'' @ reminder) \<and>
    (reminder = '''' \<longleftrightarrow> si_reminder i = None \<or> si_reminder i = Some '''')"
proof -
  let ?src = "si_source i"
  obtain as where safe: "is_safe_tag_name ?src" and as: "start_attrs (si_attrs i) = Inr as"
    using assms by (auto simp: render_submission_def bind_res_Inr_iff split: if_splits)
  let ?open = "''<'' @ ?src @ as @ ''>''"
  obtain tail where out: "out = ?open @ si_text i @ ''</'' @ ?src @ ''>'' @ tail"
    and tail: "tail = '''' \<longleftrightarrow> si_reminder i = None \<or> si_reminder i = Some ''''"
    using assms safe as by (auto simp: render_submission_def Let_def split: option.splits if_splits)
  have name: "takeWhile (\<lambda>x. x \<noteq> CHR '' '' \<and> x \<noteq> CHR ''>'') (?src @ as @ CHR ''>'' # body) = ?src" for body
  proof -
    have "\<forall>x \<in> set ?src. x \<noteq> CHR '' '' \<and> x \<noteq> CHR ''>''" using safe_name_free [OF safe] by blast
    moreover have "as = '''' \<or> hd as = CHR '' ''"
      using as by (cases "si_attrs i") (auto simp: bind_res_Inr_iff split: if_splits)
    ultimately show ?thesis by (cases as) (simp_all add: takeWhile_append2)
  qed
  have "read_envelope out = Some (?src, si_attrs i, si_text i @ ''</'' @ ?src @ ''>'' @ tail)"
    unfolding out read_envelope_def using name read_start_attrs [OF as] by (simp add: Let_def)
  then show ?thesis using tail by blast
qed

definition quoting_input :: teammate_input where
  "quoting_input = \<lparr> si_source = ''channel'', si_attrs = [(''chat'', ''R&D <x> says '' @ [CHR 0x22])],
     si_text = ''a < b'', si_reminder = Some ''reply'' \<rparr>"

theorem envelope_round_trip_witness:
  "\<exists>out reminder. render_submission quoting_input = Inr out \<and> reminder \<noteq> '''' \<and>
     read_envelope out = Some (''channel'', [(''chat'', ''R&D <x> says '' @ [CHR 0x22])],
       ''a < b</channel>'' @ reminder)"
proof -
  obtain out where out: "render_submission quoting_input = Inr out"
    by (simp add: render_submission_def quoting_input_def is_safe_tag_name_def ascii_letter_def Let_def)
  show ?thesis using envelope_round_trip [OF out] out by (auto simp: quoting_input_def)
qed

end
