(* ===== verification/Mcp_Leases.thy ===== *)
theory Mcp_Leases
  imports Js_Value
begin

text \<open>
  \<^verbatim>\<open>packages/dreamux/src/service/mcp/leases.ts\<close> and \<^verbatim>\<open>catalog.ts\<close>: the registry of MCP
  lease tokens, the catalog a token is frozen with, and the one way to a delegate.

  A token is a number drawn once.  Whether a runtime generation is current is the argument
  \<open>current\<close>; the schema compiler of the MCP SDK is the argument \<open>schema_ok\<close>; what a delegate
  describes arrives as the JSON value of its canonical copy.
\<close>

subsection \<open>Catalogs\<close>

record mcp_tool =
  tool_name :: string
  tool_title :: string
  tool_description :: string
  tool_input :: "(string \<times> js) list"
  tool_output :: "(string \<times> js) list option"
  tool_annotations :: "(string \<times> js) list option"
  tool_icons :: "js list option"

datatype catalog_error =
    Catalog_Not_Json string
  | Description_Not_Object
  | No_Tools_Array
  | Catalog_Empty
  | Tool_Not_Object nat
  | Tool_Unknown_Key nat string
  | Tool_Without_Name nat
  | Tool_Duplicated string
  | Schema_Not_Object string
  | Schema_Rejected string
  | Annotations_Not_Object string
  | Annotation_Unknown string string
  | Annotation_Title_Empty string
  | Annotation_Not_Boolean string string
  | Icons_Not_Array string
  | Icon_Not_Object string nat
  | Icon_Unknown_Key string nat string
  | Icon_Src string nat | Icon_Mime string nat | Icon_Sizes string nat | Icon_Theme string nat
  | Title_Empty string
  | Description_Not_A_String string
  | Server_Name_Twice string
  | Launch_Refused string

definition ALLOWED_TOOL_KEYS :: "string list" where
  "ALLOWED_TOOL_KEYS =
     [''name'', ''title'', ''description'', ''inputSchema'', ''outputSchema'', ''annotations'', ''icons'']"

definition ALLOWED_ANNOTATION_KEYS :: "string list" where
  "ALLOWED_ANNOTATION_KEYS =
     [''title'', ''readOnlyHint'', ''destructiveHint'', ''idempotentHint'', ''openWorldHint'']"

definition ALLOWED_ICON_KEYS :: "string list" where
  "ALLOWED_ICON_KEYS = [''src'', ''mimeType'', ''sizes'', ''theme'']"

definition require_schema_object ::
  "((string \<times> js) list \<Rightarrow> bool) \<Rightarrow> js \<Rightarrow> string \<Rightarrow> catalog_error + (string \<times> js) list" where
  "require_schema_object schema_ok v label =
     (case v of
        Obj s \<Rightarrow> if schema_ok s then Inr s else Inl (Schema_Rejected label)
      | _ \<Rightarrow> Inl (Schema_Not_Object label))"

definition non_empty_string :: "js \<Rightarrow> bool" where
  "non_empty_string v = (case v of Str s \<Rightarrow> s \<noteq> '''' | _ \<Rightarrow> False)"

fun annotation_entries :: "string \<Rightarrow> (string \<times> js) list \<Rightarrow> catalog_error option" where
  "annotation_entries name [] = None"
| "annotation_entries name ((k, a) # rest) =
     (if k \<notin> set ALLOWED_ANNOTATION_KEYS then Some (Annotation_Unknown name k)
      else if k = ''title'' then
        (if non_empty_string a then annotation_entries name rest else Some (Annotation_Title_Empty name))
      else (case a of Bool _ \<Rightarrow> annotation_entries name rest | _ \<Rightarrow> Some (Annotation_Not_Boolean name k)))"

definition validate_annotations :: "js \<Rightarrow> string \<Rightarrow> catalog_error + (string \<times> js) list option" where
  "validate_annotations v name =
     (case v of
        Undef \<Rightarrow> Inr None
      | Obj as \<Rightarrow> (case annotation_entries name as of Some e \<Rightarrow> Inl e | None \<Rightarrow> Inr (Some as))
      | _ \<Rightarrow> Inl (Annotations_Not_Object name))"

definition validate_icon :: "string \<Rightarrow> js \<times> nat \<Rightarrow> catalog_error + js" where
  "validate_icon name e =
     (case e of (v, i) \<Rightarrow>
        (case v of
           Obj icon \<Rightarrow>
             (case find (\<lambda>k. k \<notin> set ALLOWED_ICON_KEYS) (map fst icon) of
                Some k \<Rightarrow> Inl (Icon_Unknown_Key name i k)
              | None \<Rightarrow>
                  if \<not> non_empty_string (jget icon ''src'') then Inl (Icon_Src name i)
                  else if jget icon ''mimeType'' \<noteq> Undef \<and> \<not> non_empty_string (jget icon ''mimeType'')
                  then Inl (Icon_Mime name i)
                  else if jget icon ''sizes'' \<noteq> Undef \<and>
                       (case jget icon ''sizes'' of
                          Arr ss \<Rightarrow> \<not> list_all non_empty_string ss | _ \<Rightarrow> True)
                  then Inl (Icon_Sizes name i)
                  else if jget icon ''theme'' \<noteq> Undef \<and> jget icon ''theme'' \<noteq> Str ''light'' \<and>
                       jget icon ''theme'' \<noteq> Str ''dark''
                  then Inl (Icon_Theme name i)
                  else Inr v)
         | _ \<Rightarrow> Inl (Icon_Not_Object name i)))"

definition validate_icons :: "js \<Rightarrow> string \<Rightarrow> catalog_error + js list option" where
  "validate_icons v name =
     (case v of
        Undef \<Rightarrow> Inr None
      | Arr xs \<Rightarrow> bind_res (map_res (validate_icon name) (zip xs [0..<length xs])) (\<lambda>ys. Inr (Some ys))
      | _ \<Rightarrow> Inl (Icons_Not_Array name))"

definition validate_tool ::
  "((string \<times> js) list \<Rightarrow> bool) \<Rightarrow> string list \<Rightarrow> nat \<Rightarrow> js \<Rightarrow> catalog_error + mcp_tool" where
  "validate_tool schema_ok seen i v =
     (case v of
        Obj ob \<Rightarrow>
          (case find (\<lambda>k. k \<notin> set ALLOWED_TOOL_KEYS) (map fst ob) of
             Some k \<Rightarrow> Inl (Tool_Unknown_Key i k)
           | None \<Rightarrow>
               (case jget ob ''name'' of
                  Str name \<Rightarrow>
                    if trim name = '''' then Inl (Tool_Without_Name i)
                    else if name \<in> set seen then Inl (Tool_Duplicated name)
                    else
                      bind_res (require_schema_object schema_ok (jget ob ''inputSchema'') (name @ ''.inputSchema''))
                        (\<lambda>input.
                      bind_res (if jget ob ''outputSchema'' = Undef then Inr None
                                else bind_res (require_schema_object schema_ok (jget ob ''outputSchema'')
                                       (name @ ''.outputSchema'')) (\<lambda>s. Inr (Some s))) (\<lambda>output.
                      bind_res (validate_annotations (jget ob ''annotations'') name) (\<lambda>annotations.
                      bind_res (validate_icons (jget ob ''icons'') name) (\<lambda>icons.
                      if jget ob ''title'' \<noteq> Undef \<and> \<not> non_empty_string (jget ob ''title'')
                      then Inl (Title_Empty name)
                      else if jget ob ''description'' \<noteq> Undef \<and>
                           (case jget ob ''description'' of Str _ \<Rightarrow> False | _ \<Rightarrow> True)
                      then Inl (Description_Not_A_String name)
                      else Inr \<lparr> tool_name = name,
                             tool_title = (case jget ob ''title'' of Str t \<Rightarrow> t | _ \<Rightarrow> name),
                             tool_description = (case jget ob ''description'' of Str d \<Rightarrow> d | _ \<Rightarrow> name),
                             tool_input = input, tool_output = output,
                             tool_annotations = annotations, tool_icons = icons \<rparr>))))
                | _ \<Rightarrow> Inl (Tool_Without_Name i)))
      | _ \<Rightarrow> Inl (Tool_Not_Object i))"

fun validate_tools ::
  "((string \<times> js) list \<Rightarrow> bool) \<Rightarrow> string list \<Rightarrow> nat \<Rightarrow> js list \<Rightarrow> catalog_error + mcp_tool list" where
  "validate_tools schema_ok seen i [] = Inr []"
| "validate_tools schema_ok seen i (v # vs) =
     bind_res (validate_tool schema_ok seen i v) (\<lambda>t.
     bind_res (validate_tools schema_ok (seen @ [tool_name t]) (Suc i) vs) (\<lambda>ts. Inr (t # ts)))"

definition validate_mcp_tool_catalog ::
  "((string \<times> js) list \<Rightarrow> bool) \<Rightarrow> js list \<Rightarrow> catalog_error + mcp_tool list" where
  "validate_mcp_tool_catalog schema_ok tools =
     (if tools = [] then Inl Catalog_Empty else validate_tools schema_ok [] 0 tools)"

text \<open>\<^verbatim>\<open>freezeDelegateCatalog\<close>: none for a delegate that advertises nothing.\<close>

definition freeze_delegate_catalog ::
  "((string \<times> js) list \<Rightarrow> bool) \<Rightarrow> catalog_error + js \<Rightarrow> catalog_error + mcp_tool list option" where
  "freeze_delegate_catalog schema_ok described =
     bind_res described (\<lambda>snapshot.
       case snapshot of
         Obj ob \<Rightarrow>
           (case jget ob ''tools'' of
              Arr tools \<Rightarrow>
                if tools = [] then Inr None
                else bind_res (validate_mcp_tool_catalog schema_ok tools) (\<lambda>ts. Inr (Some ts))
            | _ \<Rightarrow> Inl No_Tools_Array)
       | _ \<Rightarrow> Inl Description_Not_Object)"

lemma validate_tools_names:
  "validate_tools schema_ok seen i vs = Inr ts \<Longrightarrow>
   distinct (map tool_name ts) \<and> set (map tool_name ts) \<inter> set seen = {}"
proof (induction vs arbitrary: seen i ts)
  case (Cons v vs)
  from Cons.prems obtain t us where t: "validate_tool schema_ok seen i v = Inr t"
    "validate_tools schema_ok (seen @ [tool_name t]) (Suc i) vs = Inr us" "ts = t # us"
    by (auto simp: bind_res_Inr_iff)
  have "tool_name t \<notin> set seen"
    using t(1) by (auto simp: validate_tool_def bind_res_Inr_iff split: js.splits option.splits if_splits)
  with Cons.IH [OF t(2)] t(3) show ?case by auto
qed simp

subsection \<open>The registry\<close>

record lease_entry =
  le_lease :: nat
  le_delegate :: nat
  le_name :: string
  le_identity :: string
  le_tools :: "mcp_tool list"

type_synonym registry = "(nat \<times> lease_entry) list"

definition mcp_delegate_identity :: "string \<Rightarrow> string" where
  "mcp_delegate_identity name = ''dreamux-'' @ name"

definition prune_revoked :: "(nat \<Rightarrow> bool) \<Rightarrow> registry \<Rightarrow> registry" where
  "prune_revoked current reg = filter (\<lambda>(t, e). current (le_lease e)) reg"

definition mint ::
  "((string \<times> js) list \<Rightarrow> bool) \<Rightarrow> (nat \<Rightarrow> bool) \<Rightarrow> nat \<Rightarrow> nat \<Rightarrow> string \<Rightarrow> catalog_error + js \<Rightarrow> nat \<Rightarrow>
   registry \<Rightarrow> (catalog_error + bool) \<times> registry" where
  "mint schema_ok current lease delegate name described token reg =
     (let reg' = prune_revoked current reg
      in case freeze_delegate_catalog schema_ok described of
           Inl e \<Rightarrow> (Inl e, reg')
         | Inr None \<Rightarrow> (Inr False, reg')
         | Inr (Some tools) \<Rightarrow>
             (Inr True, AList.update token
                \<lparr> le_lease = lease, le_delegate = delegate, le_name = name,
                  le_identity = mcp_delegate_identity name, le_tools = tools \<rparr> reg'))"

definition release_tokens :: "nat list \<Rightarrow> registry \<Rightarrow> registry" where
  "release_tokens tokens reg = filter (\<lambda>(t, e). t \<notin> set tokens) reg"

definition lease_entry_of :: "(nat \<Rightarrow> bool) \<Rightarrow> registry \<Rightarrow> nat \<Rightarrow> lease_entry option" where
  "lease_entry_of current reg token =
     (case map_of reg token of
        None \<Rightarrow> None
      | Some e \<Rightarrow> if current (le_lease e) then Some e else None)"

definition catalog :: "(nat \<Rightarrow> bool) \<Rightarrow> registry \<Rightarrow> nat \<Rightarrow> mcp_tool list option" where
  "catalog current reg token = map_option le_tools (lease_entry_of current reg token)"

text \<open>\<^verbatim>\<open>invoke\<close> up to the delegate: the refusal, or the delegate that is entered.\<close>

datatype mcp_admission =
    Lease_Revoked
  | Unknown_Tool string string "string list"
  | Enter nat

definition invoke :: "(nat \<Rightarrow> bool) \<Rightarrow> registry \<Rightarrow> nat \<Rightarrow> string \<Rightarrow> mcp_admission" where
  "invoke current reg token tool =
     (case lease_entry_of current reg token of
        None \<Rightarrow> Lease_Revoked
      | Some e \<Rightarrow>
          let names = map tool_name (le_tools e)
          in if tool \<in> set names then Enter (le_delegate e)
             else Unknown_Tool (le_name e) tool names)"

lemma invoke_Enter:
  "invoke current reg token tool = Enter d \<longleftrightarrow>
     (\<exists>e. map_of reg token = Some e \<and> current (le_lease e) \<and> le_delegate e = d \<and>
          tool \<in> tool_name ` set (le_tools e))"
  by (auto simp: invoke_def lease_entry_of_def Let_def split: option.splits)

lemma invoke_in_catalog:
  "invoke current reg token tool = Enter d \<longleftrightarrow>
     (\<exists>tools. catalog current reg token = Some tools \<and> tool \<in> tool_name ` set tools \<and>
        map_option le_delegate (map_of reg token) = Some d)"
  by (auto simp: invoke_Enter catalog_def lease_entry_of_def split: option.splits)

end
