(* ===== verification/Runtime_Generation.thy ===== *)
theory Runtime_Generation
  imports Mcp_Leases
begin

text \<open>
  \<^verbatim>\<open>packages/dreamux/src/service/agent/runtime-generation.ts\<close> and \<^verbatim>\<open>runtime-state.ts\<close>: the
  runtime one Agent owns, generation by generation, with the two kinds of authority a
  generation holds: the state lease its provider publishes through, and the MCP tokens its
  tool servers were minted with.

  Every function is a stretch of the code between two \<^verbatim>\<open>await\<close>s.  \<open>rg_registry\<close> is the
  rows of the process-wide token map that belong to this Agent.  Runtimes and tokens are
  numbers drawn once.  Three ghosts: \<open>rg_launched\<close>, the lease each runtime was created
  under; \<open>rg_torn\<close>, the runtimes whose \<^verbatim>\<open>stop\<close> has been called; \<open>rg_patches\<close>, the patches
  written to the identity record.
\<close>

datatype runtime_status = Rs_Declared | Rs_Starting | Rs_Ready | Rs_Degraded | Rs_Stopping | Rs_Stopped

datatype identity_status = Is_Running | Is_Starting | Is_Degraded | Is_Stopped

definition runtime_status_to_identity_status :: "runtime_status \<Rightarrow> identity_status" where
  "runtime_status_to_identity_status s =
     (case s of
        Rs_Ready \<Rightarrow> Is_Running
      | Rs_Starting \<Rightarrow> Is_Starting
      | Rs_Degraded \<Rightarrow> Is_Degraded
      | _ \<Rightarrow> Is_Stopped)"

datatype state_update =
    Upd_Status runtime_status "string option"
  | Upd_Session string
  | Upd_Session_Lost string

datatype identity_patch =
    Patch_Session string
  | Patch_Status identity_status "string option"

definition identity_patch :: "state_update \<Rightarrow> identity_patch" where
  "identity_patch u =
     (case u of
        Upd_Session s \<Rightarrow> Patch_Session s
      | Upd_Session_Lost reason \<Rightarrow> Patch_Status Is_Degraded (Some reason)
      | Upd_Status s e \<Rightarrow> Patch_Status (runtime_status_to_identity_status s) e)"

datatype publish_answer = Pub_Queued | Pub_Lease_Revoked | Pub_Session_Invalid

text \<open>The attempt that is \<^verbatim>\<open>starting\<close>, by what it waits for.\<close>

datatype start_phase =
    Not_Starting
  | Reopening
  | Creating nat
  | Starting_Runtime nat nat
  | Rolling_Back nat nat

text \<open>A call of \<^verbatim>\<open>stopRuntime\<close>: stopping a runtime, joining an attempt, stopping again.\<close>

datatype stop_phase =
    Stopping_First nat
  | Joining "nat option"
  | Stopping_Second nat

record stop_call =
  sc_phase :: stop_phase
  sc_attempted :: "nat list"
  sc_failures :: "string list"

record generation =
  rg_lease :: nat
  rg_status :: "runtime_status option"
  rg_writes :: "(nat \<times> state_update) list"
  rg_writing :: "(nat \<times> state_update) option"
  rg_patches :: "identity_patch list"
  rg_live :: "nat option"
  rg_start :: start_phase
  rg_attempt :: nat
  rg_tokens :: "nat list"
  rg_registry :: registry
  rg_continuity :: "string option"
  rg_next_token :: nat
  rg_next_runtime :: nat
  rg_stops :: "(nat \<times> stop_call) list"
  rg_next_stop :: nat
  rg_stop_results :: "(nat \<times> string list) list"
  rg_launched :: "(nat \<times> nat) list"
  rg_torn :: "nat list"
  rg_observed :: "(nat \<times> string) list"

definition generation_init :: generation where
  "generation_init = \<lparr> rg_lease = 0, rg_status = None, rg_writes = [], rg_writing = None,
     rg_patches = [], rg_live = None, rg_start = Not_Starting, rg_attempt = 0, rg_tokens = [],
     rg_registry = [], rg_continuity = None, rg_next_token = 0, rg_next_runtime = 0,
     rg_stops = [], rg_next_stop = 0, rg_stop_results = [], rg_launched = [], rg_torn = [],
     rg_observed = [] \<rparr>"

definition current_lease :: "generation \<Rightarrow> nat \<Rightarrow> bool" where
  "current_lease g l \<longleftrightarrow> l = rg_lease g"

subsection \<open>The state lease\<close>

definition lease_runtime_generation :: "generation \<Rightarrow> generation" where
  "lease_runtime_generation g = g\<lparr>rg_lease := Suc (rg_lease g)\<rparr>"

definition revoke_runtime_generation :: "generation \<Rightarrow> generation" where
  "revoke_runtime_generation g = g\<lparr>rg_lease := Suc (rg_lease g), rg_status := None\<rparr>"

definition publish :: "nat \<Rightarrow> state_update \<Rightarrow> generation \<Rightarrow> publish_answer \<times> generation" where
  "publish lease u g =
     (if \<not> current_lease g lease then (Pub_Lease_Revoked, g)
      else if u = Upd_Session '''' then (Pub_Session_Invalid, g)
      else (Pub_Queued, g\<lparr>rg_writes := rg_writes g @ [(lease, u)]\<rparr>))"

text \<open>The identity store takes the next change, which checks the lease again.\<close>

definition write_begins :: "generation \<Rightarrow> generation" where
  "write_begins g =
     (case rg_writes g of
        [] \<Rightarrow> g
      | (lease, u) # ws \<Rightarrow>
          if current_lease g lease then g\<lparr>rg_writes := ws, rg_writing := Some (lease, u)\<rparr>
          else g\<lparr>rg_writes := ws\<rparr>)"

definition publish_settles :: "bool \<Rightarrow> generation \<Rightarrow> generation" where
  "publish_settles ok g =
     (case rg_writing g of
        None \<Rightarrow> g
      | Some (lease, u) \<Rightarrow>
          let g' = g\<lparr>rg_writing := None\<rparr>
          in if \<not> ok then g'
             else (case u of
                 Upd_Status s e \<Rightarrow>
                   g'\<lparr>rg_patches := rg_patches g @ [identity_patch u], rg_status := Some s\<rparr>
               | _ \<Rightarrow> g'\<lparr>rg_patches := rg_patches g @ [identity_patch u]\<rparr>))"

text \<open>\<^verbatim>\<open>generationEventSink\<close>.\<close>

definition runtime_event :: "nat \<Rightarrow> string \<Rightarrow> generation \<Rightarrow> generation" where
  "runtime_event lease e g =
     (if current_lease g lease then g\<lparr>rg_observed := rg_observed g @ [(lease, e)]\<rparr> else g)"

subsection \<open>MCP authority\<close>

definition release_mcp_leases :: "generation \<Rightarrow> generation" where
  "release_mcp_leases g =
     g\<lparr>rg_tokens := [], rg_registry := release_tokens (rg_tokens g) (rg_registry g)\<rparr>"

type_synonym delegate_offer = "nat \<times> string \<times> (catalog_error + js)"

fun mint_all ::
  "((string \<times> js) list \<Rightarrow> bool) \<Rightarrow> nat \<Rightarrow> delegate_offer list \<Rightarrow> string list \<Rightarrow> generation \<Rightarrow>
   (catalog_error + string list) \<times> generation" where
  "mint_all schema_ok lease [] names g = (Inr names, g)"
| "mint_all schema_ok lease ((d, name, described) # ds) names g =
     (case mint schema_ok (current_lease g) lease d name described (rg_next_token g) (rg_registry g) of
        (Inl e, reg) \<Rightarrow> (Inl e, g\<lparr>rg_registry := reg\<rparr>)
      | (Inr False, reg) \<Rightarrow> mint_all schema_ok lease ds names (g\<lparr>rg_registry := reg\<rparr>)
      | (Inr True, reg) \<Rightarrow>
          mint_all schema_ok lease ds (names @ [name])
            (g\<lparr>rg_registry := reg, rg_tokens := rg_tokens g @ [rg_next_token g],
               rg_next_token := Suc (rg_next_token g)\<rparr>))"

fun duplicate_name :: "string list \<Rightarrow> string list \<Rightarrow> string option" where
  "duplicate_name seen [] = None"
| "duplicate_name seen (n # ns) = (if n \<in> set seen then Some n else duplicate_name (seen @ [n]) ns)"

definition mcp_server_descriptors ::
  "((string \<times> js) list \<Rightarrow> bool) \<Rightarrow> nat \<Rightarrow> delegate_offer list option \<Rightarrow> generation \<Rightarrow>
   (catalog_error + string list) \<times> generation" where
  "mcp_server_descriptors schema_ok lease mcp g =
     (case mcp of
        None \<Rightarrow> (Inr [], g)
      | Some delegates \<Rightarrow>
          (case mint_all schema_ok lease delegates [] (release_mcp_leases g) of
             (Inl e, g') \<Rightarrow> (Inl e, g')
           | (Inr names, g') \<Rightarrow>
               (case duplicate_name [] names of
                  Some n \<Rightarrow> (Inl (Server_Name_Twice n), g')
                | None \<Rightarrow> (Inr names, g'))))"

subsection \<open>Starting\<close>

text \<open>
  \<^verbatim>\<open>startFromRecord\<close> from the lease on; \<open>refused\<close> is what \<^verbatim>\<open>resolveLaunch\<close> throws before
  it mints.
\<close>

definition abandon_launch :: "generation \<Rightarrow> generation" where
  "abandon_launch g =
     (revoke_runtime_generation (release_mcp_leases g))\<lparr>rg_start := Not_Starting\<rparr>"

definition launch ::
  "((string \<times> js) list \<Rightarrow> bool) \<Rightarrow> string option \<Rightarrow> delegate_offer list option \<Rightarrow> generation \<Rightarrow> generation" where
  "launch schema_ok refused mcp g0 =
     (let g = lease_runtime_generation g0; lease = rg_lease g
      in case refused of
           Some e \<Rightarrow> abandon_launch g
         | None \<Rightarrow>
             (case mcp_server_descriptors schema_ok lease mcp g of
                (Inl e, g') \<Rightarrow> abandon_launch g'
              | (Inr names, g') \<Rightarrow> g'\<lparr>rg_start := Creating lease\<rparr>))"

text \<open>A closed Agent is reopened first: its record is written before the lease is opened.\<close>

definition ensure_started ::
  "((string \<times> js) list \<Rightarrow> bool) \<Rightarrow> bool \<Rightarrow> string option \<Rightarrow> delegate_offer list option \<Rightarrow>
   generation \<Rightarrow> generation" where
  "ensure_started schema_ok was_closed refused mcp g =
     (if rg_start g \<noteq> Not_Starting \<or> rg_live g \<noteq> None then g
      else
        let g' = g\<lparr>rg_attempt := Suc (rg_attempt g)\<rparr>
        in if was_closed then g'\<lparr>rg_start := Reopening\<rparr> else launch schema_ok refused mcp g')"

definition reopen_settles ::
  "((string \<times> js) list \<Rightarrow> bool) \<Rightarrow> bool \<Rightarrow> string option \<Rightarrow> delegate_offer list option \<Rightarrow>
   generation \<Rightarrow> generation" where
  "reopen_settles schema_ok ok refused mcp g =
     (if ok then launch schema_ok refused mcp g else g\<lparr>rg_start := Not_Starting\<rparr>)"

definition create_settles :: "nat \<Rightarrow> bool \<Rightarrow> generation \<Rightarrow> generation" where
  "create_settles lease ok g =
     (if ok then
        let r = rg_next_runtime g
        in g\<lparr>rg_live := Some r, rg_next_runtime := Suc r, rg_start := Starting_Runtime lease r,
             rg_launched := rg_launched g @ [(r, lease)]\<rparr>
      else abandon_launch g)"

definition call_runtime_stop :: "nat \<Rightarrow> generation \<Rightarrow> generation" where
  "call_runtime_stop r g = (release_mcp_leases g)\<lparr>rg_torn := rg_torn g @ [r]\<rparr>"

definition runtime_start_settles :: "nat \<Rightarrow> nat \<Rightarrow> string + string \<Rightarrow> generation \<Rightarrow> generation" where
  "runtime_start_settles lease r outcome g =
     (case outcome of
        Inr continuity \<Rightarrow> g\<lparr>rg_continuity := Some continuity, rg_start := Not_Starting\<rparr>
      | Inl e \<Rightarrow> (call_runtime_stop r g)\<lparr>rg_start := Rolling_Back lease r\<rparr>)"

definition forget_live :: "nat \<Rightarrow> generation \<Rightarrow> generation" where
  "forget_live r g = (if rg_live g = Some r then g\<lparr>rg_live := None\<rparr> else g)"

definition rollback_settles :: "nat \<Rightarrow> bool \<Rightarrow> generation \<Rightarrow> generation" where
  "rollback_settles r ok g =
     (let g' = (if ok then (forget_live r g)\<lparr>rg_continuity := None\<rparr> else g)
      in (revoke_runtime_generation g')\<lparr>rg_start := Not_Starting\<rparr>)"

subsection \<open>Stopping\<close>

definition set_stop :: "nat \<Rightarrow> stop_call \<Rightarrow> generation \<Rightarrow> generation" where
  "set_stop i c g = g\<lparr>rg_stops := AList.update i c (rg_stops g)\<rparr>"

definition join_start :: "generation \<Rightarrow> stop_phase" where
  "join_start g = Joining (if rg_start g = Not_Starting then None else Some (rg_attempt g))"

text \<open>\<^verbatim>\<open>stopOwnedRuntime\<close> up to its wait: the runtime it stops, if any.\<close>

definition stop_owned :: "stop_call \<Rightarrow> generation \<Rightarrow> nat option" where
  "stop_owned c g =
     (case rg_live g of
        None \<Rightarrow> None
      | Some r \<Rightarrow> if r \<in> set (sc_attempted c) then None else Some r)"

definition finish_stop_call :: "nat \<Rightarrow> stop_call \<Rightarrow> generation \<Rightarrow> generation" where
  "finish_stop_call i c g =
     (release_mcp_leases (revoke_runtime_generation (g\<lparr>rg_continuity := None\<rparr>)))
       \<lparr>rg_stops := filter (\<lambda>e. fst e \<noteq> i) (rg_stops g),
        rg_stop_results := rg_stop_results g @ [(i, sc_failures c)]\<rparr>"

definition stop_runtime :: "generation \<Rightarrow> generation" where
  "stop_runtime g0 =
     (let i = rg_next_stop g0; g = g0\<lparr>rg_next_stop := Suc i\<rparr>;
          c = \<lparr> sc_phase = join_start g, sc_attempted = [], sc_failures = [] \<rparr>
      in case stop_owned c g of
           None \<Rightarrow> set_stop i c g
         | Some r \<Rightarrow>
             set_stop i (c\<lparr>sc_phase := Stopping_First r, sc_attempted := [r]\<rparr>) (call_runtime_stop r g))"

definition note_stop :: "nat \<Rightarrow> string option \<Rightarrow> stop_call \<Rightarrow> generation \<Rightarrow> stop_call \<times> generation" where
  "note_stop r err c g =
     (case err of
        None \<Rightarrow> (c, forget_live r g)
      | Some e \<Rightarrow> (c\<lparr>sc_failures := sc_failures c @ [e]\<rparr>, g))"

definition first_stop_settles :: "nat \<Rightarrow> stop_call \<Rightarrow> nat \<Rightarrow> string option \<Rightarrow> generation \<Rightarrow> generation" where
  "first_stop_settles i c r err g =
     (case note_stop r err c g of
        (c', g') \<Rightarrow> set_stop i (c'\<lparr>sc_phase := join_start g'\<rparr>) g')"

definition join_settles :: "nat \<Rightarrow> stop_call \<Rightarrow> generation \<Rightarrow> generation" where
  "join_settles i c g =
     (case stop_owned c g of
        None \<Rightarrow> finish_stop_call i c g
      | Some r \<Rightarrow>
          set_stop i (c\<lparr>sc_phase := Stopping_Second r, sc_attempted := sc_attempted c @ [r]\<rparr>)
            (call_runtime_stop r g))"

definition second_stop_settles :: "nat \<Rightarrow> stop_call \<Rightarrow> nat \<Rightarrow> string option \<Rightarrow> generation \<Rightarrow> generation" where
  "second_stop_settles i c r err g =
     (case note_stop r err c g of (c', g') \<Rightarrow> finish_stop_call i c' g')"

definition joined :: "nat option \<Rightarrow> generation \<Rightarrow> bool" where
  "joined k g \<longleftrightarrow> k = None \<or> rg_start g = Not_Starting \<or> k \<noteq> Some (rg_attempt g)"

inductive gen_step :: "((string \<times> js) list \<Rightarrow> bool) \<Rightarrow> generation \<Rightarrow> generation \<Rightarrow> bool"
  for schema_ok :: "(string \<times> js) list \<Rightarrow> bool" where
  ensure: "gen_step schema_ok g (ensure_started schema_ok was_closed refused mcp g)"
| reopened: "rg_start g = Reopening \<Longrightarrow> gen_step schema_ok g (reopen_settles schema_ok ok refused mcp g)"
| created: "rg_start g = Creating lease \<Longrightarrow> gen_step schema_ok g (create_settles lease ok g)"
| started: "rg_start g = Starting_Runtime lease r \<Longrightarrow>
    gen_step schema_ok g (runtime_start_settles lease r outcome g)"
| rolled_back: "rg_start g = Rolling_Back lease r \<Longrightarrow> gen_step schema_ok g (rollback_settles r ok g)"
| stop: "gen_step schema_ok g (stop_runtime g)"
| stopped_first: "(i, c) \<in> set (rg_stops g) \<Longrightarrow> sc_phase c = Stopping_First r \<Longrightarrow>
    gen_step schema_ok g (first_stop_settles i c r err g)"
| join: "(i, c) \<in> set (rg_stops g) \<Longrightarrow> sc_phase c = Joining k \<Longrightarrow> joined k g \<Longrightarrow>
    gen_step schema_ok g (join_settles i c g)"
| stopped_second: "(i, c) \<in> set (rg_stops g) \<Longrightarrow> sc_phase c = Stopping_Second r \<Longrightarrow>
    gen_step schema_ok g (second_stop_settles i c r err g)"
| publish: "gen_step schema_ok g (snd (publish lease u g))"
| dequeue: "rg_writing g = None \<Longrightarrow> gen_step schema_ok g (write_begins g)"
| written: "gen_step schema_ok g (publish_settles ok g)"
| event: "gen_step schema_ok g (runtime_event lease e g)"

inductive gen_reach :: "((string \<times> js) list \<Rightarrow> bool) \<Rightarrow> generation \<Rightarrow> bool"
  for schema_ok :: "(string \<times> js) list \<Rightarrow> bool" where
  init: "gen_reach schema_ok generation_init"
| step: "gen_reach schema_ok g \<Longrightarrow> gen_step schema_ok g g' \<Longrightarrow> gen_reach schema_ok g'"

inductive_cases gen_stepE: "gen_step schema_ok g g'"

end
