(* ===== verification/Agent_Service.thy ===== *)
theory Agent_Service
  imports Agent_Admission Runtime_Generation
begin

text \<open>
  \<^verbatim>\<open>packages/dreamux/src/service/agent/service.ts\<close>: one Agent, its inputs in flight, its lock,
  and the two ways it gives its runtime back: a host stop and a close.

  The Agent's runtime generation is \<open>ag_gen\<close>, with the operations of \<open>Runtime_Generation\<close>; an
  input, an activation or a completion is a row of \<open>ag_tasks\<close> at the \<^verbatim>\<open>await\<close> it has reached.
  What a settled promise resumes runs in the step that settles it.  The duplicate ledger stands
  in front of the inputs here: they are the operations it lets run.  A runtime that throws
  instead of answering \<^verbatim>\<open>submit\<close> answers with a rejection.  Display projections are left out.
  \<open>ag_results\<close> is what the callers were answered, \<open>ag_reported\<close> the calls of the completion
  router.
\<close>

datatype entity_phase = Ph_Active | Ph_Closing | Ph_Closed

datatype start_result = Start_Ok | Start_Failed | Start_Unproven

text \<open>A locked submission starts the runtime twice, once before it is admitted.\<close>

datatype task_kind =
    Tk_Input
  | Tk_Locked nat bool
  | Tk_Activate
  | Tk_Prepare
  | Tk_Completion

datatype task_phase =
    Tp_Entered
  | Tp_Starting nat
  | Tp_Losing nat
  | Tp_Waiting nat
  | Tp_Building
  | Tp_Intent
  | Tp_Submitted

datatype task_result =
    Tr_Admission entity_admission
  | Tr_Rejected string
  | Tr_Done

record agent_task =
  tk_kind :: task_kind
  tk_phase :: task_phase
  tk_intent :: bool
  tk_recipient :: "nat option"

datatype converge_phase =
    Cv_Stop nat
  | Cv_Admissions
  | Cv_Mutations
  | Cv_Reports
  | Cv_Cleanup
  | Cv_Record

record converge =
  cv_phase :: converge_phase
  cv_failures :: "string list"
  cv_token :: "nat option"

record agent =
  ag_gen :: generation
  ag_phase :: entity_phase
  ag_closed_status :: bool
  ag_closed_at :: "nat option"
  ag_lock :: "nat option"
  ag_next_lock :: nat
  ag_mutations :: "nat list"
  ag_host :: "converge option"
  ag_transition :: "converge option"
  ag_tasks :: "(nat \<times> agent_task) list"
  ag_next :: nat
  ag_tail :: "nat list"
  ag_turns :: "(nat \<times> nat option) list"
  ag_reports :: nat
  ag_report_failure :: "string option"
  ag_native :: "nat option"
  ag_fact :: "nat option"
  ag_results :: "(nat \<times> task_result) list"
  ag_reported :: "(nat \<times> nat option) list"

text \<open>A service object over an identity as it was loaded: closed or not.\<close>

definition agent_init :: "nat option \<Rightarrow> bool \<Rightarrow> nat option \<Rightarrow> agent" where
  "agent_init native was_closed closed_at =
     \<lparr> ag_gen = generation_init, ag_phase = Ph_Active, ag_closed_status = was_closed,
       ag_closed_at = closed_at, ag_lock = None, ag_next_lock = 0, ag_mutations = [],
       ag_host = None, ag_transition = None, ag_tasks = [], ag_next = 0, ag_tail = [],
       ag_turns = [], ag_reports = 0, ag_report_failure = None, ag_native = native,
       ag_fact = None, ag_results = [], ag_reported = [] \<rparr>"

definition is_retired :: "agent \<Rightarrow> bool" where
  "is_retired a \<longleftrightarrow> ag_phase a = Ph_Closed \<and> ag_lock a = None"

definition has_no_runtime_authority :: "generation \<Rightarrow> bool" where
  "has_no_runtime_authority g \<longleftrightarrow> rg_live g = None \<and> rg_start g = Not_Starting"

datatype shown_status = Shown_Recorded | Shown_Stopped

definition effective_identity_status :: "agent \<Rightarrow> shown_status" where
  "effective_identity_status a =
     (if ag_phase a = Ph_Closing \<and> has_no_runtime_authority (ag_gen a) then Shown_Stopped
      else Shown_Recorded)"

subsection \<open>Tasks\<close>

definition task_of :: "nat \<Rightarrow> agent \<Rightarrow> agent_task option" where
  "task_of i a = map_of (ag_tasks a) i"

definition set_task :: "nat \<Rightarrow> (agent_task \<Rightarrow> agent_task) \<Rightarrow> agent \<Rightarrow> agent" where
  "set_task i f a = a\<lparr>ag_tasks := map (\<lambda>(j, t). (j, if j = i then f t else t)) (ag_tasks a)\<rparr>"

definition at_phase :: "nat \<Rightarrow> task_phase \<Rightarrow> agent \<Rightarrow> agent" where
  "at_phase i p a = set_task i (\<lambda>t. t\<lparr>tk_phase := p\<rparr>) a"

definition finish_task :: "nat \<Rightarrow> task_result \<Rightarrow> agent \<Rightarrow> agent" where
  "finish_task i r a =
     a\<lparr>ag_tasks := filter (\<lambda>e. fst e \<noteq> i) (ag_tasks a),
       ag_mutations := filter (\<lambda>j. j \<noteq> i) (ag_mutations a),
       ag_results := ag_results a @ [(i, r)]\<rparr>"

definition enter_ordinary_mutation :: "agent \<Rightarrow> bool" where
  "enter_ordinary_mutation a \<longleftrightarrow> ag_phase a = Ph_Active \<and> ag_lock a = None \<and> ag_host a = None"

text \<open>\<^verbatim>\<open>submitRuntimeTurn\<close>, and the end of \<^verbatim>\<open>admitToRuntime\<close> before it.\<close>

definition submit_runtime_turn :: "nat \<Rightarrow> agent \<Rightarrow> agent" where
  "submit_runtime_turn i a =
     (if rg_live (ag_gen a) = None then finish_task i (Tr_Rejected ''is not running'') a
      else if ag_phase a \<noteq> Ph_Active then finish_task i (Tr_Admission Ea_Stopped) a
      else (at_phase i Tp_Submitted a)\<lparr>ag_tail := ag_tail a @ [i]\<rparr>)"

definition proceed :: "nat \<Rightarrow> agent_task \<Rightarrow> agent \<Rightarrow> agent" where
  "proceed i t a =
     (case tk_kind t of
        Tk_Activate \<Rightarrow> finish_task i Tr_Done a
      | _ \<Rightarrow> if tk_intent t then at_phase i Tp_Intent a else submit_runtime_turn i a)"

definition not_started :: "nat \<Rightarrow> agent_task \<Rightarrow> agent \<Rightarrow> agent" where
  "not_started i t a =
     finish_task i (case tk_kind t of Tk_Activate \<Rightarrow> Tr_Done | _ \<Rightarrow> Tr_Admission Ea_Stopped) a"

text \<open>A start that lost the race against a close stops what it started.\<close>

definition lose_race :: "nat \<Rightarrow> agent \<Rightarrow> agent" where
  "lose_race i a = at_phase i (Tp_Losing (rg_next_stop (ag_gen a)))
     (a\<lparr>ag_gen := stop_runtime (ag_gen a)\<rparr>)"

text \<open>\<^verbatim>\<open>ensureRuntimeStarted\<close> up to its wait, continued by \<open>ready\<close> when the runtime is live.\<close>

type_synonym launch_env =
  "((string \<times> js) list \<Rightarrow> bool) \<times> string option \<times> delegate_offer list option"

definition ensure_runtime_started ::
  "launch_env \<Rightarrow> (agent \<Rightarrow> agent) \<Rightarrow> nat \<Rightarrow> agent_task \<Rightarrow> agent \<Rightarrow> agent" where
  "ensure_runtime_started env ready i t a =
     (case env of (schema_ok, refused, mcp) \<Rightarrow>
        let g = ag_gen a
        in if ag_phase a \<noteq> Ph_Active then not_started i t a
           else if rg_start g \<noteq> Not_Starting then at_phase i (Tp_Starting (rg_attempt g)) a
           else if rg_live g \<noteq> None then ready a
           else
             let g' = ensure_started schema_ok (ag_closed_status a) refused mcp g; a' = a\<lparr>ag_gen := g'\<rparr>
             in if rg_start g' = Not_Starting then finish_task i (Tr_Rejected ''start failed'') a'
                else at_phase i (Tp_Starting (rg_attempt g')) a')"

definition start_admitted :: "launch_env \<Rightarrow> nat \<Rightarrow> agent_task \<Rightarrow> agent \<Rightarrow> agent" where
  "start_admitted env i t a = ensure_runtime_started env (proceed i t) i t a"

definition after_start :: "launch_env \<Rightarrow> nat \<Rightarrow> agent_task \<Rightarrow> agent \<Rightarrow> agent" where
  "after_start env i t a =
     (case tk_kind t of
        Tk_Locked token True \<Rightarrow>
          if ag_lock a \<noteq> Some token then finish_task i (Tr_Rejected ''stale lock'') a
          else
            let t' = t\<lparr>tk_kind := Tk_Locked token False\<rparr>
            in start_admitted env i t' (set_task i (\<lambda>_. t') a)
      | _ \<Rightarrow> proceed i t a)"

definition start_task :: "launch_env \<Rightarrow> nat \<Rightarrow> agent_task \<Rightarrow> agent \<Rightarrow> agent" where
  "start_task env i t a = ensure_runtime_started env (after_start env i t) i t a"

text \<open>\<^verbatim>\<open>existingRuntimeAfterStart\<close> answered, a failed start reading as no runtime.\<close>

definition after_wait :: "nat \<Rightarrow> agent_task \<Rightarrow> start_result \<Rightarrow> agent \<Rightarrow> agent" where
  "after_wait i t res a =
     (let gone = res \<noteq> Start_Ok \<or> rg_live (ag_gen a) = None
      in case tk_kind t of
           Tk_Prepare \<Rightarrow> if gone then finish_task i Tr_Done a else at_phase i Tp_Building a
         | _ \<Rightarrow> if gone then finish_task i (Tr_Admission Ea_Stopped) a else submit_runtime_turn i a)"

definition await_existing :: "nat \<Rightarrow> agent_task \<Rightarrow> agent \<Rightarrow> agent" where
  "await_existing i t a =
     (if rg_start (ag_gen a) = Not_Starting then after_wait i t Start_Ok a
      else at_phase i (Tp_Waiting (rg_attempt (ag_gen a))) a)"

text \<open>A start attempt settles: whoever waits for it goes on.\<close>

definition resume_start :: "launch_env \<Rightarrow> nat \<Rightarrow> start_result \<Rightarrow> nat \<Rightarrow> agent \<Rightarrow> agent" where
  "resume_start env n res i a =
     (case task_of i a of
        None \<Rightarrow> a
      | Some t \<Rightarrow>
          if tk_phase t = Tp_Waiting n then after_wait i t res a
          else if tk_phase t = Tp_Starting n then
            (case res of
               Start_Failed \<Rightarrow> finish_task i (Tr_Rejected ''start failed'') a
             | Start_Unproven \<Rightarrow>
                 finish_task i (Tr_Rejected ''termination unproven'') (a\<lparr>ag_phase := Ph_Closing\<rparr>)
             | Start_Ok \<Rightarrow> if ag_phase a \<noteq> Ph_Active then lose_race i a else after_start env i t a)
          else a)"

definition attempt_ends :: "launch_env \<Rightarrow> nat \<Rightarrow> start_result \<Rightarrow> agent \<Rightarrow> agent" where
  "attempt_ends env n res a = fold (resume_start env n res) (map fst (ag_tasks a)) a"


subsection \<open>Inputs\<close>

definition add_task :: "agent_task \<Rightarrow> agent \<Rightarrow> agent" where
  "add_task t a = a\<lparr>ag_tasks := ag_tasks a @ [(ag_next a, t)], ag_next := Suc (ag_next a)\<rparr>"

definition enter_task :: "agent_task \<Rightarrow> agent \<Rightarrow> agent" where
  "enter_task t a = (add_task t a)\<lparr>ag_mutations := ag_mutations a @ [ag_next a]\<rparr>"

definition refuse_call :: "task_result \<Rightarrow> agent \<Rightarrow> agent" where
  "refuse_call r a = a\<lparr>ag_results := ag_results a @ [(ag_next a, r)], ag_next := Suc (ag_next a)\<rparr>"

text \<open>\<^verbatim>\<open>submitInput\<close>: the fence, the rendering, then the admitted submission.\<close>

definition submit_input :: "launch_env \<Rightarrow> teammate_input \<Rightarrow> bool \<Rightarrow> nat option \<Rightarrow> agent \<Rightarrow> agent" where
  "submit_input env input intent recipient a =
     (let t = \<lparr> tk_kind = Tk_Input, tk_phase = Tp_Entered, tk_intent = intent, tk_recipient = recipient \<rparr>;
          i = ag_next a
      in if \<not> enter_ordinary_mutation a then refuse_call (Tr_Rejected ''cannot accept submission'') a
         else (case render_submission input of
             Inl e \<Rightarrow> finish_task i (Tr_Rejected e) (enter_task t a)
           | Inr _ \<Rightarrow> start_task env i t (enter_task t a)))"

definition activate :: "launch_env \<Rightarrow> agent \<Rightarrow> agent" where
  "activate env a =
     (let t = \<lparr> tk_kind = Tk_Activate, tk_phase = Tp_Entered, tk_intent = False, tk_recipient = None \<rparr>
      in if \<not> enter_ordinary_mutation a then refuse_call (Tr_Rejected ''cannot accept activation'') a
         else start_task env (ag_next a) t (enter_task t a))"

definition submit_locked :: "launch_env \<Rightarrow> nat \<Rightarrow> agent \<Rightarrow> agent" where
  "submit_locked env token a =
     (let t = \<lparr> tk_kind = Tk_Locked token True, tk_phase = Tp_Entered, tk_intent = False,
                tk_recipient = None \<rparr>
      in if ag_lock a \<noteq> Some token then refuse_call (Tr_Rejected ''stale lock'') a
         else start_task env (ag_next a) t (add_task t a))"

definition prepare_completion :: "agent \<Rightarrow> agent" where
  "prepare_completion a =
     (let t = \<lparr> tk_kind = Tk_Prepare, tk_phase = Tp_Entered, tk_intent = False, tk_recipient = None \<rparr>
      in if \<not> enter_ordinary_mutation a then refuse_call Tr_Done a
         else await_existing (ag_next a) t (enter_task t a))"

definition submit_completion_input :: "agent \<Rightarrow> agent" where
  "submit_completion_input a =
     (let t = \<lparr> tk_kind = Tk_Completion, tk_phase = Tp_Entered, tk_intent = False, tk_recipient = None \<rparr>
      in if \<not> enter_ordinary_mutation a then refuse_call (Tr_Rejected ''teammate is not writable'') a
         else await_existing (ag_next a) t (enter_task t a))"

text \<open>The write of the recovery subject, before the runtime is asked.\<close>

definition intent_settles :: "nat \<Rightarrow> bool \<Rightarrow> agent \<Rightarrow> agent" where
  "intent_settles i ok a =
     (if ok then submit_runtime_turn i a else finish_task i (Tr_Rejected ''intent not written'') a)"

subsection \<open>Turns and reports\<close>

definition owes_completion :: "agent \<Rightarrow> bool" where
  "owes_completion a \<longleftrightarrow> ag_phase a = Ph_Active \<and> ag_host a = None"

definition report_outcome :: "nat option \<Rightarrow> nat option \<Rightarrow> agent \<Rightarrow> agent" where
  "report_outcome recipient turn a =
     (case recipient of
        None \<Rightarrow> a
      | Some r \<Rightarrow>
          if owes_completion a
          then a\<lparr>ag_reports := Suc (ag_reports a), ag_reported := ag_reported a @ [(r, turn)]\<rparr>
          else a)"

datatype runtime_answer =
    Ra_Submitted
  | Ra_Other entity_admission
  | Ra_Rejected string

text \<open>The head of the admission tail: the runtime has answered it.\<close>

definition admission_continues :: "nat \<Rightarrow> runtime_answer \<Rightarrow> agent \<Rightarrow> agent" where
  "admission_continues i answer a0 =
     (let a = a0\<lparr>ag_tail := tl (ag_tail a0)\<rparr>;
          recipient = (case task_of i a0 of Some t \<Rightarrow> tk_recipient t | None \<Rightarrow> None)
      in case answer of
           Ra_Submitted \<Rightarrow>
             finish_task i (Tr_Admission (Ea_Submitted i)) (a\<lparr>ag_turns := ag_turns a @ [(i, recipient)]\<rparr>)
         | Ra_Other r \<Rightarrow> finish_task i (Tr_Admission r) a
         | Ra_Rejected e \<Rightarrow> finish_task i (Tr_Admission (Ea_Ambiguous e)) a)"

definition turn_settles :: "nat \<Rightarrow> nat option \<Rightarrow> agent \<Rightarrow> agent" where
  "turn_settles i recipient a =
     report_outcome recipient (Some i) (a\<lparr>ag_turns := filter (\<lambda>e. fst e \<noteq> i) (ag_turns a)\<rparr>)"

definition native_result :: "nat \<Rightarrow> agent \<Rightarrow> agent" where
  "native_result lease a =
     (if current_lease (ag_gen a) lease then report_outcome (ag_native a) None a else a)"

definition report_settles :: "string option \<Rightarrow> agent \<Rightarrow> agent" where
  "report_settles err a =
     a\<lparr>ag_reports := ag_reports a - 1,
       ag_report_failure := (case ag_report_failure a of None \<Rightarrow> err | Some e \<Rightarrow> Some e)\<rparr>"

subsection \<open>The lock\<close>

definition lock_agent :: "agent \<Rightarrow> agent" where
  "lock_agent a =
     (if ag_phase a = Ph_Active \<and> ag_lock a = None \<and> ag_mutations a = [] \<and> ag_turns a = []
      then a\<lparr>ag_lock := Some (ag_next_lock a), ag_next_lock := Suc (ag_next_lock a)\<rparr> else a)"

definition unlock_agent :: "nat \<Rightarrow> agent \<Rightarrow> agent" where
  "unlock_agent token a =
     (if ag_lock a \<noteq> Some token \<or> ag_phase a = Ph_Closing then a
      else
        let a' = a\<lparr>ag_lock := None\<rparr>
        in if ag_phase a = Ph_Closed \<and> ag_fact a = None then a'\<lparr>ag_fact := ag_closed_at a\<rparr> else a')"

subsection \<open>Converging\<close>

text \<open>\<^verbatim>\<open>convergeRuntimeWork\<close> starts by stopping the runtime.\<close>

definition start_converge :: "nat option \<Rightarrow> agent \<Rightarrow> converge \<times> agent" where
  "start_converge token a =
     (\<lparr> cv_phase = Cv_Stop (rg_next_stop (ag_gen a)), cv_failures = [], cv_token = token \<rparr>,
      a\<lparr>ag_gen := stop_runtime (ag_gen a)\<rparr>)"

definition stop_for_host :: "agent \<Rightarrow> agent" where
  "stop_for_host a =
     (if ag_phase a \<noteq> Ph_Active \<or> ag_host a \<noteq> None then a
      else (case start_converge None a of (c, a') \<Rightarrow> a'\<lparr>ag_host := Some c\<rparr>))"

text \<open>\<^verbatim>\<open>closeAuthorized\<close>; a second call joins the transition of the first.\<close>

definition close_authorized :: "nat option \<Rightarrow> agent \<Rightarrow> agent" where
  "close_authorized token a =
     (if token \<noteq> None \<and> ag_lock a \<noteq> token then a
      else if ag_phase a = Ph_Closed then a
      else if ag_phase a = Ph_Active \<and> ag_closed_status a \<and> has_no_runtime_authority (ag_gen a) then
        (case ag_closed_at a of
           None \<Rightarrow> a
         | Some closed_when \<Rightarrow>
             let a' = a\<lparr>ag_phase := Ph_Closed\<rparr>
             in if token = None then a'\<lparr>ag_fact := Some closed_when\<rparr> else a')
      else
        let a' = a\<lparr>ag_phase := Ph_Closing\<rparr>
        in (case ag_transition a' of
              Some _ \<Rightarrow> a'
            | None \<Rightarrow>
                (case start_converge token a' of (c, a'') \<Rightarrow> a''\<lparr>ag_transition := Some c\<rparr>)))"

definition close_agent :: "string \<Rightarrow> agent \<Rightarrow> agent" where
  "close_agent note a =
     (if trim note = '''' \<or> ag_lock a \<noteq> None then a else close_authorized None a)"

definition close_locked :: "string \<Rightarrow> nat \<Rightarrow> agent \<Rightarrow> agent" where
  "close_locked note token a =
     (if ag_lock a \<noteq> Some token \<or> trim note = '''' then a else close_authorized (Some token) a)"

definition stopped_for :: "nat \<Rightarrow> string list \<Rightarrow> converge option \<Rightarrow> converge option" where
  "stopped_for k failures c =
     map_option (\<lambda>v. if cv_phase v = Cv_Stop k
       then v\<lparr>cv_phase := Cv_Admissions, cv_failures := cv_failures v @ failures\<rparr> else v) c"

text \<open>A stop call is over: a start that lost its race answers, a convergence goes on.\<close>

definition resume_stop :: "nat \<Rightarrow> string list \<Rightarrow> nat \<Rightarrow> agent \<Rightarrow> agent" where
  "resume_stop k failures i a =
     (case task_of i a of
        None \<Rightarrow> a
      | Some t \<Rightarrow>
          if tk_phase t \<noteq> Tp_Losing k then a
          else if failures = [] then not_started i t a
          else finish_task i (Tr_Rejected ''stop failed'') a)"

definition stop_ends :: "nat \<Rightarrow> string list \<Rightarrow> agent \<Rightarrow> agent" where
  "stop_ends k failures a =
     fold (resume_stop k failures) (map fst (ag_tasks a))
       (a\<lparr>ag_host := stopped_for k failures (ag_host a),
          ag_transition := stopped_for k failures (ag_transition a)\<rparr>)"

definition converge_ready :: "converge \<Rightarrow> agent \<Rightarrow> bool" where
  "converge_ready c a \<longleftrightarrow>
     (case cv_phase c of
        Cv_Admissions \<Rightarrow> ag_tail a = []
      | Cv_Mutations \<Rightarrow> ag_mutations a = []
      | Cv_Reports \<Rightarrow> ag_reports a = 0
      | _ \<Rightarrow> False)"

text \<open>The next wait of a convergence; after the last one, none and the failures it throws.\<close>

definition converge_next :: "converge \<Rightarrow> agent \<Rightarrow> (converge + string list) \<times> agent" where
  "converge_next c a =
     (case cv_phase c of
        Cv_Admissions \<Rightarrow> (Inl (c\<lparr>cv_phase := Cv_Mutations\<rparr>), a)
      | Cv_Mutations \<Rightarrow>
          (Inl (c\<lparr>cv_phase := Cv_Reports,
                  cv_failures := cv_failures c @ (if ag_turns a = [] then [] else [''unsettled''])\<rparr>), a)
      | Cv_Reports \<Rightarrow>
          (Inr (cv_failures c @ (case ag_report_failure a of None \<Rightarrow> [] | Some e \<Rightarrow> [e])),
           a\<lparr>ag_report_failure := None\<rparr>)
      | _ \<Rightarrow> (Inl c, a))"

definition advance_host :: "converge \<Rightarrow> agent \<Rightarrow> agent" where
  "advance_host c a =
     (case converge_next c a of
        (Inl c', a') \<Rightarrow> a'\<lparr>ag_host := Some c'\<rparr>
      | (Inr failures, a') \<Rightarrow> a'\<lparr>ag_host := None\<rparr>)"

text \<open>A close that converged removes a worktree it owns, then writes its record.\<close>

definition advance_transition :: "bool \<Rightarrow> converge \<Rightarrow> agent \<Rightarrow> agent" where
  "advance_transition cleanup c a =
     (case converge_next c a of
        (Inl c', a') \<Rightarrow> a'\<lparr>ag_transition := Some c'\<rparr>
      | (Inr failures, a') \<Rightarrow>
          if failures \<noteq> [] then a'\<lparr>ag_transition := None\<rparr>
          else a'\<lparr>ag_transition := Some (c\<lparr>cv_phase := if cleanup then Cv_Cleanup else Cv_Record\<rparr>)\<rparr>)"

definition cleanup_settles :: "bool \<Rightarrow> converge \<Rightarrow> agent \<Rightarrow> agent" where
  "cleanup_settles ok c a =
     (if ok then a\<lparr>ag_transition := Some (c\<lparr>cv_phase := Cv_Record\<rparr>)\<rparr> else a\<lparr>ag_transition := None\<rparr>)"

definition record_settles :: "bool \<Rightarrow> nat \<Rightarrow> converge \<Rightarrow> agent \<Rightarrow> agent" where
  "record_settles ok now c a =
     (let a' = a\<lparr>ag_transition := None\<rparr>
      in if \<not> ok then a'
         else
           let a'' = a'\<lparr>ag_closed_status := True, ag_closed_at := Some now, ag_phase := Ph_Closed\<rparr>
           in if cv_token c = None then a''\<lparr>ag_fact := Some now\<rparr> else a'')"


subsection \<open>Steps\<close>

text \<open>A new value of the generation that ends the attempt under way in \<open>res\<close>, if it does.\<close>

definition gen_moves :: "generation \<Rightarrow> agent \<Rightarrow> agent" where
  "gen_moves g a = a\<lparr>ag_gen := g\<rparr>"

definition create_ends :: "launch_env \<Rightarrow> nat \<Rightarrow> bool \<Rightarrow> agent \<Rightarrow> agent" where
  "create_ends env lease ok a =
     (let a' = gen_moves (create_settles lease ok (ag_gen a)) a
      in if ok then a' else attempt_ends env (rg_attempt (ag_gen a)) Start_Failed a')"

definition start_ends :: "launch_env \<Rightarrow> nat \<Rightarrow> nat \<Rightarrow> string + string \<Rightarrow> agent \<Rightarrow> agent" where
  "start_ends env lease r outcome a =
     (let a' = gen_moves (runtime_start_settles lease r outcome (ag_gen a)) a
      in case outcome of
           Inr _ \<Rightarrow> attempt_ends env (rg_attempt (ag_gen a)) Start_Ok a'
         | Inl _ \<Rightarrow> a')"

definition rollback_ends :: "launch_env \<Rightarrow> nat \<Rightarrow> bool \<Rightarrow> agent \<Rightarrow> agent" where
  "rollback_ends env r ok a =
     attempt_ends env (rg_attempt (ag_gen a)) (if ok then Start_Failed else Start_Unproven)
       (gen_moves (rollback_settles r ok (ag_gen a)) a)"

text \<open>The reopened record: no longer closed.\<close>

definition reopen_ends :: "launch_env \<Rightarrow> bool \<Rightarrow> agent \<Rightarrow> agent" where
  "reopen_ends env ok a =
     (case env of (schema_ok, refused, mcp) \<Rightarrow>
        let g = reopen_settles schema_ok ok refused mcp (ag_gen a);
            a' = gen_moves g (if ok then a\<lparr>ag_closed_status := False, ag_closed_at := None\<rparr> else a)
        in if rg_start g = Not_Starting then attempt_ends env (rg_attempt (ag_gen a)) Start_Failed a' else a')"

definition stop_answered :: "nat \<Rightarrow> generation \<Rightarrow> agent \<Rightarrow> agent" where
  "stop_answered i g a =
     (let a' = gen_moves g a
      in case map_of (drop (length (rg_stop_results (ag_gen a))) (rg_stop_results g)) i of
           None \<Rightarrow> a'
         | Some failures \<Rightarrow> stop_ends i failures a')"

text \<open>A status that reaches the record is not \<^verbatim>\<open>closed\<close>.\<close>

definition publish_ends :: "bool \<Rightarrow> agent \<Rightarrow> agent" where
  "publish_ends ok a =
     gen_moves (publish_settles ok (ag_gen a))
       (case rg_writing (ag_gen a) of
          Some (lease, Upd_Session s) \<Rightarrow> a
        | Some (lease, u) \<Rightarrow> if ok then a\<lparr>ag_closed_status := False\<rparr> else a
        | None \<Rightarrow> a)"

text \<open>A publish comes from a runtime that was handed the lease.\<close>

definition lease_issued :: "generation \<Rightarrow> nat \<Rightarrow> bool" where
  "lease_issued g lease \<longleftrightarrow> rg_start g = Creating lease \<or> lease \<in> snd ` set (rg_launched g)"

text \<open>Configuration may change between two starts, so every step has its own environment.\<close>

inductive agent_step :: "agent \<Rightarrow> agent \<Rightarrow> bool" where
  input: "agent_step a (submit_input env input intent recipient a)"
| locked_input: "agent_step a (submit_locked env token a)"
| activation: "agent_step a (activate env a)"
| prepare: "agent_step a (prepare_completion a)"
| completion: "agent_step a (submit_completion_input a)"
| built: "(i, t) \<in> set (ag_tasks a) \<Longrightarrow> tk_phase t = Tp_Building \<Longrightarrow>
    agent_step a (finish_task i Tr_Done a)"
| intent: "(i, t) \<in> set (ag_tasks a) \<Longrightarrow> tk_phase t = Tp_Intent \<Longrightarrow> agent_step a (intent_settles i ok a)"
| admitted: "ag_tail a = i # rest \<Longrightarrow> agent_step a (admission_continues i answer a)"
| settled: "(i, recipient) \<in> set (ag_turns a) \<Longrightarrow> agent_step a (turn_settles i recipient a)"
| native: "agent_step a (native_result lease a)"
| reported: "0 < ag_reports a \<Longrightarrow> agent_step a (report_settles err a)"
| lock: "agent_step a (lock_agent a)"
| unlock: "agent_step a (unlock_agent token a)"
| host_stop: "agent_step a (stop_for_host a)"
| close_call: "agent_step a (close_agent note a)"
| locked_close: "agent_step a (close_locked note token a)"
| host_converges: "ag_host a = Some c \<Longrightarrow> converge_ready c a \<Longrightarrow> agent_step a (advance_host c a)"
| close_converges: "ag_transition a = Some c \<Longrightarrow> converge_ready c a \<Longrightarrow>
    agent_step a (advance_transition cleanup c a)"
| cleaned: "ag_transition a = Some c \<Longrightarrow> cv_phase c = Cv_Cleanup \<Longrightarrow>
    agent_step a (cleanup_settles ok c a)"
| recorded: "ag_transition a = Some c \<Longrightarrow> cv_phase c = Cv_Record \<Longrightarrow> rg_writing (ag_gen a) = None \<Longrightarrow>
    rg_writes (ag_gen a) = [] \<Longrightarrow> agent_step a (record_settles ok now c a)"
| gen_reopened: "rg_start (ag_gen a) = Reopening \<Longrightarrow> agent_step a (reopen_ends env ok a)"
| gen_created: "rg_start (ag_gen a) = Creating lease \<Longrightarrow> agent_step a (create_ends env lease ok a)"
| gen_started: "rg_start (ag_gen a) = Starting_Runtime lease r \<Longrightarrow>
    agent_step a (start_ends env lease r outcome a)"
| gen_rolled_back: "rg_start (ag_gen a) = Rolling_Back lease r \<Longrightarrow> agent_step a (rollback_ends env r ok a)"
| gen_first: "(i, c) \<in> set (rg_stops (ag_gen a)) \<Longrightarrow> sc_phase c = Stopping_First r \<Longrightarrow>
    agent_step a (stop_answered i (first_stop_settles i c r err (ag_gen a)) a)"
| gen_join: "(i, c) \<in> set (rg_stops (ag_gen a)) \<Longrightarrow> sc_phase c = Joining k \<Longrightarrow> joined k (ag_gen a) \<Longrightarrow>
    agent_step a (stop_answered i (join_settles i c (ag_gen a)) a)"
| gen_second: "(i, c) \<in> set (rg_stops (ag_gen a)) \<Longrightarrow> sc_phase c = Stopping_Second r \<Longrightarrow>
    agent_step a (stop_answered i (second_stop_settles i c r err (ag_gen a)) a)"
| gen_publish: "lease_issued (ag_gen a) lease \<Longrightarrow>
    agent_step a (gen_moves (snd (publish lease u (ag_gen a))) a)"
| gen_dequeue: "rg_writing (ag_gen a) = None \<Longrightarrow> agent_step a (gen_moves (write_begins (ag_gen a)) a)"
| gen_written: "agent_step a (publish_ends ok a)"
| gen_event: "agent_step a (gen_moves (runtime_event lease e (ag_gen a)) a)"

inductive agent_reach :: "agent \<Rightarrow> bool" where
  init: "agent_reach (agent_init native was_closed closed_at)"
| step: "agent_reach a \<Longrightarrow> agent_step a a' \<Longrightarrow> agent_reach a'"

end
