(* ===== verification/Runtime_Generation_Props.thy ===== *)
theory Runtime_Generation_Props
  imports Runtime_Generation
begin

text \<open>
  What holds in every reachable state of an Agent's runtime generations: tool authority exists
  only for the generation that is being created or runs and whose \<^verbatim>\<open>stop\<close> has not been called,
  and a stop that reports no failure leaves no runtime behind.
\<close>

text \<open>The one situation in which tokens may be out.\<close>

definition holds_authority :: "generation \<Rightarrow> bool" where
  "holds_authority g \<longleftrightarrow>
     (case rg_live g of
        Some r \<Rightarrow> r \<notin> set (rg_torn g) \<and> (r, rg_lease g) \<in> set (rg_launched g)
      | None \<Rightarrow> rg_start g = Creating (rg_lease g))"

definition registry_inv :: "generation \<Rightarrow> bool" where
  "registry_inv g \<longleftrightarrow>
     (\<forall>(t, e) \<in> set (rg_registry g). t \<in> set (rg_tokens g) \<and> le_lease e = rg_lease g \<and>
        distinct (map tool_name (le_tools e)))"

definition start_inv :: "generation \<Rightarrow> bool" where
  "start_inv g \<longleftrightarrow>
     (case rg_start g of
        Not_Starting \<Rightarrow> True
      | Reopening \<Rightarrow> rg_live g = None
      | Creating l \<Rightarrow> rg_live g = None
      | Starting_Runtime l r \<Rightarrow> rg_live g \<in> {None, Some r} \<and> r < rg_next_runtime g
      | Rolling_Back l r \<Rightarrow> rg_live g \<in> {None, Some r} \<and> r \<in> set (rg_torn g))"

text \<open>A runtime a stop call took is gone, or its \<^verbatim>\<open>stop\<close> is running, or it failed.\<close>

definition call_inv :: "generation \<Rightarrow> stop_call \<Rightarrow> bool" where
  "call_inv g c \<longleftrightarrow>
     (\<forall>r \<in> set (sc_attempted c). r \<in> set (rg_torn g) \<and>
        (rg_live g = Some r \<longrightarrow> sc_failures c \<noteq> [] \<or> sc_phase c \<in> {Stopping_First r, Stopping_Second r})) \<and>
     (\<forall>r. sc_phase c \<in> {Stopping_First r, Stopping_Second r} \<longrightarrow> r \<in> set (sc_attempted c))"

definition base_inv :: "generation \<Rightarrow> bool" where
  "base_inv g \<longleftrightarrow>
     registry_inv g \<and> start_inv g \<and>
     (\<forall>r \<in> set (rg_torn g). r < rg_next_runtime g) \<and>
     (\<forall>r. rg_live g = Some r \<longrightarrow> r < rg_next_runtime g) \<and>
     (\<forall>(i, c) \<in> set (rg_stops g). call_inv g c)"

definition gen_inv :: "generation \<Rightarrow> bool" where
  "gen_inv g \<longleftrightarrow> base_inv g \<and> (holds_authority g \<or> rg_tokens g = [])"

lemma gen_inv_init: "gen_inv generation_init"
  by (simp add: gen_inv_def base_inv_def registry_inv_def start_inv_def generation_init_def)

subsection \<open>The registry of one Agent\<close>

lemma freeze_distinct:
  assumes "freeze_delegate_catalog schema_ok described = Inr (Some ts)"
  shows "distinct (map tool_name ts)"
proof -
  obtain v where d: "described = Inr v"
    using assms by (cases described) (auto simp: freeze_delegate_catalog_def)
  obtain ob where v: "v = Obj ob"
    using assms d by (cases v) (auto simp: freeze_delegate_catalog_def)
  obtain tools where t: "jget ob ''tools'' = Arr tools"
    using assms d v by (cases "jget ob ''tools''") (auto simp: freeze_delegate_catalog_def)
  have "validate_tools schema_ok [] 0 tools = Inr ts"
    using assms d v t by (auto simp: freeze_delegate_catalog_def bind_res_Inr_iff
        validate_mcp_tool_catalog_def split: if_splits)
  then show ?thesis using validate_tools_names by blast
qed

text \<open>What minting may change, and that it keeps the registry sound.\<close>

definition mint_frame :: "generation \<Rightarrow> generation \<Rightarrow> bool" where
  "mint_frame g g' \<longleftrightarrow>
     (\<exists>reg ts n. g' = g\<lparr>rg_registry := reg, rg_tokens := ts, rg_next_token := n\<rparr>)"

lemma mint_frame_refl: "mint_frame g g"
  unfolding mint_frame_def
  by (rule exI [of _ "rg_registry g"], rule exI [of _ "rg_tokens g"], rule exI [of _ "rg_next_token g"]) simp

lemma mint_frame_trans: "mint_frame g h \<Longrightarrow> mint_frame h k \<Longrightarrow> mint_frame g k"
proof -
  assume "mint_frame g h" and "mint_frame h k"
  then obtain a b c where "k = g\<lparr>rg_registry := a, rg_tokens := b, rg_next_token := c\<rparr>"
    by (clarsimp simp: mint_frame_def)
  then show "mint_frame g k" unfolding mint_frame_def by (intro exI)
qed

lemma mint_frameD:
  assumes "mint_frame g g'"
  shows "rg_lease g' = rg_lease g" "rg_live g' = rg_live g" "rg_start g' = rg_start g"
    "rg_torn g' = rg_torn g" "rg_launched g' = rg_launched g" "rg_stops g' = rg_stops g"
    "rg_next_runtime g' = rg_next_runtime g" "rg_attempt g' = rg_attempt g"
  using assms by (auto simp: mint_frame_def)

lemma prune_subset: "set (prune_revoked current reg) \<subseteq> set reg"
  by (auto simp: prune_revoked_def)

lemma update_subset: "set (AList.update k v al) \<subseteq> insert (k, v) (set al)"
  by (induction al) auto

lemma mint_keeps:
  assumes "registry_inv g"
    and "mint schema_ok (current_lease g) (rg_lease g) d name described (rg_next_token g) (rg_registry g) = (res, reg)"
  shows "res = Inr True \<Longrightarrow> registry_inv
           (g\<lparr>rg_registry := reg, rg_tokens := rg_tokens g @ [rg_next_token g], rg_next_token := n\<rparr>)"
    and "res \<noteq> Inr True \<Longrightarrow> registry_inv (g\<lparr>rg_registry := reg\<rparr>)"
proof -
  let ?p = "prune_revoked (current_lease g) (rg_registry g)"
  have p: "\<forall>(t, e) \<in> set ?p. t \<in> set (rg_tokens g) \<and> le_lease e = rg_lease g \<and> distinct (map tool_name (le_tools e))"
    using assms(1) prune_subset [of "current_lease g" "rg_registry g"]
    unfolding registry_inv_def by blast
  show "registry_inv (g\<lparr>rg_registry := reg\<rparr>)" if "res \<noteq> Inr True"
    using assms(2) p that
    by (auto simp: mint_def Let_def registry_inv_def split: sum.splits option.splits)
  show "registry_inv
      (g\<lparr>rg_registry := reg, rg_tokens := rg_tokens g @ [rg_next_token g], rg_next_token := n\<rparr>)"
    if res: "res = Inr True"
  proof -
    obtain tools where t: "freeze_delegate_catalog schema_ok described = Inr (Some tools)"
      and reg: "reg = AList.update (rg_next_token g)
                 \<lparr> le_lease = rg_lease g, le_delegate = d, le_name = name,
                   le_identity = mcp_delegate_identity name, le_tools = tools \<rparr> ?p"
      using assms(2) res
      by (cases "freeze_delegate_catalog schema_ok described") (auto simp: mint_def Let_def split: option.split_asm)
    have "set reg \<subseteq> insert (rg_next_token g,
                 \<lparr> le_lease = rg_lease g, le_delegate = d, le_name = name,
                   le_identity = mcp_delegate_identity name, le_tools = tools \<rparr>) (set ?p)"
      unfolding reg by (rule update_subset)
    then show ?thesis using p freeze_distinct [OF t] by (fastforce simp: registry_inv_def)
  qed
qed


lemma registry_inv_frame:
  "rg_registry g' = rg_registry g \<Longrightarrow> rg_tokens g' = rg_tokens g \<Longrightarrow> rg_lease g' = rg_lease g \<Longrightarrow>
   registry_inv g' = registry_inv g"
  by (simp add: registry_inv_def)

lemma registry_inv_idle: "registry_inv g \<Longrightarrow> rg_tokens g = [] \<Longrightarrow> rg_registry g = []"
  by (cases "rg_registry g") (auto simp: registry_inv_def)

lemma registry_empty: "rg_registry g = [] \<Longrightarrow> registry_inv g"
  by (simp add: registry_inv_def)

lemma release_registry: "registry_inv g \<Longrightarrow> release_tokens (rg_tokens g) (rg_registry g) = []"
  by (auto simp: registry_inv_def release_tokens_def filter_empty_conv)

lemma mint_all_keeps:
  "mint_all schema_ok lease ds names g = (res, g') \<Longrightarrow> lease = rg_lease g \<Longrightarrow> registry_inv g \<Longrightarrow>
   mint_frame g g' \<and> registry_inv g'"
proof (induction schema_ok lease ds names g arbitrary: res g' rule: mint_all.induct)
  case (1 schema_ok lease names g)
  then show ?case by (simp add: mint_frame_refl)
next
  case (2 schema_ok lease d name described ds names g)
  let ?t = "rg_next_token g"
  obtain r reg where m: "mint schema_ok (current_lease g) lease d name described ?t (rg_registry g) = (r, reg)"
    by fastforce
  note keeps = mint_keeps [OF \<open>registry_inv g\<close> m [unfolded \<open>lease = rg_lease g\<close>]]
  have frame: "mint_frame g (g\<lparr>rg_registry := reg\<rparr>)"
    unfolding mint_frame_def
    by (rule exI [of _ reg], rule exI [of _ "rg_tokens g"], rule exI [of _ ?t]) simp
  have frame': "mint_frame g (g\<lparr>rg_registry := reg, rg_tokens := rg_tokens g @ [?t], rg_next_token := Suc ?t\<rparr>)"
    unfolding mint_frame_def by (intro exI) (rule refl)
  consider e where "r = Inl e" | "r = Inr False" | "r = Inr True"
    by (cases r) auto
  then show ?case
  proof cases
    case 1
    then have "g' = g\<lparr>rg_registry := reg\<rparr>" using "2.prems"(1) m by simp
    then show ?thesis using keeps(2) frame 1 by simp
  next
    case 2
    then have run: "mint_all schema_ok lease ds names (g\<lparr>rg_registry := reg\<rparr>) = (res, g')"
      using "2.prems"(1) m by simp
    have "mint_frame (g\<lparr>rg_registry := reg\<rparr>) g' \<and> registry_inv g'"
      by (rule "2.IH"(2) [OF m [symmetric] 2 refl run]) (use 2 keeps(2) \<open>lease = rg_lease g\<close> in simp_all)
    then show ?thesis using frame mint_frame_trans by blast
  next
    case 3
    then have run: "mint_all schema_ok lease ds (names @ [name])
        (g\<lparr>rg_registry := reg, rg_tokens := rg_tokens g @ [?t], rg_next_token := Suc ?t\<rparr>) = (res, g')"
      using "2.prems"(1) m by simp
    have "mint_frame (g\<lparr>rg_registry := reg, rg_tokens := rg_tokens g @ [?t], rg_next_token := Suc ?t\<rparr>) g' \<and>
        registry_inv g'"
      by (rule "2.IH"(1) [OF m [symmetric] 3 refl run]) (use 3 keeps(1) \<open>lease = rg_lease g\<close> in simp_all)
    then show ?thesis using frame' mint_frame_trans by blast
  qed
qed

lemma release_frame: "mint_frame g (release_mcp_leases g)"
  unfolding mint_frame_def release_mcp_leases_def
  by (rule exI [of _ "release_tokens (rg_tokens g) (rg_registry g)"], rule exI [of _ "[]"],
      rule exI [of _ "rg_next_token g"]) simp

lemma release_empty:
  "rg_tokens (release_mcp_leases g) = []"
  "registry_inv g \<Longrightarrow> rg_registry (release_mcp_leases g) = []"
  by (simp_all add: release_mcp_leases_def release_registry)

lemma descriptors_keep:
  assumes "mcp_server_descriptors schema_ok (rg_lease g) mcp g = (res, g')" and "registry_inv g"
  shows "mint_frame g g' \<and> registry_inv g'"
proof (cases mcp)
  case None
  then show ?thesis using assms by (simp add: mcp_server_descriptors_def mint_frame_refl)
next
  case (Some ds)
  obtain r h where m: "mint_all schema_ok (rg_lease g) ds [] (release_mcp_leases g) = (r, h)"
    by fastforce
  have "g' = h"
    using assms(1) Some m by (auto simp: mcp_server_descriptors_def split: sum.splits option.splits)
  moreover have "mint_frame (release_mcp_leases g) h \<and> registry_inv h"
    by (rule mint_all_keeps [OF m])
      (simp_all add: release_mcp_leases_def registry_empty release_registry assms(2))
  ultimately show ?thesis using release_frame mint_frame_trans by blast
qed


subsection \<open>The steps\<close>

lemma call_inv_mono:
  "call_inv g c \<Longrightarrow> set (rg_torn g) \<subseteq> set (rg_torn g') \<Longrightarrow> rg_live g' \<in> {rg_live g, None} \<Longrightarrow> call_inv g' c"
  by (auto simp: call_inv_def)

lemma stops_inv_mono:
  "\<forall>(i, c) \<in> set (rg_stops g). call_inv g c \<Longrightarrow> set (rg_torn g) \<subseteq> set (rg_torn g') \<Longrightarrow>
   rg_live g' \<in> {rg_live g, None} \<Longrightarrow> \<forall>(i, c) \<in> set (rg_stops g). call_inv g' c"
  using call_inv_mono by blast

lemma start_inv_same:
  "start_inv g \<Longrightarrow> rg_start g' = rg_start g \<Longrightarrow> rg_live g' = rg_live g \<Longrightarrow> rg_torn g' = rg_torn g \<Longrightarrow>
   rg_next_runtime g' = rg_next_runtime g \<Longrightarrow> start_inv g'"
  unfolding start_inv_def by (cases "rg_start g") simp_all

text \<open>Most steps change nothing the calls of \<^verbatim>\<open>stop\<close> look at but forget a runtime or call its \<^verbatim>\<open>stop\<close>.\<close>

lemma base_inv_step:
  assumes "base_inv g" and "registry_inv g'" and "start_inv g'"
    and "set (rg_torn g) \<subseteq> set (rg_torn g')" and "\<forall>r \<in> set (rg_torn g'). r < rg_next_runtime g'"
    and "rg_live g' \<in> {rg_live g, None}" and "rg_next_runtime g \<le> rg_next_runtime g'"
    and "set (rg_stops g') \<subseteq> set (rg_stops g)"
  shows "base_inv g'"
proof -
  have "\<forall>(i, c) \<in> set (rg_stops g'). call_inv g' c"
    using stops_inv_mono [OF _ assms(4) assms(6)] assms(1, 8) unfolding base_inv_def by blast
  moreover have "\<forall>r. rg_live g' = Some r \<longrightarrow> r < rg_next_runtime g'"
    using assms(1, 6, 7) unfolding base_inv_def by fastforce
  ultimately show ?thesis using assms(2, 3, 5) unfolding base_inv_def by simp
qed

lemma base_inv_frame:
  assumes "base_inv g" and "mint_frame g g'" and "registry_inv g'"
  shows "base_inv g'"
proof (rule base_inv_step [OF assms(1) assms(3)])
  show "start_inv g'"
    by (rule start_inv_same [of g]) (use assms(1) mint_frameD [OF assms(2)] in \<open>simp_all add: base_inv_def\<close>)
qed (use assms(1) mint_frameD [OF assms(2)] in \<open>simp_all add: base_inv_def\<close>)

lemma base_inv_release: "base_inv g \<Longrightarrow> base_inv (release_mcp_leases g)"
  by (rule base_inv_frame [OF _ release_frame]) (simp_all add: registry_empty release_empty base_inv_def)

text \<open>A new lease is opened, or the current one revoked, only over an empty registry.\<close>

lemma revoke_inv:
  assumes "base_inv g" and "rg_tokens g = []"
  shows "gen_inv (revoke_runtime_generation g)" and "base_inv (lease_runtime_generation g)"
proof -
  have reg: "rg_registry g = []" using registry_inv_idle assms by (simp add: base_inv_def)
  have "base_inv (revoke_runtime_generation g)"
    by (rule base_inv_step [OF assms(1)])
      (use assms reg start_inv_same [of g] in \<open>simp_all add: base_inv_def revoke_runtime_generation_def registry_empty\<close>)
  then show "gen_inv (revoke_runtime_generation g)"
    using assms(2) by (simp add: gen_inv_def revoke_runtime_generation_def)
  show "base_inv (lease_runtime_generation g)"
    by (rule base_inv_step [OF assms(1)])
      (use assms reg start_inv_same [of g] in \<open>simp_all add: base_inv_def lease_runtime_generation_def registry_empty\<close>)
qed

lemma base_inv_unstart: "base_inv g \<Longrightarrow> base_inv (g\<lparr>rg_start := Not_Starting\<rparr>)"
  by (rule base_inv_step [of g]) (simp_all add: base_inv_def start_inv_def registry_inv_def)

lemma abandon_inv:
  assumes "base_inv g"
  shows "gen_inv (abandon_launch g)"
proof -
  have "gen_inv (revoke_runtime_generation (release_mcp_leases g))"
    by (rule revoke_inv(1) [OF base_inv_release [OF assms] release_empty(1)])
  moreover have "rg_tokens (abandon_launch g) = []"
    by (simp add: abandon_launch_def revoke_runtime_generation_def release_empty)
  ultimately show ?thesis
    using base_inv_unstart by (simp add: gen_inv_def abandon_launch_def)
qed

lemma launch_inv:
  assumes inv: "base_inv g" and idle: "rg_tokens g = []" "rg_live g = None"
  shows "gen_inv (launch schema_ok refused mcp g)"
proof (cases refused)
  case (Some e)
  then show ?thesis
    using abandon_inv [OF revoke_inv(2) [OF inv idle(1)]] by (simp add: launch_def Let_def)
next
  case None
  let ?g = "lease_runtime_generation g"
  obtain r h where m: "mcp_server_descriptors schema_ok (rg_lease ?g) mcp ?g = (r, h)" by fastforce
  have b: "base_inv ?g" by (rule revoke_inv(2) [OF inv idle(1)])
  have kept: "mint_frame ?g h \<and> registry_inv h"
    by (rule descriptors_keep [OF m]) (use b in \<open>simp add: base_inv_def\<close>)
  then have bh: "base_inv h" using base_inv_frame [OF b] by blast
  show ?thesis
  proof (cases r)
    case (Inl e)
    then show ?thesis using abandon_inv [OF bh] m None by (simp add: launch_def Let_def)
  next
    case (Inr names)
    have live: "rg_live h = None" and lease: "rg_lease h = rg_lease ?g"
      using mint_frameD(1, 2) kept idle(2) by (auto simp: lease_runtime_generation_def)
    have "base_inv (h\<lparr>rg_start := Creating (rg_lease ?g)\<rparr>)"
      by (rule base_inv_step [OF bh])
        (use bh live in \<open>simp_all add: base_inv_def start_inv_def registry_inv_def\<close>)
    then have "gen_inv (h\<lparr>rg_start := Creating (rg_lease ?g)\<rparr>)"
      using live lease by (simp add: gen_inv_def holds_authority_def)
    then show ?thesis using Inr m None by (simp add: launch_def Let_def)
  qed
qed

lemma idle_tokens:
  "gen_inv g \<Longrightarrow> rg_live g = None \<Longrightarrow> (\<And>l. rg_start g \<noteq> Creating l) \<Longrightarrow> rg_tokens g = []"
  by (auto simp: gen_inv_def holds_authority_def)

lemma ensure_inv:
  assumes "gen_inv g"
  shows "gen_inv (ensure_started schema_ok was_closed refused mcp g)"
proof (cases "rg_start g \<noteq> Not_Starting \<or> rg_live g \<noteq> None")
  case True
  then show ?thesis using assms by (simp add: ensure_started_def)
next
  case False
  let ?g = "g\<lparr>rg_attempt := Suc (rg_attempt g)\<rparr>"
  have idle: "rg_tokens g = []" using idle_tokens assms False by simp
  have b: "base_inv ?g" "base_inv (?g\<lparr>rg_start := Reopening\<rparr>)"
    by (rule base_inv_step [of g]; use assms False in \<open>simp add: gen_inv_def base_inv_def start_inv_def registry_inv_def\<close>)+
  then show ?thesis
    using False idle launch_inv [OF b(1)] by (auto simp: ensure_started_def Let_def gen_inv_def)
qed


lemma reopen_inv:
  assumes "gen_inv g" and "rg_start g = Reopening"
  shows "gen_inv (reopen_settles schema_ok ok refused mcp g)"
proof -
  have live: "rg_live g = None" using assms by (simp add: gen_inv_def base_inv_def start_inv_def)
  have idle: "rg_tokens g = []" using idle_tokens [OF assms(1) live] assms(2) by simp
  show ?thesis
    using launch_inv [OF _ idle live] base_inv_unstart assms(1) idle
    by (simp add: reopen_settles_def gen_inv_def)
qed

lemma create_inv:
  assumes inv: "gen_inv g" and start: "rg_start g = Creating l"
  shows "gen_inv (create_settles l ok g)"
proof (cases ok)
  case False
  then show ?thesis using abandon_inv inv by (simp add: create_settles_def gen_inv_def)
next
  case True
  let ?r = "rg_next_runtime g"
  let ?g = "g\<lparr>rg_live := Some ?r, rg_next_runtime := Suc ?r, rg_start := Starting_Runtime l ?r,
               rg_launched := rg_launched g @ [(?r, l)]\<rparr>"
  have live: "rg_live g = None" and fresh: "?r \<notin> set (rg_torn g)"
    using inv start by (auto simp: gen_inv_def base_inv_def start_inv_def)
  have calls: "\<forall>(i, c) \<in> set (rg_stops g). call_inv ?g c"
    using inv fresh by (fastforce simp: gen_inv_def base_inv_def call_inv_def)
  have "base_inv ?g"
    using inv calls by (auto simp: gen_inv_def base_inv_def start_inv_def registry_inv_def)
  moreover have "holds_authority ?g \<or> rg_tokens ?g = []"
    using inv live fresh start by (auto simp: gen_inv_def holds_authority_def)
  ultimately show ?thesis using True by (simp add: create_settles_def Let_def gen_inv_def)
qed

text \<open>Calling \<^verbatim>\<open>stop\<close>.\<close>

lemma call_stop_inv:
  assumes inv: "base_inv g" and r: "r < rg_next_runtime g"
  shows "base_inv (call_runtime_stop r g)"
proof (rule base_inv_step [OF inv])
  show "registry_inv (call_runtime_stop r g)"
    using inv by (simp add: call_runtime_stop_def registry_empty base_inv_def
        release_mcp_leases_def release_registry)
  show "start_inv (call_runtime_stop r g)"
    using inv by (cases "rg_start g")
      (simp_all add: base_inv_def start_inv_def call_runtime_stop_def release_mcp_leases_def)
qed (use inv r in \<open>auto simp: call_runtime_stop_def release_mcp_leases_def base_inv_def\<close>)

lemma call_stop_fields:
  "rg_tokens (call_runtime_stop r g) = []" "rg_live (call_runtime_stop r g) = rg_live g"
  "set (rg_torn (call_runtime_stop r g)) = insert r (set (rg_torn g))"
  "rg_stops (call_runtime_stop r g) = rg_stops g" "rg_start (call_runtime_stop r g) = rg_start g"
  "rg_next_runtime (call_runtime_stop r g) = rg_next_runtime g"
  by (simp_all add: call_runtime_stop_def release_mcp_leases_def)

lemma start_settles_inv:
  assumes inv: "gen_inv g" and start: "rg_start g = Starting_Runtime l r"
  shows "gen_inv (runtime_start_settles l r outcome g)"
proof (cases outcome)
  case (Inl e)
  have r: "r < rg_next_runtime g" and live: "rg_live g \<in> {None, Some r}"
    using inv start by (simp_all add: gen_inv_def base_inv_def start_inv_def)
  let ?h = "call_runtime_stop r g"
  have b: "base_inv ?h" using call_stop_inv inv r by (simp add: gen_inv_def)
  have "base_inv (?h\<lparr>rg_start := Rolling_Back l r\<rparr>)"
    by (rule base_inv_step [OF b])
      (use b live in \<open>simp_all add: base_inv_def start_inv_def call_stop_fields registry_inv_def\<close>)
  then show ?thesis
    using Inl by (simp add: runtime_start_settles_def gen_inv_def call_stop_fields)
next
  case (Inr cont)
  have "rg_live g = None \<Longrightarrow> rg_tokens g = []" using idle_tokens inv start by simp
  moreover have "base_inv (g\<lparr>rg_continuity := Some cont, rg_start := Not_Starting\<rparr>)"
    by (rule base_inv_step [of g])
      (use inv in \<open>simp_all add: gen_inv_def base_inv_def start_inv_def registry_inv_def\<close>)
  ultimately show ?thesis
    using Inr inv by (cases "rg_live g") (simp_all add: runtime_start_settles_def gen_inv_def holds_authority_def)
qed

lemma forget_fields:
  "rg_tokens (forget_live r g) = rg_tokens g" "rg_registry (forget_live r g) = rg_registry g"
  "rg_lease (forget_live r g) = rg_lease g" "rg_start (forget_live r g) = rg_start g"
  "rg_torn (forget_live r g) = rg_torn g" "rg_stops (forget_live r g) = rg_stops g"
  "rg_next_runtime (forget_live r g) = rg_next_runtime g"
  "rg_live (forget_live r g) = (if rg_live g = Some r then None else rg_live g)"
  by (simp_all add: forget_live_def)

lemma forget_live_inv:
  assumes inv: "gen_inv g" and r: "r \<in> set (rg_torn g)"
  shows "gen_inv (forget_live r g)"
proof (cases "rg_live g = Some r")
  case False
  then show ?thesis using inv by (simp add: forget_live_def)
next
  case True
  have "base_inv (forget_live r g)"
  proof (rule base_inv_step [of g])
    show "start_inv (forget_live r g)"
      using inv by (cases "rg_start g") (auto simp: gen_inv_def base_inv_def start_inv_def forget_fields)
  qed (use inv in \<open>auto simp: gen_inv_def base_inv_def registry_inv_def forget_fields\<close>)
  moreover have "rg_tokens g = []" using inv True r by (simp add: gen_inv_def holds_authority_def)
  ultimately show ?thesis by (simp add: gen_inv_def forget_fields)
qed

lemma rollback_inv:
  assumes inv: "gen_inv g" and start: "rg_start g = Rolling_Back l r"
  shows "gen_inv (rollback_settles r ok g)"
proof -
  let ?g = "if ok then (forget_live r g)\<lparr>rg_continuity := None\<rparr> else g"
  have r: "r \<in> set (rg_torn g)" and live: "rg_live g \<in> {None, Some r}"
    using inv start by (simp_all add: gen_inv_def base_inv_def start_inv_def)
  have idle: "rg_tokens g = []"
    using inv start r live by (auto simp: gen_inv_def holds_authority_def)
  have f: "base_inv (forget_live r g)" using forget_live_inv [OF inv r] by (simp add: gen_inv_def)
  have "base_inv ((forget_live r g)\<lparr>rg_continuity := None\<rparr>)"
    by (rule base_inv_step [OF f])
      (use f start_inv_same [of "forget_live r g"] in \<open>simp_all add: base_inv_def registry_inv_def\<close>)
  then have "base_inv ?g" using inv by (simp add: gen_inv_def)
  then have "gen_inv (revoke_runtime_generation ?g)"
    by (rule revoke_inv(1)) (simp add: idle forget_fields)
  then show ?thesis
    using base_inv_unstart by (simp add: rollback_settles_def gen_inv_def Let_def revoke_runtime_generation_def
        idle forget_fields)
qed


text \<open>A step that touches none of this.\<close>

lemma quiet_inv:
  assumes "gen_inv g" and "rg_registry g' = rg_registry g" "rg_tokens g' = rg_tokens g"
    "rg_lease g' = rg_lease g" "rg_live g' = rg_live g" "rg_start g' = rg_start g"
    "rg_torn g' = rg_torn g" "rg_launched g' = rg_launched g" "rg_stops g' = rg_stops g"
    "rg_next_runtime g' = rg_next_runtime g"
  shows "gen_inv g'"
proof -
  have "base_inv g'"
    by (rule base_inv_step [of g])
      (use assms start_inv_same [of g g'] registry_inv_frame [of g' g] in \<open>simp_all add: gen_inv_def base_inv_def\<close>)
  then show ?thesis using assms by (cases "rg_live g") (simp_all add: gen_inv_def holds_authority_def)
qed

lemma set_stop_inv:
  assumes "gen_inv g" and "call_inv g c"
  shows "gen_inv (set_stop i c g)"
proof -
  have "\<forall>(j, d) \<in> set (rg_stops (set_stop i c g)). call_inv g d"
    using assms update_subset [of i c "rg_stops g"] by (fastforce simp: set_stop_def gen_inv_def base_inv_def)
  then have "\<forall>(j, d) \<in> set (rg_stops (set_stop i c g)). call_inv (set_stop i c g) d"
    by (simp add: call_inv_def set_stop_def)
  then show ?thesis
    using assms(1) start_inv_same [of g "set_stop i c g"]
    by (cases "rg_live g") (simp_all add: gen_inv_def base_inv_def set_stop_def registry_inv_def holds_authority_def)
qed

lemma finish_inv:
  assumes "gen_inv g"
  shows "gen_inv (finish_stop_call i c g)"
proof -
  let ?h = "release_mcp_leases (revoke_runtime_generation (g\<lparr>rg_continuity := None\<rparr>))"
  have reg: "rg_registry ?h = []" "rg_tokens ?h = []"
    using assms release_registry [of g]
    by (simp_all add: release_mcp_leases_def revoke_runtime_generation_def gen_inv_def base_inv_def)
  let ?k = "finish_stop_call i c g"
  have "base_inv ?k"
    by (rule base_inv_step [of g])
      (use assms reg start_inv_same [of g ?k] in
        \<open>auto simp: gen_inv_def base_inv_def registry_empty finish_stop_call_def release_mcp_leases_def
           revoke_runtime_generation_def\<close>)
  then show ?thesis using reg by (simp add: finish_stop_call_def gen_inv_def)
qed

lemma stop_owned_Some:
  "stop_owned c g = Some r \<longleftrightarrow> rg_live g = Some r \<and> r \<notin> set (sc_attempted c)"
  by (auto simp: stop_owned_def split: option.splits if_splits)

lemma stop_first_inv:
  assumes inv: "gen_inv g"
  shows "gen_inv (stop_runtime g)"
proof -
  let ?i = "rg_next_stop g" let ?g = "g\<lparr>rg_next_stop := Suc ?i\<rparr>"
  let ?c = "\<lparr> sc_phase = join_start ?g, sc_attempted = [], sc_failures = [] \<rparr>"
  have g: "gen_inv ?g"
    by (rule quiet_inv [OF inv]) simp_all
  show ?thesis
  proof (cases "stop_owned ?c ?g")
    case None
    have "call_inv ?g ?c" by (simp add: call_inv_def join_start_def)
    then show ?thesis using set_stop_inv [OF g] None by (simp add: stop_runtime_def Let_def)
  next
    case (Some r)
    then have "rg_live ?g = Some r" by (simp add: stop_owned_Some)
    then have "gen_inv (call_runtime_stop r ?g)"
      using call_stop_inv [of ?g r] g by (simp add: gen_inv_def base_inv_def call_stop_fields)
    moreover have "call_inv (call_runtime_stop r ?g) (?c\<lparr>sc_phase := Stopping_First r, sc_attempted := [r]\<rparr>)"
      by (simp add: call_inv_def call_stop_fields)
    ultimately show ?thesis using set_stop_inv Some by (simp add: stop_runtime_def Let_def)
  qed
qed

text \<open>What a settled \<^verbatim>\<open>stop\<close> leaves: the runtime forgotten, or a failure noted.\<close>

lemma note_stop_inv:
  assumes inv: "gen_inv g" and c: "call_inv g c" and ph: "sc_phase c \<in> {Stopping_First r, Stopping_Second r}"
    and n: "note_stop r err c g = (c', g')"
  shows "gen_inv g'"
    and "\<forall>q \<in> set (sc_attempted c'). q \<in> set (rg_torn g') \<and> (rg_live g' = Some q \<longrightarrow> sc_failures c' \<noteq> [])"
proof -
  have r: "r \<in> set (rg_torn g)" using c ph by (auto simp: call_inv_def)
  show "gen_inv g'"
    using n inv forget_live_inv [OF inv r] by (auto simp: note_stop_def split: option.splits)
  show "\<forall>q \<in> set (sc_attempted c'). q \<in> set (rg_torn g') \<and> (rg_live g' = Some q \<longrightarrow> sc_failures c' \<noteq> [])"
    using n c ph by (auto simp: note_stop_def call_inv_def forget_fields split: option.splits if_splits)
qed

lemma first_settles_inv:
  assumes inv: "gen_inv g" and mem: "(i, c) \<in> set (rg_stops g)" and ph: "sc_phase c = Stopping_First r"
  shows "gen_inv (first_stop_settles i c r err g)"
proof -
  obtain c' g' where n: "note_stop r err c g = (c', g')" by fastforce
  have c: "call_inv g c" using inv mem by (auto simp: gen_inv_def base_inv_def)
  note k = note_stop_inv [OF inv c _ n]
  have "call_inv g' (c'\<lparr>sc_phase := join_start g'\<rparr>)"
    using k(2) ph by (simp add: call_inv_def join_start_def)
  then show ?thesis using set_stop_inv k(1) n ph by (simp add: first_stop_settles_def)
qed

lemma join_inv:
  assumes inv: "gen_inv g" and mem: "(i, c) \<in> set (rg_stops g)" and ph: "sc_phase c = Joining k"
  shows "gen_inv (join_settles i c g)"
proof (cases "stop_owned c g")
  case None
  then show ?thesis using finish_inv [OF inv] by (simp add: join_settles_def)
next
  case (Some r)
  let ?h = "call_runtime_stop r g"
  have c: "call_inv g c" using inv mem by (auto simp: gen_inv_def base_inv_def)
  have live: "rg_live g = Some r" using Some by (simp add: stop_owned_Some)
  have "gen_inv ?h"
    using call_stop_inv [of g r] inv live by (simp add: gen_inv_def base_inv_def call_stop_fields)
  moreover have "call_inv ?h (c\<lparr>sc_phase := Stopping_Second r, sc_attempted := sc_attempted c @ [r]\<rparr>)"
    using c live ph by (auto simp: call_inv_def call_stop_fields)
  ultimately show ?thesis using set_stop_inv Some by (simp add: join_settles_def)
qed

lemma second_settles_inv:
  assumes inv: "gen_inv g" and mem: "(i, c) \<in> set (rg_stops g)" and ph: "sc_phase c = Stopping_Second r"
  shows "gen_inv (second_stop_settles i c r err g)"
proof -
  obtain c' g' where n: "note_stop r err c g = (c', g')" by fastforce
  have c: "call_inv g c" using inv mem by (auto simp: gen_inv_def base_inv_def)
  show ?thesis
    using finish_inv note_stop_inv(1) [OF inv c _ n] n ph by (simp add: second_stop_settles_def)
qed

lemma gen_step_inv: "gen_step schema_ok g g' \<Longrightarrow> gen_inv g \<Longrightarrow> gen_inv g'"
proof (induction rule: gen_step.induct)
  case (publish g lease u)
  then show ?case by (rule quiet_inv) (simp_all add: publish_def)
next
  case (dequeue g)
  from dequeue(2) show ?case
    by (rule quiet_inv) (simp_all add: write_begins_def split: list.splits prod.splits)
next
  case (written g ok)
  then show ?case
    by (rule quiet_inv) (simp_all add: publish_settles_def Let_def split: option.splits prod.splits state_update.splits)
next
  case (event g lease e)
  then show ?case by (rule quiet_inv) (simp_all add: runtime_event_def)
qed (simp_all add: ensure_inv reopen_inv create_inv start_settles_inv rollback_inv stop_first_inv
    first_settles_inv join_inv second_settles_inv)

lemma gen_reach_inv: "gen_reach schema_ok g \<Longrightarrow> gen_inv g"
  by (induction rule: gen_reach.induct) (simp_all add: gen_inv_init gen_step_inv)


subsection \<open>Authority\<close>

lemma registry_lookup:
  "registry_inv g \<Longrightarrow> map_of (rg_registry g) t = Some e \<Longrightarrow>
   t \<in> set (rg_tokens g) \<and> le_lease e = rg_lease g \<and> distinct (map tool_name (le_tools e))"
  using map_of_SomeD [of "rg_registry g" t e] by (auto simp: registry_inv_def)

text \<open>One delegate with one tool, its runtime started; then a stop of that runtime.\<close>

definition demo_offer :: "delegate_offer list option" where
  "demo_offer = Some [(7, ''team'', Inr (Obj [(''tools'',
     Arr [Obj [(''name'', Str ''send''), (''inputSchema'', Obj [])]])]))]"

definition demo_started :: generation where
  "demo_started = runtime_start_settles 1 0 (Inr ''fresh'')
     (create_settles 1 True (ensure_started (\<lambda>_. True) False None demo_offer generation_init))"

definition demo_joining :: generation where
  "demo_joining = first_stop_settles 0
     \<lparr> sc_phase = Stopping_First 0, sc_attempted = [0], sc_failures = [] \<rparr> 0 None
     (stop_runtime demo_started)"

lemma demo_started_reach: "gen_reach (\<lambda>_. True) demo_started"
proof -
  let ?a = "ensure_started (\<lambda>_. True) False None demo_offer generation_init"
  let ?b = "create_settles 1 True ?a"
  have "gen_reach (\<lambda>_. True) ?a" by (rule gen_reach.step [OF gen_reach.init gen_step.ensure])
  moreover have "rg_start ?a = Creating 1" by code_simp
  ultimately have "gen_reach (\<lambda>_. True) ?b" using gen_reach.step gen_step.created by blast
  moreover have "rg_start ?b = Starting_Runtime 1 0" by code_simp
  ultimately show ?thesis unfolding demo_started_def using gen_reach.step gen_step.started by blast
qed

lemma demo_joining_reach: "gen_reach (\<lambda>_. True) demo_joining"
proof -
  let ?c = "\<lparr> sc_phase = Stopping_First 0, sc_attempted = [0], sc_failures = [] \<rparr>"
  have "gen_reach (\<lambda>_. True) (stop_runtime demo_started)"
    by (rule gen_reach.step [OF demo_started_reach gen_step.stop])
  moreover have "(0, ?c) \<in> set (rg_stops (stop_runtime demo_started))" by code_simp
  moreover have "sc_phase ?c = Stopping_First 0" by simp
  ultimately show ?thesis unfolding demo_joining_def
    by (intro gen_reach.step [OF _ gen_step.stopped_first])
qed

text \<open>
  C21. Tool authority ends before the runtime does.  In every reachable state, a call that gets
  through to a delegate came with a token of the current generation, names a tool of the catalog
  that token was frozen with (whose names are distinct), and the generation's runtime is either
  still being created or is the live one and its \<^verbatim>\<open>stop\<close> has not been called.
\<close>
theorem mcp_authority_ends_first:
  assumes "gen_reach schema_ok g"
    and "invoke (current_lease g) (rg_registry g) token tool = Enter d"
  shows "token \<in> set (rg_tokens g) \<and>
    (\<exists>e. map_of (rg_registry g) token = Some e \<and> le_lease e = rg_lease g \<and> le_delegate e = d \<and>
       tool \<in> set (map tool_name (le_tools e)) \<and> distinct (map tool_name (le_tools e))) \<and>
    (case rg_live g of
       Some r \<Rightarrow> r \<notin> set (rg_torn g) \<and> (r, rg_lease g) \<in> set (rg_launched g)
     | None \<Rightarrow> rg_start g = Creating (rg_lease g))"
proof -
  have inv: "gen_inv g" by (rule gen_reach_inv [OF assms(1)])
  obtain e where e: "map_of (rg_registry g) token = Some e" "le_delegate e = d"
      "tool \<in> tool_name ` set (le_tools e)"
    using assms(2) by (auto simp: invoke_Enter)
  have reg: "registry_inv g" using inv by (simp add: gen_inv_def base_inv_def)
  note l = registry_lookup [OF reg e(1)]
  then have "holds_authority g" using inv by (auto simp: gen_inv_def)
  then show ?thesis using l e unfolding holds_authority_def by auto
qed

theorem mcp_authority_ends_first_witness:
  "invoke (current_lease demo_started) (rg_registry demo_started) 0 ''send'' = Enter 7 \<and>
   0 \<in> set (rg_tokens demo_started)"
proof -
  have e: "invoke (current_lease demo_started) (rg_registry demo_started) 0 ''send'' = Enter 7"
    by code_simp
  then show ?thesis using mcp_authority_ends_first [OF demo_started_reach e] by blast
qed

text \<open>A stop call that finishes.\<close>

lemma finish_fields:
  "registry_inv g \<Longrightarrow> rg_registry (finish_stop_call i c g) = []"
  "rg_tokens (finish_stop_call i c g) = []" "rg_live (finish_stop_call i c g) = rg_live g"
  "rg_continuity (finish_stop_call i c g) = None" "rg_lease (finish_stop_call i c g) = Suc (rg_lease g)"
  "rg_stop_results (finish_stop_call i c g) = rg_stop_results g @ [(i, sc_failures c)]"
  by (simp_all add: finish_stop_call_def release_mcp_leases_def revoke_runtime_generation_def release_registry)

text \<open>
  C22. A stop call is terminal whatever failed.  When it finishes, no tool call of this Agent can
  enter a delegate, the continuity is forgotten, every lease handed out so far is refused without
  an effect, the caller is told exactly the failures that were collected, and unless there was one
  no runtime the call took is still held.
\<close>
theorem finished_stop_releases:
  assumes "gen_reach schema_ok g" and "(i, c) \<in> set (rg_stops g)"
    and "(\<exists>k. sc_phase c = Joining k \<and> stop_owned c g = None \<and> g' = join_settles i c g) \<or>
      (\<exists>r err. sc_phase c = Stopping_Second r \<and> g' = second_stop_settles i c r err g)"
  shows "(\<forall>token tool d. invoke (current_lease g') (rg_registry g') token tool \<noteq> Enter d) \<and>
    rg_tokens g' = [] \<and> rg_continuity g' = None \<and>
    (\<forall>lease u. lease \<le> rg_lease g \<longrightarrow> publish lease u g' = (Pub_Lease_Revoked, g')) \<and>
    (\<exists>failures. rg_stop_results g' = rg_stop_results g @ [(i, failures)] \<and>
       set (sc_failures c) \<subseteq> set failures \<and>
       (failures = [] \<longrightarrow> (\<forall>r \<in> set (sc_attempted c). rg_live g' \<noteq> Some r)))"
proof -
  have inv: "gen_inv g" by (rule gen_reach_inv [OF assms(1)])
  have c: "call_inv g c" using inv assms(2) by (auto simp: gen_inv_def base_inv_def)
  obtain c' h where g': "g' = finish_stop_call i c' h" and h: "gen_inv h"
    and lease: "rg_lease h = rg_lease g" and res: "rg_stop_results h = rg_stop_results g"
    and sub: "set (sc_failures c) \<subseteq> set (sc_failures c')"
    and live: "sc_failures c' = [] \<Longrightarrow> \<forall>r \<in> set (sc_attempted c). rg_live h \<noteq> Some r"
  proof -
    from assms(3) show ?thesis
    proof (elim disjE exE conjE)
      fix k assume "sc_phase c = Joining k" "stop_owned c g = None" "g' = join_settles i c g"
      then show ?thesis using that [of c g] inv c by (auto simp: join_settles_def call_inv_def)
    next
      fix r err assume ph: "sc_phase c = Stopping_Second r" and g': "g' = second_stop_settles i c r err g"
      obtain c' h where n: "note_stop r err c g = (c', h)" by fastforce
      note k = note_stop_inv [OF inv c _ n]
      have "sc_attempted c' = sc_attempted c \<and> set (sc_failures c) \<subseteq> set (sc_failures c') \<and>
          rg_lease h = rg_lease g \<and> rg_stop_results h = rg_stop_results g"
        using n by (auto simp: note_stop_def forget_live_def split: option.splits if_splits)
      then show ?thesis
        using that [of c' h] k ph g' n by (auto simp: second_stop_settles_def)
    qed
  qed
  have reg: "rg_registry g' = []"
    using finish_fields(1) h g' by (simp add: gen_inv_def base_inv_def)
  then have "\<forall>token tool d. invoke (current_lease g') (rg_registry g') token tool \<noteq> Enter d"
    by (simp add: invoke_Enter)
  moreover have "\<forall>lease u. lease \<le> rg_lease g \<longrightarrow> publish lease u g' = (Pub_Lease_Revoked, g')"
    using lease g' by (simp add: publish_def current_lease_def finish_fields)
  ultimately show ?thesis
    using g' sub live res by (auto simp: finish_fields)
qed

theorem finished_stop_releases_witness:
  "rg_tokens (join_settles 0 \<lparr> sc_phase = Joining None, sc_attempted = [0], sc_failures = [] \<rparr> demo_joining) = []"
proof -
  let ?c = "\<lparr> sc_phase = Joining None, sc_attempted = [0], sc_failures = [] \<rparr>"
  have m: "(0, ?c) \<in> set (rg_stops demo_joining)" by code_simp
  have o: "stop_owned ?c demo_joining = None" by code_simp
  show ?thesis
    by (rule finished_stop_releases [OF demo_joining_reach m, of "join_settles 0 ?c demo_joining",
          THEN conjunct2, THEN conjunct1]) (simp add: o)
qed

end
