(* ===== verification/Agent_Service_Props.thy ===== *)
theory Agent_Service_Props
  imports Agent_Service Runtime_Generation_Props
begin

text \<open>
  The Agent against the runtime generation it owns: a close that succeeds leaves nothing of the
  Agent running, whatever was in flight when it was asked for, and the lock keeps ordinary work
  out while a workflow holds it.
\<close>

subsection \<open>Generation moves without a start\<close>

text \<open>No attempt begins: a generation at rest stays at rest, and its leases only grow older.\<close>

definition calm :: "generation \<Rightarrow> generation \<Rightarrow> bool" where
  "calm g g' \<longleftrightarrow>
     rg_attempt g' = rg_attempt g \<and> rg_lease g \<le> rg_lease g' \<and>
     (rg_start g = Not_Starting \<longrightarrow>
        rg_start g' = Not_Starting \<and> rg_live g' \<in> {rg_live g, None} \<and> rg_launched g' = rg_launched g)"

lemma calm_refl: "calm g g" by (simp add: calm_def)

lemma calm_trans: "calm g h \<Longrightarrow> calm h k \<Longrightarrow> calm g k"
  by (auto simp: calm_def)

lemma calm_release: "calm g (release_mcp_leases g)"
  by (simp add: calm_def release_mcp_leases_def)

lemma calm_call_stop: "calm g (call_runtime_stop r g)"
  by (simp add: calm_def call_runtime_stop_def release_mcp_leases_def)

lemma calm_set_stop: "calm g (set_stop i c g)" by (simp add: calm_def set_stop_def)

lemma calm_forget: "calm g (forget_live r g)" by (simp add: calm_def forget_live_def)

lemma calm_finish: "calm g (finish_stop_call i c g)"
  by (simp add: calm_def finish_stop_call_def release_mcp_leases_def revoke_runtime_generation_def)

lemma calm_note: "note_stop r err c g = (c', g') \<Longrightarrow> calm g g'"
  by (auto simp: note_stop_def calm_refl calm_forget split: option.splits)

lemmas calm_parts = calm_refl calm_release calm_call_stop calm_set_stop calm_forget calm_finish

lemma calm_stop: "calm g (stop_runtime g)"
proof -
  have "calm g (g\<lparr>rg_next_stop := n\<rparr>)" for n by (simp add: calm_def)
  then show ?thesis
    by (auto simp: stop_runtime_def Let_def split: option.splits
        intro: calm_trans [OF _ calm_set_stop] calm_trans [OF _ calm_trans [OF calm_call_stop calm_set_stop]])
qed

lemma calm_first: "calm g (first_stop_settles i c r err g)"
  by (cases "note_stop r err c g")
    (auto simp: first_stop_settles_def intro: calm_trans [OF calm_note calm_set_stop])

lemma calm_join: "calm g (join_settles i c g)"
  by (auto simp: join_settles_def split: option.splits
      intro: calm_finish calm_trans [OF calm_call_stop calm_set_stop])

lemma calm_second: "calm g (second_stop_settles i c r err g)"
  by (cases "note_stop r err c g")
    (auto simp: second_stop_settles_def intro: calm_trans [OF calm_note calm_finish])

lemma calm_abandon: "rg_start g \<noteq> Not_Starting \<Longrightarrow> calm g (abandon_launch g)"
  by (simp add: calm_def abandon_launch_def release_mcp_leases_def revoke_runtime_generation_def)

lemma calm_create: "rg_start g = Creating l \<Longrightarrow> calm g (create_settles l ok g)"
  using calm_abandon [of g] by (simp add: create_settles_def Let_def) (simp add: calm_def)

lemma calm_start: "rg_start g = Starting_Runtime l r \<Longrightarrow> calm g (runtime_start_settles l r outcome g)"
  by (cases outcome)
    (simp_all add: runtime_start_settles_def calm_def call_runtime_stop_def release_mcp_leases_def)

lemma calm_rollback: "rg_start g = Rolling_Back l r \<Longrightarrow> calm g (rollback_settles r ok g)"
  by (simp add: rollback_settles_def calm_def Let_def revoke_runtime_generation_def forget_live_def)

lemma calm_publish: "calm g (snd (publish lease u g))" by (simp add: publish_def calm_def)

lemma calm_dequeue: "calm g (write_begins g)"
  by (simp add: write_begins_def calm_def split: list.splits)

lemma calm_written: "calm g (publish_settles ok g)"
  by (simp add: publish_settles_def calm_def Let_def split: option.splits state_update.splits)

lemma calm_event: "calm g (runtime_event lease e g)" by (simp add: runtime_event_def calm_def)

text \<open>A launch takes a new lease; when it fails before a runtime is created the attempt is over.\<close>

lemma launch_cases:
  assumes reg: "registry_inv g" and idle: "rg_registry g = []"
  obtains (refused) h where "launch schema_ok refused mcp g = abandon_launch h"
      "mint_frame (lease_runtime_generation g) h"
    | (creating) h where "launch schema_ok refused mcp g = h\<lparr>rg_start := Creating (Suc (rg_lease g))\<rparr>"
      "mint_frame (lease_runtime_generation g) h"
proof -
  let ?g = "lease_runtime_generation g"
  have lease: "rg_lease ?g = Suc (rg_lease g)" by (simp add: lease_runtime_generation_def)
  have ri: "registry_inv ?g" using idle by (simp add: registry_empty lease_runtime_generation_def)
  obtain r h where m: "mcp_server_descriptors schema_ok (rg_lease ?g) mcp ?g = (r, h)" by fastforce
  have frame: "mint_frame ?g h" using descriptors_keep [OF m ri] by blast
  show thesis
  proof (cases refused)
    case (Some e)
    then have "launch schema_ok refused mcp g = abandon_launch ?g" by (simp add: launch_def Let_def)
    then show thesis using refused mint_frame_refl by blast
  next
    case None
    show thesis
    proof (cases r)
      case (Inl e)
      then have "launch schema_ok refused mcp g = abandon_launch h" using m None by (simp add: launch_def Let_def)
      then show thesis using refused frame by blast
    next
      case (Inr names)
      then have "launch schema_ok refused mcp g = h\<lparr>rg_start := Creating (Suc (rg_lease g))\<rparr>"
        using m None by (simp add: launch_def Let_def lease)
      then show thesis using creating frame by blast
    qed
  qed
qed

lemma abandon_fields:
  "rg_live (abandon_launch h) = rg_live h" "rg_start (abandon_launch h) = Not_Starting"
  "rg_lease (abandon_launch h) = Suc (rg_lease h)" "rg_launched (abandon_launch h) = rg_launched h"
  "rg_attempt (abandon_launch h) = rg_attempt h" "rg_stops (abandon_launch h) = rg_stops h"
  "rg_next_stop (abandon_launch h) = rg_next_stop h" "rg_writes (abandon_launch h) = rg_writes h"
  "rg_writing (abandon_launch h) = rg_writing h" "rg_next_runtime (abandon_launch h) = rg_next_runtime h"
  by (simp_all add: abandon_launch_def release_mcp_leases_def revoke_runtime_generation_def)

lemma frame_fields:
  assumes "mint_frame (lease_runtime_generation g) h"
  shows "rg_live h = rg_live g" "rg_lease h = Suc (rg_lease g)" "rg_launched h = rg_launched g"
    "rg_attempt h = rg_attempt g" "rg_stops h = rg_stops g" "rg_next_stop h = rg_next_stop g"
    "rg_writes h = rg_writes g" "rg_writing h = rg_writing g" "rg_next_runtime h = rg_next_runtime g"
  using assms by (auto simp: mint_frame_def lease_runtime_generation_def)

lemma launch_fields:
  assumes "registry_inv g" and "rg_registry g = []" and "g' = launch schema_ok refused mcp g"
  shows "rg_live g' = rg_live g" "rg_lease g < rg_lease g'" "rg_launched g' = rg_launched g"
    "rg_attempt g' = rg_attempt g" "rg_stops g' = rg_stops g" "rg_next_stop g' = rg_next_stop g"
    "rg_writes g' = rg_writes g" "rg_writing g' = rg_writing g"
    "rg_start g' = Not_Starting \<or> rg_start g' = Creating (rg_lease g')"
  unfolding atomize_conj
  by (rule launch_cases [OF assms(1,2), of schema_ok refused mcp])
    (use assms(3) frame_fields [of g] in \<open>auto simp: abandon_fields\<close>)


subsection \<open>Stop calls of a closing Agent\<close>

text \<open>Moves of everything but the attempt: its stage, its runtimes' leases stay.\<close>

definition still :: "generation \<Rightarrow> generation \<Rightarrow> bool" where
  "still g g' \<longleftrightarrow>
     rg_attempt g' = rg_attempt g \<and> rg_lease g \<le> rg_lease g' \<and> rg_start g' = rg_start g \<and>
     rg_live g' \<in> {rg_live g, None} \<and> rg_launched g' = rg_launched g"

lemma still_refl: "still g g" by (simp add: still_def)

lemma still_trans: "still g h \<Longrightarrow> still h k \<Longrightarrow> still g k" by (auto simp: still_def)

definition stops_ok :: "generation \<Rightarrow> bool" where
  "stops_ok g \<longleftrightarrow> distinct (map fst (rg_stops g)) \<and> (\<forall>k \<in> fst ` set (rg_stops g). k < rg_next_stop g)"

definition leases_ok :: "generation \<Rightarrow> bool" where
  "leases_ok g \<longleftrightarrow>
     (\<forall>l \<in> snd ` set (rg_launched g). l \<le> rg_lease g) \<and> (\<forall>l. rg_start g = Creating l \<longrightarrow> l \<le> rg_lease g)"

lemma leases_still: "leases_ok g \<Longrightarrow> still g g' \<Longrightarrow> leases_ok g'"
  unfolding leases_ok_def still_def by (metis le_trans)

text \<open>A stop call that no later attempt can overtake.\<close>

definition call_calm :: "generation \<Rightarrow> stop_call \<Rightarrow> bool" where
  "call_calm g c \<longleftrightarrow>
     (case sc_phase c of
        Stopping_First r \<Rightarrow> True
      | Joining None \<Rightarrow> rg_start g = Not_Starting
      | Joining (Some n) \<Rightarrow> n = rg_attempt g
      | Stopping_Second r \<Rightarrow> rg_start g = Not_Starting \<and> rg_live g \<in> {Some r, None})"

lemma call_calm_moves: "call_calm g c \<Longrightarrow> calm g g' \<Longrightarrow> call_calm g' c"
  by (auto simp: call_calm_def calm_def split: stop_phase.splits option.splits)

lemma still_calm: "still g g' \<Longrightarrow> calm g g'"
  by (auto simp: still_def calm_def)

lemma call_calm_join: "call_calm g (c\<lparr>sc_phase := join_start g\<rparr>)"
  by (simp add: call_calm_def join_start_def)

definition rested :: "generation \<Rightarrow> bool" where
  "rested g \<longleftrightarrow> rg_live g = None \<and> rg_start g = Not_Starting \<and> (\<forall>l \<in> snd ` set (rg_launched g). l < rg_lease g)"

lemma rested_still: "rested g \<Longrightarrow> still g g' \<Longrightarrow> rested g'"
  unfolding rested_def still_def by (metis insertE less_le_trans singletonD)

lemma still_parts:
  "still g (call_runtime_stop r g)" "still g (set_stop i c g)" "still g (forget_live r g)"
  "still g (finish_stop_call i c g)"
  by (simp_all add: still_def call_runtime_stop_def release_mcp_leases_def set_stop_def forget_live_def
      finish_stop_call_def revoke_runtime_generation_def)

lemma still_note: "note_stop r err c g = (c', g') \<Longrightarrow> still g g'"
  by (auto simp: note_stop_def still_refl still_parts split: option.splits)

text \<open>What a step of stop call \<open>i\<close> does: its row moves on, or the call is answered.\<close>

definition stop_move :: "nat \<Rightarrow> stop_call \<Rightarrow> generation \<Rightarrow> generation \<Rightarrow> bool" where
  "stop_move i c g g' \<longleftrightarrow>
     (\<exists>c'. rg_stops g' = AList.update i c' (rg_stops g) \<and> rg_stop_results g' = rg_stop_results g \<and>
        (call_calm g c \<longrightarrow> call_calm g' c')) \<or>
     (\<exists>failures. rg_stops g' = filter (\<lambda>e. fst e \<noteq> i) (rg_stops g) \<and>
        rg_stop_results g' = rg_stop_results g @ [(i, failures)] \<and>
        (call_calm g c \<and> failures = [] \<longrightarrow> rested g'))"

definition same_writes :: "generation \<Rightarrow> generation \<Rightarrow> bool" where
  "same_writes g g' \<longleftrightarrow>
     rg_writes g' = rg_writes g \<and> rg_writing g' = rg_writing g \<and> rg_next_stop g' = rg_next_stop g"

lemma note_fields:
  "note_stop r err c g = (c', g') \<Longrightarrow>
   rg_stops g' = rg_stops g \<and> rg_stop_results g' = rg_stop_results g \<and> same_writes g g'"
  by (auto simp: note_stop_def forget_live_def same_writes_def split: option.splits if_splits)

lemma first_move:
  "stop_move i c g (first_stop_settles i c r err g) \<and> still g (first_stop_settles i c r err g) \<and>
   same_writes g (first_stop_settles i c r err g)"
proof -
  obtain c' h where n: "note_stop r err c g = (c', h)" by fastforce
  let ?c = "c'\<lparr>sc_phase := join_start h\<rparr>"
  have eq: "first_stop_settles i c r err g = set_stop i ?c h" using n by (simp add: first_stop_settles_def)
  have "call_calm (set_stop i ?c h) ?c"
    by (rule call_calm_moves [OF call_calm_join calm_set_stop])
  then show ?thesis
    using note_fields [OF n] still_trans [OF still_note [OF n] still_parts(2)]
    unfolding eq stop_move_def by (auto simp: set_stop_def same_writes_def)
qed

lemma join_move:
  assumes inv: "gen_inv g" and lo: "leases_ok g" and mem: "(i, c) \<in> set (rg_stops g)"
    and ph: "sc_phase c = Joining k" and over: "joined k g"
  shows "stop_move i c g (join_settles i c g) \<and> still g (join_settles i c g) \<and>
    same_writes g (join_settles i c g)"
proof -
  have start: "rg_start g = Not_Starting" if "call_calm g c"
    using that ph over by (auto simp: call_calm_def joined_def split: option.splits)
  show ?thesis
  proof (cases "stop_owned c g")
    case None
    have "rg_live g = None" if "sc_failures c = []"
    proof (rule ccontr)
      assume "rg_live g \<noteq> None"
      then obtain r where "rg_live g = Some r" "r \<in> set (sc_attempted c)"
        using None by (auto simp: stop_owned_def split: if_splits)
      then show False
        using inv mem ph that by (fastforce simp: gen_inv_def base_inv_def call_inv_def)
    qed
    then have "rested (finish_stop_call i c g)" if "call_calm g c" "sc_failures c = []"
      using that start lo unfolding rested_def leases_ok_def
      by (auto simp: finish_stop_call_def release_mcp_leases_def revoke_runtime_generation_def less_Suc_eq_le)
    then show ?thesis
      using None still_parts(4) [of g i c] unfolding stop_move_def
      by (auto simp: join_settles_def finish_stop_call_def release_mcp_leases_def
          revoke_runtime_generation_def same_writes_def)
  next
    case (Some r)
    let ?c = "c\<lparr>sc_phase := Stopping_Second r, sc_attempted := sc_attempted c @ [r]\<rparr>"
    let ?h = "set_stop i ?c (call_runtime_stop r g)"
    have st: "still g ?h" by (rule still_trans [OF still_parts(1) still_parts(2)])
    have "call_calm ?h ?c" if "call_calm g c"
      using start [OF that] Some
      by (simp add: call_calm_def stop_owned_Some set_stop_def call_runtime_stop_def release_mcp_leases_def)
    then show ?thesis
      using Some st unfolding stop_move_def
      by (auto simp: join_settles_def set_stop_def call_runtime_stop_def release_mcp_leases_def same_writes_def)
  qed
qed

lemma second_move:
  assumes lo: "leases_ok g" and ph: "sc_phase c = Stopping_Second r"
  shows "stop_move i c g (second_stop_settles i c r err g) \<and> still g (second_stop_settles i c r err g) \<and>
    same_writes g (second_stop_settles i c r err g)"
proof -
  obtain c' h where n: "note_stop r err c g = (c', h)" by fastforce
  have eq: "second_stop_settles i c r err g = finish_stop_call i c' h" using n by (simp add: second_stop_settles_def)
  have "rested (finish_stop_call i c' h)" if "call_calm g c" "sc_failures c' = []"
  proof -
    have "err = None" using n that(2) by (auto simp: note_stop_def split: option.splits)
    then have "h = forget_live r g" using n by (simp add: note_stop_def)
    then show ?thesis
      using that(1) ph lo unfolding rested_def leases_ok_def
      by (auto simp: call_calm_def forget_live_def finish_stop_call_def release_mcp_leases_def
          revoke_runtime_generation_def less_Suc_eq_le)
  qed
  moreover have "still g (finish_stop_call i c' h)"
    by (rule still_trans [OF still_note [OF n] still_parts(4)])
  ultimately show ?thesis
    using note_fields [OF n] unfolding eq stop_move_def
    by (auto simp: finish_stop_call_def release_mcp_leases_def revoke_runtime_generation_def same_writes_def)
qed


subsection \<open>The invariant of the Agent\<close>

definition transition_ok :: "agent \<Rightarrow> converge \<Rightarrow> bool" where
  "transition_ok a c \<longleftrightarrow>
     (case cv_phase c of
        Cv_Stop k \<Rightarrow> cv_failures c = [] \<and>
          (\<exists>sc. map_of (rg_stops (ag_gen a)) k = Some sc \<and> call_calm (ag_gen a) sc)
      | Cv_Admissions \<Rightarrow> cv_failures c = [] \<longrightarrow> rested (ag_gen a)
      | Cv_Mutations \<Rightarrow> ag_tail a = [] \<and> (cv_failures c = [] \<longrightarrow> rested (ag_gen a))
      | Cv_Reports \<Rightarrow> ag_tail a = [] \<and> (cv_failures c = [] \<longrightarrow> rested (ag_gen a) \<and> ag_turns a = [])
      | _ \<Rightarrow> ag_tail a = [] \<and> ag_turns a = [] \<and> rested (ag_gen a))"

text \<open>Closed, and closed on disk without a start since.\<close>

definition over :: "agent \<Rightarrow> bool" where
  "over a \<longleftrightarrow>
     rested (ag_gen a) \<and> rg_writes (ag_gen a) = [] \<and> rg_writing (ag_gen a) = None \<and>
     ag_tail a = [] \<and> ag_turns a = [] \<and> ag_closed_status a \<and>
     (\<exists>t. ag_closed_at a = Some t \<and> ag_fact a = (if ag_lock a = None then Some t else None))"

definition untouched :: "agent \<Rightarrow> bool" where
  "untouched a \<longleftrightarrow>
     rg_live (ag_gen a) = None \<and> rg_start (ag_gen a) \<in> {Not_Starting, Reopening} \<and>
     rg_launched (ag_gen a) = [] \<and> rg_writes (ag_gen a) = [] \<and> rg_writing (ag_gen a) = None \<and>
     ag_tail a = [] \<and> ag_turns a = []"

definition gen_ok :: "generation \<Rightarrow> bool" where
  "gen_ok g \<longleftrightarrow> gen_inv g \<and> stops_ok g \<and> leases_ok g"

definition agent_inv :: "agent \<Rightarrow> bool" where
  "agent_inv a \<longleftrightarrow>
     gen_ok (ag_gen a) \<and>
     (\<forall>c. ag_transition a = Some c \<longrightarrow>
        ag_phase a = Ph_Closing \<and> cv_token c = ag_lock a \<and> transition_ok a c) \<and>
     (ag_phase a = Ph_Closed \<longrightarrow> over a) \<and>
     (ag_phase a \<noteq> Ph_Closed \<longrightarrow> ag_fact a = None) \<and>
     (ag_phase a = Ph_Active \<and> ag_closed_status a \<longrightarrow> untouched a) \<and>
     (ag_lock a \<noteq> None \<longrightarrow> ag_mutations a = [])"

lemma agent_inv_init: "agent_inv (agent_init native was_closed closed_at)"
  by (simp add: agent_inv_def agent_init_def gen_ok_def gen_inv_init untouched_def)
    (simp add: generation_init_def stops_ok_def leases_ok_def)

text \<open>Everything the invariant reads.\<close>

definition same_core :: "agent \<Rightarrow> agent \<Rightarrow> bool" where
  "same_core a a' \<longleftrightarrow>
     ag_gen a' = ag_gen a \<and> ag_phase a' = ag_phase a \<and> ag_closed_status a' = ag_closed_status a \<and>
     ag_closed_at a' = ag_closed_at a \<and> ag_lock a' = ag_lock a \<and> ag_transition a' = ag_transition a \<and>
     ag_fact a' = ag_fact a \<and> ag_tail a' = ag_tail a \<and> ag_turns a' = ag_turns a"

lemma transition_ok_cong:
  "ag_gen a' = ag_gen a \<Longrightarrow> ag_tail a' = ag_tail a \<Longrightarrow> ag_turns a' = ag_turns a \<Longrightarrow>
   transition_ok a' c = transition_ok a c"
  unfolding transition_ok_def by (simp only:)

lemma transition_ok_updates [simp]:
  "transition_ok (a\<lparr>ag_lock := x\<rparr>) c = transition_ok a c"
  "transition_ok (a\<lparr>ag_next_lock := n\<rparr>) c = transition_ok a c"
  "transition_ok (a\<lparr>ag_phase := p\<rparr>) c = transition_ok a c"
  "transition_ok (a\<lparr>ag_transition := v\<rparr>) c = transition_ok a c"
  "transition_ok (a\<lparr>ag_fact := f\<rparr>) c = transition_ok a c"
  "transition_ok (a\<lparr>ag_report_failure := e\<rparr>) c = transition_ok a c"
  "transition_ok (a\<lparr>ag_host := h\<rparr>) c = transition_ok a c"
  by (rule transition_ok_cong; simp)+

lemma agent_inv_core:
  assumes inv: "agent_inv a" and c: "same_core a a'" and m: "ag_lock a \<noteq> None \<Longrightarrow> ag_mutations a' = []"
  shows "agent_inv a'"
proof -
  have t: "transition_ok a' k = transition_ok a k" for k
    using c by (intro transition_ok_cong) (simp_all add: same_core_def)
  have o: "over a' = over a" "untouched a' = untouched a"
    using c by (simp_all add: same_core_def over_def untouched_def)
  have m': "ag_lock a' \<noteq> None \<longrightarrow> ag_mutations a' = []" using c m by (simp add: same_core_def)
  show ?thesis
    using inv c m' unfolding agent_inv_def same_core_def t o by presburger
qed

lemma set_task_core: "same_core a (set_task i f a)" "ag_mutations (set_task i f a) = ag_mutations a"
  by (simp_all add: same_core_def set_task_def)

lemma finish_task_core: "same_core a (finish_task i r a)"
  by (simp add: same_core_def finish_task_def)

lemma finish_task_inv: "agent_inv a \<Longrightarrow> agent_inv (finish_task i r a)"
  by (rule agent_inv_core [OF _ finish_task_core]) (auto simp: agent_inv_def finish_task_def)

lemma set_task_inv: "agent_inv a \<Longrightarrow> agent_inv (set_task i f a)"
  by (rule agent_inv_core [OF _ set_task_core(1)]) (auto simp: agent_inv_def set_task_def)

lemma at_phase_inv: "agent_inv a \<Longrightarrow> agent_inv (at_phase i p a)"
  by (simp add: at_phase_def set_task_inv)

lemma not_started_inv: "agent_inv a \<Longrightarrow> agent_inv (not_started i t a)"
  by (simp add: not_started_def finish_task_inv)

lemma refuse_inv: "agent_inv a \<Longrightarrow> agent_inv (refuse_call r a)"
  by (rule agent_inv_core) (auto simp: agent_inv_def refuse_call_def same_core_def)

lemma add_task_inv: "agent_inv a \<Longrightarrow> agent_inv (add_task t a)"
  by (rule agent_inv_core) (auto simp: agent_inv_def add_task_def same_core_def)

lemma enter_task_inv: "agent_inv a \<Longrightarrow> enter_ordinary_mutation a \<Longrightarrow> agent_inv (enter_task t a)"
  by (rule agent_inv_core)
    (auto simp: agent_inv_def enter_task_def add_task_def same_core_def enter_ordinary_mutation_def)

text \<open>A turn is only asked for while the Agent is active and its runtime lives.\<close>

lemma submit_turn_inv:
  assumes "agent_inv a"
  shows "agent_inv (submit_runtime_turn i a)"
proof (cases "rg_live (ag_gen a) = None \<or> ag_phase a \<noteq> Ph_Active")
  case True
  then show ?thesis using finish_task_inv assms by (auto simp: submit_runtime_turn_def)
next
  case False
  let ?a = "at_phase i Tp_Submitted a"
  have b: "agent_inv ?a" by (rule at_phase_inv [OF assms])
  have f: "ag_phase ?a = Ph_Active" "rg_live (ag_gen ?a) \<noteq> None"
    using False set_task_core(1) [of a i] by (simp_all add: at_phase_def same_core_def)
  then have "\<not> untouched ?a" by (auto simp: untouched_def)
  then have nc: "\<not> ag_closed_status ?a" and nt: "ag_transition ?a = None"
    using b f by (auto simp: agent_inv_def)
  have "agent_inv (?a\<lparr>ag_tail := xs\<rparr>)" for xs
    using b f nc nt unfolding agent_inv_def by simp
  then show ?thesis using False by (auto simp: submit_runtime_turn_def)
qed

lemma proceed_inv: "agent_inv a \<Longrightarrow> agent_inv (proceed i t a)"
  by (auto simp: proceed_def finish_task_inv at_phase_inv submit_turn_inv split: task_kind.splits)

lemma after_wait_inv: "agent_inv a \<Longrightarrow> agent_inv (after_wait i t res a)"
  by (auto simp: after_wait_def Let_def finish_task_inv at_phase_inv submit_turn_inv split: task_kind.splits)

lemma await_existing_inv: "agent_inv a \<Longrightarrow> agent_inv (await_existing i t a)"
  by (simp add: await_existing_def after_wait_inv at_phase_inv)


subsection \<open>The generation moves\<close>

lemma drop_transition_inv: "agent_inv a \<Longrightarrow> agent_inv (a\<lparr>ag_transition := None\<rparr>)"
  by (simp add: agent_inv_def over_def untouched_def)

lemma transition_ok_still:
  assumes "transition_ok a c" and "still (ag_gen a) g"
    and "\<And>k. cv_phase c = Cv_Stop k \<Longrightarrow> \<exists>sc. map_of (rg_stops g) k = Some sc \<and> call_calm g sc"
  shows "transition_ok (gen_moves g a) c"
  using assms rested_still [OF _ assms(2)]
  by (cases "cv_phase c") (simp_all add: transition_ok_def gen_moves_def)

lemma still_inv:
  assumes inv: "agent_inv a" and st: "still (ag_gen a) g" and ok: "gen_ok g"
    and w: "ag_phase a = Ph_Closed \<or> ag_phase a = Ph_Active \<and> ag_closed_status a \<Longrightarrow>
      rg_writes g = [] \<and> rg_writing g = None"
    and rows: "\<And>c k. ag_transition a = Some c \<Longrightarrow> cv_phase c = Cv_Stop k \<Longrightarrow>
      \<exists>sc. map_of (rg_stops g) k = Some sc \<and> call_calm g sc"
  shows "agent_inv (gen_moves g a)"
proof -
  have "transition_ok (gen_moves g a) c" if "ag_transition a = Some c" for c
    using inv that rows [OF that] by (intro transition_ok_still [OF _ st]) (auto simp: agent_inv_def)
  moreover have "over (gen_moves g a)" if "ag_phase a = Ph_Closed"
    using inv that w rested_still [OF _ st] by (simp add: agent_inv_def over_def gen_moves_def)
  moreover have "untouched (gen_moves g a)" if "ag_phase a = Ph_Active" "ag_closed_status a"
    using inv that w st by (auto simp: agent_inv_def untouched_def gen_moves_def still_def)
  ultimately show ?thesis using inv ok by (simp add: agent_inv_def gen_moves_def)
qed

lemma quiet_writes:
  "agent_inv a \<Longrightarrow> ag_phase a = Ph_Closed \<or> ag_phase a = Ph_Active \<and> ag_closed_status a \<Longrightarrow>
   rg_writes (ag_gen a) = [] \<and> rg_writing (ag_gen a) = None"
  by (auto simp: agent_inv_def over_def untouched_def)

lemma transition_row:
  "agent_inv a \<Longrightarrow> ag_transition a = Some c \<Longrightarrow> cv_phase c = Cv_Stop k \<Longrightarrow>
   \<exists>sc. map_of (rg_stops (ag_gen a)) k = Some sc \<and> call_calm (ag_gen a) sc"
  by (auto simp: agent_inv_def transition_ok_def)

text \<open>Moves that leave the stop calls alone.\<close>

lemma calm_rows:
  assumes "agent_inv a" and "calm (ag_gen a) g" and "rg_stops g = rg_stops (ag_gen a)"
    and "ag_transition a = Some c" "cv_phase c = Cv_Stop k"
  shows "\<exists>sc. map_of (rg_stops g) k = Some sc \<and> call_calm g sc"
  using transition_row [OF assms(1,4,5)] call_calm_moves assms(2,3) by metis

lemma gen_ok_still:
  "gen_ok g \<Longrightarrow> gen_inv g' \<Longrightarrow> still g g' \<Longrightarrow> rg_stops g' = rg_stops g \<Longrightarrow> rg_next_stop g' = rg_next_stop g \<Longrightarrow>
   gen_ok g'"
  using leases_still by (auto simp: gen_ok_def stops_ok_def)

lemma agent_gen_ok: "agent_inv a \<Longrightarrow> gen_ok (ag_gen a)"
  by (simp add: agent_inv_def)

text \<open>A new stop call.\<close>

lemma stop_runtime_fields:
  "\<exists>c. rg_stops (stop_runtime g) = AList.update (rg_next_stop g) c (rg_stops g) \<and>
     call_calm (stop_runtime g) c"
  "rg_next_stop (stop_runtime g) = Suc (rg_next_stop g)" "same_writes g (stop_runtime g\<lparr>rg_next_stop := rg_next_stop g\<rparr>)"
  "still g (stop_runtime g)"
proof -
  let ?g = "g\<lparr>rg_next_stop := Suc (rg_next_stop g)\<rparr>"
  let ?c = "\<lparr> sc_phase = join_start ?g, sc_attempted = [], sc_failures = [] \<rparr>"
  have "call_calm ?g ?c" by (simp add: call_calm_def join_start_def)
  moreover have "calm ?g (set_stop (rg_next_stop g) ?c ?g)" by (rule calm_set_stop)
  ultimately have none: "call_calm (set_stop (rg_next_stop g) ?c ?g) ?c" by (rule call_calm_moves)
  show "\<exists>c. rg_stops (stop_runtime g) = AList.update (rg_next_stop g) c (rg_stops g) \<and>
     call_calm (stop_runtime g) c"
  proof (cases "stop_owned ?c ?g")
    case None
    then show ?thesis using none by (auto simp: stop_runtime_def Let_def set_stop_def)
  next
    case (Some r)
    then show ?thesis
      by (auto simp: stop_runtime_def Let_def set_stop_def call_runtime_stop_def release_mcp_leases_def
          call_calm_def)
  qed
  show "rg_next_stop (stop_runtime g) = Suc (rg_next_stop g)"
    "same_writes g (stop_runtime g\<lparr>rg_next_stop := rg_next_stop g\<rparr>)" "still g (stop_runtime g)"
    by (auto simp: stop_runtime_def Let_def set_stop_def call_runtime_stop_def release_mcp_leases_def
        same_writes_def still_def split: option.splits)
qed

lemma gen_ok_stop: "gen_ok g \<Longrightarrow> gen_ok (stop_runtime g)"
proof -
  assume ok: "gen_ok g"
  obtain c where c: "rg_stops (stop_runtime g) = AList.update (rg_next_stop g) c (rg_stops g)"
    using stop_runtime_fields(1) by blast
  have "rg_next_stop g \<notin> fst ` set (rg_stops g)" using ok by (auto simp: gen_ok_def stops_ok_def)
  then show "gen_ok (stop_runtime g)"
    using ok stop_first_inv leases_still stop_runtime_fields(2,4) [of g]
    by (auto simp: gen_ok_def stops_ok_def c length_update_notin less_SucI)
qed

lemma stop_inv:
  assumes "agent_inv a"
  shows "agent_inv (gen_moves (stop_runtime (ag_gen a)) a)"
proof (rule still_inv [OF assms stop_runtime_fields(4) gen_ok_stop [OF agent_gen_ok [OF assms]]])
  let ?g = "ag_gen a"
  show "rg_writes (stop_runtime ?g) = [] \<and> rg_writing (stop_runtime ?g) = None"
    if "ag_phase a = Ph_Closed \<or> ag_phase a = Ph_Active \<and> ag_closed_status a"
    using quiet_writes [OF assms that] stop_runtime_fields(3) [of ?g] by (simp add: same_writes_def)
  fix c k assume t: "ag_transition a = Some c" "cv_phase c = Cv_Stop k"
  obtain sc where sc: "map_of (rg_stops ?g) k = Some sc" "call_calm ?g sc" using transition_row [OF assms t] by blast
  obtain c' where c': "rg_stops (stop_runtime ?g) = AList.update (rg_next_stop ?g) c' (rg_stops ?g)"
    using stop_runtime_fields(1) by blast
  have "k < rg_next_stop ?g"
    using agent_gen_ok [OF assms] map_of_SomeD [OF sc(1)] by (force simp: gen_ok_def stops_ok_def)
  then have "map_of (rg_stops (stop_runtime ?g)) k = Some sc" using sc(1) by (simp add: c' update_conv')
  then show "\<exists>sc. map_of (rg_stops (stop_runtime ?g)) k = Some sc \<and> call_calm (stop_runtime ?g) sc"
    using call_calm_moves [OF sc(2) calm_stop] by blast
qed


subsection \<open>Starting\<close>

lemma gen_idle_registry:
  "gen_inv g \<Longrightarrow> rg_live g = None \<Longrightarrow> (\<And>l. rg_start g \<noteq> Creating l) \<Longrightarrow>
   rg_registry g = [] \<and> registry_inv g \<and> base_inv g \<and> rg_tokens g = []"
  using idle_tokens registry_inv_idle by (auto simp: gen_inv_def base_inv_def)

lemma launch_gen_ok:
  assumes ok: "gen_ok g" and idle: "rg_live g = None" "\<And>l. rg_start g \<noteq> Creating l"
  shows "gen_ok (launch schema_ok refused mcp g)"
proof -
  have i: "rg_registry g = []" "registry_inv g" "base_inv g" "rg_tokens g = []"
    using gen_idle_registry [OF _ idle] ok by (auto simp: gen_ok_def)
  note f = launch_fields [OF i(2,1) refl, of schema_ok refused mcp]
  have "\<forall>l \<in> snd ` set (rg_launched g). l \<le> rg_lease (launch schema_ok refused mcp g)"
    using ok f(2) unfolding gen_ok_def leases_ok_def by (meson less_imp_le le_trans)
  then show ?thesis
    using ok launch_inv [OF i(3,4) idle(1)] f by (auto simp: gen_ok_def stops_ok_def leases_ok_def)
qed

lemma attempt_gen_ok:
  assumes "gen_ok g" and "rg_start g = Not_Starting" "rg_live g = None"
  shows "gen_ok (g\<lparr>rg_attempt := n\<rparr>)" "gen_ok (g\<lparr>rg_attempt := n, rg_start := Reopening\<rparr>)"
proof -
  have i: "rg_tokens g = []" "base_inv g" using gen_idle_registry [of g] assms by (auto simp: gen_ok_def)
  have b: "base_inv (g\<lparr>rg_attempt := n\<rparr>)" "base_inv (g\<lparr>rg_attempt := n, rg_start := Reopening\<rparr>)"
    by (rule base_inv_step [of g]; use i assms in \<open>simp add: base_inv_def start_inv_def registry_inv_def\<close>)+
  then show "gen_ok (g\<lparr>rg_attempt := n\<rparr>)" "gen_ok (g\<lparr>rg_attempt := n, rg_start := Reopening\<rparr>)"
    using assms i by (simp_all add: gen_ok_def gen_inv_def stops_ok_def leases_ok_def)
qed

lemma ensure_gen_ok:
  assumes "gen_ok g" and "rg_start g = Not_Starting" "rg_live g = None"
  shows "gen_ok (ensure_started schema_ok was_closed refused mcp g)"
  using assms attempt_gen_ok [OF assms] launch_gen_ok [OF attempt_gen_ok(1) [OF assms]]
  by (simp add: ensure_started_def Let_def)

lemma active_open:
  "agent_inv a \<Longrightarrow> ag_phase a = Ph_Active \<Longrightarrow> gen_ok g \<Longrightarrow> (ag_closed_status a \<Longrightarrow> untouched (gen_moves g a)) \<Longrightarrow>
   agent_inv (gen_moves g a)"
  by (auto simp: agent_inv_def gen_moves_def)

lemma ensure_agent_inv:
  assumes inv: "agent_inv a" and act: "ag_phase a = Ph_Active"
    and idle: "rg_start (ag_gen a) = Not_Starting" "rg_live (ag_gen a) = None"
  shows "agent_inv (gen_moves (ensure_started schema_ok (ag_closed_status a) refused mcp (ag_gen a)) a)"
proof (rule active_open [OF inv act ensure_gen_ok [OF agent_gen_ok [OF inv] idle]])
  assume "ag_closed_status a"
  then show "untouched (gen_moves (ensure_started schema_ok (ag_closed_status a) refused mcp (ag_gen a)) a)"
    using inv act idle by (simp add: agent_inv_def untouched_def gen_moves_def ensure_started_def Let_def)
qed

lemma ensure_runtime_inv:
  assumes inv: "agent_inv a" and ready: "agent_inv (ready a)"
  shows "agent_inv (ensure_runtime_started env ready i t a)"
proof -
  obtain schema_ok refused mcp where env: "env = (schema_ok, refused, mcp)" by (cases env) auto
  let ?g = "ensure_started schema_ok (ag_closed_status a) refused mcp (ag_gen a)"
  consider "ag_phase a \<noteq> Ph_Active" | "ag_phase a = Ph_Active" "rg_start (ag_gen a) \<noteq> Not_Starting"
    | "ag_phase a = Ph_Active" "rg_start (ag_gen a) = Not_Starting" "rg_live (ag_gen a) \<noteq> None"
    | "ag_phase a = Ph_Active" "rg_start (ag_gen a) = Not_Starting" "rg_live (ag_gen a) = None"
    by blast
  then show ?thesis
  proof cases
    case 4
    then have "agent_inv (a\<lparr>ag_gen := ?g\<rparr>)" using ensure_agent_inv [OF inv] by (simp add: gen_moves_def)
    then show ?thesis
      using 4 by (simp add: ensure_runtime_started_def env Let_def finish_task_inv at_phase_inv)
  qed (use inv ready in \<open>simp_all add: ensure_runtime_started_def env Let_def not_started_inv at_phase_inv\<close>)
qed

lemma start_admitted_inv: "agent_inv a \<Longrightarrow> agent_inv (start_admitted env i t a)"
  by (simp add: start_admitted_def ensure_runtime_inv proceed_inv)

lemma after_start_inv: "agent_inv a \<Longrightarrow> agent_inv (after_start env i t a)"
  by (auto simp: after_start_def Let_def proceed_inv finish_task_inv start_admitted_inv set_task_inv
      split: task_kind.splits bool.splits)

lemma start_task_inv: "agent_inv a \<Longrightarrow> agent_inv (start_task env i t a)"
  by (simp add: start_task_def ensure_runtime_inv after_start_inv)

lemma lose_race_inv: "agent_inv a \<Longrightarrow> agent_inv (lose_race i a)"
  using at_phase_inv [OF stop_inv] by (simp add: lose_race_def gen_moves_def)

lemma closing_inv:
  "agent_inv a \<Longrightarrow> ag_phase a \<noteq> Ph_Closed \<Longrightarrow> agent_inv (a\<lparr>ag_phase := Ph_Closing\<rparr>)"
  by (auto simp: agent_inv_def transition_ok_def split: converge_phase.splits)

text \<open>Resuming the tasks that waited keeps the phase from being closed.\<close>

lemma ensure_runtime_phase:
  "ag_phase (ready a) = ag_phase a \<Longrightarrow> ag_phase (ensure_runtime_started env ready i t a) = ag_phase a"
  by (simp add: ensure_runtime_started_def not_started_def finish_task_def at_phase_def set_task_def Let_def
      split: prod.splits)

lemma proceed_phase: "ag_phase (proceed i t a) = ag_phase a"
  by (simp add: proceed_def submit_runtime_turn_def finish_task_def at_phase_def set_task_def
      split: task_kind.splits)

lemma after_start_phase: "ag_phase (after_start env i t a) = ag_phase a"
  by (auto simp: after_start_def Let_def start_admitted_def ensure_runtime_phase proceed_phase
      finish_task_def set_task_def split: task_kind.splits bool.splits)

lemma resume_start_inv:
  assumes inv: "agent_inv a" and nc: "ag_phase a \<noteq> Ph_Closed"
  shows "agent_inv (resume_start env n res i a) \<and> ag_phase (resume_start env n res i a) \<noteq> Ph_Closed"
proof (cases "task_of i a")
  case None
  then show ?thesis using assms by (simp add: resume_start_def)
next
  case (Some t)
  consider (wait) "tk_phase t = Tp_Waiting n" | (start) "tk_phase t = Tp_Starting n"
    | (other) "tk_phase t \<noteq> Tp_Waiting n" "tk_phase t \<noteq> Tp_Starting n" by blast
  then show ?thesis
  proof cases
    case wait
    have "ag_phase (after_wait i t res a) = ag_phase a"
      by (simp add: after_wait_def Let_def submit_runtime_turn_def finish_task_def at_phase_def set_task_def
          split: task_kind.splits)
    then show ?thesis using wait Some after_wait_inv [OF inv] nc by (simp add: resume_start_def)
  next
    case start
    have lp: "ag_phase (lose_race i a) = ag_phase a"
      by (simp add: lose_race_def at_phase_def set_task_def)
    show ?thesis
      using start Some nc finish_task_inv [OF inv] finish_task_inv [OF closing_inv [OF inv nc]]
        lose_race_inv [OF inv] after_start_inv [OF inv] lp after_start_phase [of env i t a]
      by (cases res) (auto simp: resume_start_def finish_task_def)
  qed (use Some assms in \<open>simp add: resume_start_def\<close>)
qed

lemma attempt_ends_inv:
  assumes "agent_inv a" and "ag_phase a \<noteq> Ph_Closed"
  shows "agent_inv (attempt_ends env n res a)"
proof -
  have "agent_inv (fold (resume_start env n res) ns a) \<and> ag_phase (fold (resume_start env n res) ns a) \<noteq> Ph_Closed"
    for ns using assms by (induction ns arbitrary: a) (simp_all add: resume_start_inv)
  then show ?thesis by (simp add: attempt_ends_def)
qed


subsection \<open>Attempts end\<close>

text \<open>While an attempt runs the Agent is neither closed nor past the stop of its close.\<close>

lemma busy_inv:
  assumes inv: "agent_inv a" and busy: "rg_start (ag_gen a) \<noteq> Not_Starting"
    and op: "rg_start (ag_gen a) = Reopening \<Longrightarrow> ag_phase a \<noteq> Ph_Active \<or> \<not> ag_closed_status a"
    and c: "calm (ag_gen a) g" and ok: "gen_ok g" and same: "rg_stops g = rg_stops (ag_gen a)"
  shows "agent_inv (gen_moves g a) \<and> ag_phase (gen_moves g a) \<noteq> Ph_Closed"
proof -
  have nr: "\<not> rested (ag_gen a)" using busy by (simp add: rested_def)
  have "\<not> untouched a" if "ag_phase a = Ph_Active" "ag_closed_status a"
    using op that busy by (auto simp: untouched_def)
  then have active: "\<not> (ag_phase a = Ph_Active \<and> ag_closed_status a)" using inv by (auto simp: agent_inv_def)
  have closed: "ag_phase a \<noteq> Ph_Closed" using inv nr by (auto simp: agent_inv_def over_def)
  have "transition_ok (gen_moves g a) k" if t: "ag_transition a = Some k" for k
  proof -
    have old: "transition_ok a k" using inv t by (simp add: agent_inv_def)
    show ?thesis
      using old nr calm_rows [OF inv c same t]
      by (cases "cv_phase k") (auto simp: transition_ok_def gen_moves_def)
  qed
  then show ?thesis using inv ok active closed by (auto simp: agent_inv_def gen_moves_def)
qed

lemma create_gen_ok:
  assumes ok: "gen_ok g" and s: "rg_start g = Creating l"
  shows "gen_ok (create_settles l b g)" "rg_stops (create_settles l b g) = rg_stops g"
proof -
  show "rg_stops (create_settles l b g) = rg_stops g"
    by (simp add: create_settles_def Let_def abandon_fields)
  have "leases_ok (create_settles l b g)"
    using ok s by (auto simp: gen_ok_def leases_ok_def create_settles_def Let_def abandon_fields le_SucI)
  then show "gen_ok (create_settles l b g)"
    using ok create_inv [OF _ s] by (simp add: gen_ok_def stops_ok_def create_settles_def Let_def abandon_fields)
qed

lemma start_gen_ok:
  assumes ok: "gen_ok g" and s: "rg_start g = Starting_Runtime l r"
  shows "gen_ok (runtime_start_settles l r outcome g)"
    "rg_stops (runtime_start_settles l r outcome g) = rg_stops g"
  using ok start_settles_inv [OF _ s, of outcome]
  by (auto simp: gen_ok_def stops_ok_def leases_ok_def runtime_start_settles_def call_runtime_stop_def
      release_mcp_leases_def split: sum.splits)

lemma rollback_gen_ok:
  assumes ok: "gen_ok g" and s: "rg_start g = Rolling_Back l r"
  shows "gen_ok (rollback_settles r b g)" "rg_stops (rollback_settles r b g) = rg_stops g"
  using ok rollback_inv [OF _ s, of b]
  by (auto simp: gen_ok_def stops_ok_def leases_ok_def rollback_settles_def Let_def forget_live_def
      revoke_runtime_generation_def le_SucI)

lemma create_ends_inv:
  assumes inv: "agent_inv a" and s: "rg_start (ag_gen a) = Creating l"
  shows "agent_inv (create_ends env l ok a)"
proof -
  note g = create_gen_ok [OF agent_gen_ok [OF inv] s, of ok]
  have "agent_inv (gen_moves (create_settles l ok (ag_gen a)) a) \<and>
      ag_phase (gen_moves (create_settles l ok (ag_gen a)) a) \<noteq> Ph_Closed"
    by (rule busy_inv [OF inv _ _ calm_create [OF s] g]) (simp_all add: s)
  then show ?thesis using attempt_ends_inv by (cases ok) (simp_all add: create_ends_def Let_def)
qed

lemma start_ends_inv:
  assumes inv: "agent_inv a" and s: "rg_start (ag_gen a) = Starting_Runtime l r"
  shows "agent_inv (start_ends env l r outcome a)"
proof -
  note g = start_gen_ok [OF agent_gen_ok [OF inv] s, of outcome]
  have "agent_inv (gen_moves (runtime_start_settles l r outcome (ag_gen a)) a) \<and>
      ag_phase (gen_moves (runtime_start_settles l r outcome (ag_gen a)) a) \<noteq> Ph_Closed"
    by (rule busy_inv [OF inv _ _ calm_start [OF s] g]) (simp_all add: s)
  then show ?thesis using attempt_ends_inv by (cases outcome) (simp_all add: start_ends_def Let_def)
qed

lemma rollback_ends_inv:
  assumes inv: "agent_inv a" and s: "rg_start (ag_gen a) = Rolling_Back l r"
  shows "agent_inv (rollback_ends env r ok a)"
proof -
  note g = rollback_gen_ok [OF agent_gen_ok [OF inv] s, of ok]
  have "agent_inv (gen_moves (rollback_settles r ok (ag_gen a)) a) \<and>
      ag_phase (gen_moves (rollback_settles r ok (ag_gen a)) a) \<noteq> Ph_Closed"
    by (rule busy_inv [OF inv _ _ calm_rollback [OF s] g]) (simp_all add: s)
  then show ?thesis using attempt_ends_inv by (simp add: rollback_ends_def)
qed

lemma reopen_closed_status:
  "agent_inv a \<Longrightarrow> rg_start (ag_gen a) = Reopening \<Longrightarrow>
   agent_inv (a\<lparr>ag_closed_status := False, ag_closed_at := None\<rparr>)"
  by (auto simp: agent_inv_def over_def rested_def transition_ok_def split: converge_phase.splits)

lemma reopen_ends_inv:
  assumes inv: "agent_inv a" and s: "rg_start (ag_gen a) = Reopening"
  shows "agent_inv (reopen_ends env ok a)"
proof -
  obtain schema_ok refused mcp where env: "env = (schema_ok, refused, mcp)" by (cases env) auto
  let ?g = "reopen_settles schema_ok ok refused mcp (ag_gen a)"
  have live: "rg_live (ag_gen a) = None"
    using agent_gen_ok [OF inv] s by (simp add: gen_ok_def gen_inv_def base_inv_def start_inv_def)
  have go: "gen_ok (ag_gen a)" by (rule agent_gen_ok [OF inv])
  have nc: "ag_phase a \<noteq> Ph_Closed" using inv s by (auto simp: agent_inv_def over_def rested_def)
  show ?thesis
  proof (cases ok)
    case True
    let ?a = "a\<lparr>ag_closed_status := False, ag_closed_at := None\<rparr>"
    have l: "rg_attempt ?g = rg_attempt (ag_gen a) \<and> rg_lease (ag_gen a) \<le> rg_lease ?g \<and>
        rg_stops ?g = rg_stops (ag_gen a)"
      using gen_idle_registry [of "ag_gen a"] go live s True
        launch_fields [of "ag_gen a" ?g schema_ok refused mcp] by (simp add: gen_ok_def reopen_settles_def)
    have b: "agent_inv (gen_moves ?g ?a) \<and> ag_phase (gen_moves ?g ?a) \<noteq> Ph_Closed"
    proof (rule busy_inv [OF reopen_closed_status [OF inv s]])
      show "gen_ok ?g" using launch_gen_ok [OF go live] s True by (simp add: reopen_settles_def)
      show "calm (ag_gen ?a) ?g" using l s by (simp add: calm_def)
    qed (use l s in simp_all)
    then show ?thesis using True attempt_ends_inv by (simp add: reopen_ends_def env Let_def)
  next
    case False
    then have g: "?g = (ag_gen a)\<lparr>rg_start := Not_Starting\<rparr>" by (simp add: reopen_settles_def)
    have i: "base_inv (ag_gen a)" "rg_tokens (ag_gen a) = []"
      using gen_idle_registry [OF _ live] go s by (auto simp: gen_ok_def)
    have ok: "gen_ok ?g"
      using base_inv_unstart [OF i(1)] i(2) go by (simp add: g gen_ok_def gen_inv_def stops_ok_def leases_ok_def)
    have "agent_inv (gen_moves ?g a)"
    proof -
      have "transition_ok (gen_moves ?g a) k" if t: "ag_transition a = Some k" for k
      proof -
        have "transition_ok a k" using inv t by (simp add: agent_inv_def)
        then show ?thesis
          using s call_calm_moves [of "ag_gen a" _ ?g]
          by (cases "cv_phase k") (auto simp: transition_ok_def gen_moves_def rested_def g calm_def)
      qed
      moreover have "untouched (gen_moves ?g a)" if "ag_phase a = Ph_Active" "ag_closed_status a"
        using inv that by (simp add: agent_inv_def untouched_def gen_moves_def g)
      ultimately show ?thesis using inv ok nc by (auto simp: agent_inv_def gen_moves_def)
    qed
    then show ?thesis
      using False nc attempt_ends_inv by (simp add: reopen_ends_def env Let_def gen_moves_def)
  qed
qed


subsection \<open>Stop calls end\<close>

lemma resume_stop_inv: "agent_inv a \<Longrightarrow> agent_inv (resume_stop k failures i a)"
  by (simp add: resume_stop_def not_started_inv finish_task_inv split: option.splits)

lemma stop_ends_inv:
  assumes "agent_inv (a\<lparr>ag_transition := stopped_for k failures (ag_transition a)\<rparr>)"
  shows "agent_inv (stop_ends k failures a)"
proof -
  have "agent_inv (fold (resume_stop k failures) ns b)" if "agent_inv b" for ns b
    using that by (induction ns arbitrary: b) (simp_all add: resume_stop_inv)
  moreover have "agent_inv (a\<lparr>ag_host := stopped_for k failures (ag_host a),
      ag_transition := stopped_for k failures (ag_transition a)\<rparr>)"
    by (rule agent_inv_core [OF assms]) (use assms in \<open>auto simp: same_core_def agent_inv_def\<close>)
  ultimately show ?thesis by (simp add: stop_ends_def)
qed

lemma map_of_filter_keys: "k \<noteq> i \<Longrightarrow> map_of (filter (\<lambda>e. fst e \<noteq> i) al) k = map_of al k"
  by (induction al) auto

lemma stop_answered_inv:
  assumes inv: "agent_inv a" and mem: "(i, c) \<in> set (rg_stops (ag_gen a))" and gi: "gen_inv g"
    and mv: "stop_move i c (ag_gen a) g \<and> still (ag_gen a) g \<and> same_writes (ag_gen a) g"
  shows "agent_inv (stop_answered i g a)"
proof -
  let ?g = "ag_gen a"
  have st: "still ?g g" and w: "same_writes ?g g" using mv by auto
  have so: "stops_ok ?g" using agent_gen_ok [OF inv] by (simp add: gen_ok_def)
  have row: "map_of (rg_stops ?g) i = Some c" using so mem by (simp add: stops_ok_def)
  have quiet: "rg_writes g = [] \<and> rg_writing g = None"
    if "ag_phase a = Ph_Closed \<or> ag_phase a = Ph_Active \<and> ag_closed_status a"
    using quiet_writes [OF inv that] w by (simp add: same_writes_def)
  have lo: "leases_ok g" using leases_still [OF _ st] agent_gen_ok [OF inv] by (simp add: gen_ok_def)
  consider (moves) c' where "rg_stops g = AList.update i c' (rg_stops ?g)"
      "rg_stop_results g = rg_stop_results ?g" "call_calm ?g c \<longrightarrow> call_calm g c'"
    | (ends) failures where "rg_stops g = filter (\<lambda>e. fst e \<noteq> i) (rg_stops ?g)"
      "rg_stop_results g = rg_stop_results ?g @ [(i, failures)]" "call_calm ?g c \<and> failures = [] \<longrightarrow> rested g"
    using mv unfolding stop_move_def by blast
  then show ?thesis
  proof cases
    case moves
    have "stops_ok g"
      using so w distinct_keys_update [of "rg_stops ?g" i c'] update_subset [of i c' "rg_stops ?g"] mem
      by (fastforce simp: stops_ok_def same_writes_def moves(1))
    then have ok: "gen_ok g" using gi lo by (simp add: gen_ok_def)
    have "agent_inv (gen_moves g a)"
    proof (rule still_inv [OF inv st ok quiet])
      fix v k assume t: "ag_transition a = Some v" "cv_phase v = Cv_Stop k"
      obtain sc where sc: "map_of (rg_stops ?g) k = Some sc" "call_calm ?g sc"
        using transition_row [OF inv t] by blast
      show "\<exists>sc. map_of (rg_stops g) k = Some sc \<and> call_calm g sc"
        using sc row moves(3) call_calm_moves [OF sc(2) still_calm [OF st]]
        by (cases "k = i") (auto simp: moves(1) update_conv')
    qed
    then show ?thesis using moves(2) by (simp add: stop_answered_def Let_def gen_moves_def)
  next
    case ends
    have "stops_ok g"
      using so w distinct_keys_filter [of "rg_stops ?g" "\<lambda>e. fst e \<noteq> i"]
      by (auto simp: stops_ok_def same_writes_def ends(1))
    then have ok: "gen_ok g" using gi lo by (simp add: gen_ok_def)
    have base: "agent_inv (gen_moves g (a\<lparr>ag_transition := None\<rparr>))"
      by (rule still_inv [OF drop_transition_inv [OF inv]]) (use st ok quiet in simp_all)
    let ?b = "gen_moves g a"
    have kept: "transition_ok ?b v'"
      if t: "ag_transition a = Some v" and v': "stopped_for i failures (Some v) = Some v'" for v v'
    proof (cases "cv_phase v = Cv_Stop i")
      case True
      have old: "cv_failures v = []" "call_calm ?g c"
        using inv t True row by (auto simp: agent_inv_def transition_ok_def)
      have "v' = v\<lparr>cv_phase := Cv_Admissions, cv_failures := failures\<rparr>"
        using v' True old(1) by (auto simp: stopped_for_def)
      then show ?thesis using ends(3) old(2) by (simp add: transition_ok_def gen_moves_def)
    next
      case False
      then have "v' = v" using v' by (simp add: stopped_for_def)
      moreover have "transition_ok ?b v"
      proof (rule transition_ok_still [OF _ st])
        show "transition_ok a v" using inv t by (simp add: agent_inv_def)
        fix k assume k: "cv_phase v = Cv_Stop k"
        obtain sc where sc: "map_of (rg_stops ?g) k = Some sc" "call_calm ?g sc"
          using transition_row [OF inv t k] by blast
        have "k \<noteq> i" using k False by auto
        then have "map_of (rg_stops g) k = Some sc" using sc(1) by (simp add: ends(1) map_of_filter_keys)
        then show "\<exists>sc. map_of (rg_stops g) k = Some sc \<and> call_calm g sc"
          using call_calm_moves [OF sc(2) still_calm [OF st]] by blast
      qed
      ultimately show ?thesis by simp
    qed
    have "agent_inv (?b\<lparr>ag_transition := stopped_for i failures (ag_transition a)\<rparr>)"
    proof (cases "ag_transition a")
      case None
      then have "?b\<lparr>ag_transition := stopped_for i failures (ag_transition a)\<rparr> =
          gen_moves g (a\<lparr>ag_transition := None\<rparr>)"
        by (simp add: stopped_for_def gen_moves_def)
      then show ?thesis using base by simp
    next
      case (Some v)
      obtain v' where v': "stopped_for i failures (Some v) = Some v'" by (auto simp: stopped_for_def)
      have tok: "cv_token v' = cv_token v" using v' by (auto simp: stopped_for_def split: if_splits)
      have "transition_ok (?b\<lparr>ag_transition := Some v'\<rparr>) v'"
        using kept [OF Some v'] by (subst transition_ok_cong [of _ ?b]) simp_all
      then show ?thesis
        using base Some v' tok inv by (auto simp: agent_inv_def gen_moves_def over_def untouched_def)
    qed
    then have "agent_inv (stop_ends i failures ?b)"
      by (intro stop_ends_inv) (simp add: gen_moves_def)
    then show ?thesis using ends(2) by (simp add: stop_answered_def Let_def)
  qed
qed


subsection \<open>The other operations\<close>

lemma report_inv: "agent_inv a \<Longrightarrow> agent_inv (report_outcome recipient turn a)"
  by (rule agent_inv_core [of a])
    (auto simp: report_outcome_def same_core_def agent_inv_def split: option.splits)

lemma report_settles_inv: "agent_inv a \<Longrightarrow> agent_inv (report_settles err a)"
  by (rule agent_inv_core [of a]) (auto simp: report_settles_def same_core_def agent_inv_def)

lemma submit_input_inv: "agent_inv a \<Longrightarrow> agent_inv (submit_input env input intent recipient a)"
  using enter_task_inv start_task_inv finish_task_inv refuse_inv
  by (simp add: submit_input_def Let_def split: sum.splits)

lemma activate_inv: "agent_inv a \<Longrightarrow> agent_inv (activate env a)"
  using enter_task_inv start_task_inv refuse_inv by (simp add: activate_def Let_def)

lemma submit_locked_inv: "agent_inv a \<Longrightarrow> agent_inv (submit_locked env token a)"
  using add_task_inv start_task_inv refuse_inv by (simp add: submit_locked_def Let_def)

lemma prepare_inv: "agent_inv a \<Longrightarrow> agent_inv (prepare_completion a)"
  using enter_task_inv await_existing_inv refuse_inv by (simp add: prepare_completion_def Let_def)

lemma completion_inv: "agent_inv a \<Longrightarrow> agent_inv (submit_completion_input a)"
  using enter_task_inv await_existing_inv refuse_inv by (simp add: submit_completion_input_def Let_def)

lemma intent_settles_inv: "agent_inv a \<Longrightarrow> agent_inv (intent_settles i ok a)"
  by (simp add: intent_settles_def submit_turn_inv finish_task_inv)

text \<open>An admission is only attached while its tail is not drained.\<close>

lemma admission_inv:
  assumes inv: "agent_inv a" and tail: "ag_tail a = i # rest"
  shows "agent_inv (admission_continues i answer a)"
proof -
  have nt: "\<not> over a" "\<not> untouched a" using tail by (auto simp: over_def untouched_def)
  have "transition_ok (a\<lparr>ag_tail := rest, ag_turns := ts\<rparr>) c" if "transition_ok a c" for c ts
    using that tail by (cases "cv_phase c") (auto simp: transition_ok_def)
  then have moved: "agent_inv (a\<lparr>ag_tail := rest, ag_turns := ts\<rparr>)" for ts
    using inv nt unfolding agent_inv_def by auto
  have "a\<lparr>ag_tail := rest\<rparr> = a\<lparr>ag_tail := rest, ag_turns := ag_turns a\<rparr>" by simp
  then have "agent_inv (a\<lparr>ag_tail := rest\<rparr>)" using moved by metis
  then show ?thesis
    using moved tail by (cases answer) (simp_all add: admission_continues_def Let_def finish_task_inv)
qed

lemma turn_settles_inv:
  assumes "agent_inv a"
  shows "agent_inv (turn_settles i recipient a)"
proof -
  let ?a = "a\<lparr>ag_turns := filter (\<lambda>e. fst e \<noteq> i) (ag_turns a)\<rparr>"
  have "transition_ok ?a c" if "transition_ok a c" for c
    using that by (cases "cv_phase c") (auto simp: transition_ok_def)
  moreover have "over a \<longrightarrow> over ?a" "untouched a \<longrightarrow> untouched ?a" by (auto simp: over_def untouched_def)
  ultimately have "agent_inv ?a" using assms unfolding agent_inv_def by auto
  then show ?thesis by (simp add: turn_settles_def report_inv)
qed

lemma lock_inv: "agent_inv a \<Longrightarrow> agent_inv (lock_agent a)"
  by (auto simp: agent_inv_def lock_agent_def untouched_def)

lemma unlock_inv: "agent_inv a \<Longrightarrow> agent_inv (unlock_agent token a)"
  by (auto simp: agent_inv_def unlock_agent_def Let_def untouched_def over_def)

lemma start_converge_gen: "start_converge token a = (c, a') \<Longrightarrow> a' = gen_moves (stop_runtime (ag_gen a)) a"
  by (auto simp: start_converge_def gen_moves_def)

lemma stop_for_host_inv:
  assumes "agent_inv a"
  shows "agent_inv (stop_for_host a)"
proof (cases "ag_phase a \<noteq> Ph_Active \<or> ag_host a \<noteq> None")
  case False
  have "agent_inv (gen_moves (stop_runtime (ag_gen a)) a\<lparr>ag_host := h\<rparr>)" for h
    by (rule agent_inv_core [OF stop_inv [OF assms]])
      (use assms in \<open>auto simp: same_core_def agent_inv_def gen_moves_def\<close>)
  then show ?thesis using False by (simp add: stop_for_host_def start_converge_def gen_moves_def)
qed (use assms in \<open>simp add: stop_for_host_def\<close>)

lemma close_authorized_inv:
  assumes inv: "agent_inv a" and tok: "token = ag_lock a"
  shows "agent_inv (close_authorized token a)"
proof -
  consider (closed) "ag_phase a = Ph_Closed"
    | (shortcut) "ag_phase a = Ph_Active" "ag_closed_status a" "has_no_runtime_authority (ag_gen a)"
    | (joins) v where "ag_phase a = Ph_Closing" "ag_transition a = Some v"
    | (closes) "ag_phase a \<noteq> Ph_Closed" "ag_transition a = None"
      "\<not> (ag_phase a = Ph_Active \<and> ag_closed_status a \<and> has_no_runtime_authority (ag_gen a))"
    using inv by (cases "ag_transition a"; cases "ag_phase a") (auto simp: agent_inv_def)
  then show ?thesis
  proof cases
    case closed
    then show ?thesis using inv by (simp add: close_authorized_def)
  next
    case shortcut
    have "rested (ag_gen a)"
      using inv shortcut by (auto simp: agent_inv_def untouched_def rested_def has_no_runtime_authority_def)
    then show ?thesis
      using inv shortcut tok
      by (auto simp: close_authorized_def Let_def agent_inv_def untouched_def over_def split: option.splits)
  next
    case joins
    have "a\<lparr>ag_phase := Ph_Closing\<rparr> = a" using joins(1) by simp
    then have "close_authorized token a = a" using joins tok by (simp add: close_authorized_def Let_def)
    then show ?thesis using inv by simp
  next
    case closes
    let ?b = "a\<lparr>ag_phase := Ph_Closing\<rparr>" and ?g = "stop_runtime (ag_gen a)"
    let ?v = "\<lparr> cv_phase = Cv_Stop (rg_next_stop (ag_gen a)), cv_failures = [], cv_token = token \<rparr>"
    have b: "agent_inv (gen_moves ?g ?b)"
      using stop_inv [OF closing_inv [OF inv closes(1)]] by simp
    have "transition_ok (gen_moves ?g ?b) ?v"
      using stop_runtime_fields(1) [of "ag_gen a"] by (auto simp: transition_ok_def gen_moves_def update_Some_unfold)
    then have "transition_ok ((gen_moves ?g ?b)\<lparr>ag_transition := Some ?v\<rparr>) ?v"
      by (subst transition_ok_cong [of _ "gen_moves ?g ?b"]) simp_all
    then have "agent_inv ((gen_moves ?g ?b)\<lparr>ag_transition := Some ?v\<rparr>)"
      using b tok by (simp add: agent_inv_def gen_moves_def)
    moreover have "close_authorized token a = (gen_moves ?g ?b)\<lparr>ag_transition := Some ?v\<rparr>"
      using closes tok by (auto simp: close_authorized_def Let_def start_converge_def gen_moves_def)
    ultimately show ?thesis by simp
  qed
qed


lemma close_agent_inv: "agent_inv a \<Longrightarrow> agent_inv (close_agent note a)"
  by (auto simp: close_agent_def close_authorized_inv)

lemma close_locked_inv: "agent_inv a \<Longrightarrow> agent_inv (close_locked note token a)"
  by (auto simp: close_locked_def close_authorized_inv)

lemma host_inv: "agent_inv a \<Longrightarrow> agent_inv (a\<lparr>ag_host := h\<rparr>)"
  by (rule agent_inv_core [of a]) (auto simp: same_core_def agent_inv_def)

lemma report_failure_inv: "agent_inv a \<Longrightarrow> agent_inv (a\<lparr>ag_report_failure := e\<rparr>)"
  by (rule agent_inv_core [of a]) (auto simp: same_core_def agent_inv_def)

lemma converge_next_cases:
  "converge_next c a = (r, a') \<Longrightarrow> a' = a \<or> a' = a\<lparr>ag_report_failure := None\<rparr>"
  by (auto simp: converge_next_def split: converge_phase.splits)

lemma advance_host_inv:
  assumes "agent_inv a"
  shows "agent_inv (advance_host c a)"
proof -
  obtain r a' where n: "converge_next c a = (r, a')" by fastforce
  then have "agent_inv a'" using converge_next_cases [OF n] assms report_failure_inv by auto
  then show ?thesis using n host_inv by (cases r) (simp_all add: advance_host_def)
qed

lemma set_transition_inv:
  assumes "agent_inv a" and "ag_phase a = Ph_Closing" and "cv_token c = ag_lock a" and "transition_ok a c"
  shows "agent_inv (a\<lparr>ag_transition := Some c\<rparr>)"
  using assms by (simp add: agent_inv_def)

lemma transition_facts:
  "agent_inv a \<Longrightarrow> ag_transition a = Some c \<Longrightarrow>
   ag_phase a = Ph_Closing \<and> cv_token c = ag_lock a \<and> transition_ok a c"
  by (simp add: agent_inv_def)

lemma advance_transition_inv:
  assumes inv: "agent_inv a" and t: "ag_transition a = Some c" and ready: "converge_ready c a"
  shows "agent_inv (advance_transition cleanup c a)"
proof -
  note f = transition_facts [OF inv t]
  obtain r a' where n: "converge_next c a = (r, a')" by fastforce
  have a': "agent_inv a'" "ag_phase a' = Ph_Closing" "ag_lock a' = ag_lock a" "\<And>k. transition_ok a' k = transition_ok a k"
    using converge_next_cases [OF n] inv report_failure_inv f by auto
  show ?thesis
  proof (cases r)
    case (Inl c')
    have "transition_ok a c' \<and> cv_token c' = cv_token c"
      using n Inl f ready
      by (cases "cv_phase c") (auto simp: converge_next_def converge_ready_def transition_ok_def)
    then have "agent_inv (a'\<lparr>ag_transition := Some c'\<rparr>)"
      using set_transition_inv [OF a'(1,2)] f a'(3,4) by simp
    then show ?thesis using n Inl by (simp add: advance_transition_def)
  next
    case (Inr failures)
    show ?thesis
    proof (cases "failures = []")
      case False
      then show ?thesis using n Inr drop_transition_inv [OF a'(1)] by (simp add: advance_transition_def)
    next
      case True
      let ?c = "c\<lparr>cv_phase := if cleanup then Cv_Cleanup else Cv_Record\<rparr>"
      have "transition_ok a ?c"
        using n Inr True f ready
        by (cases "cv_phase c") (auto simp: converge_next_def converge_ready_def transition_ok_def)
      then have "agent_inv (a'\<lparr>ag_transition := Some ?c\<rparr>)"
        using set_transition_inv [OF a'(1,2), of ?c] f a'(3,4) by simp
      then show ?thesis using n Inr True by (simp add: advance_transition_def)
    qed
  qed
qed

lemma cleanup_inv:
  assumes inv: "agent_inv a" and t: "ag_transition a = Some c" and ph: "cv_phase c = Cv_Cleanup"
  shows "agent_inv (cleanup_settles ok c a)"
proof -
  note f = transition_facts [OF inv t]
  then have "agent_inv (a\<lparr>ag_transition := Some (c\<lparr>cv_phase := Cv_Record\<rparr>)\<rparr>)"
    using ph by (intro set_transition_inv [OF inv]) (auto simp: transition_ok_def)
  then show ?thesis using drop_transition_inv [OF inv] by (simp add: cleanup_settles_def)
qed

lemma record_inv:
  assumes inv: "agent_inv a" and t: "ag_transition a = Some c" and ph: "cv_phase c = Cv_Record"
    and w: "rg_writing (ag_gen a) = None" "rg_writes (ag_gen a) = []"
  shows "agent_inv (record_settles ok now c a)"
proof (cases ok)
  case False
  then show ?thesis using drop_transition_inv [OF inv] by (simp add: record_settles_def Let_def)
next
  case True
  have "ag_tail a = [] \<and> ag_turns a = [] \<and> rested (ag_gen a) \<and> ag_fact a = None \<and> cv_token c = ag_lock a"
    using transition_facts [OF inv t] inv ph by (auto simp: transition_ok_def agent_inv_def)
  then show ?thesis
    using True inv w by (auto simp: record_settles_def Let_def agent_inv_def over_def)
qed

text \<open>The state lease, after the runtime is gone.\<close>

lemma old_lease_inert:
  assumes "agent_inv a" and "ag_phase a = Ph_Closed \<or> ag_phase a = Ph_Active \<and> ag_closed_status a"
    and "lease_issued (ag_gen a) lease"
  shows "\<not> current_lease (ag_gen a) lease"
  using assms
  by (auto simp: agent_inv_def over_def untouched_def rested_def lease_issued_def current_lease_def)

lemma lease_step_inv:
  assumes inv: "agent_inv a" and gi: "gen_inv g" and st: "still (ag_gen a) g"
    and same: "rg_stops g = rg_stops (ag_gen a)" "rg_next_stop g = rg_next_stop (ag_gen a)"
    and w: "ag_phase a = Ph_Closed \<or> ag_phase a = Ph_Active \<and> ag_closed_status a \<Longrightarrow>
      rg_writes g = [] \<and> rg_writing g = None"
  shows "agent_inv (gen_moves g a)"
proof (rule still_inv [OF inv st _ w])
  show "gen_ok g" by (rule gen_ok_still [OF agent_gen_ok [OF inv] gi st same])
qed (use calm_rows [OF inv still_calm [OF st] same(1)] in blast)+

lemma publish_inv:
  assumes inv: "agent_inv a" and issued: "lease_issued (ag_gen a) lease"
  shows "agent_inv (gen_moves (snd (publish lease u (ag_gen a))) a)"
proof (rule lease_step_inv [OF inv])
  have gi: "gen_inv (ag_gen a)" using agent_gen_ok [OF inv] by (simp add: gen_ok_def)
  show "gen_inv (snd (publish lease u (ag_gen a)))" by (rule quiet_inv [OF gi]) (simp_all add: publish_def)
  show "rg_writes (snd (publish lease u (ag_gen a))) = [] \<and> rg_writing (snd (publish lease u (ag_gen a))) = None"
    if "ag_phase a = Ph_Closed \<or> ag_phase a = Ph_Active \<and> ag_closed_status a"
    using old_lease_inert [OF inv that issued] quiet_writes [OF inv that] by (simp add: publish_def)
qed (simp_all add: publish_def still_def)

lemma dequeue_inv:
  assumes inv: "agent_inv a"
  shows "agent_inv (gen_moves (write_begins (ag_gen a)) a)"
proof (rule lease_step_inv [OF inv])
  have gi: "gen_inv (ag_gen a)" using agent_gen_ok [OF inv] by (simp add: gen_ok_def)
  show "gen_inv (write_begins (ag_gen a))"
    by (rule quiet_inv [OF gi]) (simp_all add: write_begins_def split: list.splits prod.splits)
  show "rg_writes (write_begins (ag_gen a)) = [] \<and> rg_writing (write_begins (ag_gen a)) = None"
    if "ag_phase a = Ph_Closed \<or> ag_phase a = Ph_Active \<and> ag_closed_status a"
    using quiet_writes [OF inv that] by (simp add: write_begins_def)
qed (simp_all add: write_begins_def still_def split: list.splits prod.splits)

lemma event_inv:
  assumes inv: "agent_inv a"
  shows "agent_inv (gen_moves (runtime_event lease e (ag_gen a)) a)"
proof (rule lease_step_inv [OF inv])
  have gi: "gen_inv (ag_gen a)" using agent_gen_ok [OF inv] by (simp add: gen_ok_def)
  show "gen_inv (runtime_event lease e (ag_gen a))" by (rule quiet_inv [OF gi]) (simp_all add: runtime_event_def)
  show "rg_writes (runtime_event lease e (ag_gen a)) = [] \<and> rg_writing (runtime_event lease e (ag_gen a)) = None"
    if "ag_phase a = Ph_Closed \<or> ag_phase a = Ph_Active \<and> ag_closed_status a"
    using quiet_writes [OF inv that] by (simp add: runtime_event_def)
qed (simp_all add: runtime_event_def still_def)

lemma publish_ends_inv:
  assumes inv: "agent_inv a"
  shows "agent_inv (publish_ends ok a)"
proof (cases "rg_writing (ag_gen a)")
  case None
  then have "publish_ends ok a = gen_moves (ag_gen a) a" by (simp add: publish_ends_def publish_settles_def)
  then show ?thesis using inv by (simp add: gen_moves_def)
next
  case (Some w)
  obtain lease u where w: "w = (lease, u)" by fastforce
  let ?g = "publish_settles ok (ag_gen a)"
  have open_phase: "\<not> (ag_phase a = Ph_Closed \<or> ag_phase a = Ph_Active \<and> ag_closed_status a)"
    using quiet_writes [OF inv] Some by auto
  have gi: "gen_inv (ag_gen a)" using agent_gen_ok [OF inv] by (simp add: gen_ok_def)
  have g: "agent_inv (gen_moves ?g a)"
  proof (rule lease_step_inv [OF inv])
    show "gen_inv ?g"
      by (rule quiet_inv [OF gi])
        (simp_all add: publish_settles_def Let_def split: option.splits prod.splits state_update.splits)
  qed (use open_phase in \<open>simp_all add: publish_settles_def Let_def still_def
      split: option.splits prod.splits state_update.splits\<close>)
  have "transition_ok (gen_moves ?g (a\<lparr>ag_closed_status := False\<rparr>)) c = transition_ok (gen_moves ?g a) c" for c
    by (rule transition_ok_cong) (simp_all add: gen_moves_def)
  then have "agent_inv (gen_moves ?g (a\<lparr>ag_closed_status := False\<rparr>))"
    using g open_phase unfolding agent_inv_def by (simp add: gen_moves_def)
  then show ?thesis using g Some w by (cases ok; cases u) (simp_all add: publish_ends_def)
qed

lemma agent_step_inv: "agent_step a a' \<Longrightarrow> agent_inv a \<Longrightarrow> agent_inv a'"
proof (induction rule: agent_step.induct)
  case (gen_first i c a r err)
  have g: "gen_inv (ag_gen a)" using agent_gen_ok [OF gen_first(3)] by (simp add: gen_ok_def)
  show ?case
    by (rule stop_answered_inv [OF gen_first(3,1) first_settles_inv [OF g gen_first(1,2)] first_move])
next
  case (gen_join i c a k)
  have g: "gen_inv (ag_gen a)" "leases_ok (ag_gen a)" using agent_gen_ok [OF gen_join(4)] by (simp_all add: gen_ok_def)
  show ?case
    by (rule stop_answered_inv [OF gen_join(4,1) join_inv [OF g(1) gen_join(1,2)]
          join_move [OF g gen_join(1,2,3)]])
next
  case (gen_second i c a r err)
  have g: "gen_inv (ag_gen a)" "leases_ok (ag_gen a)" using agent_gen_ok [OF gen_second(3)] by (simp_all add: gen_ok_def)
  show ?case
    by (rule stop_answered_inv [OF gen_second(3,1) second_settles_inv [OF g(1) gen_second(1,2)]
          second_move [OF g(2) gen_second(2)]])
qed (simp_all add: submit_input_inv submit_locked_inv activate_inv prepare_inv completion_inv finish_task_inv
    intent_settles_inv admission_inv turn_settles_inv native_result_def report_inv report_settles_inv
    lock_inv unlock_inv stop_for_host_inv close_agent_inv close_locked_inv advance_host_inv
    advance_transition_inv cleanup_inv record_inv reopen_ends_inv create_ends_inv start_ends_inv
    rollback_ends_inv publish_inv dequeue_inv publish_ends_inv event_inv)

lemma agent_reach_inv: "agent_reach a \<Longrightarrow> agent_inv a"
  by (induction rule: agent_reach.induct) (simp_all add: agent_inv_init agent_step_inv)


subsection \<open>Closed for good\<close>

lemma start_task_phase: "ag_phase (start_task env i t a) = ag_phase a"
  by (simp add: start_task_def ensure_runtime_phase after_start_phase)

lemma await_phase: "ag_phase (await_existing i t a) = ag_phase a"
  by (simp add: await_existing_def after_wait_def Let_def submit_runtime_turn_def finish_task_def at_phase_def
      set_task_def split: task_kind.splits)

lemma stop_ends_phase: "ag_phase (stop_ends k failures a) = ag_phase a"
proof -
  have one: "ag_phase (resume_stop k failures i b) = ag_phase b" for i b
    by (simp add: resume_stop_def not_started_def finish_task_def split: option.splits)
  have "ag_phase (fold (resume_stop k failures) ns b) = ag_phase b" for ns b
    by (induction ns arbitrary: b) (simp_all add: one)
  then show ?thesis by (simp add: stop_ends_def)
qed

lemma stop_answered_phase: "ag_phase (stop_answered i g a) = ag_phase a"
  by (simp add: stop_answered_def Let_def gen_moves_def stop_ends_phase split: option.splits)

lemma report_phase: "ag_phase (report_outcome r t a) = ag_phase a"
  by (simp add: report_outcome_def split: option.splits)

lemma task_phases:
  "ag_phase (add_task t a) = ag_phase a" "ag_phase (enter_task t a) = ag_phase a"
  "ag_phase (refuse_call r a) = ag_phase a" "ag_phase (finish_task i res a) = ag_phase a"
  by (simp_all add: add_task_def enter_task_def refuse_call_def finish_task_def)

lemma submit_turn_phase: "ag_phase (submit_runtime_turn i a) = ag_phase a"
  by (simp add: submit_runtime_turn_def finish_task_def at_phase_def set_task_def)

lemma advance_host_phase: "ag_phase (advance_host c a) = ag_phase a"
  by (simp add: advance_host_def converge_next_def split: converge_phase.splits)

lemmas phase_simps = start_task_phase await_phase stop_answered_phase report_phase task_phases
  submit_turn_phase advance_host_phase gen_moves_def Let_def

lemma closed_stays:
  assumes inv: "agent_inv a" and closed: "ag_phase a = Ph_Closed" and step: "agent_step a a'"
  shows "ag_phase a' = Ph_Closed"
proof -
  have o: "rg_start (ag_gen a) = Not_Starting" "ag_transition a = None"
    using inv closed by (auto simp: agent_inv_def over_def rested_def)
  from step show ?thesis
    by cases (use o closed in \<open>simp_all add: phase_simps submit_input_def submit_locked_def activate_def
        prepare_completion_def submit_completion_input_def intent_settles_def admission_continues_def
        turn_settles_def native_result_def report_settles_def lock_agent_def unlock_agent_def
        stop_for_host_def close_agent_def close_locked_def close_authorized_def publish_ends_def
        split: sum.splits runtime_answer.splits option.splits prod.splits state_update.splits\<close>)
qed

text \<open>
  C23. A closed Agent is over.  Whatever inputs, completions, activations, stops and runtime
  answers were interleaved with its close: once the Agent is closed no runtime is live or being
  started, no tool call reaches a delegate, no lease a runtime was handed can write its record,
  no admission and no turn is left, the record says closed, and the closed fact is published
  exactly if no lock holds it back.  No later step takes the Agent out of that state.
\<close>
theorem closed_agent_is_over:
  assumes "agent_reach a" and "ag_phase a = Ph_Closed"
  shows "has_no_runtime_authority (ag_gen a) \<and>
    (\<forall>token tool d. invoke (current_lease (ag_gen a)) (rg_registry (ag_gen a)) token tool \<noteq> Enter d) \<and>
    (\<forall>lease u. lease_issued (ag_gen a) lease \<longrightarrow>
       publish lease u (ag_gen a) = (Pub_Lease_Revoked, ag_gen a)) \<and>
    ag_tail a = [] \<and> ag_turns a = [] \<and> ag_closed_status a \<and>
    (\<exists>t. ag_closed_at a = Some t \<and> ag_fact a = (if is_retired a then Some t else None)) \<and>
    (\<forall>a'. agent_step a a' \<longrightarrow> ag_phase a' = Ph_Closed)"
proof -
  have inv: "agent_inv a" by (rule agent_reach_inv [OF assms(1)])
  have o: "over a" using inv assms(2) by (simp add: agent_inv_def)
  have "rg_registry (ag_gen a) = []"
    using gen_idle_registry [of "ag_gen a"] agent_gen_ok [OF inv] o by (simp add: gen_ok_def over_def rested_def)
  then have "\<forall>token tool d. invoke (current_lease (ag_gen a)) (rg_registry (ag_gen a)) token tool \<noteq> Enter d"
    by (simp add: invoke_Enter)
  moreover have "publish lease u (ag_gen a) = (Pub_Lease_Revoked, ag_gen a)" if "lease_issued (ag_gen a) lease" for lease u
    using old_lease_inert [OF inv _ that] assms(2) by (simp add: publish_def)
  moreover have "has_no_runtime_authority (ag_gen a)"
    using o by (simp add: over_def rested_def has_no_runtime_authority_def)
  moreover have "\<exists>t. ag_closed_at a = Some t \<and> ag_fact a = (if is_retired a then Some t else None)"
    using o assms(2) by (auto simp: over_def is_retired_def)
  ultimately show ?thesis
    using o closed_stays [OF inv assms(2)] unfolding over_def by blast
qed

text \<open>An input in flight, its turn, and a close.\<close>

definition busy_env :: launch_env where
  "busy_env = ((\<lambda>_. True), None, demo_offer)"

definition busy_start :: agent where
  "busy_start = start_ends busy_env 1 0 (Inr ''fresh'') (create_ends busy_env 1 True
     (submit_input busy_env quoting_input False (Some 9) (agent_init None False None)))"

definition busy_closing :: agent where
  "busy_closing = turn_settles 0 (Some 9)
     (close_agent ''finished'' (admission_continues 0 Ra_Submitted busy_start))"

definition busy_stopped :: agent where
  "busy_stopped =
     (let a = busy_closing; c = snd (hd (rg_stops (ag_gen a)));
          b = stop_answered 0 (first_stop_settles 0 c 0 None (ag_gen a)) a
      in stop_answered 0 (join_settles 0 (snd (hd (rg_stops (ag_gen b)))) (ag_gen b)) b)"

definition busy_closed :: agent where
  "busy_closed =
     (let adv = (\<lambda>a. advance_transition False (the (ag_transition a)) a); r = adv (adv (adv busy_stopped))
      in record_settles True 7 (the (ag_transition r)) r)"


lemma busy_start_reach: "agent_reach busy_start"
proof -
  let ?a = "submit_input busy_env quoting_input False (Some 9) (agent_init None False None)"
  let ?b = "create_ends busy_env 1 True ?a"
  have a: "agent_reach ?a" by (rule agent_reach.step [OF agent_reach.init agent_step.input])
  have "rg_start (ag_gen ?a) = Creating 1" by code_simp
  then have b: "agent_reach ?b" by (rule agent_reach.step [OF a agent_step.gen_created])
  have "rg_start (ag_gen ?b) = Starting_Runtime 1 0" by code_simp
  then show ?thesis unfolding busy_start_def by (rule agent_reach.step [OF b agent_step.gen_started])
qed

lemma busy_closing_reach: "agent_reach busy_closing"
proof -
  let ?a = "admission_continues 0 Ra_Submitted busy_start"
  have "ag_tail busy_start = 0 # []" by code_simp
  then have "agent_reach ?a" by (rule agent_reach.step [OF busy_start_reach agent_step.admitted])
  then have b: "agent_reach (close_agent ''finished'' ?a)" by (rule agent_reach.step [OF _ agent_step.close_call])
  have "(0, Some 9) \<in> set (ag_turns (close_agent ''finished'' ?a))" by code_simp
  then show ?thesis unfolding busy_closing_def by (rule agent_reach.step [OF b agent_step.settled])
qed

lemma busy_stopped_reach: "agent_reach busy_stopped"
proof -
  let ?c = "snd (hd (rg_stops (ag_gen busy_closing)))"
  let ?b = "stop_answered 0 (first_stop_settles 0 ?c 0 None (ag_gen busy_closing)) busy_closing"
  let ?d = "snd (hd (rg_stops (ag_gen ?b)))"
  have "(0, ?c) \<in> set (rg_stops (ag_gen busy_closing))" "sc_phase ?c = Stopping_First 0" by code_simp+
  then have b: "agent_reach ?b" by (rule agent_reach.step [OF busy_closing_reach agent_step.gen_first])
  have "(0, ?d) \<in> set (rg_stops (ag_gen ?b))" "sc_phase ?d = Joining None" by code_simp+
  moreover have "joined None (ag_gen ?b)" by (simp add: joined_def)
  ultimately show ?thesis unfolding busy_stopped_def Let_def
    by (rule agent_reach.step [OF b agent_step.gen_join])
qed

lemma converges:
  "agent_reach a \<Longrightarrow> ag_transition a = Some c \<Longrightarrow> converge_ready c a \<Longrightarrow>
   agent_reach (advance_transition False (the (ag_transition a)) a)"
  by (auto intro: agent_reach.step agent_step.close_converges)

lemma busy_stopped_state:
  "let a = busy_stopped in
     (ag_transition a, ag_tail a, ag_mutations a, ag_turns a, ag_reports a, ag_report_failure a,
      rg_writing (ag_gen a), rg_writes (ag_gen a)) =
     (Some \<lparr> cv_phase = Cv_Admissions, cv_failures = [], cv_token = None \<rparr>, [], [], [], 0, None, None, [])"
  by code_simp

lemma busy_closed_reach: "agent_reach busy_closed" "ag_phase busy_closed = Ph_Closed" "ag_fact busy_closed = Some 7"
proof -
  let ?adv = "\<lambda>a. advance_transition False (the (ag_transition a)) a"
  let ?v = "\<lambda>p. \<lparr> cv_phase = p, cv_failures = [], cv_token = None \<rparr>"
  let ?a = busy_stopped and ?b = "?adv busy_stopped"
  let ?c = "?adv ?b" and ?d = "?adv (?adv ?b)"
  note s = busy_stopped_state [unfolded Let_def prod.inject]
  have b: "?b = ?a\<lparr>ag_transition := Some (?v Cv_Mutations)\<rparr>"
    using s by (simp add: advance_transition_def converge_next_def)
  have c: "?c = ?a\<lparr>ag_transition := Some (?v Cv_Reports)\<rparr>"
    using s unfolding b by (simp add: advance_transition_def converge_next_def)
  have d: "?d = ?a\<lparr>ag_report_failure := None, ag_transition := Some (?v Cv_Record)\<rparr>"
    using s unfolding c by (simp add: advance_transition_def converge_next_def)
  have closed: "busy_closed = record_settles True 7 (?v Cv_Record) ?d"
    unfolding busy_closed_def Let_def d by simp
  have "agent_reach ?b"
    by (rule converges [OF busy_stopped_reach, of "?v Cv_Admissions"]) (use s in \<open>simp_all add: converge_ready_def\<close>)
  moreover have "ag_transition ?b = Some (?v Cv_Mutations)" "converge_ready (?v Cv_Mutations) ?b"
    unfolding b using s by (simp_all add: converge_ready_def)
  ultimately have "agent_reach ?c" by (rule converges)
  moreover have "ag_transition ?c = Some (?v Cv_Reports)" "converge_ready (?v Cv_Reports) ?c"
    unfolding c using s by (simp_all add: converge_ready_def)
  ultimately have "agent_reach ?d" by (rule converges)
  moreover have "ag_transition ?d = Some (?v Cv_Record)" "cv_phase (?v Cv_Record) = Cv_Record"
      "rg_writing (ag_gen ?d) = None" "rg_writes (ag_gen ?d) = []"
    unfolding d using s by simp_all
  ultimately show "agent_reach busy_closed"
    unfolding closed by (rule agent_reach.step [OF _ agent_step.recorded])
  show "ag_phase busy_closed = Ph_Closed" "ag_fact busy_closed = Some 7"
    unfolding closed d by (simp_all add: record_settles_def)
qed

theorem closed_agent_is_over_witness:
  "ag_phase busy_closed = Ph_Closed \<and> ag_fact busy_closed = Some 7 \<and>
   has_no_runtime_authority (ag_gen busy_closed)"
  using closed_agent_is_over [OF busy_closed_reach(1,2)] busy_closed_reach(2,3) by blast

end
