(* ===== verification/Entity_Names.thy ===== *)
theory Entity_Names
  imports Prelude
begin

text \<open>
  The names of Teams and Agents: \<^verbatim>\<open>packages/dreamux/src/service/name-allocator.ts\<close>, which builds a name from a
  base and a random suffix, the rule of \<^verbatim>\<open>service/agent/identity.ts\<close> a name must pass, and
  \<^verbatim>\<open>AgentNameRegistry\<close> of \<^verbatim>\<open>service/agent/store.ts\<close>, which allocates a name no Agent of the dispatcher
  has.  Random bytes are arguments; the directories are given as the lists their readers return.
\<close>

subsection \<open>The rule\<close>

definition lower_letters :: string where
  "lower_letters = ''abcdefghijklmnopqrstuvwxyz''"

definition upper_letters :: string where
  "upper_letters = ''ABCDEFGHIJKLMNOPQRSTUVWXYZ''"

definition digit_chars :: string where
  "digit_chars = ''0123456789''"

definition alnum :: "char \<Rightarrow> bool" where
  "alnum c \<longleftrightarrow> c \<in> set lower_letters \<or> c \<in> set upper_letters \<or> c \<in> set digit_chars"

definition TEAMMATE_NAME_PATTERN :: "string \<Rightarrow> bool" where
  "TEAMMATE_NAME_PATTERN s =
     (case s of
        [] \<Rightarrow> False
      | c # cs \<Rightarrow> alnum c \<and> length cs \<le> 63 \<and> list_all (\<lambda>x. alnum x \<or> x \<in> set ''._-'') cs)"

definition RESERVED_AGENT_NAME_SEGMENTS :: "string list" where
  "RESERVED_AGENT_NAME_SEGMENTS =
     [''dispatcher'', ''identities'', ''records'', ''turns'', ''history'', ''sessions'', ''ledger'']"

datatype name_rule = Bad_Entity_Name string | Reserved_Entity_Name string

definition assert_not_reserved :: "string \<Rightarrow> name_rule + unit" where
  "assert_not_reserved s =
     (if map to_lower s \<in> set RESERVED_AGENT_NAME_SEGMENTS then Inl (Reserved_Entity_Name s) else Inr ())"

definition validate_agent_entity_name :: "string \<Rightarrow> name_rule + string" where
  "validate_agent_entity_name s =
     (if \<not> TEAMMATE_NAME_PATTERN s then Inl (Bad_Entity_Name s)
      else bind_res (assert_not_reserved s) (\<lambda>_. Inr s))"

subsection \<open>Building a name\<close>

definition CONCRETE_NAME_MAX :: nat where "CONCRETE_NAME_MAX = 64"
definition NAME_SUFFIX_MIN_LENGTH :: nat where "NAME_SUFFIX_MIN_LENGTH = 4"
definition NAME_SUFFIX_MAX_LENGTH :: nat where "NAME_SUFFIX_MAX_LENGTH = 8"
definition NAME_ALLOCATION_MAX_ATTEMPTS :: nat where "NAME_ALLOCATION_MAX_ATTEMPTS = 16"

definition BASE36 :: string where
  "BASE36 = lower_letters @ digit_chars"

datatype name_kind = Nk_Team | Nk_Team_Leader | Nk_Team_Teammate | Nk_Dispatcher_Teammate

definition base36 :: "char \<Rightarrow> bool" where
  "base36 c \<longleftrightarrow> c \<in> set lower_letters \<or> c \<in> set digit_chars"

text \<open>A run of other characters becomes one dash; the flag says that the dash is there already.\<close>

fun replace_runs :: "bool \<Rightarrow> string \<Rightarrow> string" where
  "replace_runs dashed [] = []"
| "replace_runs dashed (c # cs) =
     (if base36 c \<or> c \<in> set ''._-'' then c # replace_runs False cs
      else if dashed then replace_runs True cs
      else CHR ''-'' # replace_runs True cs)"

definition trim_end :: "string \<Rightarrow> string" where
  "trim_end s = rev (dropWhile (\<lambda>c. c \<in> set ''-._'') (rev s))"

definition slugify_name :: "string \<Rightarrow> string" where
  "slugify_name base =
     (let slug = trim_end (dropWhile (\<lambda>c. \<not> base36 c) (replace_runs False (map to_lower base)))
      in if slug = '''' then ''tm'' else slug)"

definition generate_name_suffix :: "nat list \<Rightarrow> string" where
  "generate_name_suffix bytes = map (\<lambda>b. BASE36 ! (b mod 36)) bytes"

fun kind_prefix :: "name_kind \<Rightarrow> string" where
  "kind_prefix Nk_Team_Leader = ''tl-''"
| "kind_prefix Nk_Team_Teammate = ''tm-''"
| "kind_prefix _ = ''''"

definition build_concrete_name :: "name_kind \<Rightarrow> string \<Rightarrow> string option \<Rightarrow> string \<Rightarrow> string" where
  "build_concrete_name kind base team_slug suffix =
     (let prefix = kind_prefix kind;
          raw = slugify_name (if kind = Nk_Team_Leader then (case team_slug of None \<Rightarrow> base | Some s \<Rightarrow> s) else base);
          reserved = length prefix + 1 + length suffix;
          slug = trim_end (take (max 1 (CONCRETE_NAME_MAX - reserved)) raw)
      in prefix @ (if slug = '''' then ''tm'' else slug) @ ''-'' @ suffix)"

text \<open>One list of bytes for each attempt; the attempts end with the first free candidate.\<close>

definition allocate_concrete_name ::
  "name_kind \<Rightarrow> string \<Rightarrow> string option \<Rightarrow> (string \<Rightarrow> bool) \<Rightarrow> nat list list \<Rightarrow> string option" where
  "allocate_concrete_name kind base team_slug exists random =
     find (\<lambda>n. \<not> exists n)
       (map (\<lambda>bytes. build_concrete_name kind base team_slug (generate_name_suffix bytes))
         (take NAME_ALLOCATION_MAX_ATTEMPTS random))"

subsection \<open>The names of a dispatcher\<close>

definition list_collection_names :: "string list \<Rightarrow> string list" where
  "list_collection_names dirs = filter TEAMMATE_NAME_PATTERN dirs"

text \<open>What is under a Team's directory: the name its leader's identity has, if it reads, and its members.\<close>

record team_dir =
  td_leader :: "string option"
  td_members :: "string list"

definition occupied :: "string list \<Rightarrow> team_dir list \<Rightarrow> string set" where
  "occupied mates teams =
     set (list_collection_names mates) \<union>
     (\<Union>t \<in> set teams. set_option (td_leader t) \<union> set (list_collection_names (td_members t)))"

definition allocate_agent_name ::
  "string list \<Rightarrow> team_dir list \<Rightarrow> name_kind \<Rightarrow> string \<Rightarrow> string option \<Rightarrow> nat list list \<Rightarrow> string option" where
  "allocate_agent_name mates teams kind base team_slug random =
     allocate_concrete_name kind base team_slug (\<lambda>n. n \<in> occupied mates teams) random"

subsection \<open>An allocated name is a name\<close>

definition suffix_ok :: "string \<Rightarrow> bool" where
  "suffix_ok s \<longleftrightarrow> NAME_SUFFIX_MIN_LENGTH \<le> length s \<and> length s \<le> NAME_SUFFIX_MAX_LENGTH \<and> list_all base36 s"

lemma generated_suffix_ok:
  assumes "NAME_SUFFIX_MIN_LENGTH \<le> length bytes" "length bytes \<le> NAME_SUFFIX_MAX_LENGTH"
  shows "suffix_ok (generate_name_suffix bytes)"
proof -
  have "base36 (BASE36 ! i)" if "i < 36" for i
  proof -
    have "BASE36 ! i \<in> set BASE36" using that by (intro nth_mem) (simp add: BASE36_def lower_letters_def digit_chars_def)
    then show ?thesis by (auto simp: BASE36_def base36_def)
  qed
  then show ?thesis using assms by (simp add: suffix_ok_def generate_name_suffix_def list_all_iff)
qed

lemma base36_alnum: "base36 c \<Longrightarrow> alnum c"
  by (auto simp: base36_def alnum_def)

definition slug_char :: "char \<Rightarrow> bool" where
  "slug_char c \<longleftrightarrow> base36 c \<or> c \<in> set ''._-''"

lemma slug_char_iff: "slug_char c \<Longrightarrow> alnum c \<or> c \<in> set ''._-''"
  by (auto simp: slug_char_def base36_alnum)

lemma replace_runs_chars: "list_all slug_char (replace_runs d s)"
  by (induction s arbitrary: d) (auto simp: slug_char_def)

lemma set_trim_end: "set (trim_end s) \<subseteq> set s"
  by (auto simp: trim_end_def dest: set_dropWhileD)

lemma trim_end_Cons:
  assumes "base36 c"
  shows "\<exists>cs'. trim_end (c # cs) = c # cs' \<and> length cs' \<le> length cs \<and> set cs' \<subseteq> set cs"
proof -
  have "c \<notin> set ''-._''" using assms by (auto simp: base36_def lower_letters_def digit_chars_def)
  then have eq: "dropWhile (\<lambda>c. c \<in> set ''-._'') (rev cs @ [c]) = dropWhile (\<lambda>c. c \<in> set ''-._'') (rev cs) @ [c]"
    by (rule dropWhile_append3)
  let ?r = "dropWhile (\<lambda>c. c \<in> set ''-._'') (rev cs)"
  have "trim_end (c # cs) = c # rev ?r"
    unfolding trim_end_def rev.simps eq by (simp only: rev_append rev.simps append.simps append_Nil)
  moreover have "length (rev ?r) \<le> length cs" "set (rev ?r) \<subseteq> set cs"
    using length_dropWhile_le [of _ "rev cs"] by (simp, auto dest: set_dropWhileD)
  ultimately show ?thesis by blast
qed

lemma base36_tm: "base36 CHR ''t''" "base36 CHR ''m''" "base36 CHR ''l''"
  by (simp_all add: base36_def lower_letters_def)

lemma slugify_shape: "\<exists>c cs. slugify_name base = c # cs \<and> base36 c \<and> list_all slug_char cs"
proof -
  let ?r = "replace_runs False (map to_lower base)"
  let ?d = "dropWhile (\<lambda>c. \<not> base36 c) ?r"
  have chars: "list_all slug_char ?d"
    using replace_runs_chars by (auto simp: list_all_iff dest: set_dropWhileD)
  show ?thesis
  proof (cases ?d)
    case Nil
    have "slugify_name base = ''tm''"
      unfolding slugify_name_def Let_def Nil by (simp add: trim_end_def)
    then show ?thesis using base36_tm by (simp add: slug_char_def)
  next
    case (Cons c cs)
    then have c: "base36 c" by (simp add: dropWhile_eq_Cons_conv)
    obtain cs' where "trim_end (c # cs) = c # cs'" "set cs' \<subseteq> set cs" using trim_end_Cons [OF c] by blast
    then show ?thesis
      using c chars Cons by (auto simp: slugify_name_def list_all_iff)
  qed
qed

lemma built_name:
  assumes "suffix_ok suffix"
  shows "\<exists>c cs. build_concrete_name kind base team_slug suffix = kind_prefix kind @ (c # cs) @ ''-'' @ suffix \<and>
    base36 c \<and> list_all slug_char cs \<and> length (kind_prefix kind) + length (c # cs) + 1 + length suffix \<le> 64"
proof -
  let ?b = "if kind = Nk_Team_Leader then (case team_slug of None \<Rightarrow> base | Some s \<Rightarrow> s) else base"
  obtain c cs where raw: "slugify_name ?b = c # cs" "base36 c" "list_all slug_char cs" using slugify_shape by blast
  let ?m = "max 1 (64 - (length (kind_prefix kind) + 1 + length suffix))"
  have len: "length suffix \<le> 8" "length (kind_prefix kind) \<le> 3"
    using assms by (simp_all add: suffix_ok_def NAME_SUFFIX_MAX_LENGTH_def, cases kind, simp_all)
  have "0 < ?m" by simp
  then obtain k where k: "?m = Suc k" using gr0_implies_Suc by blast
  obtain cs' where cs': "trim_end (c # take k cs) = c # cs'" "length cs' \<le> length (take k cs)" "set cs' \<subseteq> set (take k cs)"
    using trim_end_Cons [OF raw(2)] by blast
  have "set cs' \<subseteq> set cs" using cs'(3) set_take_subset by fast
  then have "list_all slug_char cs'" using raw(3) by (auto simp: list_all_iff)
  moreover have "length (c # cs') \<le> ?m" using cs'(2) k by simp
  moreover have "build_concrete_name kind base team_slug suffix = kind_prefix kind @ (c # cs') @ ''-'' @ suffix"
    using raw(1) cs'(1) k by (simp add: build_concrete_name_def CONCRETE_NAME_MAX_def Let_def)
  ultimately show ?thesis using raw(2) len by (intro exI [of _ c] exI [of _ cs']) auto
qed

lemma prefix_chars: "list_all slug_char (kind_prefix kind)"
  by (cases kind) (simp_all add: slug_char_def base36_tm)

lemma reserved_dashless: "s \<in> set RESERVED_AGENT_NAME_SEGMENTS \<Longrightarrow> CHR ''-'' \<notin> set s"
  by (auto simp: RESERVED_AGENT_NAME_SEGMENTS_def)

lemma dash_lower: "CHR ''-'' \<in> set s \<Longrightarrow> CHR ''-'' \<in> set (map to_lower s)"
proof -
  have "to_lower CHR ''-'' = CHR ''-''" by (simp add: to_lower_def)
  then show "CHR ''-'' \<in> set s \<Longrightarrow> CHR ''-'' \<in> set (map to_lower s)" by force
qed

lemma built_name_valid:
  assumes "suffix_ok suffix"
  shows "validate_agent_entity_name (build_concrete_name kind base team_slug suffix) =
    Inr (build_concrete_name kind base team_slug suffix)"
proof -
  let ?n = "build_concrete_name kind base team_slug suffix"
  obtain c cs where n: "?n = kind_prefix kind @ (c # cs) @ ''-'' @ suffix" "base36 c" "list_all slug_char cs"
      "length (kind_prefix kind) + length (c # cs) + 1 + length suffix \<le> 64"
    using built_name [OF assms] by blast
  have all: "list_all slug_char ?n"
    using n(2,3) prefix_chars assms by (auto simp: n(1) suffix_ok_def list_all_iff slug_char_def)
  have first: "\<exists>d ds. ?n = d # ds \<and> alnum d"
    using n(1,2) by (cases kind) (auto simp: base36_alnum base36_tm)
  then obtain d ds where d: "?n = d # ds" "alnum d" by blast
  have "length ?n \<le> 64" using n(1,4) by simp
  then have "TEAMMATE_NAME_PATTERN ?n"
    using d all slug_char_iff by (auto simp: TEAMMATE_NAME_PATTERN_def list_all_iff)
  moreover have "map to_lower ?n \<notin> set RESERVED_AGENT_NAME_SEGMENTS"
  proof
    assume "map to_lower ?n \<in> set RESERVED_AGENT_NAME_SEGMENTS"
    from reserved_dashless [OF this] dash_lower [of ?n] show False by (simp add: n(1))
  qed
  ultimately show ?thesis by (simp add: validate_agent_entity_name_def assert_not_reserved_def)
qed

text \<open>
  C36. Whatever base a model or a person supplies (empty, overlong, of other characters), a name the registry
  allocates is one every reader accepts: it has at most 64 characters, starts with a letter or a
  digit, is no reserved segment of the state directory, and no Agent of the dispatcher has it.  The
  allocation fails only when all of its sixteen candidates are taken.
\<close>

theorem allocated_name_usable:
  assumes "\<forall>bytes \<in> set random. NAME_SUFFIX_MIN_LENGTH \<le> length bytes \<and> length bytes \<le> NAME_SUFFIX_MAX_LENGTH"
  shows "(\<forall>n. allocate_agent_name mates teams kind base team_slug random = Some n \<longrightarrow>
       validate_agent_entity_name n = Inr n \<and> length n \<le> CONCRETE_NAME_MAX \<and> n \<notin> occupied mates teams) \<and>
    (allocate_agent_name mates teams kind base team_slug random = None \<longleftrightarrow>
       (\<forall>bytes \<in> set (take NAME_ALLOCATION_MAX_ATTEMPTS random).
          build_concrete_name kind base team_slug (generate_name_suffix bytes) \<in> occupied mates teams))"
proof -
  have made: "validate_agent_entity_name n = Inr n \<and> length n \<le> CONCRETE_NAME_MAX \<and> n \<notin> occupied mates teams"
    if found: "allocate_agent_name mates teams kind base team_slug random = Some n" for n
  proof -
    obtain bytes where b: "bytes \<in> set (take NAME_ALLOCATION_MAX_ATTEMPTS random)"
        "n = build_concrete_name kind base team_slug (generate_name_suffix bytes)" "n \<notin> occupied mates teams"
      using find_Some_in [OF found [unfolded allocate_agent_name_def allocate_concrete_name_def]] by auto
    then have ok: "suffix_ok (generate_name_suffix bytes)"
      using assms by (intro generated_suffix_ok) (auto dest: in_set_takeD)
    show ?thesis
      using built_name [OF ok, of kind base team_slug] built_name_valid [OF ok] b(2,3) by (auto simp: CONCRETE_NAME_MAX_def)
  qed
  show ?thesis
    using made by (auto simp: allocate_agent_name_def allocate_concrete_name_def find_None_iff)
qed

text \<open>The first candidate is taken, the second is allocated; the base has no usable character.\<close>

theorem allocated_name_usable_witness:
  "allocate_agent_name [''tm-aaaa''] [] Nk_Dispatcher_Teammate ''??'' None [[0, 0, 0, 0], [1, 26, 37, 255]] = Some ''tm-b0bd'' \<and>
   validate_agent_entity_name ''tm-b0bd'' = Inr ''tm-b0bd'' \<and> ''tm-b0bd'' \<notin> occupied [''tm-aaaa''] []"
proof -
  have run: "allocate_agent_name [''tm-aaaa''] [] Nk_Dispatcher_Teammate ''??'' None [[0, 0, 0, 0], [1, 26, 37, 255]] =
      Some ''tm-b0bd''"
    by code_simp
  have ok: "\<forall>bytes \<in> set [[0, 0, 0, 0], [1, 26, 37, 255]].
      NAME_SUFFIX_MIN_LENGTH \<le> length bytes \<and> length bytes \<le> NAME_SUFFIX_MAX_LENGTH"
    by (simp add: NAME_SUFFIX_MIN_LENGTH_def NAME_SUFFIX_MAX_LENGTH_def)
  show ?thesis
    using run allocated_name_usable [OF ok, THEN conjunct1, rule_format, OF run] by simp
qed

end
