(* ===== verification/Team_Store.thy ===== *)
theory Team_Store
  imports Js_Value Transactional_Store Entity_Names
begin

text \<open>
  \<^verbatim>\<open>packages/dreamux/src/service/team\<close>: \<^verbatim>\<open>types.ts\<close>, \<^verbatim>\<open>create-request.ts\<close> and \<^verbatim>\<open>store.ts\<close>, the
  record of one Team, the file that holds it, and the two changes its store commits; with the parse
  of skill sources of \<^verbatim>\<open>agent-runtime/skill-sources.ts\<close>.

  The fields \<^verbatim>\<open>readTeam\<close> takes from the file without a test of their type (\<open>intent\<close>, the
  timestamps, the close note) are values of \<open>js\<close>.  A missing, unreadable or malformed file and a
  value that is not a Team are one answer, \<open>None\<close>: no Team.  \<^verbatim>\<open>isAbsolute\<close> is the POSIX one.
\<close>

subsection \<open>Names and request identities\<close>

definition team_id_pattern :: "string \<Rightarrow> bool" where
  "team_id_pattern s =
     (case s of
        [] \<Rightarrow> False
      | c # cs \<Rightarrow> alnum c \<and> length cs \<le> 63 \<and> list_all (\<lambda>x. alnum x \<or> x \<in> set ''._-'') cs)"

datatype team_rule = Bad_Team_Id string | Reserved_Name string

definition validate_team_id :: "string \<Rightarrow> team_rule + string" where
  "validate_team_id s =
     (if \<not> team_id_pattern s then Inl (Bad_Team_Id s)
      else if map to_lower s \<in> set RESERVED_AGENT_NAME_SEGMENTS then Inl (Reserved_Name s)
      else Inr s)"

definition MAX_REQUEST_ID_LENGTH :: nat where
  "MAX_REQUEST_ID_LENGTH = 256"

definition is_team_create_request_id :: "js \<Rightarrow> bool" where
  "is_team_create_request_id v =
     (case v of Str s \<Rightarrow> trim s \<noteq> '''' \<and> length s \<le> MAX_REQUEST_ID_LENGTH | _ \<Rightarrow> False)"

definition is_team_create_payload_hash :: "js \<Rightarrow> bool" where
  "is_team_create_payload_hash v =
     (case v of Str s \<Rightarrow> length s = 64 \<and> list_all (\<lambda>c. c \<in> set ''0123456789abcdef'') s | _ \<Rightarrow> False)"

subsection \<open>The record\<close>

datatype worktree_mode = Reuse_Cwd | Managed
datatype worktree_cleanup = Keep | Delete_On_Close

datatype cleanup_state =
    Not_Managed | Managed_Active | Cleanup_Pending | Kept | Deleted | Retained_Dirty
  | Retained_Unmerged | Retained_Unique_Commits | Retained_Error

record worktree =
  wt_mode :: worktree_mode
  wt_slug :: "string option"
  wt_path :: string
  wt_branch :: "string option"
  wt_base_ref :: "string option"
  wt_cleanup :: worktree_cleanup
  wt_state :: cleanup_state
  wt_error :: "string option"

datatype team_status = Ts_Starting | Ts_Running | Ts_Closed

record skill_source =
  ss_name :: string
  ss_path :: string
  ss_source :: string

record team_record =
  tr_dispatcher :: string
  tr_team :: string
  tr_name :: string
  tr_repo_cwd :: string
  tr_source_repo :: "string option"
  tr_leader :: string
  tr_runtime :: string
  tr_prompt :: "string option"
  tr_skills :: "skill_source list"
  tr_runtime_cwd :: string
  tr_worktree :: worktree
  tr_status :: team_status
  tr_intent :: js
  tr_created :: js
  tr_updated :: js
  tr_closed_at :: js
  tr_note :: js
  tr_request :: "string option"
  tr_payload :: "string option"
  tr_force :: bool

subsection \<open>Skill sources\<close>

datatype skill_rule =
    Sources_Not_An_Array
  | Source_Not_An_Object nat
  | Source_Field_Blank nat string
  | Source_Path_Not_Absolute nat

definition non_blank_string :: "nat \<Rightarrow> string \<Rightarrow> js \<Rightarrow> skill_rule + string" where
  "non_blank_string i field v =
     (case v of
        Str s \<Rightarrow> if trim s = '''' then Inl (Source_Field_Blank i field) else Inr s
      | _ \<Rightarrow> Inl (Source_Field_Blank i field))"

definition is_absolute :: "string \<Rightarrow> bool" where
  "is_absolute p = (case p of c # _ \<Rightarrow> c = CHR ''/'' | [] \<Rightarrow> False)"

definition parse_skill_source :: "nat \<times> js \<Rightarrow> skill_rule + skill_source" where
  "parse_skill_source e =
     (case snd e of
        Obj ob \<Rightarrow>
          bind_res (non_blank_string (fst e) ''path'' (jget ob ''path'')) (\<lambda>path.
          if \<not> is_absolute path then Inl (Source_Path_Not_Absolute (fst e))
          else
            bind_res (non_blank_string (fst e) ''name'' (jget ob ''name'')) (\<lambda>nm.
            bind_res (non_blank_string (fst e) ''source'' (jget ob ''source'')) (\<lambda>src.
              Inr \<lparr>ss_name = nm, ss_path = path, ss_source = src\<rparr>)))
      | _ \<Rightarrow> Inl (Source_Not_An_Object (fst e)))"

definition parse_skill_sources :: "js \<Rightarrow> skill_rule + skill_source list" where
  "parse_skill_sources v =
     (case v of
        Arr xs \<Rightarrow> map_res parse_skill_source (zip [0..<length xs] xs)
      | _ \<Rightarrow> Inl Sources_Not_An_Array)"

subsection \<open>Reading a record\<close>

datatype team_read_error =
    Invalid_Record
  | Invalid_Worktree
  | Invalid_Leader_Prompt
  | Invalid_Skills skill_rule
  | Invalid_Request

definition filled_string :: "js \<Rightarrow> team_read_error \<Rightarrow> team_read_error + string" where
  "filled_string v e = (case v of Str s \<Rightarrow> if s = '''' then Inl e else Inr s | _ \<Rightarrow> Inl e)"

definition nullable_filled_string :: "js \<Rightarrow> team_read_error \<Rightarrow> team_read_error + string option" where
  "nullable_filled_string v e =
     (case v of Null \<Rightarrow> Inr None | _ \<Rightarrow> bind_res (filled_string v e) (\<lambda>s. Inr (Some s)))"

definition read_literal :: "(string \<times> 'a) list \<Rightarrow> js \<Rightarrow> team_read_error \<Rightarrow> team_read_error + 'a" where
  "read_literal tab v e =
     (case v of Str s \<Rightarrow> (case map_of tab s of None \<Rightarrow> Inl e | Some x \<Rightarrow> Inr x) | _ \<Rightarrow> Inl e)"

definition team_statuses :: "(string \<times> team_status) list" where
  "team_statuses = [(''starting'', Ts_Starting), (''running'', Ts_Running), (''closed'', Ts_Closed)]"

definition worktree_modes :: "(string \<times> worktree_mode) list" where
  "worktree_modes = [(''reuse-cwd'', Reuse_Cwd), (''managed'', Managed)]"

definition worktree_cleanups :: "(string \<times> worktree_cleanup) list" where
  "worktree_cleanups = [(''keep'', Keep), (''delete-on-close'', Delete_On_Close)]"

definition cleanup_states :: "(string \<times> cleanup_state) list" where
  "cleanup_states =
     [(''not-managed'', Not_Managed), (''managed-active'', Managed_Active),
      (''cleanup-pending'', Cleanup_Pending), (''kept'', Kept), (''deleted'', Deleted),
      (''retained-dirty'', Retained_Dirty), (''retained-unmerged'', Retained_Unmerged),
      (''retained-unique-commits'', Retained_Unique_Commits), (''retained-error'', Retained_Error)]"

definition read_worktree :: "js \<Rightarrow> team_read_error + worktree" where
  "read_worktree v =
     (case v of
        Obj ob \<Rightarrow>
          bind_res (read_literal worktree_modes (jget ob ''mode'') Invalid_Worktree) (\<lambda>mode.
          bind_res (filled_string (jget ob ''path'') Invalid_Worktree) (\<lambda>path.
          bind_res (nullable_filled_string (jget ob ''slug'') Invalid_Worktree) (\<lambda>slug.
          bind_res (nullable_filled_string (jget ob ''branch'') Invalid_Worktree) (\<lambda>branch.
          bind_res (nullable_filled_string (jget ob ''base_ref'') Invalid_Worktree) (\<lambda>base.
          bind_res (read_literal worktree_cleanups (jget ob ''cleanup'') Invalid_Worktree) (\<lambda>cleanup.
          bind_res (read_literal cleanup_states (jget ob ''cleanup_state'') Invalid_Worktree) (\<lambda>state.
          bind_res (nullable_filled_string (jget ob ''cleanup_error'') Invalid_Worktree) (\<lambda>err.
            Inr \<lparr>wt_mode = mode, wt_slug = slug, wt_path = path, wt_branch = branch, wt_base_ref = base,
                 wt_cleanup = cleanup, wt_state = state, wt_error = err\<rparr>))))))))
      | _ \<Rightarrow> Inl Invalid_Worktree)"

text \<open>\<^verbatim>\<open>value ?? null\<close> and \<^verbatim>\<open>value ?? []\<close>.\<close>

definition js_or :: "js \<Rightarrow> js \<Rightarrow> js" where
  "js_or v d = (case v of Undef \<Rightarrow> d | Null \<Rightarrow> d | _ \<Rightarrow> v)"

definition read_leader_creation_inputs ::
  "(string \<times> js) list \<Rightarrow> team_read_error + string option \<times> skill_source list" where
  "read_leader_creation_inputs ob =
     bind_res (case js_or (jget ob ''leader_identity_prompt'') Null of
                 Null \<Rightarrow> Inr None | Str s \<Rightarrow> Inr (Some s) | _ \<Rightarrow> Inl Invalid_Leader_Prompt) (\<lambda>prompt.
     case parse_skill_sources (js_or (jget ob ''leader_skill_sources'') (Arr [])) of
       Inl e \<Rightarrow> Inl (Invalid_Skills e)
     | Inr skills \<Rightarrow> Inr (prompt, skills))"

definition read_create_request ::
  "(string \<times> js) list \<Rightarrow> team_read_error + string option \<times> string option" where
  "read_create_request ob =
     (let r = js_or (jget ob ''create_request_id'') Null;
          h = js_or (jget ob ''create_payload_hash'') Null
      in if r = Null \<and> h = Null then Inr (None, None)
         else if \<not> is_team_create_request_id r \<or> \<not> is_team_create_payload_hash h then Inl Invalid_Request
         else (case (r, h) of (Str a, Str b) \<Rightarrow> Inr (Some a, Some b) | _ \<Rightarrow> Inl Invalid_Request))"

definition read_team :: "string \<Rightarrow> string \<Rightarrow> js \<Rightarrow> team_read_error + team_record" where
  "read_team did tid v =
     (case v of
        Obj ob \<Rightarrow>
          if jget ob ''version'' \<noteq> Num 1 \<or> jget ob ''dispatcher_id'' \<noteq> Str did \<or>
             jget ob ''team_id'' \<noteq> Str tid
          then Inl Invalid_Record
          else
            bind_res (filled_string (jget ob ''name'') Invalid_Record) (\<lambda>nm.
            bind_res (filled_string (jget ob ''leader_name'') Invalid_Record) (\<lambda>leader.
            bind_res (read_literal team_statuses (jget ob ''status'') Invalid_Record) (\<lambda>status.
            bind_res (filled_string (jget ob ''leader_agent_runtime'') Invalid_Record) (\<lambda>runtime.
            bind_res (filled_string (jget ob ''repo_cwd'') Invalid_Record) (\<lambda>repo.
            bind_res (filled_string (jget ob ''runtime_cwd'') Invalid_Record) (\<lambda>cwd.
            bind_res (nullable_filled_string (jget ob ''source_repo'') Invalid_Record) (\<lambda>src.
            bind_res (read_create_request ob) (\<lambda>(req, hash).
            bind_res (read_leader_creation_inputs ob) (\<lambda>(prompt, skills).
            bind_res (read_worktree (jget ob ''worktree'')) (\<lambda>wt.
              Inr \<lparr>tr_dispatcher = did, tr_team = tid, tr_name = nm, tr_repo_cwd = repo,
                   tr_source_repo = src, tr_leader = leader, tr_runtime = runtime, tr_prompt = prompt,
                   tr_skills = skills, tr_runtime_cwd = cwd, tr_worktree = wt, tr_status = status,
                   tr_intent = js_or (jget ob ''intent'') Null, tr_created = jget ob ''created_at'',
                   tr_updated = jget ob ''updated_at'',
                   tr_closed_at = js_or (jget ob ''closed_at'') Null,
                   tr_note = js_or (jget ob ''close_note'') Null, tr_request = req,
                   tr_payload = hash,
                   tr_force = (jget ob ''worktree_cleanup_force'' = Bool True)\<rparr>))))))))))
      | _ \<Rightarrow> Inl Invalid_Record)"

datatype team_error = Team_Gone | Bad_Name team_rule

definition load_team :: "string \<Rightarrow> string \<Rightarrow> json_file option \<Rightarrow> team_error + team_record option" where
  "load_team did tid f =
     (case f of
        Some (Jf_Value v) \<Rightarrow> (case read_team did tid v of Inl _ \<Rightarrow> Inr None | Inr r \<Rightarrow> Inr (Some r))
      | _ \<Rightarrow> Inr None)"

subsection \<open>Writing a record\<close>

definition team_str_or_null :: "string option \<Rightarrow> js" where
  "team_str_or_null s = (case s of None \<Rightarrow> Null | Some x \<Rightarrow> Str x)"

text \<open>\<^verbatim>\<open>JSON.stringify\<close> leaves out a property that is \<^verbatim>\<open>undefined\<close>.\<close>

definition opt_field :: "string \<Rightarrow> js \<Rightarrow> (string \<times> js) list" where
  "opt_field k v = (if v = Undef then [] else [(k, v)])"

fun team_status_name :: "team_status \<Rightarrow> string" where
  "team_status_name Ts_Starting = ''starting''"
| "team_status_name Ts_Running = ''running''"
| "team_status_name Ts_Closed = ''closed''"

fun mode_name :: "worktree_mode \<Rightarrow> string" where
  "mode_name Reuse_Cwd = ''reuse-cwd''"
| "mode_name Managed = ''managed''"

fun cleanup_name :: "worktree_cleanup \<Rightarrow> string" where
  "cleanup_name Keep = ''keep''"
| "cleanup_name Delete_On_Close = ''delete-on-close''"

fun state_name :: "cleanup_state \<Rightarrow> string" where
  "state_name Not_Managed = ''not-managed''"
| "state_name Managed_Active = ''managed-active''"
| "state_name Cleanup_Pending = ''cleanup-pending''"
| "state_name Kept = ''kept''"
| "state_name Deleted = ''deleted''"
| "state_name Retained_Dirty = ''retained-dirty''"
| "state_name Retained_Unmerged = ''retained-unmerged''"
| "state_name Retained_Unique_Commits = ''retained-unique-commits''"
| "state_name Retained_Error = ''retained-error''"

definition encode_skill :: "skill_source \<Rightarrow> js" where
  "encode_skill s = Obj [(''name'', Str (ss_name s)), (''path'', Str (ss_path s)), (''source'', Str (ss_source s))]"

definition encode_worktree :: "worktree \<Rightarrow> js" where
  "encode_worktree w = Obj
     [(''mode'', Str (mode_name (wt_mode w))), (''slug'', team_str_or_null (wt_slug w)),
      (''path'', Str (wt_path w)), (''branch'', team_str_or_null (wt_branch w)),
      (''base_ref'', team_str_or_null (wt_base_ref w)), (''cleanup'', Str (cleanup_name (wt_cleanup w))),
      (''cleanup_state'', Str (state_name (wt_state w))), (''cleanup_error'', team_str_or_null (wt_error w))]"

definition encode_team :: "team_record \<Rightarrow> js" where
  "encode_team r = Obj
     ([(''version'', Num 1), (''dispatcher_id'', Str (tr_dispatcher r)), (''team_id'', Str (tr_team r)),
       (''name'', Str (tr_name r)), (''repo_cwd'', Str (tr_repo_cwd r)),
       (''source_repo'', team_str_or_null (tr_source_repo r)), (''leader_name'', Str (tr_leader r)),
       (''leader_agent_runtime'', Str (tr_runtime r)), (''runtime_cwd'', Str (tr_runtime_cwd r)),
       (''status'', Str (team_status_name (tr_status r))), (''intent'', tr_intent r)] @
      opt_field ''created_at'' (tr_created r) @ opt_field ''updated_at'' (tr_updated r) @
      [(''closed_at'', tr_closed_at r), (''close_note'', tr_note r),
       (''create_request_id'', team_str_or_null (tr_request r)),
       (''create_payload_hash'', team_str_or_null (tr_payload r)),
       (''leader_identity_prompt'', team_str_or_null (tr_prompt r)),
       (''leader_skill_sources'', Arr (map encode_skill (tr_skills r))),
       (''worktree'', encode_worktree (tr_worktree r)),
       (''worktree_cleanup_force'', Bool (tr_force r))])"

definition encode_slot :: "team_record option \<Rightarrow> json_file" where
  "encode_slot v = Jf_Value (case v of None \<Rightarrow> Null | Some r \<Rightarrow> encode_team r)"

subsection \<open>The changes\<close>

record team_update =
  tu_intent :: "string option"
  tu_status :: "team_status option"
  tu_closed_at :: "ms option"
  tu_note :: "string option"
  tu_worktree :: "worktree option"
  tu_force :: "bool option"

definition no_update :: team_update where
  "no_update = \<lparr> tu_intent = None, tu_status = None, tu_closed_at = None, tu_note = None, tu_worktree = None,
     tu_force = None \<rparr>"

text \<open>A published record is the caller's, with the version, the force flag and the times filled in.\<close>

definition new_record :: "ms \<Rightarrow> team_record \<Rightarrow> team_record" where
  "new_record now r = r\<lparr>tr_force := False, tr_created := Num now, tr_updated := Num now\<rparr>"

definition publish_change :: "team_record \<Rightarrow> team_record option \<Rightarrow> team_error + team_record option option" where
  "publish_change r current = (case current of Some _ \<Rightarrow> Inr None | None \<Rightarrow> Inr (Some (Some r)))"

text \<open>\<open>None\<close> is the code's \<^verbatim>\<open>null\<close>: the name belongs to another Team.\<close>

definition publish_record ::
  "string \<Rightarrow> ms \<Rightarrow> team_record \<Rightarrow> bool \<Rightarrow> (team_record option, json_file) tstore \<Rightarrow>
   (team_error store_error + team_record option) \<times> (team_record option, json_file) tstore" where
  "publish_record did now r write_ok st =
     (case validate_team_id (tr_team r) of
        Inl e \<Rightarrow> (Inl (Change_Error (Bad_Name e)), st)
      | Inr tid \<Rightarrow>
          (let r' = new_record now r;
               loaded = store_load (load_team did tid) st
           in case store_update (load_team did tid) encode_slot (publish_change r') write_ok (\<lambda>_ _. None) st of
                (Inl e, st') \<Rightarrow> (Inl e, st')
              | (Inr _, st') \<Rightarrow>
                  (Inr (case loaded of (Inr None, _) \<Rightarrow> Some r' | _ \<Rightarrow> None), st')))"

definition merged :: "ms \<Rightarrow> team_update \<Rightarrow> team_record \<Rightarrow> team_record" where
  "merged now u r =
     (let status = (if tr_status r = Ts_Closed then Some (tr_status r) else tu_status u)
      in r\<lparr>tr_intent := (case tu_intent u of None \<Rightarrow> tr_intent r | Some t \<Rightarrow> Str t),
           tr_status := (case status of None \<Rightarrow> tr_status r | Some s \<Rightarrow> s),
           tr_closed_at := (case tu_closed_at u of None \<Rightarrow> tr_closed_at r | Some t \<Rightarrow> Num t),
           tr_note := (case tu_note u of None \<Rightarrow> tr_note r | Some t \<Rightarrow> Str t),
           tr_worktree := (case tu_worktree u of None \<Rightarrow> tr_worktree r | Some w \<Rightarrow> w),
           tr_force := (case tu_force u of None \<Rightarrow> tr_force r | Some b \<Rightarrow> b),
           tr_updated := Num now\<rparr>)"

definition merge_change :: "ms \<Rightarrow> team_update \<Rightarrow> team_record option \<Rightarrow> team_error + team_record option option" where
  "merge_change now u current =
     (case current of None \<Rightarrow> Inl Team_Gone | Some r \<Rightarrow> Inr (Some (Some (merged now u r))))"

definition merge_record ::
  "string \<Rightarrow> string \<Rightarrow> ms \<Rightarrow> team_update \<Rightarrow> bool \<Rightarrow> (team_record option, json_file) tstore \<Rightarrow>
   (team_error store_error + team_record option) \<times> (team_record option, json_file) tstore" where
  "merge_record did tid now u write_ok st =
     store_update (load_team did tid) encode_slot (merge_change now u) write_ok (\<lambda>_ _. None) st"

subsection \<open>A record written is the record read\<close>

definition filled_option :: "string option \<Rightarrow> bool" where
  "filled_option s \<longleftrightarrow> s \<noteq> Some ''''"

definition worktree_ok :: "worktree \<Rightarrow> bool" where
  "worktree_ok w \<longleftrightarrow> wt_path w \<noteq> '''' \<and> filled_option (wt_slug w) \<and> filled_option (wt_branch w) \<and>
     filled_option (wt_base_ref w) \<and> filled_option (wt_error w)"

definition skill_ok :: "skill_source \<Rightarrow> bool" where
  "skill_ok s \<longleftrightarrow> trim (ss_name s) \<noteq> '''' \<and> trim (ss_path s) \<noteq> '''' \<and> trim (ss_source s) \<noteq> '''' \<and>
     is_absolute (ss_path s)"

definition request_ok :: "string option \<Rightarrow> string option \<Rightarrow> bool" where
  "request_ok r h \<longleftrightarrow> (r = None \<and> h = None) \<or>
     (\<exists>a b. r = Some a \<and> h = Some b \<and> is_team_create_request_id (Str a) \<and> is_team_create_payload_hash (Str b))"

definition team_ok :: "string \<Rightarrow> string \<Rightarrow> team_record \<Rightarrow> bool" where
  "team_ok did tid r \<longleftrightarrow>
     tr_dispatcher r = did \<and> tr_team r = tid \<and> tr_name r \<noteq> '''' \<and> tr_leader r \<noteq> '''' \<and>
     tr_runtime r \<noteq> '''' \<and> tr_repo_cwd r \<noteq> '''' \<and> tr_runtime_cwd r \<noteq> '''' \<and>
     filled_option (tr_source_repo r) \<and> request_ok (tr_request r) (tr_payload r) \<and>
     list_all skill_ok (tr_skills r) \<and> worktree_ok (tr_worktree r) \<and>
     tr_intent r \<noteq> Undef \<and> tr_closed_at r \<noteq> Undef \<and> tr_note r \<noteq> Undef"

definition slot_ok :: "string \<Rightarrow> string \<Rightarrow> team_record option \<Rightarrow> bool" where
  "slot_ok did tid v \<longleftrightarrow> (case v of None \<Rightarrow> True | Some r \<Rightarrow> team_ok did tid r)"

lemma status_literal [simp]: "read_literal team_statuses (Str (team_status_name s)) e = Inr s"
  by (cases s) (simp_all add: read_literal_def team_statuses_def)

lemma mode_literal [simp]: "read_literal worktree_modes (Str (mode_name m)) e = Inr m"
  by (cases m) (simp_all add: read_literal_def worktree_modes_def)

lemma cleanup_literal [simp]: "read_literal worktree_cleanups (Str (cleanup_name c)) e = Inr c"
  by (cases c) (simp_all add: read_literal_def worktree_cleanups_def)

lemma state_literal [simp]: "read_literal cleanup_states (Str (state_name c)) e = Inr c"
  by (cases c) (simp_all add: read_literal_def cleanup_states_def)

lemma filled_string_Str [simp]: "s \<noteq> '''' \<Longrightarrow> filled_string (Str s) e = Inr s"
  by (simp add: filled_string_def)

lemma nullable_str [simp]: "filled_option s \<Longrightarrow> nullable_filled_string (team_str_or_null s) e = Inr s"
  by (cases s) (simp_all add: nullable_filled_string_def team_str_or_null_def filled_option_def)

lemma or_else_str [simp]: "js_or (team_str_or_null s) Null = team_str_or_null s"
  by (cases s) (simp_all add: js_or_def team_str_or_null_def)

lemma or_else_defined: "v \<noteq> Undef \<Longrightarrow> js_or v Null = v"
  by (cases v) (simp_all add: js_or_def)

lemma jget_opt [simp]:
  "jget (opt_field k v @ rest) j = (if j = k \<and> v \<noteq> Undef then v else jget rest j)"
  by (simp add: opt_field_def)

lemma read_encode_worktree: "worktree_ok w \<Longrightarrow> read_worktree (encode_worktree w) = Inr w"
  by (simp add: read_worktree_def encode_worktree_def worktree_ok_def)

lemma parse_encode_skill: "skill_ok s \<Longrightarrow> parse_skill_source (i, encode_skill s) = Inr s"
  by (simp add: parse_skill_source_def encode_skill_def skill_ok_def non_blank_string_def)

lemma parse_encode_skills:
  assumes "list_all skill_ok xs"
  shows "parse_skill_sources (Arr (map encode_skill xs)) = Inr xs"
proof -
  have "map_res parse_skill_source (zip [n..<n + length xs] (map encode_skill xs)) = Inr xs" for n
    using assms
  proof (induction xs arbitrary: n)
    case (Cons x xs)
    then show ?case
      using Cons.IH [of "Suc n"] by (simp add: upt_conv_Cons parse_encode_skill del: upt_Suc)
  qed simp
  from this [of 0] show ?thesis
    by (simp add: parse_skill_sources_def)
qed


lemma read_encode_request:
  assumes "request_ok (tr_request r) (tr_payload r)"
    and "jget ob ''create_request_id'' = team_str_or_null (tr_request r)"
    and "jget ob ''create_payload_hash'' = team_str_or_null (tr_payload r)"
  shows "read_create_request ob = Inr (tr_request r, tr_payload r)"
  using assms by (auto simp: read_create_request_def request_ok_def team_str_or_null_def js_or_def Let_def)

lemma read_encode_inputs:
  assumes "list_all skill_ok (tr_skills r)"
    and "jget ob ''leader_identity_prompt'' = team_str_or_null (tr_prompt r)"
    and "jget ob ''leader_skill_sources'' = Arr (map encode_skill (tr_skills r))"
  shows "read_leader_creation_inputs ob = Inr (tr_prompt r, tr_skills r)"
proof -
  have arr: "js_or (Arr xs) d = Arr xs" for xs d by (simp add: js_or_def)
  show ?thesis
    unfolding read_leader_creation_inputs_def assms(2,3) arr parse_encode_skills [OF assms(1)] or_else_str
    by (cases "tr_prompt r") (simp_all add: team_str_or_null_def)
qed

lemma read_encode_team:
  assumes ok: "team_ok did tid r"
  shows "read_team did tid (encode_team r) = Inr r"
proof -
  obtain ob where ob: "encode_team r = Obj ob" and fields:
      "jget ob ''version'' = Num 1" "jget ob ''dispatcher_id'' = Str (tr_dispatcher r)"
      "jget ob ''team_id'' = Str (tr_team r)" "jget ob ''name'' = Str (tr_name r)"
      "jget ob ''repo_cwd'' = Str (tr_repo_cwd r)" "jget ob ''source_repo'' = team_str_or_null (tr_source_repo r)"
      "jget ob ''leader_name'' = Str (tr_leader r)" "jget ob ''leader_agent_runtime'' = Str (tr_runtime r)"
      "jget ob ''runtime_cwd'' = Str (tr_runtime_cwd r)"
      "jget ob ''status'' = Str (team_status_name (tr_status r))" "jget ob ''intent'' = tr_intent r"
      "jget ob ''created_at'' = tr_created r" "jget ob ''updated_at'' = tr_updated r"
      "jget ob ''closed_at'' = tr_closed_at r" "jget ob ''close_note'' = tr_note r"
      "jget ob ''create_request_id'' = team_str_or_null (tr_request r)"
      "jget ob ''create_payload_hash'' = team_str_or_null (tr_payload r)"
      "jget ob ''leader_identity_prompt'' = team_str_or_null (tr_prompt r)"
      "jget ob ''leader_skill_sources'' = Arr (map encode_skill (tr_skills r))"
      "jget ob ''worktree'' = encode_worktree (tr_worktree r)"
      "jget ob ''worktree_cleanup_force'' = Bool (tr_force r)"
    unfolding encode_team_def by (atomize_elim) (simp split: if_split)
  show ?thesis
    using ok
    by (simp add: ob read_team_def fields team_ok_def read_encode_request [of r ob] read_encode_inputs [of r ob]
        read_encode_worktree or_else_defined)
qed

lemma filled_string_Inr: "filled_string v e = Inr s \<Longrightarrow> s \<noteq> ''''"
  by (simp add: filled_string_def split: js.splits if_splits)

lemma nullable_Inr: "nullable_filled_string v e = Inr s \<Longrightarrow> filled_option s"
  by (auto simp: nullable_filled_string_def filled_option_def bind_res_Inr_iff dest: filled_string_Inr
      split: js.splits)

lemma read_worktree_ok: "read_worktree v = Inr w \<Longrightarrow> worktree_ok w"
  by (auto simp: read_worktree_def worktree_ok_def bind_res_Inr_iff dest: filled_string_Inr nullable_Inr
      split: js.splits)

lemma parse_skill_ok: "parse_skill_source e = Inr s \<Longrightarrow> skill_ok s"
  by (auto simp: parse_skill_source_def skill_ok_def non_blank_string_def bind_res_Inr_iff
      split: js.splits if_splits)

lemma parse_skills_ok: "parse_skill_sources v = Inr xs \<Longrightarrow> list_all skill_ok xs"
  by (auto simp: parse_skill_sources_def list_all_iff dest: map_res_set parse_skill_ok split: js.splits)

lemma read_request_ok: "read_create_request ob = Inr (r, h) \<Longrightarrow> request_ok r h"
  by (auto simp: read_create_request_def request_ok_def Let_def split: if_splits js.splits)

lemma read_inputs_ok: "read_leader_creation_inputs ob = Inr (p, xs) \<Longrightarrow> list_all skill_ok xs"
  by (cases "parse_skill_sources (js_or (jget ob ''leader_skill_sources'') (Arr []))")
    (auto simp: read_leader_creation_inputs_def bind_res_Inr_iff dest: parse_skills_ok)

lemma or_else_not_Undef: "js_or v Null \<noteq> Undef"
  by (cases v) (simp_all add: js_or_def)

lemma read_team_ok: "read_team did tid v = Inr r \<Longrightarrow> team_ok did tid r"
  by (auto simp: read_team_def team_ok_def bind_res_Inr_iff or_else_not_Undef
      dest: filled_string_Inr nullable_Inr read_request_ok read_inputs_ok read_worktree_ok
      split: js.splits if_splits)

interpretation teams: durable_owner "load_team did tid" encode_slot "slot_ok did tid" for did tid
proof (unfold_locales, goal_cases)
  case (1 v)
  then show ?case
    by (cases v) (simp_all add: load_team_def encode_slot_def slot_ok_def read_encode_team, simp add: read_team_def)
next
  case (2 f v)
  then show ?case
    by (auto simp: load_team_def slot_ok_def dest: read_team_ok split: option.splits json_file.splits sum.splits)
qed


subsection \<open>A closed record is final\<close>

datatype team_op =
    Publish ms team_record bool
  | Merge ms team_update bool
  | Restart

definition team_op_ok :: "team_op \<Rightarrow> bool" where
  "team_op_ok q =
     (case q of Merge _ u _ \<Rightarrow> (case tu_worktree u of None \<Rightarrow> True | Some w \<Rightarrow> worktree_ok w) | _ \<Rightarrow> True)"

fun team_op_run ::
  "string \<Rightarrow> string \<Rightarrow> team_op \<Rightarrow> (team_record option, json_file) tstore \<Rightarrow>
   (team_error store_error + team_record option) \<times> (team_record option, json_file) tstore" where
  "team_op_run did tid (Publish now r ok) st = publish_record did now (r\<lparr>tr_team := tid\<rparr>) ok st"
| "team_op_run did tid (Merge now u ok) st = merge_record did tid now u ok st"
| "team_op_run did tid Restart st = store_load (load_team did tid) (fresh_store (disk st))"

fun team_run ::
  "string \<Rightarrow> string \<Rightarrow> team_op list \<Rightarrow> (team_record option, json_file) tstore \<Rightarrow>
   (team_error store_error + team_record option) list \<times> (team_record option, json_file) tstore" where
  "team_run did tid [] st = ([], st)"
| "team_run did tid (q # qs) st =
     (let (x, st1) = team_op_run did tid q st; (xs, st2) = team_run did tid qs st1 in (x # xs, st2))"

definition same_team :: "team_record \<Rightarrow> team_record \<Rightarrow> bool" where
  "same_team r r' \<longleftrightarrow>
     (tr_dispatcher r, tr_team r, tr_name r, tr_leader r, tr_runtime r, tr_repo_cwd r, tr_source_repo r,
      tr_runtime_cwd r, tr_prompt r, tr_skills r, tr_request r, tr_payload r) =
     (tr_dispatcher r', tr_team r', tr_name r', tr_leader r', tr_runtime r', tr_repo_cwd r', tr_source_repo r',
      tr_runtime_cwd r', tr_prompt r', tr_skills r', tr_request r', tr_payload r')"

lemma merged_team_ok:
  assumes "team_ok did tid r" and "team_op_ok (Merge now u ok)"
  shows "team_ok did tid (merged now u r)"
  using assms by (auto simp: team_ok_def merged_def Let_def team_op_ok_def split: option.splits)

lemma merged_same: "same_team r (merged now u r)"
  by (simp add: same_team_def merged_def Let_def)

lemma merged_closed: "tr_status r = Ts_Closed \<Longrightarrow> tr_status (merged now u r) = Ts_Closed"
  by (simp add: merged_def Let_def)

lemma store_load_known:
  assumes ok: "store_ok (load_team did tid) (slot_ok did tid) st"
    and known: "load_team did tid (disk st) = Inr (Some r)"
  shows "\<exists>st1. store_load (load_team did tid) st = (Inr (Some r) :: team_error store_error + team_record option, st1) \<and>
    disk st1 = disk st \<and> store_ok (load_team did tid) (slot_ok did tid) st1"
proof (cases "slot st")
  case None
  then show ?thesis
    using known teams.load_valid [OF known] by (simp add: store_load_def store_ok_def)
next
  case (Some v)
  then have "v = Some r" using ok known by (simp add: store_ok_def load_team_def)
  then show ?thesis using Some ok by (simp add: store_load_def store_ok_def)
qed


definition closed_on_disk :: "string \<Rightarrow> string \<Rightarrow> team_record \<Rightarrow> (team_record option, json_file) tstore \<Rightarrow> bool" where
  "closed_on_disk did tid r st \<longleftrightarrow>
     store_ok (load_team did tid) (slot_ok did tid) st \<and>
     (case load_team did tid (disk st) of
        Inr (Some r') \<Rightarrow> tr_status r' = Ts_Closed \<and> same_team r r'
      | _ \<Rightarrow> False)"

lemma closed_on_diskE:
  assumes "closed_on_disk did tid r st"
  obtains r' where "store_ok (load_team did tid) (slot_ok did tid) st" "load_team did tid (disk st) = Inr (Some r')"
    "tr_status r' = Ts_Closed" "same_team r r'" "team_ok did tid r'"
proof -
  obtain r' where r': "load_team did tid (disk st) = Inr (Some r')"
    using assms by (auto simp: closed_on_disk_def split: sum.splits option.splits)
  then have "team_ok did tid r'" using teams.load_valid [OF r'] by (simp add: slot_ok_def)
  then show thesis using that assms r' by (simp add: closed_on_disk_def)
qed

lemma closed_on_disk_same:
  assumes "closed_on_disk did tid r st" and "disk st1 = disk st"
    and "store_ok (load_team did tid) (slot_ok did tid) st1"
  shows "closed_on_disk did tid r st1"
  using assms by (simp add: closed_on_disk_def)

lemma closed_publish:
  assumes closed: "closed_on_disk did tid r st" and tid: "tr_team q = tid"
  shows "closed_on_disk did tid r (snd (publish_record did now q ok st)) \<and>
    fst (publish_record did now q ok st) \<noteq> Inr (Some x)"
proof (cases "validate_team_id (tr_team q)")
  case (Inl e)
  then show ?thesis using closed by (simp add: publish_record_def)
next
  case (Inr n)
  then have n: "n = tid" using tid by (simp add: validate_team_id_def split: if_splits)
  from closed obtain r' where st: "store_ok (load_team did tid) (slot_ok did tid) st"
      "load_team did tid (disk st) = Inr (Some r')"
    by (rule closed_on_diskE)
  obtain st1 where load: "store_load (load_team did tid) st =
        (Inr (Some r') :: team_error store_error + team_record option, st1)"
      and st1: "disk st1 = disk st" "store_ok (load_team did tid) (slot_ok did tid) st1"
    using store_load_known [OF st] by blast
  have "publish_record did now q ok st = (Inr None, st1)"
    using Inr load by (simp add: publish_record_def n Let_def store_update_def publish_change_def)
  then show ?thesis
    using closed_on_disk_same [OF closed st1] by simp
qed

lemma closed_merge:
  assumes closed: "closed_on_disk did tid r st" and ok: "team_op_ok (Merge now u w)"
  shows "closed_on_disk did tid r (snd (merge_record did tid now u w st))"
proof -
  from closed obtain r' where st: "store_ok (load_team did tid) (slot_ok did tid) st"
      "load_team did tid (disk st) = Inr (Some r')" and r': "tr_status r' = Ts_Closed" "same_team r r'"
      "team_ok did tid r'"
    by (rule closed_on_diskE)
  obtain st1 where load: "store_load (load_team did tid) st =
        (Inr (Some r') :: team_error store_error + team_record option, st1)"
      and st1: "disk st1 = disk st" "store_ok (load_team did tid) (slot_ok did tid) st1"
    using store_load_known [OF st] by blast
  let ?m = "merged now u r'"
  have m: "team_ok did tid ?m" by (rule merged_team_ok [OF r'(3) ok])
  have reload: "load_team did tid (Some (encode_slot (Some ?m))) = Inr (Some ?m)"
    by (rule teams.load_enc) (simp add: slot_ok_def m)
  show ?thesis
  proof (cases w)
    case False
    then have "snd (merge_record did tid now u w st) = st1"
      using load by (simp add: merge_record_def store_update_def merge_change_def)
    then show ?thesis using closed_on_disk_same [OF closed st1] by simp
  next
    case True
    then have "snd (merge_record did tid now u w st) =
        st1\<lparr>disk := Some (encode_slot (Some ?m)), slot := Some (Some ?m)\<rparr>"
      using load by (simp add: merge_record_def store_update_def merge_change_def)
    moreover have "same_team r ?m"
      using r'(2) merged_same [of r' now u] by (simp add: same_team_def)
    ultimately show ?thesis
      using reload m merged_closed [OF r'(1)] by (simp add: closed_on_disk_def store_ok_def slot_ok_def)
  qed
qed

lemma closed_restart:
  assumes closed: "closed_on_disk did tid r st"
  shows "closed_on_disk did tid r (snd (store_load (load_team did tid) (fresh_store (disk st)) ::
    (team_error store_error + team_record option) \<times> (team_record option, json_file) tstore))"
proof -
  let ?f = "fresh_store (disk st) :: (team_record option, json_file) tstore"
  have fresh: "closed_on_disk did tid r ?f"
    using closed by (auto simp: closed_on_disk_def fresh_store_def store_ok_def)
  from fresh obtain r' where st: "store_ok (load_team did tid) (slot_ok did tid) ?f"
      "load_team did tid (disk ?f) = Inr (Some r')"
    by (rule closed_on_diskE)
  obtain st1 where load: "store_load (load_team did tid) ?f =
        (Inr (Some r') :: team_error store_error + team_record option, st1)"
      and st1: "disk st1 = disk ?f" "store_ok (load_team did tid) (slot_ok did tid) st1"
    using store_load_known [OF st] by blast
  show ?thesis
    unfolding load using closed_on_disk_same [OF fresh st1] by simp
qed

lemma closed_step:
  assumes "closed_on_disk did tid r st" and "team_op_ok q"
  shows "closed_on_disk did tid r (snd (team_op_run did tid q st)) \<and>
    (\<forall>now p ok x. q = Publish now p ok \<longrightarrow> fst (team_op_run did tid q st) \<noteq> Inr (Some x))"
proof (cases q)
  case (Publish now p ok)
  then show ?thesis using closed_publish [OF assms(1)] by simp
next
  case (Merge now u w)
  then show ?thesis using closed_merge [OF assms(1)] assms(2) by simp
next
  case Restart
  then show ?thesis using closed_restart [OF assms(1)] by simp
qed

text \<open>
  C32. A closed Team record is final.  Once the record a reload of its file gives is closed, then after
  any queue of publications, merges (each with its write succeeding or failing) and process restarts,
  the file still holds a closed record of the same Team (names, leader, runtime, directories and the
  request it was created for unchanged), what memory holds is what a restart would read, and no
  publication took the name.
\<close>

theorem closed_team_is_final:
  assumes "store_ok (load_team did tid) (slot_ok did tid) st"
    and "load_team did tid (disk st) = Inr (Some r)" and "tr_status r = Ts_Closed"
    and "\<forall>q \<in> set qs. team_op_ok q"
  shows "let (xs, st') = team_run did tid qs st in
    (\<exists>r'. load_team did tid (disk st') = Inr (Some r') \<and> tr_status r' = Ts_Closed \<and> same_team r r' \<and>
       slot st' \<in> {None, Some (Some r')}) \<and>
    (\<forall>(q, x) \<in> set (zip qs xs). \<forall>now p ok t. q = Publish now p ok \<longrightarrow> x \<noteq> Inr (Some t))"
proof -
  have start: "closed_on_disk did tid r st"
    using assms(1-3) by (simp add: closed_on_disk_def same_team_def)
  have run: "closed_on_disk did tid r (snd (team_run did tid qs st)) \<and>
      (\<forall>(q, x) \<in> set (zip qs (fst (team_run did tid qs st))).
        \<forall>now p ok t. q = Publish now p ok \<longrightarrow> x \<noteq> Inr (Some t))"
    using start assms(4)
  proof (induction qs arbitrary: st)
    case (Cons q qs)
    note step = closed_step [OF Cons.prems(1), of q]
    show ?case
      using step Cons.IH [of "snd (team_op_run did tid q st)"] Cons.prems(2) by (auto simp: Let_def split_def)
  qed simp
  then obtain r' where st': "store_ok (load_team did tid) (slot_ok did tid) (snd (team_run did tid qs st))"
      "load_team did tid (disk (snd (team_run did tid qs st))) = Inr (Some r')" "tr_status r' = Ts_Closed"
      "same_team r r'"
    by (auto elim: closed_on_diskE)
  then have "slot (snd (team_run did tid qs st)) \<in> {None, Some (Some r')}"
    by (cases "slot (snd (team_run did tid qs st))") (auto simp: store_ok_def)
  then show ?thesis
    using run st' by (auto simp: split_def Let_def)
qed


definition closed_team :: team_record where
  "closed_team =
     \<lparr> tr_dispatcher = ''d'', tr_team = ''web-ab12'', tr_name = ''web-ab12'', tr_repo_cwd = ''/r'',
       tr_source_repo = None, tr_leader = ''tl-web'', tr_runtime = ''codex'', tr_prompt = None, tr_skills = [],
       tr_runtime_cwd = ''/r'',
       tr_worktree = \<lparr> wt_mode = Reuse_Cwd, wt_slug = None, wt_path = ''/r'', wt_branch = None, wt_base_ref = None,
         wt_cleanup = Keep, wt_state = Not_Managed, wt_error = None \<rparr>,
       tr_status = Ts_Closed, tr_intent = Str ''site'', tr_created = Num 1, tr_updated = Num 2,
       tr_closed_at = Num 2, tr_note = Null, tr_request = None, tr_payload = None, tr_force = False \<rparr>"

theorem closed_team_is_final_witness:
  "\<exists>r'. load_team ''d'' ''web-ab12'' (disk (snd (team_run ''d'' ''web-ab12''
      [Merge 3 (no_update\<lparr>tu_status := Some Ts_Running\<rparr>) True, Restart, Publish 4 closed_team True]
      (fresh_store (Some (encode_slot (Some closed_team))))))) = Inr (Some r') \<and>
    tr_status r' = Ts_Closed \<and> same_team closed_team r'"
proof -
  have "slot_ok ''d'' ''web-ab12'' (Some closed_team)"
    by (simp add: slot_ok_def team_ok_def closed_team_def filled_option_def worktree_ok_def request_ok_def)
  then have load: "load_team ''d'' ''web-ab12'' (disk (fresh_store (Some (encode_slot (Some closed_team))))) =
      Inr (Some closed_team)"
    using teams.load_enc by (simp add: fresh_store_def)
  have ops: "\<forall>q \<in> set [Merge 3 (no_update\<lparr>tu_status := Some Ts_Running\<rparr>) True, Restart,
      Publish 4 closed_team True]. team_op_ok q"
    by (simp add: team_op_ok_def no_update_def)
  have "tr_status closed_team = Ts_Closed" by (simp add: closed_team_def)
  from closed_team_is_final [OF store_ok_fresh load this ops] show ?thesis
    by (auto simp: Let_def split_def)
qed

end
