(* ===== verification/Agent_Store.thy ===== *)
theory Agent_Store
  imports Team_Store
begin

text \<open>
  \<^verbatim>\<open>packages/dreamux/src/service/agent/store.ts\<close> with the record of \<^verbatim>\<open>identity.ts\<close>: the durable identity of one
  Agent, the reader of its file, and the store that creates, updates and reconciles it and announces
  what it committed.

  The store is bound to a directory; \<open>expected\<close> is the name that directory encodes, \<open>None\<close> at the root of
  a dispatcher or a Team.  The announcements are a ghost list, oldest first.  A worktree and a skill
  source are those of \<open>Team_Store\<close>, which the code shares; the reader of a worktree is another one.
\<close>

subsection \<open>The record\<close>

datatype member_status = Ag_Starting | Ag_Running | Ag_Degraded | Ag_Closed | Ag_Stopped

record agent_identity =
  ai_dispatcher :: string
  ai_name :: string
  ai_team :: "string option"
  ai_runtime :: string
  ai_session :: "string option"
  ai_source_cwd :: string
  ai_source_repo :: "string option"
  ai_cwd :: string
  ai_runtime_cwd :: string
  ai_worktree :: worktree
  ai_intent :: "string option"
  ai_prompt :: "string option"
  ai_skills :: "skill_source list"
  ai_created :: ms
  ai_updated :: ms
  ai_status :: member_status
  ai_error :: "string option"
  ai_closed_at :: "ms option"
  ai_note :: "string option"

subsection \<open>Reading the file\<close>

datatype identity_error =
    Legacy_State
  | Invalid_Identity
  | Invalid_Session
  | Invalid_Identity_Worktree
  | Invalid_Status
  | Invalid_Identity_Skills skill_rule
  | Identity_Unreadable
  | No_Identity
  | Bad_Identity_Name name_rule

definition string_or_none :: "js \<Rightarrow> string option" where
  "string_or_none v = (case v of Str s \<Rightarrow> Some s | _ \<Rightarrow> None)"

definition number_or_none :: "js \<Rightarrow> ms option" where
  "number_or_none v = (case v of Num r \<Rightarrow> Some r | _ \<Rightarrow> None)"

definition need_string :: "js \<Rightarrow> identity_error + string" where
  "need_string v = (case v of Str s \<Rightarrow> Inr s | _ \<Rightarrow> Inl Invalid_Identity)"

definition need_number :: "js \<Rightarrow> identity_error + ms" where
  "need_number v = (case v of Num r \<Rightarrow> Inr r | _ \<Rightarrow> Inl Invalid_Identity)"

definition need_literal :: "(string \<times> 'a) list \<Rightarrow> js \<Rightarrow> identity_error \<Rightarrow> identity_error + 'a" where
  "need_literal tab v e =
     (case v of Str s \<Rightarrow> (case map_of tab s of None \<Rightarrow> Inl e | Some x \<Rightarrow> Inr x) | _ \<Rightarrow> Inl e)"

definition IDENTITY_STATUSES :: "(string \<times> member_status) list" where
  "IDENTITY_STATUSES =
     [(''starting'', Ag_Starting), (''running'', Ag_Running), (''degraded'', Ag_Degraded), (''closed'', Ag_Closed),
      (''stopped'', Ag_Stopped)]"

definition read_session_id :: "js \<Rightarrow> identity_error + string option" where
  "read_session_id v =
     (case v of
        Undef \<Rightarrow> Inr None
      | Null \<Rightarrow> Inr None
      | Str s \<Rightarrow> if s = '''' then Inl Invalid_Session else Inr (Some s)
      | _ \<Rightarrow> Inl Invalid_Session)"

definition read_worktree_identity :: "js \<Rightarrow> identity_error + worktree" where
  "read_worktree_identity v =
     (case v of
        Obj ob \<Rightarrow>
          bind_res (need_literal cleanup_states (jget ob ''cleanup_state'') Invalid_Identity_Worktree) (\<lambda>state.
          bind_res (need_literal worktree_modes (jget ob ''mode'') Invalid_Identity_Worktree) (\<lambda>mode.
          bind_res (case jget ob ''path'' of Str s \<Rightarrow> Inr s | _ \<Rightarrow> Inl Invalid_Identity_Worktree) (\<lambda>path.
          bind_res (need_literal worktree_cleanups (jget ob ''cleanup'') Invalid_Identity_Worktree) (\<lambda>cleanup.
            Inr \<lparr>wt_mode = mode, wt_slug = string_or_none (jget ob ''slug''), wt_path = path,
                 wt_branch = string_or_none (jget ob ''branch''), wt_base_ref = string_or_none (jget ob ''base_ref''),
                 wt_cleanup = cleanup, wt_state = state, wt_error = string_or_none (jget ob ''cleanup_error'')\<rparr>))))
      | _ \<Rightarrow> Inl Invalid_Identity_Worktree)"

definition read_identity_skills :: "js \<Rightarrow> identity_error + skill_source list" where
  "read_identity_skills v =
     (case parse_skill_sources v of Inl e \<Rightarrow> Inl (Invalid_Identity_Skills e) | Inr xs \<Rightarrow> Inr xs)"

definition is_string :: "js \<Rightarrow> bool" where
  "is_string v = (case v of Str _ \<Rightarrow> True | _ \<Rightarrow> False)"

definition read_identity :: "string \<Rightarrow> string option \<Rightarrow> js \<Rightarrow> identity_error + agent_identity" where
  "read_identity did expected v =
     (case v of
        Obj ob \<Rightarrow>
          if \<not> is_string (jget ob ''agent_runtime'') \<and> is_string (jget ob ''provider_ref'') then Inl Legacy_State
          else if jget ob ''version'' \<noteq> Num 1 \<or> jget ob ''dispatcher_id'' \<noteq> Str did \<or>
             (\<exists>n \<in> set_option expected. jget ob ''name'' \<noteq> Str n)
          then Inl Invalid_Identity
          else
            bind_res (need_string (jget ob ''name'')) (\<lambda>nm.
            bind_res (need_string (jget ob ''agent_runtime'')) (\<lambda>runtime.
            bind_res (need_string (jget ob ''cwd'')) (\<lambda>cwd.
            bind_res (need_string (jget ob ''source_cwd'')) (\<lambda>src.
            bind_res (need_string (jget ob ''runtime_cwd'')) (\<lambda>rcwd.
            bind_res (need_number (jget ob ''created_at'')) (\<lambda>created.
            bind_res (need_number (jget ob ''updated_at'')) (\<lambda>updated.
            bind_res (case jget ob ''skill_sources'' of Arr xs \<Rightarrow> Inr (Arr xs) | _ \<Rightarrow> Inl Invalid_Identity) (\<lambda>sk.
            bind_res (read_session_id (jget ob ''session_id'')) (\<lambda>session.
            bind_res (read_worktree_identity (jget ob ''worktree'')) (\<lambda>wt.
            bind_res (read_identity_skills sk) (\<lambda>skills.
            bind_res (need_literal IDENTITY_STATUSES (jget ob ''status'') Invalid_Status) (\<lambda>status.
              Inr \<lparr>ai_dispatcher = did, ai_name = nm, ai_team = string_or_none (jget ob ''team_id''),
                   ai_runtime = runtime, ai_session = session, ai_source_cwd = src,
                   ai_source_repo = string_or_none (jget ob ''source_repo''), ai_cwd = cwd, ai_runtime_cwd = rcwd,
                   ai_worktree = wt, ai_intent = string_or_none (jget ob ''intent''),
                   ai_prompt = string_or_none (jget ob ''identity_prompt''), ai_skills = skills,
                   ai_created = created, ai_updated = updated, ai_status = status,
                   ai_error = string_or_none (jget ob ''last_error''),
                   ai_closed_at = number_or_none (jget ob ''closed_at''),
                   ai_note = string_or_none (jget ob ''close_note'')\<rparr>))))))))))))
      | _ \<Rightarrow> Inl Invalid_Identity)"

text \<open>A legacy record fails loud; any other file that is not an identity reads as no identity.\<close>

definition load_identity :: "string \<Rightarrow> string option \<Rightarrow> json_file option \<Rightarrow> identity_error + agent_identity option" where
  "load_identity did expected f =
     (case f of
        None \<Rightarrow> Inr None
      | Some Jf_Unreadable \<Rightarrow> Inl Identity_Unreadable
      | Some Jf_Malformed \<Rightarrow> Inr None
      | Some (Jf_Value v) \<Rightarrow>
          (case read_identity did expected v of
             Inr r \<Rightarrow> Inr (Some r)
           | Inl e \<Rightarrow> if e = Legacy_State then Inl Legacy_State else Inr None))"

subsection \<open>Writing the file\<close>

fun agent_status_name :: "member_status \<Rightarrow> string" where
  "agent_status_name Ag_Starting = ''starting''"
| "agent_status_name Ag_Running = ''running''"
| "agent_status_name Ag_Degraded = ''degraded''"
| "agent_status_name Ag_Closed = ''closed''"
| "agent_status_name Ag_Stopped = ''stopped''"

definition ms_or_null :: "ms option \<Rightarrow> js" where
  "ms_or_null v = (case v of None \<Rightarrow> Null | Some r \<Rightarrow> Num r)"

definition encode_identity :: "agent_identity \<Rightarrow> js" where
  "encode_identity r = Obj
     [(''version'', Num 1), (''dispatcher_id'', Str (ai_dispatcher r)), (''name'', Str (ai_name r)),
      (''team_id'', team_str_or_null (ai_team r)), (''agent_runtime'', Str (ai_runtime r)),
      (''session_id'', team_str_or_null (ai_session r)), (''source_cwd'', Str (ai_source_cwd r)),
      (''source_repo'', team_str_or_null (ai_source_repo r)), (''cwd'', Str (ai_cwd r)),
      (''runtime_cwd'', Str (ai_runtime_cwd r)), (''worktree'', encode_worktree (ai_worktree r)),
      (''intent'', team_str_or_null (ai_intent r)), (''identity_prompt'', team_str_or_null (ai_prompt r)),
      (''skill_sources'', Arr (map encode_skill (ai_skills r))), (''created_at'', Num (ai_created r)),
      (''updated_at'', Num (ai_updated r)), (''status'', Str (agent_status_name (ai_status r))),
      (''last_error'', team_str_or_null (ai_error r)), (''closed_at'', ms_or_null (ai_closed_at r)),
      (''close_note'', team_str_or_null (ai_note r))]"

definition encode_identity_slot :: "agent_identity option \<Rightarrow> json_file" where
  "encode_identity_slot v = Jf_Value (case v of None \<Rightarrow> Null | Some r \<Rightarrow> encode_identity r)"

subsection \<open>Building and merging\<close>

text \<open>What a creation states, with \<open>None\<close> where it leaves the default to \<^verbatim>\<open>buildIdentity\<close>.\<close>

record identity_creation =
  ic_name :: string
  ic_team :: "string option"
  ic_runtime :: string
  ic_session :: "string option"
  ic_source_cwd :: string
  ic_source_repo :: "string option"
  ic_cwd :: string
  ic_runtime_cwd :: string
  ic_worktree :: worktree
  ic_intent :: "string option"
  ic_prompt :: "string option"
  ic_skills :: "skill_source list"
  ic_status :: "member_status option"
  ic_replace :: bool

text \<open>A patch: the outer \<open>None\<close> leaves the field alone.\<close>

record identity_update =
  iu_name :: "string option"
  iu_team :: "string option option"
  iu_runtime :: "string option"
  iu_session :: "string option option"
  iu_source_cwd :: "string option"
  iu_source_repo :: "string option option"
  iu_cwd :: "string option"
  iu_runtime_cwd :: "string option"
  iu_worktree :: "worktree option"
  iu_intent :: "string option option"
  iu_prompt :: "string option option"
  iu_status :: "member_status option"
  iu_error :: "string option option"
  iu_closed_at :: "ms option option"
  iu_note :: "string option option"

definition no_identity_update :: identity_update where
  "no_identity_update =
     \<lparr> iu_name = None, iu_team = None, iu_runtime = None, iu_session = None, iu_source_cwd = None,
       iu_source_repo = None, iu_cwd = None, iu_runtime_cwd = None, iu_worktree = None, iu_intent = None,
       iu_prompt = None, iu_status = None, iu_error = None, iu_closed_at = None, iu_note = None \<rparr>"

definition build_identity :: "string \<Rightarrow> ms \<Rightarrow> identity_creation \<Rightarrow> agent_identity" where
  "build_identity did now c =
     \<lparr> ai_dispatcher = did, ai_name = ic_name c, ai_team = ic_team c, ai_runtime = ic_runtime c,
       ai_session = ic_session c, ai_source_cwd = ic_source_cwd c, ai_source_repo = ic_source_repo c,
       ai_cwd = ic_cwd c, ai_runtime_cwd = ic_runtime_cwd c, ai_worktree = ic_worktree c, ai_intent = ic_intent c,
       ai_prompt = ic_prompt c, ai_skills = ic_skills c, ai_created = now, ai_updated = now,
       ai_status = (case ic_status c of None \<Rightarrow> Ag_Starting | Some st \<Rightarrow> st), ai_error = None,
       ai_closed_at = None, ai_note = None \<rparr>"

definition patched :: "'a option \<Rightarrow> 'a \<Rightarrow> 'a" where
  "patched p old = (case p of None \<Rightarrow> old | Some v \<Rightarrow> v)"

definition merge_identity :: "ms \<Rightarrow> identity_update \<Rightarrow> agent_identity \<Rightarrow> agent_identity" where
  "merge_identity now u r =
     r\<lparr>ai_name := patched (iu_name u) (ai_name r), ai_team := patched (iu_team u) (ai_team r),
       ai_runtime := patched (iu_runtime u) (ai_runtime r), ai_session := patched (iu_session u) (ai_session r),
       ai_source_cwd := patched (iu_source_cwd u) (ai_source_cwd r),
       ai_source_repo := patched (iu_source_repo u) (ai_source_repo r), ai_cwd := patched (iu_cwd u) (ai_cwd r),
       ai_runtime_cwd := patched (iu_runtime_cwd u) (ai_runtime_cwd r),
       ai_worktree := patched (iu_worktree u) (ai_worktree r), ai_intent := patched (iu_intent u) (ai_intent r),
       ai_prompt := patched (iu_prompt u) (ai_prompt r), ai_status := patched (iu_status u) (ai_status r),
       ai_error := patched (iu_error u) (ai_error r), ai_closed_at := patched (iu_closed_at u) (ai_closed_at r),
       ai_note := patched (iu_note u) (ai_note r), ai_updated := now\<rparr>"

subsection \<open>The store\<close>

record identity_store =
  is_store :: "(agent_identity option, json_file) tstore"
  is_committed :: "agent_identity list"

definition bind_identity_store :: "json_file option \<Rightarrow> identity_store" where
  "bind_identity_store f = \<lparr> is_store = fresh_store f, is_committed = [] \<rparr>"

definition current_identity :: "identity_store \<Rightarrow> agent_identity option" where
  "current_identity s = (case slot (is_store s) of Some v \<Rightarrow> v | None \<Rightarrow> None)"

type_synonym identity_result = "identity_error store_error + agent_identity option"

definition read_store :: "string \<Rightarrow> string option \<Rightarrow> identity_store \<Rightarrow> identity_result \<times> identity_store" where
  "read_store did expected s =
     (case store_load (load_identity did expected) (is_store s) of (x, st) \<Rightarrow> (x, s\<lparr>is_store := st\<rparr>))"

definition announce :: "agent_identity \<Rightarrow> identity_store \<Rightarrow> identity_store" where
  "announce r s = s\<lparr>is_committed := is_committed s @ [r]\<rparr>"

text \<open>The commit of a whole record, and what it announces.\<close>

definition put_identity :: "agent_identity \<Rightarrow> bool \<Rightarrow> bool \<Rightarrow> identity_store \<Rightarrow> identity_result \<times> identity_store" where
  "put_identity r replace write_ok s =
     (case store_create encode_identity_slot (Some r) replace write_ok (\<lambda>_. None :: identity_error option) (is_store s) of
        (Inl e, st) \<Rightarrow> (Inl e, s\<lparr>is_store := st\<rparr>)
      | (Inr v, st) \<Rightarrow> (Inr v, announce r (s\<lparr>is_store := st\<rparr>)))"

definition create_identity ::
  "string \<Rightarrow> ms \<Rightarrow> identity_creation \<Rightarrow> bool \<Rightarrow> identity_store \<Rightarrow> identity_result \<times> identity_store" where
  "create_identity did now c write_ok s =
     (case validate_agent_entity_name (ic_name c) of
        Inl e \<Rightarrow> (Inl (Change_Error (Bad_Identity_Name e)), s)
      | Inr _ \<Rightarrow> put_identity (build_identity did now c) (ic_replace c) write_ok s)"

definition identity_change ::
  "ms \<Rightarrow> (agent_identity \<Rightarrow> identity_error + identity_update) \<Rightarrow> agent_identity option \<Rightarrow>
   identity_error + agent_identity option option" where
  "identity_change now patch current =
     (case current of
        None \<Rightarrow> Inl No_Identity
      | Some r \<Rightarrow> (case patch r of Inl e \<Rightarrow> Inl e | Inr u \<Rightarrow> Inr (Some (Some (merge_identity now u r)))))"

text \<open>The announcement runs after the commit, with the value that was current before it.\<close>

definition status_changed :: "agent_identity option \<Rightarrow> agent_identity option \<Rightarrow> agent_identity list" where
  "status_changed now_v before =
     (case (now_v, before) of
        (Some r, Some p) \<Rightarrow> if ai_status r \<noteq> ai_status p then [r] else []
      | _ \<Rightarrow> [])"

definition update_identity ::
  "string \<Rightarrow> string option \<Rightarrow> ms \<Rightarrow> (agent_identity \<Rightarrow> identity_error + identity_update) \<Rightarrow> bool \<Rightarrow> identity_store \<Rightarrow>
   identity_result \<times> identity_store" where
  "update_identity did expected now patch write_ok s =
     (let before = (case store_load (load_identity did expected) (is_store s) of
                      (Inr v, _) \<Rightarrow> (v :: agent_identity option)
                    | (Inl (_ :: identity_error store_error), _) \<Rightarrow> None)
      in case store_update (load_identity did expected) encode_identity_slot (identity_change now patch) write_ok
             (\<lambda>_ _. None) (is_store s) of
           (Inl e, st) \<Rightarrow> (Inl e, s\<lparr>is_store := st\<rparr>)
         | (Inr v, st) \<Rightarrow>
             (Inr v, s\<lparr>is_store := st, is_committed := is_committed s @ status_changed v before\<rparr>))"

definition upsert_identity ::
  "string \<Rightarrow> string option \<Rightarrow> ms \<Rightarrow> identity_creation \<Rightarrow> (agent_identity \<Rightarrow> identity_update) \<Rightarrow> bool \<Rightarrow> identity_store \<Rightarrow>
   identity_result \<times> identity_store" where
  "upsert_identity did expected now c reconcile write_ok s =
     (case read_store did expected s of
        (Inl e, s') \<Rightarrow> (Inl e, s')
      | (Inr None, s') \<Rightarrow> put_identity (build_identity did now c) True write_ok s'
      | (Inr (Some r), s') \<Rightarrow> put_identity (merge_identity now (reconcile r) r) True write_ok s')"

subsection \<open>The collection on disk\<close>

text \<open>The members under one root, each with its file; an entry that does not read is skipped.\<close>

definition list_identities ::
  "string \<Rightarrow> (string \<times> json_file option) list \<Rightarrow> identity_error + agent_identity list" where
  "list_identities did dirs =
     bind_res (map_res (\<lambda>(n, f). load_identity did (Some n) f) (filter (\<lambda>(n, _). TEAMMATE_NAME_PATTERN n) dirs))
       (\<lambda>rs. Inr (concat (map (\<lambda>r. case r of None \<Rightarrow> [] | Some i \<Rightarrow> [i]) rs)))"

definition find_managed_worktree_owner ::
  "string \<Rightarrow> (string \<times> json_file option) list \<Rightarrow> string \<Rightarrow> string \<Rightarrow> identity_error + string option" where
  "find_managed_worktree_owner did dirs path excluding =
     bind_res (list_identities did dirs) (\<lambda>rs.
       Inr (map_option ai_name
         (find (\<lambda>r. ai_name r \<noteq> excluding \<and> wt_mode (ai_worktree r) = Managed \<and> wt_path (ai_worktree r) = path) rs)))"

subsection \<open>What is written is what is read\<close>

definition identity_ok :: "string \<Rightarrow> string option \<Rightarrow> agent_identity \<Rightarrow> bool" where
  "identity_ok did expected r \<longleftrightarrow>
     ai_dispatcher r = did \<and> (\<forall>n \<in> set_option expected. ai_name r = n) \<and> ai_session r \<noteq> Some '''' \<and>
     list_all skill_ok (ai_skills r)"

definition identity_slot_ok :: "string \<Rightarrow> string option \<Rightarrow> agent_identity option \<Rightarrow> bool" where
  "identity_slot_ok did expected v \<longleftrightarrow> (\<forall>r \<in> set_option v. identity_ok did expected r)"

lemma need_simps [simp]:
  "need_string (Str s) = Inr s" "need_number (Num r) = Inr r" "string_or_none (team_str_or_null v) = v"
  "number_or_none (ms_or_null w) = w" "is_string (Str s)"
  "need_literal worktree_modes (Str (mode_name m)) e = Inr m"
  "need_literal worktree_cleanups (Str (cleanup_name c)) e = Inr c"
  "need_literal cleanup_states (Str (state_name st)) e = Inr st"
  "need_literal IDENTITY_STATUSES (Str (agent_status_name a)) e = Inr a"
proof -
  show "need_literal worktree_modes (Str (mode_name m)) e = Inr m"
    by (cases m) (simp_all add: need_literal_def worktree_modes_def)
  show "need_literal worktree_cleanups (Str (cleanup_name c)) e = Inr c"
    by (cases c) (simp_all add: need_literal_def worktree_cleanups_def)
  show "need_literal cleanup_states (Str (state_name st)) e = Inr st"
    by (cases st) (simp_all add: need_literal_def cleanup_states_def)
  show "need_literal IDENTITY_STATUSES (Str (agent_status_name a)) e = Inr a"
    by (cases a) (simp_all add: need_literal_def IDENTITY_STATUSES_def)
  show "string_or_none (team_str_or_null v) = v"
    by (cases v) (simp_all add: string_or_none_def team_str_or_null_def)
  show "number_or_none (ms_or_null w) = w"
    by (cases w) (simp_all add: number_or_none_def ms_or_null_def)
qed (simp_all add: need_string_def need_number_def is_string_def)

lemma read_encode_session: "v \<noteq> Some '''' \<Longrightarrow> read_session_id (team_str_or_null v) = Inr v"
  by (cases v) (simp_all add: read_session_id_def team_str_or_null_def)

lemma read_encode_worktree_identity: "read_worktree_identity (encode_worktree w) = Inr w"
  by (simp add: read_worktree_identity_def encode_worktree_def)

lemma read_encode_identity:
  assumes ok: "identity_ok did expected r"
  shows "read_identity did expected (encode_identity r) = Inr r"
proof -
  obtain ob where ob: "encode_identity r = Obj ob" and fields:
      "jget ob ''version'' = Num 1" "jget ob ''dispatcher_id'' = Str (ai_dispatcher r)"
      "jget ob ''name'' = Str (ai_name r)" "jget ob ''team_id'' = team_str_or_null (ai_team r)"
      "jget ob ''agent_runtime'' = Str (ai_runtime r)" "jget ob ''session_id'' = team_str_or_null (ai_session r)"
      "jget ob ''source_cwd'' = Str (ai_source_cwd r)" "jget ob ''source_repo'' = team_str_or_null (ai_source_repo r)"
      "jget ob ''cwd'' = Str (ai_cwd r)" "jget ob ''runtime_cwd'' = Str (ai_runtime_cwd r)"
      "jget ob ''worktree'' = encode_worktree (ai_worktree r)" "jget ob ''intent'' = team_str_or_null (ai_intent r)"
      "jget ob ''identity_prompt'' = team_str_or_null (ai_prompt r)"
      "jget ob ''skill_sources'' = Arr (map encode_skill (ai_skills r))"
      "jget ob ''created_at'' = Num (ai_created r)" "jget ob ''updated_at'' = Num (ai_updated r)"
      "jget ob ''status'' = Str (agent_status_name (ai_status r))" "jget ob ''last_error'' = team_str_or_null (ai_error r)"
      "jget ob ''closed_at'' = ms_or_null (ai_closed_at r)" "jget ob ''close_note'' = team_str_or_null (ai_note r)"
    unfolding encode_identity_def by (atomize_elim) simp
  have "parse_skill_sources (Arr (map encode_skill (ai_skills r))) = Inr (ai_skills r)"
    using ok by (intro parse_encode_skills) (simp add: identity_ok_def)
  then show ?thesis
    using ok
    by (simp add: ob read_identity_def fields identity_ok_def read_encode_session read_encode_worktree_identity
        read_identity_skills_def)
qed

lemma read_skills_Inr [simp]: "read_identity_skills v = Inr xs \<longleftrightarrow> parse_skill_sources v = Inr xs"
  by (simp add: read_identity_skills_def split: sum.split)

lemma read_session_ok: "read_session_id v = Inr s \<Longrightarrow> s \<noteq> Some ''''"
  by (auto simp: read_session_id_def split: js.splits if_splits)

lemma read_identity_ok:
  assumes "read_identity did expected v = Inr r"
  shows "identity_ok did expected r"
proof -
  obtain ob where ob: "v = Obj ob" using assms by (cases v) (simp_all add: read_identity_def)
  have guard: "\<forall>n \<in> set_option expected. jget ob ''name'' = Str n"
    using assms unfolding ob read_identity_def by (auto split: if_splits)
  obtain sk where sk: "parse_skill_sources sk = Inr (ai_skills r)" and
      rest: "need_string (jget ob ''name'') = Inr (ai_name r)" "read_session_id (jget ob ''session_id'') = Inr (ai_session r)"
        "ai_dispatcher r = did"
    using assms unfolding ob read_identity_def
    by (auto simp: bind_res_Inr_iff split: if_splits)
  show ?thesis
    using parse_skills_ok [OF sk] read_session_ok [OF rest(2)] rest guard
    by (auto simp: identity_ok_def need_string_def)
qed

interpretation identities: durable_owner "load_identity did expected" encode_identity_slot "identity_slot_ok did expected"
  for did expected
proof (unfold_locales, goal_cases)
  case (1 v)
  then show ?case
    by (cases v) (simp_all add: load_identity_def encode_identity_slot_def identity_slot_ok_def read_encode_identity,
        simp add: read_identity_def)
next
  case (2 f v)
  then show ?case
    by (auto simp: load_identity_def identity_slot_ok_def dest: read_identity_ok
        split: option.splits json_file.splits sum.splits if_splits)
qed



subsection \<open>Who listens to the announcements knows the status\<close>

datatype identity_op =
    Io_Read
  | Io_Create ms identity_creation bool
  | Io_Update ms "agent_identity \<Rightarrow> identity_error + identity_update" bool
  | Io_Upsert ms identity_creation "agent_identity \<Rightarrow> identity_update" bool

fun identity_op_run :: "string \<Rightarrow> string option \<Rightarrow> identity_op \<Rightarrow> identity_store \<Rightarrow> identity_result \<times> identity_store" where
  "identity_op_run did expected Io_Read s = read_store did expected s"
| "identity_op_run did expected (Io_Create now c ok) s = create_identity did now c ok s"
| "identity_op_run did expected (Io_Update now patch ok) s = update_identity did expected now patch ok s"
| "identity_op_run did expected (Io_Upsert now c reconcile ok) s = upsert_identity did expected now c reconcile ok s"

definition identity_run :: "string \<Rightarrow> string option \<Rightarrow> identity_op list \<Rightarrow> identity_store \<Rightarrow> identity_store" where
  "identity_run did expected qs s = fold (\<lambda>q s. snd (identity_op_run did expected q s)) qs s"

definition identity_creation_ok :: "string option \<Rightarrow> identity_creation \<Rightarrow> bool" where
  "identity_creation_ok expected c \<longleftrightarrow>
     (\<forall>n \<in> set_option expected. ic_name c = n) \<and> ic_session c \<noteq> Some '''' \<and> list_all skill_ok (ic_skills c)"

definition identity_update_ok :: "string option \<Rightarrow> identity_update \<Rightarrow> bool" where
  "identity_update_ok expected u \<longleftrightarrow>
     (\<forall>n \<in> set_option expected. iu_name u = None \<or> iu_name u = Some n) \<and> iu_session u \<noteq> Some (Some '''')"

definition identity_op_ok :: "string option \<Rightarrow> identity_op \<Rightarrow> bool" where
  "identity_op_ok expected q =
     (case q of
        Io_Read \<Rightarrow> True
      | Io_Create _ c _ \<Rightarrow> identity_creation_ok expected c
      | Io_Update _ patch _ \<Rightarrow> (\<forall>r u. patch r = Inr u \<longrightarrow> identity_update_ok expected u)
      | Io_Upsert _ c reconcile _ \<Rightarrow> identity_creation_ok expected c \<and> (\<forall>r. identity_update_ok expected (reconcile r)))"

lemma build_identity_ok: "identity_creation_ok expected c \<Longrightarrow> identity_ok did expected (build_identity did now c)"
  by (simp add: identity_creation_ok_def identity_ok_def build_identity_def)

lemma merge_identity_ok:
  "identity_ok did expected r \<Longrightarrow> identity_update_ok expected u \<Longrightarrow> identity_ok did expected (merge_identity now u r)"
proof -
  have m: "ai_dispatcher (merge_identity now u r) = ai_dispatcher r" "ai_skills (merge_identity now u r) = ai_skills r"
      "ai_name (merge_identity now u r) = patched (iu_name u) (ai_name r)"
      "ai_session (merge_identity now u r) = patched (iu_session u) (ai_session r)"
    by (simp_all add: merge_identity_def)
  show "identity_ok did expected r \<Longrightarrow> identity_update_ok expected u \<Longrightarrow> identity_ok did expected (merge_identity now u r)"
    unfolding identity_ok_def identity_update_ok_def m
    by (cases "iu_name u"; cases "iu_session u") (simp_all add: patched_def)
qed

definition identity_store_inv :: "string \<Rightarrow> string option \<Rightarrow> identity_store \<Rightarrow> bool" where
  "identity_store_inv did expected s \<longleftrightarrow>
     store_ok (load_identity did expected) (identity_slot_ok did expected) (is_store s) \<and>
     (is_committed s = [] \<or>
      (\<exists>r. slot (is_store s) = Some (Some r) \<and> ai_status (last (is_committed s)) = ai_status r))"

lemma read_inv:
  assumes inv: "identity_store_inv did expected s" and rd: "read_store did expected s = (x, s')"
  shows "identity_store_inv did expected s'" "is_committed s' = is_committed s" "disk (is_store s') = disk (is_store s)"
    "x = Inr v \<Longrightarrow> slot (is_store s') = Some v \<and> identity_slot_ok did expected v"
proof -
  have ok: "store_ok (load_identity did expected) (identity_slot_ok did expected) (is_store s)"
    using inv by (simp add: identity_store_inv_def)
  obtain st where st: "store_load (load_identity did expected) (is_store s) = (x, st)" "s' = s\<lparr>is_store := st\<rparr>"
    using rd by (auto simp: read_store_def split: prod.splits)
  have "store_ok (load_identity did expected) (identity_slot_ok did expected) st"
    using identities.load_ok [OF ok] st(1) by (metis snd_conv)
  moreover have "slot (is_store s) = Some v \<Longrightarrow> st = is_store s" for v
    using st(1) by (simp add: store_load_def)
  ultimately show "identity_store_inv did expected s'"
    using inv by (auto simp: identity_store_inv_def st(2))
  show "is_committed s' = is_committed s" by (simp add: st(2))
  show "disk (is_store s') = disk (is_store s)"
    using st by (auto simp: store_load_def split: option.splits sum.splits)
  show "x = Inr v \<Longrightarrow> slot (is_store s') = Some v \<and> identity_slot_ok did expected v"
    using identities.load_Inr [OF ok, of v st] st by simp
qed

lemma put_inv:
  assumes inv: "identity_store_inv did expected s" and r: "identity_ok did expected r"
  shows "identity_store_inv did expected (snd (put_identity r replace write_ok s))"
proof -
  have "store_ok (load_identity did expected) (identity_slot_ok did expected)
      (snd (store_create encode_identity_slot (Some r) replace write_ok (\<lambda>_. None :: identity_error option) (is_store s)))"
    using inv r by (intro identities.create_ok) (simp_all add: identity_store_inv_def identity_slot_ok_def)
  then show ?thesis
    using inv by (auto simp: put_identity_def store_create_def identity_store_inv_def announce_def Let_def)
qed

lemma put_fails:
  "fst (put_identity r replace write_ok s) = Inl e \<Longrightarrow>
   is_store (snd (put_identity r replace write_ok s)) = is_store s \<and>
   is_committed (snd (put_identity r replace write_ok s)) = is_committed s"
  by (auto simp: put_identity_def store_create_def Let_def split: if_splits)

text \<open>An update in terms of the load it begins with.\<close>

lemma update_identity_cases:
  assumes "read_store did expected s = (x, s1)"
  shows "update_identity did expected now patch write_ok s =
    (case x of
       Inl e \<Rightarrow> (Inl e, s1)
     | Inr before \<Rightarrow>
         (case identity_change now patch before of
            Inl e \<Rightarrow> (Inl (Change_Error e), s1)
          | Inr None \<Rightarrow> (Inr before, s1\<lparr>is_committed := is_committed s @ status_changed before before\<rparr>)
          | Inr (Some v) \<Rightarrow>
              if \<not> write_ok then (Inl Write_Error, s1)
              else (Inr v, s1\<lparr>is_store := (is_store s1)\<lparr>disk := Some (encode_identity_slot v), slot := Some v\<rparr>,
                is_committed := is_committed s @ status_changed v before\<rparr>)))"
proof -
  obtain st where st: "store_load (load_identity did expected) (is_store s) = (x, st)" "s1 = s\<lparr>is_store := st\<rparr>"
    using assms by (auto simp: read_store_def split: prod.splits)
  show ?thesis
    unfolding update_identity_def store_update_def st
    by (cases x) (auto simp: Let_def split: sum.split option.split)
qed

lemma update_inv:
  assumes inv: "identity_store_inv did expected s" and ok: "\<And>r u. patch r = Inr u \<Longrightarrow> identity_update_ok expected u"
  shows "identity_store_inv did expected (snd (update_identity did expected now patch write_ok s))"
    "fst (update_identity did expected now patch write_ok s) = Inl e \<Longrightarrow>
       disk (is_store (snd (update_identity did expected now patch write_ok s))) = disk (is_store s) \<and>
       is_committed (snd (update_identity did expected now patch write_ok s)) = is_committed s"
proof -
  obtain x s1 where rd: "read_store did expected s = (x, s1)" by fastforce
  note cases = update_identity_cases [OF rd, of now patch write_ok]
  note after = read_inv [OF inv rd]
  have "identity_store_inv did expected (snd (update_identity did expected now patch write_ok s)) \<and>
    (fst (update_identity did expected now patch write_ok s) = Inl e \<longrightarrow>
       disk (is_store (snd (update_identity did expected now patch write_ok s))) = disk (is_store s) \<and>
       is_committed (snd (update_identity did expected now patch write_ok s)) = is_committed s)"
  proof (cases x)
    case (Inl e)
    then show ?thesis using after(1-3) by (simp add: cases)
  next
    case (Inr before)
    note loaded = after(4) [OF Inr]
    show ?thesis
    proof (cases before)
      case None
      then show ?thesis using after(1-3) Inr by (simp add: cases identity_change_def)
    next
      case (Some r)
      show ?thesis
      proof (cases "patch r")
        case (Inl e)
        then show ?thesis using after(1-3) Inr Some by (simp add: cases identity_change_def \<open>x = Inr before\<close>)
      next
        case (Inr u)
        let ?r = "merge_identity now u r"
        have "identity_ok did expected ?r"
          using loaded Some ok [OF Inr] by (intro merge_identity_ok) (simp_all add: identity_slot_ok_def)
        moreover have "load_identity did expected (Some (encode_identity_slot (Some ?r))) = Inr (Some ?r)"
          using calculation by (intro identities.load_enc) (simp add: identity_slot_ok_def)
        ultimately show ?thesis
          using after(1-3) loaded Some Inr \<open>x = Inr before\<close>
          by (auto simp: cases identity_change_def identity_store_inv_def store_ok_def identity_slot_ok_def status_changed_def)
      qed
    qed
  qed
  then show "identity_store_inv did expected (snd (update_identity did expected now patch write_ok s))"
    "fst (update_identity did expected now patch write_ok s) = Inl e \<Longrightarrow>
       disk (is_store (snd (update_identity did expected now patch write_ok s))) = disk (is_store s) \<and>
       is_committed (snd (update_identity did expected now patch write_ok s)) = is_committed s"
    by blast+
qed

lemma upsert_inv:
  assumes inv: "identity_store_inv did expected s" and c: "identity_creation_ok expected c"
    and ok: "\<And>r. identity_update_ok expected (reconcile r)"
  shows "identity_store_inv did expected (snd (upsert_identity did expected now c reconcile write_ok s))"
    "fst (upsert_identity did expected now c reconcile write_ok s) = Inl e \<Longrightarrow>
       disk (is_store (snd (upsert_identity did expected now c reconcile write_ok s))) = disk (is_store s) \<and>
       is_committed (snd (upsert_identity did expected now c reconcile write_ok s)) = is_committed s"
proof -
  obtain x s1 where rd: "read_store did expected s = (x, s1)" by fastforce
  note after = read_inv [OF inv rd]
  have put: "identity_store_inv did expected (snd (put_identity r True write_ok s1)) \<and>
      (fst (put_identity r True write_ok s1) = Inl e \<longrightarrow>
        disk (is_store (snd (put_identity r True write_ok s1))) = disk (is_store s) \<and>
        is_committed (snd (put_identity r True write_ok s1)) = is_committed s)"
    if "identity_ok did expected r" for r
    using put_inv [OF after(1) that] put_fails [of r True write_ok s1 e] after(2,3) by simp
  have "identity_store_inv did expected (snd (upsert_identity did expected now c reconcile write_ok s)) \<and>
    (fst (upsert_identity did expected now c reconcile write_ok s) = Inl e \<longrightarrow>
       disk (is_store (snd (upsert_identity did expected now c reconcile write_ok s))) = disk (is_store s) \<and>
       is_committed (snd (upsert_identity did expected now c reconcile write_ok s)) = is_committed s)"
  proof (cases x)
    case (Inl e)
    then show ?thesis using after(1-3) by (simp add: upsert_identity_def rd)
  next
    case (Inr v)
    note loaded = after(4) [OF Inr]
    show ?thesis
    proof (cases v)
      case None
      then show ?thesis
        using put [OF build_identity_ok [OF c], of now] by (simp add: upsert_identity_def rd Inr)
    next
      case (Some r)
      then have "identity_ok did expected (merge_identity now (reconcile r) r)"
        using loaded ok [of r] by (intro merge_identity_ok) (simp_all add: identity_slot_ok_def)
      then show ?thesis
        using put by (simp add: upsert_identity_def rd Inr Some)
    qed
  qed
  then show "identity_store_inv did expected (snd (upsert_identity did expected now c reconcile write_ok s))"
    "fst (upsert_identity did expected now c reconcile write_ok s) = Inl e \<Longrightarrow>
       disk (is_store (snd (upsert_identity did expected now c reconcile write_ok s))) = disk (is_store s) \<and>
       is_committed (snd (upsert_identity did expected now c reconcile write_ok s)) = is_committed s"
    by blast+
qed

lemma identity_op_inv:
  assumes inv: "identity_store_inv did expected s" and ok: "identity_op_ok expected q"
  shows "identity_store_inv did expected (snd (identity_op_run did expected q s))"
    "fst (identity_op_run did expected q s) = Inl e \<Longrightarrow>
       disk (is_store (snd (identity_op_run did expected q s))) = disk (is_store s) \<and>
       is_committed (snd (identity_op_run did expected q s)) = is_committed s"
proof -
  have "identity_store_inv did expected (snd (identity_op_run did expected q s)) \<and>
    (fst (identity_op_run did expected q s) = Inl e \<longrightarrow>
       disk (is_store (snd (identity_op_run did expected q s))) = disk (is_store s) \<and>
       is_committed (snd (identity_op_run did expected q s)) = is_committed s)"
  proof (cases q)
    case Io_Read
    obtain x s1 where rd: "read_store did expected s = (x, s1)" by fastforce
    show ?thesis using read_inv(1-3) [OF inv rd] by (simp add: Io_Read rd)
  next
    case (Io_Create now c w)
    have r: "identity_ok did expected (build_identity did now c)"
      using ok by (intro build_identity_ok) (simp add: Io_Create identity_op_ok_def)
    show ?thesis
      using inv put_inv [OF inv r] put_fails [of "build_identity did now c" "ic_replace c" w s e]
      by (simp add: Io_Create create_identity_def split: sum.split)
  next
    case (Io_Update now patch w)
    then show ?thesis
      using update_inv [OF inv, of patch] ok by (simp add: identity_op_ok_def)
  next
    case (Io_Upsert now c reconcile w)
    then show ?thesis
      using upsert_inv [OF inv, of c reconcile] ok by (simp add: identity_op_ok_def)
  qed
  then show "identity_store_inv did expected (snd (identity_op_run did expected q s))"
    "fst (identity_op_run did expected q s) = Inl e \<Longrightarrow>
       disk (is_store (snd (identity_op_run did expected q s))) = disk (is_store s) \<and>
       is_committed (snd (identity_op_run did expected q s)) = is_committed s"
    by blast+
qed

lemma identity_run_inv:
  "identity_store_inv did expected s \<Longrightarrow> \<forall>q \<in> set qs. identity_op_ok expected q \<Longrightarrow> identity_store_inv did expected (identity_run did expected qs s)"
  unfolding identity_run_def by (induction qs arbitrary: s) (simp_all add: identity_op_inv(1))

text \<open>
  C35. Over any reads, creations, updates (their patches computed from the committed value) and upserts of an
  Agent's identity, each with its write succeeding or failing, memory holds what a reload of the file
  gives; an observer of the announcements that saw one knows the committed status exactly, though an update
  announces only a change of it; and an operation that fails has changed neither the file nor what was announced.
\<close>

theorem identity_observer_agrees:
  assumes "\<forall>q \<in> set qs. identity_op_ok expected q" and "identity_op_ok expected q"
  shows "let s = identity_run did expected qs (bind_identity_store f) in
    (\<forall>v. slot (is_store s) = Some v \<longrightarrow> load_identity did expected (disk (is_store s)) = Inr v) \<and>
    (is_committed s \<noteq> [] \<longrightarrow>
       (\<exists>r. current_identity s = Some r \<and> identity_ok did expected r \<and> ai_status (last (is_committed s)) = ai_status r)) \<and>
    (\<forall>e. fst (identity_op_run did expected q s) = Inl e \<longrightarrow>
       disk (is_store (snd (identity_op_run did expected q s))) = disk (is_store s) \<and>
       is_committed (snd (identity_op_run did expected q s)) = is_committed s)"
proof -
  have inv: "identity_store_inv did expected (identity_run did expected qs (bind_identity_store f))"
    by (rule identity_run_inv [OF _ assms(1)]) (simp add: identity_store_inv_def bind_identity_store_def)
  show ?thesis
    using inv identity_op_inv(2) [OF inv assms(2)] unfolding Let_def
    by (auto simp: identity_store_inv_def current_identity_def store_ok_def identity_slot_ok_def)
qed

definition demo_creation :: identity_creation where
  "demo_creation =
     \<lparr> ic_name = ''tm-a-b0bd'', ic_team = Some ''web'', ic_runtime = ''codex'', ic_session = None, ic_source_cwd = ''/r'',
       ic_source_repo = None, ic_cwd = ''/w'', ic_runtime_cwd = ''/w'',
       ic_worktree = \<lparr> wt_mode = Reuse_Cwd, wt_slug = None, wt_path = ''/w'', wt_branch = None, wt_base_ref = None,
         wt_cleanup = Keep, wt_state = Not_Managed, wt_error = None \<rparr>,
       ic_intent = Some ''site'', ic_prompt = None, ic_skills = [], ic_status = None, ic_replace = False \<rparr>"

text \<open>A failed creation, a creation, a session that announces nothing, a status that does, and a failed close.\<close>

definition demo_identity_ops :: "identity_op list" where
  "demo_identity_ops =
     [Io_Read, Io_Create 1 demo_creation False, Io_Create 2 demo_creation True,
      Io_Update 3 (\<lambda>_. Inr (no_identity_update\<lparr>iu_session := Some (Some ''s1'')\<rparr>)) True,
      Io_Update 4 (\<lambda>_. Inr (no_identity_update\<lparr>iu_status := Some Ag_Running\<rparr>)) True]"

definition demo_close :: identity_op where
  "demo_close = Io_Update 5 (\<lambda>_. Inr (no_identity_update\<lparr>iu_status := Some Ag_Closed\<rparr>)) False"

lemma demo_identity_run:
  "let s = identity_run ''d'' (Some ''tm-a-b0bd'') demo_identity_ops (bind_identity_store None) in
   (map ai_status (is_committed s), map_option (\<lambda>r. (ai_status r, ai_session r)) (current_identity s),
    fst (identity_op_run ''d'' (Some ''tm-a-b0bd'') demo_close s)) =
   ([Ag_Starting, Ag_Running], Some (Ag_Running, Some ''s1''), Inl Write_Error)"
  by code_simp

theorem identity_observer_agrees_witness:
  "let s = identity_run ''d'' (Some ''tm-a-b0bd'') demo_identity_ops (bind_identity_store None) in
   map ai_status (is_committed s) = [Ag_Starting, Ag_Running] \<and>
   (\<exists>r. current_identity s = Some r \<and> ai_status (last (is_committed s)) = ai_status r) \<and>
   is_committed (snd (identity_op_run ''d'' (Some ''tm-a-b0bd'') demo_close s)) = is_committed s"
proof -
  have ok: "\<forall>q \<in> set demo_identity_ops. identity_op_ok (Some ''tm-a-b0bd'') q" "identity_op_ok (Some ''tm-a-b0bd'') demo_close"
    by (simp_all add: demo_identity_ops_def demo_close_def identity_op_ok_def identity_creation_ok_def demo_creation_def
        identity_update_ok_def no_identity_update_def)
  have "is_committed (identity_run ''d'' (Some ''tm-a-b0bd'') demo_identity_ops (bind_identity_store None)) \<noteq> []"
    using demo_identity_run by (auto simp: Let_def)
  then show ?thesis
    using identity_observer_agrees [OF ok, of "''d''" None] demo_identity_run unfolding Let_def by auto
qed

end
