(* ===== verification/Agent_Collection.thy ===== *)
theory Agent_Collection
  imports Agent_Store
begin

text \<open>
  \<^verbatim>\<open>packages/dreamux/src/service/agent/index.ts\<close>: the TeamMates of one dispatcher or one Team.  What is modelled
  is how the collection builds the service of a name, for a spawn, for a send or a close to one that is
  not in memory, and for a send that reopens a closed one, and which services it holds.

  The files are the identities on disk, one for each name.  A materialization is a promise of
  \<^verbatim>\<open>materializations\<close>, a build one of \<^verbatim>\<open>reopening\<close>, a flow one call of the collection; each is known by its
  position, as is a service by its position in the list of all services built.  A service is what the
  collection can tell of it: its name, whether it is closed or locked, and whether a runtime of it
  lives or is starting.  When it starts and stops a runtime, writes its record and closes is decided by the
  service itself (\<open>Agent_Service\<close>), here by the inputs \<open>Mi_Runtime\<close>, \<open>Mi_Writes\<close> and \<open>Mi_Closed\<close>; a
  service closes only after the submissions it is in have returned.  Promises that are settled
  resume what waits for them in the same step.
\<close>

record member =
  am_name :: string
  am_closed :: bool
  am_locked :: bool
  am_runtime :: bool

datatype wait_kind = Wk_Send | Wk_Close | Wk_Spawn | Wk_Lock

datatype member_reply = Mr_Done | Mr_Record | Mr_Failed

text \<open>A send that reopens owns its build: it carries the name and the build it will take out of the map.\<close>

datatype member_flow =
    Mf_Allocate bool
  | Mf_Wait nat wait_kind
  | Mf_Build string nat
  | Mf_Sending nat "(string \<times> nat) option"
  | Mf_Submitting nat
  | Mf_Closing nat
  | Mf_Over member_reply

datatype materialization =
    Mt_Start string
  | Mt_Join string nat
  | Mt_Read string
  | Mt_Open string
  | Mt_Fresh string bool
  | Mt_Made string bool
  | Mt_Over

datatype build = Bd_Open string | Bd_Built nat | Bd_Failed

datatype resolved = Rs_Agent nat | Rs_Closed | Rs_Failed

record members =
  mc_dispatcher :: string
  mc_team :: "string option"
  mc_files :: "string \<Rightarrow> agent_identity option"
  mc_agents :: "member list"
  mc_entities :: "string \<Rightarrow> nat option"
  mc_mats :: "materialization list"
  mc_materializations :: "string \<Rightarrow> nat option"
  mc_builds :: "build list"
  mc_reopening :: "string \<Rightarrow> nat option"
  mc_flows :: "member_flow list"
  mc_closing :: bool

definition new_members :: "string \<Rightarrow> string option \<Rightarrow> (string \<Rightarrow> agent_identity option) \<Rightarrow> members" where
  "new_members did tid files =
     \<lparr> mc_dispatcher = did, mc_team = tid, mc_files = files, mc_agents = [], mc_entities = Map.empty, mc_mats = [],
       mc_materializations = Map.empty, mc_builds = [], mc_reopening = Map.empty, mc_flows = [], mc_closing = False \<rparr>"

definition set_member_flow :: "nat \<Rightarrow> member_flow \<Rightarrow> members \<Rightarrow> members" where
  "set_member_flow i f s = s\<lparr>mc_flows := (mc_flows s)[i := f]\<rparr>"

definition member_flow_at :: "members \<Rightarrow> nat \<Rightarrow> member_flow option" where
  "member_flow_at s i = (if i < length (mc_flows s) then Some (mc_flows s ! i) else None)"

definition mat_at :: "members \<Rightarrow> nat \<Rightarrow> materialization option" where
  "mat_at s m = (if m < length (mc_mats s) then Some (mc_mats s ! m) else None)"

definition build_at :: "members \<Rightarrow> nat \<Rightarrow> build option" where
  "build_at s b = (if b < length (mc_builds s) then Some (mc_builds s ! b) else None)"

definition set_mat :: "nat \<Rightarrow> materialization \<Rightarrow> members \<Rightarrow> members" where
  "set_mat m x s = s\<lparr>mc_mats := (mc_mats s)[m := x]\<rparr>"

text \<open>\<^verbatim>\<open>isRetired\<close>: closed, and not held by a lock.\<close>

definition member_retired :: "member \<Rightarrow> bool" where
  "member_retired a \<longleftrightarrow> am_closed a \<and> \<not> am_locked a"

definition live_entity :: "string \<Rightarrow> members \<Rightarrow> nat option" where
  "live_entity n s =
     (case mc_entities s n of
        None \<Rightarrow> None
      | Some a \<Rightarrow> if member_retired (mc_agents s ! a) then None else Some a)"

text \<open>\<^verbatim>\<open>liveEntity\<close> drops a retired service it finds.\<close>

definition drop_retired :: "string \<Rightarrow> members \<Rightarrow> members" where
  "drop_retired n s =
     (if mc_entities s n \<noteq> None \<and> live_entity n s = None
      then s\<lparr>mc_entities := (mc_entities s)(n := None)\<rparr> else s)"

definition in_collection :: "members \<Rightarrow> agent_identity \<Rightarrow> bool" where
  "in_collection s r \<longleftrightarrow> ai_dispatcher r = mc_dispatcher s \<and> ai_team r = mc_team s"

definition publish_member :: "nat \<Rightarrow> members \<Rightarrow> members" where
  "publish_member a s = s\<lparr>mc_entities := (mc_entities s)(am_name (mc_agents s ! a) := Some a)\<rparr>"

definition new_member :: "string \<Rightarrow> bool \<Rightarrow> members \<Rightarrow> members" where
  "new_member n locked s =
     s\<lparr>mc_agents := mc_agents s @ [\<lparr> am_name = n, am_closed = False, am_locked = locked, am_runtime = False \<rparr>]\<rparr>"

subsection \<open>Sending\<close>

text \<open>A service that is closed or locked refuses an ordinary submission.\<close>

definition send_resolved :: "nat \<Rightarrow> nat \<Rightarrow> (string \<times> nat) option \<Rightarrow> members \<Rightarrow> members" where
  "send_resolved i a own s =
     (if am_closed (mc_agents s ! a) \<or> am_locked (mc_agents s ! a) then set_member_flow i (Mf_Over Mr_Failed) s
      else set_member_flow i (Mf_Sending a own) s)"

definition reopen_from :: "string \<Rightarrow> members \<Rightarrow> nat \<times> members" where
  "reopen_from n s =
     (case mc_reopening s n of
        Some b \<Rightarrow> (b, s)
      | None \<Rightarrow> (length (mc_builds s),
          s\<lparr>mc_builds := mc_builds s @ [Bd_Open n],
            mc_reopening := (mc_reopening s)(n := Some (length (mc_builds s)))\<rparr>))"

definition send_reopened :: "nat \<Rightarrow> string \<Rightarrow> members \<Rightarrow> members" where
  "send_reopened i n s = (case reopen_from n s of (b, s') \<Rightarrow> set_member_flow i (Mf_Build n b) s')"

text \<open>The \<^verbatim>\<open>finally\<close> of \<^verbatim>\<open>sendReopened\<close>: by promise identity.\<close>

definition release_build :: "string \<Rightarrow> nat \<Rightarrow> members \<Rightarrow> members" where
  "release_build n b s =
     (if mc_reopening s n = Some b then s\<lparr>mc_reopening := (mc_reopening s)(n := None)\<rparr> else s)"

definition release_owned :: "(string \<times> nat) option \<Rightarrow> members \<Rightarrow> members" where
  "release_owned own s = (case own of None \<Rightarrow> s | Some (n, b) \<Rightarrow> release_build n b s)"

definition send_settles :: "nat \<Rightarrow> bool \<Rightarrow> members \<Rightarrow> members" where
  "send_settles i ok s =
     (case member_flow_at s i of
        Some (Mf_Sending a own) \<Rightarrow>
          (if ok then release_owned own (publish_member a (set_member_flow i (Mf_Over Mr_Done) s))
           else release_owned own (set_member_flow i (Mf_Over Mr_Failed) s))
      | _ \<Rightarrow> s)"

subsection \<open>What waits for a materialization\<close>

definition submit_spawned :: "nat \<Rightarrow> nat \<Rightarrow> members \<Rightarrow> members" where
  "submit_spawned i a s =
     (if am_closed (mc_agents s ! a) \<or> am_locked (mc_agents s ! a) then set_member_flow i (Mf_Closing a) s
      else set_member_flow i (Mf_Submitting a) s)"

definition resume_flow :: "nat \<Rightarrow> string \<Rightarrow> resolved \<Rightarrow> nat \<Rightarrow> members \<Rightarrow> members" where
  "resume_flow m n r i s =
     (case member_flow_at s i of
        Some (Mf_Wait m' k) \<Rightarrow>
          if m' \<noteq> m then s
          else
            (case (k, r) of
               (_, Rs_Failed) \<Rightarrow> set_member_flow i (Mf_Over Mr_Failed) s
             | (Wk_Send, Rs_Agent a) \<Rightarrow> send_resolved i a None s
             | (Wk_Send, Rs_Closed) \<Rightarrow> send_reopened i n s
             | (Wk_Close, Rs_Agent a) \<Rightarrow> set_member_flow i (Mf_Closing a) s
             | (Wk_Close, Rs_Closed) \<Rightarrow> set_member_flow i (Mf_Over Mr_Record) s
             | (Wk_Spawn, Rs_Agent a) \<Rightarrow> submit_spawned i a s
             | (Wk_Lock, Rs_Agent a) \<Rightarrow> set_member_flow i (Mf_Over Mr_Done) s
             | _ \<Rightarrow> s)
      | _ \<Rightarrow> s)"

definition settle_mat :: "nat \<Rightarrow> string \<Rightarrow> resolved \<Rightarrow> members \<Rightarrow> members" where
  "settle_mat m n r s =
     fold (resume_flow m n r) [0..<length (mc_flows s)]
       ((set_mat m Mt_Over s)\<lparr>mc_materializations :=
          (if mc_materializations s n = Some m then (mc_materializations s)(n := None) else mc_materializations s)\<rparr>)"

definition track_materialization :: "string \<Rightarrow> materialization \<Rightarrow> members \<Rightarrow> members" where
  "track_materialization n x s =
     s\<lparr>mc_mats := mc_mats s @ [x],
       mc_materializations := (mc_materializations s)(n := Some (length (mc_mats s)))\<rparr>"

text \<open>\<open>resolveEntity\<close> for a call that has just begun, as a send or a close.\<close>

definition resolve_entity :: "nat \<Rightarrow> wait_kind \<Rightarrow> string \<Rightarrow> members \<Rightarrow> members" where
  "resolve_entity i k name s =
     (case validate_agent_entity_name name of
        Inl _ \<Rightarrow> set_member_flow i (Mf_Over Mr_Failed) s
      | Inr n \<Rightarrow>
          (case live_entity n s of
             Some a \<Rightarrow>
               if (\<forall>r \<in> set_option (mc_files s n). in_collection s r)
               then (if k = Wk_Send then send_resolved i a None s else set_member_flow i (Mf_Closing a) s)
               else set_member_flow i (Mf_Over Mr_Failed) s
           | None \<Rightarrow>
               (let s' = drop_retired n s in
                case mc_materializations s' n of
                  Some m \<Rightarrow> set_member_flow i (Mf_Wait m k) s'
                | None \<Rightarrow> track_materialization n (Mt_Start n) (set_member_flow i (Mf_Wait (length (mc_mats s')) k) s'))))"

definition call_member :: "wait_kind \<Rightarrow> string \<Rightarrow> members \<Rightarrow> members" where
  "call_member k name s =
     (if mc_closing s then s
      else resolve_entity (length (mc_flows s)) k name (s\<lparr>mc_flows := mc_flows s @ [Mf_Over Mr_Failed]\<rparr>))"

subsection \<open>Materializing\<close>

definition materialize_starts :: "nat \<Rightarrow> members \<Rightarrow> members" where
  "materialize_starts m s =
     (case mat_at s m of
        Some (Mt_Start n) \<Rightarrow>
          (case mc_reopening s n of
             None \<Rightarrow> set_mat m (Mt_Read n) s
           | Some b \<Rightarrow>
               (case build_at s b of
                  Some (Bd_Built a) \<Rightarrow> settle_mat m n (Rs_Agent a) s
                | Some (Bd_Open _) \<Rightarrow> set_mat m (Mt_Join n b) s
                | _ \<Rightarrow> settle_mat m n Rs_Failed s))
      | _ \<Rightarrow> s)"

definition identity_read :: "nat \<Rightarrow> bool \<Rightarrow> members \<Rightarrow> members" where
  "identity_read m ok s =
     (case mat_at s m of
        Some (Mt_Read n) \<Rightarrow>
          (case (if ok then mc_files s n else None) of
             None \<Rightarrow> settle_mat m n Rs_Failed s
           | Some r \<Rightarrow>
               if \<not> in_collection s r then settle_mat m n Rs_Failed s
               else
                 (case live_entity n s of
                    Some a \<Rightarrow> settle_mat m n (Rs_Agent a) s
                  | None \<Rightarrow>
                      (let s' = drop_retired n s in
                       if ai_status r = Ag_Closed then settle_mat m n Rs_Closed s' else set_mat m (Mt_Open n) s')))
      | _ \<Rightarrow> s)"

definition entity_opened :: "nat \<Rightarrow> bool \<Rightarrow> members \<Rightarrow> members" where
  "entity_opened m ok s =
     (case mat_at s m of
        Some (Mt_Open n) \<Rightarrow>
          (if \<not> ok \<or> mc_files s n = None then settle_mat m n Rs_Failed s
           else settle_mat m n (Rs_Agent (length (mc_agents s)))
             (publish_member (length (mc_agents s)) (new_member n False s)))
      | _ \<Rightarrow> s)"

subsection \<open>Reopening\<close>

definition resume_build :: "string \<Rightarrow> nat \<Rightarrow> nat option \<Rightarrow> nat \<Rightarrow> members \<Rightarrow> members" where
  "resume_build n b made i s =
     (case member_flow_at s i of
        Some (Mf_Build _ b') \<Rightarrow>
          if b' \<noteq> b then s
          else
            (case made of
               Some a \<Rightarrow> send_resolved i a (Some (n, b)) s
             | None \<Rightarrow> release_build n b (set_member_flow i (Mf_Over Mr_Failed) s))
      | _ \<Rightarrow> s)"

definition resume_join :: "nat \<Rightarrow> nat option \<Rightarrow> nat \<Rightarrow> members \<Rightarrow> members" where
  "resume_join b made m s =
     (case mat_at s m of
        Some (Mt_Join n b') \<Rightarrow>
          if b' \<noteq> b then s else settle_mat m n (case made of None \<Rightarrow> Rs_Failed | Some a \<Rightarrow> Rs_Agent a) s
      | _ \<Rightarrow> s)"

definition settle_build :: "nat \<Rightarrow> string \<Rightarrow> nat option \<Rightarrow> members \<Rightarrow> members" where
  "settle_build b n made s =
     (let s1 = s\<lparr>mc_builds := (mc_builds s)[b := (case made of None \<Rightarrow> Bd_Failed | Some a \<Rightarrow> Bd_Built a)]\<rparr>;
          s2 = fold (resume_build n b made) [0..<length (mc_flows s1)] s1
      in fold (resume_join b made) [0..<length (mc_mats s2)] s2)"

text \<open>
  \<open>buildReopened\<close>: the build is refused when the identity is gone or the dispatcher is closing; the service
  it made then is stopped and nobody's.
\<close>

definition reopened :: "nat \<Rightarrow> bool \<Rightarrow> members \<Rightarrow> members" where
  "reopened b ok s =
     (case build_at s b of
        Some (Bd_Open n) \<Rightarrow>
          (if \<not> ok \<or> mc_files s n = None then settle_build b n None s
           else if mc_closing s then settle_build b n None (new_member n False s)
           else settle_build b n (Some (length (mc_agents s))) (new_member n False s))
      | _ \<Rightarrow> s)"

subsection \<open>Creating\<close>

definition create_member :: "bool \<Rightarrow> members \<Rightarrow> members" where
  "create_member locked s = (if mc_closing s then s else s\<lparr>mc_flows := mc_flows s @ [Mf_Allocate locked]\<rparr>)"

text \<open>
  The name comes from the registry, which lists the directories: no identity is under it.  It is
  refused when a service or another creation has it since.
\<close>

definition name_allocated :: "nat \<Rightarrow> string option \<Rightarrow> members \<Rightarrow> members" where
  "name_allocated i name s =
     (case member_flow_at s i of
        Some (Mf_Allocate locked) \<Rightarrow>
          (case name of
             None \<Rightarrow> set_member_flow i (Mf_Over Mr_Failed) s
           | Some n \<Rightarrow>
               if mc_files s n \<noteq> None then s
               else if live_entity n s \<noteq> None \<or> mc_materializations s n \<noteq> None
               then set_member_flow i (Mf_Over Mr_Failed) s
               else track_materialization n (Mt_Fresh n locked)
                 (set_member_flow i (Mf_Wait (length (mc_mats s)) (if locked then Wk_Lock else Wk_Spawn)) (drop_retired n s)))
      | _ \<Rightarrow> s)"

definition identity_created :: "nat \<Rightarrow> agent_identity \<Rightarrow> bool \<Rightarrow> members \<Rightarrow> members" where
  "identity_created m r ok s =
     (case mat_at s m of
        Some (Mt_Fresh n locked) \<Rightarrow>
          (if \<not> ok \<or> mc_files s n \<noteq> None then settle_mat m n Rs_Failed s
           else set_mat m (Mt_Made n locked) (s\<lparr>mc_files := (mc_files s)(n := Some (r\<lparr>ai_name := n,
             ai_dispatcher := mc_dispatcher s, ai_team := mc_team s, ai_status := Ag_Stopped\<rparr>))\<rparr>))
      | _ \<Rightarrow> s)"

text \<open>
  The launch options answer and the service is built, locked for a Workflow before anyone can find it.  A
  dispatcher that is closing refuses it after it is in the map; the lock is undone then.
\<close>

definition member_made :: "nat \<Rightarrow> bool \<Rightarrow> members \<Rightarrow> members" where
  "member_made m ok s =
     (case mat_at s m of
        Some (Mt_Made n locked) \<Rightarrow>
          (if \<not> ok then settle_mat m n Rs_Failed s
           else if mc_closing s then
             settle_mat m n Rs_Failed (publish_member (length (mc_agents s)) (new_member n False s))
           else
             settle_mat m n (Rs_Agent (length (mc_agents s)))
               (publish_member (length (mc_agents s)) (new_member n locked s)))
      | _ \<Rightarrow> s)"

text \<open>The first submission of a spawn; when it throws, the Agent is closed.\<close>

definition submission_settles_spawn :: "nat \<Rightarrow> bool \<Rightarrow> members \<Rightarrow> members" where
  "submission_settles_spawn i ok s =
     (case member_flow_at s i of
        Some (Mf_Submitting a) \<Rightarrow> set_member_flow i (if ok then Mf_Over Mr_Done else Mf_Closing a) s
      | _ \<Rightarrow> s)"

definition close_settles :: "nat \<Rightarrow> bool \<Rightarrow> members \<Rightarrow> members" where
  "close_settles i ok s =
     (case member_flow_at s i of
        Some (Mf_Closing a) \<Rightarrow> set_member_flow i (Mf_Over (if ok then Mr_Done else Mr_Failed)) s
      | _ \<Rightarrow> s)"

subsection \<open>The services, and the sweeps\<close>

definition sending :: "nat \<Rightarrow> members \<Rightarrow> bool" where
  "sending a s \<longleftrightarrow>
     list_ex (\<lambda>f. case f of Mf_Sending c _ \<Rightarrow> c = a | Mf_Submitting c \<Rightarrow> c = a | _ \<Rightarrow> False) (mc_flows s)"

definition set_member :: "nat \<Rightarrow> member \<Rightarrow> members \<Rightarrow> members" where
  "set_member a x s = s\<lparr>mc_agents := (mc_agents s)[a := x]\<rparr>"

text \<open>A submission in flight starts a runtime, or a caller that found the service in the map.\<close>

definition runtime_changes :: "nat \<Rightarrow> bool \<Rightarrow> members \<Rightarrow> members" where
  "runtime_changes a up s =
     (if a < length (mc_agents s) \<and>
         (up \<longrightarrow> \<not> am_closed (mc_agents s ! a) \<and> (sending a s \<or> mc_entities s (am_name (mc_agents s ! a)) = Some a))
      then set_member a ((mc_agents s ! a)\<lparr>am_runtime := up\<rparr>) s else s)"

definition write_status :: "string \<Rightarrow> member_status \<Rightarrow> members \<Rightarrow> members" where
  "write_status n st s =
     s\<lparr>mc_files := (mc_files s)(n := map_option (\<lambda>r. r\<lparr>ai_status := st\<rparr>) (mc_files s n))\<rparr>"

definition member_writes :: "nat \<Rightarrow> member_status \<Rightarrow> members \<Rightarrow> members" where
  "member_writes a st s =
     (if a < length (mc_agents s) \<and> \<not> am_closed (mc_agents s ! a) then write_status (am_name (mc_agents s ! a)) st s
      else s)"

definition member_closed :: "nat \<Rightarrow> members \<Rightarrow> members" where
  "member_closed a s =
     (if a < length (mc_agents s) \<and> \<not> sending a s
      then set_member a ((mc_agents s ! a)\<lparr>am_closed := True, am_runtime := False\<rparr>)
        (write_status (am_name (mc_agents s ! a)) Ag_Closed s)
      else s)"

definition member_unlocked :: "nat \<Rightarrow> members \<Rightarrow> members" where
  "member_unlocked a s =
     (if a < length (mc_agents s) then set_member a ((mc_agents s ! a)\<lparr>am_locked := False\<rparr>) s else s)"

text \<open>\<open>subscribeEntity\<close>: the promise that the service is closed resolves.\<close>

definition entity_evicted :: "nat \<Rightarrow> members \<Rightarrow> members" where
  "entity_evicted a s =
     (let n = am_name (mc_agents s ! a) in
      if mc_entities s n = Some a \<and> member_retired (mc_agents s ! a)
      then s\<lparr>mc_entities := (mc_entities s)(n := None)\<rparr> else s)"

text \<open>What a sweep stops or closes: a service in the map, or one a build of \<^verbatim>\<open>reopening\<close> made.\<close>

definition held_member :: "members \<Rightarrow> nat \<Rightarrow> bool" where
  "held_member s a \<longleftrightarrow>
     a < length (mc_agents s) \<and> \<not> member_retired (mc_agents s ! a) \<and>
     (mc_entities s (am_name (mc_agents s ! a)) = Some a \<or>
      (case mc_reopening s (am_name (mc_agents s ! a)) of
         None \<Rightarrow> False
       | Some b \<Rightarrow> build_at s b = Some (Bd_Built a)))"

text \<open>A dissolve also closes the members that are only on disk.\<close>

definition destroy_unheld :: "string \<Rightarrow> members \<Rightarrow> members" where
  "destroy_unheld n s =
     (case mc_files s n of
        None \<Rightarrow> s
      | Some r \<Rightarrow>
          if ai_status r = Ag_Closed \<or> \<not> in_collection s r \<or>
             list_ex (\<lambda>a. am_name (mc_agents s ! a) = n \<and> held_member s a) [0..<length (mc_agents s)]
          then s else write_status n Ag_Closed s)"

subsection \<open>Any interleaving\<close>

datatype member_input =
    Mi_Send string
  | Mi_Close string
  | Mi_Create bool
  | Mi_Allocated nat "string option"
  | Mi_Materialize nat
  | Mi_Identity nat bool
  | Mi_Opened nat bool
  | Mi_Reopened nat bool
  | Mi_Created nat agent_identity bool
  | Mi_Made nat bool
  | Mi_Sent nat bool
  | Mi_Submitted nat bool
  | Mi_Close_Done nat bool
  | Mi_Runtime nat bool
  | Mi_Writes nat member_status
  | Mi_Closed nat
  | Mi_Unlock nat
  | Mi_Evict nat
  | Mi_Destroy string
  | Mi_Fence

fun member_do :: "member_input \<Rightarrow> members \<Rightarrow> members" where
  "member_do (Mi_Send n) s = call_member Wk_Send n s"
| "member_do (Mi_Close n) s = call_member Wk_Close n s"
| "member_do (Mi_Create locked) s = create_member locked s"
| "member_do (Mi_Allocated i n) s = name_allocated i n s"
| "member_do (Mi_Materialize m) s = materialize_starts m s"
| "member_do (Mi_Identity m ok) s = identity_read m ok s"
| "member_do (Mi_Opened m ok) s = entity_opened m ok s"
| "member_do (Mi_Reopened b ok) s = reopened b ok s"
| "member_do (Mi_Created m r ok) s = identity_created m r ok s"
| "member_do (Mi_Made m ok) s = member_made m ok s"
| "member_do (Mi_Sent i ok) s = send_settles i ok s"
| "member_do (Mi_Submitted i ok) s = submission_settles_spawn i ok s"
| "member_do (Mi_Close_Done i ok) s = close_settles i ok s"
| "member_do (Mi_Runtime a up) s = runtime_changes a up s"
| "member_do (Mi_Writes a st) s = member_writes a st s"
| "member_do (Mi_Closed a) s = member_closed a s"
| "member_do (Mi_Unlock a) s = member_unlocked a s"
| "member_do (Mi_Evict a) s = entity_evicted a s"
| "member_do (Mi_Destroy n) s = destroy_unheld n s"
| "member_do Mi_Fence s = s\<lparr>mc_closing := True\<rparr>"

text \<open>
  The assumption on a send that reopened an Agent and throws: it leaves no runtime, and it was the
  only submission in flight.
\<close>

definition fails_clean :: "member_input \<Rightarrow> members \<Rightarrow> bool" where
  "fails_clean q s =
     (case q of
        Mi_Sent i ok \<Rightarrow>
          (case member_flow_at s i of
             Some (Mf_Sending a (Some _)) \<Rightarrow>
               ok \<or> (\<not> am_runtime (mc_agents s ! a) \<and> \<not> sending a (set_member_flow i (Mf_Over Mr_Failed) s))
           | _ \<Rightarrow> True)
      | _ \<Rightarrow> True)"

inductive member_reach :: "members \<Rightarrow> bool" where
  start: "member_reach (new_members did tid files)"
| does: "member_reach s \<Longrightarrow> fails_clean q s \<Longrightarrow> member_reach (member_do q s)"

end
