(* ===== verification/Agent_Collection_Props.thy ===== *)
theory Agent_Collection_Props
  imports Agent_Collection
begin

text \<open>
  What the collection of TeamMates keeps: a service with a runtime is one a sweep finds, and there is one for
  each name; with the run in which a send that fails after it started a runtime breaks that.
\<close>

subsection \<open>The invariant\<close>

definition placed :: "members \<Rightarrow> nat \<Rightarrow> bool" where
  "placed s a \<longleftrightarrow>
     mc_entities s (am_name (mc_agents s ! a)) = Some a \<or>
     (\<exists>b. mc_reopening s (am_name (mc_agents s ! a)) = Some b \<and> build_at s b = Some (Bd_Built a))"

fun mat_name :: "materialization \<Rightarrow> string option" where
  "mat_name (Mt_Start n) = Some n"
| "mat_name (Mt_Join n _) = Some n"
| "mat_name (Mt_Read n) = Some n"
| "mat_name (Mt_Open n) = Some n"
| "mat_name (Mt_Fresh n _) = Some n"
| "mat_name (Mt_Made n _) = Some n"
| "mat_name Mt_Over = None"

fun mat_claim :: "materialization \<Rightarrow> string option" where
  "mat_claim (Mt_Open n) = Some n"
| "mat_claim (Mt_Fresh n _) = Some n"
| "mat_claim (Mt_Made n _) = Some n"
| "mat_claim _ = None"

definition agents_ok :: "members \<Rightarrow> bool" where
  "agents_ok s \<longleftrightarrow>
     (\<forall>n a. mc_entities s n = Some a \<longrightarrow> a < length (mc_agents s) \<and> am_name (mc_agents s ! a) = n) \<and>
     (\<forall>a < length (mc_agents s). am_runtime (mc_agents s ! a) \<longrightarrow> \<not> am_closed (mc_agents s ! a)) \<and>
     (\<forall>a < length (mc_agents s). am_runtime (mc_agents s ! a) \<or> sending a s \<longrightarrow> placed s a)"

definition reopening_ok :: "members \<Rightarrow> string \<Rightarrow> nat \<Rightarrow> bool" where
  "reopening_ok s n b \<longleftrightarrow> mc_files s n \<noteq> None \<and>
     ((build_at s b = Some (Bd_Open n) \<and> live_entity n s = None \<and> (\<exists>i. member_flow_at s i = Some (Mf_Build n b))) \<or>
      (\<exists>a. build_at s b = Some (Bd_Built a) \<and> a < length (mc_agents s) \<and> am_name (mc_agents s ! a) = n \<and>
         (\<forall>c. live_entity n s = Some c \<longrightarrow> c = a) \<and> (\<exists>i. member_flow_at s i = Some (Mf_Sending a (Some (n, b))))))"

definition member_flow_ok :: "members \<Rightarrow> member_flow \<Rightarrow> bool" where
  "member_flow_ok s f \<longleftrightarrow>
     (case f of
        Mf_Build n b \<Rightarrow> build_at s b = Some (Bd_Open n) \<and> mc_reopening s n = Some b
      | Mf_Sending a own \<Rightarrow> a < length (mc_agents s) \<and> \<not> am_closed (mc_agents s ! a) \<and>
          (\<forall>(n, b) \<in> set_option own. am_name (mc_agents s ! a) = n \<and> build_at s b = Some (Bd_Built a))
      | Mf_Submitting a \<Rightarrow> a < length (mc_agents s) \<and> \<not> am_closed (mc_agents s ! a)
      | _ \<Rightarrow> True)"

definition mat_ok :: "members \<Rightarrow> nat \<Rightarrow> materialization \<Rightarrow> bool" where
  "mat_ok s m x \<longleftrightarrow>
     (\<forall>n. mat_name x = Some n \<longrightarrow> mc_materializations s n = Some m) \<and>
     (\<forall>n. x = Mt_Read n \<or> mat_claim x = Some n \<longrightarrow> mc_reopening s n = None) \<and>
     (\<forall>n. mat_claim x = Some n \<longrightarrow> live_entity n s = None) \<and>
     (\<forall>n b. x = Mt_Join n b \<longrightarrow> b < length (mc_builds s) \<and> (\<forall>n'. build_at s b = Some (Bd_Open n') \<longrightarrow> n' = n))"

definition minv :: "members \<Rightarrow> bool" where
  "minv s \<longleftrightarrow> agents_ok s \<and>
     (\<forall>n b. mc_reopening s n = Some b \<longrightarrow> reopening_ok s n b) \<and>
     (\<forall>n b. build_at s b = Some (Bd_Open n) \<longrightarrow> mc_reopening s n = Some b) \<and>
     (\<forall>i f. member_flow_at s i = Some f \<longrightarrow> member_flow_ok s f) \<and>
     (\<forall>m x. mat_at s m = Some x \<longrightarrow> mat_ok s m x)"

lemma minvI:
  assumes "agents_ok s" "\<And>n b. mc_reopening s n = Some b \<Longrightarrow> reopening_ok s n b"
    "\<And>n b. build_at s b = Some (Bd_Open n) \<Longrightarrow> mc_reopening s n = Some b"
    "\<And>i f. member_flow_at s i = Some f \<Longrightarrow> member_flow_ok s f" "\<And>m x. mat_at s m = Some x \<Longrightarrow> mat_ok s m x"
  shows "minv s"
  unfolding minv_def using assms by blast

lemma minvD:
  assumes "minv s"
  shows "agents_ok s" "mc_reopening s n = Some b \<Longrightarrow> reopening_ok s n b"
    "build_at s b = Some (Bd_Open n) \<Longrightarrow> mc_reopening s n = Some b"
    "member_flow_at s i = Some f \<Longrightarrow> member_flow_ok s f" "mat_at s m = Some x \<Longrightarrow> mat_ok s m x"
  using assms unfolding minv_def by blast+

lemma agents_okD:
  assumes "agents_ok s"
  shows "mc_entities s n = Some a \<Longrightarrow> a < length (mc_agents s)"
    "mc_entities s n = Some a \<Longrightarrow> am_name (mc_agents s ! a) = n"
    "a < length (mc_agents s) \<Longrightarrow> am_runtime (mc_agents s ! a) \<Longrightarrow> \<not> am_closed (mc_agents s ! a)"
    "a < length (mc_agents s) \<Longrightarrow> am_runtime (mc_agents s ! a) \<or> sending a s \<Longrightarrow> placed s a"
  using assms unfolding agents_ok_def by blast+

lemma agents_okI:
  assumes "\<And>n a. mc_entities s n = Some a \<Longrightarrow> a < length (mc_agents s) \<and> am_name (mc_agents s ! a) = n"
    "\<And>a. a < length (mc_agents s) \<Longrightarrow> am_runtime (mc_agents s ! a) \<Longrightarrow> \<not> am_closed (mc_agents s ! a)"
    "\<And>a. a < length (mc_agents s) \<Longrightarrow> am_runtime (mc_agents s ! a) \<or> sending a s \<Longrightarrow> placed s a"
  shows "agents_ok s"
  unfolding agents_ok_def using assms by blast

lemma sending_iff:
  "sending a s \<longleftrightarrow> (\<exists>i own. member_flow_at s i = Some (Mf_Sending a own)) \<or> (\<exists>i. member_flow_at s i = Some (Mf_Submitting a))"
proof -
  have "sending a s \<longleftrightarrow> (\<exists>f \<in> set (mc_flows s). (\<exists>own. f = Mf_Sending a own) \<or> f = Mf_Submitting a)"
    unfolding sending_def list_ex_iff by (rule bex_cong) (auto split: member_flow.split)
  moreover have "f \<in> set (mc_flows s) \<longleftrightarrow> (\<exists>i. member_flow_at s i = Some f)" for f
    unfolding member_flow_at_def in_set_conv_nth by auto
  ultimately show ?thesis by blast
qed

text \<open>A step that keeps the files, the builds, the services and the flows that own a build keeps the entry.\<close>

lemma reopening_ok_mono:
  assumes "reopening_ok s n b" "mc_files s n \<noteq> None \<Longrightarrow> mc_files s' n \<noteq> None"
    "build_at s b = Some (Bd_Open n) \<Longrightarrow> build_at s' b = Some (Bd_Open n)"
    "\<And>a. build_at s b = Some (Bd_Built a) \<Longrightarrow> build_at s' b = Some (Bd_Built a)"
    "\<And>a. a < length (mc_agents s) \<Longrightarrow> a < length (mc_agents s') \<and> am_name (mc_agents s' ! a) = am_name (mc_agents s ! a)"
    "\<And>c. live_entity n s' = Some c \<Longrightarrow> live_entity n s = Some c"
    "\<And>i. member_flow_at s i = Some (Mf_Build n b) \<Longrightarrow> member_flow_at s' i = Some (Mf_Build n b)"
    "\<And>i a. member_flow_at s i = Some (Mf_Sending a (Some (n, b))) \<Longrightarrow>
       member_flow_at s' i = Some (Mf_Sending a (Some (n, b)))"
  shows "reopening_ok s' n b"
  using assms(1) unfolding reopening_ok_def
proof (elim conjE disjE exE)
  fix i assume a: "mc_files s n \<noteq> None" "build_at s b = Some (Bd_Open n)" "live_entity n s = None"
    "member_flow_at s i = Some (Mf_Build n b)"
  have "live_entity n s' = None" using assms(6) a(3) by (cases "live_entity n s'") simp_all
  then show "mc_files s' n \<noteq> None \<and>
     ((build_at s' b = Some (Bd_Open n) \<and> live_entity n s' = None \<and> (\<exists>i. member_flow_at s' i = Some (Mf_Build n b))) \<or>
      (\<exists>a. build_at s' b = Some (Bd_Built a) \<and> a < length (mc_agents s') \<and> am_name (mc_agents s' ! a) = n \<and>
         (\<forall>c. live_entity n s' = Some c \<longrightarrow> c = a) \<and> (\<exists>i. member_flow_at s' i = Some (Mf_Sending a (Some (n, b))))))"
    using assms(2) [OF a(1)] assms(3) [OF a(2)] assms(7) [OF a(4)] by blast
next
  fix c i assume a: "mc_files s n \<noteq> None" "build_at s b = Some (Bd_Built c)" "c < length (mc_agents s)"
    "am_name (mc_agents s ! c) = n" "\<forall>d. live_entity n s = Some d \<longrightarrow> d = c"
    "member_flow_at s i = Some (Mf_Sending c (Some (n, b)))"
  have "\<forall>d. live_entity n s' = Some d \<longrightarrow> d = c" using assms(6) a(5) by blast
  moreover have "c < length (mc_agents s') \<and> am_name (mc_agents s' ! c) = n" using assms(5) [OF a(3)] a(4) by simp
  ultimately show "mc_files s' n \<noteq> None \<and>
     ((build_at s' b = Some (Bd_Open n) \<and> live_entity n s' = None \<and> (\<exists>i. member_flow_at s' i = Some (Mf_Build n b))) \<or>
      (\<exists>a. build_at s' b = Some (Bd_Built a) \<and> a < length (mc_agents s') \<and> am_name (mc_agents s' ! a) = n \<and>
         (\<forall>c. live_entity n s' = Some c \<longrightarrow> c = a) \<and> (\<exists>i. member_flow_at s' i = Some (Mf_Sending a (Some (n, b))))))"
    using assms(2) [OF a(1)] assms(4) [OF a(2)] assms(8) [OF a(6)] by blast
qed

text \<open>What sends is not closed.\<close>

lemma sending_open:
  assumes "minv s" "sending a s"
  shows "a < length (mc_agents s) \<and> \<not> am_closed (mc_agents s ! a)"
  using assms(2) minvD(4) [OF assms(1)] unfolding sending_iff by (fastforce simp: member_flow_ok_def)

definition same_rest :: "members \<Rightarrow> members \<Rightarrow> bool" where
  "same_rest s s' \<longleftrightarrow> mc_agents s' = mc_agents s \<and> mc_entities s' = mc_entities s \<and> mc_builds s' = mc_builds s \<and>
     mc_reopening s' = mc_reopening s \<and> mc_files s' = mc_files s"

lemma same_restD:
  assumes "same_rest s s'"
  shows "live_entity n s' = live_entity n s" "build_at s' b = build_at s b" "placed s' a = placed s a"
    "member_flow_ok s' f = member_flow_ok s f"
  using assms by (auto simp: same_rest_def live_entity_def build_at_def placed_def member_flow_ok_def
      split: member_flow.split option.split)

subsection \<open>Flows\<close>

text \<open>A flow that owns no build and waits for none moves on.\<close>

definition plain :: "member_flow \<Rightarrow> bool" where
  "plain f \<longleftrightarrow> (case f of Mf_Build _ _ \<Rightarrow> False | Mf_Sending _ (Some _) \<Rightarrow> False | _ \<Rightarrow> True)"

lemma member_flow_set:
  "member_flow_at (set_member_flow i f s) j = (if j = i \<and> i < length (mc_flows s) then Some f else member_flow_at s j)"
  by (auto simp: member_flow_at_def set_member_flow_def)

lemma same_set_flow: "same_rest s (set_member_flow i f s)"
  by (simp add: same_rest_def set_member_flow_def)

lemma set_flow_fields [simp]:
  "mc_agents (set_member_flow i f s) = mc_agents s" "mc_entities (set_member_flow i f s) = mc_entities s"
  "mc_builds (set_member_flow i f s) = mc_builds s" "mc_reopening (set_member_flow i f s) = mc_reopening s"
  "mc_files (set_member_flow i f s) = mc_files s" "mc_mats (set_member_flow i f s) = mc_mats s"
  "mc_materializations (set_member_flow i f s) = mc_materializations s" "mc_closing (set_member_flow i f s) = mc_closing s"
  "length (mc_flows (set_member_flow i f s)) = length (mc_flows s)"
  "mat_at (set_member_flow i f s) m = mat_at s m" "build_at (set_member_flow i f s) b = build_at s b"
  by (simp_all add: set_member_flow_def mat_at_def build_at_def)

lemmas set_flow_views [simp] = same_restD(1,3,4) [OF same_set_flow]

lemma mat_ok_cong:
  assumes "same_rest s s'" "mc_materializations s' = mc_materializations s"
  shows "mat_ok s' m x = mat_ok s m x"
  using assms same_restD [OF assms(1)] by (simp add: mat_ok_def same_rest_def)

lemma flow_moves:
  assumes inv: "minv s" and at: "member_flow_at s i = Some f0" and f0: "plain f0" and f: "member_flow_ok s f"
    and send: "\<And>a own. f = Mf_Sending a own \<or> f = Mf_Submitting a \<Longrightarrow> placed s a"
  shows "minv (set_member_flow i f s)"
proof (rule minvI)
  let ?s = "set_member_flow i f s"
  have i: "i < length (mc_flows s)" using at by (simp add: member_flow_at_def split: if_splits)
  show "agents_ok ?s"
  proof (rule agents_okI)
    fix a assume "a < length (mc_agents ?s)" "am_runtime (mc_agents ?s ! a) \<or> sending a ?s"
    then consider "am_runtime (mc_agents s ! a) \<or> sending a s" | own where "f = Mf_Sending a own \<or> f = Mf_Submitting a"
      unfolding sending_iff member_flow_set by (auto split: if_splits)
    then show "placed ?s a"
      using agents_okD(4) [OF minvD(1) [OF inv], of a] send \<open>a < length (mc_agents ?s)\<close>
      by cases (auto simp: same_restD [OF same_set_flow])
  qed (use minvD(1) [OF inv] in \<open>auto simp: agents_ok_def\<close>)
next
  let ?s = "set_member_flow i f s"
  fix n b assume r: "mc_reopening ?s n = Some b"
  have keep: "member_flow_at s j = Some g \<Longrightarrow> \<not> plain g \<Longrightarrow> member_flow_at ?s j = Some g" for j g
    using at f0 by (auto simp: member_flow_set)
  have np: "\<not> plain (Mf_Build n b)" "\<not> plain (Mf_Sending a (Some (n, b)))" for a by (simp_all add: plain_def)
  show "reopening_ok ?s n b"
    by (rule reopening_ok_mono [OF minvD(2) [OF inv, of n b]])
      (use keep np r in \<open>auto simp: same_restD [OF same_set_flow]\<close>)
next
  fix n b assume "build_at (set_member_flow i f s) b = Some (Bd_Open n)"
  then show "mc_reopening (set_member_flow i f s) n = Some b"
    using minvD(3) [OF inv, of b n] by (simp add: same_restD [OF same_set_flow])
next
  fix j g assume "member_flow_at (set_member_flow i f s) j = Some g"
  then show "member_flow_ok (set_member_flow i f s) g"
    using f minvD(4) [OF inv, of j g] by (auto simp: member_flow_set same_restD [OF same_set_flow] split: if_splits)
next
  fix m x assume "mat_at (set_member_flow i f s) m = Some x"
  then show "mat_ok (set_member_flow i f s) m x"
    using minvD(5) [OF inv, of m x] by (simp add: mat_ok_cong [OF same_set_flow])
qed

lemma flow_ends:
  assumes "minv s" "member_flow_at s i = Some f0" "plain f0"
    "f = Mf_Over r \<or> f = Mf_Closing a \<or> f = Mf_Wait m k"
  shows "minv (set_member_flow i f s)"
  using assms(4) by (intro flow_moves [OF assms(1-3)]) (auto simp: member_flow_ok_def)

text \<open>The end of a send that reopened: its build leaves the map.\<close>

lemma release_fields [simp]:
  "mc_agents (release_build n b s) = mc_agents s" "mc_entities (release_build n b s) = mc_entities s"
  "mc_builds (release_build n b s) = mc_builds s" "mc_flows (release_build n b s) = mc_flows s"
  "mc_files (release_build n b s) = mc_files s" "mc_mats (release_build n b s) = mc_mats s"
  "mc_materializations (release_build n b s) = mc_materializations s"
  "member_flow_at (release_build n b s) i = member_flow_at s i" "sending a (release_build n b s) = sending a s"
  "live_entity k (release_build n b s) = live_entity k s" "build_at (release_build n b s) c = build_at s c"
  "mat_at (release_build n b s) m = mat_at s m"
  by (simp_all add: release_build_def member_flow_at_def sending_def live_entity_def build_at_def mat_at_def
      cong: option.case_cong)

lemma release_reopening:
  "mc_reopening (release_build n b s) k = (if k = n \<and> mc_reopening s n = Some b then None else mc_reopening s k)"
  by (simp add: release_build_def)

lemma owner_ends:
  assumes inv: "minv s" and at: "member_flow_at s i = Some (Mf_Sending a (Some (n, b)))"
    and held: "mc_entities s n = Some a \<or> (\<not> am_runtime (mc_agents s ! a) \<and> \<not> sending a (set_member_flow i (Mf_Over r) s))"
  shows "minv (release_build n b (set_member_flow i (Mf_Over r) s))"
proof (rule minvI)
  let ?t = "set_member_flow i (Mf_Over r) s" and ?s = "release_build n b (set_member_flow i (Mf_Over r) s)"
  have i: "i < length (mc_flows s)" using at by (simp add: member_flow_at_def split: if_splits)
  have own: "am_name (mc_agents s ! a) = n" "build_at s b = Some (Bd_Built a)" "a < length (mc_agents s)"
    using minvD(4) [OF inv at] by (simp_all add: member_flow_ok_def)
  have sub: "sending c ?t \<Longrightarrow> sending c s" for c
    unfolding sending_iff member_flow_set by (auto split: if_splits)
  show "agents_ok ?s"
  proof (rule agents_okI)
    fix c assume c: "c < length (mc_agents ?s)" "am_runtime (mc_agents ?s ! c) \<or> sending c ?s"
    then have p: "placed s c" using sub agents_okD(4) [OF minvD(1) [OF inv], of c] by auto
    show "placed ?s c"
    proof (cases "c = a")
      case True
      then have "mc_entities s n = Some a" using c(2) held by auto
      then show ?thesis using True own(1) by (simp add: placed_def)
    next
      case False
      then show ?thesis using p own(2) by (auto simp: placed_def release_reopening same_restD [OF same_set_flow])
    qed
  qed (use minvD(1) [OF inv] in \<open>auto simp: agents_ok_def\<close>)
  fix k d assume "mc_reopening ?s k = Some d"
  then have kd: "mc_reopening s k = Some d" "k = n \<Longrightarrow> d \<noteq> b"
    by (auto simp: release_reopening split: if_splits)
  have keep: "member_flow_at s j = Some (Mf_Build k d) \<Longrightarrow> member_flow_at ?s j = Some (Mf_Build k d)"
    "member_flow_at s j = Some (Mf_Sending c (Some (k, d))) \<Longrightarrow> member_flow_at ?s j = Some (Mf_Sending c (Some (k, d)))"
    for j c
    unfolding release_fields(8) member_flow_set using at kd(2) by (cases "j = i"; force)+
  show "reopening_ok ?s k d"
    by (rule reopening_ok_mono [OF minvD(2) [OF inv kd(1)]])
      (erule keep | simp add: same_restD [OF same_set_flow])+
next
  have own: "build_at s b = Some (Bd_Built a)" using minvD(4) [OF inv at] by (simp add: member_flow_ok_def)
  fix k d assume "build_at (release_build n b (set_member_flow i (Mf_Over r) s)) d = Some (Bd_Open k)"
  then show "mc_reopening (release_build n b (set_member_flow i (Mf_Over r) s)) k = Some d"
    using minvD(3) [OF inv, of d k] own by (auto simp: release_reopening)
next
  let ?t = "set_member_flow i (Mf_Over r) s" and ?s = "release_build n b (set_member_flow i (Mf_Over r) s)"
  have own: "build_at s b = Some (Bd_Built a)" using minvD(4) [OF inv at] by (simp add: member_flow_ok_def)
  fix j g assume "member_flow_at ?s j = Some g"
  then have "g = Mf_Over r \<or> member_flow_at s j = Some g"
    unfolding release_fields member_flow_set by (cases "j = i \<and> i < length (mc_flows s)") simp_all
  then consider "g = Mf_Over r" | "member_flow_at s j = Some g" by blast
  then show "member_flow_ok ?s g"
  proof cases
    case 2
    note ok = minvD(4) [OF inv 2]
    show ?thesis
    proof (cases g)
      case (Mf_Build k d)
      then have "build_at s d = Some (Bd_Open k)" "mc_reopening s k = Some d" using ok by (simp_all add: member_flow_ok_def)
      moreover from this own have "d \<noteq> b" by auto
      ultimately show ?thesis using Mf_Build by (auto simp add: member_flow_ok_def release_reopening)
    qed (use ok in \<open>simp_all add: member_flow_ok_def\<close>)
  qed (simp add: member_flow_ok_def)
next
  fix m x assume "mat_at (release_build n b (set_member_flow i (Mf_Over r) s)) m = Some x"
  then have "mat_ok s m x" using minvD(5) [OF inv, of m x] by simp
  then show "mat_ok (release_build n b (set_member_flow i (Mf_Over r) s)) m x"
    by (auto simp: mat_ok_def release_reopening same_restD [OF same_set_flow])
qed


subsection \<open>Materializations\<close>

text \<open>What the views of a state ignore.\<close>

lemma mats_views [simp]:
  "member_flow_at (s\<lparr>mc_mats := x\<rparr>) i = member_flow_at s i" "build_at (s\<lparr>mc_mats := x\<rparr>) b = build_at s b"
  "live_entity n (s\<lparr>mc_mats := x\<rparr>) = live_entity n s" "sending a (s\<lparr>mc_mats := x\<rparr>) = sending a s"
  "placed (s\<lparr>mc_mats := x\<rparr>) a = placed s a"
  "member_flow_at (s\<lparr>mc_materializations := y\<rparr>) i = member_flow_at s i"
  "build_at (s\<lparr>mc_materializations := y\<rparr>) b = build_at s b"
  "live_entity n (s\<lparr>mc_materializations := y\<rparr>) = live_entity n s"
  "sending a (s\<lparr>mc_materializations := y\<rparr>) = sending a s" "placed (s\<lparr>mc_materializations := y\<rparr>) a = placed s a"
  "mat_at (s\<lparr>mc_materializations := y\<rparr>) m = mat_at s m"
  by (simp_all add: member_flow_at_def build_at_def live_entity_def sending_def placed_def mat_at_def
      cong: option.case_cong)

lemma mats_oks [simp]:
  "agents_ok (s\<lparr>mc_mats := x\<rparr>) = agents_ok s" "reopening_ok (s\<lparr>mc_mats := x\<rparr>) n b = reopening_ok s n b"
  "member_flow_ok (s\<lparr>mc_mats := x\<rparr>) f = member_flow_ok s f"
  "agents_ok (s\<lparr>mc_materializations := y\<rparr>) = agents_ok s"
  "reopening_ok (s\<lparr>mc_materializations := y\<rparr>) n b = reopening_ok s n b"
  "member_flow_ok (s\<lparr>mc_materializations := y\<rparr>) f = member_flow_ok s f" "mat_ok (s\<lparr>mc_mats := x\<rparr>) m z = mat_ok s m z"
  by (simp_all add: agents_ok_def reopening_ok_def member_flow_ok_def mat_ok_def cong: member_flow.case_cong)

text \<open>A change of the materializations alone.\<close>

lemma minv_mats:
  assumes "minv s" "\<And>k z. k < length x \<Longrightarrow> x ! k = z \<Longrightarrow> mat_ok (s\<lparr>mc_materializations := y\<rparr>) k z"
  shows "minv (s\<lparr>mc_mats := x, mc_materializations := y\<rparr>)"
proof -
  have "mat_ok (s\<lparr>mc_mats := x, mc_materializations := y\<rparr>) k z = mat_ok (s\<lparr>mc_materializations := y\<rparr>) k z" for k z
    by (simp add: mat_ok_def)
  then show ?thesis
    using assms unfolding minv_def by (simp add: mat_at_def)
qed

definition mat_over :: "nat \<Rightarrow> string \<Rightarrow> members \<Rightarrow> members" where
  "mat_over m n s =
     (set_mat m Mt_Over s)\<lparr>mc_materializations :=
        (if mc_materializations s n = Some m then (mc_materializations s)(n := None) else mc_materializations s)\<rparr>"

lemma settle_mat_over: "settle_mat m n r s = fold (resume_flow m n r) [0..<length (mc_flows s)] (mat_over m n s)"
  by (simp add: settle_mat_def mat_over_def)

lemma mat_at_nth: "mat_at s m = Some x \<longleftrightarrow> m < length (mc_mats s) \<and> mc_mats s ! m = x"
  by (simp add: mat_at_def)

lemma mat_over_minv:
  assumes inv: "minv s" and at: "mat_at s m = Some x" and n: "mat_name x = Some n"
  shows "minv (mat_over m n s)"
proof -
  have own: "mc_materializations s n = Some m" using minvD(5) [OF inv at] n by (simp add: mat_ok_def)
  have "minv (s\<lparr>mc_mats := (mc_mats s)[m := Mt_Over], mc_materializations := (mc_materializations s)(n := None)\<rparr>)"
  proof (rule minv_mats [OF inv])
    fix k z assume k: "k < length ((mc_mats s)[m := Mt_Over])" "(mc_mats s)[m := Mt_Over] ! k = z"
    show "mat_ok (s\<lparr>mc_materializations := (mc_materializations s)(n := None)\<rparr>) k z"
    proof (cases "k = m")
      case True
      then have "z = Mt_Over" using k by simp
      then show ?thesis by (simp add: mat_ok_def)
    next
      case False
      then have z: "mat_ok s k z" using k minvD(5) [OF inv, of k z] by (simp add: mat_at_nth)
      then have "mat_name z \<noteq> Some n" using False own by (auto simp: mat_ok_def)
      then show ?thesis using z by (auto simp: mat_ok_def)
    qed
  qed
  then show ?thesis by (simp add: mat_over_def set_mat_def own)
qed

lemma mat_over_fields [simp]:
  "mc_agents (mat_over m n s) = mc_agents s" "mc_entities (mat_over m n s) = mc_entities s"
  "mc_builds (mat_over m n s) = mc_builds s" "mc_reopening (mat_over m n s) = mc_reopening s"
  "mc_files (mat_over m n s) = mc_files s" "mc_flows (mat_over m n s) = mc_flows s"
  "live_entity k (mat_over m n s) = live_entity k s" "build_at (mat_over m n s) b = build_at s b"
  "placed (mat_over m n s) a = placed s a" "member_flow_at (mat_over m n s) i = member_flow_at s i"
  "mc_closing (mat_over m n s) = mc_closing s" "sending a (mat_over m n s) = sending a s"
  by (simp_all add: mat_over_def set_mat_def)

lemma mat_over_named:
  assumes "minv s" "mat_at s m = Some x" "mat_name x = Some n"
  shows "mc_materializations (mat_over m n s) n = None"
  using minvD(5) [OF assms(1,2)] assms(3) by (simp add: mat_over_def mat_ok_def set_mat_def)

text \<open>A materialization goes one step on.\<close>

lemma set_mat_minv:
  assumes inv: "minv s" and at: "mat_at s m = Some x" and n: "mat_name x = Some n" "mat_name x' = Some n"
    and ok: "x' = Mt_Read n \<or> mat_claim x' = Some n \<Longrightarrow> mc_reopening s n = None"
      "mat_claim x' = Some n \<Longrightarrow> live_entity n s = None"
      "\<And>b. x' = Mt_Join n b \<Longrightarrow> build_at s b = Some (Bd_Open n)"
  shows "minv (set_mat m x' s)"
proof -
  have own: "mc_materializations s n = Some m" using minvD(5) [OF inv at] n by (simp add: mat_ok_def)
  have new: "mat_ok s m x'"
    unfolding mat_ok_def
  proof (intro conjI allI impI; (elim disjE)?)
    fix k b assume j: "x' = Mt_Join k b"
    then have "k = n" using n(2) by simp
    then have b: "build_at s b = Some (Bd_Open n)" using ok(3) j by simp
    then show "b < length (mc_builds s)" by (simp add: build_at_def split: if_splits)
    fix k' assume "build_at s b = Some (Bd_Open k')"
    then show "k' = k" using b \<open>k = n\<close> by simp
  qed (use ok(1,2) n(2) own in \<open>cases x'; auto\<close>)+
  have "minv (s\<lparr>mc_mats := (mc_mats s)[m := x'], mc_materializations := mc_materializations s\<rparr>)"
  proof (rule minv_mats [OF inv])
    fix k z assume k: "k < length ((mc_mats s)[m := x'])" "(mc_mats s)[m := x'] ! k = z"
    have "mat_ok s k z"
      using k new minvD(5) [OF inv, of k z] by (cases "k = m") (simp_all add: mat_at_nth)
    then show "mat_ok (s\<lparr>mc_materializations := mc_materializations s\<rparr>) k z" by simp
  qed
  then show ?thesis by (simp add: set_mat_def)
qed

text \<open>A materialization that starts: nothing of its name is under way.\<close>

lemma track_minv:
  assumes inv: "minv s" and n: "mat_name x = Some n" "mc_materializations s n = None"
    and ok: "x = Mt_Start n \<or> mat_claim x = Some n \<and> mc_reopening s n = None \<and> live_entity n s = None"
  shows "minv (track_materialization n x s)"
proof -
  let ?y = "(mc_materializations s)(n := Some (length (mc_mats s)))"
  have "minv (s\<lparr>mc_mats := mc_mats s @ [x], mc_materializations := ?y\<rparr>)"
  proof (rule minv_mats [OF inv])
    fix k z assume k: "k < length (mc_mats s @ [x])" "(mc_mats s @ [x]) ! k = z"
    show "mat_ok (s\<lparr>mc_materializations := ?y\<rparr>) k z"
    proof (cases "k < length (mc_mats s)")
      case True
      then have z: "mat_ok s k z" using k minvD(5) [OF inv, of k z] by (simp add: mat_at_nth nth_append)
      then have "mat_name z \<noteq> Some n" using n by (auto simp: mat_ok_def)
      then show ?thesis using z by (auto simp: mat_ok_def)
    next
      case False
      then have "k = length (mc_mats s)" "z = x" using k by (simp_all add: nth_append)
      then show ?thesis using n ok by (cases x) (auto simp: mat_ok_def)
    qed
  qed
  then show ?thesis by (simp add: track_materialization_def)
qed


subsection \<open>What a resolved name gives\<close>

text \<open>What a materialization may settle with.\<close>

definition res_ok :: "string \<Rightarrow> resolved \<Rightarrow> members \<Rightarrow> bool" where
  "res_ok n r s \<longleftrightarrow>
     (case r of
        Rs_Agent a \<Rightarrow> a < length (mc_agents s) \<and> am_name (mc_agents s ! a) = n \<and> placed s a
      | Rs_Closed \<Rightarrow> live_entity n s = None \<and> mc_files s n \<noteq> None \<and> mc_materializations s n = None \<and>
          (\<forall>b. mc_reopening s n = Some b \<longrightarrow> build_at s b = Some (Bd_Open n))
      | Rs_Failed \<Rightarrow> True)"

lemma res_ok_flow [simp]: "res_ok n r (set_member_flow i f s) = res_ok n r s"
  by (simp add: res_ok_def same_restD [OF same_set_flow] cong: resolved.case_cong)

lemma send_resolved_minv:
  assumes "minv s" "member_flow_at s i = Some f0" "plain f0" "a < length (mc_agents s)" "placed s a"
  shows "minv (send_resolved i a None s)"
proof (cases "am_closed (mc_agents s ! a) \<or> am_locked (mc_agents s ! a)")
  case True
  then show ?thesis using flow_ends [OF assms(1-3)] by (simp add: send_resolved_def)
next
  case False
  then have "member_flow_ok s (Mf_Sending a None)" using assms(4) by (simp add: member_flow_ok_def)
  then have "minv (set_member_flow i (Mf_Sending a None) s)"
    using assms(5) by (intro flow_moves [OF assms(1-3)]) auto
  then show ?thesis using False by (simp add: send_resolved_def)
qed

lemma submit_spawned_minv:
  assumes "minv s" "member_flow_at s i = Some f0" "plain f0" "a < length (mc_agents s)" "placed s a"
  shows "minv (submit_spawned i a s)"
proof (cases "am_closed (mc_agents s ! a) \<or> am_locked (mc_agents s ! a)")
  case True
  then show ?thesis using flow_ends [OF assms(1-3)] by (simp add: submit_spawned_def)
next
  case False
  then have "member_flow_ok s (Mf_Submitting a)" using assms(4) by (simp add: member_flow_ok_def)
  then have "minv (set_member_flow i (Mf_Submitting a) s)"
    using assms(5) by (intro flow_moves [OF assms(1-3)]) auto
  then show ?thesis using False by (simp add: submit_spawned_def)
qed

text \<open>A send that joins the build of its name, and one that starts it.\<close>

lemma joins_build_minv:
  assumes inv: "minv s" and at: "member_flow_at s i = Some f0" "plain f0"
    and b: "mc_reopening s n = Some b" "build_at s b = Some (Bd_Open n)"
  shows "minv (set_member_flow i (Mf_Build n b) s)"
  using b by (intro flow_moves [OF inv at]) (auto simp: member_flow_ok_def)

lemma builds_views:
  fixes s n defines "t \<equiv> s\<lparr>mc_builds := mc_builds s @ [Bd_Open n],
    mc_reopening := (mc_reopening s)(n := Some (length (mc_builds s)))\<rparr>"
  shows "member_flow_at t i = member_flow_at s i" "live_entity k t = live_entity k s" "sending a t = sending a s"
    "build_at t b = (if b = length (mc_builds s) then Some (Bd_Open n) else build_at s b)"
    "mat_at t m = mat_at s m" "mc_agents t = mc_agents s" "mc_entities t = mc_entities s" "mc_files t = mc_files s"
    "mc_materializations t = mc_materializations s" "mc_builds t = mc_builds s @ [Bd_Open n]"
    "mc_reopening t k = (if k = n then Some (length (mc_builds s)) else mc_reopening s k)"
  by (simp_all add: t_def member_flow_at_def live_entity_def sending_def build_at_def mat_at_def nth_append
      cong: option.case_cong)

lemma build_at_lt: "build_at s b = Some x \<Longrightarrow> b < length (mc_builds s)"
  by (simp add: build_at_def split: if_splits)

lemma starts_build_minv:
  assumes inv: "minv s" and at: "member_flow_at s i = Some f0" "plain f0"
    and n: "mc_reopening s n = None" "live_entity n s = None" "mc_files s n \<noteq> None" "mc_materializations s n = None"
  defines "t \<equiv> s\<lparr>mc_builds := mc_builds s @ [Bd_Open n],
    mc_reopening := (mc_reopening s)(n := Some (length (mc_builds s)))\<rparr>"
  shows "minv (set_member_flow i (Mf_Build n (length (mc_builds s))) t)"
proof (rule minvI)
  let ?b = "length (mc_builds s)" and ?s = "set_member_flow i (Mf_Build n (length (mc_builds s))) t"
  note v = builds_views [where s = s and n = n, folded t_def]
  note set = same_restD [OF same_set_flow]
  have i: "i < length (mc_flows t)" using at by (simp add: member_flow_at_def t_def split: if_splits)
  have old: "build_at s b = Some x \<Longrightarrow> build_at t b = Some x" for b x
    using build_at_lt [of s b x] by (simp add: v)
  have fresh: "build_at s ?b = None" by (simp add: build_at_def)
  have send: "sending c ?s \<Longrightarrow> sending c s" for c
    unfolding sending_iff member_flow_set v by (auto split: if_splits)
  show "agents_ok ?s"
  proof (rule agents_okI)
    fix c assume "c < length (mc_agents ?s)" "am_runtime (mc_agents ?s ! c) \<or> sending c ?s"
    then have "placed s c" using agents_okD(4) [OF minvD(1) [OF inv], of c] send by (auto simp: v)
    then have "placed t c" unfolding placed_def
    proof (elim disjE exE conjE)
      fix b assume b: "mc_reopening s (am_name (mc_agents s ! c)) = Some b" "build_at s b = Some (Bd_Built c)"
      moreover have "am_name (mc_agents s ! c) \<noteq> n" using b(1) n(1) by auto
      ultimately show "mc_entities t (am_name (mc_agents t ! c)) = Some c \<or>
          (\<exists>b. mc_reopening t (am_name (mc_agents t ! c)) = Some b \<and> build_at t b = Some (Bd_Built c))"
        using old [OF b(2)] by (intro disjI2 exI [of _ b]) (simp add: v(6,11))
    qed (simp add: v)
    then show "placed ?s c" by (simp add: set)
  qed (use minvD(1) [OF inv] in \<open>auto simp: agents_ok_def v\<close>)
  show "reopening_ok ?s k b" if r: "mc_reopening ?s k = Some b" for k b
  proof (cases "k = n")
    case True
    then have "b = ?b" using r by (simp add: v)
    moreover have "member_flow_at ?s i = Some (Mf_Build n ?b)" by (simp add: member_flow_set i)
    ultimately show ?thesis using n True by (auto simp: reopening_ok_def v)
  next
    case False
    then have "reopening_ok s k b" using minvD(2) [OF inv, of k b] r by (simp add: v)
    moreover have "member_flow_at s j = Some g \<Longrightarrow> g \<noteq> f0 \<Longrightarrow> member_flow_at ?s j = Some g" for j g
      using at by (cases "j = i") (simp_all add: member_flow_set v)
    moreover have "Mf_Build k b \<noteq> f0" "Mf_Sending a (Some (k, b)) \<noteq> f0" for a
      using at(2) by (auto simp: plain_def)
    ultimately show ?thesis by (elim reopening_ok_mono) (simp_all add: v, auto dest: build_at_lt)
  qed
  show "mc_reopening ?s k = Some b" if "build_at ?s b = Some (Bd_Open k)" for k b
    using that minvD(3) [OF inv, of b k] n(1) by (cases "b = ?b"; cases "k = n") (simp_all add: v)
  show "member_flow_ok ?s g" if g: "member_flow_at ?s j = Some g" for j g
  proof (cases "j = i")
    case True
    then have "g = Mf_Build n ?b" using g i by (simp add: member_flow_set)
    then show ?thesis by (simp add: member_flow_ok_def v)
  next
    case False
    then have "member_flow_ok s g" using g minvD(4) [OF inv, of j g] by (simp add: member_flow_set v)
    then show ?thesis using n(1) fresh by (cases g) (auto simp: member_flow_ok_def v)
  qed
  show "mat_ok ?s m x" if "mat_at ?s m = Some x" for m x
  proof -
    have "mat_ok s m x" using that minvD(5) [OF inv, of m x] by (simp add: v)
    then show ?thesis
      using n(4) by (cases x) (auto simp: mat_ok_def v set)
  qed
qed


lemma plain_simps [simp]:
  "plain (Mf_Wait m k)" "plain (Mf_Closing a)" "plain (Mf_Submitting a)" "plain (Mf_Allocate l)" "plain (Mf_Over r)"
  "plain (Mf_Sending a None)"
  by (simp_all add: plain_def)

lemma send_reopened_minv:
  assumes inv: "minv s" and at: "member_flow_at s i = Some f0" "plain f0" and res: "res_ok n Rs_Closed s"
  shows "minv (send_reopened i n s)" "res_ok n Rs_Closed (send_reopened i n s)"
    "length (mc_flows (send_reopened i n s)) = length (mc_flows s)"
proof -
  have n: "live_entity n s = None" "mc_files s n \<noteq> None" "mc_materializations s n = None"
    "\<And>b. mc_reopening s n = Some b \<Longrightarrow> build_at s b = Some (Bd_Open n)"
    using res by (simp_all add: res_ok_def)
  note v = builds_views [where s = s and n = n]
  show "minv (send_reopened i n s)"
  proof (cases "mc_reopening s n")
    case None
    then show ?thesis using starts_build_minv [OF inv at None n(1,2,3)] by (simp add: send_reopened_def reopen_from_def)
  next
    case (Some b)
    then show ?thesis using joins_build_minv [OF inv at Some n(4) [OF Some]] by (simp add: send_reopened_def reopen_from_def)
  qed
  show "res_ok n Rs_Closed (send_reopened i n s)"
    using n(1-3) n(4) by (cases "mc_reopening s n") (simp_all add: send_reopened_def reopen_from_def res_ok_def v)
  show "length (mc_flows (send_reopened i n s)) = length (mc_flows s)"
    by (cases "mc_reopening s n") (simp_all add: send_reopened_def reopen_from_def)
qed

text \<open>Only the joined or started build of a name that is closed changes more than the flow.\<close>

lemma send_resolved_set: "\<exists>f. send_resolved i a own s = set_member_flow i f s"
  by (auto simp: send_resolved_def)

lemma submit_spawned_set: "\<exists>f. submit_spawned i a s = set_member_flow i f s"
  by (auto simp: submit_spawned_def)

lemma resume_flow_minv:
  assumes inv: "minv s" and res: "res_ok n r s"
  shows "minv (resume_flow m n r i s) \<and> res_ok n r (resume_flow m n r i s) \<and>
    length (mc_flows (resume_flow m n r i s)) = length (mc_flows s)"
proof (cases "\<exists>k. member_flow_at s i = Some (Mf_Wait m k)")
  case False
  then have "resume_flow m n r i s = s"
    by (cases "member_flow_at s i"; cases "the (member_flow_at s i)") (auto simp: resume_flow_def)
  then show ?thesis using assms by simp
next
  case True
  then obtain k where at: "member_flow_at s i = Some (Mf_Wait m k)" by blast
  note ends = flow_ends [OF inv at, simplified]
  consider (f) f where "resume_flow m n r i s = set_member_flow i f s" "f = Mf_Over Mr_Failed \<or> f = Mf_Over Mr_Done \<or>
      f = Mf_Over Mr_Record \<or> (\<exists>a. f = Mf_Closing a)" | (same) "resume_flow m n r i s = s"
    | (send) a where "r = Rs_Agent a" "resume_flow m n r i s = send_resolved i a None s"
    | (spawn) a where "r = Rs_Agent a" "resume_flow m n r i s = submit_spawned i a s"
    | (closed) "r = Rs_Closed" "resume_flow m n r i s = send_reopened i n s"
    by (cases r; cases k) (auto simp: resume_flow_def at)
  then show ?thesis
  proof cases
    case f
    then have "minv (set_member_flow i f s)" using ends by blast
    then show ?thesis using f res by simp
  next
    case send
    then have a: "a < length (mc_agents s)" "placed s a" using res by (simp_all add: res_ok_def)
    obtain f where "send_resolved i a None s = set_member_flow i f s" using send_resolved_set by blast
    then show ?thesis using send res send_resolved_minv [OF inv at _ a] by simp
  next
    case spawn
    then have a: "a < length (mc_agents s)" "placed s a" using res by (simp_all add: res_ok_def)
    obtain f where "submit_spawned i a s = set_member_flow i f s" using submit_spawned_set by blast
    then show ?thesis using spawn res submit_spawned_minv [OF inv at _ a] by simp
  next
    case closed
    then show ?thesis using send_reopened_minv [OF inv at] res by simp
  qed (use inv res in simp_all)
qed

text \<open>A fold of steps that each keep a property keeps it.\<close>

lemma fold_keeps:
  assumes "P s" "\<And>i t. i \<in> set is \<Longrightarrow> P t \<Longrightarrow> P (g i t)"
  shows "P (fold g is s)"
  using assms by (induction "is" arbitrary: s) simp_all

lemma settle_mat_minv:
  assumes "minv (mat_over m n s)" "res_ok n r (mat_over m n s)"
  shows "minv (settle_mat m n r s)" "res_ok n r (settle_mat m n r s)"
proof -
  have "minv (settle_mat m n r s) \<and> res_ok n r (settle_mat m n r s)"
    unfolding settle_mat_over
    by (rule fold_keeps [where P = "\<lambda>t. minv t \<and> res_ok n r t"]) (use assms resume_flow_minv in simp_all)
  then show "minv (settle_mat m n r s)" "res_ok n r (settle_mat m n r s)" by simp_all
qed

lemma res_ok_over:
  assumes "res_ok n r s" "r = Rs_Closed \<Longrightarrow> mc_materializations (mat_over m n s) n = None"
  shows "res_ok n r (mat_over m n s)"
  using assms by (cases r) (simp_all add: res_ok_def)

text \<open>The settlements of the operations: a failure, a service that is held, and a closed identity.\<close>

lemma settle_failed_minv:
  assumes "minv s" "mat_at s m = Some x" "mat_name x = Some n"
  shows "minv (settle_mat m n Rs_Failed s)"
  by (rule settle_mat_minv [OF mat_over_minv [OF assms]]) (simp add: res_ok_def)

lemma settle_agent_minv:
  assumes "minv s" "mat_at s m = Some x" "mat_name x = Some n"
    "a < length (mc_agents s)" "am_name (mc_agents s ! a) = n" "placed s a"
  shows "minv (settle_mat m n (Rs_Agent a) s)"
  by (rule settle_mat_minv [OF mat_over_minv [OF assms(1-3)]]) (use assms(4-6) in \<open>simp add: res_ok_def\<close>)

lemma settle_closed_minv:
  assumes "minv s" "mat_at s m = Some x" "mat_name x = Some n"
    "live_entity n s = None" "mc_files s n \<noteq> None" "mc_reopening s n = None"
  shows "minv (settle_mat m n Rs_Closed s)"
  by (rule settle_mat_minv [OF mat_over_minv [OF assms(1-3)]])
    (use assms(4-6) mat_over_named [OF assms(1-3)] in \<open>simp add: res_ok_def\<close>)


subsection \<open>The map of services\<close>

lemma entities_views [simp]:
  "member_flow_at (s\<lparr>mc_entities := x\<rparr>) i = member_flow_at s i" "build_at (s\<lparr>mc_entities := x\<rparr>) b = build_at s b"
  "sending a (s\<lparr>mc_entities := x\<rparr>) = sending a s" "mat_at (s\<lparr>mc_entities := x\<rparr>) m = mat_at s m"
  "member_flow_ok (s\<lparr>mc_entities := x\<rparr>) f = member_flow_ok s f"
  by (simp_all add: member_flow_at_def build_at_def sending_def mat_at_def member_flow_ok_def cong: member_flow.case_cong)

lemma unentity_minv:
  assumes inv: "minv s" and a: "mc_entities s n = Some a" "member_retired (mc_agents s ! a)"
  shows "minv (s\<lparr>mc_entities := (mc_entities s)(n := None)\<rparr>)"
proof (rule minvI)
  let ?s = "s\<lparr>mc_entities := (mc_entities s)(n := None)\<rparr>"
  note ag = agents_okD [OF minvD(1) [OF inv]]
  have live: "live_entity k ?s = live_entity k s" for k
    using a by (cases "k = n") (simp_all add: live_entity_def cong: option.case_cong)
  have idle: "\<not> am_runtime (mc_agents s ! a)" "\<not> sending a s"
    using a ag(1) [of n a] ag(3) [of a] sending_open [OF inv, of a] by (auto simp: member_retired_def)
  show "agents_ok ?s"
  proof (rule agents_okI)
    fix c assume c: "c < length (mc_agents ?s)" "am_runtime (mc_agents ?s ! c) \<or> sending c ?s"
    then have "c \<noteq> a" "placed s c" using idle ag(4) [of c] by auto
    then show "placed ?s c" using a(1) by (auto simp: placed_def)
  qed (use ag(1-3) in \<open>auto split: if_splits\<close>)
  show "reopening_ok ?s k b" if "mc_reopening ?s k = Some b" for k b
    by (rule reopening_ok_mono [OF minvD(2) [OF inv, of k b]]) (use that in \<open>simp_all add: live\<close>)
  show "mc_reopening ?s k = Some b" if "build_at ?s b = Some (Bd_Open k)" for k b
    using that minvD(3) [OF inv, of b k] by simp
  show "member_flow_ok ?s g" if "member_flow_at ?s j = Some g" for j g
    using that minvD(4) [OF inv, of j g] by simp
  show "mat_ok ?s m x" if "mat_at ?s m = Some x" for m x
    using that minvD(5) [OF inv, of m x] by (simp add: mat_ok_def live)
qed

lemma drop_retired_minv:
  assumes "minv s"
  shows "minv (drop_retired n s)"
proof (cases "mc_entities s n")
  case (Some a)
  then show ?thesis
    using unentity_minv [OF assms Some] assms by (auto simp: drop_retired_def live_entity_def)
qed (use assms in \<open>simp add: drop_retired_def\<close>)

lemma drop_retired_fields [simp]:
  "mc_agents (drop_retired n s) = mc_agents s" "mc_builds (drop_retired n s) = mc_builds s"
  "mc_reopening (drop_retired n s) = mc_reopening s" "mc_files (drop_retired n s) = mc_files s"
  "mc_mats (drop_retired n s) = mc_mats s" "mc_materializations (drop_retired n s) = mc_materializations s"
  "mc_flows (drop_retired n s) = mc_flows s" "mc_closing (drop_retired n s) = mc_closing s"
  "member_flow_at (drop_retired n s) i = member_flow_at s i" "mat_at (drop_retired n s) m = mat_at s m"
  "build_at (drop_retired n s) b = build_at s b"
  by (simp_all add: drop_retired_def)

lemma drop_retired_live [simp]: "live_entity k (drop_retired n s) = live_entity k s"
  by (auto simp: drop_retired_def live_entity_def split: option.splits if_splits)

lemma entity_evicted_minv:
  assumes "minv s"
  shows "minv (entity_evicted a s)"
  using unentity_minv [OF assms] assms by (auto simp: entity_evicted_def Let_def)

subsection \<open>A service that is made\<close>

lemma new_member_views:
  fixes s :: members and n l
  defines "t \<equiv> new_member n l s" and "a \<equiv> length (mc_agents s)"
  shows "member_flow_at t i = member_flow_at s i" "build_at t b = build_at s b" "mat_at t m = mat_at s m"
    "sending c t = sending c s" "mc_entities t = mc_entities s" "mc_reopening t = mc_reopening s"
    "mc_files t = mc_files s" "mc_materializations t = mc_materializations s" "mc_flows t = mc_flows s"
    "length (mc_agents t) = Suc a" "c < a \<Longrightarrow> mc_agents t ! c = mc_agents s ! c"
    "mc_agents t ! a = \<lparr> am_name = n, am_closed = False, am_locked = l, am_runtime = False \<rparr>"
    "mc_builds t = mc_builds s" "mc_mats t = mc_mats s" "mc_closing t = mc_closing s"
  by (simp_all add: t_def a_def new_member_def member_flow_at_def build_at_def mat_at_def sending_def nth_append)

lemma new_member_minv:
  assumes inv: "minv s"
  shows "minv (new_member n l s)"
proof (rule minvI)
  let ?s = "new_member n l s" and ?a = "length (mc_agents s)"
  note ag = agents_okD [OF minvD(1) [OF inv]] and v = new_member_views
  have live: "live_entity k ?s = live_entity k s" for k
    using ag(1) [of k] by (cases "mc_entities s k") (simp_all add: live_entity_def v)
  have place: "c < ?a \<Longrightarrow> placed ?s c = placed s c" for c
    by (simp add: placed_def v)
  have idle: "\<not> sending ?a s" using sending_open [OF inv, of ?a] by auto
  have less: "c < length (mc_agents ?s) \<Longrightarrow> c \<noteq> ?a \<Longrightarrow> c < ?a" for c by (simp add: v)
  show "agents_ok ?s"
  proof (rule agents_okI)
    show "c < length (mc_agents ?s) \<and> am_name (mc_agents ?s ! c) = k" if "mc_entities ?s k = Some c" for k c
      using that ag(1,2) [of k c] by (simp add: v)
    show "\<not> am_closed (mc_agents ?s ! c)" if "c < length (mc_agents ?s)" "am_runtime (mc_agents ?s ! c)" for c
      using that ag(3) [of c] less [of c] by (cases "c = ?a") (simp_all add: v)
    show "placed ?s c" if "c < length (mc_agents ?s)" "am_runtime (mc_agents ?s ! c) \<or> sending c ?s" for c
      using that ag(4) [of c] less [of c] place [of c] idle by (cases "c = ?a") (simp_all add: v)
  qed
  show "reopening_ok ?s k b" if "mc_reopening ?s k = Some b" for k b
    by (rule reopening_ok_mono [OF minvD(2) [OF inv, of k b]]) (use that in \<open>simp_all add: live v\<close>)
  show "mc_reopening ?s k = Some b" if "build_at ?s b = Some (Bd_Open k)" for k b
    using that minvD(3) [OF inv, of b k] by (simp add: v)
  show "member_flow_ok ?s g" if "member_flow_at ?s j = Some g" for j g
  proof -
    have "member_flow_ok s g" using that minvD(4) [OF inv, of j g] by (simp add: v)
    then show ?thesis by (cases g) (auto simp: member_flow_ok_def v)
  qed
  show "mat_ok ?s m x" if "mat_at ?s m = Some x" for m x
  proof -
    have "mat_ok s m x" using that minvD(5) [OF inv, of m x] by (simp add: v)
    then show ?thesis unfolding mat_ok_def live v .
  qed
qed


text \<open>A service becomes the one of its name, when whatever was under the name is retired.\<close>

lemma publish_fields [simp]:
  "mc_agents (publish_member a s) = mc_agents s" "mc_builds (publish_member a s) = mc_builds s"
  "mc_reopening (publish_member a s) = mc_reopening s" "mc_files (publish_member a s) = mc_files s"
  "mc_mats (publish_member a s) = mc_mats s" "mc_materializations (publish_member a s) = mc_materializations s"
  "mc_flows (publish_member a s) = mc_flows s" "mc_closing (publish_member a s) = mc_closing s"
  "member_flow_at (publish_member a s) i = member_flow_at s i" "mat_at (publish_member a s) m = mat_at s m"
  "build_at (publish_member a s) b = build_at s b" "sending c (publish_member a s) = sending c s"
  "member_flow_ok (publish_member a s) f = member_flow_ok s f"
  by (simp_all add: publish_member_def)

lemma publish_minv:
  assumes inv: "minv s" and a: "a < length (mc_agents s)" "am_name (mc_agents s ! a) = n"
    and other: "\<And>c. mc_entities s n = Some c \<Longrightarrow> c \<noteq> a \<Longrightarrow> member_retired (mc_agents s ! c)"
    and re: "\<And>b. mc_reopening s n = Some b \<Longrightarrow> build_at s b = Some (Bd_Built a)"
    and claim: "\<And>m x. mat_at s m = Some x \<Longrightarrow> mat_claim x \<noteq> Some n"
  shows "minv (publish_member a s)"
proof (rule minvI)
  let ?s = "publish_member a s"
  note ag = agents_okD [OF minvD(1) [OF inv]]
  have ent: "mc_entities ?s = (mc_entities s)(n := Some a)" by (simp add: publish_member_def a(2))
  have live: "k \<noteq> n \<Longrightarrow> live_entity k ?s = live_entity k s" for k
    by (simp add: live_entity_def ent cong: option.case_cong)
  have liven: "live_entity n ?s = Some c \<Longrightarrow> c = a" for c
    by (simp add: live_entity_def ent split: if_splits)
  show "agents_ok ?s"
  proof (rule agents_okI)
    show "c < length (mc_agents ?s) \<and> am_name (mc_agents ?s ! c) = k" if "mc_entities ?s k = Some c" for k c
      using that ag(1,2) [of k c] a by (cases "k = n") (simp_all add: ent)
    show "\<not> am_closed (mc_agents ?s ! c)" if "c < length (mc_agents ?s)" "am_runtime (mc_agents ?s ! c)" for c
      using that ag(3) [of c] by simp
    fix c assume c: "c < length (mc_agents ?s)" "am_runtime (mc_agents ?s ! c) \<or> sending c ?s"
    then have p: "placed s c" "\<not> member_retired (mc_agents s ! c)"
      using ag(3,4) [of c] sending_open [OF inv, of c] by (auto simp: member_retired_def)
    show "placed ?s c"
      using p other [of c] by (cases "c = a") (auto simp: placed_def ent a(2))
  qed
  show "reopening_ok ?s k b" if r: "mc_reopening ?s k = Some b" for k b
  proof (cases "k = n")
    case True
    then have "build_at s b = Some (Bd_Built a)" "reopening_ok s n b" using re minvD(2) [OF inv, of k b] r by simp_all
    then show ?thesis using True liven by (auto simp: reopening_ok_def)
  next
    case False
    show ?thesis
      by (rule reopening_ok_mono [OF minvD(2) [OF inv, of k b]]) (use r False in \<open>simp_all add: live\<close>)
  qed
  show "mc_reopening ?s k = Some b" if "build_at ?s b = Some (Bd_Open k)" for k b
    using that minvD(3) [OF inv, of b k] by simp
  show "member_flow_ok ?s g" if "member_flow_at ?s j = Some g" for j g
    using that minvD(4) [OF inv, of j g] by simp
  show "mat_ok ?s m x" if x: "mat_at ?s m = Some x" for m x
  proof -
    have ok: "mat_ok s m x" using x minvD(5) [OF inv, of m x] by simp
    have "mat_claim x \<noteq> Some n" using x claim [of m x] by simp
    then have "mat_claim x = Some k \<Longrightarrow> live_entity k ?s = live_entity k s" for k using live [of k] by auto
    then show ?thesis using ok by (simp add: mat_ok_def)
  qed
qed

lemma publish_held_minv:
  assumes inv: "minv s" and a: "sending a s"
  shows "minv (publish_member a s)"
proof -
  let ?n = "am_name (mc_agents s ! a)"
  note ag = agents_okD [OF minvD(1) [OF inv]]
  have lt: "a < length (mc_agents s)" "\<not> am_closed (mc_agents s ! a)" using sending_open [OF inv a] by simp_all
  consider (map) "mc_entities s ?n = Some a"
    | (built) b where "mc_reopening s ?n = Some b" "build_at s b = Some (Bd_Built a)"
    using ag(4) [OF lt(1)] a unfolding placed_def by blast
  then show ?thesis
  proof cases
    case map
    then have "publish_member a s = s" by (simp add: publish_member_def fun_upd_idem)
    then show ?thesis using inv by simp
  next
    case built
    have ok: "reopening_ok s ?n b" by (rule minvD(2) [OF inv built(1)])
    show ?thesis
    proof (rule publish_minv [OF inv lt(1) refl])
      show "member_retired (mc_agents s ! c)" if c: "mc_entities s ?n = Some c" "c \<noteq> a" for c
        using ok built(2) c by (auto simp: reopening_ok_def live_entity_def split: if_splits)
      show "build_at s d = Some (Bd_Built a)" if "mc_reopening s ?n = Some d" for d
        using that built by simp
      show "mat_claim x \<noteq> Some ?n" if "mat_at s m = Some x" for m x
        using minvD(5) [OF inv that] built(1) by (auto simp: mat_ok_def)
    qed
  qed
qed

text \<open>A materialization that made the service of its name.\<close>

lemma mat_over_publishes:
  "mat_over m n (publish_member a (new_member k l s)) = publish_member a (new_member k l (mat_over m n s))"
  by (simp add: mat_over_def set_mat_def publish_member_def new_member_def)

lemma made_minv:
  assumes inv: "minv s" and at: "mat_at s m = Some x" "mat_claim x = Some n"
    and r: "r = Rs_Failed \<or> r = Rs_Agent (length (mc_agents s))"
  shows "minv (settle_mat m n r (publish_member (length (mc_agents s)) (new_member n l s)))"
proof (rule settle_mat_minv)
  let ?a = "length (mc_agents s)" and ?t = "mat_over m n s"
  have name: "mat_name x = Some n" using at(2) by (cases x) simp_all
  have t: "minv ?t" "mc_materializations ?t n = None"
    using mat_over_minv [OF inv at(1) name] mat_over_named [OF inv at(1) name] by simp_all
  have n: "mc_reopening s n = None" "live_entity n s = None"
    using minvD(5) [OF inv at(1)] at(2) by (simp_all add: mat_ok_def)
  note v = new_member_views [where n = n and l = l and s = "mat_over m n s"]
  have inv': "minv (new_member n l ?t)" by (rule new_member_minv [OF t(1)])
  have "minv (publish_member ?a (new_member n l ?t))"
  proof (rule publish_minv [OF inv'])
    show "?a < length (mc_agents (new_member n l ?t))" "am_name (mc_agents (new_member n l ?t) ! ?a) = n"
      using v(10,12) by simp_all
    show "member_retired (mc_agents (new_member n l ?t) ! c)" if c: "mc_entities (new_member n l ?t) n = Some c" "c \<noteq> ?a" for c
    proof -
      have c': "mc_entities s n = Some c" using c v(5) by simp
      then have "c < ?a" by (rule agents_okD(1) [OF minvD(1) [OF inv]])
      moreover have "member_retired (mc_agents s ! c)" using n(2) c' by (simp add: live_entity_def split: if_splits)
      ultimately show ?thesis using v(11) [where c = c] by simp
    qed
    show "build_at (new_member n l ?t) b = Some (Bd_Built ?a)" if "mc_reopening (new_member n l ?t) n = Some b" for b
      using that n(1) v(6) by simp
    show "mat_claim z \<noteq> Some n" if z: "mat_at (new_member n l ?t) k = Some z" for k z
    proof
      assume c: "mat_claim z = Some n"
      then have "mat_name z = Some n" by (cases z) simp_all
      moreover have "mat_ok ?t k z" using z v(3) [where m = k] minvD(5) [OF t(1), of k z] by simp
      ultimately show False using t(2) by (simp add: mat_ok_def)
    qed
  qed
  then show "minv (mat_over m n (publish_member ?a (new_member n l s)))" by (simp add: mat_over_publishes)
  show "res_ok n r (mat_over m n (publish_member ?a (new_member n l s)))"
    using r by (auto simp: mat_over_publishes res_ok_def placed_def publish_member_def new_member_def)
qed


subsection \<open>The services and the files\<close>

text \<open>A service changes and keeps its name; what is retired stays so.\<close>

lemma set_member_minv:
  assumes inv: "minv s" and a: "a < length (mc_agents s)" and name: "am_name x = am_name (mc_agents s ! a)"
    and retired: "member_retired (mc_agents s ! a) \<Longrightarrow> member_retired x"
    and closed: "am_closed x \<Longrightarrow> \<not> am_runtime x \<and> \<not> sending a s"
    and up: "am_runtime x \<Longrightarrow> placed s a"
  shows "minv (set_member a x s)"
proof (rule minvI)
  let ?s = "set_member a x s"
  note ag = agents_okD [OF minvD(1) [OF inv]]
  have f [simp]: "member_flow_at ?s j = member_flow_at s j" "mat_at ?s m = mat_at s m" "build_at ?s b = build_at s b"
    "sending c ?s = sending c s" "mc_entities ?s = mc_entities s" "mc_reopening ?s = mc_reopening s"
    "mc_files ?s = mc_files s" "mc_materializations ?s = mc_materializations s" "mc_builds ?s = mc_builds s"
    "length (mc_agents ?s) = length (mc_agents s)" for j m b c
    by (simp_all add: set_member_def member_flow_at_def mat_at_def build_at_def sending_def)
  have names: "am_name (mc_agents ?s ! c) = am_name (mc_agents s ! c)" for c
    using name a by (cases "c = a") (simp_all add: set_member_def)
  have at: "mc_agents ?s ! c = (if c = a then x else mc_agents s ! c)" if "c < length (mc_agents s)" for c
    using that by (simp add: set_member_def)
  have live: "live_entity k s = Some c" if "live_entity k ?s = Some c" for k c
  proof -
    have c: "mc_entities s k = Some c" "\<not> member_retired (mc_agents ?s ! c)"
      using that by (simp_all add: live_entity_def split: option.splits if_splits)
    then have "\<not> member_retired (mc_agents s ! c)" using retired at [OF ag(1) [OF c(1)]] by (auto split: if_splits)
    then show ?thesis using c(1) by (simp add: live_entity_def)
  qed
  have place: "placed ?s c = placed s c" for c by (simp add: placed_def names)
  show "agents_ok ?s"
  proof (rule agents_okI)
    show "c < length (mc_agents ?s) \<and> am_name (mc_agents ?s ! c) = k" if "mc_entities ?s k = Some c" for k c
      using that ag(1,2) [of k c] by (simp add: names)
    show "\<not> am_closed (mc_agents ?s ! c)" if "c < length (mc_agents ?s)" "am_runtime (mc_agents ?s ! c)" for c
      using that ag(3) [of c] closed at [of c] by (cases "c = a") auto
    show "placed ?s c" if "c < length (mc_agents ?s)" "am_runtime (mc_agents ?s ! c) \<or> sending c ?s" for c
      using that ag(4) [of c] up at [of c] by (cases "c = a") (auto simp: place)
  qed
  show "reopening_ok ?s k b" if "mc_reopening ?s k = Some b" for k b
    by (rule reopening_ok_mono [OF minvD(2) [OF inv, of k b]]) (use that live in \<open>simp_all add: names\<close>)
  show "mc_reopening ?s k = Some b" if "build_at ?s b = Some (Bd_Open k)" for k b
    using that minvD(3) [OF inv, of b k] by simp
  show "member_flow_ok ?s g" if "member_flow_at ?s j = Some g" for j g
  proof -
    have fl: "member_flow_at s j = Some g" "member_flow_ok s g" using that minvD(4) [OF inv, of j g] by simp_all
    have "g = Mf_Sending c own \<or> g = Mf_Submitting c \<Longrightarrow> sending c s" for c own
      using fl(1) unfolding sending_iff by blast
    then have "g = Mf_Sending c own \<or> g = Mf_Submitting c \<Longrightarrow> c < length (mc_agents s) \<Longrightarrow> \<not> am_closed (mc_agents s ! c) \<Longrightarrow>
        \<not> am_closed (mc_agents ?s ! c)" for c own
      using closed at [of c] by (cases "c = a") auto
    then show ?thesis using fl(2) by (cases g) (auto simp: member_flow_ok_def names)
  qed
  show "mat_ok ?s m z" if "mat_at ?s m = Some z" for m z
  proof -
    have "mat_ok s m z" using that minvD(5) [OF inv, of m z] by simp
    moreover have "live_entity k s = None \<Longrightarrow> live_entity k ?s = None" for k
      using live [of k] by (cases "live_entity k ?s") auto
    ultimately show ?thesis by (simp add: mat_ok_def)
  qed
qed

text \<open>A write keeps every identity in its place.\<close>

lemma files_views [simp]:
  "member_flow_at (s\<lparr>mc_files := x\<rparr>) i = member_flow_at s i" "build_at (s\<lparr>mc_files := x\<rparr>) b = build_at s b"
  "sending a (s\<lparr>mc_files := x\<rparr>) = sending a s" "mat_at (s\<lparr>mc_files := x\<rparr>) m = mat_at s m"
  "member_flow_ok (s\<lparr>mc_files := x\<rparr>) f = member_flow_ok s f" "agents_ok (s\<lparr>mc_files := x\<rparr>) = agents_ok s"
  "live_entity n (s\<lparr>mc_files := x\<rparr>) = live_entity n s" "mat_ok (s\<lparr>mc_files := x\<rparr>) m z = mat_ok s m z"
  by (simp_all add: member_flow_at_def build_at_def sending_def mat_at_def member_flow_ok_def agents_ok_def live_entity_def
      mat_ok_def placed_def cong: member_flow.case_cong option.case_cong)

lemma files_minv:
  assumes inv: "minv s" and x: "\<And>n. mc_files s n \<noteq> None \<Longrightarrow> x n \<noteq> None"
  shows "minv (s\<lparr>mc_files := x\<rparr>)"
proof (rule minvI)
  let ?s = "s\<lparr>mc_files := x\<rparr>"
  show "agents_ok ?s" using minvD(1) [OF inv] by simp
  show "reopening_ok ?s k b" if "mc_reopening ?s k = Some b" for k b
    by (rule reopening_ok_mono [OF minvD(2) [OF inv, of k b]]) (use that x in simp_all)
  show "mc_reopening ?s k = Some b" if "build_at ?s b = Some (Bd_Open k)" for k b
    using that minvD(3) [OF inv, of b k] by simp
  show "member_flow_ok ?s g" if "member_flow_at ?s j = Some g" for j g
    using that minvD(4) [OF inv, of j g] by simp
  show "mat_ok ?s m z" if "mat_at ?s m = Some z" for m z
    using that minvD(5) [OF inv, of m z] by simp
qed

lemma write_status_minv:
  assumes "minv s"
  shows "minv (write_status n st s)"
  unfolding write_status_def by (rule files_minv [OF assms]) auto

lemma runtime_changes_minv:
  assumes "minv s"
  shows "minv (runtime_changes a up s)"
proof (cases "a < length (mc_agents s) \<and>
    (up \<longrightarrow> \<not> am_closed (mc_agents s ! a) \<and> (sending a s \<or> mc_entities s (am_name (mc_agents s ! a)) = Some a))")
  case True
  then have a: "a < length (mc_agents s)" by simp
  have "minv (set_member a ((mc_agents s ! a)\<lparr>am_runtime := up\<rparr>) s)"
  proof (rule set_member_minv [OF assms a])
    show "placed s a" if "am_runtime ((mc_agents s ! a)\<lparr>am_runtime := up\<rparr>)"
      using that True agents_okD(4) [OF minvD(1) [OF assms] a] by (auto simp: placed_def)
  qed (use True sending_open [OF assms, of a] in \<open>auto simp: member_retired_def\<close>)
  then show ?thesis using True by (simp add: runtime_changes_def)
next
  case False
  then show ?thesis using assms by (auto simp: runtime_changes_def)
qed

lemma member_writes_minv:
  assumes "minv s"
  shows "minv (member_writes a st s)"
  using write_status_minv [OF assms] assms by (simp add: member_writes_def)

lemma member_closed_minv:
  assumes "minv s"
  shows "minv (member_closed a s)"
proof (cases "a < length (mc_agents s) \<and> \<not> sending a s")
  case True
  let ?t = "write_status (am_name (mc_agents s ! a)) Ag_Closed s"
  have t: "mc_agents ?t = mc_agents s" "sending a ?t = sending a s" by (simp_all add: write_status_def)
  have "minv (set_member a ((mc_agents s ! a)\<lparr>am_closed := True, am_runtime := False\<rparr>) ?t)"
    by (rule set_member_minv [OF write_status_minv [OF assms]]) (use True in \<open>auto simp: t member_retired_def\<close>)
  then show ?thesis using True by (simp add: member_closed_def)
qed (use assms in \<open>auto simp: member_closed_def\<close>)

lemma member_unlocked_minv:
  assumes "minv s"
  shows "minv (member_unlocked a s)"
proof (cases "a < length (mc_agents s)")
  case True
  note ag = agents_okD [OF minvD(1) [OF assms]]
  have "minv (set_member a ((mc_agents s ! a)\<lparr>am_locked := False\<rparr>) s)"
    by (rule set_member_minv [OF assms True])
      (use ag(3,4) [OF True] sending_open [OF assms, of a] in \<open>auto simp: member_retired_def\<close>)
  then show ?thesis using True by (simp add: member_unlocked_def)
qed (use assms in \<open>simp add: member_unlocked_def\<close>)

lemma destroy_unheld_minv:
  assumes "minv s"
  shows "minv (destroy_unheld n s)"
  using write_status_minv [OF assms] assms by (simp add: destroy_unheld_def split: option.split)


subsection \<open>A build that settles\<close>

text \<open>What the flows that wait for a build become.\<close>

definition owned_flow :: "nat \<Rightarrow> member_flow \<Rightarrow> member_flow \<Rightarrow> member_flow" where
  "owned_flow b g f = (case f of Mf_Build _ b' \<Rightarrow> if b' = b then g else f | _ \<Rightarrow> f)"

lemma owned_flow_other:
  assumes "\<And>n. f \<noteq> Mf_Build n b"
  shows "owned_flow b g f = f"
  using assms by (cases f) (auto simp: owned_flow_def)

lemma resume_built:
  assumes "\<not> am_closed (mc_agents s ! a)" "\<not> am_locked (mc_agents s ! a)" "k \<le> length (mc_flows s)"
  shows "fold (resume_build n b (Some a)) [0..<k] s =
    s\<lparr>mc_flows := map (owned_flow b (Mf_Sending a (Some (n, b)))) (take k (mc_flows s)) @ drop k (mc_flows s)\<rparr>"
  using assms(3)
proof (induction k)
  case (Suc k)
  let ?g = "owned_flow b (Mf_Sending a (Some (n, b)))" and ?fl = "mc_flows s"
  let ?t = "s\<lparr>mc_flows := map ?g (take k ?fl) @ drop k ?fl\<rparr>"
  have k: "k < length ?fl" using Suc.prems by simp
  have nth: "(map ?g (take k ?fl) @ drop k ?fl) ! k = ?fl ! k" using k by (simp add: nth_append)
  then have at: "member_flow_at ?t k = Some (?fl ! k)" using k by (simp add: member_flow_at_def)
  have "resume_build n b (Some a) k ?t = ?t\<lparr>mc_flows := (mc_flows ?t)[k := ?g (?fl ! k)]\<rparr>"
  proof (cases "\<exists>n'. ?fl ! k = Mf_Build n' b")
    case True
    then show ?thesis using assms(1,2)
      by (auto simp: resume_build_def at send_resolved_def set_member_flow_def owned_flow_def)
  next
    case False
    then have "?g (?fl ! k) = ?fl ! k" by (intro owned_flow_other) auto
    moreover have "resume_build n b (Some a) k ?t = ?t"
      using False by (cases "?fl ! k") (auto simp: resume_build_def at)
    moreover have "(mc_flows ?t)[k := ?fl ! k] = mc_flows ?t" using nth k by (simp add: list_update_same_conv)
    ultimately show ?thesis by simp
  qed
  moreover have "(map ?g (take k ?fl) @ drop k ?fl)[k := ?g (?fl ! k)] = map ?g (take (Suc k) ?fl) @ drop (Suc k) ?fl"
    using k by (simp add: list_update_append take_Suc_conv_app_nth Cons_nth_drop_Suc [symmetric])
  ultimately show ?case using Suc.IH k by simp
qed simp

lemma release_moves:
  "release_build n b (s\<lparr>mc_flows := x\<rparr>) = (release_build n b s)\<lparr>mc_flows := x\<rparr>"
  "release_build n b (release_build n b s) = release_build n b s"
  by (simp_all add: release_build_def)

lemma resume_refused:
  assumes "k \<le> length (mc_flows s)"
  shows "fold (resume_build n b None) [0..<k] s =
    (if \<exists>j < k. \<exists>n'. mc_flows s ! j = Mf_Build n' b then release_build n b s else s)
      \<lparr>mc_flows := map (owned_flow b (Mf_Over Mr_Failed)) (take k (mc_flows s)) @ drop k (mc_flows s)\<rparr>"
  using assms
proof (induction k)
  case (Suc k)
  let ?g = "owned_flow b (Mf_Over Mr_Failed)" and ?fl = "mc_flows s"
  let ?x = "map ?g (take k ?fl) @ drop k ?fl"
  let ?u = "if \<exists>j < k. \<exists>n'. ?fl ! j = Mf_Build n' b then release_build n b s else s"
  have k: "k < length ?fl" using Suc.prems by simp
  have at: "member_flow_at (?u\<lparr>mc_flows := ?x\<rparr>) k = Some (?fl ! k)" using k by (simp add: member_flow_at_def nth_append)
  have x: "?x[k := ?g (?fl ! k)] = map ?g (take (Suc k) ?fl) @ drop (Suc k) ?fl"
    using k by (simp add: list_update_append take_Suc_conv_app_nth Cons_nth_drop_Suc [symmetric])
  show ?case
  proof (cases "\<exists>n'. ?fl ! k = Mf_Build n' b")
    case True
    then have "resume_build n b None k (?u\<lparr>mc_flows := ?x\<rparr>) = (release_build n b s)\<lparr>mc_flows := ?x[k := ?g (?fl ! k)]\<rparr>"
      by (auto simp: resume_build_def at set_member_flow_def owned_flow_def release_moves)
    moreover have "\<exists>j < Suc k. \<exists>n'. ?fl ! j = Mf_Build n' b" using True by blast
    ultimately show ?thesis using Suc.IH k x by simp
  next
    case False
    then have "?g (?fl ! k) = ?fl ! k" by (intro owned_flow_other) auto
    then have "?x[k := ?g (?fl ! k)] = ?x" using k by (simp add: list_update_same_conv nth_append)
    moreover have "resume_build n b None k (?u\<lparr>mc_flows := ?x\<rparr>) = ?u\<lparr>mc_flows := ?x\<rparr>"
      using False by (cases "?fl ! k") (auto simp: resume_build_def at)
    moreover have "(\<exists>j < Suc k. \<exists>n'. ?fl ! j = Mf_Build n' b) \<longleftrightarrow> (\<exists>j < k. \<exists>n'. ?fl ! j = Mf_Build n' b)"
      using False less_Suc_eq by auto
    ultimately show ?thesis using Suc.IH k x by simp
  qed
qed simp


definition build_settled :: "nat \<Rightarrow> string \<Rightarrow> nat option \<Rightarrow> members \<Rightarrow> members" where
  "build_settled b n made s =
     (case made of
        Some a \<Rightarrow> s\<lparr>mc_builds := (mc_builds s)[b := Bd_Built a],
          mc_flows := map (owned_flow b (Mf_Sending a (Some (n, b)))) (mc_flows s)\<rparr>
      | None \<Rightarrow> s\<lparr>mc_builds := (mc_builds s)[b := Bd_Failed], mc_reopening := (mc_reopening s)(n := None),
          mc_flows := map (owned_flow b (Mf_Over Mr_Failed)) (mc_flows s)\<rparr>)"

lemma build_settled_views:
  assumes "build_at s b = Some (Bd_Open n)"
  shows "mc_agents (build_settled b n made s) = mc_agents s" "mc_entities (build_settled b n made s) = mc_entities s"
    "mc_files (build_settled b n made s) = mc_files s" "mc_mats (build_settled b n made s) = mc_mats s"
    "mc_materializations (build_settled b n made s) = mc_materializations s"
    "length (mc_builds (build_settled b n made s)) = length (mc_builds s)"
    "mc_reopening (build_settled b n made s) k = (if k = n \<and> made = None then None else mc_reopening s k)"
    "build_at (build_settled b n made s) d =
       (if d = b then Some (case made of None \<Rightarrow> Bd_Failed | Some a \<Rightarrow> Bd_Built a) else build_at s d)"
    "member_flow_at (build_settled b n made s) i = map_option
       (owned_flow b (case made of None \<Rightarrow> Mf_Over Mr_Failed | Some a \<Rightarrow> Mf_Sending a (Some (n, b)))) (member_flow_at s i)"
    "live_entity k (build_settled b n made s) = live_entity k s"
    "mat_at (build_settled b n made s) m = mat_at s m"
  using build_at_lt [OF assms]
  by (cases made; simp add: build_settled_def build_at_def member_flow_at_def live_entity_def mat_at_def
      cong: option.case_cong)+

lemma build_settled_minv:
  assumes inv: "minv s" and b: "build_at s b = Some (Bd_Open n)"
    and made: "\<And>a. made = Some a \<Longrightarrow>
      a < length (mc_agents s) \<and> am_name (mc_agents s ! a) = n \<and> \<not> am_closed (mc_agents s ! a)"
  shows "minv (build_settled b n made s)"
proof (rule minvI)
  let ?s = "build_settled b n made s"
  let ?g = "case made of None \<Rightarrow> Mf_Over Mr_Failed | Some a \<Rightarrow> Mf_Sending a (Some (n, b))"
  note v = build_settled_views [OF b]
  note ag = agents_okD [OF minvD(1) [OF inv]]
  have nb: "mc_reopening s n = Some b" by (rule minvD(3) [OF inv b])
  have only: "k = n" if "mc_reopening s k = Some b" for k
    using minvD(2) [OF inv that] b by (auto simp: reopening_ok_def)
  have flow: "(\<exists>k. f = Mf_Build k b) \<and> h = ?g \<or> (\<forall>k. f \<noteq> Mf_Build k b) \<and> h = f"
    if "owned_flow b ?g f = h" for f h
    using that by (cases f) (auto simp: owned_flow_def split: if_splits)
  have came: "(\<exists>k. member_flow_at s j = Some (Mf_Build k b)) \<and> h = ?g \<or>
      member_flow_at s j = Some h \<and> (\<forall>k. h \<noteq> Mf_Build k b)" if at: "member_flow_at ?s j = Some h" for j h
  proof -
    obtain f where "member_flow_at s j = Some f" "owned_flow b ?g f = h" using at v(9) [where i = j and made = made] by auto
    then show ?thesis using flow [of f h] by auto
  qed
  have keep: "member_flow_at ?s j = Some f" if "member_flow_at s j = Some f" "\<And>k. f \<noteq> Mf_Build k b" for j f
    using that owned_flow_other [of f b ?g] by (simp add: v)
  have send: "sending c s \<or> made = Some c" if c: "sending c ?s" for c
  proof -
    obtain j h where h: "member_flow_at ?s j = Some h" "(\<exists>own. h = Mf_Sending c own) \<or> h = Mf_Submitting c"
      using c unfolding sending_iff by blast
    then show ?thesis using came [OF h(1)] unfolding sending_iff by (auto split: option.splits)
  qed
  show "agents_ok ?s"
  proof (rule agents_okI)
    show "c < length (mc_agents ?s) \<and> am_name (mc_agents ?s ! c) = k" if "mc_entities ?s k = Some c" for k c
      using that ag(1,2) [of k c] by (simp add: v)
    show "\<not> am_closed (mc_agents ?s ! c)" if "c < length (mc_agents ?s)" "am_runtime (mc_agents ?s ! c)" for c
      using that ag(3) [of c] by (simp add: v)
    show "placed ?s c" if c: "c < length (mc_agents ?s)" "am_runtime (mc_agents ?s ! c) \<or> sending c ?s" for c
    proof (cases "made = Some c")
      case True
      then show ?thesis using made [OF True] nb by (simp add: placed_def v)
    next
      case False
      then have "placed s c" using c ag(4) [of c] send [of c] by (auto simp: v)
      then show ?thesis
        unfolding placed_def v
      proof (elim disjE exE conjE)
        fix d assume d: "mc_reopening s (am_name (mc_agents s ! c)) = Some d" "build_at s d = Some (Bd_Built c)"
        then have "d \<noteq> b" "am_name (mc_agents s ! c) \<noteq> n" using b nb by auto
        then show "mc_entities s (am_name (mc_agents s ! c)) = Some c \<or>
            (\<exists>d. (if am_name (mc_agents s ! c) = n \<and> made = None then None else mc_reopening s (am_name (mc_agents s ! c))) =
              Some d \<and> (if d = b then Some (case made of None \<Rightarrow> Bd_Failed | Some a \<Rightarrow> Bd_Built a) else build_at s d) =
              Some (Bd_Built c))"
          using d by simp
      qed simp
    qed
  qed
  show "reopening_ok ?s k d" if r: "mc_reopening ?s k = Some d" for k d
  proof (cases "d = b")
    case True
    then have k: "mc_reopening s k = Some b" "k = n" using r only [of k] by (simp_all add: v split: if_splits)
    then obtain a where a: "made = Some a" using r by (cases made) (simp_all add: v)
    have ok: "mc_files s n \<noteq> None" "live_entity n s = None" "\<exists>i. member_flow_at s i = Some (Mf_Build n b)"
      using minvD(2) [OF inv nb] b by (auto simp: reopening_ok_def)
    then obtain i where "member_flow_at s i = Some (Mf_Build n b)" by blast
    then have "member_flow_at ?s i = Some ?g" by (simp add: v owned_flow_def)
    then show ?thesis using ok made [OF a] True k a by (auto simp: reopening_ok_def v)
  next
    case False
    then have old: "mc_reopening s k = Some d" using r by (simp add: v split: if_splits)
    have "k \<noteq> n" using old nb False by auto
    show ?thesis
      by (rule reopening_ok_mono [OF minvD(2) [OF inv old]]) (use False in \<open>simp_all add: v owned_flow_def\<close>)
  qed
  show "mc_reopening ?s k = Some d" if d: "build_at ?s d = Some (Bd_Open k)" for k d
  proof -
    have "d \<noteq> b" "build_at s d = Some (Bd_Open k)" using d by (auto simp: v split: if_splits option.splits)
    moreover from this have "mc_reopening s k = Some d" using minvD(3) [OF inv] by blast
    moreover from this have "k \<noteq> n" using nb \<open>d \<noteq> b\<close> by auto
    ultimately show ?thesis by (simp add: v)
  qed
  show "member_flow_ok ?s h" if h: "member_flow_at ?s j = Some h" for j h
    using came [OF h]
  proof (elim disjE conjE)
    assume "h = ?g"
    then show ?thesis using made by (cases made) (simp_all add: member_flow_ok_def v)
  next
    assume old: "member_flow_at s j = Some h" "\<forall>k. h \<noteq> Mf_Build k b"
    have ok: "member_flow_ok s h" by (rule minvD(4) [OF inv old(1)])
    show ?thesis
    proof (cases h)
      case (Mf_Build k d)
      then have "build_at s d = Some (Bd_Open k)" "mc_reopening s k = Some d" "d \<noteq> b"
        using ok old(2) by (auto simp: member_flow_ok_def)
      moreover from this have "k \<noteq> n" using nb by auto
      ultimately show ?thesis using Mf_Build by (simp add: member_flow_ok_def v)
    next
      case (Mf_Sending c own)
      then show ?thesis using ok b by (auto simp: member_flow_ok_def v)
    qed (use ok in \<open>simp_all add: member_flow_ok_def v\<close>)
  qed
  show "mat_ok ?s m x" if m: "mat_at ?s m = Some x" for m x
  proof -
    have "mat_ok s m x" using m minvD(5) [OF inv, of m x] by (simp add: v)
    then show ?thesis by (auto simp: mat_ok_def v split: option.splits)
  qed
qed


lemma settle_build_flows:
  assumes "build_at s b = Some (Bd_Open n)" "mc_reopening s n = Some b" "\<exists>i. member_flow_at s i = Some (Mf_Build n b)"
    "\<And>a. made = Some a \<Longrightarrow> \<not> am_closed (mc_agents s ! a) \<and> \<not> am_locked (mc_agents s ! a)"
  shows "settle_build b n made s =
    fold (resume_join b made) [0..<length (mc_mats s)] (build_settled b n made s)"
proof -
  let ?s1 = "s\<lparr>mc_builds := (mc_builds s)[b := (case made of None \<Rightarrow> Bd_Failed | Some a \<Rightarrow> Bd_Built a)]\<rparr>"
  have "fold (resume_build n b made) [0..<length (mc_flows ?s1)] ?s1 = build_settled b n made s"
  proof (cases made)
    case (Some a)
    then show ?thesis
      using resume_built [of ?s1 a "length (mc_flows s)" n b] assms(4) [OF Some] by (simp add: build_settled_def)
  next
    case None
    have "\<exists>j < length (mc_flows s). \<exists>n'. mc_flows s ! j = Mf_Build n' b"
      using assms(3) by (auto simp: member_flow_at_def split: if_splits)
    then show ?thesis
      using resume_refused [of "length (mc_flows s)" ?s1 n b] assms(2) None
      by (simp add: build_settled_def release_build_def)
  qed
  moreover have "mc_mats (build_settled b n made s) = mc_mats s" by (rule build_settled_views(4) [OF assms(1)])
  ultimately show ?thesis by (simp add: settle_build_def Let_def)
qed

lemma resume_flow_mats: "mc_mats (resume_flow m n r i s) = mc_mats s"
  by (auto simp: resume_flow_def send_resolved_def submit_spawned_def send_reopened_def reopen_from_def
      split: option.splits member_flow.splits wait_kind.splits resolved.splits)

lemma settle_mat_mats: "mc_mats (settle_mat m n r s) = (mc_mats s)[m := Mt_Over]"
proof -
  have "mc_mats (fold (resume_flow m n r) is t) = mc_mats t" for "is" t
    by (induction "is" arbitrary: t) (simp_all add: resume_flow_mats)
  then show ?thesis by (simp add: settle_mat_over mat_over_def set_mat_def)
qed

lemma settle_build_minv:
  assumes inv: "minv s" and b: "build_at s b = Some (Bd_Open n)"
    and made: "\<And>a. made = Some a \<Longrightarrow> a < length (mc_agents s) \<and> am_name (mc_agents s ! a) = n \<and>
      \<not> am_closed (mc_agents s ! a) \<and> \<not> am_locked (mc_agents s ! a)"
  shows "minv (settle_build b n made s)"
proof -
  let ?r = "case made of None \<Rightarrow> Rs_Failed | Some a \<Rightarrow> Rs_Agent a" and ?t = "build_settled b n made s"
  have nb: "mc_reopening s n = Some b" by (rule minvD(3) [OF inv b])
  have flow: "\<exists>i. member_flow_at s i = Some (Mf_Build n b)"
    using minvD(2) [OF inv nb] b by (auto simp: reopening_ok_def)
  let ?P = "\<lambda>u. minv u \<and> res_ok n ?r u \<and> (\<forall>m k. mat_at u m = Some (Mt_Join k b) \<longrightarrow> k = n)"
  have start: "?P ?t"
  proof (intro conjI allI impI)
    show "minv ?t" by (rule build_settled_minv [OF inv b]) (use made in blast)
    show "res_ok n ?r ?t"
      using made nb by (cases made) (auto simp: res_ok_def placed_def build_settled_views [OF b])
    fix m k assume "mat_at ?t m = Some (Mt_Join k b)"
    then have "mat_ok s m (Mt_Join k b)" using minvD(5) [OF inv] by (simp add: build_settled_views [OF b])
    then show "k = n" using b by (simp add: mat_ok_def)
  qed
  have step: "?P (resume_join b made m u)" if u: "?P u" for m u
  proof (cases "\<exists>k. mat_at u m = Some (Mt_Join k b)")
    case True
    then obtain k where "mat_at u m = Some (Mt_Join k b)" by blast
    then have at: "mat_at u m = Some (Mt_Join n b)" using u by blast
    have eq: "resume_join b made m u = settle_mat m n ?r u" by (simp add: resume_join_def at)
    have "minv (mat_over m n u)" by (rule mat_over_minv [OF _ at]) (use u in simp_all)
    moreover have "res_ok n ?r (mat_over m n u)"
      by (rule res_ok_over) (use u in \<open>simp_all split: option.splits\<close>)
    moreover have "mat_at (settle_mat m n ?r u) m' = Some (Mt_Join k' b) \<Longrightarrow> mat_at u m' = Some (Mt_Join k' b)" for m' k'
      by (cases "m' = m") (auto simp add: mat_at_nth settle_mat_mats)
    ultimately show ?thesis unfolding eq using settle_mat_minv [of m n u ?r] u by blast
  next
    case False
    then have "resume_join b made m u = u"
      by (cases "mat_at u m"; cases "the (mat_at u m)") (auto simp: resume_join_def)
    then show ?thesis using u by simp
  qed
  have "?P (fold (resume_join b made) [0..<length (mc_mats s)] ?t)"
    by (rule fold_keeps [where P = ?P, OF start]) (rule step)
  moreover have "settle_build b n made s = fold (resume_join b made) [0..<length (mc_mats s)] ?t"
    by (rule settle_build_flows [OF b nb flow]) (use made in blast)
  ultimately show ?thesis by simp
qed

lemma reopened_minv:
  assumes inv: "minv s"
  shows "minv (reopened b ok s)"
proof (cases "\<exists>n. build_at s b = Some (Bd_Open n)")
  case False
  then have "reopened b ok s = s"
    by (cases "build_at s b"; cases "the (build_at s b)") (auto simp: reopened_def)
  then show ?thesis using inv by simp
next
  case True
  then obtain n where b: "build_at s b = Some (Bd_Open n)" by blast
  note v = new_member_views [where n = n and l = False and s = s]
  have none: "minv (settle_build b n None s)" by (rule settle_build_minv [OF inv b]) simp
  have inv': "minv (new_member n False s)" by (rule new_member_minv [OF inv])
  have b': "build_at (new_member n False s) b = Some (Bd_Open n)" using b v(2) by simp
  have "minv (settle_build b n None (new_member n False s))" by (rule settle_build_minv [OF inv' b']) simp
  moreover have "minv (settle_build b n (Some (length (mc_agents s))) (new_member n False s))"
    by (rule settle_build_minv [OF inv' b']) (use v(10,12) in simp)
  ultimately show ?thesis using none by (simp add: reopened_def b)
qed


subsection \<open>The calls\<close>

lemma live_placed:
  assumes "minv s" "live_entity n s = Some a"
  shows "a < length (mc_agents s)" "am_name (mc_agents s ! a) = n" "placed s a"
proof -
  have e: "mc_entities s n = Some a" using assms(2) by (simp add: live_entity_def split: option.splits if_splits)
  show "a < length (mc_agents s)" "am_name (mc_agents s ! a) = n" using agents_okD(1,2) [OF minvD(1) [OF assms(1)] e] .
  then show "placed s a" using e by (simp add: placed_def)
qed

lemma append_flow_minv:
  assumes inv: "minv s" and f: "plain f" "\<And>a own. f \<noteq> Mf_Sending a own" "\<And>a. f \<noteq> Mf_Submitting a"
  shows "minv (s\<lparr>mc_flows := mc_flows s @ [f]\<rparr>)"
proof (rule minvI)
  let ?s = "s\<lparr>mc_flows := mc_flows s @ [f]\<rparr>"
  note ag = agents_okD [OF minvD(1) [OF inv]]
  have flow: "member_flow_at ?s j = (if j = length (mc_flows s) then Some f else member_flow_at s j)" for j
    by (simp add: member_flow_at_def nth_append)
  have same: "same_rest s ?s" by (simp add: same_rest_def)
  note v = same_restD [OF same]
  have send: "sending c ?s = sending c s" for c
    using f(2,3) by (auto simp: sending_def split: member_flow.splits)
  show "agents_ok ?s"
    by (rule agents_okI) (use ag in \<open>simp_all add: v send\<close>)
  show "reopening_ok ?s k b" if r: "mc_reopening ?s k = Some b" for k b
  proof -
    have keep: "member_flow_at ?s j = Some g" if "member_flow_at s j = Some g" for j g
    proof -
      have "j \<noteq> length (mc_flows s)" using that by (auto simp: member_flow_at_def)
      then show ?thesis using that flow by simp
    qed
    show ?thesis
      by (rule reopening_ok_mono [OF minvD(2) [OF inv, of k b]]) (use r keep in \<open>simp_all add: v\<close>)
  qed
  show "mc_reopening ?s k = Some b" if "build_at ?s b = Some (Bd_Open k)" for k b
    using that minvD(3) [OF inv, of b k] by (simp add: v)
  show "member_flow_ok ?s g" if g: "member_flow_at ?s j = Some g" for j g
  proof (cases "j = length (mc_flows s)")
    case True
    then have "g = f" using g flow by simp
    then show ?thesis using f by (cases f) (auto simp: member_flow_ok_def plain_def)
  next
    case False
    then have "member_flow_ok s g" using g flow minvD(4) [OF inv, of j g] by simp
    then show ?thesis by (simp add: v)
  qed
  show "mat_ok ?s m x" if "mat_at ?s m = Some x" for m x
    using that minvD(5) [OF inv, of m x] mat_ok_cong [OF same] by (simp add: mat_at_def cong: if_cong)
qed

lemma resolve_entity_minv:
  assumes inv: "minv s" and at: "member_flow_at s i = Some f0" "plain f0"
  shows "minv (resolve_entity i k name s)"
proof -
  note ends = flow_ends [OF inv at, simplified]
  have tracked: "minv (track_materialization n (Mt_Start n) (set_member_flow i (Mf_Wait (length (mc_mats s)) k) (drop_retired n s)))"
    if n: "mc_materializations s n = None" for n
    by (rule track_minv, rule flow_ends [OF drop_retired_minv [OF inv] _ at(2)]) (use at n in simp_all)
  have waits: "minv (set_member_flow i (Mf_Wait m k) (drop_retired n s))" for m n
    by (rule flow_ends [OF drop_retired_minv [OF inv] _ at(2)]) (use at in simp_all)
  have commute: "track_materialization n x (set_member_flow i f t) = set_member_flow i f (track_materialization n x t)" for n x f t
    by (simp add: track_materialization_def set_member_flow_def)
  show ?thesis
  proof (cases "validate_agent_entity_name name")
    case (Inl e)
    then show ?thesis using ends by (simp add: resolve_entity_def)
  next
    case (Inr n)
    show ?thesis
    proof (cases "live_entity n s")
      case None
      then show ?thesis using Inr tracked waits by (simp add: resolve_entity_def Let_def split: option.split)
    next
      case (Some a)
      have "minv (send_resolved i a None s)"
        by (rule send_resolved_minv [OF inv at live_placed(1,3) [OF inv Some]])
      then show ?thesis using Inr Some ends by (simp add: resolve_entity_def)
    qed
  qed
qed

lemma call_member_minv:
  assumes "minv s"
  shows "minv (call_member k name s)"
proof -
  let ?t = "s\<lparr>mc_flows := mc_flows s @ [Mf_Over Mr_Failed]\<rparr>"
  have "minv ?t" by (rule append_flow_minv [OF assms]) simp_all
  then have "minv (resolve_entity (length (mc_flows s)) k name ?t)"
    by (rule resolve_entity_minv [where ?f0.0 = "Mf_Over Mr_Failed"]) (simp_all add: member_flow_at_def nth_append)
  then show ?thesis using assms by (simp add: call_member_def)
qed

lemma create_member_minv:
  assumes "minv s"
  shows "minv (create_member l s)"
  using append_flow_minv [OF assms, of "Mf_Allocate l"] assms by (simp add: create_member_def)

lemma name_allocated_minv:
  assumes inv: "minv s"
  shows "minv (name_allocated i name s)"
proof (cases "\<exists>l. member_flow_at s i = Some (Mf_Allocate l)")
  case False
  then have "name_allocated i name s = s"
    by (cases "member_flow_at s i"; cases "the (member_flow_at s i)") (auto simp: name_allocated_def)
  then show ?thesis using inv by simp
next
  case True
  then obtain l where at: "member_flow_at s i = Some (Mf_Allocate l)" by blast
  note ends = flow_ends [OF inv at, simplified]
  have tracked: "minv (track_materialization n (Mt_Fresh n l) (set_member_flow i (Mf_Wait m k) (drop_retired n s)))"
    if n: "mc_files s n = None" "live_entity n s = None" "mc_materializations s n = None" for n m k
  proof (rule track_minv)
    show "minv (set_member_flow i (Mf_Wait m k) (drop_retired n s))"
      by (rule flow_ends [OF drop_retired_minv [OF inv], where ?f0.0 = "Mf_Allocate l"]) (use at in simp_all)
    have "mc_reopening s n = None"
      using minvD(2) [OF inv, of n] n(1) by (cases "mc_reopening s n") (simp_all add: reopening_ok_def)
    then show "Mt_Fresh n l = Mt_Start n \<or> mat_claim (Mt_Fresh n l) = Some n \<and>
        mc_reopening (set_member_flow i (Mf_Wait m k) (drop_retired n s)) n = None \<and>
        live_entity n (set_member_flow i (Mf_Wait m k) (drop_retired n s)) = None"
      using n by simp
  qed (use n in simp_all)
  then show ?thesis using ends inv by (auto simp: name_allocated_def at split: option.split)
qed

subsection \<open>The steps of a materialization\<close>

lemma materialize_starts_minv:
  assumes inv: "minv s"
  shows "minv (materialize_starts m s)"
proof (cases "\<exists>n. mat_at s m = Some (Mt_Start n)")
  case False
  then have "materialize_starts m s = s"
    by (cases "mat_at s m"; cases "the (mat_at s m)") (auto simp: materialize_starts_def)
  then show ?thesis using inv by simp
next
  case True
  then obtain n where at: "mat_at s m = Some (Mt_Start n)" by blast
  show ?thesis
  proof (cases "mc_reopening s n")
    case None
    then have "minv (set_mat m (Mt_Read n) s)" by (intro set_mat_minv [OF inv at]) simp_all
    then show ?thesis using None by (simp add: materialize_starts_def at)
  next
    case (Some b)
    then consider "build_at s b = Some (Bd_Open n)"
      | a where "build_at s b = Some (Bd_Built a)" "a < length (mc_agents s)" "am_name (mc_agents s ! a) = n"
      using minvD(2) [OF inv Some] unfolding reopening_ok_def by blast
    then show ?thesis
    proof cases
      case 1
      then have "minv (set_mat m (Mt_Join n b) s)" by (intro set_mat_minv [OF inv at]) simp_all
      then show ?thesis using Some 1 by (simp add: materialize_starts_def at)
    next
      case 2
      then have "placed s a" using Some by (simp add: placed_def)
      then have "minv (settle_mat m n (Rs_Agent a) s)" using 2 by (intro settle_agent_minv [OF inv at]) simp_all
      then show ?thesis using Some 2 by (simp add: materialize_starts_def at)
    qed
  qed
qed

lemma identity_read_minv:
  assumes inv: "minv s"
  shows "minv (identity_read m ok s)"
proof (cases "\<exists>n. mat_at s m = Some (Mt_Read n)")
  case False
  then have "identity_read m ok s = s"
    by (cases "mat_at s m"; cases "the (mat_at s m)") (auto simp: identity_read_def)
  then show ?thesis using inv by simp
next
  case True
  then obtain n where at: "mat_at s m = Some (Mt_Read n)" by blast
  have re: "mc_reopening s n = None" using minvD(5) [OF inv at] by (simp add: mat_ok_def)
  have failed: "minv (settle_mat m n Rs_Failed s)" by (rule settle_failed_minv [OF inv at]) simp
  have found: "minv (settle_mat m n (Rs_Agent a) s)" if "live_entity n s = Some a" for a
    by (rule settle_agent_minv [OF inv at]) (use live_placed [OF inv that] in simp_all)
  have closed: "minv (settle_mat m n Rs_Closed (drop_retired n s))" if "live_entity n s = None" "mc_files s n \<noteq> None"
    by (rule settle_closed_minv [OF drop_retired_minv [OF inv], where x = "Mt_Read n"]) (use that at re in simp_all)
  have opens: "minv (set_mat m (Mt_Open n) (drop_retired n s))" if "live_entity n s = None"
    by (rule set_mat_minv [OF drop_retired_minv [OF inv], where x = "Mt_Read n"]) (use that at re in simp_all)
  show ?thesis
    using failed found closed opens
    by (cases "ok"; cases "mc_files s n"; cases "live_entity n s") (simp_all add: identity_read_def at Let_def)
qed

lemma entity_opened_minv:
  assumes inv: "minv s"
  shows "minv (entity_opened m ok s)"
proof (cases "\<exists>n. mat_at s m = Some (Mt_Open n)")
  case False
  then have "entity_opened m ok s = s"
    by (cases "mat_at s m"; cases "the (mat_at s m)") (auto simp: entity_opened_def)
  then show ?thesis using inv by simp
next
  case True
  then obtain n where at: "mat_at s m = Some (Mt_Open n)" by blast
  have "minv (settle_mat m n Rs_Failed s)" by (rule settle_failed_minv [OF inv at]) simp
  then show ?thesis using made_minv [OF inv at] by (simp add: entity_opened_def at)
qed

lemma identity_created_minv:
  assumes inv: "minv s"
  shows "minv (identity_created m r ok s)"
proof (cases "\<exists>n l. mat_at s m = Some (Mt_Fresh n l)")
  case False
  then have "identity_created m r ok s = s"
    by (cases "mat_at s m"; cases "the (mat_at s m)") (auto simp: identity_created_def)
  then show ?thesis using inv by simp
next
  case True
  then obtain n l where at: "mat_at s m = Some (Mt_Fresh n l)" by blast
  have n: "mc_reopening s n = None" "live_entity n s = None"
    using minvD(5) [OF inv at] by (simp_all add: mat_ok_def)
  have "minv (settle_mat m n Rs_Failed s)" by (rule settle_failed_minv [OF inv at]) simp
  moreover have "minv (set_mat m (Mt_Made n l) (s\<lparr>mc_files := (mc_files s)(n := Some x)\<rparr>))" for x
    by (rule set_mat_minv [OF files_minv [OF inv], where x = "Mt_Fresh n l"]) (use at n in simp_all)
  ultimately show ?thesis by (simp add: identity_created_def at)
qed

lemma member_made_minv:
  assumes inv: "minv s"
  shows "minv (member_made m ok s)"
proof (cases "\<exists>n l. mat_at s m = Some (Mt_Made n l)")
  case False
  then have "member_made m ok s = s"
    by (cases "mat_at s m"; cases "the (mat_at s m)") (auto simp: member_made_def)
  then show ?thesis using inv by simp
next
  case True
  then obtain n l where at: "mat_at s m = Some (Mt_Made n l)" by blast
  have "minv (settle_mat m n Rs_Failed s)" by (rule settle_failed_minv [OF inv at]) simp
  then show ?thesis using made_minv [OF inv at] by (simp add: member_made_def at)
qed


subsection \<open>The ends of the calls\<close>

lemma send_settles_minv:
  assumes inv: "minv s" and clean: "fails_clean (Mi_Sent i ok) s"
  shows "minv (send_settles i ok s)"
proof (cases "\<exists>a own. member_flow_at s i = Some (Mf_Sending a own)")
  case False
  then have "send_settles i ok s = s"
    by (cases "member_flow_at s i"; cases "the (member_flow_at s i)") (auto simp: send_settles_def)
  then show ?thesis using inv by simp
next
  case True
  then obtain a own where at: "member_flow_at s i = Some (Mf_Sending a own)" by blast
  have send: "sending a s" unfolding sending_iff using at by blast
  have inv': "minv (publish_member a s)" by (rule publish_held_minv [OF inv send])
  have moves: "publish_member a (set_member_flow i f s) = set_member_flow i f (publish_member a s)" for f
    by (simp add: publish_member_def set_member_flow_def)
  show ?thesis
  proof (cases own)
    case None
    have "minv (set_member_flow i (Mf_Over Mr_Failed) s)"
      by (rule flow_ends [OF inv at]) (simp_all add: None)
    moreover have "minv (set_member_flow i (Mf_Over Mr_Done) (publish_member a s))"
      by (rule flow_ends [OF inv', where ?f0.0 = "Mf_Sending a None"]) (use at None in simp_all)
    ultimately show ?thesis by (simp add: send_settles_def at None release_owned_def moves)
  next
    case (Some nb)
    obtain n b where nb: "nb = (n, b)" by (cases nb)
    have name: "am_name (mc_agents s ! a) = n" using minvD(4) [OF inv at] Some nb by (simp add: member_flow_ok_def)
    have "minv (release_build n b (set_member_flow i (Mf_Over Mr_Failed) s))" if "\<not> ok"
      by (rule owner_ends [OF inv]) (use at clean that Some nb in \<open>auto simp: fails_clean_def\<close>)
    moreover have "minv (release_build n b (set_member_flow i (Mf_Over Mr_Done) (publish_member a s)))"
      by (rule owner_ends [OF inv', where a = a]) (use at Some nb name in \<open>simp_all add: publish_member_def\<close>)
    ultimately show ?thesis by (simp add: send_settles_def at Some nb release_owned_def moves)
  qed
qed

lemma submission_settles_spawn_minv:
  assumes inv: "minv s"
  shows "minv (submission_settles_spawn i ok s)"
proof (cases "\<exists>a. member_flow_at s i = Some (Mf_Submitting a)")
  case False
  then have "submission_settles_spawn i ok s = s"
    by (cases "member_flow_at s i"; cases "the (member_flow_at s i)") (auto simp: submission_settles_spawn_def)
  then show ?thesis using inv by simp
next
  case True
  then obtain a where at: "member_flow_at s i = Some (Mf_Submitting a)" by blast
  show ?thesis using flow_ends [OF inv at, simplified] by (simp add: submission_settles_spawn_def at)
qed

lemma close_settles_minv:
  assumes inv: "minv s"
  shows "minv (close_settles i ok s)"
proof (cases "\<exists>a. member_flow_at s i = Some (Mf_Closing a)")
  case False
  then have "close_settles i ok s = s"
    by (cases "member_flow_at s i"; cases "the (member_flow_at s i)") (auto simp: close_settles_def)
  then show ?thesis using inv by simp
next
  case True
  then obtain a where at: "member_flow_at s i = Some (Mf_Closing a)" by blast
  show ?thesis using flow_ends [OF inv at, simplified] by (simp add: close_settles_def at)
qed

lemma fence_minv:
  assumes inv: "minv s"
  shows "minv (s\<lparr>mc_closing := True\<rparr>)"
proof -
  let ?s = "s\<lparr>mc_closing := True\<rparr>"
  have same: "same_rest s ?s" by (simp add: same_rest_def)
  have flow: "member_flow_at ?s j = member_flow_at s j" "mat_at ?s m = mat_at s m" "sending c ?s = sending c s" for j m c
    by (simp_all add: member_flow_at_def mat_at_def sending_def)
  have "agents_ok ?s = agents_ok s" "reopening_ok ?s n b = reopening_ok s n b" for n b
    by (simp_all add: agents_ok_def reopening_ok_def same_restD [OF same] flow)
  then show ?thesis
    using inv mat_ok_cong [OF same] unfolding minv_def flow by (simp add: same_restD [OF same])
qed

subsection \<open>Every interleaving\<close>

lemma member_do_minv:
  assumes "minv s" "fails_clean q s"
  shows "minv (member_do q s)"
  using assms(2)
  by (cases q)
    (simp_all add: call_member_minv create_member_minv name_allocated_minv materialize_starts_minv identity_read_minv
      entity_opened_minv reopened_minv identity_created_minv member_made_minv send_settles_minv
      submission_settles_spawn_minv close_settles_minv runtime_changes_minv member_writes_minv member_closed_minv
      member_unlocked_minv entity_evicted_minv destroy_unheld_minv fence_minv assms(1))

lemma new_members_minv: "minv (new_members did tid files)"
  by (simp add: minv_def agents_ok_def new_members_def member_flow_at_def mat_at_def build_at_def)

lemma member_reach_minv:
  assumes "member_reach s"
  shows "minv s"
  using assms by (induction rule: member_reach.induct) (simp_all add: new_members_minv member_do_minv)

text \<open>Two services that are placed under one name and are not retired are one.\<close>

lemma placed_same:
  assumes inv: "minv s" and name: "am_name (mc_agents s ! c) = am_name (mc_agents s ! a)"
    and c: "placed s c" "\<not> member_retired (mc_agents s ! c)" and a: "placed s a" "\<not> member_retired (mc_agents s ! a)"
  shows "c = a"
proof -
  let ?n = "am_name (mc_agents s ! a)"
  have live: "live_entity ?n s = Some d" if "mc_entities s ?n = Some d" "\<not> member_retired (mc_agents s ! d)" for d
    using that by (simp add: live_entity_def)
  have built: "e = d" if "mc_reopening s ?n = Some b" "build_at s b = Some (Bd_Built d)" "live_entity ?n s = Some e" for b d e
    using minvD(2) [OF inv that(1)] that(2,3) by (auto simp: reopening_ok_def)
  have pa: "mc_entities s ?n = Some a \<or> (\<exists>b. mc_reopening s ?n = Some b \<and> build_at s b = Some (Bd_Built a))"
    and pc: "mc_entities s ?n = Some c \<or> (\<exists>b. mc_reopening s ?n = Some b \<and> build_at s b = Some (Bd_Built c))"
    using a(1) c(1) name by (simp_all add: placed_def)
  show ?thesis
  proof (cases "mc_entities s ?n = Some a")
    case True
    note la = live [OF True a(2)]
    show ?thesis using pc
    proof
      assume "mc_entities s ?n = Some c"
      then show ?thesis using True by simp
    qed (use built [OF _ _ la] in blast)
  next
    case False
    then obtain b where b: "mc_reopening s ?n = Some b" "build_at s b = Some (Bd_Built a)" using pa by blast
    show ?thesis using pc
    proof
      assume "mc_entities s ?n = Some c"
      then show ?thesis using built [OF b] live [OF _ c(2)] by blast
    qed (use b in auto)
  qed
qed



subsection \<open>Concrete runs\<close>

primrec member_run :: "member_input list \<Rightarrow> members \<Rightarrow> members" where
  "member_run [] s = s"
| "member_run (q # qs) s = member_run qs (member_do q s)"

primrec clean_run :: "member_input list \<Rightarrow> members \<Rightarrow> bool" where
  "clean_run [] s \<longleftrightarrow> True"
| "clean_run (q # qs) s \<longleftrightarrow> fails_clean q s \<and> clean_run qs (member_do q s)"

lemma member_run_reach:
  assumes "member_reach s" "clean_run qs s"
  shows "member_reach (member_run qs s)"
  using assms by (induction qs arbitrary: s) (simp_all add: member_reach.does)

definition closed_amy :: agent_identity where
  "closed_amy =
     \<lparr> ai_dispatcher = ''d'', ai_name = ''amy'', ai_team = None, ai_runtime = ''codex'', ai_session = None,
       ai_source_cwd = ''/w'', ai_source_repo = None, ai_cwd = ''/w'', ai_runtime_cwd = ''/w'', ai_worktree = \<lparr> wt_mode = Reuse_Cwd, wt_slug = None, wt_path = ''/w'',
         wt_branch = None, wt_base_ref = None, wt_cleanup = Keep, wt_state = Not_Managed, wt_error = None \<rparr>,
       ai_intent = None, ai_prompt = None, ai_skills = [], ai_created = 1, ai_updated = 2, ai_status = Ag_Closed,
       ai_error = None, ai_closed_at = Some 2, ai_note = None \<rparr>"

definition amy_members :: members where
  "amy_members = new_members ''d'' None (\<lambda>n. if n = ''amy'' then Some closed_amy else None)"

text \<open>Two sends to a closed Agent: they share the build, and each returns.\<close>

definition shared_reopen :: "member_input list" where
  "shared_reopen = [Mi_Send ''amy'', Mi_Send ''amy'', Mi_Materialize 0, Mi_Identity 0 True, Mi_Reopened 0 True,
     Mi_Runtime 0 True, Mi_Writes 0 Ag_Running, Mi_Sent 0 True]"

lemma shared_reopen_run:
  "let s = member_run shared_reopen amy_members in
   clean_run shared_reopen amy_members \<and> map am_runtime (mc_agents s) = [True] \<and> length (mc_agents s) = 1 \<and>
   mc_flows s = [Mf_Over Mr_Done, Mf_Sending 0 (Some (''amy'', 0))]"
  by code_simp


text \<open>
  C34.  A failed reopening leaves its Agent behind.  \<open>sendReopened\<close> drops its build from \<^verbatim>\<open>reopening\<close> when the send
  throws, also when the send had started a runtime before it failed (the write of the intent comes after
  the start).  The service is then in neither map: a close, a dissolve or the shutdown does not find it, and
  a send to the name builds a second service and starts a second runtime of the same Agent.
\<close>

definition failed_reopen :: "member_input list" where
  "failed_reopen = [Mi_Send ''amy'', Mi_Materialize 0, Mi_Identity 0 True, Mi_Reopened 0 True, Mi_Runtime 0 True,
     Mi_Writes 0 Ag_Running, Mi_Sent 0 False, Mi_Send ''amy'', Mi_Materialize 1, Mi_Identity 1 True, Mi_Opened 1 True,
     Mi_Runtime 1 True]"


end
