(* ===== verification/Ask_User.thy ===== *)
theory Ask_User
  imports Js_Value
begin

text \<open>
  \<^verbatim>\<open>packages/channel/feishu-channel/src/ask-user/registry.ts\<close> with \<^verbatim>\<open>answerLabel\<close> of
  \<^verbatim>\<open>cards/ask-user.ts\<close>: the open question rounds of a Feishu session and what a click does to one.

  A card is named by the view it is built from, a toast by its case, and a settlement's text by
  the facts it spells out.  \<^verbatim>\<open>Number(value)\<close> of a value that is not a number is the argument
  \<open>to_number\<close>.  A request id is drawn once, and the caller activates a round once.  Three ghosts:
  \<open>ak_opened\<close>, the questions of every round opened, \<open>ak_settled\<close>, the settlements handed out, and
  \<open>ak_clicks\<close>, the answers clicks set or cleared, in order.
\<close>

datatype answer =
    Option_Answer nat
  | Other_Answer string

record question =
  qu_header :: string
  qu_question :: string
  qu_options :: "(string \<times> string) list"

record round =
  ro_text :: "string option"
  ro_questions :: "question list"
  ro_answers :: "(nat \<times> answer) list"
  ro_message :: "string option"
  ro_chat :: "string option"
  ro_thread :: "string option"

definition answer_label :: "question \<Rightarrow> answer option \<Rightarrow> string option" where
  "answer_label q a =
     (case a of
        None \<Rightarrow> None
      | Some (Option_Answer i) \<Rightarrow> if i < length (qu_options q) then Some (fst (qu_options q ! i)) else None
      | Some (Other_Answer t) \<Rightarrow> Some t)"

datatype ask_outcome = Ask_Submitted | Ask_Cancelled | Ask_Expired

datatype settlement_text =
    Answers_Given "(string \<times> string \<times> string option) list"
  | Card_Dismissed
  | Card_Expired

record ask_settlement =
  st_request :: string
  st_outcome :: ask_outcome
  st_text :: settlement_text
  st_source :: string
  st_card :: "string option"
  st_chat :: "string option"
  st_thread :: "string option"
  st_operator :: "string option"

datatype toast =
    Toast_Gone
  | Toast_Pick_First
  | Toast_Stale_Option
  | Toast_Submitted
  | Toast_Cancelled
  | Toast_Picked string
  | Toast_Cleared
  | Toast_Other string

datatype ask_card =
    Question_Card round
  | Submitted_Card round
  | Closed_Card ask_outcome "string option"

record ask_response =
  re_toast :: toast
  re_card :: "ask_card option"

record ask_registry =
  ak_opened :: "(string \<times> question list) list"
  ak_built :: "(string \<times> round) list"
  ak_rounds :: "(string \<times> round) list"
  ak_settled :: "ask_settlement list"
  ak_clicks :: "(string \<times> nat \<times> answer option) list"

definition registry_empty_ask :: ask_registry where
  "registry_empty_ask = \<lparr> ak_opened = [], ak_built = [], ak_rounds = [], ak_settled = [], ak_clicks = [] \<rparr>"

definition submitted_text :: "round \<Rightarrow> settlement_text" where
  "submitted_text r = Answers_Given
     (map (\<lambda>(i, q). (qu_header q, qu_question q, answer_label q (map_of (ro_answers r) i)))
       (zip [0..<length (ro_questions r)] (ro_questions r)))"

definition as_index :: "(js \<Rightarrow> rat option) \<Rightarrow> js \<Rightarrow> nat option" where
  "as_index to_number v =
     (case (case v of Num n \<Rightarrow> Some n | _ \<Rightarrow> to_number v) of
        None \<Rightarrow> None
      | Some n \<Rightarrow> if is_integer n \<and> 0 \<le> n then Some (nat \<lfloor>n\<rfloor>) else None)"

subsection \<open>Closing a round\<close>

definition settlement_of ::
  "string \<Rightarrow> round \<Rightarrow> ask_outcome \<Rightarrow> string option \<Rightarrow> string option \<Rightarrow> ask_settlement" where
  "settlement_of rid r outcome from_card who =
     \<lparr> st_request = rid, st_outcome = outcome,
       st_text = (case outcome of Ask_Submitted \<Rightarrow> submitted_text r | Ask_Cancelled \<Rightarrow> Card_Dismissed
                  | Ask_Expired \<Rightarrow> Card_Expired),
       st_source = ''ask_user_question:'' @ rid,
       st_card = (case from_card of Some m \<Rightarrow> Some m | None \<Rightarrow> ro_message r),
       st_chat = ro_chat r, st_thread = ro_thread r, st_operator = who \<rparr>"

definition close_round ::
  "string \<Rightarrow> round \<Rightarrow> ask_outcome \<Rightarrow> string option \<Rightarrow> string option \<Rightarrow> ask_registry \<Rightarrow>
   ask_settlement \<times> ask_registry" where
  "close_round rid r outcome from_card who reg =
     (let s = settlement_of rid r outcome from_card who
      in (s, reg\<lparr>ak_rounds := filter (\<lambda>e. fst e \<noteq> rid) (ak_rounds reg),
                 ak_settled := ak_settled reg @ [s]\<rparr>))"

definition settle_round ::
  "string \<Rightarrow> round \<Rightarrow> ask_outcome \<Rightarrow> string option \<Rightarrow> string option \<Rightarrow> ask_registry \<Rightarrow>
   ask_response \<times> ask_settlement option \<times> ask_registry" where
  "settle_round rid r outcome from_card who reg =
     (case close_round rid r outcome from_card who reg of
        (s, reg') \<Rightarrow>
          (\<lparr> re_toast = (if outcome = Ask_Submitted then Toast_Submitted else Toast_Cancelled),
             re_card = Some (if outcome = Ask_Submitted then Submitted_Card r
                             else Closed_Card Ask_Cancelled (ro_text r)) \<rparr>,
           Some s, reg'))"

subsection \<open>Opening and answering\<close>

definition open_round :: "string \<Rightarrow> string option \<Rightarrow> question list \<Rightarrow> ask_registry \<Rightarrow> ask_card \<times> ask_registry" where
  "open_round rid txt qs reg =
     (let r = \<lparr> ro_text = txt, ro_questions = qs, ro_answers = [], ro_message = None, ro_chat = None,
                ro_thread = None \<rparr>
      in (Question_Card r, reg\<lparr>ak_opened := (rid, qs) # ak_opened reg, ak_built := (rid, r) # ak_built reg\<rparr>))"

record sent_message =
  sm_message :: string
  sm_chat :: "string option"
  sm_thread :: "string option"

definition activate_round :: "string \<Rightarrow> sent_message option \<Rightarrow> ask_registry \<Rightarrow> ask_registry" where
  "activate_round rid sent reg =
     (case map_of (ak_built reg) rid of
        None \<Rightarrow> reg
      | Some r \<Rightarrow>
          let r' = (case sent of
              None \<Rightarrow> r
            | Some m \<Rightarrow> r\<lparr>ro_message := Some (sm_message m), ro_chat := sm_chat m, ro_thread := sm_thread m\<rparr>)
          in reg\<lparr>ak_built := filter (\<lambda>e. fst e \<noteq> rid) (ak_built reg),
                 ak_rounds := AList.update rid r' (ak_rounds reg)\<rparr>)"

text \<open>The card's timer: nothing for a round that is gone.\<close>

definition round_expires :: "string \<Rightarrow> ask_registry \<Rightarrow> (ask_settlement \<times> ask_card) option \<times> ask_registry" where
  "round_expires rid reg =
     (case map_of (ak_rounds reg) rid of
        None \<Rightarrow> (None, reg)
      | Some r \<Rightarrow>
          (case close_round rid r Ask_Expired None None reg of
             (s, reg') \<Rightarrow> (Some (s, Closed_Card Ask_Expired (ro_text r)), reg')))"

definition abandon_all :: "ask_registry \<Rightarrow> ask_registry" where
  "abandon_all reg = reg\<lparr>ak_rounds := []\<rparr>"

datatype ask_action = Act_Submit | Act_Cancel | Act_Pick | Act_Other

record card_click =
  cl_action :: ask_action
  cl_request :: string
  cl_question :: js
  cl_option :: js
  cl_input :: "string option"
  cl_card :: "string option"
  cl_operator :: "string option"

definition answer_question ::
  "string \<Rightarrow> round \<Rightarrow> nat \<Rightarrow> answer option \<Rightarrow> toast \<Rightarrow> ask_registry \<Rightarrow>
   ask_response \<times> ask_settlement option \<times> ask_registry" where
  "answer_question rid r i a t reg =
     (let r' = r\<lparr>ro_answers := (case a of
            Some v \<Rightarrow> AList.update i v (ro_answers r)
          | None \<Rightarrow> filter (\<lambda>e. fst e \<noteq> i) (ro_answers r))\<rparr>
      in (\<lparr> re_toast = t, re_card = Some (Question_Card r') \<rparr>, None,
          reg\<lparr>ak_rounds := AList.update rid r' (ak_rounds reg), ak_clicks := ak_clicks reg @ [(rid, i, a)]\<rparr>))"

definition refuse_click :: "toast \<Rightarrow> ask_registry \<Rightarrow> ask_response \<times> ask_settlement option \<times> ask_registry" where
  "refuse_click t reg = (\<lparr> re_toast = t, re_card = None \<rparr>, None, reg)"

definition apply_click ::
  "(js \<Rightarrow> rat option) \<Rightarrow> card_click \<Rightarrow> ask_registry \<Rightarrow> ask_response \<times> ask_settlement option \<times> ask_registry" where
  "apply_click to_number c reg =
     (case map_of (ak_rounds reg) (cl_request c) of
        None \<Rightarrow> refuse_click Toast_Gone reg
      | Some r \<Rightarrow>
          (case cl_action c of
             Act_Submit \<Rightarrow>
               if ro_answers r = [] then refuse_click Toast_Pick_First reg
               else settle_round (cl_request c) r Ask_Submitted (cl_card c) (cl_operator c) reg
           | Act_Cancel \<Rightarrow> settle_round (cl_request c) r Ask_Cancelled (cl_card c) (cl_operator c) reg
           | _ \<Rightarrow>
               (case as_index to_number (cl_question c) of
                  None \<Rightarrow> refuse_click Toast_Stale_Option reg
                | Some i \<Rightarrow>
                    if length (ro_questions r) \<le> i then refuse_click Toast_Stale_Option reg
                    else if cl_action c = Act_Pick then
                      (case as_index to_number (cl_option c) of
                         None \<Rightarrow> refuse_click Toast_Stale_Option reg
                       | Some j \<Rightarrow>
                           if length (qu_options (ro_questions r ! i)) \<le> j
                           then refuse_click Toast_Stale_Option reg
                           else answer_question (cl_request c) r i (Some (Option_Answer j))
                             (Toast_Picked (fst (qu_options (ro_questions r ! i) ! j))) reg)
                    else
                      let txt = trim (case cl_input c of None \<Rightarrow> '''' | Some s \<Rightarrow> s)
                      in if txt = '''' then answer_question (cl_request c) r i None Toast_Cleared reg
                         else answer_question (cl_request c) r i (Some (Other_Answer txt)) (Toast_Other txt) reg)))"

inductive ask_reach :: "(js \<Rightarrow> rat option) \<Rightarrow> ask_registry \<Rightarrow> bool" for to_number :: "js \<Rightarrow> rat option" where
  start: "ask_reach to_number registry_empty_ask"
| asked: "ask_reach to_number reg \<Longrightarrow>
    map_of (ak_opened reg) rid = None \<Longrightarrow>
    ask_reach to_number (snd (open_round rid txt qs reg))"
| activated: "ask_reach to_number reg \<Longrightarrow> ask_reach to_number (activate_round rid sent reg)"
| clicked: "ask_reach to_number reg \<Longrightarrow> ask_reach to_number (snd (snd (apply_click to_number c reg)))"
| expired: "ask_reach to_number reg \<Longrightarrow> ask_reach to_number (snd (round_expires rid reg))"
| abandoned: "ask_reach to_number reg \<Longrightarrow> ask_reach to_number (abandon_all reg)"


subsection \<open>What the registry keeps\<close>

definition last_answer :: "string \<Rightarrow> (string \<times> nat \<times> answer option) list \<Rightarrow> nat \<Rightarrow> answer option" where
  "last_answer rid clicks = fold (\<lambda>(k, i, a) m. if k = rid then m(i := a) else m) clicks (\<lambda>_. None)"

definition answer_fits :: "question \<Rightarrow> answer \<Rightarrow> bool" where
  "answer_fits q a =
     (case a of Option_Answer j \<Rightarrow> j < length (qu_options q) | Other_Answer t \<Rightarrow> t \<noteq> '''' \<and> trim t = t)"

definition answers_fit :: "question list \<Rightarrow> (nat \<Rightarrow> answer option) \<Rightarrow> bool" where
  "answers_fit qs m = (\<forall>i a. m i = Some a \<longrightarrow> i < length qs \<and> answer_fits (qs ! i) a)"

definition submission_matches :: "ask_registry \<Rightarrow> ask_settlement \<Rightarrow> bool" where
  "submission_matches reg s =
     (case map_of (ak_opened reg) (st_request s) of
        None \<Rightarrow> False
      | Some qs \<Rightarrow>
          (let m = last_answer (st_request s) (ak_clicks reg)
           in st_text s = Answers_Given (map (\<lambda>i. (qu_header (qs ! i), qu_question (qs ! i), answer_label (qs ! i) (m i)))
                [0..<length qs]) \<and>
              list_ex (\<lambda>i. m i \<noteq> None) [0..<length qs] \<and>
              list_all (\<lambda>i. case m i of None \<Rightarrow> True | Some a \<Rightarrow> answer_fits (qs ! i) a) [0..<length qs]))"

lemma last_answer_Nil [simp]: "last_answer rid [] = (\<lambda>_. None)"
  by (simp add: last_answer_def)

lemma last_answer_snoc [simp]:
  "last_answer rid (clicks @ [(k, i, a)]) =
     (if k = rid then (last_answer rid clicks)(i := a) else last_answer rid clicks)"
  by (simp add: last_answer_def)

lemma map_of_without:
  "map_of (filter (\<lambda>e. fst e \<noteq> k) xs) j = (if j = k then None else map_of xs j)"
  by (induction xs) auto

text \<open>
  What holds of a registry: a request is built, in play, settled or abandoned, one at a time, and an
  open round has the questions it was opened with and the answers its clicks left.
\<close>

definition round_sound :: "ask_registry \<Rightarrow> string \<Rightarrow> round \<Rightarrow> bool" where
  "round_sound reg rid r \<longleftrightarrow>
     map_of (ak_opened reg) rid = Some (ro_questions r) \<and>
     map_of (ro_answers r) = last_answer rid (ak_clicks reg) \<and>
     answers_fit (ro_questions r) (last_answer rid (ak_clicks reg))"

definition settled_sound :: "ask_registry \<Rightarrow> ask_settlement \<Rightarrow> bool" where
  "settled_sound reg s \<longleftrightarrow>
     map_of (ak_opened reg) (st_request s) \<noteq> None \<and>
     map_of (ak_built reg) (st_request s) = None \<and> map_of (ak_rounds reg) (st_request s) = None \<and>
     st_source s = ''ask_user_question:'' @ st_request s \<and>
     (st_outcome s = Ask_Submitted \<longrightarrow> submission_matches reg s)"

definition ask_inv :: "ask_registry \<Rightarrow> bool" where
  "ask_inv reg \<longleftrightarrow>
     distinct (map st_request (ak_settled reg)) \<and>
     (\<forall>s \<in> set (ak_settled reg). settled_sound reg s) \<and>
     (\<forall>rid r. map_of (ak_built reg) rid = Some r \<longrightarrow> map_of (ak_rounds reg) rid = None \<and> round_sound reg rid r) \<and>
     (\<forall>rid r. map_of (ak_rounds reg) rid = Some r \<longrightarrow> round_sound reg rid r) \<and>
     (\<forall>rid. map_of (ak_opened reg) rid = None \<longrightarrow> last_answer rid (ak_clicks reg) = (\<lambda>_. None))"

lemma ask_inv_built:
  "ask_inv reg \<Longrightarrow> map_of (ak_built reg) rid = Some r \<Longrightarrow> map_of (ak_rounds reg) rid = None \<and> round_sound reg rid r"
  by (simp add: ask_inv_def)

lemma ask_inv_round: "ask_inv reg \<Longrightarrow> map_of (ak_rounds reg) rid = Some r \<Longrightarrow> round_sound reg rid r"
  by (simp add: ask_inv_def)

lemma ask_inv_settled: "ask_inv reg \<Longrightarrow> s \<in> set (ak_settled reg) \<Longrightarrow> settled_sound reg s"
  by (simp add: ask_inv_def)

lemma ask_inv_unopened:
  "ask_inv reg \<Longrightarrow> map_of (ak_opened reg) rid = None \<Longrightarrow> last_answer rid (ak_clicks reg) = (\<lambda>_. None)"
  by (simp add: ask_inv_def)

lemma ask_invI:
  assumes "distinct (map st_request (ak_settled reg))"
    and "\<And>s. s \<in> set (ak_settled reg) \<Longrightarrow> settled_sound reg s"
    and "\<And>rid r. map_of (ak_built reg) rid = Some r \<Longrightarrow> map_of (ak_rounds reg) rid = None \<and> round_sound reg rid r"
    and "\<And>rid r. map_of (ak_rounds reg) rid = Some r \<Longrightarrow> round_sound reg rid r"
    and "\<And>rid. map_of (ak_opened reg) rid = None \<Longrightarrow> last_answer rid (ak_clicks reg) = (\<lambda>_. None)"
  shows "ask_inv reg"
  using assms by (simp add: ask_inv_def)

lemma ask_inv_empty: "ask_inv registry_empty_ask"
  by (simp add: ask_inv_def registry_empty_ask_def)

lemma submitted_text_map:
  "submitted_text r = Answers_Given (map (\<lambda>i. (qu_header (ro_questions r ! i), qu_question (ro_questions r ! i),
     answer_label (ro_questions r ! i) (map_of (ro_answers r) i))) [0..<length (ro_questions r)])"
proof -
  have z: "zip [0..<length xs] xs = map (\<lambda>i. (i, xs ! i)) [0..<length xs]" for xs :: "question list"
    by (rule nth_equalityI) simp_all
  show ?thesis
    by (simp add: submitted_text_def z comp_def)
qed

subsection \<open>Every operation keeps it\<close>

lemma open_keeps_ask_inv:
  assumes inv: "ask_inv reg" and new: "map_of (ak_opened reg) rid = None"
  shows "ask_inv (snd (open_round rid txt qs reg))"
proof (rule ask_invI)
  let ?reg = "snd (open_round rid txt qs reg)"
  have rounds: "map_of (ak_rounds reg) rid = None"
    using ask_inv_round [OF inv, of rid] new by (cases "map_of (ak_rounds reg) rid") (auto simp: round_sound_def)
  note [simp] = open_round_def Let_def
  show "distinct (map st_request (ak_settled ?reg))"
    using inv by (simp add: ask_inv_def)
  show "settled_sound ?reg s" if "s \<in> set (ak_settled ?reg)" for s
    using ask_inv_settled [OF inv, of s] that new
    by (auto simp: settled_sound_def submission_matches_def)
  show "map_of (ak_rounds ?reg) k = None \<and> round_sound ?reg k r" if "map_of (ak_built ?reg) k = Some r" for k r
    using ask_inv_built [OF inv, of k r] that rounds ask_inv_unopened [OF inv new]
    by (auto simp: round_sound_def answers_fit_def split: if_splits)
  show "round_sound ?reg k r" if "map_of (ak_rounds ?reg) k = Some r" for k r
    using ask_inv_round [OF inv, of k r] that new by (auto simp: round_sound_def)
  show "last_answer k (ak_clicks ?reg) = (\<lambda>_. None)" if "map_of (ak_opened ?reg) k = None" for k
    using ask_inv_unopened [OF inv, of k] that by (simp split: if_splits)
qed

lemma round_sound_cong:
  "ak_opened reg' = ak_opened reg \<Longrightarrow> ak_clicks reg' = ak_clicks reg \<Longrightarrow> ro_questions r' = ro_questions r \<Longrightarrow>
   ro_answers r' = ro_answers r \<Longrightarrow> round_sound reg rid r \<Longrightarrow> round_sound reg' rid r'"
  by (simp add: round_sound_def)

lemma submission_matches_cong:
  "map_of (ak_opened reg') (st_request s) = map_of (ak_opened reg) (st_request s) \<Longrightarrow>
   last_answer (st_request s) (ak_clicks reg') = last_answer (st_request s) (ak_clicks reg) \<Longrightarrow>
   submission_matches reg' s = submission_matches reg s"
  by (simp only: submission_matches_def)

lemma settled_sound_cong:
  assumes "ak_opened reg' = ak_opened reg" and "ak_clicks reg' = ak_clicks reg"
    and "map_of (ak_built reg') (st_request s) = None" and "map_of (ak_rounds reg') (st_request s) = None"
    and "settled_sound reg s"
  shows "settled_sound reg' s"
  using assms submission_matches_cong [of reg' s reg] by (simp add: settled_sound_def)

lemma activate_keeps_ask_inv:
  assumes inv: "ask_inv reg"
  shows "ask_inv (activate_round rid sent reg)"
proof (cases "map_of (ak_built reg) rid")
  case None
  then show ?thesis using inv by (simp add: activate_round_def)
next
  case (Some r)
  define r' where "r' = (case sent of None \<Rightarrow> r
    | Some m \<Rightarrow> r\<lparr>ro_message := Some (sm_message m), ro_chat := sm_chat m, ro_thread := sm_thread m\<rparr>)"
  have act: "activate_round rid sent reg =
      reg\<lparr>ak_built := filter (\<lambda>e. fst e \<noteq> rid) (ak_built reg), ak_rounds := AList.update rid r' (ak_rounds reg)\<rparr>"
    using Some by (simp add: activate_round_def r'_def Let_def)
  have same: "ro_questions r' = ro_questions r" "ro_answers r' = ro_answers r"
    by (simp_all add: r'_def split: option.splits)
  have sound: "round_sound reg rid r"
    using ask_inv_built [OF inv Some] by simp
  show ?thesis
    unfolding act
  proof (rule ask_invI)
    let ?reg = "reg\<lparr>ak_built := filter (\<lambda>e. fst e \<noteq> rid) (ak_built reg),
      ak_rounds := AList.update rid r' (ak_rounds reg)\<rparr>"
    show "distinct (map st_request (ak_settled ?reg))"
      using inv by (simp add: ask_inv_def)
    show "settled_sound ?reg s" if s: "s \<in> set (ak_settled ?reg)" for s
    proof -
      have old: "settled_sound reg s" using ask_inv_settled [OF inv, of s] s by simp
      have "st_request s \<noteq> rid" using old Some by (auto simp: settled_sound_def)
      then show ?thesis
        using old by (intro settled_sound_cong [OF _ _ _ _ old])
          (simp_all add: map_of_without update_conv' settled_sound_def)
    qed
    show "map_of (ak_rounds ?reg) k = None \<and> round_sound ?reg k q" if "map_of (ak_built ?reg) k = Some q" for k q
      using ask_inv_built [OF inv, of k q] that
      by (auto simp: map_of_without update_conv' round_sound_def split: if_splits)
    show "round_sound ?reg k q" if "map_of (ak_rounds ?reg) k = Some q" for k q
      using ask_inv_round [OF inv, of k q] that sound same
      by (auto simp: update_conv' round_sound_def split: if_splits)
    show "last_answer k (ak_clicks ?reg) = (\<lambda>_. None)" if "map_of (ak_opened ?reg) k = None" for k
      using ask_inv_unopened [OF inv, of k] that by simp
  qed
qed

lemma submitted_sound:
  assumes sound: "round_sound reg rid r" and some: "ro_answers r \<noteq> []"
  shows "submission_matches reg (settlement_of rid r Ask_Submitted from_card who)"
proof -
  let ?m = "last_answer rid (ak_clicks reg)"
  have opened: "map_of (ak_opened reg) rid = Some (ro_questions r)" and m: "map_of (ro_answers r) = ?m"
    and fit: "answers_fit (ro_questions r) ?m"
    using sound by (simp_all add: round_sound_def)
  obtain i a where hd_eq: "hd (ro_answers r) = (i, a)" by (cases "hd (ro_answers r)")
  have "?m i = Some a"
    unfolding m [symmetric] using some hd_eq by (cases "ro_answers r") auto
  then have "list_ex (\<lambda>i. ?m i \<noteq> None) [0..<length (ro_questions r)]"
    using fit by (auto simp: answers_fit_def list_ex_iff)
  moreover have "list_all (\<lambda>i. case ?m i of None \<Rightarrow> True | Some a \<Rightarrow> answer_fits (ro_questions r ! i) a)
      [0..<length (ro_questions r)]"
    using fit by (auto simp: answers_fit_def list_all_iff split: option.splits)
  ultimately show ?thesis
    using opened by (simp add: submission_matches_def settlement_of_def submitted_text_map m)
qed

lemma close_keeps_ask_inv:
  assumes inv: "ask_inv reg" and r: "map_of (ak_rounds reg) rid = Some r"
    and answered: "outcome = Ask_Submitted \<Longrightarrow> ro_answers r \<noteq> []"
  shows "ask_inv (snd (close_round rid r outcome from_card who reg))"
proof (rule ask_invI)
  let ?s = "settlement_of rid r outcome from_card who"
  let ?reg = "snd (close_round rid r outcome from_card who reg)"
  have parts: "ak_settled ?reg = ak_settled reg @ [?s]" "ak_opened ?reg = ak_opened reg"
      "ak_built ?reg = ak_built reg" "ak_clicks ?reg = ak_clicks reg"
      "ak_rounds ?reg = filter (\<lambda>e. fst e \<noteq> rid) (ak_rounds reg)"
    by (simp_all add: close_round_def Let_def)
  have sound: "round_sound reg rid r" by (rule ask_inv_round [OF inv r])
  have req: "st_request ?s = rid" by (simp add: settlement_of_def)
  have fresh: "st_request s \<noteq> rid" if "s \<in> set (ak_settled reg)" for s
    using ask_inv_settled [OF inv that] r by (auto simp: settled_sound_def)
  have unbuilt: "map_of (ak_built reg) rid = None"
    using ask_inv_built [OF inv, of rid] r by (cases "map_of (ak_built reg) rid") auto
  have new: "settled_sound ?reg ?s"
  proof -
    have "submission_matches reg ?s" if "outcome = Ask_Submitted"
      using submitted_sound [OF sound answered [OF that]] that by simp
    then show ?thesis
      using sound unbuilt
      by (simp add: settled_sound_def parts req map_of_without round_sound_def submission_matches_def)
        (simp add: settlement_of_def)
  qed
  show "distinct (map st_request (ak_settled ?reg))"
    using inv fresh by (auto simp: parts req ask_inv_def)
  show "settled_sound ?reg s" if s: "s \<in> set (ak_settled ?reg)" for s
  proof (cases "s = ?s")
    case True
    then show ?thesis using new by simp
  next
    case False
    then have old: "settled_sound reg s" using s ask_inv_settled [OF inv] by (simp add: parts)
    then show ?thesis
      by (intro settled_sound_cong [OF _ _ _ _ old]) (simp_all add: parts map_of_without settled_sound_def)
  qed
  show "map_of (ak_rounds ?reg) k = None \<and> round_sound ?reg k q" if "map_of (ak_built ?reg) k = Some q" for k q
    using ask_inv_built [OF inv, of k q] that by (simp add: parts map_of_without round_sound_def)
  show "round_sound ?reg k q" if "map_of (ak_rounds ?reg) k = Some q" for k q
    using ask_inv_round [OF inv, of k q] that by (simp add: parts map_of_without round_sound_def split: if_splits)
  show "last_answer k (ak_clicks ?reg) = (\<lambda>_. None)" if "map_of (ak_opened ?reg) k = None" for k
    using ask_inv_unopened [OF inv, of k] that by (simp add: parts)
qed


lemma settle_state:
  "snd (snd (settle_round rid r outcome from_card who reg)) = snd (close_round rid r outcome from_card who reg)"
  by (simp add: settle_round_def split: prod.split)

lemma answer_keeps_ask_inv:
  assumes inv: "ask_inv reg" and r: "map_of (ak_rounds reg) rid = Some r"
    and fits: "i < length (ro_questions r)" "\<And>v. a = Some v \<Longrightarrow> answer_fits (ro_questions r ! i) v"
  shows "ask_inv (snd (snd (answer_question rid r i a t reg)))"
proof (rule ask_invI)
  define r' where "r' = r\<lparr>ro_answers := (case a of Some v \<Rightarrow> AList.update i v (ro_answers r)
    | None \<Rightarrow> filter (\<lambda>e. fst e \<noteq> i) (ro_answers r))\<rparr>"
  let ?reg = "snd (snd (answer_question rid r i a t reg))"
  have parts: "ak_rounds ?reg = AList.update rid r' (ak_rounds reg)" "ak_clicks ?reg = ak_clicks reg @ [(rid, i, a)]"
      "ak_opened ?reg = ak_opened reg" "ak_built ?reg = ak_built reg" "ak_settled ?reg = ak_settled reg"
    by (simp_all add: answer_question_def r'_def Let_def)
  have sound: "round_sound reg rid r" by (rule ask_inv_round [OF inv r])
  have unbuilt: "map_of (ak_built reg) rid = None"
    using ask_inv_built [OF inv, of rid] r by (cases "map_of (ak_built reg) rid") auto
  have map': "map_of (ro_answers r') = (map_of (ro_answers r))(i := a)"
    by (cases a) (auto simp: r'_def update_conv' map_of_without fun_eq_iff)
  have new: "round_sound ?reg rid r'"
  proof -
    have qs: "ro_questions r' = ro_questions r" by (simp add: r'_def)
    have "answers_fit (ro_questions r) ((last_answer rid (ak_clicks reg))(i := a))"
      using sound fits by (auto simp: round_sound_def answers_fit_def)
    then show ?thesis
      using sound by (simp add: round_sound_def parts map' qs)
  qed
  show "distinct (map st_request (ak_settled ?reg))"
    using inv by (simp add: parts ask_inv_def)
  show "settled_sound ?reg s" if "s \<in> set (ak_settled ?reg)" for s
  proof -
    have old: "settled_sound reg s" using that ask_inv_settled [OF inv] by (simp add: parts)
    then have "st_request s \<noteq> rid" using r by (auto simp: settled_sound_def)
    then have "submission_matches ?reg s = submission_matches reg s"
      by (intro submission_matches_cong) (simp_all add: parts)
    then show ?thesis
      using old \<open>st_request s \<noteq> rid\<close> by (simp add: settled_sound_def parts update_conv')
  qed
  show "map_of (ak_rounds ?reg) k = None \<and> round_sound ?reg k q" if "map_of (ak_built ?reg) k = Some q" for k q
    using ask_inv_built [OF inv, of k q] that unbuilt by (auto simp: parts update_conv' round_sound_def)
  show "round_sound ?reg k q" if "map_of (ak_rounds ?reg) k = Some q" for k q
  proof (cases "k = rid")
    case True
    then show ?thesis using that new by (simp add: parts update_conv')
  next
    case False
    then show ?thesis using ask_inv_round [OF inv, of k q] that by (simp add: parts update_conv' round_sound_def)
  qed
  show "last_answer k (ak_clicks ?reg) = (\<lambda>_. None)" if "map_of (ak_opened ?reg) k = None" for k
    using ask_inv_unopened [OF inv, of k] that sound by (auto simp: parts round_sound_def)
qed

text \<open>What a click comes to: nothing, a settled round, or an answer set or cleared.\<close>

lemma apply_click_cases:
  obtains (ignored) "snd (snd (apply_click to_number c reg)) = reg"
  | (settled) r outcome where "map_of (ak_rounds reg) (cl_request c) = Some r"
      and "outcome = Ask_Submitted \<longrightarrow> ro_answers r \<noteq> []"
      and "snd (snd (apply_click to_number c reg)) =
        snd (close_round (cl_request c) r outcome (cl_card c) (cl_operator c) reg)"
  | (answered) r i a t where "map_of (ak_rounds reg) (cl_request c) = Some r" and "i < length (ro_questions r)"
      and "\<forall>v. a = Some v \<longrightarrow> answer_fits (ro_questions r ! i) v"
      and "snd (snd (apply_click to_number c reg)) = snd (snd (answer_question (cl_request c) r i a t reg))"
proof (cases "map_of (ak_rounds reg) (cl_request c)")
  case None
  then show thesis using ignored by (simp add: apply_click_def refuse_click_def)
next
  case r: (Some r)
  show thesis
  proof (cases "cl_action c = Act_Submit \<or> cl_action c = Act_Cancel")
    case True
    then consider "cl_action c = Act_Submit" "ro_answers r = []"
      | "cl_action c = Act_Submit" "ro_answers r \<noteq> []" | "cl_action c = Act_Cancel" by blast
    then show thesis
    proof cases
      case 1
      then show thesis using r ignored by (simp add: apply_click_def refuse_click_def)
    next
      case 2
      then show thesis using r settled [of r Ask_Submitted] by (simp add: apply_click_def settle_state)
    next
      case 3
      then show thesis using r settled [of r Ask_Cancelled] by (simp add: apply_click_def settle_state)
    qed
  next
    case False
    show thesis
    proof (cases "as_index to_number (cl_question c)")
      case None
      then show thesis using r False ignored
        by (simp add: apply_click_def refuse_click_def split: ask_action.splits)
    next
      case i: (Some i)
      consider (past) "length (ro_questions r) \<le> i"
        | (pick) "i < length (ro_questions r)" "cl_action c = Act_Pick"
        | (words) "i < length (ro_questions r)" "cl_action c = Act_Other"
        using False by (cases "cl_action c"; cases "length (ro_questions r) \<le> i") simp_all
      then show thesis
      proof cases
        case past
        then show thesis using r i False ignored
          by (simp add: apply_click_def refuse_click_def split: ask_action.splits)
      next
        case pick
        show thesis
        proof (cases "as_index to_number (cl_option c)")
          case None
          then show thesis using r i pick ignored by (simp add: apply_click_def refuse_click_def)
        next
          case j: (Some j)
          show thesis
          proof (cases "length (qu_options (ro_questions r ! i)) \<le> j")
            case True
            then show thesis using r i j pick ignored by (simp add: apply_click_def refuse_click_def)
          next
            case False
            then show thesis
              using r i j pick answered [of r i "Some (Option_Answer j)"]
              by (simp add: apply_click_def answer_fits_def)
          qed
        qed
      next
        case words
        let ?t = "trim (case cl_input c of None \<Rightarrow> '''' | Some s \<Rightarrow> s)"
        show thesis
        proof (cases "?t = ''''")
          case True
          then show thesis
            using r i words answered [of r i None Toast_Cleared] by (simp add: apply_click_def Let_def)
        next
          case False
          then show thesis
            using r i words answered [of r i "Some (Other_Answer ?t)" "Toast_Other ?t"]
            by (simp add: apply_click_def Let_def answer_fits_def trim_idem)
        qed
      qed
    qed
  qed
qed

lemma click_keeps_ask_inv:
  assumes inv: "ask_inv reg"
  shows "ask_inv (snd (snd (apply_click to_number c reg)))"
proof (cases rule: apply_click_cases [of to_number c reg])
  case ignored
  then show ?thesis using inv by simp
next
  case (settled r outcome)
  then show ?thesis using close_keeps_ask_inv [OF inv settled(1), of outcome] by simp
next
  case (answered r i a t)
  then show ?thesis using answer_keeps_ask_inv [OF inv answered(1,2), of a t] by simp
qed

lemma expiry_keeps_ask_inv:
  assumes inv: "ask_inv reg"
  shows "ask_inv (snd (round_expires rid reg))"
proof (cases "map_of (ak_rounds reg) rid")
  case None
  then show ?thesis using inv by (simp add: round_expires_def)
next
  case (Some r)
  then show ?thesis
    using close_keeps_ask_inv [OF inv Some, of Ask_Expired None None]
    by (cases "close_round rid r Ask_Expired None None reg") (simp add: round_expires_def)
qed

lemma abandon_keeps_ask_inv:
  assumes inv: "ask_inv reg"
  shows "ask_inv (abandon_all reg)"
proof (rule ask_invI)
  show "distinct (map st_request (ak_settled (abandon_all reg)))"
    using inv by (simp add: abandon_all_def ask_inv_def)
  show "settled_sound (abandon_all reg) s" if "s \<in> set (ak_settled (abandon_all reg))" for s
  proof -
    have old: "settled_sound reg s" using that ask_inv_settled [OF inv] by (simp add: abandon_all_def)
    then show ?thesis
      by (intro settled_sound_cong [OF _ _ _ _ old]) (simp_all add: abandon_all_def settled_sound_def)
  qed
  show "map_of (ak_rounds (abandon_all reg)) k = None \<and> round_sound (abandon_all reg) k r"
    if "map_of (ak_built (abandon_all reg)) k = Some r" for k r
    using ask_inv_built [OF inv, of k r] that by (simp add: abandon_all_def round_sound_def)
  show "round_sound (abandon_all reg) k r" if "map_of (ak_rounds (abandon_all reg)) k = Some r" for k r
    using that by (simp add: abandon_all_def)
  show "last_answer k (ak_clicks (abandon_all reg)) = (\<lambda>_. None)"
    if "map_of (ak_opened (abandon_all reg)) k = None" for k
    using ask_inv_unopened [OF inv, of k] that by (simp add: abandon_all_def)
qed

lemma ask_reach_inv: "ask_reach to_number reg \<Longrightarrow> ask_inv reg"
proof (induction rule: ask_reach.induct)
  case start
  show ?case by (rule ask_inv_empty)
next
  case (asked reg rid t qs)
  then show ?case by (intro open_keeps_ask_inv)
next
  case (activated reg rid sent)
  then show ?case by (intro activate_keeps_ask_inv)
next
  case (clicked reg c)
  then show ?case by (intro click_keeps_ask_inv)
next
  case (expired reg rid)
  then show ?case by (intro expiry_keeps_ask_inv)
next
  case (abandoned reg)
  then show ?case by (intro abandon_keeps_ask_inv)
qed


subsection \<open>Settlements\<close>

text \<open>
  C27. A question round is settled once, whatever clicks, timers and rounds come with it: in every reachable
  registry the settlements handed out have distinct requests and distinct dedup identities, a settled
  round is neither in play nor waiting for its card, and a submitted settlement lists each question
  the round was opened with beside the answer of the last click that set or cleared it.  At least one of
  them is answered, an answer picks an option the question has, or is text that is trimmed and not empty.
\<close>

theorem ask_round_settles_once:
  assumes "ask_reach to_number reg"
  shows "distinct (map st_request (ak_settled reg)) \<and> distinct (map st_source (ak_settled reg)) \<and>
    (\<forall>s \<in> set (ak_settled reg).
       map_of (ak_rounds reg) (st_request s) = None \<and> map_of (ak_built reg) (st_request s) = None \<and>
       (st_outcome s = Ask_Submitted \<longrightarrow> submission_matches reg s))"
proof -
  have inv: "ask_inv reg" by (rule ask_reach_inv [OF assms])
  have source: "st_source s = ''ask_user_question:'' @ st_request s" if "s \<in> set (ak_settled reg)" for s
    using ask_inv_settled [OF inv that] unfolding settled_sound_def by blast
  have requests: "distinct (map st_request (ak_settled reg))"
    using inv by (simp add: ask_inv_def)
  have "map st_source (ak_settled reg) = map (\<lambda>x. ''ask_user_question:'' @ x) (map st_request (ak_settled reg))"
    unfolding map_map comp_def by (rule map_cong [OF refl source])
  then have "distinct (map st_source (ak_settled reg))"
    using requests by (simp only: distinct_map [of "\<lambda>x. ''ask_user_question:'' @ x"] inj_on_def) simp
  then show ?thesis
    using requests ask_inv_settled [OF inv] unfolding settled_sound_def by blast
qed

definition ask_click :: "ask_action \<Rightarrow> js \<Rightarrow> js \<Rightarrow> string option \<Rightarrow> card_click" where
  "ask_click act q opt txt =
     \<lparr> cl_action = act, cl_request = ''r1'', cl_question = q, cl_option = opt, cl_input = txt,
       cl_card = Some ''om_1'', cl_operator = Some ''ou_1'' \<rparr>"

definition ask_questions :: "question list" where
  "ask_questions =
     [\<lparr> qu_header = ''db'', qu_question = ''which?'', qu_options = [(''pg'', ''''), (''lite'', '''')] \<rparr>,
      \<lparr> qu_header = ''ui'', qu_question = ''theme?'', qu_options = [(''dark'', '''')] \<rparr>]"

definition ask_run :: ask_registry where
  "ask_run =
     (let clicks = [ask_click Act_Submit Null Null None, ask_click Act_Pick (Num 0) (Num 0) None,
                    ask_click Act_Other (Num 1) Null (Some '' blue ''), ask_click Act_Pick (Num 0) (Num 1) None,
                    ask_click Act_Pick (Num 1) (Num 7) None, ask_click Act_Submit Null Null None,
                    ask_click Act_Cancel Null Null None];
          reg = activate_round ''r1'' (Some \<lparr> sm_message = ''om_1'', sm_chat = None, sm_thread = None \<rparr>)
                  (snd (open_round ''r1'' None ask_questions registry_empty_ask))
      in snd (round_expires ''r1'' (fold (\<lambda>c g. snd (snd (apply_click (\<lambda>_. None) c g))) clicks reg)))"

lemma ask_reach_clicks:
  "ask_reach f reg \<Longrightarrow> ask_reach f (fold (\<lambda>c g. snd (snd (apply_click f c g))) clicks reg)"
  by (induction clicks arbitrary: reg) (simp_all add: ask_reach.clicked)

lemma ask_run_reach: "ask_reach (\<lambda>_. None) ask_run"
  unfolding ask_run_def Let_def
  by (intro ask_reach.expired ask_reach_clicks ask_reach.activated ask_reach.asked ask_reach.start)
    (simp add: registry_empty_ask_def)

text \<open>
  A round asked, submitted too early, answered, changed once, answered past its options, submitted and
  cancelled, with its timer last: one settlement, with the changed answer and the free text.
\<close>

lemma ask_run_value:
  "map (\<lambda>s. (st_outcome s, st_text s)) (ak_settled ask_run) =
     [(Ask_Submitted, Answers_Given [(''db'', ''which?'', Some ''lite''), (''ui'', ''theme?'', Some ''blue'')])]"
  by code_simp

theorem ask_round_settles_once_witness:
  "submission_matches ask_run (hd (ak_settled ask_run)) \<and> map_of (ak_rounds ask_run) ''r1'' = None"
proof -
  have run: "ak_settled ask_run \<noteq> [] \<and> st_outcome (hd (ak_settled ask_run)) = Ask_Submitted \<and>
      st_request (hd (ak_settled ask_run)) = ''r1''"
    by code_simp
  then have "hd (ak_settled ask_run) \<in> set (ak_settled ask_run)" by simp
  then show ?thesis
    using ask_round_settles_once [OF ask_run_reach] run by metis
qed

end
