(* ===== verification/Team_Service.thy ===== *)
theory Team_Service
  imports Agent_Admission Team_Store
begin

text \<open>
  \<^verbatim>\<open>packages/dreamux/src/service/team/service.ts\<close>: one Team over its record's store, from its
  construction (a creation, or a rebuild from its record) to its end.

  A flow is one call of a method that awaits; its value says what it waits for, and each definition
  below is the stretch of the method that runs when that settles.  The queue holds the record writes not
  yet done, in the order they were asked for, each with the flow that waits for it and, for
  \<^verbatim>\<open>updateRecord\<close>, the status read before it was queued.  Whether a write lands, what the leader, the
  members, the workflows, the scheduler and Git answer, and the clock are inputs.  A child that fails
  to close changes only what is reported, so its answer carries no outcome.  The log is a ghost:
  the work handed to the leader, the dissolves accepted and undone, the closed record committed, the
  children asked to close, the Team reported over, and the calls that remove its worktree.
\<close>

datatype child = Ch_Workflows | Ch_Scheduler | Ch_Members | Ch_Leader

record dissolve_command =
  dc_note :: string
  dc_force :: bool

datatype assessment =
    As_Terminal worktree
  | As_Eligible
  | As_Blocked cleanup_state

datatype closing_kind = By_Dissolve | By_Abandon bool

datatype flow_result =
    Fr_Ok
  | Fr_Failed
  | Fr_Taken
  | Fr_Closing
  | Fr_Closed
  | Fr_Blocked cleanup_state
  | Fr_Receipt
  | Fr_Unsupported
  | Fr_Admission entity_admission

datatype team_flow =
    Cn_Record team_record
  | Cn_Leader
  | Cn_Ready
  | Rb_Leader
  | Rb_Recover
  | Su_Leader bool
  | Su_Write bool entity_admission
  | Cr_Running
  | Ad_Workflows bool
  | Ad_Scheduler bool
  | Ab_Write
  | Dq_Assess dissolve_command
  | Di_Assess dissolve_command
  | Di_Write
  | Destroying closing_kind child
  | Cleaning closing_kind
  | Clean_Write closing_kind
  | Pc_Prepare
  | Pc_Ready
  | Pc_Submit
  | In_Interrupt
  | Over flow_result

datatype team_event =
    Ev_Taken
  | Ev_Accepted bool
  | Ev_Undone
  | Ev_Closed
  | Ev_Child nat child
  | Ev_Over nat bool
  | Ev_Cleanup nat bool

datatype contained_role = Role_Leader | Role_Teammate

record queued_write =
  qw_owner :: "nat option"
  qw_previous :: "team_status option"
  qw_update :: team_update

record creation =
  cr_prompt :: bool
  cr_checkout :: bool
  cr_worktree :: worktree

record team =
  tm_dispatcher :: string
  tm_id :: string
  tm_sources :: bool
  tm_creation :: creation
  tm_store :: "(team_record option, json_file) tstore"
  tm_queue :: "queued_write list"
  tm_leader :: bool
  tm_roster :: "(string \<times> contained_role \<times> string) list"
  tm_dissolving :: bool
  tm_closed :: bool
  tm_flows :: "team_flow list"
  tm_events :: "(team_status \<times> (string \<times> contained_role \<times> string) list) list"
  tm_log :: "team_event list"

definition set_flow :: "nat \<Rightarrow> team_flow \<Rightarrow> team \<Rightarrow> team" where
  "set_flow i f t = t\<lparr>tm_flows := (tm_flows t)[i := f]\<rparr>"

definition add_flow :: "team_flow \<Rightarrow> team \<Rightarrow> team" where
  "add_flow f t = t\<lparr>tm_flows := tm_flows t @ [f]\<rparr>"

definition flow_at :: "team \<Rightarrow> nat \<Rightarrow> team_flow option" where
  "flow_at t i = (if i < length (tm_flows t) then Some (tm_flows t ! i) else None)"

definition note_event :: "team_event \<Rightarrow> team \<Rightarrow> team" where
  "note_event e t = t\<lparr>tm_log := tm_log t @ [e]\<rparr>"

definition must_record :: "team \<Rightarrow> team_record option" where
  "must_record t = (case slot (tm_store t) of Some v \<Rightarrow> v | None \<Rightarrow> None)"

definition record_closed :: "team \<Rightarrow> bool" where
  "record_closed t = (case must_record t of Some r \<Rightarrow> tr_status r = Ts_Closed | None \<Rightarrow> False)"

definition assert_team_open :: "team \<Rightarrow> flow_result option" where
  "assert_team_open t =
     (if tm_dissolving t then Some Fr_Closing
      else case must_record t of
          None \<Rightarrow> Some Fr_Failed
        | Some r \<Rightarrow> if tr_status r = Ts_Closed then Some Fr_Closed else None)"

subsection \<open>The aggregate event\<close>

definition publish_team_state :: "team \<Rightarrow> team" where
  "publish_team_state t =
     (case must_record t of
        None \<Rightarrow> t
      | Some r \<Rightarrow>
          if tm_sources t then t\<lparr>tm_events := tm_events t @ [(tr_status r, tm_roster t)]\<rparr> else t)"

definition remember_member :: "string \<Rightarrow> contained_role \<Rightarrow> string \<Rightarrow> team \<Rightarrow> team" where
  "remember_member nm role status t = t\<lparr>tm_roster := AList.update nm (role, status) (tm_roster t)\<rparr>"

definition publish_identity :: "string \<Rightarrow> contained_role \<Rightarrow> string \<Rightarrow> team \<Rightarrow> team" where
  "publish_identity nm role status t = publish_team_state (remember_member nm role status t)"

subsection \<open>Writing the record\<close>

definition queue_write :: "nat option \<Rightarrow> team_status option \<Rightarrow> team_update \<Rightarrow> team \<Rightarrow> team" where
  "queue_write i previous u t =
     t\<lparr>tm_queue := tm_queue t @ [\<lparr> qw_owner = i, qw_previous = previous, qw_update = u \<rparr>]\<rparr>"

text \<open>\<^verbatim>\<open>updateRecord\<close> up to its \<^verbatim>\<open>await\<close>.\<close>

definition update_record :: "nat option \<Rightarrow> team_update \<Rightarrow> team \<Rightarrow> team" where
  "update_record i u t = queue_write i (map_option tr_status (must_record t)) u t"

definition title_changed :: "string \<Rightarrow> team \<Rightarrow> team" where
  "title_changed title t = update_record None (no_update\<lparr>tu_intent := Some title\<rparr>) t"

subsection \<open>Destroying the children, and the worktree\<close>

definition destroy_children :: "nat \<Rightarrow> closing_kind \<Rightarrow> team \<Rightarrow> team" where
  "destroy_children i k t = note_event (Ev_Child i Ch_Workflows) (set_flow i (Destroying k Ch_Workflows) t)"

fun child_after :: "bool \<Rightarrow> child \<Rightarrow> child option" where
  "child_after leader Ch_Workflows = Some Ch_Scheduler"
| "child_after leader Ch_Scheduler = Some Ch_Members"
| "child_after leader Ch_Members = (if leader then Some Ch_Leader else None)"
| "child_after leader Ch_Leader = None"

definition close_from_record :: "nat \<Rightarrow> team \<Rightarrow> team" where
  "close_from_record i t = note_event (Ev_Over i (tm_leader t)) (t\<lparr>tm_closed := True\<rparr>)"

definition closing_result :: "closing_kind \<Rightarrow> flow_result" where
  "closing_result k = (case k of By_Dissolve \<Rightarrow> Fr_Ok | By_Abandon _ \<Rightarrow> Fr_Failed)"

definition settle_team_worktree_cleanup :: "nat \<Rightarrow> closing_kind \<Rightarrow> team \<Rightarrow> team" where
  "settle_team_worktree_cleanup i k t =
     (case must_record t of
        Some r \<Rightarrow>
          if wt_state (tr_worktree r) = Cleanup_Pending
          then note_event (Ev_Cleanup i (tr_force r)) (set_flow i (Cleaning k) t)
          else set_flow i (Over (closing_result k)) t
      | None \<Rightarrow> set_flow i (Over (closing_result k)) t)"

text \<open>\<open>None\<close> where \<^verbatim>\<open>WorktreeManager.cleanup\<close> throws.\<close>

definition cleanup_answers :: "nat \<Rightarrow> worktree option \<Rightarrow> team \<Rightarrow> team" where
  "cleanup_answers i cleaned t =
     (case flow_at t i of
        Some (Cleaning k) \<Rightarrow>
          (case cleaned of
             None \<Rightarrow> set_flow i (Over (closing_result k)) t
           | Some w \<Rightarrow>
               if wt_state w = Retained_Error then set_flow i (Over (closing_result k)) t
               else queue_write (Some i) None
                 (no_update\<lparr>tu_worktree := Some (w\<lparr>wt_error := None\<rparr>), tu_force := Some False\<rparr>)
                 (set_flow i (Clean_Write k) t))
      | _ \<Rightarrow> t)"

definition child_settles :: "nat \<Rightarrow> team \<Rightarrow> team" where
  "child_settles i t =
     (case flow_at t i of
        Some (Destroying k c) \<Rightarrow>
          (case child_after (tm_leader t) c of
             Some d \<Rightarrow> note_event (Ev_Child i d) (set_flow i (Destroying k d) t)
           | None \<Rightarrow>
               if k = By_Abandon False then set_flow i (Over Fr_Failed) t
               else settle_team_worktree_cleanup i k (close_from_record i t))
      | _ \<Rightarrow> t)"

subsection \<open>Creation\<close>

definition abandon_created :: "nat \<Rightarrow> ms \<Rightarrow> team \<Rightarrow> team" where
  "abandon_created i now t =
     (let c = tm_creation t;
          wt = (if cr_checkout c
                then (cr_worktree c)\<lparr>wt_state := Cleanup_Pending, wt_error := None\<rparr>
                else cr_worktree c)
      in update_record (Some i)
           (no_update\<lparr>tu_status := Some Ts_Closed, tu_closed_at := Some now,
             tu_note := Some ''Team creation failed'', tu_worktree := Some wt\<rparr>)
           (set_flow i Ab_Write t))"

definition flow_fails :: "nat \<Rightarrow> bool \<Rightarrow> ms \<Rightarrow> flow_result \<Rightarrow> team \<Rightarrow> team" where
  "flow_fails i creating now e t = (if creating then abandon_created i now t else set_flow i (Over e) t)"

definition record_created :: "nat \<Rightarrow> ms \<Rightarrow> bool \<Rightarrow> team \<Rightarrow> team" where
  "record_created i now ok t =
     (case flow_at t i of
        Some (Cn_Record r) \<Rightarrow>
          (case publish_record (tm_dispatcher t) now (r\<lparr>tr_team := tm_id t\<rparr>) ok (tm_store t) of
             (Inl e, st) \<Rightarrow> set_flow i (Over Fr_Failed) (t\<lparr>tm_store := st\<rparr>)
           | (Inr None, st) \<Rightarrow> set_flow i (Over Fr_Taken) (t\<lparr>tm_store := st\<rparr>)
           | (Inr (Some _), st) \<Rightarrow> publish_team_state (set_flow i Cn_Leader (t\<lparr>tm_store := st\<rparr>)))
      | _ \<Rightarrow> t)"

text \<open>\<open>None\<close> where the identity was not created; else its name and status, and whether the leader was built.\<close>

definition create_leader :: "(string \<times> string \<times> bool) option \<Rightarrow> team \<Rightarrow> bool \<times> team" where
  "create_leader made t =
     (case made of
        None \<Rightarrow> (False, t)
      | Some (nm, status, built) \<Rightarrow>
          (built, (publish_identity nm Role_Leader status t)\<lparr>tm_leader := built \<or> tm_leader t\<rparr>))"

definition leader_created :: "nat \<Rightarrow> ms \<Rightarrow> (string \<times> string \<times> bool) option \<Rightarrow> team \<Rightarrow> team" where
  "leader_created i now made t =
     (case flow_at t i of
        Some Cn_Leader \<Rightarrow>
          (case create_leader made t of
             (True, t') \<Rightarrow> set_flow i Cn_Ready t'
           | (False, t') \<Rightarrow> abandon_created i now t')
      | _ \<Rightarrow> t)"

text \<open>The collection drops a creation when the dispatcher is closing (\<^verbatim>\<open>refuseIfClosing\<close>).\<close>

definition creation_refused :: "nat \<Rightarrow> team \<Rightarrow> team" where
  "creation_refused i t =
     (case flow_at t i of Some Cn_Ready \<Rightarrow> set_flow i (Over Fr_Failed) t | _ \<Rightarrow> t)"

subsection \<open>Submissions\<close>

definition submit_flow :: "nat \<Rightarrow> bool \<Rightarrow> ms \<Rightarrow> team \<Rightarrow> team" where
  "submit_flow i creating now t =
     (case assert_team_open t of
        Some e \<Rightarrow> flow_fails i creating now e t
      | None \<Rightarrow>
          if \<not> tm_leader t then flow_fails i creating now Fr_Failed t
          else note_event Ev_Taken (set_flow i (Su_Leader creating) t))"

definition submit_team_input :: "ms \<Rightarrow> team \<Rightarrow> team" where
  "submit_team_input now t = submit_flow (length (tm_flows t)) False now (add_flow (Su_Leader False) t)"

definition set_running :: "nat \<Rightarrow> team_flow \<Rightarrow> team \<Rightarrow> team" where
  "set_running i f t = update_record (Some i) (no_update\<lparr>tu_status := Some Ts_Running\<rparr>) (set_flow i f t)"

definition is_submitted :: "entity_admission \<Rightarrow> bool" where
  "is_submitted a = (case a of Ea_Submitted _ \<Rightarrow> True | _ \<Rightarrow> False)"

definition submission_done :: "nat \<Rightarrow> bool \<Rightarrow> ms \<Rightarrow> entity_admission \<Rightarrow> team \<Rightarrow> team" where
  "submission_done i creating now a t =
     (if \<not> creating then set_flow i (Over (Fr_Admission a)) t
      else if is_submitted a then set_running i Cr_Running t
      else abandon_created i now t)"

definition submit_answers :: "nat \<Rightarrow> ms \<Rightarrow> entity_admission option \<Rightarrow> team \<Rightarrow> team" where
  "submit_answers i now ans t =
     (case flow_at t i of
        Some (Su_Leader creating) \<Rightarrow>
          (case ans of
             None \<Rightarrow> flow_fails i creating now Fr_Failed t
           | Some a \<Rightarrow>
               if is_submitted a \<and> map_option tr_status (must_record t) = Some Ts_Starting
               then set_running i (Su_Write creating a) t
               else submission_done i creating now a t)
      | _ \<Rightarrow> t)"

definition start_created :: "nat \<Rightarrow> ms \<Rightarrow> team \<Rightarrow> team" where
  "start_created i now t =
     (case flow_at t i of
        Some Cn_Ready \<Rightarrow>
          if cr_prompt (tm_creation t) then submit_flow i True now t else set_running i Cr_Running t
      | _ \<Rightarrow> t)"

definition start_admissions :: "team \<Rightarrow> team" where
  "start_admissions t = add_flow (Ad_Workflows False) t"

definition admission_answers :: "nat \<Rightarrow> ms \<Rightarrow> bool \<Rightarrow> team \<Rightarrow> team" where
  "admission_answers i now ok t =
     (case flow_at t i of
        Some (Ad_Workflows creating) \<Rightarrow>
          if ok then set_flow i (Ad_Scheduler creating) t else flow_fails i creating now Fr_Failed t
      | Some (Ad_Scheduler creating) \<Rightarrow>
          if ok then set_flow i (Over Fr_Ok) t else flow_fails i creating now Fr_Failed t
      | _ \<Rightarrow> t)"

subsection \<open>Rebuild\<close>

text \<open>
  The members on disk, then the leader: an identity that is already this Team's is opened, any other
  is created anew.
\<close>

definition rebuild_opens ::
  "nat \<Rightarrow> (string \<times> string) list \<Rightarrow> bool \<Rightarrow> (string \<times> string \<times> bool) option \<Rightarrow> team \<Rightarrow> team" where
  "rebuild_opens i members aligned made t =
     (case flow_at t i of
        Some Rb_Leader \<Rightarrow>
          (let t1 = fold (\<lambda>(nm, status). remember_member nm Role_Teammate status) members t;
               (built, t2) =
                 (if aligned then
                    (case made of
                       None \<Rightarrow> (False, t1)
                     | Some (nm, status, built) \<Rightarrow>
                         (built, (remember_member nm Role_Leader status t1)\<lparr>tm_leader := built \<or> tm_leader t1\<rparr>))
                  else create_leader made t1)
           in set_flow i (if built then Rb_Recover else Over Fr_Failed) t2)
      | _ \<Rightarrow> t)"

definition rebuild_recovers :: "nat \<Rightarrow> bool \<Rightarrow> team \<Rightarrow> team" where
  "rebuild_recovers i ok t =
     (case flow_at t i of
        Some Rb_Recover \<Rightarrow> set_flow i (Over (if ok then Fr_Ok else Fr_Failed)) t
      | _ \<Rightarrow> t)"

subsection \<open>Dissolve\<close>

definition accept_dissolve :: "nat \<Rightarrow> dissolve_command \<Rightarrow> team \<Rightarrow> team" where
  "accept_dissolve i cmd t =
     note_event (Ev_Accepted (dc_force cmd))
       (add_flow (Di_Assess cmd) ((set_flow i (Over Fr_Receipt) t)\<lparr>tm_dissolving := True\<rparr>))"

definition dissolve :: "dissolve_command \<Rightarrow> team \<Rightarrow> team" where
  "dissolve cmd t =
     (if trim (dc_note cmd) = '''' then add_flow (Over Fr_Failed) t
      else if tm_dissolving t then add_flow (Over Fr_Receipt) t
      else if dc_force cmd then accept_dissolve (length (tm_flows t)) cmd (add_flow (Dq_Assess cmd) t)
      else add_flow (Dq_Assess cmd) t)"

text \<open>The leader's own tool and the collection's \<^verbatim>\<open>open\<close> ask for a record that is not closed.\<close>

definition admit_leader_tools :: "team \<Rightarrow> flow_result option" where
  "admit_leader_tools t =
     (case must_record t of
        None \<Rightarrow> Some Fr_Failed
      | Some r \<Rightarrow> if tr_status r = Ts_Closed then Some Fr_Closed else None)"

definition asked_to_dissolve :: "dissolve_command \<Rightarrow> team \<Rightarrow> team" where
  "asked_to_dissolve cmd t =
     (case admit_leader_tools t of Some e \<Rightarrow> add_flow (Over e) t | None \<Rightarrow> dissolve cmd t)"

definition precheck_answers :: "nat \<Rightarrow> assessment option \<Rightarrow> team \<Rightarrow> team" where
  "precheck_answers i ans t =
     (case flow_at t i of
        Some (Dq_Assess cmd) \<Rightarrow>
          (case ans of
             None \<Rightarrow> set_flow i (Over Fr_Failed) t
           | Some (As_Blocked s) \<Rightarrow> set_flow i (Over (Fr_Blocked s)) t
           | Some _ \<Rightarrow>
               if tm_dissolving t then set_flow i (Over Fr_Receipt) t else accept_dissolve i cmd t)
      | _ \<Rightarrow> t)"

definition undo_dissolve :: "nat \<Rightarrow> team \<Rightarrow> team" where
  "undo_dissolve i t = note_event Ev_Undone ((set_flow i (Over Fr_Failed) t)\<lparr>tm_dissolving := False\<rparr>)"

definition dissolve_record_patch :: "ms \<Rightarrow> dissolve_command \<Rightarrow> assessment \<Rightarrow> team_record \<Rightarrow> team_update" where
  "dissolve_record_patch now cmd a r =
     (let terminal = (case a of As_Terminal _ \<Rightarrow> True | _ \<Rightarrow> False)
      in no_update\<lparr>tu_status := Some Ts_Closed, tu_closed_at := Some now, tu_note := Some (dc_note cmd),
           tu_worktree := Some (case a of
               As_Terminal w \<Rightarrow> w
             | _ \<Rightarrow> (tr_worktree r)\<lparr>wt_state := Cleanup_Pending, wt_error := None\<rparr>),
           tu_force := Some (\<not> terminal \<and> dc_force cmd)\<rparr>)"

definition dissolve_assessed :: "nat \<Rightarrow> ms \<Rightarrow> assessment option \<Rightarrow> team \<Rightarrow> team" where
  "dissolve_assessed i now ans t =
     (case flow_at t i of
        Some (Di_Assess cmd) \<Rightarrow>
          (case (ans, must_record t) of
             (Some a, Some r) \<Rightarrow>
               update_record (Some i) (dissolve_record_patch now cmd a r) (set_flow i Di_Write t)
           | _ \<Rightarrow> undo_dissolve i t)
      | _ \<Rightarrow> t)"

subsection \<open>A write that settles\<close>

definition write_answers :: "nat \<Rightarrow> ms \<Rightarrow> bool \<Rightarrow> team \<Rightarrow> team" where
  "write_answers i now ok t =
     (case flow_at t i of
        Some (Su_Write creating a) \<Rightarrow>
          if ok then submission_done i creating now a t else flow_fails i creating now Fr_Failed t
      | Some Cr_Running \<Rightarrow>
          if ok then set_flow i (Ad_Workflows True) t else abandon_created i now t
      | Some Ab_Write \<Rightarrow> destroy_children i (By_Abandon ok) t
      | Some Di_Write \<Rightarrow> if ok then destroy_children i By_Dissolve t else undo_dissolve i t
      | Some (Clean_Write k) \<Rightarrow> set_flow i (Over (closing_result k)) t
      | _ \<Rightarrow> t)"

text \<open>After its \<^verbatim>\<open>await\<close>, \<^verbatim>\<open>updateRecord\<close> publishes a change of status that this write made.\<close>

definition write_landed ::
  "queued_write \<Rightarrow> team_error store_error + team_record option \<Rightarrow> team \<Rightarrow> team" where
  "write_landed w x t =
     (case x of
        Inl _ \<Rightarrow> t
      | Inr v \<Rightarrow>
          (let t' = (if tu_status (qw_update w) = Some Ts_Closed then note_event Ev_Closed t else t)
           in case v of
                None \<Rightarrow> t'
              | Some r \<Rightarrow>
                  if tu_status (qw_update w) = Some (tr_status r) \<and> qw_previous w \<noteq> None \<and>
                     qw_previous w \<noteq> Some (tr_status r)
                  then publish_team_state t' else t'))"

definition record_write_settles :: "ms \<Rightarrow> bool \<Rightarrow> team \<Rightarrow> team" where
  "record_write_settles now ok t =
     (case tm_queue t of
        [] \<Rightarrow> t
      | w # ws \<Rightarrow>
          (case merge_record (tm_dispatcher t) (tm_id t) now (qw_update w) ok (tm_store t) of
             (x, st) \<Rightarrow>
               (let t' = write_landed w x (t\<lparr>tm_store := st, tm_queue := ws\<rparr>)
                in case qw_owner w of
                     None \<Rightarrow> t'
                   | Some i \<Rightarrow> write_answers i now (case x of Inr _ \<Rightarrow> True | Inl _ \<Rightarrow> False) t')))"

subsection \<open>Completions and interrupts\<close>

text \<open>\<^verbatim>\<open>isTeamUnavailable\<close> turns a closing or closed Team into an unsupported delivery.\<close>

definition unavailable_result :: "flow_result \<Rightarrow> flow_result" where
  "unavailable_result e = (if e = Fr_Closing \<or> e = Fr_Closed then Fr_Unsupported else e)"

definition ask_leader :: "nat \<Rightarrow> team_flow \<Rightarrow> (flow_result \<Rightarrow> flow_result) \<Rightarrow> team \<Rightarrow> team" where
  "ask_leader i f refusal t =
     (case assert_team_open t of
        Some e \<Rightarrow> set_flow i (Over (refusal e)) t
      | None \<Rightarrow> if \<not> tm_leader t then set_flow i (Over Fr_Failed) t else note_event Ev_Taken (set_flow i f t))"

definition prepare_team_completion :: "team \<Rightarrow> team" where
  "prepare_team_completion t = ask_leader (length (tm_flows t)) Pc_Prepare unavailable_result (add_flow Pc_Prepare t)"

definition interrupt_leader :: "team \<Rightarrow> team" where
  "interrupt_leader t = ask_leader (length (tm_flows t)) In_Interrupt (\<lambda>e. e) (add_flow In_Interrupt t)"

definition leader_answers :: "nat \<Rightarrow> bool \<Rightarrow> team \<Rightarrow> team" where
  "leader_answers i ok t =
     (case flow_at t i of
        Some Pc_Prepare \<Rightarrow> set_flow i (if ok then Pc_Ready else Over Fr_Failed) t
      | Some Pc_Submit \<Rightarrow> set_flow i Pc_Ready t
      | Some In_Interrupt \<Rightarrow> set_flow i (Over (if ok then Fr_Ok else Fr_Failed)) t
      | _ \<Rightarrow> t)"

text \<open>A refused submission is an answer of the delivery, which stays prepared.\<close>

definition submit_prepared :: "nat \<Rightarrow> team \<Rightarrow> team" where
  "submit_prepared i t =
     (case flow_at t i of
        Some Pc_Ready \<Rightarrow>
          (case assert_team_open t of
             Some e \<Rightarrow> t
           | None \<Rightarrow> note_event Ev_Taken (set_flow i Pc_Submit t))
      | _ \<Rightarrow> t)"

subsection \<open>The Team's life\<close>

text \<open>
  What happens to a Team, one settled wait or one call at a time.  A member's or the leader's state
  event is \<open>In_State\<close>.
\<close>

datatype team_input =
    In_Record nat ms bool
  | In_Leader nat ms "(string \<times> string \<times> bool) option"
  | In_Refused nat
  | In_Start nat ms
  | In_Rebuild nat "(string \<times> string) list" bool "(string \<times> string \<times> bool) option"
  | In_Recovered nat bool
  | In_Submit ms
  | In_Admission nat ms "entity_admission option"
  | In_Start_Admissions
  | In_Admissions nat ms bool
  | In_Dissolve dissolve_command
  | In_Precheck nat "assessment option"
  | In_Assessed nat ms "assessment option"
  | In_Write ms bool
  | In_Child nat
  | In_Cleaned nat "worktree option"
  | In_Title string
  | In_State string contained_role string
  | In_Prepare
  | In_Interrupted
  | In_Leader_Answer nat bool
  | In_Deliver nat

fun team_do :: "team_input \<Rightarrow> team \<Rightarrow> team" where
  "team_do (In_Record i now ok) t = record_created i now ok t"
| "team_do (In_Leader i now made) t = leader_created i now made t"
| "team_do (In_Refused i) t = creation_refused i t"
| "team_do (In_Start i now) t = start_created i now t"
| "team_do (In_Rebuild i members aligned made) t = rebuild_opens i members aligned made t"
| "team_do (In_Recovered i ok) t = rebuild_recovers i ok t"
| "team_do (In_Submit now) t = submit_team_input now t"
| "team_do (In_Admission i now ans) t = submit_answers i now ans t"
| "team_do In_Start_Admissions t = start_admissions t"
| "team_do (In_Admissions i now ok) t = admission_answers i now ok t"
| "team_do (In_Dissolve cmd) t = asked_to_dissolve cmd t"
| "team_do (In_Precheck i ans) t = precheck_answers i ans t"
| "team_do (In_Assessed i now ans) t = dissolve_assessed i now ans t"
| "team_do (In_Write now ok) t = record_write_settles now ok t"
| "team_do (In_Child i) t = child_settles i t"
| "team_do (In_Cleaned i cleaned) t = cleanup_answers i cleaned t"
| "team_do (In_Title title) t = title_changed title t"
| "team_do (In_State nm role status) t = publish_identity nm role status t"
| "team_do In_Prepare t = prepare_team_completion t"
| "team_do In_Interrupted t = interrupt_leader t"
| "team_do (In_Leader_Answer i ok) t = leader_answers i ok t"
| "team_do (In_Deliver i) t = submit_prepared i t"

text \<open>What Git reports is a worktree a record can hold.\<close>

definition team_input_ok :: "team_input \<Rightarrow> bool" where
  "team_input_ok q =
     (case q of
        In_Assessed _ _ (Some (As_Terminal w)) \<Rightarrow> worktree_ok w
      | In_Cleaned _ (Some w) \<Rightarrow> worktree_ok (w\<lparr>wt_error := None\<rparr>)
      | _ \<Rightarrow> True)"

definition new_team :: "string \<Rightarrow> string \<Rightarrow> bool \<Rightarrow> creation \<Rightarrow> (team_record option, json_file) tstore \<Rightarrow>
    team_flow \<Rightarrow> team" where
  "new_team did tid sources c st f =
     \<lparr> tm_dispatcher = did, tm_id = tid, tm_sources = sources, tm_creation = c, tm_store = st, tm_queue = [],
       tm_leader = False, tm_roster = [], tm_dissolving = False, tm_closed = False, tm_flows = [f],
       tm_events = [], tm_log = [] \<rparr>"

text \<open>
  A creation starts from an owner that holds no record, a rebuild from one whose record is not closed
  and owes no reclaim.
\<close>

inductive team_reach :: "team \<Rightarrow> bool" where
  created: "store_ok (load_team did tid) (slot_ok did tid) st \<Longrightarrow> slot st = Some None \<Longrightarrow>
    team_ok did tid r \<Longrightarrow> tr_status r = Ts_Starting \<Longrightarrow> worktree_ok (cr_worktree c) \<Longrightarrow>
    team_reach (new_team did tid sources c st (Cn_Record r))"
| rebuilt: "store_ok (load_team did tid) (slot_ok did tid) st \<Longrightarrow> slot st = Some (Some r) \<Longrightarrow>
    tr_status r \<noteq> Ts_Closed \<Longrightarrow> \<not> tr_force r \<Longrightarrow> worktree_ok (cr_worktree c) \<Longrightarrow>
    team_reach (new_team did tid sources c st Rb_Leader)"
| does: "team_reach t \<Longrightarrow> team_input_ok q \<Longrightarrow> team_reach (team_do q t)"

end
