(* ===== verification/Team_Service_Props.thy ===== *)
theory Team_Service_Props
  imports Team_Service
begin

text \<open>
  What a Team keeps over any interleaving of its calls, its record's writes and the answers of what it
  holds: the order in which a Team ends, and the agreement of its record, its file, its promise and the
  events it published.
\<close>

subsection \<open>The order of a Team's events\<close>

definition children_of :: "nat \<Rightarrow> team_event list \<Rightarrow> child list" where
  "children_of i es = concat (map (\<lambda>e. case e of Ev_Child j c \<Rightarrow> if j = i then [c] else [] | _ \<Rightarrow> []) es)"

definition since_closed :: "team_event list \<Rightarrow> team_event list" where
  "since_closed es = dropWhile (\<lambda>e. e \<noteq> Ev_Closed) es"

definition accepted :: "team_event list \<Rightarrow> nat" where
  "accepted es = length (filter (\<lambda>e. case e of Ev_Accepted _ \<Rightarrow> True | _ \<Rightarrow> False) es)"

definition undone :: "team_event list \<Rightarrow> nat" where
  "undone es = length (filter (\<lambda>e. e = Ev_Undone) es)"

fun reached :: "child \<Rightarrow> child list" where
  "reached Ch_Workflows = [Ch_Workflows]"
| "reached Ch_Scheduler = [Ch_Workflows, Ch_Scheduler]"
| "reached Ch_Members = [Ch_Workflows, Ch_Scheduler, Ch_Members]"
| "reached Ch_Leader = [Ch_Workflows, Ch_Scheduler, Ch_Members, Ch_Leader]"

definition all_children :: "bool \<Rightarrow> child list" where
  "all_children leader = reached (if leader then Ch_Leader else Ch_Members)"

definition event_ok :: "team_event list \<Rightarrow> team_event \<Rightarrow> bool" where
  "event_ok pre e =
     (case e of
        Ev_Taken \<Rightarrow> Ev_Closed \<notin> set pre \<and> accepted pre = undone pre
      | Ev_Accepted _ \<Rightarrow> accepted pre = undone pre
      | Ev_Undone \<Rightarrow> accepted pre = Suc (undone pre)
      | Ev_Over i leader \<Rightarrow>
          Ev_Closed \<in> set pre \<and> children_of i pre = all_children leader \<and>
          children_of i (since_closed pre) = all_children leader
      | Ev_Cleanup i force \<Rightarrow>
          (Ev_Over i True \<in> set pre \<or> Ev_Over i False \<in> set pre) \<and> (force \<longrightarrow> Ev_Accepted True \<in> set pre)
      | _ \<Rightarrow> True)"

definition team_log_ok :: "team_event list \<Rightarrow> bool" where
  "team_log_ok es \<longleftrightarrow> (\<forall>n < length es. event_ok (take n es) (es ! n))"

lemma log_ok_Nil [simp]: "team_log_ok []"
  by (simp add: team_log_ok_def)

lemma log_ok_snoc [simp]: "team_log_ok (es @ [e]) \<longleftrightarrow> team_log_ok es \<and> event_ok es e"
  by (auto simp: team_log_ok_def nth_append less_Suc_eq)

lemma children_snoc [simp]:
  "children_of i (es @ [e]) = children_of i es @ (case e of Ev_Child j c \<Rightarrow> if j = i then [c] else [] | _ \<Rightarrow> [])"
  by (simp add: children_of_def)

lemma children_Nil [simp]: "children_of i [] = []"
  by (simp add: children_of_def)

lemma since_closed_snoc:
  "since_closed (es @ [e]) =
     (if Ev_Closed \<in> set es then since_closed es @ [e] else if e = Ev_Closed then [e] else [])"
  by (auto simp: since_closed_def dropWhile_append)

lemma accepted_snoc [simp]:
  "accepted (es @ [e]) = accepted es + (case e of Ev_Accepted _ \<Rightarrow> 1 | _ \<Rightarrow> 0)"
  by (cases e) (simp_all add: accepted_def)

lemma undone_snoc [simp]: "undone (es @ [e]) = undone es + of_bool (e = Ev_Undone)"
  by (simp add: undone_def)

lemma counts_Nil [simp]: "accepted [] = 0" "undone [] = 0"
  by (simp_all add: accepted_def undone_def)

lemma child_after_Some: "child_after leader c = Some d \<Longrightarrow> reached d = reached c @ [d] \<and> (d = Ch_Leader \<longrightarrow> leader)"
  by (cases c) (auto split: if_splits)

lemma child_after_None:
  "child_after leader c = None \<Longrightarrow> (c = Ch_Leader \<longrightarrow> leader) \<Longrightarrow> reached c = all_children leader"
  by (cases c) (auto simp: all_children_def split: if_splits)

subsection \<open>The invariant\<close>

definition pre_commit :: "team_flow \<Rightarrow> bool" where
  "pre_commit f = (case f of Di_Assess _ \<Rightarrow> True | Di_Write \<Rightarrow> True | _ \<Rightarrow> False)"

definition waits_for_write :: "team_flow \<Rightarrow> bool" where
  "waits_for_write f =
     (case f of Su_Write _ _ \<Rightarrow> True | Cr_Running \<Rightarrow> True | Ab_Write \<Rightarrow> True | Di_Write \<Rightarrow> True
      | Clean_Write _ \<Rightarrow> True | _ \<Rightarrow> False)"

text \<open>What the log says of a flow, given the fence and whether there is a leader.\<close>

definition flow_ok :: "team_event list \<Rightarrow> bool \<Rightarrow> bool \<Rightarrow> nat \<Rightarrow> team_flow \<Rightarrow> bool" where
  "flow_ok es dissolving leader i f =
     (case f of
        Destroying k c \<Rightarrow>
          k = By_Abandon False \<or>
          (Ev_Closed \<in> set es \<and> children_of i es = reached c \<and> children_of i (since_closed es) = reached c \<and>
           (c = Ch_Leader \<longrightarrow> leader))
      | Cleaning _ \<Rightarrow> True
      | Clean_Write _ \<Rightarrow> True
      | Over _ \<Rightarrow> True
      | Di_Assess cmd \<Rightarrow> dissolving \<and> Ev_Accepted (dc_force cmd) \<in> set es \<and> children_of i es = []
      | Di_Write \<Rightarrow> dissolving \<and> children_of i es = []
      | _ \<Rightarrow> children_of i es = [])"

definition write_ok :: "team_event list \<Rightarrow> queued_write \<Rightarrow> bool" where
  "write_ok es w \<longleftrightarrow>
     tu_status (qw_update w) \<noteq> Some Ts_Starting \<and>
     (tu_force (qw_update w) = Some True \<longrightarrow>
        tu_status (qw_update w) = Some Ts_Closed \<and> Ev_Accepted True \<in> set es) \<and>
     (\<forall>x. tu_worktree (qw_update w) = Some x \<longrightarrow> worktree_ok x)"

definition owner_ok :: "team_flow list \<Rightarrow> queued_write \<Rightarrow> bool" where
  "owner_ok fs w \<longleftrightarrow>
     (\<forall>i. qw_owner w = Some i \<longrightarrow>
        i < length fs \<and> waits_for_write (fs ! i) \<and>
        (fs ! i \<in> {Ab_Write, Di_Write} \<longrightarrow> tu_status (qw_update w) = Some Ts_Closed))"

definition queue_ok :: "team \<Rightarrow> bool" where
  "queue_ok t \<longleftrightarrow>
     (\<forall>w \<in> set (tm_queue t). write_ok (tm_log t) w \<and> owner_ok (tm_flows t) w) \<and>
     distinct (filter (\<lambda>x. x \<noteq> None) (map qw_owner (tm_queue t)))"

definition flows_ok :: "team \<Rightarrow> bool" where
  "flows_ok t \<longleftrightarrow>
     (\<forall>i < length (tm_flows t). flow_ok (tm_log t) (tm_dissolving t) (tm_leader t) i (tm_flows t ! i)) \<and>
     (\<forall>i \<ge> length (tm_flows t). children_of i (tm_log t) = []) \<and>
     (\<forall>i < length (tm_flows t). \<forall>j < length (tm_flows t).
        pre_commit (tm_flows t ! i) \<longrightarrow> pre_commit (tm_flows t ! j) \<longrightarrow> i = j)"

definition status_rank :: "team_status \<Rightarrow> nat" where
  "status_rank s = (case s of Ts_Starting \<Rightarrow> 0 | Ts_Running \<Rightarrow> 1 | Ts_Closed \<Rightarrow> 2)"

definition team_record_ok :: "team \<Rightarrow> bool" where
  "team_record_ok t \<longleftrightarrow>
     store_ok (load_team (tm_dispatcher t) (tm_id t)) (slot_ok (tm_dispatcher t) (tm_id t)) (tm_store t) \<and>
     slot (tm_store t) \<noteq> None \<and> worktree_ok (cr_worktree (tm_creation t)) \<and>
     (record_closed t \<longleftrightarrow> Ev_Closed \<in> set (tm_log t)) \<and>
     (\<forall>r. must_record t = Some r \<longrightarrow> tr_force r \<longrightarrow> Ev_Accepted True \<in> set (tm_log t)) \<and>
     (tm_closed t \<longrightarrow> Ev_Closed \<in> set (tm_log t))"

definition creation_ok :: "team \<Rightarrow> bool" where
  "creation_ok t \<longleftrightarrow>
     (\<forall>r. Cn_Record r \<in> set (tm_flows t) \<longrightarrow>
        team_ok (tm_dispatcher t) (tm_id t) (r\<lparr>tr_team := tm_id t\<rparr>) \<and> tr_status r = Ts_Starting)"

definition events_ok :: "team \<Rightarrow> bool" where
  "events_ok t \<longleftrightarrow>
     sorted (map (status_rank \<circ> fst) (tm_events t)) \<and>
     (\<forall>e \<in> set (tm_events t). \<exists>r. must_record t = Some r \<and> status_rank (fst e) \<le> status_rank (tr_status r))"

definition team_inv :: "team \<Rightarrow> bool" where
  "team_inv t \<longleftrightarrow>
     queue_ok t \<and> flows_ok t \<and> team_record_ok t \<and> creation_ok t \<and> events_ok t \<and> team_log_ok (tm_log t) \<and>
     accepted (tm_log t) = undone (tm_log t) + of_bool (tm_dissolving t)"


lemma team_invI:
  assumes "queue_ok t" "flows_ok t" "team_record_ok t" "creation_ok t" "events_ok t" "team_log_ok (tm_log t)"
    "accepted (tm_log t) = undone (tm_log t) + of_bool (tm_dissolving t)"
  shows "team_inv t"
  using assms by (simp add: team_inv_def)

lemma team_invD:
  assumes "team_inv t"
  shows "queue_ok t" "flows_ok t" "team_record_ok t" "creation_ok t" "events_ok t" "team_log_ok (tm_log t)"
    "accepted (tm_log t) = undone (tm_log t) + of_bool (tm_dissolving t)"
  using assms by (simp_all add: team_inv_def)

definition unqueued :: "team \<Rightarrow> nat \<Rightarrow> bool" where
  "unqueued t i \<longleftrightarrow> Some i \<notin> set (map qw_owner (tm_queue t))"

lemma unqueued_flow:
  assumes "team_inv t" and "flow_at t i = Some f" and "\<not> waits_for_write f"
  shows "unqueued t i"
  using assms by (auto simp: unqueued_def team_inv_def queue_ok_def owner_ok_def flow_at_def split: if_splits)

subsection \<open>One flow goes on\<close>

text \<open>
  A flow moves to \<open>f'\<close>, queues the writes \<open>ws\<close> (none, or its own one) and logs \<open>es\<close>: nothing, its own
  children's closing, the Team's end, a cleanup, or work taken.
\<close>

definition own_event :: "nat \<Rightarrow> team_event \<Rightarrow> bool" where
  "own_event i e \<longleftrightarrow>
     (case e of Ev_Taken \<Rightarrow> True | Ev_Child j c \<Rightarrow> j = i | Ev_Over j l \<Rightarrow> True | Ev_Cleanup j b \<Rightarrow> True | _ \<Rightarrow> False)"

lemma own_events_counts:
  "list_all (own_event i) es \<Longrightarrow> accepted (lg @ es) = accepted lg \<and> undone (lg @ es) = undone lg"
  by (induction es rule: rev_induct) (auto simp: own_event_def split: team_event.splits simp flip: append_assoc)

lemma own_events_closed: "list_all (own_event i) es \<Longrightarrow> Ev_Closed \<notin> set es"
  by (induction es) (auto simp: own_event_def split: team_event.splits)

lemma own_events_children:
  "list_all (own_event i) es \<Longrightarrow> j \<noteq> i \<Longrightarrow> children_of j (lg @ es) = children_of j lg"
  by (induction es rule: rev_induct) (auto simp: own_event_def split: team_event.splits simp flip: append_assoc)

lemma own_events_since:
  "list_all (own_event i) es \<Longrightarrow> j \<noteq> i \<Longrightarrow> Ev_Closed \<in> set lg \<Longrightarrow>
   children_of j (since_closed (lg @ es)) = children_of j (since_closed lg)"
  by (induction es rule: rev_induct)
    (auto simp: own_event_def since_closed_snoc split: team_event.splits simp flip: append_assoc)

lemma flow_ok_other:
  assumes "flow_ok lg d leader j f" and "list_all (own_event i) es" and "j \<noteq> i"
  shows "flow_ok (lg @ es) d leader j f"
  using assms own_events_children [OF assms(2,3), of lg] own_events_since [OF assms(2,3), of lg]
  by (auto simp: flow_ok_def split: team_flow.splits)

lemma write_ok_mono: "write_ok es w \<Longrightarrow> set es \<subseteq> set es' \<Longrightarrow> write_ok es' w"
  by (auto simp: write_ok_def)

lemma flow_step:
  assumes inv: "team_inv t" and i: "i < length (tm_flows t)" and unq: "unqueued t i"
    and ok: "flow_ok (tm_log t @ es) (tm_dissolving t) (tm_leader t) i f"
    and pre: "pre_commit f \<Longrightarrow> pre_commit (tm_flows t ! i)" and fresh: "\<And>r. f \<noteq> Cn_Record r"
    and es: "list_all (own_event i) es" "team_log_ok (tm_log t @ es)"
    and ws: "ws = [] \<or> (\<exists>w. ws = [w] \<and> qw_owner w = Some i \<and> write_ok (tm_log t @ es) w \<and> waits_for_write f \<and>
        (f \<in> {Ab_Write, Di_Write} \<longrightarrow> tu_status (qw_update w) = Some Ts_Closed))"
    and cl: "cl \<Longrightarrow> tm_closed t \<or> Ev_Closed \<in> set (tm_log t)"
  shows "team_inv (t\<lparr>tm_flows := (tm_flows t)[i := f], tm_queue := tm_queue t @ ws, tm_log := tm_log t @ es,
    tm_closed := cl\<rparr>)"
proof (rule team_invI)
  let ?t = "t\<lparr>tm_flows := (tm_flows t)[i := f], tm_queue := tm_queue t @ ws, tm_log := tm_log t @ es,
    tm_closed := cl\<rparr>"
  note q = team_invD(1) [OF inv] and fl = team_invD(2) [OF inv] and rec = team_invD(3) [OF inv]
  have old: "write_ok (tm_log ?t) w \<and> owner_ok (tm_flows ?t) w" if w: "w \<in> set (tm_queue t)" for w
  proof -
    have "qw_owner w \<noteq> Some i" using unq w by (force simp: unqueued_def)
    moreover have "write_ok (tm_log t) w" "owner_ok (tm_flows t) w" using q w by (auto simp: queue_ok_def)
    ultimately show ?thesis
      using write_ok_mono [of "tm_log t" w "tm_log t @ es"] by (auto simp: owner_ok_def nth_list_update)
  qed
  have new: "write_ok (tm_log ?t) w \<and> owner_ok (tm_flows ?t) w" if w: "w \<in> set ws" for w
    using ws w i by (auto simp: owner_ok_def)
  have dist: "distinct (filter (\<lambda>x. x \<noteq> None) (map qw_owner (tm_queue ?t)))"
  proof -
    have "map qw_owner ws = [] \<or> map qw_owner ws = [Some i]" using ws by auto
    then show ?thesis
      using q unq unfolding queue_ok_def unqueued_def by (elim disjE) simp_all
  qed
  show "queue_ok ?t"
    unfolding queue_ok_def using old new dist by auto
  show "flows_ok ?t"
  proof -
    have "flow_ok (tm_log ?t) (tm_dissolving ?t) (tm_leader ?t) j (tm_flows ?t ! j)"
      if "j < length (tm_flows ?t)" for j
    proof (cases "j = i")
      case True
      then show ?thesis using ok i by simp
    next
      case False
      have "flow_ok (tm_log t) (tm_dissolving t) (tm_leader t) j (tm_flows t ! j)"
        using fl that by (simp add: flows_ok_def)
      from flow_ok_other [OF this es(1) False] show ?thesis using False by simp
    qed
    moreover have "children_of j (tm_log ?t) = []" if "length (tm_flows ?t) \<le> j" for j
      using fl that i own_events_children [OF es(1), of j "tm_log t"] by (auto simp: flows_ok_def)
    moreover have "j = k" if "j < length (tm_flows ?t)" "k < length (tm_flows ?t)"
        "pre_commit (tm_flows ?t ! j)" "pre_commit (tm_flows ?t ! k)" for j k
      using fl that pre i by (auto simp: flows_ok_def nth_list_update split: if_splits)
    ultimately show ?thesis unfolding flows_ok_def by blast
  qed
  show "team_record_ok ?t"
    using rec cl own_events_closed [OF es(1)] by (auto simp: team_record_ok_def record_closed_def must_record_def)
  show "creation_ok ?t"
    using team_invD(4) [OF inv] fresh by (auto simp: creation_ok_def dest!: set_update_subset_insert [THEN subsetD])
  show "events_ok ?t"
    using team_invD(5) [OF inv] by (simp add: events_ok_def must_record_def)
  show "team_log_ok (tm_log ?t)" using es by simp
  show "accepted (tm_log ?t) = undone (tm_log ?t) + of_bool (tm_dissolving ?t)"
    using team_invD(7) [OF inv] own_events_counts [OF es(1), of "tm_log t"] by simp
qed

text \<open>The forms the definitions have.\<close>

lemma set_flow_inv:
  assumes "team_inv t" "i < length (tm_flows t)" "unqueued t i"
    "flow_ok (tm_log t) (tm_dissolving t) (tm_leader t) i f"
    "pre_commit f \<Longrightarrow> pre_commit (tm_flows t ! i)" "\<And>r. f \<noteq> Cn_Record r"
  shows "team_inv (set_flow i f t)"
proof -
  have "set_flow i f t = t\<lparr>tm_flows := (tm_flows t)[i := f], tm_queue := tm_queue t @ [], tm_log := tm_log t @ [],
      tm_closed := tm_closed t\<rparr>"
    by (simp add: set_flow_def)
  also have "team_inv \<dots>"
    using assms by (intro flow_step) (auto simp: team_inv_def)
  finally show ?thesis .
qed

lemma note_flow_inv:
  assumes "team_inv t" "i < length (tm_flows t)" "unqueued t i"
    "flow_ok (tm_log t @ [e]) (tm_dissolving t) (tm_leader t) i f"
    "pre_commit f \<Longrightarrow> pre_commit (tm_flows t ! i)" "\<And>r. f \<noteq> Cn_Record r"
    "own_event i e" "event_ok (tm_log t) e"
  shows "team_inv (note_event e (set_flow i f t))"
proof -
  have "note_event e (set_flow i f t) = t\<lparr>tm_flows := (tm_flows t)[i := f], tm_queue := tm_queue t @ [],
      tm_log := tm_log t @ [e], tm_closed := tm_closed t\<rparr>"
    by (simp add: set_flow_def note_event_def)
  also have "team_inv \<dots>"
    using assms by (intro flow_step) (auto simp: team_inv_def)
  finally show ?thesis .
qed

lemma queue_flow_inv:
  assumes "team_inv t" "i < length (tm_flows t)" "unqueued t i"
    "flow_ok (tm_log t) (tm_dissolving t) (tm_leader t) i f"
    "pre_commit f \<Longrightarrow> pre_commit (tm_flows t ! i)" "\<And>r. f \<noteq> Cn_Record r" "waits_for_write f"
    "write_ok (tm_log t) \<lparr> qw_owner = Some i, qw_previous = previous, qw_update = u \<rparr>"
    "f \<in> {Ab_Write, Di_Write} \<longrightarrow> tu_status u = Some Ts_Closed"
  shows "team_inv (queue_write (Some i) previous u (set_flow i f t))"
proof -
  have "queue_write (Some i) previous u (set_flow i f t) = t\<lparr>tm_flows := (tm_flows t)[i := f],
      tm_queue := tm_queue t @ [\<lparr> qw_owner = Some i, qw_previous = previous, qw_update = u \<rparr>],
      tm_log := tm_log t @ [], tm_closed := tm_closed t\<rparr>"
    by (simp add: set_flow_def queue_write_def)
  also have "team_inv \<dots>"
    using assms by (intro flow_step) (auto simp: team_inv_def)
  finally show ?thesis .
qed

lemma inv_flow:
  assumes "team_inv t" and "flow_at t i = Some f"
  shows "i < length (tm_flows t)" "tm_flows t ! i = f"
    "flow_ok (tm_log t) (tm_dissolving t) (tm_leader t) i f"
  using assms by (auto simp: flow_at_def team_inv_def flows_ok_def split: if_splits)

lemma unqueued_set [simp]: "unqueued (set_flow j f t) i = unqueued t i"
  by (simp add: unqueued_def set_flow_def)

lemma add_flow_inv:
  assumes inv: "team_inv t" and f: "flow_ok [] False False (length (tm_flows t)) f" "\<not> pre_commit f" "\<And>r. f \<noteq> Cn_Record r"
    and plain: "\<And>k c. f \<noteq> Destroying k c"
  shows "team_inv (add_flow f t)" "unqueued (add_flow f t) (length (tm_flows t))"
proof -
  note q = team_invD(1) [OF inv] and fl = team_invD(2) [OF inv]
  have none: "children_of (length (tm_flows t)) (tm_log t) = []"
    using fl by (simp add: flows_ok_def)
  have new: "flow_ok (tm_log t) d l (length (tm_flows t)) f" for d l
    using f none plain by (auto simp: flow_ok_def pre_commit_def split: team_flow.splits)
  have owners: "\<forall>w \<in> set (tm_queue t). owner_ok (tm_flows t @ [f]) w"
    using q by (auto simp: queue_ok_def owner_ok_def nth_append)
  have flows: "flows_ok (add_flow f t)"
    unfolding flows_ok_def
  proof (intro conjI allI impI)
    fix i assume "i < length (tm_flows (add_flow f t))"
    then show "flow_ok (tm_log (add_flow f t)) (tm_dissolving (add_flow f t)) (tm_leader (add_flow f t)) i
        (tm_flows (add_flow f t) ! i)"
      using fl new by (auto simp: flows_ok_def add_flow_def nth_append less_Suc_eq)
  next
    fix i assume "length (tm_flows (add_flow f t)) \<le> i"
    then show "children_of i (tm_log (add_flow f t)) = []"
      using fl by (simp add: flows_ok_def add_flow_def)
  next
    fix i j assume "i < length (tm_flows (add_flow f t))" "j < length (tm_flows (add_flow f t))"
      "pre_commit (tm_flows (add_flow f t) ! i)" "pre_commit (tm_flows (add_flow f t) ! j)"
    then show "i = j"
      using fl f(2) by (auto simp: flows_ok_def add_flow_def nth_append less_Suc_eq split: if_splits)
  qed
  show "team_inv (add_flow f t)"
  proof (rule team_invI)
    show "queue_ok (add_flow f t)" using q owners by (simp add: queue_ok_def add_flow_def)
    show "flows_ok (add_flow f t)" by (rule flows)
    show "team_record_ok (add_flow f t)"
      using team_invD(3) [OF inv] by (simp add: team_record_ok_def add_flow_def record_closed_def must_record_def)
    show "creation_ok (add_flow f t)"
      using team_invD(4) [OF inv] f(3) by (auto simp: creation_ok_def add_flow_def)
    show "events_ok (add_flow f t)"
      using team_invD(5) [OF inv] by (simp add: events_ok_def add_flow_def must_record_def)
    show "team_log_ok (tm_log (add_flow f t))" using team_invD(6) [OF inv] by (simp add: add_flow_def)
    show "accepted (tm_log (add_flow f t)) = undone (tm_log (add_flow f t)) + of_bool (tm_dissolving (add_flow f t))"
      using team_invD(7) [OF inv] by (simp add: add_flow_def)
  qed
  show "unqueued (add_flow f t) (length (tm_flows t))"
    using q by (force simp: unqueued_def add_flow_def queue_ok_def owner_ok_def)
qed

lemma add_flow_at:
  "flow_at (add_flow f t) (length (tm_flows t)) = Some f"
  by (simp add: flow_at_def add_flow_def)

lemma team_publish_inv:
  assumes inv: "team_inv t"
  shows "team_inv (publish_team_state t)"
proof (cases "must_record t")
  case None
  then show ?thesis using inv by (simp add: publish_team_state_def)
next
  case (Some r)
  have ev: "events_ok (t\<lparr>tm_events := tm_events t @ [(tr_status r, tm_roster t)]\<rparr>)"
    using team_invD(5) [OF inv] Some by (auto simp: events_ok_def must_record_def sorted_append)
  show ?thesis
    using inv Some ev
    by (simp add: publish_team_state_def team_inv_def queue_ok_def flows_ok_def team_record_ok_def record_closed_def
        must_record_def creation_ok_def)
qed

lemma publish_unqueued [simp]: "unqueued (publish_team_state t) i = unqueued t i"
  by (simp add: publish_team_state_def unqueued_def split: option.splits)

lemma publish_parts [simp]:
  "tm_flows (publish_team_state t) = tm_flows t" "tm_log (publish_team_state t) = tm_log t"
  "tm_dissolving (publish_team_state t) = tm_dissolving t" "tm_leader (publish_team_state t) = tm_leader t"
  "tm_store (publish_team_state t) = tm_store t" "tm_queue (publish_team_state t) = tm_queue t"
  "tm_closed (publish_team_state t) = tm_closed t" "tm_creation (publish_team_state t) = tm_creation t"
  by (simp_all add: publish_team_state_def split: option.splits)

lemma roster_inv: "team_inv t \<Longrightarrow> team_inv (t\<lparr>tm_roster := x\<rparr>)"
  by (simp add: team_inv_def queue_ok_def flows_ok_def team_record_ok_def record_closed_def must_record_def
      creation_ok_def events_ok_def)

lemma remember_inv: "team_inv t \<Longrightarrow> team_inv (remember_member nm role status t)"
  by (simp add: remember_member_def roster_inv)

lemma remember_parts [simp]:
  "tm_flows (remember_member nm role s t) = tm_flows t" "tm_log (remember_member nm role s t) = tm_log t"
  "tm_queue (remember_member nm role s t) = tm_queue t" "tm_leader (remember_member nm role s t) = tm_leader t"
  "unqueued (remember_member nm role s t) i = unqueued t i" "flow_at (remember_member nm role s t) i = flow_at t i"
  by (simp_all add: remember_member_def unqueued_def flow_at_def)

lemma identity_inv: "team_inv t \<Longrightarrow> team_inv (publish_identity nm role status t)"
  by (simp add: publish_identity_def team_publish_inv remember_inv)

lemma leader_inv:
  assumes "team_inv t"
  shows "team_inv (t\<lparr>tm_leader := b \<or> tm_leader t\<rparr>)"
proof -
  have "flow_ok es d l i f \<Longrightarrow> flow_ok es d (b \<or> l) i f" for es d l i f
    by (auto simp: flow_ok_def split: team_flow.splits)
  then show ?thesis
    using assms
    by (simp add: team_inv_def queue_ok_def flows_ok_def team_record_ok_def record_closed_def must_record_def
        creation_ok_def events_ok_def)
qed

lemma title_inv: "team_inv t \<Longrightarrow> team_inv (title_changed title t)"
  by (auto simp: title_changed_def update_record_def queue_write_def no_update_def team_inv_def queue_ok_def
      flows_ok_def team_record_ok_def record_closed_def must_record_def creation_ok_def events_ok_def write_ok_def owner_ok_def)

subsection \<open>The operations\<close>

text \<open>A flow that has begun no closing, of which the log knows no child.\<close>

definition team_quiet :: "team_flow \<Rightarrow> bool" where
  "team_quiet f \<longleftrightarrow> (case f of Destroying _ _ \<Rightarrow> False | Cleaning _ \<Rightarrow> False | Clean_Write _ \<Rightarrow> False | Over _ \<Rightarrow> False
     | _ \<Rightarrow> True)"

lemma quiet_childless: "team_quiet f \<Longrightarrow> flow_ok es d l i f \<Longrightarrow> children_of i es = []"
  by (auto simp: team_quiet_def flow_ok_def split: team_flow.splits)

lemma quiet_ok: "team_quiet f \<Longrightarrow> \<not> pre_commit f \<Longrightarrow> children_of i es = [] \<Longrightarrow> flow_ok es d l i f"
  by (auto simp: team_quiet_def flow_ok_def pre_commit_def split: team_flow.splits)

lemma over_ok [simp]: "flow_ok es d l i (Over r)" "\<not> pre_commit (Over r)"
  by (simp_all add: flow_ok_def pre_commit_def)

lemma over_inv:
  assumes "team_inv t" "i < length (tm_flows t)" "unqueued t i"
  shows "team_inv (set_flow i (Over r) t)"
  using assms by (intro set_flow_inv) simp_all

lemma quiet_flow_inv:
  assumes "team_inv t" "i < length (tm_flows t)" "unqueued t i" "team_quiet (tm_flows t ! i)" "team_quiet f" "\<not> pre_commit f"
    "\<And>r. f \<noteq> Cn_Record r"
  shows "team_inv (set_flow i f t)"
proof -
  have "flow_ok (tm_log t) (tm_dissolving t) (tm_leader t) i (tm_flows t ! i)"
    using assms(1,2) by (simp add: team_inv_def flows_ok_def)
  then show ?thesis
    using assms quiet_childless [of "tm_flows t ! i"] by (intro set_flow_inv quiet_ok) auto
qed

lemma set_flow_parts [simp]:
  "tm_queue (set_flow i f t) = tm_queue t" "tm_log (set_flow i f t) = tm_log t"
  "tm_creation (set_flow i f t) = tm_creation t" "tm_store (set_flow i f t) = tm_store t"
  "must_record (set_flow i f t) = must_record t" "length (tm_flows (set_flow i f t)) = length (tm_flows t)"
  "tm_dissolving (set_flow i f t) = tm_dissolving t" "tm_leader (set_flow i f t) = tm_leader t"
  by (simp_all add: set_flow_def must_record_def)

lemma update_flow_inv:
  assumes "team_inv t" "i < length (tm_flows t)" "unqueued t i" "team_quiet (tm_flows t ! i)"
    and f: "team_quiet f" "pre_commit f \<Longrightarrow> pre_commit (tm_flows t ! i)" "\<And>r. f \<noteq> Cn_Record r" "waits_for_write f"
    and ok: "write_ok (tm_log t) \<lparr> qw_owner = Some i, qw_previous = map_option tr_status (must_record t), qw_update = u \<rparr>"
    and closes: "f \<in> {Ab_Write, Di_Write} \<longrightarrow> tu_status u = Some Ts_Closed"
  shows "team_inv (update_record (Some i) u (set_flow i f t))"
proof -
  have old: "flow_ok (tm_log t) (tm_dissolving t) (tm_leader t) i (tm_flows t ! i)"
    using assms(1,2) by (simp add: team_inv_def flows_ok_def)
  have "flow_ok (tm_log t) (tm_dissolving t) (tm_leader t) i f"
  proof (cases "pre_commit f")
    case True
    then have "f = Di_Write" using f(4) by (auto simp: pre_commit_def waits_for_write_def split: team_flow.splits)
    moreover have "tm_dissolving t"
      using old f(2) [OF True] by (auto simp: flow_ok_def pre_commit_def split: team_flow.splits)
    ultimately show ?thesis using quiet_childless [OF assms(4) old] by (simp add: flow_ok_def)
  next
    case False
    then show ?thesis using quiet_childless [OF assms(4) old] by (intro quiet_ok f)
  qed
  then show ?thesis
    unfolding update_record_def set_flow_parts using assms by (intro queue_flow_inv) auto
qed

lemma team_abandon_inv:
  assumes "team_inv t" "i < length (tm_flows t)" "unqueued t i" "team_quiet (tm_flows t ! i)"
  shows "team_inv (abandon_created i now t)"
proof -
  have "worktree_ok (cr_worktree (tm_creation t))"
    using team_invD(3) [OF assms(1)] by (simp add: team_record_ok_def)
  then show ?thesis
    unfolding abandon_created_def Let_def
    by (intro update_flow_inv assms)
      (auto simp: team_quiet_def pre_commit_def waits_for_write_def write_ok_def no_update_def worktree_ok_def filled_option_def)
qed

lemma fails_inv:
  assumes "team_inv t" "i < length (tm_flows t)" "unqueued t i" "team_quiet (tm_flows t ! i)"
  shows "team_inv (flow_fails i creating now e t)"
  using assms by (simp add: flow_fails_def team_abandon_inv over_inv)

lemma run_status_inv:
  assumes "team_inv t" "i < length (tm_flows t)" "unqueued t i" "team_quiet (tm_flows t ! i)"
    and "f = Cr_Running \<or> (\<exists>c a. f = Su_Write c a)"
  shows "team_inv (set_running i f t)"
  unfolding set_running_def
  using assms
  by (intro update_flow_inv) (auto simp: team_quiet_def pre_commit_def waits_for_write_def write_ok_def no_update_def)

lemma submission_done_inv:
  assumes "team_inv t" "i < length (tm_flows t)" "unqueued t i" "team_quiet (tm_flows t ! i)"
  shows "team_inv (submission_done i creating now a t)"
  using assms by (simp add: submission_done_def over_inv run_status_inv team_abandon_inv)

lemma open_now:
  assumes "team_inv t" and "assert_team_open t = None"
  shows "Ev_Closed \<notin> set (tm_log t) \<and> accepted (tm_log t) = undone (tm_log t)"
  using assms by (auto simp: assert_team_open_def team_inv_def team_record_ok_def record_closed_def split: if_splits option.splits)

lemma taken_inv:
  assumes "team_inv t" "i < length (tm_flows t)" "unqueued t i" "team_quiet (tm_flows t ! i)"
    and "assert_team_open t = None" and "team_quiet f" "\<not> pre_commit f" "\<And>r. f \<noteq> Cn_Record r"
  shows "team_inv (note_event Ev_Taken (set_flow i f t))"
proof (rule note_flow_inv)
  have "flow_ok (tm_log t) (tm_dissolving t) (tm_leader t) i (tm_flows t ! i)"
    using assms(1,2) by (simp add: team_inv_def flows_ok_def)
  then show "flow_ok (tm_log t @ [Ev_Taken]) (tm_dissolving t) (tm_leader t) i f"
    using assms quiet_childless by (intro quiet_ok) auto
  show "event_ok (tm_log t) Ev_Taken"
    using open_now [OF assms(1,5)] by (simp add: event_ok_def)
qed (use assms in \<open>auto simp: own_event_def\<close>)

lemma submit_flow_inv:
  assumes "team_inv t" "i < length (tm_flows t)" "unqueued t i" "team_quiet (tm_flows t ! i)"
  shows "team_inv (submit_flow i creating now t)"
proof (cases "assert_team_open t")
  case None
  then show ?thesis
    using assms fails_inv taken_inv [OF assms None, of "Su_Leader creating"]
    by (simp add: submit_flow_def team_quiet_def pre_commit_def)
next
  case (Some e)
  then show ?thesis using assms fails_inv by (simp add: submit_flow_def)
qed

lemma at_flow:
  assumes "team_inv t" "flow_at t i = Some f" "\<not> waits_for_write f" "team_quiet f"
  shows "team_inv t" "i < length (tm_flows t)" "unqueued t i" "team_quiet (tm_flows t ! i)"
  using assms inv_flow [OF assms(1,2)] unqueued_flow [OF assms(1,2)] by simp_all

lemmas flow_kinds = team_quiet_def pre_commit_def waits_for_write_def

lemma record_created_inv:
  assumes inv: "team_inv t"
  shows "team_inv (record_created i now ok t)"
proof (cases "\<exists>r. flow_at t i = Some (Cn_Record r)")
  case False
  then have "record_created i now ok t = t"
    by (auto simp: record_created_def split: option.splits team_flow.splits)
  then show ?thesis using inv by simp
next
  case True
  then obtain r where r: "flow_at t i = Some (Cn_Record r)" by blast
  let ?did = "tm_dispatcher t" and ?r = "r\<lparr>tr_team := tm_id t\<rparr>"
  note rec = team_invD(3) [OF inv]
  obtain x st where pub: "publish_record ?did now ?r ok (tm_store t) = (x, st)" by fastforce
  have "Cn_Record r \<in> set (tm_flows t)" using nth_mem [OF inv_flow(1) [OF inv r]] inv_flow(2) [OF inv r] by simp
  then have r_ok: "team_ok ?did (tm_id t) (new_record now ?r)" "tr_status (new_record now ?r) = Ts_Starting"
    using team_invD(4) [OF inv] by (auto simp: creation_ok_def new_record_def team_ok_def)
  obtain v where v: "slot (tm_store t) = Some v" using rec by (auto simp: team_record_ok_def)
  have same: "tm_store t\<lparr>slot := slot (tm_store t)\<rparr> = tm_store t" by simp
  have cases: "(st = tm_store t \<and> (\<forall>w. x \<noteq> Inr (Some w))) \<or>
      (v = None \<and> st = \<lparr>slot = Some (Some (new_record now ?r)), disk = Some (encode_slot (Some (new_record now ?r)))\<rparr>)"
    using pub v
    by (cases v; cases ok; cases "validate_team_id (tm_id t)")
      (auto simp: publish_record_def store_update_def store_load_def publish_change_def Let_def)
  have keep: "team_inv (t\<lparr>tm_store := st\<rparr>)"
    using cases
  proof
    assume "st = tm_store t \<and> (\<forall>w. x \<noteq> Inr (Some w))"
    then show ?thesis using inv by simp
  next
    assume new: "v = None \<and> st = \<lparr>slot = Some (Some (new_record now ?r)),
        disk = Some (encode_slot (Some (new_record now ?r)))\<rparr>"
    have reload: "load_team ?did (tm_id t) (Some (encode_slot (Some (new_record now ?r)))) = Inr (Some (new_record now ?r))"
      by (rule teams.load_enc) (simp add: slot_ok_def r_ok)
    have none: "must_record t = None" using new v by (simp add: must_record_def)
    have some: "must_record (t\<lparr>tm_store := st\<rparr>) = Some (new_record now ?r)"
      using new by (simp add: must_record_def)
    have no_force: "\<not> tr_force (new_record now ?r)" by (simp add: new_record_def)
    have "team_record_ok (t\<lparr>tm_store := st\<rparr>)"
      unfolding team_record_ok_def
      using rec new none some r_ok reload no_force
      by (auto simp: team_record_ok_def store_ok_def record_closed_def slot_ok_def)
    moreover have "events_ok (t\<lparr>tm_store := st\<rparr>)"
      using team_invD(5) [OF inv] none by (cases "tm_events t") (auto simp: events_ok_def)
    ultimately show ?thesis
      using inv by (simp add: team_inv_def queue_ok_def flows_ok_def creation_ok_def)
  qed
  have at: "flow_at (t\<lparr>tm_store := st\<rparr>) i = Some (Cn_Record r)" using r by (simp add: flow_at_def split: if_splits)
  note here = at_flow [OF keep at]
  have over: "team_inv (set_flow i (Over e) (t\<lparr>tm_store := st\<rparr>))" for e
    using here by (intro over_inv) (simp_all add: flow_kinds)
  have "team_inv (set_flow i Cn_Leader (t\<lparr>tm_store := st\<rparr>))"
    using here by (intro quiet_flow_inv) (simp_all add: flow_kinds)
  then show ?thesis
    using over r pub by (simp add: record_created_def team_publish_inv split: sum.splits option.splits)
qed

lemma create_leader_inv:
  assumes "team_inv t"
  shows "team_inv (snd (create_leader made t))"
proof (cases made)
  case (Some m)
  obtain nm status built where m: "m = (nm, status, built)" by (cases m)
  have "team_inv ((publish_identity nm Role_Leader status t)\<lparr>tm_leader := built \<or> tm_leader t\<rparr>)"
    using leader_inv [OF identity_inv [OF assms, of nm Role_Leader status], of built]
    by (simp add: publish_identity_def)
  then show ?thesis using Some m by (simp add: create_leader_def)
qed (use assms in \<open>simp add: create_leader_def\<close>)

lemma create_leader_parts:
  "flow_at (snd (create_leader made t)) i = flow_at t i"
  by (auto simp: create_leader_def flow_at_def publish_identity_def split: option.splits prod.splits)

lemma leader_created_inv:
  assumes inv: "team_inv t"
  shows "team_inv (leader_created i now made t)"
proof (cases "flow_at t i = Some Cn_Leader")
  case False
  then have "leader_created i now made t = t"
    by (auto simp: leader_created_def split: option.splits team_flow.splits)
  then show ?thesis using inv by simp
next
  case True
  obtain b t' where ct: "create_leader made t = (b, t')" by fastforce
  have t': "team_inv t'" "flow_at t' i = Some Cn_Leader"
    using create_leader_inv [OF inv, of made] create_leader_parts [of made t i] ct True by simp_all
  note here = at_flow [OF t']
  show ?thesis
  proof (cases b)
    case True
    then show ?thesis
      using \<open>flow_at t i = Some Cn_Leader\<close> ct here
        quiet_flow_inv [of t' i Cn_Ready] by (simp add: leader_created_def flow_kinds)
  next
    case False
    then show ?thesis
      using \<open>flow_at t i = Some Cn_Leader\<close> ct here team_abandon_inv [of t' i now]
      by (simp add: leader_created_def flow_kinds)
  qed
qed


lemma creation_refused_inv:
  assumes inv: "team_inv t"
  shows "team_inv (creation_refused i t)"
proof (cases "flow_at t i = Some Cn_Ready")
  case True
  from over_inv [OF inv at_flow(2,3) [OF inv True]] True show ?thesis
    by (simp add: creation_refused_def flow_kinds)
next
  case False
  then have "creation_refused i t = t"
    by (auto simp: creation_refused_def split: option.splits team_flow.splits)
  then show ?thesis using inv by simp
qed

lemma start_created_inv:
  assumes inv: "team_inv t"
  shows "team_inv (start_created i now t)"
proof (cases "flow_at t i = Some Cn_Ready")
  case True
  note here = at_flow [OF inv True]
  show ?thesis
    using True submit_flow_inv [of t i True now] run_status_inv [of t i Cn_Running] here
    by (simp add: start_created_def flow_kinds run_status_inv)
next
  case False
  then have "start_created i now t = t"
    by (auto simp: start_created_def split: option.splits team_flow.splits)
  then show ?thesis using inv by simp
qed

lemma submit_answers_inv:
  assumes inv: "team_inv t"
  shows "team_inv (submit_answers i now ans t)"
proof (cases "\<exists>c. flow_at t i = Some (Su_Leader c)")
  case True
  then obtain c where c: "flow_at t i = Some (Su_Leader c)" by blast
  note here = at_flow [OF inv c]
  show ?thesis
    using c here fails_inv [of t i c now Fr_Failed] submission_done_inv run_status_inv
    by (simp add: submit_answers_def flow_kinds split: option.split)
next
  case False
  then have "submit_answers i now ans t = t"
    by (auto simp: submit_answers_def split: option.splits team_flow.splits)
  then show ?thesis using inv by simp
qed

lemma admission_answers_inv:
  assumes inv: "team_inv t"
  shows "team_inv (admission_answers i now ok t)"
proof -
  consider (first) c where "flow_at t i = Some (Ad_Workflows c)" | (second) c where "flow_at t i = Some (Ad_Scheduler c)"
    | (none) "admission_answers i now ok t = t"
    by (cases "flow_at t i"; cases "the (flow_at t i)") (auto simp: admission_answers_def)
  then show ?thesis
  proof cases
    case first
    note here = at_flow [OF inv first]
    show ?thesis
      using first here fails_inv [of t i c now Fr_Failed] quiet_flow_inv [of t i "Ad_Scheduler c"]
      by (simp add: admission_answers_def flow_kinds)
  next
    case second
    note here = at_flow [OF inv second]
    show ?thesis
      using second here fails_inv [of t i c now Fr_Failed] over_inv [of t i Fr_Ok]
      by (simp add: admission_answers_def flow_kinds)
  qed (use inv in simp)
qed

lemma rebuild_opens_inv:
  assumes inv: "team_inv t"
  shows "team_inv (rebuild_opens i members aligned made t)"
proof (cases "flow_at t i = Some Rb_Leader")
  case True
  define t1 where "t1 = fold (\<lambda>(nm, status). remember_member nm Role_Teammate status) members t"
  have t1: "team_inv s \<Longrightarrow> flow_at s i = Some Rb_Leader \<Longrightarrow>
      team_inv (fold (\<lambda>(nm, status). remember_member nm Role_Teammate status) ms s) \<and>
      flow_at (fold (\<lambda>(nm, status). remember_member nm Role_Teammate status) ms s) i = Some Rb_Leader" for ms s
    by (induction ms arbitrary: s) (auto simp: remember_inv)
  have t1: "team_inv t1" "flow_at t1 i = Some Rb_Leader"
    using t1 [OF inv True, of members] by (simp_all add: t1_def)
  have opened: "team_inv ((remember_member nm Role_Leader status t1)\<lparr>tm_leader := b \<or> tm_leader t1\<rparr>)" for nm status b
    using leader_inv [OF remember_inv [OF t1(1), of nm Role_Leader status], of b] by simp
  obtain b t2 where t2: "(if aligned then (case made of None \<Rightarrow> (False, t1)
        | Some (nm, status, built) \<Rightarrow>
            (built, (remember_member nm Role_Leader status t1)\<lparr>tm_leader := built \<or> tm_leader t1\<rparr>))
      else create_leader made t1) = (b, t2)" by fastforce
  have inv2: "team_inv t2" "flow_at t2 i = Some Rb_Leader"
    using t2 t1 opened create_leader_inv [OF t1(1), of made] create_leader_parts [of made t1 i]
    by (auto simp: flow_at_def remember_member_def split: if_splits option.splits)
  note here = at_flow [OF inv2]
  have "rebuild_opens i members aligned made t = set_flow i (if b then Rb_Recover else Over Fr_Failed) t2"
    using True t2 by (simp add: rebuild_opens_def t1_def [symmetric] Let_def)
  then show ?thesis
    using here over_inv [of t2 i Fr_Failed] quiet_flow_inv [of t2 i Rb_Recover] by (simp add: flow_kinds)
next
  case False
  then have "rebuild_opens i members aligned made t = t"
    by (auto simp: rebuild_opens_def split: option.splits team_flow.splits)
  then show ?thesis using inv by simp
qed

lemma rebuild_recovers_inv:
  assumes inv: "team_inv t"
  shows "team_inv (rebuild_recovers i ok t)"
proof (cases "flow_at t i = Some Rb_Recover")
  case True
  then show ?thesis
    using at_flow [OF inv True] over_inv [of t i] by (simp add: rebuild_recovers_def flow_kinds)
next
  case False
  then have "rebuild_recovers i ok t = t"
    by (auto simp: rebuild_recovers_def split: option.splits team_flow.splits)
  then show ?thesis using inv by simp
qed

lemma new_flow_inv:
  assumes inv: "team_inv t" and f: "team_quiet f" "\<not> pre_commit f" "\<And>r. f \<noteq> Cn_Record r"
  shows "team_inv (add_flow f t)" "length (tm_flows t) < length (tm_flows (add_flow f t))"
    "unqueued (add_flow f t) (length (tm_flows t))" "team_quiet (tm_flows (add_flow f t) ! length (tm_flows t))"
proof -
  have plain: "f \<noteq> Destroying k c" for k c using f by (auto simp: team_quiet_def)
  have ok: "flow_ok [] False False (length (tm_flows t)) f" by (rule quiet_ok [OF f(1,2)]) simp
  note add = add_flow_inv [OF inv ok f(2,3) plain]
  show "team_inv (add_flow f t)" "unqueued (add_flow f t) (length (tm_flows t))" by (rule add(1), rule add(2))
  show "length (tm_flows t) < length (tm_flows (add_flow f t))"
    "team_quiet (tm_flows (add_flow f t) ! length (tm_flows t))"
    using f by (simp_all add: add_flow_def)
qed

lemma add_over_inv: "team_inv t \<Longrightarrow> team_inv (add_flow (Over r) t)"
  by (rule add_flow_inv) simp_all

lemma start_admissions_inv: "team_inv t \<Longrightarrow> team_inv (start_admissions t)"
  unfolding start_admissions_def by (rule new_flow_inv(1)) (simp_all add: flow_kinds)

lemma submit_team_input_inv: "team_inv t \<Longrightarrow> team_inv (submit_team_input now t)"
  unfolding submit_team_input_def
  using new_flow_inv [of t "Su_Leader False"] by (intro submit_flow_inv) (simp_all add: flow_kinds)

lemma ask_leader_inv:
  assumes "team_inv t" "i < length (tm_flows t)" "unqueued t i" "team_quiet (tm_flows t ! i)"
    and "team_quiet f" "\<not> pre_commit f" "\<And>r. f \<noteq> Cn_Record r"
  shows "team_inv (ask_leader i f refusal t)"
  using assms taken_inv [of t i f] by (simp add: ask_leader_def over_inv split: option.split)

lemma team_prepare_inv: "team_inv t \<Longrightarrow> team_inv (prepare_team_completion t)"
  unfolding prepare_team_completion_def
  using new_flow_inv [of t Pc_Prepare] by (intro ask_leader_inv) (simp_all add: flow_kinds)

lemma interrupt_inv: "team_inv t \<Longrightarrow> team_inv (interrupt_leader t)"
  unfolding interrupt_leader_def
  using new_flow_inv [of t In_Interrupt] by (intro ask_leader_inv) (simp_all add: flow_kinds)

lemma leader_answers_inv:
  assumes inv: "team_inv t"
  shows "team_inv (leader_answers i ok t)"
proof -
  consider (prepared) "flow_at t i = Some Pc_Prepare" | (submitted) "flow_at t i = Some Pc_Submit"
    | (interrupted) "flow_at t i = Some In_Interrupt" | (none) "leader_answers i ok t = t"
    by (cases "flow_at t i"; cases "the (flow_at t i)") (auto simp: leader_answers_def)
  then show ?thesis
  proof cases
    case prepared
    then show ?thesis
      using at_flow [OF inv prepared] over_inv [of t i Fr_Failed] quiet_flow_inv [of t i Pc_Ready]
      by (simp add: leader_answers_def flow_kinds)
  next
    case submitted
    then show ?thesis
      using at_flow [OF inv submitted] quiet_flow_inv [of t i Pc_Ready]
      by (simp add: leader_answers_def flow_kinds)
  next
    case interrupted
    then show ?thesis
      using at_flow [OF inv interrupted] over_inv [of t i] by (simp add: leader_answers_def flow_kinds)
  qed (use inv in simp)
qed

lemma submit_prepared_inv:
  assumes inv: "team_inv t"
  shows "team_inv (submit_prepared i t)"
proof (cases "flow_at t i = Some Pc_Ready \<and> assert_team_open t = None")
  case True
  then show ?thesis
    using at_flow [OF inv, of i Pc_Ready] taken_inv [of t i Pc_Submit]
    by (simp add: submit_prepared_def flow_kinds)
next
  case False
  then have "submit_prepared i t = t"
    by (auto simp: submit_prepared_def split: option.splits team_flow.splits)
  then show ?thesis using inv by simp
qed


subsection \<open>Closing\<close>

lemma settle_cleanup_inv:
  assumes "team_inv t" "i < length (tm_flows t)" "unqueued t i" "Ev_Over i l \<in> set (tm_log t)"
  shows "team_inv (settle_team_worktree_cleanup i k t)"
proof (cases "\<exists>r. must_record t = Some r \<and> wt_state (tr_worktree r) = Cleanup_Pending")
  case True
  then obtain r where r: "must_record t = Some r" "wt_state (tr_worktree r) = Cleanup_Pending" by blast
  have "tr_force r \<Longrightarrow> Ev_Accepted True \<in> set (tm_log t)"
    using team_invD(3) [OF assms(1)] r by (simp add: team_record_ok_def)
  moreover have "Ev_Over i True \<in> set (tm_log t) \<or> Ev_Over i False \<in> set (tm_log t)"
    using assms(4) by (cases l) simp_all
  ultimately have ev: "event_ok (tm_log t) (Ev_Cleanup i (tr_force r))" by (simp add: event_ok_def)
  have "team_inv (note_event (Ev_Cleanup i (tr_force r)) (set_flow i (Cleaning k) t))"
    using assms ev by (intro note_flow_inv) (simp_all add: flow_ok_def pre_commit_def own_event_def)
  then show ?thesis using r by (simp add: settle_team_worktree_cleanup_def)
next
  case False
  then have "settle_team_worktree_cleanup i k t = set_flow i (Over (closing_result k)) t"
    by (auto simp: settle_team_worktree_cleanup_def split: option.splits)
  then show ?thesis using over_inv assms by simp
qed

lemma destroy_inv:
  assumes "team_inv t" "i < length (tm_flows t)" "unqueued t i" "team_quiet (tm_flows t ! i)"
    and "k = By_Abandon False \<or> Ev_Closed \<in> set (tm_log t)"
  shows "team_inv (destroy_children i k t)"
proof -
  have "flow_ok (tm_log t) (tm_dissolving t) (tm_leader t) i (tm_flows t ! i)"
    using assms(1,2) by (simp add: team_inv_def flows_ok_def)
  from quiet_childless [OF assms(4) this] have none: "children_of i (tm_log t) = []" .
  have "children_of i (since_closed (tm_log t)) = []"
  proof -
    have "children_of i es = [] \<Longrightarrow> children_of i (since_closed es) = []" for es
      by (induction es) (auto simp: since_closed_def children_of_def split: team_event.splits if_splits)
    then show ?thesis using none by blast
  qed
  then show ?thesis
    unfolding destroy_children_def
    using assms none
    by (intro note_flow_inv) (auto simp: flow_ok_def pre_commit_def own_event_def event_ok_def since_closed_snoc)
qed

lemma close_inv:
  assumes inv: "team_inv t" and at: "flow_at t i = Some (Destroying k c)"
    and last_child: "child_after (tm_leader t) c = None" and k: "k \<noteq> By_Abandon False"
  shows "team_inv (close_from_record i t)" "unqueued (close_from_record i t) i"
    "i < length (tm_flows (close_from_record i t))"
    "Ev_Over i (tm_leader t) \<in> set (tm_log (close_from_record i t))"
proof -
  note fl = inv_flow [OF inv at]
  have unq: "unqueued t i" by (rule unqueued_flow [OF inv at]) (simp add: waits_for_write_def)
  have done_all: "Ev_Closed \<in> set (tm_log t)" "children_of i (tm_log t) = reached c"
      "children_of i (since_closed (tm_log t)) = reached c" "c = Ch_Leader \<longrightarrow> tm_leader t"
    using fl(3) k by (simp_all add: flow_ok_def)
  have ev: "event_ok (tm_log t) (Ev_Over i (tm_leader t))"
    using done_all child_after_None [OF last_child] by (simp add: event_ok_def)
  have form: "close_from_record i t = t\<lparr>tm_flows := (tm_flows t)[i := Destroying k c], tm_queue := tm_queue t @ [],
      tm_log := tm_log t @ [Ev_Over i (tm_leader t)], tm_closed := True\<rparr>"
  proof -
    have "(tm_flows t)[i := Destroying k c] = tm_flows t"
      using fl(1,2) list_update_id [of "tm_flows t" i] by simp
    then show ?thesis by (cases t) (simp add: close_from_record_def note_event_def)
  qed
  have same: "flow_ok (tm_log t @ [Ev_Over i (tm_leader t)]) (tm_dissolving t) (tm_leader t) i (Destroying k c)"
    using done_all by (simp add: flow_ok_def since_closed_snoc)
  show "team_inv (close_from_record i t)"
    unfolding form using inv fl unq ev same done_all
    by (intro flow_step) (simp_all add: own_event_def pre_commit_def team_inv_def)
  show "unqueued (close_from_record i t) i" "i < length (tm_flows (close_from_record i t))"
      "Ev_Over i (tm_leader t) \<in> set (tm_log (close_from_record i t))"
    using unq fl by (simp_all add: close_from_record_def note_event_def unqueued_def)
qed

lemma child_settles_inv:
  assumes inv: "team_inv t"
  shows "team_inv (child_settles i t)"
proof (cases "\<exists>k c. flow_at t i = Some (Destroying k c)")
  case False
  then have "child_settles i t = t"
    by (cases "flow_at t i"; cases "the (flow_at t i)") (auto simp: child_settles_def)
  then show ?thesis using inv by simp
next
  case True
  then obtain k c where at: "flow_at t i = Some (Destroying k c)" by blast
  note fl = inv_flow [OF inv at]
  have unq: "unqueued t i" by (rule unqueued_flow [OF inv at]) (simp add: waits_for_write_def)
  consider (more) d where "child_after (tm_leader t) c = Some d"
    | (failed) "child_after (tm_leader t) c = None" "k = By_Abandon False"
    | (ended) "child_after (tm_leader t) c = None" "k \<noteq> By_Abandon False"
    by (cases "child_after (tm_leader t) c") auto
  then show ?thesis
  proof cases
    case more
    have "team_inv (note_event (Ev_Child i d) (set_flow i (Destroying k d) t))"
      using inv fl unq child_after_Some [OF more]
      by (intro note_flow_inv) (auto simp: flow_ok_def pre_commit_def own_event_def event_ok_def since_closed_snoc)
    then show ?thesis using at more by (simp add: child_settles_def)
  next
    case failed
    then show ?thesis using at over_inv [OF inv fl(1) unq] by (simp add: child_settles_def)
  next
    case ended
    note cl = close_inv [OF inv at ended]
    show ?thesis
      using at ended settle_cleanup_inv [OF cl(1,3,2,4)] by (simp add: child_settles_def)
  qed
qed

lemma cleanup_answers_inv:
  assumes inv: "team_inv t" and ok: "\<And>w. cleaned = Some w \<Longrightarrow> worktree_ok (w\<lparr>wt_error := None\<rparr>)"
  shows "team_inv (cleanup_answers i cleaned t)"
proof (cases "\<exists>k. flow_at t i = Some (Cleaning k)")
  case False
  then have "cleanup_answers i cleaned t = t"
    by (cases "flow_at t i"; cases "the (flow_at t i)") (auto simp: cleanup_answers_def)
  then show ?thesis using inv by simp
next
  case True
  then obtain k where at: "flow_at t i = Some (Cleaning k)" by blast
  note fl = inv_flow [OF inv at]
  have unq: "unqueued t i" by (rule unqueued_flow [OF inv at]) (simp add: waits_for_write_def)
  note over = over_inv [OF inv fl(1) unq]
  show ?thesis
  proof (cases "\<exists>w. cleaned = Some w \<and> wt_state w \<noteq> Retained_Error")
    case False
    then have "cleanup_answers i cleaned t = set_flow i (Over (closing_result k)) t"
      using at by (auto simp: cleanup_answers_def split: option.splits)
    then show ?thesis using over by simp
  next
    case True
    then obtain w where w: "cleaned = Some w" "wt_state w \<noteq> Retained_Error" by blast
    have "team_inv (queue_write (Some i) None
        (no_update\<lparr>tu_worktree := Some (w\<lparr>wt_error := None\<rparr>), tu_force := Some False\<rparr>) (set_flow i (Clean_Write k) t))"
      using inv fl unq ok [OF w(1)]
      by (intro queue_flow_inv) (simp_all add: flow_ok_def pre_commit_def waits_for_write_def write_ok_def no_update_def)
    then show ?thesis using at w by (simp add: cleanup_answers_def)
  qed
qed


subsection \<open>Dissolve\<close>

lemma flows_okD: "flows_ok t \<Longrightarrow> j < length (tm_flows t) \<Longrightarrow>
    flow_ok (tm_log t) (tm_dissolving t) (tm_leader t) j (tm_flows t ! j)"
  by (simp add: flows_ok_def)

lemma pre_commit_dissolving: "flow_ok es d l i f \<Longrightarrow> pre_commit f \<Longrightarrow> d"
  by (cases f) (simp_all add: flow_ok_def pre_commit_def)

lemma flow_ok_accepted: "flow_ok lg d l j f \<Longrightarrow> flow_ok (lg @ [Ev_Accepted b]) True l j f"
  by (cases f) (auto simp: flow_ok_def since_closed_snoc)

lemma flow_ok_undone: "flow_ok lg d l j f \<Longrightarrow> \<not> pre_commit f \<Longrightarrow> flow_ok (lg @ [Ev_Undone]) False l j f"
  by (cases f) (auto simp: flow_ok_def pre_commit_def since_closed_snoc)

lemma accept_inv:
  assumes inv: "team_inv t" and i: "i < length (tm_flows t)" "unqueued t i" and idle: "\<not> tm_dissolving t"
  shows "team_inv (accept_dissolve i cmd t)"
proof (rule team_invI)
  let ?t = "accept_dissolve i cmd t"
  let ?fs = "(tm_flows t)[i := Over Fr_Receipt] @ [Di_Assess cmd]" and ?lg = "tm_log t @ [Ev_Accepted (dc_force cmd)]"
  have parts: "tm_flows ?t = ?fs" "tm_log ?t = ?lg" "tm_queue ?t = tm_queue t" "tm_dissolving ?t"
      "tm_leader ?t = tm_leader t" "tm_store ?t = tm_store t" "tm_closed ?t = tm_closed t" "tm_events ?t = tm_events t"
      "tm_creation ?t = tm_creation t" "tm_dispatcher ?t = tm_dispatcher t" "tm_id ?t = tm_id t"
      "must_record ?t = must_record t"
    by (simp_all add: accept_dissolve_def note_event_def add_flow_def set_flow_def must_record_def)
  note q = team_invD(1) [OF inv] and fl = team_invD(2) [OF inv] and rec = team_invD(3) [OF inv]
  have "owner_ok ?fs w" if "w \<in> set (tm_queue t)" for w
  proof -
    have "qw_owner w \<noteq> Some i" using i(2) that by (force simp: unqueued_def)
    then show ?thesis using q that i by (auto simp: queue_ok_def owner_ok_def nth_append nth_list_update)
  qed
  moreover have "write_ok ?lg w" if "w \<in> set (tm_queue t)" for w
    using q that write_ok_mono [of "tm_log t" w ?lg] by (auto simp: queue_ok_def)
  ultimately show "queue_ok ?t"
    using q by (simp add: queue_ok_def parts)
  have no_pre: "\<not> pre_commit (tm_flows t ! j)" if "j < length (tm_flows t)" for j
    using pre_commit_dissolving [OF flows_okD [OF fl that]] idle by blast
  have kept: "flow_ok ?lg True (tm_leader t) j (tm_flows t ! j)" if "j < length (tm_flows t)" for j
    by (rule flow_ok_accepted [OF flows_okD [OF fl that]])
  show "flows_ok ?t"
    unfolding flows_ok_def parts
  proof (intro conjI allI impI)
    fix j assume j: "j < length ?fs"
    then consider "j = i" | "j = length (tm_flows t)" | "j \<noteq> i" "j < length (tm_flows t)" using i by fastforce
    then show "flow_ok ?lg (tm_dissolving ?t) (tm_leader t) j (?fs ! j)"
    proof cases
      case 1
      then show ?thesis using i by (simp add: nth_append)
    next
      case 2
      then show ?thesis using fl parts(4) by (simp add: flow_ok_def nth_append flows_ok_def)
    next
      case 3
      then show ?thesis using kept parts(4) by (simp add: nth_append)
    qed
  next
    fix j assume "length ?fs \<le> j"
    then show "children_of j ?lg = []" using fl by (simp add: flows_ok_def)
  next
    fix j k assume jk: "j < length ?fs" "k < length ?fs" "pre_commit (?fs ! j)" "pre_commit (?fs ! k)"
    have "m = length (tm_flows t)" if "m < length ?fs" "pre_commit (?fs ! m)" for m
    proof (rule ccontr)
      assume "m \<noteq> length (tm_flows t)"
      then have m: "m < length (tm_flows t)" using that(1) by simp
      show False using that(2) m no_pre [OF m] by (cases "m = i") (simp_all add: nth_append)
    qed
    from this [OF jk(1,3)] this [OF jk(2,4)] show "j = k" by simp
  qed
  show "team_record_ok ?t"
    using rec by (auto simp: team_record_ok_def parts record_closed_def)
  show "creation_ok ?t"
    using team_invD(4) [OF inv] by (auto simp: creation_ok_def parts dest!: set_update_subset_insert [THEN subsetD])
  show "events_ok ?t"
    using team_invD(5) [OF inv] by (simp add: events_ok_def parts)
  show "team_log_ok (tm_log ?t)"
    using team_invD(6,7) [OF inv] idle by (simp add: parts event_ok_def)
  show "accepted (tm_log ?t) = undone (tm_log ?t) + of_bool (tm_dissolving ?t)"
    using team_invD(7) [OF inv] idle by (simp add: parts)
qed

lemma undo_inv:
  assumes inv: "team_inv t" and i: "i < length (tm_flows t)" "unqueued t i" and pre: "pre_commit (tm_flows t ! i)"
  shows "team_inv (undo_dissolve i t)"
proof (rule team_invI)
  let ?t = "undo_dissolve i t"
  let ?fs = "(tm_flows t)[i := Over Fr_Failed]" and ?lg = "tm_log t @ [Ev_Undone]"
  have parts: "tm_flows ?t = ?fs" "tm_log ?t = ?lg" "tm_queue ?t = tm_queue t" "\<not> tm_dissolving ?t"
      "tm_leader ?t = tm_leader t" "tm_store ?t = tm_store t" "tm_closed ?t = tm_closed t" "tm_events ?t = tm_events t"
      "tm_creation ?t = tm_creation t" "tm_dispatcher ?t = tm_dispatcher t" "tm_id ?t = tm_id t"
      "must_record ?t = must_record t"
    by (simp_all add: undo_dissolve_def note_event_def set_flow_def must_record_def)
  note q = team_invD(1) [OF inv] and fl = team_invD(2) [OF inv] and rec = team_invD(3) [OF inv]
  have diss: "tm_dissolving t"
    by (rule pre_commit_dissolving [OF flows_okD [OF fl i(1)] pre])
  have "owner_ok ?fs w" if "w \<in> set (tm_queue t)" for w
  proof -
    have "qw_owner w \<noteq> Some i" using i(2) that by (force simp: unqueued_def)
    then show ?thesis using q that by (auto simp: queue_ok_def owner_ok_def nth_list_update)
  qed
  moreover have "write_ok ?lg w" if "w \<in> set (tm_queue t)" for w
    using q that write_ok_mono [of "tm_log t" w ?lg] by (auto simp: queue_ok_def)
  ultimately show "queue_ok ?t"
    using q by (simp add: queue_ok_def parts)
  have others: "\<not> pre_commit (tm_flows t ! j)" if "j < length (tm_flows t)" "j \<noteq> i" for j
    using fl that i(1) pre by (auto simp: flows_ok_def)
  have kept: "flow_ok ?lg False (tm_leader t) j (tm_flows t ! j)" if "j < length (tm_flows t)" "j \<noteq> i" for j
    by (rule flow_ok_undone [OF flows_okD [OF fl that(1)] others [OF that]])
  show "flows_ok ?t"
    unfolding flows_ok_def parts
  proof (intro conjI allI impI)
    fix j assume "j < length ?fs"
    then show "flow_ok ?lg (tm_dissolving ?t) (tm_leader t) j (?fs ! j)"
      using kept parts(4) by (cases "j = i") simp_all
  next
    fix j assume "length ?fs \<le> j"
    then show "children_of j ?lg = []" using fl by (simp add: flows_ok_def)
  next
    fix j k assume "j < length ?fs" "k < length ?fs" "pre_commit (?fs ! j)" "pre_commit (?fs ! k)"
    then show "j = k" using others by (cases "j = i"; cases "k = i") auto
  qed
  show "team_record_ok ?t"
    using rec by (auto simp: team_record_ok_def parts record_closed_def)
  show "creation_ok ?t"
    using team_invD(4) [OF inv] by (auto simp: creation_ok_def parts dest!: set_update_subset_insert [THEN subsetD])
  show "events_ok ?t"
    using team_invD(5) [OF inv] by (simp add: events_ok_def parts)
  show "team_log_ok (tm_log ?t)"
    using team_invD(6,7) [OF inv] diss by (simp add: parts event_ok_def)
  show "accepted (tm_log ?t) = undone (tm_log ?t) + of_bool (tm_dissolving ?t)"
    using team_invD(7) [OF inv] diss by (simp add: parts)
qed

lemma dissolve_inv:
  assumes inv: "team_inv t"
  shows "team_inv (dissolve cmd t)"
proof -
  have q: "team_quiet (Dq_Assess cmd)" "\<not> pre_commit (Dq_Assess cmd)" by (simp_all add: flow_kinds)
  note new = new_flow_inv [OF inv q] 
  have "\<not> tm_dissolving t \<Longrightarrow> \<not> tm_dissolving (add_flow (Dq_Assess cmd) t)" by (simp add: add_flow_def)
  then show ?thesis
    using new accept_inv [of "add_flow (Dq_Assess cmd) t" "length (tm_flows t)" cmd] add_over_inv [OF inv]
    by (simp add: dissolve_def)
qed

lemma asked_inv: "team_inv t \<Longrightarrow> team_inv (asked_to_dissolve cmd t)"
  by (simp add: asked_to_dissolve_def dissolve_inv add_over_inv split: option.split)

lemma precheck_inv:
  assumes inv: "team_inv t"
  shows "team_inv (precheck_answers i ans t)"
proof (cases "\<exists>cmd. flow_at t i = Some (Dq_Assess cmd)")
  case False
  then have "precheck_answers i ans t = t"
    by (cases "flow_at t i"; cases "the (flow_at t i)") (auto simp: precheck_answers_def)
  then show ?thesis using inv by simp
next
  case True
  then obtain cmd where at: "flow_at t i = Some (Dq_Assess cmd)" by blast
  note here = at_flow [OF inv at]
  show ?thesis
    using at here over_inv [of t i] accept_inv [of t i cmd]
    by (simp add: precheck_answers_def flow_kinds split: option.split assessment.split)
qed

lemma assessed_inv:
  assumes inv: "team_inv t" and ok: "\<And>w. ans = Some (As_Terminal w) \<Longrightarrow> worktree_ok w"
  shows "team_inv (dissolve_assessed i now ans t)"
proof (cases "\<exists>cmd. flow_at t i = Some (Di_Assess cmd)")
  case False
  then have "dissolve_assessed i now ans t = t"
    by (cases "flow_at t i"; cases "the (flow_at t i)") (auto simp: dissolve_assessed_def)
  then show ?thesis using inv by simp
next
  case True
  then obtain cmd where at: "flow_at t i = Some (Di_Assess cmd)" by blast
  note here = at_flow [OF inv at] and fl = inv_flow [OF inv at]
  have undo: "team_inv (undo_dissolve i t)"
    using here fl by (intro undo_inv) (simp_all add: flow_kinds)
  show ?thesis
  proof (cases "ans = None \<or> must_record t = None")
    case True
    then show ?thesis using at undo by (auto simp: dissolve_assessed_def split: option.splits)
  next
    case False
    then obtain a r where ar: "ans = Some a" "must_record t = Some r" by auto
    have "team_ok (tm_dispatcher t) (tm_id t) r"
      using team_invD(3) [OF inv] ar(2)
      by (auto simp: team_record_ok_def store_ok_def must_record_def slot_ok_def split: option.splits)
    then have wt: "worktree_ok (tr_worktree r)" by (simp add: team_ok_def)
    have "write_ok (tm_log t) \<lparr> qw_owner = Some i, qw_previous = p, qw_update = dissolve_record_patch now cmd a r \<rparr>" for p
      using wt fl(3) ok ar(1)
      by (auto simp: write_ok_def dissolve_record_patch_def Let_def no_update_def worktree_ok_def filled_option_def
          flow_ok_def split: assessment.splits)
    then have "team_inv (update_record (Some i) (dissolve_record_patch now cmd a r) (set_flow i Di_Write t))"
      using here fl
      by (intro update_flow_inv) (simp_all add: flow_kinds dissolve_record_patch_def Let_def)
    then show ?thesis using at ar by (simp add: dissolve_assessed_def)
  qed
qed


subsection \<open>Record writes\<close>

lemma flow_ok_closed: "flow_ok lg d l j f \<Longrightarrow> flow_ok (lg @ [Ev_Closed]) d l j f"
  by (cases f) (auto simp: flow_ok_def since_closed_snoc)

lemma merge_cases:
  assumes "slot st = Some v"
  obtains (failed) e where "merge_record did tid now u ok st = (Inl e, st)"
  | (landed) r where "v = Some r" "merge_record did tid now u ok st =
      (Inr (Some (merged now u r)),
       \<lparr>slot = Some (Some (merged now u r)), disk = Some (encode_slot (Some (merged now u r)))\<rparr>)"
proof -
  have load: "store_load (load_team did tid) st = (Inr v, st)" using assms by (simp add: store_load_def)
  show thesis
  proof (cases v)
    case None
    then show thesis using load failed by (simp add: merge_record_def store_update_def merge_change_def)
  next
    case (Some r)
    then show thesis
      using load failed landed [of r] by (cases ok) (simp_all add: merge_record_def store_update_def merge_change_def)
  qed
qed

lemma team_dequeue_inv:
  assumes inv: "team_inv t" and queue: "tm_queue t = w # ws"
  shows "team_inv (t\<lparr>tm_queue := ws\<rparr>)" "qw_owner w = Some i \<Longrightarrow> unqueued (t\<lparr>tm_queue := ws\<rparr>) i"
proof -
  show "team_inv (t\<lparr>tm_queue := ws\<rparr>)"
    using inv queue
    by (auto simp: team_inv_def queue_ok_def flows_ok_def team_record_ok_def record_closed_def must_record_def
        creation_ok_def events_ok_def split: if_splits)
  show "unqueued (t\<lparr>tm_queue := ws\<rparr>) i" if "qw_owner w = Some i"
    using team_invD(1) [OF inv] queue that by (auto simp: queue_ok_def unqueued_def)
qed

lemma merged_rank:
  assumes "tu_status u \<noteq> Some Ts_Starting"
  shows "status_rank (tr_status r) \<le> status_rank (tr_status (merged now u r))"
proof (cases "tu_status u")
  case None
  then show ?thesis by (simp add: merged_def Let_def)
next
  case (Some s)
  then show ?thesis
    using assms by (cases "tr_status r"; cases s) (simp_all add: merged_def Let_def status_rank_def)
qed

lemma merged_closed_iff:
  "tr_status (merged now u r) = Ts_Closed \<longleftrightarrow> tr_status r = Ts_Closed \<or> tu_status u = Some Ts_Closed"
  by (cases "tu_status u") (auto simp: merged_def Let_def)

lemma team_commit_inv:
  assumes inv: "team_inv t" and r: "must_record t = Some r" and w: "write_ok (tm_log t) w"
    and u: "u = qw_update w" and m: "m = merged now u r"
    and es: "es = (if tu_status u = Some Ts_Closed then [Ev_Closed] else [])"
  shows "team_inv (t\<lparr>tm_store := \<lparr>slot = Some (Some m), disk = Some (encode_slot (Some m))\<rparr>,
    tm_log := tm_log t @ es\<rparr>)"
proof (rule team_invI)
  let ?t = "t\<lparr>tm_store := \<lparr>slot = Some (Some m), disk = Some (encode_slot (Some m))\<rparr>, tm_log := tm_log t @ es\<rparr>"
  note q = team_invD(1) [OF inv] and fl = team_invD(2) [OF inv] and rec = team_invD(3) [OF inv]
  have sub: "set (tm_log t) \<subseteq> set (tm_log t @ es)" by simp
  have "write_ok (tm_log t @ es) x" if "x \<in> set (tm_queue t)" for x
    using q that write_ok_mono [OF _ sub] by (simp add: queue_ok_def)
  then show "queue_ok ?t" using q by (simp add: queue_ok_def)
  have "flow_ok (tm_log t @ es) (tm_dissolving t) (tm_leader t) j (tm_flows t ! j)" if "j < length (tm_flows t)" for j
    using flows_okD [OF fl that] es by (simp add: flow_ok_closed)
  moreover have "children_of j (tm_log t @ es) = children_of j (tm_log t)" for j
    using es by simp
  ultimately show "flows_ok ?t" using fl by (simp add: flows_ok_def)
  have m_rec: "must_record ?t = Some m" by (simp add: must_record_def)
  have r_ok: "team_ok (tm_dispatcher t) (tm_id t) r"
    using rec r by (auto simp: team_record_ok_def store_ok_def must_record_def slot_ok_def split: option.splits)
  have m_ok: "team_ok (tm_dispatcher t) (tm_id t) m"
    unfolding m using w by (intro merged_team_ok [OF r_ok, of now u True]) (auto simp: team_op_ok_def write_ok_def u split: option.splits)
  have reload: "load_team (tm_dispatcher t) (tm_id t) (Some (encode_slot (Some m))) = Inr (Some m)"
    by (rule teams.load_enc) (simp add: slot_ok_def m_ok)
  have closed: "tr_status m = Ts_Closed \<longleftrightarrow> Ev_Closed \<in> set (tm_log t @ es)"
    using rec r es merged_closed_iff [of now u r] by (simp add: m team_record_ok_def record_closed_def)
  have force: "Ev_Accepted True \<in> set (tm_log t)" if "tr_force m"
  proof (cases "tu_force u")
    case None
    then have "tr_force r" using that by (simp add: m merged_def Let_def)
    then show ?thesis using rec r by (simp add: team_record_ok_def)
  next
    case (Some b)
    then have "tu_force u = Some True" using that by (simp add: m merged_def Let_def)
    then show ?thesis using w u by (simp add: write_ok_def)
  qed
  show "team_record_ok ?t"
    unfolding team_record_ok_def record_closed_def m_rec
    using rec reload m_ok closed force by (auto simp: team_record_ok_def store_ok_def slot_ok_def)
  show "creation_ok ?t" using team_invD(4) [OF inv] by (simp add: creation_ok_def)
  have rank: "status_rank (tr_status r) \<le> status_rank (tr_status m)"
    unfolding m using w u by (intro merged_rank) (simp add: write_ok_def)
  show "events_ok ?t"
    using team_invD(5) [OF inv] r rank unfolding events_ok_def m_rec by (auto intro: le_trans)
  show "team_log_ok (tm_log ?t)"
    using team_invD(6) [OF inv] es by (simp add: event_ok_def)
  show "accepted (tm_log ?t) = undone (tm_log ?t) + of_bool (tm_dissolving ?t)"
    using team_invD(7) [OF inv] es by simp
qed

lemma write_answers_inv:
  assumes inv: "team_inv t" and i: "i < length (tm_flows t)" "unqueued t i"
    and closed: "ok \<Longrightarrow> tm_flows t ! i \<in> {Ab_Write, Di_Write} \<Longrightarrow> Ev_Closed \<in> set (tm_log t)"
  shows "team_inv (write_answers i now ok t)"
proof -
  have at: "flow_at t i = Some (tm_flows t ! i)" using i by (simp add: flow_at_def)
  consider (su) c a where "tm_flows t ! i = Su_Write c a" | (cr) "tm_flows t ! i = Cr_Running"
    | (ab) "tm_flows t ! i = Ab_Write" | (di) "tm_flows t ! i = Di_Write" | (cl) k where "tm_flows t ! i = Clean_Write k"
    | (none) "write_answers i now ok t = t"
    using at by (cases "tm_flows t ! i") (auto simp: write_answers_def)
  then show ?thesis
  proof cases
    case su
    then show ?thesis
      using at inv i submission_done_inv [of t i c now a] fails_inv [of t i c now Fr_Failed]
      by (simp add: write_answers_def team_quiet_def)
  next
    case cr
    then show ?thesis
      using at inv i quiet_flow_inv [of t i "Ad_Workflows True"] team_abandon_inv [of t i now]
      by (simp add: write_answers_def flow_kinds)
  next
    case ab
    then show ?thesis
      using at inv i closed destroy_inv [of t i "By_Abandon ok"] by (cases ok) (simp_all add: write_answers_def team_quiet_def)
  next
    case di
    then show ?thesis
      using at inv i closed destroy_inv [of t i By_Dissolve] undo_inv [of t i]
      by (cases ok) (simp_all add: write_answers_def flow_kinds)
  next
    case cl
    then show ?thesis using at inv i over_inv [of t i] by (simp add: write_answers_def)
  qed (use inv in simp)
qed


lemma write_settles_inv:
  assumes inv: "team_inv t"
  shows "team_inv (record_write_settles now ok t)"
proof (cases "tm_queue t")
  case Nil
  then show ?thesis using inv by (simp add: record_write_settles_def)
next
  case (Cons w ws)
  let ?t = "t\<lparr>tm_queue := ws\<rparr>" and ?u = "qw_update w"
  note deq = team_dequeue_inv [OF inv Cons]
  have w: "write_ok (tm_log t) w" "owner_ok (tm_flows t) w"
    using team_invD(1) [OF inv] Cons by (simp_all add: queue_ok_def)
  have own: "i < length (tm_flows t)" "tm_flows t ! i \<in> {Ab_Write, Di_Write} \<longrightarrow> tu_status ?u = Some Ts_Closed"
    if "qw_owner w = Some i" for i
    using w(2) that by (auto simp: owner_ok_def)
  obtain v where v: "slot (tm_store t) = Some v"
    using team_invD(3) [OF inv] by (auto simp: team_record_ok_def)
  consider (failed) e where "merge_record (tm_dispatcher t) (tm_id t) now ?u ok (tm_store t) = (Inl e, tm_store t)"
    | (landed) r where "v = Some r" "merge_record (tm_dispatcher t) (tm_id t) now ?u ok (tm_store t) =
        (Inr (Some (merged now ?u r)),
         \<lparr>slot = Some (Some (merged now ?u r)), disk = Some (encode_slot (Some (merged now ?u r)))\<rparr>)"
    by (rule merge_cases [OF v])
  then show ?thesis
  proof cases
    case failed
    have same: "t\<lparr>tm_store := tm_store t, tm_queue := ws\<rparr> = ?t" by (cases t) simp
    have "record_write_settles now ok t = (case qw_owner w of None \<Rightarrow> ?t | Some i \<Rightarrow> write_answers i now False ?t)"
      using Cons unfolding record_write_settles_def Let_def by (cases "qw_owner w") (simp_all add: failed same write_landed_def)
    moreover have "team_inv (write_answers i now False ?t)" if "qw_owner w = Some i" for i
      using deq(1) deq(2) [OF that] own [OF that] by (intro write_answers_inv) simp_all
    ultimately show ?thesis using deq(1) by (cases "qw_owner w") simp_all
  next
    case landed
    define m where "m = merged now ?u r"
    define es where "es = (if tu_status ?u = Some Ts_Closed then [Ev_Closed] else [])"
    define t2 where "t2 = ?t\<lparr>tm_store := \<lparr>slot = Some (Some m), disk = Some (encode_slot (Some m))\<rparr>,
      tm_log := tm_log ?t @ es\<rparr>"
    have r: "must_record ?t = Some r" using v landed(1) by (simp add: must_record_def)
    have t2: "team_inv t2"
      unfolding t2_def using w(1) by (intro team_commit_inv [OF deq(1) r _ refl m_def es_def]) simp
    define t3 where "t3 = (if tu_status ?u = Some (tr_status m) \<and> qw_previous w \<noteq> None \<and>
      qw_previous w \<noteq> Some (tr_status m) then publish_team_state t2 else t2)"
    have t3: "team_inv t3" using t2 team_publish_inv by (simp add: t3_def)
    have "record_write_settles now ok t = (case qw_owner w of None \<Rightarrow> t3 | Some i \<Rightarrow> write_answers i now True t3)"
    proof -
      have "write_landed w (Inr (Some m)) (t\<lparr>tm_store := \<lparr>slot = Some (Some m), disk = Some (encode_slot (Some m))\<rparr>,
          tm_queue := ws\<rparr>) = t3"
      proof -
        have swap: "t\<lparr>tm_store := x, tm_queue := ws\<rparr> = ?t\<lparr>tm_store := x\<rparr>" for x by (cases t) simp
        have logged: "(if tu_status ?u = Some Ts_Closed then note_event Ev_Closed (?t\<lparr>tm_store := x\<rparr>) else ?t\<lparr>tm_store := x\<rparr>) =
            ?t\<lparr>tm_store := x, tm_log := tm_log ?t @ es\<rparr>" for x
          by (cases t) (simp add: es_def note_event_def)
        show ?thesis
          unfolding swap write_landed_def sum.case option.case Let_def logged t3_def t2_def by (rule refl)
      qed
      then show ?thesis
        using Cons unfolding record_write_settles_def Let_def
        by (cases "qw_owner w") (simp_all add: landed(2) m_def [symmetric])
    qed
    moreover have "team_inv (write_answers i now True t3)" if o: "qw_owner w = Some i" for i
    proof (rule write_answers_inv [OF t3])
      show "i < length (tm_flows t3)" using own(1) [OF o] by (simp add: t3_def t2_def)
      show "unqueued t3 i" using deq(2) [OF o] by (simp add: t3_def t2_def unqueued_def)
      show "Ev_Closed \<in> set (tm_log t3)" if "tm_flows t3 ! i \<in> {Ab_Write, Di_Write}"
      proof -
        have "tm_flows t3 = tm_flows t" by (simp add: t3_def t2_def)
        then have "tu_status ?u = Some Ts_Closed" using own(2) [OF o] that by metis
        then show ?thesis by (simp add: t3_def t2_def es_def)
      qed
    qed
    ultimately show ?thesis using t3 by (cases "qw_owner w") simp_all
  qed
qed

lemma team_do_inv:
  assumes inv: "team_inv t" and ok: "team_input_ok q"
  shows "team_inv (team_do q t)"
proof (cases q)
  case (In_Assessed i now ans)
  then show ?thesis using ok by (auto simp: team_input_ok_def intro!: assessed_inv [OF inv])
next
  case (In_Cleaned i cleaned)
  then show ?thesis using ok by (auto simp: team_input_ok_def intro!: cleanup_answers_inv [OF inv])
qed (simp_all add: team_input_ok_def inv record_created_inv leader_created_inv creation_refused_inv start_created_inv
      rebuild_opens_inv rebuild_recovers_inv submit_team_input_inv submit_answers_inv start_admissions_inv
      admission_answers_inv asked_inv precheck_inv write_settles_inv child_settles_inv
      title_inv identity_inv team_prepare_inv interrupt_inv leader_answers_inv submit_prepared_inv)

lemma new_team_inv:
  assumes "store_ok (load_team did tid) (slot_ok did tid) st" "slot st = Some v"
    and "\<And>r. v = Some r \<Longrightarrow> tr_status r \<noteq> Ts_Closed \<and> \<not> tr_force r"
    and "worktree_ok (cr_worktree c)" "team_quiet f" "\<not> pre_commit f"
    and "\<And>r. f = Cn_Record r \<Longrightarrow> team_ok did tid r \<and> tr_status r = Ts_Starting"
  shows "team_inv (new_team did tid sources c st f)"
proof -
  have "flow_ok [] d l 0 f" for d l using quiet_ok [OF assms(5,6)] by simp
  moreover have "team_ok did tid (r\<lparr>tr_team := tid\<rparr>)" if "f = Cn_Record r" for r
    using assms(7) [OF that] by (simp add: team_ok_def)
  ultimately show ?thesis
    using assms
    by (cases v) (auto simp: team_inv_def new_team_def queue_ok_def flows_ok_def team_record_ok_def record_closed_def must_record_def
        creation_ok_def events_ok_def)
qed

lemma team_reach_inv: "team_reach t \<Longrightarrow> team_inv t"
proof (induction rule: team_reach.induct)
  case (created did tid st r c sources)
  then show ?case by (intro new_team_inv) (auto simp: flow_kinds)
next
  case (rebuilt did tid st r c sources)
  then show ?case by (intro new_team_inv) (auto simp: flow_kinds)
next
  case (does t q)
  then show ?case by (intro team_do_inv)
qed


subsection \<open>How a Team ends\<close>


lemma team_reach_fold:
  "team_reach t \<Longrightarrow> list_all team_input_ok qs \<Longrightarrow> team_reach (fold team_do qs t)"
  by (induction qs arbitrary: t) (simp_all add: team_reach.does)

definition demo_worktree :: worktree where
  "demo_worktree =
     \<lparr> wt_mode = Managed, wt_slug = Some ''s'', wt_path = ''/w'', wt_branch = Some ''b'', wt_base_ref = None,
       wt_cleanup = Delete_On_Close, wt_state = Managed_Active, wt_error = None \<rparr>"

definition demo_record :: team_record where
  "demo_record =
     \<lparr> tr_dispatcher = ''d'', tr_team = ''web-ab12'', tr_name = ''web-ab12'', tr_repo_cwd = ''/r'',
       tr_source_repo = None, tr_leader = ''tl-web'', tr_runtime = ''codex'', tr_prompt = None, tr_skills = [],
       tr_runtime_cwd = ''/w'', tr_worktree = demo_worktree,
       tr_status = Ts_Starting, tr_intent = Str ''site'', tr_created = Num 0, tr_updated = Num 0,
       tr_closed_at = Null, tr_note = Null, tr_request = None, tr_payload = None, tr_force = False \<rparr>"

definition demo_team :: team where
  "demo_team = new_team ''d'' ''web-ab12'' True \<lparr> cr_prompt = True, cr_checkout = True, cr_worktree = demo_worktree \<rparr>
     \<lparr> slot = Some None, disk = None \<rparr> (Cn_Record demo_record)"

lemma demo_reach: "team_reach demo_team"
  unfolding demo_team_def
  by (rule team_reach.created)
    (simp_all add: store_ok_def load_team_def slot_ok_def demo_record_def demo_worktree_def team_ok_def worktree_ok_def
      filled_option_def request_ok_def)

text \<open>
  A Team is created with a prompt and runs; a forced dissolve fails to write its closed record; a second
  forced one, asked for while a turn waits for its answer, succeeds and removes the worktree.
\<close>

definition dissolve_inputs :: "team_input list" where
  "dissolve_inputs =
     [In_Record 0 1 True, In_Leader 0 1 (Some (''tl-web'', ''starting'', True)), In_Start 0 2,
      In_Admission 0 3 (Some (Ea_Submitted 7)), In_Write 3 True, In_Write 3 True, In_Admissions 0 3 True,
      In_Admissions 0 3 True,
      In_Dissolve \<lparr> dc_note = ''stop'', dc_force = True \<rparr>, In_Assessed 2 4 (Some As_Eligible), In_Write 4 False,
      In_Submit 5, In_Dissolve \<lparr> dc_note = ''stop'', dc_force = True \<rparr>, In_Submit 6,
      In_Assessed 5 6 (Some As_Eligible), In_Write 6 True, In_Admission 3 7 None, In_Child 5, In_Child 5, In_Child 5, In_Child 5,
      In_Cleaned 5 (Some (demo_worktree\<lparr>wt_state := Deleted\<rparr>)), In_Write 8 True]"

lemma dissolve_run:
  "let t = fold team_do dissolve_inputs demo_team in
   (tm_log t, map fst (tm_events t), tm_closed t, map_option (wt_state \<circ> tr_worktree) (must_record t)) =
   ([Ev_Taken, Ev_Accepted True, Ev_Undone, Ev_Taken, Ev_Accepted True, Ev_Closed, Ev_Child 5 Ch_Workflows,
     Ev_Child 5 Ch_Scheduler, Ev_Child 5 Ch_Members, Ev_Child 5 Ch_Leader, Ev_Over 5 True, Ev_Cleanup 5 True],
    [Ts_Starting, Ts_Starting, Ts_Running, Ts_Closed], True, Some Deleted)"
  by code_simp





text \<open>
  A creation whose checkout it did not make (the record's worktree is as it was found) is abandoned after a
  forced dissolve committed its closed record: the record then keeps the authorization to discard work
  with no reclaim pending, which \<^verbatim>\<open>TeamRecord.worktree_cleanup_force\<close> says never happens.
\<close>

definition stale_force_inputs :: "team_input list" where
  "stale_force_inputs =
     [In_Record 0 1 True, In_Leader 0 1 (Some (''tl-web'', ''starting'', True)), In_Start 0 2,
      In_Admission 0 3 (Some (Ea_Submitted 7)), In_Write 3 True, In_Write 3 True,
      In_Dissolve \<lparr> dc_note = ''stop'', dc_force = True \<rparr>, In_Assessed 2 4 (Some As_Eligible), In_Write 4 True,
      In_Admissions 0 5 False, In_Write 5 True, In_Child 2, In_Child 2, In_Child 2, In_Child 2]"

lemma stale_force_run:
  "let t = fold team_do stale_force_inputs
         (demo_team\<lparr>tm_creation := \<lparr> cr_prompt = True, cr_checkout = False, cr_worktree = demo_worktree \<rparr>\<rparr>)
   in (map_option (\<lambda>r. (tr_status r, wt_state (tr_worktree r), tr_force r)) (must_record t), tm_closed t,
       filter (\<lambda>e. case e of Ev_Cleanup _ _ \<Rightarrow> True | _ \<Rightarrow> False) (tm_log t)) =
      (Some (Ts_Closed, Managed_Active, True), True, [])"
  by code_simp

end
