(* ===== verification/Team_Collection.thy ===== *)
theory Team_Collection
  imports In_Flight Team_Store
begin

text \<open>
  \<^verbatim>\<open>packages/dreamux/src/service/team/index.ts\<close>: the Teams of one dispatcher.  What is modelled is
  how a \<^verbatim>\<open>team.create\<close> request becomes a Team exactly once, and how the collection keeps one
  service for each Team: \<^verbatim>\<open>createFromRequest\<close>, \<^verbatim>\<open>open\<close>, construction, tracking and eviction.

  The records are what the Team stores hold, one for each name, and change only as
  \<^verbatim>\<open>mergeRecord\<close> changes them; the names are the directories of the Teams' root, which publishing a
  record adds to.  What a Team does with itself is the subject of \<open>Team_Service\<close>: here
  its construction ends well or not, and it is over when its record says closed.  Requests wait for each
  other in the keyed queue of \<open>In_Flight\<close>; a request is known by its ticket, an opening by its
  position, a service by its position in the list of all services built.
\<close>

record create_request =
  cq_id :: string
  cq_hash :: string
  cq_intent :: string

datatype create_reply =
    Rp_Created string
  | Rp_Replayed string
  | Rp_Conflict
  | Rp_Failed

text \<open>
  A request waits its turn, reads the records, resolves its input, and tries candidates: the number
  counts the ones refused so far.
\<close>

datatype create_phase =
    Rq_Waiting
  | Rq_Scan "string list" "team_record list"
  | Rq_Resolve
  | Rq_Candidate nat
  | Rq_Acquire nat string
  | Rq_Workspace nat string
  | Rq_Publish nat string nat
  | Rq_Discard nat string bool
  | Rq_Build string nat
  | Rq_Over create_reply

datatype open_reply = Or_Service nat | Or_Not_Found | Or_Closed | Or_Shutting_Down | Or_Failed

datatype open_phase =
    Op_Join string
  | Op_Acquire string
  | Op_Build string nat
  | Op_Over open_reply

datatype constructor_of = By_Request nat | By_Open nat

text \<open>A service under construction, one the collection holds, one that is dropped.\<close>

datatype service_state = Sv_Building bool | Sv_Live | Sv_Gone

record collection =
  tc_names :: "string list"
  tc_records :: "string \<Rightarrow> team_record option"
  tc_live :: "string \<Rightarrow> nat option"
  tc_constructing :: "string \<Rightarrow> constructor_of option"
  tc_services :: "(string \<times> service_state) list"
  tc_queue :: keyed_queue
  tc_requests :: "(create_request \<times> create_phase) list"
  tc_opens :: "open_phase list"
  tc_closing :: bool

definition new_collection :: "string list \<Rightarrow> (string \<Rightarrow> team_record option) \<Rightarrow> collection" where
  "new_collection names recs =
     \<lparr> tc_names = names, tc_records = recs, tc_live = Map.empty, tc_constructing = Map.empty, tc_services = [],
       tc_queue = new_keyed_queue, tc_requests = [], tc_opens = [], tc_closing = False \<rparr>"

definition request_phase :: "collection \<Rightarrow> nat \<Rightarrow> create_phase option" where
  "request_phase s t = (if t < length (tc_requests s) then Some (snd (tc_requests s ! t)) else None)"

definition request_of :: "collection \<Rightarrow> nat \<Rightarrow> create_request" where
  "request_of s t = fst (tc_requests s ! t)"

definition set_phase_of :: "nat \<Rightarrow> create_phase \<Rightarrow> collection \<Rightarrow> collection" where
  "set_phase_of t p s = s\<lparr>tc_requests := (tc_requests s)[t := (request_of s t, p)]\<rparr>"

definition open_of :: "collection \<Rightarrow> nat \<Rightarrow> open_phase option" where
  "open_of s u = (if u < length (tc_opens s) then Some (tc_opens s ! u) else None)"

definition set_open :: "nat \<Rightarrow> open_phase \<Rightarrow> collection \<Rightarrow> collection" where
  "set_open u p s = s\<lparr>tc_opens := (tc_opens s)[u := p]\<rparr>"

text \<open>The task of the queue is over, whatever it answers.\<close>

definition answer_request :: "nat \<Rightarrow> create_reply \<Rightarrow> collection \<Rightarrow> collection" where
  "answer_request t rp s = (set_phase_of t (Rq_Over rp) s)\<lparr>tc_queue := kq_finish t (tc_queue s)\<rparr>"

subsection \<open>The request: replay or a new Team\<close>

definition create_from_request :: "create_request \<Rightarrow> collection \<Rightarrow> collection" where
  "create_from_request rq s =
     (if tc_closing s then s
      else s\<lparr>tc_queue := kq_run (cq_id rq) (tc_queue s), tc_requests := tc_requests s @ [(rq, Rq_Waiting)]\<rparr>)"

text \<open>\<^verbatim>\<open>acceptedRequest\<close> lists the directory, then reads the records one after the other.\<close>

definition accepted_request :: "nat \<Rightarrow> bool \<Rightarrow> collection \<Rightarrow> collection" where
  "accepted_request t listed s =
     (if request_phase s t = Some Rq_Waiting \<and> kq_running (tc_queue s) t then
        if listed then set_phase_of t (Rq_Scan (tc_names s) []) s else answer_request t Rp_Failed s
      else s)"

definition scan_reads :: "nat \<Rightarrow> collection \<Rightarrow> collection" where
  "scan_reads t s =
     (case request_phase s t of
        Some (Rq_Scan (n # ns) found) \<Rightarrow>
          set_phase_of t (Rq_Scan ns (case tc_records s n of None \<Rightarrow> found | Some r \<Rightarrow> found @ [r])) s
      | Some (Rq_Scan [] found) \<Rightarrow>
          (case find (\<lambda>r. tr_request r = Some (cq_id (request_of s t))) found of
             None \<Rightarrow> set_phase_of t Rq_Resolve s
           | Some r \<Rightarrow>
               if tr_payload r \<noteq> Some (cq_hash (request_of s t)) then answer_request t Rp_Conflict s
               else answer_request t (Rp_Replayed (tr_team r)) s)
      | _ \<Rightarrow> s)"

text \<open>The \<^verbatim>\<open>createTeam\<close> hook, the skill sources and the worktree request.\<close>

definition input_resolves :: "nat \<Rightarrow> bool \<Rightarrow> collection \<Rightarrow> collection" where
  "input_resolves t ok s =
     (if request_phase s t = Some Rq_Resolve
      then if ok then set_phase_of t (Rq_Candidate 0) s else answer_request t Rp_Failed s
      else s)"

definition candidate_drawn :: "nat \<Rightarrow> string \<Rightarrow> collection \<Rightarrow> collection" where
  "candidate_drawn t name s =
     (case request_phase s t of
        Some (Rq_Candidate n) \<Rightarrow>
          if NAME_ALLOCATION_MAX_ATTEMPTS \<le> n then answer_request t Rp_Failed s
          else
            (case validate_team_id name of
               Inl _ \<Rightarrow> answer_request t Rp_Failed s
             | Inr tid \<Rightarrow>
                 if trim (cq_intent (request_of s t)) = '''' then answer_request t Rp_Failed s
                 else if tc_constructing s tid \<noteq> None then set_phase_of t (Rq_Candidate (Suc n)) s
                 else (set_phase_of t (Rq_Acquire n tid) s)
                   \<lparr>tc_constructing := (tc_constructing s)(tid := Some (By_Request t))\<rparr>)
      | _ \<Rightarrow> s)"

definition end_construction :: "string \<Rightarrow> collection \<Rightarrow> collection" where
  "end_construction tid s = s\<lparr>tc_constructing := (tc_constructing s)(tid := None)\<rparr>"

definition candidate_taken :: "nat \<Rightarrow> nat \<Rightarrow> string \<Rightarrow> collection \<Rightarrow> collection" where
  "candidate_taken t n tid s = end_construction tid (set_phase_of t (Rq_Candidate (Suc n)) s)"

definition create_acquires :: "nat \<Rightarrow> collection \<Rightarrow> collection" where
  "create_acquires t s =
     (case request_phase s t of
        Some (Rq_Acquire n tid) \<Rightarrow>
          (case tc_records s tid of
             Some _ \<Rightarrow> candidate_taken t n tid s
           | None \<Rightarrow> set_phase_of t (Rq_Workspace n tid) s)
      | _ \<Rightarrow> s)"

definition new_service :: "string \<Rightarrow> collection \<Rightarrow> collection" where
  "new_service tid s = s\<lparr>tc_services := tc_services s @ [(tid, Sv_Building False)]\<rparr>"

definition set_service :: "nat \<Rightarrow> service_state \<Rightarrow> collection \<Rightarrow> collection" where
  "set_service v st s = s\<lparr>tc_services := (tc_services s)[v := (fst (tc_services s ! v), st)]\<rparr>"

text \<open>With its workspace prepared, the Team is constructed and its record is to be published.\<close>

definition workspace_prepared :: "nat \<Rightarrow> bool \<Rightarrow> collection \<Rightarrow> collection" where
  "workspace_prepared t ok s =
     (case request_phase s t of
        Some (Rq_Workspace n tid) \<Rightarrow>
          if ok then new_service tid (set_phase_of t (Rq_Publish n tid (length (tc_services s))) s)
          else end_construction tid (answer_request t Rp_Failed s)
      | _ \<Rightarrow> s)"

text \<open>\<open>record\<close> holds what \<^verbatim>\<open>createNew\<close> fills in beside the name and the request identity.\<close>

definition create_publishes :: "nat \<Rightarrow> ms \<Rightarrow> team_record \<Rightarrow> bool \<Rightarrow> collection \<Rightarrow> collection" where
  "create_publishes t now r ok s =
     (case request_phase s t of
        Some (Rq_Publish n tid v) \<Rightarrow>
          (case tc_records s tid of
             Some _ \<Rightarrow> set_service v Sv_Gone (set_phase_of t (Rq_Discard n tid True) s)
           | None \<Rightarrow>
               if \<not> ok then set_service v Sv_Gone (set_phase_of t (Rq_Discard n tid False) s)
               else (set_phase_of t (Rq_Build tid v) s)
                 \<lparr>tc_names := List.insert tid (tc_names s),
                  tc_records := (tc_records s)(tid := Some
                    (new_record now (r\<lparr>tr_team := tid, tr_request := Some (cq_id (request_of s t)),
                       tr_payload := Some (cq_hash (request_of s t))\<rparr>)))\<rparr>)
      | _ \<Rightarrow> s)"

text \<open>\<^verbatim>\<open>discardUnclaimedCheckout\<close> never throws; the creation goes on to another name, or fails.\<close>

definition checkout_discarded :: "nat \<Rightarrow> collection \<Rightarrow> collection" where
  "checkout_discarded t s =
     (case request_phase s t of
        Some (Rq_Discard n tid taken) \<Rightarrow>
          if taken then candidate_taken t n tid s else end_construction tid (answer_request t Rp_Failed s)
      | _ \<Rightarrow> s)"

text \<open>
  \<^verbatim>\<open>track\<close>: the collection holds the service and listens for its end, which may have come already.
\<close>

definition track :: "nat \<Rightarrow> string \<Rightarrow> collection \<Rightarrow> collection" where
  "track v tid s =
     (if snd (tc_services s ! v) = Sv_Building True then set_service v Sv_Gone s
      else (set_service v Sv_Live s)\<lparr>tc_live := (tc_live s)(tid := Some v)\<rparr>)"

text \<open>
  The leader is made, the first turn taken, the admissions opened, or the creation was abandoned.  A
  dispatcher that is closing refuses the Team, before its first turn or once it is tracked.
\<close>

definition create_builds :: "nat \<Rightarrow> bool \<Rightarrow> bool \<Rightarrow> collection \<Rightarrow> collection" where
  "create_builds t ok refused_early s =
     (case request_phase s t of
        Some (Rq_Build tid v) \<Rightarrow>
          if \<not> ok \<or> (refused_early \<and> tc_closing s)
          then end_construction tid (answer_request t Rp_Failed (set_service v Sv_Gone s))
          else end_construction tid
            (answer_request t (if tc_closing s then Rp_Failed else Rp_Created tid) (track v tid s))
      | _ \<Rightarrow> s)"

subsection \<open>Opening a Team\<close>

definition get_team :: "nat \<Rightarrow> string \<Rightarrow> collection \<Rightarrow> collection" where
  "get_team u tid s =
     (case tc_live s tid of
        Some v \<Rightarrow> set_open u (Op_Over (Or_Service v)) s
      | None \<Rightarrow>
          (case tc_constructing s tid of
             Some _ \<Rightarrow> set_open u (Op_Join tid) s
           | None \<Rightarrow> (set_open u (Op_Acquire tid) s)
               \<lparr>tc_constructing := (tc_constructing s)(tid := Some (By_Open u))\<rparr>))"

definition open_team :: "string \<Rightarrow> collection \<Rightarrow> collection" where
  "open_team name s =
     (let u = length (tc_opens s); s' = s\<lparr>tc_opens := tc_opens s @ [Op_Join name]\<rparr> in
      if tc_closing s then set_open u (Op_Over Or_Shutting_Down) s'
      else
        (case validate_team_id name of
           Inl _ \<Rightarrow> set_open u (Op_Over Or_Failed) s'
         | Inr tid \<Rightarrow>
             (case tc_records s tid of
                None \<Rightarrow> set_open u (Op_Over Or_Not_Found) s'
              | Some r \<Rightarrow>
                  if tr_status r = Ts_Closed then set_open u (Op_Over Or_Closed) s'
                  else get_team u tid s')))"

text \<open>
  A construction that was joined has settled: with the service it built, with nothing (the decision is
  made again), or with an error.
\<close>

definition joined_settles :: "nat \<Rightarrow> nat option \<Rightarrow> bool \<Rightarrow> collection \<Rightarrow> collection" where
  "joined_settles u built failed s =
     (case open_of s u of
        Some (Op_Join tid) \<Rightarrow>
          (case built of
             Some v \<Rightarrow> set_open u (Op_Over (Or_Service v)) s
           | None \<Rightarrow> if failed then set_open u (Op_Over Or_Failed) s else get_team u tid s)
      | _ \<Rightarrow> s)"

definition rebuild_acquires :: "nat \<Rightarrow> collection \<Rightarrow> collection" where
  "rebuild_acquires u s =
     (case open_of s u of
        Some (Op_Acquire tid) \<Rightarrow>
          (case tc_records s tid of
             None \<Rightarrow> end_construction tid (set_open u (Op_Over Or_Not_Found) s)
           | Some r \<Rightarrow>
               if tr_status r = Ts_Closed then end_construction tid (set_open u (Op_Over Or_Closed) s)
               else new_service tid (set_open u (Op_Build tid (length (tc_services s))) s))
      | _ \<Rightarrow> s)"

definition rebuild_ends :: "nat \<Rightarrow> bool \<Rightarrow> collection \<Rightarrow> collection" where
  "rebuild_ends u ok s =
     (case open_of s u of
        Some (Op_Build tid v) \<Rightarrow>
          if \<not> ok then end_construction tid (set_open u (Op_Over Or_Failed) (set_service v Sv_Gone s))
          else end_construction tid
            (set_open u (Op_Over (if tc_closing s then Or_Shutting_Down else Or_Service v)) (track v tid s))
      | _ \<Rightarrow> s)"

subsection \<open>The Teams themselves\<close>

definition record_changes :: "string \<Rightarrow> ms \<Rightarrow> team_update \<Rightarrow> collection \<Rightarrow> collection" where
  "record_changes tid now u s =
     (case tc_records s tid of
        None \<Rightarrow> s
      | Some r \<Rightarrow> s\<lparr>tc_records := (tc_records s)(tid := Some (merged now u r))\<rparr>)"

text \<open>A service's \<^verbatim>\<open>closed\<close> promise resolves once its record is closed: the exact instance is dropped.\<close>

definition evict_service :: "nat \<Rightarrow> collection \<Rightarrow> collection" where
  "evict_service v s =
     (if v < length (tc_services s) then
        (let (tid, st) = tc_services s ! v in
         if (case tc_records s tid of Some r \<Rightarrow> tr_status r = Ts_Closed | None \<Rightarrow> False) then
           (case st of
              Sv_Building _ \<Rightarrow> set_service v (Sv_Building True) s
            | Sv_Live \<Rightarrow> (set_service v Sv_Gone s)
                \<lparr>tc_live := (if tc_live s tid = Some v then (tc_live s)(tid := None) else tc_live s)\<rparr>
            | Sv_Gone \<Rightarrow> s)
         else s)
      else s)"

subsection \<open>Any interleaving\<close>

datatype coll_input =
    Ci_Create create_request
  | Ci_Accepted nat bool
  | Ci_Scan nat
  | Ci_Resolve nat bool
  | Ci_Candidate nat string
  | Ci_Acquire nat
  | Ci_Workspace nat bool
  | Ci_Publish nat ms team_record bool
  | Ci_Discard nat
  | Ci_Build nat bool bool
  | Ci_Open string
  | Ci_Join nat "nat option" bool
  | Ci_Rebuild nat
  | Ci_Rebuilt nat bool
  | Ci_Record string ms team_update
  | Ci_Over nat
  | Ci_Close

fun coll_do :: "coll_input \<Rightarrow> collection \<Rightarrow> collection" where
  "coll_do (Ci_Create rq) s = create_from_request rq s"
| "coll_do (Ci_Accepted t listed) s = accepted_request t listed s"
| "coll_do (Ci_Scan t) s = scan_reads t s"
| "coll_do (Ci_Resolve t ok) s = input_resolves t ok s"
| "coll_do (Ci_Candidate t name) s = candidate_drawn t name s"
| "coll_do (Ci_Acquire t) s = create_acquires t s"
| "coll_do (Ci_Workspace t ok) s = workspace_prepared t ok s"
| "coll_do (Ci_Publish t now r ok) s = create_publishes t now r ok s"
| "coll_do (Ci_Discard t) s = checkout_discarded t s"
| "coll_do (Ci_Build t ok early) s = create_builds t ok early s"
| "coll_do (Ci_Open name) s = open_team name s"
| "coll_do (Ci_Join u built failed) s = joined_settles u built failed s"
| "coll_do (Ci_Rebuild u) s = rebuild_acquires u s"
| "coll_do (Ci_Rebuilt u ok) s = rebuild_ends u ok s"
| "coll_do (Ci_Record tid now u) s = record_changes tid now u s"
| "coll_do (Ci_Over v) s = evict_service v s"
| "coll_do Ci_Close s = s\<lparr>tc_closing := True\<rparr>"

text \<open>
  The records found at start: each in its own directory, under its own name, and no two of one request.
\<close>

definition records_ok :: "(string \<Rightarrow> team_record option) \<Rightarrow> bool" where
  "records_ok recs \<longleftrightarrow>
     (\<forall>n r. recs n = Some r \<longrightarrow> tr_team r = n) \<and>
     (\<forall>m n r q. recs m = Some r \<longrightarrow> recs n = Some q \<longrightarrow> tr_request r \<noteq> None \<longrightarrow> tr_request r = tr_request q \<longrightarrow>
        m = n)"

inductive coll_reach :: "collection \<Rightarrow> bool" where
  start: "records_ok recs \<Longrightarrow> dom recs \<subseteq> set names \<Longrightarrow> coll_reach (new_collection names recs)"
| does: "coll_reach s \<Longrightarrow> coll_reach (coll_do q s)"

end
