(* ===== verification/Team_Collection_Props.thy ===== *)
theory Team_Collection_Props
  imports Team_Collection
begin

text \<open>
  What the collection keeps over any interleaving of requests, openings, constructions and the ends of
  Teams: one Team for each accepted request, and one service for each Team.
\<close>

subsection \<open>Requests\<close>

definition backed :: "(string \<Rightarrow> team_record option) \<Rightarrow> create_request \<Rightarrow> string \<Rightarrow> bool" where
  "backed recs rq tid =
     (case recs tid of
        None \<Rightarrow> False
      | Some r \<Rightarrow> tr_request r = Some (cq_id rq) \<and> tr_payload r = Some (cq_hash rq))"

definition unclaimed :: "(string \<Rightarrow> team_record option) \<Rightarrow> create_request \<Rightarrow> bool" where
  "unclaimed recs rq \<longleftrightarrow> (\<forall>n r. recs n = Some r \<longrightarrow> tr_request r \<noteq> Some (cq_id rq))"

definition scan_ok :: "(string \<Rightarrow> team_record option) \<Rightarrow> create_request \<Rightarrow> string list \<Rightarrow> team_record list \<Rightarrow> bool" where
  "scan_ok recs rq ns found \<longleftrightarrow>
     (\<forall>n r. recs n = Some r \<longrightarrow> tr_request r = Some (cq_id rq) \<longrightarrow>
        n \<in> set ns \<or> (\<exists>a \<in> set found. tr_request a = Some (cq_id rq))) \<and>
     (\<forall>a \<in> set found. \<exists>r. recs (tr_team a) = Some r \<and> tr_request r = tr_request a \<and> tr_payload r = tr_payload a)"

definition phase_ok :: "(string \<Rightarrow> team_record option) \<Rightarrow> create_request \<Rightarrow> create_phase \<Rightarrow> bool" where
  "phase_ok recs rq p =
     (case p of
        Rq_Waiting \<Rightarrow> True
      | Rq_Scan ns found \<Rightarrow> scan_ok recs rq ns found
      | Rq_Build tid _ \<Rightarrow> backed recs rq tid
      | Rq_Over (Rp_Created tid) \<Rightarrow> backed recs rq tid
      | Rq_Over (Rp_Replayed tid) \<Rightarrow> backed recs rq tid
      | Rq_Over Rp_Conflict \<Rightarrow>
          (\<exists>n r. recs n = Some r \<and> tr_request r = Some (cq_id rq) \<and> tr_payload r \<noteq> Some (cq_hash rq))
      | Rq_Over Rp_Failed \<Rightarrow> True
      | _ \<Rightarrow> unclaimed recs rq)"

definition is_over :: "create_phase \<Rightarrow> bool" where
  "is_over p = (case p of Rq_Over _ \<Rightarrow> True | _ \<Rightarrow> False)"

definition requests_inv :: "collection \<Rightarrow> bool" where
  "requests_inv s \<longleftrightarrow>
     kq_reachable (tc_queue s) \<and> records_ok (tc_records s) \<and> dom (tc_records s) \<subseteq> set (tc_names s) \<and>
     length (kq_tickets (tc_queue s)) = length (tc_requests s) \<and>
     (\<forall>t < length (tc_requests s).
        fst (kq_tickets (tc_queue s) ! t) = cq_id (fst (tc_requests s ! t)) \<and>
        (t \<in> set (kq_done (tc_queue s)) \<longleftrightarrow> is_over (snd (tc_requests s ! t))) \<and>
        (snd (tc_requests s ! t) \<noteq> Rq_Waiting \<longrightarrow> \<not> is_over (snd (tc_requests s ! t)) \<longrightarrow> kq_running (tc_queue s) t) \<and>
        phase_ok (tc_records s) (fst (tc_requests s ! t)) (snd (tc_requests s ! t)))"

lemma requests_inv_cong:
  "requests_inv s \<Longrightarrow> tc_queue s' = tc_queue s \<Longrightarrow> tc_records s' = tc_records s \<Longrightarrow> tc_requests s' = tc_requests s \<Longrightarrow>
   tc_names s' = tc_names s \<Longrightarrow> requests_inv s'"
  by (simp add: requests_inv_def)

lemma requests_invD:
  assumes "requests_inv s" and "t < length (tc_requests s)"
  shows "fst (kq_tickets (tc_queue s) ! t) = cq_id (fst (tc_requests s ! t))"
    "t \<in> set (kq_done (tc_queue s)) \<longleftrightarrow> is_over (snd (tc_requests s ! t))"
    "snd (tc_requests s ! t) \<noteq> Rq_Waiting \<Longrightarrow> \<not> is_over (snd (tc_requests s ! t)) \<Longrightarrow> kq_running (tc_queue s) t"
    "phase_ok (tc_records s) (fst (tc_requests s ! t)) (snd (tc_requests s ! t))"
  using assms by (simp_all add: requests_inv_def)

lemma request_at:
  assumes "requests_inv s" and "request_phase s t = Some p"
  shows "t < length (tc_requests s)" "snd (tc_requests s ! t) = p"
    "phase_ok (tc_records s) (request_of s t) p"
    "p \<noteq> Rq_Waiting \<Longrightarrow> \<not> is_over p \<Longrightarrow> kq_running (tc_queue s) t"
  using assms requests_invD [OF assms(1), of t] by (auto simp: request_phase_def request_of_def split: if_splits)

text \<open>Two requests of one id never run together.\<close>

lemma running_unique:
  assumes "kq_reachable q" "kq_running q t" "kq_running q u" "fst (kq_tickets q ! t) = fst (kq_tickets q ! u)"
  shows "t = u"
proof -
  note inv = kq_reachable_inv [OF assms(1)]
  have len: "t < length (kq_tickets q)" "u < length (kq_tickets q)"
    using assms(2,3) by (simp_all add: kq_running_def)
  have "kq_open q (fst (kq_tickets q ! t)) t" "kq_open q (fst (kq_tickets q ! t)) u"
      "\<forall>w. kq_open q (fst (kq_tickets q ! t)) w \<longrightarrow> t \<le> w" "\<forall>w. kq_open q (fst (kq_tickets q ! t)) w \<longrightarrow> u \<le> w"
    using kq_running_iff [OF inv len(1)] kq_running_iff [OF inv len(2)] assms(2,3,4) by simp_all
  then show ?thesis by (meson le_antisym)
qed

lemma phase_step:
  assumes inv: "requests_inv s" and t: "t < length (tc_requests s)" and run: "kq_running (tc_queue s) t"
    and p: "phase_ok (tc_records s) (request_of s t) p" "\<not> is_over p"
  shows "requests_inv (set_phase_of t p s)"
proof -
  have "t \<notin> set (kq_done (tc_queue s))" using run by (simp add: kq_running_def)
  then show ?thesis
    using inv t run p
    by (auto simp: requests_inv_def set_phase_of_def request_of_def nth_list_update)
qed

lemma running_after_finish:
  assumes "kq_running q u" "u \<noteq> t"
  shows "kq_running (kq_finish t q) u"
  using assms by (auto simp: kq_running_def kq_finish_def Let_def split: option.splits)

lemma reply_step:
  assumes inv: "requests_inv s" and t: "t < length (tc_requests s)" and run: "kq_running (tc_queue s) t"
    and rp: "phase_ok (tc_records s) (request_of s t) (Rq_Over rp)"
  shows "requests_inv (answer_request t rp s)"
proof -
  have q: "kq_tickets (kq_finish t (tc_queue s)) = kq_tickets (tc_queue s)"
      "set (kq_done (kq_finish t (tc_queue s))) = insert t (set (kq_done (tc_queue s)))"
    by (simp_all add: kq_finish_def Let_def)
  have "kq_reachable (kq_finish t (tc_queue s))"
    using inv run by (auto simp: requests_inv_def intro: kq_settle)
  then show ?thesis
    using inv t rp running_after_finish [of "tc_queue s" _ t]
    by (auto simp: requests_inv_def answer_request_def set_phase_of_def request_of_def nth_list_update q is_over_def)
qed


lemma request_inv_create: "requests_inv s \<Longrightarrow> requests_inv (create_from_request rq s)"
proof -
  assume inv: "requests_inv s"
  have run: "kq_running (kq_run key q) t" if "kq_running q t" for q key t
    using that by (cases "snd (kq_tickets q ! t)") (auto simp: kq_running_def kq_run_def nth_append)
  have q: "kq_tickets (kq_run (cq_id rq) (tc_queue s)) =
        kq_tickets (tc_queue s) @ [(cq_id rq, kq_tail (tc_queue s) (cq_id rq))]"
      "kq_done (kq_run (cq_id rq) (tc_queue s)) = kq_done (tc_queue s)"
    by (simp_all add: kq_run_def)
  have "length (tc_requests s) \<notin> set (kq_done (tc_queue s))"
    using inv kq_done_prefix [OF kq_reachable_inv, of "tc_queue s" "length (tc_requests s)"]
    by (auto simp: requests_inv_def)
  moreover have "phase_ok recs rq Rq_Waiting" "\<not> is_over Rq_Waiting" for recs
    by (simp_all add: phase_ok_def is_over_def)
  ultimately show ?thesis
    using inv run
    by (auto simp: requests_inv_def create_from_request_def q nth_append less_Suc_eq intro: kq_call)
qed

lemma request_inv_accepted:
  assumes inv: "requests_inv s"
  shows "requests_inv (accepted_request t listed s)"
proof (cases "request_phase s t = Some Rq_Waiting \<and> kq_running (tc_queue s) t")
  case True
  note here = request_at [OF inv, of t Rq_Waiting]
  have "phase_ok (tc_records s) (request_of s t) (Rq_Scan (tc_names s) [])"
    using inv by (auto simp: phase_ok_def scan_ok_def requests_inv_def)
  then show ?thesis
    using True here phase_step [OF inv, of t "Rq_Scan (tc_names s) []"] reply_step [OF inv, of t Rp_Failed]
    by (simp add: accepted_request_def is_over_def phase_ok_def)
next
  case False
  then have "accepted_request t listed s = s" by (auto simp: accepted_request_def)
  then show ?thesis using inv by simp
qed

lemma scan_read:
  assumes ok: "scan_ok recs rq (n # ns) found" and recs: "records_ok recs"
  shows "scan_ok recs rq ns (case recs n of None \<Rightarrow> found | Some r \<Rightarrow> found @ [r])"
proof (cases "recs n")
  case None
  have "m \<noteq> n" if "recs m = Some r" for m r using that None by auto
  then show ?thesis using ok None unfolding scan_ok_def by simp
next
  case (Some r)
  then have n: "tr_team r = n" using recs by (simp add: records_ok_def)
  have "m \<in> set ns \<or> (\<exists>a \<in> set (found @ [r]). tr_request a = Some (cq_id rq))"
    if "recs m = Some q" "tr_request q = Some (cq_id rq)" for m q
    using ok that Some by (cases "m = n") (auto simp: scan_ok_def)
  moreover have "\<exists>q. recs (tr_team a) = Some q \<and> tr_request q = tr_request a \<and> tr_payload q = tr_payload a"
    if "a \<in> set (found @ [r])" for a
    using ok that Some n by (auto simp: scan_ok_def)
  ultimately show ?thesis using Some unfolding scan_ok_def by simp
qed

lemma scan_end:
  assumes ok: "scan_ok recs rq [] found"
  shows "find (\<lambda>r. tr_request r = Some (cq_id rq)) found = None \<Longrightarrow> unclaimed recs rq"
    and "find (\<lambda>r. tr_request r = Some (cq_id rq)) found = Some r \<Longrightarrow>
      \<exists>q. recs (tr_team r) = Some q \<and> tr_request q = Some (cq_id rq) \<and> tr_payload q = tr_payload r"
proof -
  show "unclaimed recs rq" if "find (\<lambda>r. tr_request r = Some (cq_id rq)) found = None"
    using that ok by (auto simp: unclaimed_def scan_ok_def find_None_iff)
  show "\<exists>q. recs (tr_team r) = Some q \<and> tr_request q = Some (cq_id rq) \<and> tr_payload q = tr_payload r"
    if "find (\<lambda>r. tr_request r = Some (cq_id rq)) found = Some r"
    using find_Some_in [OF that] ok by (fastforce simp: scan_ok_def)
qed

lemma request_inv_scan:
  assumes inv: "requests_inv s"
  shows "requests_inv (scan_reads t s)"
proof (cases "\<exists>ns found. request_phase s t = Some (Rq_Scan ns found)")
  case False
  then have "scan_reads t s = s"
    by (cases "request_phase s t"; cases "the (request_phase s t)") (auto simp: scan_reads_def)
  then show ?thesis using inv by simp
next
  case True
  then obtain ns found where at: "request_phase s t = Some (Rq_Scan ns found)" by blast
  note here = request_at [OF inv at]
  have run: "kq_running (tc_queue s) t" using here(4) by (simp add: is_over_def)
  have ok: "scan_ok (tc_records s) (request_of s t) ns found" using here(3) by (simp add: phase_ok_def)
  show ?thesis
  proof (cases ns)
    case (Cons n rest)
    have "phase_ok (tc_records s) (request_of s t)
        (Rq_Scan rest (case tc_records s n of None \<Rightarrow> found | Some r \<Rightarrow> found @ [r]))"
      using scan_read [OF ok [unfolded Cons]] inv by (simp add: phase_ok_def requests_inv_def)
    then show ?thesis
      using at Cons phase_step [OF inv here(1) run] by (simp add: scan_reads_def is_over_def)
  next
    case Nil
    note ended = scan_end [OF ok [unfolded Nil]]
    show ?thesis
    proof (cases "find (\<lambda>r. tr_request r = Some (cq_id (request_of s t))) found")
      case None
      then show ?thesis
        using at Nil phase_step [OF inv here(1) run, of Rq_Resolve] ended(1)
        by (simp add: scan_reads_def phase_ok_def is_over_def)
    next
      case (Some r)
      obtain q where q: "tc_records s (tr_team r) = Some q" "tr_request q = Some (cq_id (request_of s t))"
          "tr_payload q = tr_payload r"
        using ended(2) [OF Some] by blast
      show ?thesis
      proof (cases "tr_payload r = Some (cq_hash (request_of s t))")
        case True
        then have "phase_ok (tc_records s) (request_of s t) (Rq_Over (Rp_Replayed (tr_team r)))"
          using q by (simp add: phase_ok_def backed_def)
        then show ?thesis
          using at Nil Some True reply_step [OF inv here(1) run] by (simp add: scan_reads_def)
      next
        case False
        then have "phase_ok (tc_records s) (request_of s t) (Rq_Over Rp_Conflict)"
          using q unfolding phase_ok_def by simp metis
        then show ?thesis
          using at Nil Some False reply_step [OF inv here(1) run] by (simp add: scan_reads_def)
      qed
    qed
  qed
qed

text \<open>A request that has no record yet moves on, or fails.\<close>

definition unpublished :: "create_phase \<Rightarrow> bool" where
  "unpublished p =
     (case p of Rq_Resolve \<Rightarrow> True | Rq_Candidate _ \<Rightarrow> True | Rq_Acquire _ _ \<Rightarrow> True | Rq_Workspace _ _ \<Rightarrow> True
      | Rq_Publish _ _ _ \<Rightarrow> True | Rq_Discard _ _ _ \<Rightarrow> True | _ \<Rightarrow> False)"

lemma unpublished_iff:
  "unpublished p \<Longrightarrow> phase_ok recs rq p \<longleftrightarrow> unclaimed recs rq"
  "unpublished p \<Longrightarrow> p \<noteq> Rq_Waiting \<and> \<not> is_over p"
  by (cases p; simp add: unpublished_def phase_ok_def is_over_def)+

lemma unpublished_step:
  assumes inv: "requests_inv s" and at: "request_phase s t = Some p" and p: "unpublished p"
  shows "unpublished p' \<Longrightarrow> requests_inv (set_phase_of t p' s)" and "requests_inv (answer_request t Rp_Failed s)"
proof -
  note here = request_at [OF inv at]
  have run: "kq_running (tc_queue s) t" using here(4) unpublished_iff(2) [OF p] by simp
  have un: "unclaimed (tc_records s) (request_of s t)" using here(3) unpublished_iff(1) [OF p] by simp
  show "requests_inv (set_phase_of t p' s)" if "unpublished p'"
    using that un unpublished_iff [OF that] by (intro phase_step [OF inv here(1) run]) simp_all
  show "requests_inv (answer_request t Rp_Failed s)"
    by (rule reply_step [OF inv here(1) run]) (simp add: phase_ok_def)
qed


lemma request_inv_candidate:
  assumes inv: "requests_inv s"
  shows "requests_inv (input_resolves t ok s)" "requests_inv (candidate_drawn t name s)"
    "requests_inv (create_acquires t s)" "requests_inv (workspace_prepared t ok s)"
    "requests_inv (checkout_discarded t s)"
proof -
  note step = unpublished_step [OF inv, of t]
  have end_inv: "requests_inv x \<Longrightarrow> requests_inv (end_construction tid x)" for x tid
    by (rule requests_inv_cong) (simp_all add: end_construction_def)
  have taken: "request_phase s t = Some p \<Longrightarrow> unpublished p \<Longrightarrow> requests_inv (candidate_taken t n tid s)" for p n tid
    unfolding candidate_taken_def by (intro end_inv step(1)) (simp_all add: unpublished_def)
  show "requests_inv (input_resolves t ok s)"
    using inv step(1) [of Rq_Resolve "Rq_Candidate 0"] step(2) [of Rq_Resolve] by (simp add: input_resolves_def unpublished_def)
  show "requests_inv (candidate_drawn t name s)"
  proof (cases "\<exists>n. request_phase s t = Some (Rq_Candidate n)")
    case True
    then obtain n where at: "request_phase s t = Some (Rq_Candidate n)" by blast
    have "requests_inv ((set_phase_of t (Rq_Acquire n tid) s)\<lparr>tc_constructing := c\<rparr>)" for tid c
      by (rule requests_inv_cong [OF step(1) [OF at, of "Rq_Acquire n tid"]]) (simp_all add: unpublished_def)
    then show ?thesis
      using at step [OF at]
      by (simp add: candidate_drawn_def unpublished_def split: sum.split)
  next
    case False
    then have "candidate_drawn t name s = s"
      by (cases "request_phase s t"; cases "the (request_phase s t)") (auto simp: candidate_drawn_def)
    then show ?thesis using inv by simp
  qed
  show "requests_inv (create_acquires t s)"
  proof (cases "\<exists>n tid. request_phase s t = Some (Rq_Acquire n tid)")
    case True
    then obtain n tid where at: "request_phase s t = Some (Rq_Acquire n tid)" by blast
    then show ?thesis
      using step(1) [OF at] taken [OF at]
      by (simp add: create_acquires_def unpublished_def split: option.split)
  next
    case False
    then have "create_acquires t s = s"
      by (cases "request_phase s t"; cases "the (request_phase s t)") (auto simp: create_acquires_def)
    then show ?thesis using inv by simp
  qed
  show "requests_inv (workspace_prepared t ok s)"
  proof (cases "\<exists>n tid. request_phase s t = Some (Rq_Workspace n tid)")
    case True
    then obtain n tid where at: "request_phase s t = Some (Rq_Workspace n tid)" by blast
    have "requests_inv (new_service tid (set_phase_of t (Rq_Publish n tid v) s))" for v
      by (rule requests_inv_cong [OF step(1) [OF at, of "Rq_Publish n tid v"]])
        (simp_all add: unpublished_def new_service_def)
    then show ?thesis
      using at end_inv [OF step(2) [OF at]] by (simp add: workspace_prepared_def unpublished_def)
  next
    case False
    then have "workspace_prepared t ok s = s"
      by (cases "request_phase s t"; cases "the (request_phase s t)") (auto simp: workspace_prepared_def)
    then show ?thesis using inv by simp
  qed
  show "requests_inv (checkout_discarded t s)"
  proof (cases "\<exists>n tid k. request_phase s t = Some (Rq_Discard n tid k)")
    case True
    then obtain n tid k where at: "request_phase s t = Some (Rq_Discard n tid k)" by blast
    then show ?thesis
      using end_inv [OF step(2) [OF at]] taken [OF at] by (simp add: checkout_discarded_def unpublished_def)
  next
    case False
    then have "checkout_discarded t s = s"
      by (cases "request_phase s t"; cases "the (request_phase s t)") (auto simp: checkout_discarded_def)
    then show ?thesis using inv by simp
  qed
qed

lemma phase_ok_new:
  assumes ok: "phase_ok recs rq p" and new: "recs tid = None" and r: "tr_request r = Some rid"
    and other: "cq_id rq = rid \<Longrightarrow> is_over p \<or> p = Rq_Waiting \<or> (\<exists>n v. p = Rq_Build n v)"
  shows "phase_ok (recs(tid := Some r)) rq p"
proof -
  have b: "backed recs rq n \<Longrightarrow> backed (recs(tid := Some r)) rq n" for n
    using new by (auto simp: backed_def)
  have un: "unclaimed recs rq \<Longrightarrow> cq_id rq \<noteq> rid \<Longrightarrow> unclaimed (recs(tid := Some r)) rq"
    using r by (auto simp: unclaimed_def)
  have sc: "scan_ok (recs(tid := Some r)) rq ns found" if "scan_ok recs rq ns found" "cq_id rq \<noteq> rid" for ns found
  proof -
    have "tr_team a \<noteq> tid" if "a \<in> set found" for a
      using \<open>scan_ok recs rq ns found\<close> that new by (auto simp: scan_ok_def)
    then show ?thesis using that r unfolding scan_ok_def by auto
  qed
  have conflict: "\<exists>n q. (recs(tid := Some r)) n = Some q \<and> P q" if "\<exists>n q. recs n = Some q \<and> P q" for P
    using that new by (metis fun_upd_apply option.distinct(1))
  show ?thesis
  proof (cases p)
    case (Rq_Scan ns found)
    then show ?thesis using ok other sc by (auto simp: phase_ok_def is_over_def)
  next
    case (Rq_Over rp)
    then show ?thesis
      using ok b conflict [of "\<lambda>q. tr_request q = Some (cq_id rq) \<and> tr_payload q \<noteq> Some (cq_hash rq)"]
      by (cases rp) (simp_all add: phase_ok_def)
  next
    case (Rq_Build n v)
    then show ?thesis using ok b by (simp add: phase_ok_def)
  qed (use ok other un in \<open>auto simp: phase_ok_def is_over_def\<close>)
qed

lemma records_ok_new:
  assumes "records_ok recs" "unclaimed recs rq" "tr_team r = tid" "tr_request r = Some (cq_id rq)"
  shows "records_ok (recs(tid := Some r))"
  using assms unfolding records_ok_def unclaimed_def by (simp, metis)

lemma request_inv_publish:
  assumes inv: "requests_inv s"
  shows "requests_inv (create_publishes t now r ok s)"
proof (cases "\<exists>n tid v. request_phase s t = Some (Rq_Publish n tid v)")
  case False
  then have "create_publishes t now r ok s = s"
    by (cases "request_phase s t"; cases "the (request_phase s t)") (auto simp: create_publishes_def)
  then show ?thesis using inv by simp
next
  case True
  then obtain n tid v where at: "request_phase s t = Some (Rq_Publish n tid v)" by blast
  note here = request_at [OF inv at]
  have gone: "requests_inv (set_service v Sv_Gone (set_phase_of t (Rq_Discard n tid k) s))" for k
    by (rule requests_inv_cong [OF unpublished_step(1) [OF inv at, of "Rq_Discard n tid k"]])
      (simp_all add: unpublished_def set_service_def)
  show ?thesis
  proof (cases "tc_records s tid = None \<and> ok")
    case False
    then show ?thesis using at gone by (auto simp: create_publishes_def split: option.split)
  next
    case True
    define q where "q = new_record now (r\<lparr>tr_team := tid, tr_request := Some (cq_id (request_of s t)),
      tr_payload := Some (cq_hash (request_of s t))\<rparr>)"
    have q: "tr_team q = tid" "tr_request q = Some (cq_id (request_of s t))"
        "tr_payload q = Some (cq_hash (request_of s t))"
      by (simp_all add: q_def new_record_def)
    let ?recs = "(tc_records s)(tid := Some q)"
    let ?s = "(set_phase_of t (Rq_Build tid v) s)\<lparr>tc_names := List.insert tid (tc_names s), tc_records := ?recs\<rparr>"
    have form: "create_publishes t now r ok s = ?s"
      using at True by (simp add: create_publishes_def q_def)
    have un: "unclaimed (tc_records s) (request_of s t)" using here(3) by (simp add: phase_ok_def)
    have run: "kq_running (tc_queue s) t" using here(4) by (simp add: is_over_def)
    have others: "phase_ok ?recs (fst (tc_requests s ! u)) (snd (tc_requests s ! u))"
      if u: "u < length (tc_requests s)" "u \<noteq> t" for u
    proof (rule phase_ok_new [OF requests_invD(4) [OF inv u(1)] _ q(2)])
      show "tc_records s tid = None" using True by simp
      assume same: "cq_id (fst (tc_requests s ! u)) = cq_id (request_of s t)"
      have keys: "fst (kq_tickets (tc_queue s) ! u) = fst (kq_tickets (tc_queue s) ! t)"
        using requests_invD(1) [OF inv u(1)] requests_invD(1) [OF inv here(1)] same by (simp add: request_of_def)
      have "\<not> kq_running (tc_queue s) u"
        using running_unique [of "tc_queue s" u t] keys run u(2) inv by (auto simp: requests_inv_def)
      then show "is_over (snd (tc_requests s ! u)) \<or> snd (tc_requests s ! u) = Rq_Waiting \<or>
          (\<exists>n v. snd (tc_requests s ! u) = Rq_Build n v)"
        using requests_invD(3) [OF inv u(1)] by blast
    qed
    have "phase_ok ?recs (request_of s t) (Rq_Build tid v)"
      using q by (simp add: phase_ok_def backed_def)
    moreover have "records_ok ?recs"
      using inv un q by (intro records_ok_new [of _ "request_of s t"]) (simp_all add: requests_inv_def)
    moreover have "t \<notin> set (kq_done (tc_queue s))" "\<not> is_over (Rq_Build tid v)"
      using run by (simp_all add: kq_running_def is_over_def)
    ultimately have "requests_inv ?s"
      using inv here(1) run others
      by (auto simp: requests_inv_def set_phase_of_def request_of_def nth_list_update)
    then show ?thesis using form by simp
  qed
qed


lemma service_frame [simp]:
  "tc_queue (set_service v st s) = tc_queue s" "tc_records (set_service v st s) = tc_records s"
  "tc_requests (set_service v st s) = tc_requests s" "tc_queue (track v tid s) = tc_queue s"
  "tc_records (track v tid s) = tc_records s" "tc_requests (track v tid s) = tc_requests s"
  "tc_queue (end_construction tid s) = tc_queue s" "tc_records (end_construction tid s) = tc_records s"
  "tc_requests (end_construction tid s) = tc_requests s" "tc_queue (set_open u p s) = tc_queue s"
  "tc_records (set_open u p s) = tc_records s" "tc_requests (set_open u p s) = tc_requests s"
  "tc_queue (new_service tid s) = tc_queue s" "tc_records (new_service tid s) = tc_records s"
  "tc_requests (new_service tid s) = tc_requests s" "tc_queue (get_team u tid s) = tc_queue s"
  "tc_records (get_team u tid s) = tc_records s" "tc_requests (get_team u tid s) = tc_requests s"
  "tc_names (set_service v st s) = tc_names s" "tc_names (track v tid s) = tc_names s"
  "tc_names (end_construction tid s) = tc_names s" "tc_names (set_open u p s) = tc_names s"
  "tc_names (new_service tid s) = tc_names s" "tc_names (get_team u tid s) = tc_names s"
  by (simp_all add: set_service_def track_def end_construction_def set_open_def new_service_def get_team_def
      split: option.split)

lemma request_inv_build:
  assumes inv: "requests_inv s"
  shows "requests_inv (create_builds t ok early s)"
proof (cases "\<exists>tid v. request_phase s t = Some (Rq_Build tid v)")
  case False
  then have "create_builds t ok early s = s"
    by (cases "request_phase s t"; cases "the (request_phase s t)") (auto simp: create_builds_def)
  then show ?thesis using inv by simp
next
  case True
  then obtain tid v where at: "request_phase s t = Some (Rq_Build tid v)" by blast
  have frame: "requests_inv (end_construction tid (answer_request t rp x))"
    if "requests_inv x" "tc_requests x = tc_requests s" "tc_queue x = tc_queue s" "tc_records x = tc_records s"
      "tc_names x = tc_names s" "rp = Rp_Failed \<or> rp = Rp_Created tid" for rp x
  proof (rule requests_inv_cong [of "answer_request t rp x"])
    have at': "request_phase x t = Some (Rq_Build tid v)" using at that by (simp add: request_phase_def split: if_splits)
    note here = request_at [OF that(1) at']
    have "phase_ok (tc_records x) (request_of x t) (Rq_Over rp)"
      using that(6) here(3) by (auto simp: phase_ok_def)
    then show "requests_inv (answer_request t rp x)"
      using here by (intro reply_step [OF that(1)]) (simp_all add: is_over_def)
  qed simp_all
  have "requests_inv (track v tid s)" "requests_inv (set_service v Sv_Gone s)"
    by (rule requests_inv_cong [OF inv]; simp)+
  then show ?thesis
    using at frame by (simp add: create_builds_def)
qed

lemma request_inv_record:
  assumes inv: "requests_inv s"
  shows "requests_inv (record_changes tid now u s)"
proof (cases "tc_records s tid")
  case None
  then show ?thesis using inv by (simp add: record_changes_def)
next
  case (Some r)
  let ?m = "merged now u r" and ?recs = "tc_records s"
  let ?new = "?recs(tid := Some (merged now u r))"
  have m: "tr_team ?m = tr_team r" "tr_request ?m = tr_request r" "tr_payload ?m = tr_payload r"
    by (simp_all add: merged_def Let_def)
  have look: "\<exists>q'. ?new n = Some q' \<and> tr_team q' = tr_team q \<and> tr_request q' = tr_request q \<and> tr_payload q' = tr_payload q"
    if "?recs n = Some q" for n q
    using that Some m by (cases "n = tid") auto
  have origin: "\<exists>q'. ?recs n = Some q' \<and> tr_team q' = tr_team q \<and> tr_request q' = tr_request q \<and> tr_payload q' = tr_payload q"
    if "?new n = Some q" for n q
    using that Some m by (cases "n = tid") auto
  have b: "backed ?recs rq n \<Longrightarrow> backed ?new rq n" for rq n
    using m Some by (auto simp: backed_def)
  have un: "unclaimed ?recs rq \<Longrightarrow> unclaimed ?new rq" for rq
    using origin unfolding unclaimed_def by metis
  have sc: "scan_ok ?recs rq ns found \<Longrightarrow> scan_ok ?new rq ns found" for rq ns found
  proof -
    assume ok: "scan_ok ?recs rq ns found"
    have "n \<in> set ns \<or> (\<exists>a \<in> set found. tr_request a = Some (cq_id rq))"
      if new: "?new n = Some q" "tr_request q = Some (cq_id rq)" for n q
      using origin [OF new(1)] new(2) ok by (auto simp: scan_ok_def)
    moreover have "\<exists>q. ?new (tr_team a) = Some q \<and> tr_request q = tr_request a \<and> tr_payload q = tr_payload a"
      if a: "a \<in> set found" for a
    proof -
      obtain q where q: "?recs (tr_team a) = Some q" "tr_request q = tr_request a" "tr_payload q = tr_payload a"
        using ok a unfolding scan_ok_def by blast
      from look [OF q(1)] q(2,3) show ?thesis by auto
    qed
    ultimately show ?thesis unfolding scan_ok_def by blast
  qed
  have phase: "phase_ok ?new rq p" if "phase_ok ?recs rq p" for rq p
  proof (cases p)
    case (Rq_Over rp)
    have conflict: "\<exists>n q. ?new n = Some q \<and> tr_request q = x \<and> tr_payload q \<noteq> y"
      if found: "\<exists>n q. ?recs n = Some q \<and> tr_request q = x \<and> tr_payload q \<noteq> y" for x y
    proof -
      obtain n q where q: "?recs n = Some q" "tr_request q = x" "tr_payload q \<noteq> y" using found by blast
      from look [OF q(1)] q(2,3) show ?thesis by metis
    qed
    show ?thesis
      using that b conflict Rq_Over by (cases rp) (simp_all add: phase_ok_def)
  qed (use that b un sc in \<open>simp_all add: phase_ok_def\<close>)
  have "records_ok ?new"
    unfolding records_ok_def
  proof (intro conjI allI impI)
    fix n q assume "?new n = Some q"
    then show "tr_team q = n" using origin [of n q] inv by (auto simp: requests_inv_def records_ok_def)
  next
    fix k n q q' assume a: "?new k = Some q" "?new n = Some q'" "tr_request q \<noteq> None" "tr_request q = tr_request q'"
    obtain p p' where "?recs k = Some p" "?recs n = Some p'" "tr_request p = tr_request q" "tr_request p' = tr_request q'"
      using origin [OF a(1)] origin [OF a(2)] by auto
    then show "k = n" using inv a(3,4) unfolding requests_inv_def records_ok_def by metis
  qed
  moreover have "dom ?new \<subseteq> set (tc_names s)"
    using inv Some by (auto simp: requests_inv_def)
  ultimately show ?thesis
    using inv phase by (simp add: requests_inv_def record_changes_def Some)
qed

lemma coll_do_requests:
  assumes inv: "requests_inv s"
  shows "requests_inv (coll_do q s)"
proof (cases q)
  case (Ci_Open name)
  then show ?thesis
    by (auto intro!: requests_inv_cong [OF inv] simp: open_team_def Let_def split: sum.splits option.splits)
next
  case (Ci_Join u built failed)
  have "tc_queue (joined_settles u built failed s) = tc_queue s \<and> tc_records (joined_settles u built failed s) = tc_records s \<and>
      tc_requests (joined_settles u built failed s) = tc_requests s \<and> tc_names (joined_settles u built failed s) = tc_names s"
    by (cases "open_of s u"; cases "the (open_of s u)") (simp_all add: joined_settles_def split: option.split)
  then show ?thesis using Ci_Join by (auto intro!: requests_inv_cong [OF inv])
next
  case (Ci_Rebuild u)
  have "tc_queue (rebuild_acquires u s) = tc_queue s \<and> tc_records (rebuild_acquires u s) = tc_records s \<and>
      tc_requests (rebuild_acquires u s) = tc_requests s \<and> tc_names (rebuild_acquires u s) = tc_names s"
    by (cases "open_of s u"; cases "the (open_of s u)") (simp_all add: rebuild_acquires_def split: option.split)
  then show ?thesis using Ci_Rebuild by (auto intro!: requests_inv_cong [OF inv])
next
  case (Ci_Rebuilt u ok)
  have "tc_queue (rebuild_ends u ok s) = tc_queue s \<and> tc_records (rebuild_ends u ok s) = tc_records s \<and>
      tc_requests (rebuild_ends u ok s) = tc_requests s \<and> tc_names (rebuild_ends u ok s) = tc_names s"
    by (cases "open_of s u"; cases "the (open_of s u)") (simp_all add: rebuild_ends_def)
  then show ?thesis using Ci_Rebuilt by (auto intro!: requests_inv_cong [OF inv])
next
  case (Ci_Over v)
  have "tc_queue (evict_service v s) = tc_queue s \<and> tc_records (evict_service v s) = tc_records s \<and>
      tc_requests (evict_service v s) = tc_requests s \<and> tc_names (evict_service v s) = tc_names s"
    by (cases "snd (tc_services s ! v)") (simp_all add: evict_service_def Let_def split_def)
  then show ?thesis using Ci_Over by (auto intro!: requests_inv_cong [OF inv])
next
  case Ci_Close
  then show ?thesis by (auto intro!: requests_inv_cong [OF inv])
qed (simp_all add: inv request_inv_create request_inv_accepted request_inv_scan request_inv_candidate request_inv_publish request_inv_build
    request_inv_record)

lemma coll_reach_requests: "coll_reach s \<Longrightarrow> requests_inv s"
proof (induction rule: coll_reach.induct)
  case (start recs names)
  then show ?case
    by (simp add: requests_inv_def new_collection_def kq_init, simp add: new_keyed_queue_def)
next
  case (does s q)
  then show ?case by (intro coll_do_requests)
qed


definition answered :: "collection \<Rightarrow> nat \<Rightarrow> string \<Rightarrow> bool" where
  "answered s t tid \<longleftrightarrow>
     request_phase s t = Some (Rq_Over (Rp_Created tid)) \<or> request_phase s t = Some (Rq_Over (Rp_Replayed tid))"

text \<open>
  C30. A request id makes at most one Team, over any interleaving of requests (repeated, concurrent, with the
  same or another payload), name collisions, failed steps and changes of records.  No two records
  carry the same request id.  A request that is answered with a Team names the record that carries its
  id and its payload hash; every other request of that id that is answered with a Team is answered
  with the same one and has the same payload, and one that is answered with a conflict has another payload.
\<close>

theorem request_creates_once:
  assumes "coll_reach s"
  shows "(\<forall>m n r q. tc_records s m = Some r \<longrightarrow> tc_records s n = Some q \<longrightarrow> tr_request r \<noteq> None \<longrightarrow>
       tr_request r = tr_request q \<longrightarrow> m = n) \<and>
    (\<forall>t u tid. answered s t tid \<longrightarrow>
       backed (tc_records s) (request_of s t) tid \<and>
       (cq_id (request_of s u) = cq_id (request_of s t) \<longrightarrow>
          (\<forall>tid'. answered s u tid' \<longrightarrow> tid' = tid \<and> cq_hash (request_of s u) = cq_hash (request_of s t)) \<and>
          (request_phase s u = Some (Rq_Over Rp_Conflict) \<longrightarrow> cq_hash (request_of s u) \<noteq> cq_hash (request_of s t))))"
proof -
  note inv = coll_reach_requests [OF assms]
  have once: "m = n"
    if "tc_records s m = Some r" "tc_records s n = Some q" "tr_request r \<noteq> None" "tr_request r = tr_request q" for m n r q
    using inv that unfolding requests_inv_def records_ok_def by blast
  have b: "\<exists>r. tc_records s tid = Some r \<and> tr_request r = Some (cq_id (request_of s t)) \<and>
      tr_payload r = Some (cq_hash (request_of s t))" if "answered s t tid" for t tid
    using that request_at(3) [OF inv, of t] by (auto simp: answered_def phase_ok_def backed_def split: option.splits)
  have conflict: "\<exists>n r. tc_records s n = Some r \<and> tr_request r = Some (cq_id (request_of s u)) \<and>
      tr_payload r \<noteq> Some (cq_hash (request_of s u))" if "request_phase s u = Some (Rq_Over Rp_Conflict)" for u
    using request_at(3) [OF inv that] by (simp add: phase_ok_def)
  have same: "tid' = tid \<and> cq_hash (request_of s u) = cq_hash (request_of s t)"
    if a: "answered s t tid" "answered s u tid'" "cq_id (request_of s u) = cq_id (request_of s t)" for t u tid tid'
  proof -
    obtain r q where "tc_records s tid = Some r" "tr_request r = Some (cq_id (request_of s t))"
        "tr_payload r = Some (cq_hash (request_of s t))" "tc_records s tid' = Some q"
        "tr_request q = Some (cq_id (request_of s u))" "tr_payload q = Some (cq_hash (request_of s u))"
      using b [OF a(1)] b [OF a(2)] by blast
    then show ?thesis using once [of tid' q tid r] a(3) by auto
  qed
  have differs: "cq_hash (request_of s u) \<noteq> cq_hash (request_of s t)"
    if a: "answered s t tid" "request_phase s u = Some (Rq_Over Rp_Conflict)" "cq_id (request_of s u) = cq_id (request_of s t)"
    for t u tid
  proof -
    obtain r q n where "tc_records s tid = Some r" "tr_request r = Some (cq_id (request_of s t))"
        "tr_payload r = Some (cq_hash (request_of s t))" "tc_records s n = Some q"
        "tr_request q = Some (cq_id (request_of s u))" "tr_payload q \<noteq> Some (cq_hash (request_of s u))"
      using b [OF a(1)] conflict [OF a(2)] by blast
    then show ?thesis using once [of n q tid r] a(3) by auto
  qed
  have backs: "backed (tc_records s) (request_of s t) tid" if "answered s t tid" for t tid
    using b [OF that] by (auto simp: backed_def)
  show ?thesis
    using once backs same differs by blast
qed

text \<open>
  One request twice and once more with another payload, while another Team takes the first candidate
  name: one creation, one replay, one conflict.
\<close>

definition rq :: "string \<Rightarrow> string \<Rightarrow> create_request" where
  "rq rid h = \<lparr> cq_id = rid, cq_hash = h, cq_intent = ''site'' \<rparr>"

definition creation_inputs :: "coll_input list" where
  "creation_inputs =
     [Ci_Create (rq ''r1'' ''h1''), Ci_Create (rq ''r1'' ''h1''), Ci_Create (rq ''r1'' ''h2''),
      Ci_Accepted 1 True, Ci_Accepted 0 True, Ci_Scan 0, Ci_Scan 0, Ci_Resolve 0 True,
      Ci_Candidate 0 ''web-a'', Ci_Acquire 0, Ci_Candidate 0 ''web-b'', Ci_Acquire 0, Ci_Workspace 0 True,
      Ci_Publish 0 1 closed_team True, Ci_Open ''web-b'', Ci_Build 0 True False, Ci_Join 0 (Some 0) False,
      Ci_Accepted 1 True, Ci_Scan 1, Ci_Scan 1, Ci_Scan 1,
      Ci_Accepted 2 True, Ci_Scan 2, Ci_Scan 2, Ci_Scan 2]"

definition creation_run :: collection where
  "creation_run = fold coll_do creation_inputs
     (new_collection [''web-a''] [''web-a'' \<mapsto> closed_team\<lparr>tr_team := ''web-a'', tr_status := Ts_Running\<rparr>])"

lemma coll_reach_fold: "coll_reach s \<Longrightarrow> coll_reach (fold coll_do qs s)"
  by (induction qs arbitrary: s) (auto intro: coll_reach.does)

lemma creation_run_reached: "coll_reach creation_run"
  unfolding creation_run_def
  by (intro coll_reach_fold coll_reach.start) (auto simp: records_ok_def split: if_splits)

lemma creation_replies:
  "(request_phase creation_run 0, request_phase creation_run 1, request_phase creation_run 2) =
     (Some (Rq_Over (Rp_Created ''web-b'')), Some (Rq_Over (Rp_Replayed ''web-b'')), Some (Rq_Over Rp_Conflict))"
  by code_simp

lemma creation_requests:
  "(request_of creation_run 0, request_of creation_run 1, request_of creation_run 2) =
     (rq ''r1'' ''h1'', rq ''r1'' ''h1'', rq ''r1'' ''h2'')"
  by code_simp

theorem request_creates_once_witness:
  "answered creation_run 0 ''web-b'' \<and> answered creation_run 1 ''web-b'' \<and>
   backed (tc_records creation_run) (request_of creation_run 0) ''web-b'' \<and>
   request_phase creation_run 2 = Some (Rq_Over Rp_Conflict) \<and>
   cq_hash (request_of creation_run 2) \<noteq> cq_hash (request_of creation_run 0)"
proof -
  have a: "answered creation_run 0 ''web-b''" "answered creation_run 1 ''web-b''"
      "request_phase creation_run 2 = Some (Rq_Over Rp_Conflict)"
      "cq_id (request_of creation_run 2) = cq_id (request_of creation_run 0)"
    using creation_replies creation_requests by (simp_all add: answered_def rq_def)
  note all = request_creates_once [OF creation_run_reached, THEN conjunct2, rule_format, OF a(1)]
  show ?thesis using a all [THEN conjunct1] all [THEN conjunct2, rule_format, OF a(4)] by simp
qed

subsection \<open>Services\<close>

text \<open>
  What a constructor has of the name it claims: the name alone, the name of a Team that is not running,
  a name without record, or a service, before and after its record is there.
\<close>

datatype stage = Holding | Opening | Preparing | Publishing nat | Built nat

fun request_claim :: "create_phase \<Rightarrow> (string \<times> stage) option" where
  "request_claim (Rq_Acquire _ n) = Some (n, Holding)"
| "request_claim (Rq_Workspace _ n) = Some (n, Preparing)"
| "request_claim (Rq_Publish _ n v) = Some (n, Publishing v)"
| "request_claim (Rq_Discard _ n _) = Some (n, Holding)"
| "request_claim (Rq_Build n v) = Some (n, Built v)"
| "request_claim _ = None"

fun open_claim :: "open_phase \<Rightarrow> (string \<times> stage) option" where
  "open_claim (Op_Acquire n) = Some (n, Opening)"
| "open_claim (Op_Build n v) = Some (n, Built v)"
| "open_claim _ = None"

fun claim_of :: "collection \<Rightarrow> constructor_of \<Rightarrow> (string \<times> stage) option" where
  "claim_of s (By_Request t) = Option.bind (request_phase s t) request_claim"
| "claim_of s (By_Open u) = Option.bind (open_of s u) open_claim"

fun claim_ok :: "(string \<Rightarrow> team_record option) \<Rightarrow> (string \<Rightarrow> nat option) \<Rightarrow> (string \<times> service_state) list \<Rightarrow>
    string \<Rightarrow> stage \<Rightarrow> bool" where
  "claim_ok R L S n Holding = True"
| "claim_ok R L S n Opening = (L n = None)"
| "claim_ok R L S n Preparing = (R n = None)"
| "claim_ok R L S n (Publishing v) = (R n = None \<and> v < length S \<and> (\<exists>b. S ! v = (n, Sv_Building b)))"
| "claim_ok R L S n (Built v) =
     (R n \<noteq> None \<and> L n = None \<and> v < length S \<and> (\<exists>b. S ! v = (n, Sv_Building b)))"

definition sinv where
  "sinv R L C S K \<longleftrightarrow>
     (\<forall>n c. C n = Some c \<longleftrightarrow> (\<exists>st. K c = Some (n, st))) \<and>
     (\<forall>n v. L n = Some v \<longrightarrow> v < length S \<and> S ! v = (n, Sv_Live) \<and> R n \<noteq> None) \<and>
     (\<forall>v n. v < length S \<longrightarrow> S ! v = (n, Sv_Live) \<longrightarrow> L n = Some v) \<and>
     (\<forall>v n b. v < length S \<longrightarrow> S ! v = (n, Sv_Building b) \<longrightarrow>
        (\<exists>c. K c = Some (n, Publishing v) \<or> K c = Some (n, Built v))) \<and>
     (\<forall>c n st. K c = Some (n, st) \<longrightarrow> claim_ok R L S n st)"

lemma sinvI:
  assumes "\<And>n c. C n = Some c \<longleftrightarrow> (\<exists>st. K c = Some (n, st))"
    and "\<And>n v. L n = Some v \<Longrightarrow> v < length S \<and> S ! v = (n, Sv_Live) \<and> R n \<noteq> None"
    and "\<And>v n. v < length S \<Longrightarrow> S ! v = (n, Sv_Live) \<Longrightarrow> L n = Some v"
    and "\<And>v n b. v < length S \<Longrightarrow> S ! v = (n, Sv_Building b) \<Longrightarrow>
        \<exists>c. K c = Some (n, Publishing v) \<or> K c = Some (n, Built v)"
    and "\<And>c n st. K c = Some (n, st) \<Longrightarrow> claim_ok R L S n st"
  shows "sinv R L C S K"
  unfolding sinv_def using assms by blast

lemma sinvD:
  assumes "sinv R L C S K"
  shows "C n = Some c \<longleftrightarrow> (\<exists>st. K c = Some (n, st))"
    and "L n = Some v \<Longrightarrow> v < length S \<and> S ! v = (n, Sv_Live) \<and> R n \<noteq> None"
    and "v < length S \<Longrightarrow> S ! v = (n, Sv_Live) \<Longrightarrow> L n = Some v"
    and "v < length S \<Longrightarrow> S ! v = (n, Sv_Building b) \<Longrightarrow>
        \<exists>c. K c = Some (n, Publishing v) \<or> K c = Some (n, Built v)"
    and "K c = Some (n, st) \<Longrightarrow> claim_ok R L S n st"
  using assms unfolding sinv_def by blast+

lemma claim_unique:
  assumes "sinv R L C S K" "K c = Some (n, st)" "K d = Some (n, st')"
  shows "d = c \<and> st' = st"
  using sinvD(1) [OF assms(1), of n c] sinvD(1) [OF assms(1), of n d] assms(2,3) by auto

fun serviced :: "stage \<Rightarrow> nat option" where
  "serviced (Publishing v) = Some v"
| "serviced (Built v) = Some v"
| "serviced _ = None"

lemma serviced_at:
  assumes "sinv R L C S K" "K c = Some (n, st)" "serviced st = Some v"
  shows "v < length S \<and> (\<exists>b. S ! v = (n, Sv_Building b)) \<and> (st = Publishing v \<or> st = Built v) \<and> L n = None"
proof -
  have "claim_ok R L S n st" using sinvD(5) [OF assms(1,2)] .
  moreover have "L n = None" if "R n = None" using sinvD(2) [OF assms(1), of n] that by (cases "L n") auto
  ultimately show ?thesis using assms(3) by (cases st) auto
qed

text \<open>A claim is taken, changes its stage, and is released.\<close>

lemma claim_new:
  assumes inv: "sinv R L C S K" and c: "K c = None" and n: "C n = None" and st: "claim_ok R L S n st" "serviced st = None"
  shows "sinv R L (C(n := Some c)) S (K(c := Some (n, st)))"
proof (rule sinvI)
  fix m d
  show "(C(n := Some c)) m = Some d \<longleftrightarrow> (\<exists>st'. (K(c := Some (n, st))) d = Some (m, st'))"
    using sinvD(1) [OF inv, of m d] c n by auto
next
  fix v m b assume "v < length S" "S ! v = (m, Sv_Building b)"
  from sinvD(4) [OF inv this] show
    "\<exists>d. (K(c := Some (n, st))) d = Some (m, Publishing v) \<or> (K(c := Some (n, st))) d = Some (m, Built v)"
    using c by (metis fun_upd_other option.distinct(1))
next
  fix d m st' assume "(K(c := Some (n, st))) d = Some (m, st')"
  then show "claim_ok R L S m st'" using st sinvD(5) [OF inv, of d m st'] by (auto split: if_splits)
qed (erule sinvD(2) [OF inv] | (rule sinvD(3) [OF inv]; assumption))+

lemma claim_moves:
  assumes inv: "sinv R L C S K" and c: "K c = Some (n, st)" "serviced st = None"
    and st': "claim_ok R L S n st'" "serviced st' = None"
  shows "sinv R L C S (K(c := Some (n, st')))"
proof (rule sinvI)
  fix m d
  show "C m = Some d \<longleftrightarrow> (\<exists>x. (K(c := Some (n, st'))) d = Some (m, x))"
    using sinvD(1) [OF inv, of m d] c by auto
next
  fix v m b assume "v < length S" "S ! v = (m, Sv_Building b)"
  from sinvD(4) [OF inv this] obtain d where d: "K d = Some (m, Publishing v) \<or> K d = Some (m, Built v)" by blast
  then have "d \<noteq> c" using c by auto
  then show "\<exists>d. (K(c := Some (n, st'))) d = Some (m, Publishing v) \<or> (K(c := Some (n, st'))) d = Some (m, Built v)"
    using d by (intro exI [of _ d]) simp
next
  fix d m x assume "(K(c := Some (n, st'))) d = Some (m, x)"
  then show "claim_ok R L S m x" using st' sinvD(5) [OF inv, of d m x] by (auto split: if_splits)
qed (erule sinvD(2) [OF inv] | (rule sinvD(3) [OF inv]; assumption))+

lemma claim_released:
  assumes inv: "sinv R L C S K" and c: "K c = Some (n, st)" "serviced st = None"
  shows "sinv R L (C(n := None)) S (K(c := None))"
proof (rule sinvI)
  fix m d
  show "(C(n := None)) m = Some d \<longleftrightarrow> (\<exists>x. (K(c := None)) d = Some (m, x))"
  proof (cases "m = n")
    case True
    have "(K(c := None)) d \<noteq> Some (n, x)" for x
      using claim_unique [OF inv c(1), of d x] by auto
    then show ?thesis using True by simp
  next
    case False
    then show ?thesis using sinvD(1) [OF inv, of m d] c by auto
  qed
next
  fix v m b assume "v < length S" "S ! v = (m, Sv_Building b)"
  from sinvD(4) [OF inv this] obtain d where d: "K d = Some (m, Publishing v) \<or> K d = Some (m, Built v)" by blast
  then have "d \<noteq> c" using c by auto
  then show "\<exists>d. (K(c := None)) d = Some (m, Publishing v) \<or> (K(c := None)) d = Some (m, Built v)"
    using d by (intro exI [of _ d]) simp
next
  fix d m x assume "(K(c := None)) d = Some (m, x)"
  then show "claim_ok R L S m x" using sinvD(5) [OF inv, of d m x] by (auto split: if_splits)
qed (erule sinvD(2) [OF inv] | (rule sinvD(3) [OF inv]; assumption))+

text \<open>The service of a claim: it is built, its record is published, and it is held or dropped.\<close>

lemma claim_ok_mono:
  "claim_ok R L S n st \<Longrightarrow> claim_ok R L (S @ xs) n st"
  by (cases st) (auto simp: nth_append)

lemma service_built:
  assumes inv: "sinv R L C S K" and c: "K c = Some (n, st)" "serviced st = None" and L: "L n = None"
    and st': "st' = (if R n = None then Publishing (length S) else Built (length S))"
  shows "sinv R L C (S @ [(n, Sv_Building False)]) (K(c := Some (n, st')))"
proof (rule sinvI)
  fix m d
  show "C m = Some d \<longleftrightarrow> (\<exists>x. (K(c := Some (n, st'))) d = Some (m, x))"
    using sinvD(1) [OF inv, of m d] c by auto
next
  fix v m b assume v: "v < length (S @ [(n, Sv_Building False)])" "(S @ [(n, Sv_Building False)]) ! v = (m, Sv_Building b)"
  show "\<exists>d. (K(c := Some (n, st'))) d = Some (m, Publishing v) \<or> (K(c := Some (n, st'))) d = Some (m, Built v)"
  proof (cases "v < length S")
    case True
    then obtain d where d: "K d = Some (m, Publishing v) \<or> K d = Some (m, Built v)"
      using sinvD(4) [OF inv, of v m b] v by (auto simp: nth_append)
    then have "d \<noteq> c" using c by auto
    then show ?thesis using d by (intro exI [of _ d]) simp
  next
    case False
    then have "v = length S" "m = n" using v by (auto simp: nth_append)
    then show ?thesis using st' by (intro exI [of _ c]) simp
  qed
next
  fix d m x assume d: "(K(c := Some (n, st'))) d = Some (m, x)"
  show "claim_ok R L (S @ [(n, Sv_Building False)]) m x"
  proof (cases "d = c")
    case True
    then show ?thesis using d L st' by (auto split: if_splits)
  next
    case False
    then show ?thesis using d sinvD(5) [OF inv, of d m x] claim_ok_mono by simp
  qed
next
  fix m v assume "L m = Some v"
  from sinvD(2) [OF inv this] show "v < length (S @ [(n, Sv_Building False)]) \<and>
      (S @ [(n, Sv_Building False)]) ! v = (m, Sv_Live) \<and> R m \<noteq> None"
    by (auto simp: nth_append)
next
  fix v m assume "v < length (S @ [(n, Sv_Building False)])" "(S @ [(n, Sv_Building False)]) ! v = (m, Sv_Live)"
  then show "L m = Some v" using sinvD(3) [OF inv, of v m] by (auto simp: nth_append split: if_splits)
qed

lemma record_published:
  assumes inv: "sinv R L C S K" and c: "K c = Some (n, Publishing v)"
  shows "sinv (R(n := Some r)) L C S (K(c := Some (n, Built v)))"
proof (rule sinvI)
  note here = serviced_at [OF inv c]
  fix m d
  show "C m = Some d \<longleftrightarrow> (\<exists>x. (K(c := Some (n, Built v))) d = Some (m, x))"
    using sinvD(1) [OF inv, of m d] c by auto
next
  fix w m b assume "w < length S" "S ! w = (m, Sv_Building b)"
  from sinvD(4) [OF inv this] obtain d where d: "K d = Some (m, Publishing w) \<or> K d = Some (m, Built w)" by blast
  then show "\<exists>d. (K(c := Some (n, Built v))) d = Some (m, Publishing w) \<or> (K(c := Some (n, Built v))) d = Some (m, Built w)"
    using c by (intro exI [of _ d]) auto
next
  fix d m x assume d: "(K(c := Some (n, Built v))) d = Some (m, x)"
  show "claim_ok (R(n := Some r)) L S m x"
  proof (cases "d = c")
    case True
    then show ?thesis using d serviced_at [OF inv c] by auto
  next
    case False
    then have k: "K d = Some (m, x)" using d by simp
    then have "m \<noteq> n" using claim_unique [OF inv c, of d x] False by auto
    then show ?thesis using sinvD(5) [OF inv k] by (cases x) auto
  qed
next
  fix m w assume "L m = Some w"
  from sinvD(2) [OF inv this] show "w < length S \<and> S ! w = (m, Sv_Live) \<and> (R(n := Some r)) m \<noteq> None" by simp
qed (rule sinvD(3) [OF inv]; assumption)


text \<open>Another service's state changes: what the other claims say stays.\<close>

lemma claim_ok_other:
  assumes "claim_ok R L S m x" "serviced x \<noteq> Some v" "\<And>k. k \<noteq> n \<Longrightarrow> L' k = L k" "m \<noteq> n \<or> L' n = None"
  shows "claim_ok R L' (S[v := p]) m x"
proof -
  have "L m = None \<Longrightarrow> L' m = None" using assms(3) [of m] assms(4) by (cases "m = n") auto
  then show ?thesis using assms(1,2) by (cases x) (auto simp: nth_list_update)
qed

lemma service_dropped:
  assumes inv: "sinv R L C S K" and c: "K c = Some (n, st)" "serviced st = Some v"
  shows "sinv R L C (S[v := (n, Sv_Gone)]) (K(c := Some (n, Holding)))"
proof (rule sinvI)
  fix m d
  show "C m = Some d \<longleftrightarrow> (\<exists>x. (K(c := Some (n, Holding))) d = Some (m, x))"
    using sinvD(1) [OF inv, of m d] c by auto
next
  fix w m b assume w: "w < length (S[v := (n, Sv_Gone)])" "S[v := (n, Sv_Gone)] ! w = (m, Sv_Building b)"
  then have wv: "w \<noteq> v" by auto
  then obtain d where d: "K d = Some (m, Publishing w) \<or> K d = Some (m, Built w)"
    using sinvD(4) [OF inv, of w m b] w by auto
  then have "d \<noteq> c" using c wv by auto
  then show "\<exists>d. (K(c := Some (n, Holding))) d = Some (m, Publishing w) \<or> (K(c := Some (n, Holding))) d = Some (m, Built w)"
    using d by (intro exI [of _ d]) simp
next
  fix d m x assume d: "(K(c := Some (n, Holding))) d = Some (m, x)"
  show "claim_ok R L (S[v := (n, Sv_Gone)]) m x"
  proof (cases "d = c")
    case True
    then show ?thesis using d by auto
  next
    case False
    then have k: "K d = Some (m, x)" using d by simp
    have m: "m \<noteq> n" using claim_unique [OF inv c(1), of d x] False k by auto
    have "serviced x \<noteq> Some v"
      using serviced_at [OF inv k, of v] serviced_at [OF inv c] m by auto
    then show ?thesis using claim_ok_other [OF sinvD(5) [OF inv k]] m by blast
  qed
next
  fix m w assume "L m = Some w"
  from sinvD(2) [OF inv this] show "w < length (S[v := (n, Sv_Gone)]) \<and> S[v := (n, Sv_Gone)] ! w = (m, Sv_Live) \<and> R m \<noteq> None"
    using serviced_at [OF inv c] by (auto simp: nth_list_update)
next
  fix w m assume "w < length (S[v := (n, Sv_Gone)])" "S[v := (n, Sv_Gone)] ! w = (m, Sv_Live)"
  then show "L m = Some w" using sinvD(3) [OF inv, of w m] by (cases "w = v") auto
qed

lemma service_held:
  assumes inv: "sinv R L C S K" and c: "K c = Some (n, Built v)"
  shows "sinv R (L(n := Some v)) C (S[v := (n, Sv_Live)]) (K(c := Some (n, Holding)))"
proof (rule sinvI)
  fix m d
  show "C m = Some d \<longleftrightarrow> (\<exists>x. (K(c := Some (n, Holding))) d = Some (m, x))"
    using sinvD(1) [OF inv, of m d] c by auto
next
  fix w m b assume w: "w < length (S[v := (n, Sv_Live)])" "S[v := (n, Sv_Live)] ! w = (m, Sv_Building b)"
  then have wv: "w \<noteq> v" by auto
  then obtain d where d: "K d = Some (m, Publishing w) \<or> K d = Some (m, Built w)"
    using sinvD(4) [OF inv, of w m b] w by auto
  then have "d \<noteq> c" using c wv by auto
  then show "\<exists>d. (K(c := Some (n, Holding))) d = Some (m, Publishing w) \<or> (K(c := Some (n, Holding))) d = Some (m, Built w)"
    using d by (intro exI [of _ d]) simp
next
  fix d m x assume d: "(K(c := Some (n, Holding))) d = Some (m, x)"
  show "claim_ok R (L(n := Some v)) (S[v := (n, Sv_Live)]) m x"
  proof (cases "d = c")
    case True
    then show ?thesis using d by auto
  next
    case False
    then have k: "K d = Some (m, x)" using d by simp
    have m: "m \<noteq> n" using claim_unique [OF inv c, of d x] False k by auto
    have "serviced x \<noteq> Some v"
      using serviced_at [OF inv k, of v] serviced_at [OF inv c] m by auto
    then show ?thesis using claim_ok_other [OF sinvD(5) [OF inv k], of v n "L(n := Some v)"] m by auto
  qed
next
  fix m w assume w: "(L(n := Some v)) m = Some w"
  show "w < length (S[v := (n, Sv_Live)]) \<and> S[v := (n, Sv_Live)] ! w = (m, Sv_Live) \<and> R m \<noteq> None"
  proof (cases "m = n")
    case True
    then show ?thesis using w serviced_at [OF inv c] sinvD(5) [OF inv c] by auto
  next
    case False
    then have "L m = Some w" using w by simp
    from sinvD(2) [OF inv this] show ?thesis using serviced_at [OF inv c] by (auto simp: nth_list_update)
  qed
next
  fix w m assume w: "w < length (S[v := (n, Sv_Live)])" "S[v := (n, Sv_Live)] ! w = (m, Sv_Live)"
  show "(L(n := Some v)) m = Some w"
  proof (cases "w = v")
    case True
    then show ?thesis using w by auto
  next
    case False
    then have "L m = Some w" using sinvD(3) [OF inv, of w m] w by auto
    moreover have "L n = None" using serviced_at [OF inv c, of v] by simp
    ultimately show ?thesis by auto
  qed
qed

text \<open>What the Teams do themselves.\<close>

lemma records_kept:
  assumes inv: "sinv R L C S K" and R: "\<And>n. R' n = None \<longleftrightarrow> R n = None"
  shows "sinv R' L C S K"
proof (rule sinvI)
  fix c n st assume "K c = Some (n, st)"
  from sinvD(5) [OF inv this] show "claim_ok R' L S n st" using R [of n] by (cases st) auto
next
  fix n v assume "L n = Some v"
  from sinvD(2) [OF inv this] show "v < length S \<and> S ! v = (n, Sv_Live) \<and> R' n \<noteq> None" using R [of n] by simp
qed (rule sinvD(1,3,4) [OF inv]; assumption?)+

lemma end_marked:
  assumes inv: "sinv R L C S K" and v: "v < length S" "S ! v = (n, Sv_Building b)"
  shows "sinv R L C (S[v := (n, Sv_Building b')]) K"
proof (rule sinvI)
  fix c m st assume "K c = Some (m, st)"
  from sinvD(5) [OF inv this] show "claim_ok R L (S[v := (n, Sv_Building b')]) m st"
    using v by (cases st) (auto simp: nth_list_update)
next
  fix m w assume "L m = Some w"
  from sinvD(2) [OF inv this] show "w < length (S[v := (n, Sv_Building b')]) \<and> S[v := (n, Sv_Building b')] ! w = (m, Sv_Live) \<and> R m \<noteq> None"
    using v by (auto simp: nth_list_update)
next
  fix w m assume "w < length (S[v := (n, Sv_Building b')])" "S[v := (n, Sv_Building b')] ! w = (m, Sv_Live)"
  then show "L m = Some w" using sinvD(3) [OF inv, of w m] by (cases "w = v") auto
next
  fix w m b'' assume "w < length (S[v := (n, Sv_Building b')])" "S[v := (n, Sv_Building b')] ! w = (m, Sv_Building b'')"
  then show "\<exists>c. K c = Some (m, Publishing w) \<or> K c = Some (m, Built w)"
    using sinvD(4) [OF inv, of w m] v by (auto simp: nth_list_update split: if_splits)
qed (rule sinvD(1) [OF inv])

lemma service_evicted:
  assumes inv: "sinv R L C S K" and v: "v < length S" "S ! v = (n, Sv_Live)"
  shows "sinv R (L(n := None)) C (S[v := (n, Sv_Gone)]) K"
proof (rule sinvI)
  have Ln: "L n = Some v" using sinvD(3) [OF inv v] .
  fix c m st assume k: "K c = Some (m, st)"
  have "serviced st \<noteq> Some v" using serviced_at [OF inv k, of v] v by auto
  then show "claim_ok R (L(n := None)) (S[v := (n, Sv_Gone)]) m st"
    using claim_ok_other [OF sinvD(5) [OF inv k], of v n "L(n := None)"] by auto
next
  have Ln: "L n = Some v" using sinvD(3) [OF inv v] .
  fix m w assume w: "(L(n := None)) m = Some w"
  then have "L m = Some w" "m \<noteq> n" by (auto split: if_splits)
  then show "w < length (S[v := (n, Sv_Gone)]) \<and> S[v := (n, Sv_Gone)] ! w = (m, Sv_Live) \<and> R m \<noteq> None"
    using sinvD(2) [OF inv, of m w] v by (auto simp: nth_list_update)
next
  have Ln: "L n = Some v" using sinvD(3) [OF inv v] .
  fix w m assume "w < length (S[v := (n, Sv_Gone)])" "S[v := (n, Sv_Gone)] ! w = (m, Sv_Live)"
  then show "(L(n := None)) m = Some w" using sinvD(3) [OF inv, of w m] Ln by (cases "w = v") auto
next
  fix w m b assume "w < length (S[v := (n, Sv_Gone)])" "S[v := (n, Sv_Gone)] ! w = (m, Sv_Building b)"
  then show "\<exists>c. K c = Some (m, Publishing w) \<or> K c = Some (m, Built w)"
    using sinvD(4) [OF inv, of w m] by (cases "w = v") auto
qed (rule sinvD(1) [OF inv])

definition services_inv :: "collection \<Rightarrow> bool" where
  "services_inv s \<longleftrightarrow> sinv (tc_records s) (tc_live s) (tc_constructing s) (tc_services s) (claim_of s)"

lemma claim_of_cong:
  assumes "tc_requests s' = tc_requests s" "tc_opens s' = tc_opens s"
  shows "claim_of s' = claim_of s"
proof
  fix c show "claim_of s' c = claim_of s c" using assms by (cases c) (simp_all add: request_phase_def open_of_def)
qed

lemma service_fields [simp]:
  "tc_live (set_phase_of t p s) = tc_live s" "tc_live (answer_request t rp s) = tc_live s" "tc_live (set_open u o' s) = tc_live s"
  "tc_live (end_construction tid s) = tc_live s" "tc_live (set_service v st s) = tc_live s"
  "tc_live (new_service tid s) = tc_live s"
  "tc_constructing (set_phase_of t p s) = tc_constructing s" "tc_constructing (answer_request t rp s) = tc_constructing s"
  "tc_constructing (set_open u o' s) = tc_constructing s" "tc_constructing (set_service v st s) = tc_constructing s"
  "tc_constructing (new_service tid s) = tc_constructing s"
  "tc_constructing (end_construction tid s) = (tc_constructing s)(tid := None)"
  "tc_services (set_phase_of t p s) = tc_services s" "tc_services (answer_request t rp s) = tc_services s"
  "tc_services (set_open u o' s) = tc_services s" "tc_services (end_construction tid s) = tc_services s"
  "tc_services (set_service v st s) = (tc_services s)[v := (fst (tc_services s ! v), st)]"
  "tc_services (new_service tid s) = tc_services s @ [(tid, Sv_Building False)]"
  "tc_records (set_phase_of t p s) = tc_records s" "tc_records (answer_request t rp s) = tc_records s"
  "request_phase (set_open u o' s) = request_phase s" "open_of (set_phase_of t p s) = open_of s"
  "request_phase (set_service v st s) = request_phase s" "open_of (set_service v st s) = open_of s"
  "request_phase (track v tid s) = request_phase s" "open_of (track v tid s) = open_of s"
  by (auto simp: set_phase_of_def answer_request_def set_open_def end_construction_def set_service_def new_service_def track_def
      request_phase_def open_of_def)

lemma claim_fields [simp]:
  "claim_of (end_construction tid s) = claim_of s" "claim_of (set_service v st s) = claim_of s"
  "claim_of (new_service tid s) = claim_of s" "claim_of (track v tid s) = claim_of s"
  by (rule claim_of_cong; simp add: end_construction_def set_service_def new_service_def track_def)+

lemma claim_set_phase:
  assumes "request_phase s t = Some p"
  shows "claim_of (set_phase_of t p' s) = (claim_of s)(By_Request t := request_claim p')"
    "claim_of (answer_request t rp s) = (claim_of s)(By_Request t := None)"
proof -
  have t: "t < length (tc_requests s)" using assms by (simp add: request_phase_def split: if_splits)
  show a: "claim_of (set_phase_of t p' s) = (claim_of s)(By_Request t := request_claim p')" for p'
  proof
    fix c show "claim_of (set_phase_of t p' s) c = ((claim_of s)(By_Request t := request_claim p')) c"
      using t by (cases c) (auto simp: request_phase_def set_phase_of_def open_of_def)
  qed
  have "claim_of (answer_request t rp s) = claim_of (set_phase_of t (Rq_Over rp) s)"
    by (rule claim_of_cong) (simp_all add: answer_request_def)
  then show "claim_of (answer_request t rp s) = (claim_of s)(By_Request t := None)" using a by simp
qed

lemma claim_set_open:
  assumes "open_of s u = Some p"
  shows "claim_of (set_open u p' s) = (claim_of s)(By_Open u := open_claim p')"
proof
  have u: "u < length (tc_opens s)" using assms by (simp add: open_of_def split: if_splits)
  fix c show "claim_of (set_open u p' s) c = ((claim_of s)(By_Open u := open_claim p')) c"
    using u by (cases c) (auto simp: request_phase_def set_open_def open_of_def)
qed

lemma claim_at:
  "request_phase s t = Some p \<Longrightarrow> claim_of s (By_Request t) = request_claim p"
  "open_of s u = Some o' \<Longrightarrow> claim_of s (By_Open u) = open_claim o'"
  by simp_all

lemma idle_request:
  assumes "request_phase s t = Some p" "request_claim p = None"
  shows "request_claim p' = None \<Longrightarrow> claim_of (set_phase_of t p' s) = claim_of s" "claim_of (answer_request t rp s) = claim_of s"
  using assms claim_set_phase [OF assms(1)] by (simp_all add: fun_upd_idem)

lemma services_inv_idle:
  assumes "services_inv s" "claim_of s' = claim_of s" "tc_records s' = tc_records s" "tc_live s' = tc_live s"
    "tc_constructing s' = tc_constructing s" "tc_services s' = tc_services s"
  shows "services_inv s'"
  using assms by (simp add: services_inv_def)

lemma idle_steps:
  assumes inv: "services_inv s" and at: "request_phase s t = Some p" "request_claim p = None"
  shows "request_claim p' = None \<Longrightarrow> services_inv (set_phase_of t p' s)" "services_inv (answer_request t rp s)"
  by (rule services_inv_idle [OF inv]; simp add: idle_request [OF at])+

lemma services_create: "services_inv s \<Longrightarrow> services_inv (create_from_request rq' s)"
proof -
  assume inv: "services_inv s"
  have "claim_of (create_from_request rq' s) = claim_of s"
  proof
    fix c show "claim_of (create_from_request rq' s) c = claim_of s c"
      by (cases c) (auto simp: create_from_request_def request_phase_def open_of_def nth_append less_Suc_eq)
  qed
  then show ?thesis by (rule services_inv_idle [OF inv]) (simp_all add: create_from_request_def)
qed

lemma services_scan:
  assumes inv: "services_inv s"
  shows "services_inv (accepted_request t listed s)" "services_inv (scan_reads t s)" "services_inv (input_resolves t ok s)"
proof -
  note step = idle_steps [OF inv, of t]
  show "services_inv (accepted_request t listed s)"
    using inv step(1) [of Rq_Waiting] step(2) [of Rq_Waiting] by (simp add: accepted_request_def)
  show "services_inv (input_resolves t ok s)"
    using inv step(1) [of Rq_Resolve] step(2) [of Rq_Resolve] by (simp add: input_resolves_def)
  show "services_inv (scan_reads t s)"
  proof (cases "\<exists>ns found. request_phase s t = Some (Rq_Scan ns found)")
    case True
    then obtain ns found where at: "request_phase s t = Some (Rq_Scan ns found)" by blast
    note here = idle_steps [OF inv at]
    show ?thesis
      using at here by (cases ns) (auto simp: scan_reads_def split: option.split)
  next
    case False
    then have "scan_reads t s = s"
      by (cases "request_phase s t"; cases "the (request_phase s t)") (auto simp: scan_reads_def)
    then show ?thesis using inv by simp
  qed
qed

lemma services_taken:
  assumes inv: "services_inv s" and at: "request_phase s t = Some p" and c: "request_claim p = Some (tid, st)" "serviced st = None"
  shows "services_inv (candidate_taken t n tid s)" "services_inv (end_construction tid (answer_request t rp s))"
  using claim_released [OF inv [unfolded services_inv_def], of "By_Request t" tid st] c
  by (simp_all add: services_inv_def candidate_taken_def claim_set_phase [OF at] at)

lemma services_candidate:
  assumes inv: "services_inv s"
  shows "services_inv (candidate_drawn t name s)"
proof (cases "\<exists>n. request_phase s t = Some (Rq_Candidate n)")
  case False
  then have "candidate_drawn t name s = s"
    by (cases "request_phase s t"; cases "the (request_phase s t)") (auto simp: candidate_drawn_def)
  then show ?thesis using inv by simp
next
  case True
  then obtain n where at: "request_phase s t = Some (Rq_Candidate n)" by blast
  note idle = idle_steps [OF inv at]
  have claims: "services_inv ((set_phase_of t (Rq_Acquire n tid) s)
      \<lparr>tc_constructing := (tc_constructing s)(tid := Some (By_Request t))\<rparr>)" (is "services_inv ?s")
    if "tc_constructing s tid = None" for tid
  proof -
    have "claim_of ?s = claim_of (set_phase_of t (Rq_Acquire n tid) s)" by (rule claim_of_cong) simp_all
    then show ?thesis
      using claim_new [OF inv [unfolded services_inv_def], of "By_Request t" tid Holding] that at
      by (simp add: services_inv_def claim_set_phase [OF at])
  qed
  show ?thesis
    using idle claims by (auto simp: candidate_drawn_def at split: sum.split)
qed

lemma services_acquire:
  assumes inv: "services_inv s"
  shows "services_inv (create_acquires t s)"
proof (cases "\<exists>n tid. request_phase s t = Some (Rq_Acquire n tid)")
  case False
  then have "create_acquires t s = s"
    by (cases "request_phase s t"; cases "the (request_phase s t)") (auto simp: create_acquires_def)
  then show ?thesis using inv by simp
next
  case True
  then obtain n tid where at: "request_phase s t = Some (Rq_Acquire n tid)" by blast
  show ?thesis
  proof (cases "tc_records s tid")
    case None
    then have "services_inv (set_phase_of t (Rq_Workspace n tid) s)"
      using claim_moves [OF inv [unfolded services_inv_def], of "By_Request t" tid Holding Preparing] at
      by (simp add: services_inv_def claim_set_phase [OF at])
    then show ?thesis using None at by (simp add: create_acquires_def)
  next
    case (Some r)
    then show ?thesis using services_taken(1) [OF inv at] at by (simp add: create_acquires_def)
  qed
qed

lemma services_workspace:
  assumes inv: "services_inv s"
  shows "services_inv (workspace_prepared t ok s)"
proof (cases "\<exists>n tid. request_phase s t = Some (Rq_Workspace n tid)")
  case False
  then have "workspace_prepared t ok s = s"
    by (cases "request_phase s t"; cases "the (request_phase s t)") (auto simp: workspace_prepared_def)
  then show ?thesis using inv by simp
next
  case True
  then obtain n tid where at: "request_phase s t = Some (Rq_Workspace n tid)" by blast
  note i = inv [unfolded services_inv_def]
  have c: "claim_of s (By_Request t) = Some (tid, Preparing)" using at by simp
  have R: "tc_records s tid = None" using sinvD(5) [OF i c] by simp
  then have L: "tc_live s tid = None" using sinvD(2) [OF i, of tid] by (cases "tc_live s tid") auto
  have "services_inv (new_service tid (set_phase_of t (Rq_Publish n tid (length (tc_services s))) s))"
    using service_built [OF i c _ L] R by (simp add: services_inv_def claim_set_phase [OF at])
  then show ?thesis
    using services_taken(2) [OF inv at] at by (simp add: workspace_prepared_def)
qed

lemma building_name:
  assumes "sinv R L C S K" "K c = Some (n, st)" "serviced st = Some v"
  shows "fst (S ! v) = n"
  using serviced_at [OF assms] by auto

lemma services_publish:
  assumes inv: "services_inv s"
  shows "services_inv (create_publishes t now r ok s)"
proof (cases "\<exists>n tid v. request_phase s t = Some (Rq_Publish n tid v)")
  case False
  then have "create_publishes t now r ok s = s"
    by (cases "request_phase s t"; cases "the (request_phase s t)") (auto simp: create_publishes_def)
  then show ?thesis using inv by simp
next
  case True
  then obtain n tid v where at: "request_phase s t = Some (Rq_Publish n tid v)" by blast
  note i = inv [unfolded services_inv_def]
  have c: "claim_of s (By_Request t) = Some (tid, Publishing v)" using at by simp
  have name: "fst (tc_services s ! v) = tid" by (rule building_name [OF i c]) simp
  have drop: "services_inv (set_service v Sv_Gone (set_phase_of t (Rq_Discard n tid b) s))" for b
    using service_dropped [OF i c] by (simp add: services_inv_def claim_set_phase [OF at] name)
  have R: "tc_records s tid = None" using sinvD(5) [OF i c] by simp
  show ?thesis
  proof (cases ok)
    case False
    then show ?thesis using drop R at by (simp add: create_publishes_def)
  next
    case True
    let ?s = "create_publishes t now r ok s"
    have s': "tc_requests ?s = tc_requests (set_phase_of t (Rq_Build tid v) s)" "tc_opens ?s = tc_opens s"
        "tc_live ?s = tc_live s" "tc_constructing ?s = tc_constructing s" "tc_services ?s = tc_services s"
        "\<exists>q. tc_records ?s = (tc_records s)(tid := Some q)"
      using True R at by (auto simp: create_publishes_def set_phase_of_def)
    then have "claim_of ?s = claim_of (set_phase_of t (Rq_Build tid v) s)"
      by (intro claim_of_cong) (simp_all add: set_phase_of_def)
    then have k: "claim_of ?s = (claim_of s)(By_Request t := Some (tid, Built v))"
      by (simp add: claim_set_phase [OF at])
    obtain q where q: "tc_records ?s = (tc_records s)(tid := Some q)" using s'(6) by blast
    show ?thesis
      using record_published [OF i c, of q] unfolding services_inv_def k q s'(3,4,5) by simp
  qed
qed

lemma services_discard:
  assumes inv: "services_inv s"
  shows "services_inv (checkout_discarded t s)"
proof (cases "\<exists>n tid b. request_phase s t = Some (Rq_Discard n tid b)")
  case False
  then have "checkout_discarded t s = s"
    by (cases "request_phase s t"; cases "the (request_phase s t)") (auto simp: checkout_discarded_def)
  then show ?thesis using inv by simp
next
  case True
  then obtain n tid b where at: "request_phase s t = Some (Rq_Discard n tid b)" by blast
  show ?thesis
    using services_taken [OF inv at] at by (simp add: checkout_discarded_def)
qed

text \<open>However a construction ends: the service is held or dropped, and the name is free.\<close>

lemma construction_ends:
  assumes i: "sinv R L C S K" and c: "K c = Some (tid, Built v)"
  shows "sinv R L (C(tid := None)) (S[v := (tid, Sv_Gone)]) (K(c := None))"
    "sinv R (L(tid := Some v)) (C(tid := None)) (S[v := (tid, Sv_Live)]) (K(c := None))"
proof -
  show "sinv R L (C(tid := None)) (S[v := (tid, Sv_Gone)]) (K(c := None))"
    using claim_released [OF service_dropped [OF i c, of v], of c tid Holding] by simp
  show "sinv R (L(tid := Some v)) (C(tid := None)) (S[v := (tid, Sv_Live)]) (K(c := None))"
    using claim_released [OF service_held [OF i c], of c tid Holding] by simp
qed

lemma track_fields:
  "tc_constructing (track v tid s) = tc_constructing s"
  "snd (tc_services s ! v) = Sv_Building True \<Longrightarrow> tc_live (track v tid s) = tc_live s"
  "snd (tc_services s ! v) = Sv_Building True \<Longrightarrow>
     tc_services (track v tid s) = (tc_services s)[v := (fst (tc_services s ! v), Sv_Gone)]"
  "snd (tc_services s ! v) \<noteq> Sv_Building True \<Longrightarrow> tc_live (track v tid s) = (tc_live s)(tid := Some v)"
  "snd (tc_services s ! v) \<noteq> Sv_Building True \<Longrightarrow>
     tc_services (track v tid s) = (tc_services s)[v := (fst (tc_services s ! v), Sv_Live)]"
  by (simp_all add: track_def)

lemma track_ends:
  assumes i: "sinv (tc_records s) (tc_live s) (tc_constructing s) (tc_services s) K" and c: "K c = Some (tid, Built v)"
  shows "sinv (tc_records s) (tc_live (track v tid s)) ((tc_constructing s)(tid := None))
    (tc_services (track v tid s)) (K(c := None))"
proof -
  have name: "fst (tc_services s ! v) = tid" by (rule building_name [OF i c]) simp
  show ?thesis
    using construction_ends [OF i c] name track_fields(2-5) [of s v tid]
    by (cases "snd (tc_services s ! v) = Sv_Building True") simp_all
qed

lemma services_build:
  assumes inv: "services_inv s"
  shows "services_inv (create_builds t ok early s)"
proof (cases "\<exists>tid v. request_phase s t = Some (Rq_Build tid v)")
  case False
  then have "create_builds t ok early s = s"
    by (cases "request_phase s t"; cases "the (request_phase s t)") (auto simp: create_builds_def)
  then show ?thesis using inv by simp
next
  case True
  then obtain tid v where at: "request_phase s t = Some (Rq_Build tid v)" by blast
  note i = inv [unfolded services_inv_def]
  have c: "claim_of s (By_Request t) = Some (tid, Built v)" using at by simp
  have name: "fst (tc_services s ! v) = tid" by (rule building_name [OF i c]) simp
  have k: "claim_of (answer_request t rp x) = (claim_of x)(By_Request t := None)" if "request_phase x t = request_phase s t" for x rp
    using that at claim_set_phase(2) [of x t] by simp
  have "services_inv (end_construction tid (answer_request t rp (set_service v Sv_Gone s)))" for rp
    using construction_ends(1) [OF i c] by (simp add: services_inv_def k name)
  moreover have "services_inv (end_construction tid (answer_request t rp (track v tid s)))" for rp
    using track_ends [OF i c] by (simp add: services_inv_def k track_fields(1))
  ultimately show ?thesis using at by (simp add: create_builds_def)
qed

lemma services_get:
  assumes inv: "services_inv s" and at: "open_of s u = Some (Op_Join tid')"
  shows "services_inv (get_team u tid s)"
    "open_claim p = None \<Longrightarrow> services_inv (set_open u p s)"
proof -
  note i = inv [unfolded services_inv_def]
  show idle: "services_inv (set_open u p s)" if "open_claim p = None" for p
    using i claim_at(2) [OF at] that by (simp add: services_inv_def claim_set_open [OF at] fun_upd_idem)
  have claims: "services_inv ((set_open u (Op_Acquire tid) s)
      \<lparr>tc_constructing := (tc_constructing s)(tid := Some (By_Open u))\<rparr>)" (is "services_inv ?s")
    if "tc_constructing s tid = None" "tc_live s tid = None"
  proof -
    have "claim_of ?s = claim_of (set_open u (Op_Acquire tid) s)" by (rule claim_of_cong) simp_all
    then show ?thesis
      using claim_new [OF i, of "By_Open u" tid Opening] that claim_at(2) [OF at]
      by (simp add: services_inv_def claim_set_open [OF at])
  qed
  show "services_inv (get_team u tid s)"
    using idle claims by (auto simp: get_team_def split: option.split)
qed

lemma services_open:
  assumes inv: "services_inv s"
  shows "services_inv (open_team name s)"
proof -
  let ?s = "s\<lparr>tc_opens := tc_opens s @ [Op_Join name]\<rparr>"
  have "claim_of ?s = claim_of s"
  proof
    fix c show "claim_of ?s c = claim_of s c"
      by (cases c) (auto simp: request_phase_def open_of_def nth_append less_Suc_eq)
  qed
  then have inv': "services_inv ?s" by (rule services_inv_idle [OF inv]) simp_all
  have at: "open_of ?s (length (tc_opens s)) = Some (Op_Join name)" by (simp add: open_of_def)
  note step = services_get [OF inv' at]
  show ?thesis
    using step by (auto simp: open_team_def Let_def split: sum.split option.split)
qed

lemma services_join:
  assumes inv: "services_inv s"
  shows "services_inv (joined_settles u built failed s)"
proof (cases "\<exists>tid. open_of s u = Some (Op_Join tid)")
  case False
  then have "joined_settles u built failed s = s"
    by (cases "open_of s u"; cases "the (open_of s u)") (auto simp: joined_settles_def)
  then show ?thesis using inv by simp
next
  case True
  then obtain tid where at: "open_of s u = Some (Op_Join tid)" by blast
  show ?thesis
    using services_get [OF inv at] at by (auto simp: joined_settles_def split: option.split)
qed

lemma services_rebuild:
  assumes inv: "services_inv s"
  shows "services_inv (rebuild_acquires u s)"
proof (cases "\<exists>tid. open_of s u = Some (Op_Acquire tid)")
  case False
  then have "rebuild_acquires u s = s"
    by (cases "open_of s u"; cases "the (open_of s u)") (auto simp: rebuild_acquires_def)
  then show ?thesis using inv by simp
next
  case True
  then obtain tid where at: "open_of s u = Some (Op_Acquire tid)" by blast
  note i = inv [unfolded services_inv_def]
  have c: "claim_of s (By_Open u) = Some (tid, Opening)" using at by simp
  have L: "tc_live s tid = None" using sinvD(5) [OF i c] by simp
  have release: "services_inv (end_construction tid (set_open u (Op_Over rp) s))" for rp
    using claim_released [OF i c] by (simp add: services_inv_def claim_set_open [OF at])
  have build: "services_inv (new_service tid (set_open u (Op_Build tid (length (tc_services s))) s))"
    if "tc_records s tid = Some r" for r
    using service_built [OF i c _ L] that by (simp add: services_inv_def claim_set_open [OF at])
  show ?thesis
    using release build at by (auto simp: rebuild_acquires_def split: option.split)
qed

lemma services_rebuilt:
  assumes inv: "services_inv s"
  shows "services_inv (rebuild_ends u ok s)"
proof (cases "\<exists>tid v. open_of s u = Some (Op_Build tid v)")
  case False
  then have "rebuild_ends u ok s = s"
    by (cases "open_of s u"; cases "the (open_of s u)") (auto simp: rebuild_ends_def)
  then show ?thesis using inv by simp
next
  case True
  then obtain tid v where at: "open_of s u = Some (Op_Build tid v)" by blast
  note i = inv [unfolded services_inv_def]
  have c: "claim_of s (By_Open u) = Some (tid, Built v)" using at by simp
  have name: "fst (tc_services s ! v) = tid" by (rule building_name [OF i c]) simp
  have k: "claim_of (set_open u p x) = (claim_of x)(By_Open u := open_claim p)" if "open_of x u = open_of s u" for x p
    using that at claim_set_open [of x u] by simp
  have "services_inv (end_construction tid (set_open u (Op_Over rp) (set_service v Sv_Gone s)))" for rp
    using construction_ends(1) [OF i c] by (simp add: services_inv_def k name)
  moreover have "services_inv (end_construction tid (set_open u (Op_Over rp) (track v tid s)))" for rp
    using track_ends [OF i c] by (simp add: services_inv_def k track_fields(1))
  ultimately show ?thesis using at by (simp add: rebuild_ends_def)
qed

lemma services_record:
  assumes inv: "services_inv s"
  shows "services_inv (record_changes tid now u s)"
proof (cases "tc_records s tid")
  case None
  then show ?thesis using inv by (simp add: record_changes_def)
next
  case (Some r)
  have k: "claim_of (record_changes tid now u s) = claim_of s"
    using Some by (intro claim_of_cong) (simp_all add: record_changes_def)
  show ?thesis
    using records_kept [OF inv [unfolded services_inv_def], of "(tc_records s)(tid := Some (merged now u r))"] Some k
    unfolding services_inv_def k by (simp add: record_changes_def)
qed

lemma services_evict:
  assumes inv: "services_inv s"
  shows "services_inv (evict_service v s)"
proof -
  note i = inv [unfolded services_inv_def]
  have k: "claim_of (evict_service v s) = claim_of s"
    by (rule claim_of_cong; cases "snd (tc_services s ! v)")
       (simp_all add: evict_service_def set_service_def Let_def split_def)
  obtain tid st where at: "tc_services s ! v = (tid, st)" by fastforce
  show ?thesis
  proof (cases "v < length (tc_services s) \<and>
      (case tc_records s tid of Some r \<Rightarrow> tr_status r = Ts_Closed | None \<Rightarrow> False)")
    case False
    then have "evict_service v s = s" using at by (auto simp: evict_service_def)
    then show ?thesis using inv by simp
  next
    case True
    show ?thesis
    proof (cases st)
      case (Sv_Building b)
      then show ?thesis
        using end_marked [OF i, of v tid b True] True at by (simp add: services_inv_def evict_service_def)
    next
      case Sv_Live
      moreover have "tc_live s tid = Some v" using sinvD(3) [OF i] True at Sv_Live by simp
      ultimately show ?thesis
        using service_evicted [OF i, of v tid] True at k unfolding services_inv_def k by (simp add: evict_service_def)
    next
      case Sv_Gone
      then show ?thesis using inv True at by (simp add: evict_service_def)
    qed
  qed
qed

lemma coll_do_services:
  assumes inv: "services_inv s"
  shows "services_inv (coll_do q s)"
proof (cases q)
  case Ci_Close
  show ?thesis
    unfolding Ci_Close by (rule services_inv_idle [OF inv]) (simp_all add: claim_of_cong [of "s\<lparr>tc_closing := True\<rparr>" s])
qed (simp_all add: services_create [OF inv] services_scan [OF inv] services_candidate [OF inv] services_acquire [OF inv]
    services_workspace [OF inv] services_publish [OF inv] services_discard [OF inv] services_build [OF inv]
    services_open [OF inv] services_join [OF inv] services_rebuild [OF inv] services_rebuilt [OF inv]
    services_record [OF inv] services_evict [OF inv])

lemma coll_reach_services: "coll_reach s \<Longrightarrow> services_inv s"
proof (induction rule: coll_reach.induct)
  case (start recs names)
  have "claim_of (new_collection names recs) c = None" for c
    by (cases c) (simp_all add: new_collection_def request_phase_def open_of_def)
  then have "claim_of (new_collection names recs) = (\<lambda>_. None)" by (rule ext)
  then show ?case by (simp add: services_inv_def sinv_def new_collection_def)
qed (rule coll_do_services)

text \<open>
  C31. Over any interleaving of creations, openings, joined constructions, failures and ends of Teams, two
  services of one Team that the collection has not dropped are the same one: there is never a second
  runtime owner beside one that is held or under construction.  A service that is held is the one
  under its name and has a record.  A name that is claimed is claimed by exactly one construction, one that
  is still under way, so no settled construction leaves a name blocked.
\<close>

theorem one_service_per_team:
  assumes "coll_reach s"
  shows "(\<forall>v w. v < length (tc_services s) \<longrightarrow> w < length (tc_services s) \<longrightarrow>
       fst (tc_services s ! v) = fst (tc_services s ! w) \<longrightarrow> snd (tc_services s ! v) \<noteq> Sv_Gone \<longrightarrow>
       snd (tc_services s ! w) \<noteq> Sv_Gone \<longrightarrow> v = w) \<and>
    (\<forall>n v. tc_live s n = Some v \<longrightarrow> v < length (tc_services s) \<and> tc_services s ! v = (n, Sv_Live) \<and> tc_records s n \<noteq> None) \<and>
    (\<forall>n c. tc_constructing s n = Some c \<longleftrightarrow> (\<exists>st. claim_of s c = Some (n, st)))"
proof -
  note i = coll_reach_services [OF assms, unfolded services_inv_def]
  have live_not_built: False
    if b: "v < length (tc_services s)" "w < length (tc_services s)" "tc_services s ! v = (n, Sv_Live)"
      "tc_services s ! w = (n, Sv_Building x)" for v w n x
  proof -
    obtain c st where "claim_of s c = Some (n, st)" "serviced st = Some w"
      using sinvD(4) [OF i b(2,4)] by auto
    from serviced_at [OF i this] show False using sinvD(3) [OF i b(1,3)] by simp
  qed
  have same_built: "v = w"
    if b: "v < length (tc_services s)" "w < length (tc_services s)" "tc_services s ! v = (n, Sv_Building x)"
      "tc_services s ! w = (n, Sv_Building y)" for v w n x y
  proof -
    obtain c st d st' where k: "claim_of s c = Some (n, st)" "serviced st = Some v" "claim_of s d = Some (n, st')"
        "serviced st' = Some w"
      using sinvD(4) [OF i b(1,3)] sinvD(4) [OF i b(2,4)] by (metis serviced.simps(1,2))
    then show "v = w" using claim_unique [OF i k(1,3)] by simp
  qed
  have "v = w"
    if a: "v < length (tc_services s)" "w < length (tc_services s)" "fst (tc_services s ! v) = fst (tc_services s ! w)"
      "snd (tc_services s ! v) \<noteq> Sv_Gone" "snd (tc_services s ! w) \<noteq> Sv_Gone" for v w
  proof -
    obtain n st st' where at: "tc_services s ! v = (n, st)" "tc_services s ! w = (n, st')" using a(3) by (metis prod.collapse)
    show ?thesis
      using a at live_not_built [of v w n] live_not_built [of w v n] same_built [of v w n] sinvD(3) [OF i, of v n]
        sinvD(3) [OF i, of w n]
      by (cases st; cases st') auto
  qed
  then show ?thesis
    using sinvD(2) [OF i] sinvD(1) [OF i] by blast
qed

text \<open>
  A Team is opened three times, twice while its construction runs: one service, which all three get.
\<close>

definition opened_run :: collection where
  "opened_run = fold coll_do
     [Ci_Open ''web-a'', Ci_Open ''web-a'', Ci_Rebuild 0, Ci_Open ''web-a'', Ci_Rebuilt 0 True, Ci_Join 1 (Some 0) False,
      Ci_Join 2 None False]
     (new_collection [''web-a''] [''web-a'' \<mapsto> closed_team\<lparr>tr_team := ''web-a'', tr_status := Ts_Running\<rparr>])"

lemma opened_run_reached: "coll_reach opened_run"
  unfolding opened_run_def
  by (intro coll_reach_fold coll_reach.start) (auto simp: records_ok_def split: if_splits)

lemma opened_run_services:
  "(tc_opens opened_run, tc_services opened_run, tc_live opened_run ''web-a'') =
     ([Op_Over (Or_Service 0), Op_Over (Or_Service 0), Op_Over (Or_Service 0)], [(''web-a'', Sv_Live)], Some 0)"
  by code_simp

theorem one_service_per_team_witness:
  "tc_opens opened_run = [Op_Over (Or_Service 0), Op_Over (Or_Service 0), Op_Over (Or_Service 0)] \<and>
   tc_services opened_run ! 0 = (''web-a'', Sv_Live) \<and> tc_records opened_run ''web-a'' \<noteq> None"
  using opened_run_services one_service_per_team [OF opened_run_reached, THEN conjunct2, THEN conjunct1, rule_format, of "''web-a''" 0]
  by simp

end
