(* ===== verification/Spec2Isabelle.thy ===== *)
theory Spec2Isabelle
  imports Feishu_Access_Props Feishu_Delivery_Props Workflow_Run_Props Scheduler_Runs Codex_Turns_Props Output_Schema_Codec_Props Claude_Rpc_Props
    Agent_Service_Props Agent_Collection_Props Ask_User Team_Service_Props Team_Collection_Props
begin

text \<open>
  A verification library of dreamux: the TypeScript host under \<^verbatim>\<open>packages/\<close> that runs teams of
  coding agents (Codex, Claude Code) for people in Feishu conversations.

  \<^bold>\<open>The program.\<close>  A message from Feishu passes the access gate
  (\<^verbatim>\<open>channel/feishu-channel/src/access\<close>) and is routed by the routing document
  (\<^verbatim>\<open>channel/feishu-channel/src/routing\<close>) to a Dispatcher or to a Team's leader.  The host
  (\<^verbatim>\<open>dreamux/src/service\<close>) turns it into a submission of an Agent, starts the Agent's runtime
  generation, mints the MCP tokens its tool servers use, and hands the input to a provider
  (\<^verbatim>\<open>agent-runtime/codex\<close>, \<^verbatim>\<open>agent-runtime/claude-code\<close>).  What the provider settles is delivered
  by the completion router to whoever asked.  Cron jobs and workflow runs are two more sources
  of submissions, each with a durable record of its own.  A Team is created once for a request, is
  rebuilt from its record after a restart, and ends by a dissolve.  Configuration and state files go
  through one transactional store; stopping goes through fences that wait for work in flight.

  \<^bold>\<open>Theories and sources.\<close>
  \<^item> \<open>Prelude\<close>: results (an error on the left of a sum), \<^verbatim>\<open>Array.find\<close> and in-place updates of a
    row, association lists for \<^verbatim>\<open>Map\<close>s whose order matters, string helpers.  \<open>Js_Value\<close>: the
    values of \<^verbatim>\<open>JSON.parse\<close>.
  \<^item> \<open>Transactional_Store\<close>: \<^verbatim>\<open>dreamux-utils/src/transactional-store.ts\<close>; its locale
    \<open>durable_owner\<close> is the contract of a store over a loader and an encoder, interpreted by the
    routing document, the access state, the peer bots, the cron jobs, the Team records and the Agent identities.
  \<^item> \<open>Feishu_Target\<close>, \<open>Feishu_Routing\<close>, \<open>Feishu_Routing_Props\<close>: \<^verbatim>\<open>routing/\<close>.  The locale
    \<open>route_table\<close> is the abstract table the document implements.
  \<^item> \<open>Feishu_Access\<close>, \<open>Feishu_Access_Props\<close>: \<^verbatim>\<open>access/\<close>.
  \<^item> \<open>Peer_Bots\<close>: \<^verbatim>\<open>chat-bots-store.ts\<close>, \<^verbatim>\<open>introduce.ts\<close> and the mention helpers of the transport.
    \<open>Feishu_Inbound\<close>, \<open>Feishu_Inbound_Props\<close>: \<^verbatim>\<open>inbound/pipeline.ts\<close>, from the arrival of a message to its
    acceptance, over the access gate and the peer bots.
  \<^item> \<open>Feishu_Delivery\<close>, \<open>Feishu_Delivery_Props\<close>: what follows acceptance, \<^verbatim>\<open>inbound/pipeline.ts\<close>,
    \<^verbatim>\<open>router.ts\<close>, \<^verbatim>\<open>target.ts\<close>, \<^verbatim>\<open>session/submitter.ts\<close>, \<^verbatim>\<open>feishu-provisioning.ts\<close> and
    \<^verbatim>\<open>feishu-submit.ts\<close>, over the inbox and the routing document: to whom a message is handed.
  \<^item> \<open>In_Flight\<close>: \<^verbatim>\<open>platform/in-flight-work.ts\<close>, \<^verbatim>\<open>work-fence.ts\<close>, \<^verbatim>\<open>serial-queue.ts\<close> and the
    semaphore of the workflow service; the locale \<open>closing_scope\<close> is what a fence promises.
  \<^item> \<open>Workflow_Journal\<close>, \<open>Workflow_Run\<close> and their \<open>_Props\<close>: \<^verbatim>\<open>service/workflow-service/\<close>
    \<^verbatim>\<open>journal.ts\<close>, \<^verbatim>\<open>run.ts\<close>, \<^verbatim>\<open>types.ts\<close>.
  \<^item> \<open>Cron_Store\<close>, \<open>Scheduler\<close>, \<open>Scheduler_Props\<close>, \<open>Scheduler_Runs\<close>: \<^verbatim>\<open>service/scheduler/\<close>.
  \<^item> \<open>Json_Schema\<close>, \<open>Json_Schema_Props\<close>: \<^verbatim>\<open>command/validate.ts\<close>, \<^verbatim>\<open>command/schema.ts\<close>.
  \<^item> \<open>Output_Schema_Codec\<close>, \<open>Output_Schema_Codec_Props\<close>:
    \<^verbatim>\<open>agent-runtime/codex/src/output-schema-codec.ts\<close>.
  \<^item> \<open>Codex_Turns\<close>, \<open>Codex_Turns_Props\<close>: \<^verbatim>\<open>agent-runtime/codex/src/\<close> \<^verbatim>\<open>turn-manager.ts\<close>,
    \<^verbatim>\<open>events.ts\<close>.
  \<^item> \<open>Claude_Stream\<close>, \<open>Claude_Rpc\<close>, \<open>Claude_Rpc_Props\<close>: \<^verbatim>\<open>agent-runtime/claude-code/src/\<close> \<^verbatim>\<open>stream.ts\<close>; \<^verbatim>\<open>rpc.ts\<close>,
    \<^verbatim>\<open>control-rpc.ts\<close>, the requests of one resident child.
  \<^item> \<open>Completion_Router\<close>: \<^verbatim>\<open>service/completion-router/index.ts\<close>.
  \<^item> \<open>Mcp_Leases\<close>, \<open>Runtime_Generation\<close>, \<open>Runtime_Generation_Props\<close>: \<^verbatim>\<open>service/mcp/leases.ts\<close>,
    \<^verbatim>\<open>service/mcp/catalog.ts\<close>, \<^verbatim>\<open>service/agent/runtime-generation.ts\<close>, \<^verbatim>\<open>runtime-state.ts\<close>.
  \<^item> \<open>Agent_Admission\<close>, \<open>Agent_Service\<close>, \<open>Agent_Service_Props\<close>: \<^verbatim>\<open>service/agent/\<close>
    \<^verbatim>\<open>admission.ts\<close>, \<^verbatim>\<open>submission.ts\<close> and \<^verbatim>\<open>service.ts\<close>, the last composed with the runtime
    generation above.
  \<^item> \<open>Entity_Names\<close>: \<^verbatim>\<open>service/name-allocator.ts\<close>, with the name rule and the registry of names of
    \<^verbatim>\<open>service/agent/\<close>.
  \<^item> \<open>Agent_Store\<close>, \<open>Agent_Collection\<close>, \<open>Agent_Collection_Props\<close>: \<^verbatim>\<open>service/agent/store.ts\<close>, the durable
    identity of an Agent, and \<^verbatim>\<open>service/agent/index.ts\<close>, the TeamMates of a dispatcher or a Team: how the
    service of a name is built, reopened, held and dropped.
  \<^item> \<open>Ask_User\<close>: \<^verbatim>\<open>channel/feishu-channel/src/ask-user/registry.ts\<close>.
  \<^item> \<open>Team_Store\<close>, \<open>Team_Service\<close>, \<open>Team_Collection\<close> and their \<open>_Props\<close>: \<^verbatim>\<open>service/team/\<close>
    \<^verbatim>\<open>types.ts\<close>, \<^verbatim>\<open>store.ts\<close>, \<^verbatim>\<open>create-request.ts\<close>; \<^verbatim>\<open>service.ts\<close>, one Team over its record;
    \<^verbatim>\<open>index.ts\<close>, the Teams of a dispatcher and the requests that create them.

  \<^bold>\<open>How the code is modelled.\<close>  A class is a \<open>record\<close> of its fields, a union a \<open>datatype\<close>, a method
  a definition that returns the changed record, a throw the left of a sum.  An \<^verbatim>\<open>async\<close> method
  is split at its \<^verbatim>\<open>await\<close>s: each stretch between two of them is one definition, what it waits
  for is part of the state, and an \<open>inductive\<close> step relation (or a fold over a list of events)
  interleaves the stretches of everything in flight.  Microtask hops that only resume a settled
  promise are merged with the step that settles it.  Numbers of JavaScript that only count are
  \<open>nat\<close>, JSON numbers are rationals; identities of objects (promises, tokens, runtimes) are
  numbers drawn from a counter of the state.  Fields marked as ghosts in a theory's text record
  what happened and are read by no operation.

  Clocks, random tokens, file outcomes (each write succeeds or fails), SHA-256, the cron
  library, the MCP schema compiler and locale-dependent orders are arguments of the definitions
  that use them; a hypothesis on one is named in the theorem that needs it.

  \<^bold>\<open>What the lemmas show.\<close>  Each component theory ends in its invariant or its refinement and
  the properties that rest on it: what is durable equals what a reload reads (store, routing,
  access, cron, journal); a crash anywhere in a workflow run leaves a state recovery completes;
  admission decisions equal their declarative reading (gate, schema check); nothing is handed
  over twice (cron occurrences, submissions of a turn, requests of a Claude child, completions, Team
  creations); authority is
  released before what held it ends (MCP tokens, leases, fences), and a Team's parts end in order; routines that retry or wait end.
  Properties of kind error are concrete runs of the model in which the code does not do what
  it is meant to.

  \<^bold>\<open>Bounds.\<close>  No fuel is used: every recursion is structural or has a measure, and what may go on
  forever is a step relation.  Limits of the code (pending pairings, delivery attempts, terminal
  turn ids, the semaphore) are definitions with the values of the source.

  \<^bold>\<open>Not modelled.\<close>  Process, socket, terminal and HTTP code (\<^verbatim>\<open>cli\<close>, \<^verbatim>\<open>daemon\<close>, \<^verbatim>\<open>admin\<close>, \<^verbatim>\<open>mcp\<close>
  transports, the Codex RPC, the child supervision and sessions of the providers), the Feishu API wrappers and card
  layout, log lines, and declarations of commands and types: they drive external programs or
  carry no decision of their own.
\<close>

end
